(* ===== verification/Prelude.thy ===== *)
theory Prelude
  imports Main "HOL-Library.Word"
begin

text \<open>
  Shared vocabulary of the development: machine integers at the widths the C code
  declares, the \<open>errno\<close> values, the ways a C call can go wrong, and the generic
  lemmas on lists and words that several components use.
\<close>

unbundle bit_operations_syntax

section \<open>Machine integers\<close>

type_synonym u8 = "8 word"
type_synonym u16 = "16 word"
type_synonym u32 = "32 word"
type_synonym u64 = "64 word"

text \<open>
  An address is a 64-bit word; a C pointer that may be \<open>NULL\<close> is an \<open>option\<close> of
  what it points to.
\<close>

type_synonym addr = u64

section \<open>Errors\<close>

text \<open>
  The \<open>errno\<close> values the code stores or returns (as \<open>-errno\<close>).
\<close>

datatype errno =
    EPERM | ENOENT | EIO | ENXIO | EBADF | EAGAIN | ENOMEM | EACCES | EBUSY | ENODEV
  | EINVAL | ENOSPC | ERANGE | ENOBUFS | ENOTSUP | EALREADY | ETIMEDOUT | EINPROGRESS
  | EOPNOTSUPP | EADDRINUSE | EHOSTUNREACH | EWOULDBLOCK | ECONNABORTED | ECONNRESET
  | ENOTCONN

text \<open>
  A call can also end without returning: a failed \<open>ASSERT\<close>, a true \<open>BUG_ON\<close>, a
  dereferenced null pointer, or an access outside an array; \<open>No_return\<close> is a loop over a broken
  list that never ends.
\<close>

datatype fault = Assert_failed | Bug_on | Null_deref | Out_of_bounds | Div_by_zero | No_return

datatype error = Errno errno | Fault fault

section \<open>Lemma collections\<close>

named_theorems word_nat_simps \<open>rules that move word expressions to natural numbers\<close>
named_theorems repr_intros \<open>introduction rules for representation predicates\<close>

section \<open>Optional first and last elements of a list\<close>

definition hd_opt :: "'a list \<Rightarrow> 'a option" where
  "hd_opt xs = (case xs of [] \<Rightarrow> None | x # _ \<Rightarrow> Some x)"

definition last_opt :: "'a list \<Rightarrow> 'a option" where
  "last_opt xs = (if xs = [] then None else Some (last xs))"

lemma hd_opt_simps [simp]:
  "hd_opt [] = None" "hd_opt (x # xs) = Some x"
  by (simp_all add: hd_opt_def)

lemma last_opt_simps [simp]:
  "last_opt [] = None" "last_opt (xs @ [x]) = Some x" "last_opt [x] = Some x"
  "last_opt (x # y # ys) = last_opt (y # ys)"
  by (simp_all add: last_opt_def)

lemma hd_opt_None [simp]: "hd_opt xs = None \<longleftrightarrow> xs = []"
  by (cases xs) auto

lemma last_opt_None [simp]: "last_opt xs = None \<longleftrightarrow> xs = []"
  by (simp add: last_opt_def)

lemma hd_opt_append: "hd_opt (xs @ ys) = (if xs = [] then hd_opt ys else hd_opt xs)"
  by (cases xs) auto

lemma last_opt_append: "last_opt (xs @ ys) = (if ys = [] then last_opt xs else last_opt ys)"
  by (auto simp: last_opt_def)

lemma last_opt_Cons: "last_opt (x # xs) = (if xs = [] then Some x else last_opt xs)"
  by (auto simp: last_opt_def)

section \<open>Lists\<close>

lemma upt_snoc: "i \<le> n \<Longrightarrow> [i..<Suc n] = [i..<n] @ [n]"
  by simp

lemma distinct_remove1_append:
  "distinct (xs @ x # ys) \<Longrightarrow> remove1 x (xs @ x # ys) = xs @ ys"
  by (induction xs) auto

lemma filter_neq_append:
  "distinct (xs @ x # ys) \<Longrightarrow> filter (\<lambda>y. y \<noteq> x) (xs @ x # ys) = xs @ ys"
  by (induction xs) (auto intro!: filter_True)

section \<open>Powers of two and masks\<close>

text \<open>
  \<open>POWER_OF_2(x)\<close> is the macro of \<open>ring.c\<close>, \<open>mempool.c\<close> and \<open>shfs_defs.h\<close>:
  the value is not zero and shares no bit with its predecessor.
\<close>

definition POWER_OF_2 :: "'w::len word \<Rightarrow> bool" where
  "POWER_OF_2 x \<longleftrightarrow> x \<noteq> 0 \<and> x AND (x - 1) = 0"

lemma nat_and_pred_pow2:
  "(n::nat) > 0 \<Longrightarrow> n AND (n - 1) = 0 \<Longrightarrow> \<exists>k. n = 2 ^ k"
proof (induction n rule: less_induct)
  case (less n)
  show ?case
  proof (cases "even n")
    case True
    then obtain m where m: "n = 2 * m" by blast
    with less.prems have "m > 0" by simp
    then have pred: "n - 1 = 2 * (m - 1) + 1" using m by simp
    have "2 * m AND (2 * (m - 1) + 1) = 2 * (m AND (m - 1))"
      by (simp add: and_rec [of "2 * m"])
    with less.prems(2) m pred have "m AND (m - 1) = 0" by simp
    with less.IH [of m] \<open>m > 0\<close> m obtain k where "m = 2 ^ k" by auto
    with m show ?thesis by (intro exI [of _ "Suc k"]) simp
  next
    case False
    then obtain m where m: "n = 2 * m + 1" by (blast elim: oddE)
    have "Suc (2 * m) AND (2 * m) = 2 * (m AND m)"
      by (subst and_rec) simp
    with less.prems(2) m have "m = 0" by simp
    with m show ?thesis by (intro exI [of _ 0]) simp
  qed
qed

lemma unat_sub_one: "x \<noteq> 0 \<Longrightarrow> unat (x - 1) = unat x - 1"
  by (rule unat_minus_one)

lemma POWER_OF_2_unat:
  fixes x :: "'w::len word"
  assumes "POWER_OF_2 x"
  shows "\<exists>k < LENGTH('w). unat x = 2 ^ k"
proof -
  from assms have nz: "x \<noteq> 0" and a: "x AND (x - 1) = 0"
    by (simp_all add: POWER_OF_2_def)
  from a have "unat (x AND (x - 1)) = 0" by simp
  then have "unat x AND (unat x - 1) = 0"
    by (simp add: unsigned_and_eq unat_sub_one [OF nz])
  moreover have "unat x > 0" using nz by (simp add: unat_gt_0)
  ultimately obtain k where k: "unat x = 2 ^ k" using nat_and_pred_pow2 by blast
  have "unat x < 2 ^ LENGTH('w)" by (rule unsigned_less)
  with k have "k < LENGTH('w)" by (metis nat_power_less_imp_less zero_less_numeral)
  with k show ?thesis by blast
qed

lemma unat_and_mask:
  fixes a m :: "'w::len word"
  assumes "unat m = 2 ^ k - 1"
  shows "unat (a AND m) = unat a mod 2 ^ k"
proof -
  have "unat (a AND m) = unat a AND mask k"
    by (simp add: unsigned_and_eq assms mask_eq_exp_minus_1)
  then show ?thesis by (simp add: take_bit_eq_mask [symmetric] take_bit_eq_mod)
qed

lemma unat_plus_one_less:
  fixes a b :: "'w::len word"
  assumes "unat a < unat b"
  shows "unat (a + 1) = unat a + 1"
proof -
  have "unat b < 2 ^ LENGTH('w)" by (rule unsigned_less)
  with assms have "unat a + 1 < 2 ^ LENGTH('w)" by linarith
  then show ?thesis by (simp add: unat_word_ariths)
qed

lemma unat_and_not_mask:
  fixes a m :: "'w::len word"
  assumes "unat m = 2 ^ k - 1"
  shows "unat (a AND NOT m) = unat a - unat a mod 2 ^ k"
proof -
  have "(a AND m) AND (a AND NOT m) = 0" by (simp add: bit_eq_iff bit_simps)
  then have "(a AND m) + (a AND NOT m) = (a AND m) OR (a AND NOT m)"
    by (simp add: disjunctive_add_eq_or)
  also have "\<dots> = a" by (rule bit_word_eqI) (auto simp: bit_simps)
  finally have "a AND NOT m = a - (a AND m)" by (simp add: algebra_simps)
  moreover have "unat (a AND m) = unat a mod 2 ^ k" by (rule unat_and_mask [OF assms])
  moreover from this have "a AND m \<le> a" by (simp add: word_le_nat_alt)
  ultimately show ?thesis by (simp add: unat_sub)
qed

lemma unat_add_less:
  fixes a b :: "'w::len word"
  assumes "unat a + unat b < 2 ^ LENGTH('w)"
  shows "unat (a + b) = unat a + unat b"
  using assms by (simp add: unat_word_ariths)

lemma unat_mult_less:
  fixes a b :: "'w::len word"
  assumes "unat a * unat b < 2 ^ LENGTH('w)"
  shows "unat (a * b) = unat a * unat b"
  using assms by (simp add: unat_word_ariths)

lemma unat_of_nat_less: "n < 2 ^ LENGTH('w) \<Longrightarrow> unat (of_nat n :: 'w::len word) = n"
  by (simp add: unat_of_nat)

lemma take_bit_unat_self: "take_bit LENGTH('w) (unat (w :: 'w::len word)) = unat w"
  by (rule take_bit_nat_eq_self) (rule unsigned_less)

lemma sint_neg_iff: "sint (w :: u64) < 0 \<longleftrightarrow> 2 ^ 63 \<le> unat w"
proof -
  have "sint w < 0 \<longleftrightarrow> bit (uint w) 63"
    by (simp add: sint_uint signed_take_bit_negative_iff)
  also have "\<dots> \<longleftrightarrow> odd (uint w div 2 ^ 63)" by (simp add: bit_iff_odd)
  also have "\<dots> \<longleftrightarrow> 2 ^ 63 \<le> uint w"
  proof -
    have "uint w < 2 ^ 64" using uint_lt2p [of w] by simp
    then have "uint w div 2 ^ 63 = (if 2 ^ 63 \<le> uint w then 1 else 0)"
      by (auto simp: div_pos_pos_trivial intro!: int_div_pos_eq [where r = "uint w - 2 ^ 63"])
    then show ?thesis by simp
  qed
  also have "\<dots> \<longleftrightarrow> 2 ^ 63 \<le> unat w"
    unfolding uint_nat by (simp only: of_nat_le_iff [where 'a = int, symmetric] of_nat_power of_nat_numeral)
  finally show ?thesis .
qed

lemma unat_ucast_up:
  fixes x :: "'a::len word"
  assumes "LENGTH('a) \<le> LENGTH('b::len)"
  shows "unat (ucast x :: 'b word) = unat x"
proof -
  have "unat x < 2 ^ LENGTH('b)"
    by (rule order_less_le_trans [OF unsigned_less]) (use assms in simp)
  then show ?thesis by (simp add: unsigned_ucast_eq take_bit_nat_eq_self)
qed

lemma unat_ucast_widths:
  "unat (ucast (x :: 32 word) :: 64 word) = unat x"
  "unat (ucast (y :: 8 word) :: 64 word) = unat y"
  "unat (ucast (y :: 8 word) :: 32 word) = unat y"
  by (simp_all add: unat_ucast_up)

end
