(* ===== verification/Ring.thy ===== *)
theory Ring
  imports Prelude
begin

text \<open>
  The ring buffer of object references (\<open>ring.h\<close>, \<open>ring.c\<close>).

  A \<open>ring\<close> is the C \<open>struct ring\<close>: two indices, the size, the mask and the array of
  \<open>void *\<close> slots, one \<open>'a option\<close> each (\<open>None\<close> is \<open>NULL\<close>). The operations run with
  interrupts off (\<open>local_irq_save\<close>), so each is one atomic step here. \<open>ring_list\<close> is the
  abstract queue; the lemmas show that enqueue and dequeue refine the list operations and the
  locale \<open>bounded_fifo\<close> states what a client relies on.
\<close>

section \<open>State\<close>

record 'a ring =
  enq_idx :: u32
  deq_idx :: u32
  ring_size :: u32
  ring_mask :: u32
  ring_slots :: "'a option list"

section \<open>Operations\<close>

text \<open>
  \<open>alloc_ring\<close>: the \<open>ASSERT\<close> on the size, then one \<open>_xmalloc\<close> whose outcome is the
  parameter \<open>mem\<close>: \<open>None\<close> when it fails, otherwise the memory behind the header, whose
  contents are whatever the allocator returns.
\<close>

definition alloc_ring :: "'a option list option \<Rightarrow> u32 \<Rightarrow> error + 'a ring" where
  "alloc_ring mem sz =
     (if \<not> (sz > 0 \<and> POWER_OF_2 sz) then Inl (Fault Assert_failed)
      else case mem of
        None \<Rightarrow> Inl (Errno ENOMEM)
      | Some slots \<Rightarrow>
          Inr \<lparr>enq_idx = 0, deq_idx = 0, ring_size = sz, ring_mask = sz - 1,
               ring_slots = slots\<rparr>)"

definition ring_full :: "'a ring \<Rightarrow> bool" where
  "ring_full r \<longleftrightarrow> (enq_idx r + 1) AND ring_mask r = deq_idx r"

definition ring_empty :: "'a ring \<Rightarrow> bool" where
  "ring_empty r \<longleftrightarrow> enq_idx r = deq_idx r"

definition ring_count :: "'a ring \<Rightarrow> u32" where
  "ring_count r = (ring_size r + enq_idx r - deq_idx r) AND ring_mask r"

definition ring_avail :: "'a ring \<Rightarrow> u32" where
  "ring_avail r = (ring_mask r + deq_idx r - enq_idx r) AND ring_mask r"

definition ring_enqueue :: "'a ring \<Rightarrow> 'a option \<Rightarrow> errno + 'a ring" where
  "ring_enqueue r element =
     (let enq = enq_idx r in
      if (enq + 1) AND ring_mask r = deq_idx r then Inl ENOBUFS
      else Inr (r\<lparr>ring_slots := (ring_slots r)[unat enq := element],
                  enq_idx := (enq + 1) AND ring_mask r\<rparr>))"

text \<open>
  The copy loop of \<open>ring_enqueue_multiple\<close>: the local \<open>enq_idx\<close> and the slots, one
  element after the other.
\<close>

fun ring_copy_in :: "u32 \<Rightarrow> u32 \<Rightarrow> 'a option list \<Rightarrow> 'a option list \<Rightarrow> u32 \<times> 'a option list" where
  "ring_copy_in msk enq slots [] = (enq, slots)"
| "ring_copy_in msk enq slots (e # es) =
     ring_copy_in msk ((enq + 1) AND msk) (slots[unat enq := e]) es"

definition ring_enqueue_multiple ::
    "'a ring \<Rightarrow> 'a option list \<Rightarrow> u32 \<Rightarrow> errno + 'a ring" where
  "ring_enqueue_multiple r elements count =
     (if (ring_size r - 1) - ring_count r < count then Inl ENOBUFS
      else let (enq, slots) = ring_copy_in (ring_mask r) (enq_idx r) (ring_slots r)
                                (take (unat count) elements)
           in Inr (r\<lparr>ring_slots := slots, enq_idx := enq\<rparr>))"

text \<open>
  \<open>ring_try_enqueue_multiple\<close>: \<open>while (!ret || i < count) ret = ring_enqueue(r,
  elements[i++]);\<close>. The loop reads \<open>elements[i]\<close> for every \<open>i\<close> it reaches, so the array
  is a function from indices to the pointers found in memory there. The result is the number
  returned and the ring; \<open>None\<close> would mean that the loop does not end.
\<close>

partial_function (option) ring_try_enqueue_loop ::
    "(nat \<Rightarrow> 'a option) \<Rightarrow> nat \<Rightarrow> nat \<Rightarrow> bool \<Rightarrow> 'a ring \<Rightarrow> (nat \<times> bool \<times> 'a ring) option" where
  "ring_try_enqueue_loop elements count i ok r =
     (if ok \<or> i < count
      then (case ring_enqueue r (elements i) of
              Inl _ \<Rightarrow> ring_try_enqueue_loop elements count (Suc i) False r
            | Inr r' \<Rightarrow> ring_try_enqueue_loop elements count (Suc i) True r')
      else Some (i, ok, r))"

definition ring_try_enqueue_multiple ::
    "'a ring \<Rightarrow> (nat \<Rightarrow> 'a option) \<Rightarrow> nat \<Rightarrow> (nat \<times> 'a ring) option" where
  "ring_try_enqueue_multiple r elements count =
     map_option (\<lambda>(i, ok, r'). (if ok then i else i - 1, r'))
       (ring_try_enqueue_loop elements count 0 True r)"

definition ring_dequeue :: "'a ring \<Rightarrow> 'a option \<times> 'a ring" where
  "ring_dequeue r =
     (let deq = deq_idx r in
      if deq = enq_idx r then (None, r)
      else (ring_slots r ! unat deq, r\<lparr>deq_idx := (deq + 1) AND ring_mask r\<rparr>))"

fun ring_copy_out :: "u32 \<Rightarrow> u32 \<Rightarrow> 'a option list \<Rightarrow> nat \<Rightarrow> u32 \<times> 'a option list" where
  "ring_copy_out msk deq slots 0 = (deq, [])"
| "ring_copy_out msk deq slots (Suc n) =
     (let (deq', es) = ring_copy_out msk ((deq + 1) AND msk) slots n
      in (deq', slots ! unat deq # es))"

text \<open>The elements written to the caller's array are returned as a list.\<close>

definition ring_dequeue_multiple :: "'a ring \<Rightarrow> u32 \<Rightarrow> errno + ('a option list \<times> 'a ring)" where
  "ring_dequeue_multiple r count =
     (if ring_count r < count then Inl ENOBUFS
      else let (deq, es) = ring_copy_out (ring_mask r) (deq_idx r) (ring_slots r) (unat count)
           in Inr (es, r\<lparr>deq_idx := deq\<rparr>))"

text \<open>
  \<open>ring_try_dequeue_multiple\<close>: \<open>ret\<close> stays 0, so the loop condition \<open>!ret || i <
  count\<close> is always true and the loop leaves only through the \<open>NULL\<close> of
  \<open>ring_dequeue\<close>. The list holds the pointers written to \<open>elements[0], elements[1],
  \<dots>\<close>.
\<close>

partial_function (option) ring_try_dequeue_loop ::
    "nat \<Rightarrow> int \<Rightarrow> nat \<Rightarrow> 'a option list \<Rightarrow> 'a ring \<Rightarrow> ('a option list \<times> 'a ring) option" where
  "ring_try_dequeue_loop count ret i out r =
     (if ret = 0 \<or> i < count
      then (case ring_dequeue r of
              (None, r') \<Rightarrow> Some (out, r')
            | (Some e, r') \<Rightarrow> ring_try_dequeue_loop count ret (Suc i) (out @ [Some e]) r')
      else Some (out, r))"

definition ring_try_dequeue_multiple :: "'a ring \<Rightarrow> nat \<Rightarrow> ('a option list \<times> 'a ring) option" where
  "ring_try_dequeue_multiple r count = ring_try_dequeue_loop count 0 0 [] r"

section \<open>Well-formed rings and their abstract queue\<close>

definition ring_ok :: "'a ring \<Rightarrow> bool" where
  "ring_ok r \<longleftrightarrow>
     (\<exists>k < 32. unat (ring_size r) = 2 ^ k) \<and>
     unat (ring_mask r) = unat (ring_size r) - 1 \<and>
     length (ring_slots r) = unat (ring_size r) \<and>
     unat (enq_idx r) < unat (ring_size r) \<and>
     unat (deq_idx r) < unat (ring_size r)"

definition ring_list :: "'a ring \<Rightarrow> 'a option list" where
  "ring_list r = map (\<lambda>i. ring_slots r ! ((unat (deq_idx r) + i) mod unat (ring_size r)))
                     [0..<unat (ring_count r)]"

text \<open>\<open>(size - 1)\<close> slots are available in the ring, as the header says.\<close>

definition ring_cap :: "'a ring \<Rightarrow> nat" where
  "ring_cap r = unat (ring_size r) - 1"

subsection \<open>Index arithmetic\<close>

lemma ring_okD:
  assumes "ring_ok r"
  shows "length (ring_slots r) = unat (ring_size r)"
    and "unat (enq_idx r) < unat (ring_size r)"
    and "unat (deq_idx r) < unat (ring_size r)"
    and "0 < unat (ring_size r)"
  using assms by (auto simp: ring_ok_def)

lemma unat_ring_mask:
  assumes "ring_ok r"
  shows "unat (w AND ring_mask r) = unat w mod unat (ring_size r)"
proof -
  from assms obtain k where "unat (ring_size r) = 2 ^ k" and "unat (ring_mask r) = 2 ^ k - 1"
    by (auto simp: ring_ok_def)
  then show ?thesis by (simp add: unat_and_mask)
qed

lemma unat_ring_succ:
  assumes "ring_ok r" and "unat i < unat (ring_size r)"
  shows "unat ((i + 1) AND ring_mask r) = (unat i + 1) mod unat (ring_size r)"
  using assms by (simp add: unat_ring_mask unat_plus_one_less)

lemma unat_ring_count:
  assumes ok: "ring_ok r"
  shows "unat (ring_count r) =
           (unat (ring_size r) + unat (enq_idx r) - unat (deq_idx r)) mod unat (ring_size r)"
proof -
  from ok obtain k where k: "k < 32" and sz: "unat (ring_size r) = 2 ^ k"
    by (auto simp: ring_ok_def)
  from k have "(2::nat) ^ k \<le> 2 ^ 31" by (intro power_increasing) auto
  with sz ring_okD(2) [OF ok] have "unat (ring_size r) + unat (enq_idx r) < 2 ^ 32" by simp
  then have add: "unat (ring_size r + enq_idx r) = unat (ring_size r) + unat (enq_idx r)"
    by (simp add: unat_word_ariths)
  have "deq_idx r \<le> ring_size r + enq_idx r"
    using ring_okD(3) [OF ok] by (simp add: word_le_nat_alt add)
  then have "unat (ring_size r + enq_idx r - deq_idx r) =
             unat (ring_size r) + unat (enq_idx r) - unat (deq_idx r)"
    by (simp add: unat_sub add)
  then show ?thesis by (simp add: ring_count_def unat_ring_mask [OF ok])
qed

lemma ring_dist_alt:
  "(e::nat) < n \<Longrightarrow> d < n \<Longrightarrow> (n + e - d) mod n = (if d \<le> e then e - d else n + e - d)"
  by (auto simp: mod_if)

lemma ring_succ_alt: "(i::nat) < n \<Longrightarrow> Suc i mod n = (if Suc i = n then 0 else Suc i)"
  by (auto simp: mod_if)

lemma ring_pos_alt: "(d::nat) < n \<Longrightarrow> i < n \<Longrightarrow>
    (d + i) mod n = (if d + i < n then d + i else d + i - n)"
  by (auto simp: mod_if)

lemmas ring_idx_alt = ring_dist_alt ring_succ_alt ring_pos_alt

lemma length_ring_list [simp]: "length (ring_list r) = unat (ring_count r)"
  by (simp add: ring_list_def)

lemma ring_count_bound: "ring_ok r \<Longrightarrow> unat (ring_count r) \<le> ring_cap r"
  using ring_okD(4) [of r] mod_less_divisor [of "unat (ring_size r)"]
  by (fastforce simp: unat_ring_count ring_cap_def less_Suc_eq_le [symmetric])

lemma ring_full_iff:
  assumes ok: "ring_ok r"
  shows "ring_full r \<longleftrightarrow> unat (ring_count r) = ring_cap r"
proof -
  have "ring_full r \<longleftrightarrow> (unat (enq_idx r) + 1) mod unat (ring_size r) = unat (deq_idx r)"
    using unat_ring_succ [OF ok ring_okD(2) [OF ok]]
    by (metis ring_full_def unsigned_word_eqI)
  then show ?thesis
    using ring_okD [OF ok]
    by (auto simp: unat_ring_count [OF ok] ring_cap_def ring_idx_alt split: if_splits)
qed

lemma ring_empty_iff:
  assumes ok: "ring_ok r"
  shows "ring_empty r \<longleftrightarrow> ring_list r = []"
proof -
  have "ring_empty r \<longleftrightarrow> unat (enq_idx r) = unat (deq_idx r)"
    by (metis ring_empty_def unsigned_word_eqI)
  also have "\<dots> \<longleftrightarrow> unat (ring_count r) = 0"
    using ring_okD [OF ok] by (auto simp: unat_ring_count [OF ok] ring_idx_alt)
  finally show ?thesis by (metis length_0_conv length_ring_list)
qed


subsection \<open>Enqueue and dequeue refine the list operations\<close>

lemma ring_upd_ok:
  assumes "ring_ok r" and "unat e < unat (ring_size r)" and "unat d < unat (ring_size r)"
    and "length s = length (ring_slots r)"
  shows "ring_ok (r\<lparr>ring_slots := s, enq_idx := e, deq_idx := d\<rparr>)"
  using assms by (auto simp: ring_ok_def)

lemma ring_enqueue_full:
  assumes "ring_ok r" and "unat (ring_count r) = ring_cap r"
  shows "ring_enqueue r x = Inl ENOBUFS"
  using assms ring_full_iff [OF assms(1)] by (simp add: ring_enqueue_def ring_full_def Let_def)

definition ring_put :: "'a ring \<Rightarrow> 'a option \<Rightarrow> 'a ring" where
  "ring_put r x = r\<lparr>ring_slots := (ring_slots r)[unat (enq_idx r) := x],
                    enq_idx := (enq_idx r + 1) AND ring_mask r\<rparr>"

lemma ring_enqueue_room:
  assumes "ring_ok r" and "unat (ring_count r) < ring_cap r"
  shows "ring_enqueue r x = Inr (ring_put r x)"
  using assms ring_full_iff [OF assms(1)]
  by (simp add: ring_enqueue_def ring_full_def ring_put_def Let_def)

lemma ring_put_simps [simp]:
  "ring_size (ring_put r x) = ring_size r" "ring_mask (ring_put r x) = ring_mask r"
  "deq_idx (ring_put r x) = deq_idx r" "ring_cap (ring_put r x) = ring_cap r"
  by (simp_all add: ring_put_def ring_cap_def)

lemma ring_put_ok:
  assumes ok: "ring_ok r"
  shows "ring_ok (ring_put r x)"
proof -
  have "unat ((enq_idx r + 1) AND ring_mask r) < unat (ring_size r)"
    using unat_ring_mask [OF ok] ring_okD(4) [OF ok] by simp
  then show ?thesis using ok by (auto simp: ring_ok_def ring_put_def)
qed

lemma ring_put_count:
  assumes ok: "ring_ok r" and room: "unat (ring_count r) < ring_cap r"
  shows "unat (ring_count (ring_put r x)) = unat (ring_count r) + 1"
proof -
  have e: "unat (enq_idx (ring_put r x)) = Suc (unat (enq_idx r)) mod unat (ring_size r)"
    using unat_ring_succ [OF ok ring_okD(2) [OF ok]] by (simp add: ring_put_def)
  show ?thesis
    using room ring_okD(2-4) [OF ok]
    by (auto simp: unat_ring_count [OF ok] unat_ring_count [OF ring_put_ok [OF ok]] e
        ring_idx_alt ring_cap_def split: if_splits)
qed

lemma ring_put_list:
  assumes ok: "ring_ok r" and room: "unat (ring_count r) < ring_cap r"
  shows "ring_list (ring_put r x) = ring_list r @ [x]"
proof -
  let ?n = "unat (ring_size r)" and ?d = "unat (deq_idx r)" and ?e = "unat (enq_idx r)"
    and ?c = "unat (ring_count r)"
  note idx = ring_okD(2-4) [OF ok]
  have c: "?c = (?n + ?e - ?d) mod ?n" by (rule unat_ring_count [OF ok])
  have e: "(?d + ?c) mod ?n = ?e"
    using idx by (auto simp: c ring_idx_alt)
  have ne: "(?d + i) mod ?n \<noteq> ?e" if "i < ?c" for i
    using that idx by (auto simp: c ring_idx_alt split: if_splits)
  have "map (\<lambda>i. (ring_slots r)[?e := x] ! ((?d + i) mod ?n)) [0..<?c] = ring_list r"
    unfolding ring_list_def by (intro map_cong) (auto simp: nth_list_update_neq [OF ne [symmetric]])
  moreover have "(ring_slots r)[?e := x] ! ?e = x"
    using idx ring_okD(1) [OF ok] by simp
  ultimately show ?thesis
    by (simp add: ring_list_def [of "ring_put r x"] ring_put_count [OF ok room] e)
       (simp add: ring_put_def e)
qed

definition ring_drop :: "'a ring \<Rightarrow> 'a ring" where
  "ring_drop r = r\<lparr>deq_idx := (deq_idx r + 1) AND ring_mask r\<rparr>"

lemma ring_drop_simps [simp]:
  "ring_size (ring_drop r) = ring_size r" "ring_mask (ring_drop r) = ring_mask r"
  "enq_idx (ring_drop r) = enq_idx r" "ring_slots (ring_drop r) = ring_slots r"
  "ring_cap (ring_drop r) = ring_cap r"
  by (simp_all add: ring_drop_def ring_cap_def)

lemma ring_drop_ok:
  assumes ok: "ring_ok r"
  shows "ring_ok (ring_drop r)"
proof -
  have "unat ((deq_idx r + 1) AND ring_mask r) < unat (ring_size r)"
    using unat_ring_mask [OF ok] ring_okD(4) [OF ok] by simp
  then show ?thesis using ok by (auto simp: ring_ok_def ring_drop_def)
qed

lemma ring_dequeue_empty:
  assumes "ring_ok r" and "ring_list r = []"
  shows "ring_dequeue r = (None, r)"
  using assms ring_empty_iff [OF assms(1)]
  by (simp add: ring_dequeue_def ring_empty_def Let_def)

lemma ring_dequeue_Cons:
  assumes ok: "ring_ok r" and xs: "ring_list r = x # xs"
  shows "ring_dequeue r = (x, ring_drop r)" and "ring_list (ring_drop r) = xs"
proof -
  let ?n = "unat (ring_size r)" and ?d = "unat (deq_idx r)" and ?e = "unat (enq_idx r)"
    and ?c = "unat (ring_count r)"
  note idx = ring_okD(2-4) [OF ok]
  have c: "?c = (?n + ?e - ?d) mod ?n" by (rule unat_ring_count [OF ok])
  have cs: "?c = Suc (length xs)" using xs length_ring_list [of r] by simp
  have d: "unat (deq_idx (ring_drop r)) = Suc ?d mod ?n"
    using unat_ring_succ [OF ok ring_okD(3) [OF ok]] by (simp add: ring_drop_def)
  have c': "unat (ring_count (ring_drop r)) = length xs"
    using cs idx d
    by (auto simp: c unat_ring_count [OF ring_drop_ok [OF ok]] ring_idx_alt split: if_splits)
  have hd: "ring_slots r ! ?d = x"
    using arg_cong [OF xs, of hd] idx by (simp add: ring_list_def cs upt_conv_Cons del: upt_Suc)
  have "enq_idx r \<noteq> deq_idx r" using ring_empty_iff [OF ok] xs by (simp add: ring_empty_def)
  with hd show "ring_dequeue r = (x, ring_drop r)"
    by (auto simp: ring_dequeue_def ring_drop_def Let_def)
  have "ring_list (ring_drop r) ! i = xs ! i" if i: "i < length xs" for i
  proof -
    have "ring_list (ring_drop r) ! i = ring_slots r ! ((Suc ?d mod ?n + i) mod ?n)"
      using i c' d by (simp add: ring_list_def)
    also have "(Suc ?d mod ?n + i) mod ?n = (?d + Suc i) mod ?n"
      by (simp add: mod_simps)
    also have "ring_slots r ! ((?d + Suc i) mod ?n) = ring_list r ! Suc i"
      using i cs by (simp add: ring_list_def del: upt_Suc)
    finally show ?thesis by (simp add: xs)
  qed
  then show "ring_list (ring_drop r) = xs"
    by (intro nth_equalityI) (simp_all add: c')
qed


lemmas ring_put_facts = ring_put_ok ring_put_count ring_put_list
lemmas ring_drop_facts = ring_drop_ok ring_dequeue_Cons

subsection \<open>The contract a client uses\<close>

text \<open>
  A bounded first-in first-out queue of non-null references. \<open>enq_all\<close> and \<open>deq_n\<close> are the
  loops a client runs over it: filling it (the allocation of a pool) and draining it.
\<close>

fun enq_all :: "('q \<Rightarrow> 'e \<Rightarrow> errno + 'q) \<Rightarrow> 'q \<Rightarrow> 'e list \<Rightarrow> errno + 'q" where
  "enq_all enq q [] = Inr q"
| "enq_all enq q (e # es) = (case enq q e of Inl x \<Rightarrow> Inl x | Inr q' \<Rightarrow> enq_all enq q' es)"

fun deq_n :: "('q \<Rightarrow> 'e option \<times> 'q) \<Rightarrow> nat \<Rightarrow> 'q \<Rightarrow> 'e list \<times> 'q" where
  "deq_n deq 0 q = ([], q)"
| "deq_n deq (Suc n) q =
     (case deq q of
        (None, q') \<Rightarrow> ([], q')
      | (Some e, q') \<Rightarrow> (let (es, q'') = deq_n deq n q' in (e # es, q'')))"

locale bounded_fifo =
  fixes enq :: "'q \<Rightarrow> 'e \<Rightarrow> errno + 'q"
    and deq :: "'q \<Rightarrow> 'e option \<times> 'q"
    and contents :: "'q \<Rightarrow> 'e list"
    and capacity :: "'q \<Rightarrow> nat"
    and wf :: "'q \<Rightarrow> bool"
  assumes bound: "wf q \<Longrightarrow> length (contents q) \<le> capacity q"
    and enq_full: "wf q \<Longrightarrow> length (contents q) = capacity q \<Longrightarrow> enq q e = Inl ENOBUFS"
    and enq_room: "wf q \<Longrightarrow> length (contents q) < capacity q \<Longrightarrow>
      \<exists>q'. enq q e = Inr q' \<and> wf q' \<and> contents q' = contents q @ [e] \<and> capacity q' = capacity q"
    and deq_none: "wf q \<Longrightarrow> contents q = [] \<Longrightarrow> deq q = (None, q)"
    and deq_some: "wf q \<Longrightarrow> contents q = x # xs \<Longrightarrow>
      \<exists>q'. deq q = (Some x, q') \<and> wf q' \<and> contents q' = xs \<and> capacity q' = capacity q"
begin

lemma enq_Inl: "wf q \<Longrightarrow> enq q e = Inl x \<longleftrightarrow> x = ENOBUFS \<and> length (contents q) = capacity q"
  using bound [of q] enq_full [of q e] enq_room [of q e]
  by (cases "length (contents q) = capacity q") auto

lemma enq_Inr:
  assumes "wf q" and "enq q e = Inr q'"
  shows "wf q' \<and> contents q' = contents q @ [e] \<and> capacity q' = capacity q"
  using assms bound [of q] enq_full [of q e] enq_room [of q e]
  by (cases "length (contents q) = capacity q") auto

lemma deq_Some:
  assumes "wf q" and "deq q = (Some x, q')"
  shows "wf q' \<and> contents q = x # contents q' \<and> capacity q' = capacity q"
  using assms deq_none [of q] deq_some [of q] by (cases "contents q") auto

lemma deq_None:
  assumes "wf q" and "deq q = (None, q')"
  shows "contents q = [] \<and> q' = q"
  using assms deq_none [of q] deq_some [of q] by (cases "contents q") auto

lemma enq_all_room:
  "wf q \<Longrightarrow> length (contents q) + length es \<le> capacity q \<Longrightarrow>
   \<exists>q'. enq_all enq q es = Inr q' \<and> wf q' \<and> contents q' = contents q @ es \<and>
        capacity q' = capacity q"
proof (induction es arbitrary: q)
  case (Cons e es)
  from Cons.prems obtain q1 where q1: "enq q e = Inr q1" "wf q1" "contents q1 = contents q @ [e]"
      "capacity q1 = capacity q"
    using enq_room [of q e] by auto
  from Cons.prems(2) q1 have "length (contents q1) + length es \<le> capacity q1" by simp
  from Cons.IH [OF q1(2) this] q1 show ?case by auto
qed simp

lemma deq_n_take:
  "wf q \<Longrightarrow> n \<le> length (contents q) \<Longrightarrow>
   \<exists>q'. deq_n deq n q = (take n (contents q), q') \<and> wf q' \<and> contents q' = drop n (contents q) \<and>
        capacity q' = capacity q"
proof (induction n arbitrary: q)
  case (Suc n)
  then obtain x xs where xs: "contents q = x # xs" by (cases "contents q") auto
  with Suc.prems deq_some [of q x xs] obtain q1
    where q1: "deq q = (Some x, q1)" "wf q1" "contents q1 = xs" "capacity q1 = capacity q" by auto
  from Suc.prems(2) xs q1 have "n \<le> length (contents q1)" by simp
  from Suc.IH [OF q1(2) this] q1 xs show ?case by auto
qed simp

lemma fill_drain:
  assumes "wf q" and "contents q = []" and "length es \<le> capacity q"
  shows "\<exists>q' q''. enq_all enq q es = Inr q' \<and> deq_n deq (length es) q' = (es, q'') \<and>
           wf q'' \<and> contents q'' = []"
proof -
  from assms enq_all_room [of q es] obtain q'
    where q': "enq_all enq q es = Inr q'" "wf q'" "contents q' = es" by auto
  from deq_n_take [OF q'(2), of "length es"] q' show ?thesis by auto
qed

end

definition ring_refs :: "'a ring \<Rightarrow> 'a list" where
  "ring_refs r = map the (ring_list r)"

definition ring_wf :: "'a ring \<Rightarrow> bool" where
  "ring_wf r \<longleftrightarrow> ring_ok r \<and> None \<notin> set (ring_list r)"

lemma ring_list_refs: "ring_wf r \<Longrightarrow> ring_list r = map Some (ring_refs r)"
  by (auto simp: ring_wf_def ring_refs_def intro!: nth_equalityI)
     (metis length_ring_list nth_mem option.exhaust_sel)

interpretation rq: bounded_fifo "\<lambda>r e. ring_enqueue r (Some e)" ring_dequeue ring_refs ring_cap ring_wf
proof (unfold_locales, goal_cases)
  case (1 q)
  then show ?case by (simp add: ring_wf_def ring_refs_def ring_count_bound)
next
  case (2 q e)
  then show ?case by (simp add: ring_wf_def ring_refs_def ring_enqueue_full)
next
  case (3 q e)
  then show ?case
    by (simp add: ring_wf_def ring_refs_def ring_enqueue_room ring_put_facts)
next
  case (4 q)
  then show ?case by (simp add: ring_wf_def ring_refs_def ring_dequeue_empty)
next
  case (5 q x xs)
  then have "ring_ok q" "ring_list q = Some x # map Some xs"
    using ring_list_refs [of q] by (auto simp: ring_wf_def)
  then show ?case
    using ring_dequeue_Cons [of q "Some x" "map Some xs"] ring_drop_ok [of q]
    by (auto simp: ring_wf_def ring_refs_def comp_def)
qed


section \<open>Several elements at once\<close>

lemma ring_copy_in_put:
  "ring_copy_in (ring_mask r) ((enq_idx r + 1) AND ring_mask r)
      ((ring_slots r)[unat (enq_idx r) := e]) es =
   ring_copy_in (ring_mask (ring_put r e)) (enq_idx (ring_put r e)) (ring_slots (ring_put r e)) es"
  by (simp add: ring_put_def)

lemma ring_copy_in_list:
  "ring_ok r \<Longrightarrow> unat (ring_count r) + length es \<le> ring_cap r \<Longrightarrow>
   ring_copy_in (ring_mask r) (enq_idx r) (ring_slots r) es = (enq, slots) \<Longrightarrow>
   ring_ok (r\<lparr>ring_slots := slots, enq_idx := enq\<rparr>) \<and>
   ring_list (r\<lparr>ring_slots := slots, enq_idx := enq\<rparr>) = ring_list r @ es"
proof (induction es arbitrary: r)
  case Nil
  then have "r\<lparr>ring_slots := slots, enq_idx := enq\<rparr> = r" by auto
  with Nil.prems(1) show ?case by simp
next
  case (Cons e es)
  from Cons.prems(2) have room: "unat (ring_count r) < ring_cap r" by simp
  let ?r = "ring_put r e"
  have upd: "r\<lparr>ring_slots := slots, enq_idx := enq\<rparr> = ?r\<lparr>ring_slots := slots, enq_idx := enq\<rparr>"
    by (simp add: ring_put_def)
  have "unat (ring_count ?r) + length es \<le> ring_cap ?r"
    using Cons.prems(2) ring_put_count [OF Cons.prems(1) room] by simp
  moreover have "ring_copy_in (ring_mask ?r) (enq_idx ?r) (ring_slots ?r) es = (enq, slots)"
    using Cons.prems(3) by (simp only: ring_copy_in.simps ring_copy_in_put)
  ultimately show ?case
    using Cons.IH [of ?r] ring_put_ok [OF Cons.prems(1)] ring_put_list [OF Cons.prems(1) room]
    by (simp add: upd)
qed

lemma ring_copy_out_list:
  "ring_ok r \<Longrightarrow> n \<le> unat (ring_count r) \<Longrightarrow>
   \<exists>deq. ring_copy_out (ring_mask r) (deq_idx r) (ring_slots r) n = (deq, take n (ring_list r)) \<and>
         ring_ok (r\<lparr>deq_idx := deq\<rparr>) \<and> ring_list (r\<lparr>deq_idx := deq\<rparr>) = drop n (ring_list r)"
proof (induction n arbitrary: r)
  case 0
  then show ?case by simp
next
  case (Suc n)
  then obtain x xs where xs: "ring_list r = x # xs" by (cases "ring_list r") (auto simp flip: length_ring_list)
  note drop = ring_dequeue_Cons [OF Suc.prems(1) xs]
  have "deq_idx r \<noteq> enq_idx r"
    using ring_empty_iff [OF Suc.prems(1)] xs by (simp add: ring_empty_def eq_commute)
  with drop(1) have x: "ring_slots r ! unat (deq_idx r) = x" by (simp add: ring_dequeue_def Let_def)
  have "n \<le> unat (ring_count (ring_drop r))"
    using Suc.prems(2) drop(2) xs by (simp flip: length_ring_list)
  with Suc.IH [OF ring_drop_ok [OF Suc.prems(1)] this] drop(2) obtain deq where
      "ring_copy_out (ring_mask r) (deq_idx (ring_drop r)) (ring_slots r) n = (deq, take n xs)"
      "ring_ok (ring_drop r\<lparr>deq_idx := deq\<rparr>)" "ring_list (ring_drop r\<lparr>deq_idx := deq\<rparr>) = drop n xs"
    by auto
  then show ?case by (auto simp: ring_drop_def xs x)
qed

lemma ring_free_word:
  assumes ok: "ring_ok r"
  shows "unat ((ring_size r - 1) - ring_count r) = ring_cap r - unat (ring_count r)"
proof -
  have "ring_size r \<noteq> 0" using ring_okD(4) [OF ok] by (auto simp: unat_gt_0)
  then have "unat (ring_size r - 1) = ring_cap r" by (simp add: unat_sub_one ring_cap_def)
  with ring_count_bound [OF ok] show ?thesis by (simp add: unat_sub word_le_nat_alt)
qed

subsection \<open>The loops that try\<close>

lemma ring_try_enqueue_full:
  "ring_ok r \<Longrightarrow> unat (ring_count r) = ring_cap r \<Longrightarrow>
   ring_try_enqueue_loop elements count i False r = Some (max i count, False, r)"
proof (induction "count - i" arbitrary: i)
  case 0
  then show ?case by (subst ring_try_enqueue_loop.simps) simp
next
  case (Suc n)
  then have "ring_try_enqueue_loop elements count (Suc i) False r = Some (max (Suc i) count, False, r)"
    by simp
  moreover from Suc.hyps(2) have "i < count" by simp
  ultimately show ?case using Suc
    by (subst ring_try_enqueue_loop.simps) (simp add: ring_enqueue_full)
qed

lemma ring_try_enqueue_fills:
  "ring_ok r \<Longrightarrow> ring_cap r - unat (ring_count r) = n \<Longrightarrow>
   \<exists>r'. ring_try_enqueue_loop elements count i True r = Some (max (i + n + 1) count, False, r') \<and>
        ring_ok r' \<and> ring_cap r' = ring_cap r \<and>
        ring_list r' = ring_list r @ map elements [i..<i + n]"
proof (induction n arbitrary: i r)
  case 0
  then have full: "unat (ring_count r) = ring_cap r" using ring_count_bound [of r] by simp
  with 0 show ?case
    by (subst ring_try_enqueue_loop.simps)
       (simp add: ring_enqueue_full ring_try_enqueue_full)
next
  case (Suc n)
  then have room: "unat (ring_count r) < ring_cap r" by simp
  let ?r = "ring_put r (elements i)"
  have "ring_cap ?r - unat (ring_count ?r) = n"
    using Suc.prems room by (simp add: ring_put_count)
  from Suc.IH [OF ring_put_ok [OF Suc.prems(1)] this, of "Suc i"] obtain r'
    where r': "ring_try_enqueue_loop elements count (Suc i) True ?r =
                 Some (max (Suc i + n + 1) count, False, r')" "ring_ok r'"
      "ring_cap r' = ring_cap ?r"
      "ring_list r' = ring_list ?r @ map elements [Suc i..<Suc i + n]" by auto
  then show ?case
    using Suc.prems room
    by (subst ring_try_enqueue_loop.simps)
       (simp add: ring_enqueue_room ring_put_list upt_conv_Cons del: upt_Suc)
qed

lemma ring_try_dequeue_drains:
  "ring_wf r \<Longrightarrow> \<exists>r'. ring_try_dequeue_loop count 0 i out r = Some (out @ ring_list r, r') \<and>
     ring_wf r' \<and> ring_list r' = []"
proof (induction "ring_refs r" arbitrary: i out r)
  case Nil
  then have e: "ring_list r = []" by (simp add: ring_refs_def)
  with Nil show ?case
    by (subst ring_try_dequeue_loop.simps) (simp add: ring_dequeue_empty ring_wf_def)
next
  case (Cons x xs)
  from rq.deq_some [OF Cons.prems Cons.hyps(2) [symmetric]] obtain r1
    where r1: "ring_dequeue r = (Some x, r1)" "ring_wf r1" "ring_refs r1 = xs" by auto
  then have "ring_list r = Some x # ring_list r1"
    using Cons ring_list_refs [of r] ring_list_refs [of r1] by (metis list.simps(9))
  with Cons.hyps(1) [of r1 "Suc i" "out @ [Some x]"] r1 show ?case
    by (subst ring_try_dequeue_loop.simps) auto
qed


section \<open>Properties\<close>

definition sample_ring :: "nat ring" where
  "sample_ring = \<lparr>enq_idx = 1, deq_idx = 3, ring_size = 4, ring_mask = 3,
                  ring_slots = [Some 7, None, None, Some 5]\<rparr>"

lemma sample_ring_wf: "ring_wf sample_ring" "ring_refs sample_ring = [5, 7]" "ring_cap sample_ring = 3"
proof -
  have c: "ring_count sample_ring = 2" by code_simp
  have "ring_list sample_ring = [Some 5, Some 7]"
    unfolding ring_list_def c by (simp add: sample_ring_def upt_conv_Cons)
  moreover have "ring_ok sample_ring"
    by (simp add: ring_ok_def sample_ring_def) (intro exI [of _ 2], simp)
  ultimately show "ring_wf sample_ring" "ring_refs sample_ring = [5, 7]"
    by (simp_all add: ring_wf_def ring_refs_def)
  show "ring_cap sample_ring = 3" by (simp add: ring_cap_def sample_ring_def)
qed

text \<open>
  C28: \<open>alloc_ring\<close> of a power of two makes an empty, well-formed ring of \<open>size - 1\<close>
  places; filling it with any list of at most that many references succeeds, and dequeuing
  that often returns the same references in the same order and leaves it empty.
\<close>

theorem alloc_ring_fifo:
  assumes "POWER_OF_2 sz" and "length slots = unat sz" and "length es < unat sz"
  shows "\<exists>r r' r''. alloc_ring (Some slots) sz = Inr r \<and>
           enq_all (\<lambda>r e. ring_enqueue r (Some e)) r es = Inr r' \<and>
           deq_n ring_dequeue (length es) r' = (es, r'') \<and> ring_empty r''"
proof -
  obtain k where k: "k < 32" "unat sz = 2 ^ k" using POWER_OF_2_unat [OF assms(1)] by auto
  have nz: "sz \<noteq> 0" using assms(1) by (simp add: POWER_OF_2_def)
  let ?r = "\<lparr>enq_idx = 0, deq_idx = 0, ring_size = sz, ring_mask = sz - 1, ring_slots = slots\<rparr>"
  have a: "alloc_ring (Some slots) sz = Inr ?r"
    using assms(1) nz by (simp add: alloc_ring_def word_gt_0)
  have ok: "ring_ok ?r" using k nz assms(2) by (auto simp: ring_ok_def unat_sub_one)
  then have l: "ring_list ?r = []" using ring_empty_iff [OF ok] by (simp add: ring_empty_def)
  have "ring_wf ?r" "ring_refs ?r = []" using ok l by (simp_all add: ring_wf_def ring_refs_def)
  moreover have "length es \<le> ring_cap ?r" using assms(3) by (simp add: ring_cap_def)
  ultimately obtain r' r''
    where "enq_all (\<lambda>r e. ring_enqueue r (Some e)) ?r es = Inr r'"
      "deq_n ring_dequeue (length es) r' = (es, r'')" "ring_wf r''" "ring_refs r'' = []"
    using rq.fill_drain [of ?r es] by blast
  moreover from this have "ring_empty r''"
    using ring_empty_iff [of r''] by (simp add: ring_wf_def ring_refs_def)
  ultimately show ?thesis using a by blast
qed

theorem alloc_ring_fifo_witness:
  "\<exists>r r' r''. alloc_ring (Some [None, None, None, None]) 4 = Inr r \<and>
     enq_all (\<lambda>r e. ring_enqueue r (Some e)) r [10, 20, 30 :: nat] = Inr r' \<and>
     deq_n ring_dequeue (length [10, 20, 30 :: nat]) r' = ([10, 20, 30], r'') \<and> ring_empty r''"
  by (rule alloc_ring_fifo) (simp_all add: POWER_OF_2_def)

text \<open>
  On a well-formed ring \<open>ring_enqueue_multiple\<close> either refuses with \<open>ENOBUFS\<close>, exactly
  when fewer than \<open>count\<close> places are free and then changing nothing, or appends the
  \<open>count\<close> elements in order; a \<open>ring_dequeue_multiple\<close> of the whole new contents gives back
  the old contents followed by the new elements.
\<close>

theorem ring_multiple_roundtrip:
  assumes "ring_wf r" and "unat count \<le> length es"
  shows "if ring_cap r - length (ring_refs r) < unat count
         then ring_enqueue_multiple r (map Some es) count = Inl ENOBUFS
         else \<exists>r' r''. ring_enqueue_multiple r (map Some es) count = Inr r' \<and>
                ring_dequeue_multiple r' (ring_count r') =
                  Inr (map Some (ring_refs r @ take (unat count) es), r'') \<and> ring_empty r''"
proof -
  from assms(1) have ok: "ring_ok r" by (simp add: ring_wf_def)
  have len: "length (ring_refs r) = unat (ring_count r)" by (simp add: ring_refs_def)
  have free: "(ring_size r - 1) - ring_count r < count \<longleftrightarrow>
              ring_cap r - length (ring_refs r) < unat count"
    using ring_free_word [OF ok] by (simp add: word_less_nat_alt len)
  show ?thesis
  proof (cases "ring_cap r - length (ring_refs r) < unat count")
    case True
    with free show ?thesis by (simp add: ring_enqueue_multiple_def)
  next
    case False
    obtain enq slots where cp: "ring_copy_in (ring_mask r) (enq_idx r) (ring_slots r)
        (take (unat count) (map Some es)) = (enq, slots)" by fastforce
    let ?r = "r\<lparr>ring_slots := slots, enq_idx := enq\<rparr>"
    from False ring_count_bound [OF ok] have
      "unat (ring_count r) + length (take (unat count) (map Some es)) \<le> ring_cap r"
      using assms(2) len by simp
    from ring_copy_in_list [OF ok this cp] have ok': "ring_ok ?r"
      and l: "ring_list ?r = map Some (ring_refs r @ take (unat count) es)"
      using ring_list_refs [OF assms(1)] by (simp_all add: take_map)
    have e: "ring_enqueue_multiple r (map Some es) count = Inr ?r"
      using False free cp by (simp add: ring_enqueue_multiple_def Let_def)
    from ring_copy_out_list [OF ok', of "unat (ring_count ?r)"] obtain deq where
        co: "ring_copy_out (ring_mask ?r) (deq_idx ?r) (ring_slots ?r) (unat (ring_count ?r)) =
          (deq, ring_list ?r)" "ring_ok (?r\<lparr>deq_idx := deq\<rparr>)" "ring_list (?r\<lparr>deq_idx := deq\<rparr>) = []"
      by (auto simp flip: length_ring_list)
    then have "ring_dequeue_multiple ?r (ring_count ?r) = Inr (ring_list ?r, ?r\<lparr>deq_idx := deq\<rparr>)"
      by (simp add: ring_dequeue_multiple_def)
    moreover have "ring_empty (?r\<lparr>deq_idx := deq\<rparr>)" using ring_empty_iff [OF co(2)] co(3) by simp
    ultimately show ?thesis using False e l by auto
  qed
qed

theorem ring_multiple_roundtrip_witness:
  "\<exists>r' r''. ring_enqueue_multiple sample_ring (map Some [9]) 1 = Inr r' \<and>
     ring_dequeue_multiple r' (ring_count r') = Inr (map Some [5, 7, 9], r'') \<and> ring_empty r''"
  using ring_multiple_roundtrip [OF sample_ring_wf(1), of 1 "[9]"]
  by (simp add: sample_ring_wf)

text \<open>
  The two loops that try always end, but neither is bounded by \<open>count\<close>. On a
  well-formed ring \<open>ring_try_dequeue_multiple\<close> empties the ring whatever \<open>count\<close> is (so it
  writes that many elements to the caller's array), and \<open>ring_try_enqueue_multiple\<close> fills
  every free place from the caller's array and returns \<open>max count (free + 1)\<close>.
\<close>

theorem ring_try_multiple_ignore_count:
  assumes "ring_wf r"
  shows "(\<exists>r'. ring_try_dequeue_multiple r count = Some (map Some (ring_refs r), r') \<and> ring_empty r') \<and>
         (\<exists>r'. ring_try_enqueue_multiple r elements count =
                 Some (max (ring_cap r - length (ring_refs r) + 1) count - 1, r') \<and>
               ring_full r' \<and>
               ring_list r' = map Some (ring_refs r) @
                 map elements [0..<ring_cap r - length (ring_refs r)])"
proof
  from assms have ok: "ring_ok r" by (simp add: ring_wf_def)
  have len: "length (ring_refs r) = unat (ring_count r)" by (simp add: ring_refs_def)
  from ring_try_dequeue_drains [OF assms, of count 0 "[]"]
  show "\<exists>r'. ring_try_dequeue_multiple r count = Some (map Some (ring_refs r), r') \<and> ring_empty r'"
    using ring_list_refs [OF assms]
    by (auto simp: ring_try_dequeue_multiple_def ring_wf_def ring_empty_iff)
  from ring_try_enqueue_fills [OF ok refl, of elements count 0] obtain r'
    where l: "ring_try_enqueue_loop elements count 0 True r =
           Some (max (ring_cap r - unat (ring_count r) + 1) count, False, r')"
      and ok': "ring_ok r'" and cap: "ring_cap r' = ring_cap r"
      and rl: "ring_list r' = ring_list r @ map elements [0..<ring_cap r - unat (ring_count r)]"
    by auto
  have "unat (ring_count r') = ring_cap r'"
    using arg_cong [OF rl, of length] ring_count_bound [OF ok] cap by simp
  with ok' have "ring_full r'" by (simp add: ring_full_iff)
  with l rl show "\<exists>r'. ring_try_enqueue_multiple r elements count =
           Some (max (ring_cap r - length (ring_refs r) + 1) count - 1, r') \<and> ring_full r' \<and>
           ring_list r' = map Some (ring_refs r) @
             map elements [0..<ring_cap r - length (ring_refs r)]"
    using ring_list_refs [OF assms] by (simp add: ring_try_enqueue_multiple_def len)
qed

theorem ring_try_multiple_ignore_count_witness:
  "(\<exists>r'. ring_try_dequeue_multiple sample_ring 1 = Some (map Some [5, 7], r') \<and> ring_empty r') \<and>
   (\<exists>r'. ring_try_enqueue_multiple sample_ring (\<lambda>i. Some i) 9 = Some (8, r'))"
  using ring_try_multiple_ignore_count [OF sample_ring_wf(1), of 1]
    ring_try_multiple_ignore_count [OF sample_ring_wf(1), of 9 "\<lambda>i. Some i"]
  by (auto simp: sample_ring_wf)

end
