(* ===== verification/DList.thy ===== *)
theory DList
  imports Prelude
begin

text \<open>
  The intrusive doubly linked list of \<open>shfs/dlist.h\<close>.

  The macros work on a \<open>dlist_el\<close> embedded in the caller's struct under the name
  \<open>dlname\<close> and on a \<open>dlist_head\<close>. Here the embedded elements of one \<open>dlname\<close> form a map
  from pointers to links, so two lists with different \<open>dlname\<close>s are two maps. A macro that
  updates a head and the elements is a function on the pair of them. \<open>dl_repr L h xs\<close> says
  that the head \<open>h\<close> and the links \<open>L\<close> hold exactly the list \<open>xs\<close>; the lemmas show that
  each macro is the corresponding list operation and leaves every other element alone.
\<close>

section \<open>State\<close>

record 'p dlist_el =
  dl_next :: "'p option"
  dl_prev :: "'p option"

record 'p dlist_head =
  dl_first :: "'p option"
  dl_last :: "'p option"

type_synonym 'p links = "'p \<Rightarrow> 'p dlist_el"

section \<open>Operations\<close>

definition dlist_init_head :: "'p dlist_head" where
  "dlist_init_head = \<lparr>dl_first = None, dl_last = None\<rparr>"

definition dlist_init_el :: "'p \<Rightarrow> 'p links \<Rightarrow> 'p links" where
  "dlist_init_el el L = L(el := (L el)\<lparr>dl_next := None, dl_prev := None\<rparr>)"

definition dlist_is_empty :: "'p dlist_head \<Rightarrow> bool" where
  "dlist_is_empty h \<longleftrightarrow> dl_first h = None"

definition dlist_next_el :: "'p links \<Rightarrow> 'p \<Rightarrow> 'p option" where
  "dlist_next_el L el = dl_next (L el)"

definition dlist_prev_el :: "'p links \<Rightarrow> 'p \<Rightarrow> 'p option" where
  "dlist_prev_el L el = dl_prev (L el)"

definition dlist_is_linked :: "'p \<Rightarrow> 'p dlist_head \<Rightarrow> 'p links \<Rightarrow> bool" where
  "dlist_is_linked el h L \<longleftrightarrow>
     (dl_prev (L el) \<noteq> None \<or> dl_next (L el) \<noteq> None) \<or>
     (dl_first h = Some el \<or> dl_last h = Some el)"

definition dlist_unlink :: "'p \<Rightarrow> 'p dlist_head \<times> 'p links \<Rightarrow> 'p dlist_head \<times> 'p links" where
  "dlist_unlink el s =
     (let (h, L) = s;
          (h, L) = (case dl_prev (L el) of
                      Some p \<Rightarrow> (h, L(p := (L p)\<lparr>dl_next := dl_next (L el)\<rparr>))
                    | None \<Rightarrow> (h\<lparr>dl_first := dl_next (L el)\<rparr>, L));
          (h, L) = (case dl_next (L el) of
                      Some n \<Rightarrow> (h, L(n := (L n)\<lparr>dl_prev := dl_prev (L el)\<rparr>))
                    | None \<Rightarrow> (h\<lparr>dl_last := dl_prev (L el)\<rparr>, L))
      in (h, dlist_init_el el L))"

text \<open>
  \<open>dlist_append\<close> and \<open>dlist_prepend\<close> follow \<open>(head).last\<close> (\<open>first\<close>) when the list is not
  empty; that pointer is then not null in a well-formed list (the \<open>None\<close> branch below is a
  write through a null pointer in C, which \<open>dl_repr\<close> excludes).
\<close>

definition dlist_append :: "'p \<Rightarrow> 'p dlist_head \<times> 'p links \<Rightarrow> 'p dlist_head \<times> 'p links" where
  "dlist_append el s =
     (let (h, L) = s;
          (h, L) = (if dlist_is_empty h
                    then (h\<lparr>dl_first := Some el\<rparr>, L(el := (L el)\<lparr>dl_prev := None\<rparr>))
                    else (h, let L = (case dl_last h of
                                        Some l \<Rightarrow> L(l := (L l)\<lparr>dl_next := Some el\<rparr>)
                                      | None \<Rightarrow> L)
                             in L(el := (L el)\<lparr>dl_prev := dl_last h\<rparr>)))
      in (h\<lparr>dl_last := Some el\<rparr>, L(el := (L el)\<lparr>dl_next := None\<rparr>)))"

definition dlist_prepend :: "'p \<Rightarrow> 'p dlist_head \<times> 'p links \<Rightarrow> 'p dlist_head \<times> 'p links" where
  "dlist_prepend el s =
     (let (h, L) = s;
          (h, L) = (if dlist_is_empty h
                    then (h\<lparr>dl_last := Some el\<rparr>, L(el := (L el)\<lparr>dl_next := None\<rparr>))
                    else (h, let L = (case dl_first h of
                                        Some f \<Rightarrow> L(f := (L f)\<lparr>dl_prev := Some el\<rparr>)
                                      | None \<Rightarrow> L)
                             in L(el := (L el)\<lparr>dl_next := dl_first h\<rparr>)))
      in (h\<lparr>dl_first := Some el\<rparr>, L(el := (L el)\<lparr>dl_prev := None\<rparr>)))"

definition dlist_relink_tail :: "'p \<Rightarrow> 'p dlist_head \<times> 'p links \<Rightarrow> 'p dlist_head \<times> 'p links" where
  "dlist_relink_tail el s = dlist_append el (dlist_unlink el s)"

definition dlist_relink_head :: "'p \<Rightarrow> 'p dlist_head \<times> 'p links \<Rightarrow> 'p dlist_head \<times> 'p links" where
  "dlist_relink_head el s = dlist_prepend el (dlist_unlink el s)"

text \<open>
  The loops \<open>dlist_foreach\<close> and \<open>dlist_foreach_reverse\<close>, as the list of the elements they
  visit; \<open>None\<close> is a loop that does not end (a cyclic list).
\<close>

partial_function (option) dlist_walk :: "('p \<Rightarrow> 'p option) \<Rightarrow> 'p option \<Rightarrow> 'p list option" where
  "dlist_walk nxt p =
     (case p of
        None \<Rightarrow> Some []
      | Some el \<Rightarrow> Option.bind (dlist_walk nxt (nxt el)) (\<lambda>els. Some (el # els)))"

definition dlist_foreach :: "'p dlist_head \<Rightarrow> 'p links \<Rightarrow> 'p list option" where
  "dlist_foreach h L = dlist_walk (dlist_next_el L) (dl_first h)"

definition dlist_foreach_reverse :: "'p dlist_head \<Rightarrow> 'p links \<Rightarrow> 'p list option" where
  "dlist_foreach_reverse h L = dlist_walk (dlist_prev_el L) (dl_last h)"

section \<open>Segments and the list a head holds\<close>

fun dlseg :: "'p links \<Rightarrow> 'p option \<Rightarrow> 'p list \<Rightarrow> 'p option \<Rightarrow> bool" where
  "dlseg L p [] n \<longleftrightarrow> True"
| "dlseg L p (x # xs) n \<longleftrightarrow>
     L x = \<lparr>dl_next = (case xs of [] \<Rightarrow> n | y # _ \<Rightarrow> Some y), dl_prev = p\<rparr> \<and>
     dlseg L (Some x) xs n"

definition dl_repr :: "'p links \<Rightarrow> 'p dlist_head \<Rightarrow> 'p list \<Rightarrow> bool" where
  "dl_repr L h xs \<longleftrightarrow>
     distinct xs \<and> dl_first h = hd_opt xs \<and> dl_last h = last_opt xs \<and> dlseg L None xs None"

abbreviation or_else :: "'p option \<Rightarrow> 'p option \<Rightarrow> 'p option" where
  "or_else a b \<equiv> (case a of None \<Rightarrow> b | Some x \<Rightarrow> Some x)"

lemma dlseg_append [simp]:
  "dlseg L p (xs @ ys) n \<longleftrightarrow>
     dlseg L p xs (or_else (hd_opt ys) n) \<and> dlseg L (or_else (last_opt xs) p) ys n"
proof (induction xs arbitrary: p)
  case Nil
  then show ?case by simp
next
  case (Cons x xs)
  have "or_else (last_opt (x # xs)) p = or_else (last_opt xs) (Some x)"
    by (auto simp: last_opt_Cons split: option.splits)
  moreover have "(case xs @ ys of [] \<Rightarrow> n | y # _ \<Rightarrow> Some y) =
      (case xs of [] \<Rightarrow> or_else (hd_opt ys) n | y # _ \<Rightarrow> Some y)"
    by (cases xs; cases ys) auto
  ultimately show ?case by (simp add: Cons.IH)
qed

lemma dlseg_frame [simp]: "x \<notin> set xs \<Longrightarrow> dlseg (L(x := l)) p xs n = dlseg L p xs n"
  by (induction xs arbitrary: p) auto

lemma dlseg_cong: "(\<And>x. x \<in> set xs \<Longrightarrow> L x = L' x) \<Longrightarrow> dlseg L p xs n = dlseg L' p xs n"
  by (induction xs arbitrary: p) auto

lemma dl_repr_frame: "dl_repr L h xs \<Longrightarrow> x \<notin> set xs \<Longrightarrow> dl_repr (L(x := l)) h xs"
  by (simp add: dl_repr_def)

lemma dl_repr_Nil [simp]: "dl_repr L dlist_init_head []"
  by (simp add: dl_repr_def dlist_init_head_def)

lemma dl_repr_distinct: "dl_repr L h xs \<Longrightarrow> distinct xs"
  by (simp add: dl_repr_def)

lemma dl_repr_is_empty: "dl_repr L h xs \<Longrightarrow> dlist_is_empty h \<longleftrightarrow> xs = []"
  by (simp add: dl_repr_def dlist_is_empty_def)

lemma dl_repr_first: "dl_repr L h xs \<Longrightarrow> dl_first h = hd_opt xs"
  by (simp add: dl_repr_def)

lemma dl_repr_last: "dl_repr L h xs \<Longrightarrow> dl_last h = last_opt xs"
  by (simp add: dl_repr_def)

lemma dl_repr_at:
  "dl_repr L h (xs @ x # ys) \<Longrightarrow> L x = \<lparr>dl_next = hd_opt ys, dl_prev = last_opt xs\<rparr>"
  by (cases ys) (auto simp: dl_repr_def split: option.splits)

section \<open>The macros refine the list operations\<close>

lemma dl_repr_append:
  assumes r: "dl_repr L h xs" and x: "x \<notin> set xs" and s: "dlist_append x (h, L) = (h', L')"
  shows "dl_repr L' h' (xs @ [x])"
proof (cases xs rule: rev_cases)
  case Nil
  with r s show ?thesis by (auto simp: dl_repr_def dlist_append_def dlist_is_empty_def)
next
  case (snoc ys y)
  with r have "dl_first h = hd_opt (ys @ [y])" "dl_last h = Some y"
    by (simp_all add: dl_repr_def)
  moreover from this have "dl_first h \<noteq> None" by (cases ys) simp_all
  ultimately show ?thesis
    using r s x snoc
    by (auto simp: dl_repr_def dlist_append_def dlist_is_empty_def hd_opt_append last_opt_append
        split: option.splits)
qed

lemma dl_repr_prepend:
  assumes r: "dl_repr L h xs" and x: "x \<notin> set xs" and s: "dlist_prepend x (h, L) = (h', L')"
  shows "dl_repr L' h' (x # xs)"
proof (cases xs)
  case Nil
  with r s show ?thesis by (auto simp: dl_repr_def dlist_prepend_def dlist_is_empty_def)
next
  case (Cons y ys)
  with r s x show ?thesis
    by (auto simp: dl_repr_def dlist_prepend_def dlist_is_empty_def last_opt_Cons)
qed

lemma dl_repr_unlink:
  assumes r: "dl_repr L h xs" and x: "x \<in> set xs" and s: "dlist_unlink x (h, L) = (h', L')"
  shows "dl_repr L' h' (remove1 x xs)" and "L' x = \<lparr>dl_next = None, dl_prev = None\<rparr>"
proof -
  from x obtain as bs where xs: "xs = as @ x # bs" by (meson split_list)
  have Lx: "L x = \<lparr>dl_next = hd_opt bs, dl_prev = last_opt as\<rparr>"
    using r xs by (simp add: dl_repr_at)
  have d: "distinct (as @ x # bs)" using r xs by (simp add: dl_repr_def)
  have "dl_repr L' h' (as @ bs)"
  proof (cases as rule: rev_cases)
    case Nil
    with r s Lx d xs show ?thesis
      by (cases bs) (auto simp: dl_repr_def dlist_unlink_def dlist_init_el_def last_opt_Cons)
  next
    case (snoc as' a)
    with r s Lx d xs show ?thesis
      by (cases bs) (auto simp: dl_repr_def dlist_unlink_def dlist_init_el_def hd_opt_append
            last_opt_append last_opt_Cons split: option.splits)
  qed
  then show "dl_repr L' h' (remove1 x xs)" using d by (simp add: xs distinct_remove1_append)
  show "L' x = \<lparr>dl_next = None, dl_prev = None\<rparr>"
    using s by (auto simp: dlist_unlink_def dlist_init_el_def split: option.splits)
qed

lemma dlist_append_other:
  assumes "dl_repr L h xs" and "dlist_append x (h, L) = (h', L')" and "y \<notin> set xs" and "y \<noteq> x"
  shows "L' y = L y"
  using assms
  by (cases xs rule: rev_cases)
     (auto simp: dl_repr_def dlist_append_def dlist_is_empty_def hd_opt_append split: if_splits)

lemma dlist_prepend_other:
  assumes "dl_repr L h xs" and "dlist_prepend x (h, L) = (h', L')" and "y \<notin> set xs" and "y \<noteq> x"
  shows "L' y = L y"
  using assms
  by (cases xs) (auto simp: dl_repr_def dlist_prepend_def dlist_is_empty_def split: if_splits)

lemma dlist_unlink_frame:
  assumes s: "dlist_unlink x (h, L) = (h', L')"
    and y: "y \<noteq> x" "dl_next (L x) \<noteq> Some y" "dl_prev (L x) \<noteq> Some y"
  shows "L' y = L y"
proof -
  have "dl_next ((L(p := (L p)\<lparr>dl_next := dl_next (L x)\<rparr>)) x) = dl_next (L x)" for p by simp
  with s y show ?thesis
    by (cases "dl_next (L x)"; cases "dl_prev (L x)")
       (auto simp: dlist_unlink_def dlist_init_el_def simp del: fun_upd_apply, auto)
qed

lemma dlist_unlink_other:
  assumes r: "dl_repr L h xs" and x: "x \<in> set xs" and s: "dlist_unlink x (h, L) = (h', L')"
    and y: "y \<notin> set xs"
  shows "L' y = L y"
proof -
  from x obtain as bs where xs: "xs = as @ x # bs" by (meson split_list)
  have "L x = \<lparr>dl_next = hd_opt bs, dl_prev = last_opt as\<rparr>"
    using r xs by (simp add: dl_repr_at)
  moreover have "hd_opt bs \<noteq> Some y" "last_opt as \<noteq> Some y"
    using y xs by (cases bs; auto simp: last_opt_def)+
  ultimately show ?thesis using dlist_unlink_frame [OF s] y xs by auto
qed

lemmas dl_repr_intros = dl_repr_append dl_repr_prepend dl_repr_unlink(1)
lemmas dlist_other = dlist_append_other dlist_prepend_other dlist_unlink_other

lemma dlist_walk_seg: "dlseg L p xs None \<Longrightarrow> dlist_walk (dlist_next_el L) (hd_opt xs) = Some xs"
proof (induction xs arbitrary: p)
  case Nil
  then show ?case by (subst dlist_walk.simps) simp
next
  case (Cons x xs)
  have "dlist_next_el L x = hd_opt xs"
    using Cons.prems by (cases xs) (simp_all add: dlist_next_el_def)
  moreover have "dlist_walk (dlist_next_el L) (hd_opt xs) = Some xs"
    by (rule Cons.IH [of "Some x"]) (use Cons.prems in simp)
  ultimately show ?case by (subst dlist_walk.simps) simp
qed

lemma dlist_walk_seg_rev:
  "dlseg L None xs n \<Longrightarrow> dlist_walk (dlist_prev_el L) (last_opt xs) = Some (rev xs)"
proof (induction xs arbitrary: n rule: rev_induct)
  case Nil
  then show ?case by (subst dlist_walk.simps) simp
next
  case (snoc x xs)
  have "dlist_prev_el L x = last_opt xs"
    using snoc.prems by (simp add: dlist_prev_el_def split: option.splits)
  moreover have "dlist_walk (dlist_prev_el L) (last_opt xs) = Some (rev xs)"
    by (rule snoc.IH [of "Some x"]) (use snoc.prems in simp)
  ultimately show ?case by (subst dlist_walk.simps) simp
qed

lemma dl_repr_foreach:
  "dl_repr L h xs \<Longrightarrow> dlist_foreach h L = Some xs"
  "dl_repr L h xs \<Longrightarrow> dlist_foreach_reverse h L = Some (rev xs)"
  by (auto simp: dl_repr_def dlist_foreach_def dlist_foreach_reverse_def dlist_walk_seg
      dlist_walk_seg_rev)

lemma dl_repr_is_linked:
  assumes r: "dl_repr L h xs" and out: "x \<notin> set xs \<Longrightarrow> L x = \<lparr>dl_next = None, dl_prev = None\<rparr>"
  shows "dlist_is_linked x h L \<longleftrightarrow> x \<in> set xs"
proof (cases "x \<in> set xs")
  case True
  then obtain as bs where xs: "xs = as @ x # bs" by (meson split_list)
  have "L x = \<lparr>dl_next = hd_opt bs, dl_prev = last_opt as\<rparr>" "dl_first h = hd_opt xs"
    "dl_last h = last_opt xs"
    using r xs by (simp_all add: dl_repr_at dl_repr_first dl_repr_last)
  then show ?thesis using True xs
    by (cases as rule: rev_cases; cases bs) (auto simp: dlist_is_linked_def)
next
  case False
  have "hd_opt xs \<noteq> Some x" "last_opt xs \<noteq> Some x"
    using False by (cases xs; auto simp: last_opt_def)+
  with out [OF False] r False show ?thesis
    by (simp add: dlist_is_linked_def dl_repr_def)
qed


section \<open>The contract of an ordered collection of elements\<close>

text \<open>
  What the caches and allocators rely on: elements go in at either end, come out from
  anywhere, and the order of the others stays.
\<close>

locale linked_list =
  fixes add_tail :: "'p \<Rightarrow> 's \<Rightarrow> 's"
    and add_head :: "'p \<Rightarrow> 's \<Rightarrow> 's"
    and drop_el :: "'p \<Rightarrow> 's \<Rightarrow> 's"
    and holds :: "'s \<Rightarrow> 'p list \<Rightarrow> bool"
  assumes distinct: "holds s xs \<Longrightarrow> distinct xs"
    and add_tail: "holds s xs \<Longrightarrow> x \<notin> set xs \<Longrightarrow> holds (add_tail x s) (xs @ [x])"
    and add_head: "holds s xs \<Longrightarrow> x \<notin> set xs \<Longrightarrow> holds (add_head x s) (x # xs)"
    and drop_el: "holds s xs \<Longrightarrow> x \<in> set xs \<Longrightarrow> holds (drop_el x s) (remove1 x xs)"
begin

lemma to_tail: "holds s xs \<Longrightarrow> x \<in> set xs \<Longrightarrow> holds (add_tail x (drop_el x s)) (remove1 x xs @ [x])"
  using distinct [of s xs] by (intro add_tail drop_el) auto

lemma to_head: "holds s xs \<Longrightarrow> x \<in> set xs \<Longrightarrow> holds (add_head x (drop_el x s)) (x # remove1 x xs)"
  using distinct [of s xs] by (intro add_head drop_el) auto

lemma add_all: "holds s xs \<Longrightarrow> distinct (xs @ ys) \<Longrightarrow> holds (fold add_tail ys s) (xs @ ys)"
proof (induction ys arbitrary: s xs)
  case (Cons y ys)
  then have "holds (add_tail y s) (xs @ [y])" by (intro add_tail) auto
  from Cons.IH [OF this] Cons.prems(2) show ?case by simp
qed simp

lemma drop_all:
  "holds s xs \<Longrightarrow> set ys \<subseteq> set xs \<Longrightarrow> distinct ys \<Longrightarrow>
   holds (fold drop_el ys s) (filter (\<lambda>x. x \<notin> set ys) xs)"
proof (induction ys arbitrary: s xs)
  case (Cons y ys)
  from Cons.prems(1) have d: "distinct xs" by (rule distinct)
  have "holds (drop_el y s) (remove1 y xs)" using Cons.prems by (intro drop_el) auto
  moreover have "set ys \<subseteq> set (remove1 y xs)" using Cons.prems d by auto
  ultimately have "holds (fold drop_el ys (drop_el y s)) (filter (\<lambda>x. x \<notin> set ys) (remove1 y xs))"
    using Cons.IH Cons.prems(3) by simp
  moreover have "filter (\<lambda>x. x \<notin> set ys) (remove1 y xs) = filter (\<lambda>x. x \<notin> set (y # ys)) xs"
    using d by (auto simp: distinct_remove1_removeAll removeAll_filter_not_eq intro!: filter_cong)
  ultimately show ?case by simp
qed simp

end

definition dl_holds :: "'p dlist_head \<times> 'p links \<Rightarrow> 'p list \<Rightarrow> bool" where
  "dl_holds s xs \<longleftrightarrow> dl_repr (snd s) (fst s) xs"

interpretation dl: linked_list dlist_append dlist_prepend dlist_unlink dl_holds
proof (unfold_locales, goal_cases)
  case (1 s xs)
  then show ?case by (simp add: dl_holds_def dl_repr_distinct)
next
  case (2 s xs x)
  then show ?case
    using dl_repr_append by (metis dl_holds_def prod.collapse)
next
  case (3 s xs x)
  then show ?case
    using dl_repr_prepend by (metis dl_holds_def prod.collapse)
next
  case (4 s xs x)
  then show ?case
    using dl_repr_unlink(1) by (metis dl_holds_def prod.collapse)
qed

section \<open>Properties\<close>

text \<open>
  Moving a linked element to the tail (head) of a well-formed list, the step every
  least-recently-used update takes, moves exactly that element: traversing the result forward
  and backward gives the list with the element at that end and the others in their order.
\<close>

theorem dlist_relink_moves:
  assumes "dl_repr L h (xs @ x # ys)"
  shows "(case dlist_relink_tail x (h, L) of (h', L') \<Rightarrow>
            dl_repr L' h' (xs @ ys @ [x]) \<and> dlist_foreach h' L' = Some (xs @ ys @ [x]) \<and>
            dlist_foreach_reverse h' L' = Some (x # rev ys @ rev xs)) \<and>
         (case dlist_relink_head x (h, L) of (h', L') \<Rightarrow>
            dl_repr L' h' (x # xs @ ys) \<and> dlist_foreach h' L' = Some (x # xs @ ys) \<and>
            dlist_foreach_reverse h' L' = Some (rev ys @ rev xs @ [x]))"
proof -
  have h: "dl_holds (h, L) (xs @ x # ys)" using assms by (simp add: dl_holds_def)
  have r: "remove1 x (xs @ x # ys) = xs @ ys"
    by (rule distinct_remove1_append [OF dl_repr_distinct [OF assms]])
  have "dl_holds (dlist_relink_tail x (h, L)) (xs @ ys @ [x])"
    using dl.to_tail [OF h, of x] r by (simp add: dlist_relink_tail_def)
  moreover have "dl_holds (dlist_relink_head x (h, L)) (x # xs @ ys)"
    using dl.to_head [OF h, of x] r by (simp add: dlist_relink_head_def)
  ultimately show ?thesis
    by (auto simp: dl_holds_def dl_repr_foreach split: prod.split)
qed

definition sample_links :: "nat links" where
  "sample_links = (\<lambda>p. if p = 1 then \<lparr>dl_next = Some 2, dl_prev = None\<rparr>
                       else if p = 2 then \<lparr>dl_next = Some 3, dl_prev = Some 1\<rparr>
                       else if p = 3 then \<lparr>dl_next = None, dl_prev = Some 2\<rparr>
                       else \<lparr>dl_next = None, dl_prev = None\<rparr>)"

definition sample_head :: "nat dlist_head" where
  "sample_head = \<lparr>dl_first = Some 1, dl_last = Some 3\<rparr>"

lemma sample_repr: "dl_repr sample_links sample_head ([1] @ 2 # [3])"
  by (simp add: dl_repr_def sample_links_def sample_head_def)

theorem dlist_relink_moves_witness:
  "case dlist_relink_tail 2 (sample_head, sample_links) of (h', L') \<Rightarrow>
     dl_repr L' h' [1, 3, 2] \<and> dlist_foreach_reverse h' L' = Some [2, 3, 1]"
  using dlist_relink_moves [OF sample_repr] by (auto split: prod.splits)

end
