(* ===== verification/Mempool.thy ===== *)
theory Mempool
  imports Prelude Ring
begin

text \<open>
  Memory pools (\<open>mempool.h\<close>, \<open>mempool.c\<close>): a pool allocates its objects once and hands
  them out through a ring of free references.

  The state holds the objects by address, the pools by address and the memory \<open>'m\<close> the
  callbacks work on. A callback and its \<open>argp\<close> are one function of the object's address,
  its descriptor and that memory; \<open>None\<close> is a null function pointer. What \<open>_xmalloc\<close>
  returns is a parameter of the allocation (an address or \<open>None\<close> for \<open>NULL\<close>, for each of
  its calls).
\<close>

section \<open>State\<close>

record mempool_obj =
  p_ref :: addr
  obj_private :: "addr option"
  obj_base :: addr
  obj_data :: addr
  obj_lhr :: u64
  obj_ltr :: u64
  obj_len :: u64

type_synonym 'm obj_func = "(addr \<Rightarrow> mempool_obj \<Rightarrow> 'm \<Rightarrow> 'm) option"

record 'm mempool =
  free_objs :: "addr ring"
  obj_pick_func :: "'m obj_func"
  pool_obj_size :: u64
  pool_headroom :: u64
  pool_tailroom :: u64
  obj_put_func :: "'m obj_func"
  nb_objs :: u32
  pool_size :: u64
  obj_data_area :: "addr option"

record 'm mpstate =
  mp_objs :: "addr \<Rightarrow> mempool_obj"
  mp_pools :: "addr \<Rightarrow> 'm mempool"
  mp_mem :: 'm

text \<open>\<open>sizeof\<close> of the three structs on the 64-bit target.\<close>

abbreviation sizeof_mempool :: u64 where "sizeof_mempool \<equiv> 88"
abbreviation sizeof_mempool_obj :: u64 where "sizeof_mempool_obj \<equiv> 56"
abbreviation sizeof_ring :: u64 where "sizeof_ring \<equiv> 24"
abbreviation MIN_ALIGN :: u64 where "MIN_ALIGN \<equiv> 8"

section \<open>Arithmetic\<close>

function log2_loop :: "u32 \<Rightarrow> u32 \<Rightarrow> u32" where
  "log2_loop v i = (if v \<noteq> 0 then log2_loop (drop_bit 1 v) (i + 1) else i)"
  by auto

lemma unat_drop_bit_1_less: "(v :: u32) \<noteq> 0 \<Longrightarrow> unat (drop_bit 1 v) < unat v"
proof -
  assume "v \<noteq> 0"
  then have "unat v div 2 < unat v" by (simp add: unat_gt_0)
  moreover have "unat (drop_bit 1 v) = unat v div 2"
    by (subst unsigned_drop_bit_eq)
       (simp add: drop_bit_eq_div take_bit_unat_self [where 'w = 32, simplified])
  ultimately show ?thesis by simp
qed

termination log2_loop
  by (relation "measure (\<lambda>(v, i). unat v)") (auto simp del: One_nat_def simp: unat_drop_bit_1_less)

declare log2_loop.simps [simp del]

definition log2 :: "u32 \<Rightarrow> u32" where
  "log2 v = log2_loop v 0 - 1"

definition align_up :: "u64 \<Rightarrow> u64 \<Rightarrow> u64" where
  "align_up sz align = (sz + align - 1) AND NOT (align - 1)"

section \<open>Allocation\<close>

text \<open>
  The size computations of \<open>alloc_enhanced_mempool\<close>, all in \<open>size_t\<close>:
  \<open>h_size\<close>, \<open>m_size\<close>, \<open>p_size\<close>, \<open>o_size\<close>, the adjusted headroom and tailroom and the
  sizes of the two allocations.
\<close>

record layout =
  ly_h :: u64
  ly_m :: u64
  ly_p :: u64
  ly_o :: u64
  ly_headroom :: u64
  ly_tailroom :: u64
  ly_pool :: u64
  ly_data :: u64

definition mempool_layout ::
    "u32 \<Rightarrow> u64 \<Rightarrow> u64 \<Rightarrow> u64 \<Rightarrow> u64 \<Rightarrow> u64 \<Rightarrow> bool \<Rightarrow> layout" where
  "mempool_layout nb sz align headroom tailroom private_len sep =
     (let align = max align MIN_ALIGN;
          h_size = sizeof_mempool;
          m_size = align_up sizeof_mempool_obj MIN_ALIGN;
          p_size = m_size + private_len
      in if sep then
           let headroom = align_up headroom align;
               o_size = align_up (headroom + sz + tailroom) align;
               tailroom = o_size - headroom - sz;
               h_size = align_up h_size MIN_ALIGN;
               p_size = align_up p_size MIN_ALIGN;
               o_size = align_up o_size align
           in \<lparr>ly_h = h_size, ly_m = m_size, ly_p = p_size, ly_o = o_size,
               ly_headroom = headroom, ly_tailroom = tailroom,
               ly_pool = h_size + ucast nb * p_size, ly_data = ucast nb * o_size\<rparr>
         else
           let headroom = align_up (p_size + headroom) align - p_size;
               o_size = align_up (p_size + headroom + sz + tailroom) align;
               tailroom = o_size - headroom - sz - p_size;
               h_size = align_up h_size align;
               o_size = align_up o_size align
           in \<lparr>ly_h = h_size, ly_m = m_size, ly_p = p_size, ly_o = o_size,
               ly_headroom = headroom, ly_tailroom = tailroom,
               ly_pool = h_size + ucast nb * o_size, ly_data = 0\<rparr>)"

definition mempool_reset_obj :: "addr \<Rightarrow> 'm mpstate \<Rightarrow> 'm mpstate" where
  "mempool_reset_obj obj st =
     (let o1 = mp_objs st obj; p = mp_pools st (p_ref o1)
      in st\<lparr>mp_objs := (mp_objs st)(obj := o1\<lparr>obj_len := pool_obj_size p,
              obj_lhr := pool_headroom p, obj_ltr := pool_tailroom p,
              obj_data := obj_base o1 + pool_headroom p\<rparr>)\<rparr>)"

definition call_obj_func :: "'m obj_func \<Rightarrow> addr \<Rightarrow> 'm mpstate \<Rightarrow> 'm mpstate" where
  "call_obj_func f obj st =
     (case f of None \<Rightarrow> st | Some g \<Rightarrow> st\<lparr>mp_mem := g obj (mp_objs st obj) (mp_mem st)\<rparr>)"

text \<open>
  \<open>ring_enqueue(p->free_objs, obj)\<close> with its result ignored, as both callers do.
\<close>

definition free_objs_enqueue :: "addr \<Rightarrow> addr \<Rightarrow> 'm mpstate \<Rightarrow> 'm mpstate" where
  "free_objs_enqueue p obj st =
     (case ring_enqueue (free_objs (mp_pools st p)) (Some obj) of
        Inl _ \<Rightarrow> st
      | Inr r \<Rightarrow> st\<lparr>mp_pools := (mp_pools st)(p := (mp_pools st p)\<lparr>free_objs := r\<rparr>)\<rparr>)"

text \<open>
  One round of the object loop, and the loop: \<open>n\<close> is the number of rounds left and \<open>i\<close>
  the loop variable. A null data area is address 0 in the sum with \<open>i * o_size\<close>.
\<close>

definition mempool_init_obj ::
    "layout \<Rightarrow> u64 \<Rightarrow> bool \<Rightarrow> 'm obj_func \<Rightarrow> addr \<Rightarrow> nat \<Rightarrow> addr \<Rightarrow> 'm mpstate \<Rightarrow> 'm mpstate" where
  "mempool_init_obj ly private_len sep init p i obj st =
     (let o1 = (mp_objs st obj)\<lparr>p_ref := p,
                 obj_base := (if sep
                   then (case obj_data_area (mp_pools st p) of None \<Rightarrow> 0 | Some d \<Rightarrow> d)
                        + of_nat i * ly_o ly
                   else obj + ly_p ly),
                 obj_private := (if private_len \<noteq> 0 then Some (obj + ly_m ly) else None)\<rparr>;
          st = mempool_reset_obj obj (st\<lparr>mp_objs := (mp_objs st)(obj := o1)\<rparr>);
          st = call_obj_func init obj st
      in free_objs_enqueue p obj st)"

fun mempool_init_objs ::
    "layout \<Rightarrow> u64 \<Rightarrow> bool \<Rightarrow> 'm obj_func \<Rightarrow> addr \<Rightarrow> nat \<Rightarrow> nat \<Rightarrow> addr \<Rightarrow> 'm mpstate \<Rightarrow> 'm mpstate" where
  "mempool_init_objs ly private_len sep init p 0 i obj st = st"
| "mempool_init_objs ly private_len sep init p (Suc n) i obj st =
     mempool_init_objs ly private_len sep init p n (Suc i)
       (obj + (if sep then ly_p ly else ly_o ly))
       (mempool_init_obj ly private_len sep init p i obj st)"

text \<open>
  \<open>alloc_enhanced_mempool\<close>. The three \<open>_xmalloc\<close> outcomes are parameters: the pool memory
  \<open>xp\<close>, the separate data area \<open>xd\<close> and the ring \<open>xr\<close>. The code tests \<open>p\<close> a second time
  after the data-area allocation instead of \<open>p->obj_data_area\<close>, so a \<open>NULL\<close> data area is
  stored and the allocation goes on.
\<close>

definition alloc_enhanced_mempool ::
    "addr option \<Rightarrow> addr option \<Rightarrow> addr option list option \<Rightarrow>
     u32 \<Rightarrow> u64 \<Rightarrow> u64 \<Rightarrow> u64 \<Rightarrow> u64 \<Rightarrow> u64 \<Rightarrow> bool \<Rightarrow>
     'm obj_func \<Rightarrow> 'm obj_func \<Rightarrow> 'm obj_func \<Rightarrow> 'm mpstate \<Rightarrow> error + (addr \<times> 'm mpstate)" where
  "alloc_enhanced_mempool xp xd xr nb sz align headroom tailroom private_len sep init pick put st =
     (if align \<noteq> 0 \<and> \<not> POWER_OF_2 align then Inl (Fault Assert_failed)
      else let ly = mempool_layout nb sz align headroom tailroom private_len sep in
      case xp of
        None \<Rightarrow> Inl (Errno ENOMEM)
      | Some p \<Rightarrow>
          (case alloc_ring xr (push_bit (unat (log2 nb + 1)) 1) of
             Inl e \<Rightarrow> Inl e
           | Inr r \<Rightarrow>
               let pool = \<lparr>free_objs = r, obj_pick_func = pick, pool_obj_size = sz,
                           pool_headroom = ly_headroom ly, pool_tailroom = ly_tailroom ly,
                           obj_put_func = put, nb_objs = nb, pool_size = ly_pool ly + ly_data ly,
                           obj_data_area = (if sep then xd else None)\<rparr>;
                   st = st\<lparr>mp_pools := (mp_pools st)(p := pool)\<rparr>
               in Inr (p, mempool_init_objs ly private_len sep init p (unat nb) 0 (p + ly_h ly) st)))"

definition alloc_mempool_simple ::
    "addr option \<Rightarrow> addr option list option \<Rightarrow> u32 \<Rightarrow> u64 \<Rightarrow> 'm mpstate \<Rightarrow>
     error + (addr \<times> 'm mpstate)" where
  "alloc_mempool_simple xp xr nb sz st =
     alloc_enhanced_mempool xp None xr nb sz 0 0 0 0 False None None None st"

text \<open>
  The sizing of \<open>alloc_enhanced_mempool2\<close>: from a memory budget to a number of objects and
  the adjusted headroom and tailroom, which it passes on.
\<close>

definition mempool2_sizing ::
    "u64 \<Rightarrow> u64 \<Rightarrow> u64 \<Rightarrow> u64 \<Rightarrow> u64 \<Rightarrow> u64 \<Rightarrow> bool \<Rightarrow> errno + (u32 \<times> u64 \<times> u64)" where
  "mempool2_sizing budget sz align headroom tailroom private_len sep =
     (let h_size = sizeof_mempool;
          m_size = align_up sizeof_mempool_obj MIN_ALIGN;
          p_size = m_size + private_len
      in if budget < h_size + sizeof_ring then Inl EINVAL
         else let budget = budget - (h_size + sizeof_ring)
         in if sep then
              let headroom = align_up headroom align;
                  o_size = align_up (headroom + sz + tailroom) align;
                  tailroom = o_size - headroom - sz
              in Inr (ucast (budget div (p_size + o_size + 8)), headroom, tailroom)
            else
              let headroom = align_up (p_size + headroom) align - p_size;
                  o_size = align_up (p_size + headroom + sz + tailroom) align;
                  tailroom = o_size - headroom - sz - p_size
              in Inr (ucast (budget div (o_size + 8)), headroom, tailroom))"

definition alloc_enhanced_mempool2 ::
    "addr option \<Rightarrow> addr option \<Rightarrow> addr option list option \<Rightarrow>
     u64 \<Rightarrow> u64 \<Rightarrow> u64 \<Rightarrow> u64 \<Rightarrow> u64 \<Rightarrow> u64 \<Rightarrow> bool \<Rightarrow>
     'm obj_func \<Rightarrow> 'm obj_func \<Rightarrow> 'm obj_func \<Rightarrow> 'm mpstate \<Rightarrow> error + (addr \<times> 'm mpstate)" where
  "alloc_enhanced_mempool2 xp xd xr budget sz align headroom tailroom private_len sep init pick put st =
     (case mempool2_sizing budget sz align headroom tailroom private_len sep of
        Inl e \<Rightarrow> Inl (Errno e)
      | Inr (nb, headroom', tailroom') \<Rightarrow>
          alloc_enhanced_mempool xp xd xr nb sz align headroom' tailroom' private_len sep
            init pick put st)"

definition free_mempool :: "addr option \<Rightarrow> 'm mpstate \<Rightarrow> error + unit" where
  "free_mempool p st =
     (case p of
        None \<Rightarrow> Inr ()
      | Some p \<Rightarrow>
          if ring_count (free_objs (mp_pools st p)) \<noteq> nb_objs (mp_pools st p)
          then Inl (Fault Bug_on) else Inr ())"

section \<open>Picking and putting objects\<close>

definition mempool_free_count :: "addr \<Rightarrow> 'm mpstate \<Rightarrow> u32" where
  "mempool_free_count p st = ring_count (free_objs (mp_pools st p))"

definition mempool_pick :: "addr \<Rightarrow> 'm mpstate \<Rightarrow> addr option \<times> 'm mpstate" where
  "mempool_pick p st =
     (case ring_dequeue (free_objs (mp_pools st p)) of
        (None, r) \<Rightarrow> (None, st\<lparr>mp_pools := (mp_pools st)(p := (mp_pools st p)\<lparr>free_objs := r\<rparr>)\<rparr>)
      | (Some obj, r) \<Rightarrow>
          (let st = st\<lparr>mp_pools := (mp_pools st)(p := (mp_pools st p)\<lparr>free_objs := r\<rparr>)\<rparr>;
               st = mempool_reset_obj obj st
           in (Some obj, call_obj_func (obj_pick_func (mp_pools st p)) obj st)))"

fun mempool_init_picked :: "addr \<Rightarrow> addr option list \<Rightarrow> 'm mpstate \<Rightarrow> error + (addr list \<times> 'm mpstate)" where
  "mempool_init_picked p [] st = Inr ([], st)"
| "mempool_init_picked p (None # es) st = Inl (Fault Null_deref)"
| "mempool_init_picked p (Some obj # es) st =
     (let st = mempool_reset_obj obj st;
          st = call_obj_func (obj_pick_func (mp_pools st p)) obj st
      in case mempool_init_picked p es st of
           Inl e \<Rightarrow> Inl e
         | Inr (objs, st) \<Rightarrow> Inr (obj # objs, st))"

definition mempool_pick_multiple ::
    "addr \<Rightarrow> u32 \<Rightarrow> 'm mpstate \<Rightarrow> error + (addr list \<times> 'm mpstate)" where
  "mempool_pick_multiple p count st =
     (case ring_dequeue_multiple (free_objs (mp_pools st p)) count of
        Inl e \<Rightarrow> Inl (Errno e)
      | Inr (es, r) \<Rightarrow>
          mempool_init_picked p es
            (st\<lparr>mp_pools := (mp_pools st)(p := (mp_pools st p)\<lparr>free_objs := r\<rparr>)\<rparr>))"

definition mempool_put :: "addr \<Rightarrow> 'm mpstate \<Rightarrow> 'm mpstate" where
  "mempool_put obj st =
     (let p = p_ref (mp_objs st obj); st = free_objs_enqueue p obj st
      in call_obj_func (obj_put_func (mp_pools st p)) obj st)"

definition mempool_put_multiple :: "addr list \<Rightarrow> u32 \<Rightarrow> 'm mpstate \<Rightarrow> 'm mpstate" where
  "mempool_put_multiple objs count st =
     (if count = 0 then st
      else let p = p_ref (mp_objs st (objs ! 0));
               st = (case ring_enqueue_multiple (free_objs (mp_pools st p)) (map Some objs) count of
                       Inl _ \<Rightarrow> st
                     | Inr r \<Rightarrow> st\<lparr>mp_pools := (mp_pools st)(p := (mp_pools st p)\<lparr>free_objs := r\<rparr>)\<rparr>)
           in fold (call_obj_func (obj_put_func (mp_pools st p))) (take (unat count) objs) st)"

section \<open>Resizing an object\<close>

text \<open>
  \<open>len\<close> is an \<open>ssize_t\<close>: the word holds its two's complement. Where the code compares it
  with a \<open>size_t\<close>, C converts it to the unsigned type.
\<close>

definition mempool_obj_prepend_nocheck :: "u64 \<Rightarrow> mempool_obj \<Rightarrow> mempool_obj" where
  "mempool_obj_prepend_nocheck l obj =
     obj\<lparr>obj_lhr := obj_lhr obj - l, obj_len := obj_len obj + l, obj_data := obj_data obj - l\<rparr>"

definition mempool_obj_append_nocheck :: "u64 \<Rightarrow> mempool_obj \<Rightarrow> mempool_obj" where
  "mempool_obj_append_nocheck l obj =
     obj\<lparr>obj_ltr := obj_ltr obj - l, obj_len := obj_len obj + l\<rparr>"

definition mempool_obj_prepend :: "u64 \<Rightarrow> mempool_obj \<Rightarrow> errno + mempool_obj" where
  "mempool_obj_prepend l obj =
     (if obj_lhr obj < l \<or> (sint l < 0 \<and> obj_len obj < - l) then Inl ENOSPC
      else Inr (mempool_obj_prepend_nocheck l obj))"

definition mempool_obj_append :: "u64 \<Rightarrow> mempool_obj \<Rightarrow> errno + mempool_obj" where
  "mempool_obj_append l obj =
     (if obj_ltr obj < l \<or> (sint l < 0 \<and> obj_len obj < - l) then Inl ENOSPC
      else Inr (mempool_obj_append_nocheck l obj))"


section \<open>Arithmetic facts\<close>

lemma align_up_unat:
  assumes a: "POWER_OF_2 a" and le: "unat x + unat a \<le> 2 ^ 64"
  shows "unat (align_up x a) = (unat x + unat a - 1) - (unat x + unat a - 1) mod unat a"
proof -
  obtain k where k: "unat a = 2 ^ k" using POWER_OF_2_unat [OF a] by auto
  have nz: "a \<noteq> 0" using a by (simp add: POWER_OF_2_def)
  have pos: "0 < unat a" using nz by (simp add: unat_gt_0)
  have m: "unat (a - 1) = unat a - 1" by (rule unat_sub_one [OF nz])
  have "unat (x + (a - 1)) = unat x + (unat a - 1)"
    using le pos by (subst unat_add_less) (simp_all add: m)
  then have e: "unat (x + a - 1) = unat x + unat a - 1" using pos by (simp add: algebra_simps)
  show ?thesis
    unfolding align_up_def using unat_and_not_mask [of "a - 1" k "x + a - 1"] m k e by simp
qed

lemma align_up_facts:
  assumes "POWER_OF_2 a" and "unat x + unat a \<le> 2 ^ 64"
  shows "unat x \<le> unat (align_up x a)" and "unat (align_up x a) < unat x + unat a"
    and "unat a dvd unat (align_up x a)"
proof -
  let ?n = "unat x + unat a - 1"
  have pos: "0 < unat a" using assms(1) by (simp add: POWER_OF_2_def unat_gt_0)
  note e = align_up_unat [OF assms]
  have "?n mod unat a < unat a" using pos by simp
  then show "unat x \<le> unat (align_up x a)" using e by linarith
  have "?n mod unat a \<le> ?n" by simp
  then show "unat (align_up x a) < unat x + unat a" using e pos by linarith
  show "unat a dvd unat (align_up x a)" unfolding e by (simp add: minus_mod_eq_mult_div)
qed

lemma log2_loop_bits:
  "\<exists>k. log2_loop v i = i + of_nat k \<and> unat v < 2 ^ k \<and>
       (if v = 0 then k = 0 else 0 < k \<and> 2 ^ (k - 1) \<le> unat v)"
proof (induction v i rule: log2_loop.induct)
  case (1 v i)
  show ?case
  proof (cases "v = 0")
    case True
    then show ?thesis by (intro exI [of _ 0]) (simp add: log2_loop.simps)
  next
    case False
    with 1 obtain k where k: "log2_loop (drop_bit 1 v) (i + 1) = i + 1 + of_nat k"
      and b: "unat (drop_bit 1 v) < 2 ^ k"
      and l: "if drop_bit 1 v = 0 then k = 0 else 0 < k \<and> 2 ^ (k - 1) \<le> unat (drop_bit 1 v)"
      by blast
    have h: "unat (drop_bit 1 v) = unat v div 2"
      by (subst unsigned_drop_bit_eq)
         (simp add: drop_bit_eq_div take_bit_unat_self [where 'w = 32, simplified])
    have lo: "2 ^ k \<le> unat v"
    proof (cases "drop_bit 1 v = 0")
      case True
      with l False show ?thesis by (simp add: unat_gt_0 Suc_le_eq)
    next
      case F: False
      with l have "2 * 2 ^ (k - 1) \<le> 2 * (unat v div 2)" "0 < k" using h by simp_all
      moreover have "2 * (unat v div 2) \<le> unat v" by simp
      ultimately show ?thesis by (cases k) simp_all
    qed
    have up: "unat v < 2 ^ Suc k" using b h by simp
    have "log2_loop v i = i + of_nat (Suc k)"
      using False k by (subst log2_loop.simps) (simp add: add_ac)
    with lo up False show ?thesis by (intro exI [of _ "Suc k"]) simp
  qed
qed

text \<open>The ring of a pool: a power of two greater than the number of objects.\<close>

lemma ring_size_for:
  assumes "nb < 2 ^ 31"
  shows "\<exists>k < 32. unat (push_bit (unat (log2 nb + 1)) (1 :: u32)) = 2 ^ k \<and> unat nb < 2 ^ k"
    and "POWER_OF_2 (push_bit (unat (log2 nb + 1)) (1 :: u32))"
proof -
  obtain k where k: "log2_loop nb 0 = of_nat k" and b: "unat nb < 2 ^ k"
    and l: "if nb = 0 then k = 0 else 0 < k \<and> 2 ^ (k - 1) \<le> unat nb"
    using log2_loop_bits [of nb 0] by auto
  have n: "unat nb < 2 ^ 31" using assms by (simp add: word_less_nat_alt)
  have k31: "k < 32"
  proof (cases "nb = 0")
    case False
    with l have "2 ^ (k - 1) \<le> unat nb" by simp
    then have "(2::nat) ^ (k - 1) < 2 ^ 31" using n by (rule le_less_trans)
    then have "k - 1 < 31" by (simp only: power_strict_increasing_iff)
    then show ?thesis by simp
  qed (use l in simp)
  have "log2 nb + 1 = of_nat k" by (simp add: log2_def k)
  then have "unat (log2 nb + 1) = k" using k31 by (simp add: unat_of_nat)
  moreover have p: "unat (push_bit k (1 :: u32)) = 2 ^ k"
  proof -
    have "(2::nat) ^ k < 2 ^ 32" using k31 by (rule power_strict_increasing) simp
    then have "(2::nat) ^ k < 2 ^ LENGTH(32)" by simp
    from unat_of_nat_less [OF this] show ?thesis by (simp add: push_bit_eq_mult)
  qed
  ultimately show "\<exists>k < 32. unat (push_bit (unat (log2 nb + 1)) (1 :: u32)) = 2 ^ k \<and> unat nb < 2 ^ k"
    using b k31 by auto
  have "push_bit k (1 :: u32) AND (push_bit k 1 - 1) = 0"
  proof -
    have "push_bit k (1 :: u32) - 1 = mask k" by (simp add: mask_eq_exp_minus_1 push_bit_eq_mult)
    moreover have "take_bit k (push_bit k (1 :: u32)) = 0" unfolding take_bit_push_bit by simp
    ultimately show ?thesis by (simp only: take_bit_eq_mask)
  qed
  moreover have "push_bit k (1 :: u32) \<noteq> 0" using p by (metis power_not_zero unsigned_0 zero_neq_numeral)
  ultimately show "POWER_OF_2 (push_bit (unat (log2 nb + 1)) (1 :: u32))"
    using \<open>unat (log2 nb + 1) = k\<close> by (simp add: POWER_OF_2_def)
qed

section \<open>The object loop\<close>

definition pool_desc :: "layout \<Rightarrow> u64 \<Rightarrow> bool \<Rightarrow> 'm mempool \<Rightarrow> addr \<Rightarrow> nat \<Rightarrow> addr \<Rightarrow> mempool_obj" where
  "pool_desc ly private_len sep pool p i obj =
     (let base = (if sep then (case obj_data_area pool of None \<Rightarrow> 0 | Some d \<Rightarrow> d) + of_nat i * ly_o ly
                  else obj + ly_p ly)
      in \<lparr>p_ref = p, obj_private = (if private_len \<noteq> 0 then Some (obj + ly_m ly) else None),
          obj_base = base, obj_data = base + pool_headroom pool, obj_lhr = pool_headroom pool,
          obj_ltr = pool_tailroom pool, obj_len = pool_obj_size pool\<rparr>)"

definition pool_addrs :: "addr \<Rightarrow> u64 \<Rightarrow> nat \<Rightarrow> addr list" where
  "pool_addrs obj stride n = map (\<lambda>j. obj + of_nat j * stride) [0..<n]"

lemma pool_addrs_Suc:
  "pool_addrs obj stride (Suc n) = obj # pool_addrs (obj + stride) stride n"
  by (simp add: pool_addrs_def upt_conv_Cons map_Suc_upt [symmetric] algebra_simps del: upt_Suc)

lemma mempool_init_obj_eq:
  assumes "ring_wf (free_objs (mp_pools st p))"
    and "length (ring_refs (free_objs (mp_pools st p))) < ring_cap (free_objs (mp_pools st p))"
  shows "\<exists>r m. mempool_init_obj ly private_len sep init p i obj st =
      st\<lparr>mp_objs := (mp_objs st)(obj := pool_desc ly private_len sep (mp_pools st p) p i obj),
         mp_pools := (mp_pools st)(p := (mp_pools st p)\<lparr>free_objs := r\<rparr>), mp_mem := m\<rparr> \<and>
      ring_wf r \<and> ring_refs r = ring_refs (free_objs (mp_pools st p)) @ [obj] \<and>
      ring_cap r = ring_cap (free_objs (mp_pools st p))"
proof -
  from rq.enq_room [OF assms, of obj] obtain r
    where r: "ring_enqueue (free_objs (mp_pools st p)) (Some obj) = Inr r" "ring_wf r"
      "ring_refs r = ring_refs (free_objs (mp_pools st p)) @ [obj]"
      "ring_cap r = ring_cap (free_objs (mp_pools st p))" by auto
  then show ?thesis
    by (cases st; cases init)
       (auto simp: mempool_init_obj_def mempool_reset_obj_def call_obj_func_def
         free_objs_enqueue_def pool_desc_def Let_def)
qed

lemma mempool_init_objs_eq:
  assumes "ring_wf (free_objs (mp_pools st p))"
    and "length (ring_refs (free_objs (mp_pools st p))) + n \<le> ring_cap (free_objs (mp_pools st p))"
    and "distinct (pool_addrs obj stride n)" and "stride = (if sep then ly_p ly else ly_o ly)"
  shows "\<exists>r m objs. mempool_init_objs ly private_len sep init p n i obj st =
      st\<lparr>mp_objs := objs, mp_pools := (mp_pools st)(p := (mp_pools st p)\<lparr>free_objs := r\<rparr>),
         mp_mem := m\<rparr> \<and>
      ring_wf r \<and> ring_refs r = ring_refs (free_objs (mp_pools st p)) @ pool_addrs obj stride n \<and>
      ring_cap r = ring_cap (free_objs (mp_pools st p)) \<and>
      (\<forall>j < n. objs (obj + of_nat j * stride) =
         pool_desc ly private_len sep (mp_pools st p) p (i + j) (obj + of_nat j * stride)) \<and>
      (\<forall>x. x \<notin> set (pool_addrs obj stride n) \<longrightarrow> objs x = mp_objs st x)"
  using assms
proof (induction n arbitrary: i obj st)
  case 0
  then show ?case
    by (intro exI [of _ "free_objs (mp_pools st p)"] exI [of _ "mp_mem st"] exI [of _ "mp_objs st"])
       (simp add: pool_addrs_def)
next
  case (Suc n)
  let ?P = "mp_pools st p"
  from Suc.prems mempool_init_obj_eq [of st p ly private_len sep init i obj] obtain r m
    where st1: "mempool_init_obj ly private_len sep init p i obj st =
        st\<lparr>mp_objs := (mp_objs st)(obj := pool_desc ly private_len sep ?P p i obj),
           mp_pools := (mp_pools st)(p := ?P\<lparr>free_objs := r\<rparr>), mp_mem := m\<rparr>" (is "_ = ?st1")
      and r: "ring_wf r" "ring_refs r = ring_refs (free_objs ?P) @ [obj]"
        "ring_cap r = ring_cap (free_objs ?P)" by fastforce
  have d: "distinct (pool_addrs (obj + stride) stride n)" "obj \<notin> set (pool_addrs (obj + stride) stride n)"
    using Suc.prems(3) by (simp_all add: pool_addrs_Suc)
  have wf1: "ring_wf (free_objs (mp_pools ?st1 p))" using r by simp
  have "length (ring_refs (free_objs (mp_pools ?st1 p))) + n \<le> ring_cap (free_objs (mp_pools ?st1 p))"
    using Suc.prems(2) r by simp
  note IH = Suc.IH [OF wf1 this d(1) Suc.prems(4), of "Suc i"]
  let ?P1 = "mp_pools ?st1 p"
  from IH obtain r' m' objs
    where st2: "mempool_init_objs ly private_len sep init p n (Suc i) (obj + stride) ?st1 =
        ?st1\<lparr>mp_objs := objs, mp_pools := (mp_pools ?st1)(p := ?P1\<lparr>free_objs := r'\<rparr>),
           mp_mem := m'\<rparr>"
      and r': "ring_wf r'"
        "ring_refs r' = ring_refs (free_objs ?P1) @ pool_addrs (obj + stride) stride n"
        "ring_cap r' = ring_cap (free_objs ?P1)"
      and new: "\<And>j. j < n \<Longrightarrow> objs (obj + stride + of_nat j * stride) =
         pool_desc ly private_len sep ?P1 p (Suc i + j) (obj + stride + of_nat j * stride)"
      and old: "\<And>x. x \<notin> set (pool_addrs (obj + stride) stride n) \<Longrightarrow> objs x = mp_objs ?st1 x"
    by blast
  have desc: "pool_desc ly private_len sep (?P\<lparr>free_objs := r\<rparr>) p k x =
              pool_desc ly private_len sep ?P p k x" for k x
    by (simp add: pool_desc_def)
  have "objs (obj + of_nat j * stride) =
      pool_desc ly private_len sep ?P p (i + j) (obj + of_nat j * stride)" if "j < Suc n" for j
  proof (cases j)
    case 0
    then show ?thesis using old [OF d(2)] by simp
  next
    case (Suc j')
    then show ?thesis using that new [of j'] by (simp add: algebra_simps desc)
  qed
  moreover have "\<forall>x. x \<notin> set (pool_addrs obj stride (Suc n)) \<longrightarrow> objs x = mp_objs st x"
    using old by (simp add: pool_addrs_Suc)
  moreover have "mempool_init_objs ly private_len sep init p (Suc n) i obj st =
      st\<lparr>mp_objs := objs, mp_pools := (mp_pools st)(p := ?P\<lparr>free_objs := r'\<rparr>), mp_mem := m'\<rparr>"
    using st1 st2 Suc.prems(4) by simp
  ultimately show ?case
    using r r' by (intro exI [of _ r'] exI [of _ m'] exI [of _ objs]) (simp add: pool_addrs_Suc fun_upd_def)
qed


section \<open>The pool as a client sees it\<close>

text \<open>
  \<open>objs\<close> are the addresses of the pool's objects, those in the ring are free and the others
  are in use.
\<close>

definition pool_free :: "addr \<Rightarrow> 'm mpstate \<Rightarrow> addr list" where
  "pool_free p st = ring_refs (free_objs (mp_pools st p))"

definition pool_ok :: "addr \<Rightarrow> addr list \<Rightarrow> 'm mpstate \<Rightarrow> bool" where
  "pool_ok p objs st \<longleftrightarrow>
     distinct objs \<and> length objs = unat (nb_objs (mp_pools st p)) \<and>
     ring_wf (free_objs (mp_pools st p)) \<and> length objs \<le> ring_cap (free_objs (mp_pools st p)) \<and>
     distinct (pool_free p st) \<and> set (pool_free p st) \<subseteq> set objs \<and>
     (\<forall>x \<in> set objs. p_ref (mp_objs st x) = p)"

fun pick_n :: "('s \<Rightarrow> 'o option \<times> 's) \<Rightarrow> nat \<Rightarrow> 's \<Rightarrow> 'o list option \<times> 's" where
  "pick_n pick 0 s = (Some [], s)"
| "pick_n pick (Suc n) s =
     (case pick s of
        (None, s') \<Rightarrow> (None, s')
      | (Some x, s') \<Rightarrow> (let (xs, s'') = pick_n pick n s' in (map_option ((#) x) xs, s'')))"

locale object_pool =
  fixes pick :: "'s \<Rightarrow> 'o option \<times> 's"
    and put :: "'o \<Rightarrow> 's \<Rightarrow> 's"
    and wf :: "'s \<Rightarrow> bool"
    and free :: "'s \<Rightarrow> 'o set"
    and used :: "'s \<Rightarrow> 'o set"
  assumes finite_free: "wf s \<Longrightarrow> finite (free s)"
    and finite_used: "wf s \<Longrightarrow> finite (used s)"
    and disjoint: "wf s \<Longrightarrow> free s \<inter> used s = {}"
    and pick_none: "wf s \<Longrightarrow> free s = {} \<Longrightarrow>
      \<exists>s'. pick s = (None, s') \<and> wf s' \<and> free s' = {} \<and> used s' = used s"
    and pick_some: "wf s \<Longrightarrow> free s \<noteq> {} \<Longrightarrow>
      \<exists>x s'. pick s = (Some x, s') \<and> x \<in> free s \<and> wf s' \<and> free s' = free s - {x} \<and>
             used s' = insert x (used s)"
    and put_used: "wf s \<Longrightarrow> x \<in> used s \<Longrightarrow>
      wf (put x s) \<and> free (put x s) = insert x (free s) \<and> used (put x s) = used s - {x}"
begin

lemma pick_cases:
  assumes "wf s" and "pick s = (r, s')"
  shows "wf s' \<and> (case r of
           None \<Rightarrow> free s = {} \<and> free s' = {} \<and> used s' = used s
         | Some x \<Rightarrow> x \<in> free s \<and> x \<notin> used s \<and> free s' = free s - {x} \<and> used s' = insert x (used s))"
  using assms pick_none [of s] pick_some [of s] disjoint [of s]
  by (cases "free s = {}") auto

lemma pick_n_distinct:
  "wf s \<Longrightarrow> n \<le> card (free s) \<Longrightarrow>
   \<exists>xs s'. pick_n pick n s = (Some xs, s') \<and> wf s' \<and> distinct xs \<and> length xs = n \<and>
           set xs \<subseteq> free s \<and> free s' = free s - set xs \<and> used s' = used s \<union> set xs"
proof (induction n arbitrary: s)
  case 0
  then show ?case by simp
next
  case (Suc n)
  then have ne: "free s \<noteq> {}" by auto
  from pick_some [OF Suc.prems(1) ne] obtain x s1
    where x: "pick s = (Some x, s1)" "x \<in> free s" "wf s1" "free s1 = free s - {x}"
      "used s1 = insert x (used s)" by auto
  have "n \<le> card (free s1)"
    using x Suc.prems finite_free [OF Suc.prems(1)] by simp
  from Suc.IH [OF x(3) this] x show ?case by fastforce
qed

lemma pick_all_exhausts:
  assumes "wf s"
  shows "\<exists>xs s' s''. pick_n pick (card (free s)) s = (Some xs, s') \<and> set xs = free s \<and>
           pick s' = (None, s'')"
proof -
  from pick_n_distinct [OF assms order_refl] obtain xs s'
    where xs: "pick_n pick (card (free s)) s = (Some xs, s')" "wf s'" "distinct xs"
      "length xs = card (free s)" "set xs \<subseteq> free s" "free s' = free s - set xs" by auto
  have "set xs = free s"
    using xs finite_free [OF assms] by (metis card_subset_eq distinct_card)
  with xs pick_none [of s'] show ?thesis by auto
qed

lemma put_pick:
  assumes "wf s" and "x \<in> used s"
  shows "\<exists>y s'. pick (put x s) = (Some y, s') \<and> used s' = insert y (used s - {x}) \<and>
                card (used s') = card (used s)"
proof -
  from put_used [OF assms] have p: "wf (put x s)" "free (put x s) = insert x (free s)"
    "used (put x s) = used s - {x}" by auto
  from pick_some [OF p(1)] p obtain y s'
    where y: "pick (put x s) = (Some y, s')" "y \<in> insert x (free s)" "used s' = insert y (used s - {x})"
    by auto
  moreover have "y \<notin> used s - {x}" using y disjoint [OF assms(1)] by auto
  ultimately show ?thesis using assms finite_used [OF assms(1)]
    by (auto simp: card_Diff_singleton card_gt_0_iff intro!: Suc_pred)
qed

end

definition reset_desc :: "'m mempool \<Rightarrow> mempool_obj \<Rightarrow> mempool_obj" where
  "reset_desc P ob = ob\<lparr>obj_len := pool_obj_size P, obj_lhr := pool_headroom P,
     obj_ltr := pool_tailroom P, obj_data := obj_base ob + pool_headroom P\<rparr>"

lemma mempool_pick_Some:
  assumes ok: "pool_ok p objs st" and fr: "pool_free p st = x # xs"
  shows "\<exists>r. mempool_pick p st =
      (Some x, st\<lparr>mp_objs := (mp_objs st)(x := reset_desc (mp_pools st p) (mp_objs st x)),
         mp_pools := (mp_pools st)(p := (mp_pools st p)\<lparr>free_objs := r\<rparr>),
         mp_mem := (case obj_pick_func (mp_pools st p) of None \<Rightarrow> mp_mem st
                    | Some g \<Rightarrow> g x (reset_desc (mp_pools st p) (mp_objs st x)) (mp_mem st))\<rparr>) \<and>
      ring_wf r \<and> ring_refs r = xs \<and> ring_cap r = ring_cap (free_objs (mp_pools st p))"
proof -
  let ?P = "mp_pools st p"
  from ok have "ring_wf (free_objs ?P)" by (simp add: pool_ok_def)
  from rq.deq_some [OF this] fr obtain r where r: "ring_dequeue (free_objs ?P) = (Some x, r)"
    "ring_wf r" "ring_refs r = xs" "ring_cap r = ring_cap (free_objs ?P)"
    by (auto simp: pool_free_def)
  have "p_ref (mp_objs st x) = p"
    using ok fr by (auto simp: pool_ok_def)
  with r show ?thesis
    by (cases st; cases "obj_pick_func ?P")
       (auto simp: mempool_pick_def mempool_reset_obj_def call_obj_func_def reset_desc_def Let_def)
qed

lemma mempool_pick_None:
  assumes "pool_ok p objs st" and "pool_free p st = []"
  shows "mempool_pick p st = (None, st)"
proof -
  have "ring_dequeue (free_objs (mp_pools st p)) = (None, free_objs (mp_pools st p))"
    using assms by (intro rq.deq_none) (simp_all add: pool_ok_def pool_free_def)
  then show ?thesis by (cases st) (simp add: mempool_pick_def)
qed

lemma mempool_put_eq:
  assumes ok: "pool_ok p objs st" and x: "x \<in> set objs - set (pool_free p st)"
  shows "\<exists>r. mempool_put x st =
      st\<lparr>mp_pools := (mp_pools st)(p := (mp_pools st p)\<lparr>free_objs := r\<rparr>),
         mp_mem := (case obj_put_func (mp_pools st p) of None \<Rightarrow> mp_mem st
                    | Some g \<Rightarrow> g x (mp_objs st x) (mp_mem st))\<rparr> \<and>
      ring_wf r \<and> ring_refs r = pool_free p st @ [x] \<and>
      ring_cap r = ring_cap (free_objs (mp_pools st p))"
proof -
  let ?P = "mp_pools st p"
  have "distinct (x # pool_free p st)" "set (x # pool_free p st) \<subseteq> set objs"
    using ok x by (auto simp: pool_ok_def)
  then have "length (x # pool_free p st) \<le> length objs"
    using ok by (metis List.finite_set card_mono distinct_card pool_ok_def)
  then have "length (ring_refs (free_objs ?P)) < ring_cap (free_objs ?P)"
    using ok by (simp add: pool_ok_def pool_free_def)
  moreover have "ring_wf (free_objs ?P)" using ok by (simp add: pool_ok_def)
  ultimately obtain r where "ring_enqueue (free_objs ?P) (Some x) = Inr r" "ring_wf r"
    "ring_refs r = ring_refs (free_objs ?P) @ [x]" "ring_cap r = ring_cap (free_objs ?P)"
    using rq.enq_room [of "free_objs ?P" x] by auto
  moreover have "p_ref (mp_objs st x) = p" using ok x by (auto simp: pool_ok_def)
  ultimately show ?thesis
    by (intro exI [of _ r])
       (simp add: mempool_put_def free_objs_enqueue_def call_obj_func_def pool_free_def
         split: option.split)
qed

lemma pool_free_upd [simp]:
  "pool_free p (st\<lparr>mp_mem := m\<rparr>) = pool_free p st"
  "pool_free p (st\<lparr>mp_objs := ob\<rparr>) = pool_free p st"
  "pool_free p (st\<lparr>mp_pools := (mp_pools st)(p := (mp_pools st p)\<lparr>free_objs := r\<rparr>)\<rparr>) = ring_refs r"
  by (simp_all add: pool_free_def)

lemma pool_ok_upd:
  assumes "pool_ok p objs st" and "ring_wf r" and "ring_cap r = ring_cap (free_objs (mp_pools st p))"
    and "distinct (ring_refs r)" and "set (ring_refs r) \<subseteq> set objs"
    and "\<And>x. x \<in> set objs \<Longrightarrow> p_ref (ob x) = p"
  shows "pool_ok p objs (st\<lparr>mp_objs := ob,
           mp_pools := (mp_pools st)(p := (mp_pools st p)\<lparr>free_objs := r\<rparr>), mp_mem := m\<rparr>)"
  using assms by (simp add: pool_ok_def pool_free_def)

definition pool_free_set :: "addr \<Rightarrow> 'm mpstate \<Rightarrow> addr set" where
  "pool_free_set p st = set (pool_free p st)"

definition pool_used_set :: "addr \<Rightarrow> addr list \<Rightarrow> 'm mpstate \<Rightarrow> addr set" where
  "pool_used_set p objs st = set objs - set (pool_free p st)"

interpretation pl: object_pool "mempool_pick p" mempool_put "pool_ok p objs" "pool_free_set p"
    "pool_used_set p objs" for p :: addr and objs :: "addr list"
proof (unfold_locales, goal_cases)
  case (1 s)
  then show ?case by (simp add: pool_free_set_def)
next
  case (2 s)
  then show ?case by (simp add: pool_used_set_def)
next
  case (3 s)
  then show ?case by (auto simp: pool_free_set_def pool_used_set_def)
next
  case (4 s)
  then show ?case using mempool_pick_None [of p objs s] by (simp add: pool_free_set_def)
next
  case (5 st)
  then obtain x xs where xs: "pool_free p st = x # xs"
    by (cases "pool_free p st") (auto simp: pool_free_set_def)
  from mempool_pick_Some [OF 5(1) xs] obtain r ob m where
    s': "mempool_pick p st = (Some x, st\<lparr>mp_objs := (mp_objs st)(x := reset_desc (mp_pools st p) (mp_objs st x)),
         mp_pools := (mp_pools st)(p := (mp_pools st p)\<lparr>free_objs := r\<rparr>), mp_mem := m\<rparr>)"
    and r: "ring_wf r" "ring_refs r = xs" "ring_cap r = ring_cap (free_objs (mp_pools st p))" by auto
  have d: "distinct (x # xs)" "set (x # xs) \<subseteq> set objs" using 5(1) xs by (auto simp: pool_ok_def)
  let ?st = "st\<lparr>mp_objs := (mp_objs st)(x := reset_desc (mp_pools st p) (mp_objs st x)),
         mp_pools := (mp_pools st)(p := (mp_pools st p)\<lparr>free_objs := r\<rparr>), mp_mem := m\<rparr>"
  have "pool_ok p objs ?st"
    using 5(1) r d by (intro pool_ok_upd) (simp_all add: pool_ok_def reset_desc_def)
  moreover have "pool_free_set p st = set (x # xs)" "pool_free_set p ?st = set xs"
    using xs by (simp_all add: pool_free_set_def r(2) pool_free_def)
  moreover have "pool_used_set p objs ?st = insert x (pool_used_set p objs st)"
    using d xs by (auto simp: pool_used_set_def r(2) pool_free_def)
  ultimately show ?case using d by (intro exI [of _ x] exI [of _ ?st]) (simp add: s')
next
  case (6 st x)
  then have x: "x \<in> set objs - set (pool_free p st)" by (simp add: pool_used_set_def)
  from mempool_put_eq [OF 6(1) x] obtain r m where
    s': "mempool_put x st = st\<lparr>mp_pools := (mp_pools st)(p := (mp_pools st p)\<lparr>free_objs := r\<rparr>), mp_mem := m\<rparr>"
    and r: "ring_wf r" "ring_refs r = pool_free p st @ [x]"
      "ring_cap r = ring_cap (free_objs (mp_pools st p))" by auto
  have e: "st\<lparr>mp_pools := P, mp_mem := m\<rparr> = st\<lparr>mp_objs := mp_objs st, mp_pools := P, mp_mem := m\<rparr>" for P
    by simp
  have "pool_ok p objs (mempool_put x st)"
    unfolding s' e using 6(1) r x by (intro pool_ok_upd) (auto simp: pool_ok_def)
  then show ?case
    using r x by (auto simp: s' pool_free_set_def pool_used_set_def pool_free_def)
qed


section \<open>The layout\<close>

text \<open>
  The sizes for which no computation in \<open>size_t\<close> wraps: everything that belongs to one
  object stays below 4 GiB and there are fewer than \<open>2 ^ 31\<close> objects.
\<close>

definition layout_small :: "u32 \<Rightarrow> u64 \<Rightarrow> u64 \<Rightarrow> u64 \<Rightarrow> u64 \<Rightarrow> u64 \<Rightarrow> bool" where
  "layout_small nb sz align headroom tailroom private_len \<longleftrightarrow>
     (align = 0 \<or> POWER_OF_2 align) \<and> nb < 2 ^ 31 \<and>
     unat headroom + unat sz + unat tailroom + unat private_len + 2 * unat (max align MIN_ALIGN) + 88
       < 2 ^ 32"

lemma max_align_pow2: "align = 0 \<or> POWER_OF_2 align \<Longrightarrow> POWER_OF_2 (max align MIN_ALIGN)"
  by (auto simp: max_def POWER_OF_2_def)

lemma align_up_id:
  assumes "POWER_OF_2 a" and "unat x + unat a \<le> 2 ^ 64" and "unat a dvd unat x"
  shows "align_up x a = x"
proof -
  have "0 < unat a" using assms(1) by (simp add: POWER_OF_2_def unat_gt_0)
  moreover obtain q where "unat x = unat a * q" using assms(3) by auto
  ultimately have "(unat x + unat a - 1) mod unat a = unat a - 1"
    by (simp add: mod_less) (metis Suc_pred diff_less mod_less mod_mult_self4 zero_less_one add_diff_assoc Suc_leI One_nat_def)
  then have "unat (align_up x a) = unat x"
    using align_up_unat [OF assms(1,2)] \<open>0 < unat a\<close> by simp
  then show ?thesis by (rule unsigned_word_eqI)
qed

lemma align_up_56: "align_up sizeof_mempool_obj MIN_ALIGN = 56"
  by (simp add: align_up_def)

lemma ucast_mult_unat:
  assumes "nb < (2 ^ 31 :: u32)" and "unat (x :: u64) < 2 ^ 32"
  shows "unat (ucast nb * x) = unat nb * unat x"
proof -
  have n: "unat nb < 2 ^ 31" using assms(1) by (simp add: word_less_nat_alt)
  have u: "unat (ucast nb :: u64) = unat nb"
    by (simp add: unsigned_ucast_eq) (rule take_bit_nat_eq_self, use n in simp)
  have "unat nb * unat x \<le> 2 ^ 31 * 2 ^ 32" using n assms(2) by (intro mult_mono) simp_all
  then show ?thesis by (subst unat_mult_less) (simp_all add: u)
qed

lemma layout_embedded:
  fixes nb sz align headroom tailroom priv
  defines "a \<equiv> max align MIN_ALIGN"
  defines "ly \<equiv> mempool_layout nb sz align headroom tailroom priv False"
  assumes sm: "layout_small nb sz align headroom tailroom priv"
  shows "unat (ly_p ly) = 56 + unat priv" and "unat a dvd unat (ly_h ly)" and "88 \<le> unat (ly_h ly)"
    and "unat a dvd unat (ly_o ly)" and "unat a dvd unat (ly_p ly) + unat (ly_headroom ly)"
    and "unat (ly_p ly) + unat (ly_headroom ly) + unat sz + unat (ly_tailroom ly) = unat (ly_o ly)"
    and "unat (ly_pool ly) = unat (ly_h ly) + unat nb * unat (ly_o ly)" and "ly_data ly = 0"
    and "unat headroom \<le> unat (ly_headroom ly)" and "unat tailroom \<le> unat (ly_tailroom ly)"
    and "unat (ly_o ly) < 2 ^ 32"
proof -
  have pa: "POWER_OF_2 a" using sm by (simp add: a_def layout_small_def max_align_pow2)
  have bnd: "unat headroom + unat sz + unat tailroom + unat priv + 2 * unat a + 88 < 2 ^ 32"
    and nb: "nb < 2 ^ 31" using sm by (simp_all add: layout_small_def a_def)
  define p where "p = (56 + priv :: u64)"
  have p: "unat p = 56 + unat priv" using bnd by (simp add: p_def unat_add_less)
  have x1: "unat (p + headroom) = unat p + unat headroom" using bnd p by (subst unat_add_less) simp_all
  define A where "A = align_up (p + headroom) a"
  have A: "unat p + unat headroom \<le> unat A" "unat A < unat p + unat headroom + unat a" "unat a dvd unat A"
    using align_up_facts [OF pa, of "p + headroom"] bnd p x1 by (simp_all add: A_def)
  define hr where "hr = A - p"
  have hr: "unat p + unat hr = unat A" using A by (simp add: hr_def unat_sub word_le_nat_alt)
  then have pA: "p + hr = A" by (simp add: hr_def)
  have x2: "unat (A + sz + tailroom) = unat A + unat sz + unat tailroom"
    using A bnd p by (simp add: unat_add_less)
  define os where "os = align_up (A + sz + tailroom) a"
  have os: "unat A + unat sz + unat tailroom \<le> unat os"
    "unat os < unat A + unat sz + unat tailroom + unat a" "unat a dvd unat os"
    using align_up_facts [OF pa, of "A + sz + tailroom"] A bnd p x2 by (simp_all add: os_def)
  have os32: "unat os < 2 ^ 32" using os A bnd p by simp
  have os': "align_up os a = os" using os os32 bnd by (intro align_up_id [OF pa]) simp_all
  define tr where "tr = os - hr - sz - p"
  have "tr = os - (A + sz)" by (simp add: tr_def pA [symmetric] algebra_simps)
  moreover have "unat (A + sz) = unat A + unat sz" using A bnd p by (subst unat_add_less) simp_all
  ultimately have tr: "unat A + unat sz + unat tr = unat os"
    using os by (simp add: unat_sub word_le_nat_alt)
  define h where "h = align_up 88 a"
  have h: "88 \<le> unat h" "unat h < 88 + unat a" "unat a dvd unat h"
    using align_up_facts [OF pa, of 88] bnd by (simp_all add: h_def)
  have ly: "ly = \<lparr>ly_h = h, ly_m = 56, ly_p = p, ly_o = os, ly_headroom = hr, ly_tailroom = tr,
                 ly_pool = h + ucast nb * os, ly_data = 0\<rparr>"
    unfolding ly_def mempool_layout_def a_def [symmetric] align_up_56 Let_def
    by (simp add: p_def [symmetric] A_def [symmetric] hr_def [symmetric] pA os_def [symmetric] os'
        tr_def h_def)
  have m: "unat (ucast nb * os) = unat nb * unat os" by (rule ucast_mult_unat [OF nb os32])
  have "unat nb * unat os \<le> 2 ^ 31 * 2 ^ 32"
    using nb os32 by (intro mult_mono) (simp_all add: word_less_nat_alt)
  then have pl: "unat (h + ucast nb * os) = unat h + unat nb * unat os"
    using h bnd m by (subst unat_add_less) simp_all
  show "unat (ly_p ly) = 56 + unat priv" "unat a dvd unat (ly_h ly)" "88 \<le> unat (ly_h ly)"
    "unat a dvd unat (ly_o ly)" "unat a dvd unat (ly_p ly) + unat (ly_headroom ly)"
    "unat (ly_p ly) + unat (ly_headroom ly) + unat sz + unat (ly_tailroom ly) = unat (ly_o ly)"
    "unat (ly_pool ly) = unat (ly_h ly) + unat nb * unat (ly_o ly)" "ly_data ly = 0"
    "unat headroom \<le> unat (ly_headroom ly)" "unat tailroom \<le> unat (ly_tailroom ly)"
    "unat (ly_o ly) < 2 ^ 32"
    using p h os hr A tr pl os32 by (simp_all add: ly)
qed

lemma layout_separate:
  fixes nb sz align headroom tailroom priv
  defines "a \<equiv> max align MIN_ALIGN"
  defines "ly \<equiv> mempool_layout nb sz align headroom tailroom priv True"
  assumes sm: "layout_small nb sz align headroom tailroom priv"
  shows "56 + unat priv \<le> unat (ly_p ly)" and "unat (ly_h ly) = 88" and "ly_m ly = 56"
    and "8 dvd unat (ly_p ly)" and "unat a dvd unat (ly_o ly)" and "unat a dvd unat (ly_headroom ly)"
    and "unat (ly_headroom ly) + unat sz + unat (ly_tailroom ly) = unat (ly_o ly)"
    and "unat (ly_pool ly) = 88 + unat nb * unat (ly_p ly)"
    and "unat (ly_data ly) = unat nb * unat (ly_o ly)"
    and "unat headroom \<le> unat (ly_headroom ly)" and "unat tailroom \<le> unat (ly_tailroom ly)"
    and "unat (ly_o ly) < 2 ^ 32" and "unat (ly_p ly) < 2 ^ 32"
proof -
  have pa: "POWER_OF_2 a" using sm by (simp add: a_def layout_small_def max_align_pow2)
  have p8: "POWER_OF_2 (8 :: u64)" by (simp add: POWER_OF_2_def)
  have a8: "8 \<le> unat a" by (simp add: a_def max_def word_le_nat_alt)
  have bnd: "unat headroom + unat sz + unat tailroom + unat priv + 2 * unat a + 88 < 2 ^ 32"
    and nb: "nb < 2 ^ 31" using sm by (simp_all add: layout_small_def a_def)
  define hr where "hr = align_up headroom a"
  have hr: "unat headroom \<le> unat hr" "unat hr < unat headroom + unat a" "unat a dvd unat hr"
    using align_up_facts [OF pa, of headroom] bnd by (simp_all add: hr_def)
  have x2: "unat (hr + sz + tailroom) = unat hr + unat sz + unat tailroom"
    using hr bnd by (simp add: unat_add_less)
  define os where "os = align_up (hr + sz + tailroom) a"
  have os: "unat hr + unat sz + unat tailroom \<le> unat os"
    "unat os < unat hr + unat sz + unat tailroom + unat a" "unat a dvd unat os"
    using align_up_facts [OF pa, of "hr + sz + tailroom"] hr bnd x2 by (simp_all add: os_def)
  have os32: "unat os < 2 ^ 32" using os hr bnd by simp
  have os': "align_up os a = os" using os os32 bnd by (intro align_up_id [OF pa]) simp_all
  define tr where "tr = os - hr - sz"
  have "tr = os - (hr + sz)" by (simp add: tr_def algebra_simps)
  moreover have "unat (hr + sz) = unat hr + unat sz" using hr bnd by (subst unat_add_less) simp_all
  ultimately have tr: "unat hr + unat sz + unat tr = unat os"
    using os by (simp add: unat_sub word_le_nat_alt)
  have p0: "unat (56 + priv) = 56 + unat priv" using bnd by (subst unat_add_less) simp_all
  define p where "p = align_up (56 + priv) 8"
  have p: "56 + unat priv \<le> unat p" "unat p < 64 + unat priv" "8 dvd unat p"
    using align_up_facts [OF p8, of "56 + priv"] bnd p0 by (simp_all add: p_def)
  have p32: "unat p < 2 ^ 32" using p bnd a8 by simp
  have h: "align_up 88 8 = 88" by (simp add: align_up_def)
  have ly: "ly = \<lparr>ly_h = 88, ly_m = 56, ly_p = p, ly_o = os, ly_headroom = hr, ly_tailroom = tr,
                 ly_pool = 88 + ucast nb * p, ly_data = ucast nb * os\<rparr>"
    unfolding ly_def mempool_layout_def a_def [symmetric] align_up_56 Let_def
    by (simp add: p_def [symmetric] hr_def [symmetric] os_def [symmetric] os' tr_def h)
  note m = ucast_mult_unat [OF nb os32] ucast_mult_unat [OF nb p32]
  have "unat nb * unat p \<le> 2 ^ 31 * 2 ^ 32"
    using nb p32 by (intro mult_mono) (simp_all add: word_less_nat_alt)
  then have pl: "unat (88 + ucast nb * p) = 88 + unat nb * unat p"
    using m by (subst unat_add_less) simp_all
  show "56 + unat priv \<le> unat (ly_p ly)" "unat (ly_h ly) = 88" "ly_m ly = 56"
    "8 dvd unat (ly_p ly)" "unat a dvd unat (ly_o ly)" "unat a dvd unat (ly_headroom ly)"
    "unat (ly_headroom ly) + unat sz + unat (ly_tailroom ly) = unat (ly_o ly)"
    "unat (ly_pool ly) = 88 + unat nb * unat (ly_p ly)"
    "unat (ly_data ly) = unat nb * unat (ly_o ly)"
    "unat headroom \<le> unat (ly_headroom ly)" "unat tailroom \<le> unat (ly_tailroom ly)"
    "unat (ly_o ly) < 2 ^ 32" "unat (ly_p ly) < 2 ^ 32"
    using p hr os tr pl m os32 p32 by (simp_all add: ly)
qed

section \<open>Allocation\<close>

lemma unat_pool_addr:
  fixes obj stride :: u64
  assumes "unat obj + n * unat stride \<le> 2 ^ 64" and "i < n" and "0 < unat stride"
  shows "unat (obj + of_nat i * stride) = unat obj + i * unat stride"
proof -
  have "(i + 1) * unat stride \<le> n * unat stride" using assms(2) by (intro mult_le_mono1) simp
  then have b: "unat obj + i * unat stride < 2 ^ 64" using assms by simp
  moreover have "i \<le> i * unat stride" using assms(3) by simp
  ultimately have "i < 2 ^ 64" by linarith
  then have "unat (of_nat i :: u64) = i" by (simp add: unat_of_nat)
  then have "unat (of_nat i * stride) = i * unat stride"
    using b by (subst unat_mult_less) simp_all
  then show ?thesis using b by (subst unat_add_less) simp_all
qed

lemma distinct_pool_addrs:
  assumes "unat obj + n * unat stride \<le> 2 ^ 64" and "0 < unat stride"
  shows "distinct (pool_addrs obj stride n)"
proof -
  have "inj_on (\<lambda>j. obj + of_nat j * stride) {0..<n}"
  proof (rule inj_onI)
    fix i j
    assume "i \<in> {0..<n}" "j \<in> {0..<n}" "obj + of_nat i * stride = obj + of_nat j * stride"
    then have "unat (obj + of_nat i * stride) = unat (obj + of_nat j * stride)" "i < n" "j < n"
      by simp_all
    then show "i = j" using assms by (simp add: unat_pool_addr)
  qed
  then show ?thesis by (simp add: pool_addrs_def distinct_map)
qed

text \<open>
  What the allocator promises: the ring memory has the size asked for, the pool memory and
  the data memory are aligned as asked and lie in the address space.
\<close>

definition xmalloc_ok :: "u32 \<Rightarrow> u64 \<Rightarrow> layout \<Rightarrow> bool \<Rightarrow> addr \<Rightarrow> addr \<Rightarrow> addr option list \<Rightarrow> bool" where
  "xmalloc_ok nb a ly sep p d slots \<longleftrightarrow>
     length slots = unat (push_bit (unat (log2 nb + 1)) (1 :: u32)) \<and>
     unat p + unat (ly_pool ly) < 2 ^ 64 \<and>
     (if sep then unat a dvd unat d \<and> unat d + unat (ly_data ly) < 2 ^ 64 else unat a dvd unat p)"

lemma alloc_pool_state:
  fixes nb sz align headroom tailroom priv sep init pick put xd slots p
    and st :: "'m mpstate"
  defines "ly \<equiv> mempool_layout nb sz align headroom tailroom priv sep"
  defines "stride \<equiv> (if sep then ly_p ly else ly_o ly)"
  defines "objs \<equiv> pool_addrs (p + ly_h ly) stride (unat nb)"
  assumes al: "align = 0 \<or> POWER_OF_2 align" and nb: "nb < 2 ^ 31"
    and sl: "length slots = unat (push_bit (unat (log2 nb + 1)) (1 :: u32))"
    and d: "distinct objs"
  shows "\<exists>st' P r. alloc_enhanced_mempool (Some p) xd (Some slots) nb sz align headroom tailroom priv
            sep init pick put st = Inr (p, st') \<and>
          pool_ok p objs st' \<and> pool_free p st' = objs \<and>
          (\<forall>j < unat nb. mp_objs st' (objs ! j) = pool_desc ly priv sep P p j (objs ! j)) \<and>
          (\<forall>x. x \<notin> set objs \<longrightarrow> mp_objs st' x = mp_objs st x) \<and>
          P = \<lparr>free_objs = r, obj_pick_func = pick, pool_obj_size = sz,
               pool_headroom = ly_headroom ly, pool_tailroom = ly_tailroom ly,
               obj_put_func = put, nb_objs = nb, pool_size = ly_pool ly + ly_data ly,
               obj_data_area = (if sep then xd else None)\<rparr>"
proof -
  let ?sz = "push_bit (unat (log2 nb + 1)) (1 :: u32)"
  from ring_size_for(1) [OF nb] obtain k where k: "k < 32" "unat ?sz = 2 ^ k" "unat nb < 2 ^ k" by auto
  let ?r = "\<lparr>enq_idx = 0, deq_idx = 0, ring_size = ?sz, ring_mask = ?sz - 1, ring_slots = slots\<rparr> :: addr ring"
  have nz: "?sz \<noteq> 0" using ring_size_for(2) [OF nb] by (simp only: POWER_OF_2_def) simp
  have a: "alloc_ring (Some slots) ?sz = Inr ?r"
    using ring_size_for(2) [OF nb] nz by (simp add: alloc_ring_def word_gt_0)
  have ok: "ring_ok ?r" using k nz sl unat_sub_one [OF nz] by (auto simp: ring_ok_def)
  have "ring_empty ?r" by (simp add: ring_empty_def)
  then have e: "ring_list ?r = []" using ring_empty_iff [OF ok] by simp
  have wf: "ring_wf ?r" "ring_refs ?r = []" using ok e by (simp_all add: ring_wf_def ring_refs_def)
  have cap: "unat nb \<le> ring_cap ?r" using k by (simp add: ring_cap_def)
  let ?P = "\<lparr>free_objs = ?r, obj_pick_func = pick, pool_obj_size = sz,
             pool_headroom = ly_headroom ly, pool_tailroom = ly_tailroom ly,
             obj_put_func = put, nb_objs = nb, pool_size = ly_pool ly + ly_data ly,
             obj_data_area = (if sep then xd else None)\<rparr>"
  let ?st = "st\<lparr>mp_pools := (mp_pools st)(p := ?P)\<rparr>"
  have al': "\<not> (align \<noteq> 0 \<and> \<not> POWER_OF_2 align)" using al by auto
  have "mp_pools ?st p = ?P" by simp
  then have "ring_wf (free_objs (mp_pools ?st p))"
    "length (ring_refs (free_objs (mp_pools ?st p))) + unat nb \<le> ring_cap (free_objs (mp_pools ?st p))"
    using wf cap by simp_all
  from mempool_init_objs_eq [OF this d [unfolded objs_def], of sep ly priv init 0, OF stride_def [THEN meta_eq_to_obj_eq]]
  obtain r m ob where st': "mempool_init_objs ly priv sep init p (unat nb) 0 (p + ly_h ly) ?st =
      ?st\<lparr>mp_objs := ob, mp_pools := (mp_pools ?st)(p := (mp_pools ?st p)\<lparr>free_objs := r\<rparr>), mp_mem := m\<rparr>"
    and r: "ring_wf r" "ring_refs r = objs" "ring_cap r = ring_cap ?r"
    and new: "\<forall>j < unat nb. ob (p + ly_h ly + of_nat j * stride) =
       pool_desc ly priv sep ?P p j (p + ly_h ly + of_nat j * stride)"
    and old: "\<forall>x. x \<notin> set objs \<longrightarrow> ob x = mp_objs st x"
    using wf by (auto simp: objs_def)
  let ?st' = "?st\<lparr>mp_objs := ob, mp_pools := (mp_pools ?st)(p := (mp_pools ?st p)\<lparr>free_objs := r\<rparr>), mp_mem := m\<rparr>"
  have len: "length objs = unat nb" by (simp add: objs_def pool_addrs_def)
  have nth: "objs ! j = p + ly_h ly + of_nat j * stride" if "j < unat nb" for j
    using that by (simp add: objs_def pool_addrs_def)
  have "p_ref (ob x) = p" if "x \<in> set objs" for x
    using that new by (auto simp: objs_def pool_addrs_def pool_desc_def Let_def)
  then have "pool_ok p objs ?st'"
    using d len r cap by (simp add: pool_ok_def pool_free_def)
  moreover have "pool_free p ?st' = objs" using r by (simp add: pool_free_def)
  moreover have "alloc_enhanced_mempool (Some p) xd (Some slots) nb sz align headroom tailroom priv
            sep init pick put st = Inr (p, ?st')"
    using al' a st' by (simp add: alloc_enhanced_mempool_def ly_def [symmetric] Let_def)
  ultimately show ?thesis using new old nth by (intro exI [of _ ?st'] exI [of _ ?P] exI [of _ ?r]) simp
qed


section \<open>Properties\<close>

lemma even_slots:
  assumes "(b::nat) + n * s \<le> 2 ^ 64" and "j < n"
  shows "b + j * s + s \<le> 2 ^ 64"
proof -
  have "(j + 1) * s \<le> n * s" using assms(2) by (intro mult_le_mono1) simp
  with assms(1) show ?thesis by simp
qed

text \<open>Where the descriptor of object \<open>j\<close> places the object's data.\<close>

lemma slot_of:
  fixes b s :: u64
  assumes "unat b + n * unat s < 2 ^ 64" and "j < n" and "0 < unat s"
  shows "unat (b + of_nat j * s) = unat b + j * unat s"
    and "unat b + j * unat s + unat s < 2 ^ 64"
proof -
  show "unat (b + of_nat j * s) = unat b + j * unat s"
    using assms by (intro unat_pool_addr) simp_all
  have "(j + 1) * unat s \<le> n * unat s" using assms(2) by (intro mult_le_mono1) simp
  with assms(1) show "unat b + j * unat s + unat s < 2 ^ 64" by simp
qed

definition slot_filled :: "nat \<Rightarrow> nat \<Rightarrow> nat \<Rightarrow> nat \<Rightarrow> u64 \<Rightarrow> u64 \<Rightarrow> u64 \<Rightarrow> mempool_obj \<Rightarrow> bool" where
  "slot_filled lo hi off a headroom sz tailroom ob \<longleftrightarrow>
     unat (obj_base ob) = lo + off \<and>
     unat (obj_data ob) = unat (obj_base ob) + unat (obj_lhr ob) \<and>
     a dvd unat (obj_data ob) \<and>
     unat (obj_data ob) + unat (obj_len ob) + unat (obj_ltr ob) = hi \<and>
     obj_len ob = sz \<and> headroom \<le> obj_lhr ob \<and> tailroom \<le> obj_ltr ob"

lemma slot_embedded:
  assumes sm: "layout_small nb sz align headroom tailroom priv"
    and ly: "ly = mempool_layout nb sz align headroom tailroom priv False"
    and reg: "unat p + unat (ly_pool ly) < 2 ^ 64" and al: "unat (max align MIN_ALIGN) dvd unat p"
    and j: "j < unat nb" and x: "x = p + ly_h ly + of_nat j * ly_o ly"
    and P: "pool_obj_size P = sz" "pool_headroom P = ly_headroom ly" "pool_tailroom P = ly_tailroom ly"
    and lo: "lo = unat p + unat (ly_h ly) + j * unat (ly_o ly)"
  shows "slot_filled lo (lo + unat (ly_o ly)) (unat (ly_p ly)) (unat (max align MIN_ALIGN)) headroom sz tailroom
           (pool_desc ly priv False P p j x)"
proof -
  let ?a = "unat (max align MIN_ALIGN)"
  note E = layout_embedded [OF sm, folded ly]
  have o: "0 < unat (ly_o ly)" using E(1,6) by simp
  have "0 < unat nb * unat (ly_o ly)" using o j by simp
  then have hw: "unat (p + ly_h ly) = unat p + unat (ly_h ly)"
    using reg E(7) by (subst unat_add_less) simp_all
  have reg': "unat (p + ly_h ly) + unat nb * unat (ly_o ly) < 2 ^ 64" using hw reg E(7) by simp
  note so = slot_of [OF reg' j o]
  have ux: "unat x = lo" using so(1) hw by (simp add: x lo)
  have hi: "lo + unat (ly_o ly) < 2 ^ 64" using so(2) hw by (simp add: lo)
  have ub: "unat (x + ly_p ly) = lo + unat (ly_p ly)"
    using ux hi E(6) by (subst unat_add_less) simp_all
  have ud: "unat (x + ly_p ly + ly_headroom ly) = lo + unat (ly_p ly) + unat (ly_headroom ly)"
    using ub hi E(6) by (subst unat_add_less) simp_all
  have "?a dvd lo" using al E(2,4) by (simp add: lo)
  then have "?a dvd lo + (unat (ly_p ly) + unat (ly_headroom ly))" using E(5) by (simp only: dvd_add)
  then show ?thesis
    using ub ud E(6,9,10) P
    by (simp add: slot_filled_def pool_desc_def Let_def word_le_nat_alt add.assoc)
qed

lemma slot_separate:
  assumes sm: "layout_small nb sz align headroom tailroom priv"
    and ly: "ly = mempool_layout nb sz align headroom tailroom priv True"
    and reg: "unat d + unat (ly_data ly) < 2 ^ 64" and al: "unat (max align MIN_ALIGN) dvd unat d"
    and j: "j < unat nb"
    and P: "pool_obj_size P = sz" "pool_headroom P = ly_headroom ly" "pool_tailroom P = ly_tailroom ly"
      "obj_data_area P = Some d"
    and lo: "lo = unat d + j * unat (ly_o ly)"
  shows "slot_filled lo (lo + unat (ly_o ly)) 0 (unat (max align MIN_ALIGN)) headroom sz tailroom
           (pool_desc ly priv True P p j x)"
proof -
  let ?a = "unat (max align MIN_ALIGN)"
  note S = layout_separate [OF sm, folded ly]
  have hi: "lo + unat (ly_o ly) < 2 ^ 64" and ub: "unat (d + of_nat j * ly_o ly) = lo"
  proof -
    show "lo + unat (ly_o ly) < 2 ^ 64"
      using slot_of(2) [of d "unat nb" "ly_o ly" j] reg S(9) j
      by (cases "unat (ly_o ly) = 0") (auto simp: lo)
    show "unat (d + of_nat j * ly_o ly) = lo"
      using slot_of(1) [of d "unat nb" "ly_o ly" j] reg S(9) j
      by (cases "unat (ly_o ly) = 0") (auto simp: lo unat_eq_0)
  qed
  have ud: "unat (d + of_nat j * ly_o ly + ly_headroom ly) = lo + unat (ly_headroom ly)"
    using ub hi S(7) by (subst unat_add_less) simp_all
  have "?a dvd lo + unat (ly_headroom ly)" using al S(5,6) by (simp add: lo)
  then show ?thesis
    using ub ud S(7,10,11) P
    by (simp add: slot_filled_def pool_desc_def Let_def word_le_nat_alt)
qed

text \<open>
  C34: allocating a pool succeeds and hands the client \<open>nb_objs\<close> free objects at distinct
  addresses. Object \<open>j\<close> owns the \<open>j\<close>-th slot of the pool (of the data area when it is
  separate): headroom, data and tailroom fill the slot up to its end and not beyond, they
  are at least as large as asked for, and the data is aligned as asked for.
\<close>

theorem alloc_pool_objects:
  fixes nb :: u32 and st :: "'m mpstate"
  assumes sm: "layout_small nb sz align headroom tailroom priv"
    and ly: "ly = mempool_layout nb sz align headroom tailroom priv sep"
    and xm: "xmalloc_ok nb (max align MIN_ALIGN) ly sep p d slots"
    and objs: "objs = pool_addrs (p + ly_h ly) (if sep then ly_p ly else ly_o ly) (unat nb)"
  shows "\<exists>st'. alloc_enhanced_mempool (Some p) (Some d) (Some slots) nb sz align headroom tailroom priv
           sep init pick put st = Inr (p, st') \<and> pool_ok p objs st' \<and> pool_free p st' = objs \<and>
         (\<forall>j < unat nb. let lo = (if sep then unat d else unat p + unat (ly_h ly)) + j * unat (ly_o ly)
            in slot_filled lo (lo + unat (ly_o ly)) (if sep then 0 else unat (ly_p ly))
                 (unat (max align MIN_ALIGN)) headroom sz tailroom (mp_objs st' (objs ! j)))"
proof -
  let ?a = "max align MIN_ALIGN" and ?n = "unat nb"
  let ?s = "if sep then ly_p ly else ly_o ly"
  have al: "align = 0 \<or> POWER_OF_2 align" and nb: "nb < 2 ^ 31" using sm by (simp_all add: layout_small_def)
  have n32: "?n < 2 ^ 32" using nb by (simp add: word_less_nat_alt)
  note E = layout_embedded [OF sm] and S = layout_separate [OF sm]
  have sl: "length slots = unat (push_bit (unat (log2 nb + 1)) (1 :: u32))"
    and pp: "unat p + unat (ly_pool ly) < 2 ^ 64"
    and aln: "if sep then unat ?a dvd unat d \<and> unat d + unat (ly_data ly) < 2 ^ 64 else unat ?a dvd unat p"
    using xm unfolding xmalloc_ok_def by blast+
  have pool: "unat (ly_pool ly) = unat (ly_h ly) + ?n * unat ?s" "0 < unat ?s"
    and h: "unat p + unat (ly_h ly) \<le> 2 ^ 64"
    using pp E S by (cases sep; simp add: ly)+
  show ?thesis
  proof (cases "?n = 0")
    case True
    then have "objs = []" by (simp add: objs pool_addrs_def)
    moreover from this have "distinct objs" by simp
    note alloc_pool_state [OF al nb sl, where p = p and sep = sep and sz = sz and headroom = headroom
        and tailroom = tailroom and priv = priv, folded ly, folded objs, OF this]
    ultimately show ?thesis using True by fastforce
  next
    case False
    then have "0 < ?n * unat ?s" using pool(2) by simp
    then have hw: "unat (p + ly_h ly) = unat p + unat (ly_h ly)"
      using pp pool(1) by (subst unat_add_less) simp_all
    have reg: "unat (p + ly_h ly) + ?n * unat ?s \<le> 2 ^ 64" using hw pp pool(1) by simp
    have d: "distinct objs" unfolding objs by (rule distinct_pool_addrs [OF reg pool(2)])
    from alloc_pool_state [OF al nb sl, where p = p and sep = sep and sz = sz and headroom = headroom
        and tailroom = tailroom and priv = priv and xd = "Some d" and init = init and pick = pick
        and put = put and st = st, folded ly, folded objs, OF d]
    obtain st' P r where st': "alloc_enhanced_mempool (Some p) (Some d) (Some slots) nb sz align headroom
        tailroom priv sep init pick put st = Inr (p, st')" "pool_ok p objs st'" "pool_free p st' = objs"
      and desc: "\<forall>j < ?n. mp_objs st' (objs ! j) = pool_desc ly priv sep P p j (objs ! j)"
      and P0: "P = \<lparr>free_objs = r, obj_pick_func = pick, pool_obj_size = sz,
               pool_headroom = ly_headroom ly, pool_tailroom = ly_tailroom ly,
               obj_put_func = put, nb_objs = nb, pool_size = ly_pool ly + ly_data ly,
               obj_data_area = (if sep then Some d else None)\<rparr>" by blast
    have P: "pool_obj_size P = sz" "pool_headroom P = ly_headroom ly" "pool_tailroom P = ly_tailroom ly"
        "obj_data_area P = (if sep then Some d else None)" by (simp_all add: P0)
    have "let lo = (if sep then unat d else unat p + unat (ly_h ly)) + j * unat (ly_o ly)
            in slot_filled lo (lo + unat (ly_o ly)) (if sep then 0 else unat (ly_p ly)) (unat ?a)
                 headroom sz tailroom (mp_objs st' (objs ! j))" if j: "j < ?n" for j
    proof (cases sep)
      case True
      then show ?thesis
        using slot_separate [OF sm _ _ _ j P(1-3)] ly aln P(4) by (simp add: desc j Let_def)
    next
      case False
      then have "objs ! j = p + ly_h ly + of_nat j * ly_o ly" using j by (simp add: objs pool_addrs_def)
      moreover have "ly = mempool_layout nb sz align headroom tailroom priv False"
        using False ly by simp
      moreover have "unat ?a dvd unat p" using False aln by simp
      ultimately have "slot_filled (unat p + unat (ly_h ly) + j * unat (ly_o ly))
          (unat p + unat (ly_h ly) + j * unat (ly_o ly) + unat (ly_o ly)) (unat (ly_p ly)) (unat ?a)
          headroom sz tailroom (pool_desc ly priv False P p j (objs ! j))"
        by (intro slot_embedded [OF sm _ pp _ j _ P(1-3)]) simp_all
      with False show ?thesis using desc j by (simp add: Let_def)
    qed
    with st' show ?thesis by (intro exI [of _ st']) simp
  qed
qed


definition sample_mpstate :: "unit mpstate" where
  "sample_mpstate = \<lparr>mp_objs = (\<lambda>x. \<lparr>p_ref = 0, obj_private = None, obj_base = x + 56, obj_data = 0,
       obj_lhr = 0, obj_ltr = 0, obj_len = 0\<rparr>),
     mp_pools = (\<lambda>_. \<lparr>free_objs = \<lparr>enq_idx = 0, deq_idx = 0, ring_size = 1, ring_mask = 0,
         ring_slots = [None]\<rparr>, obj_pick_func = None, pool_obj_size = 0, pool_headroom = 0,
       pool_tailroom = 0, obj_put_func = None, nb_objs = 0, pool_size = 0, obj_data_area = None\<rparr>),
     mp_mem = ()\<rparr>"

lemma sample_layout:
  "mempool_layout 2 16 64 4 0 0 True =
     \<lparr>ly_h = 88, ly_m = 56, ly_p = 56, ly_o = 128, ly_headroom = 64, ly_tailroom = 48,
      ly_pool = 200, ly_data = 256\<rparr>"
  by (simp add: mempool_layout_def align_up_def max_def)

lemma log2_2: "log2 2 = 1"
  by (simp add: log2_def log2_loop.simps)

lemma sample_layout_small: "layout_small 2 16 64 4 0 0"
  by (simp add: layout_small_def POWER_OF_2_def max_def)

lemma sample_xmalloc:
  "xmalloc_ok 2 (max 64 MIN_ALIGN) (mempool_layout 2 16 64 4 0 0 True) True 4096 8192 (replicate 4 None)"
  by (simp add: xmalloc_ok_def log2_2 sample_layout max_def)

theorem alloc_pool_objects_witness:
  "\<exists>st'. alloc_enhanced_mempool (Some 4096) (Some 8192) (Some (replicate 4 None)) 2 16 64 4 0 0 True
      None None None sample_mpstate = Inr (4096, st') \<and> pool_free 4096 st' = [4184, 4240] \<and>
      slot_filled 8320 8448 0 64 4 16 0 (mp_objs st' 4240)"
  using alloc_pool_objects [OF sample_layout_small refl sample_xmalloc refl,
      of None None None sample_mpstate]
  by (auto simp: sample_layout pool_addrs_def upt_conv_Cons max_def Let_def dest: spec [of _ 1])

text \<open>
  C18: a pool never hands out an object twice and never loses one. From any consistent
  state, picking as often as there are free objects yields all of them, each once, and the
  next pick returns \<open>NULL\<close>; putting back an object in use always finds room in the ring
  (the comment ``never fails on right usage'') and makes it the last to be picked again.
\<close>

theorem mempool_conserves_objects:
  assumes "pool_ok p objs st"
  shows "(\<exists>xs s' s''. pick_n (mempool_pick p) (card (pool_free_set p st)) st = (Some xs, s') \<and>
            set xs = pool_free_set p st \<and> mempool_pick p s' = (None, s'')) \<and>
         (\<forall>x \<in> pool_used_set p objs st.
            pool_ok p objs (mempool_put x st) \<and>
            pool_free p (mempool_put x st) = pool_free p st @ [x] \<and>
            pool_used_set p objs (mempool_put x st) = pool_used_set p objs st - {x})"
proof (intro conjI ballI)
  show "\<exists>xs s' s''. pick_n (mempool_pick p) (card (pool_free_set p st)) st = (Some xs, s') \<and>
            set xs = pool_free_set p st \<and> mempool_pick p s' = (None, s'')"
    by (rule pl.pick_all_exhausts [OF assms])
next
  fix x
  assume x: "x \<in> pool_used_set p objs st"
  show "pool_ok p objs (mempool_put x st)"
    and "pool_used_set p objs (mempool_put x st) = pool_used_set p objs st - {x}"
    using pl.put_used [OF assms x] by simp_all
  have "x \<in> set objs - set (pool_free p st)" using x by (simp add: pool_used_set_def)
  from mempool_put_eq [OF assms this] show "pool_free p (mempool_put x st) = pool_free p st @ [x]"
    by (auto simp: pool_free_def)
qed

definition sample_pool :: "unit mpstate" where
  "sample_pool = sample_mpstate\<lparr>mp_pools := (mp_pools sample_mpstate)(0 := (mp_pools sample_mpstate 0)
     \<lparr>free_objs := \<lparr>enq_idx = 1, deq_idx = 0, ring_size = 4, ring_mask = 3,
                    ring_slots = [Some 100, None, None, None]\<rparr>, nb_objs := 2\<rparr>)\<rparr>"

lemma sample_pool_ok: "pool_ok 0 [100, 200] sample_pool" "pool_free 0 sample_pool = [100]"
proof -
  let ?r = "\<lparr>enq_idx = 1, deq_idx = 0, ring_size = 4, ring_mask = 3,
             ring_slots = [Some 100, None, None, None]\<rparr> :: addr ring"
  have c: "ring_count ?r = 1" by (simp add: ring_count_def)
  have l: "ring_list ?r = [Some 100]" unfolding ring_list_def c by simp
  have "ring_ok ?r" by (simp add: ring_ok_def) (intro exI [of _ 2], simp)
  with l show "pool_ok 0 [100, 200] sample_pool" "pool_free 0 sample_pool = [100]"
    by (simp_all add: pool_ok_def pool_free_def sample_pool_def sample_mpstate_def ring_wf_def
        ring_refs_def ring_cap_def)
qed

theorem mempool_conserves_objects_witness:
  "pool_free 0 (mempool_put 200 sample_pool) = [100, 200] \<and>
   (\<exists>xs s' s''. pick_n (mempool_pick 0) 1 sample_pool = (Some xs, s') \<and> set xs = {100} \<and>
      mempool_pick 0 s' = (None, s''))"
proof -
  have 1: "pool_free_set 0 sample_pool = {100}" by (simp add: pool_free_set_def sample_pool_ok)
  have 2: "200 \<in> pool_used_set 0 [100, 200] sample_pool" by (simp add: pool_used_set_def sample_pool_ok)
  have 3: "card {100 :: addr} = 1" by simp
  note c = mempool_conserves_objects [OF sample_pool_ok(1), unfolded 1 3]
  have "pool_free 0 (mempool_put 200 sample_pool) = pool_free 0 sample_pool @ [200]"
    using bspec [OF c [THEN conjunct2] 2] by (elim conjE)
  then show ?thesis using c [THEN conjunct1] unfolding sample_pool_ok(2) append.simps by (rule conjI)
qed

text \<open>
  \<open>free_mempool\<close> returns exactly when every object has been put back; with an object
  still in use it stops in its \<open>BUG_ON\<close>.
\<close>

theorem free_mempool_iff_all_returned:
  assumes "pool_ok p objs st"
  shows "free_mempool (Some p) st =
         (if pool_used_set p objs st = {} then Inr () else Inl (Fault Bug_on))"
proof -
  let ?P = "mp_pools st p"
  have u: "unat (ring_count (free_objs ?P)) = length (pool_free p st)"
    by (simp add: pool_free_def ring_refs_def)
  have "ring_count (free_objs ?P) = nb_objs ?P \<longleftrightarrow> length (pool_free p st) = length objs"
  proof -
    have "length objs = unat (nb_objs ?P)" using assms by (simp add: pool_ok_def)
    then show ?thesis unfolding word_unat_eq_iff u by auto
  qed
  also have "\<dots> \<longleftrightarrow> set (pool_free p st) = set objs"
  proof -
    have d: "distinct objs" "distinct (pool_free p st)" "set (pool_free p st) \<subseteq> set objs"
      using assms by (simp_all add: pool_ok_def)
    then have "length objs = card (set objs)" "length (pool_free p st) = card (set (pool_free p st))"
      by (simp_all add: distinct_card)
    then show ?thesis using card_subset_eq [OF _ d(3)] by auto
  qed
  also have "\<dots> \<longleftrightarrow> pool_used_set p objs st = {}"
    using assms by (auto simp: pool_used_set_def pool_ok_def)
  finally show ?thesis by (simp add: free_mempool_def)
qed

theorem free_mempool_iff_all_returned_witness:
  "free_mempool (Some 0) sample_pool = Inl (Fault Bug_on)"
  using free_mempool_iff_all_returned [OF sample_pool_ok(1)]
  by (simp add: pool_used_set_def sample_pool_ok)

text \<open>
  A resize that succeeds moves the boundary between headroom, data and tailroom and
  keeps their total, so the data never leaves the object; but no negative length is ever
  accepted while the room is below \<open>2 ^ 63\<close>, because \<open>len > obj->lhr\<close> compares as unsigned:
  the shrinking branch both functions have is dead.
\<close>

theorem mempool_obj_resize:
  assumes room: "unat (obj_lhr ob) + unat (obj_len ob) + unat (obj_ltr ob) < 2 ^ 63"
    and data: "obj_data ob = obj_base ob + obj_lhr ob"
  shows "(case mempool_obj_prepend l ob of
            Inr ob' \<Rightarrow> 0 \<le> sint l \<and> obj_data ob' = obj_base ob' + obj_lhr ob' \<and>
              obj_base ob' = obj_base ob \<and> obj_ltr ob' = obj_ltr ob \<and>
              unat (obj_len ob') = unat (obj_len ob) + unat l \<and>
              unat (obj_lhr ob') + unat (obj_len ob') = unat (obj_lhr ob) + unat (obj_len ob)
          | Inl e \<Rightarrow> e = ENOSPC \<and> (sint l < 0 \<or> unat (obj_lhr ob) < unat l)) \<and>
         (case mempool_obj_append l ob of
            Inr ob' \<Rightarrow> 0 \<le> sint l \<and> obj_data ob' = obj_data ob \<and> obj_lhr ob' = obj_lhr ob \<and>
              unat (obj_len ob') = unat (obj_len ob) + unat l \<and>
              unat (obj_ltr ob') + unat (obj_len ob') = unat (obj_ltr ob) + unat (obj_len ob)
          | Inl e \<Rightarrow> e = ENOSPC \<and> (sint l < 0 \<or> unat (obj_ltr ob) < unat l))"
proof -
  have neg: "sint l < 0 \<Longrightarrow> 2 ^ 63 \<le> unat l" by (simp add: sint_neg_iff)
  have sub: "unat (w - l) = unat w - unat l" if "\<not> w < l" for w
    using that by (simp add: unat_sub not_less)
  have add: "unat (obj_len ob + l) = unat (obj_len ob) + unat l" if "unat l < 2 ^ 63"
    using that room by (intro unat_add_less) simp
  have p: "obj_lhr ob < l" if "sint l < 0" using neg [OF that] room by (simp add: word_less_nat_alt)
  have a: "obj_ltr ob < l" if "sint l < 0" using neg [OF that] room by (simp add: word_less_nat_alt)
  have "case mempool_obj_prepend l ob of
            Inr ob' \<Rightarrow> 0 \<le> sint l \<and> obj_data ob' = obj_base ob' + obj_lhr ob' \<and>
              obj_base ob' = obj_base ob \<and> obj_ltr ob' = obj_ltr ob \<and>
              unat (obj_len ob') = unat (obj_len ob) + unat l \<and>
              unat (obj_lhr ob') + unat (obj_len ob') = unat (obj_lhr ob) + unat (obj_len ob)
          | Inl e \<Rightarrow> e = ENOSPC \<and> (sint l < 0 \<or> unat (obj_lhr ob) < unat l)"
  proof (cases "obj_lhr ob < l")
    case True
    then show ?thesis by (simp add: mempool_obj_prepend_def word_less_nat_alt)
  next
    case False
    moreover from this room have "unat l < 2 ^ 63" by (simp add: word_less_nat_alt)
    moreover from False p have "0 \<le> sint l" by fastforce
    ultimately show ?thesis using sub [of "obj_lhr ob"] add data
      by (auto simp: mempool_obj_prepend_def mempool_obj_prepend_nocheck_def word_less_nat_alt)
  qed
  moreover have "case mempool_obj_append l ob of
            Inr ob' \<Rightarrow> 0 \<le> sint l \<and> obj_data ob' = obj_data ob \<and> obj_lhr ob' = obj_lhr ob \<and>
              unat (obj_len ob') = unat (obj_len ob) + unat l \<and>
              unat (obj_ltr ob') + unat (obj_len ob') = unat (obj_ltr ob) + unat (obj_len ob)
          | Inl e \<Rightarrow> e = ENOSPC \<and> (sint l < 0 \<or> unat (obj_ltr ob) < unat l)"
  proof (cases "obj_ltr ob < l")
    case True
    then show ?thesis by (simp add: mempool_obj_append_def word_less_nat_alt)
  next
    case False
    moreover from this room have "unat l < 2 ^ 63" by (simp add: word_less_nat_alt)
    moreover from False a have "0 \<le> sint l" by fastforce
    ultimately show ?thesis using sub [of "obj_ltr ob"] add
      by (auto simp: mempool_obj_append_def mempool_obj_append_nocheck_def word_less_nat_alt)
  qed
  ultimately show ?thesis ..
qed

theorem mempool_obj_resize_witness:
  "mempool_obj_prepend (- 1) \<lparr>p_ref = 0, obj_private = None, obj_base = 64, obj_data = 80,
      obj_lhr = 16, obj_ltr = 0, obj_len = 32\<rparr> = Inl ENOSPC"
  using mempool_obj_resize [of "\<lparr>p_ref = 0, obj_private = None, obj_base = 64, obj_data = 80,
      obj_lhr = 16, obj_ltr = 0, obj_len = 32\<rparr>" "- 1"]
  by (simp split: sum.splits)

text \<open>
  A failed allocation of the separate data area goes unnoticed: the pool is returned
  with all its objects, and object \<open>j\<close> has its base at address \<open>j * o_size\<close>.
\<close>

theorem null_data_area_unnoticed:
  fixes st :: "'m mpstate"
  assumes sm: "layout_small nb sz align headroom tailroom priv"
    and ly: "ly = mempool_layout nb sz align headroom tailroom priv True"
    and xm: "xmalloc_ok nb (max align MIN_ALIGN) ly True p 0 slots"
  shows "\<exists>st' objs. alloc_enhanced_mempool (Some p) None (Some slots) nb sz align headroom tailroom priv
           True init pick put st = Inr (p, st') \<and> pool_ok p objs st' \<and> pool_free p st' = objs \<and>
         (\<forall>j < unat nb. obj_base (mp_objs st' (objs ! j)) = of_nat j * ly_o ly)"
proof -
  note S = layout_separate [OF sm, folded ly]
  have al: "align = 0 \<or> POWER_OF_2 align" and nb: "nb < 2 ^ 31" using sm by (simp_all add: layout_small_def)
  have sl: "length slots = unat (push_bit (unat (log2 nb + 1)) (1 :: u32))"
    and pp: "unat p + unat (ly_pool ly) < 2 ^ 64" using xm unfolding xmalloc_ok_def by blast+
  have hw: "unat (p + ly_h ly) = unat p + unat (ly_h ly)"
    using pp S(2,8) by (subst unat_add_less) simp_all
  have d: "distinct (pool_addrs (p + ly_h ly) (ly_p ly) (unat nb))"
    using hw pp S(1,2,8) by (intro distinct_pool_addrs) simp_all
  from alloc_pool_state [OF al nb sl, where p = p and sep = True and sz = sz and headroom = headroom
      and tailroom = tailroom and priv = priv and xd = None and init = init and pick = pick
      and put = put and st = st, folded ly, simplified, OF d]
  show ?thesis by (elim exE conjE) (auto simp: pool_desc_def Let_def)
qed

lemma sample_layout2:
  "mempool_layout 2 16 64 0 0 0 True =
     \<lparr>ly_h = 88, ly_m = 56, ly_p = 56, ly_o = 64, ly_headroom = 0, ly_tailroom = 48,
      ly_pool = 200, ly_data = 128\<rparr>"
  by (simp add: mempool_layout_def align_up_def max_def)

theorem null_data_area_unnoticed_witness:
  "\<exists>st' objs. alloc_enhanced_mempool (Some 4096) None (Some (replicate 4 None)) 2 16 64 0 0 0 True
      None None None sample_mpstate = Inr (4096, st') \<and> pool_free 4096 st' = objs \<and>
      obj_base (mp_objs st' (objs ! 1)) = 64"
proof -
  have "layout_small 2 16 64 0 0 0" by (simp add: layout_small_def POWER_OF_2_def max_def)
  moreover have "xmalloc_ok 2 (max 64 MIN_ALIGN) (mempool_layout 2 16 64 0 0 0 True) True 4096 0
      (replicate 4 None)"
    by (simp add: xmalloc_ok_def log2_2 sample_layout2 max_def)
  ultimately obtain st' objs where
      "alloc_enhanced_mempool (Some 4096) None (Some (replicate 4 None)) 2 16 64 0 0 0 True
         None None None sample_mpstate = Inr (4096, st')" "pool_free 4096 st' = objs"
      "\<forall>j < unat (2 :: u32). obj_base (mp_objs st' (objs ! j)) = of_nat j * 64"
    using null_data_area_unnoticed [of 2 16 64 0 0 0 _ 4096 "replicate 4 None" None None None sample_mpstate]
    by (auto simp: sample_layout2)
  moreover from this(3) have "obj_base (mp_objs st' (objs ! 1)) = 64" by (auto dest: spec [of _ 1])
  ultimately show ?thesis by blast
qed

text \<open>
  \<open>alloc_enhanced_mempool2\<close> does not raise a zero alignment to \<open>MIN_ALIGN\<close> before it
  rounds. \<open>alloc_simple_mempool2\<close> passes 0, so headroom and tailroom wrap around, the
  object size becomes 0, and every object of the pool it then allocates has the same address.
\<close>

theorem simple_mempool2_objects_coincide:
  assumes "112 \<le> budget"
  shows "mempool2_sizing budget sz 0 0 0 0 False = Inr (ucast ((budget - 112) div 8), - 56, - sz) \<and>
         ly_o (mempool_layout nb sz 0 (- 56) (- sz) 0 False) = 0 \<and>
         pool_addrs obj (ly_o (mempool_layout nb sz 0 (- 56) (- sz) 0 False)) n = replicate n obj"
proof -
  have "\<not> budget < 112" using assms by simp
  moreover have "ly_o (mempool_layout nb sz 0 (- 56) (- sz) 0 False) = 0"
    by (simp add: mempool_layout_def align_up_56 Let_def) (simp add: align_up_def)
  ultimately show ?thesis
    by (simp add: mempool2_sizing_def align_up_56 Let_def)
       (simp add: align_up_def pool_addrs_def map_replicate_const)
qed

theorem simple_mempool2_objects_coincide_witness:
  "mempool2_sizing 4096 100 0 0 0 0 False = Inr (498, - 56, - 100) \<and>
   pool_addrs 1000 (ly_o (mempool_layout 498 100 0 (- 56) (- 100) 0 False)) 3 = [1000, 1000, 1000]"
  using simple_mempool2_objects_coincide [of 4096 100 498 1000 3]
  by (simp add: numeral_3_eq_3) (metis numeral_3_eq_3)

end
