(* ===== verification/HashVal.thy ===== *)
theory HashVal
  imports Prelude
begin

text \<open>
  Hash values (\<open>shfs/hash.h\<close>, \<open>hash_unparse\<close> of \<open>shfs/shfs_tools.c\<close>).

  A \<open>hash512_t\<close> is a list of 64 bytes. On x86-64 the functions work on 64-bit words, with
  the bytes after the last whole word masked; elsewhere they work byte by byte. Both are
  modelled, and the properties show that they compute the same for every \<open>hlen\<close> up to 64.
  A word access beyond the 64 bytes is \<open>Out_of_bounds\<close>.
\<close>

section \<open>Little-endian words\<close>

fun le_word :: "u8 list \<Rightarrow> u64" where
  "le_word [] = 0"
| "le_word (b # bs) = ucast b OR push_bit 8 (le_word bs)"

definition load64 :: "u8 list \<Rightarrow> nat \<Rightarrow> u64" where
  "load64 h i = le_word (take 8 (drop i h))"

definition le_bytes :: "u64 \<Rightarrow> u8 list" where
  "le_bytes w = map (\<lambda>k. ucast (drop_bit (8 * k) w)) [0..<8]"

definition store64 :: "u8 list \<Rightarrow> nat \<Rightarrow> u64 \<Rightarrow> u8 list" where
  "store64 h i w = take i h @ le_bytes w @ drop (i + 8) h"

definition mask64 :: "u8 \<Rightarrow> u64" where
  "mask64 nbleft = push_bit (unat (push_bit 3 nbleft)) 1 - 1"

section \<open>The functions on x86-64\<close>

text \<open>
  The common loop \<open>for (; i < hlen; i += 8) if (!test(i)) return ...;\<close>: \<open>Inr True\<close> when every
  word passes. The counter is a \<open>uint8_t\<close>, but an array of 64 bytes is left before it can
  wrap around, so it is a natural number here.
\<close>

function words_ok :: "(nat \<Rightarrow> bool) \<Rightarrow> nat \<Rightarrow> nat \<Rightarrow> nat \<Rightarrow> fault + bool" where
  "words_ok test n hlen i =
     (if i < hlen then
        if n < i + 8 then Inl Out_of_bounds
        else if test i then words_ok test n hlen (i + 8) else Inr False
      else Inr True)"
  by auto
termination by (relation "measure (\<lambda>(test, n, hlen, i). hlen - i)") auto
declare words_ok.simps [simp del]

text \<open>The whole words, then the masked rest \<open>(*p64 & mask64)\<close> at \<open>hlen\<close> rounded down.\<close>

definition hash_words :: "(nat \<Rightarrow> bool) \<Rightarrow> (nat \<Rightarrow> u64 \<Rightarrow> bool) \<Rightarrow> nat \<Rightarrow> u8 \<Rightarrow> fault + bool" where
  "hash_words test rest n hlen =
     (let nbleft = hlen AND 7; hl = unat (hlen - nbleft)
      in case words_ok test n hl 0 of
           Inl f \<Rightarrow> Inl f
         | Inr False \<Rightarrow> Inr False
         | Inr True \<Rightarrow>
             if nbleft \<noteq> 0 then
               if n < hl + 8 then Inl Out_of_bounds else Inr (rest hl (mask64 nbleft))
             else Inr True)"

definition hash_compare :: "u8 list \<Rightarrow> u8 list \<Rightarrow> u8 \<Rightarrow> fault + int" where
  "hash_compare h0 h1 hlen =
     map_sum id (\<lambda>same. if same then 0 else 1)
       (hash_words (\<lambda>i. load64 h0 i = load64 h1 i)
          (\<lambda>i m. load64 h0 i AND m = load64 h1 i AND m) (min (length h0) (length h1)) hlen)"

definition hash_is_zero :: "u8 list \<Rightarrow> u8 \<Rightarrow> fault + bool" where
  "hash_is_zero h hlen =
     hash_words (\<lambda>i. load64 h i = 0) (\<lambda>i m. load64 h i AND m = 0) (length h) hlen"

definition hash_is_max :: "u8 list \<Rightarrow> u8 \<Rightarrow> fault + bool" where
  "hash_is_max h hlen =
     hash_words (\<lambda>i. load64 h i = - 1) (\<lambda>i m. load64 h i AND m = m) (length h) hlen"

function hash_copy_loop :: "u8 list \<Rightarrow> u8 list \<Rightarrow> nat \<Rightarrow> nat \<Rightarrow> fault + u8 list" where
  "hash_copy_loop dst src hlen i =
     (if i < hlen then
        if length dst < i + 8 \<or> length src < i + 8 then Inl Out_of_bounds
        else hash_copy_loop (store64 dst i (load64 src i)) src hlen (i + 8)
      else Inr dst)"
  by auto
termination by (relation "measure (\<lambda>(dst, src, hlen, i). hlen - i)") auto
declare hash_copy_loop.simps [simp del]

definition hash_copy :: "u8 list \<Rightarrow> u8 list \<Rightarrow> u8 \<Rightarrow> fault + u8 list" where
  "hash_copy dst src hlen =
     (let nbleft = hlen AND 7; hl = unat (hlen - nbleft)
      in case hash_copy_loop dst src hl 0 of
           Inl f \<Rightarrow> Inl f
         | Inr dst \<Rightarrow>
             if nbleft \<noteq> 0 then
               if length dst < hl + 8 \<or> length src < hl + 8 then Inl Out_of_bounds
               else Inr (store64 dst hl (load64 src hl AND mask64 nbleft))
             else Inr dst)"

function hash_clear_loop :: "u8 list \<Rightarrow> nat \<Rightarrow> nat \<Rightarrow> fault + u8 list" where
  "hash_clear_loop h hlen i =
     (if i < hlen then
        if length h < i + 8 then Inl Out_of_bounds
        else hash_clear_loop (store64 h i 0) hlen (i + 8)
      else Inr h)"
  by auto
termination by (relation "measure (\<lambda>(h, hlen, i). hlen - i)") auto
declare hash_clear_loop.simps [simp del]

definition hash_clear :: "u8 list \<Rightarrow> u8 \<Rightarrow> fault + u8 list" where
  "hash_clear h hlen = hash_clear_loop h (unat hlen) 0"

section \<open>The portable variants\<close>

definition hash_copy_portable :: "u8 list \<Rightarrow> u8 list \<Rightarrow> u8 \<Rightarrow> u8 list" where
  "hash_copy_portable dst src hlen = take (unat hlen) src @ drop (unat hlen) dst"

definition hash_compare_portable :: "u8 list \<Rightarrow> u8 list \<Rightarrow> u8 \<Rightarrow> int" where
  "hash_compare_portable h0 h1 hlen =
     (if take (unat hlen) h0 \<noteq> take (unat hlen) h1 then 1 else 0)"

definition hash_is_zero_portable :: "u8 list \<Rightarrow> u8 \<Rightarrow> bool" where
  "hash_is_zero_portable h hlen = list_all (\<lambda>b. b = 0) (take (unat hlen) h)"

definition hash_is_max_portable :: "u8 list \<Rightarrow> u8 \<Rightarrow> bool" where
  "hash_is_max_portable h hlen = list_all (\<lambda>b. b = 0xFF) (take (unat hlen) h)"

definition hash_clear_portable :: "u8 list \<Rightarrow> u8 \<Rightarrow> u8 list" where
  "hash_clear_portable h hlen = replicate (unat hlen) 0 @ drop (unat hlen) h"

section \<open>Text form\<close>

text \<open>\<open>in\<close> is the characters before the terminating NUL; index \<open>length in\<close> reads the NUL.\<close>

definition char_at :: "string \<Rightarrow> nat \<Rightarrow> char" where
  "char_at s i = (if i < length s then s ! i else CHR 0x00)"

definition hex_nibble :: "char \<Rightarrow> u8 option" where
  "hex_nibble c =
     (let n = of_char c :: nat in
      if 48 \<le> n \<and> n \<le> 57 then Some (of_nat (n - 48))
      else if 97 \<le> n \<and> n \<le> 102 then Some (of_nat (n - 97 + 10))
      else if 65 \<le> n \<and> n \<le> 70 then Some (of_nat (n - 65 + 10))
      else None)"

text \<open>
  \<open>hash_parse\<close>: \<open>None\<close> for -1. The loop takes two characters per round; \<open>n\<close> is the number of
  rounds left, \<open>hlen * 2\<close> computed in \<open>uint8_t\<close>, halved.
\<close>

fun hash_parse_loop :: "string \<Rightarrow> nat \<Rightarrow> nat \<Rightarrow> u8 list \<Rightarrow> u8 list option" where
  "hash_parse_loop s 0 i h = (if char_at s i \<noteq> CHR 0x00 then None else Some h)"
| "hash_parse_loop s (Suc n) i h =
     (case hex_nibble (char_at s i) of
        None \<Rightarrow> None
      | Some nu \<Rightarrow>
          (case hex_nibble (char_at s (i + 1)) of
             None \<Rightarrow> None
           | Some nl \<Rightarrow> hash_parse_loop s n (i + 2) (h[i div 2 := push_bit 4 nu OR nl])))"

definition hash_parse :: "string \<Rightarrow> u8 list \<Rightarrow> u8 \<Rightarrow> u8 list option" where
  "hash_parse s h hlen = hash_parse_loop s (unat (hlen * 2) div 2) 0 h"

text \<open>\<open>"%02x"\<close> of a byte, and \<open>hash_unparse\<close>.\<close>

definition hex_digit :: "nat \<Rightarrow> char" where
  "hex_digit n = ''0123456789abcdef'' ! n"

definition hex02 :: "u8 \<Rightarrow> string" where
  "hex02 b = [hex_digit (unat b div 16), hex_digit (unat b mod 16)]"

definition hash_unparse :: "u8 list \<Rightarrow> u8 \<Rightarrow> string" where
  "hash_unparse h hlen = concat (map hex02 (take (unat hlen) h))"


section \<open>Words and bytes\<close>

lemma bit_le_word:
  "bit (le_word bs) n \<longleftrightarrow> n < 64 \<and> n div 8 < length bs \<and> bit (bs ! (n div 8)) (n mod 8)"
proof (induction bs arbitrary: n)
  case Nil
  then show ?case by simp
next
  case (Cons b bs)
  have high: "bit b n \<Longrightarrow> n < 8" for n using bit_imp_le_length [of b n] by simp
  show ?case
  proof (cases "n < 8")
    case True
    then show ?thesis by (auto simp: bit_simps)
  next
    case False
    then obtain m where n: "n = m + 8" by (metis add.commute le_Suc_ex not_less)
    then have d: "n div 8 = Suc (m div 8)" and "n mod 8 = m mod 8" by simp_all
    then show ?thesis using n Cons.IH [of m] high [of n]
      by (auto simp: bit_simps d simp del: div_add_self2 div_add_self1)
  qed
qed

lemma le_word_eq_iff:
  assumes "length xs = length ys" and "length xs \<le> 8"
  shows "le_word xs = le_word ys \<longleftrightarrow> xs = ys"
proof
  assume eq: "le_word xs = le_word ys"
  show "xs = ys"
  proof (rule nth_equalityI)
    fix k
    assume k: "k < length xs"
    show "xs ! k = ys ! k"
    proof (rule bit_word_eqI)
      fix m
      assume "m < LENGTH(8)"
      then have m: "m < 8" by simp
      then have "8 * k + m < 64" "(8 * k + m) div 8 = k" "(8 * k + m) mod 8 = m"
        using k assms(2) by auto
      then show "bit (xs ! k) m = bit (ys ! k) m"
        using arg_cong [OF eq, of "\<lambda>w. bit w (8 * k + m)"] k assms(1) by (simp add: bit_le_word)
    qed
  qed (use assms in simp)
qed simp

lemma le_word_mask: "le_word bs AND mask (8 * k) = le_word (take k bs)"
  by (rule bit_word_eqI) (auto simp: bit_le_word bit_and_iff bit_mask_iff less_mult_imp_div_less)

lemma length_le_bytes [simp]: "length (le_bytes w) = 8"
  by (simp add: le_bytes_def)

lemma length_store64 [simp]: "i + 8 \<le> length h \<Longrightarrow> length (store64 h i w) = length h"
  by (simp add: store64_def)

lemma le_bytes_le_word:
  assumes "length bs \<le> 8"
  shows "le_bytes (le_word bs) = bs @ replicate (8 - length bs) 0"
proof (rule nth_equalityI)
  fix k
  assume k: "k < length (le_bytes (le_word bs))"
  then have k8: "k < 8" by simp
  have "bit (ucast (drop_bit (8 * k) (le_word bs)) :: u8) m \<longleftrightarrow>
        bit ((bs @ replicate (8 - length bs) 0) ! k) m" if "m < 8" for m
  proof -
    have d: "(8 * k + m) div 8 = k" "(8 * k + m) mod 8 = m" "8 * k + m < 64" using that k8 by auto
    have "bit (ucast (drop_bit (8 * k) (le_word bs)) :: u8) m \<longleftrightarrow> bit (le_word bs) (8 * k + m)"
      using that by (simp add: bit_ucast_iff bit_drop_bit_eq)
    also have "\<dots> \<longleftrightarrow> k < length bs \<and> bit (bs ! k) m" using d by (simp add: bit_le_word)
    also have "\<dots> \<longleftrightarrow> bit ((bs @ replicate (8 - length bs) 0) ! k) m"
      using k8 assms by (auto simp: nth_append)
    finally show ?thesis .
  qed
  then have "(ucast (drop_bit (8 * k) (le_word bs)) :: u8) = (bs @ replicate (8 - length bs) 0) ! k"
    by (intro bit_word_eqI) simp
  then show "le_bytes (le_word bs) ! k = (bs @ replicate (8 - length bs) 0) ! k"
    using k8 by (simp add: le_bytes_def)
qed (use assms in simp)

lemma le_word_zeros: "le_word (replicate n 0) = 0"
  by (induction n) simp_all

lemma le_word_ones: "le_word (replicate 8 0xFF) = - 1"
  by code_simp

lemma mask64_mask:
  assumes "unat nb < 8"
  shows "mask64 nb = mask (8 * unat nb)"
proof -
  have "unat (push_bit 3 nb) = 8 * unat nb"
  proof -
    have "push_bit 3 nb = nb * 8" by (simp add: push_bit_eq_mult)
    then show ?thesis using assms by (simp add: unat_mult_less)
  qed
  then show ?thesis by (simp add: mask64_def mask_eq_exp_minus_1 push_bit_eq_mult)
qed

lemma hlen_split:
  fixes hlen :: u8
  shows "unat (hlen AND 7) = unat hlen mod 8" and "unat (hlen - (hlen AND 7)) = 8 * (unat hlen div 8)"
proof -
  have "unat (7 :: u8) = 2 ^ 3 - 1" by simp
  from unat_and_mask [OF this, of hlen] show m: "unat (hlen AND 7) = unat hlen mod 8" by simp
  then have "hlen AND 7 \<le> hlen" by (simp add: word_le_nat_alt)
  then show "unat (hlen - (hlen AND 7)) = 8 * (unat hlen div 8)"
    by (simp add: unat_sub m minus_mod_eq_mult_div)
qed

section \<open>The word loops\<close>

lemma words_ok_cong:
  "(\<And>k. k + 8 \<le> n \<Longrightarrow> test k = test' k) \<Longrightarrow> words_ok test n hl i = words_ok test' n hl i"
proof (induction test n hl i rule: words_ok.induct)
  case (1 test n hl i)
  then show ?case by (subst (1 2) words_ok.simps) auto
qed

lemma words_ok_in_range:
  "8 * m \<le> n \<Longrightarrow> words_ok test n (8 * m) (8 * j) = Inr (\<forall>k. j \<le> k \<and> k < m \<longrightarrow> test (8 * k))"
proof (induction "m - j" arbitrary: j)
  case 0
  then show ?case by (subst words_ok.simps) auto
next
  case (Suc d)
  then have j: "j < m" by simp
  have "words_ok test n (8 * m) (8 * Suc j) = Inr (\<forall>k. Suc j \<le> k \<and> k < m \<longrightarrow> test (8 * k))"
    using Suc.hyps(2) Suc.prems by (intro Suc.hyps(1)) simp_all
  then have "words_ok test n (8 * m) (8 * j + 8) = Inr (\<forall>k. Suc j \<le> k \<and> k < m \<longrightarrow> test (8 * k))"
    by (simp add: add.commute)
  moreover have "(\<forall>k. j \<le> k \<and> k < m \<longrightarrow> test (8 * k)) \<longleftrightarrow>
      test (8 * j) \<and> (\<forall>k. Suc j \<le> k \<and> k < m \<longrightarrow> test (8 * k))"
    using j by (metis Suc_leD Suc_leI le_neq_implies_less order_refl)
  moreover have "8 * j + 8 \<le> n" using j Suc.prems by simp
  ultimately show ?case using j by (subst words_ok.simps) simp
qed

lemma words_ok_out_of_range:
  assumes "n < hl" and "n mod 8 = 0" and "\<And>k. k + 8 \<le> n \<Longrightarrow> test k"
  shows "8 * j \<le> n \<Longrightarrow> words_ok test n hl (8 * j) = Inl Out_of_bounds"
proof (induction "n div 8 - j" arbitrary: j)
  case 0
  then have "8 * j = n" using assms(2) by auto
  with assms(1) show ?case by (subst words_ok.simps) simp
next
  case (Suc d)
  then have le: "8 * Suc j \<le> n" by auto
  then have "words_ok test n hl (8 * Suc j) = Inl Out_of_bounds" using Suc.hyps by (intro Suc.hyps(1)) simp_all
  with le assms show ?case by (subst words_ok.simps) (simp add: algebra_simps)
qed

lemma round_up_8:
  fixes h n :: nat
  assumes "h mod 8 \<noteq> 0" and "h \<le> n" and "n mod 8 = 0"
  shows "8 * (h div 8) + 8 \<le> n"
  using assms by presburger

lemma round_up_pad:
  fixes h :: nat
  shows "(h + 7) div 8 * 8 = h + (8 - h mod 8) mod 8"
proof -
  define q r where "q = h div 8" and "r = h mod 8"
  then have h: "h = 8 * q + r" and "r < 8" by simp_all
  then have r: "r \<in> {0, 1, 2, 3, 4, 5, 6, 7}" by auto
  have "(8 * q + (r + 7)) div 8 = q + (r + 7) div 8" by simp
  then have "(h + 7) div 8 = q + (r + 7) div 8" by (simp add: h add.assoc)
  moreover have "(r + 7) div 8 * 8 = r + (8 - r) mod 8" using r by (elim insertE) simp_all
  ultimately show ?thesis by (simp add: h add_mult_distrib \<open>r < 8\<close>)
qed

lemma pad_le_64:
  fixes h :: nat
  assumes "h \<le> 64"
  shows "h + (8 - h mod 8) mod 8 \<le> 64"
proof -
  have "(h + 7) div 8 \<le> 71 div 8" using assms by (intro div_le_mono) simp
  then show ?thesis by (simp flip: round_up_pad)
qed

lemma blocks_eq:
  "length xs = length ys \<Longrightarrow>
   (\<forall>k < m. take 8 (drop (8 * k) xs) = take 8 (drop (8 * k) ys)) \<longleftrightarrow> take (8 * m) xs = take (8 * m) ys"
proof (induction m)
  case (Suc m)
  have "take (8 * Suc m) zs = take (8 * m) zs @ take 8 (drop (8 * m) zs)" for zs :: "'a list"
    by (simp add: take_add [symmetric] add.commute)
  then show ?case using Suc by (auto simp: less_Suc_eq)
qed simp

lemma load64_eq_iff:
  "length xs = length ys \<Longrightarrow> load64 xs i = load64 ys i \<longleftrightarrow> take 8 (drop i xs) = take 8 (drop i ys)"
  by (simp add: load64_def le_word_eq_iff)

lemma load64_masked_eq_iff:
  assumes "length xs = length ys" and "unat nb < 8"
  shows "load64 xs i AND mask64 nb = load64 ys i AND mask64 nb \<longleftrightarrow>
         take (unat nb) (drop i xs) = take (unat nb) (drop i ys)"
  using assms by (simp add: load64_def mask64_mask le_word_mask le_word_eq_iff min_def)

lemma hash_words_eq:
  assumes len: "length xs = n" "length ys = n" and n: "n mod 8 = 0" and h: "unat hlen \<le> n"
  shows "hash_words (\<lambda>i. load64 xs i = load64 ys i)
           (\<lambda>i m. load64 xs i AND m = load64 ys i AND m) n hlen =
         Inr (take (unat hlen) xs = take (unat hlen) ys)"
proof -
  let ?m = "unat hlen div 8" and ?r = "unat hlen mod 8"
  have "8 * ?m \<le> n" using h by simp
  then have w: "words_ok (\<lambda>i. load64 xs i = load64 ys i) n (8 * ?m) 0 =
      Inr (take (8 * ?m) xs = take (8 * ?m) ys)"
    using words_ok_in_range [of ?m n "\<lambda>i. load64 xs i = load64 ys i" 0] blocks_eq [of xs ys ?m] len
    by (simp add: load64_eq_iff)
  have r0: "hlen AND 7 = 0 \<longleftrightarrow> ?r = 0" by (simp flip: hlen_split(1) add: unat_eq_0)
  have split: "take (unat hlen) zs = take (8 * ?m) zs @ take ?r (drop (8 * ?m) zs)" for zs :: "u8 list"
    by (metis add.commute mod_mult_div_eq mult.commute take_add)
  have rest: "load64 xs i AND mask64 (hlen AND 7) = load64 ys i AND mask64 (hlen AND 7) \<longleftrightarrow>
      take ?r (drop i xs) = take ?r (drop i ys)" for i
    using load64_masked_eq_iff [of xs ys "hlen AND 7" i] len by (simp add: hlen_split)
  have fits: "8 * ?m + 8 \<le> n" if "?r \<noteq> 0" by (rule round_up_8 [OF that h n])
  show ?thesis
    using w r0 rest fits len
    by (auto simp: hash_words_def Let_def hlen_split split [of xs] split [of ys] split: bool.split)
qed


lemma hash_words_cong:
  assumes "\<And>i. i + 8 \<le> n \<Longrightarrow> t i = t' i" and "\<And>i. i + 8 \<le> n \<Longrightarrow> r i (mask64 (hlen AND 7)) = r' i (mask64 (hlen AND 7))"
  shows "hash_words t r n hlen = hash_words t' r' n hlen"
  using words_ok_cong [of n t t'] assms
  by (auto simp: hash_words_def Let_def split: sum.split bool.split)

lemma load64_replicate:
  "i + 8 \<le> n \<Longrightarrow> load64 (replicate n 0) i = 0"
  "i + 8 \<le> n \<Longrightarrow> load64 (replicate n 0xFF) i = - 1"
  using le_word_ones by (simp_all add: load64_def le_word_zeros min_def)

lemma take_replicate_eq: "n \<le> length h \<Longrightarrow> take n h = take n (replicate (length h) x) \<longleftrightarrow> list_all (\<lambda>b. b = x) (take n h)"
  by (simp add: list_all_length list_eq_iff_nth_eq)

lemma hash_compare_eq:
  assumes "length h0 = n" "length h1 = n" "n mod 8 = 0" "unat hlen \<le> n"
  shows "hash_compare h0 h1 hlen = Inr (hash_compare_portable h0 h1 hlen)"
  using hash_words_eq [OF assms] assms by (simp add: hash_compare_def hash_compare_portable_def)

lemma hash_is_zero_eq:
  assumes "length h mod 8 = 0" "unat hlen \<le> length h"
  shows "hash_is_zero h hlen = Inr (hash_is_zero_portable h hlen)"
proof -
  have "hash_is_zero h hlen =
      hash_words (\<lambda>i. load64 h i = load64 (replicate (length h) 0) i)
        (\<lambda>i m. load64 h i AND m = load64 (replicate (length h) 0) i AND m) (length h) hlen"
    unfolding hash_is_zero_def by (rule hash_words_cong) (simp_all add: load64_replicate)
  also have "\<dots> = Inr (take (unat hlen) h = take (unat hlen) (replicate (length h) 0))"
    by (rule hash_words_eq) (use assms in simp_all)
  finally show ?thesis
    using take_replicate_eq [OF assms(2), of 0] by (simp add: hash_is_zero_portable_def del: take_replicate)
qed

lemma hash_is_max_eq:
  assumes "length h mod 8 = 0" "unat hlen \<le> length h"
  shows "hash_is_max h hlen = Inr (hash_is_max_portable h hlen)"
proof -
  have "hash_is_max h hlen =
      hash_words (\<lambda>i. load64 h i = load64 (replicate (length h) 0xFF) i)
        (\<lambda>i m. load64 h i AND m = load64 (replicate (length h) 0xFF) i AND m) (length h) hlen"
    unfolding hash_is_max_def by (rule hash_words_cong) (simp_all add: load64_replicate)
  also have "\<dots> = Inr (take (unat hlen) h = take (unat hlen) (replicate (length h) 0xFF))"
    by (rule hash_words_eq) (use assms in simp_all)
  finally show ?thesis
    using take_replicate_eq [OF assms(2), of "0xFF"] by (simp add: hash_is_max_portable_def del: take_replicate)
qed

lemma store_load64:
  "i + 8 \<le> length src \<Longrightarrow> store64 dst i (load64 src i) = take i dst @ take 8 (drop i src) @ drop (i + 8) dst"
  by (simp add: store64_def load64_def le_bytes_le_word)

lemma hash_copy_loop_eq:
  "j \<le> m \<Longrightarrow> 8 * m \<le> length src \<Longrightarrow> 8 * m \<le> length dst \<Longrightarrow>
   hash_copy_loop dst src (8 * m) (8 * j) =
     Inr (take (8 * j) dst @ take (8 * m - 8 * j) (drop (8 * j) src) @ drop (8 * m) dst)"
proof (induction "m - j" arbitrary: j dst)
  case 0
  then show ?case by (subst hash_copy_loop.simps) simp
next
  case (Suc d)
  then have j: "Suc j \<le> m" by simp
  let ?dst = "take (8 * j) dst @ take 8 (drop (8 * j) src) @ drop (8 * j + 8) dst"
  have "hash_copy_loop ?dst src (8 * m) (8 * Suc j) =
      Inr (take (8 * Suc j) ?dst @ take (8 * m - 8 * Suc j) (drop (8 * Suc j) src) @ drop (8 * m) ?dst)"
    using Suc.hyps(2) Suc.prems j by (intro Suc.hyps(1)) simp_all
  moreover have "take (8 * Suc j) ?dst = take (8 * j) dst @ take 8 (drop (8 * j) src)"
    using j Suc.prems by simp
  moreover have "drop (8 * m) ?dst = drop (8 * m) dst" using j Suc.prems by simp
  moreover have "take (8 * m - 8 * j) (drop (8 * j) src) =
      take 8 (drop (8 * j) src) @ take (8 * m - 8 * Suc j) (drop (8 * Suc j) src)"
    using take_add [of 8 "8 * m - 8 * Suc j" "drop (8 * j) src"] j by (simp add: add.commute)
  moreover have "store64 dst (8 * j) (load64 src (8 * j)) = ?dst"
    using j Suc.prems by (intro store_load64) simp
  ultimately show ?case
    using j Suc.prems by (subst hash_copy_loop.simps) (simp add: add.commute)
qed

lemma hash_copy_eq:
  assumes len: "length dst = n" "length src = n" "n mod 8 = 0" and h: "unat hlen \<le> n"
  defines "pad \<equiv> (8 - unat hlen mod 8) mod 8"
  shows "hash_copy dst src hlen =
         Inr (take (unat hlen) src @ replicate pad 0 @ drop (unat hlen + pad) dst)"
proof -
  let ?m = "unat hlen div 8" and ?r = "unat hlen mod 8"
  have le: "8 * ?m \<le> n" using h by simp
  have l: "hash_copy_loop dst src (8 * ?m) 0 = Inr (take (8 * ?m) src @ drop (8 * ?m) dst)"
    using hash_copy_loop_eq [where j = 0 and m = ?m and src = src and dst = dst] le len by simp
  have r0: "hlen AND 7 = 0 \<longleftrightarrow> ?r = 0" by (simp flip: hlen_split(1) add: unat_eq_0)
  show ?thesis
  proof (cases "?r = 0")
    case True
    then have "8 * ?m = unat hlen" "pad = 0" by (auto simp: pad_def)
    with True l r0 show ?thesis by (simp add: hash_copy_def Let_def hlen_split)
  next
    case False
    have pad: "pad = 8 - ?r" "?r \<le> 8" using False by (simp_all add: pad_def)
    then have up: "8 * ?m + 8 = unat hlen + pad" by (metis add.assoc le_add_diff_inverse mult_div_mod_eq)
    have fits: "8 * ?m + 8 \<le> n" by (rule round_up_8 [OF False h len(3)])
    have "load64 src (8 * ?m) AND mask64 (hlen AND 7) = le_word (take ?r (drop (8 * ?m) src))"
      using pad by (simp add: load64_def mask64_mask hlen_split le_word_mask min_def)
    then have "le_bytes (load64 src (8 * ?m) AND mask64 (hlen AND 7)) =
        take ?r (drop (8 * ?m) src) @ replicate pad 0"
      using pad(2) fits len le_bytes_le_word [of "take ?r (drop (8 * ?m) src)"]
      by (simp add: pad(1) min_absorb2 del: take_drop)
    moreover have "take (unat hlen) src = take (8 * ?m) src @ take ?r (drop (8 * ?m) src)"
      by (metis add.commute mod_mult_div_eq mult.commute take_add)
    ultimately show ?thesis
      using False l r0 fits le len up
      by (simp add: hash_copy_def Let_def hlen_split store64_def)
  qed
qed

lemma hash_clear_loop_eq:
  "8 * j \<le> length h \<Longrightarrow> (hl + 7) div 8 * 8 \<le> length h \<Longrightarrow>
   hash_clear_loop h hl (8 * j) =
     Inr (take (8 * j) h @ replicate ((hl + 7) div 8 * 8 - 8 * j) 0 @ drop (max (8 * j) ((hl + 7) div 8 * 8)) h)"
proof (induction "(hl + 7) div 8 - j" arbitrary: j h)
  case 0
  then have "hl \<le> 8 * j" and m: "max (8 * j) ((hl + 7) div 8 * 8) = 8 * j" by auto
  with 0 show ?case by (subst hash_clear_loop.simps) (simp add: m)
next
  case (Suc d)
  let ?h = "store64 h (8 * j) 0"
  have z: "le_bytes 0 = replicate 8 0" by (simp add: le_bytes_def map_replicate_const)
  from Suc.hyps(2) have j: "8 * j < hl" "Suc j \<le> (hl + 7) div 8" by auto
  then have fits: "8 * j + 8 \<le> length h" using Suc.prems by linarith
  have "hash_clear_loop ?h hl (8 * Suc j) =
     Inr (take (8 * Suc j) ?h @ replicate ((hl + 7) div 8 * 8 - 8 * Suc j) 0 @
          drop (max (8 * Suc j) ((hl + 7) div 8 * 8)) ?h)"
    using Suc.hyps(2) Suc.prems fits by (intro Suc.hyps(1)) simp_all
  moreover have "take (8 * Suc j) ?h = take (8 * j) h @ replicate 8 0"
    using fits by (simp add: store64_def z)
  moreover have "max (8 * Suc j) ((hl + 7) div 8 * 8) = (hl + 7) div 8 * 8"
    "max (8 * j) ((hl + 7) div 8 * 8) = (hl + 7) div 8 * 8" using j(2) by auto
  moreover have "drop ((hl + 7) div 8 * 8) ?h = drop ((hl + 7) div 8 * 8) h"
    using fits j(2) by (simp add: store64_def)
  moreover have "replicate ((hl + 7) div 8 * 8 - 8 * j) (0::u8) =
      replicate 8 0 @ replicate ((hl + 7) div 8 * 8 - 8 * Suc j) 0"
    using j(2) by (simp flip: replicate_add)
  ultimately show ?case using j(1) fits by (subst hash_clear_loop.simps) (simp add: add.commute)
qed


section \<open>Text form\<close>

lemma hex_nibble_digit: "n < 16 \<Longrightarrow> hex_nibble (hex_digit n) = Some (of_nat n)"
proof -
  have "list_all (\<lambda>n. hex_nibble (hex_digit n) = Some (of_nat n)) [0..<16]" by code_simp
  then show "n < 16 \<Longrightarrow> hex_nibble (hex_digit n) = Some (of_nat n)" by (simp add: list_all_iff)
qed

lemma nibbles_of_byte: "push_bit 4 (of_nat (unat b div 16)) OR of_nat (unat b mod 16) = (b :: u8)"
proof -
  have "of_nat (unat b div 16) = drop_bit 4 b"
    by (simp add: drop_bit_eq_div word_arith_nat_div)
  moreover have "of_nat (unat b mod 16) = take_bit 4 b"
    by (simp add: take_bit_eq_mod word_arith_nat_mod)
  moreover have "push_bit 4 (drop_bit 4 b) OR take_bit 4 b = b"
    by (rule bit_word_eqI) (auto simp: bit_simps)
  ultimately show ?thesis by simp
qed

lemma length_hex [simp]: "length (concat (map hex02 bs)) = 2 * length bs"
  by (induction bs) (simp_all add: hex02_def)

lemma hash_parse_loop_hex:
  "length pre = 2 * k \<Longrightarrow> k + length bs \<le> length h \<Longrightarrow>
   hash_parse_loop (pre @ concat (map hex02 bs)) (length bs) (2 * k) h =
     Some (take k h @ bs @ drop (k + length bs) h)"
proof (induction bs arbitrary: pre k h)
  case Nil
  then show ?case by (simp add: char_at_def)
next
  case (Cons b bs)
  let ?s = "pre @ concat (map hex02 (b # bs))"
  have c: "char_at ?s (2 * k) = hex_digit (unat b div 16)" "char_at ?s (2 * k + 1) = hex_digit (unat b mod 16)"
    using Cons.prems(1) by (simp_all add: char_at_def nth_append hex02_def)
  have "unat b < 16 * 16" by (rule order_less_le_trans [OF unsigned_less]) simp
  then have u: "unat b div 16 < 16" "unat b mod 16 < 16" by (simp_all add: less_mult_imp_div_less)
  have "hash_parse_loop ((pre @ hex02 b) @ concat (map hex02 bs)) (length bs) (2 * Suc k) (h[k := b]) =
      Some (take (Suc k) (h[k := b]) @ bs @ drop (Suc k + length bs) (h[k := b]))"
    using Cons.prems by (intro Cons.IH) (simp_all add: hex02_def)
  then show ?case
    using c u Cons.prems
    by (simp add: hex_nibble_digit nibbles_of_byte take_Suc_conv_app_nth)
qed

lemma hex_nibble_NUL: "hex_nibble (CHR 0x00) = None"
  by code_simp

lemma hash_parse_loop_accepts:
  "CHR 0x00 \<notin> set s \<Longrightarrow> i \<le> length s \<Longrightarrow>
   hash_parse_loop s n i h \<noteq> None \<longleftrightarrow>
     length s = i + 2 * n \<and> (\<forall>j. i \<le> j \<and> j < length s \<longrightarrow> hex_nibble (s ! j) \<noteq> None)"
proof (induction n arbitrary: i h)
  case 0
  then show ?case by (auto simp: char_at_def dest: nth_mem)
next
  case (Suc n)
  show ?case
  proof (cases "i + 2 \<le> length s")
    case True
    then have c: "char_at s i = s ! i" "char_at s (i + 1) = s ! (i + 1)" by (simp_all add: char_at_def)
    have "(\<forall>j. i \<le> j \<and> j < length s \<longrightarrow> hex_nibble (s ! j) \<noteq> None) \<longleftrightarrow>
        hex_nibble (s ! i) \<noteq> None \<and> hex_nibble (s ! (i + 1)) \<noteq> None \<and>
        (\<forall>j. i + 2 \<le> j \<and> j < length s \<longrightarrow> hex_nibble (s ! j) \<noteq> None)" (is "?L \<longleftrightarrow> ?R")
    proof
      assume ?R
      show ?L
      proof (intro allI impI)
        fix j
        assume "i \<le> j \<and> j < length s"
        then consider "j = i" | "j = i + 1" | "i + 2 \<le> j \<and> j < length s" by linarith
        then show "hex_nibble (s ! j) \<noteq> None" using \<open>?R\<close> by cases auto
      qed
    qed (use True in auto)
    then show ?thesis
      using Suc.IH [OF Suc.prems(1), of "i + 2"] True c
      by (auto split: option.splits)
  next
    case False
    then have "char_at s i = CHR 0x00 \<or> char_at s (i + 1) = CHR 0x00" by (auto simp: char_at_def)
    then show ?thesis using False by (auto simp: hex_nibble_NUL split: option.splits)
  qed
qed

section \<open>Properties\<close>

text \<open>
  C33: on 64-byte values and for every \<open>hlen\<close> up to 64 the word-wise functions for x86-64
  give what the portable ones give: comparison and the tests for zero and maximum exactly,
  copying and clearing on the first \<open>hlen\<close> bytes; beyond them they only write zeros up to the
  next multiple of 8.
\<close>

theorem hash_x86_agrees:
  assumes len: "length h = 64" "length g = 64" and hl: "hlen \<le> 64"
  shows "hash_compare h g hlen = Inr (hash_compare_portable h g hlen) \<and>
         hash_is_zero h hlen = Inr (hash_is_zero_portable h hlen) \<and>
         hash_is_max h hlen = Inr (hash_is_max_portable h hlen) \<and>
         (\<exists>pad < 8. hash_copy h g hlen =
            Inr (take (unat hlen) (hash_copy_portable h g hlen) @ replicate pad 0 @ drop (unat hlen + pad) h) \<and>
          hash_clear h hlen =
            Inr (take (unat hlen) (hash_clear_portable h hlen) @ replicate pad 0 @ drop (unat hlen + pad) h))"
proof -
  have u: "unat hlen \<le> 64" using hl by (simp add: word_le_nat_alt)
  let ?pad = "(8 - unat hlen mod 8) mod 8"
  note r = round_up_pad [of "unat hlen"] and le = pad_le_64 [OF u]
  have "hash_clear h hlen = Inr (replicate (unat hlen + ?pad) 0 @ drop (unat hlen + ?pad) h)"
    using hash_clear_loop_eq [where j = 0 and h = h and hl = "unat hlen"] r le len
    by (simp add: hash_clear_def)
  then have clear: "hash_clear h hlen =
      Inr (take (unat hlen) (hash_clear_portable h hlen) @ replicate ?pad 0 @ drop (unat hlen + ?pad) h)"
    by (simp add: hash_clear_portable_def replicate_add)
  have copy: "hash_copy h g hlen =
      Inr (take (unat hlen) (hash_copy_portable h g hlen) @ replicate ?pad 0 @ drop (unat hlen + ?pad) h)"
    using hash_copy_eq [OF len(1,2) _ u] u len by (simp add: hash_copy_portable_def min_def)
  have "?pad < 8" by simp
  with clear copy hash_compare_eq [OF len(1,2) _ u] hash_is_zero_eq [of h hlen] hash_is_max_eq [of h hlen]
  show ?thesis using len u by (intro conjI) (simp, simp, simp, blast)
qed

theorem hash_x86_agrees_witness:
  "hash_compare (replicate 64 1) (replicate 10 1 @ replicate 54 2) 10 = Inr 0 \<and>
   hash_is_max (replicate 20 0xFF @ replicate 44 0) 20 = Inr True"
  using hash_x86_agrees [of "replicate 64 1" "replicate 10 1 @ replicate 54 2" 10]
    hash_x86_agrees [of "replicate 20 0xFF @ replicate 44 0" "replicate 64 1" 20]
  by (simp add: hash_compare_portable_def hash_is_max_portable_def list_all_iff)

text \<open>
  Parsing the printed form of a hash gives the hash back, for every \<open>hlen\<close> up to 64, and
  \<open>hash_parse\<close> accepts exactly the strings of \<open>2 * hlen\<close> hexadecimal digits.
\<close>

theorem hash_parse_unparse:
  assumes len: "length h = 64" "length g = 64" and hl: "hlen \<le> 64" and s: "CHR 0x00 \<notin> set s"
  shows "hash_parse (hash_unparse h hlen) g hlen = Some (take (unat hlen) h @ drop (unat hlen) g) \<and>
         (hash_parse s g hlen \<noteq> None \<longleftrightarrow>
            length s = 2 * unat hlen \<and> (\<forall>c \<in> set s. hex_nibble c \<noteq> None))"
proof -
  have u: "unat hlen \<le> 64" using hl by (simp add: word_le_nat_alt)
  have n: "unat (hlen * 2) div 2 = unat hlen" using u by (simp add: unat_mult_less)
  have "hash_parse_loop ([] @ concat (map hex02 (take (unat hlen) h))) (length (take (unat hlen) h)) (2 * 0) g =
      Some (take 0 g @ take (unat hlen) h @ drop (0 + length (take (unat hlen) h)) g)"
    using len u by (intro hash_parse_loop_hex) simp_all
  then have "hash_parse (hash_unparse h hlen) g hlen = Some (take (unat hlen) h @ drop (unat hlen) g)"
    using len u by (simp add: hash_parse_def hash_unparse_def n min_def)
  moreover have "hash_parse s g hlen \<noteq> None \<longleftrightarrow>
      length s = 2 * unat hlen \<and> (\<forall>c \<in> set s. hex_nibble c \<noteq> None)"
    unfolding hash_parse_def n hash_parse_loop_accepts [OF s le0]
    by (simp add: all_set_conv_all_nth)
  ultimately show ?thesis ..
qed

theorem hash_parse_unparse_witness:
  "hash_parse (hash_unparse (replicate 64 0xA5) 2) (replicate 64 0) 2 = Some (replicate 2 0xA5 @ replicate 62 0) \<and>
   hash_parse ''12f'' (replicate 64 0) 2 = None"
  using hash_parse_unparse [of "replicate 64 0xA5" "replicate 64 0" 2 "''12f''"]
  by simp

text \<open>
  Nothing in these functions limits \<open>hlen\<close>, which a volume header supplies: for any
  value above 64, comparing a hash with itself and clearing one both run past its 64 bytes.
\<close>

theorem hash_hlen_out_of_bounds:
  assumes len: "length h = 64" and hl: "64 < hlen"
  shows "hash_compare h h hlen = Inl Out_of_bounds \<and> hash_clear h hlen = Inl Out_of_bounds"
proof
  have u: "64 < unat hlen" using hl by (simp add: word_less_nat_alt)
  let ?m = "unat hlen div 8"
  have "hash_words (\<lambda>i. load64 h i = load64 h i) (\<lambda>i m. load64 h i AND m = load64 h i AND m) 64 hlen =
      Inl Out_of_bounds"
  proof (cases "?m = 8")
    case True
    then have "unat hlen mod 8 \<noteq> 0" using u div_mult_mod_eq [of "unat hlen" 8] by simp
    then have "hlen AND 7 \<noteq> 0" using hlen_split(1) [of hlen] by auto
    moreover have "words_ok (\<lambda>i. True) 64 (8 * ?m) 0 = Inr True"
      using words_ok_in_range [of ?m 64 "\<lambda>i. True" 0] True by simp
    ultimately show ?thesis using True by (simp add: hash_words_def Let_def hlen_split)
  next
    case False
    then have "64 < 8 * ?m" using u by linarith
    then have "words_ok (\<lambda>i. True) 64 (8 * ?m) (8 * 0) = Inl Out_of_bounds"
      by (rule words_ok_out_of_range) simp_all
    then show ?thesis by (simp add: hash_words_def Let_def hlen_split)
  qed
  then show "hash_compare h h hlen = Inl Out_of_bounds" by (simp add: hash_compare_def len)
  have "hash_clear_loop h (unat hlen) (8 * j) = Inl Out_of_bounds" if "length h = 64" "8 * j \<le> 64" for j h
    using that
  proof (induction "8 - j" arbitrary: j h)
    case 0
    then have "8 * j = 64" by simp
    then show ?case using u 0 by (subst hash_clear_loop.simps) simp
  next
    case (Suc d)
    then have j: "8 * Suc j \<le> 64" by simp
    then have "hash_clear_loop (store64 h (8 * j) 0) (unat hlen) (8 * Suc j) = Inl Out_of_bounds"
      using Suc.prems Suc.hyps(2) by (intro Suc.hyps(1)) simp_all
    then show ?case using j u Suc.prems by (subst hash_clear_loop.simps) (simp add: add.commute)
  qed
  from this [OF len, of 0] show "hash_clear h hlen = Inl Out_of_bounds" by (simp add: hash_clear_def)
qed

theorem hash_hlen_out_of_bounds_witness:
  "hash_compare (replicate 64 0) (replicate 64 0) 65 = Inl Out_of_bounds"
  using hash_hlen_out_of_bounds [of "replicate 64 0" 65] by simp

end
