(* ===== verification/Htable.thy ===== *)
theory Htable
  imports Prelude DList HashVal
begin

text \<open>
  The hash table of \<open>shfs/htable.h\<close> and \<open>shfs/htable.c\<close>: a fixed number of buckets, each
  with a fixed number of slots, and a linked list through the used elements in the order they
  were added.

  An element is named by its bucket and its slot (\<open>_htable_bkt_el(b, i)\<close>). The hash values
  of a bucket are a list with one 64-byte value per slot; a zero hash (in its first \<open>hlen\<close>
  bytes) marks a free slot. \<open>ht_private\<close> is the user's private area of each element. The
  abstract state is a partial map from keys (the first \<open>hlen\<close> bytes) to elements.
\<close>

section \<open>State\<close>

type_synonym elref = "nat \<times> nat"

record 'a htable =
  nb_bkts :: u32
  el_per_bkt :: u32
  ht_hlen :: u8
  ht_list :: "elref dlist_head"
  ht_links :: "elref links"
  ht_bkts :: "u8 list list list"
  ht_private :: "elref \<Rightarrow> 'a"

section \<open>Bucket numbers\<close>

text \<open>
  \<open>_htable_bkt_no\<close>. The variable \<open>h64\<close> is declared \<open>uint32_t\<close>, so the 64-bit load is cut
  to its low half before it is masked and used.
\<close>

definition htable_bkt_no :: "u8 list \<Rightarrow> u8 \<Rightarrow> u32 \<Rightarrow> fault + u32" where
  "htable_bkt_no h hlen nb =
     (if hlen = 0 then Inr 0
      else if nb = 0 then Inl Div_by_zero
      else if hlen = 1 then Inr (ucast (h ! 0) mod nb)
      else if hlen = 2 then Inr (ucast (le_word (take 2 h)) mod nb)
      else if hlen = 3 then Inr ((ucast (le_word (take 4 h)) AND 0x00FFFFFF) mod nb)
      else if hlen = 4 then Inr (ucast (le_word (take 4 h)) mod nb)
      else if hlen = 5 then
        let h64 = ucast (load64 h 0) :: u32; h64 = ucast (ucast h64 AND (0x000000FFFFFFFFFF :: u64))
        in Inr (h64 mod nb)
      else if hlen = 6 then
        let h64 = ucast (load64 h 0) :: u32; h64 = ucast (ucast h64 AND (0x0000FFFFFFFFFFFF :: u64))
        in Inr (h64 mod nb)
      else if hlen = 7 then
        let h64 = ucast (load64 h 0) :: u32; h64 = ucast (ucast h64 AND (0x00FFFFFFFFFFFFFF :: u64))
        in Inr (h64 mod nb)
      else Inr (ucast (load64 h 0) mod nb))"

section \<open>Allocation\<close>

text \<open>
  The sizes \<open>alloc_htable\<close> computes: element header, element, bucket header, bucket and
  table (\<open>sizeof(struct htable_el)\<close> is 32, of a bucket header 24 and of the table 32).
\<close>

definition ht_align_up :: "u64 \<Rightarrow> u64 \<Rightarrow> u64" where
  "ht_align_up sz align = (sz + align - 1) AND NOT (align - 1)"

definition htable_sizes :: "u32 \<Rightarrow> u32 \<Rightarrow> u64 \<Rightarrow> u64 \<Rightarrow> u64 \<times> u64 \<times> u64 \<times> u64" where
  "htable_sizes nb epb el_private_len align =
     (let align = max 8 align;
          el_hdr_size = ht_align_up 32 align;
          el_size = el_hdr_size + ht_align_up el_private_len align;
          bkt_hdr_size = ht_align_up (24 + 64 * ucast epb) align;
          bkt_size = bkt_hdr_size + el_size * ucast epb;
          ht_size = 32 + 8 * ucast nb
      in (el_size, bkt_hdr_size, bkt_size, ht_size))"

text \<open>
  \<open>alloc_htable\<close>: \<open>mem\<close> is the outcome of the first \<open>_xmalloc\<close> and \<open>bmem i\<close> that of bucket
  \<open>i\<close>. Everything is cleared with \<open>memset\<close>; \<open>pr\<close> is the private areas after it.
\<close>

fun alloc_bkts :: "(nat \<Rightarrow> bool) \<Rightarrow> nat \<Rightarrow> nat \<Rightarrow> nat \<Rightarrow> errno + u8 list list list" where
  "alloc_bkts bmem epb 0 i = Inr []"
| "alloc_bkts bmem epb (Suc n) i =
     (if \<not> bmem i then Inl ENOMEM
      else map_sum id ((#) (replicate epb (replicate 64 0))) (alloc_bkts bmem epb n (Suc i)))"

definition alloc_htable ::
    "bool \<Rightarrow> (nat \<Rightarrow> bool) \<Rightarrow> (elref \<Rightarrow> 'a) \<Rightarrow> u32 \<Rightarrow> u32 \<Rightarrow> u8 \<Rightarrow> errno + 'a htable" where
  "alloc_htable mem bmem pr nb epb hlen =
     (if \<not> mem then Inl ENOMEM
      else case alloc_bkts bmem (unat epb) (unat nb) 0 of
        Inl e \<Rightarrow> Inl e
      | Inr bs \<Rightarrow> Inr \<lparr>nb_bkts = nb, el_per_bkt = epb, ht_hlen = hlen,
                       ht_list = \<lparr>dl_first = None, dl_last = None\<rparr>,
                       ht_links = (\<lambda>_. \<lparr>dl_next = None, dl_prev = None\<rparr>),
                       ht_bkts = bs, ht_private = pr\<rparr>)"

section \<open>Operations\<close>

text \<open>The bucket array and a slot of a bucket, with the bounds of the allocation.\<close>

definition htable_bkt :: "'a htable \<Rightarrow> nat \<Rightarrow> error + u8 list list" where
  "htable_bkt ht b =
     (if b < length (ht_bkts ht) then Inr (ht_bkts ht ! b) else Inl (Fault Out_of_bounds))"

definition ht_slot :: "'a htable \<Rightarrow> elref \<Rightarrow> u8 list" where
  "ht_slot ht r = ht_bkts ht ! fst r ! snd r"

definition ht_set_slot :: "elref \<Rightarrow> u8 list \<Rightarrow> 'a htable \<Rightarrow> 'a htable" where
  "ht_set_slot r h ht =
     ht\<lparr>ht_bkts := (ht_bkts ht)[fst r := (ht_bkts ht ! fst r)[snd r := h]]\<rparr>"

definition htable_pick :: "'a htable \<Rightarrow> u64 \<Rightarrow> error + elref" where
  "htable_pick ht el_idx =
     (if el_per_bkt ht = 0 then Inl (Fault Div_by_zero)
      else let bkt_idx = ucast (el_idx div ucast (el_per_bkt ht)) :: u32;
               el_idx_bkt = ucast (el_idx mod ucast (el_per_bkt ht)) :: u32
      in if nb_bkts ht < bkt_idx then Inl (Errno ERANGE)
         else case htable_bkt ht (unat bkt_idx) of
           Inl e \<Rightarrow> Inl e
         | Inr b \<Rightarrow>
             (case hash_is_zero (b ! unat el_idx_bkt) (ht_hlen ht) of
                Inl f \<Rightarrow> Inl (Fault f)
              | Inr True \<Rightarrow> Inl (Errno ENOENT)
              | Inr False \<Rightarrow> Inr (unat bkt_idx, unat el_idx_bkt)))"

text \<open>The loops over a bucket: the first slot from \<open>i\<close> on that passes the test.\<close>

fun bkt_search :: "(u8 list \<Rightarrow> fault + bool) \<Rightarrow> u8 list list \<Rightarrow> nat \<Rightarrow> fault + nat option" where
  "bkt_search test [] i = Inr None"
| "bkt_search test (x # xs) i =
     (case test x of
        Inl f \<Rightarrow> Inl f
      | Inr True \<Rightarrow> Inr (Some i)
      | Inr False \<Rightarrow> bkt_search test xs (Suc i))"

definition htable_home :: "'a htable \<Rightarrow> u8 list \<Rightarrow> error + (nat \<times> u8 list list)" where
  "htable_home ht h =
     (case hash_is_zero h (ht_hlen ht) of
        Inl f \<Rightarrow> Inl (Fault f)
      | Inr True \<Rightarrow> Inl (Errno EINVAL)
      | Inr False \<Rightarrow>
          (case htable_bkt_no h (ht_hlen ht) (nb_bkts ht) of
             Inl f \<Rightarrow> Inl (Fault f)
           | Inr b \<Rightarrow> map_sum id (Pair (unat b)) (htable_bkt ht (unat b))))"

definition htable_lookup :: "'a htable \<Rightarrow> u8 list \<Rightarrow> error + elref" where
  "htable_lookup ht h =
     (case htable_home ht h of
        Inl e \<Rightarrow> Inl e
      | Inr (b, hs) \<Rightarrow>
          (case bkt_search (\<lambda>x. map_sum id (\<lambda>c. c = 0) (hash_compare x h (ht_hlen ht))) hs 0 of
             Inl f \<Rightarrow> Inl (Fault f)
           | Inr None \<Rightarrow> Inl (Errno ENOENT)
           | Inr (Some i) \<Rightarrow> Inr (b, i)))"

text \<open>
  Storing a hash in a free slot and linking the element at the tail; the lines are the same
  in \<open>htable_add\<close> and \<open>htable_lookup_add\<close> (and the same as \<open>dlist_append\<close>).
\<close>

definition htable_link :: "elref \<Rightarrow> 'a htable \<Rightarrow> 'a htable" where
  "htable_link el ht =
     (let (hd, L) = dlist_append el (ht_list ht, ht_links ht)
      in ht\<lparr>ht_list := hd, ht_links := L\<rparr>)"

definition htable_store :: "elref \<Rightarrow> u8 list \<Rightarrow> 'a htable \<Rightarrow> error + (elref \<times> 'a htable)" where
  "htable_store el h ht =
     (case hash_copy (ht_slot ht el) h (ht_hlen ht) of
        Inl f \<Rightarrow> Inl (Fault f)
      | Inr h' \<Rightarrow> Inr (el, htable_link el (ht_set_slot el h' ht)))"

definition htable_add :: "'a htable \<Rightarrow> u8 list \<Rightarrow> error + (elref \<times> 'a htable)" where
  "htable_add ht h =
     (case htable_home ht h of
        Inl e \<Rightarrow> Inl e
      | Inr (b, hs) \<Rightarrow>
          (case bkt_search (\<lambda>x. hash_is_zero x (ht_hlen ht)) hs 0 of
             Inl f \<Rightarrow> Inl (Fault f)
           | Inr None \<Rightarrow> Inl (Errno ENOBUFS)
           | Inr (Some i) \<Rightarrow> htable_store (b, i) h ht))"

text \<open>
  The loop of \<open>htable_lookup_add\<close>: \<open>Inl i\<close> is a match at \<open>i\<close>, \<open>Inr e\<close> the first empty
  slot when there is none (\<open>empty_slot_found\<close> with \<open>e\<close>).
\<close>

fun bkt_search2 ::
    "u8 \<Rightarrow> u8 list \<Rightarrow> u8 list list \<Rightarrow> nat \<Rightarrow> nat option \<Rightarrow> fault + (nat + nat option)" where
  "bkt_search2 hlen h [] i e = Inr (Inr e)"
| "bkt_search2 hlen h (x # xs) i e =
     (case hash_compare x h hlen of
        Inl f \<Rightarrow> Inl f
      | Inr c \<Rightarrow>
          if c = 0 then Inr (Inl i)
          else if e = None then
            (case hash_is_zero x hlen of
               Inl f \<Rightarrow> Inl f
             | Inr z \<Rightarrow> bkt_search2 hlen h xs (Suc i) (if z then Some i else None))
          else bkt_search2 hlen h xs (Suc i) e)"

definition htable_lookup_add :: "'a htable \<Rightarrow> u8 list \<Rightarrow> error + (elref \<times> bool \<times> 'a htable)" where
  "htable_lookup_add ht h =
     (case htable_home ht h of
        Inl e \<Rightarrow> Inl e
      | Inr (b, hs) \<Rightarrow>
          (case bkt_search2 (ht_hlen ht) h hs 0 None of
             Inl f \<Rightarrow> Inl (Fault f)
           | Inr (Inl i) \<Rightarrow> Inr ((b, i), False, ht)
           | Inr (Inr None) \<Rightarrow> Inl (Errno ENOBUFS)
           | Inr (Inr (Some e)) \<Rightarrow>
               map_sum id (\<lambda>(el, ht'). (el, True, ht')) (htable_store (b, e) h ht)))"

definition htable_unlink :: "elref \<Rightarrow> 'a htable \<Rightarrow> 'a htable" where
  "htable_unlink el ht =
     (let h = ht_list ht; L = ht_links ht;
          (h, L) = (case dl_prev (L el) of
                      Some p \<Rightarrow> (h, L(p := (L p)\<lparr>dl_next := dl_next (L el)\<rparr>))
                    | None \<Rightarrow> (h\<lparr>dl_first := dl_next (L el)\<rparr>, L));
          (h, L) = (case dl_next (L el) of
                      Some n \<Rightarrow> (h, L(n := (L n)\<lparr>dl_prev := dl_prev (L el)\<rparr>))
                    | None \<Rightarrow> (h\<lparr>dl_last := dl_prev (L el)\<rparr>, L))
      in ht\<lparr>ht_list := h, ht_links := L\<rparr>)"

definition htable_clear_hash :: "elref \<Rightarrow> 'a htable \<Rightarrow> error + 'a htable" where
  "htable_clear_hash el ht =
     (case hash_clear (ht_slot ht el) (ht_hlen ht) of
        Inl f \<Rightarrow> Inl (Fault f)
      | Inr h \<Rightarrow> Inr (ht_set_slot el h ht))"

definition htable_rm :: "'a htable \<Rightarrow> elref \<Rightarrow> error + 'a htable" where
  "htable_rm ht el = htable_clear_hash el (htable_unlink el ht)"

definition htable_lhead :: "'a htable \<Rightarrow> elref option" where
  "htable_lhead ht = dl_first (ht_list ht)"

text \<open>\<open>foreach_htable_el\<close> as the elements it visits (\<open>None\<close>: it does not end).\<close>

definition foreach_htable_el :: "'a htable \<Rightarrow> elref list option" where
  "foreach_htable_el ht = dlist_foreach (ht_list ht) (ht_links ht)"

fun htable_clear_hashes :: "elref list \<Rightarrow> 'a htable \<Rightarrow> error + 'a htable" where
  "htable_clear_hashes [] ht = Inr ht"
| "htable_clear_hashes (el # els) ht =
     (case htable_clear_hash el ht of Inl e \<Rightarrow> Inl e | Inr ht' \<Rightarrow> htable_clear_hashes els ht')"

definition htable_clear :: "'a htable \<Rightarrow> (error + 'a htable) option" where
  "htable_clear ht =
     map_option (\<lambda>els. map_sum id (\<lambda>ht'. ht'\<lparr>ht_list := \<lparr>dl_first = None, dl_last = None\<rparr>\<rparr>)
                         (htable_clear_hashes els ht))
       (foreach_htable_el ht)"


section \<open>The bucket number in one formula\<close>

lemma ucast_le_word_mask:
  assumes "k \<le> 4"
  shows "(ucast (le_word xs) :: u32) AND mask (8 * k) = ucast (le_word (take k xs))"
  using assms by (intro bit_word_eqI)
    (auto simp: bit_simps bit_le_word less_mult_imp_div_less intro: ccontr)

lemma ucast_le_word_take4: "(ucast (le_word xs) :: u32) = ucast (le_word (take 4 xs))"
  by (rule bit_word_eqI) (auto simp: bit_simps bit_le_word less_mult_imp_div_less)

lemma wide_mask_no_effect:
  fixes h :: u32
  shows "ucast (ucast h AND (0x000000FFFFFFFFFF :: u64)) = h"
    "ucast (ucast h AND (0x0000FFFFFFFFFFFF :: u64)) = h"
    "ucast (ucast h AND (0x00FFFFFFFFFFFFFF :: u64)) = h"
proof -
  have m: "(0x000000FFFFFFFFFF :: u64) = mask 40" "(0x0000FFFFFFFFFFFF :: u64) = mask 48"
    "(0x00FFFFFFFFFFFFFF :: u64) = mask 56" by (simp_all add: mask_eq_exp_minus_1)
  show "ucast (ucast h AND (0x000000FFFFFFFFFF :: u64)) = h"
    "ucast (ucast h AND (0x0000FFFFFFFFFFFF :: u64)) = h"
    "ucast (ucast h AND (0x00FFFFFFFFFFFFFF :: u64)) = h"
    unfolding m by (rule bit_word_eqI; auto simp: bit_simps)+
qed

lemma htable_bkt_no_low:
  assumes "4 \<le> length h"
  shows "htable_bkt_no h hlen nb =
           (if hlen = 0 then Inr 0 else if nb = 0 then Inl Div_by_zero
            else Inr (ucast (le_word (take (min 4 (unat hlen)) h)) mod nb))"
proof -
  have m24: "(0x00FFFFFF :: u32) = mask (8 * 3)" by (simp add: mask_eq_exp_minus_1)
  have c3: "(ucast (le_word (take 4 h)) :: u32) AND 0x00FFFFFF = ucast (le_word (take 3 h))"
    unfolding m24 by (subst ucast_le_word_mask) (simp_all add: min_def)
  have c4: "(ucast (load64 h 0) :: u32) = ucast (le_word (take 4 h))"
    unfolding load64_def by (subst ucast_le_word_take4) (simp add: min_def)
  obtain x xs where h: "h = x # xs" using assms by (cases h) auto
  have c1: "(ucast (h ! 0) :: u32) = ucast (le_word (take 1 h))"
    by (rule bit_word_eqI) (auto simp: h bit_simps)
  consider "hlen = 0" | "hlen = 1" | "hlen = 2" | "hlen = 3" | "4 \<le> unat hlen"
  proof -
    have "unat hlen = 0 \<or> unat hlen = 1 \<or> unat hlen = 2 \<or> unat hlen = 3 \<or> 4 \<le> unat hlen" by linarith
    then have "hlen = 0 \<or> hlen = 1 \<or> hlen = 2 \<or> hlen = 3 \<or> 4 \<le> unat hlen"
      by (auto simp: word_unat_eq_iff)
    with that show thesis by blast
  qed
  then show ?thesis
  proof cases
    case 5
    then have ne: "hlen \<noteq> 0" "hlen \<noteq> 1" "hlen \<noteq> 2" "hlen \<noteq> 3" and m: "min 4 (unat hlen) = 4" by auto
    show ?thesis unfolding htable_bkt_no_def m Let_def wide_mask_no_effect c4 by (simp add: ne)
  qed (simp_all add: htable_bkt_no_def c1 c3 min_def)
qed

lemma htable_bkt_no_key:
  assumes "length h = 64" "length g = 64" "take (unat hlen) h = take (unat hlen) g"
  shows "htable_bkt_no h hlen nb = htable_bkt_no g hlen nb"
proof -
  have "take (min 4 (unat hlen)) h = take (min 4 (unat hlen)) g"
    using arg_cong [OF assms(3), of "take 4"] by simp
  then show ?thesis using assms by (simp add: htable_bkt_no_low)
qed

lemma htable_bkt_no_range: "nb \<noteq> 0 \<Longrightarrow> 4 \<le> length h \<Longrightarrow> \<exists>b. htable_bkt_no h hlen nb = Inr b \<and> unat b < unat nb"
  by (auto simp: htable_bkt_no_low unat_mod unat_gt_0)

section \<open>Searching a bucket\<close>

fun first_idx :: "('x \<Rightarrow> bool) \<Rightarrow> 'x list \<Rightarrow> nat option" where
  "first_idx P [] = None"
| "first_idx P (x # xs) = (if P x then Some 0 else map_option Suc (first_idx P xs))"

lemma first_idx_Some: "first_idx P xs = Some i \<Longrightarrow> i < length xs \<and> P (xs ! i)"
  by (induction xs arbitrary: i) (auto split: if_splits)

lemma first_idx_None: "first_idx P xs = None \<longleftrightarrow> (\<forall>i < length xs. \<not> P (xs ! i))"
  by (induction xs) (auto simp: nth_Cons split: nat.split)

lemma bkt_search_eq:
  "(\<And>x. x \<in> set xs \<Longrightarrow> test x = Inr (P x)) \<Longrightarrow>
   bkt_search test xs i = Inr (map_option ((+) i) (first_idx P xs))"
proof (induction xs arbitrary: i)
  case (Cons x xs)
  have "bkt_search test xs (Suc i) = Inr (map_option ((+) (Suc i)) (first_idx P xs))"
    by (rule Cons.IH) (use Cons.prems in simp)
  then show ?case using Cons.prems [of x] by (cases "first_idx P xs") simp_all
qed simp

lemma bkt_search2_eq:
  "(\<And>x. x \<in> set xs \<Longrightarrow> hash_compare x h hlen = Inr (if M x then 0 else 1)) \<Longrightarrow>
   (\<And>x. x \<in> set xs \<Longrightarrow> hash_is_zero x hlen = Inr (Z x)) \<Longrightarrow>
   bkt_search2 hlen h xs i e =
     Inr (case first_idx M xs of
            Some j \<Rightarrow> Inl (i + j)
          | None \<Rightarrow> Inr (case e of Some e' \<Rightarrow> Some e' | None \<Rightarrow> map_option ((+) i) (first_idx Z xs)))"
proof (induction xs arbitrary: i e)
  case Nil
  then show ?case by (simp split: option.split)
next
  case (Cons x xs)
  have IH: "bkt_search2 hlen h xs (Suc i) e =
     Inr (case first_idx M xs of
            Some j \<Rightarrow> Inl (Suc i + j)
          | None \<Rightarrow> Inr (case e of Some e' \<Rightarrow> Some e' | None \<Rightarrow> map_option ((+) (Suc i)) (first_idx Z xs)))" for e
    by (rule Cons.IH) (use Cons.prems in simp_all)
  show ?case
    using Cons.prems [of x]
    by (cases e; cases "first_idx M xs"; cases "first_idx Z xs") (simp_all add: IH)
qed

section \<open>Well-formed tables and their abstract map\<close>

definition zero_key :: "u8 list \<Rightarrow> bool" where
  "zero_key k \<longleftrightarrow> list_all (\<lambda>b. b = 0) k"

definition ht_key :: "'a htable \<Rightarrow> u8 list \<Rightarrow> u8 list" where
  "ht_key ht h = take (unat (ht_hlen ht)) h"

definition htable_ok :: "'a htable \<Rightarrow> elref list \<Rightarrow> bool" where
  "htable_ok ht els \<longleftrightarrow>
     nb_bkts ht \<noteq> 0 \<and> ht_hlen ht \<le> 64 \<and> length (ht_bkts ht) = unat (nb_bkts ht) \<and>
     (\<forall>b < unat (nb_bkts ht). length (ht_bkts ht ! b) = unat (el_per_bkt ht) \<and>
        (\<forall>i < unat (el_per_bkt ht). length (ht_bkts ht ! b ! i) = 64)) \<and>
     dl_repr (ht_links ht) (ht_list ht) els \<and>
     (\<forall>r. r \<in> set els \<longleftrightarrow> fst r < unat (nb_bkts ht) \<and> snd r < unat (el_per_bkt ht) \<and>
            \<not> zero_key (ht_key ht (ht_slot ht r))) \<and>
     (\<forall>r \<in> set els. htable_bkt_no (ht_slot ht r) (ht_hlen ht) (nb_bkts ht) = Inr (of_nat (fst r)))"

definition ht_keys :: "'a htable \<Rightarrow> elref list \<Rightarrow> u8 list list" where
  "ht_keys ht els = map (\<lambda>r. ht_key ht (ht_slot ht r)) els"

definition ht_abs :: "'a htable \<Rightarrow> elref list \<Rightarrow> u8 list \<Rightarrow> elref option" where
  "ht_abs ht els = map_of (map (\<lambda>r. (ht_key ht (ht_slot ht r), r)) els)"

lemma htable_okD:
  assumes "htable_ok ht els"
  shows "nb_bkts ht \<noteq> 0" "unat (ht_hlen ht) \<le> 64" "length (ht_bkts ht) = unat (nb_bkts ht)"
    "\<And>b. b < unat (nb_bkts ht) \<Longrightarrow> length (ht_bkts ht ! b) = unat (el_per_bkt ht)"
    "\<And>b i. b < unat (nb_bkts ht) \<Longrightarrow> i < unat (el_per_bkt ht) \<Longrightarrow> length (ht_slot ht (b, i)) = 64"
    "dl_repr (ht_links ht) (ht_list ht) els"
    "\<And>r. r \<in> set els \<longleftrightarrow> fst r < unat (nb_bkts ht) \<and> snd r < unat (el_per_bkt ht) \<and>
            \<not> zero_key (ht_key ht (ht_slot ht r))"
    "\<And>r. r \<in> set els \<Longrightarrow> htable_bkt_no (ht_slot ht r) (ht_hlen ht) (nb_bkts ht) = Inr (of_nat (fst r))"
  using assms
  by (simp_all add: htable_ok_def ht_slot_def word_le_nat_alt del: split_paired_All split_paired_Ex)

lemma hash_ops_key:
  assumes "unat hlen \<le> 64" "length x = 64"
  shows "hash_is_zero x hlen = Inr (zero_key (take (unat hlen) x))"
    "length h = 64 \<Longrightarrow> hash_compare x h hlen = Inr (if take (unat hlen) x = take (unat hlen) h then 0 else 1)"
  using assms hash_is_zero_eq [of x hlen] hash_compare_eq [of x 64 h hlen]
  by (simp_all add: hash_is_zero_portable_def hash_compare_portable_def zero_key_def)

lemma htable_home_eq:
  assumes ok: "htable_ok ht els" and h: "length h = 64"
  shows "if zero_key (ht_key ht h) then htable_home ht h = Inl (Errno EINVAL)
         else \<exists>b. htable_bkt_no h (ht_hlen ht) (nb_bkts ht) = Inr (of_nat b) \<and> b < unat (nb_bkts ht) \<and>
                htable_home ht h = Inr (b, ht_bkts ht ! b)"
proof -
  note d = htable_okD [OF ok]
  obtain w where w: "htable_bkt_no h (ht_hlen ht) (nb_bkts ht) = Inr w" "unat w < unat (nb_bkts ht)"
    using htable_bkt_no_range [OF d(1), of h "ht_hlen ht"] h by auto
  then show ?thesis
    using d(3) hash_ops_key(1) [OF d(2) h]
    by (auto simp: htable_home_def htable_bkt_def ht_key_def split: bool.split intro!: exI [of _ "unat w"])
qed

lemma set_bkt:
  assumes ok: "htable_ok ht els" and b: "b < unat (nb_bkts ht)" and x: "x \<in> set (ht_bkts ht ! b)"
  shows "length x = 64"
  using x b htable_okD(4,5) [OF ok] by (auto simp: in_set_conv_nth ht_slot_def)

lemma ht_abs_Some:
  "distinct (ht_keys ht els) \<Longrightarrow>
   ht_abs ht els k = Some r \<longleftrightarrow> r \<in> set els \<and> ht_key ht (ht_slot ht r) = k"
  by (subst ht_abs_def, subst map_of_eq_Some_iff) (auto simp: ht_keys_def comp_def)

lemma ht_abs_None: "ht_abs ht els k = None \<longleftrightarrow> (\<forall>r \<in> set els. ht_key ht (ht_slot ht r) \<noteq> k)"
  by (force simp: ht_abs_def map_of_eq_None_iff)

text \<open>The search for a key in its home bucket finds the element of the abstract map.\<close>

lemma find_in_home:
  assumes ok: "htable_ok ht els" and dk: "distinct (ht_keys ht els)" and h: "length h = 64"
    and nz: "\<not> zero_key (ht_key ht h)"
    and b: "htable_bkt_no h (ht_hlen ht) (nb_bkts ht) = Inr (of_nat b)" "b < unat (nb_bkts ht)"
  shows "map_option (Pair b) (first_idx (\<lambda>x. ht_key ht x = ht_key ht h) (ht_bkts ht ! b)) =
         ht_abs ht els (ht_key ht h)"
proof (cases "first_idx (\<lambda>x. ht_key ht x = ht_key ht h) (ht_bkts ht ! b)")
  case (Some i)
  from first_idx_Some [OF this] have "i < unat (el_per_bkt ht)" "ht_key ht (ht_slot ht (b, i)) = ht_key ht h"
    using htable_okD(4) [OF ok b(2)] by (simp_all add: ht_slot_def)
  then have "(b, i) \<in> set els" using nz b(2) by (simp add: htable_okD(7) [OF ok])
  then have "ht_abs ht els (ht_key ht h) = Some (b, i)"
    using \<open>ht_key ht (ht_slot ht (b, i)) = ht_key ht h\<close> by (simp add: ht_abs_Some [OF dk])
  with Some show ?thesis by simp
next
  case None
  have "ht_key ht (ht_slot ht r) \<noteq> ht_key ht h" if r: "r \<in> set els" for r
  proof
    assume k: "ht_key ht (ht_slot ht r) = ht_key ht h"
    have rr: "fst r < unat (nb_bkts ht)" "snd r < unat (el_per_bkt ht)"
      using r by (simp_all add: htable_okD(7) [OF ok])
    have "Inr (of_nat (fst r)) = (Inr (of_nat b) :: fault + u32)"
      using htable_okD(8) [OF ok r] b(1)
        htable_bkt_no_key [of "ht_slot ht r" h "ht_hlen ht" "nb_bkts ht"] k h
        htable_okD(5) [OF ok rr] by (simp add: ht_key_def)
    moreover have "unat (nb_bkts ht) < 2 ^ 32" by (rule order_less_le_trans [OF unsigned_less]) simp
    then have "unat (of_nat (fst r) :: u32) = fst r" "unat (of_nat b :: u32) = b"
      using rr(1) b(2) by (simp_all add: unat_of_nat_less)
    ultimately have "fst r = b" by (metis sum.inject(2))
    then show False
      using None rr k htable_okD(4) [OF ok b(2)]
      by (auto simp: first_idx_None ht_slot_def)
  qed
  then have "ht_abs ht els (ht_key ht h) = None" unfolding ht_abs_None by blast
  with None show ?thesis by simp
qed


section \<open>Updates\<close>

lemma ht_upd_simps [simp]:
  "nb_bkts (ht_set_slot r h ht) = nb_bkts ht" "el_per_bkt (ht_set_slot r h ht) = el_per_bkt ht"
  "ht_hlen (ht_set_slot r h ht) = ht_hlen ht" "ht_list (ht_set_slot r h ht) = ht_list ht"
  "ht_links (ht_set_slot r h ht) = ht_links ht" "ht_private (ht_set_slot r h ht) = ht_private ht"
  "ht_key (ht_set_slot r h ht) x = ht_key ht x"
  "nb_bkts (htable_link r ht) = nb_bkts ht" "el_per_bkt (htable_link r ht) = el_per_bkt ht"
  "ht_hlen (htable_link r ht) = ht_hlen ht" "ht_bkts (htable_link r ht) = ht_bkts ht"
  "ht_private (htable_link r ht) = ht_private ht" "ht_key (htable_link r ht) x = ht_key ht x"
  "ht_slot (htable_link r ht) q = ht_slot ht q"
  "nb_bkts (htable_unlink r ht) = nb_bkts ht" "el_per_bkt (htable_unlink r ht) = el_per_bkt ht"
  "ht_hlen (htable_unlink r ht) = ht_hlen ht" "ht_bkts (htable_unlink r ht) = ht_bkts ht"
  "ht_private (htable_unlink r ht) = ht_private ht" "ht_key (htable_unlink r ht) x = ht_key ht x"
  "ht_slot (htable_unlink r ht) q = ht_slot ht q"
  by (simp_all add: ht_set_slot_def ht_key_def htable_link_def htable_unlink_def ht_slot_def Let_def
      split: prod.split option.split)

lemma ht_slot_set:
  assumes "fst r < length (ht_bkts ht)" and "snd r < length (ht_bkts ht ! fst r)"
  shows "ht_slot (ht_set_slot r h ht) q = (if q = r then h else ht_slot ht q)"
  using assms by (cases q; cases r) (auto simp: ht_slot_def ht_set_slot_def nth_list_update)

lemma htable_link_list:
  assumes "dl_repr (ht_links ht) (ht_list ht) els" and "r \<notin> set els"
  shows "dl_repr (ht_links (htable_link r ht)) (ht_list (htable_link r ht)) (els @ [r])"
proof -
  have "dl_holds (dlist_append r (ht_list ht, ht_links ht)) (els @ [r])"
    using assms by (intro dl.add_tail) (simp_all add: dl_holds_def)
  then show ?thesis by (auto simp: htable_link_def dl_holds_def split: prod.split)
qed

text \<open>\<open>htable_rm\<close> unlinks like \<open>dlist_unlink\<close> but leaves the pointers of the element as they were.\<close>

lemma htable_unlink_list:
  assumes r: "dl_repr (ht_links ht) (ht_list ht) els" and x: "x \<in> set els"
  shows "dl_repr (ht_links (htable_unlink x ht)) (ht_list (htable_unlink x ht)) (remove1 x els)"
proof -
  let ?u = "htable_unlink x ht"
  have e: "dlist_unlink x (ht_list ht, ht_links ht) = (ht_list ?u, dlist_init_el x (ht_links ?u))"
    by (simp add: dlist_unlink_def htable_unlink_def Let_def split: option.split)
  have "dl_repr (dlist_init_el x (ht_links ?u)) (ht_list ?u) (remove1 x els)"
    by (rule dl_repr_unlink(1) [OF r x e])
  moreover have "x \<notin> set (remove1 x els)" using dl_repr_distinct [OF r] by simp
  ultimately show ?thesis by (simp add: dlist_init_el_def dl_repr_def)
qed

lemma htable_ok_update:
  assumes ok: "htable_ok ht els" and r: "fst r < unat (nb_bkts ht)" "snd r < unat (el_per_bkt ht)"
    and h: "length h = 64"
    and lst: "dl_repr (ht_links ht') (ht_list ht') els'"
    and same: "nb_bkts ht' = nb_bkts ht" "el_per_bkt ht' = el_per_bkt ht" "ht_hlen ht' = ht_hlen ht"
      "ht_bkts ht' = ht_bkts (ht_set_slot r h ht)"
    and els': "set els' = (if zero_key (ht_key ht h) then set els - {r} else insert r (set els))"
    and home: "\<not> zero_key (ht_key ht h) \<Longrightarrow>
      htable_bkt_no h (ht_hlen ht) (nb_bkts ht) = Inr (of_nat (fst r))"
  shows "htable_ok ht' els'"
proof -
  note d = htable_okD [OF ok]
  have rng: "fst r < length (ht_bkts ht)" "snd r < length (ht_bkts ht ! fst r)"
    using r d(3,4) by simp_all
  have slot: "ht_slot ht' q = (if q = r then h else ht_slot ht q)" for q
    using ht_slot_set [OF rng, of h q] by (simp add: ht_slot_def same)
  have key: "ht_key ht' x = ht_key ht x" for x by (simp add: ht_key_def same)
  have len: "length (ht_bkts ht') = unat (nb_bkts ht)"
    "b < unat (nb_bkts ht) \<Longrightarrow> length (ht_bkts ht' ! b) = unat (el_per_bkt ht)" for b
    using d(3,4) by (cases "b = fst r"; simp add: same ht_set_slot_def)+
  have l64: "length (ht_bkts ht' ! b ! i) = 64" if "b < unat (nb_bkts ht)" "i < unat (el_per_bkt ht)" for b i
    using d(5) [OF that] slot [of "(b, i)"] h by (auto simp: ht_slot_def split: if_splits)
  have mem: "q \<in> set els' \<longleftrightarrow> fst q < unat (nb_bkts ht) \<and> snd q < unat (el_per_bkt ht) \<and>
            \<not> zero_key (ht_key ht (ht_slot ht' q))" for q
    using d(7) [of q] r by (auto simp: els' slot)
  have hm: "htable_bkt_no (ht_slot ht' q) (ht_hlen ht) (nb_bkts ht) = Inr (of_nat (fst q))"
    if "q \<in> set els'" for q
    using that d(8) [of q] home by (auto simp: slot els' split: if_splits)
  show ?thesis
    unfolding htable_ok_def same(1-3) key
    using d(1) d(2) len l64 lst mem hm by (simp add: word_le_nat_alt del: split_paired_All)
qed

lemma htable_store_ok:
  assumes ok: "htable_ok ht els" and dk: "distinct (ht_keys ht els)" and h: "length h = 64"
    and nz: "\<not> zero_key (ht_key ht h)" and new: "ht_abs ht els (ht_key ht h) = None"
    and b: "htable_bkt_no h (ht_hlen ht) (nb_bkts ht) = Inr (of_nat b)" "b < unat (nb_bkts ht)"
    and i: "i < unat (el_per_bkt ht)" and free: "zero_key (ht_key ht (ht_slot ht (b, i)))"
  shows "\<exists>ht'. htable_store (b, i) h ht = Inr ((b, i), ht') \<and> htable_ok ht' (els @ [(b, i)]) \<and>
           distinct (ht_keys ht' (els @ [(b, i)])) \<and> ht_hlen ht' = ht_hlen ht \<and>
           ht_private ht' = ht_private ht \<and>
           ht_abs ht' (els @ [(b, i)]) = (ht_abs ht els)(ht_key ht h \<mapsto> (b, i)) \<and> (b, i) \<notin> set els"
proof -
  note d = htable_okD [OF ok]
  let ?r = "(b, i)"
  have out: "?r \<notin> set els" using free by (simp add: d(7))
  have l64: "length (ht_slot ht ?r) = 64" using d(5) b(2) i by simp
  obtain h' where c: "hash_copy (ht_slot ht ?r) h (ht_hlen ht) = Inr h'" and kh': "ht_key ht h' = ht_key ht h"
    and len: "length h' = 64"
  proof -
    from hash_copy_eq [OF l64 h _ d(2)] have
      "hash_copy (ht_slot ht ?r) h (ht_hlen ht) = Inr (take (unat (ht_hlen ht)) h @
         replicate ((8 - unat (ht_hlen ht) mod 8) mod 8) 0 @
         drop (unat (ht_hlen ht) + (8 - unat (ht_hlen ht) mod 8) mod 8) (ht_slot ht ?r))" by simp
    with that show thesis
      using d(2) l64 h pad_le_64 [OF d(2)] by (simp add: ht_key_def)
  qed
  let ?ht = "htable_link ?r (ht_set_slot ?r h' ht)"
  have home: "htable_bkt_no h' (ht_hlen ht) (nb_bkts ht) = Inr (of_nat b)"
    using htable_bkt_no_key [OF len h] kh' b(1) by (simp add: ht_key_def)
  have lst: "dl_repr (ht_links ?ht) (ht_list ?ht) (els @ [?r])"
    using d(6) out by (intro htable_link_list) simp_all
  have ok': "htable_ok ?ht (els @ [?r])"
    using b(2) i len nz kh' home
    by (intro htable_ok_update [OF ok _ _ len lst]) auto
  have slot: "ht_slot (ht_set_slot ?r h' ht) q = (if q = ?r then h' else ht_slot ht q)" for q
    using ht_slot_set [of ?r ht h' q] b(2) i d(3,4) by simp
  have keys: "ht_keys ?ht (els @ [?r]) = ht_keys ht els @ [ht_key ht h]"
    using out kh' by (auto simp: ht_keys_def slot)
  have "ht_key ht h \<notin> set (ht_keys ht els)" using new by (auto simp: ht_abs_None ht_keys_def)
  then have dk': "distinct (ht_keys ?ht (els @ [?r]))" using dk by (simp add: keys)
  have kv: "map (\<lambda>r. (ht_key ?ht (ht_slot ?ht r), r)) (els @ [?r]) =
      map (\<lambda>r. (ht_key ht (ht_slot ht r), r)) els @ [(ht_key ht h, ?r)]"
    using out kh' by (auto simp: slot)
  have "ht_abs ?ht (els @ [?r]) = (ht_abs ht els)(ht_key ht h \<mapsto> ?r)"
    using new unfolding ht_abs_def kv by (auto simp: map_add_def fun_eq_iff split: option.split)
  with ok' dk' out c show ?thesis by (auto simp: htable_store_def)
qed


section \<open>What each operation does\<close>

lemma bkt_search_match:
  assumes ok: "htable_ok ht els" and h: "length h = 64" and b: "b < unat (nb_bkts ht)"
  shows "bkt_search (\<lambda>x. map_sum id (\<lambda>c. c = 0) (hash_compare x h (ht_hlen ht))) (ht_bkts ht ! b) 0 =
           Inr (first_idx (\<lambda>x. ht_key ht x = ht_key ht h) (ht_bkts ht ! b))"
    and "bkt_search (\<lambda>x. hash_is_zero x (ht_hlen ht)) (ht_bkts ht ! b) 0 =
           Inr (first_idx (\<lambda>x. zero_key (ht_key ht x)) (ht_bkts ht ! b))"
    and "bkt_search2 (ht_hlen ht) h (ht_bkts ht ! b) 0 None =
           Inr (case first_idx (\<lambda>x. ht_key ht x = ht_key ht h) (ht_bkts ht ! b) of
                  Some j \<Rightarrow> Inl j
                | None \<Rightarrow> Inr (first_idx (\<lambda>x. zero_key (ht_key ht x)) (ht_bkts ht ! b)))"
proof -
  note d = htable_okD [OF ok]
  have x: "length x = 64" if "x \<in> set (ht_bkts ht ! b)" for x using set_bkt [OF ok b that] .
  note ops = hash_ops_key [OF d(2)]
  have id: "map_option ((+) 0) r = r" for r :: "nat option" by (cases r) simp_all
  show "bkt_search (\<lambda>x. map_sum id (\<lambda>c. c = 0) (hash_compare x h (ht_hlen ht))) (ht_bkts ht ! b) 0 =
           Inr (first_idx (\<lambda>x. ht_key ht x = ht_key ht h) (ht_bkts ht ! b))"
    using bkt_search_eq [of "ht_bkts ht ! b" "\<lambda>x. map_sum id (\<lambda>c. c = 0) (hash_compare x h (ht_hlen ht))"
        "\<lambda>x. ht_key ht x = ht_key ht h" 0] x h ops(2) id by (simp add: ht_key_def)
  show "bkt_search (\<lambda>x. hash_is_zero x (ht_hlen ht)) (ht_bkts ht ! b) 0 =
           Inr (first_idx (\<lambda>x. zero_key (ht_key ht x)) (ht_bkts ht ! b))"
    using bkt_search_eq [of "ht_bkts ht ! b" "\<lambda>x. hash_is_zero x (ht_hlen ht)"
        "\<lambda>x. zero_key (ht_key ht x)" 0] x ops(1) id by (simp add: ht_key_def)
  show "bkt_search2 (ht_hlen ht) h (ht_bkts ht ! b) 0 None =
           Inr (case first_idx (\<lambda>x. ht_key ht x = ht_key ht h) (ht_bkts ht ! b) of
                  Some j \<Rightarrow> Inl j
                | None \<Rightarrow> Inr (first_idx (\<lambda>x. zero_key (ht_key ht x)) (ht_bkts ht ! b)))"
    using bkt_search2_eq [of "ht_bkts ht ! b" h "ht_hlen ht" "\<lambda>x. ht_key ht x = ht_key ht h"
        "\<lambda>x. zero_key (ht_key ht x)" 0 None] x h ops id by (simp add: ht_key_def split: option.split)
qed

lemma htable_lookup_eq:
  assumes ok: "htable_ok ht els" and dk: "distinct (ht_keys ht els)" and h: "length h = 64"
  shows "htable_lookup ht h =
     (if zero_key (ht_key ht h) then Inl (Errno EINVAL)
      else case ht_abs ht els (ht_key ht h) of None \<Rightarrow> Inl (Errno ENOENT) | Some r \<Rightarrow> Inr r)"
proof (cases "zero_key (ht_key ht h)")
  case True
  then show ?thesis using htable_home_eq [OF ok h] by (simp add: htable_lookup_def)
next
  case False
  with htable_home_eq [OF ok h] obtain b where b: "htable_bkt_no h (ht_hlen ht) (nb_bkts ht) = Inr (of_nat b)"
    "b < unat (nb_bkts ht)" "htable_home ht h = Inr (b, ht_bkts ht ! b)" by auto
  from find_in_home [OF ok dk h False b(1,2)]
  have f: "ht_abs ht els (ht_key ht h) =
      map_option (Pair b) (first_idx (\<lambda>x. ht_key ht x = ht_key ht h) (ht_bkts ht ! b))" by simp
  show ?thesis
    using False b(3) bkt_search_match(1) [OF ok h b(2)]
    by (simp add: htable_lookup_def f split: option.split)
qed

lemma htable_lookup_add_eq:
  assumes ok: "htable_ok ht els" and dk: "distinct (ht_keys ht els)" and h: "length h = 64"
    and nz: "\<not> zero_key (ht_key ht h)"
  shows "case ht_abs ht els (ht_key ht h) of
           Some r \<Rightarrow> htable_lookup_add ht h = Inr (r, False, ht)
         | None \<Rightarrow> htable_lookup_add ht h = Inl (Errno ENOBUFS) \<or>
             (\<exists>r ht'. htable_lookup_add ht h = Inr (r, True, ht') \<and> htable_ok ht' (els @ [r]) \<and>
                distinct (ht_keys ht' (els @ [r])) \<and> ht_hlen ht' = ht_hlen ht \<and>
                ht_private ht' = ht_private ht \<and>
                ht_abs ht' (els @ [r]) = (ht_abs ht els)(ht_key ht h \<mapsto> r) \<and> r \<notin> set els)"
proof -
  from htable_home_eq [OF ok h] nz obtain b where b: "htable_bkt_no h (ht_hlen ht) (nb_bkts ht) = Inr (of_nat b)"
    "b < unat (nb_bkts ht)" "htable_home ht h = Inr (b, ht_bkts ht ! b)" by auto
  let ?m = "first_idx (\<lambda>x. ht_key ht x = ht_key ht h) (ht_bkts ht ! b)"
  let ?z = "first_idx (\<lambda>x. zero_key (ht_key ht x)) (ht_bkts ht ! b)"
  from find_in_home [OF ok dk h nz b(1,2)]
  have f: "ht_abs ht els (ht_key ht h) = map_option (Pair b) ?m" by simp
  note s2 = bkt_search_match(3) [OF ok h b(2)]
  show ?thesis
  proof (cases ?m)
    case (Some i)
    then show ?thesis using b(3) s2 by (simp add: htable_lookup_add_def f)
  next
    case None
    show ?thesis
    proof (cases ?z)
      case z: None
      with None show ?thesis using b(3) s2 by (simp add: htable_lookup_add_def f)
    next
      case z: (Some i)
      from first_idx_Some [OF z] have i: "i < unat (el_per_bkt ht)" "zero_key (ht_key ht (ht_slot ht (b, i)))"
        using htable_okD(4) [OF ok b(2)] by (simp_all add: ht_slot_def)
      have new: "ht_abs ht els (ht_key ht h) = None" using None f by simp
      from htable_store_ok [OF ok dk h nz new b(1,2) i] None z show ?thesis
        using b(3) s2 by (auto simp: htable_lookup_add_def f)
    qed
  qed
qed

lemma htable_add_eq:
  assumes ok: "htable_ok ht els" and dk: "distinct (ht_keys ht els)" and h: "length h = 64"
    and nz: "\<not> zero_key (ht_key ht h)" and new: "ht_abs ht els (ht_key ht h) = None"
  shows "htable_add ht h = Inl (Errno ENOBUFS) \<or>
         (\<exists>r ht'. htable_add ht h = Inr (r, ht') \<and> htable_ok ht' (els @ [r]) \<and>
            distinct (ht_keys ht' (els @ [r])) \<and> ht_hlen ht' = ht_hlen ht \<and>
            ht_private ht' = ht_private ht \<and>
            ht_abs ht' (els @ [r]) = (ht_abs ht els)(ht_key ht h \<mapsto> r) \<and> r \<notin> set els)"
proof -
  from htable_home_eq [OF ok h] nz obtain b where b: "htable_bkt_no h (ht_hlen ht) (nb_bkts ht) = Inr (of_nat b)"
    "b < unat (nb_bkts ht)" "htable_home ht h = Inr (b, ht_bkts ht ! b)" by auto
  note s = bkt_search_match(2) [OF ok h b(2)]
  show ?thesis
  proof (cases "first_idx (\<lambda>x. zero_key (ht_key ht x)) (ht_bkts ht ! b)")
    case None
    then show ?thesis using b(3) s by (simp add: htable_add_def)
  next
    case z: (Some i)
    from first_idx_Some [OF z] have i: "i < unat (el_per_bkt ht)" "zero_key (ht_key ht (ht_slot ht (b, i)))"
      using htable_okD(4) [OF ok b(2)] by (simp_all add: ht_slot_def)
    from htable_store_ok [OF ok dk h nz new b(1,2) i] z show ?thesis
      using b(3) s by (auto simp: htable_add_def)
  qed
qed

lemma zero_after_clear:
  assumes "length h = 64" and "hlen \<le> 64"
  shows "\<exists>h'. hash_clear h hlen = Inr h' \<and> length h' = 64 \<and> zero_key (take (unat hlen) h')"
proof -
  have u: "unat hlen \<le> 64" using assms(2) by (simp add: word_le_nat_alt)
  let ?R = "unat hlen + (8 - unat hlen mod 8) mod 8"
  have "hash_clear h hlen = Inr (replicate ?R 0 @ drop ?R h)"
    using hash_clear_loop_eq [where j = 0 and h = h and hl = "unat hlen"] pad_le_64 [OF u]
      round_up_pad [of "unat hlen"] assms(1) by (simp add: hash_clear_def)
  then show ?thesis using pad_le_64 [OF u] assms(1) by (simp add: zero_key_def list_all_iff)
qed

lemma htable_rm_ok:
  assumes ok: "htable_ok ht els" and dk: "distinct (ht_keys ht els)" and r: "r \<in> set els"
  shows "\<exists>ht'. htable_rm ht r = Inr ht' \<and> htable_ok ht' (remove1 r els) \<and>
           distinct (ht_keys ht' (remove1 r els)) \<and> ht_hlen ht' = ht_hlen ht \<and>
           ht_private ht' = ht_private ht \<and>
           ht_abs ht' (remove1 r els) = (ht_abs ht els)(ht_key ht (ht_slot ht r) := None)"
proof -
  note d = htable_okD [OF ok]
  have rng: "fst r < unat (nb_bkts ht)" "snd r < unat (el_per_bkt ht)" using r by (simp_all add: d(7))
  have l64: "length (ht_slot ht r) = 64" using d(5) [OF rng] by simp
  have hl: "ht_hlen ht \<le> 64" using d(2) by (simp add: word_le_nat_alt)
  obtain h' where c: "hash_clear (ht_slot ht r) (ht_hlen ht) = Inr h'" "length h' = 64"
    and z: "zero_key (ht_key ht h')"
    using zero_after_clear [OF l64 hl] by (auto simp: ht_key_def)
  let ?u = "htable_unlink r ht" let ?ht = "ht_set_slot r h' ?u"
  have bk: "ht_bkts ?ht = ht_bkts (ht_set_slot r h' ht)" by (simp add: ht_set_slot_def)
  have ds: "distinct els" by (rule dl_repr_distinct [OF d(6)])
  have lst: "dl_repr (ht_links ?ht) (ht_list ?ht) (remove1 r els)"
    using htable_unlink_list [OF d(6) r] by simp
  have ok': "htable_ok ?ht (remove1 r els)"
    using z ds by (intro htable_ok_update [OF ok rng c(2) lst _ _ _ bk]) simp_all
  have slot: "ht_slot ?ht q = (if q = r then h' else ht_slot ht q)" for q
    using ht_slot_set [of r ht h' q] rng d(3,4) by (simp add: ht_slot_def bk)
  have key: "ht_key ?ht x = ht_key ht x" for x by simp
  have keys: "ht_keys ?ht (remove1 r els) = map (\<lambda>q. ht_key ht (ht_slot ht q)) (remove1 r els)"
    unfolding ht_keys_def key using ds by (intro map_cong) (auto simp: slot)
  have dk': "distinct (ht_keys ?ht (remove1 r els))"
    unfolding keys using dk ds
    by (auto simp: ht_keys_def distinct_map intro: inj_on_subset)
  have "ht_abs ?ht (remove1 r els) k = ((ht_abs ht els)(ht_key ht (ht_slot ht r) := None)) k" for k
  proof -
    have "ht_abs ?ht (remove1 r els) k = Some q \<longleftrightarrow>
        ((ht_abs ht els)(ht_key ht (ht_slot ht r) := None)) k = Some q" for q
    proof -
      have "q \<in> set els \<Longrightarrow> ht_key ht (ht_slot ht q) = ht_key ht (ht_slot ht r) \<Longrightarrow> q = r"
        using dk r by (auto simp: ht_keys_def distinct_map dest: inj_onD)
      then show ?thesis
        using ds unfolding ht_abs_Some [OF dk'] key
        by (auto simp: ht_abs_Some [OF dk] slot)
    qed
    then show ?thesis by (metis option.exhaust)
  qed
  then have "ht_abs ?ht (remove1 r els) = (ht_abs ht els)(ht_key ht (ht_slot ht r) := None)" by blast
  with ok' dk' c show ?thesis by (simp add: htable_rm_def htable_clear_hash_def)
qed


subsection \<open>Clearing and allocating\<close>

definition ht_shape :: "'a htable \<Rightarrow> bool" where
  "ht_shape ht \<longleftrightarrow>
     nb_bkts ht \<noteq> 0 \<and> ht_hlen ht \<le> 64 \<and> length (ht_bkts ht) = unat (nb_bkts ht) \<and>
     (\<forall>b < unat (nb_bkts ht). length (ht_bkts ht ! b) = unat (el_per_bkt ht) \<and>
        (\<forall>i < unat (el_per_bkt ht). length (ht_bkts ht ! b ! i) = 64))"

definition in_table :: "'a htable \<Rightarrow> elref \<Rightarrow> bool" where
  "in_table ht r \<longleftrightarrow> fst r < unat (nb_bkts ht) \<and> snd r < unat (el_per_bkt ht)"

lemma htable_ok_shape: "htable_ok ht els \<Longrightarrow> ht_shape ht"
  by (simp add: htable_ok_def ht_shape_def)

lemma ht_shape_set:
  assumes "ht_shape ht" and "in_table ht r" and "length h = 64"
  shows "ht_shape (ht_set_slot r h ht)"
    and "ht_slot (ht_set_slot r h ht) q = (if q = r then h else ht_slot ht q)"
proof -
  have rng: "fst r < length (ht_bkts ht)" "snd r < length (ht_bkts ht ! fst r)"
    using assms(1,2) by (simp_all add: ht_shape_def in_table_def)
  show slot: "ht_slot (ht_set_slot r h ht) q = (if q = r then h else ht_slot ht q)" for q
    using rng by (rule ht_slot_set)
  have "length (ht_bkts (ht_set_slot r h ht) ! b) = unat (el_per_bkt ht)" if "b < unat (nb_bkts ht)" for b
    using that assms(1) rng by (cases "b = fst r"; simp add: ht_shape_def ht_set_slot_def)
  moreover have "length (ht_bkts (ht_set_slot r h ht) ! b ! i) = 64"
    if "b < unat (nb_bkts ht)" "i < unat (el_per_bkt ht)" for b i
    using slot [of "(b, i)"] that assms by (auto simp: ht_slot_def ht_shape_def split: if_splits)
  moreover have "length (ht_bkts (ht_set_slot r h ht)) = length (ht_bkts ht)" by (simp add: ht_set_slot_def)
  ultimately show "ht_shape (ht_set_slot r h ht)" using assms(1) by (simp add: ht_shape_def)
qed

lemma htable_clear_hashes_ok:
  "ht_shape ht \<Longrightarrow> \<forall>r \<in> set cs. in_table ht r \<Longrightarrow>
   \<exists>ht'. htable_clear_hashes cs ht = Inr ht' \<and> ht_shape ht' \<and> nb_bkts ht' = nb_bkts ht \<and>
     el_per_bkt ht' = el_per_bkt ht \<and> ht_hlen ht' = ht_hlen ht \<and> ht_private ht' = ht_private ht \<and>
     (\<forall>q. in_table ht q \<longrightarrow> zero_key (ht_key ht (ht_slot ht' q)) =
        (q \<in> set cs \<or> zero_key (ht_key ht (ht_slot ht q))))"
proof (induction cs arbitrary: ht)
  case Nil
  then show ?case by simp
next
  case (Cons r cs)
  have r: "in_table ht r" using Cons.prems(2) by simp
  then have l64: "length (ht_slot ht r) = 64" and hl: "ht_hlen ht \<le> 64"
    using Cons.prems(1) by (simp_all add: ht_shape_def in_table_def ht_slot_def)
  obtain h' where c: "hash_clear (ht_slot ht r) (ht_hlen ht) = Inr h'" "length h' = 64"
    and z: "zero_key (ht_key ht h')"
    using zero_after_clear [OF l64 hl] by (auto simp: ht_key_def)
  let ?ht = "ht_set_slot r h' ht"
  have it: "in_table ?ht q = in_table ht q" for q by (simp add: in_table_def)
  note sh = ht_shape_set [OF Cons.prems(1) r c(2)]
  have "\<forall>r \<in> set cs. in_table ?ht r" using Cons.prems(2) by (simp add: it)
  from Cons.IH [OF sh(1) this] obtain ht' where ht':
    "htable_clear_hashes cs ?ht = Inr ht'" "ht_shape ht'" "nb_bkts ht' = nb_bkts ht"
    "el_per_bkt ht' = el_per_bkt ht" "ht_hlen ht' = ht_hlen ht" "ht_private ht' = ht_private ht"
    "\<forall>q. in_table ht q \<longrightarrow> zero_key (ht_key ht (ht_slot ht' q)) =
        (q \<in> set cs \<or> zero_key (ht_key ht (ht_slot ?ht q)))"
    by (auto simp: it)
  then show ?case using c(1) z by (auto simp: htable_clear_hash_def sh(2))
qed

lemma htable_clear_ok:
  assumes ok: "htable_ok ht els"
  shows "\<exists>ht'. htable_clear ht = Some (Inr ht') \<and> htable_ok ht' [] \<and> ht_hlen ht' = ht_hlen ht \<and>
           ht_private ht' = ht_private ht"
proof -
  note d = htable_okD [OF ok]
  have f: "foreach_htable_el ht = Some els"
    using dl_repr_foreach(1) [OF d(6)] by (simp add: foreach_htable_el_def)
  have "\<forall>r \<in> set els. in_table ht r" using d(7) by (simp add: in_table_def)
  from htable_clear_hashes_ok [OF htable_ok_shape [OF ok] this] obtain ht' where ht':
    "htable_clear_hashes els ht = Inr ht'" "ht_shape ht'" "nb_bkts ht' = nb_bkts ht"
    "el_per_bkt ht' = el_per_bkt ht" "ht_hlen ht' = ht_hlen ht" "ht_private ht' = ht_private ht"
    "\<forall>q. in_table ht q \<longrightarrow> zero_key (ht_key ht (ht_slot ht' q)) =
        (q \<in> set els \<or> zero_key (ht_key ht (ht_slot ht q)))" by blast
  let ?ht = "ht'\<lparr>ht_list := \<lparr>dl_first = None, dl_last = None\<rparr>\<rparr>"
  have "zero_key (ht_key ?ht (ht_slot ?ht q))" if "in_table ht q" for q
    using that ht'(5,7) d(7) [of q] by (auto simp: ht_key_def ht_slot_def in_table_def)
  then have "htable_ok ?ht []"
    using ht'(2-5) by (auto simp: htable_ok_def ht_shape_def in_table_def dl_repr_def)
  with f ht' show ?thesis by (simp add: htable_clear_def)
qed

lemma alloc_bkts_ok:
  "(\<And>j. i \<le> j \<Longrightarrow> j < i + n \<Longrightarrow> bmem j) \<Longrightarrow>
   alloc_bkts bmem epb n i = Inr (replicate n (replicate epb (replicate 64 0)))"
  by (induction n arbitrary: i) simp_all

lemma alloc_bkts_fail:
  "i \<le> j \<Longrightarrow> j < i + n \<Longrightarrow> \<not> bmem j \<Longrightarrow> alloc_bkts bmem epb n i = Inl ENOMEM"
proof (induction n arbitrary: i)
  case (Suc n)
  then show ?case using Suc.IH [of "Suc i"] by (cases "i = j") auto
qed simp

lemma alloc_htable_ok:
  assumes "\<forall>i < unat nb. bmem i" and "nb \<noteq> 0" and "hlen \<le> 64"
  shows "\<exists>ht. alloc_htable True bmem pr nb epb hlen = Inr ht \<and> htable_ok ht [] \<and> ht_hlen ht = hlen \<and>
           nb_bkts ht = nb \<and> el_per_bkt ht = epb \<and> ht_private ht = pr"
proof -
  have a: "alloc_bkts bmem (unat epb) (unat nb) 0 =
      Inr (replicate (unat nb) (replicate (unat epb) (replicate 64 0)))"
    using assms(1) by (intro alloc_bkts_ok) simp
  have z: "zero_key (take n (replicate 64 0))" for n by (simp add: zero_key_def list_all_iff)
  show ?thesis
    using assms(2,3) a z
    by (auto simp: alloc_htable_def htable_ok_def ht_key_def ht_slot_def dl_repr_def
        simp del: take_replicate)
qed

section \<open>The contract of a dictionary\<close>

text \<open>
  What the buffer table and the volume code rely on. \<open>key\<close> is the part of a hash that
  counts; \<open>None\<close> when it cannot be stored (all zero).
\<close>

locale dictionary =
  fixes find :: "'s \<Rightarrow> 'h \<Rightarrow> error + 'r"
    and find_add :: "'s \<Rightarrow> 'h \<Rightarrow> error + ('r \<times> bool \<times> 's)"
    and remove :: "'s \<Rightarrow> 'r \<Rightarrow> error + 's"
    and wf :: "'s \<Rightarrow> bool"
    and valid :: "'h \<Rightarrow> bool"
    and key :: "'s \<Rightarrow> 'h \<Rightarrow> 'k option"
    and abs :: "'s \<Rightarrow> 'k \<Rightarrow> 'r option"
  assumes find_key: "wf s \<Longrightarrow> valid h \<Longrightarrow> key s h = Some k \<Longrightarrow>
      find s h = (case abs s k of None \<Rightarrow> Inl (Errno ENOENT) | Some r \<Rightarrow> Inr r)"
    and find_add_old: "wf s \<Longrightarrow> valid h \<Longrightarrow> key s h = Some k \<Longrightarrow> abs s k = Some r \<Longrightarrow>
      find_add s h = Inr (r, False, s)"
    and find_add_new: "wf s \<Longrightarrow> valid h \<Longrightarrow> key s h = Some k \<Longrightarrow> abs s k = None \<Longrightarrow>
      find_add s h = Inl (Errno ENOBUFS) \<or>
      (\<exists>r s'. find_add s h = Inr (r, True, s') \<and> wf s' \<and> abs s' = (abs s)(k \<mapsto> r) \<and>
              key s' = key s \<and> r \<notin> ran (abs s))"
    and remove_ok: "wf s \<Longrightarrow> abs s k = Some r \<Longrightarrow>
      \<exists>s'. remove s r = Inr s' \<and> wf s' \<and> abs s' = (abs s)(k := None) \<and> key s' = key s"
    and injective: "wf s \<Longrightarrow> abs s k = Some r \<Longrightarrow> abs s k' = Some r \<Longrightarrow> k = k'"
begin

lemma find_add_find:
  assumes "wf s" "valid h" "key s h = Some k" "find_add s h = Inr (r, new, s')"
  shows "wf s' \<and> find s' h = Inr r \<and> key s' = key s \<and> (new \<longleftrightarrow> abs s k = None) \<and> abs s' k = Some r"
proof (cases "abs s k")
  case None
  with find_add_new [OF assms(1-3)] assms(4)
  have s': "new" "wf s'" "abs s' = (abs s)(k \<mapsto> r)" "key s' = key s" by auto
  with assms None find_key [of s' h k] show ?thesis by auto
next
  case (Some q)
  with find_add_old [OF assms(1-3) Some] find_key [OF assms(1-3)] assms show ?thesis by auto
qed

lemma find_add_other:
  assumes "wf s" "valid h" "key s h = Some k" "find_add s h = Inr (r, new, s')"
    and "valid g" "key s g = Some k'" "k' \<noteq> k"
  shows "find s' g = find s g"
proof (cases "abs s k")
  case None
  with find_add_new [OF assms(1-3)] assms(4)
  have s': "wf s'" "abs s' = (abs s)(k \<mapsto> r)" "key s' = key s" by auto
  then show ?thesis using assms find_key [of s' g k'] find_key [of s g k'] by simp
next
  case (Some q)
  with find_add_old [OF assms(1-3) Some] assms(4) show ?thesis by simp
qed

lemma add_remove:
  assumes "wf s" "valid h" "key s h = Some k" "abs s k = None" "find_add s h = Inr (r, new, s')"
  shows "\<exists>s''. remove s' r = Inr s'' \<and> wf s'' \<and> abs s'' = abs s \<and> find s'' h = Inl (Errno ENOENT)"
proof -
  from find_add_new [OF assms(1-4)] assms(5)
  have s': "wf s'" "abs s' = (abs s)(k \<mapsto> r)" "key s' = key s" by auto
  then have "abs s' k = Some r" by simp
  from remove_ok [OF s'(1) this] obtain s'' where s'': "remove s' r = Inr s''" "wf s''"
    "abs s'' = (abs s')(k := None)" "key s'' = key s'" by auto
  then have "abs s'' = abs s" using s'(2) assms(4) by auto
  moreover have "find s'' h = Inl (Errno ENOENT)"
    using find_key [of s'' h k] s'' s' assms by simp
  ultimately show ?thesis using s'' by blast
qed

end

definition ht_els :: "'a htable \<Rightarrow> elref list" where
  "ht_els ht = (case foreach_htable_el ht of None \<Rightarrow> [] | Some els \<Rightarrow> els)"

definition ht_wf :: "'a htable \<Rightarrow> bool" where
  "ht_wf ht \<longleftrightarrow> htable_ok ht (ht_els ht) \<and> distinct (ht_keys ht (ht_els ht))"

definition ht_dict :: "'a htable \<Rightarrow> u8 list \<Rightarrow> elref option" where
  "ht_dict ht = ht_abs ht (ht_els ht)"

definition ht_dict_key :: "'a htable \<Rightarrow> u8 list \<Rightarrow> u8 list option" where
  "ht_dict_key ht h = (if zero_key (ht_key ht h) then None else Some (ht_key ht h))"

definition hash_valid :: "u8 list \<Rightarrow> bool" where
  "hash_valid h \<longleftrightarrow> length h = 64"

lemma ht_els_eq: "htable_ok ht els \<Longrightarrow> ht_els ht = els"
  by (drule htable_okD(6), drule dl_repr_foreach(1)) (simp add: ht_els_def foreach_htable_el_def)

lemma ht_wfI: "htable_ok ht els \<Longrightarrow> distinct (ht_keys ht els) \<Longrightarrow> ht_wf ht \<and> ht_dict ht = ht_abs ht els"
  by (simp add: ht_wf_def ht_dict_def ht_els_eq)

lemma ht_dict_key_hlen: "ht_hlen ht' = ht_hlen ht \<Longrightarrow> ht_dict_key ht' = ht_dict_key ht"
  by (simp add: ht_dict_key_def ht_key_def fun_eq_iff)

interpretation hd: dictionary htable_lookup htable_lookup_add htable_rm ht_wf hash_valid ht_dict_key ht_dict
proof (unfold_locales, goal_cases)
  case (1 s h k)
  then show ?case
    using htable_lookup_eq [of s "ht_els s" h]
    by (auto simp: ht_wf_def hash_valid_def ht_dict_key_def ht_dict_def split: if_splits)
next
  case (2 s h k r)
  then show ?case
    using htable_lookup_add_eq [of s "ht_els s" h]
    by (auto simp: ht_wf_def hash_valid_def ht_dict_key_def ht_dict_def split: if_splits)
next
  case (3 s h k)
  then have w: "htable_ok s (ht_els s)" "distinct (ht_keys s (ht_els s))" "length h = 64"
    "\<not> zero_key (ht_key s h)" "k = ht_key s h" "ht_abs s (ht_els s) (ht_key s h) = None"
    by (auto simp: ht_wf_def hash_valid_def ht_dict_key_def ht_dict_def split: if_splits)
  from htable_lookup_add_eq [OF w(1-4)] w(6) consider "htable_lookup_add s h = Inl (Errno ENOBUFS)"
    | r s' where "htable_lookup_add s h = Inr (r, True, s')" "htable_ok s' (ht_els s @ [r])"
      "distinct (ht_keys s' (ht_els s @ [r]))" "ht_hlen s' = ht_hlen s"
      "ht_abs s' (ht_els s @ [r]) = (ht_abs s (ht_els s))(ht_key s h \<mapsto> r)" "r \<notin> set (ht_els s)"
    by auto
  then show ?case
  proof cases
    case 2
    then have "r \<notin> ran (ht_dict s)" by (auto simp: ran_def ht_dict_def ht_abs_Some [OF w(2)])
    moreover have "ht_wf s'" "ht_dict s' = (ht_dict s)(k \<mapsto> r)"
      using ht_wfI [OF 2(2,3)] 2(5) w(5) by (simp_all add: ht_dict_def)
    moreover have "ht_dict_key s' = ht_dict_key s" by (rule ht_dict_key_hlen [OF 2(4)])
    ultimately show ?thesis using 2(1) by blast
  qed simp
next
  case (4 s k r)
  then have w: "htable_ok s (ht_els s)" "distinct (ht_keys s (ht_els s))" by (simp_all add: ht_wf_def)
  have r: "r \<in> set (ht_els s)" "ht_key s (ht_slot s r) = k"
    using 4(2) by (simp_all add: ht_dict_def ht_abs_Some [OF w(2)])
  from htable_rm_ok [OF w r(1)] obtain s' where s': "htable_rm s r = Inr s'" "htable_ok s' (remove1 r (ht_els s))"
    "distinct (ht_keys s' (remove1 r (ht_els s)))" "ht_hlen s' = ht_hlen s"
    "ht_abs s' (remove1 r (ht_els s)) = (ht_abs s (ht_els s))(k := None)" using r(2) by auto
  have "ht_wf s'" "ht_dict s' = (ht_dict s)(k := None)"
    using ht_wfI [OF s'(2,3)] s'(5) by (simp_all add: ht_dict_def)
  moreover have "ht_dict_key s' = ht_dict_key s" by (rule ht_dict_key_hlen [OF s'(4)])
  ultimately show ?case using s'(1) by blast
next
  case (5 s k r k')
  then have w: "distinct (ht_keys s (ht_els s))" by (simp add: ht_wf_def)
  from 5 show ?case by (auto simp: ht_dict_def ht_abs_Some [OF w])
qed


section \<open>Properties\<close>

definition sample_htable :: "unit htable" where
  "sample_htable = \<lparr>nb_bkts = 2, el_per_bkt = 2, ht_hlen = 8,
     ht_list = \<lparr>dl_first = Some (1, 0), dl_last = Some (1, 0)\<rparr>,
     ht_links = (\<lambda>_. \<lparr>dl_next = None, dl_prev = None\<rparr>),
     ht_bkts = [[replicate 64 0, replicate 64 0], [replicate 8 1 @ replicate 56 0, replicate 64 0]],
     ht_private = (\<lambda>_. ())\<rparr>"

lemma sample_htable_bkt: "htable_bkt_no (replicate 8 1 @ replicate 56 0) 8 2 = Inr 1"
  by code_simp

lemma sample_htable_ok: "htable_ok sample_htable [(1, 0)]"
proof -
  have "(q = (1, 0)) = (fst q < 2 \<and> snd q < 2 \<and>
      \<not> zero_key (ht_key sample_htable (ht_slot sample_htable q)))" for q
  proof -
    have "fst q < 2 \<and> snd q < 2 \<Longrightarrow> q \<in> {(0, 0), (0, 1), (1, 0), (1, 1)}" by (cases q) auto
    then show ?thesis
      by (cases "fst q < 2 \<and> snd q < 2")
         (auto simp: zero_key_def ht_key_def ht_slot_def sample_htable_def list_all_iff)
  qed
  then show ?thesis
    unfolding htable_ok_def
    using sample_htable_bkt
    by (simp add: sample_htable_def ht_slot_def dl_repr_def less_2_cases_iff all_conj_distrib)
qed

lemma sample_htable_wf: "ht_wf sample_htable"
  using ht_wfI [OF sample_htable_ok] by (simp add: ht_keys_def)

text \<open>
  C7: on a well-formed table a successful \<open>htable_lookup_add\<close> leaves a well-formed table in
  which the hash is found as the element returned; the element is new exactly when the hash
  was not there before, all other hashes are found as before, and removing a new element
  gives the old dictionary back.
\<close>

theorem htable_lookup_add_dictionary:
  assumes wf: "ht_wf ht" and h: "hash_valid h" and nz: "\<not> zero_key (ht_key ht h)"
    and add: "htable_lookup_add ht h = Inr (r, new, ht')"
  shows "ht_wf ht' \<and> htable_lookup ht' h = Inr r \<and>
         (new \<longleftrightarrow> htable_lookup ht h = Inl (Errno ENOENT)) \<and>
         (\<forall>g. hash_valid g \<and> \<not> zero_key (ht_key ht g) \<and> ht_key ht g \<noteq> ht_key ht h \<longrightarrow>
            htable_lookup ht' g = htable_lookup ht g) \<and>
         (new \<longrightarrow> (\<exists>ht''. htable_rm ht' r = Inr ht'' \<and> ht_wf ht'' \<and> ht_dict ht'' = ht_dict ht))"
proof -
  have k: "ht_dict_key ht h = Some (ht_key ht h)" using nz by (simp add: ht_dict_key_def)
  note f = hd.find_add_find [OF wf h k add]
  have n: "new \<longleftrightarrow> htable_lookup ht h = Inl (Errno ENOENT)"
    using f hd.find_key [OF wf h k] by (auto split: option.splits)
  moreover have "htable_lookup ht' g = htable_lookup ht g"
    if "hash_valid g" "\<not> zero_key (ht_key ht g)" "ht_key ht g \<noteq> ht_key ht h" for g
    using hd.find_add_other [OF wf h k add that(1) _ that(3)] that(2) by (simp add: ht_dict_key_def)
  moreover have "new \<Longrightarrow> \<exists>ht''. htable_rm ht' r = Inr ht'' \<and> ht_wf ht'' \<and> ht_dict ht'' = ht_dict ht"
    using hd.add_remove [OF wf h k _ add] f by auto
  ultimately show ?thesis using f by blast
qed

lemma sample_lookup_add:
  "\<exists>ht'. htable_lookup_add sample_htable (replicate 64 3) = Inr ((1, 1), True, ht')"
proof -
  have b: "htable_home sample_htable (replicate 64 3) = Inr (1, ht_bkts sample_htable ! 1)" by code_simp
  have s: "bkt_search2 8 (replicate 64 3) (ht_bkts sample_htable ! 1) 0 None = Inr (Inr (Some 1))"
    by code_simp
  have hl: "ht_hlen sample_htable = 8" by (simp add: sample_htable_def)
  have "\<exists>h'. hash_copy (ht_slot sample_htable (1, 1)) (replicate 64 3) 8 = Inr h'"
    by (subst hash_copy_eq [where n = 64]) (simp_all add: ht_slot_def sample_htable_def)
  then show ?thesis
    by (simp only: htable_lookup_add_def b s hl htable_store_def sum.case prod.case option.case) auto
qed

theorem htable_lookup_add_dictionary_witness:
  "\<exists>ht'. htable_lookup_add sample_htable (replicate 64 3) = Inr ((1, 1), True, ht') \<and>
     htable_lookup ht' (replicate 64 3) = Inr (1, 1)"
proof -
  have nz: "\<not> zero_key (ht_key sample_htable (replicate 64 3))"
    by (simp add: zero_key_def ht_key_def sample_htable_def list_all_iff)
  obtain ht' where a: "htable_lookup_add sample_htable (replicate 64 3) = Inr ((1, 1), True, ht')"
    using sample_lookup_add by blast
  have "hash_valid (replicate 64 3)" by (simp add: hash_valid_def)
  from htable_lookup_add_dictionary [OF sample_htable_wf this nz a] a show ?thesis by blast
qed

text \<open>
  \<open>htable_clear\<close> ends, and afterwards the element list is empty and no hash is found;
  the private areas are untouched.
\<close>

theorem htable_clear_empties:
  assumes "ht_wf ht"
  shows "\<exists>ht'. htable_clear ht = Some (Inr ht') \<and> ht_wf ht' \<and> foreach_htable_el ht' = Some [] \<and>
           ht_private ht' = ht_private ht \<and>
           (\<forall>h. hash_valid h \<longrightarrow> htable_lookup ht' h =
              Inl (Errno (if zero_key (ht_key ht h) then EINVAL else ENOENT)))"
proof -
  have ok: "htable_ok ht (ht_els ht)" using assms by (simp add: ht_wf_def)
  from htable_clear_ok [OF ok] obtain ht' where ht': "htable_clear ht = Some (Inr ht')" "htable_ok ht' []"
    "ht_hlen ht' = ht_hlen ht" "ht_private ht' = ht_private ht" by blast
  have d: "distinct (ht_keys ht' [])" by (simp add: ht_keys_def)
  have "htable_lookup ht' h = Inl (Errno (if zero_key (ht_key ht h) then EINVAL else ENOENT))"
    if "hash_valid h" for h
    using htable_lookup_eq [OF ht'(2) d] that ht'(3) by (simp add: hash_valid_def ht_abs_def ht_key_def)
  moreover have "foreach_htable_el ht' = Some []"
    using dl_repr_foreach(1) [OF htable_okD(6) [OF ht'(2)]] by (simp add: foreach_htable_el_def)
  ultimately show ?thesis using ht' ht_wfI [OF ht'(2) d] by blast
qed

theorem htable_clear_empties_witness:
  "\<exists>ht'. htable_clear sample_htable = Some (Inr ht') \<and> foreach_htable_el ht' = Some []"
  using htable_clear_empties [OF sample_htable_wf] by blast

text \<open>
  Picking an element by its total index is right inside the table, but the bound test
  \<open>bkt_idx > nb_bkts\<close> lets one bucket too many pass: every index of the first bucket beyond
  the table reads the bucket array out of bounds instead of returning \<open>ERANGE\<close>.
\<close>

theorem htable_pick_bound:
  assumes ok: "ht_wf ht" and b: "b \<le> unat (nb_bkts ht)" and i: "i < unat (el_per_bkt ht)"
  shows "htable_pick ht (of_nat (b * unat (el_per_bkt ht) + i)) =
         (if b = unat (nb_bkts ht) then Inl (Fault Out_of_bounds)
          else if zero_key (ht_key ht (ht_slot ht (b, i))) then Inl (Errno ENOENT) else Inr (b, i))"
proof -
  let ?e = "unat (el_per_bkt ht)" and ?n = "unat (nb_bkts ht)"
  define w where "w = (of_nat (b * ?e + i) :: u64)"
  note d = htable_okD [OF ok [unfolded ht_wf_def, THEN conjunct1]]
  have n: "?n < 2 ^ 32" and e: "?e < 2 ^ 32" by (rule order_less_le_trans [OF unsigned_less], simp)+
  have "b * ?e \<le> (2 ^ 32 - 1) * (2 ^ 32 - 1)" using b n e by (intro mult_mono) simp_all
  then have "b * ?e + i < 2 ^ 64" using i e by simp
  then have x: "unat w = b * ?e + i" unfolding w_def by (intro unat_of_nat_less) simp
  have ce: "unat (ucast (el_per_bkt ht) :: u64) = ?e"
    by (simp add: unsigned_ucast_eq) (rule take_bit_nat_eq_self, use e in simp)
  have "unat (w div ucast (el_per_bkt ht)) = b" using i by (simp add: unat_div x ce)
  then have q: "unat (ucast (w div ucast (el_per_bkt ht)) :: u32) = b"
    by (simp add: unsigned_ucast_eq) (rule take_bit_nat_eq_self, use b n in simp)
  have "unat (w mod ucast (el_per_bkt ht)) = i" using i by (simp add: unat_mod x ce)
  then have r: "unat (ucast (w mod ucast (el_per_bkt ht)) :: u32) = i"
    by (simp add: unsigned_ucast_eq) (rule take_bit_nat_eq_self, use i e in simp)
  have z: "el_per_bkt ht \<noteq> 0" using i by auto
  have lt: "\<not> nb_bkts ht < ucast (w div ucast (el_per_bkt ht))"
    using b q by (simp add: word_less_nat_alt)
  show ?thesis
  proof (cases "b = ?n")
    case True
    then show ?thesis using z lt d(3) unfolding htable_pick_def w_def [symmetric] Let_def q r by (simp add: htable_bkt_def)
  next
    case False
    then have bn: "b < ?n" using b by simp
    have "hash_is_zero (ht_bkts ht ! b ! i) (ht_hlen ht) = Inr (zero_key (ht_key ht (ht_slot ht (b, i))))"
      using hash_ops_key(1) [OF d(2) d(5) [OF bn i]] by (simp add: ht_slot_def ht_key_def)
    then show ?thesis using z lt d(3) bn False unfolding htable_pick_def w_def [symmetric] Let_def q r
      by (simp add: htable_bkt_def split: bool.split)
  qed
qed

theorem htable_pick_bound_witness:
  "htable_pick sample_htable 2 = Inr (1, 0) \<and> htable_pick sample_htable 4 = Inl (Fault Out_of_bounds)"
proof -
  have nz: "\<not> zero_key (ht_key sample_htable (ht_slot sample_htable (1, 0)))"
    using sample_htable_ok by (simp add: htable_ok_def del: split_paired_All) blast
  show ?thesis
    using htable_pick_bound [OF sample_htable_wf, of 1 0] htable_pick_bound [OF sample_htable_wf, of 2 0] nz
    by (simp add: sample_htable_def)
qed

text \<open>
  The bucket number is below the number of buckets, and it depends on at most the first
  four bytes of the hash: for hash lengths of 5 bytes and more the comments announce 5 to 8
  bytes, but the value is kept in 32 bits.
\<close>

theorem htable_bkt_no_four_bytes:
  assumes "length h = 64" and "length g = 64" and "take 4 h = take 4 g" and "nb \<noteq> 0"
  shows "htable_bkt_no h hlen nb = htable_bkt_no g hlen nb \<and>
         (\<exists>b. htable_bkt_no h hlen nb = Inr b \<and> b < nb)"
proof -
  have "take (min 4 (unat hlen)) h = take (min 4 (unat hlen)) g"
    using arg_cong [OF assms(3), of "take (unat hlen)"] by (simp add: min.commute)
  moreover obtain b where "htable_bkt_no h hlen nb = Inr b" "unat b < unat nb"
    using htable_bkt_no_range [OF assms(4), of h hlen] assms(1) by auto
  ultimately show ?thesis using assms by (auto simp: htable_bkt_no_low word_less_nat_alt)
qed

theorem htable_bkt_no_four_bytes_witness:
  "htable_bkt_no (replicate 4 9 @ replicate 60 1) 20 7 = htable_bkt_no (replicate 4 9 @ replicate 60 2) 20 7"
  using htable_bkt_no_four_bytes [of "replicate 4 9 @ replicate 60 1" "replicate 4 9 @ replicate 60 2" 7 20]
  by simp

end
