(* ===== verification/Btable.thy ===== *)
theory Btable
  imports Prelude Htable
begin

text \<open>
  The bucket-entry table of a mounted volume (\<open>shfs/shfs_btable.h\<close>): a hash table whose
  private areas are \<open>shfs_bentry\<close> structs, one for each entry of the volume's hash table.
  Besides lookup, insertion and removal it has \<open>shfs_btable_feed\<close>, which (re)loads the entry
  at a given index while a volume is mounted or remounted.
\<close>

section \<open>State\<close>

text \<open>
  The fields of the kernel variant; the semaphore \<open>updatelock\<close> is its count, \<open>hentry\<close> and
  \<open>cookie\<close> are pointers.
\<close>

record shfs_bentry =
  hentry_htchunk :: u64
  hentry_htoffset :: u64
  be_hentry :: "addr option"
  refcount :: u32
  updatelock :: int
  be_update :: bool
  be_cookie :: "addr option"

type_synonym btable = "shfs_bentry htable"

section \<open>Operations\<close>

definition shfs_alloc_btable ::
    "bool \<Rightarrow> (nat \<Rightarrow> bool) \<Rightarrow> u32 \<Rightarrow> u32 \<Rightarrow> u8 \<Rightarrow> errno + btable" where
  "shfs_alloc_btable mem bmem nb epb hlen =
     alloc_htable mem bmem
       (\<lambda>_. \<lparr>hentry_htchunk = 0, hentry_htoffset = 0, be_hentry = None, refcount = 0,
             updatelock = 0, be_update = False, be_cookie = None\<rparr>) nb epb hlen"

definition shfs_btable_lookup :: "'a htable \<Rightarrow> u8 list \<Rightarrow> error + elref" where
  "shfs_btable_lookup bt h = htable_lookup bt h"

definition shfs_btable_addentry :: "'a htable \<Rightarrow> u8 list \<Rightarrow> error + (elref \<times> 'a htable)" where
  "shfs_btable_addentry bt h = htable_add bt h"

text \<open>A hash that is not found is ignored; only a fault is passed on.\<close>

definition shfs_btable_rmentry :: "'a htable \<Rightarrow> u8 list \<Rightarrow> error + 'a htable" where
  "shfs_btable_rmentry bt h =
     (case htable_lookup bt h of
        Inl (Errno _) \<Rightarrow> Inr bt
      | Inl (Fault f) \<Rightarrow> Inl (Fault f)
      | Inr el \<Rightarrow> htable_rm bt el)"

definition shfs_btable_feed :: "'a htable \<Rightarrow> u64 \<Rightarrow> u8 list \<Rightarrow> error + (elref \<times> 'a htable)" where
  "shfs_btable_feed bt ent_idx h =
     (if el_per_bkt bt = 0 then Inl (Fault Div_by_zero)
      else let bkt_idx = ucast (ent_idx div ucast (el_per_bkt bt)) :: u32;
               el_idx_bkt = ucast (ent_idx mod ucast (el_per_bkt bt)) :: u32
      in if \<not> bkt_idx < nb_bkts bt then Inl (Fault Assert_failed)
      else let el = (unat bkt_idx, unat el_idx_bkt)
      in case hash_is_zero (ht_slot bt el) (ht_hlen bt) of
           Inl f \<Rightarrow> Inl (Fault f)
         | Inr z \<Rightarrow>
             let bt = (if \<not> z then htable_unlink el bt else bt)
             in case hash_copy (ht_slot bt el) h (ht_hlen bt) of
                  Inl f \<Rightarrow> Inl (Fault f)
                | Inr h' \<Rightarrow>
                    let bt = ht_set_slot el h' bt
                    in case hash_is_zero h (ht_hlen bt) of
                         Inl f \<Rightarrow> Inl (Fault f)
                       | Inr z \<Rightarrow> Inr (el, if \<not> z then htable_link el bt else bt))"

section \<open>Feeding the table\<close>

text \<open>The index computations for an entry inside the table.\<close>

lemma feed_index:
  fixes w :: u64 and epb :: u32
  assumes w: "unat w = b * unat epb + i" and i: "i < unat epb" and b: "b < 2 ^ 32"
  shows "unat (ucast (w div ucast epb) :: u32) = b" and "unat (ucast (w mod ucast epb) :: u32) = i"
proof -
  have e: "unat epb < 2 ^ 32" by (rule order_less_le_trans [OF unsigned_less]) simp
  have ce: "unat (ucast epb :: u64) = unat epb"
    by (simp add: unsigned_ucast_eq) (rule take_bit_nat_eq_self, use e in simp)
  have "unat (w div ucast epb) = b" using i by (simp add: unat_div w ce)
  then show "unat (ucast (w div ucast epb) :: u32) = b"
    by (simp add: unsigned_ucast_eq) (rule take_bit_nat_eq_self, use b in simp)
  have "unat (w mod ucast epb) = i" using i by (simp add: unat_mod w ce)
  then show "unat (ucast (w mod ucast epb) :: u32) = i"
    by (simp add: unsigned_ucast_eq) (rule take_bit_nat_eq_self, use i e in simp)
qed

lemma hash_copy_key:
  assumes "length x = 64" and "length h = 64" and "unat hlen \<le> 64"
  shows "\<exists>h'. hash_copy x h hlen = Inr h' \<and> length h' = 64 \<and> take (unat hlen) h' = take (unat hlen) h"
proof -
  from hash_copy_eq [OF assms(1,2) _ assms(3)] have
    "hash_copy x h hlen = Inr (take (unat hlen) h @ replicate ((8 - unat hlen mod 8) mod 8) 0 @
       drop (unat hlen + (8 - unat hlen mod 8) mod 8) x)" by simp
  then show ?thesis using assms pad_le_64 [OF assms(3)] by simp
qed

text \<open>The element list after feeding slot \<open>r\<close> with a zero or non-zero hash.\<close>

definition feed_els :: "elref list \<Rightarrow> elref \<Rightarrow> bool \<Rightarrow> elref list" where
  "feed_els els r z = (if z then remove1 r els else remove1 r els @ [r])"

lemma set_slot_unlink: "ht_bkts (ht_set_slot r h (htable_unlink q ht)) = ht_bkts (ht_set_slot r h ht)"
  by (simp add: ht_set_slot_def)

lemma feed_links:
  assumes ok: "htable_ok ht els" and rng: "in_table ht r" and h: "length h' = 64"
    and z: "zero_key (ht_key ht h') = z"
    and home: "\<not> z \<Longrightarrow> htable_bkt_no h' (ht_hlen ht) (nb_bkts ht) = Inr (of_nat (fst r))"
  defines "u \<equiv> (if r \<in> set els then htable_unlink r ht else ht)"
  defines "s \<equiv> ht_set_slot r h' u"
  shows "htable_ok (if \<not> z then htable_link r s else s) (feed_els els r z)"
proof -
  note d = htable_okD [OF ok]
  have ds: "distinct els" by (rule dl_repr_distinct [OF d(6)])
  have u: "dl_repr (ht_links u) (ht_list u) (remove1 r els)"
    using htable_unlink_list [OF d(6)] d(6) by (simp add: u_def remove1_idem)
  have ssimps: "ht_links s = ht_links u" "ht_list s = ht_list u" by (simp_all add: s_def)
  have out: "r \<notin> set (remove1 r els)" using ds by simp
  have "dl_repr (ht_links (htable_link r s)) (ht_list (htable_link r s)) (remove1 r els @ [r])"
    using u out by (intro htable_link_list) (simp_all add: ssimps)
  then have lst: "dl_repr (ht_links (if \<not> z then htable_link r s else s))
      (ht_list (if \<not> z then htable_link r s else s)) (feed_els els r z)"
    using u by (simp add: feed_els_def ssimps)
  show ?thesis
    using rng ds z home
    by (intro htable_ok_update [OF ok _ _ h lst])
       (auto simp: set_slot_unlink in_table_def feed_els_def s_def u_def)
qed

text \<open>One call of \<open>shfs_btable_feed\<close>, with what it leaves alone.\<close>

lemma btable_feed_step:
  assumes ok: "htable_ok bt els" and h: "length h = 64" and i: "i < unat (el_per_bkt bt)"
    and b: "b < 2 ^ 32" and w: "unat ent_idx = b * unat (el_per_bkt bt) + i"
    and home: "\<not> zero_key (ht_key bt h) \<Longrightarrow>
      htable_bkt_no h (ht_hlen bt) (nb_bkts bt) = Inr (of_nat b)"
  shows "if b < unat (nb_bkts bt)
         then \<exists>bt'. shfs_btable_feed bt ent_idx h = Inr ((b, i), bt') \<and>
                htable_ok bt' (feed_els els (b, i) (zero_key (ht_key bt h))) \<and>
                foreach_htable_el bt' = Some (feed_els els (b, i) (zero_key (ht_key bt h))) \<and>
                ht_key bt' (ht_slot bt' (b, i)) = ht_key bt h \<and> ht_private bt' = ht_private bt \<and>
                nb_bkts bt' = nb_bkts bt \<and> el_per_bkt bt' = el_per_bkt bt \<and> ht_hlen bt' = ht_hlen bt \<and>
                (\<forall>q. q \<noteq> (b, i) \<longrightarrow> ht_slot bt' q = ht_slot bt q)
         else shfs_btable_feed bt ent_idx h = Inl (Fault Assert_failed)"
proof -
  note d = htable_okD [OF ok]
  note idx = feed_index [OF w i b]
  have z: "el_per_bkt bt \<noteq> 0" using i by auto
  have lt: "ucast (ent_idx div ucast (el_per_bkt bt)) < nb_bkts bt \<longleftrightarrow> b < unat (nb_bkts bt)"
    by (simp add: word_less_nat_alt idx)
  show ?thesis
  proof (cases "b < unat (nb_bkts bt)")
    case False
    then show ?thesis using z lt by (simp add: shfs_btable_feed_def Let_def)
  next
    case True
    let ?r = "(b, i)" and ?z = "zero_key (ht_key bt h)"
    have rng: "in_table bt ?r" using True i by (simp add: in_table_def)
    have l64: "length (ht_slot bt ?r) = 64" using d(5) True i by simp
    obtain h' where c: "hash_copy (ht_slot bt ?r) h (ht_hlen bt) = Inr h'" "length h' = 64"
      and k: "take (unat (ht_hlen bt)) h' = take (unat (ht_hlen bt)) h"
      using hash_copy_key [OF l64 h d(2)] by blast
    have z': "zero_key (ht_key bt h') = ?z" using k by (simp add: ht_key_def)
    have home': "htable_bkt_no h' (ht_hlen bt) (nb_bkts bt) = Inr (of_nat (fst ?r))" if "\<not> ?z"
      using home [OF that] htable_bkt_no_key [OF c(2) h k] by simp
    let ?u = "if ?r \<in> set els then htable_unlink ?r bt else bt"
    let ?s = "ht_set_slot ?r h' ?u"
    let ?bt = "if \<not> ?z then htable_link ?r ?s else ?s"
    have used: "hash_is_zero (ht_slot bt ?r) (ht_hlen bt) = Inr (?r \<notin> set els)"
      using hash_ops_key(1) [OF d(2) l64] True i by (simp add: d(7) ht_key_def)
    have zh: "hash_is_zero h (ht_hlen bt) = Inr ?z"
      using hash_ops_key(1) [OF d(2) h] by (simp add: ht_key_def)
    have feed: "shfs_btable_feed bt ent_idx h = Inr (?r, ?bt)"
      using z lt True used c(1) zh by (simp add: shfs_btable_feed_def Let_def idx)
    have ok': "htable_ok ?bt (feed_els els ?r ?z)" by (rule feed_links [OF ok rng c(2) z' home'])
    have sl: "ht_slot ?s ?r = h'"
      using ht_slot_set [of ?r ?u h' ?r] True i d(3,4) by simp
    have "ht_key ?bt (ht_slot ?bt ?r) = ht_key bt h" using sl k by (simp add: ht_key_def)
    moreover have "foreach_htable_el ?bt = Some (feed_els els ?r ?z)"
      using dl_repr_foreach(1) [OF htable_okD(6) [OF ok']] by (simp add: foreach_htable_el_def)
    moreover have "ht_private ?bt = ht_private bt" by simp
    moreover have "ht_slot ?bt q = ht_slot bt q" if "q \<noteq> ?r" for q
      using ht_slot_set [of ?r ?u h' q] True i d(3,4) that by (auto simp: ht_slot_def)
    ultimately show ?thesis using feed ok' True by auto
  qed
qed

text \<open>
  C27: feeding the entry at index \<open>b * el_per_bkt + i\<close> with a hash whose home is bucket \<open>b\<close>
  keeps the table well formed: the slot then holds exactly that key, an entry that was there
  leaves the element list, and a non-zero new entry joins it at the end, so the list always
  is the used slots in the order they were last fed. Outside the table the \<open>ASSERT\<close> stops it.
\<close>

theorem shfs_btable_feed_ok:
  assumes ok: "htable_ok bt els" and h: "length h = 64" and i: "i < unat (el_per_bkt bt)"
    and b: "b < 2 ^ 32" and w: "unat ent_idx = b * unat (el_per_bkt bt) + i"
    and home: "\<not> zero_key (ht_key bt h) \<Longrightarrow>
      htable_bkt_no h (ht_hlen bt) (nb_bkts bt) = Inr (of_nat b)"
  shows "if b < unat (nb_bkts bt)
         then \<exists>bt'. shfs_btable_feed bt ent_idx h = Inr ((b, i), bt') \<and>
                htable_ok bt' (feed_els els (b, i) (zero_key (ht_key bt h))) \<and>
                foreach_htable_el bt' = Some (feed_els els (b, i) (zero_key (ht_key bt h))) \<and>
                ht_key bt' (ht_slot bt' (b, i)) = ht_key bt h \<and> ht_private bt' = ht_private bt
         else shfs_btable_feed bt ent_idx h = Inl (Fault Assert_failed)"
  using btable_feed_step [OF ok h i b w home] by (auto split: if_splits)

theorem shfs_btable_feed_ok_witness:
  "\<exists>bt'. shfs_btable_feed sample_htable 2 (replicate 64 0) = Inr ((1, 0), bt') \<and>
         foreach_htable_el bt' = Some [] \<and>
   shfs_btable_feed sample_htable 4 (replicate 64 0) = Inl (Fault Assert_failed)"
proof -
  have z: "zero_key (ht_key sample_htable (replicate 64 0))"
    by (simp add: zero_key_def ht_key_def list_all_iff)
  have e: "unat (el_per_bkt sample_htable) = 2" "unat (nb_bkts sample_htable) = 2"
    by (simp_all add: sample_htable_def)
  show ?thesis
    using shfs_btable_feed_ok [OF sample_htable_ok, of "replicate 64 0" 0 1 2]
      shfs_btable_feed_ok [OF sample_htable_ok, of "replicate 64 0" 0 2 4] z
    by (auto simp: e feed_els_def)
qed

text \<open>
  After \<open>shfs_btable_rmentry\<close> the hash is not found, every other hash is found as before,
  and a hash that was not in the table leaves the table unchanged.
\<close>

theorem shfs_btable_rmentry_removes:
  assumes wf: "ht_wf bt" and h: "hash_valid h" and nz: "\<not> zero_key (ht_key bt h)"
  shows "\<exists>bt'. shfs_btable_rmentry bt h = Inr bt' \<and> ht_wf bt' \<and>
           shfs_btable_lookup bt' h = Inl (Errno ENOENT) \<and>
           (\<forall>g. hash_valid g \<and> \<not> zero_key (ht_key bt g) \<and> ht_key bt g \<noteq> ht_key bt h \<longrightarrow>
              shfs_btable_lookup bt' g = shfs_btable_lookup bt g) \<and>
           (shfs_btable_lookup bt h = Inl (Errno ENOENT) \<longrightarrow> bt' = bt)"
proof -
  have k: "ht_dict_key bt h = Some (ht_key bt h)" using nz by (simp add: ht_dict_key_def)
  show ?thesis
  proof (cases "ht_dict bt (ht_key bt h)")
    case None
    with hd.find_key [OF wf h k] wf show ?thesis
      by (simp add: shfs_btable_rmentry_def shfs_btable_lookup_def)
  next
    case (Some r)
    from hd.remove_ok [OF wf Some] obtain bt' where bt': "htable_rm bt r = Inr bt'" "ht_wf bt'"
      "ht_dict bt' = (ht_dict bt)(ht_key bt h := None)" "ht_dict_key bt' = ht_dict_key bt" by blast
    have "htable_lookup bt h = Inr r" using hd.find_key [OF wf h k] Some by simp
    moreover have "htable_lookup bt' h = Inl (Errno ENOENT)"
      using hd.find_key [OF bt'(2) h, of "ht_key bt h"] bt'(3,4) k by simp
    moreover have "htable_lookup bt' g = htable_lookup bt g"
      if "hash_valid g" "\<not> zero_key (ht_key bt g)" "ht_key bt g \<noteq> ht_key bt h" for g
    proof -
      have "ht_dict_key bt g = Some (ht_key bt g)" using that(2) by (simp add: ht_dict_key_def)
      then show ?thesis
        using hd.find_key [OF bt'(2) that(1), of "ht_key bt g"] hd.find_key [OF wf that(1)] bt'(3,4) that(3)
        by simp
    qed
    ultimately show ?thesis
      using bt' by (auto simp: shfs_btable_rmentry_def shfs_btable_lookup_def)
  qed
qed

theorem shfs_btable_rmentry_removes_witness:
  "\<exists>bt'. shfs_btable_rmentry sample_htable (replicate 64 1) = Inr bt' \<and>
     shfs_btable_lookup bt' (replicate 64 1) = Inl (Errno ENOENT)"
proof -
  have "\<not> zero_key (ht_key sample_htable (replicate 64 1))"
    by (simp add: zero_key_def ht_key_def sample_htable_def list_all_iff)
  then show ?thesis
    using shfs_btable_rmentry_removes [OF sample_htable_wf, of "replicate 64 1"]
    by (auto simp: hash_valid_def)
qed

end
