(* ===== verification/Alist.thy ===== *)
theory Alist
  imports Prelude DList "HOL-Library.Multiset"
begin

text \<open>
  The allocator of chunk areas used by the administration tools
  (\<open>shfs/shfs-tools/shfs_alloc.c\<close>): a doubly linked list of allocated areas
  \<open>[start, end)\<close>, kept in the order of their start, and the search for a free area.

  The list nodes live at addresses; \<open>al_links\<close> are their \<open>next\<close> and \<open>prev\<close> pointers and
  \<open>al_area\<close> their \<open>start\<close> and \<open>end\<close>. The loops follow \<open>next\<close>, so they work on the elements
  that \<open>dlist_foreach\<close> visits. \<open>chk_t\<close> is a 64-bit word, and so is every difference.
\<close>

section \<open>State\<close>

abbreviation SALLOC_FIRSTFIT :: u8 where "SALLOC_FIRSTFIT \<equiv> 0"
abbreviation SALLOC_BESTFIT :: u8 where "SALLOC_BESTFIT \<equiv> 1"

record shfs_aentry =
  ae_start :: u64
  ae_end :: u64

record shfs_alist =
  al_end :: u64
  al_count :: u32
  al_allocator :: u8
  al_head :: "addr dlist_head"
  al_links :: "addr links"
  al_area :: "addr \<Rightarrow> shfs_aentry"

section \<open>Operations\<close>

definition shfs_alloc_alist ::
    "bool \<Rightarrow> (addr \<Rightarrow> shfs_aentry) \<Rightarrow> (addr links) \<Rightarrow> u64 \<Rightarrow> u8 \<Rightarrow> errno + shfs_alist" where
  "shfs_alloc_alist mem areas links area_size allocator =
     (if allocator \<noteq> SALLOC_FIRSTFIT \<and> allocator \<noteq> SALLOC_BESTFIT then Inl ENOTSUP
      else if \<not> mem then Inl ENOMEM
      else Inr \<lparr>al_end = area_size, al_count = 0, al_allocator = allocator,
                al_head = \<lparr>dl_first = None, dl_last = None\<rparr>, al_links = links, al_area = areas\<rparr>)"

text \<open>The search loop of \<open>shfs_alist_register\<close>: the locals \<open>prev\<close> and \<open>next\<close> at its end.\<close>

fun alist_place ::
    "(addr \<Rightarrow> shfs_aentry) \<Rightarrow> u64 \<Rightarrow> addr option \<Rightarrow> addr list \<Rightarrow> addr option \<times> addr option" where
  "alist_place areas start prev [] = (prev, None)"
| "alist_place areas start prev (e # es) =
     (if ae_start (areas e) \<le> start then alist_place areas start (Some e) es else (prev, Some e))"

definition alist_link ::
    "addr \<Rightarrow> addr option \<Rightarrow> addr option \<Rightarrow> addr dlist_head \<times> addr links \<Rightarrow>
     addr dlist_head \<times> addr links" where
  "alist_link new prev nxt s =
     (let (h, L) = s;
          L = L(new := (L new)\<lparr>dl_prev := prev\<rparr>);
          L = L(new := (L new)\<lparr>dl_next := nxt\<rparr>);
          (h, L) = (case prev of
                      Some p \<Rightarrow> (h, L(p := (L p)\<lparr>dl_next := Some new\<rparr>))
                    | None \<Rightarrow> (h\<lparr>dl_first := Some new\<rparr>, L))
      in (case nxt of
            Some n \<Rightarrow> (h, L(n := (L n)\<lparr>dl_prev := Some new\<rparr>))
          | None \<Rightarrow> (h\<lparr>dl_last := Some new\<rparr>, L)))"

text \<open>
  \<open>shfs_alist_register\<close>: \<open>mem\<close> is what \<open>malloc\<close> returns. The outer \<open>None\<close> is a loop that
  does not end.
\<close>

definition shfs_alist_register ::
    "addr option \<Rightarrow> shfs_alist \<Rightarrow> u64 \<Rightarrow> u64 \<Rightarrow> (errno + shfs_alist) option" where
  "shfs_alist_register mem al start len =
     (case mem of
        None \<Rightarrow> Some (Inl ENOMEM)
      | Some new \<Rightarrow>
          let al = al\<lparr>al_area := (al_area al)(new := \<lparr>ae_start = start, ae_end = start + len\<rparr>)\<rparr>
          in if dl_first (al_head al) = None
             then Some (Inr (al\<lparr>al_head := \<lparr>dl_first = Some new, dl_last = Some new\<rparr>,
                    al_links := (al_links al)(new := \<lparr>dl_next = None, dl_prev = None\<rparr>),
                    al_count := al_count al + 1\<rparr>))
             else map_option (\<lambda>es.
                    let (prev, nxt) = alist_place (al_area al) start None es;
                        (h, L) = alist_link new prev nxt (al_head al, al_links al)
                    in Inr (al\<lparr>al_head := h, al_links := L, al_count := al_count al + 1\<rparr>))
                  (dlist_foreach (al_head al) (al_links al)))"

fun alist_find :: "(addr \<Rightarrow> shfs_aentry) \<Rightarrow> u64 \<Rightarrow> u64 \<Rightarrow> addr list \<Rightarrow> addr option" where
  "alist_find areas start end [] = None"
| "alist_find areas start end (e # es) =
     (if ae_start (areas e) = start \<and> ae_end (areas e) = end then Some e
      else alist_find areas start end es)"

definition alist_unlink :: "addr \<Rightarrow> addr dlist_head \<times> addr links \<Rightarrow> addr dlist_head \<times> addr links" where
  "alist_unlink e s =
     (let (h, L) = s;
          (h, L) = (case dl_prev (L e) of
                      Some p \<Rightarrow> (h, L(p := (L p)\<lparr>dl_next := dl_next (L e)\<rparr>))
                    | None \<Rightarrow> (h\<lparr>dl_first := dl_next (L e)\<rparr>, L))
      in (case dl_next (L e) of
            Some n \<Rightarrow> (h, L(n := (L n)\<lparr>dl_prev := dl_prev (L e)\<rparr>))
          | None \<Rightarrow> (h\<lparr>dl_last := dl_prev (L e)\<rparr>, L)))"

definition shfs_alist_unregister :: "shfs_alist \<Rightarrow> u64 \<Rightarrow> u64 \<Rightarrow> (errno + shfs_alist) option" where
  "shfs_alist_unregister al start len =
     map_option (\<lambda>es.
        case alist_find (al_area al) start (start + len) es of
          None \<Rightarrow> Inl ENOENT
        | Some e \<Rightarrow>
            let (h, L) = alist_unlink e (al_head al, al_links al)
            in Inr (al\<lparr>al_head := h, al_links := L, al_count := al_count al - 1\<rparr>))
       (dlist_foreach (al_head al) (al_links al))"

text \<open>
  The search for a free area. \<open>ff_skip\<close> is the inner loop (it compares with the end of the
  current entry, not with \<open>free_start\<close>): it returns \<open>free_start\<close> and the entries after the
  one it stops at. The entries are given by their areas.
\<close>

fun ff_skip :: "u64 \<Rightarrow> u64 \<Rightarrow> shfs_aentry list \<Rightarrow> u64 \<times> shfs_aentry list" where
  "ff_skip e_end free_start [] = (free_start, [])"
| "ff_skip e_end free_start (n # es) =
     (if ae_start n \<le> e_end
      then ff_skip (ae_end n) (if free_start < ae_end n then ae_end n else free_start) es
      else (free_start, n # es))"

lemma ff_skip_length: "length (snd (ff_skip a b es)) \<le> length es"
proof (induction es arbitrary: a b)
  case (Cons n es)
  show ?case using Cons.IH [of "ae_end n" "if b < ae_end n then ae_end n else b"] by simp
qed simp

text \<open>The first-fit search: the result 0 means that nothing was found.\<close>

function shfs_alist_find_ff :: "u64 \<Rightarrow> u64 \<Rightarrow> shfs_aentry list \<Rightarrow> u64" where
  "shfs_alist_find_ff area_end len [] = 0"
| "shfs_alist_find_ff area_end len (e # es) =
     (let (free_start, rest) = ff_skip (ae_end e) (ae_end e) es
      in case rest of
           [] \<Rightarrow> if area_end = free_start then 0
                 else if area_end - free_start \<ge> len then free_start else 0
         | n # _ \<Rightarrow> if ae_start n - free_start \<ge> len then free_start
                   else shfs_alist_find_ff area_end len rest)"
  by pat_completeness auto
termination
proof (relation "measure (\<lambda>(a, l, es). length es)")
  fix area_end len :: u64 and e n :: shfs_aentry and es x fs rest ns
  assume "x = ff_skip (ae_end e) (ae_end e) es" "(fs, rest) = x" "rest = n # ns"
  then have "length rest \<le> length es" using ff_skip_length [of "ae_end e" "ae_end e" es] by (metis snd_conv)
  then show "((area_end, len, rest), area_end, len, e # es) \<in> measure (\<lambda>(a, l, es). length es)" by simp
qed simp

text \<open>
  The best-fit search walks over the same free segments and prints them; it never selects
  one.
\<close>

function shfs_alist_find_bf :: "u64 \<Rightarrow> u64 \<Rightarrow> shfs_aentry list \<Rightarrow> (u64 \<times> u64) list \<Rightarrow> u64 \<times> (u64 \<times> u64) list" where
  "shfs_alist_find_bf area_end len [] out = (0, out)"
| "shfs_alist_find_bf area_end len (e # es) out =
     (let (free_start, rest) = ff_skip (ae_end e) (ae_end e) es
      in case rest of
           [] \<Rightarrow> if area_end = free_start then (0, out) else (0, out @ [(free_start, area_end)])
         | n # _ \<Rightarrow> shfs_alist_find_bf area_end len rest (out @ [(free_start, ae_start n)]))"
  by pat_completeness auto
termination
proof (relation "measure (\<lambda>(a, l, es, out). length es)")
  fix area_end len :: u64 and e n :: shfs_aentry and es out x fs rest ns
  assume "x = ff_skip (ae_end e) (ae_end e) es" "(fs, rest) = x" "rest = n # ns"
  then have "length rest \<le> length es" using ff_skip_length [of "ae_end e" "ae_end e" es] by (metis snd_conv)
  then show "((area_end, len, rest, out @ [(fs, ae_start n)]), area_end, len, e # es, out) \<in>
      measure (\<lambda>(a, l, es, out). length es)" by simp
qed simp

definition shfs_alist_find_free :: "shfs_alist \<Rightarrow> u64 \<Rightarrow> u64 option" where
  "shfs_alist_find_free al len =
     map_option (\<lambda>es.
        if al_allocator al = SALLOC_FIRSTFIT then shfs_alist_find_ff (al_end al) len (map (al_area al) es)
        else if al_allocator al = SALLOC_BESTFIT
             then fst (shfs_alist_find_bf (al_end al) len (map (al_area al) es) [])
        else 0)
       (dlist_foreach (al_head al) (al_links al))"


section \<open>The list of areas\<close>

text \<open>\<open>al_ok al es\<close>: the list nodes are \<open>es\<close> in order, sorted by their start.\<close>

definition al_starts :: "shfs_alist \<Rightarrow> addr list \<Rightarrow> u64 list" where
  "al_starts al es = map (\<lambda>e. ae_start (al_area al e)) es"

definition al_ok :: "shfs_alist \<Rightarrow> addr list \<Rightarrow> bool" where
  "al_ok al es \<longleftrightarrow> dl_repr (al_links al) (al_head al) es \<and> sorted (al_starts al es) \<and>
     al_count al = of_nat (length es)"

lemma al_ok_foreach: "al_ok al es \<Longrightarrow> dlist_foreach (al_head al) (al_links al) = Some es"
  by (simp add: al_ok_def dl_repr_foreach)

lemma alist_link_repr:
  assumes r: "dl_repr L h (xs @ ys)" and new: "new \<notin> set (xs @ ys)"
    and s: "alist_link new (last_opt xs) (hd_opt ys) (h, L) = (h', L')"
  shows "dl_repr L' h' (xs @ new # ys)"
proof (cases xs rule: rev_cases)
  case Nil
  show ?thesis
  proof (cases ys)
    case Nil
    with \<open>xs = []\<close> s show ?thesis by (auto simp: alist_link_def dl_repr_def)
  next
    case (Cons y ys')
    with \<open>xs = []\<close> r new s show ?thesis
      by (auto simp: alist_link_def dl_repr_def last_opt_Cons)
  qed
next
  case (snoc xs' x)
  show ?thesis
  proof (cases ys)
    case Nil
    with snoc r new s show ?thesis
      by (auto simp: alist_link_def dl_repr_def hd_opt_append last_opt_append split: option.splits)
  next
    case (Cons y ys')
    with snoc r new s show ?thesis
      by (auto simp: alist_link_def dl_repr_def hd_opt_append last_opt_append last_opt_Cons
          split: option.splits)
  qed
qed

lemma alist_unlink_repr:
  assumes r: "dl_repr L h xs" and x: "x \<in> set xs" and s: "alist_unlink x (h, L) = (h', L')"
  shows "dl_repr L' h' (remove1 x xs)"
proof -
  have "dlist_unlink x (h, L) = (h', dlist_init_el x L')"
    using s by (auto simp: dlist_unlink_def alist_unlink_def Let_def split: option.splits)
  from dl_repr_unlink(1) [OF r x this] have "dl_repr (dlist_init_el x L') h' (remove1 x xs)" .
  moreover have "x \<notin> set (remove1 x xs)" using dl_repr_distinct [OF r] by simp
  ultimately show ?thesis by (simp add: dlist_init_el_def dl_repr_def)
qed

lemma alist_place_eq:
  "alist_place areas start prev es =
     (case last_opt (takeWhile (\<lambda>e. ae_start (areas e) \<le> start) es) of None \<Rightarrow> prev | Some p \<Rightarrow> Some p,
      hd_opt (dropWhile (\<lambda>e. ae_start (areas e) \<le> start) es))"
  by (induction es arbitrary: prev) (auto simp: last_opt_Cons split: option.split)

lemma sorted_insert_takeWhile:
  fixes f :: "'b \<Rightarrow> 'a::linorder"
  assumes "sorted (map f es)"
  shows "sorted (map f (takeWhile (\<lambda>e. f e \<le> f x) es @ x # dropWhile (\<lambda>e. f e \<le> f x) es))"
proof -
  define t d where "t = takeWhile (\<lambda>e. f e \<le> f x) es" and "d = dropWhile (\<lambda>e. f e \<le> f x) es"
  have "t @ d = es" by (simp add: t_def d_def)
  then have s: "sorted (map f t @ map f d)" using assms by (simp flip: map_append)
  have t: "\<forall>y \<in> set t. f y \<le> f x" by (auto simp: t_def dest: set_takeWhileD)
  have d: "\<forall>y \<in> set d. f x \<le> f y"
  proof (cases d)
    case (Cons z zs)
    then have "\<not> f z \<le> f x" by (simp add: d_def dropWhile_eq_Cons_conv)
    with s Cons show ?thesis by (auto simp: sorted_append)
  qed simp
  have "sorted (map f (t @ x # d))" using s t d by (auto simp: sorted_append)
  then show ?thesis by (simp add: t_def d_def)
qed

lemma alist_find_Some: "alist_find areas s e es = Some x \<Longrightarrow> x \<in> set es \<and> areas x = \<lparr>ae_start = s, ae_end = e\<rparr>"
  by (induction es) (auto split: if_splits)

lemma alist_find_None: "alist_find areas s e es = None \<longleftrightarrow> (\<forall>x \<in> set es. areas x \<noteq> \<lparr>ae_start = s, ae_end = e\<rparr>)"
  by (induction es) (auto simp: shfs_aentry.equality)

lemma register_ok:
  fixes start len :: u64 and al :: shfs_alist
  assumes ok: "al_ok al es" and new: "new \<notin> set es"
  defines "a \<equiv> \<lparr>ae_start = start, ae_end = start + len\<rparr>"
  defines "P \<equiv> (\<lambda>e. ae_start (al_area al e) \<le> start)"
  shows "\<exists>al'. shfs_alist_register (Some new) al start len = Some (Inr al') \<and>
           al_ok al' (takeWhile P es @ new # dropWhile P es) \<and> al_area al' = (al_area al)(new := a) \<and>
           al_end al' = al_end al \<and> al_allocator al' = al_allocator al"
proof (cases es)
  case Nil
  with ok show ?thesis
    by (auto simp: shfs_alist_register_def al_ok_def dl_repr_def al_starts_def a_def P_def)
next
  case (Cons e es')
  let ?al = "al\<lparr>al_area := (al_area al)(new := a)\<rparr>"
  let ?t = "takeWhile P es" and ?d = "dropWhile P es"
  have r: "dl_repr (al_links al) (al_head al) (?t @ ?d)" using ok by (simp add: al_ok_def)
  have ne: "dl_first (al_head al) \<noteq> None" using ok Cons by (simp add: al_ok_def dl_repr_def)
  have Pal: "takeWhile (\<lambda>e. ae_start (al_area ?al e) \<le> start) es = ?t"
    "dropWhile (\<lambda>e. ae_start (al_area ?al e) \<le> start) es = ?d"
    using new by (auto simp: P_def intro!: takeWhile_cong dropWhile_cong)
  have pl: "alist_place (al_area ?al) start None es = (last_opt ?t, hd_opt ?d)"
    unfolding alist_place_eq Pal by (auto split: option.split)
  obtain h L where hl: "alist_link new (last_opt ?t) (hd_opt ?d) (al_head al, al_links al) = (h, L)"
    by fastforce
  let ?al' = "?al\<lparr>al_head := h, al_links := L, al_count := al_count al + 1\<rparr>"
  have "dl_repr L h (?t @ new # ?d)"
    using new by (intro alist_link_repr [OF r _ hl]) simp
  moreover have "sorted (map (\<lambda>e. ae_start (al_area ?al' e)) (?t @ new # ?d))"
  proof -
    have "map (\<lambda>e. ae_start (al_area ?al' e)) es = al_starts al es"
      using new by (auto simp: al_starts_def)
    then have "sorted (map (\<lambda>e. ae_start (al_area ?al' e)) es)" using ok by (simp add: al_ok_def)
    from sorted_insert_takeWhile [OF this, of new] show ?thesis
      using Pal by (simp add: a_def)
  qed
  moreover have "al_count al + 1 = of_nat (length (?t @ new # ?d))"
  proof -
    have "length ?t + length ?d = length es" by (metis length_append takeWhile_dropWhile_id)
    then show ?thesis using ok by (simp add: al_ok_def flip: of_nat_add)
  qed
  ultimately have "al_ok ?al' (?t @ new # ?d)" by (simp add: al_ok_def al_starts_def)
  moreover have "shfs_alist_register (Some new) al start len = Some (Inr ?al')"
    using ne al_ok_foreach [OF ok] pl hl
    by (simp add: shfs_alist_register_def Let_def del: not_None_eq flip: a_def)
  ultimately show ?thesis by auto
qed


lemma unregister_ok:
  assumes ok: "al_ok al es"
  shows "case alist_find (al_area al) start (start + len) es of
           None \<Rightarrow> shfs_alist_unregister al start len = Some (Inl ENOENT)
         | Some e \<Rightarrow> \<exists>al'. shfs_alist_unregister al start len = Some (Inr al') \<and>
             al_ok al' (remove1 e es) \<and> al_area al' = al_area al \<and> al_end al' = al_end al \<and>
             al_allocator al' = al_allocator al"
proof (cases "alist_find (al_area al) start (start + len) es")
  case None
  then show ?thesis using al_ok_foreach [OF ok] by (simp add: shfs_alist_unregister_def)
next
  case (Some e)
  then have e: "e \<in> set es" using alist_find_Some by blast
  have r: "dl_repr (al_links al) (al_head al) es" using ok by (simp add: al_ok_def)
  obtain h L where hl: "alist_unlink e (al_head al, al_links al) = (h, L)" by fastforce
  let ?al' = "al\<lparr>al_head := h, al_links := L, al_count := al_count al - 1\<rparr>"
  have "dl_repr L h (remove1 e es)" by (rule alist_unlink_repr [OF r e hl])
  moreover have "sorted (map (\<lambda>e. ae_start (al_area al e)) (remove1 e es))"
    using ok by (simp add: al_ok_def al_starts_def sorted_map_remove1)
  moreover have "al_count al - 1 = of_nat (length (remove1 e es))"
  proof -
    have "length es = Suc (length (remove1 e es))" using e length_pos_if_in_set [OF e] by (simp add: length_remove1)
    then show ?thesis using ok by (simp add: al_ok_def)
  qed
  ultimately have "al_ok ?al' (remove1 e es)" by (simp add: al_ok_def al_starts_def)
  moreover have "shfs_alist_unregister al start len = Some (Inr ?al')"
    using Some al_ok_foreach [OF ok] hl by (simp add: shfs_alist_unregister_def Let_def)
  ultimately show ?thesis using Some by simp
qed

section \<open>Finding a free area\<close>

text \<open>
  Areas as sets of chunk numbers. \<open>staircase\<close> is what the search needs: starts and ends both
  ascend, so no area is nested in another one.
\<close>

definition area_set :: "shfs_aentry \<Rightarrow> nat set" where
  "area_set e = {unat (ae_start e)..<unat (ae_end e)}"

definition staircase :: "u64 \<Rightarrow> shfs_aentry list \<Rightarrow> bool" where
  "staircase area_end es \<longleftrightarrow> sorted (map ae_start es) \<and> sorted (map ae_end es) \<and>
     (\<forall>e \<in> set es. ae_start e < ae_end e \<and> ae_end e \<le> area_end)"

lemma staircase_Cons:
  "staircase area_end (e # es) \<longleftrightarrow> staircase area_end es \<and> ae_start e < ae_end e \<and> ae_end e \<le> area_end \<and>
     (\<forall>x \<in> set es. ae_start e \<le> ae_start x \<and> ae_end e \<le> ae_end x)"
  by (auto simp: staircase_def)

text \<open>
  The inner loop: it skips entries without leaving a gap and stops at the first start beyond
  the free segment's start.
\<close>

lemma ff_skip_staircase:
  assumes "staircase area_end (e # es)" and "ff_skip (ae_end e) (ae_end e) es = (fs, rest)"
  shows "\<exists>mid. es = mid @ rest \<and> staircase area_end rest \<and> ae_end e \<le> fs \<and> fs \<le> area_end \<and>
           fs = ae_end (last (e # mid)) \<and>
           (\<forall>x \<in> set (e # mid). ae_end x \<le> fs) \<and> (\<forall>x \<in> set rest. fs < ae_start x) \<and>
           (\<forall>n. unat (ae_end e) \<le> n \<and> n < unat fs \<longrightarrow> (\<exists>x \<in> set mid. n \<in> area_set x))"
  using assms
proof (induction es arbitrary: e)
  case Nil
  then show ?case by (auto simp: staircase_def)
next
  case (Cons n es)
  show ?case
  proof (cases "ae_start n \<le> ae_end e")
    case True
    have le: "ae_end e \<le> ae_end n" and sn: "staircase area_end (n # es)"
      using Cons.prems(1) by (auto simp: staircase_Cons)
    then have m: "(if ae_end e < ae_end n then ae_end n else ae_end e) = ae_end n" by auto
    then have "ff_skip (ae_end n) (ae_end n) es = (fs, rest)" using Cons.prems(2) True by simp
    from Cons.IH [OF sn this] obtain mid where mid: "es = mid @ rest" "staircase area_end rest"
      "ae_end n \<le> fs" "fs \<le> area_end" "fs = ae_end (last (n # mid))"
      "\<forall>x \<in> set (n # mid). ae_end x \<le> fs" "\<forall>x \<in> set rest. fs < ae_start x"
      "\<forall>k. unat (ae_end n) \<le> k \<and> k < unat fs \<longrightarrow> (\<exists>x \<in> set mid. k \<in> area_set x)" by blast
    have "\<exists>x \<in> set (n # mid). k \<in> area_set x" if "unat (ae_end e) \<le> k" "k < unat fs" for k
    proof (cases "k < unat (ae_end n)")
      case T: True
      then have "k \<in> area_set n" using True that(1) by (simp add: area_set_def word_le_nat_alt)
      then show ?thesis by simp
    next
      case False
      then show ?thesis using mid(8) that by auto
    qed
    then show ?thesis
      using mid le by (intro exI [of _ "n # mid"]) (auto intro: order_trans)
  next
    case False
    then have "fs = ae_end e" "rest = n # es" using Cons.prems(2) by auto
    moreover have "\<forall>x \<in> set (n # es). ae_end e < ae_start x"
      using False Cons.prems(1) by (auto simp: staircase_Cons intro: less_le_trans)
    ultimately show ?thesis
      using Cons.prems(1) by (intro exI [of _ "[]"]) (auto simp: staircase_Cons)
  qed
qed

text \<open>
  The free chunks are those after the first entry's start that no area covers.
\<close>

definition gap :: "u64 \<Rightarrow> shfs_aentry list \<Rightarrow> nat \<Rightarrow> nat \<Rightarrow> bool" where
  "gap area_end es s n \<longleftrightarrow> s + n \<le> unat area_end \<and>
     (\<forall>k. s \<le> k \<and> k < s + n \<longrightarrow> (\<forall>e \<in> set es. k \<notin> area_set e))"

lemma find_ff_correct:
  "staircase area_end (e # es) \<Longrightarrow> 0 < len \<Longrightarrow> 0 < ae_end e \<Longrightarrow>
   if shfs_alist_find_ff area_end len (e # es) \<noteq> 0
   then unat (ae_end e) \<le> unat (shfs_alist_find_ff area_end len (e # es)) \<and>
        gap area_end (e # es) (unat (shfs_alist_find_ff area_end len (e # es))) (unat len)
   else \<forall>s. unat (ae_start e) \<le> s \<longrightarrow> \<not> gap area_end (e # es) s (unat len)"
proof (induction "length es" arbitrary: e es rule: less_induct)
  case less
  obtain fs rest where sk: "ff_skip (ae_end e) (ae_end e) es = (fs, rest)" by fastforce
  from ff_skip_staircase [OF less.prems(1) sk] obtain mid where mid: "es = mid @ rest"
    "staircase area_end rest" "ae_end e \<le> fs" "fs \<le> area_end"
    "\<forall>x \<in> set (e # mid). ae_end x \<le> fs" "\<forall>x \<in> set rest. fs < ae_start x"
    "\<forall>k. unat (ae_end e) \<le> k \<and> k < unat fs \<longrightarrow> (\<exists>x \<in> set mid. k \<in> area_set x)" by blast
  have fs0: "fs \<noteq> 0" "0 < fs" using mid(3) less.prems(3) by (auto simp: word_gt_0)
  have l0: "0 < unat len" using less.prems(2) by (simp add: word_less_nat_alt)
  have ee: "unat (ae_end e) \<le> unat fs" using mid(3) by (simp add: word_le_nat_alt)
  have below: "k \<notin> area_set x" if "x \<in> set (e # mid)" "unat fs \<le> k" for x k
    using mid(5) that by (auto simp: area_set_def word_le_nat_alt)
  have covered: "\<exists>x \<in> set (e # mid). k \<in> area_set x" if "unat (ae_start e) \<le> k" "k < unat fs" for k
    using that mid(7) by (cases "k < unat (ae_end e)") (auto simp: area_set_def)
  show ?case
  proof (cases rest)
    case Nil
    then have all: "set (e # es) = set (e # mid)" using mid(1) by simp
    show ?thesis
    proof (cases "len \<le> area_end - fs")
      case True
      then have ne: "area_end \<noteq> fs" using l0 by (auto simp: word_le_nat_alt)
      have "unat len \<le> unat area_end - unat fs"
        using True mid(4) by (simp add: word_le_nat_alt unat_sub)
      then have "unat fs + unat len \<le> unat area_end"
        using mid(4) by (simp add: word_le_nat_alt)
      then have "gap area_end (e # es) (unat fs) (unat len)"
        unfolding gap_def all using below by blast
      then show ?thesis using True ne Nil sk fs0 ee by simp
    next
      case False
      then have small: "unat area_end < unat fs + unat len"
        using mid(4) by (simp add: word_le_nat_alt unat_sub)
      have "\<not> gap area_end (e # es) s (unat len)" if "unat (ae_start e) \<le> s" for s
      proof
        assume g: "gap area_end (e # es) s (unat len)"
        then have "s < unat fs" using small by (simp add: gap_def)
        with covered [OF that] obtain x where "x \<in> set (e # mid)" "s \<in> area_set x" by blast
        with g l0 all show False by (auto simp: gap_def dest!: spec [of _ s])
      qed
      then show ?thesis using False Nil sk by simp
    qed
  next
    case (Cons n ns)
    have fn: "fs < ae_start n" using mid(6) Cons by simp
    have nn: "\<forall>x \<in> set rest. ae_start n \<le> ae_start x"
      using mid(2) Cons by (auto simp: staircase_Cons)
    have sub: "unat (ae_start n - fs) = unat (ae_start n) - unat fs"
      using fn by (simp add: unat_sub order_less_imp_le)
    show ?thesis
    proof (cases "len \<le> ae_start n - fs")
      case True
      then have b: "unat fs + unat len \<le> unat (ae_start n)"
        using sub fn by (simp add: word_le_nat_alt word_less_nat_alt)
      have "unat (ae_start n) \<le> unat area_end"
        using mid(2) Cons by (simp add: staircase_Cons word_le_nat_alt word_less_nat_alt)
      moreover have "k \<notin> area_set x" if "x \<in> set rest" "k < unat fs + unat len" for x k
        using nn that b by (fastforce simp: area_set_def word_le_nat_alt)
      ultimately have "gap area_end (e # es) (unat fs) (unat len)"
        unfolding gap_def using below b mid(1) by fastforce
      then show ?thesis using True Cons sk fs0 ee by simp
    next
      case False
      then have small: "unat (ae_start n) < unat fs + unat len"
        using sub by (simp add: word_le_nat_alt)
      have rec: "shfs_alist_find_ff area_end len (e # es) = shfs_alist_find_ff area_end len (n # ns)"
        using False Cons sk by simp
      have en: "unat (ae_end e) \<le> unat (ae_end n)" "0 < ae_end n"
      proof -
        have "ae_end e \<le> ae_end n" using less.prems(1) mid(1) Cons by (auto simp: staircase_Cons)
        then show "unat (ae_end e) \<le> unat (ae_end n)" "0 < ae_end n"
          using less.prems(3) by (auto simp: word_le_nat_alt word_less_nat_alt)
      qed
      have "length ns < length es" using mid(1) Cons by simp
      from less.hyps [OF this, of n] mid(2) Cons less.prems(2) en(2)
      have IH: "if shfs_alist_find_ff area_end len (n # ns) \<noteq> 0
         then unat (ae_end n) \<le> unat (shfs_alist_find_ff area_end len (n # ns)) \<and>
              gap area_end (n # ns) (unat (shfs_alist_find_ff area_end len (n # ns))) (unat len)
         else \<forall>s. unat (ae_start n) \<le> s \<longrightarrow> \<not> gap area_end (n # ns) s (unat len)" by simp
      have nfs: "unat fs \<le> unat (ae_end n)"
        using fn mid(2) Cons by (auto simp: staircase_Cons word_le_nat_alt word_less_nat_alt)
      have up: "gap area_end (e # es) s (unat len)" if "gap area_end (n # ns) s (unat len)" "unat fs \<le> s" for s
        using that below mid(1) Cons by (fastforce simp: gap_def)
      have down: "\<not> gap area_end (e # es) s (unat len)"
        if "unat (ae_start e) \<le> s" "\<forall>s. unat (ae_start n) \<le> s \<longrightarrow> \<not> gap area_end (n # ns) s (unat len)" for s
      proof
        assume g: "gap area_end (e # es) s (unat len)"
        then have g': "gap area_end (n # ns) s (unat len)" using mid(1) Cons by (auto simp: gap_def)
        then have s: "s < unat (ae_start n)" using that(2) by (meson not_le)
        show False
        proof (cases "s < unat fs")
          case True
          with covered [OF that(1)] obtain x where "x \<in> set (e # mid)" "s \<in> area_set x" by blast
          then show False using g l0 mid(1) by (fastforce simp: gap_def)
        next
          case F: False
          have "unat (ae_start n) \<in> area_set n"
            using mid(2) Cons by (auto simp: staircase_Cons area_set_def word_less_nat_alt)
          then show False using g s small F mid(1) Cons by (auto simp: gap_def)
        qed
      qed
      show ?thesis using IH up down en nfs unfolding rec by (auto split: if_splits)
    qed
  qed
qed


section \<open>Properties\<close>

definition al_areas :: "shfs_alist \<Rightarrow> addr list \<Rightarrow> shfs_aentry multiset" where
  "al_areas al es = mset (map (al_area al) es)"

lemma al_areas_register:
  assumes "new \<notin> set es"
  shows "mset (map ((al_area al)(new := a)) (takeWhile P es @ new # dropWhile P es)) =
         add_mset a (al_areas al es)"
proof -
  have "map ((al_area al)(new := a)) (takeWhile P es) = map (al_area al) (takeWhile P es)"
    "map ((al_area al)(new := a)) (dropWhile P es) = map (al_area al) (dropWhile P es)"
    using assms by (auto dest: set_takeWhileD set_dropWhileD)
  moreover have "mset (map (al_area al) (takeWhile P es)) + mset (map (al_area al) (dropWhile P es)) =
      al_areas al es"
    unfolding al_areas_def by (metis map_append mset_append takeWhile_dropWhile_id)
  ultimately show ?thesis
    by (simp only: map_append list.map mset_append mset.simps fun_upd_same union_mset_add_mset_right)
qed

lemma al_areas_remove1:
  "e \<in> set es \<Longrightarrow> mset (map f (remove1 e es)) = mset (map f es) - {#f e#}"
  by (induction es) auto

text \<open>
  Registering an area keeps the list linked, counted and sorted and adds exactly that
  area; unregistering it succeeds and gives the old collection of areas back. Unregistering
  an area that is not there is refused with \<open>ENOENT\<close>. All the loops end.
\<close>

theorem shfs_alist_register_unregister:
  assumes ok: "al_ok al es" and new: "new \<notin> set es"
  shows "(\<exists>al' es'. shfs_alist_register (Some new) al start len = Some (Inr al') \<and> al_ok al' es' \<and>
            al_areas al' es' = add_mset \<lparr>ae_start = start, ae_end = start + len\<rparr> (al_areas al es) \<and>
            (\<exists>al'' es''. shfs_alist_unregister al' start len = Some (Inr al'') \<and> al_ok al'' es'' \<and>
               al_areas al'' es'' = al_areas al es)) \<and>
         (\<lparr>ae_start = start, ae_end = start + len\<rparr> \<notin># al_areas al es \<longrightarrow>
            shfs_alist_unregister al start len = Some (Inl ENOENT))"
proof
  let ?a = "\<lparr>ae_start = start, ae_end = start + len\<rparr>"
  let ?P = "\<lambda>e. ae_start (al_area al e) \<le> start"
  let ?es = "takeWhile ?P es @ new # dropWhile ?P es"
  from register_ok [OF ok new] obtain al' where al':
    "shfs_alist_register (Some new) al start len = Some (Inr al')" "al_ok al' ?es"
    "al_area al' = (al_area al)(new := ?a)" by blast
  have ar: "al_areas al' ?es = add_mset ?a (al_areas al es)"
    unfolding al_areas_def [of al'] al'(3) by (rule al_areas_register [OF new])
  have "al_area al' new = ?a" by (simp add: al'(3))
  then have "alist_find (al_area al') start (start + len) ?es \<noteq> None"
    unfolding alist_find_None by auto
  then obtain e where e: "alist_find (al_area al') start (start + len) ?es = Some e" by blast
  from alist_find_Some [OF e] have ea: "e \<in> set ?es" "al_area al' e = ?a" by auto
  from unregister_ok [OF al'(2), of start len] e obtain al'' where al'':
    "shfs_alist_unregister al' start len = Some (Inr al'')" "al_ok al'' (remove1 e ?es)"
    "al_area al'' = al_area al'" by auto
  have "al_areas al'' (remove1 e ?es) = al_areas al' ?es - {#?a#}"
    unfolding al_areas_def al''(3) al_areas_remove1 [OF ea(1)] ea(2) ..
  then have "al_areas al'' (remove1 e ?es) = al_areas al es" by (simp add: ar)
  with al' al'' ar show "\<exists>al' es'. shfs_alist_register (Some new) al start len = Some (Inr al') \<and>
      al_ok al' es' \<and> al_areas al' es' = add_mset ?a (al_areas al es) \<and>
      (\<exists>al'' es''. shfs_alist_unregister al' start len = Some (Inr al'') \<and> al_ok al'' es'' \<and>
         al_areas al'' es'' = al_areas al es)" by blast
next
  show "\<lparr>ae_start = start, ae_end = start + len\<rparr> \<notin># al_areas al es \<longrightarrow>
      shfs_alist_unregister al start len = Some (Inl ENOENT)"
  proof
    assume "\<lparr>ae_start = start, ae_end = start + len\<rparr> \<notin># al_areas al es"
    then have "alist_find (al_area al) start (start + len) es = None"
      unfolding alist_find_None al_areas_def set_mset_mset list.set_map by (metis image_eqI)
    with unregister_ok [OF ok, of start len] show "shfs_alist_unregister al start len = Some (Inl ENOENT)"
      by simp
  qed
qed

definition sample_alist :: shfs_alist where
  "sample_alist = \<lparr>al_end = 100, al_count = 2, al_allocator = SALLOC_FIRSTFIT,
     al_head = \<lparr>dl_first = Some 1, dl_last = Some 2\<rparr>,
     al_links = (\<lambda>p. if p = 1 then \<lparr>dl_next = Some 2, dl_prev = None\<rparr>
                     else \<lparr>dl_next = None, dl_prev = Some 1\<rparr>),
     al_area = (\<lambda>p. if p = 1 then \<lparr>ae_start = 0, ae_end = 10\<rparr> else \<lparr>ae_start = 20, ae_end = 30\<rparr>)\<rparr>"

lemma sample_alist_ok: "al_ok sample_alist [1, 2]"
  by (simp add: al_ok_def sample_alist_def dl_repr_def al_starts_def)

theorem shfs_alist_register_unregister_witness:
  "\<exists>al' es'. shfs_alist_register (Some 3) sample_alist 10 5 = Some (Inr al') \<and> al_ok al' es' \<and>
     al_areas al' es' = add_mset \<lparr>ae_start = 10, ae_end = 15\<rparr> (al_areas sample_alist [1, 2])"
  using shfs_alist_register_unregister [OF sample_alist_ok, of 3 10 5] by auto

text \<open>
  C25: the first-fit search on areas that start with chunk 0 and are not nested in each other
  finds a place for \<open>len\<close> chunks that no area uses and that lies inside the volume; it
  answers 0 exactly when there is no such place.
\<close>

theorem shfs_alist_first_fit_correct:
  assumes ok: "al_ok al es" and ff: "al_allocator al = SALLOC_FIRSTFIT"
    and st: "staircase (al_end al) (map (al_area al) es)" and ne: "es \<noteq> []"
    and first: "ae_start (al_area al (hd es)) = 0" and len: "0 < len"
  shows "\<exists>r. shfs_alist_find_free al len = Some r \<and>
           (if r = 0 then \<forall>s. \<not> gap (al_end al) (map (al_area al) es) s (unat len)
            else gap (al_end al) (map (al_area al) es) (unat r) (unat len))"
proof -
  obtain e es' where es: "es = e # es'" using ne by (cases es) auto
  have st': "staircase (al_end al) (al_area al e # map (al_area al) es')" using st es by simp
  then have "0 < ae_end (al_area al e)" using first es by (simp add: staircase_Cons)
  from find_ff_correct [OF st' len this] first es ff al_ok_foreach [OF ok] show ?thesis
    by (auto simp: shfs_alist_find_free_def split: if_splits)
qed

theorem shfs_alist_first_fit_correct_witness:
  "\<exists>r. shfs_alist_find_free sample_alist 12 = Some r \<and>
     (if r = 0 then \<forall>s. \<not> gap (al_end sample_alist) (map (al_area sample_alist) [1, 2]) s (unat (12 :: u64))
      else gap (al_end sample_alist) (map (al_area sample_alist) [1, 2]) (unat r) (unat (12 :: u64)))"
  by (rule shfs_alist_first_fit_correct [OF sample_alist_ok])
     (simp_all add: sample_alist_def staircase_def)

text \<open>
  With an area nested in a longer one the search compares the next start with the end of
  the short area instead of the end of the free segment so far; the difference wraps around
  and it returns the end of the long area although a third area covers it.
\<close>

theorem shfs_alist_first_fit_nested:
  assumes "0 < s" "s \<le> b" "t < u" "u < b" "b < v" and "len \<le> u - b" and "0 < len"
  shows "shfs_alist_find_ff area_end len
           [\<lparr>ae_start = 0, ae_end = b\<rparr>, \<lparr>ae_start = s, ae_end = t\<rparr>, \<lparr>ae_start = u, ae_end = v\<rparr>] = b \<and>
         unat b \<in> area_set \<lparr>ae_start = u, ae_end = v\<rparr>"
  using assms by (auto simp: area_set_def word_less_nat_alt word_le_nat_alt)

theorem shfs_alist_first_fit_nested_witness:
  "shfs_alist_find_ff 100 3 [\<lparr>ae_start = 0, ae_end = 10\<rparr>, \<lparr>ae_start = 2, ae_end = 4\<rparr>,
     \<lparr>ae_start = 6, ae_end = 12\<rparr>] = 10"
  using shfs_alist_first_fit_nested [of 2 10 4 6 12 3 100] by simp

text \<open>
  A volume created with the best-fit allocator has no allocator at all: the search walks
  to the end of the list and always answers 0, that no space was found.
\<close>

theorem shfs_alist_best_fit_finds_nothing:
  assumes ok: "al_ok al es" and bf: "al_allocator al = SALLOC_BESTFIT"
  shows "shfs_alist_find_free al len = Some 0"
proof -
  have "fst (shfs_alist_find_bf a l areas out) = 0" for a l areas out
    by (induction a l areas out rule: shfs_alist_find_bf.induct) (auto split: prod.split list.split)
  then show ?thesis using bf al_ok_foreach [OF ok] by (simp add: shfs_alist_find_free_def)
qed

theorem shfs_alist_best_fit_finds_nothing_witness:
  "shfs_alist_find_free (sample_alist\<lparr>al_allocator := SALLOC_BESTFIT\<rparr>) 1 = Some 0"
proof -
  have "al_ok (sample_alist\<lparr>al_allocator := SALLOC_BESTFIT\<rparr>) [1, 2]"
    using sample_alist_ok by (simp add: al_ok_def al_starts_def)
  then show ?thesis by (rule shfs_alist_best_fit_finds_nothing) simp
qed

end
