(* ===== verification/ShfsDefs.thy ===== *)
theory ShfsDefs
  imports Prelude HashVal
begin

text \<open>
  The on-disk format (\<open>shfs/shfs_defs.h\<close>, \<open>shfs/shfs_check.c\<close>): the packed structs of
  the two header chunks and of a hash-table entry, the macros over them, host names, UUIDs
  and the detection of a volume label.

  A buffer is a list of bytes. Each packed struct has a record. The source has no function
  that reads or writes a whole struct: it casts the buffer and uses the fields in place. The
  functions \<open>_get\<close> and \<open>_put\<close> are that cast, the byte image of the fields in their order and
  widths on a little-endian machine, as the label check demands of the volume.
\<close>

section \<open>Types and constants\<close>

type_synonym chk_t = u64
type_synonym strp_t = u64
type_synonym uuid_t = "u8 list"

abbreviation SHFS_MAX_NB_MEMBERS :: nat where "SHFS_MAX_NB_MEMBERS \<equiv> 16"
abbreviation SBO_LITTLEENDIAN :: u8 where "SBO_LITTLEENDIAN \<equiv> 0"
abbreviation SHFS_SM_INDEPENDENT :: u8 where "SHFS_SM_INDEPENDENT \<equiv> 0"
abbreviation SHFS_SM_COMBINED :: u8 where "SHFS_SM_COMBINED \<equiv> 1"
abbreviation BOOT_AREA_LENGTH :: nat where "BOOT_AREA_LENGTH \<equiv> 1024"
abbreviation SHFS_EFLAG_HIDDEN :: u8 where "SHFS_EFLAG_HIDDEN \<equiv> 1"
abbreviation SHFS_EFLAG_DEFAULT :: u8 where "SHFS_EFLAG_DEFAULT \<equiv> 8"
abbreviation SHFS_EFLAG_LINK :: u8 where "SHFS_EFLAG_LINK \<equiv> 4"
abbreviation SHFS_HOST_TYPE_NAME :: u8 where "SHFS_HOST_TYPE_NAME \<equiv> 0"
abbreviation SHFS_HOST_TYPE_IPV4 :: u8 where "SHFS_HOST_TYPE_IPV4 \<equiv> 1"

definition SHFS_MAGIC :: "u8 list" where
  "SHFS_MAGIC = [0x53, 0x48, 0x46, 0x53]"

definition SHFS_VERSION :: "u8 list" where
  "SHFS_VERSION = [2, 1]"

definition ALIGN_UP :: "'w::len word \<Rightarrow> 'w word \<Rightarrow> 'w word" where
  "ALIGN_UP sz align = (sz + align - 1) AND NOT (align - 1)"

definition DIV_ROUND_UP :: "'w::len word \<Rightarrow> 'w word \<Rightarrow> 'w word" where
  "DIV_ROUND_UP num d = (num + d - 1) div d"

section \<open>Fields of a packed struct\<close>

definition field :: "u8 list \<Rightarrow> nat \<Rightarrow> nat \<Rightarrow> u8 list" where
  "field b off n = take n (drop off b)"

definition get8 :: "u8 list \<Rightarrow> nat \<Rightarrow> u8" where
  "get8 b off = (field b off 1) ! 0"

definition get_le :: "nat \<Rightarrow> u8 list \<Rightarrow> nat \<Rightarrow> 'w::len word" where
  "get_le n b off = ucast (le_word (field b off n))"

definition put_le :: "nat \<Rightarrow> 'w::len word \<Rightarrow> u8 list" where
  "put_le n w = take n (le_bytes (ucast w))"

section \<open>Hosts\<close>

record shfs_host =
  host_type :: u8
  host_bytes :: "u8 list"

definition shfs_host_get :: "u8 list \<Rightarrow> shfs_host" where
  "shfs_host_get b = \<lparr>host_type = get8 b 0, host_bytes = field b 1 32\<rparr>"

definition shfs_host_put :: "shfs_host \<Rightarrow> u8 list" where
  "shfs_host_put h = host_type h # host_bytes h"

text \<open>\<open>strnlen(s, sizeof(s))\<close> and \<open>strncpy(dst, s, n)\<close> on a field that may lack its NUL.\<close>

definition strnlen :: "u8 list \<Rightarrow> nat" where
  "strnlen s = length (takeWhile (\<lambda>c. c \<noteq> 0) s)"

definition strncpy :: "u8 list \<Rightarrow> nat \<Rightarrow> u8 list" where
  "strncpy s n = (let t = take n (takeWhile (\<lambda>c. c \<noteq> 0) s) in t @ replicate (n - length t) 0)"

definition shfshost_compare :: "shfs_host \<Rightarrow> shfs_host \<Rightarrow> int" where
  "shfshost_compare h0 h1 =
     (if host_type h0 \<noteq> host_type h1 then 1
      else if host_type h0 = SHFS_HOST_TYPE_NAME then
        let l0 = strnlen (host_bytes h0); l1 = strnlen (host_bytes h1)
        in if l0 \<noteq> l1 then 1
           else if take l0 (host_bytes h0) \<noteq> take l0 (host_bytes h1) then 1 else 0
      else if host_type h0 = SHFS_HOST_TYPE_IPV4 then
        if take 4 (host_bytes h0) \<noteq> take 4 (host_bytes h1) then 1 else 0
      else 2)"

definition shfshost_copy :: "shfs_host \<Rightarrow> shfs_host \<Rightarrow> shfs_host" where
  "shfshost_copy dst src =
     (let dst = dst\<lparr>host_type := host_type src\<rparr>
      in if host_type src = SHFS_HOST_TYPE_NAME then
           dst\<lparr>host_bytes := strncpy (host_bytes src) 32\<rparr>
         else if host_type src = SHFS_HOST_TYPE_IPV4 then
           dst\<lparr>host_bytes := take 4 (host_bytes src) @ drop 4 (host_bytes dst)\<rparr>
         else src)"

section \<open>The common header on chunk 0\<close>

record shfs_hdr_common =
  hc_magic :: "u8 list"
  hc_version :: "u8 list"
  hc_vol_uuid :: uuid_t
  hc_vol_name :: "u8 list"
  hc_vol_byteorder :: u8
  hc_vol_encoding :: u8
  hc_vol_size :: chk_t
  hc_vol_ts_creation :: u64
  hc_member_stripemode :: u8
  hc_member_stripesize :: u32
  hc_member_uuid :: uuid_t
  hc_member_count :: u8
  hc_member :: "uuid_t list"

definition hdr_common_get :: "u8 list \<Rightarrow> shfs_hdr_common" where
  "hdr_common_get b =
     \<lparr>hc_magic = field b 0 4, hc_version = field b 4 2, hc_vol_uuid = field b 6 16,
      hc_vol_name = field b 22 16, hc_vol_byteorder = get8 b 38, hc_vol_encoding = get8 b 39,
      hc_vol_size = get_le 8 b 40, hc_vol_ts_creation = get_le 8 b 48,
      hc_member_stripemode = get8 b 56, hc_member_stripesize = get_le 4 b 57,
      hc_member_uuid = field b 61 16, hc_member_count = get8 b 77,
      hc_member = map (\<lambda>i. field b (78 + 16 * i) 16) [0..<SHFS_MAX_NB_MEMBERS]\<rparr>"

definition hdr_common_put :: "shfs_hdr_common \<Rightarrow> u8 list" where
  "hdr_common_put h =
     hc_magic h @ hc_version h @ hc_vol_uuid h @ hc_vol_name h @
     [hc_vol_byteorder h, hc_vol_encoding h] @ put_le 8 (hc_vol_size h) @
     put_le 8 (hc_vol_ts_creation h) @ [hc_member_stripemode h] @
     put_le 4 (hc_member_stripesize h) @ hc_member_uuid h @ [hc_member_count h] @
     concat (hc_member h)"

text \<open>The sizes of the array fields of a header.\<close>

definition hdr_common_wf :: "shfs_hdr_common \<Rightarrow> bool" where
  "hdr_common_wf h \<longleftrightarrow>
     length (hc_magic h) = 4 \<and> length (hc_version h) = 2 \<and> length (hc_vol_uuid h) = 16 \<and>
     length (hc_vol_name h) = 16 \<and> length (hc_member_uuid h) = 16 \<and>
     length (hc_member h) = SHFS_MAX_NB_MEMBERS \<and> list_all (\<lambda>u. length u = 16) (hc_member h)"

text \<open>
  \<open>SHFS_CHUNKSIZE\<close>; the label check of \<open>shfs_check.c\<close> reads the header behind the boot
  area of chunk 0 and returns 1 or a negative number.
\<close>

definition SHFS_CHUNKSIZE :: "shfs_hdr_common \<Rightarrow> u32" where
  "SHFS_CHUNKSIZE h =
     (if hc_member_stripemode h = SHFS_SM_COMBINED
      then hc_member_stripesize h * ucast (hc_member_count h) else hc_member_stripesize h)"

definition shfs_detect_hdr0 :: "u8 list \<Rightarrow> int" where
  "shfs_detect_hdr0 chk0 =
     (let h = hdr_common_get (drop BOOT_AREA_LENGTH chk0)
      in if hc_magic h ! 0 \<noteq> SHFS_MAGIC ! 0 then - 1
         else if hc_magic h ! 1 \<noteq> SHFS_MAGIC ! 1 then - 1
         else if hc_magic h ! 2 \<noteq> SHFS_MAGIC ! 2 then - 1
         else if hc_magic h ! 3 \<noteq> SHFS_MAGIC ! 3 then - 1
         else if hc_version h ! 0 \<noteq> SHFS_VERSION ! 0 then - 2
         else if hc_version h ! 1 \<noteq> SHFS_VERSION ! 1 then - 2
         else if hc_vol_byteorder h \<noteq> SBO_LITTLEENDIAN then - 3
         else if hc_member_count h = 0 \<or> hc_member_count h > 16 then - 4
         else 1)"

section \<open>The configuration header on chunk 1\<close>

record shfs_hdr_config =
  cf_htable_ref :: chk_t
  cf_htable_bak_ref :: chk_t
  cf_hfunc :: u8
  cf_hlen :: u8
  cf_htable_bucket_count :: u32
  cf_htable_entries_per_bucket :: u32
  cf_allocator :: u8

definition hdr_config_get :: "u8 list \<Rightarrow> shfs_hdr_config" where
  "hdr_config_get b =
     \<lparr>cf_htable_ref = get_le 8 b 0, cf_htable_bak_ref = get_le 8 b 8, cf_hfunc = get8 b 16,
      cf_hlen = get8 b 17, cf_htable_bucket_count = get_le 4 b 18,
      cf_htable_entries_per_bucket = get_le 4 b 22, cf_allocator = get8 b 26\<rparr>"

definition hdr_config_put :: "shfs_hdr_config \<Rightarrow> u8 list" where
  "hdr_config_put h =
     put_le 8 (cf_htable_ref h) @ put_le 8 (cf_htable_bak_ref h) @ [cf_hfunc h, cf_hlen h] @
     put_le 4 (cf_htable_bucket_count h) @ put_le 4 (cf_htable_entries_per_bucket h) @
     [cf_allocator h]"

section \<open>A hash-table entry\<close>

text \<open>
  The union of \<open>f_attr\<close> and \<open>l_attr\<close> is its 107 bytes, which both structs read; the larger
  one is \<open>l_attr\<close> with its 33-byte host.
\<close>

record shfs_hentry =
  he_hash :: "u8 list"
  he_attr :: "u8 list"
  he_ts_creation :: u64
  he_flags :: u8
  he_name :: "u8 list"

record shfs_f_attr =
  fa_chunk :: chk_t
  fa_offset :: u64
  fa_len :: u64
  fa_mime :: "u8 list"
  fa_encoding :: "u8 list"

record shfs_l_attr =
  la_rhost :: shfs_host
  la_rport :: u16
  la_rpath :: "u8 list"
  la_type :: u8

definition hentry_get :: "u8 list \<Rightarrow> shfs_hentry" where
  "hentry_get b =
     \<lparr>he_hash = field b 0 64, he_attr = field b 64 107, he_ts_creation = get_le 8 b 171,
      he_flags = get8 b 179, he_name = field b 180 64\<rparr>"

definition hentry_put :: "shfs_hentry \<Rightarrow> u8 list" where
  "hentry_put e = he_hash e @ he_attr e @ put_le 8 (he_ts_creation e) @ [he_flags e] @ he_name e"

definition hentry_wf :: "shfs_hentry \<Rightarrow> bool" where
  "hentry_wf e \<longleftrightarrow>
     length (he_hash e) = 64 \<and> length (he_attr e) = 107 \<and> length (he_name e) = 64"

definition SHFS_HENTRY_FILEATTR :: "shfs_hentry \<Rightarrow> shfs_f_attr" where
  "SHFS_HENTRY_FILEATTR e =
     (let b = he_attr e
      in \<lparr>fa_chunk = get_le 8 b 0, fa_offset = get_le 8 b 8, fa_len = get_le 8 b 16,
          fa_mime = field b 24 32, fa_encoding = field b 56 16\<rparr>)"

definition f_attr_put :: "shfs_f_attr \<Rightarrow> u8 list" where
  "f_attr_put f =
     put_le 8 (fa_chunk f) @ put_le 8 (fa_offset f) @ put_le 8 (fa_len f) @ fa_mime f @ fa_encoding f"

definition SHFS_HENTRY_LINKATTR :: "shfs_hentry \<Rightarrow> shfs_l_attr" where
  "SHFS_HENTRY_LINKATTR e =
     (let b = he_attr e
      in \<lparr>la_rhost = shfs_host_get (field b 0 33), la_rport = get_le 2 b 33,
          la_rpath = field b 35 71, la_type = get8 b 106\<rparr>)"

definition l_attr_put :: "shfs_l_attr \<Rightarrow> u8 list" where
  "l_attr_put l = shfs_host_put (la_rhost l) @ put_le 2 (la_rport l) @ la_rpath l @ [la_type l]"

abbreviation sizeof_shfs_hentry :: u64 where "sizeof_shfs_hentry \<equiv> 244"

definition SHFS_HENTRY_SIZE :: u64 where
  "SHFS_HENTRY_SIZE = ALIGN_UP sizeof_shfs_hentry 64"

definition SHFS_HENTRY_ISHIDDEN :: "shfs_hentry \<Rightarrow> bool" where
  "SHFS_HENTRY_ISHIDDEN e \<longleftrightarrow> he_flags e AND SHFS_EFLAG_HIDDEN \<noteq> 0"

definition SHFS_HENTRY_ISDEFAULT :: "shfs_hentry \<Rightarrow> bool" where
  "SHFS_HENTRY_ISDEFAULT e \<longleftrightarrow> he_flags e AND SHFS_EFLAG_DEFAULT \<noteq> 0"

definition SHFS_HENTRY_ISLINK :: "shfs_hentry \<Rightarrow> bool" where
  "SHFS_HENTRY_ISLINK e \<longleftrightarrow> he_flags e AND SHFS_EFLAG_LINK \<noteq> 0"

section \<open>Where a hash-table entry is on the volume\<close>

text \<open>
  The number of entries is a 32-bit product; everything divided by or multiplied with
  \<open>SHFS_HENTRY_SIZE\<close>, a \<open>size_t\<close>, is computed in 64 bits.
\<close>

definition SHFS_HENTRIES_PER_CHUNK :: "u32 \<Rightarrow> u64" where
  "SHFS_HENTRIES_PER_CHUNK chunksize = ucast chunksize div SHFS_HENTRY_SIZE"

definition SHFS_HTABLE_NB_ENTRIES :: "shfs_hdr_config \<Rightarrow> u32" where
  "SHFS_HTABLE_NB_ENTRIES h = cf_htable_entries_per_bucket h * cf_htable_bucket_count h"

definition SHFS_HTABLE_SIZE_CHUNKS :: "shfs_hdr_config \<Rightarrow> u32 \<Rightarrow> u64" where
  "SHFS_HTABLE_SIZE_CHUNKS h chunksize =
     DIV_ROUND_UP (ucast (SHFS_HTABLE_NB_ENTRIES h)) (SHFS_HENTRIES_PER_CHUNK chunksize)"

definition SHFS_HTABLE_CHUNK_NO :: "u32 \<Rightarrow> u32 \<Rightarrow> u32" where
  "SHFS_HTABLE_CHUNK_NO hentry_no hentries_per_chunk = hentry_no div hentries_per_chunk"

definition SHFS_HTABLE_ENTRY_OFFSET :: "u32 \<Rightarrow> u32 \<Rightarrow> u64" where
  "SHFS_HTABLE_ENTRY_OFFSET hentry_no hentries_per_chunk =
     ucast (hentry_no mod hentries_per_chunk) * SHFS_HENTRY_SIZE"

section \<open>UUIDs\<close>

text \<open>\<open>uuid_compare\<close> is \<open>memcmp\<close> of the 16 bytes; only whether it is zero is used.\<close>

definition uuid_compare :: "uuid_t \<Rightarrow> uuid_t \<Rightarrow> int" where
  "uuid_compare u1 u2 =
     (case filter (\<lambda>(a, b). a \<noteq> b) (zip (take 16 u1) (take 16 u2)) of
        [] \<Rightarrow> 0
      | (a, b) # _ \<Rightarrow> if a < b then - 1 else 1)"

definition uuid_is_zero :: "uuid_t \<Rightarrow> bool" where
  "uuid_is_zero u \<longleftrightarrow> list_all (\<lambda>i. u ! i = 0) [0..<16]"

definition uuid_copy :: "uuid_t \<Rightarrow> uuid_t" where
  "uuid_copy src = take 16 src"

section \<open>Reading what was laid out\<close>

lemma length_field [simp]: "off + n \<le> length b \<Longrightarrow> length (field b off n) = n"
  by (simp add: field_def)

lemma length_put_le [simp]: "n \<le> 8 \<Longrightarrow> length (put_le n w) = n"
  by (simp add: put_le_def)

lemma le_word_le_bytes: "le_word (le_bytes w) = w"
proof (rule bit_word_eqI)
  fix n
  assume "n < LENGTH(64)"
  then have n: "n < 64" by simp
  have "n div 8 < 8" using n by simp
  then show "bit (le_word (le_bytes w)) n = bit w n"
    by (auto simp: n bit_le_word le_bytes_def bit_ucast_iff bit_drop_bit_eq)
qed

lemma get_put_le:
  fixes w :: "'w::len word"
  assumes "LENGTH('w) = 8 * n" and "n \<le> 8"
  shows "ucast (le_word (put_le n w)) = w"
proof -
  have "le_word (put_le n w) = ucast w AND mask (8 * n)"
    by (simp add: put_le_def le_word_mask [symmetric] le_word_le_bytes)
  then show ?thesis using assms by (intro bit_word_eqI) (auto simp: bit_simps)
qed

text \<open>A field that lies behind, or at the start of, what precedes it.\<close>

lemma field_skip [simp]: "length xs \<le> off \<Longrightarrow> field (xs @ ys) off n = field ys (off - length xs) n"
  by (simp add: field_def)

lemma field_Cons [simp]: "0 < off \<Longrightarrow> field (x # ys) off n = field ys (off - 1) n"
  by (cases off) (simp_all add: field_def)

lemma field_here [simp]: "length xs = n \<Longrightarrow> field (xs @ ys) 0 n = xs"
  by (simp add: field_def)

lemma field_all [simp]: "length xs = n \<Longrightarrow> field xs 0 n = xs"
  by (simp add: field_def)

lemma get8_skip [simp]: "length xs \<le> off \<Longrightarrow> get8 (xs @ ys) off = get8 ys (off - length xs)"
  by (simp add: get8_def)

lemma get8_Cons [simp]: "get8 (x # ys) 0 = x" "0 < off \<Longrightarrow> get8 (x # ys) off = get8 ys (off - 1)"
  by (simp_all add: get8_def) (simp add: field_def)

lemma get_le_skip [simp]: "length xs \<le> off \<Longrightarrow> get_le n (xs @ ys) off = get_le n ys (off - length xs)"
  by (simp add: get_le_def)

lemma get_le_Cons [simp]: "0 < off \<Longrightarrow> get_le n (x # ys) off = get_le n ys (off - 1)"
  by (simp add: get_le_def)

lemma get_le_here [simp]:
  "get_le 8 (put_le 8 w @ ys) 0 = (w :: u64)" "get_le 4 (put_le 4 v @ ys) 0 = (v :: u32)"
  "get_le 2 (put_le 2 u @ ys) 0 = (u :: u16)"
  using get_put_le [of 8 w] by (simp_all add: get_le_def get_put_le)

lemma field_concat:
  assumes "list_all (\<lambda>u. length u = n) xs" and "i < length xs"
  shows "field (concat xs @ ys) (n * i) n = xs ! i"
  using assms
proof (induction xs arbitrary: i)
  case Nil
  then show ?case by simp
next
  case (Cons x xs)
  show ?case
  proof (cases i)
    case 0
    then show ?thesis using Cons.prems by simp
  next
    case (Suc j)
    then show ?thesis using Cons by simp
  qed
qed

lemma length_concat_all: "list_all (\<lambda>u. length u = n) xs \<Longrightarrow> length (concat xs) = n * length xs"
  by (induction xs) simp_all

lemma hdr_common_get_put:
  assumes "hdr_common_wf h"
  shows "hdr_common_get (hdr_common_put h @ rest) = h" and "length (hdr_common_put h) = 334"
proof -
  note wf = assms [unfolded hdr_common_wf_def]
  have m: "map (\<lambda>i. field (concat (hc_member h) @ rest) (16 * i) 16) [0..<16] = hc_member h"
    using wf by (intro nth_equalityI) (simp_all add: field_concat)
  show "hdr_common_get (hdr_common_put h @ rest) = h"
    using wf m by (simp add: hdr_common_get_def hdr_common_put_def)
  show "length (hdr_common_put h) = 334"
    using wf by (simp add: hdr_common_put_def length_concat_all [of 16])
qed

lemma hdr_config_get_put:
  "hdr_config_get (hdr_config_put h @ rest) = h" "length (hdr_config_put h) = 27"
  by (simp_all add: hdr_config_get_def hdr_config_put_def)

lemma hentry_get_put:
  assumes "hentry_wf e"
  shows "hentry_get (hentry_put e @ rest) = e" and "length (hentry_put e) = 244"
  using assms by (simp_all add: hentry_wf_def hentry_get_def hentry_put_def)

lemma f_attr_get_put:
  assumes "length (fa_mime f) = 32" and "length (fa_encoding f) = 16"
  shows "SHFS_HENTRY_FILEATTR (e\<lparr>he_attr := f_attr_put f @ rest\<rparr>) = f"
  using assms by (simp add: SHFS_HENTRY_FILEATTR_def f_attr_put_def Let_def)

lemma l_attr_get_put:
  assumes "length (host_bytes (la_rhost l)) = 32" and "length (la_rpath l) = 71"
  shows "SHFS_HENTRY_LINKATTR (e\<lparr>he_attr := l_attr_put l\<rparr>) = l"
proof -
  have 1: "length (shfs_host_put (la_rhost l)) = 33" using assms by (simp add: shfs_host_put_def)
  have "shfs_host_get (shfs_host_put (la_rhost l)) = la_rhost l"
    using assms by (simp add: shfs_host_get_def shfs_host_put_def)
  with 1 show ?thesis using assms by (simp add: SHFS_HENTRY_LINKATTR_def l_attr_put_def Let_def)
qed

definition sample_hdr_common :: shfs_hdr_common where
  "sample_hdr_common =
     \<lparr>hc_magic = SHFS_MAGIC, hc_version = SHFS_VERSION, hc_vol_uuid = replicate 16 7,
      hc_vol_name = replicate 16 0x41, hc_vol_byteorder = 0, hc_vol_encoding = 0,
      hc_vol_size = 1000, hc_vol_ts_creation = 0x123456789, hc_member_stripemode = 1,
      hc_member_stripesize = 4096, hc_member_uuid = replicate 16 1, hc_member_count = 2,
      hc_member = replicate 1 (replicate 16 1) @ replicate 15 (replicate 16 2)\<rparr>"

section \<open>Label detection\<close>

text \<open>
  C35: the label check accepts a chunk exactly when the header behind the boot area has the
  magic number, version 2.1, the machine's byte order and between 1 and 16 members, so
  the member table of an accepted header is never indexed beyond its 16 entries.
\<close>

theorem shfs_detect_hdr0_accepts:
  assumes "hdr_common_wf h" and "length boot = BOOT_AREA_LENGTH"
  shows "shfs_detect_hdr0 (boot @ hdr_common_put h @ rest) = 1 \<longleftrightarrow>
         hc_magic h = SHFS_MAGIC \<and> hc_version h = SHFS_VERSION \<and>
         hc_vol_byteorder h = SBO_LITTLEENDIAN \<and>
         1 \<le> unat (hc_member_count h) \<and> unat (hc_member_count h) \<le> length (hc_member h)"
proof -
  note wf = assms(1) [unfolded hdr_common_wf_def]
  obtain a b c d where m: "hc_magic h = [a, b, c, d]"
    using wf by (auto simp: length_Suc_conv numeral_eq_Suc)
  obtain v w where v: "hc_version h = [v, w]"
    using wf by (auto simp: length_Suc_conv numeral_eq_Suc)
  have "hc_member_count h = 0 \<longleftrightarrow> \<not> 1 \<le> unat (hc_member_count h)" by (simp add: unat_eq_0 not_le)
  moreover have "hc_member_count h > 16 \<longleftrightarrow> \<not> unat (hc_member_count h) \<le> 16"
    by (simp add: word_less_nat_alt not_le)
  ultimately show ?thesis
    using assms(2) wf
    by (simp add: shfs_detect_hdr0_def hdr_common_get_put(1) [OF assms(1)] m v SHFS_MAGIC_def
        SHFS_VERSION_def Let_def)
qed

theorem shfs_detect_hdr0_accepts_witness:
  "shfs_detect_hdr0 (replicate 1024 0 @ hdr_common_put sample_hdr_common @ []) = 1 \<and>
   shfs_detect_hdr0 (replicate 1024 0 @ hdr_common_put (sample_hdr_common\<lparr>hc_member_count := 17\<rparr>) @ []) \<noteq> 1"
proof -
  have h: "hdr_common_wf sample_hdr_common"
      "hdr_common_wf (sample_hdr_common\<lparr>hc_member_count := 17\<rparr>)"
    by (simp_all add: hdr_common_wf_def sample_hdr_common_def SHFS_MAGIC_def SHFS_VERSION_def list_all_iff)
  have l: "length (replicate 1024 0 :: u8 list) = BOOT_AREA_LENGTH" by simp
  show ?thesis
    using shfs_detect_hdr0_accepts [OF h(1) l, of "[]"] shfs_detect_hdr0_accepts [OF h(2) l, of "[]"]
    by (simp add: sample_hdr_common_def)
qed

section \<open>Entry positions\<close>

lemma HENTRY_SIZE [simp]: "SHFS_HENTRY_SIZE = 256"
  by (simp add: SHFS_HENTRY_SIZE_def ALIGN_UP_def)

lemma unat_DIV_ROUND_UP:
  fixes num d :: "'w::len word"
  assumes "d \<noteq> 0" and "unat num + unat d \<le> 2 ^ LENGTH('w)"
  shows "unat (DIV_ROUND_UP num d) = (unat num + unat d - 1) div unat d"
proof -
  have d: "0 < unat d" using assms(1) by (simp add: unat_gt_0)
  then have "unat num + unat (d - 1) < 2 ^ LENGTH('w)" using assms by (simp add: unat_sub_one)
  then have "unat (num + (d - 1)) = unat num + (unat d - 1)"
    using d assms(1) by (subst unat_add_less) (simp_all add: unat_sub_one)
  then show ?thesis using d by (simp add: DIV_ROUND_UP_def unat_div add_diff_eq [symmetric])
qed

lemma unat_HENTRIES_PER_CHUNK: "unat (SHFS_HENTRIES_PER_CHUNK cs) = unat cs div 256"
  by (simp add: SHFS_HENTRIES_PER_CHUNK_def unat_div unat_ucast_widths)

lemma div_less_round_up: "(i::nat) < n \<Longrightarrow> 0 < e \<Longrightarrow> i div e < (n + e - 1) div e"
proof -
  assume i: "i < n" and e: "0 < e"
  have "(i + e) div e \<le> (n + e - 1) div e" using i by (intro div_le_mono) simp
  moreover have "(i + e) div e = Suc (i div e)" using e by (simp add: div_add_self2)
  ultimately show ?thesis by linarith
qed

text \<open>
  Every entry of the hash table has its own place on the volume. With the entries per
  chunk the mount stores, entry \<open>i\<close> lies in one of the \<open>SHFS_HTABLE_SIZE_CHUNKS\<close> chunks that
  are read, its 256 bytes end within the chunk, and two entries of one chunk do not overlap.
\<close>

theorem htable_entry_place:
  fixes h :: shfs_hdr_config and chunksize :: u32
  defines "epc \<equiv> ucast (SHFS_HENTRIES_PER_CHUNK chunksize) :: u32"
  assumes cs: "unat chunksize \<ge> 256" and i: "unat i < unat (SHFS_HTABLE_NB_ENTRIES h)"
  shows "unat (SHFS_HTABLE_CHUNK_NO i epc) < unat (SHFS_HTABLE_SIZE_CHUNKS h chunksize) \<and>
         unat (SHFS_HTABLE_ENTRY_OFFSET i epc) + 256 \<le> unat chunksize \<and>
         (\<forall>j. j \<noteq> i \<and> SHFS_HTABLE_CHUNK_NO j epc = SHFS_HTABLE_CHUNK_NO i epc \<longrightarrow>
            unat (SHFS_HTABLE_ENTRY_OFFSET i epc) + 256 \<le> unat (SHFS_HTABLE_ENTRY_OFFSET j epc) \<or>
            unat (SHFS_HTABLE_ENTRY_OFFSET j epc) + 256 \<le> unat (SHFS_HTABLE_ENTRY_OFFSET i epc))"
proof -
  let ?e = "unat chunksize div 256"
  have b: "unat chunksize < 2 ^ 32" "unat (SHFS_HTABLE_NB_ENTRIES h) < 2 ^ 32"
    by (rule order_less_le_trans [OF unsigned_less], simp)+
  have e: "unat epc = ?e"
    using b(1) unfolding epc_def
    by (simp add: unsigned_ucast_eq unat_HENTRIES_PER_CHUNK) (rule take_bit_nat_eq_self, simp)
  have e0: "0 < ?e" using cs by (simp add: div_greater_zero_iff)
  have off: "unat (SHFS_HTABLE_ENTRY_OFFSET j epc) = unat j mod ?e * 256" for j
  proof -
    have r: "unat (ucast (j mod epc) :: u64) = unat j mod ?e"
      by (simp add: unat_mod e unat_ucast_widths)
    have "unat j mod ?e < ?e" using e0 by (rule mod_less_divisor)
    then have "unat j mod ?e * 256 < ?e * 256" by simp
    also have "\<dots> \<le> unat chunksize" by (rule div_times_less_eq_dividend)
    finally have "unat j mod ?e * 256 < 2 ^ 64" using b(1) by simp
    then show ?thesis
      by (simp add: SHFS_HTABLE_ENTRY_OFFSET_def unat_word_ariths(2) r)
  qed
  have len: "unat (SHFS_HTABLE_SIZE_CHUNKS h chunksize) =
      (unat (SHFS_HTABLE_NB_ENTRIES h) + ?e - 1) div ?e"
  proof -
    have "SHFS_HENTRIES_PER_CHUNK chunksize \<noteq> 0"
      using e0 unat_HENTRIES_PER_CHUNK [of chunksize] by auto
    then show ?thesis unfolding SHFS_HTABLE_SIZE_CHUNKS_def using b
      by (subst unat_DIV_ROUND_UP) (auto simp: unat_HENTRIES_PER_CHUNK unat_ucast_widths)
  qed
  have place: "unat j mod ?e * 256 + 256 \<le> unat chunksize" for j :: u32
  proof -
    have "Suc (unat j mod ?e) * 256 \<le> ?e * 256" using e0 by (intro mult_le_mono1) (simp add: Suc_le_eq)
    also have "\<dots> \<le> unat chunksize" by simp
    finally show ?thesis by simp
  qed
  have sep: "unat i mod ?e \<noteq> unat j mod ?e"
    if "j \<noteq> i" "SHFS_HTABLE_CHUNK_NO j epc = SHFS_HTABLE_CHUNK_NO i epc" for j
  proof
    assume m: "unat i mod ?e = unat j mod ?e"
    have "unat i div ?e = unat j div ?e"
      using that(2) by (metis SHFS_HTABLE_CHUNK_NO_def e unat_div)
    with m have "unat i = unat j" by (metis div_mult_mod_eq)
    then have "i = j" by (rule unsigned_word_eqI)
    with that(1) show False by simp
  qed
  have "a * 256 + 256 \<le> b * 256 \<or> b * 256 + 256 \<le> a * 256" if "a \<noteq> b" for a b :: nat
    using that by arith
  with sep show ?thesis
    using place div_less_round_up [OF i e0]
    by (simp add: off len SHFS_HTABLE_CHUNK_NO_def unat_div e)
qed

definition sample_hdr_config :: shfs_hdr_config where
  "sample_hdr_config =
     \<lparr>cf_htable_ref = 2, cf_htable_bak_ref = 0, cf_hfunc = 2, cf_hlen = 32,
      cf_htable_bucket_count = 5, cf_htable_entries_per_bucket = 4, cf_allocator = 0\<rparr>"

theorem htable_entry_place_witness:
  "unat (SHFS_HTABLE_CHUNK_NO 19 (ucast (SHFS_HENTRIES_PER_CHUNK 4096))) <
     unat (SHFS_HTABLE_SIZE_CHUNKS sample_hdr_config 4096) \<and>
   SHFS_HTABLE_CHUNK_NO 19 (ucast (SHFS_HENTRIES_PER_CHUNK 4096)) = 1"
  using htable_entry_place [of 4096 19 sample_hdr_config]
  by (simp add: sample_hdr_config_def SHFS_HTABLE_NB_ENTRIES_def SHFS_HTABLE_CHUNK_NO_def
      SHFS_HENTRIES_PER_CHUNK_def)

section \<open>Hosts\<close>

lemma strncpy_NUL: "length s = n \<Longrightarrow> strnlen (strncpy s n) = strnlen s"
  "length s = n \<Longrightarrow> take (strnlen s) (strncpy s n) = take (strnlen s) s"
proof -
  assume n: "length s = n"
  let ?t = "takeWhile (\<lambda>c. c \<noteq> 0) s"
  have l: "length ?t \<le> n" using n length_takeWhile_le by auto
  then have e: "strncpy s n = ?t @ replicate (n - length ?t) 0" by (simp add: strncpy_def Let_def)
  show "strnlen (strncpy s n) = strnlen s"
    unfolding e strnlen_def by (cases "n - length ?t") (simp_all add: takeWhile_append)
  show "take (strnlen s) (strncpy s n) = take (strnlen s) s"
    unfolding e strnlen_def by (simp add: takeWhile_eq_take [symmetric])
qed

text \<open>
  A copied host compares equal to its source for both supported types, a name that
  fills its field without a NUL included, and \<open>shfshost_compare\<close> is symmetric; a host of
  another type never compares equal, not even to itself.
\<close>

theorem shfshost_copy_compare:
  assumes "length (host_bytes src) = 32" and "length (host_bytes dst) = 32"
  shows "shfshost_compare (shfshost_copy dst src) src =
           (if host_type src \<in> {SHFS_HOST_TYPE_NAME, SHFS_HOST_TYPE_IPV4} then 0 else 2) \<and>
         host_type (shfshost_copy dst src) = host_type src \<and>
         length (host_bytes (shfshost_copy dst src)) = 32 \<and>
         shfshost_compare src dst = shfshost_compare dst src"
proof -
  have "length (strncpy (host_bytes src) 32) = 32"
    by (auto simp: strncpy_def Let_def)
  moreover have "take n xs \<noteq> take n ys \<longleftrightarrow> take n ys \<noteq> take n xs" for n and xs ys :: "u8 list" by auto
  ultimately show ?thesis
    using assms strncpy_NUL [of "host_bytes src" 32]
    by (auto simp: shfshost_copy_def shfshost_compare_def Let_def)
qed

theorem shfshost_copy_compare_witness:
  "shfshost_compare (shfshost_copy \<lparr>host_type = 1, host_bytes = replicate 32 5\<rparr>
      \<lparr>host_type = 0, host_bytes = replicate 32 0x61\<rparr>) \<lparr>host_type = 0, host_bytes = replicate 32 0x61\<rparr> = 0"
  using shfshost_copy_compare [of "\<lparr>host_type = 0, host_bytes = replicate 32 0x61\<rparr>"
      "\<lparr>host_type = 1, host_bytes = replicate 32 5\<rparr>"]
  by simp

end
