(* ===== verification/Blkdev.thy ===== *)
theory Blkdev
  imports Prelude DList Mempool "HOL-Library.Multiset"
begin

text \<open>
  The block-device wrapper (\<open>blkdev.h\<close>, \<open>blkdev.c\<close>) over the Mini-OS block front end.

  The front end (\<open>init_blkfront\<close>, \<open>blkfront_aio_enqueue\<close>, \<open>blkfront_aio_poll\<close>, \<dots>) is not
  part of the repository: it is the record \<open>blkfront\<close> of functions on a state \<open>'w\<close> of its
  own, with the constants its headers define. A completion it reports is the request it
  belongs to, the result and the bytes it has put into the request's buffer. A result is an
  \<open>errno option\<close>: \<open>None\<close> is a value that is not negative, \<open>Some e\<close> is \<open>-e\<close>.

  An operation that can fail returns a sum and the state it leaves, \<open>Inl (Errno e)\<close> being
  the returned or stored error \<open>e\<close> and \<open>Inl (Fault f)\<close> the end of the program. A loop that
  waits for the front end returns an \<open>option\<close>; \<open>None\<close> is a wait that never ends. Callbacks of
  the users are values \<open>'c\<close>, and the function \<open>call\<close> runs them.
\<close>

section \<open>State\<close>

type_synonym sector_t = u64
type_synonym blkdev_id_t = u32
type_synonym io_err = "errno option"

abbreviation O_WRONLY :: u32 where "O_WRONLY \<equiv> 1"
abbreviation O_RDWR :: u32 where "O_RDWR \<equiv> 2"
abbreviation O_EXCL :: u32 where "O_EXCL \<equiv> 0x800"
abbreviation MAX_DISKSIZE :: u64 where "MAX_DISKSIZE \<equiv> 0x10000000000"

record blkfront_info =
  bi_sectors :: u64
  bi_sector_size :: u32
  bi_mode :: u32

record blkfront_aiocb =
  aio_dev :: addr
  aio_buf :: addr
  aio_offset :: u64
  aio_nbytes :: u64

type_synonym completion = "addr \<times> io_err \<times> u8 list"

record 'w blkfront =
  init_blkfront :: "string \<Rightarrow> 'w \<Rightarrow> (addr \<times> blkfront_info) option \<times> 'w"
  shutdown_blkfront :: "addr \<Rightarrow> 'w \<Rightarrow> 'w"
  blkfront_aio_enqueue :: "addr \<Rightarrow> blkfront_aiocb \<Rightarrow> bool \<Rightarrow> 'w \<Rightarrow> io_err \<times> 'w"
  blkfront_aio_submit :: "addr \<Rightarrow> 'w \<Rightarrow> 'w"
  blkfront_wait_slot :: "addr \<Rightarrow> 'w \<Rightarrow> 'w"
  blkfront_aio_poll :: "addr \<Rightarrow> 'w \<Rightarrow> completion list \<times> 'w"
  MAX_REQUESTS :: u32
  PAGE_SIZE :: u64
  BLKIF_MAX_SEGMENTS :: u64
  sizeof_aiocb :: u64

record blkdev =
  bd_dev :: addr
  bd_info :: blkfront_info
  bd_reqpool :: addr
  bd_nname :: string
  bd_id :: blkdev_id_t
  bd_exclusive :: bool
  bd_refcount :: u32

text \<open>
  The callback of a request is a function pointer with its argument: the wrapper's own
  \<open>_blkdev_sync_io_cb\<close> with its \<open>iosync\<close>, or a user's.
\<close>

datatype 'c blkdev_cb = Sync_io_cb addr | User_cb 'c

record 'c blkdev_req =
  rq_p_obj :: addr
  rq_bd :: addr
  rq_aiocb :: blkfront_aiocb
  rq_sector :: sector_t
  rq_nb_sectors :: sector_t
  rq_write :: bool
  rq_cb :: "'c blkdev_cb option"

record blkdev_sync_io_sync =
  ios_sem :: nat
  ios_ret :: io_err

text \<open>
  The memory of the structs by their address, \<open>_open_bd_list\<close>, the request pools, the bytes
  of the I/O buffers and the front end.
\<close>

record ('w, 'c) bdst =
  bd_tab :: "addr \<Rightarrow> blkdev"
  bd_links :: "addr links"
  open_bd_list :: "addr option"
  bd_pools :: "unit mpstate"
  bd_reqs :: "addr \<Rightarrow> 'c blkdev_req"
  bd_syncs :: "addr \<Rightarrow> blkdev_sync_io_sync"
  bd_mem :: "addr \<Rightarrow> u8"
  bd_world :: 'w

section \<open>Memory\<close>

definition mem_write :: "addr \<Rightarrow> u8 list \<Rightarrow> (addr \<Rightarrow> u8) \<Rightarrow> (addr \<Rightarrow> u8)" where
  "mem_write a bs m = (\<lambda>x. if unat (x - a) < length bs then bs ! unat (x - a) else m x)"

definition mem_read :: "addr \<Rightarrow> nat \<Rightarrow> (addr \<Rightarrow> u8) \<Rightarrow> u8 list" where
  "mem_read a n m = map (\<lambda>i. m (a + of_nat i)) [0..<n]"

lemma mem_read_write_self:
  assumes "length bs < 2 ^ 64"
  shows "mem_read a (length bs) (mem_write a bs m) = bs"
proof (rule nth_equalityI)
  fix i
  assume "i < length (mem_read a (length bs) (mem_write a bs m))"
  then have i: "i < length bs" by (simp add: mem_read_def)
  have "unat (of_nat i :: u64) = i" using i assms by (intro unat_of_nat_less) simp
  then show "mem_read a (length bs) (mem_write a bs m) ! i = bs ! i" using i by (simp add: mem_read_def mem_write_def)
qed (simp add: mem_read_def)

section \<open>Device identifiers\<close>

text \<open>
  \<open>sscanf(id, "%d", &ival)\<close> of the C library: leading white space, an optional sign and
  decimal digits; \<open>None\<close> when there is no digit. The value is reduced to an \<open>int\<close>.
\<close>

definition is_space :: "char \<Rightarrow> bool" where
  "is_space c \<longleftrightarrow> c = CHR '' '' \<or> (9 \<le> (of_char c :: nat) \<and> (of_char c :: nat) \<le> 13)"

definition digit_val :: "char \<Rightarrow> nat option" where
  "digit_val c = (if 48 \<le> (of_char c :: nat) \<and> (of_char c :: nat) \<le> 57
                  then Some (of_char c - 48) else None)"

fun scan_digits :: "nat \<Rightarrow> string \<Rightarrow> nat" where
  "scan_digits acc [] = acc"
| "scan_digits acc (c # cs) =
     (case digit_val c of None \<Rightarrow> acc | Some d \<Rightarrow> scan_digits (10 * acc + d) cs)"

definition scan_nat :: "string \<Rightarrow> nat option" where
  "scan_nat s = (case s of [] \<Rightarrow> None | c # _ \<Rightarrow> (if digit_val c = None then None else Some (scan_digits 0 s)))"

definition sscanf_d :: "string \<Rightarrow> 32 word option" where
  "sscanf_d s =
     (let s = dropWhile is_space s
      in case s of
           [] \<Rightarrow> None
         | c # cs \<Rightarrow>
             if c = CHR ''-'' then map_option (\<lambda>n. - of_nat n) (scan_nat cs)
             else if c = CHR ''+'' then map_option of_nat (scan_nat cs)
             else map_option of_nat (scan_nat s))"

definition blkdev_id_parse :: "string \<Rightarrow> blkdev_id_t option" where
  "blkdev_id_parse s =
     (case sscanf_d s of
        None \<Rightarrow> None
      | Some ival \<Rightarrow> if ival <s 0 then None else Some ival)"

text \<open>
  \<open>detect_blkdevs\<close>: \<open>vbd_entries\<close> is what \<open>xenbus_ls\<close> returns, \<open>None\<close> an error or no list.
\<close>

fun detect_loop :: "string list \<Rightarrow> nat \<Rightarrow> blkdev_id_t list \<Rightarrow> blkdev_id_t list" where
  "detect_loop [] max_nb found = found"
| "detect_loop (e # es) max_nb found =
     (if length found < max_nb
      then (case blkdev_id_parse e of
              Some i \<Rightarrow> detect_loop es max_nb (found @ [i])
            | None \<Rightarrow> detect_loop es max_nb found)
      else detect_loop es max_nb found)"

definition detect_blkdevs :: "string list option \<Rightarrow> nat \<Rightarrow> blkdev_id_t list" where
  "detect_blkdevs vbd_entries max_nb =
     (case vbd_entries of None \<Rightarrow> [] | Some es \<Rightarrow> detect_loop es max_nb [])"

fun dec_digits :: "nat \<Rightarrow> string" where
  "dec_digits n = (if n < 10 then [char_of (48 + n)] else dec_digits (n div 10) @ [char_of (48 + n mod 10)])"
declare dec_digits.simps [simp del]

definition vbd_nname :: "blkdev_id_t \<Rightarrow> string" where
  "vbd_nname i = ''device/vbd/'' @ dec_digits (unat i)"

section \<open>Device information\<close>

definition blkdev_ssize :: "blkdev \<Rightarrow> u32" where
  "blkdev_ssize bd = bi_sector_size (bd_info bd)"

definition blkdev_ioalign :: "blkdev \<Rightarrow> u32" where
  "blkdev_ioalign bd = blkdev_ssize bd"

definition blkdev_sectors :: "blkdev \<Rightarrow> sector_t" where
  "blkdev_sectors bd =
     (if bi_sectors (bd_info bd) * ucast (bi_sector_size (bd_info bd)) > MAX_DISKSIZE
      then MAX_DISKSIZE div ucast (bi_sector_size (bd_info bd)) else bi_sectors (bd_info bd))"

definition blkdev_size :: "blkdev \<Rightarrow> u64" where
  "blkdev_size bd = blkdev_sectors bd * ucast (blkdev_ssize bd)"

definition blkdev_avail_req :: "addr \<Rightarrow> ('w, 'c, 'z) bdst_scheme \<Rightarrow> u32" where
  "blkdev_avail_req bd st = mempool_free_count (bd_reqpool (bd_tab st bd)) (bd_pools st)"

section \<open>Opening and closing\<close>

text \<open>The test on the mode that opening an open and a new device share.\<close>

definition mode_denied :: "u32 \<Rightarrow> u32 \<Rightarrow> bool" where
  "mode_denied mode info_mode \<longleftrightarrow>
     (mode AND O_WRONLY \<noteq> 0 \<and> info_mode AND (O_WRONLY OR O_RDWR) = 0) \<or>
     (mode AND O_RDWR \<noteq> 0 \<and> info_mode AND O_RDWR = 0)"

definition blkdev_async_io_submit :: "'w blkfront \<Rightarrow> addr \<Rightarrow> ('w, 'c, 'z) bdst_scheme \<Rightarrow> ('w, 'c, 'z) bdst_scheme" where
  "blkdev_async_io_submit io bd st =
     st\<lparr>bd_world := blkfront_aio_submit io (bd_dev (bd_tab st bd)) (bd_world st)\<rparr>"

definition blkdev_async_io_wait_slot :: "'w blkfront \<Rightarrow> addr \<Rightarrow> ('w, 'c, 'z) bdst_scheme \<Rightarrow> ('w, 'c, 'z) bdst_scheme" where
  "blkdev_async_io_wait_slot io bd st =
     st\<lparr>bd_world := blkfront_wait_slot io (bd_dev (bd_tab st bd)) (bd_world st)\<rparr>"

text \<open>Linking a device at the head of \<open>_open_bd_list\<close>, and unlinking it.\<close>

definition bd_list_push :: "addr \<Rightarrow> ('w, 'c, 'z) bdst_scheme \<Rightarrow> ('w, 'c, 'z) bdst_scheme" where
  "bd_list_push bd st =
     (let L = (bd_links st)(bd := \<lparr>dl_next = open_bd_list st, dl_prev = None\<rparr>);
          L = (case open_bd_list st of
                 None \<Rightarrow> L
               | Some n \<Rightarrow> L(n := (L n)\<lparr>dl_prev := Some bd\<rparr>))
      in st\<lparr>bd_links := L, open_bd_list := Some bd\<rparr>)"

definition bd_list_unlink :: "addr \<Rightarrow> ('w, 'c, 'z) bdst_scheme \<Rightarrow> ('w, 'c, 'z) bdst_scheme" where
  "bd_list_unlink bd st =
     (let L = bd_links st; el = L bd;
          L = (case dl_next el of None \<Rightarrow> L | Some n \<Rightarrow> L(n := (L n)\<lparr>dl_prev := dl_prev el\<rparr>))
      in case dl_prev el of
           Some p \<Rightarrow> st\<lparr>bd_links := L(p := (L p)\<lparr>dl_next := dl_next el\<rparr>)\<rparr>
         | None \<Rightarrow> st\<lparr>bd_links := L, open_bd_list := dl_next el\<rparr>)"

definition sizeof_blkdev_req :: "'w blkfront \<Rightarrow> u64" where
  "sizeof_blkdev_req io = 8 + 8 + sizeof_aiocb io + 8 + 8 + 8 + 8 + 8"

text \<open>
  A device that is not open yet: the allocations (\<open>xbd\<close> the struct, \<open>xp\<close> and \<open>xr\<close> the pool
  and its ring), the front end, the mode, and the new head of the list.
\<close>

definition open_new_blkdev ::
    "'w blkfront \<Rightarrow> addr option \<Rightarrow> addr option \<Rightarrow> addr option list option \<Rightarrow>
     blkdev_id_t \<Rightarrow> u32 \<Rightarrow> ('w, 'c, 'z) bdst_scheme \<Rightarrow> (error + addr) \<times> ('w, 'c, 'z) bdst_scheme" where
  "open_new_blkdev io xbd xp xr i mode st =
     (case xbd of
        None \<Rightarrow> (Inl (Errno ENOMEM), st)
      | Some bd \<Rightarrow>
          (case alloc_mempool_simple xp xr (MAX_REQUESTS io) (sizeof_blkdev_req io) (bd_pools st) of
             Inl (Fault f) \<Rightarrow> (Inl (Fault f), st)
           | Inl (Errno e) \<Rightarrow> (Inl (Errno ENOMEM), st)
           | Inr (pool, pools) \<Rightarrow>
               let st = st\<lparr>bd_pools := pools\<rparr>;
                   (r, w) = init_blkfront io (vbd_nname i) (bd_world st);
                   st = st\<lparr>bd_world := w\<rparr>
               in case r of
                    None \<Rightarrow>
                      (case free_mempool (Some pool) (bd_pools st) of
                         Inl e \<Rightarrow> (Inl e, st)
                       | Inr _ \<Rightarrow> (Inl (Errno ENODEV), st))
                  | Some (dev, info) \<Rightarrow>
                      let st = st\<lparr>bd_tab := (bd_tab st)(bd := \<lparr>bd_dev = dev, bd_info = info,
                                 bd_reqpool = pool, bd_nname = vbd_nname i, bd_id = i,
                                 bd_exclusive = (mode AND O_EXCL \<noteq> 0), bd_refcount = 1\<rparr>)\<rparr>
                      in if mode_denied mode (bi_mode info) then
                           let st = st\<lparr>bd_world := shutdown_blkfront io dev (bd_world st)\<rparr>
                           in case free_mempool (Some pool) (bd_pools st) of
                                Inl e \<Rightarrow> (Inl e, st)
                              | Inr _ \<Rightarrow> (Inl (Errno EACCES), st)
                         else
                           (Inr bd, blkdev_async_io_wait_slot io bd (bd_list_push bd st))))"

text \<open>
  \<open>open_blkdev\<close>: the loop over the open devices stops at the first with the identifier.
\<close>

definition open_blkdev ::
    "'w blkfront \<Rightarrow> addr option \<Rightarrow> addr option \<Rightarrow> addr option list option \<Rightarrow>
     blkdev_id_t \<Rightarrow> u32 \<Rightarrow> ('w, 'c, 'z) bdst_scheme \<Rightarrow>
     ((error + addr) \<times> ('w, 'c, 'z) bdst_scheme) option" where
  "open_blkdev io xbd xp xr i mode st =
     (case dlist_walk (dlist_next_el (bd_links st)) (open_bd_list st) of
        None \<Rightarrow> None
      | Some bds \<Rightarrow>
          (case find (\<lambda>bd. bd_id (bd_tab st bd) = i) bds of
             Some bd \<Rightarrow>
               let d = bd_tab st bd
               in if mode AND O_EXCL \<noteq> 0 \<or> bd_exclusive d then Some (Inl (Errno EBUSY), st)
                  else if mode_denied mode (bi_mode (bd_info d)) then Some (Inl (Errno EACCES), st)
                  else Some (Inr bd, st\<lparr>bd_tab := (bd_tab st)(bd := d\<lparr>bd_refcount := bd_refcount d + 1\<rparr>)\<rparr>)
           | None \<Rightarrow> Some (open_new_blkdev io xbd xp xr i mode st)))"

definition close_blkdev ::
    "'w blkfront \<Rightarrow> addr \<Rightarrow> ('w, 'c, 'z) bdst_scheme \<Rightarrow> (error + unit) \<times> ('w, 'c, 'z) bdst_scheme" where
  "close_blkdev io bd st =
     (let d = (bd_tab st bd)\<lparr>bd_refcount := bd_refcount (bd_tab st bd) - 1\<rparr>;
          st = st\<lparr>bd_tab := (bd_tab st)(bd := d)\<rparr>
      in if bd_refcount d = 0 then
           let st = bd_list_unlink bd st;
               st = st\<lparr>bd_world := shutdown_blkfront io (bd_dev d) (bd_world st)\<rparr>
           in case free_mempool (Some (bd_reqpool d)) (bd_pools st) of
                Inl e \<Rightarrow> (Inl e, st)
              | Inr _ \<Rightarrow> (Inr (), st)
         else (Inr (), st))"

section \<open>Asynchronous I/O\<close>

text \<open>
  The loop at \<open>retry\<close>: submit and wait for a slot as long as the front end's ring is full.
\<close>

partial_function (option) enqueue_retry ::
    "'w blkfront \<Rightarrow> addr \<Rightarrow> addr \<Rightarrow> bool \<Rightarrow> ('w, 'c, 'z) bdst_scheme \<Rightarrow>
     (io_err \<times> ('w, 'c, 'z) bdst_scheme) option" where
  "enqueue_retry io bd req wr st =
     (let (ret, w) = blkfront_aio_enqueue io req (rq_aiocb (bd_reqs st req)) wr (bd_world st);
          st = st\<lparr>bd_world := w\<rparr>
      in if ret = Some EBUSY then
           enqueue_retry io bd req wr
             (blkdev_async_io_wait_slot io bd (blkdev_async_io_submit io bd st))
         else Some (ret, st))"

definition blkdev_async_io_nocheck ::
    "'w blkfront \<Rightarrow> addr \<Rightarrow> sector_t \<Rightarrow> sector_t \<Rightarrow> bool \<Rightarrow> addr \<Rightarrow> 'c blkdev_cb option \<Rightarrow>
     ('w, 'c, 'z) bdst_scheme \<Rightarrow> (io_err \<times> ('w, 'c, 'z) bdst_scheme) option" where
  "blkdev_async_io_nocheck io bd start len wr buffer cb st =
     (let (robj, pools) = mempool_pick (bd_reqpool (bd_tab st bd)) (bd_pools st);
          st = st\<lparr>bd_pools := pools\<rparr>
      in case robj of
           None \<Rightarrow> Some (Some EAGAIN, st)
         | Some robj \<Rightarrow>
             let d = bd_tab st bd;
                 req = obj_data (mp_objs (bd_pools st) robj);
                 st = st\<lparr>bd_reqs := (bd_reqs st)(req :=
                        \<lparr>rq_p_obj = robj, rq_bd = bd,
                         rq_aiocb = \<lparr>aio_dev = bd_dev d, aio_buf = buffer,
                           aio_offset = start * ucast (blkdev_ssize d),
                           aio_nbytes = len * ucast (blkdev_ssize d)\<rparr>,
                         rq_sector = start, rq_nb_sectors = len, rq_write = wr, rq_cb = cb\<rparr>)\<rparr>
             in enqueue_retry io bd req wr st)"

text \<open>The checks that \<open>blkdev_async_io\<close> and \<open>blkdev_sync_io\<close> begin with.\<close>

definition io_check :: "'w blkfront \<Rightarrow> blkdev \<Rightarrow> sector_t \<Rightarrow> bool \<Rightarrow> addr \<Rightarrow> io_err" where
  "io_check io d len wr buffer =
     (if wr \<and> bi_mode (bd_info d) AND (O_WRONLY OR O_RDWR) = 0 then Some EACCES
      else if (len * ucast (blkdev_ssize d)) div PAGE_SIZE io > BLKIF_MAX_SEGMENTS io then Some ENXIO
      else if buffer AND (ucast (blkdev_ssize d) - 1) \<noteq> 0 then Some EINVAL
      else None)"

definition blkdev_async_io ::
    "'w blkfront \<Rightarrow> addr \<Rightarrow> sector_t \<Rightarrow> sector_t \<Rightarrow> bool \<Rightarrow> addr \<Rightarrow> 'c blkdev_cb option \<Rightarrow>
     ('w, 'c, 'z) bdst_scheme \<Rightarrow> (io_err \<times> ('w, 'c, 'z) bdst_scheme) option" where
  "blkdev_async_io io bd start len wr buffer cb st =
     (case io_check io (bd_tab st bd) len wr buffer of
        Some e \<Rightarrow> Some (Some e, st)
      | None \<Rightarrow> blkdev_async_io_nocheck io bd start len wr buffer cb st)"

section \<open>Completions\<close>

definition blkdev_sync_io_cb :: "io_err \<Rightarrow> addr \<Rightarrow> ('w, 'c, 'z) bdst_scheme \<Rightarrow> ('w, 'c, 'z) bdst_scheme" where
  "blkdev_sync_io_cb ret iosync st =
     st\<lparr>bd_syncs := (bd_syncs st)(iosync :=
          \<lparr>ios_sem = ios_sem (bd_syncs st iosync) + 1, ios_ret = ret\<rparr>)\<rparr>"

text \<open>
  \<open>_blkdev_async_io_cb\<close>: the request is the struct around the \<open>aiocb\<close>. Its callback runs
  first, then the request goes back to its pool.
\<close>

definition blkdev_async_io_cb ::
    "(io_err \<Rightarrow> 'c \<Rightarrow> ('w, 'c, 'z) bdst_scheme \<Rightarrow> fault + ('w, 'c, 'z) bdst_scheme) \<Rightarrow>
     addr \<Rightarrow> io_err \<Rightarrow> ('w, 'c, 'z) bdst_scheme \<Rightarrow> fault + ('w, 'c, 'z) bdst_scheme" where
  "blkdev_async_io_cb call req ret st =
     (let r = bd_reqs st req; robj = rq_p_obj r
      in case (case rq_cb r of
                 None \<Rightarrow> Inr st
               | Some (Sync_io_cb iosync) \<Rightarrow> Inr (blkdev_sync_io_cb ret iosync st)
               | Some (User_cb c) \<Rightarrow> call ret c st) of
           Inl f \<Rightarrow> Inl f
         | Inr st \<Rightarrow> Inr (st\<lparr>bd_pools := mempool_put robj (bd_pools st)\<rparr>))"

text \<open>
  \<open>blkdev_poll_req\<close>: the front end calls \<open>aio_cb\<close> for every request it has completed, after
  its bytes have arrived.
\<close>

fun run_completions ::
    "(io_err \<Rightarrow> 'c \<Rightarrow> ('w, 'c, 'z) bdst_scheme \<Rightarrow> fault + ('w, 'c, 'z) bdst_scheme) \<Rightarrow>
     completion list \<Rightarrow> ('w, 'c, 'z) bdst_scheme \<Rightarrow> fault + ('w, 'c, 'z) bdst_scheme" where
  "run_completions call [] st = Inr st"
| "run_completions call ((req, ret, bs) # cs) st =
     (case blkdev_async_io_cb call req ret
             (st\<lparr>bd_mem := mem_write (aio_buf (rq_aiocb (bd_reqs st req))) bs (bd_mem st)\<rparr>) of
        Inl f \<Rightarrow> Inl f
      | Inr st \<Rightarrow> run_completions call cs st)"

definition blkdev_poll_req ::
    "'w blkfront \<Rightarrow> (io_err \<Rightarrow> 'c \<Rightarrow> ('w, 'c, 'z) bdst_scheme \<Rightarrow> fault + ('w, 'c, 'z) bdst_scheme) \<Rightarrow>
     addr \<Rightarrow> ('w, 'c, 'z) bdst_scheme \<Rightarrow> fault + ('w, 'c, 'z) bdst_scheme" where
  "blkdev_poll_req io call bd st =
     (let (cs, w) = blkfront_aio_poll io (bd_dev (bd_tab st bd)) (bd_world st)
      in run_completions call cs (st\<lparr>bd_world := w\<rparr>))"

section \<open>Synchronous I/O\<close>

text \<open>
  The two loops of \<open>blkdev_sync_io_nocheck\<close>; \<open>schedule()\<close> gives other threads the processor
  and does nothing to this one's state. The second loop's \<open>trydown\<close> takes the semaphore when
  the callback has raised it.
\<close>

partial_function (option) sync_setup ::
    "'w blkfront \<Rightarrow> (io_err \<Rightarrow> 'c \<Rightarrow> ('w, 'c, 'z) bdst_scheme \<Rightarrow> fault + ('w, 'c, 'z) bdst_scheme) \<Rightarrow>
     addr \<Rightarrow> sector_t \<Rightarrow> sector_t \<Rightarrow> bool \<Rightarrow> addr \<Rightarrow> addr \<Rightarrow> ('w, 'c, 'z) bdst_scheme \<Rightarrow>
     ((fault + io_err) \<times> ('w, 'c, 'z) bdst_scheme) option" where
  "sync_setup io call bd start len wr target iosync st =
     (case blkdev_async_io_nocheck io bd start len wr target (Some (Sync_io_cb iosync)) st of
        None \<Rightarrow> None
      | Some (ret, st) \<Rightarrow>
          let st = blkdev_async_io_submit io bd st
          in if ret = Some EAGAIN then
               (case blkdev_poll_req io call bd st of
                  Inl f \<Rightarrow> Some (Inl f, st)
                | Inr st \<Rightarrow> sync_setup io call bd start len wr target iosync st)
             else if ret = Some EBUSY then
               sync_setup io call bd start len wr target iosync (blkdev_async_io_wait_slot io bd st)
             else Some (Inr ret, st))"

partial_function (option) sync_wait ::
    "'w blkfront \<Rightarrow> (io_err \<Rightarrow> 'c \<Rightarrow> ('w, 'c, 'z) bdst_scheme \<Rightarrow> fault + ('w, 'c, 'z) bdst_scheme) \<Rightarrow>
     addr \<Rightarrow> addr \<Rightarrow> ('w, 'c, 'z) bdst_scheme \<Rightarrow> ((fault + io_err) \<times> ('w, 'c, 'z) bdst_scheme) option" where
  "sync_wait io call bd iosync st =
     (if ios_sem (bd_syncs st iosync) = 0 then
        (case blkdev_poll_req io call bd st of
           Inl f \<Rightarrow> Some (Inl f, st)
         | Inr st \<Rightarrow> sync_wait io call bd iosync st)
      else Some (Inr (ios_ret (bd_syncs st iosync)),
             st\<lparr>bd_syncs := (bd_syncs st)(iosync := (bd_syncs st iosync)
                  \<lparr>ios_sem := ios_sem (bd_syncs st iosync) - 1\<rparr>)\<rparr>))"

definition blkdev_sync_io_nocheck ::
    "'w blkfront \<Rightarrow> (io_err \<Rightarrow> 'c \<Rightarrow> ('w, 'c, 'z) bdst_scheme \<Rightarrow> fault + ('w, 'c, 'z) bdst_scheme) \<Rightarrow>
     addr \<Rightarrow> addr \<Rightarrow> sector_t \<Rightarrow> sector_t \<Rightarrow> bool \<Rightarrow> addr \<Rightarrow> ('w, 'c, 'z) bdst_scheme \<Rightarrow>
     ((fault + io_err) \<times> ('w, 'c, 'z) bdst_scheme) option" where
  "blkdev_sync_io_nocheck io call iosync bd start len wr target st =
     (let st = st\<lparr>bd_syncs := (bd_syncs st)(iosync := (bd_syncs st iosync)\<lparr>ios_sem := 0\<rparr>)\<rparr>
      in case sync_setup io call bd start len wr target iosync st of
           None \<Rightarrow> None
         | Some (Inl f, st) \<Rightarrow> Some (Inl f, st)
         | Some (Inr (Some e), st) \<Rightarrow> Some (Inr (Some e), st)
         | Some (Inr None, st) \<Rightarrow> sync_wait io call bd iosync st)"

definition blkdev_sync_io ::
    "'w blkfront \<Rightarrow> (io_err \<Rightarrow> 'c \<Rightarrow> ('w, 'c, 'z) bdst_scheme \<Rightarrow> fault + ('w, 'c, 'z) bdst_scheme) \<Rightarrow>
     addr \<Rightarrow> addr \<Rightarrow> sector_t \<Rightarrow> sector_t \<Rightarrow> bool \<Rightarrow> addr \<Rightarrow> ('w, 'c, 'z) bdst_scheme \<Rightarrow>
     ((fault + io_err) \<times> ('w, 'c, 'z) bdst_scheme) option" where
  "blkdev_sync_io io call iosync bd start len wr target st =
     (case io_check io (bd_tab st bd) len wr target of
        Some e \<Rightarrow> Some (Inr (Some e), st)
      | None \<Rightarrow> blkdev_sync_io_nocheck io call iosync bd start len wr target st)"

section \<open>The list of open devices\<close>

definition bd_holds :: "('w, 'c, 'z) bdst_scheme \<Rightarrow> addr list \<Rightarrow> bool" where
  "bd_holds st bds \<longleftrightarrow>
     dl_repr (bd_links st) \<lparr>dl_first = open_bd_list st, dl_last = last_opt bds\<rparr> bds"

lemma bd_holds_push:
  assumes h: "bd_holds st bds" and n: "bd \<notin> set bds"
  shows "bd_holds (bd_list_push bd st) (bd # bds)"
proof -
  have "dlseg (bd_links st) None bds None" "distinct bds" "open_bd_list st = hd_opt bds"
    using h by (simp_all add: bd_holds_def dl_repr_def)
  then show ?thesis using n
    by (cases bds) (auto simp: bd_holds_def dl_repr_def bd_list_push_def)
qed

lemma bd_holds_unlink:
  assumes h: "bd_holds st bds" and n: "bd \<in> set bds"
  shows "bd_holds (bd_list_unlink bd st) (remove1 bd bds)"
proof -
  from n obtain as bs where xs: "bds = as @ bd # bs" by (meson split_list)
  note r = h [unfolded bd_holds_def xs]
  have L: "bd_links st bd = \<lparr>dl_next = hd_opt bs, dl_prev = last_opt as\<rparr>"
    by (rule dl_repr_at [OF r])
  have d: "distinct (as @ bd # bs)" by (rule dl_repr_distinct [OF r])
  have "bd_holds (bd_list_unlink bd st) (as @ bs)"
  proof (cases as rule: rev_cases)
    case Nil
    with r L d show ?thesis
      by (cases bs) (auto simp: bd_holds_def dl_repr_def bd_list_unlink_def last_opt_Cons)
  next
    case (snoc as' a)
    with r L d show ?thesis
      by (cases bs) (auto simp: bd_holds_def dl_repr_def bd_list_unlink_def hd_opt_append
            last_opt_append last_opt_Cons split: option.splits)
  qed
  then show ?thesis using d by (simp add: xs distinct_remove1_append)
qed

lemma bd_holds_walk: "bd_holds st bds \<Longrightarrow> dlist_walk (dlist_next_el (bd_links st)) (open_bd_list st) = Some bds"
  using dl_repr_foreach(1) by (fastforce simp: bd_holds_def dlist_foreach_def)

lemma bd_list_simps [simp]:
  "bd_tab (bd_list_push bd st) = bd_tab st" "bd_pools (bd_list_push bd st) = bd_pools st"
  "bd_tab (bd_list_unlink bd st) = bd_tab st" "bd_pools (bd_list_unlink bd st) = bd_pools st"
  "bd_tab (blkdev_async_io_wait_slot io bd st) = bd_tab st"
  "bd_links (blkdev_async_io_wait_slot io bd st) = bd_links st"
  "open_bd_list (blkdev_async_io_wait_slot io bd st) = open_bd_list st"
  by (simp_all add: bd_list_push_def bd_list_unlink_def blkdev_async_io_wait_slot_def Let_def
      split: option.split)

lemma bd_holds_cong:
  "bd_links st' = bd_links st \<Longrightarrow> open_bd_list st' = open_bd_list st \<Longrightarrow> bd_holds st' bds = bd_holds st bds"
  by (simp add: bd_holds_def)

section \<open>Reachable states\<close>

text \<open>
  The states that opening and closing devices reach, with the multiset \<open>H\<close> of the handles
  that are open. The allocator does not return a struct that is still in use, only open
  handles are closed, and nothing but \<open>open_blkdev\<close> and \<open>close_blkdev\<close> changes the list.
\<close>

inductive bd_reach :: "'w blkfront \<Rightarrow> ('w, 'c) bdst \<Rightarrow> addr multiset \<Rightarrow> bool" for io :: "'w blkfront" where
  bd_start: "open_bd_list st = None \<Longrightarrow> bd_reach io st {#}"
| bd_open: "bd_reach io st H \<Longrightarrow> (\<And>bd. xbd = Some bd \<Longrightarrow> bd \<notin># H) \<Longrightarrow> size H < 2 ^ 32 - 1 \<Longrightarrow>
    open_blkdev io xbd xp xr i mode st = Some (Inr bd, st') \<Longrightarrow> bd_reach io st' (add_mset bd H)"
| bd_open_err: "bd_reach io st H \<Longrightarrow> (\<And>bd. xbd = Some bd \<Longrightarrow> bd \<notin># H) \<Longrightarrow>
    open_blkdev io xbd xp xr i mode st = Some (Inl e, st') \<Longrightarrow> bd_reach io st' H"
| bd_close: "bd_reach io st H \<Longrightarrow> bd \<in># H \<Longrightarrow> close_blkdev io bd st = (Inr (), st') \<Longrightarrow>
    bd_reach io st' (H - {#bd#})"
| bd_other: "bd_reach io st H \<Longrightarrow> bd_tab st' = bd_tab st \<Longrightarrow> bd_links st' = bd_links st \<Longrightarrow>
    open_bd_list st' = open_bd_list st \<Longrightarrow> bd_reach io st' H"

definition bd_inv :: "('w, 'c, 'z) bdst_scheme \<Rightarrow> addr multiset \<Rightarrow> bool" where
  "bd_inv st H \<longleftrightarrow>
     (\<exists>bds. bd_holds st bds \<and> set bds = set_mset H \<and>
        inj_on (\<lambda>bd. bd_id (bd_tab st bd)) (set_mset H) \<and>
        (\<forall>bd \<in># H. unat (bd_refcount (bd_tab st bd)) = count H bd \<and>
           (bd_exclusive (bd_tab st bd) \<longrightarrow> count H bd = 1)))"

lemma bd_inv_frame:
  assumes "bd_inv st H" and "bd_links st' = bd_links st" and "open_bd_list st' = open_bd_list st"
    and "\<And>bd. bd \<in># H \<Longrightarrow> bd_tab st' bd = bd_tab st bd"
  shows "bd_inv st' H"
proof -
  have "inj_on (\<lambda>bd. bd_id (bd_tab st' bd)) (set_mset H) \<longleftrightarrow> inj_on (\<lambda>bd. bd_id (bd_tab st bd)) (set_mset H)"
    by (rule inj_on_cong) (simp add: assms(4))
  then show ?thesis
    using assms(1) bd_holds_cong [OF assms(2,3)] assms(4) unfolding bd_inv_def by auto
qed

lemma open_new_cases:
  assumes "open_new_blkdev io xbd xp xr i mode st = (r, st')"
  shows "(\<exists>e. r = Inl e \<and> bd_links st' = bd_links st \<and> open_bd_list st' = open_bd_list st \<and>
            (\<forall>bd. xbd \<noteq> Some bd \<longrightarrow> bd_tab st' bd = bd_tab st bd)) \<or>
         (\<exists>bd. xbd = Some bd \<and> r = Inr bd \<and> bd_links st' = bd_links (bd_list_push bd st) \<and>
            open_bd_list st' = open_bd_list (bd_list_push bd st) \<and>
            (\<forall>x. x \<noteq> bd \<longrightarrow> bd_tab st' x = bd_tab st x) \<and> bd_id (bd_tab st' bd) = i \<and>
            bd_refcount (bd_tab st' bd) = 1)"
proof (cases xbd)
  case None
  then show ?thesis using assms by (auto simp: open_new_blkdev_def)
next
  case (Some bd)
  note xbd = this
  show ?thesis
  proof (cases "alloc_mempool_simple xp xr (MAX_REQUESTS io) (sizeof_blkdev_req io) (bd_pools st)")
    case (Inl e)
    then show ?thesis using assms xbd by (cases e) (auto simp: open_new_blkdev_def)
  next
    case (Inr pp)
    obtain pool pools where pp: "pp = (pool, pools)" by fastforce
    obtain f w where fw: "init_blkfront io (vbd_nname i) (bd_world st) = (f, w)" by fastforce
    note op = assms [unfolded open_new_blkdev_def xbd Inr pp option.case sum.case prod.case Let_def]
    show ?thesis
    proof (cases f)
      case None
      then show ?thesis using op fw by (auto split: sum.splits)
    next
      case (Some di)
      then show ?thesis using op fw xbd
        by (cases di; cases "open_bd_list st")
           (auto simp: bd_list_push_def split: sum.splits if_splits)
    qed
  qed
qed

lemma bd_inv_open_new:
  assumes inv: "bd_inv st H" and fresh: "\<And>bd. xbd = Some bd \<Longrightarrow> bd \<notin># H"
    and new: "\<And>bd. bd \<in># H \<Longrightarrow> bd_id (bd_tab st bd) \<noteq> i"
    and op: "open_new_blkdev io xbd xp xr i mode st = (r, st')"
  shows "bd_inv st' (case r of Inl e \<Rightarrow> H | Inr bd \<Rightarrow> add_mset bd H)"
  using open_new_cases [OF op]
proof (elim disjE exE conjE)
  fix e
  assume "r = Inl e" "bd_links st' = bd_links st" "open_bd_list st' = open_bd_list st"
    "\<forall>bd. xbd \<noteq> Some bd \<longrightarrow> bd_tab st' bd = bd_tab st bd"
  then show ?thesis using bd_inv_frame [OF inv, of st'] fresh by auto
next
  fix bd
  assume bd: "xbd = Some bd" "r = Inr bd" "bd_links st' = bd_links (bd_list_push bd st)"
    "open_bd_list st' = open_bd_list (bd_list_push bd st)"
    "\<forall>x. x \<noteq> bd \<longrightarrow> bd_tab st' x = bd_tab st x" "bd_id (bd_tab st' bd) = i"
    "bd_refcount (bd_tab st' bd) = 1"
  have nin: "bd \<notin># H" by (rule fresh [OF bd(1)])
  have same: "\<forall>x \<in># H. bd_tab st' x = bd_tab st x" using bd(5) nin by auto
  obtain bds where b: "bd_holds st bds" "set bds = set_mset H"
    "inj_on (\<lambda>bd. bd_id (bd_tab st bd)) (set_mset H)"
    "\<forall>bd \<in># H. unat (bd_refcount (bd_tab st bd)) = count H bd \<and>
           (bd_exclusive (bd_tab st bd) \<longrightarrow> count H bd = 1)"
    using inv unfolding bd_inv_def by blast
  have "bd_holds st' (bd # bds)"
    using bd_holds_push [OF b(1), of bd] nin b(2) bd_holds_cong [OF bd(3,4)] by simp
  moreover have "inj_on (\<lambda>bd. bd_id (bd_tab st' bd)) (set_mset (add_mset bd H))"
  proof -
    have "inj_on (\<lambda>bd. bd_id (bd_tab st' bd)) (set_mset H)"
      using b(3) same by (simp add: inj_on_def)
    moreover have "i \<notin> (\<lambda>bd. bd_id (bd_tab st' bd)) ` set_mset H" using same new by auto
    ultimately show ?thesis using nin bd(6) by simp
  qed
  moreover have "count H bd = 0" using nin by (simp add: not_in_iff)
  ultimately show ?thesis
    unfolding bd(2) sum.case bd_inv_def using b(2,4) bd(7) nin same
    by (intro exI [of _ "bd # bds"] conjI) (simp_all, blast)
qed

lemma bd_inv_open:
  assumes inv: "bd_inv st H" and fresh: "\<And>bd. xbd = Some bd \<Longrightarrow> bd \<notin># H"
    and room: "size H < 2 ^ 32 - 1 \<or> (\<exists>e. r = Inl e)"
    and op: "open_blkdev io xbd xp xr i mode st = Some (r, st')"
  shows "bd_inv st' (case r of Inl e \<Rightarrow> H | Inr bd \<Rightarrow> add_mset bd H)"
proof -
  obtain bds where b: "bd_holds st bds" "set bds = set_mset H"
    and i: "inj_on (\<lambda>bd. bd_id (bd_tab st bd)) (set_mset H)"
    and c: "\<forall>bd \<in># H. unat (bd_refcount (bd_tab st bd)) = count H bd \<and>
           (bd_exclusive (bd_tab st bd) \<longrightarrow> count H bd = 1)"
    using inv unfolding bd_inv_def by blast
  define A where "A \<longleftrightarrow> mode AND O_EXCL \<noteq> 0"
  show ?thesis
  proof (cases "find (\<lambda>bd. bd_id (bd_tab st bd) = i) bds")
    case None
    then have "\<And>bd. bd \<in># H \<Longrightarrow> bd_id (bd_tab st bd) \<noteq> i" using b(2) by (auto simp: find_None_iff)
    moreover have "open_new_blkdev io xbd xp xr i mode st = (r, st')"
      using op None by (simp add: open_blkdev_def bd_holds_walk [OF b(1)])
    ultimately show ?thesis using fresh by (intro bd_inv_open_new [OF inv]) auto
  next
    case (Some bd)
    then have bdH: "bd \<in># H" using b(2) by (metis find_Some_iff nth_mem)
    let ?st = "st\<lparr>bd_tab := (bd_tab st)(bd := (bd_tab st bd)\<lparr>bd_refcount := bd_refcount (bd_tab st bd) + 1\<rparr>)\<rparr>"
    note op' = op [unfolded open_blkdev_def bd_holds_walk [OF b(1)] option.case Some Let_def
        A_def [symmetric]]
    consider e where "r = Inl e" "st' = st"
      | "r = Inr bd" "\<not> bd_exclusive (bd_tab st bd)" "st' = ?st"
    proof (cases "A \<or> bd_exclusive (bd_tab st bd)")
      case True
      then show ?thesis using op' that(1) by (metis Pair_inject option.inject)
    next
      case False
      show ?thesis
      proof (cases "mode_denied mode (bi_mode (bd_info (bd_tab st bd)))")
        case True
        then have "(Inl (Errno EACCES), st) = (r, st')"
          using op' False by (simp only: if_True if_False option.inject)
        then show ?thesis by (intro that(1) [of "Errno EACCES"]) simp_all
      next
        case False
        then have "(Inr bd, ?st) = (r, st')"
          using op' \<open>\<not> (A \<or> bd_exclusive (bd_tab st bd))\<close>
          by (simp only: if_True if_False option.inject)
        then show ?thesis
          using \<open>\<not> (A \<or> bd_exclusive (bd_tab st bd))\<close> by (intro that(2)) simp_all
      qed
    qed
    then show ?thesis
    proof cases
      case 1
      then show ?thesis using inv by simp
    next
      case 2
      have "count H bd \<le> size H" by (rule count_le_size)
      then have "count H bd < 2 ^ 32 - 1" using room 2(1) by auto
      then have "unat (bd_refcount (bd_tab st bd) + 1) = count H bd + 1"
        using c bdH by (subst unat_add_less) auto
      moreover have "inj_on (\<lambda>x. bd_id (bd_tab st' x)) (set_mset H)"
        using i by (rule inj_on_cong [THEN iffD1, rotated]) (simp add: 2(3))
      moreover have "bd_holds st' bds" using b(1) 2(3) by (simp add: bd_holds_def)
      ultimately show ?thesis
        unfolding 2(1) sum.case bd_inv_def using b(2) bdH c 2(2,3)
        by (intro exI [of _ bds]) (auto simp: insert_absorb)
    qed
  qed
qed

lemma bd_inv_close:
  assumes inv: "bd_inv st H" and bd: "bd \<in># H" and cl: "close_blkdev io bd st = (Inr (), st')"
  shows "bd_inv st' (H - {#bd#})"
proof -
  obtain bds where b: "bd_holds st bds" "set bds = set_mset H"
    and i: "inj_on (\<lambda>bd. bd_id (bd_tab st bd)) (set_mset H)"
    and c: "\<forall>bd \<in># H. unat (bd_refcount (bd_tab st bd)) = count H bd \<and>
           (bd_exclusive (bd_tab st bd) \<longrightarrow> count H bd = 1)"
    using inv unfolding bd_inv_def by blast
  let ?d = "(bd_tab st bd)\<lparr>bd_refcount := bd_refcount (bd_tab st bd) - 1\<rparr>"
  let ?s = "st\<lparr>bd_tab := (bd_tab st)(bd := ?d)\<rparr>"
  have n0: "bd_refcount (bd_tab st bd) \<noteq> 0" using c bd by (metis count_eq_zero_iff unat_0)
  have ref: "unat (bd_refcount ?d) = count H bd - 1" using c bd n0 by (simp add: unat_sub_one)
  have hs: "bd_holds ?s bds" using b(1) by (simp add: bd_holds_def)
  have d: "distinct bds" using b(1) by (simp add: bd_holds_def dl_repr_def)
  have i': "inj_on (\<lambda>x. bd_id (bd_tab ?s x)) (set_mset (H - {#bd#}))"
    by (rule inj_on_subset [OF inj_on_cong [THEN iffD1, OF _ i]]) (auto dest: in_diffD)
  show ?thesis
  proof (cases "bd_refcount ?d = 0")
    case False
    then have n1: "count H bd \<noteq> 1" using ref by (metis diff_self_eq_0 unat_eq_0)
    have "1 < count H bd" using n1 bd by (metis count_eq_zero_iff less_one linorder_neqE_nat)
    then have "set_mset (H - {#bd#}) = set_mset H" using bd
      by (auto simp: in_diff_count simp flip: count_greater_zero_iff split: if_splits)
    moreover have "st' = ?s" using cl False by (simp add: close_blkdev_def Let_def)
    ultimately show ?thesis
      unfolding bd_inv_def using hs b(2) i' c ref bd n1
      by (intro exI [of _ bds]) (auto dest: in_diffD)
  next
    case True
    then have one: "count H bd = 1" using ref bd by (simp add: Suc_le_eq le_antisym)
    then have H: "set_mset (H - {#bd#}) = set_mset H - {bd}"
      by (auto simp: set_mset_diff)
    have "bd_holds (bd_list_unlink bd ?s) (remove1 bd bds)"
      using hs bd b(2) by (intro bd_holds_unlink) auto
    moreover have "bd_links st' = bd_links (bd_list_unlink bd ?s)"
      "open_bd_list st' = open_bd_list (bd_list_unlink bd ?s)" "bd_tab st' = bd_tab ?s"
      using cl True by (auto simp: close_blkdev_def Let_def split: sum.splits)
    ultimately show ?thesis
      unfolding bd_inv_def using b(2) d H i' c bd
      by (intro exI [of _ "remove1 bd bds"]) (auto simp: bd_holds_def dest: in_diffD)
  qed
qed

lemma bd_reach_inv: "bd_reach io st H \<Longrightarrow> bd_inv st H"
proof (induction rule: bd_reach.induct)
  case (bd_start st)
  then show ?case by (auto simp: bd_inv_def bd_holds_def dl_repr_def intro!: exI [of _ "[]"])
next
  case (bd_open st H xbd xp xr i mode bd st')
  from bd_inv_open [OF bd_open.IH _ _ bd_open.hyps(4)] bd_open.hyps(2,3) show ?case by auto
next
  case (bd_open_err st H xbd xp xr i mode e st')
  from bd_inv_open [OF bd_open_err.IH _ _ bd_open_err.hyps(3)] bd_open_err.hyps(2) show ?case by auto
next
  case (bd_close st H bd st')
  then show ?case by (intro bd_inv_close)
next
  case (bd_other st H st')
  then show ?case by (intro bd_inv_frame [of st H st']) simp_all
qed

section \<open>A small front end\<close>

text \<open>
  A front end to run the model on: its state is the list of the requests it has accepted, and
  a poll completes them all, each with the same eight bytes.
\<close>

definition sample_blkfront :: "(addr list) blkfront" where
  "sample_blkfront =
     \<lparr>init_blkfront = (\<lambda>_ w. (Some (64, \<lparr>bi_sectors = 2000, bi_sector_size = 512, bi_mode = 2\<rparr>), w)),
      shutdown_blkfront = (\<lambda>_ w. w),
      blkfront_aio_enqueue = (\<lambda>req _ _ w. (None, w @ [req])),
      blkfront_aio_submit = (\<lambda>_ w. w), blkfront_wait_slot = (\<lambda>_ w. w),
      blkfront_aio_poll = (\<lambda>_ w. (map (\<lambda>r. (r, None, [1, 2, 3, 4, 5, 6, 7, 8])) w, [])),
      MAX_REQUESTS = 1, PAGE_SIZE = 4096, BLKIF_MAX_SEGMENTS = 11, sizeof_aiocb = 64\<rparr>"

definition sample_blkdev :: blkdev where
  "sample_blkdev =
     \<lparr>bd_dev = 64, bd_info = \<lparr>bi_sectors = 2000, bi_sector_size = 512, bi_mode = 2\<rparr>,
      bd_reqpool = 0, bd_nname = [], bd_id = 768, bd_exclusive = False, bd_refcount = 1\<rparr>"

definition sample_req :: "'c blkdev_req" where
  "sample_req = \<lparr>rq_p_obj = 0, rq_bd = 0, rq_aiocb = \<lparr>aio_dev = 0, aio_buf = 0, aio_offset = 0,
     aio_nbytes = 0\<rparr>, rq_sector = 0, rq_nb_sectors = 0, rq_write = False, rq_cb = None\<rparr>"

definition sample_bdst :: "(addr list, addr) bdst" where
  "sample_bdst =
     \<lparr>bd_tab = (\<lambda>_. sample_blkdev), bd_links = (\<lambda>_. \<lparr>dl_next = None, dl_prev = None\<rparr>),
      open_bd_list = None, bd_pools = sample_pool, bd_reqs = (\<lambda>_. sample_req),
      bd_syncs = (\<lambda>_. \<lparr>ios_sem = 0, ios_ret = None\<rparr>), bd_mem = (\<lambda>_. 0), bd_world = []\<rparr>"

section \<open>Opening and closing in any order\<close>

text \<open>
  C15: however \<open>open_blkdev\<close> and \<open>close_blkdev\<close> are interleaved, failures included, the list
  of open devices is finite and holds exactly the devices with an open handle, each once and
  with an identifier of its own; the reference count of each is the number of its handles,
  and a device that was opened exclusively has a single one.
\<close>

theorem blkdev_refcounts:
  assumes "bd_reach io st H"
  shows "\<exists>bds. dlist_walk (dlist_next_el (bd_links st)) (open_bd_list st) = Some bds \<and>
           distinct bds \<and> set bds = set_mset H \<and> inj_on (\<lambda>bd. bd_id (bd_tab st bd)) (set bds) \<and>
           (\<forall>bd \<in> set bds. unat (bd_refcount (bd_tab st bd)) = count H bd \<and>
              (bd_exclusive (bd_tab st bd) \<longrightarrow> count H bd = 1))"
  using bd_reach_inv [OF assms] bd_holds_walk unfolding bd_inv_def
  by (metis (no_types, lifting) bd_holds_def dl_repr_distinct)

lemma sample_open:
  "\<exists>st'. open_blkdev sample_blkfront (Some 100) (Some 4096) (Some (replicate 2 None)) 768 O_EXCL sample_bdst
     = Some (Inr 100, st')"
proof -
  have sl: "length (replicate 2 None :: addr option list) = unat (push_bit (unat (log2 1 + 1)) (1 :: u32))"
    by (simp add: log2_def log2_loop.simps)
  have "\<exists>st'. alloc_mempool_simple (Some 4096) (Some (replicate 2 None)) 1 (sizeof_blkdev_req sample_blkfront)
      sample_pool = Inr (4096, st')"
    unfolding alloc_mempool_simple_def
    using alloc_pool_state [where nb = 1 and align = 0 and slots = "replicate 2 None" and p = 4096
        and sep = False and priv = 0 and headroom = 0 and tailroom = 0 and xd = None
        and sz = "sizeof_blkdev_req sample_blkfront" and st = sample_pool
        and init = None and pick = None and put = None] sl
    by (simp add: pool_addrs_def) blast
  then obtain ps where "alloc_mempool_simple (Some 4096) (Some (replicate 2 None)) 1
      (sizeof_blkdev_req sample_blkfront) sample_pool = Inr (4096, ps)" by blast
  then show ?thesis
    by (simp add: open_blkdev_def dlist_walk.simps sample_bdst_def open_new_blkdev_def Let_def
        mode_denied_def sample_blkfront_def)
qed

theorem blkdev_refcounts_witness:
  "\<exists>st' bds. open_blkdev sample_blkfront (Some 100) (Some 4096) (Some (replicate 2 None)) 768 O_EXCL sample_bdst
      = Some (Inr 100, st') \<and>
     dlist_walk (dlist_next_el (bd_links st')) (open_bd_list st') = Some bds \<and> set bds = {100} \<and>
     bd_refcount (bd_tab st' 100) = 1"
proof -
  obtain st' where st': "open_blkdev sample_blkfront (Some 100) (Some 4096) (Some (replicate 2 None)) 768
      O_EXCL sample_bdst = Some (Inr 100, st')" using sample_open by blast
  have "bd_reach sample_blkfront sample_bdst {#}" by (rule bd_start) (simp add: sample_bdst_def)
  from bd_open [OF this _ _ st'] have "bd_reach sample_blkfront st' {#100#}" by simp
  from blkdev_refcounts [OF this] st' show ?thesis by (auto simp: word_unat_eq_iff)
qed

section \<open>Sizes\<close>

text \<open>
  A device's size never exceeds the terabyte the front end can handle; as long as the
  true size fits 64 bits, a smaller device keeps its size and a larger one is cut to the
  whole sectors below the limit.
\<close>

theorem blkdev_size_limited:
  fixes bd :: blkdev
  defines "n \<equiv> unat (bi_sectors (bd_info bd))" and "s \<equiv> unat (bi_sector_size (bd_info bd))"
  shows "unat (blkdev_size bd) \<le> 2 ^ 40 \<and>
         (n * s < 2 ^ 64 \<longrightarrow> unat (blkdev_size bd) = (if n * s \<le> 2 ^ 40 then n * s else 2 ^ 40 div s * s))"
proof -
  let ?n = "bi_sectors (bd_info bd)" and ?s = "ucast (bi_sector_size (bd_info bd)) :: u64"
  have s: "unat ?s = s" by (simp add: s_def unat_ucast_widths)
  have cut: "unat (MAX_DISKSIZE div ?s * ?s) = 2 ^ 40 div s * s"
  proof -
    have "unat (MAX_DISKSIZE div ?s) * unat ?s \<le> unat MAX_DISKSIZE"
      unfolding unat_div by (rule div_times_less_eq_dividend)
    then have "unat (MAX_DISKSIZE div ?s) * unat ?s < 2 ^ LENGTH(64)"
      by (rule order_le_less_trans) simp
    from unat_mult_less [OF this] show ?thesis by (simp add: unat_div s)
  qed
  have big: "?n * ?s > MAX_DISKSIZE \<longleftrightarrow> 2 ^ 40 < unat (?n * ?s)" by (simp add: word_less_nat_alt)
  have eq: "unat (?n * ?s) = n * s" if "n * s < 2 ^ 64"
    using that by (subst unat_mult_less) (simp_all add: s n_def)
  have "2 ^ 40 div s * s \<le> 2 ^ 40" by (rule div_times_less_eq_dividend)
  then show ?thesis
    using cut big eq by (auto simp: blkdev_size_def blkdev_sectors_def blkdev_ssize_def)
qed

theorem blkdev_size_limited_witness:
  "unat (blkdev_size (sample_blkdev\<lparr>bd_info := \<lparr>bi_sectors = 0x80000001, bi_sector_size = 512, bi_mode = 0\<rparr>\<rparr>)) = 2 ^ 40"
  using blkdev_size_limited [of "sample_blkdev\<lparr>bd_info := \<lparr>bi_sectors = 0x80000001, bi_sector_size = 512, bi_mode = 0\<rparr>\<rparr>"]
  by simp

section \<open>Requests\<close>

text \<open>
  What \<open>blkdev_async_io_nocheck\<close> writes into the request it has picked.
\<close>

definition filled_req ::
    "blkdev \<Rightarrow> addr \<Rightarrow> addr \<Rightarrow> sector_t \<Rightarrow> sector_t \<Rightarrow> bool \<Rightarrow> addr \<Rightarrow> 'c blkdev_cb option \<Rightarrow> 'c blkdev_req" where
  "filled_req d bd robj start len wr buffer cb =
     \<lparr>rq_p_obj = robj, rq_bd = bd,
      rq_aiocb = \<lparr>aio_dev = bd_dev d, aio_buf = buffer, aio_offset = start * ucast (blkdev_ssize d),
        aio_nbytes = len * ucast (blkdev_ssize d)\<rparr>,
      rq_sector = start, rq_nb_sectors = len, rq_write = wr, rq_cb = cb\<rparr>"

lemma pool_free_put:
  assumes "pool_ok p objs st" and "x \<in> set objs" and "x \<notin> set (pool_free p st)"
  shows "pool_ok p objs (mempool_put x st)" and "pool_free p (mempool_put x st) = pool_free p st @ [x]"
proof -
  have x: "x \<in> pool_used_set p objs st" using assms by (simp add: pool_used_set_def)
  show "pool_ok p objs (mempool_put x st)" using pl.put_used [OF assms(1) x] by simp
  show "pool_free p (mempool_put x st) = pool_free p st @ [x]"
    using mempool_put_eq [OF assms(1), of x] assms(2,3) by (auto simp: pool_free_def)
qed

lemma pool_pick:
  assumes "pool_ok p objs st" and "pool_free p st = x # xs"
  shows "\<exists>st'. mempool_pick p st = (Some x, st') \<and> pool_ok p objs st' \<and> pool_free p st' = xs \<and>
           x \<in> set objs \<and> x \<notin> set xs"
proof -
  have x: "x \<in> set objs" "x \<notin> set xs" using assms by (auto simp: pool_ok_def)
  from mempool_pick_Some [OF assms] obtain st'
    where st': "mempool_pick p st = (Some x, st')" "pool_free p st' = xs"
    by (auto simp: pool_free_def)
  have "pool_free_set p st \<noteq> {}" using assms(2) by (simp add: pool_free_set_def)
  from pl.pick_some [OF assms(1) this] st' have "pool_ok p objs st'" by auto
  with st' x show ?thesis by blast
qed

text \<open>
  What the front end answers to a request: it reports a full ring \<open>k\<close> times, each time the
  wrapper submits and waits for a slot, and then it takes the request or refuses it with the result
  \<open>ret\<close>. The request's struct starts at the data of the object picked from the pool.
\<close>

fun answers :: "'w blkfront \<Rightarrow> addr \<Rightarrow> blkfront_aiocb \<Rightarrow> bool \<Rightarrow> nat \<Rightarrow> io_err \<Rightarrow> 'w \<Rightarrow> 'w \<Rightarrow> bool" where
  "answers io req acb wr 0 ret w w' \<longleftrightarrow> ret \<noteq> Some EBUSY \<and> blkfront_aio_enqueue io req acb wr w = (ret, w')"
| "answers io req acb wr (Suc k) ret w w' \<longleftrightarrow> fst (blkfront_aio_enqueue io req acb wr w) = Some EBUSY \<and>
     answers io req acb wr k ret (blkfront_wait_slot io (aio_dev acb)
       (blkfront_aio_submit io (aio_dev acb) (snd (blkfront_aio_enqueue io req acb wr w)))) w'"

definition req_at :: "('w, 'c, 'z) bdst_scheme \<Rightarrow> addr \<Rightarrow> addr \<Rightarrow> addr" where
  "req_at st bd x = obj_base (mp_objs (bd_pools st) x) + pool_headroom (mp_pools (bd_pools st) (bd_reqpool (bd_tab st bd)))"

lemma enqueue_retry_answers:
  assumes "answers io req (rq_aiocb (bd_reqs st req)) wr k ret (bd_world st) w'"
    and "aio_dev (rq_aiocb (bd_reqs st req)) = bd_dev (bd_tab st bd)"
  shows "enqueue_retry io bd req wr st = Some (ret, st\<lparr>bd_world := w'\<rparr>)"
  using assms
proof (induction k arbitrary: st)
  case 0
  then show ?case by (subst enqueue_retry.simps) simp
next
  case (Suc k)
  obtain w where w: "blkfront_aio_enqueue io req (rq_aiocb (bd_reqs st req)) wr (bd_world st) = (Some EBUSY, w)"
    using Suc.prems by (metis answers.simps(2) prod.collapse)
  let ?st = "blkdev_async_io_wait_slot io bd (blkdev_async_io_submit io bd (st\<lparr>bd_world := w\<rparr>))"
  have "enqueue_retry io bd req wr ?st = Some (ret, ?st\<lparr>bd_world := w'\<rparr>)"
    by (rule Suc.IH) (use Suc.prems w in \<open>simp_all add: blkdev_async_io_wait_slot_def blkdev_async_io_submit_def\<close>)
  then show ?case
    by (subst enqueue_retry.simps) (simp add: w blkdev_async_io_wait_slot_def blkdev_async_io_submit_def)
qed

text \<open>Conversely, the loop ends only with an answer.\<close>

lemma enqueue_retry_answered:
  fixes st :: "('w, 'c, 'z) bdst_scheme"
  shows "enqueue_retry io bd req wr st = Some r \<Longrightarrow> aio_dev (rq_aiocb (bd_reqs st req)) = bd_dev (bd_tab st bd) \<longrightarrow>
    (\<exists>k w'. answers io req (rq_aiocb (bd_reqs st req)) wr k (fst r) (bd_world st) w')"
proof (induction rule: enqueue_retry.raw_induct [rotated, consumes 1, case_names 1])
  case (1 retry io bd req wr st r)
  let ?acb = "rq_aiocb (bd_reqs st req)"
  obtain ret w where w: "blkfront_aio_enqueue io req ?acb wr (bd_world st) = (ret, w)" by fastforce
  show ?case
  proof (intro impI, cases "ret = Some EBUSY")
    case False
    then have "answers io req ?acb wr 0 (fst r) (bd_world st) w" using 1(2) w by (auto simp: Let_def)
    then show "\<exists>k w'. answers io req ?acb wr k (fst r) (bd_world st) w'" by blast
  next
    assume d: "aio_dev ?acb = bd_dev (bd_tab st bd)"
    case True
    let ?st = "blkdev_async_io_wait_slot io bd (blkdev_async_io_submit io bd (st\<lparr>bd_world := w\<rparr>))"
    have "retry io bd req wr ?st = Some r" using 1(2) w True by (simp add: Let_def)
    from 1(1) [OF this] d obtain k w' where "answers io req ?acb wr k (fst r) (bd_world ?st) w'"
      by (auto simp: blkdev_async_io_wait_slot_def blkdev_async_io_submit_def)
    then have "answers io req ?acb wr (Suc k) (fst r) (bd_world st) w'"
      using w True d by (simp add: blkdev_async_io_wait_slot_def blkdev_async_io_submit_def)
    then show "\<exists>k w'. answers io req ?acb wr k (fst r) (bd_world st) w'" by blast
  qed
qed

lemma pool_pick_data:
  assumes "pool_ok p objs P" and "pool_free p P = x # xs" and "mempool_pick p P = (Some x, P')"
  shows "obj_data (mp_objs P' x) = obj_base (mp_objs P x) + pool_headroom (mp_pools P p)"
  using mempool_pick_Some [OF assms(1,2)] assms(3) by (auto simp: reset_desc_def)

lemma nocheck_filled:
  assumes ok: "pool_ok (bd_reqpool (bd_tab st bd)) objs (bd_pools st)"
    and free: "pool_free (bd_reqpool (bd_tab st bd)) (bd_pools st) = x # xs"
  shows "\<exists>pools. blkdev_async_io_nocheck io bd start len wr buffer cb st =
           enqueue_retry io bd (req_at st bd x) wr (st\<lparr>bd_pools := pools,
             bd_reqs := (bd_reqs st)(req_at st bd x := filled_req (bd_tab st bd) bd x start len wr buffer cb)\<rparr>) \<and>
           pool_ok (bd_reqpool (bd_tab st bd)) objs pools \<and>
           pool_free (bd_reqpool (bd_tab st bd)) pools = xs \<and> x \<in> set objs \<and> x \<notin> set xs"
proof -
  from pool_pick [OF ok free] obtain pools where p: "mempool_pick (bd_reqpool (bd_tab st bd)) (bd_pools st)
      = (Some x, pools)" "pool_ok (bd_reqpool (bd_tab st bd)) objs pools"
    "pool_free (bd_reqpool (bd_tab st bd)) pools = xs" "x \<in> set objs" "x \<notin> set xs" by blast
  then show ?thesis
    by (intro exI [of _ pools])
       (simp add: blkdev_async_io_nocheck_def filled_req_def req_at_def pool_pick_data [OF ok free p(1)] Let_def)
qed

text \<open>
  C36: every outcome of \<open>blkdev_async_io\<close> on a device with a proper pool. A write on a read-only
  device, a request larger than the front end takes or a misaligned buffer is refused with nothing
  changed, and so is any request while the pool is empty (\<open>EAGAIN\<close>). Otherwise the front end is
  given the request picked from the pool, with the device, the buffer and the byte offset and length of
  the sectors, again and again while it reports a full ring. Its answer is returned, also when it is
  an error, and the request then stays picked: no one puts it back. If it never answers, the call
  does not return.
\<close>

theorem blkdev_async_io_outcomes:
  fixes start len :: sector_t and buffer :: addr
  assumes ok: "pool_ok (bd_reqpool (bd_tab st bd)) objs (bd_pools st)"
  defines "d \<equiv> bd_tab st bd"
  defines "acb \<equiv> \<lparr>aio_dev = bd_dev d, aio_buf = buffer, aio_offset = start * ucast (blkdev_ssize d),
    aio_nbytes = len * ucast (blkdev_ssize d)\<rparr>"
  shows "(case io_check io d len wr buffer of
            Some e \<Rightarrow> blkdev_async_io io bd start len wr buffer cb st = Some (Some e, st)
          | None \<Rightarrow>
              (case pool_free (bd_reqpool d) (bd_pools st) of
                 [] \<Rightarrow> blkdev_async_io io bd start len wr buffer cb st = Some (Some EAGAIN, st)
               | x # xs \<Rightarrow>
                   (\<forall>k ret w. answers io (req_at st bd x) acb wr k ret (bd_world st) w \<longrightarrow>
                      (\<exists>st'. blkdev_async_io io bd start len wr buffer cb st = Some (ret, st') \<and>
                         bd_reqs st' = (bd_reqs st)(req_at st bd x := filled_req d bd x start len wr buffer cb) \<and>
                         pool_free (bd_reqpool d) (bd_pools st') = xs \<and>
                         x \<in> pool_used_set (bd_reqpool d) objs (bd_pools st') \<and>
                         bd_world st' = w \<and> bd_mem st' = bd_mem st)) \<and>
                   ((\<nexists>k ret w. answers io (req_at st bd x) acb wr k ret (bd_world st) w) \<longrightarrow>
                      blkdev_async_io io bd start len wr buffer cb st = None)))"
proof (cases "io_check io d len wr buffer")
  case (Some e)
  then show ?thesis by (simp add: blkdev_async_io_def d_def)
next
  case chk: None
  show ?thesis
  proof (cases "pool_free (bd_reqpool d) (bd_pools st)")
    case Nil
    then have "mempool_pick (bd_reqpool (bd_tab st bd)) (bd_pools st) = (None, bd_pools st)"
      using ok by (intro mempool_pick_None) (simp_all add: d_def)
    then show ?thesis
      using chk Nil by (simp add: blkdev_async_io_def blkdev_async_io_nocheck_def d_def)
  next
    case (Cons x xs)
    from nocheck_filled [OF ok Cons [unfolded d_def]] obtain pools where n:
      "blkdev_async_io_nocheck io bd start len wr buffer cb st =
         enqueue_retry io bd (req_at st bd x) wr (st\<lparr>bd_pools := pools,
           bd_reqs := (bd_reqs st)(req_at st bd x := filled_req d bd x start len wr buffer cb)\<rparr>)"
      (is "_ = enqueue_retry _ _ ?r _ ?st")
      "pool_free (bd_reqpool d) pools = xs" "x \<in> set objs" "x \<notin> set xs" unfolding d_def by blast
    have a: "rq_aiocb (bd_reqs ?st ?r) = acb" "aio_dev (rq_aiocb (bd_reqs ?st ?r)) = bd_dev (bd_tab ?st bd)"
      by (simp_all add: filled_req_def acb_def d_def)
    have eq: "blkdev_async_io io bd start len wr buffer cb st = enqueue_retry io bd ?r wr ?st"
      using chk n(1) by (simp add: blkdev_async_io_def d_def)
    have 1: "enqueue_retry io bd ?r wr ?st = Some (ret, ?st\<lparr>bd_world := w\<rparr>)"
      if "answers io ?r acb wr k ret (bd_world st) w" for k ret w
      by (rule enqueue_retry_answers [OF _ a(2)]) (use that a(1) in simp)
    have 2: "\<exists>k w. answers io ?r acb wr k (fst r) (bd_world st) w" if "enqueue_retry io bd ?r wr ?st = Some r" for r
      using enqueue_retry_answered [OF that] a by simp
    show ?thesis
      unfolding chk option.case Cons list.case eq
      using 1 2 n(2-4) by (intro conjI allI impI; cases "enqueue_retry io bd ?r wr ?st")
        (fastforce simp: pool_used_set_def)+
  qed
qed

lemma sample_bdst_simps:
  "bd_tab sample_bdst bd = sample_blkdev" "bd_reqpool sample_blkdev = 0"
  "bd_pools sample_bdst = sample_pool" "bd_world sample_bdst = []"
  "bd_info sample_blkdev = \<lparr>bi_sectors = 2000, bi_sector_size = 512, bi_mode = 2\<rparr>"
  "blkdev_ssize sample_blkdev = 512" "bd_dev sample_blkdev = 64"
  by (simp_all add: sample_bdst_def sample_blkdev_def blkdev_ssize_def)

text \<open>A front end whose ring is full at the first attempt and which then refuses the request.\<close>

definition full_blkfront :: "(addr list) blkfront" where
  "full_blkfront = sample_blkfront\<lparr>blkfront_aio_enqueue := (\<lambda>req _ _ w. if w = [] then (Some EBUSY, [req]) else (Some EIO, w))\<rparr>"

theorem blkdev_async_io_outcomes_witness:
  "\<exists>st' req. blkdev_async_io full_blkfront 9 4 1 False 4096 None sample_bdst = Some (Some EIO, st') \<and>
     aio_offset (rq_aiocb (bd_reqs st' req)) = 2048 \<and> 100 \<in> pool_used_set 0 [100, 200] (bd_pools st')"
proof -
  let ?r = "req_at sample_bdst 9 100"
  have ok: "pool_ok (bd_reqpool (bd_tab sample_bdst 9)) [100, 200] (bd_pools sample_bdst)"
    and free: "pool_free (bd_reqpool (bd_tab sample_bdst 9)) (bd_pools sample_bdst) = [100]"
    using sample_pool_ok by (simp_all add: sample_bdst_simps)
  have chk: "io_check full_blkfront (bd_tab sample_bdst 9) 1 False 4096 = None"
    by (simp add: io_check_def sample_bdst_simps full_blkfront_def sample_blkfront_def)
  let ?acb = "\<lparr>aio_dev = 64, aio_buf = 4096, aio_offset = 2048, aio_nbytes = 512\<rparr>"
  have an: "answers full_blkfront ?r ?acb False (Suc 0) (Some EIO) [] [?r]"
    by (simp add: full_blkfront_def sample_blkfront_def)
  from blkdev_async_io_outcomes [OF ok, where io = full_blkfront and wr = False and len = 1 and buffer = 4096
      and start = 4 and cb = None, unfolded chk free option.case list.case, THEN conjunct1, rule_format, of "Suc 0" "Some EIO" "[?r]"] an
  obtain st' where st': "blkdev_async_io full_blkfront 9 4 1 False 4096 None sample_bdst = Some (Some EIO, st')"
    and req: "bd_reqs st' = (bd_reqs sample_bdst)(?r := filled_req sample_blkdev 9 100 4 1 False 4096 None)"
    and used: "100 \<in> pool_used_set 0 [100, 200] (bd_pools st')"
    by (auto simp: sample_bdst_simps simp del: answers.simps)
  have "aio_offset (rq_aiocb (bd_reqs st' ?r)) = 2048"
    unfolding req by (simp add: filled_req_def sample_bdst_simps)
  with st' used show ?thesis by blast
qed

section \<open>Waiting for a synchronous request\<close>

text \<open>
  What the front end does for a request it has accepted: polls find nothing for a while, and
  then one completes it with result \<open>ret\<close> and the bytes \<open>bs\<close>.
\<close>

fun delivers :: "'w blkfront \<Rightarrow> addr \<Rightarrow> addr \<Rightarrow> io_err \<Rightarrow> u8 list \<Rightarrow> nat \<Rightarrow> 'w \<Rightarrow> bool" where
  "delivers io dev req ret bs 0 w \<longleftrightarrow> fst (blkfront_aio_poll io dev w) = [(req, ret, bs)]"
| "delivers io dev req ret bs (Suc n) w \<longleftrightarrow>
     fst (blkfront_aio_poll io dev w) = [] \<and>
     delivers io dev req ret bs n (snd (blkfront_aio_poll io dev w))"

lemma sync_wait_delivers:
  assumes "delivers io (bd_dev (bd_tab st bd)) req ret bs n (bd_world st)"
    and "ios_sem (bd_syncs st iosync) = 0" and "rq_cb (bd_reqs st req) = Some (Sync_io_cb iosync)"
  shows "\<exists>st'. sync_wait io call bd iosync st = Some (Inr ret, st') \<and>
           bd_mem st' = mem_write (aio_buf (rq_aiocb (bd_reqs st req))) bs (bd_mem st) \<and>
           bd_pools st' = mempool_put (rq_p_obj (bd_reqs st req)) (bd_pools st) \<and>
           bd_tab st' = bd_tab st \<and> bd_links st' = bd_links st \<and> open_bd_list st' = open_bd_list st"
  using assms
proof (induction n arbitrary: st)
  case 0
  obtain w where "blkfront_aio_poll io (bd_dev (bd_tab st bd)) (bd_world st) = ([(req, ret, bs)], w)"
    using 0 by (metis delivers.simps(1) prod.collapse)
  then show ?case using 0
    by (simp add: sync_wait.simps [of _ _ _ _ st] blkdev_poll_req_def blkdev_async_io_cb_def
        blkdev_sync_io_cb_def Let_def) (simp add: sync_wait.simps)
next
  case (Suc n)
  obtain w where w: "blkfront_aio_poll io (bd_dev (bd_tab st bd)) (bd_world st) = ([], w)"
    using Suc.prems by (metis delivers.simps(2) prod.collapse)
  have "sync_wait io call bd iosync st = sync_wait io call bd iosync (st\<lparr>bd_world := w\<rparr>)"
    using Suc.prems w by (simp add: sync_wait.simps [of _ _ _ _ st] blkdev_poll_req_def)
  with Suc.IH [of "st\<lparr>bd_world := w\<rparr>"] Suc.prems w show ?case by simp
qed

lemma sync_io_delivers:
  assumes chk: "io_check io (bd_tab st bd) len wr target = None"
    and ok: "pool_ok (bd_reqpool (bd_tab st bd)) objs (bd_pools st)"
    and free: "pool_free (bd_reqpool (bd_tab st bd)) (bd_pools st) = x # xs"
    and enq: "answers io (req_at st bd x) \<lparr>aio_dev = bd_dev (bd_tab st bd), aio_buf = target,
        aio_offset = start * ucast (blkdev_ssize (bd_tab st bd)),
        aio_nbytes = len * ucast (blkdev_ssize (bd_tab st bd))\<rparr> wr k None (bd_world st) w"
    and del: "delivers io (bd_dev (bd_tab st bd)) (req_at st bd x) ret bs n
                (blkfront_aio_submit io (bd_dev (bd_tab st bd)) w)"
  shows "\<exists>st'. blkdev_sync_io io call iosync bd start len wr target st = Some (Inr ret, st') \<and>
           bd_mem st' = mem_write target bs (bd_mem st) \<and>
           pool_ok (bd_reqpool (bd_tab st bd)) objs (bd_pools st') \<and>
           pool_free (bd_reqpool (bd_tab st bd)) (bd_pools st') = xs @ [x] \<and> bd_tab st' = bd_tab st"
proof -
  let ?p = "bd_reqpool (bd_tab st bd)" and ?cb = "Some (Sync_io_cb iosync)" and ?req = "req_at st bd x"
  let ?st0 = "st\<lparr>bd_syncs := (bd_syncs st)(iosync := (bd_syncs st iosync)\<lparr>ios_sem := 0\<rparr>)\<rparr>"
  let ?f = "filled_req (bd_tab st bd) bd x start len wr target ?cb"
  have "req_at ?st0 bd x = ?req" by (simp add: req_at_def)
  with nocheck_filled [of ?st0 bd objs x xs io start len wr target ?cb] ok free
  obtain pools where n: "blkdev_async_io_nocheck io bd start len wr target ?cb ?st0 =
      enqueue_retry io bd ?req wr (?st0\<lparr>bd_pools := pools, bd_reqs := (bd_reqs st)(?req := ?f)\<rparr>)"
    and p: "pool_ok ?p objs pools" "pool_free ?p pools = xs" "x \<in> set objs" "x \<notin> set xs" by auto
  have "enqueue_retry io bd ?req wr (?st0\<lparr>bd_pools := pools, bd_reqs := (bd_reqs st)(?req := ?f)\<rparr>) =
      Some (None, ?st0\<lparr>bd_pools := pools, bd_reqs := (bd_reqs st)(?req := ?f), bd_world := w\<rparr>)"
    by (subst enqueue_retry_answers) (use enq in \<open>simp_all add: filled_req_def\<close>)
  then have n: "blkdev_async_io_nocheck io bd start len wr target ?cb ?st0 =
      Some (None, ?st0\<lparr>bd_pools := pools, bd_reqs := (bd_reqs st)(?req := ?f), bd_world := w\<rparr>)"
    by (simp only: n)
  let ?st1 = "blkdev_async_io_submit io bd (?st0\<lparr>bd_pools := pools, bd_reqs := (bd_reqs st)(?req := ?f), bd_world := w\<rparr>)"
  have su: "sync_setup io call bd start len wr target iosync ?st0 = Some (Inr None, ?st1)"
    by (subst sync_setup.simps) (simp add: n)
  have r: "rq_cb (bd_reqs ?st1 ?req) = Some (Sync_io_cb iosync)" "rq_p_obj (bd_reqs ?st1 ?req) = x"
    "aio_buf (rq_aiocb (bd_reqs ?st1 ?req)) = target" "bd_pools ?st1 = pools" "bd_mem ?st1 = bd_mem st"
    "bd_tab ?st1 = bd_tab st" "ios_sem (bd_syncs ?st1 iosync) = 0"
    "bd_world ?st1 = blkfront_aio_submit io (bd_dev (bd_tab st bd)) w"
    by (simp_all add: blkdev_async_io_submit_def filled_req_def)
  from sync_wait_delivers [of io ?st1 bd ?req ret bs n iosync call] del r
  obtain st' where st': "sync_wait io call bd iosync ?st1 = Some (Inr ret, st')"
    "bd_mem st' = mem_write target bs (bd_mem st)" "bd_pools st' = mempool_put x pools"
    "bd_tab st' = bd_tab st" by auto
  have "blkdev_sync_io io call iosync bd start len wr target st = Some (Inr ret, st')"
    using chk su st'(1) by (simp add: blkdev_sync_io_def blkdev_sync_io_nocheck_def)
  then show ?thesis using st' pool_free_put [OF p(1,3)] p(2,4) by auto
qed

text \<open>
  C17: a synchronous request returns. Let the pool have a request \<open>x\<close>, and the front end take it,
  after reporting a full ring \<open>k\<close> times, as a request on the device for the byte offset and length of
  the sectors and for the target buffer, and complete it after any number of polls. Then
  \<open>blkdev_sync_io\<close> comes back with the completion's result, the bytes it delivered are in the
  target buffer and the request is back in its pool.
\<close>

theorem blkdev_sync_io_returns:
  assumes chk: "io_check io (bd_tab st bd) len wr target = None"
    and ok: "pool_ok (bd_reqpool (bd_tab st bd)) objs (bd_pools st)"
    and free: "pool_free (bd_reqpool (bd_tab st bd)) (bd_pools st) = x # xs"
    and enq: "answers io (req_at st bd x) \<lparr>aio_dev = bd_dev (bd_tab st bd), aio_buf = target,
        aio_offset = start * ucast (blkdev_ssize (bd_tab st bd)),
        aio_nbytes = len * ucast (blkdev_ssize (bd_tab st bd))\<rparr> wr k None (bd_world st) w"
    and del: "delivers io (bd_dev (bd_tab st bd)) (req_at st bd x) ret bs n
                (blkfront_aio_submit io (bd_dev (bd_tab st bd)) w)"
  shows "\<exists>st'. blkdev_sync_io io call iosync bd start len wr target st = Some (Inr ret, st') \<and>
           bd_mem st' = mem_write target bs (bd_mem st) \<and>
           pool_ok (bd_reqpool (bd_tab st bd)) objs (bd_pools st') \<and>
           pool_free (bd_reqpool (bd_tab st bd)) (bd_pools st') = xs @ [x] \<and> bd_tab st' = bd_tab st"
  by (rule sync_io_delivers [OF chk ok free enq del])

section \<open>A small disk\<close>

text \<open>
  A front end with a disk behind it: byte \<open>i\<close> of the disk is \<open>i div 512\<close>. It holds the requests it
  has taken, reports a full ring to the first attempt, and a poll completes all of them.
\<close>

type_synonym disk_world = "nat \<times> (addr \<times> blkfront_aiocb) list"

definition disk_bytes :: "nat \<Rightarrow> u8" where
  "disk_bytes i = of_nat (i div 512)"

definition disk_part :: "nat \<Rightarrow> nat \<Rightarrow> u8 list" where
  "disk_part off n = map disk_bytes [off..<off + n]"

lemma disk_part_simps [simp]: "length (disk_part off n) = n" "i < n \<Longrightarrow> disk_part off n ! i = disk_bytes (off + i)"
  by(simp_all add: disk_part_def)

definition disk_blkfront :: "disk_world blkfront" where
  "disk_blkfront =
     \<lparr>init_blkfront = (\<lambda>_ w. (Some (64, \<lparr>bi_sectors = 2000, bi_sector_size = 512, bi_mode = 2\<rparr>), w)),
      shutdown_blkfront = (\<lambda>_ w. w),
      blkfront_aio_enqueue = (\<lambda>req acb _ (n, rs). if n = 0 then (Some EBUSY, (1, rs)) else (None, (n, rs @ [(req, acb)]))),
      blkfront_aio_submit = (\<lambda>_ w. w), blkfront_wait_slot = (\<lambda>_ w. w),
      blkfront_aio_poll = (\<lambda>_ (n, rs). (map (\<lambda>(req, acb). (req, None,
          disk_part (unat (aio_offset acb)) (unat (aio_nbytes acb)))) rs, (n, []))),
      MAX_REQUESTS = 1, PAGE_SIZE = 4096, BLKIF_MAX_SEGMENTS = 11, sizeof_aiocb = 64\<rparr>"

definition disk_bdst :: "(disk_world, addr) bdst" where
  "disk_bdst =
     \<lparr>bd_tab = (\<lambda>_. sample_blkdev), bd_links = (\<lambda>_. \<lparr>dl_next = None, dl_prev = None\<rparr>),
      open_bd_list = None, bd_pools = sample_pool, bd_reqs = (\<lambda>_. sample_req),
      bd_syncs = (\<lambda>_. \<lparr>ios_sem = 0, ios_ret = None\<rparr>), bd_mem = (\<lambda>_. 0), bd_world = (0, [])\<rparr>"

theorem blkdev_sync_io_returns_witness:
  "\<exists>st'. blkdev_sync_io disk_blkfront (\<lambda>_ _. Inr) 7 9 3 2 False 4096 disk_bdst = Some (Inr None, st') \<and>
     bd_mem st' 4096 = 3 \<and> bd_mem st' 4607 = 3 \<and> bd_mem st' 4608 = 4 \<and> pool_free 0 (bd_pools st') = [100]"
proof -
  let ?st = disk_bdst and ?bs = "disk_part 1536 1024"
  let ?acb = "\<lparr>aio_dev = 64, aio_buf = 4096, aio_offset = 1536, aio_nbytes = 1024\<rparr>"
  have s: "bd_tab ?st 9 = sample_blkdev" "bd_pools ?st = sample_pool" "bd_world ?st = (0, [])" "bd_mem ?st = (\<lambda>_. 0)"
    by (simp_all add: disk_bdst_def)
  have enq: "answers disk_blkfront (req_at ?st 9 100) ?acb False (Suc 0) None (bd_world ?st) (1, [(req_at ?st 9 100, ?acb)])"
    by (simp add: disk_blkfront_def s)
  have del: "delivers disk_blkfront 64 (req_at ?st 9 100) None ?bs 0
      (blkfront_aio_submit disk_blkfront 64 (1, [(req_at ?st 9 100, ?acb)]))"
    by (simp add: disk_blkfront_def)
  have chk: "io_check disk_blkfront (bd_tab ?st 9) 2 False 4096 = None"
    by (simp add: io_check_def s sample_bdst_simps disk_blkfront_def)
  have "pool_ok (bd_reqpool (bd_tab ?st 9)) [100, 200] (bd_pools ?st)"
    "pool_free (bd_reqpool (bd_tab ?st 9)) (bd_pools ?st) = 100 # []"
    using sample_pool_ok by (simp_all add: s sample_bdst_simps)
  note R = blkdev_sync_io_returns [OF chk this, where start = 3 and k = "Suc 0" and n = 0 and ret = None and bs = ?bs
      and w = "(1, [(req_at ?st 9 100, ?acb)])" and iosync = 7 and call = "\<lambda>_ _. Inr"]
  obtain st' where "blkdev_sync_io disk_blkfront (\<lambda>_ _. Inr) 7 9 3 2 False 4096 ?st = Some (Inr None, st')"
    "bd_mem st' = mem_write 4096 ?bs (\<lambda>_. 0)" "pool_free 0 (bd_pools st') = [100]"
    using R enq del by (auto simp: s sample_bdst_simps simp del: answers.simps delivers.simps)
  then show ?thesis by (intro exI [of _ st']) (simp add: mem_write_def disk_bytes_def)
qed

section \<open>Detecting devices\<close>

lemma detect_loop_eq:
  "length found \<le> n \<Longrightarrow>
   detect_loop es n found = take n (found @ List.map_filter blkdev_id_parse es)"
  by (induction es n found rule: detect_loop.induct)
     (auto simp: List.map_filter_simps split: option.splits)

end
