(* ===== verification/Aio.thy ===== *)
theory Aio
  imports Prelude ShfsDefs Blkdev
begin

text \<open>
  Chunk I/O on a mounted volume (\<open>shfs/shfs.h\<close>, the second half of \<open>shfs/shfs.c\<close>): tokens
  for requests in flight, the striping of chunks over the members, waiting, and the
  synchronous reads built on them.

  The volume's state extends that of the block devices. A token's callback is a function
  pointer with its cookie and argument: the chunk cache's \<open>_cce_aiocb\<close>, the hash-table
  loader's \<open>_load_vol_htable_cb\<close>, or a caller's; \<open>ucb\<close> runs it.
\<close>

section \<open>State\<close>

datatype 'u shfs_aiocb = Cce_aiocb addr | Load_htable_cb addr | User_aiocb 'u

record 'u aio_token =
  tk_p_obj :: addr
  tk_infly :: u64
  tk_ret :: io_err
  tk_cb :: "'u shfs_aiocb option"
  tk_prev :: "addr option"
  tk_next :: "addr option"

record vol_member =
  vm_bd :: addr
  vm_uuid :: uuid_t
  vm_sfactor :: sector_t

text \<open>
  The fields of \<open>shfs_vol\<close> that chunk I/O uses, \<open>shfs_mounted\<close>, and the token pool with the
  tokens by the address of their data.
\<close>

record ('w, 'u) aiost = "('w, addr) bdst" +
  shfs_mounted :: bool
  vol_nb_members :: u8
  vol_member :: "vol_member list"
  vol_stripesize :: u32
  vol_stripemode :: u8
  vol_chunksize :: u32
  vol_volsize :: chk_t
  vol_ioalign :: u32
  vol_aiotoken_pool :: addr
  vol_toks :: "(addr \<Rightarrow> 'u aio_token) mpstate"

abbreviation NB_AIOTOKEN :: u32 where "NB_AIOTOKEN \<equiv> 750"

definition tok :: "('w, 'u, 'z) aiost_scheme \<Rightarrow> addr \<Rightarrow> 'u aio_token" where
  "tok st t = mp_mem (vol_toks st) t"

definition upd_tok :: "addr \<Rightarrow> ('u aio_token \<Rightarrow> 'u aio_token) \<Rightarrow> ('w, 'u, 'z) aiost_scheme \<Rightarrow> ('w, 'u, 'z) aiost_scheme" where
  "upd_tok t f st = st\<lparr>vol_toks := (vol_toks st)\<lparr>mp_mem := (mp_mem (vol_toks st))(t := f (tok st t))\<rparr>\<rparr>"

section \<open>Tokens\<close>

text \<open>\<open>_aiotoken_pool_objinit\<close>, which the pool calls at every pick.\<close>

definition aiotoken_pool_objinit :: "addr \<Rightarrow> mempool_obj \<Rightarrow> (addr \<Rightarrow> 'u aio_token) \<Rightarrow> (addr \<Rightarrow> 'u aio_token)" where
  "aiotoken_pool_objinit t_obj desc m =
     (let t = obj_data desc
      in m(t := (m t)\<lparr>tk_p_obj := t_obj, tk_ret := None, tk_infly := 0, tk_cb := None\<rparr>))"

definition shfs_aio_pick_token :: "('w, 'u, 'z) aiost_scheme \<Rightarrow> addr option \<times> ('w, 'u, 'z) aiost_scheme" where
  "shfs_aio_pick_token st =
     (let (t_obj, ts) = mempool_pick (vol_aiotoken_pool st) (vol_toks st);
          st = st\<lparr>vol_toks := ts\<rparr>
      in case t_obj of
           None \<Rightarrow> (None, st)
         | Some t_obj \<Rightarrow> (Some (obj_data (mp_objs ts t_obj)), st))"

definition shfs_aio_put_token :: "addr \<Rightarrow> ('w, 'u, 'z) aiost_scheme \<Rightarrow> ('w, 'u, 'z) aiost_scheme" where
  "shfs_aio_put_token t st = st\<lparr>vol_toks := mempool_put (tk_p_obj (tok st t)) (vol_toks st)\<rparr>"

definition shfs_aio_is_done :: "addr option \<Rightarrow> ('w, 'u, 'z) aiost_scheme \<Rightarrow> bool" where
  "shfs_aio_is_done t st = (case t of None \<Rightarrow> True | Some t \<Rightarrow> tk_infly (tok st t) = 0)"

definition shfs_aio_finalize :: "addr \<Rightarrow> ('w, 'u, 'z) aiost_scheme \<Rightarrow> fault + (io_err \<times> ('w, 'u, 'z) aiost_scheme)" where
  "shfs_aio_finalize t st =
     (if tk_infly (tok st t) \<noteq> 0 then Inl Bug_on
      else Inr (tk_ret (tok st t), shfs_aio_put_token t st))"

text \<open>\<open>_shfs_aio_cb\<close>: the callback of every block request of a token.\<close>

definition shfs_aio_cb ::
    "('u shfs_aiocb \<Rightarrow> addr \<Rightarrow> ('w, 'u, 'z) aiost_scheme \<Rightarrow> fault + ('w, 'u, 'z) aiost_scheme) \<Rightarrow>
     io_err \<Rightarrow> addr \<Rightarrow> ('w, 'u, 'z) aiost_scheme \<Rightarrow> fault + ('w, 'u, 'z) aiost_scheme" where
  "shfs_aio_cb ucb ret t st =
     (let st = upd_tok t (\<lambda>k. k\<lparr>tk_ret := (case ret of None \<Rightarrow> tk_ret k | Some e \<Rightarrow> Some e)\<rparr>) st;
          st = upd_tok t (\<lambda>k. k\<lparr>tk_infly := tk_infly k - 1\<rparr>) st
      in if tk_infly (tok st t) = 0 then
           (case tk_cb (tok st t) of None \<Rightarrow> Inr st | Some c \<Rightarrow> ucb c t st)
         else Inr st)"

section \<open>All members\<close>

definition shfs_blkdevs_count :: "('w, 'u, 'z) aiost_scheme \<Rightarrow> nat" where
  "shfs_blkdevs_count st = (if shfs_mounted st then unat (vol_nb_members st) else 0)"

definition member_bd :: "('w, 'u, 'z) aiost_scheme \<Rightarrow> nat \<Rightarrow> addr" where
  "member_bd st i = vm_bd (vol_member st ! i)"

fun poll_members ::
    "'w blkfront \<Rightarrow> ('u shfs_aiocb \<Rightarrow> addr \<Rightarrow> ('w, 'u, 'z) aiost_scheme \<Rightarrow> fault + ('w, 'u, 'z) aiost_scheme) \<Rightarrow>
     nat list \<Rightarrow> ('w, 'u, 'z) aiost_scheme \<Rightarrow> fault + ('w, 'u, 'z) aiost_scheme" where
  "poll_members io ucb [] st = Inr st"
| "poll_members io ucb (i # is) st =
     (case blkdev_poll_req io (shfs_aio_cb ucb) (member_bd st i) st of
        Inl f \<Rightarrow> Inl f
      | Inr st \<Rightarrow> poll_members io ucb is st)"

definition shfs_poll_blkdevs ::
    "'w blkfront \<Rightarrow> ('u shfs_aiocb \<Rightarrow> addr \<Rightarrow> ('w, 'u, 'z) aiost_scheme \<Rightarrow> fault + ('w, 'u, 'z) aiost_scheme) \<Rightarrow>
     ('w, 'u, 'z) aiost_scheme \<Rightarrow> fault + ('w, 'u, 'z) aiost_scheme" where
  "shfs_poll_blkdevs io ucb st = poll_members io ucb [0..<shfs_blkdevs_count st] st"

definition shfs_aio_submit :: "'w blkfront \<Rightarrow> ('w, 'u, 'z) aiost_scheme \<Rightarrow> ('w, 'u, 'z) aiost_scheme" where
  "shfs_aio_submit io st =
     fold (\<lambda>i st. blkdev_async_io_submit io (member_bd st i) st) [0..<shfs_blkdevs_count st] st"

definition shfs_aio_wait_slot :: "'w blkfront \<Rightarrow> ('w, 'u, 'z) aiost_scheme \<Rightarrow> ('w, 'u, 'z) aiost_scheme" where
  "shfs_aio_wait_slot io st =
     fold (\<lambda>i st. blkdev_async_io_wait_slot io (member_bd st i) st) [0..<shfs_blkdevs_count st] st"

text \<open>
  \<open>shfs_aio_wait\<close> and \<open>shfs_aio_wait_nosched\<close>: \<open>schedule()\<close> does nothing to this state, so
  both are the loop that polls until the token is done.
\<close>

partial_function (option) shfs_aio_wait ::
    "'w blkfront \<Rightarrow> ('u shfs_aiocb \<Rightarrow> addr \<Rightarrow> ('w, 'u, 'z) aiost_scheme \<Rightarrow> fault + ('w, 'u, 'z) aiost_scheme) \<Rightarrow>
     addr \<Rightarrow> ('w, 'u, 'z) aiost_scheme \<Rightarrow> (fault + ('w, 'u, 'z) aiost_scheme) option" where
  "shfs_aio_wait io ucb t st =
     (if tk_infly (tok st t) = 0 then Some (Inr st)
      else case shfs_poll_blkdevs io ucb st of
             Inl f \<Rightarrow> Some (Inl f)
           | Inr st \<Rightarrow> shfs_aio_wait io ucb t st)"

section \<open>Setting up chunk I/O\<close>

definition aio_stripes :: "('w, 'u, 'z) aiost_scheme \<Rightarrow> chk_t \<Rightarrow> chk_t \<Rightarrow> strp_t \<times> strp_t" where
  "aio_stripes st start len =
     (if vol_stripemode st = SHFS_SM_COMBINED then
        (start * ucast (vol_nb_members st), (start + len) * ucast (vol_nb_members st))
      else let start_s = start + ucast (vol_nb_members st - 1) in (start_s, start_s + len))"

definition strp_member :: "('w, 'u, 'z) aiost_scheme \<Rightarrow> strp_t \<Rightarrow> nat" where
  "strp_member st strp = unat (strp mod ucast (vol_nb_members st))"

definition strp_sector :: "('w, 'u, 'z) aiost_scheme \<Rightarrow> strp_t \<Rightarrow> sector_t" where
  "strp_sector st strp =
     (strp div ucast (vol_nb_members st)) * vm_sfactor (vol_member st ! strp_member st strp)"

text \<open>
  The request loop. On an error the token's callback is erased, the requests already sent are
  waited for and the token goes back.
\<close>

function aio_requests ::
    "'w blkfront \<Rightarrow> ('u shfs_aiocb \<Rightarrow> addr \<Rightarrow> ('w, 'u, 'z) aiost_scheme \<Rightarrow> fault + ('w, 'u, 'z) aiost_scheme) \<Rightarrow>
     bool \<Rightarrow> addr \<Rightarrow> strp_t \<Rightarrow> strp_t \<Rightarrow> addr \<Rightarrow> ('w, 'u, 'z) aiost_scheme \<Rightarrow>
     ((error + addr) \<times> ('w, 'u, 'z) aiost_scheme) option" where
  "aio_requests io ucb wr t strp end_s ptr st =
     (if strp < end_s then
        let m = strp_member st strp
        in case blkdev_async_io io (member_bd st m) (strp_sector st strp)
                  (vm_sfactor (vol_member st ! m)) wr ptr (Some (User_cb t)) st of
             None \<Rightarrow> None
           | Some (Some e, st) \<Rightarrow>
               (case shfs_aio_wait io ucb t (upd_tok t (\<lambda>k. k\<lparr>tk_cb := None\<rparr>) st) of
                  None \<Rightarrow> None
                | Some (Inl f) \<Rightarrow> Some (Inl (Fault f), st)
                | Some (Inr st) \<Rightarrow> Some (Inl (Errno e), shfs_aio_put_token t st))
           | Some (None, st) \<Rightarrow>
               aio_requests io ucb wr t (strp + 1) end_s (ptr + ucast (vol_stripesize st))
                 (upd_tok t (\<lambda>k. k\<lparr>tk_infly := tk_infly k + 1\<rparr>) st)
      else Some (Inr t, st))"
  by pat_completeness auto
termination
  by (relation "measure (\<lambda>(io, ucb, wr, t, strp, end_s, ptr, st). unat end_s - unat strp)")
     (auto simp: word_less_nat_alt unat_plus_one_less)
declare aio_requests.simps [simp del]

definition shfs_aio_chunk ::
    "'w blkfront \<Rightarrow> ('u shfs_aiocb \<Rightarrow> addr \<Rightarrow> ('w, 'u, 'z) aiost_scheme \<Rightarrow> fault + ('w, 'u, 'z) aiost_scheme) \<Rightarrow>
     chk_t \<Rightarrow> chk_t \<Rightarrow> bool \<Rightarrow> addr \<Rightarrow> 'u shfs_aiocb option \<Rightarrow> ('w, 'u, 'z) aiost_scheme \<Rightarrow>
     ((error + addr) \<times> ('w, 'u, 'z) aiost_scheme) option" where
  "shfs_aio_chunk io ucb start len wr buffer cb st =
     (if \<not> shfs_mounted st then Some (Inl (Errno ENODEV), st)
      else if vol_nb_members st = 0 then Some (Inl (Fault Div_by_zero), st)
      else let (start_s, end_s) = aio_stripes st start len;
               num_req_per_member = (end_s - start_s) div ucast (vol_nb_members st)
           in if \<exists>m \<in> set [0..<unat (vol_nb_members st)].
                   ucast (blkdev_avail_req (member_bd st m) st) < num_req_per_member
              then Some (Inl (Errno EAGAIN), st)
              else case shfs_aio_pick_token st of
                     (None, st) \<Rightarrow> Some (Inl (Errno EAGAIN), st)
                   | (Some t, st) \<Rightarrow>
                       aio_requests io ucb wr t start_s end_s buffer
                         (upd_tok t (\<lambda>k. k\<lparr>tk_cb := cb\<rparr>) st))"

section \<open>Synchronous chunk I/O\<close>

text \<open>
  \<open>shfs_io_chunk\<close> and \<open>shfs_io_chunk_nosched\<close>: the first waits for a slot before it retries.
\<close>

partial_function (option) io_chunk_setup ::
    "'w blkfront \<Rightarrow> ('u shfs_aiocb \<Rightarrow> addr \<Rightarrow> ('w, 'u, 'z) aiost_scheme \<Rightarrow> fault + ('w, 'u, 'z) aiost_scheme) \<Rightarrow>
     bool \<Rightarrow> chk_t \<Rightarrow> chk_t \<Rightarrow> bool \<Rightarrow> addr \<Rightarrow> ('w, 'u, 'z) aiost_scheme \<Rightarrow>
     ((error + addr) \<times> ('w, 'u, 'z) aiost_scheme) option" where
  "io_chunk_setup io ucb sched start len wr buffer st =
     (case shfs_aio_chunk io ucb start len wr buffer None st of
        None \<Rightarrow> None
      | Some (r, st) \<Rightarrow>
          let st = shfs_aio_submit io st
          in if r = Inl (Errno EBUSY)
             then io_chunk_setup io ucb sched start len wr buffer
                    (if sched then shfs_aio_wait_slot io st else st)
             else Some (r, st))"

definition io_chunk_gen ::
    "'w blkfront \<Rightarrow> ('u shfs_aiocb \<Rightarrow> addr \<Rightarrow> ('w, 'u, 'z) aiost_scheme \<Rightarrow> fault + ('w, 'u, 'z) aiost_scheme) \<Rightarrow>
     bool \<Rightarrow> chk_t \<Rightarrow> chk_t \<Rightarrow> bool \<Rightarrow> addr \<Rightarrow> ('w, 'u, 'z) aiost_scheme \<Rightarrow>
     ((error + unit) \<times> ('w, 'u, 'z) aiost_scheme) option" where
  "io_chunk_gen io ucb sched start len wr buffer st =
     (case io_chunk_setup io ucb sched start len wr buffer st of
        None \<Rightarrow> None
      | Some (Inl e, st) \<Rightarrow> Some (Inl e, st)
      | Some (Inr t, st) \<Rightarrow>
          (case shfs_aio_wait io ucb t st of
             None \<Rightarrow> None
           | Some (Inl f) \<Rightarrow> Some (Inl (Fault f), st)
           | Some (Inr st) \<Rightarrow>
               (case shfs_aio_finalize t st of
                  Inl f \<Rightarrow> Some (Inl (Fault f), st)
                | Inr (None, st) \<Rightarrow> Some (Inr (), st)
                | Inr (Some e, st) \<Rightarrow> Some (Inl (Errno e), st))))"

definition shfs_io_chunk where "shfs_io_chunk io ucb = io_chunk_gen io ucb True"

definition shfs_io_chunk_nosched where "shfs_io_chunk_nosched io ucb = io_chunk_gen io ucb False"

section \<open>Stripes\<close>

lemma unat_nb [simp]: "unat (ucast (nb :: u8) :: u64) = unat nb"
  by (simp add: unat_ucast_widths)

lemma le_mult_pos: "0 < n \<Longrightarrow> (a :: nat) \<le> a * n"
  by simp

lemma chunk_bound: "0 < n \<Longrightarrow> (a :: nat) + 1 + n \<le> (a + 2) * n"
proof -
  assume n: "0 < n"
  have "(a + 2) * n = a * n + n + n" by (simp add: algebra_simps)
  with n le_mult_pos [OF n, of a] show ?thesis by linarith
qed

lemma stripes_combined:
  assumes "vol_stripemode st = SHFS_SM_COMBINED" and "(unat start + unat len) * unat (vol_nb_members st) < 2 ^ 64"
    and "0 < unat (vol_nb_members st)"
  shows "unat (fst (aio_stripes st start len)) = unat start * unat (vol_nb_members st)"
    and "unat (snd (aio_stripes st start len)) = (unat start + unat len) * unat (vol_nb_members st)"
proof -
  let ?n = "unat (vol_nb_members st)"
  have "unat start + unat len < 2 ^ 64"
    by (rule order_le_less_trans [OF le_mult_pos [OF assms(3)] assms(2)])
  then have a: "unat (start + len) = unat start + unat len" by (intro unat_add_less) simp
  have "unat start * ?n \<le> (unat start + unat len) * ?n" by simp
  then have "unat start * ?n < 2 ^ 64" using assms(2) by (rule order_le_less_trans)
  then show "unat (fst (aio_stripes st start len)) = unat start * ?n"
    using assms(1,2) unat_mult_less [of start "ucast (vol_nb_members st)"]
    by (simp add: aio_stripes_def)
  show "unat (snd (aio_stripes st start len)) = (unat start + unat len) * ?n"
    using assms(1,2) a unat_mult_less [of "start + len" "ucast (vol_nb_members st)"]
    by (simp add: aio_stripes_def)
qed

lemma stripes_independent:
  assumes "vol_stripemode st \<noteq> SHFS_SM_COMBINED" and "unat start + unat len + unat (vol_nb_members st) < 2 ^ 64"
    and "0 < unat (vol_nb_members st)"
  shows "unat (fst (aio_stripes st start len)) = unat start + unat (vol_nb_members st) - 1"
    and "unat (snd (aio_stripes st start len)) = unat start + unat (vol_nb_members st) - 1 + unat len"
proof -
  let ?n = "unat (vol_nb_members st)"
  have "vol_nb_members st \<noteq> 0" using assms(3) by auto
  then have n1: "unat (vol_nb_members st - 1) = ?n - 1" by (rule unat_sub_one)
  have a: "unat (start + ucast (vol_nb_members st - 1)) = unat start + (?n - 1)"
    using assms(2,3) n1 by (subst unat_add_less) simp_all
  then show "unat (fst (aio_stripes st start len)) = unat start + ?n - 1"
    using assms(1,3) by (simp add: aio_stripes_def Let_def)
  show "unat (snd (aio_stripes st start len)) = unat start + ?n - 1 + unat len"
    using assms(1,2,3) a unat_add_less [of "start + ucast (vol_nb_members st - 1)" len]
    by (simp add: aio_stripes_def Let_def)
qed

text \<open>The stripes of one chunk, as numbers.\<close>

definition chunk_stripes :: "('w, 'u, 'z) aiost_scheme \<Rightarrow> chk_t \<Rightarrow> nat set" where
  "chunk_stripes st c = {unat (fst (aio_stripes st c 1))..<unat (snd (aio_stripes st c 1))}"

lemma chunk_stripes_eq:
  assumes "0 < unat (vol_nb_members st)" and "(unat c + 2) * unat (vol_nb_members st) < 2 ^ 64"
  shows "chunk_stripes st c =
    (if vol_stripemode st = SHFS_SM_COMBINED
     then {unat c * unat (vol_nb_members st)..<(unat c + 1) * unat (vol_nb_members st)}
     else {unat c + unat (vol_nb_members st) - 1})"
proof (cases "vol_stripemode st = SHFS_SM_COMBINED")
  case True
  then show ?thesis
    using stripes_combined [OF True, of c 1] assms by (simp add: chunk_stripes_def)
next
  case False
  have "unat c + 1 + unat (vol_nb_members st) < 2 ^ 64"
    by (rule order_le_less_trans [OF chunk_bound [OF assms(1)] assms(2)])
  then have "unat c + unat (1 :: u64) + unat (vol_nb_members st) < 2 ^ 64" by simp
  from stripes_independent [OF False this assms(1)] False show ?thesis
    by (auto simp: chunk_stripes_def)
qed

text \<open>The part of a member that a stripe occupies, in sectors.\<close>

definition strp_sectors :: "('w, 'u, 'z) aiost_scheme \<Rightarrow> nat \<Rightarrow> nat set" where
  "strp_sectors st k =
     {unat (strp_sector st (of_nat k))..<
        unat (strp_sector st (of_nat k)) + unat (vm_sfactor (vol_member st ! strp_member st (of_nat k)))}"

lemma strp_place:
  assumes k: "k < 2 ^ 64" and n: "0 < unat (vol_nb_members st)"
    and b: "(k div unat (vol_nb_members st) + 1) * unat (vm_sfactor (vol_member st ! (k mod unat (vol_nb_members st)))) < 2 ^ 64"
  shows "strp_member st (of_nat k) = k mod unat (vol_nb_members st)"
    and "unat (strp_sector st (of_nat k)) =
      k div unat (vol_nb_members st) * unat (vm_sfactor (vol_member st ! (k mod unat (vol_nb_members st))))"
proof -
  let ?n = "unat (vol_nb_members st)"
  have u: "unat (of_nat k :: u64) = k" using k by (intro unat_of_nat_less) simp
  show m: "strp_member st (of_nat k) = k mod ?n"
    by (simp add: strp_member_def unat_mod u)
  show "unat (strp_sector st (of_nat k)) = k div ?n * unat (vm_sfactor (vol_member st ! (k mod ?n)))"
    unfolding strp_sector_def m using b
    by (subst unat_mult_less) (simp_all add: unat_div u)
qed

lemma rows_disjoint: "(q :: nat) \<noteq> r \<Longrightarrow> {q * s..<q * s + s} \<inter> {r * s..<r * s + s} = {}"
proof -
  have "a * s + s \<le> b * s" if "a < b" for a b :: nat
    using mult_le_mono1 [of "Suc a" b s] that by simp
  then show "q \<noteq> r \<Longrightarrow> ?thesis" by (auto simp: linorder_neq_iff) (metis leD le_less_trans order_less_le_trans)+
qed

text \<open>
  C29: no two chunks share storage. In both stripe modes, every stripe of a chunk lies on
  another member than, or apart from, every stripe of another chunk and every other stripe
  of the same chunk, as long as the addresses fit 64 bits.
\<close>

theorem stripes_never_overlap:
  fixes st :: "('w, 'u, 'z) aiost_scheme" and c d :: chk_t
  defines "n \<equiv> unat (vol_nb_members st)"
  assumes n: "0 < n" and c: "(unat c + 2) * n < 2 ^ 64" and d: "(unat d + 2) * n < 2 ^ 64"
    and sf: "\<And>m. m < n \<Longrightarrow> (max (unat c) (unat d) + 2) * unat (vm_sfactor (vol_member st ! m)) < 2 ^ 64"
    and k: "k \<in> chunk_stripes st c" and l: "l \<in> chunk_stripes st d" and ne: "c \<noteq> d \<or> k \<noteq> l"
  shows "strp_member st (of_nat k) \<noteq> strp_member st (of_nat l) \<or>
         strp_sectors st k \<inter> strp_sectors st l = {}"
proof -
  note eq = chunk_stripes_eq [of st, folded n_def, OF n]
  have row: "j div n \<le> unat e + 1" "j < 2 ^ 64"
    if "j \<in> chunk_stripes st e" "(unat e + 2) * n < 2 ^ 64" for j e
  proof -
    have "j < (unat e + 2) * n"
    proof (cases "vol_stripemode st = SHFS_SM_COMBINED")
      case True
      have "(unat e + 1) * n \<le> (unat e + 2) * n" by (intro mult_le_mono1) simp
      then show ?thesis using that(1) by (simp add: eq [OF that(2)] True)
    next
      case False
      then show ?thesis using that(1) chunk_bound [OF n, of "unat e"] n by (simp add: eq [OF that(2)])
    qed
    then show "j < 2 ^ 64" using that(2) by (rule order_less_trans)
    have "j div n < unat e + 2" using \<open>j < (unat e + 2) * n\<close> by (rule less_mult_imp_div_less)
    then show "j div n \<le> unat e + 1" by simp
  qed
  have kl: "k \<noteq> l"
  proof (cases "c = d")
    case True
    then show ?thesis using ne by simp
  next
    case False
    then have "unat c \<noteq> unat d" by (simp add: word_unat_eq_iff)
    moreover have "unat c = unat d" if "k = l"
    proof (cases "vol_stripemode st = SHFS_SM_COMBINED")
      case True
      have "k div n = unat c" "l div n = unat d"
        using k l n by (auto simp: eq [OF c] eq [OF d] True mult.commute [of n] intro!: div_nat_eqI)
      with that show ?thesis by simp
    next
      case False
      then have "unat c + n - 1 = unat d + n - 1" using that k l by (simp add: eq [OF c] eq [OF d])
      then show ?thesis using n by linarith
    qed
    ultimately show ?thesis by blast
  qed
  have b: "(j div n + 1) * unat (vm_sfactor (vol_member st ! (j mod n))) < 2 ^ 64"
    if "j div n \<le> max (unat c) (unat d) + 1" for j
  proof -
    have "(j div n + 1) * unat (vm_sfactor (vol_member st ! (j mod n)))
        \<le> (max (unat c) (unat d) + 2) * unat (vm_sfactor (vol_member st ! (j mod n)))"
      using that by (intro mult_le_mono1) simp
    then show ?thesis using sf [of "j mod n"] n by simp
  qed
  have kb: "j div n \<le> max (unat c) (unat d) + 1" if "j \<in> {k, l}" for j
    using that row(1) [OF k c] row(1) [OF l d] by auto
  note pk = strp_place [of k st, folded n_def, OF row(2) [OF k c] n b [OF kb]]
  note pl = strp_place [of l st, folded n_def, OF row(2) [OF l d] n b [OF kb]]
  show ?thesis
  proof (cases "k mod n = l mod n")
    case False
    then show ?thesis using pk(1) pl(1) by simp
  next
    case True
    with kl have "k div n \<noteq> l div n" by (metis div_mult_mod_eq)
    from rows_disjoint [OF this] True show ?thesis
      by (simp add: strp_sectors_def pk pl)
  qed
qed

text \<open>A mounted volume: one member with 512-byte sectors, stripes of 4096 bytes.\<close>

definition sample_toks :: "(addr \<Rightarrow> 'u aio_token) mpstate" where
  "sample_toks =
     \<lparr>mp_objs = mp_objs sample_pool,
      mp_pools = (\<lambda>p. \<lparr>free_objs = free_objs (mp_pools sample_pool p),
         obj_pick_func = Some aiotoken_pool_objinit, pool_obj_size = 0, pool_headroom = 0,
         pool_tailroom = 0, obj_put_func = None, nb_objs = 2, pool_size = 0, obj_data_area = None\<rparr>),
      mp_mem = (\<lambda>_. \<lparr>tk_p_obj = 0, tk_infly = 0, tk_ret = None, tk_cb = None, tk_prev = None,
         tk_next = None\<rparr>)\<rparr>"

definition sample_aiost :: "(addr list, 'u) aiost" where
  "sample_aiost =
     bdst.extend sample_bdst
       \<lparr>shfs_mounted = True, vol_nb_members = 1,
        vol_member = [\<lparr>vm_bd = 9, vm_uuid = replicate 16 1, vm_sfactor = 8\<rparr>],
        vol_stripesize = 4096, vol_stripemode = SHFS_SM_COMBINED, vol_chunksize = 4096,
        vol_volsize = 100, vol_ioalign = 512, vol_aiotoken_pool = 0,
        vol_toks = sample_toks\<rparr>"

lemma sample_aiost_simps [simp]:
  "shfs_mounted sample_aiost" "vol_nb_members sample_aiost = 1" "vol_stripesize sample_aiost = 4096"
  "vol_member sample_aiost = [\<lparr>vm_bd = 9, vm_uuid = replicate 16 1, vm_sfactor = 8\<rparr>]"
  "vol_stripemode sample_aiost = SHFS_SM_COMBINED" "vol_aiotoken_pool sample_aiost = 0"
  "bd_tab sample_aiost = (\<lambda>_. sample_blkdev)" "bd_pools sample_aiost = sample_pool"
  "bd_world sample_aiost = []"
  by (simp_all add: sample_aiost_def bdst.defs sample_bdst_def)

theorem stripes_never_overlap_witness:
  "strp_sectors (sample_aiost :: (addr list, nat) aiost) 5 \<inter> strp_sectors (sample_aiost :: (addr list, nat) aiost) 6 = {}"
proof -
  let ?s = "sample_aiost :: (addr list, nat) aiost"
  have k: "5 \<in> chunk_stripes ?s 5" "6 \<in> chunk_stripes ?s 6"
    by (simp_all add: chunk_stripes_def aio_stripes_def)
  have "strp_member ?s (of_nat 5) \<noteq> strp_member ?s (of_nat 6) \<or> strp_sectors ?s 5 \<inter> strp_sectors ?s 6 = {}"
    by (rule stripes_never_overlap [OF _ _ _ _ k]) simp_all
  then show ?thesis by (simp add: strp_member_def)
qed

section \<open>Completion of a token\<close>

lemma tok_upd [simp]: "tok (upd_tok t f st) u = (if u = t then f (tok st t) else tok st u)"
  by (simp add: tok_def upd_tok_def)

lemma upd_tok_upd [simp]: "upd_tok t f (upd_tok t g st) = upd_tok t (\<lambda>k. f (g k)) st"
  by (simp add: upd_tok_def tok_def)

lemma upd_tok_simps [simp]:
  "shfs_mounted (upd_tok t f st) = shfs_mounted st" "vol_nb_members (upd_tok t f st) = vol_nb_members st"
  "vol_member (upd_tok t f st) = vol_member st" "vol_stripesize (upd_tok t f st) = vol_stripesize st"
  "vol_stripemode (upd_tok t f st) = vol_stripemode st" "bd_tab (upd_tok t f st) = bd_tab st"
  "vol_aiotoken_pool (upd_tok t f st) = vol_aiotoken_pool st" "bd_pools (upd_tok t f st) = bd_pools st"
  "bd_reqs (upd_tok t f st) = bd_reqs st" "bd_mem (upd_tok t f st) = bd_mem st"
  "bd_world (upd_tok t f st) = bd_world st"
  by (simp_all add: upd_tok_def)

lemma upd_tok_cong: "f (tok st t) = g (tok st t) \<Longrightarrow> upd_tok t f st = upd_tok t g st"
  by (simp add: upd_tok_def)

text \<open>The completions of a token's requests, in the order the front end reports them.\<close>

fun token_completions ::
    "('u shfs_aiocb \<Rightarrow> addr \<Rightarrow> ('w, 'u, 'z) aiost_scheme \<Rightarrow> fault + ('w, 'u, 'z) aiost_scheme) \<Rightarrow>
     addr \<Rightarrow> io_err list \<Rightarrow> ('w, 'u, 'z) aiost_scheme \<Rightarrow> fault + ('w, 'u, 'z) aiost_scheme" where
  "token_completions ucb t [] st = Inr st"
| "token_completions ucb t (r # rs) st =
     (case shfs_aio_cb ucb r t st of Inl f \<Rightarrow> Inl f | Inr st \<Rightarrow> token_completions ucb t rs st)"

text \<open>The result a token ends up with: the last error, or what it held before.\<close>

fun last_error :: "io_err \<Rightarrow> io_err list \<Rightarrow> io_err" where
  "last_error a [] = a"
| "last_error a (r # rs) = last_error (case r of None \<Rightarrow> a | Some e \<Rightarrow> Some e) rs"

lemma last_error_None: "last_error a rs = None \<longleftrightarrow> a = None \<and> set rs \<subseteq> {None}"
  by (induction a rs rule: last_error.induct) (auto split: option.splits)

definition completed_tok :: "io_err \<Rightarrow> addr \<Rightarrow> u64 \<Rightarrow> ('w, 'u, 'z) aiost_scheme \<Rightarrow> ('w, 'u, 'z) aiost_scheme" where
  "completed_tok ret t n st = upd_tok t (\<lambda>k. k\<lparr>tk_ret := ret, tk_infly := n\<rparr>) st"

lemma shfs_aio_cb_eq:
  "shfs_aio_cb ucb r t st =
     (let st' = completed_tok (or_else r (tk_ret (tok st t))) t (tk_infly (tok st t) - 1) st
      in if tk_infly (tok st t) - 1 = 0 then
           (case tk_cb (tok st t) of None \<Rightarrow> Inr st' | Some c \<Rightarrow> ucb c t st')
         else Inr st')"
proof -
  have "upd_tok t (\<lambda>k. k\<lparr>tk_infly := tk_infly k - 1\<rparr>)
      (upd_tok t (\<lambda>k. k\<lparr>tk_ret := (case r of None \<Rightarrow> tk_ret k | Some e \<Rightarrow> Some e)\<rparr>) st) =
      completed_tok (or_else r (tk_ret (tok st t))) t (tk_infly (tok st t) - 1) st"
    unfolding upd_tok_upd completed_tok_def by (rule upd_tok_cong) simp
  note eq = this
  show ?thesis
    unfolding shfs_aio_cb_def Let_def eq by (simp add: completed_tok_def)
qed

lemma tok_completed [simp]:
  "tok (completed_tok ret t n st) t = (tok st t)\<lparr>tk_ret := ret, tk_infly := n\<rparr>"
  "completed_tok ret t n (completed_tok ret' t n' st) = completed_tok ret t n st"
  by (simp_all add: completed_tok_def)

lemma token_completions_early:
  assumes "unat (tk_infly (tok st t)) = length early + length late" and "late \<noteq> []"
  shows "token_completions ucb t early st =
    Inr (if early = [] then st else completed_tok (last_error (tk_ret (tok st t)) early) t
           (tk_infly (tok st t) - of_nat (length early)) st)"
  using assms(1)
proof (induction early arbitrary: st)
  case Nil
  then show ?case by simp
next
  case (Cons r rs)
  have "tk_infly (tok st t) \<noteq> 0" using Cons.prems by auto
  then have n: "unat (tk_infly (tok st t) - 1) = length rs + length late"
    using Cons.prems by (simp add: unat_sub_one)
  then have "tk_infly (tok st t) - 1 \<noteq> 0" using assms(2) by auto
  then have "shfs_aio_cb ucb r t st =
      Inr (completed_tok (or_else r (tk_ret (tok st t))) t (tk_infly (tok st t) - 1) st)"
    by (simp add: shfs_aio_cb_eq)
  then show ?case
    using Cons.IH [of "completed_tok (or_else r (tk_ret (tok st t))) t (tk_infly (tok st t) - 1) st"] n
    by (cases r) (simp_all add: diff_diff_eq)
qed

lemma token_completions_append:
  "token_completions ucb t (xs @ ys) st =
     (case token_completions ucb t xs st of Inl f \<Rightarrow> Inl f | Inr st \<Rightarrow> token_completions ucb t ys st)"
  by (induction xs arbitrary: st) (auto split: sum.splits)

lemma last_error_snoc: "last_error a (xs @ [r]) = or_else r (last_error a xs)"
  by (induction a xs rule: last_error.induct) (cases r; simp)+

lemma token_completions_all:
  assumes "unat (tk_infly (tok st t)) = length rets" and "rets \<noteq> []"
  shows "token_completions ucb t rets st =
    (let st' = completed_tok (last_error (tk_ret (tok st t)) rets) t 0 st
     in case tk_cb (tok st t) of None \<Rightarrow> Inr st' | Some c \<Rightarrow> ucb c t st')"
proof -
  obtain rs r where rs: "rets = rs @ [r]" using assms(2) by (cases rets rule: rev_cases) auto
  have "tk_infly (tok st t) = of_nat (length rets)" using assms(1) by (metis of_nat_unat ucast_id)
  then have one: "tk_infly (tok st t) - of_nat (length rs) = 1" by (simp add: rs)
  show ?thesis
    using token_completions_early [of st t rs "[r]" ucb] assms(1) one
    by (auto simp: rs token_completions_append shfs_aio_cb_eq last_error_snoc Let_def
        split: sum.split option.split)
qed

text \<open>
  C26: a token's callback runs exactly once, when the last of its requests has completed, and
  not before; the token then holds the last error that was reported, and no error if none
  was.
\<close>

theorem shfs_aio_cb_once:
  assumes "unat (tk_infly (tok st t)) = length rets" and "rets \<noteq> []" and "tk_ret (tok st t) = None"
    and "tk_cb (tok st t) = Some c"
  shows "\<exists>st'. token_completions ucb t rets st = ucb c t st' \<and>
           (\<forall>early late. rets = early @ late \<and> late \<noteq> [] \<longrightarrow>
              (\<exists>st1. token_completions ucb t early st = Inr st1 \<and>
                 unat (tk_infly (tok st1 t)) = length late \<and> tk_cb (tok st1 t) = Some c)) \<and>
           tk_infly (tok st' t) = 0 \<and> tk_ret (tok st' t) = last_error None rets \<and>
           (tk_ret (tok st' t) = None \<longleftrightarrow> set rets \<subseteq> {None})"
proof (rule exI [of _ "completed_tok (last_error None rets) t 0 st"], intro conjI allI impI)
  show "token_completions ucb t rets st = ucb c t (completed_tok (last_error None rets) t 0 st)"
    using token_completions_all [OF assms(1,2)] assms(3,4) by simp
next
  fix early late
  assume rets: "rets = early @ late \<and> late \<noteq> []"
  have "unat (tk_infly (tok st t) - of_nat (length early)) = length late"
  proof -
    have "tk_infly (tok st t) = of_nat (length rets)" using assms(1) by (metis of_nat_unat ucast_id)
    then have "tk_infly (tok st t) - of_nat (length early) = of_nat (length late)" using rets by simp
    moreover have "length late < 2 ^ LENGTH(64)"
      using rets assms(1) unsigned_less [of "tk_infly (tok st t)", where 'a = nat] by simp
    ultimately show ?thesis by (simp only: unat_of_nat_less)
  qed
  then show "\<exists>st1. token_completions ucb t early st = Inr st1 \<and>
      unat (tk_infly (tok st1 t)) = length late \<and> tk_cb (tok st1 t) = Some c"
    using token_completions_early [of st t early late ucb] assms(1,4) rets by auto
qed (simp_all add: last_error_None)

theorem shfs_aio_cb_once_witness:
  "\<exists>st'. token_completions (\<lambda>_ _. Inr) 100 [None, Some EIO, None]
      (upd_tok 100 (\<lambda>k. k\<lparr>tk_infly := 3, tk_cb := Some (User_aiocb ())\<rparr>) sample_aiost) = Inr st' \<and>
     tk_ret (tok st' 100) = Some EIO"
  using shfs_aio_cb_once [of "upd_tok 100 (\<lambda>k. k\<lparr>tk_infly := 3, tk_cb := Some (User_aiocb ())\<rparr>) sample_aiost"
      100 "[None, Some EIO, None]" "User_aiocb ()" "\<lambda>_ _. Inr"]
  by (auto simp: tok_def sample_aiost_def sample_toks_def bdst.defs upd_tok_def)

section \<open>Accepted requests\<close>

text \<open>The address of an object's data, which stays the same over picks and puts.\<close>

definition mp_data :: "'m mpstate \<Rightarrow> addr \<Rightarrow> addr" where
  "mp_data P x = obj_base (mp_objs P x) + pool_headroom (mp_pools P (p_ref (mp_objs P x)))"

lemma pool_pick_all:
  assumes ok: "pool_ok p objs P" and free: "pool_free p P = x # xs"
  shows "\<exists>P'. mempool_pick p P = (Some x, P') \<and> pool_ok p objs P' \<and> pool_free p P' = xs \<and>
           (\<forall>q os. q \<noteq> p \<longrightarrow> pool_ok q os P \<longrightarrow> pool_ok q os P' \<and> pool_free q P' = pool_free q P) \<and>
           mp_data P' = mp_data P \<and> obj_data (mp_objs P' x) = mp_data P x \<and>
           p_ref \<circ> mp_objs P' = p_ref \<circ> mp_objs P"
proof -
  from mempool_pick_Some [OF ok free] obtain r m where P': "mempool_pick p P =
      (Some x, P\<lparr>mp_objs := (mp_objs P)(x := reset_desc (mp_pools P p) (mp_objs P x)),
         mp_pools := (mp_pools P)(p := (mp_pools P p)\<lparr>free_objs := r\<rparr>), mp_mem := m\<rparr>)"
    and r: "ring_refs r = xs" by blast
  let ?P = "P\<lparr>mp_objs := (mp_objs P)(x := reset_desc (mp_pools P p) (mp_objs P x)),
         mp_pools := (mp_pools P)(p := (mp_pools P p)\<lparr>free_objs := r\<rparr>), mp_mem := m\<rparr>"
  from pool_pick [OF ok free] P' have 1: "pool_ok p objs ?P" "pool_free p ?P = xs" by auto
  have px: "p_ref (mp_objs P x) = p" using ok free by (auto simp: pool_ok_def)
  have "pool_ok q os ?P \<and> pool_free q ?P = pool_free q P" if "q \<noteq> p" "pool_ok q os P" for q os
    using that by (auto simp: pool_ok_def pool_free_def reset_desc_def)
  moreover have "mp_data ?P = mp_data P"
    by (rule ext) (simp add: mp_data_def reset_desc_def)
  moreover have "obj_data (mp_objs ?P x) = mp_data P x" by (simp add: mp_data_def reset_desc_def px)
  moreover have "p_ref \<circ> mp_objs ?P = p_ref \<circ> mp_objs P" by (rule ext) (simp add: reset_desc_def)
  ultimately show ?thesis using P' 1 by blast
qed

definition pool_of :: "('w, 'u, 'z) aiost_scheme \<Rightarrow> nat \<Rightarrow> addr" where
  "pool_of st m = bd_reqpool (bd_tab st (member_bd st m))"

text \<open>
  A volume whose members have request pools of their own, with \<open>objs m\<close> the objects of
  member \<open>m\<close>'s pool and no two requests at one address.
\<close>

definition vol_io :: "('w, 'u, 'z) aiost_scheme \<Rightarrow> (nat \<Rightarrow> addr list) \<Rightarrow> bool" where
  "vol_io st objs \<longleftrightarrow>
     0 < unat (vol_nb_members st) \<and>
     (\<forall>m < unat (vol_nb_members st). pool_ok (pool_of st m) (objs m) (bd_pools st)) \<and>
     inj_on (pool_of st) {..<unat (vol_nb_members st)} \<and>
     inj_on (mp_data (bd_pools st)) (\<Union>m < unat (vol_nb_members st). set (objs m))"

text \<open>
  The front end accepts every request at once; \<open>log\<close> shows the requests it has accepted.
\<close>

definition accepts :: "'w blkfront \<Rightarrow> ('w \<Rightarrow> (addr \<times> blkfront_aiocb \<times> bool) list) \<Rightarrow> bool" where
  "accepts io log \<longleftrightarrow>
     (\<forall>req a wr w. fst (blkfront_aio_enqueue io req a wr w) = None \<and>
        log (snd (blkfront_aio_enqueue io req a wr w)) = log w @ [(req, a, wr)])"

text \<open>Only the pools, the requests, the front end and the tokens have changed.\<close>

definition aio_frame :: "('w, 'u, 'z) aiost_scheme \<Rightarrow> ('w, 'u, 'z) aiost_scheme \<Rightarrow> bool" where
  "aio_frame st st' \<longleftrightarrow>
     st' = st\<lparr>bd_pools := bd_pools st', bd_reqs := bd_reqs st', bd_world := bd_world st',
              vol_toks := vol_toks st'\<rparr>"

lemma aio_frameD:
  assumes "aio_frame st st'"
  shows "bd_tab st' = bd_tab st" "bd_links st' = bd_links st" "open_bd_list st' = open_bd_list st"
    "bd_syncs st' = bd_syncs st" "bd_mem st' = bd_mem st" "shfs_mounted st' = shfs_mounted st"
    "vol_nb_members st' = vol_nb_members st" "vol_member st' = vol_member st"
    "vol_stripesize st' = vol_stripesize st" "vol_stripemode st' = vol_stripemode st"
    "vol_chunksize st' = vol_chunksize st" "vol_volsize st' = vol_volsize st"
    "vol_ioalign st' = vol_ioalign st" "vol_aiotoken_pool st' = vol_aiotoken_pool st"
    "aiost.more st' = aiost.more st"
proof -
  note eq = assms [unfolded aio_frame_def]
  show "bd_tab st' = bd_tab st" by (subst eq) simp
  show "bd_links st' = bd_links st" by (subst eq) simp
  show "open_bd_list st' = open_bd_list st" by (subst eq) simp
  show "bd_syncs st' = bd_syncs st" by (subst eq) simp
  show "bd_mem st' = bd_mem st" by (subst eq) simp
  show "shfs_mounted st' = shfs_mounted st" by (subst eq) simp
  show "vol_nb_members st' = vol_nb_members st" by (subst eq) simp
  show "vol_member st' = vol_member st" by (subst eq) simp
  show "vol_stripesize st' = vol_stripesize st" by (subst eq) simp
  show "vol_stripemode st' = vol_stripemode st" by (subst eq) simp
  show "vol_chunksize st' = vol_chunksize st" by (subst eq) simp
  show "vol_volsize st' = vol_volsize st" by (subst eq) simp
  show "vol_ioalign st' = vol_ioalign st" by (subst eq) simp
  show "vol_aiotoken_pool st' = vol_aiotoken_pool st" by (subst eq) simp
  show "aiost.more st' = aiost.more st" by (subst eq) simp
qed

lemma aio_frameI:
  "aio_frame st (st\<lparr>bd_pools := a, bd_reqs := b, bd_world := c\<rparr>)"
  "aio_frame st (upd_tok t f st)" "aio_frame st st"
  by (simp_all add: aio_frame_def upd_tok_def)

lemma aio_frame_trans: "aio_frame s1 s2 \<Longrightarrow> aio_frame s2 s3 \<Longrightarrow> aio_frame s1 s3"
  unfolding aio_frame_def
  by (erule ssubst [of s3]) (erule ssubst [of s2], simp)

lemma async_io_accepted:
  fixes start :: sector_t and cb :: "addr blkdev_cb option"
  assumes vio: "vol_io st objs" and m: "m < unat (vol_nb_members st)"
    and free: "pool_free (pool_of st m) (bd_pools st) = x # xs" and acc: "accepts io log"
    and chk: "io_check io (bd_tab st (member_bd st m)) len wr buffer = None"
  defines "req \<equiv> filled_req (bd_tab st (member_bd st m)) (member_bd st m) x start len wr buffer cb"
  shows "\<exists>st'. blkdev_async_io io (member_bd st m) start len wr buffer cb st = Some (None, st') \<and>
           aio_frame st st' \<and> vol_toks st' = vol_toks st \<and> vol_io st' objs \<and>
           mp_data (bd_pools st') = mp_data (bd_pools st) \<and>
           (\<forall>q < unat (vol_nb_members st). pool_free (pool_of st q) (bd_pools st') =
              (if q = m then xs else pool_free (pool_of st q) (bd_pools st))) \<and>
           bd_reqs st' = (bd_reqs st)(mp_data (bd_pools st) x := req) \<and>
           log (bd_world st') = log (bd_world st) @ [(mp_data (bd_pools st) x, rq_aiocb req, wr)] \<and>
           x \<in> set (objs m)"
proof -
  let ?bd = "member_bd st m" and ?nb = "unat (vol_nb_members st)" and ?P = "bd_pools st"
  have ok: "pool_ok (pool_of st m) (objs m) ?P" using vio m by (simp add: vol_io_def)
  from pool_pick_all [OF ok free] obtain P where P: "mempool_pick (pool_of st m) ?P = (Some x, P)"
    "pool_ok (pool_of st m) (objs m) P" "pool_free (pool_of st m) P = xs"
    "\<And>q os. q \<noteq> pool_of st m \<Longrightarrow> pool_ok q os ?P \<Longrightarrow> pool_ok q os P \<and> pool_free q P = pool_free q ?P"
    "mp_data P = mp_data ?P" "obj_data (mp_objs P x) = mp_data ?P x" by blast
  obtain w where w: "blkfront_aio_enqueue io (mp_data ?P x) (rq_aiocb req) wr (bd_world st) = (None, w)"
    "log w = log (bd_world st) @ [(mp_data ?P x, rq_aiocb req, wr)]"
    using acc unfolding accepts_def by (metis prod.collapse)
  let ?st = "st\<lparr>bd_pools := P, bd_reqs := (bd_reqs st)(mp_data ?P x := req), bd_world := w\<rparr>"
  have io: "blkdev_async_io io ?bd start len wr buffer cb st = Some (None, ?st)"
    using chk P(1,6) w(1)
    by (simp add: blkdev_async_io_def blkdev_async_io_nocheck_def enqueue_retry.simps pool_of_def
        req_def filled_req_def Let_def)
  have po: "pool_of ?st = pool_of st" by (rule ext) (simp add: pool_of_def member_bd_def)
  have q: "pool_ok (pool_of st q) (objs q) P \<and> pool_free (pool_of st q) P =
      (if q = m then xs else pool_free (pool_of st q) ?P)" if "q < ?nb" for q
  proof (cases "q = m")
    case True
    then show ?thesis using P(2,3) by simp
  next
    case False
    then have "pool_of st q \<noteq> pool_of st m"
      using vio m that by (auto simp: vol_io_def inj_on_def)
    from P(4) [OF this] vio that False show ?thesis by (auto simp: vol_io_def)
  qed
  have "vol_io ?st objs"
    using vio q po P(5) unfolding vol_io_def by simp
  moreover have "x \<in> set (objs m)" using ok free by (auto simp: pool_ok_def)
  ultimately show ?thesis
    by (intro exI [of _ ?st]) (simp add: io aio_frameI(1) P(5) q w(2))
qed

definition strp_bd :: "('w, 'u, 'z) aiost_scheme \<Rightarrow> strp_t \<Rightarrow> addr" where
  "strp_bd st s = member_bd st (strp_member st s)"

definition strp_sf :: "('w, 'u, 'z) aiost_scheme \<Rightarrow> strp_t \<Rightarrow> sector_t" where
  "strp_sf st s = vm_sfactor (vol_member st ! strp_member st s)"

text \<open>The request for one stripe.\<close>

definition strp_req :: "('w, 'u, 'z) aiost_scheme \<Rightarrow> bool \<Rightarrow> addr \<Rightarrow> strp_t \<Rightarrow> addr \<Rightarrow> addr \<Rightarrow> addr blkdev_req" where
  "strp_req st wr t s ptr x =
     filled_req (bd_tab st (strp_bd st s)) (strp_bd st s) x (strp_sector st s) (strp_sf st s) wr ptr
       (Some (User_cb t))"

lemma strp_frame:
  assumes "aio_frame st st'"
  shows "strp_member st' = strp_member st" "strp_bd st' = strp_bd st" "strp_sf st' = strp_sf st"
    "strp_req st' = strp_req st" "strp_sector st' = strp_sector st" "pool_of st' = pool_of st"
    "member_bd st' = member_bd st"
proof -
  note d = aio_frameD [OF assms]
  show m: "strp_member st' = strp_member st" by (rule ext) (simp add: strp_member_def d)
  show b: "member_bd st' = member_bd st" by (rule ext) (simp add: member_bd_def d)
  show "strp_bd st' = strp_bd st" by (rule ext) (simp add: strp_bd_def m b)
  then show "strp_req st' = strp_req st"
    by (intro ext) (simp add: strp_req_def strp_sector_def strp_sf_def m d)
  show "strp_sf st' = strp_sf st" by (rule ext) (simp add: strp_sf_def m d)
  show "strp_sector st' = strp_sector st" by (rule ext) (simp add: strp_sector_def m d)
  show "pool_of st' = pool_of st" by (rule ext) (simp add: pool_of_def b d)
qed

lemma card_less_Suc_shift:
  "card {k. k < Suc n \<and> P k} = (if P 0 then 1 else 0) + card {k. k < n \<and> P (Suc k)}"
proof -
  have eq: "{k. k < Suc n \<and> P k} = {k. k = 0 \<and> P 0} \<union> Suc ` {k. k < n \<and> P (Suc k)}"
    by (auto simp: less_Suc_eq_0_disj)
  have "card {k. k < Suc n \<and> P k} = card {k :: nat. k = 0 \<and> P 0} + card (Suc ` {k. k < n \<and> P (Suc k)})"
    unfolding eq by (intro card_Un_disjoint) auto
  moreover have "card (Suc ` {k. k < n \<and> P (Suc k)}) = card {k. k < n \<and> P (Suc k)}"
    by (rule card_image) simp
  ultimately show ?thesis by simp
qed

lemma vol_io_upd_tok [simp]: "vol_io (upd_tok t f st) objs = vol_io st objs"
  using strp_frame(6) [OF aio_frameI(2), of t f st] by (simp add: vol_io_def)

lemma vol_io_disjoint:
  assumes "vol_io st objs" and "a < unat (vol_nb_members st)" "b < unat (vol_nb_members st)"
    and "x \<in> set (objs a)" "x \<in> set (objs b)"
  shows "a = b"
proof -
  have "pool_of st a = pool_of st b"
    using assms unfolding vol_io_def pool_ok_def by metis
  then show ?thesis using assms unfolding vol_io_def inj_on_def by blast
qed

lemma strp_member_less: "vol_io st objs \<Longrightarrow> strp_member st s < unat (vol_nb_members st)"
  by (simp add: vol_io_def strp_member_def unat_mod)

text \<open>
  The request loop over \<open>n\<close> stripes, when every member has a free request for each of its
  stripes: \<open>ps\<close> are the objects it picks.
\<close>

definition requests_sent ::
    "('w, 'u, 'z) aiost_scheme \<Rightarrow> (nat \<Rightarrow> addr list) \<Rightarrow> ('w \<Rightarrow> (addr \<times> blkfront_aiocb \<times> bool) list) \<Rightarrow>
     bool \<Rightarrow> addr \<Rightarrow> strp_t \<Rightarrow> addr \<Rightarrow> nat \<Rightarrow> addr list \<Rightarrow> ('w, 'u, 'z) aiost_scheme \<Rightarrow> bool" where
  "requests_sent st objs log wr t strp ptr n ps st' \<longleftrightarrow>
     aio_frame st st' \<and> vol_io st' objs \<and> mp_data (bd_pools st') = mp_data (bd_pools st) \<and>
     length ps = n \<and> distinct ps \<and>
     (\<forall>k < n. ps ! k \<in> set (objs (strp_member st (strp + of_nat k))) \<and>
        ps ! k \<in> set (pool_free (pool_of st (strp_member st (strp + of_nat k))) (bd_pools st)) \<and>
        bd_reqs st' (mp_data (bd_pools st) (ps ! k)) =
          strp_req st wr t (strp + of_nat k) (ptr + of_nat k * ucast (vol_stripesize st)) (ps ! k)) \<and>
     (\<forall>q < unat (vol_nb_members st). set (pool_free (pool_of st q) (bd_pools st')) =
        set (pool_free (pool_of st q) (bd_pools st)) - set ps) \<and>
     (\<forall>r. r \<notin> mp_data (bd_pools st) ` set ps \<longrightarrow> bd_reqs st' r = bd_reqs st r) \<and>
     log (bd_world st') = log (bd_world st) @
       map (\<lambda>k. (mp_data (bd_pools st) (ps ! k),
          rq_aiocb (strp_req st wr t (strp + of_nat k) (ptr + of_nat k * ucast (vol_stripesize st)) (ps ! k)), wr))
         [0..<n] \<and>
     vol_toks st' = vol_toks (upd_tok t (\<lambda>k. k\<lparr>tk_infly := tk_infly k + of_nat n\<rparr>) st)"

lemma pool_free_objs: "pool_ok p objs P \<Longrightarrow> set (pool_free p P) \<subseteq> set objs \<and> distinct (pool_free p P)"
  by (simp add: pool_ok_def)

lemma aio_requests_accepted:
  assumes vio: "vol_io st objs" and acc: "accepts io log" and n: "unat end_s = unat strp + n"
    and chk: "\<And>k. k < n \<Longrightarrow> io_check io (bd_tab st (strp_bd st (strp + of_nat k)))
        (strp_sf st (strp + of_nat k)) wr (ptr + of_nat k * ucast (vol_stripesize st)) = None"
    and need: "\<And>m. m < unat (vol_nb_members st) \<Longrightarrow>
        card {k. k < n \<and> strp_member st (strp + of_nat k) = m} \<le> length (pool_free (pool_of st m) (bd_pools st))"
  shows "\<exists>st' ps. aio_requests io ucb wr t strp end_s ptr st = Some (Inr t, st') \<and>
           requests_sent st objs log wr t strp ptr n ps st'"
  using assms
proof (induction n arbitrary: st strp ptr)
  case 0
  have "aio_requests io ucb wr t strp end_s ptr st = Some (Inr t, st)"
    using 0(3) by (subst aio_requests.simps) (simp add: word_less_nat_alt)
  moreover have "requests_sent st objs log wr t strp ptr 0 [] st"
    using 0(1) by (simp add: requests_sent_def aio_frameI upd_tok_def tok_def)
  ultimately show ?case by blast
next
  case (Suc n)
  let ?nb = "unat (vol_nb_members st)" and ?P = "bd_pools st" and ?ss = "ucast (vol_stripesize st) :: u64"
  let ?m = "strp_member st strp"
  have m: "?m < ?nb" by (rule strp_member_less [OF Suc.prems(1)])
  have lt: "strp < end_s" using Suc.prems(3) by (simp add: word_less_nat_alt)
  then have s1: "unat (strp + 1) = unat strp + 1" by (intro unat_plus_one_less) (simp add: word_less_nat_alt)
  have shift: "strp + 1 + of_nat k = strp + of_nat (Suc k)" "ptr + ?ss + of_nat k * ?ss = ptr + of_nat (Suc k) * ?ss" for k
    by (simp_all add: algebra_simps)
  have cnt: "card {k. k < Suc n \<and> strp_member st (strp + of_nat k) = q} =
      (if ?m = q then 1 else 0) + card {k. k < n \<and> strp_member st (strp + of_nat (Suc k)) = q}" for q
    using card_less_Suc_shift [of n "\<lambda>k. strp_member st (strp + of_nat k) = q"] by simp
  from Suc.prems(5) [OF m] cnt [of ?m] obtain x xs where free: "pool_free (pool_of st ?m) ?P = x # xs"
    by (cases "pool_free (pool_of st ?m) ?P") auto
  have chk0: "io_check io (bd_tab st (member_bd st ?m)) (strp_sf st strp) wr ptr = None"
    using Suc.prems(4) [of 0] by (simp add: strp_bd_def)
  let ?req = "strp_req st wr t strp ptr x"
  from async_io_accepted [OF Suc.prems(1) m free Suc.prems(2) chk0, of "strp_sector st strp" "Some (User_cb t)"]
  obtain s where s: "blkdev_async_io io (member_bd st ?m) (strp_sector st strp) (strp_sf st strp) wr ptr
      (Some (User_cb t)) st = Some (None, s)"
    and fr: "aio_frame st s" and tk: "vol_toks s = vol_toks st" and vs: "vol_io s objs"
    and dat: "mp_data (bd_pools s) = mp_data ?P"
    and fs: "\<And>q. q < ?nb \<Longrightarrow> pool_free (pool_of st q) (bd_pools s) =
              (if q = ?m then xs else pool_free (pool_of st q) ?P)"
    and rq: "bd_reqs s = (bd_reqs st)(mp_data ?P x := ?req)"
    and lg: "log (bd_world s) = log (bd_world st) @ [(mp_data ?P x, rq_aiocb ?req, wr)]"
    and xo: "x \<in> set (objs ?m)"
    by (auto simp: strp_req_def strp_bd_def)
  let ?s = "upd_tok t (\<lambda>k. k\<lparr>tk_infly := tk_infly k + 1\<rparr>) s"
  have fr': "aio_frame st ?s" by (rule aio_frame_trans [OF fr aio_frameI(2)])
  note F = strp_frame [OF fr'] and D = aio_frameD [OF fr']
  have step: "aio_requests io ucb wr t strp end_s ptr st =
      aio_requests io ucb wr t (strp + 1) end_s (ptr + ?ss) ?s"
    using lt s D(9) by (subst aio_requests.simps) (simp add: strp_sf_def)
  have "\<exists>st' ps. aio_requests io ucb wr t (strp + 1) end_s (ptr + ?ss) ?s = Some (Inr t, st') \<and>
           requests_sent ?s objs log wr t (strp + 1) (ptr + ?ss) n ps st'"
  proof (rule Suc.IH)
    show "vol_io ?s objs" using vs by simp
    show "accepts io log" by (rule Suc.prems(2))
    show "unat end_s = unat (strp + 1) + n" using Suc.prems(3) s1 by simp
    show "io_check io (bd_tab ?s (strp_bd ?s (strp + 1 + of_nat k))) (strp_sf ?s (strp + 1 + of_nat k)) wr
        (ptr + ?ss + of_nat k * ucast (vol_stripesize ?s)) = None" if "k < n" for k
      using Suc.prems(4) [of "Suc k"] that unfolding F D shift by simp
    show "card {k. k < n \<and> strp_member ?s (strp + 1 + of_nat k) = q}
        \<le> length (pool_free (pool_of ?s q) (bd_pools ?s))" if "q < unat (vol_nb_members ?s)" for q
      using Suc.prems(5) [of q] cnt [of q] fs [of q] free that unfolding F D shift by (auto split: if_splits)
  qed
  then obtain st' ps where st': "aio_requests io ucb wr t (strp + 1) end_s (ptr + ?ss) ?s = Some (Inr t, st')"
    and sent: "requests_sent ?s objs log wr t (strp + 1) (ptr + ?ss) n ps st'" by blast
  note R = sent [unfolded requests_sent_def F D shift]
  have xnot: "x \<notin> set (pool_free (pool_of st q) (bd_pools s))" if "q < ?nb" for q
  proof (cases "q = ?m")
    case True
    then show ?thesis using fs [OF that] pool_free_objs free Suc.prems(1) m
      by (fastforce simp: vol_io_def)
  next
    case False
    have "set (pool_free (pool_of st q) ?P) \<subseteq> set (objs q)"
      using Suc.prems(1) that pool_free_objs by (auto simp: vol_io_def)
    then show ?thesis using vol_io_disjoint [OF Suc.prems(1) that m _ xo] False fs [OF that] by auto
  qed
  have ps_free: "ps ! k \<in> set (pool_free (pool_of st (strp_member st (strp + of_nat (Suc k)))) (bd_pools s))" if "k < n" for k
    using R that by simp
  have len: "length ps = n"
    and own: "\<And>k. k < n \<Longrightarrow> ps ! k \<in> set (objs (strp_member st (strp + of_nat (Suc k))))"
    using R by simp_all
  have xps: "x \<notin> set ps"
  proof
    assume "x \<in> set ps"
    then obtain k where "k < n" "ps ! k = x" using len by (metis in_set_conv_nth)
    then show False using ps_free xnot [OF strp_member_less [OF Suc.prems(1)]] by metis
  qed
  have psd: "mp_data ?P x \<notin> mp_data ?P ` set ps"
  proof
    assume "mp_data ?P x \<in> mp_data ?P ` set ps"
    then obtain y where y: "y \<in> set ps" "mp_data ?P x = mp_data ?P y" by auto
    then obtain k where k: "k < n" "y = ps ! k" using len by (metis in_set_conv_nth)
    have "y \<in> (\<Union>m < ?nb. set (objs m))"
      using own [OF k(1)] k(2) strp_member_less [OF Suc.prems(1)] by blast
    moreover have "x \<in> (\<Union>m < ?nb. set (objs m))" using m xo by blast
    ultimately have "x = y" using y(2) Suc.prems(1) unfolding vol_io_def inj_on_def by blast
    with y xps show False by simp
  qed
  have "requests_sent st objs log wr t strp ptr (Suc n) (x # ps) st'"
    unfolding requests_sent_def
  proof (intro conjI)
    show "aio_frame st st'" using fr' R aio_frame_trans by blast
    show "vol_io st' objs" "length (x # ps) = Suc n" using R by simp_all
    show "mp_data (bd_pools st') = mp_data ?P" using R dat by simp
    show "distinct (x # ps)" using R xps by simp
    show "\<forall>k < Suc n. (x # ps) ! k \<in> set (objs (strp_member st (strp + of_nat k))) \<and>
        (x # ps) ! k \<in> set (pool_free (pool_of st (strp_member st (strp + of_nat k))) ?P) \<and>
        bd_reqs st' (mp_data ?P ((x # ps) ! k)) =
          strp_req st wr t (strp + of_nat k) (ptr + of_nat k * ?ss) ((x # ps) ! k)"
    proof (intro allI impI)
      fix k
      assume k: "k < Suc n"
      show "(x # ps) ! k \<in> set (objs (strp_member st (strp + of_nat k))) \<and>
        (x # ps) ! k \<in> set (pool_free (pool_of st (strp_member st (strp + of_nat k))) ?P) \<and>
        bd_reqs st' (mp_data ?P ((x # ps) ! k)) =
          strp_req st wr t (strp + of_nat k) (ptr + of_nat k * ?ss) ((x # ps) ! k)"
      proof (cases k)
        case 0
        have "bd_reqs st' (mp_data ?P x) = bd_reqs s (mp_data ?P x)" using R psd dat by simp
        then show ?thesis using 0 xo free rq by simp
      next
        case (Suc j)
        then have j: "j < n" using k by simp
        have "ps ! j \<in> set (pool_free (pool_of st (strp_member st (strp + of_nat (Suc j)))) ?P)"
          using ps_free [OF j] fs [OF strp_member_less [OF Suc.prems(1)]] free by (auto split: if_splits)
        then show ?thesis using R j Suc dat by simp
      qed
    qed
    show "\<forall>q < ?nb. set (pool_free (pool_of st q) (bd_pools st')) =
        set (pool_free (pool_of st q) ?P) - set (x # ps)"
    proof (intro allI impI)
      fix q
      assume q: "q < ?nb"
      have "set (pool_free (pool_of st q) (bd_pools st')) = set (pool_free (pool_of st q) (bd_pools s)) - set ps"
        using R q by simp
      moreover have "set (pool_free (pool_of st q) (bd_pools s)) = set (pool_free (pool_of st q) ?P) - {x}"
        using fs [OF q] xnot [OF q] free by auto
      ultimately show "set (pool_free (pool_of st q) (bd_pools st')) =
          set (pool_free (pool_of st q) ?P) - set (x # ps)" by auto
    qed
    show "\<forall>r. r \<notin> mp_data ?P ` set (x # ps) \<longrightarrow> bd_reqs st' r = bd_reqs st r"
      using R dat rq by simp
    show "log (bd_world st') = log (bd_world st) @ map (\<lambda>k. (mp_data ?P ((x # ps) ! k),
          rq_aiocb (strp_req st wr t (strp + of_nat k) (ptr + of_nat k * ?ss) ((x # ps) ! k)), wr)) [0..<Suc n]"
      using R lg dat by (simp add: upt_conv_Cons map_Suc_upt [symmetric] del: upt_Suc)
    show "vol_toks st' = vol_toks (upd_tok t (\<lambda>k. k\<lparr>tk_infly := tk_infly k + of_nat (Suc n)\<rparr>) st)"
      using R tk by (simp add: upd_tok_def tok_def algebra_simps)
  qed
  with step st' show ?case by auto
qed

section \<open>Setting up a chunk on a combined volume\<close>

text \<open>
  The token pool: its objects are \<open>tobjs\<close>, it initialises a token at every pick, and the
  tokens lie apart.
\<close>

definition vol_tok_ok :: "('w, 'u, 'z) aiost_scheme \<Rightarrow> addr list \<Rightarrow> bool" where
  "vol_tok_ok st tobjs \<longleftrightarrow>
     pool_ok (vol_aiotoken_pool st) tobjs (vol_toks st) \<and>
     obj_pick_func (mp_pools (vol_toks st) (vol_aiotoken_pool st)) = Some aiotoken_pool_objinit \<and>
     inj_on (mp_data (vol_toks st)) (set tobjs)"

definition free_toks :: "('w, 'u, 'z) aiost_scheme \<Rightarrow> addr list" where
  "free_toks st = pool_free (vol_aiotoken_pool st) (vol_toks st)"

lemma pick_token_None:
  assumes "vol_tok_ok st tobjs" and "free_toks st = []"
  shows "shfs_aio_pick_token st = (None, st)"
  using mempool_pick_None [of "vol_aiotoken_pool st" tobjs "vol_toks st"] assms
  by (simp add: vol_tok_ok_def free_toks_def shfs_aio_pick_token_def)

lemma pick_token_Some:
  assumes ok: "vol_tok_ok st tobjs" and free: "free_toks st = x # xs"
  shows "\<exists>ts. shfs_aio_pick_token st = (Some (mp_data (vol_toks st) x), st\<lparr>vol_toks := ts\<rparr>) \<and>
           vol_tok_ok (st\<lparr>vol_toks := ts\<rparr>) tobjs \<and> free_toks (st\<lparr>vol_toks := ts\<rparr>) = xs \<and>
           mp_data ts = mp_data (vol_toks st) \<and>
           mp_mem ts = (mp_mem (vol_toks st))(mp_data (vol_toks st) x :=
             (tok st (mp_data (vol_toks st) x))\<lparr>tk_p_obj := x, tk_ret := None, tk_infly := 0, tk_cb := None\<rparr>)"
proof -
  let ?p = "vol_aiotoken_pool st" and ?T = "vol_toks st"
  have p: "pool_ok ?p tobjs ?T" "pool_free ?p ?T = x # xs"
    "obj_pick_func (mp_pools ?T ?p) = Some aiotoken_pool_objinit" "inj_on (mp_data ?T) (set tobjs)"
    using ok free by (simp_all add: vol_tok_ok_def free_toks_def)
  have px: "p_ref (mp_objs ?T x) = ?p" using p(1,2) by (auto simp: pool_ok_def)
  from mempool_pick_Some [OF p(1,2)] obtain r where T: "mempool_pick ?p ?T =
      (Some x, ?T\<lparr>mp_objs := (mp_objs ?T)(x := reset_desc (mp_pools ?T ?p) (mp_objs ?T x)),
         mp_pools := (mp_pools ?T)(?p := (mp_pools ?T ?p)\<lparr>free_objs := r\<rparr>),
         mp_mem := aiotoken_pool_objinit x (reset_desc (mp_pools ?T ?p) (mp_objs ?T x)) (mp_mem ?T)\<rparr>)"
    unfolding p(3) by auto
  let ?ts = "?T\<lparr>mp_objs := (mp_objs ?T)(x := reset_desc (mp_pools ?T ?p) (mp_objs ?T x)),
         mp_pools := (mp_pools ?T)(?p := (mp_pools ?T ?p)\<lparr>free_objs := r\<rparr>),
         mp_mem := aiotoken_pool_objinit x (reset_desc (mp_pools ?T ?p) (mp_objs ?T x)) (mp_mem ?T)\<rparr>"
  from pool_pick_all [OF p(1,2)] T have P: "pool_ok ?p tobjs ?ts" "pool_free ?p ?ts = xs"
    "mp_data ?ts = mp_data ?T" by auto
  have d: "obj_data (reset_desc (mp_pools ?T ?p) (mp_objs ?T x)) = mp_data ?T x"
    by (simp add: reset_desc_def mp_data_def px)
  have "shfs_aio_pick_token st = (Some (mp_data ?T x), st\<lparr>vol_toks := ?ts\<rparr>)"
    using T d by (simp add: shfs_aio_pick_token_def)
  moreover have "vol_tok_ok (st\<lparr>vol_toks := ?ts\<rparr>) tobjs"
    unfolding vol_tok_ok_def using P p(3,4) by simp
  moreover have "free_toks (st\<lparr>vol_toks := ?ts\<rparr>) = xs" using P(2) by (simp add: free_toks_def)
  moreover have "mp_mem ?ts = (mp_mem ?T)(mp_data ?T x :=
             (tok st (mp_data ?T x))\<lparr>tk_p_obj := x, tk_ret := None, tk_infly := 0, tk_cb := None\<rparr>)"
    using d by (simp add: aiotoken_pool_objinit_def tok_def Let_def)
  ultimately show ?thesis using P(3) by blast
qed

lemma unat_avail_req:
  "unat (blkdev_avail_req (member_bd st m) st) = length (pool_free (pool_of st m) (bd_pools st))"
  by (simp add: blkdev_avail_req_def mempool_free_count_def pool_of_def pool_free_def ring_refs_def)

lemma card_mod_eq: "m < n \<Longrightarrow> card {k. k < L * n \<and> k mod n = (m :: nat)} = L"
proof -
  assume m: "m < n"
  have "{k. k < L * n \<and> k mod n = m} = (\<lambda>i. i * n + m) ` {..<L}"
  proof (intro equalityI subsetI)
    fix k
    assume "k \<in> {k. k < L * n \<and> k mod n = m}"
    then have "k div n < L" "k = k div n * n + m"
      by (auto simp: less_mult_imp_div_less)
    then show "k \<in> (\<lambda>i. i * n + m) ` {..<L}" by blast
  next
    fix k
    assume "k \<in> (\<lambda>i. i * n + m) ` {..<L}"
    then obtain i where i: "i < L" "k = i * n + m" by auto
    have "i * n + m < (i + 1) * n" using m by simp
    also have "\<dots> \<le> L * n" using i by (intro mult_le_mono1) simp
    finally show "k \<in> {k. k < L * n \<and> k mod n = m}" using i m by simp
  qed
  moreover have "inj_on (\<lambda>i. i * n + m) {..<L}" using m by (auto simp: inj_on_def)
  ultimately show ?thesis by (simp add: card_image)
qed

lemma aio_chunk_combined:
  fixes st :: "('w, 'u, 'z) aiost_scheme" and start len :: chk_t
  defines "n \<equiv> unat (vol_nb_members st)"
  defines "s \<equiv> fst (aio_stripes st start len)"
  assumes mnt: "shfs_mounted st" and comb: "vol_stripemode st = SHFS_SM_COMBINED"
    and vio: "vol_io st objs" and vtok: "vol_tok_ok st tobjs" and acc: "accepts io log"
    and small: "(unat start + unat len) * n < 2 ^ 64"
    and chk: "\<And>k. k < unat len * n \<Longrightarrow> io_check io (bd_tab st (strp_bd st (s + of_nat k)))
        (strp_sf st (s + of_nat k)) wr (buffer + of_nat k * ucast (vol_stripesize st)) = None"
  shows "(if (\<exists>m < n. length (pool_free (pool_of st m) (bd_pools st)) < unat len) \<or> free_toks st = []
          then shfs_aio_chunk io ucb start len wr buffer cb st = Some (Inl (Errno EAGAIN), st)
          else \<exists>st1 st' t ps. shfs_aio_chunk io ucb start len wr buffer cb st = Some (Inr t, st') \<and>
                 shfs_aio_pick_token st = (Some t, st1) \<and> t = mp_data (vol_toks st) (hd (free_toks st)) \<and>
                 requests_sent (upd_tok t (\<lambda>k. k\<lparr>tk_cb := cb\<rparr>) st1) objs log wr t s buffer (unat len * n) ps st')"
proof -
  let ?e = "snd (aio_stripes st start len)" and ?nb = "ucast (vol_nb_members st) :: u64"
  have n0: "0 < n" using vio by (simp add: vol_io_def n_def)
  note S = stripes_combined [OF comb small [unfolded n_def] n0 [unfolded n_def], folded n_def s_def]
  have e: "unat ?e = unat s + unat len * n" using S by (simp add: algebra_simps)
  have nz: "vol_nb_members st \<noteq> 0" using n0 by (auto simp: n_def)
  have num: "(?e - s) div ?nb = len"
  proof -
    have "unat (?e - s) = unat len * n"
      using e unat_sub [of s ?e] by (simp add: word_le_nat_alt)
    then have "unat ((?e - s) div ?nb) = unat len" using n0 by (simp add: unat_div n_def)
    then show ?thesis by (rule unsigned_word_eqI)
  qed
  have avail: "(\<exists>m \<in> set [0..<n]. ucast (blkdev_avail_req (member_bd st m) st) < len) \<longleftrightarrow>
      (\<exists>m < n. length (pool_free (pool_of st m) (bd_pools st)) < unat len)"
    by (auto simp: word_less_nat_alt unat_ucast_widths unat_avail_req)
  have head: "shfs_aio_chunk io ucb start len wr buffer cb st =
      (if \<exists>m < n. length (pool_free (pool_of st m) (bd_pools st)) < unat len
       then Some (Inl (Errno EAGAIN), st)
       else case shfs_aio_pick_token st of
              (None, st) \<Rightarrow> Some (Inl (Errno EAGAIN), st)
            | (Some t, st) \<Rightarrow>
                aio_requests io ucb wr t s ?e buffer (upd_tok t (\<lambda>k. k\<lparr>tk_cb := cb\<rparr>) st))"
    unfolding shfs_aio_chunk_def Let_def using mnt nz
    by (simp only: not_True_eq_False if_False if_True prod.case_eq_if s_def [symmetric] num n_def [symmetric] avail)
  show ?thesis
  proof (cases "(\<exists>m < n. length (pool_free (pool_of st m) (bd_pools st)) < unat len) \<or> free_toks st = []")
    case True
    then show ?thesis using head pick_token_None [OF vtok] by auto
  next
    case False
    then obtain x xs where x: "free_toks st = x # xs" by (cases "free_toks st") auto
    let ?t = "mp_data (vol_toks st) x"
    from pick_token_Some [OF vtok x] obtain ts where
      ts: "shfs_aio_pick_token st = (Some ?t, st\<lparr>vol_toks := ts\<rparr>)" by blast
    let ?s = "upd_tok ?t (\<lambda>k. k\<lparr>tk_cb := cb\<rparr>) (st\<lparr>vol_toks := ts\<rparr>)"
    have fr: "aio_frame st ?s" by (simp add: aio_frame_def upd_tok_def)
    note F = strp_frame [OF fr] and D = aio_frameD [OF fr]
    have P: "bd_pools ?s = bd_pools st" by simp
    have mem: "strp_member st (s + of_nat k) = k mod n" if "k < unat len * n" for k
    proof -
      have "unat ?e < 2 ^ LENGTH(64)" by (rule unsigned_less)
      then have "unat s + k < 2 ^ LENGTH(64)" "k < 2 ^ LENGTH(64)" using that e by linarith+
      then have "unat (s + of_nat k) = unat s + k"
        by (subst unat_add_less) (simp_all add: unat_of_nat_less)
      then show ?thesis using S(1) by (simp add: strp_member_def unat_mod n_def [symmetric])
    qed
    have "\<exists>st' ps. aio_requests io ucb wr ?t s ?e buffer ?s = Some (Inr ?t, st') \<and>
        requests_sent ?s objs log wr ?t s buffer (unat len * n) ps st'"
    proof (rule aio_requests_accepted [OF _ acc e])
      show "vol_io ?s objs" using vio F(6) unfolding vol_io_def by simp
      show "io_check io (bd_tab ?s (strp_bd ?s (s + of_nat k))) (strp_sf ?s (s + of_nat k)) wr
          (buffer + of_nat k * ucast (vol_stripesize ?s)) = None" if "k < unat len * n" for k
        using chk [OF that] unfolding F D .
      show "card {k. k < unat len * n \<and> strp_member ?s (s + of_nat k) = m}
          \<le> length (pool_free (pool_of ?s m) (bd_pools ?s))" if "m < unat (vol_nb_members ?s)" for m
      proof -
        have m: "m < n" using that unfolding D n_def .
        have "{k. k < unat len * n \<and> strp_member st (s + of_nat k) = m} = {k. k < unat len * n \<and> k mod n = m}"
          using mem by auto
        moreover have "unat len \<le> length (pool_free (pool_of st m) (bd_pools st))"
          using False m by (meson not_less)
        ultimately show ?thesis using card_mod_eq [OF m] unfolding F P by simp
      qed
    qed
    then show ?thesis
      using False head ts x by auto
  qed
qed


text \<open>A front end that keeps what it has accepted, and what it takes for \<open>accepts\<close>.\<close>

definition log_blkfront :: "((addr \<times> blkfront_aiocb \<times> bool) list) blkfront" where
  "log_blkfront =
     \<lparr>init_blkfront = (\<lambda>_ w. (None, w)), shutdown_blkfront = (\<lambda>_ w. w),
      blkfront_aio_enqueue = (\<lambda>req a wr w. (None, w @ [(req, a, wr)])),
      blkfront_aio_submit = (\<lambda>_ w. w), blkfront_wait_slot = (\<lambda>_ w. w),
      blkfront_aio_poll = (\<lambda>_ w. ([], w)),
      MAX_REQUESTS = 31, PAGE_SIZE = 4096, BLKIF_MAX_SEGMENTS = 11, sizeof_aiocb = 64\<rparr>"

definition sample_aiolog :: "((addr \<times> blkfront_aiocb \<times> bool) list, 'u) aiost" where
  "sample_aiolog =
     \<lparr>bd_tab = (\<lambda>_. sample_blkdev), bd_links = (\<lambda>_. \<lparr>dl_next = None, dl_prev = None\<rparr>),
      open_bd_list = None, bd_pools = sample_pool, bd_reqs = (\<lambda>_. sample_req),
      bd_syncs = (\<lambda>_. \<lparr>ios_sem = 0, ios_ret = None\<rparr>), bd_mem = (\<lambda>_. 0), bd_world = [],
      shfs_mounted = True, vol_nb_members = 1,
      vol_member = [\<lparr>vm_bd = 9, vm_uuid = replicate 16 1, vm_sfactor = 8\<rparr>],
      vol_stripesize = 4096, vol_stripemode = SHFS_SM_COMBINED, vol_chunksize = 4096,
      vol_volsize = 100, vol_ioalign = 512, vol_aiotoken_pool = 0, vol_toks = sample_toks\<rparr>"

lemma sample_aiolog_ok:
  "vol_io (sample_aiolog :: (_, 'u) aiost) (\<lambda>_. [100, 200])"
  "vol_tok_ok (sample_aiolog :: (_, 'u) aiost) [100, 200]"
  "accepts log_blkfront (\<lambda>w. w)"
  "pool_free (pool_of (sample_aiolog :: (_, 'u) aiost) 0) (bd_pools (sample_aiolog :: (_, 'u) aiost)) = [100]"
  "free_toks (sample_aiolog :: (_, 'u) aiost) = [100]"
proof -
  let ?s = "sample_aiolog :: (_, 'u) aiost"
  have m: "member_bd ?s 0 = 9" by (simp add: member_bd_def sample_aiolog_def)
  have p: "pool_of ?s 0 = 0" unfolding pool_of_def m by (simp add: sample_aiolog_def sample_blkdev_def)
  have ok: "pool_ok 0 [100, 200] sample_pool" "pool_free 0 sample_pool = [100]" by (fact sample_pool_ok)+
  have nb: "unat (vol_nb_members ?s) = 1" and P: "bd_pools ?s = sample_pool"
    and T: "vol_toks ?s = sample_toks" "vol_aiotoken_pool ?s = 0"
    by (simp_all add: sample_aiolog_def)
  have inj: "inj_on (mp_data sample_pool) {100, 200}"
    by (simp add: mp_data_def sample_pool_def sample_mpstate_def)
  show "vol_io ?s (\<lambda>_. [100, 200])"
    unfolding vol_io_def nb P using ok inj p by (simp add: lessThan_Suc)
  show "pool_free (pool_of ?s 0) (bd_pools ?s) = [100]" unfolding p P by (rule ok)
  show "accepts log_blkfront (\<lambda>w. w)" by (simp add: accepts_def log_blkfront_def)
  have fr: "free_objs (mp_pools sample_toks 0) = free_objs (mp_pools sample_pool 0)"
    "mp_objs sample_toks = mp_objs sample_pool" by (simp_all add: sample_toks_def)
  show "free_toks ?s = [100]"
    unfolding free_toks_def T using ok(2) by (simp add: pool_free_def fr)
  have nbo: "nb_objs (mp_pools sample_toks 0) = nb_objs (mp_pools sample_pool 0)"
    by (simp add: sample_toks_def sample_pool_def sample_mpstate_def)
  have "pool_ok 0 [100, 200] sample_toks"
    using ok(1) by (simp add: pool_ok_def pool_free_def fr nbo)
  moreover have "inj_on (mp_data sample_toks) {100, 200}"
    by (simp add: mp_data_def sample_toks_def sample_pool_def sample_mpstate_def)
  ultimately show "vol_tok_ok ?s [100, 200]"
    unfolding vol_tok_ok_def T by (simp add: sample_toks_def)
qed


section \<open>What I/O leaves alone\<close>

text \<open>
  A property of the state that looks at what clients of chunk I/O have added to it, and at how
  much is in a set \<open>B\<close> that belongs to the front end's and the heap's state (the blocks of memory in
  use, say), which may only grow. It survives all I/O, polling and waiting included, when the
  callbacks keep it and the front end does not take from the set.
\<close>

definition io_stable :: "('w \<Rightarrow> addr set) \<Rightarrow> (('w, 'u, 'z) aiost_scheme \<Rightarrow> bool) \<Rightarrow> bool" where
  "io_stable B J \<longleftrightarrow>
     (\<forall>s s'. aiost.more s = aiost.more s' \<longrightarrow> B (bd_world s) \<subseteq> B (bd_world s') \<longrightarrow> J s \<longrightarrow> J s')"

definition io_keeps :: "('w \<Rightarrow> addr set) \<Rightarrow> 'w blkfront \<Rightarrow> bool" where
  "io_keeps B io \<longleftrightarrow>
     (\<forall>req acb wr w. B w \<subseteq> B (snd (blkfront_aio_enqueue io req acb wr w))) \<and>
     (\<forall>dev w. B w \<subseteq> B (blkfront_aio_submit io dev w)) \<and>
     (\<forall>dev w. B w \<subseteq> B (blkfront_wait_slot io dev w)) \<and>
     (\<forall>dev w. B w \<subseteq> B (snd (blkfront_aio_poll io dev w)))"

definition cb_keeps ::
    "(('w, 'u, 'z) aiost_scheme \<Rightarrow> bool) \<Rightarrow>
     ('u shfs_aiocb \<Rightarrow> addr \<Rightarrow> ('w, 'u, 'z) aiost_scheme \<Rightarrow> fault + ('w, 'u, 'z) aiost_scheme) \<Rightarrow> bool" where
  "cb_keeps J ucb \<longleftrightarrow> (\<forall>c t st st'. J st \<longrightarrow> ucb c t st = Inr st' \<longrightarrow> J st')"

abbreviation no_blocks :: "'w \<Rightarrow> addr set" where "no_blocks \<equiv> \<lambda>_. {}"

lemma io_keeps_none [simp]: "io_keeps no_blocks io"
  by (simp add: io_keeps_def)

lemma io_keepsD:
  assumes "io_keeps B io"
  shows "blkfront_aio_enqueue io req acb wr w = (r, w') \<Longrightarrow> B w \<subseteq> B w'" "B w \<subseteq> B (blkfront_aio_submit io dev w)"
    "B w \<subseteq> B (blkfront_wait_slot io dev w)" "blkfront_aio_poll io dev w = (cs, w') \<Longrightarrow> B w \<subseteq> B w'"
  using assms unfolding io_keeps_def by (metis snd_conv)+

lemma io_stableD:
  "io_stable B J \<Longrightarrow> aiost.more s' = aiost.more s \<Longrightarrow> B (bd_world s) \<subseteq> B (bd_world s') \<Longrightarrow> J s \<Longrightarrow> J s'"
  unfolding io_stable_def by metis

lemma io_stable_eq:
  "io_stable B J \<Longrightarrow> aiost.more s' = aiost.more s \<Longrightarrow> B (bd_world s) = B (bd_world s') \<Longrightarrow> J s' = J s"
  using io_stableD [of B J s s'] io_stableD [of B J s' s] by auto

lemma io_stable_upd:
  assumes "io_stable B J"
  shows "J (st\<lparr>bd_mem := a\<rparr>) = J st" "J (st\<lparr>bd_pools := c\<rparr>) = J st"
    "J (st\<lparr>bd_syncs := d\<rparr>) = J st" "J (st\<lparr>vol_toks := e\<rparr>) = J st" "J (upd_tok t f st) = J st"
    "J (st\<lparr>bd_reqs := g\<rparr>) = J st"
  by (rule io_stable_eq [OF assms], simp_all add: upd_tok_def)+

lemma io_stable_world: "io_stable B J \<Longrightarrow> B (bd_world st) \<subseteq> B w \<Longrightarrow> J st \<Longrightarrow> J (st\<lparr>bd_world := w\<rparr>)"
  by (rule io_stableD [where s = st]) simp_all

lemma shfs_aio_cb_keeps:
  assumes J: "io_stable B J" and cb: "cb_keeps J ucb" and st: "J st" "shfs_aio_cb ucb r t st = Inr st'"
  shows "J st'"
proof -
  let ?s = "completed_tok (or_else r (tk_ret (tok st t))) t (tk_infly (tok st t) - 1) st"
  have s: "J ?s" using st(1) by (simp add: completed_tok_def io_stable_upd [OF J])
  show ?thesis
  proof (cases "tk_infly (tok st t) - 1 = 0 \<and> tk_cb (tok st t) \<noteq> None")
    case True
    then obtain c where "ucb c t ?s = Inr st'"
      using st(2) by (auto simp: shfs_aio_cb_eq Let_def)
    then show ?thesis using cb s unfolding cb_keeps_def by blast
  next
    case False
    then have "st' = ?s" using st(2) by (auto simp: shfs_aio_cb_eq Let_def split: if_splits)
    then show ?thesis using s by simp
  qed
qed

lemma async_io_cb_keeps:
  assumes J: "io_stable B J" and cb: "cb_keeps J ucb"
    and st: "J st" "blkdev_async_io_cb (shfs_aio_cb ucb) req ret st = Inr st'"
  shows "J st'"
  using st shfs_aio_cb_keeps [OF J cb st(1)]
  by (auto simp: blkdev_async_io_cb_def blkdev_sync_io_cb_def io_stable_upd [OF J] Let_def
      split: option.splits sum.splits blkdev_cb.splits)

lemma run_completions_keeps:
  assumes J: "io_stable B J" and cb: "cb_keeps J ucb"
  shows "J st \<Longrightarrow> run_completions (shfs_aio_cb ucb) cs st = Inr st' \<Longrightarrow> J st'"
proof (induction cs arbitrary: st)
  case Nil
  then show ?case by simp
next
  case (Cons p cs)
  obtain req ret bs where p: "p = (req, ret, bs)" by (cases p)
  let ?s = "st\<lparr>bd_mem := mem_write (aio_buf (rq_aiocb (bd_reqs st req))) bs (bd_mem st)\<rparr>"
  have "J ?s" using Cons.prems(1) by (simp add: io_stable_upd [OF J])
  with Cons.prems(2) obtain s where "blkdev_async_io_cb (shfs_aio_cb ucb) req ret ?s = Inr s" "J s"
    "run_completions (shfs_aio_cb ucb) cs s = Inr st'"
    using async_io_cb_keeps [OF J cb, of ?s req ret] by (auto simp: p split: sum.splits)
  then show ?case using Cons.IH by blast
qed

lemma poll_blkdevs_keeps:
  assumes J: "io_stable B J" and cb: "cb_keeps J ucb" and io: "io_keeps B io"
  shows "J st \<Longrightarrow> shfs_poll_blkdevs io ucb st = Inr st' \<Longrightarrow> J st'"
proof -
  have "J s \<Longrightarrow> poll_members io ucb ms s = Inr s' \<Longrightarrow> J s'" for ms s s'
  proof (induction ms arbitrary: s)
    case Nil
    then show ?case by simp
  next
    case (Cons i ms)
    then obtain s1 where s1: "blkdev_poll_req io (shfs_aio_cb ucb) (member_bd s i) s = Inr s1"
      "poll_members io ucb ms s1 = Inr s'" by (auto split: sum.splits)
    obtain cs w where w: "blkfront_aio_poll io (bd_dev (bd_tab s (member_bd s i))) (bd_world s) = (cs, w)" by fastforce
    have "J (s\<lparr>bd_world := w\<rparr>)" by (rule io_stable_world [OF J io_keepsD(4) [OF io w] Cons.prems(1)])
    then have "J s1"
      using s1(1) run_completions_keeps [OF J cb] by (auto simp: blkdev_poll_req_def w)
    then show ?case using Cons.IH s1(2) by blast
  qed
  then show "J st \<Longrightarrow> shfs_poll_blkdevs io ucb st = Inr st' \<Longrightarrow> J st'"
    by (simp add: shfs_poll_blkdevs_def)
qed

lemma aio_wait_keeps:
  assumes J: "io_stable B J"
  shows "shfs_aio_wait io ucb t st = Some r \<Longrightarrow> cb_keeps J ucb \<Longrightarrow> io_keeps B io \<Longrightarrow> J st \<Longrightarrow>
    (case r of Inl f \<Rightarrow> True | Inr st' \<Rightarrow> J st')"
proof (induction rule: shfs_aio_wait.raw_induct [rotated, consumes 1, case_names 1])
  case (1 wait io ucb t st r)
  show ?case
  proof (cases "tk_infly (tok st t) = 0")
    case True
    then show ?thesis using 1 by auto
  next
    case False
    show ?thesis
    proof (cases "shfs_poll_blkdevs io ucb st")
      case (Inl f)
      then have "r = Inl f" using 1(2) False by simp
      then show ?thesis by simp
    next
      case (Inr s)
      have "J s" by (rule poll_blkdevs_keeps [OF J 1(3,4,5) Inr])
      moreover have "wait io ucb t s = Some r" using 1(2) False Inr by simp
      ultimately show ?thesis using 1(1) 1(3,4) by blast
    qed
  qed
qed

text \<open>A chunk request that is set up, or refused at once, leaves the clients' state alone.\<close>

lemma bdst_moreD:
  assumes "bdst.more s' = bdst.more s"
  shows "aiost.more s' = aiost.more s" "vol_toks s' = vol_toks s" "vol_nb_members s' = vol_nb_members s"
  using assms by (cases s; cases s'; simp)+

lemma enqueue_retry_more:
  fixes st :: "('w, 'c, 'z) bdst_scheme"
  shows "enqueue_retry io bd req wr st = Some r \<Longrightarrow>
    bdst.more (snd r) = bdst.more st \<and> (io_keeps B io \<longrightarrow> B (bd_world st) \<subseteq> B (bd_world (snd r)))"
proof (induction rule: enqueue_retry.raw_induct [rotated, consumes 1, case_names 1])
  case (1 retry io bd req wr st r)
  obtain ret w where w: "blkfront_aio_enqueue io req (rq_aiocb (bd_reqs st req)) wr (bd_world st) = (ret, w)" by fastforce
  show ?case
  proof (cases "ret = Some EBUSY")
    case True
    let ?st = "blkdev_async_io_wait_slot io bd (blkdev_async_io_submit io bd (st\<lparr>bd_world := w\<rparr>))"
    have r: "retry io bd req wr ?st = Some r" using 1(2) w True by (simp add: Let_def)
    have "B (bd_world st) \<subseteq> B (bd_world ?st)" if io: "io_keeps B io"
      using io_keepsD(1) [OF io w] io_keepsD(2,3) [OF io]
      by (simp add: blkdev_async_io_wait_slot_def blkdev_async_io_submit_def) (meson subset_trans)
    moreover have "bdst.more ?st = bdst.more st" by (simp add: blkdev_async_io_wait_slot_def blkdev_async_io_submit_def)
    ultimately show ?thesis using 1(1) [OF r] by auto
  next
    case False
    then show ?thesis using 1(2) w io_keepsD(1) [OF _ w, of B] by (auto simp: Let_def)
  qed
qed

lemma async_io_more:
  assumes "blkdev_async_io io bd start len wr buffer cb st = Some (r, st')"
  shows "bdst.more st' = bdst.more st" and "io_keeps B io \<Longrightarrow> B (bd_world st) \<subseteq> B (bd_world st')"
  using assms
  by (auto simp: blkdev_async_io_def blkdev_async_io_nocheck_def Let_def
      split: option.splits prod.splits dest!: enqueue_retry_more [where B = B])

lemma aio_requests_keeps:
  assumes J: "io_stable B J" and cb: "cb_keeps J ucb" and io: "io_keeps B io"
  shows "aio_requests io ucb wr t strp end_s ptr st = Some (r, st') \<Longrightarrow>
    (r = Inr t \<and> aiost.more st' = aiost.more st \<and> B (bd_world st) \<subseteq> B (bd_world st')) \<or>
    ((\<forall>x. r \<noteq> Inr x) \<and> ((\<forall>f. r \<noteq> Inl (Fault f)) \<longrightarrow> J st \<longrightarrow> J st'))"
proof (induction "unat end_s - unat strp" arbitrary: strp ptr st rule: less_induct)
  case less
  let ?m = "strp_member st strp"
  show ?case
  proof (cases "strp < end_s")
    case False
    then show ?thesis using less.prems by (subst (asm) aio_requests.simps) simp
  next
    case True
    obtain e s where e: "blkdev_async_io io (member_bd st ?m) (strp_sector st strp)
        (vm_sfactor (vol_member st ! ?m)) wr ptr (Some (User_cb t)) st = Some (e, s)"
      using less.prems True by (subst (asm) aio_requests.simps) (auto simp: Let_def split: option.splits)
    note more = bdst_moreD [OF async_io_more(1) [OF e]] and B = async_io_more(2) [OF e io]
    have eq: "aio_requests io ucb wr t strp end_s ptr st =
       (case e of
          Some e \<Rightarrow> (case shfs_aio_wait io ucb t (upd_tok t (\<lambda>k. k\<lparr>tk_cb := None\<rparr>) s) of
                  None \<Rightarrow> None
                | Some (Inl f) \<Rightarrow> Some (Inl (Fault f), s)
                | Some (Inr st) \<Rightarrow> Some (Inl (Errno e), shfs_aio_put_token t st))
        | None \<Rightarrow> aio_requests io ucb wr t (strp + 1) end_s (ptr + ucast (vol_stripesize s))
                 (upd_tok t (\<lambda>k. k\<lparr>tk_infly := tk_infly k + 1\<rparr>) s))"
      using True e by (subst aio_requests.simps) (simp add: Let_def split: option.split)
    have Js: "J st \<Longrightarrow> J (upd_tok t f s)" for f
      using io_stableD [OF J more(1) B] by (simp add: io_stable_upd [OF J])
    show ?thesis
    proof (cases e)
      case None
      let ?s = "upd_tok t (\<lambda>k. k\<lparr>tk_infly := tk_infly k + 1\<rparr>) s"
      have lt: "unat end_s - unat (strp + 1) < unat end_s - unat strp"
        using True unat_plus_one_less [of strp end_s] by (simp add: word_less_nat_alt)
      have "aiost.more ?s = aiost.more st" "B (bd_world st) \<subseteq> B (bd_world ?s)"
        using more(1) B by (simp_all add: upd_tok_def)
      then show ?thesis
        using less.hyps [OF lt less.prems [unfolded eq None option.case]] Js by fastforce
    next
      case (Some n)
      obtain w where w: "shfs_aio_wait io ucb t (upd_tok t (\<lambda>k. k\<lparr>tk_cb := None\<rparr>) s) = Some w"
        using less.prems [unfolded eq Some option.case] by (auto split: option.splits)
      show ?thesis
      proof (cases w)
        case (Inl f)
        then have "r = Inl (Fault f)" using less.prems [unfolded eq Some option.case w] by simp
        then show ?thesis by simp
      next
        case (Inr s1)
        then have r: "r = Inl (Errno n)" "st' = shfs_aio_put_token t s1"
          using less.prems [unfolded eq Some option.case w] by simp_all
        have "J st \<longrightarrow> J s1" using aio_wait_keeps [OF J w cb io] Inr Js by simp
        then show ?thesis using r by (simp add: shfs_aio_put_token_def io_stable_upd [OF J])
      qed
    qed
  qed
qed

lemma aio_chunk_keeps:
  assumes J: "io_stable B J" and cb: "cb_keeps J ucb" and io: "io_keeps B io"
    and st: "shfs_aio_chunk io ucb start len wr buffer cb0 st = Some (r, st')"
  shows "(\<exists>t. r = Inr t \<and> aiost.more st' = aiost.more st \<and> B (bd_world st) \<subseteq> B (bd_world st')) \<or>
    ((\<forall>x. r \<noteq> Inr x) \<and> ((\<forall>f. r \<noteq> Inl (Fault f)) \<longrightarrow> J st \<longrightarrow> J st'))"
proof (cases "shfs_aio_pick_token st")
  case (Pair t s)
  have s: "aiost.more s = aiost.more st" "bd_world s = bd_world st"
    using Pair by (auto simp: shfs_aio_pick_token_def Let_def split: prod.splits option.splits)
  have Bs: "B (bd_world st) = B (bd_world s)" by (simp add: s)
  show ?thesis
  proof (cases t)
    case None
    then show ?thesis using st Pair io_stable_eq [OF J s(1) Bs]
      by (auto simp: shfs_aio_chunk_def Let_def split: if_splits prod.splits)
  next
    case (Some u)
    let ?s = "upd_tok u (\<lambda>k. k\<lparr>tk_cb := cb0\<rparr>) s"
    have "J ?s = J st" "aiost.more ?s = aiost.more st" "bd_world ?s = bd_world st"
      using io_stable_eq [OF J s(1) Bs] s by (simp_all add: io_stable_upd [OF J]) (simp_all add: upd_tok_def s)
    then show ?thesis using st Pair Some
      by (auto simp: shfs_aio_chunk_def Let_def split: if_splits prod.splits dest!: aio_requests_keeps [OF J cb io])
  qed
qed

end
