(* ===== verification/Cache.thy ===== *)
theory Cache
  imports Prelude DList Mempool ShfsDefs Blkdev Aio
begin

text \<open>
  The chunk cache (\<open>shfs/shfs_cache.h\<close>, \<open>shfs/shfs_cache.c\<close>), built with
  \<open>SHFS_CACHE_READAHEAD=8\<close>, \<open>SHFS_CACHE_GROW\<close>, and neither \<open>SHFS_CACHE_DISABLE\<close> nor
  \<open>SHFS_CACHE_POOL_MAXALLOC\<close> nor \<open>SHFS_CACHE_STATS\<close>.

  Entries live at addresses. A pooled entry is the private data of an object of the cache's
  pool; a grown entry is a block of the heap. The two lists an entry can be in are
  two link maps, \<open>cce_al\<close> for the available list and \<open>cce_cl\<close> for the collision lists.
  The heap's functions (\<open>_xmalloc\<close>, \<open>xfree\<close>, the memory counters of Mini-OS) are not in the
  repository: they are the record \<open>heap\<close> of functions on the world. The operations but
  the first and the last assume that the cache is allocated, as mounting does.
\<close>

section \<open>State\<close>

record 'w heap =
  hp_xmalloc :: "u64 \<Rightarrow> u64 \<Rightarrow> 'w \<Rightarrow> addr option \<times> 'w"
  hp_xfree :: "addr \<Rightarrow> 'w \<Rightarrow> 'w"
  hp_free_mem :: "'w \<Rightarrow> u64"
  hp_total_mem :: u64
  hp_grow_threshold :: "u64 option"

record shfs_cache_entry =
  ce_pobj :: "addr option"
  ce_addr :: chk_t
  ce_refcount :: u32
  ce_buffer :: addr
  ce_invalid :: bool
  ce_t :: "addr option"
  ce_aio_first :: "addr option"
  ce_aio_last :: "addr option"

record shfs_cache =
  cc_pool :: "addr option"
  cc_htlen :: u32
  cc_htmask :: u32
  cc_nb_ref_entries :: u64
  cc_nb_entries :: u64
  cc_alist :: "addr dlist_head"
  cc_htable :: "addr dlist_head list"

record ('w, 'u) cachest = "('w, 'u) aiost" +
  chunkcache :: "addr option"
  cc :: shfs_cache
  cce_pools :: "(addr \<Rightarrow> shfs_cache_entry) mpstate"
  cce_al :: "addr links"
  cce_cl :: "addr links"

abbreviation SHFS_CACHE_READAHEAD :: nat where "SHFS_CACHE_READAHEAD \<equiv> 8"
abbreviation SHFS_CACHE_POOL_NB_BUFFERS :: u32 where "SHFS_CACHE_POOL_NB_BUFFERS \<equiv> 64"
abbreviation SHFS_CACHE_HTABLE_AVG :: u64 where "SHFS_CACHE_HTABLE_AVG \<equiv> 2"
abbreviation sizeof_cce :: u64 where "sizeof_cce \<equiv> 96"
abbreviation sizeof_cache :: u64 where "sizeof_cache \<equiv> 48"
abbreviation sizeof_cache_htel :: u64 where "sizeof_cache_htel \<equiv> 16"

definition cce :: "('w, 'u, 'z) cachest_scheme \<Rightarrow> addr \<Rightarrow> shfs_cache_entry" where
  "cce st c = mp_mem (cce_pools st) c"

definition upd_cce :: "addr \<Rightarrow> (shfs_cache_entry \<Rightarrow> shfs_cache_entry) \<Rightarrow> ('w, 'u, 'z) cachest_scheme \<Rightarrow> ('w, 'u, 'z) cachest_scheme" where
  "upd_cce c f st = st\<lparr>cce_pools := (cce_pools st)\<lparr>mp_mem := (mp_mem (cce_pools st))(c := f (cce st c))\<rparr>\<rparr>"

definition upd_cc :: "(shfs_cache \<Rightarrow> shfs_cache) \<Rightarrow> ('w, 'u, 'z) cachest_scheme \<Rightarrow> ('w, 'u, 'z) cachest_scheme" where
  "upd_cc f st = st\<lparr>cc := f (cc st)\<rparr>"

text \<open>The list macros on the available list and on a collision list.\<close>

definition shfs_cache_htindex :: "chk_t \<Rightarrow> ('w, 'u, 'z) cachest_scheme \<Rightarrow> nat" where
  "shfs_cache_htindex a st = unat (ucast a AND cc_htmask (cc st))"

definition on_alist ::
    "(addr dlist_head \<times> addr links \<Rightarrow> addr dlist_head \<times> addr links) \<Rightarrow>
     ('w, 'u, 'z) cachest_scheme \<Rightarrow> ('w, 'u, 'z) cachest_scheme" where
  "on_alist f st =
     (let (h, L) = f (cc_alist (cc st), cce_al st) in st\<lparr>cc := (cc st)\<lparr>cc_alist := h\<rparr>, cce_al := L\<rparr>)"

definition on_clist ::
    "nat \<Rightarrow> (addr dlist_head \<times> addr links \<Rightarrow> addr dlist_head \<times> addr links) \<Rightarrow>
     ('w, 'u, 'z) cachest_scheme \<Rightarrow> ('w, 'u, 'z) cachest_scheme" where
  "on_clist i f st =
     (let (h, L) = f (cc_htable (cc st) ! i, cce_cl st)
      in st\<lparr>cc := (cc st)\<lparr>cc_htable := (cc_htable (cc st))[i := h]\<rparr>, cce_cl := L\<rparr>)"

text \<open>
  Appending to the available list follows the head's pointer to the last entry, which the release of
  an entry whose read has failed can leave null while the list is not empty.
\<close>

definition alist_append :: "addr \<Rightarrow> ('w, 'u, 'z) cachest_scheme \<Rightarrow> fault + ('w, 'u, 'z) cachest_scheme" where
  "alist_append c st =
     (if \<not> dlist_is_empty (cc_alist (cc st)) \<and> dl_last (cc_alist (cc st)) = None then Inl Null_deref
      else Inr (on_alist (dlist_append c) st))"

text \<open>
  A \<open>dlist_foreach\<close> that is left at the first element with a property; \<open>None\<close> is a walk
  that never ends.
\<close>

partial_function (option) dlist_search :: "('p \<Rightarrow> bool) \<Rightarrow> ('p \<Rightarrow> 'p option) \<Rightarrow> 'p option \<Rightarrow> 'p option option" where
  "dlist_search P nxt p =
     (case p of
        None \<Rightarrow> Some None
      | Some el \<Rightarrow> if P el then Some (Some el) else dlist_search P nxt (nxt el))"

section \<open>Allocating the cache\<close>

text \<open>\<open>_cce_pobj_init\<close>, which the pool calls at every pick.\<close>

definition cce_pobj_init :: "addr \<Rightarrow> mempool_obj \<Rightarrow> (addr \<Rightarrow> shfs_cache_entry) \<Rightarrow> (addr \<Rightarrow> shfs_cache_entry)" where
  "cce_pobj_init pobj desc m =
     (case obj_private desc of
        None \<Rightarrow> m
      | Some c \<Rightarrow> m(c := (m c)\<lparr>ce_pobj := Some pobj, ce_refcount := 0, ce_buffer := obj_data desc,
                      ce_invalid := True, ce_t := None, ce_aio_first := None, ce_aio_last := None\<rparr>))"

definition shfs_htcollison_order :: "'w heap \<Rightarrow> ('w, 'u, 'z) cachest_scheme \<Rightarrow> u32" where
  "shfs_htcollison_order hp st =
     (let mem = (case hp_grow_threshold hp of None \<Rightarrow> hp_total_mem hp | Some t \<Rightarrow> hp_total_mem hp - t)
      in log2 (ucast (mem div ucast (vol_chunksize st) div SHFS_CACHE_HTABLE_AVG)))"

text \<open>
  \<open>shfs_alloc_cache\<close>: \<open>xp\<close>, \<open>xd\<close> and \<open>xr\<close> are the pool's allocations. The order of the
  collision table is below 32 for a machine with memory for two chunks.
\<close>

definition shfs_alloc_cache ::
    "'w heap \<Rightarrow> addr option \<Rightarrow> addr option \<Rightarrow> addr option list option \<Rightarrow>
     ('w, 'u, 'z) cachest_scheme \<Rightarrow> (error + unit) \<times> ('w, 'u, 'z) cachest_scheme" where
  "shfs_alloc_cache hp xp xd xr st =
     (if chunkcache st \<noteq> None then (Inl (Fault Assert_failed), st)
      else let htlen = push_bit (unat (shfs_htcollison_order hp st)) 1;
               (p, w) = hp_xmalloc hp (sizeof_cache + ucast htlen * sizeof_cache_htel) MIN_ALIGN (bd_world st);
               st = st\<lparr>bd_world := w\<rparr>
           in case p of
                None \<Rightarrow> (Inl (Errno ENOMEM), st)
              | Some p \<Rightarrow>
                  (case alloc_enhanced_mempool xp xd xr SHFS_CACHE_POOL_NB_BUFFERS
                          (ucast (vol_chunksize st)) (ucast (vol_ioalign st)) 0 0 sizeof_cce True
                          None (Some cce_pobj_init) None (cce_pools st) of
                     Inl (Fault f) \<Rightarrow> (Inl (Fault f), st)
                   | Inl (Errno e) \<Rightarrow> (Inl (Errno ENOMEM), st\<lparr>bd_world := hp_xfree hp p (bd_world st)\<rparr>)
                   | Inr (pool, ps) \<Rightarrow>
                       (Inr (), st\<lparr>cce_pools := ps, chunkcache := Some p,
                          cc := \<lparr>cc_pool = Some pool, cc_htlen = htlen, cc_htmask = htlen - 1,
                                 cc_nb_ref_entries = 0, cc_nb_entries = 0, cc_alist = dlist_init_head,
                                 cc_htable = replicate (unat htlen) dlist_init_head\<rparr>\<rparr>)))"

section \<open>Entries\<close>

definition shfs_cache_pick_cce ::
    "'w heap \<Rightarrow> ('w, 'u, 'z) cachest_scheme \<Rightarrow> addr option \<times> ('w, 'u, 'z) cachest_scheme" where
  "shfs_cache_pick_cce hp st =
     (let (ob, st) = (case cc_pool (cc st) of
                        None \<Rightarrow> (None, st)
                      | Some p \<Rightarrow> let (ob, ps) = mempool_pick p (cce_pools st)
                                  in (ob, st\<lparr>cce_pools := ps\<rparr>))
      in case ob of
           Some pobj \<Rightarrow>
             (obj_private (mp_objs (cce_pools st) pobj),
              upd_cc (\<lambda>k. k\<lparr>cc_nb_entries := cc_nb_entries k + 1\<rparr>) st)
         | None \<Rightarrow>
             if (case hp_grow_threshold hp of None \<Rightarrow> False | Some t \<Rightarrow> hp_free_mem hp (bd_world st) < t)
             then (None, st)
             else let (buf, w) = hp_xmalloc hp (ucast (vol_chunksize st)) (ucast (vol_ioalign st)) (bd_world st);
                      st = st\<lparr>bd_world := w\<rparr>
                  in case buf of
                       None \<Rightarrow> (None, st)
                     | Some buf \<Rightarrow>
                         let (c, w) = hp_xmalloc hp sizeof_cce MIN_ALIGN (bd_world st);
                             st = st\<lparr>bd_world := w\<rparr>
                         in case c of
                              None \<Rightarrow> (None, st\<lparr>bd_world := hp_xfree hp buf (bd_world st)\<rparr>)
                            | Some c \<Rightarrow>
                                (Some c,
                                 upd_cc (\<lambda>k. k\<lparr>cc_nb_entries := cc_nb_entries k + 1\<rparr>)
                                   (upd_cce c (\<lambda>k. k\<lparr>ce_pobj := None, ce_refcount := 0, ce_buffer := buf,
                                      ce_invalid := True, ce_t := None, ce_aio_first := None,
                                      ce_aio_last := None\<rparr>) st)))"

definition shfs_cache_put_cce :: "'w heap \<Rightarrow> addr \<Rightarrow> ('w, 'u, 'z) cachest_scheme \<Rightarrow> ('w, 'u, 'z) cachest_scheme" where
  "shfs_cache_put_cce hp c st =
     upd_cc (\<lambda>k. k\<lparr>cc_nb_entries := cc_nb_entries k - 1\<rparr>)
       (case ce_pobj (cce st c) of
          None \<Rightarrow> st\<lparr>bd_world := hp_xfree hp c (hp_xfree hp (ce_buffer (cce st c)) (bd_world st))\<rparr>
        | Some pobj \<Rightarrow> st\<lparr>cce_pools := mempool_put pobj (cce_pools st)\<rparr>)"

definition shfs_cache_find :: "chk_t \<Rightarrow> ('w, 'u, 'z) cachest_scheme \<Rightarrow> addr option option" where
  "shfs_cache_find a st =
     dlist_search (\<lambda>c. ce_addr (cce st c) = a) (dlist_next_el (cce_cl st))
       (dl_first (cc_htable (cc st) ! shfs_cache_htindex a st))"

definition shfs_cache_unlink :: "addr \<Rightarrow> ('w, 'u, 'z) cachest_scheme \<Rightarrow> fault + ('w, 'u, 'z) cachest_scheme" where
  "shfs_cache_unlink c st =
     (if ce_refcount (cce st c) \<noteq> 0 then Inl Assert_failed
      else Inr (on_alist (dlist_unlink c)
                 (on_clist (shfs_cache_htindex (ce_addr (cce st c)) st) (dlist_unlink c) st)))"

text \<open>The search for an available entry with no I/O in flight.\<close>

definition shfs_cache_idle :: "('w, 'u, 'z) cachest_scheme \<Rightarrow> addr option option" where
  "shfs_cache_idle st =
     dlist_search (\<lambda>c. ce_t (cce st c) = None) (dlist_next_el (cce_al st)) (dl_first (cc_alist (cc st)))"

section \<open>Completion\<close>

text \<open>
  The callers' tokens of an entry: each gets the result and its callback runs. \<open>call\<close> runs
  the callbacks other than the cache's own; \<open>None\<close> is a walk that never ends.
\<close>

partial_function (option) notify_chain ::
    "('u shfs_aiocb \<Rightarrow> addr \<Rightarrow> ('w, 'u, 'z) cachest_scheme \<Rightarrow> fault + ('w, 'u, 'z) cachest_scheme) \<Rightarrow>
     io_err \<Rightarrow> addr option \<Rightarrow> ('w, 'u, 'z) cachest_scheme \<Rightarrow> (fault + ('w, 'u, 'z) cachest_scheme) option" where
  "notify_chain call ret t_cur st =
     (case t_cur of
        None \<Rightarrow> Some (Inr st)
      | Some t \<Rightarrow>
          let t_next = tk_next (tok st t);
              st = upd_tok t (\<lambda>k. k\<lparr>tk_ret := ret, tk_infly := 0\<rparr>) st
          in case tk_cb (tok st t) of
               None \<Rightarrow> notify_chain call ret t_next st
             | Some c \<Rightarrow>
                 (case call c t st of Inl f \<Rightarrow> Some (Inl f) | Inr st \<Rightarrow> notify_chain call ret t_next st))"

lemma notify_chain_keeps:
  assumes J: "\<And>t f st. J st \<Longrightarrow> J (upd_tok t f st)"
  shows "notify_chain call ret t st = Some r \<Longrightarrow>
    (\<And>c t st st'. J st \<Longrightarrow> call c t st = Inr st' \<Longrightarrow> J st') \<Longrightarrow> J st \<Longrightarrow> (case r of Inl f \<Rightarrow> True | Inr st' \<Rightarrow> J st')"
proof (induction rule: notify_chain.raw_induct [rotated, consumes 1, case_names 1])
  case (1 notify call ret t st r)
  show ?case
  proof (cases t)
    case None
    then show ?thesis using 1(2,4) by auto
  next
    case (Some u)
    let ?s = "upd_tok u (\<lambda>k. k\<lparr>tk_ret := ret, tk_infly := 0\<rparr>) st"
    have s: "J ?s" by (rule J [OF 1(4)])
    show ?thesis
    proof (cases "tk_cb (tok ?s u)")
      case None
      then have "notify call ret (tk_next (tok st u)) ?s = Some r" using 1(2) Some by (simp add: Let_def)
      from 1(1) [OF this 1(3) s] show ?thesis .
    next
      case cb: (Some c)
      show ?thesis
      proof (cases "call c u ?s")
        case (Inl f)
        then have "r = Inl f" using 1(2) Some cb by (simp add: Let_def)
        then show ?thesis by simp
      next
        case (Inr s1)
        then have "notify call ret (tk_next (tok st u)) s1 = Some r" using 1(2) Some cb by (simp add: Let_def)
        from 1(1) [OF this 1(3)] 1(3) [OF s Inr] show ?thesis by simp
      qed
    qed
  qed
qed

definition cce_aiocb ::
    "'w heap \<Rightarrow> ('u shfs_aiocb \<Rightarrow> addr \<Rightarrow> ('w, 'u, 'z) cachest_scheme \<Rightarrow> fault + ('w, 'u, 'z) cachest_scheme) \<Rightarrow>
     addr \<Rightarrow> addr \<Rightarrow> ('w, 'u, 'z) cachest_scheme \<Rightarrow> fault + ('w, 'u, 'z) cachest_scheme" where
  "cce_aiocb hp call c t st =
     (if ce_refcount (cce st c) = 0 \<and> ce_aio_first (cce st c) \<noteq> None then Inl Bug_on
      else if ce_t (cce st c) \<noteq> Some t then Inl Bug_on
      else case shfs_aio_finalize t st of
             Inl f \<Rightarrow> Inl f
           | Inr (ret, st) \<Rightarrow>
               let st = upd_cce c (\<lambda>k. k\<lparr>ce_t := None, ce_invalid := (ret \<noteq> None)\<rparr>) st
               in if ce_refcount (cce st c) = 0 \<and> ce_invalid (cce st c) then
                    (case shfs_cache_unlink c st of
                       Inl f \<Rightarrow> Inl f
                     | Inr st \<Rightarrow> Inr (shfs_cache_put_cce hp c st))
                  else
                    let t_cur = ce_aio_first (cce st c);
                        st = upd_cce c (\<lambda>k. k\<lparr>ce_aio_first := None, ce_aio_last := None\<rparr>) st
                    in case notify_chain call ret t_cur st of None \<Rightarrow> Inl No_return | Some r \<Rightarrow> r)"

definition cache_cb ::
    "'w heap \<Rightarrow> ('u shfs_aiocb \<Rightarrow> addr \<Rightarrow> ('w, 'u, 'z) cachest_scheme \<Rightarrow> fault + ('w, 'u, 'z) cachest_scheme) \<Rightarrow>
     'u shfs_aiocb \<Rightarrow> addr \<Rightarrow> ('w, 'u, 'z) cachest_scheme \<Rightarrow> fault + ('w, 'u, 'z) cachest_scheme" where
  "cache_cb hp call cb t st = (case cb of Cce_aiocb c \<Rightarrow> cce_aiocb hp call c t st | _ \<Rightarrow> call cb t st)"

section \<open>Flushing\<close>

text \<open>The wait for an entry's I/O, without thread switching.\<close>

partial_function (option) flush_wait ::
    "'w blkfront \<Rightarrow> 'w heap \<Rightarrow> ('u shfs_aiocb \<Rightarrow> addr \<Rightarrow> ('w, 'u, 'z) cachest_scheme \<Rightarrow> fault + ('w, 'u, 'z) cachest_scheme) \<Rightarrow>
     addr \<Rightarrow> ('w, 'u, 'z) cachest_scheme \<Rightarrow> (fault + ('w, 'u, 'z) cachest_scheme) option" where
  "flush_wait io hp call c st =
     (if ce_t (cce st c) = None then Some (Inr st)
      else case shfs_poll_blkdevs io (cache_cb hp call) st of
             Inl f \<Rightarrow> Some (Inl f)
           | Inr st \<Rightarrow> flush_wait io hp call c st)"

definition flush_entry ::
    "'w blkfront \<Rightarrow> 'w heap \<Rightarrow> ('u shfs_aiocb \<Rightarrow> addr \<Rightarrow> ('w, 'u, 'z) cachest_scheme \<Rightarrow> fault + ('w, 'u, 'z) cachest_scheme) \<Rightarrow>
     addr \<Rightarrow> ('w, 'u, 'z) cachest_scheme \<Rightarrow> (fault + ('w, 'u, 'z) cachest_scheme) option" where
  "flush_entry io hp call c st =
     (case (if ce_t (cce st c) = None then Some (Inr st)
            else case flush_wait io hp call c (upd_cce c (\<lambda>k. k\<lparr>ce_refcount := 1\<rparr>) st) of
                   None \<Rightarrow> None
                 | Some (Inl f) \<Rightarrow> Some (Inl f)
                 | Some (Inr st) \<Rightarrow> Some (Inr (upd_cce c (\<lambda>k. k\<lparr>ce_refcount := 0\<rparr>) st))) of
        None \<Rightarrow> None
      | Some (Inl f) \<Rightarrow> Some (Inl f)
      | Some (Inr st) \<Rightarrow>
          (case shfs_cache_unlink c st of
             Inl f \<Rightarrow> Some (Inl f)
           | Inr st \<Rightarrow> Some (Inr (shfs_cache_put_cce hp c st))))"

partial_function (option) shfs_cache_flush_alist ::
    "'w blkfront \<Rightarrow> 'w heap \<Rightarrow> ('u shfs_aiocb \<Rightarrow> addr \<Rightarrow> ('w, 'u, 'z) cachest_scheme \<Rightarrow> fault + ('w, 'u, 'z) cachest_scheme) \<Rightarrow>
     ('w, 'u, 'z) cachest_scheme \<Rightarrow> (fault + ('w, 'u, 'z) cachest_scheme) option" where
  "shfs_cache_flush_alist io hp call st =
     (case dl_first (cc_alist (cc st)) of
        None \<Rightarrow> Some (Inr st)
      | Some c \<Rightarrow>
          (case flush_entry io hp call c st of
             None \<Rightarrow> None
           | Some (Inl f) \<Rightarrow> Some (Inl f)
           | Some (Inr st) \<Rightarrow> shfs_cache_flush_alist io hp call st))"

definition shfs_flush_cache where
  "shfs_flush_cache io hp call st = shfs_cache_flush_alist io hp call st"

definition shfs_free_cache ::
    "'w blkfront \<Rightarrow> 'w heap \<Rightarrow> ('u shfs_aiocb \<Rightarrow> addr \<Rightarrow> ('w, 'u, 'z) cachest_scheme \<Rightarrow> fault + ('w, 'u, 'z) cachest_scheme) \<Rightarrow>
     ('w, 'u, 'z) cachest_scheme \<Rightarrow> ((error + unit) \<times> ('w, 'u, 'z) cachest_scheme) option" where
  "shfs_free_cache io hp call st =
     (case chunkcache st of
        None \<Rightarrow> Some (Inl (Fault Null_deref), st)
      | Some p \<Rightarrow>
          (case shfs_cache_flush_alist io hp call st of
             None \<Rightarrow> None
           | Some (Inl f) \<Rightarrow> Some (Inl (Fault f), st)
           | Some (Inr st) \<Rightarrow>
               (case free_mempool (cc_pool (cc st)) (cce_pools st) of
                  Inl e \<Rightarrow> Some (Inl e, st)
                | Inr _ \<Rightarrow>
                    Some (Inr (), st\<lparr>bd_world := hp_xfree hp p (bd_world st), chunkcache := None\<rparr>))))"

section \<open>Adding and reading\<close>

text \<open>
  An entry that \<open>shfs_cache_add\<close> uses becomes the last of the available list; moving one of its
  entries there (\<open>dlist_relink_tail\<close>) is unlinking and appending.
\<close>

definition alist_add :: "addr \<Rightarrow> ('w, 'u, 'z) cachest_scheme \<Rightarrow> (error + addr) \<times> ('w, 'u, 'z) cachest_scheme" where
  "alist_add c st = (case alist_append c st of Inl f \<Rightarrow> (Inl (Fault f), st) | Inr st \<Rightarrow> (Inr c, st))"

definition shfs_cache_add ::
    "'w blkfront \<Rightarrow> 'w heap \<Rightarrow> ('u shfs_aiocb \<Rightarrow> addr \<Rightarrow> ('w, 'u, 'z) cachest_scheme \<Rightarrow> fault + ('w, 'u, 'z) cachest_scheme) \<Rightarrow>
     chk_t \<Rightarrow> ('w, 'u, 'z) cachest_scheme \<Rightarrow> ((error + addr) \<times> ('w, 'u, 'z) cachest_scheme) option" where
  "shfs_cache_add io hp call a st =
     (case (let (c, st) = shfs_cache_pick_cce hp st
            in case c of
                 Some c \<Rightarrow> Some (alist_add c st)
               | None \<Rightarrow>
                   (case shfs_cache_idle st of
                      None \<Rightarrow> None
                    | Some None \<Rightarrow> Some (Inl (Errno EAGAIN), st)
                    | Some (Some c) \<Rightarrow>
                        Some (alist_add c (on_alist (dlist_unlink c)
                          (on_clist (shfs_cache_htindex (ce_addr (cce st c)) st) (dlist_unlink c) st))))) of
        None \<Rightarrow> None
      | Some (Inl e, st) \<Rightarrow> Some (Inl e, st)
      | Some (Inr c, st) \<Rightarrow>
          let st = upd_cce c (\<lambda>k. k\<lparr>ce_addr := a\<rparr>) st
          in case shfs_aio_chunk io (cache_cb hp call) a 1 False (ce_buffer (cce st c)) (Some (Cce_aiocb c)) st of
               None \<Rightarrow> None
             | Some (Inl (Fault f), st) \<Rightarrow> Some (Inl (Fault f), st)
             | Some (Inl (Errno e), st) \<Rightarrow>
                 Some (Inl (Errno e), shfs_cache_put_cce hp c
                   (on_alist (dlist_unlink c) (upd_cce c (\<lambda>k. k\<lparr>ce_t := None\<rparr>) st)))
             | Some (Inr t, st) \<Rightarrow>
                 Some (Inr c, on_clist (shfs_cache_htindex a st) (dlist_append c)
                   (upd_cce c (\<lambda>k. k\<lparr>ce_t := Some t\<rparr>) st)))"

fun readahead_loop ::
    "'w blkfront \<Rightarrow> 'w heap \<Rightarrow> ('u shfs_aiocb \<Rightarrow> addr \<Rightarrow> ('w, 'u, 'z) cachest_scheme \<Rightarrow> fault + ('w, 'u, 'z) cachest_scheme) \<Rightarrow>
     chk_t \<Rightarrow> nat list \<Rightarrow> ('w, 'u, 'z) cachest_scheme \<Rightarrow> ((fault + unit) \<times> ('w, 'u, 'z) cachest_scheme) option" where
  "readahead_loop io hp call a [] st = Some (Inr (), st)"
| "readahead_loop io hp call a (i # is) st =
     (let addri = a + of_nat i
      in if addri \<ge> vol_volsize st then Some (Inr (), st)
         else case shfs_cache_find addri st of
                None \<Rightarrow> None
              | Some (Some c) \<Rightarrow> readahead_loop io hp call a is st
              | Some None \<Rightarrow>
                  (case shfs_cache_add io hp call addri st of
                     None \<Rightarrow> None
                   | Some (Inl (Fault f), st) \<Rightarrow> Some (Inl f, st)
                   | Some (Inl (Errno e), st) \<Rightarrow> Some (Inr (), st)
                   | Some (Inr c, st) \<Rightarrow> readahead_loop io hp call a is st))"

definition shfs_cache_readahead where
  "shfs_cache_readahead io hp call a st = readahead_loop io hp call a [1..<SHFS_CACHE_READAHEAD + 1] st"

text \<open>Appending a caller's token to an entry's chain.\<close>

definition chain_append :: "addr \<Rightarrow> addr \<Rightarrow> ('w, 'u, 'z) cachest_scheme \<Rightarrow> ('w, 'u, 'z) cachest_scheme" where
  "chain_append c t st =
     (let st = (case ce_aio_last (cce st c) of
                  Some l \<Rightarrow> upd_tok t (\<lambda>k. k\<lparr>tk_prev := ce_aio_last (cce st c)\<rparr>)
                             (upd_tok l (\<lambda>k. k\<lparr>tk_next := Some t\<rparr>) st)
                | None \<Rightarrow> upd_tok t (\<lambda>k. k\<lparr>tk_prev := None\<rparr>) (upd_cce c (\<lambda>k. k\<lparr>ce_aio_first := Some t\<rparr>) st));
          st = upd_tok t (\<lambda>k. k\<lparr>tk_next := None\<rparr>) st
      in upd_cce c (\<lambda>k. k\<lparr>ce_aio_last := Some t\<rparr>) st)"

text \<open>
  \<open>shfs_cache_aread\<close>: \<open>Inr (c, None)\<close> is the return value 0, \<open>Inr (c, Some t)\<close> the value 1.
\<close>

definition shfs_cache_aread ::
    "'w blkfront \<Rightarrow> 'w heap \<Rightarrow> ('u shfs_aiocb \<Rightarrow> addr \<Rightarrow> ('w, 'u, 'z) cachest_scheme \<Rightarrow> fault + ('w, 'u, 'z) cachest_scheme) \<Rightarrow>
     chk_t \<Rightarrow> 'u shfs_aiocb option \<Rightarrow> ('w, 'u, 'z) cachest_scheme \<Rightarrow>
     ((error + addr \<times> addr option) \<times> ('w, 'u, 'z) cachest_scheme) option" where
  "shfs_cache_aread io hp call a cb st =
     (if \<not> shfs_mounted st then Some (Inl (Errno ENODEV), st)
      else if a = 0 \<or> a > vol_volsize st then Some (Inl (Errno EINVAL), st)
      else case (case shfs_cache_find a st of
                   None \<Rightarrow> None
                 | Some (Some c) \<Rightarrow> Some (Inr c, st)
                 | Some None \<Rightarrow> shfs_cache_add io hp call a st) of
             None \<Rightarrow> None
           | Some (Inl e, st) \<Rightarrow> Some (Inl e, st)
           | Some (Inr c, st) \<Rightarrow>
               let st = (if ce_refcount (cce st c) = 0
                         then upd_cc (\<lambda>k. k\<lparr>cc_nb_ref_entries := cc_nb_ref_entries k + 1\<rparr>)
                                (on_alist (dlist_unlink c) st)
                         else st);
                   st = upd_cce c (\<lambda>k. k\<lparr>ce_refcount := ce_refcount k + 1\<rparr>) st
               in case shfs_cache_readahead io hp call a st of
                    None \<Rightarrow> None
                  | Some (Inl f, st) \<Rightarrow> Some (Inl (Fault f), st)
                  | Some (Inr _, st) \<Rightarrow>
                      let st = shfs_aio_submit io st
                      in if shfs_aio_is_done (ce_t (cce st c)) st then Some (Inr (c, None), st)
                         else case shfs_aio_pick_token st of
                                (None, st) \<Rightarrow>
                                  let st = upd_cce c (\<lambda>k. k\<lparr>ce_refcount := ce_refcount k - 1\<rparr>) st
                                  in if ce_refcount (cce st c) = 0
                                     then (case alist_append c (upd_cc (\<lambda>k. k\<lparr>cc_nb_ref_entries := cc_nb_ref_entries k - 1\<rparr>) st) of
                                             Inl f \<Rightarrow> Some (Inl (Fault f), st)
                                           | Inr st \<Rightarrow> Some (Inl (Errno EAGAIN), st))
                                     else Some (Inl (Errno EAGAIN), st)
                              | (Some t, st) \<Rightarrow>
                                  Some (Inr (c, Some t),
                                    chain_append c t (upd_tok t (\<lambda>k. k\<lparr>tk_cb := cb, tk_infly := 1\<rparr>) st)))"

section \<open>Blank buffers\<close>

definition shfs_cache_eblank ::
    "'w heap \<Rightarrow> ('w, 'u, 'z) cachest_scheme \<Rightarrow> ((error + addr) \<times> ('w, 'u, 'z) cachest_scheme) option" where
  "shfs_cache_eblank hp st =
     (if \<not> shfs_mounted st then Some (Inl (Errno ENODEV), st)
      else case (let (c, st) = shfs_cache_pick_cce hp st
                 in case c of
                      Some c \<Rightarrow> Some (Inr c, st)
                    | None \<Rightarrow>
                        (case shfs_cache_idle st of
                           None \<Rightarrow> None
                         | Some None \<Rightarrow> Some (Inl (Errno EAGAIN), st)
                         | Some (Some c) \<Rightarrow>
                             (case shfs_cache_unlink c st of
                                Inl f \<Rightarrow> Some (Inl (Fault f), st)
                              | Inr st \<Rightarrow> Some (Inr c, st)))) of
             None \<Rightarrow> None
           | Some (Inl e, st) \<Rightarrow> Some (Inl e, st)
           | Some (Inr c, st) \<Rightarrow>
               Some (Inr c, upd_cce c (\<lambda>k. k\<lparr>ce_refcount := 1, ce_t := None, ce_addr := 0, ce_invalid := True\<rparr>)
                 (upd_cc (\<lambda>k. k\<lparr>cc_nb_ref_entries := cc_nb_ref_entries k + 1\<rparr>) st)))"

section \<open>Releasing\<close>

text \<open>The destruction of an entry that holds no valid data; a blank one is in no list.\<close>

definition destroy_invalid :: "'w heap \<Rightarrow> addr \<Rightarrow> ('w, 'u, 'z) cachest_scheme \<Rightarrow> fault + ('w, 'u, 'z) cachest_scheme" where
  "destroy_invalid hp c st =
     (case (if ce_addr (cce st c) \<noteq> 0 then shfs_cache_unlink c st else Inr st) of
        Inl f \<Rightarrow> Inl f
      | Inr st \<Rightarrow> Inr (shfs_cache_put_cce hp c st))"

definition shfs_cache_release ::
    "'w heap \<Rightarrow> addr \<Rightarrow> ('w, 'u, 'z) cachest_scheme \<Rightarrow> fault + ('w, 'u, 'z) cachest_scheme" where
  "shfs_cache_release hp c st =
     (if ce_refcount (cce st c) = 0 then Inl Bug_on
      else if \<not> shfs_aio_is_done (ce_t (cce st c)) st then Inl Bug_on
      else let st = upd_cce c (\<lambda>k. k\<lparr>ce_refcount := ce_refcount k - 1\<rparr>) st
           in if ce_refcount (cce st c) = 0 then
                let st = upd_cc (\<lambda>k. k\<lparr>cc_nb_ref_entries := cc_nb_ref_entries k - 1\<rparr>) st
                in if \<not> ce_invalid (cce st c) then alist_append c st
                   else destroy_invalid hp c st
              else Inr st)"

text \<open>Taking a token out of an entry's chain.\<close>

definition chain_unlink :: "addr \<Rightarrow> addr \<Rightarrow> ('w, 'u, 'z) cachest_scheme \<Rightarrow> ('w, 'u, 'z) cachest_scheme" where
  "chain_unlink c t st =
     (let st = (case tk_prev (tok st t) of
                  Some p \<Rightarrow> upd_tok p (\<lambda>k. k\<lparr>tk_next := tk_next (tok st t)\<rparr>) st
                | None \<Rightarrow> upd_cce c (\<lambda>k. k\<lparr>ce_aio_first := tk_next (tok st t)\<rparr>) st)
      in case tk_next (tok st t) of
           Some n \<Rightarrow> upd_tok n (\<lambda>k. k\<lparr>tk_prev := tk_prev (tok st t)\<rparr>) st
         | None \<Rightarrow> upd_cce c (\<lambda>k. k\<lparr>ce_aio_last := tk_prev (tok st t)\<rparr>) st)"

text \<open>The caller's token leaves the chain when its I/O is under way, and goes back.\<close>

definition abort_token :: "addr \<Rightarrow> addr option \<Rightarrow> ('w, 'u, 'z) cachest_scheme \<Rightarrow> ('w, 'u, 'z) cachest_scheme" where
  "abort_token c t st =
     (case t of
        None \<Rightarrow> st
      | Some t' \<Rightarrow> shfs_aio_put_token t' (if \<not> shfs_aio_is_done t st then chain_unlink c t' st else st))"

definition shfs_cache_release_ioabort ::
    "'w heap \<Rightarrow> addr \<Rightarrow> addr option \<Rightarrow> ('w, 'u, 'z) cachest_scheme \<Rightarrow> fault + ('w, 'u, 'z) cachest_scheme" where
  "shfs_cache_release_ioabort hp c t st =
     (if ce_refcount (cce st c) = 0 then Inl Bug_on
      else if \<not> shfs_aio_is_done (ce_t (cce st c)) st \<and> t = None then Inl Bug_on
      else if shfs_aio_is_done (ce_t (cce st c)) st \<and> \<not> shfs_aio_is_done t st then Inl Bug_on
      else let st = abort_token c t st;
               st = upd_cce c (\<lambda>k. k\<lparr>ce_refcount := ce_refcount k - 1\<rparr>) st
           in if ce_refcount (cce st c) = 0 then
                let st = upd_cc (\<lambda>k. k\<lparr>cc_nb_ref_entries := cc_nb_ref_entries k - 1\<rparr>) st
                in if shfs_aio_is_done (ce_t (cce st c)) st \<and> ce_invalid (cce st c)
                   then destroy_invalid hp c st
                   else alist_append c st
              else Inr st)"

section \<open>Synchronous reads\<close>

text \<open>
  \<open>shfs_cache_read\<close> and \<open>shfs_cache_read_nosched\<close>; \<open>schedule()\<close> does nothing to this state.
\<close>

partial_function (option) cache_read_setup ::
    "'w blkfront \<Rightarrow> 'w heap \<Rightarrow> ('u shfs_aiocb \<Rightarrow> addr \<Rightarrow> ('w, 'u, 'z) cachest_scheme \<Rightarrow> fault + ('w, 'u, 'z) cachest_scheme) \<Rightarrow>
     chk_t \<Rightarrow> ('w, 'u, 'z) cachest_scheme \<Rightarrow>
     ((error + addr \<times> addr option) \<times> ('w, 'u, 'z) cachest_scheme) option" where
  "cache_read_setup io hp call a st =
     (case shfs_cache_aread io hp call a None st of
        None \<Rightarrow> None
      | Some (r, st) \<Rightarrow>
          if r = Inl (Errno EAGAIN)
          then (case shfs_poll_blkdevs io (cache_cb hp call) st of
                  Inl f \<Rightarrow> Some (Inl (Fault f), st)
                | Inr st \<Rightarrow> cache_read_setup io hp call a st)
          else Some (r, st))"

definition cache_release_err ::
    "'w heap \<Rightarrow> addr \<Rightarrow> errno \<Rightarrow> ('w, 'u, 'z) cachest_scheme \<Rightarrow> (error + addr) \<times> ('w, 'u, 'z) cachest_scheme" where
  "cache_release_err hp c e st =
     (case shfs_cache_release hp c st of Inl f \<Rightarrow> (Inl (Fault f), st) | Inr st \<Rightarrow> (Inl (Errno e), st))"

definition shfs_cache_read ::
    "'w blkfront \<Rightarrow> 'w heap \<Rightarrow> ('u shfs_aiocb \<Rightarrow> addr \<Rightarrow> ('w, 'u, 'z) cachest_scheme \<Rightarrow> fault + ('w, 'u, 'z) cachest_scheme) \<Rightarrow>
     chk_t \<Rightarrow> ('w, 'u, 'z) cachest_scheme \<Rightarrow> ((error + addr) \<times> ('w, 'u, 'z) cachest_scheme) option" where
  "shfs_cache_read io hp call a st =
     (case cache_read_setup io hp call a st of
        None \<Rightarrow> None
      | Some (Inl e, st) \<Rightarrow> Some (Inl e, st)
      | Some (Inr (c, Some t), st) \<Rightarrow>
          (case shfs_aio_wait io (cache_cb hp call) t st of
             None \<Rightarrow> None
           | Some (Inl f) \<Rightarrow> Some (Inl (Fault f), st)
           | Some (Inr st) \<Rightarrow>
               (case shfs_aio_finalize t st of
                  Inl f \<Rightarrow> Some (Inl (Fault f), st)
                | Inr (Some e, st) \<Rightarrow> Some (cache_release_err hp c e st)
                | Inr (None, st) \<Rightarrow> Some (Inr c, st)))
      | Some (Inr (c, None), st) \<Rightarrow>
          if ce_invalid (cce st c) then Some (cache_release_err hp c EIO st)
          else Some (Inr c, st))"

definition shfs_cache_read_nosched where
  "shfs_cache_read_nosched io hp call a st = shfs_cache_read io hp call a st"

definition shfs_cache_ref_count :: "('w, 'u, 'z) cachest_scheme \<Rightarrow> u64" where
  "shfs_cache_ref_count st = cc_nb_ref_entries (cc st)"

end
