(* ===== verification/AvailList.thy ===== *)
theory AvailList
  imports Prelude DList
begin

text \<open>
  A list of \<open>shfs/dlist.h\<close> whose head may have lost elements. Unlinking an element that is in no
  list clears the head, but the elements stay chained to each other, and later unlinking of one
  of them sets the head to its neighbours. \<open>segs_ok L h segs\<close> says that the links \<open>L\<close> are exactly those
  of disjoint chains \<open>segs\<close>, and that the head \<open>h\<close> begins, if at all, with the first element of
  one and ends with the last element of one. Every append and unlink keeps this, and the walk from
  the head always ends.
\<close>

definition segs_ok :: "'p links \<Rightarrow> 'p dlist_head \<Rightarrow> 'p list list \<Rightarrow> bool" where
  "segs_ok L h segs \<longleftrightarrow> distinct (concat segs) \<and> (\<forall>s \<in> set segs. s \<noteq> [] \<and> dlseg L None s None) \<and>
     (\<forall>x. dl_first h = Some x \<longrightarrow> x \<in> hd ` set segs) \<and> (\<forall>x. dl_last h = Some x \<longrightarrow> x \<in> last ` set segs)"

lemma segs_okD:
  assumes "segs_ok L h segs"
  shows "distinct (concat segs)" "s \<in> set segs \<Longrightarrow> s \<noteq> []" "s \<in> set segs \<Longrightarrow> dlseg L None s None"
    "dl_first h = Some x \<Longrightarrow> \<exists>s \<in> set segs. x = hd s" "dl_last h = Some x \<Longrightarrow> \<exists>s \<in> set segs. x = last s"
  using assms by (auto simp: segs_ok_def)

lemma hd_opt_hd: "s \<noteq> [] \<Longrightarrow> hd_opt s = Some (hd s)"
  by (cases s) simp_all

lemma last_opt_last: "s \<noteq> [] \<Longrightarrow> last_opt s = Some (last s)"
  by (simp add: last_opt_def)

lemma segs_of_repr:
  assumes "dl_repr L h xs"
  shows "segs_ok L h (if xs = [] then [] else [xs])"
  using assms by (auto simp: segs_ok_def dl_repr_def hd_opt_hd last_opt_last)

text \<open>A chain by itself, with a head of its own.\<close>

lemma seg_repr:
  assumes "segs_ok L h segs" and "s \<in> set segs"
  shows "dl_repr L \<lparr>dl_first = hd_opt s, dl_last = last_opt s\<rparr> s"
  using assms segs_okD(3) [OF assms] by (auto simp: segs_ok_def dl_repr_def distinct_concat_iff)

text \<open>The links do not depend on the head when an element is unlinked.\<close>

lemma unlink_links:
  "snd (dlist_unlink c (h, L)) = snd (dlist_unlink c (h', L))"
  by (auto simp: dlist_unlink_def Let_def split: option.split)

lemma unlink_head:
  "dl_first (fst (dlist_unlink c (h, L))) = (if dl_prev (L c) = None then dl_next (L c) else dl_first h)"
  by (auto simp: dlist_unlink_def Let_def split: option.split prod.split)

lemma unlink_tail:
  assumes "dl_prev (L c) \<noteq> Some c"
  shows "dl_last (fst (dlist_unlink c (h, L))) = (if dl_next (L c) = None then dl_prev (L c) else dl_last h)"
  using assms by (auto simp: dlist_unlink_def Let_def split: option.split prod.split)

lemma segs_split:
  assumes "distinct (concat (A @ s # B))" and "x \<in> set s" and "t \<in> set (A @ B)"
  shows "x \<notin> set t"
  using assms by auto

section \<open>Appending\<close>

lemma segs_append:
  assumes ok: "segs_ok L h segs" and c: "c \<notin> set (concat segs)"
    and last: "dl_first h \<noteq> None \<Longrightarrow> dl_last h \<noteq> None" and s: "dlist_append c (h, L) = (h', L')"
  shows "\<exists>segs'. segs_ok L' h' segs' \<and> set (concat segs') = insert c (set (concat segs))"
    and "y \<notin> set (concat segs) \<Longrightarrow> y \<noteq> c \<Longrightarrow> L' y = L y"
proof -
  have "(\<exists>segs'. segs_ok L' h' segs' \<and> set (concat segs') = insert c (set (concat segs))) \<and>
    (y \<notin> set (concat segs) \<longrightarrow> y \<noteq> c \<longrightarrow> L' y = L y)"
  proof (cases "dl_first h")
    case None
    then have e: "L' = L(c := \<lparr>dl_next = None, dl_prev = None\<rparr>)" "h' = \<lparr>dl_first = Some c, dl_last = Some c\<rparr>"
      using s by (auto simp: dlist_append_def dlist_is_empty_def)
    have "segs_ok L' h' (segs @ [[c]])"
      using ok c by (auto simp: segs_ok_def e)
    then show ?thesis by (intro conjI exI [of _ "segs @ [[c]]"]) (simp_all add: e)
  next
    case (Some f)
    then obtain l where l: "dl_last h = Some l" using last by auto
    obtain t where t: "t \<in> set segs" "l = last t" using segs_okD(5) [OF ok l] by blast
    then obtain A B where seg: "segs = A @ t # B" by (meson split_list)
    note tn = segs_okD(2) [OF ok t(1)] and tr = seg_repr [OF ok t(1)]
    have ct: "c \<notin> set t" using c t(1) by auto
    let ?h = "\<lparr>dl_first = hd_opt t, dl_last = last_opt t\<rparr>"
    have e: "L' = (L(l := (L l)\<lparr>dl_next := Some c\<rparr>))(c := \<lparr>dl_next = None, dl_prev = Some l\<rparr>)"
      "h' = h\<lparr>dl_last := Some c\<rparr>"
      using s Some l by (auto simp: dlist_append_def dlist_is_empty_def)
    have "dlist_append c (?h, L) = (?h\<lparr>dl_last := Some c\<rparr>, L')"
      using tn t(2) by (auto simp: dlist_append_def dlist_is_empty_def e hd_opt_hd last_opt_last)
    from dl_repr_append [OF tr ct this] have new: "dlseg L' None (t @ [c]) None" by (simp only: dl_repr_def)
    have lt: "l \<in> set t" using t(2) tn by simp
    have oth: "dlseg L' None u None" if u: "u \<in> set (A @ B)" for u
    proof -
      have "l \<notin> set u" using segs_split [OF segs_okD(1) [OF ok, unfolded seg] lt u] .
      moreover have "c \<notin> set u" using c u seg by auto
      ultimately show ?thesis using segs_okD(3) [OF ok, of u] u seg by (auto simp: e)
    qed
    have "dl_first h' = Some x \<Longrightarrow> x \<in> hd ` set (A @ (t @ [c]) # B)" for x
      using segs_okD(4) [OF ok, of x] tn by (auto simp: e seg hd_append)
    then have "segs_ok L' h' (A @ (t @ [c]) # B)"
      using ok c new oth unfolding segs_ok_def seg by (auto simp: e)
    moreover have "set (concat (A @ (t @ [c]) # B)) = insert c (set (concat segs))" by (auto simp: seg)
    moreover have "L' y = L y" if "y \<notin> set (concat segs)" "y \<noteq> c"
      using that lt t(1) by (auto simp: e)
    ultimately show ?thesis by blast
  qed
  then show "\<exists>segs'. segs_ok L' h' segs' \<and> set (concat segs') = insert c (set (concat segs))"
    and "y \<notin> set (concat segs) \<Longrightarrow> y \<noteq> c \<Longrightarrow> L' y = L y" by blast+
qed

section \<open>Unlinking\<close>

lemma segs_unlink:
  assumes ok: "segs_ok L h segs" and c: "c \<in> set (concat segs)" and s: "dlist_unlink c (h, L) = (h', L')"
  shows "\<exists>segs'. segs_ok L' h' segs' \<and> set (concat segs') = set (concat segs) - {c}"
    and "L' c = \<lparr>dl_next = None, dl_prev = None\<rparr>"
    and "y \<notin> set (concat segs) \<Longrightarrow> L' y = L y"
proof -
  obtain t where t: "t \<in> set segs" "c \<in> set t" using c by auto
  then obtain A B where seg: "segs = A @ t # B" by (meson split_list)
  obtain xs ys where tx: "t = xs @ c # ys" using t(2) by (meson split_list)
  note d = segs_okD(1) [OF ok] and tr = seg_repr [OF ok t(1)]
  have dt: "distinct t" using tr by (simp add: dl_repr_def)
  have Lc: "L c = \<lparr>dl_next = hd_opt ys, dl_prev = last_opt xs\<rparr>" using dl_repr_at [OF tr [unfolded tx]] .
  let ?h = "\<lparr>dl_first = hd_opt t, dl_last = last_opt t\<rparr>"
  obtain g where g: "dlist_unlink c (?h, L) = (g, L')"
    using unlink_links [of c ?h L h] s by (metis prod.collapse snd_conv)
  note U = dl_repr_unlink [OF tr t(2) g] and O = dlist_unlink_other [OF tr t(2) g]
  have r1: "remove1 c t = xs @ ys" using dt by (simp add: tx remove1_append)
  have new: "dlseg L' None (xs @ ys) None" using U(1) unfolding r1 dl_repr_def by blast
  show "L' c = \<lparr>dl_next = None, dl_prev = None\<rparr>" by (rule U(2))
  show "y \<notin> set (concat segs) \<Longrightarrow> L' y = L y" using O [of y] t(1) by auto
  have oth: "dlseg L' None u None" if u: "u \<in> set (A @ B)" for u
  proof -
    have "x \<notin> set t" if "x \<in> set u" for x using segs_split [OF d [unfolded seg] _ u] that by blast
    then have "dlseg L' None u None = dlseg L None u None" using O by (intro dlseg_cong) blast
    then show ?thesis using segs_okD(3) [OF ok, of u] u seg by auto
  qed
  have pc: "dl_prev (L c) \<noteq> Some c"
  proof
    assume "dl_prev (L c) = Some c"
    then have "c \<in> set xs" using Lc by (auto simp: last_opt_def split: if_splits)
    then show False using dt tx by simp
  qed
  have f: "dl_first h' = (if xs = [] then hd_opt ys else dl_first h)"
    and l: "dl_last h' = (if ys = [] then last_opt xs else dl_last h)"
    using unlink_head [of c h L] unlink_tail [where L = L and c = c and h = h, OF pc] s Lc by simp_all
  let ?m = "if xs @ ys = [] then [] else [xs @ ys]"
  have F: "dl_first h' = Some x \<Longrightarrow> x \<in> hd ` set (A @ ?m @ B)" for x
    using segs_okD(4) [OF ok, of x] f unfolding seg tx
    by (cases xs; cases ys) (auto simp: hd_append split: if_splits)
  have T: "dl_last h' = Some x \<Longrightarrow> x \<in> last ` set (A @ ?m @ B)" for x
    using segs_okD(5) [OF ok, of x] l unfolding seg tx
    by (cases xs rule: rev_cases; cases ys rule: rev_cases) (auto split: if_splits)
  have "segs_ok L' h' (A @ ?m @ B)"
    unfolding segs_ok_def
  proof (intro conjI)
    show "distinct (concat (A @ ?m @ B))" using d by (auto simp: seg tx)
    show "\<forall>s \<in> set (A @ ?m @ B). s \<noteq> [] \<and> dlseg L' None s None"
      using new oth segs_okD(2) [OF ok] by (auto simp: seg)
  qed (use F T in blast)+
  moreover have "set (concat (A @ ?m @ B)) = set (concat segs) - {c}"
  proof -
    have "c \<notin> set (concat A) \<union> set xs \<union> set ys \<union> set (concat B)" using d by (auto simp: seg tx)
    then show ?thesis by (auto simp: seg tx)
  qed
  ultimately show "\<exists>segs'. segs_ok L' h' segs' \<and> set (concat segs') = set (concat segs) - {c}" by blast
qed

text \<open>Unlinking an element that is in no list empties the head and leaves the chains.\<close>

lemma segs_unlink_loose:
  assumes "segs_ok L h segs" and "L c = \<lparr>dl_next = None, dl_prev = None\<rparr>"
  shows "dlist_unlink c (h, L) = (dlist_init_head, L)" and "segs_ok L dlist_init_head segs"
  using assms by (auto simp: dlist_unlink_def dlist_init_head_def dlist_init_el_def Let_def segs_ok_def fun_eq_iff)

end
