(* ===== verification/CacheInv.thy ===== *)
theory CacheInv
  imports Prelude DList AvailList Mempool ShfsDefs Blkdev Aio Cache
begin

text \<open>
  The invariant of the chunk cache: which entries are in which list, what the counters count,
  and that no entry is the memory of two chunks. Every operation but flushing keeps it, the I/O
  completions that run at any poll included. The release of an entry whose read has failed keeps all
  of it but one thing: the head of the available list loses the entries that were linked to it, which
  the flag \<open>ok\<close> and the chains of \<open>AvailList\<close> account for. The invariant says nothing about the chains of
  waiting tokens.
\<close>

section \<open>Projections of the updates\<close>

lemma cce_simps [simp]:
  "cce (on_alist f st) = cce st" "cce (on_clist i f st) = cce st" "cce (upd_cc g st) = cce st"
  "cce (upd_cce c u st) = (cce st)(c := u (cce st c))"
  by (auto simp: cce_def on_alist_def on_clist_def upd_cc_def upd_cce_def split: prod.splits)

lemma upd_cce_simps [simp]:
  "cc (upd_cce c u st) = cc st" "cce_al (upd_cce c u st) = cce_al st" "cce_cl (upd_cce c u st) = cce_cl st"
  "cce_pools (upd_cce c u st) = (cce_pools st)\<lparr>mp_mem := (mp_mem (cce_pools st))(c := u (cce st c))\<rparr>"
  by (simp_all add: upd_cce_def)

lemma upd_cc_simps [simp]:
  "cc (upd_cc g st) = g (cc st)" "cce_al (upd_cc g st) = cce_al st" "cce_cl (upd_cc g st) = cce_cl st"
  "cce_pools (upd_cc g st) = cce_pools st"
  by (simp_all add: upd_cc_def)

lemma on_alist_simps [simp]:
  "cc (on_alist f st) = (cc st)\<lparr>cc_alist := fst (f (cc_alist (cc st), cce_al st))\<rparr>"
  "cce_al (on_alist f st) = snd (f (cc_alist (cc st), cce_al st))"
  "cce_cl (on_alist f st) = cce_cl st" "cce_pools (on_alist f st) = cce_pools st"
  by (simp_all add: on_alist_def split: prod.splits)

lemma on_clist_simps [simp]:
  "cc (on_clist i f st) =
     (cc st)\<lparr>cc_htable := (cc_htable (cc st))[i := fst (f (cc_htable (cc st) ! i, cce_cl st))]\<rparr>"
  "cce_cl (on_clist i f st) = snd (f (cc_htable (cc st) ! i, cce_cl st))"
  "cce_al (on_clist i f st) = cce_al st" "cce_pools (on_clist i f st) = cce_pools st"
  by (simp_all add: on_clist_def split: prod.splits)

lemma world_simps [simp]:
  "bd_world (on_alist f st) = bd_world st" "bd_world (on_clist i g st) = bd_world st"
  "bd_world (upd_cce c u st) = bd_world st" "bd_world (upd_cc h st) = bd_world st"
  by (simp_all add: on_alist_def on_clist_def upd_cce_def upd_cc_def split: prod.splits)

lemma htindex_simps [simp]:
  "shfs_cache_htindex a (on_alist f st) = shfs_cache_htindex a st"
  "shfs_cache_htindex a (on_clist i f st) = shfs_cache_htindex a st"
  "shfs_cache_htindex a (upd_cce c u st) = shfs_cache_htindex a st"
  "cc_htmask (g (cc st)) = cc_htmask (cc st) \<Longrightarrow> shfs_cache_htindex a (upd_cc g st) = shfs_cache_htindex a st"
  by (simp_all add: shfs_cache_htindex_def)

section \<open>Collision lists\<close>

lemma dl_repr_cong: "(\<And>x. x \<in> set xs \<Longrightarrow> L x = L' x) \<Longrightarrow> dl_repr L h xs = dl_repr L' h xs"
  using dlseg_cong [of xs L L'] by (simp add: dl_repr_def)

definition members :: "'a list list \<Rightarrow> 'a set" where
  "members hs = (\<Union>h \<in> set hs. set h)"

definition clists :: "addr links \<Rightarrow> addr dlist_head list \<Rightarrow> addr list list \<Rightarrow> bool" where
  "clists L hds hs \<longleftrightarrow>
     length hds = length hs \<and> (\<forall>i < length hs. dl_repr L (hds ! i) (hs ! i)) \<and>
     (\<forall>c i j. i < length hs \<longrightarrow> j < length hs \<longrightarrow> c \<in> set (hs ! i) \<longrightarrow> c \<in> set (hs ! j) \<longrightarrow> i = j)"

lemma clistsD:
  assumes "clists L hds hs"
  shows "length hds = length hs" "i < length hs \<Longrightarrow> dl_repr L (hds ! i) (hs ! i)"
    "i < length hs \<Longrightarrow> j < length hs \<Longrightarrow> c \<in> set (hs ! i) \<Longrightarrow> c \<in> set (hs ! j) \<Longrightarrow> i = j"
  using assms unfolding clists_def by blast+

lemma members_nth: "c \<in> members hs \<longleftrightarrow> (\<exists>i < length hs. c \<in> set (hs ! i))"
  unfolding members_def using in_set_conv_nth [of _ hs] by fastforce

lemma finite_members [simp]: "finite (members hs)"
  by (simp add: members_def)

lemma members_append: "i < length hs \<Longrightarrow> members (hs[i := hs ! i @ [c]]) = insert c (members hs)"
  by (auto simp: members_nth nth_list_update split: if_splits)

lemma members_remove:
  assumes "clists L hds hs" "i < length hs" "c \<in> set (hs ! i)"
  shows "members (hs[i := remove1 c (hs ! i)]) = members hs - {c}"
proof -
  have "distinct (hs ! i)" using clistsD(2) [OF assms(1,2)] by (rule dl_repr_distinct)
  moreover have "c \<notin> set (hs ! j)" if "j < length hs" "j \<noteq> i" for j
    using clistsD(3) [OF assms(1,2) that(1) assms(3)] that(2) by blast
  ultimately show ?thesis using assms(2)
    by (auto simp: members_nth nth_list_update split: if_splits)
qed

lemma clists_upd:
  assumes cl: "clists L hds hs" and i: "i < length hs" and r: "dl_repr L' h' xs"
    and other: "\<And>j x. j < length hs \<Longrightarrow> j \<noteq> i \<Longrightarrow> x \<in> set (hs ! j) \<Longrightarrow> L' x = L x \<and> x \<notin> set xs"
  shows "clists L' (hds[i := h']) (hs[i := xs])"
proof -
  have "dl_repr L' (hds ! j) (hs ! j)" if "j < length hs" "j \<noteq> i" for j
    using dl_repr_cong [of "hs ! j" L L'] other [OF that] clistsD(2) [OF cl that(1)] by simp
  moreover have "j = k" if "j < length hs" "k < length hs" "c \<in> set (hs[i := xs] ! j)" "c \<in> set (hs[i := xs] ! k)" for c j k
    using that other clistsD(3) [OF cl that(1,2)] i by (auto simp: nth_list_update split: if_splits)
  ultimately show ?thesis using clistsD(1) [OF cl] i r by (auto simp: clists_def nth_list_update)
qed

lemma clists_append:
  assumes cl: "clists L hds hs" and i: "i < length hs" and c: "c \<notin> members hs"
    and s: "dlist_append c (hds ! i, L) = (h', L')"
  shows "clists L' (hds[i := h']) (hs[i := hs ! i @ [c]])"
proof (rule clists_upd [OF cl i])
  note r = clistsD(2) [OF cl i]
  have ci: "c \<notin> set (hs ! i)" using i c by (auto simp: members_nth)
  show "dl_repr L' h' (hs ! i @ [c])" by (rule dl_repr_append [OF r ci s])
  fix j x
  assume j: "j < length hs" "j \<noteq> i" "x \<in> set (hs ! j)"
  then have "x \<notin> set (hs ! i)" "x \<noteq> c" using clistsD(3) [OF cl j(1) i j(3)] c
    by (auto simp: members_nth)
  then show "L' x = L x \<and> x \<notin> set (hs ! i @ [c])" using dlist_append_other [OF r s] by simp
qed

lemma clists_unlink:
  assumes cl: "clists L hds hs" and i: "i < length hs" and c: "c \<in> set (hs ! i)"
    and s: "dlist_unlink c (hds ! i, L) = (h', L')"
  shows "clists L' (hds[i := h']) (hs[i := remove1 c (hs ! i)])"
proof (rule clists_upd [OF cl i])
  note r = clistsD(2) [OF cl i]
  show "dl_repr L' h' (remove1 c (hs ! i))" by (rule dl_repr_unlink(1) [OF r c s])
  fix j x
  assume j: "j < length hs" "j \<noteq> i" "x \<in> set (hs ! j)"
  then have "x \<notin> set (hs ! i)" using clistsD(3) [OF cl j(1) i j(3)] by auto
  then show "L' x = L x \<and> x \<notin> set (remove1 c (hs ! i))"
    using dlist_unlink_other [OF r c s] set_remove1_subset [of c "hs ! i"] by auto
qed

lemma dlist_search_seg:
  "dlseg L p xs None \<Longrightarrow> dlist_search P (dlist_next_el L) (hd_opt xs) = Some (find P xs)"
proof (induction xs arbitrary: p)
  case Nil
  then show ?case by (subst dlist_search.simps) simp
next
  case (Cons x xs)
  have "dlist_next_el L x = hd_opt xs"
    using Cons.prems by (cases xs) (simp_all add: dlist_next_el_def)
  then show ?case using Cons.IH [of "Some x"] Cons.prems by (subst dlist_search.simps) simp
qed

lemma dlist_search_repr: "dl_repr L h xs \<Longrightarrow> dlist_search P (dlist_next_el L) (dl_first h) = Some (find P xs)"
  using dlist_search_seg by (auto simp: dl_repr_def)

section \<open>The invariant\<close>

text \<open>
  The lists: \<open>al\<close> are the entries of the available list, \<open>hs\<close> the collision lists. The available
  entries are linked in chains (\<open>AvailList\<close>); as long as \<open>ok\<close>, no entry whose read has failed has been
  released, and the head holds exactly one list of all of them. The other cached entries have null links.
\<close>

definition cache_shape :: "bool \<Rightarrow> addr list \<Rightarrow> addr list list \<Rightarrow> ('w, 'u, 'z) cachest_scheme \<Rightarrow> bool" where
  "cache_shape ok al hs st \<longleftrightarrow>
     (\<exists>segs. concat segs = al \<and> segs_ok (cce_al st) (cc_alist (cc st)) segs) \<and>
     (ok \<longrightarrow> dl_repr (cce_al st) (cc_alist (cc st)) al) \<and>
     (\<forall>c \<in> members hs. c \<notin> set al \<longrightarrow> cce_al st c = \<lparr>dl_next = None, dl_prev = None\<rparr>) \<and>
     clists (cce_cl st) (cc_htable (cc st)) hs \<and>
     (\<forall>a. shfs_cache_htindex a st < length hs)"

text \<open>
  The entries: \<open>H\<close> are the cached ones, \<open>A\<close> the available list, \<open>X\<close> those that an operation
  has put into the available list but not yet into a collision list, \<open>D\<close> those in no list,
  \<open>N\<close> holds chunks that are not cached, and \<open>R\<close> entries with the chunk they hold (a blank
  entry holds none) and the number of their references.
\<close>

definition cache_entries ::
    "chk_t set \<Rightarrow> (addr \<times> chk_t \<times> u32) set \<Rightarrow> addr set \<Rightarrow> addr list list \<Rightarrow> addr set \<Rightarrow> addr set \<Rightarrow> ('w, 'u, 'z) cachest_scheme \<Rightarrow> bool" where
  "cache_entries N R A hs X D st \<longleftrightarrow>
     (\<forall>i < length hs. \<forall>c \<in> set (hs ! i).
        ce_addr (cce st c) \<noteq> 0 \<and> shfs_cache_htindex (ce_addr (cce st c)) st = i) \<and>
     inj_on (\<lambda>c. ce_addr (cce st c)) (members hs) \<and>
     A = {c \<in> members hs. ce_refcount (cce st c) = 0} \<union> X \<and>
     X \<inter> members hs = {} \<and> D \<inter> members hs = {} \<and> D \<inter> X = {} \<and> finite X \<and> finite D \<and>
     (\<forall>c \<in> X. ce_refcount (cce st c) = 0) \<and>
     (\<forall>c \<in> members hs. ce_refcount (cce st c) = 0 \<and> ce_t (cce st c) = None \<longrightarrow> \<not> ce_invalid (cce st c)) \<and>
     (\<forall>c. ce_t (cce st c) \<noteq> None \<longrightarrow> c \<in> members hs) \<and>
     (\<forall>c \<in> members hs. ce_addr (cce st c) \<notin> N) \<and>
     (\<forall>(c, a, n) \<in> R. c \<in> (if a = 0 then D else members hs) \<and> ce_addr (cce st c) = a \<and> ce_refcount (cce st c) = n \<and> n \<noteq> 0 \<and> (a = 0 \<longrightarrow> ce_invalid (cce st c)))"

text \<open>
  The memory: a live entry is the private data of an object of the pool, one of its own that is in use,
  or an entry the cache has grown by. \<open>B\<close> are the blocks of the heap that are in use and \<open>P\<close> the
  addresses in the pool's memory; a grown entry and its buffer are blocks of their own.
\<close>

definition pooled :: "addr \<Rightarrow> addr list \<Rightarrow> addr \<Rightarrow> ('w, 'u, 'z) cachest_scheme \<Rightarrow> bool" where
  "pooled p objs c st \<longleftrightarrow> (\<exists>x \<in> set objs - set (pool_free p (cce_pools st)).
     ce_pobj (cce st c) = Some x \<and> obj_private (mp_objs (cce_pools st) x) = Some c)"

definition grown :: "addr set \<Rightarrow> ('w, 'u, 'z) cachest_scheme \<Rightarrow> addr set" where
  "grown live st = {c \<in> live. ce_pobj (cce st c) = None}"

definition own_blocks :: "addr set \<Rightarrow> addr set \<Rightarrow> addr set \<Rightarrow> ('w, 'u, 'z) cachest_scheme \<Rightarrow> bool" where
  "own_blocks Bs P G st \<longleftrightarrow> G \<inter> P = {} \<and> G \<subseteq> Bs \<and>
     (\<forall>c \<in> G. ce_buffer (cce st c) \<in> Bs \<and> ce_buffer (cce st c) \<notin> G \<and>
        (\<forall>d \<in> G. ce_buffer (cce st d) = ce_buffer (cce st c) \<longrightarrow> d = c))"

definition cache_backed ::
    "('w \<Rightarrow> addr set) \<Rightarrow> addr set \<Rightarrow> addr \<Rightarrow> addr list \<Rightarrow> addr set \<Rightarrow> ('w, 'u, 'z) cachest_scheme \<Rightarrow> bool" where
  "cache_backed B P p objs live st \<longleftrightarrow>
     cc_pool (cc st) = Some p \<and> pool_ok p objs (cce_pools st) \<and>
     obj_pick_func (mp_pools (cce_pools st) p) = Some cce_pobj_init \<and>
     obj_put_func (mp_pools (cce_pools st) p) = None \<and>
     inj_on (\<lambda>x. obj_private (mp_objs (cce_pools st) x)) (set objs) \<and>
     (\<forall>x \<in> set objs. \<exists>c \<in> P. obj_private (mp_objs (cce_pools st) x) = Some c) \<and>
     (\<forall>c \<in> live. ce_pobj (cce st c) \<noteq> None \<longrightarrow> pooled p objs c st) \<and>
     own_blocks (B (bd_world st)) P (grown live st) st"

definition cache_counts :: "addr set \<Rightarrow> ('w, 'u, 'z) cachest_scheme \<Rightarrow> bool" where
  "cache_counts live st \<longleftrightarrow>
     cc_nb_entries (cc st) = of_nat (card live) \<and>
     cc_nb_ref_entries (cc st) = of_nat (card {c \<in> live. ce_refcount (cce st c) \<noteq> 0})"

definition cache_inv ::
    "('w \<Rightarrow> addr set) \<Rightarrow> addr set \<Rightarrow> bool \<Rightarrow> addr \<Rightarrow> addr list \<Rightarrow>
     chk_t set \<Rightarrow> (addr \<times> chk_t \<times> u32) set \<Rightarrow> addr set \<Rightarrow> addr set \<Rightarrow> ('w, 'u, 'z) cachest_scheme \<Rightarrow> bool" where
  "cache_inv B P ok p objs N R X D st \<longleftrightarrow>
     (\<exists>al hs. cache_shape ok al hs st \<and> cache_entries N R (set al) hs X D st \<and>
        cache_backed B P p objs (members hs \<union> X \<union> D) st \<and> cache_counts (members hs \<union> X \<union> D) st)"

lemma cache_invE:
  assumes "cache_inv B P ok p objs N R X D st"
  obtains al hs where "cache_shape ok al hs st" "cache_entries N R (set al) hs X D st"
    "cache_backed B P p objs (members hs \<union> X \<union> D) st" "cache_counts (members hs \<union> X \<union> D) st"
  using assms unfolding cache_inv_def by blast

lemma cache_invI:
  "cache_shape ok al hs st \<Longrightarrow> cache_entries N R (set al) hs X D st \<Longrightarrow>
   cache_backed B P p objs (members hs \<union> X \<union> D) st \<Longrightarrow> cache_counts (members hs \<union> X \<union> D) st \<Longrightarrow>
   cache_inv B P ok p objs N R X D st"
  unfolding cache_inv_def by blast

text \<open>An update that the memory of the entries does not depend on.\<close>

lemma cache_backed_cong:
  assumes "cache_backed B P p objs live st" and "cc_pool (cc st') = cc_pool (cc st)"
    and ps: "mp_pools (cce_pools st') = mp_pools (cce_pools st)" "mp_objs (cce_pools st') = mp_objs (cce_pools st)"
    and w: "B (bd_world st) \<subseteq> B (bd_world st')"
    and e: "\<And>c. c \<in> live \<Longrightarrow> ce_pobj (cce st' c) = ce_pobj (cce st c) \<and> ce_buffer (cce st' c) = ce_buffer (cce st c)"
  shows "cache_backed B P p objs live st'"
proof -
  have f: "pool_free p (cce_pools st') = pool_free p (cce_pools st)" by (simp add: pool_free_def ps)
  have "pool_ok p objs (cce_pools st') = pool_ok p objs (cce_pools st)" by (simp add: pool_ok_def f ps)
  moreover have "pooled p objs c st' = pooled p objs c st" if "c \<in> live" for c using e [OF that] by (simp add: pooled_def f ps)
  moreover have "grown live st' = grown live st" using e by (auto simp: grown_def)
  moreover have "own_blocks (B (bd_world st')) P (grown live st) st'" if "own_blocks (B (bd_world st)) P (grown live st) st"
  proof -
    have "ce_buffer (cce st' c) = ce_buffer (cce st c)" if "c \<in> grown live st" for c using e that by (auto simp: grown_def)
    then show ?thesis using that w unfolding own_blocks_def by (simp, blast)
  qed
  ultimately show ?thesis using assms(1,2) e by (simp add: cache_backed_def ps)
qed

text \<open>
  The invariant looks at the cache's own part of the state, and needs the cache's blocks of the
  heap to stay in use.
\<close>

lemma cache_inv_stable:
  fixes B :: "'w \<Rightarrow> addr set"
  shows "io_stable B (cache_inv B P ok p objs N R X D :: ('w, 'u, 'z) cachest_scheme \<Rightarrow> bool)"
proof -
  have "cache_inv B P ok p objs N R X D s'"
    if m: "aiost.more s = aiost.more s'" and w: "B (bd_world s) \<subseteq> B (bd_world s')" and inv: "cache_inv B P ok p objs N R X D s"
    for s s' :: "('w, 'u, 'z) cachest_scheme"
  proof -
    have e: "cc s' = cc s" "cce_pools s' = cce_pools s" "cce_al s' = cce_al s" "cce_cl s' = cce_cl s"
      using m by (cases s; cases s'; simp)+
    have i: "shfs_cache_htindex a s' = shfs_cache_htindex a s" for a by (simp add: shfs_cache_htindex_def e)
    have c: "cce s' = cce s" by (simp add: cce_def e fun_eq_iff)
    obtain al hs where a: "cache_shape ok al hs s" "cache_entries N R (set al) hs X D s"
      "cache_backed B P p objs (members hs \<union> X \<union> D) s" "cache_counts (members hs \<union> X \<union> D) s"
      using inv by (rule cache_invE)
    have "cache_backed B P p objs (members hs \<union> X \<union> D) s'"
      by (rule cache_backed_cong [OF a(3)]) (use w in \<open>simp_all add: e c\<close>)
    moreover have "cache_shape ok al hs s'" using a(1) unfolding cache_shape_def e i .
    moreover have "cache_entries N R (set al) hs X D s'" using a(2) unfolding cache_entries_def i c .
    moreover have "cache_counts (members hs \<union> X \<union> D) s'" using a(4) unfolding cache_counts_def e c .
    ultimately show ?thesis by (blast intro: cache_invI)
  qed
  then show ?thesis unfolding io_stable_def by blast
qed

lemma cache_find:
  assumes "cache_shape ok al hs st" and "cache_entries N R A hs X D st" and "a \<noteq> 0"
  shows "(\<exists>c \<in> members hs. ce_addr (cce st c) = a \<and> shfs_cache_find a st = Some (Some c)) \<or>
    ((\<forall>c \<in> members hs. ce_addr (cce st c) \<noteq> a) \<and> shfs_cache_find a st = Some None)"
proof -
  let ?i = "shfs_cache_htindex a st"
  have i: "?i < length hs" and r: "dl_repr (cce_cl st) (cc_htable (cc st) ! ?i) (hs ! ?i)"
    using assms(1) by (auto simp: cache_shape_def clists_def)
  have f: "shfs_cache_find a st = Some (find (\<lambda>c. ce_addr (cce st c) = a) (hs ! ?i))"
    unfolding shfs_cache_find_def by (rule dlist_search_repr [OF r])
  show ?thesis
  proof (cases "find (\<lambda>c. ce_addr (cce st c) = a) (hs ! ?i)")
    case None
    have "ce_addr (cce st c) \<noteq> a" if c: "c \<in> members hs" for c
    proof
      assume a: "ce_addr (cce st c) = a"
      obtain j where "j < length hs" "c \<in> set (hs ! j)" using c by (auto simp: members_nth)
      then have "c \<in> set (hs ! ?i)" using assms(2) a by (auto simp: cache_entries_def)
      then show False using None a by (simp add: find_None_iff)
    qed
    then show ?thesis using f None by simp
  next
    case (Some c)
    then have "c \<in> set (hs ! ?i)" "ce_addr (cce st c) = a" by (auto simp: find_Some_iff)
    then show ?thesis using f Some i by (auto simp: members_nth)
  qed
qed

lemma cache_idle:
  assumes "cache_shape ok al hs st"
  shows "(\<exists>c \<in> set al. ce_t (cce st c) = None \<and> shfs_cache_idle st = Some (Some c)) \<or> shfs_cache_idle st = Some None"
proof -
  obtain segs where al: "concat segs = al" and S: "segs_ok (cce_al st) (cc_alist (cc st)) segs"
    using assms by (auto simp: cache_shape_def)
  show ?thesis
  proof (cases "dl_first (cc_alist (cc st))")
    case None
    then show ?thesis by (simp add: shfs_cache_idle_def dlist_search.simps)
  next
    case (Some x)
    obtain s where s: "s \<in> set segs" "x = hd s" using segs_okD(4) [OF S Some] by blast
    have "dl_first (cc_alist (cc st)) = hd_opt s" using Some s segs_okD(2) [OF S s(1)] by (simp add: hd_opt_hd)
    then have "shfs_cache_idle st = Some (find (\<lambda>c. ce_t (cce st c) = None) s)"
      unfolding shfs_cache_idle_def using dlist_search_seg [OF segs_okD(3) [OF S s(1)]] by simp
    moreover have "set s \<subseteq> set al" using s(1) al by auto
    ultimately show ?thesis
      by (cases "find (\<lambda>c. ce_t (cce st c) = None) s") (auto simp: find_Some_iff)
  qed
qed

section \<open>Steps of the operations\<close>

lemma cache_entriesD:
  assumes "cache_entries N R A hs X D st"
  shows "inj_on (\<lambda>c. ce_addr (cce st c)) (members hs)"
    "A = {c \<in> members hs. ce_refcount (cce st c) = 0} \<union> X"
    "X \<inter> members hs = {}" "D \<inter> members hs = {}" "D \<inter> X = {}" "finite X" "finite D"
    "c \<in> X \<Longrightarrow> ce_refcount (cce st c) = 0"
    "c \<in> members hs \<Longrightarrow> ce_refcount (cce st c) = 0 \<Longrightarrow> ce_t (cce st c) = None \<Longrightarrow> \<not> ce_invalid (cce st c)"
    "ce_t (cce st c) \<noteq> None \<Longrightarrow> c \<in> members hs"
    "c \<in> members hs \<Longrightarrow> ce_addr (cce st c) \<noteq> 0"
    "i < length hs \<Longrightarrow> c \<in> set (hs ! i) \<Longrightarrow> shfs_cache_htindex (ce_addr (cce st c)) st = i"
    "c \<in> members hs \<Longrightarrow> ce_addr (cce st c) \<notin> N"
    "(c, a, n) \<in> R \<Longrightarrow> c \<in> (if a = 0 then D else members hs) \<and> ce_addr (cce st c) = a \<and> ce_refcount (cce st c) = n \<and> n \<noteq> 0 \<and> (a = 0 \<longrightarrow> ce_invalid (cce st c))"
proof -
  note e = assms [unfolded cache_entries_def]
  show "inj_on (\<lambda>c. ce_addr (cce st c)) (members hs)" using e by (elim conjE)
  show "A = {c \<in> members hs. ce_refcount (cce st c) = 0} \<union> X" using e by (elim conjE)
  show "X \<inter> members hs = {}" using e by (elim conjE)
  show "D \<inter> members hs = {}" using e by (elim conjE)
  show "D \<inter> X = {}" using e by (elim conjE)
  show "finite X" using e by (elim conjE)
  show "finite D" using e by (elim conjE)
  show "c \<in> X \<Longrightarrow> ce_refcount (cce st c) = 0" using e by (elim conjE) (erule bspec)
  show "c \<in> members hs \<Longrightarrow> ce_refcount (cce st c) = 0 \<Longrightarrow> ce_t (cce st c) = None \<Longrightarrow> \<not> ce_invalid (cce st c)"
    using e by (elim conjE) simp
  show "ce_t (cce st c) \<noteq> None \<Longrightarrow> c \<in> members hs" using e by (elim conjE) simp
  have i: "ce_addr (cce st c) \<noteq> 0 \<and> shfs_cache_htindex (ce_addr (cce st c)) st = i"
    if "i < length hs" "c \<in> set (hs ! i)" for c i
    using e that by (elim conjE) simp
  then show "c \<in> members hs \<Longrightarrow> ce_addr (cce st c) \<noteq> 0" unfolding members_nth by blast
  show "i < length hs \<Longrightarrow> c \<in> set (hs ! i) \<Longrightarrow> shfs_cache_htindex (ce_addr (cce st c)) st = i"
    using i by blast
  show "c \<in> members hs \<Longrightarrow> ce_addr (cce st c) \<notin> N" using e by (elim conjE) simp
  show "(c, a, n) \<in> R \<Longrightarrow> c \<in> (if a = 0 then D else members hs) \<and> ce_addr (cce st c) = a \<and> ce_refcount (cce st c) = n \<and> n \<noteq> 0 \<and> (a = 0 \<longrightarrow> ce_invalid (cce st c))"
    using e by (elim conjE) (drule (1) bspec, simp)
qed

lemma cache_entriesI:
  assumes "\<And>i c. i < length hs \<Longrightarrow> c \<in> set (hs ! i) \<Longrightarrow>
      ce_addr (cce st c) \<noteq> 0 \<and> shfs_cache_htindex (ce_addr (cce st c)) st = i"
    and "inj_on (\<lambda>c. ce_addr (cce st c)) (members hs)"
    and "A = {c \<in> members hs. ce_refcount (cce st c) = 0} \<union> X"
    and "X \<inter> members hs = {}" "D \<inter> members hs = {}" "D \<inter> X = {}" "finite X" "finite D"
    and "\<And>c. c \<in> X \<Longrightarrow> ce_refcount (cce st c) = 0"
    and "\<And>c. c \<in> members hs \<Longrightarrow> ce_refcount (cce st c) = 0 \<Longrightarrow> ce_t (cce st c) = None \<Longrightarrow> \<not> ce_invalid (cce st c)"
    and "\<And>c. ce_t (cce st c) \<noteq> None \<Longrightarrow> c \<in> members hs"
    and "\<And>c. c \<in> members hs \<Longrightarrow> ce_addr (cce st c) \<notin> N"
    and "\<And>c a n. (c, a, n) \<in> R \<Longrightarrow> c \<in> (if a = 0 then D else members hs) \<and> ce_addr (cce st c) = a \<and> ce_refcount (cce st c) = n \<and> n \<noteq> 0 \<and> (a = 0 \<longrightarrow> ce_invalid (cce st c))"
  shows "cache_entries N R A hs X D st"
  unfolding cache_entries_def using assms by (intro conjI) (assumption | simp | fastforce)+

lemma cache_entries_sets:
  assumes "cache_entries N R A hs X D st"
    and "A' = {c \<in> members hs. ce_refcount (cce st c) = 0} \<union> X'"
    and "X' \<inter> members hs = {}" "D' \<inter> members hs = {}" "D' \<inter> X' = {}" "finite X'" "finite D'"
    and "\<And>c. c \<in> X' \<Longrightarrow> ce_refcount (cce st c) = 0"
    and R: "\<And>c n. (c, 0, n) \<in> R \<Longrightarrow> c \<in> D \<Longrightarrow> ce_refcount (cce st c) \<noteq> 0 \<Longrightarrow> c \<in> D'"
  shows "cache_entries N R A' hs X' D' st"
proof -
  note E = cache_entriesD [OF assms(1)]
  show ?thesis
  proof (rule cache_entriesI)
    show "ce_addr (cce st d) \<noteq> 0 \<and> shfs_cache_htindex (ce_addr (cce st d)) st = i"
      if "i < length hs" "d \<in> set (hs ! i)" for i d
      using that E(11) [of d] E(12) [of i d] by (auto simp: members_nth)
    show "d \<in> (if b = 0 then D' else members hs) \<and> ce_addr (cce st d) = b \<and> ce_refcount (cce st d) = n \<and> n \<noteq> 0 \<and> (b = 0 \<longrightarrow> ce_invalid (cce st d))"
      if "(d, b, n) \<in> R" for d b n
      using E(14) [OF that] R [of d n] that by (cases "b = 0") simp_all
  qed (assumption | rule assms(2-8) | rule E(1) E(9-13))+
qed

lemma inv_fresh: "cache_inv B P ok p objs N R X D st \<Longrightarrow> ce_refcount (cce st c) = 0 \<Longrightarrow> (c, b, n) \<in> R \<Longrightarrow> False"
  by (erule cache_invE) (drule (1) cache_entriesD(14), simp)

text \<open>Appending an entry that is in no list to the available list, and taking it out again.\<close>

lemma cache_shape_alist_append:
  assumes sh: "cache_shape ok al hs st" and c: "c \<notin> set al" and app: "alist_append c st = Inr st'"
  shows "st' = on_alist (dlist_append c) st"
    and "\<exists>al'. cache_shape ok al' hs st' \<and> set al' = insert c (set al)"
proof -
  show st': "st' = on_alist (dlist_append c) st" using app by (auto simp: alist_append_def split: if_splits)
  obtain segs where al: "concat segs = al" and S: "segs_ok (cce_al st) (cc_alist (cc st)) segs"
    using sh by (auto simp: cache_shape_def)
  have last: "dl_first (cc_alist (cc st)) \<noteq> None \<Longrightarrow> dl_last (cc_alist (cc st)) \<noteq> None"
    using app by (auto simp: alist_append_def dlist_is_empty_def split: if_splits)
  obtain h L where s: "dlist_append c (cc_alist (cc st), cce_al st) = (h, L)" by fastforce
  note A = segs_append [OF S _ last s, unfolded al, OF c]
  have nul: "d \<in> members hs \<Longrightarrow> d \<noteq> c \<Longrightarrow> d \<notin> set al \<Longrightarrow> L d = \<lparr>dl_next = None, dl_prev = None\<rparr>" for d
    using sh A(2) [of d] by (auto simp: cache_shape_def)
  show "\<exists>al'. cache_shape ok al' hs st' \<and> set al' = insert c (set al)"
  proof (cases ok)
    case True
    then have r: "dl_repr (cce_al st) (cc_alist (cc st)) al" using sh by (simp add: cache_shape_def)
    note r' = dl_repr_append [OF r c s]
    then show ?thesis using sh s nul segs_of_repr [OF r']
      by (intro exI [of _ "al @ [c]"]) (auto simp: cache_shape_def st' intro: exI [of _ "[al @ [c]]"])
  next
    case False
    from A(1) obtain segs' where "segs_ok L h segs'" "set (concat segs') = insert c (set al)" by blast
    then show ?thesis using sh s nul False
      by (intro exI [of _ "concat segs'"]) (auto simp: cache_shape_def st')
  qed
qed

lemma cache_shape_alist_append_ok:
  assumes "cache_shape True al hs st"
  shows "alist_append c st = Inr (on_alist (dlist_append c) st)"
  using assms by (auto simp: cache_shape_def alist_append_def dl_repr_def dlist_is_empty_def)

lemma cache_shape_alist_unlink:
  assumes sh: "cache_shape ok al hs st" and c: "c \<in> set al"
  shows "\<exists>al'. cache_shape ok al' hs (on_alist (dlist_unlink c) st) \<and> set al' = set al - {c}"
proof -
  obtain segs where al: "concat segs = al" and S: "segs_ok (cce_al st) (cc_alist (cc st)) segs"
    using sh by (auto simp: cache_shape_def)
  obtain h L where s: "dlist_unlink c (cc_alist (cc st), cce_al st) = (h, L)" by fastforce
  note U = segs_unlink [OF S _ s, unfolded al, OF c]
  have nul: "d \<in> members hs \<Longrightarrow> d \<notin> set al - {c} \<Longrightarrow> L d = \<lparr>dl_next = None, dl_prev = None\<rparr>" for d
    using sh U(2) U(3) [of d] by (cases "d = c") (auto simp: cache_shape_def)
  show ?thesis
  proof (cases ok)
    case True
    then have r: "dl_repr (cce_al st) (cc_alist (cc st)) al" using sh by (simp add: cache_shape_def)
    note r' = dl_repr_unlink(1) [OF r c s]
    have st: "set (remove1 c al) = set al - {c}" using dl_repr_distinct [OF r] by simp
    have "\<exists>segs. concat segs = remove1 c al \<and> segs_ok L h segs"
      by (rule exI, rule conjI [OF _ segs_of_repr [OF r']]) simp
    then show ?thesis using sh s nul r' st
      by (intro exI [of _ "remove1 c al"]) (simp add: cache_shape_def)
  next
    case False
    from U(1) obtain segs' where "segs_ok L h segs'" "set (concat segs') = set al - {c}" by blast
    then show ?thesis using sh s nul False
      by (intro exI [of _ "concat segs'"]) (auto simp: cache_shape_def)
  qed
qed

text \<open>The unlinking of a cached entry that is not available: only the head changes.\<close>

lemma cache_shape_alist_loose:
  assumes sh: "cache_shape ok al hs st" and c: "cce_al st c = \<lparr>dl_next = None, dl_prev = None\<rparr>"
  shows "cache_shape False al hs (on_alist (dlist_unlink c) st)"
    and "cc_alist (cc (on_alist (dlist_unlink c) st)) = dlist_init_head"
proof -
  obtain segs where al: "concat segs = al" and S: "segs_ok (cce_al st) (cc_alist (cc st)) segs"
    using sh by (auto simp: cache_shape_def)
  note U = segs_unlink_loose [OF S c]
  show "cc_alist (cc (on_alist (dlist_unlink c) st)) = dlist_init_head" by (simp add: U(1))
  have "\<exists>segs. concat segs = al \<and> segs_ok (cce_al st) dlist_init_head segs" using al U(2) by blast
  then show "cache_shape False al hs (on_alist (dlist_unlink c) st)" using sh U by (simp add: cache_shape_def)
qed

lemma cache_shape_clist_append:
  assumes "cache_shape ok al hs st" "c \<notin> members hs" "i < length hs" "c \<in> set al"
  shows "cache_shape ok al (hs[i := hs ! i @ [c]]) (on_clist i (dlist_append c) st)"
proof -
  have r: "clists (cce_cl st) (cc_htable (cc st)) hs" using assms by (simp add: cache_shape_def)
  obtain h L where s: "dlist_append c (cc_htable (cc st) ! i, cce_cl st) = (h, L)" by fastforce
  show ?thesis using assms clists_append [OF r assms(3,2) s] s members_append [OF assms(3), of c]
    by (simp add: cache_shape_def)
qed

lemma cache_shape_clist_unlink:
  assumes "cache_shape ok al hs st" "c \<in> set (hs ! i)" "i < length hs"
  shows "cache_shape ok al (hs[i := remove1 c (hs ! i)]) (on_clist i (dlist_unlink c) st)"
    "members (hs[i := remove1 c (hs ! i)]) = members hs - {c}"
proof -
  have r: "clists (cce_cl st) (cc_htable (cc st)) hs" using assms by (simp add: cache_shape_def)
  obtain h L where s: "dlist_unlink c (cc_htable (cc st) ! i, cce_cl st) = (h, L)" by fastforce
  show m: "members (hs[i := remove1 c (hs ! i)]) = members hs - {c}"
    by (rule members_remove [OF r assms(3,2)])
  show "cache_shape ok al (hs[i := remove1 c (hs ! i)]) (on_clist i (dlist_unlink c) st)"
    using assms clists_unlink [OF r assms(3,2) s] s m by (simp add: cache_shape_def)
qed

lemma inv_alist_append:
  assumes inv: "cache_inv B P ok p objs N R X D st" and c: "c \<in> D" "ce_refcount (cce st c) = 0"
    and app: "alist_append c st = Inr st'"
  shows "cache_inv B P ok p objs N R (insert c X) (D - {c}) st'"
proof -
  obtain al hs where a: "cache_shape ok al hs st" "cache_entries N R (set al) hs X D st"
    "cache_backed B P p objs (members hs \<union> X \<union> D) st" "cache_counts (members hs \<union> X \<union> D) st"
    using inv by (rule cache_invE)
  note E = cache_entriesD [OF a(2)]
  have "c \<notin> set al" using E(2,4,5) c by blast
  note S = cache_shape_alist_append [OF a(1) this app]
  obtain al' where s: "cache_shape ok al' hs st'" "set al' = insert c (set al)" using S(2) by blast
  have u: "members hs \<union> insert c X \<union> (D - {c}) = members hs \<union> X \<union> D" using c by auto
  have "cache_entries N R (set al') hs (insert c X) (D - {c}) st"
    by (rule cache_entries_sets [OF a(2)]) (use E(2-8) c s(2) in auto)
  then have e: "cache_entries N R (set al') hs (insert c X) (D - {c}) st'"
    unfolding S(1) cache_entries_def cce_simps htindex_simps .
  have b: "cache_backed B P p objs (members hs \<union> X \<union> D) st'"
    by (rule cache_backed_cong [OF a(3)]) (simp_all add: S(1))
  show ?thesis
    by (rule cache_invI [OF s(1) e]) (use a(4) b u in \<open>simp_all add: S(1) cache_counts_def\<close>)
qed

lemma inv_alist_unlink:
  assumes inv: "cache_inv B P ok p objs N R X D st" and c: "c \<in> X"
  shows "cache_inv B P ok p objs N R (X - {c}) (insert c D) (on_alist (dlist_unlink c) st)"
proof -
  obtain al hs where a: "cache_shape ok al hs st" "cache_entries N R (set al) hs X D st"
    "cache_backed B P p objs (members hs \<union> X \<union> D) st" "cache_counts (members hs \<union> X \<union> D) st"
    using inv by (rule cache_invE)
  note E = cache_entriesD [OF a(2)]
  have ca: "c \<in> set al" using E(2) c by blast
  obtain al' where s: "cache_shape ok al' hs (on_alist (dlist_unlink c) st)" "set al' = set al - {c}"
    using cache_shape_alist_unlink [OF a(1) ca] by blast
  have u: "members hs \<union> (X - {c}) \<union> insert c D = members hs \<union> X \<union> D" using c by auto
  have "c \<notin> members hs" using E(3) c by blast
  then have "cache_entries N R (set al') hs (X - {c}) (insert c D) st"
    unfolding s(2) by (intro cache_entries_sets [OF a(2)]) (use E(2-8) c in auto)
  then have e: "cache_entries N R (set al') hs (X - {c}) (insert c D) (on_alist (dlist_unlink c) st)"
    unfolding cache_entries_def cce_simps htindex_simps .
  have b: "cache_backed B P p objs (members hs \<union> X \<union> D) (on_alist (dlist_unlink c) st)"
    by (rule cache_backed_cong [OF a(3)]) simp_all
  show ?thesis
    by (rule cache_invI [OF s(1) e]) (use a(4) b u in \<open>simp_all add: cache_counts_def\<close>)
qed

text \<open>Setting fields of entries that no list constrains.\<close>

lemma inv_upd_free:
  assumes inv: "cache_inv B P ok p objs N R X D st" and c: "c \<in> X \<union> D"
    and u: "\<And>k. ce_refcount (u k) = ce_refcount k" "\<And>k. ce_pobj (u k) = ce_pobj k"
      "ce_t (u (cce st c)) = None" "\<And>k. ce_buffer (u k) = ce_buffer k"
    and z: "ce_refcount (cce st c) = 0"
  shows "cache_inv B P ok p objs N R X D (upd_cce c u st)"
proof -
  have fresh: "(c, b, n) \<in> R \<Longrightarrow> False" for b n using inv_fresh [OF inv z] by blast

  obtain al hs where a: "cache_shape ok al hs st" "cache_entries N R (set al) hs X D st"
    "cache_backed B P p objs (members hs \<union> X \<union> D) st" "cache_counts (members hs \<union> X \<union> D) st"
    using inv by (rule cache_invE)
  have cm: "c \<notin> members hs" using cache_entriesD(3,4) [OF a(2)] c by blast
  have r: "ce_refcount ((cce (upd_cce c u st)) x) = ce_refcount (cce st x)"
    "ce_pobj ((cce (upd_cce c u st)) x) = ce_pobj (cce st x)" for x using u by simp_all
  have m: "x \<in> members hs \<Longrightarrow> cce (upd_cce c u st) x = cce st x" for x using cm by auto
  note E = cache_entriesD [OF a(2)]
  have e: "cache_entries N R (set al) hs X D (upd_cce c u st)"
  proof (rule cache_entriesI)
    fix i x
    assume x: "i < length hs" "x \<in> set (hs ! i)"
    then have "x \<in> members hs" by (auto simp: members_nth)
    then show "ce_addr (cce (upd_cce c u st) x) \<noteq> 0 \<and>
        shfs_cache_htindex (ce_addr (cce (upd_cce c u st) x)) (upd_cce c u st) = i"
      using m E(11) E(12) [OF x] by simp
  next
    show "inj_on (\<lambda>x. ce_addr (cce (upd_cce c u st) x)) (members hs)"
      using E(1) m by (simp add: inj_on_def del: cce_simps)
    show "set al = {x \<in> members hs. ce_refcount (cce (upd_cce c u st) x) = 0} \<union> X"
      unfolding r by (rule E(2))
    show "ce_refcount (cce (upd_cce c u st) x) = 0" if "x \<in> X" for x unfolding r by (rule E(8) [OF that])
    show "\<not> ce_invalid (cce (upd_cce c u st) x)"
      if "x \<in> members hs" "ce_refcount (cce (upd_cce c u st) x) = 0" "ce_t (cce (upd_cce c u st) x) = None" for x
      using that E(9) [OF that(1)] m [OF that(1)] by simp
    show "x \<in> members hs" if "ce_t (cce (upd_cce c u st) x) \<noteq> None" for x
      using that u(3) E(10) [of x] by (auto split: if_splits)
    show "ce_addr (cce (upd_cce c u st) x) \<notin> N" if "x \<in> members hs" for x
      using E(13) [OF that] m [OF that] by simp
    show "x \<in> (if b = 0 then D else members hs) \<and> ce_addr (cce (upd_cce c u st) x) = b \<and> ce_refcount (cce (upd_cce c u st) x) = n \<and> n \<noteq> 0 \<and> (b = 0 \<longrightarrow> ce_invalid (cce (upd_cce c u st) x))"
      if "(x, b, n) \<in> R" for x b n
      using E(14) [OF that] m [of x] u(1) fresh that by (cases "x = c") auto
  qed (use E in auto)
  have b: "cache_backed B P p objs (members hs \<union> X \<union> D) (upd_cce c u st)"
    by (rule cache_backed_cong [OF a(3)]) (use u in simp_all)
  show ?thesis
    by (rule cache_invI [OF _ e b])
       (use a(1,4) r in \<open>simp_all add: cache_shape_def cache_counts_def del: cce_simps\<close>)
qed

lemma cache_backedD:
  assumes "cache_backed B P p objs live st"
  shows "cc_pool (cc st) = Some p" "pool_ok p objs (cce_pools st)"
    "obj_pick_func (mp_pools (cce_pools st) p) = Some cce_pobj_init"
    "obj_put_func (mp_pools (cce_pools st) p) = None"
    "inj_on (\<lambda>x. obj_private (mp_objs (cce_pools st) x)) (set objs)"
    "x \<in> set objs \<Longrightarrow> \<exists>c \<in> P. obj_private (mp_objs (cce_pools st) x) = Some c"
    "c \<in> live \<Longrightarrow> ce_pobj (cce st c) \<noteq> None \<Longrightarrow> \<exists>x. x \<in> set objs \<and> x \<notin> set (pool_free p (cce_pools st)) \<and>
        ce_pobj (cce st c) = Some x \<and> obj_private (mp_objs (cce_pools st) x) = Some c"
    "own_blocks (B (bd_world st)) P (grown live st) st"
  using assms unfolding cache_backed_def by (auto simp: pooled_def)

lemma own_blocksD:
  assumes "own_blocks Bs P G st"
  shows "G \<inter> P = {}" "c \<in> G \<Longrightarrow> c \<in> Bs" "c \<in> G \<Longrightarrow> ce_buffer (cce st c) \<in> Bs" "c \<in> G \<Longrightarrow> ce_buffer (cce st c) \<notin> G"
    "c \<in> G \<Longrightarrow> d \<in> G \<Longrightarrow> ce_buffer (cce st d) = ce_buffer (cce st c) \<Longrightarrow> d = c"
  using assms unfolding own_blocks_def by blast+

text \<open>A cached entry that is available leaves both lists.\<close>

definition drop_lists :: "addr \<Rightarrow> ('w, 'u, 'z) cachest_scheme \<Rightarrow> ('w, 'u, 'z) cachest_scheme" where
  "drop_lists c st =
     on_alist (dlist_unlink c) (on_clist (shfs_cache_htindex (ce_addr (cce st c)) st) (dlist_unlink c) st)"

lemma inv_drop_lists:
  assumes a: "cache_shape ok al hs st" "cache_entries N R (set al) hs X D st"
    "cache_backed B P p objs (members hs \<union> X \<union> D) st" "cache_counts (members hs \<union> X \<union> D) st"
    and c: "c \<in> members hs" "ce_refcount (cce st c) = 0" "ce_t (cce st c) = None"
  shows "cache_inv B P ok p objs N R X (insert c D) (drop_lists c st)"
proof -
  let ?i = "shfs_cache_htindex (ce_addr (cce st c)) st"
  note E = cache_entriesD [OF a(2)]
  obtain i where i: "i < length hs" "c \<in> set (hs ! i)" using c(1) by (auto simp: members_nth)
  have i': "?i = i" by (rule E(12) [OF i])
  let ?hs = "hs[i := remove1 c (hs ! i)]"
  note s1 = cache_shape_clist_unlink [OF a(1) i(2,1)]
  have "c \<in> set al" using E(2) c by blast
  from cache_shape_alist_unlink [OF s1(1) this] obtain al' where
    sh: "cache_shape ok al' ?hs (drop_lists c st)" and s2: "set al' = set al - {c}"
    by (auto simp: drop_lists_def i')
  have cX: "c \<notin> X" "c \<notin> D" using E(3,4) c(1) by blast+
  have cce: "cce (drop_lists c st) = cce st" by (simp add: drop_lists_def)
  have hx: "shfs_cache_htindex b (drop_lists c st) = shfs_cache_htindex b st" for b by (simp add: drop_lists_def)
  have sub: "j < length ?hs \<Longrightarrow> x \<in> set (?hs ! j) \<Longrightarrow> j < length hs \<and> x \<in> set (hs ! j)" for j x
    using set_remove1_subset [of c "hs ! i"] by (cases "j = i") auto
  have live: "members ?hs \<union> X \<union> insert c D = members hs \<union> X \<union> D" using s1(2) c(1) by auto
  have e: "cache_entries N R (set al') ?hs X (insert c D) (drop_lists c st)"
  proof (rule cache_entriesI, unfold cce hx s1(2))
    fix j x
    assume "j < length ?hs" "x \<in> set (?hs ! j)"
    from sub [OF this] show "ce_addr (cce st x) \<noteq> 0 \<and> shfs_cache_htindex (ce_addr (cce st x)) st = j"
      using E(11) E(12) by (auto simp: members_nth)
  next
    show "inj_on (\<lambda>c. ce_addr (cce st c)) (members hs - {c})" by (rule inj_on_subset [OF E(1)]) auto
    show "set al' = {x \<in> members hs - {c}. ce_refcount (cce st x) = 0} \<union> X"
      using s2 E(2) cX by auto
    show "x \<in> members hs - {c}" if "ce_t (cce st x) \<noteq> None" for x using E(10) [OF that] that c(3) by auto
    show "x \<in> (if b = 0 then insert c D else members hs - {c}) \<and> ce_addr (cce st x) = b \<and> ce_refcount (cce st x) = n \<and> n \<noteq> 0 \<and> (b = 0 \<longrightarrow> ce_invalid (cce st x))"
      if "(x, b, n) \<in> R" for x b n using E(14) [OF that] c(2) by (auto split: if_splits)
  qed (use E cX in auto)
  have b: "cache_backed B P p objs (members hs \<union> X \<union> D) (drop_lists c st)"
    by (rule cache_backed_cong [OF a(3)]) (simp_all add: drop_lists_def)
  show ?thesis
    by (rule cache_invI [OF sh e], unfold live)
       (use a(4) b in \<open>simp_all add: cache_counts_def drop_lists_def\<close>)
qed

text \<open>Going back to the pool, and coming from it.\<close>

lemma mempool_put_objs:
  assumes "pool_ok p objs P" "x \<in> set objs" "x \<notin> set (pool_free p P)" "obj_put_func (mp_pools P p) = None"
  shows "mp_objs (mempool_put x P) = mp_objs P" "mp_mem (mempool_put x P) = mp_mem P"
    "obj_pick_func (mp_pools (mempool_put x P) p) = obj_pick_func (mp_pools P p)"
    "obj_put_func (mp_pools (mempool_put x P) p) = None"
  using mempool_put_eq [OF assms(1), of x] assms by auto

lemma finite_live: "cache_entries N R A hs X D st \<Longrightarrow> finite (members hs \<union> X \<union> D)"
  using cache_entriesD(6,7) [of N R A hs X D st] by simp

text \<open>
  What the cache relies on of the heap: with \<open>B\<close> the blocks in use and \<open>P\<close> the memory of the cache's pool,
  an allocation returns a block that is in neither, and takes nothing out of use; freeing a block takes
  only that one out of use.
\<close>

definition heap_ok :: "'w heap \<Rightarrow> ('w \<Rightarrow> addr set) \<Rightarrow> addr set \<Rightarrow> bool" where
  "heap_ok hp B P \<longleftrightarrow>
     (\<forall>n al w. case hp_xmalloc hp n al w of
        (None, w') \<Rightarrow> B w \<subseteq> B w'
      | (Some a, w') \<Rightarrow> a \<notin> B w \<and> a \<notin> P \<and> insert a (B w) \<subseteq> B w') \<and>
     (\<forall>a w. B w - {a} \<subseteq> B (hp_xfree hp a w))"

lemma heap_okD:
  assumes hp: "heap_ok hp B P"
  shows "hp_xmalloc hp n al w = (None, w') \<Longrightarrow> B w \<subseteq> B w'"
    "hp_xmalloc hp n al w = (Some a, w') \<Longrightarrow> a \<notin> B w \<and> a \<notin> P \<and> insert a (B w) \<subseteq> B w'"
    "B w - {a} \<subseteq> B (hp_xfree hp a w)"
proof -
  note h = hp [unfolded heap_ok_def]
  have m: "case hp_xmalloc hp n al w of
        (None, w') \<Rightarrow> B w \<subseteq> B w'
      | (Some a, w') \<Rightarrow> a \<notin> B w \<and> a \<notin> P \<and> insert a (B w) \<subseteq> B w'" for w
    by (rule h [THEN conjunct1, THEN spec, THEN spec, THEN spec])
  show "hp_xmalloc hp n al w = (None, w') \<Longrightarrow> B w \<subseteq> B w'" using m [of w] by simp
  show "hp_xmalloc hp n al w = (Some a, w') \<Longrightarrow> a \<notin> B w \<and> a \<notin> P \<and> insert a (B w) \<subseteq> B w'" using m [of w] by simp
  show "B w - {a} \<subseteq> B (hp_xfree hp a w)" using h [THEN conjunct2] by blast
qed

text \<open>An entry goes back to the pool, or to the heap with its buffer.\<close>

lemma put_cce_cce:
  assumes bk: "cache_backed B P p objs L st" and c: "c \<in> L"
  shows "cce (shfs_cache_put_cce hp c st) = cce st"
proof (cases "ce_pobj (cce st c)")
  case None
  then show ?thesis by (intro ext) (simp add: shfs_cache_put_cce_def cce_def)
next
  case (Some x)
  note B = cache_backedD [OF bk]
  from Some B(7) [OF c] have "x \<in> set objs" "x \<notin> set (pool_free p (cce_pools st))" by auto
  from mempool_put_objs(2) [OF B(2) this B(4)] show ?thesis
    using Some by (intro ext) (simp add: shfs_cache_put_cce_def cce_def)
qed

lemma backed_put:
  assumes bk: "cache_backed B P p objs L st" and hp: "heap_ok hp B P" and c: "c \<in> L"
  shows "cache_backed B P p objs (L - {c}) (shfs_cache_put_cce hp c st)"
    and "cce (shfs_cache_put_cce hp c st) = cce st"
proof -
  note B = cache_backedD [OF bk] and O = own_blocksD [OF cache_backedD(8) [OF bk]]
  let ?s = "shfs_cache_put_cce hp c st"
  have "cache_backed B P p objs (L - {c}) ?s \<and> cce ?s = cce st"
  proof (cases "ce_pobj (cce st c)")
    case None
    let ?b = "ce_buffer (cce st c)" and ?w = "hp_xfree hp c (hp_xfree hp (ce_buffer (cce st c)) (bd_world st))"
    have s: "?s = upd_cc (\<lambda>k. k\<lparr>cc_nb_entries := cc_nb_entries k - 1\<rparr>) (st\<lparr>bd_world := ?w\<rparr>)"
      by (simp add: shfs_cache_put_cce_def None)
    have cce: "cce ?s = cce st" by (rule ext) (simp add: s cce_def upd_cc_def)
    have cG: "c \<in> grown L st" using c None by (simp add: grown_def)
    have G: "grown (L - {c}) ?s = grown L st - {c}" by (auto simp: grown_def cce)
    have w: "B (bd_world st) - {?b, c} \<subseteq> B (bd_world ?s)"
      using heap_okD(3) [OF hp, of "bd_world st" ?b] heap_okD(3) [OF hp, of "hp_xfree hp ?b (bd_world st)" c]
      by (auto simp: s upd_cc_def)
    have "own_blocks (B (bd_world ?s)) P (grown L st - {c}) ?s"
      unfolding own_blocks_def cce
    proof (intro conjI ballI impI)
      show "(grown L st - {c}) \<inter> P = {}" using O(1) by blast
      show "grown L st - {c} \<subseteq> B (bd_world ?s)"
      proof
        fix d assume d: "d \<in> grown L st - {c}"
        then have "d \<in> B (bd_world st)" "d \<noteq> ?b" using O(2) [of d] O(4) [OF cG] by auto
        then show "d \<in> B (bd_world ?s)" using d w by blast
      qed
      fix d assume d: "d \<in> grown L st - {c}"
      have "ce_buffer (cce st d) \<in> B (bd_world st)" "ce_buffer (cce st d) \<noteq> ?b" "ce_buffer (cce st d) \<noteq> c"
        using O(3) [of d] O(5) [of c d] O(4) [of d] d cG by auto
      then show "ce_buffer (cce st d) \<in> B (bd_world ?s)" using w by blast
      show "ce_buffer (cce st d) \<notin> grown L st - {c}" using O(4) [of d] d by blast
      show "e = d" if "e \<in> grown L st - {c}" "ce_buffer (cce st e) = ce_buffer (cce st d)" for e
        using O(5) [of d e] d that by blast
    qed
    moreover have ps: "cce_pools ?s = cce_pools st" "cc_pool (cc ?s) = cc_pool (cc st)" by (simp_all add: s upd_cc_def)
    moreover have "pooled p objs d ?s = pooled p objs d st" for d by (simp add: pooled_def ps cce)
    ultimately show ?thesis using bk by (simp add: cache_backed_def cce G)
  next
    case (Some x)
    then obtain x: "x \<in> set objs" "x \<notin> set (pool_free p (cce_pools st))" "obj_private (mp_objs (cce_pools st) x) = Some c"
      using B(7) [OF c] by auto
    note P = mempool_put_objs [OF B(2) x(1,2) B(4)] and F = pool_free_put [OF B(2) x(1,2)]
    have s: "?s = upd_cc (\<lambda>k. k\<lparr>cc_nb_entries := cc_nb_entries k - 1\<rparr>) (st\<lparr>cce_pools := mempool_put x (cce_pools st)\<rparr>)"
      by (simp add: shfs_cache_put_cce_def Some)
    have cce: "cce ?s = cce st" by (rule ext) (simp add: s cce_def upd_cc_def P(2))
    have po: "pooled p objs d ?s" if d: "d \<in> L - {c}" "ce_pobj (cce st d) \<noteq> None" for d
    proof -
      obtain y where y: "y \<in> set objs" "y \<notin> set (pool_free p (cce_pools st))" "ce_pobj (cce st d) = Some y"
        "obj_private (mp_objs (cce_pools st) y) = Some d" using B(7) [of d] d by blast
      then have "y \<noteq> x" using x(3) d by auto
      moreover have "set (pool_free p (cce_pools ?s)) = insert x (set (pool_free p (cce_pools st)))"
        "mp_objs (cce_pools ?s) = mp_objs (cce_pools st)" using F P by (simp_all add: s upd_cc_def)
      ultimately show ?thesis using y unfolding pooled_def cce by (intro bexI [of _ y]) simp_all
    qed
    have "grown (L - {c}) ?s = grown L st" using Some by (auto simp: grown_def cce)
    moreover have "own_blocks (B (bd_world ?s)) P (grown L st) ?s"
      using B(8) unfolding own_blocks_def cce by (simp add: s upd_cc_def)
    ultimately show ?thesis using B(1-6) F(1) P po
      by (simp add: cache_backed_def cce) (simp add: s upd_cc_def)
  qed
  then show "cache_backed B P p objs (L - {c}) ?s" "cce ?s = cce st" by blast+
qed

lemma put_cce_simps:
  "cc (shfs_cache_put_cce hp c st) = (cc st)\<lparr>cc_nb_entries := cc_nb_entries (cc st) - 1\<rparr>"
  "cce_al (shfs_cache_put_cce hp c st) = cce_al st" "cce_cl (shfs_cache_put_cce hp c st) = cce_cl st"
  by (simp_all add: shfs_cache_put_cce_def upd_cc_def split: option.split)

lemma inv_put:
  assumes inv: "cache_inv B P ok p objs N R X D st" and hp: "heap_ok hp B P" and c: "c \<in> D" "ce_refcount (cce st c) = 0"
  shows "cache_inv B P ok p objs N R X (D - {c}) (shfs_cache_put_cce hp c st)"
proof -
  obtain al hs where a: "cache_shape ok al hs st" "cache_entries N R (set al) hs X D st"
    "cache_backed B P p objs (members hs \<union> X \<union> D) st" "cache_counts (members hs \<union> X \<union> D) st"
    using inv by (rule cache_invE)
  note E = cache_entriesD [OF a(2)]
  let ?L = "members hs \<union> X \<union> D" and ?L' = "members hs \<union> X \<union> (D - {c})" and ?s = "shfs_cache_put_cce hp c st"
  have L: "?L' = ?L - {c}" "c \<in> ?L" using E(4,5) c(1) by blast+
  note P = backed_put [OF a(3) hp L(2)]
  have hx: "shfs_cache_htindex b ?s = shfs_cache_htindex b st" for b
    by (simp add: shfs_cache_htindex_def put_cce_simps)
  have sh: "cache_shape ok al hs ?s" using a(1) by (simp add: cache_shape_def hx put_cce_simps)
  have "cache_entries N R (set al) hs X (D - {c}) st"
    by (rule cache_entries_sets [OF a(2)]) (use E(2-8) c in auto)
  then have e: "cache_entries N R (set al) hs X (D - {c}) ?s"
    unfolding cache_entries_def P(2) hx .
  have "{d \<in> ?L - {c}. ce_refcount (cce st d) \<noteq> 0} = {d \<in> ?L. ce_refcount (cce st d) \<noteq> 0}" using c(2) by auto
  moreover have "of_nat (card ?L) = of_nat (card (?L - {c})) + (1 :: u64)"
    using card.remove [OF finite_live [OF a(2)] L(2)] by simp
  ultimately have "cache_counts ?L' ?s"
    using a(4) unfolding cache_counts_def P(2) L(1) by (simp add: put_cce_simps)
  then show ?thesis using cache_invI [OF sh e] P(1) L(1) by simp
qed

text \<open>A new entry, from the pool or, when that is empty, from the heap.\<close>

lemma own_blocks_insert:
  assumes O: "own_blocks Bs P G st" and Bs: "Bs \<subseteq> Bs'" and c: "c \<notin> Bs" "c \<notin> P" "c \<in> Bs'"
    and b: "buf \<notin> Bs" "buf \<in> Bs'" "buf \<noteq> c"
    and e: "ce_buffer (cce st' c) = buf" "\<And>d. d \<in> G \<Longrightarrow> ce_buffer (cce st' d) = ce_buffer (cce st d)"
  shows "own_blocks Bs' P (insert c G) st'"
  unfolding own_blocks_def
proof (intro conjI ballI impI)
  note O = own_blocksD [OF O]
  show "insert c G \<inter> P = {}" "insert c G \<subseteq> Bs'" using O(1,2) c Bs by blast+
  fix d assume d: "d \<in> insert c G"
  show "ce_buffer (cce st' d) \<in> Bs'" using O(3) [of d] d b e Bs by auto
  have "ce_buffer (cce st' d) \<noteq> c" using O(3) [of d] d b(3) e c(1) by auto
  moreover have "ce_buffer (cce st' d) \<notin> G" using O(2) O(4) [of d] d b(1) e by auto
  ultimately show "ce_buffer (cce st' d) \<notin> insert c G" by blast
  show "x = d" if "x \<in> insert c G" "ce_buffer (cce st' x) = ce_buffer (cce st' d)" for x
    using O(3) [of d] O(3) [of x] O(5) [of d x] d that b(1) e by auto
qed

lemma pick_fresh:
  assumes bk: "cache_backed B P p objs L st" and hp: "heap_ok hp B P" and pick: "shfs_cache_pick_cce hp st = (r, st')"
  shows "case r of
      None \<Rightarrow> aiost.more st' = aiost.more st \<and> B (bd_world st) \<subseteq> B (bd_world st')
    | Some c \<Rightarrow> c \<notin> L \<and> cache_backed B P p objs (insert c L) st' \<and>
        ce_refcount (cce st' c) = 0 \<and> ce_t (cce st' c) = None \<and> (\<forall>d. d \<noteq> c \<longrightarrow> cce st' d = cce st d) \<and>
        cce_al st' = cce_al st \<and> cce_cl st' = cce_cl st \<and> cc st' = (cc st)\<lparr>cc_nb_entries := cc_nb_entries (cc st) + 1\<rparr>"
proof -
  note B = cache_backedD [OF bk] and O = own_blocksD [OF cache_backedD(8) [OF bk]]
  let ?P = "cce_pools st"
  have same: "st\<lparr>cce_pools := ?P\<rparr> = st" by simp
  show ?thesis
  proof (cases "pool_free p ?P")
    case Nil
    from mempool_pick_None [OF B(2) Nil] have pk: "mempool_pick p ?P = (None, ?P)" .
    obtain r1 w1 where m1: "hp_xmalloc hp (ucast (vol_chunksize st)) (ucast (vol_ioalign st)) (bd_world st) = (r1, w1)" by fastforce
    obtain r2 w2 where m2: "hp_xmalloc hp sizeof_cce MIN_ALIGN w1 = (r2, w2)" by fastforce
    show ?thesis
    proof (cases "hp_grow_threshold hp \<noteq> None \<and> hp_free_mem hp (bd_world st) < the (hp_grow_threshold hp)")
      case True
      then have "r = None \<and> st' = st" using pick pk B(1) by (auto simp: shfs_cache_pick_cce_def Let_def same)
      then show ?thesis by simp
    next
      case False
      then have nt: "\<not> (case hp_grow_threshold hp of None \<Rightarrow> False | Some t \<Rightarrow> hp_free_mem hp (bd_world st) < t)"
        by (auto split: option.splits)
      note pick = pick [unfolded shfs_cache_pick_cce_def B(1) option.case pk Let_def prod.case same]
      show ?thesis
      proof (cases r1)
        case None
        then have "r = None \<and> st' = st\<lparr>bd_world := w1\<rparr>" using pick nt m1 by simp
        then show ?thesis using heap_okD(1) [OF hp m1 [unfolded None]] by simp
      next
        case (Some buf)
        note M1 = heap_okD(2) [OF hp m1 [unfolded Some]]
        show ?thesis
        proof (cases r2)
          case None
          then have "r = None \<and> st' = st\<lparr>bd_world := hp_xfree hp buf w2\<rparr>" using pick nt m1 m2 Some by simp
          moreover have "B (bd_world st) \<subseteq> B (hp_xfree hp buf w2)"
            using M1 heap_okD(1) [OF hp m2 [unfolded None]] heap_okD(3) [OF hp, of w2 buf] by blast
          ultimately show ?thesis by simp
        next
          case c: (Some c)
          note M2 = heap_okD(2) [OF hp m2 [unfolded c]]
          let ?u = "\<lambda>k :: shfs_cache_entry. k\<lparr>ce_pobj := None, ce_refcount := 0, ce_buffer := buf, ce_invalid := True, ce_t := None,
            ce_aio_first := None, ce_aio_last := None\<rparr>"
          have st': "r = Some c" "st' = upd_cc (\<lambda>k. k\<lparr>cc_nb_entries := cc_nb_entries k + 1\<rparr>) (upd_cce c ?u (st\<lparr>bd_world := w2\<rparr>))"
            using pick nt m1 m2 Some c by simp_all
          have cce: "cce st' = (cce st)(c := ?u (cce st c))" unfolding st'(2) by (rule ext) (simp add: cce_def upd_cc_def upd_cce_def)
          have cB: "c \<notin> B (bd_world st)" "c \<notin> P" using M1 M2 by blast+
          have cL: "c \<notin> L"
          proof
            assume L: "c \<in> L"
            show False
            proof (cases "ce_pobj (cce st c)")
              case None
              then show ?thesis using L cB(1) O(2) [of c] by (simp add: grown_def)
            next
              case (Some y)
              then obtain y where "y \<in> set objs" "obj_private (mp_objs ?P y) = Some c" using B(7) [OF L] by blast
              then show ?thesis using B(6) [of y] cB(2) by auto
            qed
          qed
          have oth: "d \<noteq> c \<Longrightarrow> cce st' d = cce st d" for d by (simp add: cce)
          have ps: "mp_pools (cce_pools st') = mp_pools ?P" "mp_objs (cce_pools st') = mp_objs ?P" "cc_pool (cc st') = cc_pool (cc st)"
            "bd_world st' = w2"
            by (simp_all add: st'(2) upd_cc_def)
          have pf: "pool_free p (cce_pools st') = pool_free p ?P" by (simp add: pool_free_def ps)
          have G: "grown (insert c L) st' = insert c (grown L st)" using cL by (auto simp: grown_def cce)
          have "own_blocks (B (bd_world st')) P (insert c (grown L st)) st'"
          proof (rule own_blocks_insert [OF B(8)])
            show "B (bd_world st) \<subseteq> B (bd_world st')" "c \<in> B (bd_world st')" "buf \<in> B (bd_world st')" "buf \<noteq> c"
              using M1 M2 by (auto simp: ps)
            show "ce_buffer (cce st' d) = ce_buffer (cce st d)" if "d \<in> grown L st" for d using that cL oth [of d] by (cases "d = c") (auto simp: grown_def)
          qed (use M1 cB in \<open>simp_all add: cce\<close>)
          moreover have "pooled p objs d st'" if "d \<in> insert c L" "ce_pobj (cce st' d) \<noteq> None" for d
            using that B(7) [of d] oth [of d] by (cases "d = c") (auto simp: cce pooled_def pf ps)
          moreover have "pool_ok p objs (cce_pools st')" using B(2) by (simp add: pool_ok_def pf ps)
          ultimately have "cache_backed B P p objs (insert c L) st'"
            using B(1,3-6) unfolding cache_backed_def G by (simp add: ps)
          then show ?thesis using cL oth by (simp add: st'(1) cce) (simp add: st'(2) upd_cc_def)
        qed
      qed
    qed
  next
    case (Cons x xs)
    from mempool_pick_Some [OF B(2) Cons] B(3) obtain g where
      g: "mempool_pick p ?P =
      (Some x, ?P\<lparr>mp_objs := (mp_objs ?P)(x := reset_desc (mp_pools ?P p) (mp_objs ?P x)),
         mp_pools := (mp_pools ?P)(p := (mp_pools ?P p)\<lparr>free_objs := g\<rparr>),
         mp_mem := cce_pobj_init x (reset_desc (mp_pools ?P p) (mp_objs ?P x)) (mp_mem ?P)\<rparr>)" (is "_ = (_, ?Q)")
      by auto
    from pool_pick_all [OF B(2) Cons] g have Q: "pool_ok p objs ?Q" "pool_free p ?Q = xs" by auto
    have xo: "x \<in> set objs" "x \<in> set (pool_free p ?P)" "x \<notin> set xs"
      using B(2) Cons by (auto simp: pool_ok_def)
    obtain c where c: "obj_private (mp_objs ?P x) = Some c" "c \<in> P" using B(6) [OF xo(1)] by blast
    have cL: "c \<notin> L"
    proof
      assume L: "c \<in> L"
      show False
      proof (cases "ce_pobj (cce st c)")
        case None
        then show ?thesis using L c(2) O(1) by (auto simp: grown_def)
      next
        case (Some z)
        then obtain y where "y \<in> set objs" "y \<notin> set (pool_free p ?P)"
          "obj_private (mp_objs ?P y) = Some c" using B(7) [OF L] by blast
        then show ?thesis using B(5) xo c unfolding inj_on_def by metis
      qed
    qed
    have pr: "obj_private (mp_objs ?Q y) = obj_private (mp_objs ?P y)" for y by (simp add: reset_desc_def)
    have st': "r = Some c" "st' = upd_cc (\<lambda>k. k\<lparr>cc_nb_entries := cc_nb_entries k + 1\<rparr>) (st\<lparr>cce_pools := ?Q\<rparr>)"
      using pick g B(1) c by (auto simp: shfs_cache_pick_cce_def Let_def reset_desc_def)
    have cce: "cce st' = (cce st)(c := (cce st c)\<lparr>ce_pobj := Some x, ce_refcount := 0,
        ce_buffer := obj_data (reset_desc (mp_pools ?P p) (mp_objs ?P x)),
        ce_invalid := True, ce_t := None, ce_aio_first := None, ce_aio_last := None\<rparr>)"
      by (rule ext) (simp add: st' cce_def upd_cc_def cce_pobj_init_def reset_desc_def c)
    have oth: "d \<noteq> c \<Longrightarrow> cce st' d = cce st d" for d by (simp add: cce)
    have po: "pooled p objs d st'" if d: "d \<in> insert c L" "ce_pobj (cce st' d) \<noteq> None" for d
    proof (cases "d = c")
      case True
      moreover have "obj_private (mp_objs (cce_pools st') x) = Some c" "pool_free p (cce_pools st') = xs"
        using c Q(2) by (simp_all add: st'(2) upd_cc_def reset_desc_def)
      ultimately show ?thesis using xo unfolding pooled_def by (intro bexI [of _ x]) (simp_all add: cce)
    next
      case False
      then obtain y where "y \<in> set objs" "y \<notin> set (pool_free p ?P)" "ce_pobj (cce st d) = Some y"
        "obj_private (mp_objs ?P y) = Some d" using B(7) [of d] d oth [of d] by auto
      moreover have "obj_private (mp_objs (cce_pools st') y) = obj_private (mp_objs ?P y)" "pool_free p (cce_pools st') = xs"
        using Q(2) by (simp_all add: st'(2) upd_cc_def reset_desc_def)
      ultimately show ?thesis using False Cons unfolding pooled_def by (intro bexI [of _ y]) (simp_all add: cce)
    qed
    have G: "grown (insert c L) st' = grown L st" using cL by (auto simp: grown_def cce)
    have "own_blocks (B (bd_world st')) P (grown L st) st'"
    proof -
      have "bd_world st' = bd_world st" by (simp add: st'(2) upd_cc_def)
      moreover have "d \<in> grown L st \<Longrightarrow> cce st' d = cce st d" for d using cL oth [of d] by (cases "d = c") (auto simp: grown_def)
      ultimately show ?thesis using B(8) unfolding own_blocks_def by simp
    qed
    then have "cache_backed B P p objs (insert c L) st'"
      using B Q pr po unfolding cache_backed_def G by (simp add: st'(2) upd_cc_def)
    then show ?thesis using oth cL by (simp add: st'(1) cce) (simp add: st'(2) upd_cc_def)
  qed
qed

lemma inv_pick:
  assumes inv: "cache_inv B P ok p objs N R X D st" and hp: "heap_ok hp B P" and pick: "shfs_cache_pick_cce hp st = (r, st')"
  shows "case r of
      None \<Rightarrow> cache_inv B P ok p objs N R X D st' \<and> cce st' = cce st
    | Some c \<Rightarrow> cache_inv B P ok p objs N R X (insert c D) st' \<and> ce_refcount (cce st' c) = 0 \<and> ce_t (cce st' c) = None \<and>
        c \<notin> X \<and> c \<notin> D"
proof -
  obtain al hs where a: "cache_shape ok al hs st" "cache_entries N R (set al) hs X D st"
    "cache_backed B P p objs (members hs \<union> X \<union> D) st" "cache_counts (members hs \<union> X \<union> D) st"
    using inv by (rule cache_invE)
  note E = cache_entriesD [OF a(2)]
  let ?L = "members hs \<union> X \<union> D"
  note K = pick_fresh [OF a(3) hp pick]
  show ?thesis
  proof (cases r)
    case None
    then have m: "aiost.more st' = aiost.more st" "B (bd_world st) \<subseteq> B (bd_world st')" using K by simp_all
    then have "cce st' = cce st" by (cases st; cases st'; simp add: cce_def fun_eq_iff)
    then show ?thesis using io_stableD [OF cache_inv_stable m inv] None by simp
  next
    case (Some c)
    then have cL: "c \<notin> ?L" and bk: "cache_backed B P p objs (insert c ?L) st'"
      and f: "ce_refcount (cce st' c) = 0" "ce_t (cce st' c) = None"
      and oth: "d \<noteq> c \<Longrightarrow> cce st' d = cce st d"
      and same: "cce_al st' = cce_al st" "cce_cl st' = cce_cl st" "cc st' = (cc st)\<lparr>cc_nb_entries := cc_nb_entries (cc st) + 1\<rparr>" for d
      using K by auto
    have cm: "c \<notin> members hs" "c \<notin> X" "c \<notin> D" using cL by blast+
    have hx: "shfs_cache_htindex b st' = shfs_cache_htindex b st" for b
      by (simp add: same shfs_cache_htindex_def)
    have sh: "cache_shape ok al hs st'" using a(1) by (simp add: cache_shape_def hx same)
    have mo: "d \<in> members hs \<Longrightarrow> cce st' d = cce st d" for d using cm(1) oth by metis
    have e: "cache_entries N R (set al) hs X (insert c D) st'"
    proof (rule cache_entriesI, unfold hx)
      fix i d
      assume d: "i < length hs" "d \<in> set (hs ! i)"
      then have "d \<in> members hs" by (auto simp: members_nth)
      then show "ce_addr (cce st' d) \<noteq> 0 \<and> shfs_cache_htindex (ce_addr (cce st' d)) st = i"
        using E(11) [of d] E(12) [OF d] mo by simp
    next
      have "inj_on (\<lambda>c. ce_addr (cce st' c)) (members hs) = inj_on (\<lambda>c. ce_addr (cce st c)) (members hs)"
        by (rule inj_on_cong) (simp add: mo)
      then show "inj_on (\<lambda>c. ce_addr (cce st' c)) (members hs)" using E(1) by blast
      show "set al = {d \<in> members hs. ce_refcount (cce st' d) = 0} \<union> X"
        using E(2) mo by (metis (mono_tags, lifting) Collect_cong)
      show "d \<in> members hs" if "ce_t (cce st' d) \<noteq> None" for d
        using that E(10) [of d] f oth [of d] by (cases "d = c") simp_all
      show "d \<in> (if b = 0 then insert c D else members hs) \<and> ce_addr (cce st' d) = b \<and> ce_refcount (cce st' d) = n \<and> n \<noteq> 0 \<and> (b = 0 \<longrightarrow> ce_invalid (cce st' d))"
        if "(d, b, n) \<in> R" for d b n using E(14) [OF that] cm oth [of d] by (cases "d = c") (simp_all split: if_splits)
      show "ce_refcount (cce st' d) = 0" if "d \<in> X" for d using E(8) [OF that] oth [of d] cm that by metis
      show "\<not> ce_invalid (cce st' d)" if "d \<in> members hs" "ce_refcount (cce st' d) = 0" "ce_t (cce st' d) = None" for d
        using that E(9) [of d] mo by simp
      show "ce_addr (cce st' d) \<notin> N" if "d \<in> members hs" for d using E(13) [OF that] mo [OF that] by simp
    qed (use E cm in auto)
    have L: "members hs \<union> X \<union> insert c D = insert c ?L" by auto
    have "{d \<in> insert c ?L. ce_refcount (cce st' d) \<noteq> 0} = {d \<in> ?L. ce_refcount (cce st d) \<noteq> 0}"
      using cL oth f(1) by (metis (mono_tags, lifting) Collect_cong insert_iff)
    then have n: "cache_counts (members hs \<union> X \<union> insert c D) st'"
      using a(4) cL finite_live [OF a(2)] unfolding cache_counts_def L by (simp add: same)
    have "cache_inv B P ok p objs N R X (insert c D) st'"
      by (rule cache_invI [OF sh e _ n]) (use bk L in simp)
    then show ?thesis using cm f by (simp add: Some)
  qed
qed

text \<open>An entry that an operation has added to the cache, with its read under way.\<close>

lemma inv_clist_append:
  assumes inv: "cache_inv B P ok p objs N R X D st" and c: "c \<in> X" "ce_addr (cce st c) = a" and a0: "a \<noteq> 0"
    and none: "a \<in> N"
  shows "cache_inv B P ok p objs (N - {a}) R (X - {c}) D
           (on_clist (shfs_cache_htindex a st) (dlist_append c) (upd_cce c (\<lambda>k. k\<lparr>ce_t := Some t\<rparr>) st))"
proof -
  obtain al hs where a: "cache_shape ok al hs st" "cache_entries N R (set al) hs X D st"
    "cache_backed B P p objs (members hs \<union> X \<union> D) st" "cache_counts (members hs \<union> X \<union> D) st"
    using inv by (rule cache_invE)
  note E = cache_entriesD [OF a(2)] and B = cache_backedD [OF a(3)]
  let ?i = "shfs_cache_htindex a st" and ?u = "upd_cce c (\<lambda>k. k\<lparr>ce_t := Some t\<rparr>) st"
  let ?s = "on_clist ?i (dlist_append c) ?u" and ?hs = "hs[shfs_cache_htindex a st := hs ! shfs_cache_htindex a st @ [c]]"
  have i: "?i < length hs" using a(1) by (simp add: cache_shape_def)
  have cm: "c \<notin> members hs" "c \<notin> D" using E(3,5) c(1) by blast+
  have new: "ce_addr (cce st d) \<noteq> a" if "d \<in> members hs" for d
    using E(13) [OF that] none by auto
  have "cache_shape ok al hs ?u" using a(1) by (simp add: cache_shape_def)
  moreover have "c \<in> set al" using E(2) c(1) by blast
  ultimately have sh: "cache_shape ok al ?hs ?s" by (rule cache_shape_clist_append [OF _ cm(1) i])
  note m = members_append [OF i, of c]
  have cce: "cce ?s = (cce st)(c := (cce st c)\<lparr>ce_t := Some t\<rparr>)" by simp
  have hx: "shfs_cache_htindex b ?s = shfs_cache_htindex b st" for b by simp
  have e: "cache_entries (N - {a}) R (set al) ?hs (X - {c}) D ?s"
  proof (rule cache_entriesI, unfold hx m)
    fix j d
    assume d: "j < length ?hs" "d \<in> set (?hs ! j)"
    show "ce_addr (cce ?s d) \<noteq> 0 \<and> shfs_cache_htindex (ce_addr (cce ?s d)) st = j"
    proof (cases "d = c")
      case True
      then have "j = ?i" using d cm(1) by (cases "j = ?i") (auto simp: members_nth)
      then show ?thesis using True c(2) a0 by simp
    next
      case False
      then have "d \<in> set (hs ! j)" "j < length hs" using d by (cases "j = ?i"; auto)+
      then show ?thesis using False E(11) [of d] E(12) [of j d] by (auto simp: members_nth)
    qed
  next
    show "inj_on (\<lambda>d. ce_addr (cce ?s d)) (insert c (members hs))"
    proof (subst inj_on_insert, intro conjI)
      have ad: "ce_addr (cce ?s d) = ce_addr (cce st d)" for d by simp
      show "inj_on (\<lambda>d. ce_addr (cce ?s d)) (members hs)" unfolding ad by (rule E(1))
      show "ce_addr (cce ?s c) \<notin> (\<lambda>d. ce_addr (cce ?s d)) ` (members hs - {c})"
        unfolding ad c(2) using new by blast
    qed
    show "set al = {d \<in> insert c (members hs). ce_refcount (cce ?s d) = 0} \<union> (X - {c})"
      using E(2) E(8) c(1) by auto
    show "d \<in> insert c (members hs)" if "ce_t (cce ?s d) \<noteq> None" for d
      using that E(10) [of d] by (auto split: if_splits)
    show "\<not> ce_invalid (cce ?s d)" if "d \<in> insert c (members hs)" "ce_refcount (cce ?s d) = 0" "ce_t (cce ?s d) = None" for d
      using that E(9) [of d] by (auto split: if_splits)
    show "ce_addr (cce ?s d) \<notin> N - {a}" if "d \<in> insert c (members hs)" for d
      using that E(13) [of d] c(2) by auto
    show "d \<in> (if b = 0 then D else insert c (members hs)) \<and> ce_addr (cce ?s d) = b \<and> ce_refcount (cce ?s d) = n \<and> n \<noteq> 0 \<and> (b = 0 \<longrightarrow> ce_invalid (cce ?s d))"
      if "(d, b, n) \<in> R" for d b n using E(14) [OF that] by auto
  qed (use E cm in auto)
  have L: "members ?hs \<union> (X - {c}) \<union> D = members hs \<union> X \<union> D" using m c(1) by auto
  have r: "ce_refcount (cce ?s d) = ce_refcount (cce st d)" "ce_pobj (cce ?s d) = ce_pobj (cce st d)" for d by simp_all
  have b: "cache_backed B P p objs (members hs \<union> X \<union> D) ?s"
    by (rule cache_backed_cong [OF a(3)]) simp_all
  have n: "cache_counts (members hs \<union> X \<union> D) ?s"
    using a(4) r unfolding cache_counts_def by (simp del: cce_simps)
  show ?thesis by (rule cache_invI [OF sh e], unfold L) (rule b n)+
qed

text \<open>The first or one more reference to a cached entry.\<close>

definition take_ref :: "addr \<Rightarrow> ('w, 'u, 'z) cachest_scheme \<Rightarrow> ('w, 'u, 'z) cachest_scheme" where
  "take_ref c st =
     upd_cce c (\<lambda>k. k\<lparr>ce_refcount := ce_refcount k + 1\<rparr>)
       (if ce_refcount (cce st c) = 0
        then upd_cc (\<lambda>k. k\<lparr>cc_nb_ref_entries := cc_nb_ref_entries k + 1\<rparr>) (on_alist (dlist_unlink c) st)
        else st)"

lemma card_filter_insert:
  "finite L \<Longrightarrow> c \<in> L \<Longrightarrow> \<not> P c \<Longrightarrow> (\<And>d. d \<noteq> c \<Longrightarrow> Q d = P d) \<Longrightarrow> Q c \<Longrightarrow>
   card {d \<in> L. Q d} = Suc (card {d \<in> L. P d})"
proof -
  assume a: "finite L" "c \<in> L" "\<not> P c" "\<And>d. d \<noteq> c \<Longrightarrow> Q d = P d" "Q c"
  then have "Q d \<longleftrightarrow> d = c \<or> P d" for d by (cases "d = c") simp_all
  then have "{d \<in> L. Q d} = insert c {d \<in> L. P d}" using a(2) by auto
  then show ?thesis using a by simp
qed

lemma inv_take_ref:
  assumes a: "cache_shape ok al hs st" "cache_entries N R (set al) hs X D st"
    "cache_backed B P p objs (members hs \<union> X \<union> D) st" "cache_counts (members hs \<union> X \<union> D) st"
    and c: "c \<in> members hs" and max: "ce_refcount (cce st c) + 1 \<noteq> 0"
    and fresh: "\<And>b n. (c, b, n) \<in> R \<Longrightarrow> False"
  shows "cache_inv B P ok p objs N (insert (c, ce_addr (cce st c), ce_refcount (cce st c) + 1) R) X D (take_ref c st)"
proof -
  note E = cache_entriesD [OF a(2)] and B = cache_backedD [OF a(3)]
  let ?s = "take_ref c st" and ?z = "ce_refcount (cce st c) = 0" and ?L = "members hs \<union> X \<union> D"
  have cX: "c \<notin> X" using E(3) c by blast
  have cce: "cce ?s = (cce st)(c := (cce st c)\<lparr>ce_refcount := ce_refcount (cce st c) + 1\<rparr>)"
    by (simp add: take_ref_def)
  have hx: "shfs_cache_htindex b ?s = shfs_cache_htindex b st" for b by (simp add: take_ref_def)
  have ad: "ce_addr (cce ?s d) = ce_addr (cce st d)" for d by (simp add: cce)
  have ca: "c \<in> set al \<longleftrightarrow> ?z" using E(2) c cX by blast
  obtain al' where sh: "cache_shape ok al' hs ?s" and al': "set al' = set al - {c}"
  proof (cases ?z)
    case True
    then obtain al' where "cache_shape ok al' hs (on_alist (dlist_unlink c) st)" "set al' = set al - {c}"
      using cache_shape_alist_unlink [OF a(1)] ca by blast
    then show ?thesis using True by (intro that [of al']) (simp_all add: cache_shape_def take_ref_def)
  next
    case False
    then show ?thesis using a(1) ca by (intro that [of al]) (simp_all add: cache_shape_def take_ref_def)
  qed
  have e: "cache_entries N (insert (c, ce_addr (cce st c), ce_refcount (cce st c) + 1) R) (set al') hs X D ?s"
  proof (rule cache_entriesI, unfold hx)
    fix i d
    assume "i < length hs" "d \<in> set (hs ! i)"
    then show "ce_addr (cce ?s d) \<noteq> 0 \<and> shfs_cache_htindex (ce_addr (cce ?s d)) st = i"
      using E(11) [of d] E(12) [of i d] by (auto simp: cce members_nth)
  next
    show "inj_on (\<lambda>d. ce_addr (cce ?s d)) (members hs)" unfolding ad by (rule E(1))
    have "{d \<in> members hs. ce_refcount (cce ?s d) = 0} = {d \<in> members hs. ce_refcount (cce st d) = 0} - {c}"
      using max by (auto simp: cce)
    then show "set al' = {d \<in> members hs. ce_refcount (cce ?s d) = 0} \<union> X" using E(2) cX al' by auto
    show "d \<in> members hs" if "ce_t (cce ?s d) \<noteq> None" for d
      using that E(10) [of d] c by (auto simp: cce split: if_splits)
    show "\<not> ce_invalid (cce ?s d)" if "d \<in> members hs" "ce_refcount (cce ?s d) = 0" "ce_t (cce ?s d) = None" for d
      using that E(9) [of d] max by (auto simp: cce split: if_splits)
    show "ce_refcount (cce ?s d) = 0" if "d \<in> X" for d using that E(8) cX by (auto simp: cce)
    show "d \<in> (if b = 0 then D else members hs) \<and> ce_addr (cce ?s d) = b \<and> ce_refcount (cce ?s d) = n \<and> n \<noteq> 0 \<and> (b = 0 \<longrightarrow> ce_invalid (cce ?s d))"
      if "(d, b, n) \<in> (insert (c, ce_addr (cce st c), ce_refcount (cce st c) + 1) R)" for d b n
    proof (cases "(d, b, n) \<in> R")
      case True
      then show ?thesis using E(14) [OF True] fresh by (auto simp: cce)
    next
      case False
      then show ?thesis using that c max E(11) [OF c] by (simp add: cce)
    qed
    show "ce_addr (cce ?s d) \<notin> N" if "d \<in> members hs" for d unfolding ad by (rule E(13) [OF that])
  qed (use E in auto)
  have b: "cache_backed B P p objs ?L ?s"
    by (rule cache_backed_cong [OF a(3)]) (simp_all add: take_ref_def)
  have "card {d \<in> ?L. ce_refcount (cce ?s d) \<noteq> 0} = card {d \<in> ?L. ce_refcount (cce st d) \<noteq> 0} + (if ?z then 1 else 0)"
  proof (cases ?z)
    case True
    then show ?thesis using card_filter_insert [OF finite_live [OF a(2)], of c] c max by (simp add: cce)
  next
    case False
    then have "{d \<in> ?L. ce_refcount (cce ?s d) \<noteq> 0} = {d \<in> ?L. ce_refcount (cce st d) \<noteq> 0}" using max by (auto simp: cce)
    then show ?thesis using False by simp
  qed
  then have n: "cache_counts ?L ?s" using a(4) unfolding cache_counts_def by (auto simp: take_ref_def)
  show ?thesis by (rule cache_invI [OF sh e b n])
qed

text \<open>The release of a reference; the last one puts the entry into the available list.\<close>

definition drop_ref :: "addr \<Rightarrow> ('w, 'u, 'z) cachest_scheme \<Rightarrow> fault + ('w, 'u, 'z) cachest_scheme" where
  "drop_ref c st =
     (let st = upd_cce c (\<lambda>k. k\<lparr>ce_refcount := ce_refcount k - 1\<rparr>) st
      in if ce_refcount (cce st c) = 0
         then alist_append c (upd_cc (\<lambda>k. k\<lparr>cc_nb_ref_entries := cc_nb_ref_entries k - 1\<rparr>) st)
         else Inr st)"

lemma inv_drop_ref:
  assumes a: "cache_shape ok al hs st" "cache_entries N R (set al) hs X D st"
    "cache_backed B P p objs (members hs \<union> X \<union> D) st" "cache_counts (members hs \<union> X \<union> D) st"
    and c: "c \<in> members hs" and pos: "ce_refcount (cce st c) \<noteq> 0"
    and ok: "ce_refcount (cce st c) = 1 \<Longrightarrow> ce_t (cce st c) \<noteq> None \<or> \<not> ce_invalid (cce st c)"
    and fresh: "\<And>b n. (c, b, n) \<in> R \<Longrightarrow> False"
    and r: "drop_ref c st = Inr s"
  shows "cache_inv B P ok p objs N R X D s"
proof -
  note E = cache_entriesD [OF a(2)]
  let ?z = "ce_refcount (cce st c) = 1" and ?L = "members hs \<union> X \<union> D"
  have z: "ce_refcount (cce st c) - 1 = 0 \<longleftrightarrow> ?z" by (simp add: right_minus_eq)
  have cX: "c \<notin> X" using E(3) c by blast
  have ca: "c \<notin> set al" using E(2) c cX pos by blast
  let ?d = "upd_cce c (\<lambda>k. k\<lparr>ce_refcount := ce_refcount k - 1\<rparr>) st"
  let ?f = "\<lambda>k. k\<lparr>cc_nb_ref_entries := cc_nb_ref_entries k - 1\<rparr>"
  have s: "s = (if ?z then on_alist (dlist_append c) (upd_cc ?f ?d) else ?d)"
    using r z by (auto simp: drop_ref_def alist_append_def Let_def split: if_splits)
  have cce: "cce s = (cce st)(c := (cce st c)\<lparr>ce_refcount := ce_refcount (cce st c) - 1\<rparr>)"
    by (simp add: s)
  have hx: "shfs_cache_htindex b s = shfs_cache_htindex b st" for b by (simp add: s)
  have ad: "ce_addr (cce s d) = ce_addr (cce st d)" for d by (simp add: cce)
  obtain al' where sh: "cache_shape ok al' hs s" and al': "set al' = set al \<union> (if ?z then {c} else {})"
  proof (cases ?z)
    case True
    have app: "alist_append c (upd_cc ?f ?d) = Inr s" using r z True by (simp add: drop_ref_def)
    have "cache_shape ok al hs (upd_cc ?f ?d)" using a(1) by (simp add: cache_shape_def)
    from cache_shape_alist_append(2) [OF this ca app] obtain al' where
      "cache_shape ok al' hs s" "set al' = insert c (set al)" by blast
    then show ?thesis using True by (intro that [of al']) simp_all
  next
    case False
    then show ?thesis using a(1) by (intro that [of al]) (simp_all add: cache_shape_def s)
  qed
  have e: "cache_entries N R (set al') hs X D s"
  proof (rule cache_entriesI, unfold hx)
    fix i d
    assume "i < length hs" "d \<in> set (hs ! i)"
    then show "ce_addr (cce s d) \<noteq> 0 \<and> shfs_cache_htindex (ce_addr (cce s d)) st = i"
      using E(11) [of d] E(12) [of i d] by (auto simp: cce members_nth)
  next
    show "inj_on (\<lambda>d. ce_addr (cce s d)) (members hs)" unfolding ad by (rule E(1))
    have "{d \<in> members hs. ce_refcount (cce s d) = 0} =
        {d \<in> members hs. ce_refcount (cce st d) = 0} \<union> (if ?z then {c} else {})"
      using pos z c by (auto simp: cce)
    then show "set al' = {d \<in> members hs. ce_refcount (cce s d) = 0} \<union> X" using E(2) al' by auto
    show "d \<in> members hs" if "ce_t (cce s d) \<noteq> None" for d
      using that E(10) [of d] c by (auto simp: cce split: if_splits)
    show "\<not> ce_invalid (cce s d)" if "d \<in> members hs" "ce_refcount (cce s d) = 0" "ce_t (cce s d) = None" for d
      using that E(9) [of d] ok z by (auto simp: cce split: if_splits)
    show "ce_refcount (cce s d) = 0" if "d \<in> X" for d using that E(8) cX by (auto simp: cce)
    show "d \<in> (if b = 0 then D else members hs) \<and> ce_addr (cce s d) = b \<and> ce_refcount (cce s d) = n \<and> n \<noteq> 0 \<and> (b = 0 \<longrightarrow> ce_invalid (cce s d))"
      if "(d, b, n) \<in> R" for d b n using E(14) [OF that] fresh that by (cases "d = c") (auto simp: cce)
    show "ce_addr (cce s d) \<notin> N" if "d \<in> members hs" for d unfolding ad by (rule E(13) [OF that])
  qed (use E in auto)
  have b: "cache_backed B P p objs ?L s"
    by (rule cache_backed_cong [OF a(3)]) (simp_all add: s)
  have "card {d \<in> ?L. ce_refcount (cce st d) \<noteq> 0} = card {d \<in> ?L. ce_refcount (cce s d) \<noteq> 0} + (if ?z then 1 else 0)"
  proof (cases ?z)
    case True
    then show ?thesis
      using card_filter_insert [OF finite_live [OF a(2)], of c "\<lambda>d. ce_refcount (cce s d) \<noteq> 0"] c pos by (simp add: cce)
  next
    case False
    then have "{d \<in> ?L. ce_refcount (cce s d) \<noteq> 0} = {d \<in> ?L. ce_refcount (cce st d) \<noteq> 0}"
      using z pos by (auto simp: cce)
    then show ?thesis using False by simp
  qed
  then have n: "cache_counts ?L s" using a(4) unfolding cache_counts_def by (auto simp: s)
  show ?thesis by (rule cache_invI [OF sh e b n])
qed

text \<open>Fields that the invariant does not look at.\<close>

lemma inv_upd_same:
  assumes inv: "cache_inv B P ok p objs N R X D st"
    and u: "\<And>k. ce_addr (u k) = ce_addr k" "\<And>k. ce_refcount (u k) = ce_refcount k"
      "\<And>k. ce_pobj (u k) = ce_pobj k" "\<And>k. ce_t (u k) = ce_t k" "\<And>k. ce_invalid (u k) = ce_invalid k"
      "\<And>k. ce_buffer (u k) = ce_buffer k"
  shows "cache_inv B P ok p objs N R X D (upd_cce c u st)"
proof -
  have f: "ce_addr (cce (upd_cce c u st) d) = ce_addr (cce st d)"
    "ce_refcount (cce (upd_cce c u st) d) = ce_refcount (cce st d)"
    "ce_pobj (cce (upd_cce c u st) d) = ce_pobj (cce st d)" "ce_t (cce (upd_cce c u st) d) = ce_t (cce st d)"
    "ce_invalid (cce (upd_cce c u st) d) = ce_invalid (cce st d)" for d
    using u by simp_all
  obtain al hs where a: "cache_shape ok al hs st" "cache_entries N R (set al) hs X D st"
    "cache_backed B P p objs (members hs \<union> X \<union> D) st" "cache_counts (members hs \<union> X \<union> D) st"
    using inv by (rule cache_invE)
  have "cache_entries N R (set al) hs X D (upd_cce c u st)"
    using a(2) unfolding cache_entries_def f htindex_simps .
  moreover have "cache_backed B P p objs (members hs \<union> X \<union> D) (upd_cce c u st)"
    by (rule cache_backed_cong [OF a(3)]) (use u in simp_all)
  ultimately show ?thesis using a(1,4)
    by (intro cache_invI [of ok al hs]) (simp_all add: cache_shape_def cache_counts_def f del: cce_simps)
qed

lemma cache_entries_ctx:
  assumes a: "cache_entries N R A hs X D st"
    and M: "\<And>d. d \<in> members hs \<Longrightarrow> ce_addr (cce st d) \<notin> N \<Longrightarrow> ce_addr (cce st d) \<notin> M" and Q: "Q \<subseteq> R"
  shows "cache_entries M Q A hs X D st"
proof -
  note E = cache_entriesD [OF a]
  show ?thesis
  proof (rule cache_entriesI)
    show "ce_addr (cce st d) \<noteq> 0 \<and> shfs_cache_htindex (ce_addr (cce st d)) st = i"
      if "i < length hs" "d \<in> set (hs ! i)" for i d
      using that E(11) [of d] E(12) [of i d] by (auto simp: members_nth)
    show "ce_addr (cce st d) \<notin> M" if "d \<in> members hs" for d using M [OF that E(13) [OF that]] .
    show "d \<in> (if b = 0 then D else members hs) \<and> ce_addr (cce st d) = b \<and> ce_refcount (cce st d) = n \<and> n \<noteq> 0 \<and> (b = 0 \<longrightarrow> ce_invalid (cce st d))"
      if "(d, b, n) \<in> Q" for d b n using E(14) Q that by blast
  qed (assumption | rule E)+
qed

lemma inv_weaken:
  assumes "cache_inv B P ok p objs N R X D st" and "M \<subseteq> N" and "Q \<subseteq> R"
  shows "cache_inv B P ok p objs M Q X D st"
proof -
  obtain al hs where a: "cache_shape ok al hs st" "cache_entries N R (set al) hs X D st"
    "cache_backed B P p objs (members hs \<union> X \<union> D) st" "cache_counts (members hs \<union> X \<union> D) st"
    using assms(1) by (rule cache_invE)
  have "cache_entries M Q (set al) hs X D st" by (rule cache_entries_ctx [OF a(2) _ assms(3)]) (use assms(2) in blast)
  then show ?thesis by (rule cache_invI [OF a(1) _ a(3,4)])
qed

lemma inv_absent:
  assumes "cache_inv B P ok p objs N R X D st" and "shfs_cache_find a st = Some None" and "a \<noteq> 0"
  shows "cache_inv B P ok p objs (insert a N) R X D st"
proof -
  obtain al hs where a: "cache_shape ok al hs st" "cache_entries N R (set al) hs X D st"
    "cache_backed B P p objs (members hs \<union> X \<union> D) st" "cache_counts (members hs \<union> X \<union> D) st"
    using assms(1) by (rule cache_invE)
  have ne: "ce_addr (cce st c) \<noteq> a" if "c \<in> members hs" for c
    using cache_find [OF a(1,2) assms(3)] assms(2) that by auto
  have "cache_entries (insert a N) R (set al) hs X D st"
    by (rule cache_entries_ctx [OF a(2)]) (use ne in auto)
  then show ?thesis by (rule cache_invI [OF a(1) _ a(3,4)])
qed

section \<open>Completions\<close>

text \<open>The I/O of an entry is over; \<open>bad\<close> tells whether it failed.\<close>

lemma at_io_done:
  assumes a: "cache_shape ok al hs st" "cache_entries N R A hs X D st"
    "cache_backed B P p objs L st" "cache_counts L st"
    and ok: "ce_refcount (cce st c) \<noteq> 0 \<or> \<not> bad" and t: "ce_t (cce st c) \<noteq> None"
  defines "s \<equiv> upd_cce c (\<lambda>k. k\<lparr>ce_t := None, ce_invalid := bad\<rparr>) st"
  shows "cache_shape ok al hs s" "cache_entries N R A hs X D s" "cache_backed B P p objs L s" "cache_counts L s"
proof -
  note E = cache_entriesD [OF a(2)]
  have f: "ce_addr (cce s d) = ce_addr (cce st d)" "ce_refcount (cce s d) = ce_refcount (cce st d)"
    "ce_pobj (cce s d) = ce_pobj (cce st d)" for d by (simp_all add: s_def)
  have hx: "shfs_cache_htindex b s = shfs_cache_htindex b st" for b by (simp add: s_def)
  show "cache_entries N R A hs X D s"
  proof (rule cache_entriesI, unfold f hx)
    show "ce_addr (cce st d) \<noteq> 0 \<and> shfs_cache_htindex (ce_addr (cce st d)) st = i"
      if "i < length hs" "d \<in> set (hs ! i)" for i d
      using that E(11) [of d] E(12) [of i d] by (auto simp: members_nth)
    show "\<not> ce_invalid (cce s d)" if "d \<in> members hs" "ce_refcount (cce st d) = 0" "ce_t (cce s d) = None" for d
      using that E(9) [of d] ok by (auto simp: s_def split: if_splits)
    show "d \<in> members hs" if "ce_t (cce s d) \<noteq> None" for d
      using that E(10) [of d] by (auto simp: s_def split: if_splits)
    have cm: "c \<in> members hs" by (rule E(10) [OF t])
    show "d \<in> (if b = 0 then D else members hs) \<and> ce_addr (cce st d) = b \<and> ce_refcount (cce st d) = n \<and> n \<noteq> 0 \<and>
        (b = 0 \<longrightarrow> ce_invalid (cce s d))"
      if "(d, b, n) \<in> R" for d b n
      using E(14) [OF that] E(11) [OF cm] by (cases "d = c") (auto simp: s_def)
  qed (assumption | rule E)+
  show "cache_shape ok al hs s" using a(1) by (simp add: cache_shape_def s_def)
  show "cache_backed B P p objs L s" by (rule cache_backed_cong [OF a(3)]) (simp_all add: s_def)
  show "cache_counts L s" using a(4) by (simp add: cache_counts_def f) (simp add: s_def)
qed

lemma inv_io_done:
  assumes "cache_inv B P ok p objs N R X D st" and "ce_refcount (cce st c) \<noteq> 0 \<or> \<not> bad"
    and "ce_t (cce st c) \<noteq> None"
  shows "cache_inv B P ok p objs N R X D (upd_cce c (\<lambda>k. k\<lparr>ce_t := None, ce_invalid := bad\<rparr>) st)"
proof -
  obtain al hs where a: "cache_shape ok al hs st" "cache_entries N R (set al) hs X D st"
    "cache_backed B P p objs (members hs \<union> X \<union> D) st" "cache_counts (members hs \<union> X \<union> D) st"
    using assms(1) by (rule cache_invE)
  show ?thesis by (rule cache_invI [OF at_io_done [OF a assms(2,3)]])
qed

lemma drop_lists_upd:
  assumes "\<And>k. ce_addr (u k) = ce_addr k"
  shows "drop_lists c (upd_cce c u st) = upd_cce c u (drop_lists c st)"
proof -
  have "ce_addr (cce (upd_cce c u st) c) = ce_addr (cce st c)" using assms by simp
  then show ?thesis
    by (simp add: drop_lists_def on_alist_def on_clist_def upd_cce_def shfs_cache_htindex_def cce_def split: prod.splits)
qed

lemma inv_destroy:
  assumes inv: "cache_inv B P ok p objs N R X D st" and hp: "heap_ok hp B P" and t: "ce_t (cce st c) \<noteq> None" and r: "ce_refcount (cce st c) = 0"
  shows "cache_inv B P ok p objs N R X D (shfs_cache_put_cce hp c
           (drop_lists c (upd_cce c (\<lambda>k. k\<lparr>ce_t := None, ce_invalid := True\<rparr>) st)))"
proof -
  let ?s = "upd_cce c (\<lambda>k. k\<lparr>ce_t := None, ce_invalid := False\<rparr>) st"
  obtain al hs where a: "cache_shape ok al hs st" "cache_entries N R (set al) hs X D st"
    "cache_backed B P p objs (members hs \<union> X \<union> D) st" "cache_counts (members hs \<union> X \<union> D) st"
    using inv by (rule cache_invE)
  have c: "c \<in> members hs" by (rule cache_entriesD(10) [OF a(2) t])
  have d: "cache_inv B P ok p objs N R X (insert c D) (drop_lists c ?s)"
    by (rule inv_drop_lists [OF at_io_done [OF a _ t, of False] c]) (simp_all add: r)
  have cD: "c \<notin> D" using cache_entriesD(4) [OF a(2)] c by blast
  have eq: "upd_cce c (\<lambda>k. k\<lparr>ce_t := None, ce_invalid := True\<rparr>) st =
      upd_cce c (\<lambda>k. k\<lparr>ce_invalid := True\<rparr>) ?s" by (simp add: upd_cce_def cce_def)
  have "cache_inv B P ok p objs N R X (insert c D) (upd_cce c (\<lambda>k. k\<lparr>ce_invalid := True\<rparr>) (drop_lists c ?s))"
    by (rule inv_upd_free [OF d]) (simp_all add: drop_lists_def r)
  from inv_put [OF this hp, of c] show ?thesis
    using cD r unfolding eq by (simp add: drop_lists_upd) (simp add: drop_lists_def)
qed

text \<open>The other callbacks leave the cache alone, and its blocks in use.\<close>

definition cb_quiet ::
    "('w \<Rightarrow> addr set) \<Rightarrow> ('u shfs_aiocb \<Rightarrow> addr \<Rightarrow> ('w, 'u, 'z) cachest_scheme \<Rightarrow> fault + ('w, 'u, 'z) cachest_scheme) \<Rightarrow> bool" where
  "cb_quiet B call \<longleftrightarrow> (\<forall>c t st st'. call c t st = Inr st' \<longrightarrow>
     aiost.more st' = aiost.more st \<and> B (bd_world st) \<subseteq> B (bd_world st'))"

lemma inv_cb_quiet:
  assumes "cb_quiet B call" and "cache_inv B P ok p objs N R X D st" and "call c t st = Inr st'"
  shows "cache_inv B P ok p objs N R X D st'"
  using assms(1,3) io_stableD [OF cache_inv_stable _ _ assms(2), of st'] unfolding cb_quiet_def by simp

lemma inv_quiet:
  fixes st st' :: "('w, 'u, 'z) cachest_scheme"
  assumes "cache_inv B P ok p objs N R X D st" and "aiost.more st' = aiost.more st" and "bd_world st' = bd_world st"
  shows "cache_inv B P ok p objs N R X D st'"
  using io_stableD [OF cache_inv_stable _ _ assms(1), of st'] assms(2,3) by simp

lemma inv_aiocb:
  assumes inv: "cache_inv B P ok p objs N R X D st" and hp: "heap_ok hp B P" and q: "cb_quiet B call"
    and r: "cce_aiocb hp call c t st = Inr st'"
  shows "cache_inv B P ok p objs N R X D st'"
proof -
  obtain ret s1 where t: "ce_t (cce st c) = Some t" and s1: "shfs_aio_finalize t st = Inr (ret, s1)"
    using r by (auto simp: cce_aiocb_def split: if_splits sum.splits)
  have m1: "aiost.more s1 = aiost.more st" "bd_world s1 = bd_world st"
    using s1 by (auto simp: shfs_aio_finalize_def shfs_aio_put_token_def split: if_splits)
  have i1: "cache_inv B P ok p objs N R X D s1" by (rule inv_quiet [OF inv m1])
  have cce1: "cce s1 = cce st" using m1(1) by (cases st; cases s1; simp add: cce_def fun_eq_iff)
  let ?bad = "ret \<noteq> None"
  let ?s2 = "upd_cce c (\<lambda>k. k\<lparr>ce_t := None, ce_invalid := ?bad\<rparr>) s1"
  show ?thesis
  proof (cases "ce_refcount (cce s1 c) = 0 \<and> ?bad")
    case True
    then have "st' = shfs_cache_put_cce hp c (drop_lists c (upd_cce c (\<lambda>k. k\<lparr>ce_t := None, ce_invalid := True\<rparr>) s1))"
      using r t s1 by (auto simp: cce_aiocb_def shfs_cache_unlink_def drop_lists_def Let_def split: if_splits)
    then show ?thesis using inv_destroy [OF i1 hp] True t cce1 by simp
  next
    case False
    let ?s3 = "upd_cce c (\<lambda>k. k\<lparr>ce_aio_first := None, ce_aio_last := None\<rparr>) ?s2"
    have "cache_inv B P ok p objs N R X D ?s2" by (rule inv_io_done [OF i1]) (use False t cce1 in auto)
    then have i3: "cache_inv B P ok p objs N R X D ?s3" by (rule inv_upd_same) simp_all
    have n: "notify_chain call ret (ce_aio_first (cce ?s2 c)) ?s3 = Some (Inr st')"
      using r t s1 False by (auto simp: cce_aiocb_def Let_def split: if_splits option.splits)
    have "case Inr st' :: fault + _ of Inl f \<Rightarrow> True | Inr s \<Rightarrow> cache_inv B P ok p objs N R X D s"
    proof (rule notify_chain_keeps [OF _ n])
      show "cache_inv B P ok p objs N R X D (upd_tok u f s)" if "cache_inv B P ok p objs N R X D s" for u f s
        using that by (rule inv_quiet) (simp_all add: upd_tok_def)
      show "cache_inv B P ok p objs N R X D s'" if "cache_inv B P ok p objs N R X D s" "call d u s = Inr s'" for d u s s'
        by (rule inv_cb_quiet [OF q that])
    qed (rule i3)
    then show ?thesis by simp
  qed
qed

lemma cache_cb_keeps:
  fixes call :: "'u shfs_aiocb \<Rightarrow> addr \<Rightarrow> ('w, 'u, 'z) cachest_scheme \<Rightarrow> fault + ('w, 'u, 'z) cachest_scheme"
  assumes hp: "heap_ok hp B P" and q: "cb_quiet B call"
  shows "cb_keeps (cache_inv B P ok p objs N R X D) (cache_cb hp call)"
  unfolding cb_keeps_def
proof (intro allI impI)
  fix cb t and st st' :: "('w, 'u, 'z) cachest_scheme"
  assume i: "cache_inv B P ok p objs N R X D st" and r: "cache_cb hp call cb t st = Inr st'"
  show "cache_inv B P ok p objs N R X D st'"
  proof (cases cb)
    case (Cce_aiocb c)
    then show ?thesis using r inv_aiocb [OF i hp q] by (simp add: cache_cb_def)
  next
    case (Load_htable_cb a)
    then have "call cb t st = Inr st'" using r by (simp add: cache_cb_def)
    then show ?thesis by (rule inv_cb_quiet [OF q i])
  next
    case (User_aiocb u)
    then have "call cb t st = Inr st'" using r by (simp add: cache_cb_def)
    then show ?thesis by (rule inv_cb_quiet [OF q i])
  qed
qed

section \<open>Operations\<close>

text \<open>An entry from the pool, or an available one that has no I/O in flight.\<close>

definition add_entry :: "'w heap \<Rightarrow> ('w, 'u, 'z) cachest_scheme \<Rightarrow> ((error + addr) \<times> ('w, 'u, 'z) cachest_scheme) option" where
  "add_entry hp st =
     (let (c, st) = shfs_cache_pick_cce hp st
      in case c of
           Some c \<Rightarrow> Some (alist_add c st)
         | None \<Rightarrow>
             (case shfs_cache_idle st of
                None \<Rightarrow> None
              | Some None \<Rightarrow> Some (Inl (Errno EAGAIN), st)
              | Some (Some c) \<Rightarrow> Some (alist_add c (drop_lists c st))))"

lemma shfs_cache_add_eq:
  "shfs_cache_add io hp call a st =
     (case add_entry hp st of
        None \<Rightarrow> None
      | Some (Inl e, st) \<Rightarrow> Some (Inl e, st)
      | Some (Inr c, st) \<Rightarrow>
          let st = upd_cce c (\<lambda>k. k\<lparr>ce_addr := a\<rparr>) st
          in case shfs_aio_chunk io (cache_cb hp call) a 1 False (ce_buffer (cce st c)) (Some (Cce_aiocb c)) st of
               None \<Rightarrow> None
             | Some (Inl (Fault f), st) \<Rightarrow> Some (Inl (Fault f), st)
             | Some (Inl (Errno e), st) \<Rightarrow>
                 Some (Inl (Errno e), shfs_cache_put_cce hp c
                   (on_alist (dlist_unlink c) (upd_cce c (\<lambda>k. k\<lparr>ce_t := None\<rparr>) st)))
             | Some (Inr t, st) \<Rightarrow>
                 Some (Inr c, on_clist (shfs_cache_htindex a st) (dlist_append c)
                   (upd_cce c (\<lambda>k. k\<lparr>ce_t := Some t\<rparr>) st)))"
  unfolding shfs_cache_add_def add_entry_def drop_lists_def ..

lemma inv_alist_add:
  assumes "cache_inv B P ok p objs N R {} (insert c D) st" and "ce_refcount (cce st c) = 0" and "c \<notin> D"
  shows "(\<exists>st'. alist_add c st = (Inr c, st') \<and> cache_inv B P ok p objs N R {c} D st') \<or> (\<exists>f st'. alist_add c st = (Inl (Fault f), st'))"
proof (cases "alist_append c st")
  case (Inl f)
  then show ?thesis by (simp add: alist_add_def)
next
  case (Inr s)
  then show ?thesis using inv_alist_append [OF assms(1) insertI1 assms(2) Inr] assms(3) by (simp add: alist_add_def)
qed

lemma inv_add_entry:
  assumes inv: "cache_inv B P ok p objs N R {} D st" and hp: "heap_ok hp B P" and r: "add_entry hp st = Some (r, st')"
  shows "(\<exists>c. r = Inr c \<and> cache_inv B P ok p objs N R {c} D st' \<and> c \<notin> D) \<or>
    (r = Inl (Errno EAGAIN) \<and> cache_inv B P ok p objs N R {} D st') \<or> (\<exists>f. r = Inl (Fault f))"
proof (cases "shfs_cache_pick_cce hp st")
  case (Pair oc s)
  note P = inv_pick [OF inv hp Pair]
  show ?thesis
  proof (cases oc)
    case (Some c)
    then have i: "cache_inv B P ok p objs N R {} (insert c D) s" "ce_refcount (cce s c) = 0" "c \<notin> D" using P by simp_all
    show ?thesis using inv_alist_add [OF i] i(3) r Pair Some by (auto simp: add_entry_def)
  next
    case None
    then have i: "cache_inv B P ok p objs N R {} D s" using P by simp
    then obtain al hs where a: "cache_shape ok al hs s" "cache_entries N R (set al) hs {} D s"
      "cache_backed B P p objs (members hs \<union> {} \<union> D) s" "cache_counts (members hs \<union> {} \<union> D) s" by (rule cache_invE)
    from cache_idle [OF a(1)] show ?thesis
    proof (elim disjE bexE conjE)
      fix c
      assume c: "c \<in> set al" "ce_t (cce s c) = None" and f: "shfs_cache_idle s = Some (Some c)"
      have m: "c \<in> members hs" and z: "ce_refcount (cce s c) = 0" using cache_entriesD(2) [OF a(2)] c(1) by auto
      have cD: "c \<notin> D" using cache_entriesD(4) [OF a(2)] m by blast
      have d: "cache_inv B P ok p objs N R {} (insert c D) (drop_lists c s)" by (rule inv_drop_lists [OF a m z c(2)])
      have "ce_refcount (cce (drop_lists c s) c) = 0" using z by (simp add: drop_lists_def)
      from inv_alist_add [OF d this cD] show ?thesis using r Pair None f cD by (auto simp: add_entry_def)
    qed (use i r Pair None in \<open>auto simp: add_entry_def\<close>)
  qed
qed

lemma cache_more_eq:
  fixes st st' :: "('w, 'u, 'z) cachest_scheme"
  assumes "aiost.more st' = aiost.more st"
  shows "cce st' = cce st" "cc st' = cc st" "cce_al st' = cce_al st" "cce_cl st' = cce_cl st"
    "shfs_cache_find a st' = shfs_cache_find a st" "shfs_cache_htindex a st' = shfs_cache_htindex a st"
proof -
  show c: "cce st' = cce st" "cc st' = cc st" "cce_al st' = cce_al st" "cce_cl st' = cce_cl st"
    using assms by (cases st; cases st'; simp add: cce_def fun_eq_iff)+
  show h: "shfs_cache_htindex a st' = shfs_cache_htindex a st" by (simp add: shfs_cache_htindex_def c)
  show "shfs_cache_find a st' = shfs_cache_find a st" by (simp add: shfs_cache_find_def c h)
qed

lemma inv_add:
  assumes inv: "cache_inv B P ok p objs {a} R {} D st" and hp: "heap_ok hp B P" and io: "io_keeps B io"
    and q: "cb_quiet B call" and a0: "a \<noteq> 0"
    and r: "shfs_cache_add io hp call a st = Some (r, st')"
  shows "(\<exists>f. r = Inl (Fault f)) \<or> (\<exists>e. r = Inl (Errno e) \<and> cache_inv B P ok p objs {a} R {} D st') \<or>
    (\<exists>c. r = Inr c \<and> cache_inv B P ok p objs {} R {} D st' \<and> ce_refcount (cce st' c) = 0 \<and>
       ce_addr (cce st' c) = a \<and> ce_t (cce st' c) \<noteq> None)"
proof -
  obtain r1 s where ae: "add_entry hp st = Some (r1, s)"
    using r unfolding shfs_cache_add_eq by (cases "add_entry hp st") auto
  from inv_add_entry [OF inv hp ae] show ?thesis
  proof (elim disjE exE conjE)
    assume "r1 = Inl (Errno EAGAIN)" "cache_inv B P ok p objs {a} R {} D s"
    then show ?thesis using r ae unfolding shfs_cache_add_eq by auto
  next
    fix f
    assume "r1 = Inl (Fault f)"
    then show ?thesis using r ae unfolding shfs_cache_add_eq by auto
  next
    fix c
    assume sel: "r1 = Inr c" and i: "cache_inv B P ok p objs {a} R {c} D s" and cD: "c \<notin> D"
    note sel = ae [unfolded sel]
    let ?s = "upd_cce c (\<lambda>k. k\<lparr>ce_addr := a\<rparr>) s"
    obtain al hs where at: "cache_shape ok al hs s" "cache_entries {a} R (set al) hs {c} D s"
      "cache_backed B P p objs (members hs \<union> {c} \<union> D) s" "cache_counts (members hs \<union> {c} \<union> D) s"
      using i by (rule cache_invE)
    have "ce_t (cce s c) = None" using cache_entriesD(3,10) [OF at(2)] by (cases "ce_t (cce s c)") auto
    moreover have "ce_refcount (cce s c) = 0" using cache_entriesD(8) [OF at(2)] by simp
    ultimately have i2: "cache_inv B P ok p objs {a} R {c} D ?s" by (intro inv_upd_free [OF i]) simp_all
    obtain rr s2 where ch: "shfs_aio_chunk io (cache_cb hp call) a 1 False (ce_buffer (cce ?s c))
        (Some (Cce_aiocb c)) ?s = Some (rr, s2)"
      using r unfolding shfs_cache_add_eq sel by (auto simp: Let_def split: option.splits)
    note K = aio_chunk_keeps [OF cache_inv_stable cache_cb_keeps [OF hp q] io ch, of ok p objs "{a}" R "{c}" D]
    show ?thesis
    proof (cases rr)
      case (Inr t)
      then have m: "aiost.more s2 = aiost.more ?s" and w: "B (bd_world ?s) \<subseteq> B (bd_world s2)" using K by simp_all
      note M = cache_more_eq [OF m]
      have i3: "cache_inv B P ok p objs {a} R {c} D s2" by (rule io_stableD [OF cache_inv_stable m w i2])
      have st': "r = Inr c" "st' = on_clist (shfs_cache_htindex a s2) (dlist_append c) (upd_cce c (\<lambda>k. k\<lparr>ce_t := Some t\<rparr>) s2)"
        using r ch Inr unfolding shfs_cache_add_eq sel by (auto simp: Let_def)
      have ca: "ce_addr (cce s2 c) = a" unfolding M(1) by simp
      from inv_clist_append [OF i3 _ ca a0, of t] have "cache_inv B P ok p objs {} R {} D st'" unfolding st' by simp
      moreover have "ce_refcount (cce s2 c) = 0"
        using i3 by (auto simp: cache_inv_def cache_entries_def)
      ultimately show ?thesis using ca by (simp add: st')
    next
      case (Inl e)
      show ?thesis
      proof (cases e)
        case (Fault f)
        then show ?thesis using r ch Inl unfolding shfs_cache_add_eq sel by (auto simp: Let_def)
      next
        case (Errno n)
        then have i3: "cache_inv B P ok p objs {a} R {c} D s2" using K Inl i2 by simp
        let ?s3 = "upd_cce c (\<lambda>k. k\<lparr>ce_t := None\<rparr>) s2"
        have st': "r = Inl (Errno n)" "st' = shfs_cache_put_cce hp c (on_alist (dlist_unlink c) ?s3)"
          using r ch Inl Errno unfolding shfs_cache_add_eq sel by (auto simp: Let_def)
        have z: "ce_refcount (cce s2 c) = 0" using i3 by (auto simp: cache_inv_def cache_entries_def)
        have i4: "cache_inv B P ok p objs {a} R {c} D ?s3" by (rule inv_upd_free [OF i3]) (simp_all add: z)
        have "cache_inv B P ok p objs {a} R {} (insert c D) (on_alist (dlist_unlink c) ?s3)"
          using inv_alist_unlink [OF i4, of c] by simp
        from inv_put [OF this hp, of c] have "cache_inv B P ok p objs {a} R {} (insert c D - {c}) st'"
          unfolding st' using z by simp
        then show ?thesis using cD st'(1) by simp
      qed
    qed
  qed
qed

lemma inv_find:
  assumes "cache_inv B P ok p objs N R X D st" "a \<noteq> 0"
  shows "(\<exists>c. shfs_cache_find a st = Some (Some c) \<and> ce_addr (cce st c) = a) \<or>
    (shfs_cache_find a st = Some None \<and> cache_inv B P ok p objs (insert a N) R X D st)"
proof -
  obtain al hs where "cache_shape ok al hs st" "cache_entries N R (set al) hs X D st" using assms(1) by (rule cache_invE)
  from cache_find [OF this assms(2)] show ?thesis using inv_absent [OF assms(1) _ assms(2)] by blast
qed

lemma inv_readahead_loop:
  assumes hp: "heap_ok hp B P" and io: "io_keeps B io" and q: "cb_quiet B call"
  shows "cache_inv B P ok p objs {} R {} D st \<Longrightarrow> (\<And>i. i \<in> set is \<Longrightarrow> a + of_nat i \<noteq> 0) \<Longrightarrow>
    readahead_loop io hp call a is st = Some (Inr (), st') \<Longrightarrow> cache_inv B P ok p objs {} R {} D st'"
proof (induction "is" arbitrary: st)
  case Nil
  then show ?case by simp
next
  case (Cons i "is")
  let ?a = "a + of_nat i"
  have a0: "?a \<noteq> 0" using Cons.prems(2) by simp
  show ?case
  proof (cases "vol_volsize st \<le> ?a")
    case True
    then show ?thesis using Cons.prems by simp
  next
    case False
    from inv_find [OF Cons.prems(1) a0] show ?thesis
    proof (elim disjE exE conjE)
      fix c
      assume "shfs_cache_find ?a st = Some (Some c)"
      then show ?thesis using Cons.IH [OF Cons.prems(1)] Cons.prems(2,3) False by (simp add: Let_def)
    next
      assume f: "shfs_cache_find ?a st = Some None" and i: "cache_inv B P ok p objs {?a} R {} D st"
      obtain r s where rs: "shfs_cache_add io hp call ?a st = Some (r, s)"
        using Cons.prems(3) False f by (auto simp: Let_def split: option.splits)
      from inv_add [OF i hp io q a0 rs] show ?thesis
      proof (elim disjE exE conjE)
        fix e
        assume "r = Inl (Errno e)" "cache_inv B P ok p objs {?a} R {} D s"
        then show ?thesis using Cons.prems(3) False f rs inv_weaken [of B P ok p objs "{?a}" R "{}" D s "{}" R]
          by (simp add: Let_def)
      next
        fix c
        assume c: "r = Inr c" "cache_inv B P ok p objs {} R {} D s"
        then show ?thesis using Cons.IH [OF c(2)] Cons.prems(2,3) False f rs by (simp add: Let_def)
      qed (use Cons.prems(3) False f rs in \<open>simp add: Let_def\<close>)
    qed
  qed
qed

text \<open>An entry that the search for its chunk finds is a cached one.\<close>

lemma inv_found:
  assumes "cache_inv B P ok p objs N R X D st" and "shfs_cache_find a st = Some (Some c)" and "a \<noteq> 0"
  obtains al hs where "cache_shape ok al hs st" "cache_entries N R (set al) hs X D st"
    "cache_backed B P p objs (members hs \<union> X \<union> D) st" "cache_counts (members hs \<union> X \<union> D) st"
    "c \<in> members hs" "ce_addr (cce st c) = a"
proof -
  obtain al hs where a: "cache_shape ok al hs st" "cache_entries N R (set al) hs X D st"
    "cache_backed B P p objs (members hs \<union> X \<union> D) st" "cache_counts (members hs \<union> X \<union> D) st"
    using assms(1) by (rule cache_invE)
  moreover have "c \<in> members hs" "ce_addr (cce st c) = a"
    using cache_find [OF a(1,2) assms(3)] assms(2) by auto
  ultimately show ?thesis using that by blast
qed

lemma find_member:
  assumes "cache_shape ok al hs st" "cache_entries N R A hs X D st" "c \<in> members hs"
  shows "shfs_cache_find (ce_addr (cce st c)) st = Some (Some c)"
  using cache_find [OF assms(1,2) cache_entriesD(11) [OF assms(2,3)]] assms(3)
    cache_entriesD(1) [OF assms(2)] unfolding inj_on_def by blast

lemma inv_held:
  assumes "cache_inv B P ok p objs N R X D st" and "(c, a, n) \<in> R" and "a \<noteq> 0"
  shows "shfs_cache_find a st = Some (Some c)" "ce_refcount (cce st c) = n" "ce_addr (cce st c) = a" "n \<noteq> 0"
proof -
  obtain al hs where a: "cache_shape ok al hs st" "cache_entries N R (set al) hs X D st"
    using assms(1) by (rule cache_invE)
  from cache_entriesD(14) [OF a(2) assms(2)] assms(3) find_member [OF a, of c]
  show "shfs_cache_find a st = Some (Some c)" "ce_refcount (cce st c) = n" "ce_addr (cce st c) = a" "n \<noteq> 0" by auto
qed

text \<open>References to cached entries apart from the one an operation is about are left open.\<close>

definition only_blank :: "(addr \<times> chk_t \<times> u32) set \<Rightarrow> bool" where
  "only_blank R \<longleftrightarrow> (\<forall>c a n. (c, a, n) \<in> R \<longrightarrow> a = 0)"

lemma upd_tok_cache [simp]:
  "cce (upd_tok t f st) = cce st" "tok (upd_cce c u st) = tok st"
  by (simp_all add: cce_def upd_tok_def tok_def upd_cce_def fun_eq_iff)

lemma chain_append_facts:
  "ce_t (cce (chain_append c t st) d) = ce_t (cce st d)" "ce_aio_last (cce (chain_append c t st) c) = Some t"
  "tk_infly (tok (chain_append c t st) u) = tk_infly (tok st u)" "tk_cb (tok (chain_append c t st) u) = tk_cb (tok st u)"
  by (auto simp: chain_append_def Let_def split: option.split)

lemma inv_chain_append:
  fixes st :: "('w, 'u, 'z) cachest_scheme"
  assumes "cache_inv B P ok p objs N R X D st"
  shows "cache_inv B P ok p objs N R X D (chain_append c t st)"
proof -
  have q: "cache_inv B P ok p objs N R X D s \<Longrightarrow> cache_inv B P ok p objs N R X D (upd_tok u f s)" for s :: "('w, 'u, 'z) cachest_scheme" and u f
    by (erule inv_quiet) (simp_all add: upd_tok_def)
  show ?thesis
    unfolding chain_append_def Let_def
    by (intro inv_upd_same q) (auto split: option.split intro!: q inv_upd_same assms)
qed

lemma inv_readahead:
  assumes "heap_ok hp B P" "io_keeps B io" "cb_quiet B call" "cache_inv B P ok p objs {} R {} D st" "unat a + SHFS_CACHE_READAHEAD < 2 ^ 64"
    and "shfs_cache_readahead io hp call a st = Some (Inr (), st')"
  shows "cache_inv B P ok p objs {} R {} D st'"
proof (rule inv_readahead_loop [OF assms(1-4) _ assms(6) [unfolded shfs_cache_readahead_def]])
  fix i
  assume i: "i \<in> set [1..<SHFS_CACHE_READAHEAD + 1]"
  then have "unat (of_nat i :: u64) = i" by (intro unat_of_nat_less) simp
  then have "unat (a + of_nat i) = unat a + i" using i assms(5) by (subst unat_add_less) simp_all
  then show "a + of_nat i \<noteq> 0" using i by (metis add_is_0 atLeastLessThan_iff not_one_le_zero set_upt unat_0)
qed

lemma aio_submit_more:
  assumes "io_keeps B io"
  shows "aiost.more (shfs_aio_submit io st) = aiost.more st \<and> B (bd_world st) \<subseteq> B (bd_world (shfs_aio_submit io st))"
proof -
  have "aiost.more (fold (\<lambda>i st. blkdev_async_io_submit io (member_bd st i) st) is st) = aiost.more st \<and>
      B (bd_world st) \<subseteq> B (bd_world (fold (\<lambda>i st. blkdev_async_io_submit io (member_bd st i) st) is st))" for "is"
  proof (induction "is" arbitrary: st)
    case (Cons i "is")
    let ?s = "blkdev_async_io_submit io (member_bd st i) st"
    have "aiost.more ?s = aiost.more st" "B (bd_world st) \<subseteq> B (bd_world ?s)"
      using io_keepsD(2) [OF assms] by (simp_all add: blkdev_async_io_submit_def)
    then show ?case using Cons.IH [of ?s] by auto
  qed simp
  then show ?thesis by (simp add: shfs_aio_submit_def)
qed

lemma inv_aread:
  assumes inv: "cache_inv B P ok p objs {} R {} D st" and hp: "heap_ok hp B P" and io: "io_keeps B io"
    and q: "cb_quiet B call" and refs: "\<And>c. ce_refcount (cce st c) + 1 \<noteq> 0"
    and apart: "only_blank R" and room: "unat a + SHFS_CACHE_READAHEAD < 2 ^ 64"
    and r: "shfs_cache_aread io hp call a cb st = Some (r, st')"
  shows "(\<exists>f. r = Inl (Fault f)) \<or> (\<exists>e. r = Inl (Errno e) \<and> cache_inv B P ok p objs {} R {} D st') \<or>
    (\<exists>c t n. r = Inr (c, t) \<and> cache_inv B P ok p objs {} (insert (c, a, n) R) {} D st' \<and> a \<noteq> 0 \<and>
       n = (case shfs_cache_find a st of Some (Some c') \<Rightarrow> ce_refcount (cce st c') + 1 | _ \<Rightarrow> 1) \<and>
       (case t of None \<Rightarrow> shfs_aio_is_done (ce_t (cce st' c)) st'
        | Some t \<Rightarrow> ce_t (cce st' c) \<noteq> None \<and> ce_aio_last (cce st' c) = Some t \<and>
            tk_infly (tok st' t) = 1 \<and> tk_cb (tok st' t) = cb))"
proof (cases "shfs_mounted st \<and> a \<noteq> 0 \<and> a \<le> vol_volsize st")
  case False
  then have "\<exists>e. r = Inl (Errno e) \<and> st' = st" using r
    unfolding shfs_cache_aread_def by (auto split: if_splits simp: not_le)
  then show ?thesis using inv by blast
next
  case True
  then have a0: "a \<noteq> 0" and ok: "shfs_mounted st" "a \<noteq> 0" "\<not> vol_volsize st < a" by (simp_all add: not_less)
  let ?sel = "case shfs_cache_find a st of
                   None \<Rightarrow> None
                 | Some (Some c) \<Rightarrow> Some (Inr c, st)
                 | Some None \<Rightarrow> shfs_cache_add io hp call a st"
  let ?n = "case shfs_cache_find a st of Some (Some c') \<Rightarrow> ce_refcount (cce st c') + 1 | _ \<Rightarrow> 1"
  have sel: "(\<exists>e s. ?sel = Some (Inl e, s) \<and> ((\<exists>f. e = Fault f) \<or> cache_inv B P ok p objs {} R {} D s)) \<or>
      (\<exists>c s. ?sel = Some (Inr c, s) \<and> cache_inv B P ok p objs {} R {} D s \<and> shfs_cache_find a s = Some (Some c) \<and>
         ce_refcount (cce s c) + 1 = ?n \<and> ?n \<noteq> 0) \<or> ?sel = None"
  proof -
    from inv_find [OF inv a0] show ?thesis
    proof (elim disjE exE conjE)
      fix c
      assume "shfs_cache_find a st = Some (Some c)"
      then show ?thesis using inv refs [of c] by simp
    next
      assume f: "shfs_cache_find a st = Some None" and i: "cache_inv B P ok p objs {a} R {} D st"
      show ?thesis
      proof (cases "shfs_cache_add io hp call a st")
        case None
        then show ?thesis using f by simp
      next
        case (Some rs)
        obtain rr s where rs: "rs = (rr, s)" by (cases rs)
        from inv_add [OF i hp io q a0 Some [unfolded rs]] show ?thesis
        proof (elim disjE exE conjE)
          fix e
          assume "rr = Inl (Errno e)" "cache_inv B P ok p objs {a} R {} D s"
          then show ?thesis using f Some rs inv_weaken [of B P ok p objs "{a}" R "{}" D s "{}" R] by simp
        next
          fix c
          assume c: "rr = Inr c" "cache_inv B P ok p objs {} R {} D s" "ce_refcount (cce s c) = 0"
            "ce_addr (cce s c) = a" "ce_t (cce s c) \<noteq> None"
          obtain al hs where h: "cache_shape ok al hs s" "cache_entries {} R (set al) hs {} D s" using c(2) by (rule cache_invE)
          have "shfs_cache_find a s = Some (Some c)"
            using find_member [OF h cache_entriesD(10) [OF h(2) c(5)]] c(4) by simp
          then show ?thesis using c(1-3) f Some rs by simp
        qed (use f Some rs in auto)
      qed
    qed
  qed
  from sel show ?thesis
  proof (elim disjE exE conjE)
    fix e s f
    assume "?sel = Some (Inl e, s)" "e = Fault f"
    then have "r = Inl (Fault f)" using r ok unfolding shfs_cache_aread_def by simp
    then show ?thesis by blast
  next
    fix e s
    assume s: "?sel = Some (Inl e, s)" "cache_inv B P ok p objs {} R {} D s"
    then have "r = Inl e" "st' = s" using r ok unfolding shfs_cache_aread_def by simp_all
    then show ?thesis using s(2) by (cases e) blast+
  next
    assume "?sel = None"
    then show ?thesis using r ok unfolding shfs_cache_aread_def by simp
  next
    fix c s
    assume s: "?sel = Some (Inr c, s)" and i: "cache_inv B P ok p objs {} R {} D s"
      and fc: "shfs_cache_find a s = Some (Some c)" and n: "ce_refcount (cce s c) + 1 = ?n" "?n \<noteq> 0"
    obtain al hs where h: "cache_shape ok al hs s" "cache_entries {} R (set al) hs {} D s"
      "cache_backed B P p objs (members hs \<union> {} \<union> D) s" "cache_counts (members hs \<union> {} \<union> D) s"
      and cm: "c \<in> members hs" "ce_addr (cce s c) = a" using inv_found [OF i fc a0] by blast
    have fresh: "(c, b, n) \<in> R \<Longrightarrow> False" for b n
      using apart [unfolded only_blank_def, rule_format, of c b n] cache_entriesD(14) [OF h(2), of c b n] cm(2) a0 by auto
    have i1: "cache_inv B P ok p objs {} (insert (c, a, ?n) R) {} D (take_ref c s)"
      using inv_take_ref [OF h cm(1) _ fresh] n cm(2) by simp
    have tr: "(let st = (if ce_refcount (cce s c) = 0
                         then upd_cc (\<lambda>k. k\<lparr>cc_nb_ref_entries := cc_nb_ref_entries k + 1\<rparr>)
                                (on_alist (dlist_unlink c) s)
                         else s)
              in upd_cce c (\<lambda>k. k\<lparr>ce_refcount := ce_refcount k + 1\<rparr>) st) = take_ref c s"
      by (simp add: take_ref_def)
    obtain rr s2 where ra: "shfs_cache_readahead io hp call a (take_ref c s) = Some (rr, s2)"
      using r ok s tr unfolding shfs_cache_aread_def by (auto simp: Let_def split: option.splits)
    show ?thesis
    proof (cases rr)
      case (Inl f)
      then show ?thesis using r ok s ra tr unfolding shfs_cache_aread_def by (auto simp: Let_def)
    next
      case (Inr u)
      then have i2: "cache_inv B P ok p objs {} (insert (c, a, ?n) R) {} D s2"
        using inv_readahead [OF hp io q i1 room] ra by simp
      let ?s3 = "shfs_aio_submit io s2"
      have m3: "aiost.more ?s3 = aiost.more s2" "B (bd_world s2) \<subseteq> B (bd_world ?s3)"
        using aio_submit_more [OF io] by blast+
      have i3: "cache_inv B P ok p objs {} (insert (c, a, ?n) R) {} D ?s3" by (rule io_stableD [OF cache_inv_stable m3 i2])
      have rest: "Some (r, st') = (if shfs_aio_is_done (ce_t (cce ?s3 c)) ?s3 then Some (Inr (c, None), ?s3)
                         else case shfs_aio_pick_token ?s3 of
                                (None, st) \<Rightarrow>
                                  (case drop_ref c st of
                                     Inl f \<Rightarrow> Some (Inl (Fault f), upd_cce c (\<lambda>k. k\<lparr>ce_refcount := ce_refcount k - 1\<rparr>) st)
                                   | Inr st \<Rightarrow> Some (Inl (Errno EAGAIN), st))
                              | (Some t, st) \<Rightarrow>
                                  Some (Inr (c, Some t),
                                    chain_append c t (upd_tok t (\<lambda>k. k\<lparr>tk_cb := cb, tk_infly := 1\<rparr>) st)))"
        using r ok s ra tr Inr unfolding shfs_cache_aread_def drop_ref_def Let_def
        by (simp add: if_distrib [of "case_sum _ _"] cong: if_cong option.case_cong prod.case_cong)
      show ?thesis
      proof (cases "shfs_aio_is_done (ce_t (cce ?s3 c)) ?s3")
        case True
        then show ?thesis using rest i3 a0 by auto
      next
        case False
        then have t3: "ce_t (cce ?s3 c) \<noteq> None" by (auto simp: shfs_aio_is_done_def split: option.splits)
        obtain ot s4 where pk: "shfs_aio_pick_token ?s3 = (ot, s4)" by (cases "shfs_aio_pick_token ?s3")
        have m4: "aiost.more s4 = aiost.more ?s3" "bd_world s4 = bd_world ?s3"
          using pk by (auto simp: shfs_aio_pick_token_def Let_def split: prod.splits option.splits)
        note M = cache_more_eq [OF m4(1)]
        have i4: "cache_inv B P ok p objs {} (insert (c, a, ?n) R) {} D s4" by (rule inv_quiet [OF i3 m4])
        note held = inv_held [OF i4 insertI1 a0]
        show ?thesis
        proof (cases ot)
          case None
          have i5: "cache_inv B P ok p objs {} R {} D s4" by (rule inv_weaken [OF i4]) auto
          obtain al hs where g: "cache_shape ok al hs s4" "cache_entries {} R (set al) hs {} D s4"
            "cache_backed B P p objs (members hs \<union> {} \<union> D) s4" "cache_counts (members hs \<union> {} \<union> D) s4"
            "c \<in> members hs" using inv_found [OF i5 held(1) a0] by blast
          show ?thesis
          proof (cases "drop_ref c s4")
            case (Inl f)
            then show ?thesis using rest False pk None by simp
          next
            case (Inr s5)
            have "cache_inv B P ok p objs {} R {} D s5"
              by (rule inv_drop_ref [OF g _ _ fresh Inr]) (use held t3 M in auto)
            then show ?thesis using rest False pk None Inr by simp
          qed
        next
          case (Some t)
          let ?s5 = "upd_tok t (\<lambda>k. k\<lparr>tk_cb := cb, tk_infly := 1\<rparr>) s4"
          have st': "r = Inr (c, Some t)" "st' = chain_append c t ?s5" using rest False pk Some by simp_all
          have "aiost.more ?s5 = aiost.more s4" "bd_world ?s5 = bd_world s4" by (simp_all add: upd_tok_def)
          then have i5: "cache_inv B P ok p objs {} (insert (c, a, ?n) R) {} D ?s5" by (rule inv_quiet [OF i4])
          have "ce_t (cce st' c) = ce_t (cce s4 c)" "ce_aio_last (cce st' c) = Some t"
            "tk_infly (tok st' t) = 1" "tk_cb (tok st' t) = cb"
            unfolding st'(2) by (simp_all add: chain_append_facts)
          then show ?thesis using st'(1) inv_chain_append [OF i5, of c t] a0 t3 M(1) unfolding st'(2) by auto
        qed
      qed
    qed
  qed
qed

text \<open>Blank entries: in no list, with one reference.\<close>

lemma inv_blank_new:
  assumes inv: "cache_inv B P ok p objs N R X D st" and c: "c \<in> D" "ce_refcount (cce st c) = 0" "ce_t (cce st c) = None"
  defines "s \<equiv> upd_cce c (\<lambda>k. k\<lparr>ce_refcount := 1, ce_t := None, ce_addr := 0, ce_invalid := True\<rparr>)
       (upd_cc (\<lambda>k. k\<lparr>cc_nb_ref_entries := cc_nb_ref_entries k + 1\<rparr>) st)"
  shows "cache_inv B P ok p objs N (insert (c, 0, 1) R) X D s"
proof -
  obtain al hs where a: "cache_shape ok al hs st" "cache_entries N R (set al) hs X D st"
    "cache_backed B P p objs (members hs \<union> X \<union> D) st" "cache_counts (members hs \<union> X \<union> D) st"
    using inv by (rule cache_invE)
  note E = cache_entriesD [OF a(2)]
  let ?L = "members hs \<union> X \<union> D"
  have cm: "c \<notin> members hs" "c \<notin> X" using E(4,5) c(1) by blast+
  have oth: "d \<noteq> c \<Longrightarrow> cce s d = cce st d" for d by (simp add: s_def)
  have m: "d \<in> members hs \<Longrightarrow> cce s d = cce st d" for d using cm oth by metis
  have cs: "cce s c = (cce st c)\<lparr>ce_refcount := 1, ce_t := None, ce_addr := 0, ce_invalid := True\<rparr>" by (simp add: s_def)
  have hx: "shfs_cache_htindex b s = shfs_cache_htindex b st" for b by (simp add: s_def)
  have po: "ce_pobj (cce s d) = ce_pobj (cce st d)" for d by (simp add: s_def)
  have "cache_entries N (insert (c, 0, 1) R) (set al) hs X D s"
  proof (rule cache_entriesI, unfold hx)
    fix i d
    assume d: "i < length hs" "d \<in> set (hs ! i)"
    then have "d \<in> members hs" by (auto simp: members_nth)
    then show "ce_addr (cce s d) \<noteq> 0 \<and> shfs_cache_htindex (ce_addr (cce s d)) st = i"
      using m E(11) E(12) [OF d] by simp
  next
    have "inj_on (\<lambda>d. ce_addr (cce s d)) (members hs) = inj_on (\<lambda>d. ce_addr (cce st d)) (members hs)"
      by (rule inj_on_cong) (simp add: m)
    then show "inj_on (\<lambda>d. ce_addr (cce s d)) (members hs)" using E(1) by blast
    show "set al = {d \<in> members hs. ce_refcount (cce s d) = 0} \<union> X"
      using E(2) m by (metis (mono_tags, lifting) Collect_cong)
    show "d \<in> (if b = 0 then D else members hs) \<and> ce_addr (cce s d) = b \<and> ce_refcount (cce s d) = n \<and> n \<noteq> 0 \<and> (b = 0 \<longrightarrow> ce_invalid (cce s d))"
      if "(d, b, n) \<in> insert (c, 0, 1) R" for d b n
    proof (cases "d = c")
      case True
      then have "(d, b, n) = (c, 0, 1)" using that inv_fresh [OF inv c(2)] by blast
      then show ?thesis using c(1) cs by simp
    next
      case False
      then show ?thesis using that E(14) [of d b n] oth by simp
    qed
    show "d \<in> members hs" if "ce_t (cce s d) \<noteq> None" for d
      using that E(10) [of d] oth [of d] cs by (cases "d = c") simp_all
    show "ce_refcount (cce s d) = 0" if "d \<in> X" for d using E(8) [OF that] oth [of d] cm that by metis
    show "\<not> ce_invalid (cce s d)" if "d \<in> members hs" "ce_refcount (cce s d) = 0" "ce_t (cce s d) = None" for d
      using that E(9) [of d] m by simp
    show "ce_addr (cce s d) \<notin> N" if "d \<in> members hs" for d using E(13) [OF that] m [OF that] by simp
  qed (rule E)+
  moreover have "cache_backed B P p objs ?L s" by (rule cache_backed_cong [OF a(3)]) (simp_all add: s_def)
  moreover have "card {d \<in> ?L. ce_refcount (cce s d) \<noteq> 0} = Suc (card {d \<in> ?L. ce_refcount (cce st d) \<noteq> 0})"
    by (rule card_filter_insert [OF finite_live [OF a(2)], of c]) (use c cs oth in auto)
  then have "cache_counts ?L s" using a(4) unfolding cache_counts_def by (simp add: s_def)
  moreover have "cache_shape ok al hs s" using a(1) by (simp add: cache_shape_def hx) (simp add: s_def)
  ultimately show ?thesis by (blast intro: cache_invI)
qed

text \<open>The last reference to an entry in no list goes.\<close>

lemma inv_unref:
  assumes inv: "cache_inv B P ok p objs N R X D st" and cD: "c \<in> D" and c1: "ce_refcount (cce st c) = 1"
  defines "s \<equiv> upd_cc (\<lambda>k. k\<lparr>cc_nb_ref_entries := cc_nb_ref_entries k - 1\<rparr>)
       (upd_cce c (\<lambda>k. k\<lparr>ce_refcount := ce_refcount k - 1\<rparr>) st)"
  shows "cache_inv B P ok p objs N (R - {(c, 0, 1)}) X D s" "ce_refcount (cce s c) = 0"
proof -
  obtain al hs where a: "cache_shape ok al hs st" "cache_entries N R (set al) hs X D st"
    "cache_backed B P p objs (members hs \<union> X \<union> D) st" "cache_counts (members hs \<union> X \<union> D) st"
    using inv by (rule cache_invE)
  note E = cache_entriesD [OF a(2)]
  let ?L = "members hs \<union> X \<union> D"
  have cm: "c \<notin> members hs" "c \<notin> X" using E(4,5) cD by blast+
  have oth: "d \<noteq> c \<Longrightarrow> cce s d = cce st d" for d by (simp add: s_def)
  have m: "d \<in> members hs \<Longrightarrow> cce s d = cce st d" for d using cm oth by metis
  have cs: "cce s c = (cce st c)\<lparr>ce_refcount := 0\<rparr>" by (simp add: s_def c1)
  show "ce_refcount (cce s c) = 0" by (simp add: cs)
  have hx: "shfs_cache_htindex b s = shfs_cache_htindex b st" for b by (simp add: s_def)
  have po: "ce_pobj (cce s d) = ce_pobj (cce st d)" for d by (simp add: s_def)
  have "cache_entries N (R - {(c, 0, 1)}) (set al) hs X D s"
  proof (rule cache_entriesI, unfold hx)
    fix i d
    assume d: "i < length hs" "d \<in> set (hs ! i)"
    then have "d \<in> members hs" by (auto simp: members_nth)
    then show "ce_addr (cce s d) \<noteq> 0 \<and> shfs_cache_htindex (ce_addr (cce s d)) st = i"
      using m E(11) E(12) [OF d] by simp
  next
    have "inj_on (\<lambda>d. ce_addr (cce s d)) (members hs) = inj_on (\<lambda>d. ce_addr (cce st d)) (members hs)"
      by (rule inj_on_cong) (simp add: m)
    then show "inj_on (\<lambda>d. ce_addr (cce s d)) (members hs)" using E(1) by blast
    show "set al = {d \<in> members hs. ce_refcount (cce s d) = 0} \<union> X"
      using E(2) m by (metis (mono_tags, lifting) Collect_cong)
    show "d \<in> (if b = 0 then D else members hs) \<and> ce_addr (cce s d) = b \<and> ce_refcount (cce s d) = n \<and> n \<noteq> 0 \<and> (b = 0 \<longrightarrow> ce_invalid (cce s d))"
      if "(d, b, n) \<in> R - {(c, 0, 1)}" for d b n
    proof (cases "d = c")
      case True
      then have "b = 0" "n = 1" using that E(14) [of d b n] c1 cm by (auto split: if_splits)
      then show ?thesis using that True by simp
    next
      case False
      then show ?thesis using that E(14) [of d b n] oth by simp
    qed
    show "d \<in> members hs" if "ce_t (cce s d) \<noteq> None" for d
      using that E(10) [of d] oth [of d] cs by (cases "d = c") simp_all
    show "ce_refcount (cce s d) = 0" if "d \<in> X" for d using E(8) [OF that] oth [of d] cm that by metis
    show "\<not> ce_invalid (cce s d)" if "d \<in> members hs" "ce_refcount (cce s d) = 0" "ce_t (cce s d) = None" for d
      using that E(9) [of d] m by simp
    show "ce_addr (cce s d) \<notin> N" if "d \<in> members hs" for d using E(13) [OF that] m [OF that] by simp
  qed (rule E)+
  moreover have "cache_backed B P p objs ?L s" by (rule cache_backed_cong [OF a(3)]) (simp_all add: s_def)
  moreover have "card {d \<in> ?L. ce_refcount (cce st d) \<noteq> 0} = Suc (card {d \<in> ?L. ce_refcount (cce s d) \<noteq> 0})"
    by (rule card_filter_insert [OF finite_live [OF a(2)], of c]) (use cD c1 cs oth in auto)
  then have "cache_counts ?L s" using a(4) unfolding cache_counts_def by (simp add: s_def)
  moreover have "cache_shape ok al hs s" using a(1) by (simp add: cache_shape_def hx) (simp add: s_def)
  ultimately show "cache_inv B P ok p objs N (R - {(c, 0, 1)}) X D s" by (blast intro: cache_invI)
qed

lemma inv_eblank:
  assumes inv: "cache_inv B P ok p objs {} R {} D st" and hp: "heap_ok hp B P"
    and r: "shfs_cache_eblank hp st = Some (r, st')"
  shows "(\<exists>e. r = Inl e \<and> ((\<exists>f. e = Fault f) \<or> cache_inv B P ok p objs {} R {} D st')) \<or>
    (\<exists>c. r = Inr c \<and> c \<notin> D \<and> cache_inv B P ok p objs {} (insert (c, 0, 1) R) {} (insert c D) st')"
proof (cases "shfs_mounted st")
  case False
  then show ?thesis using r inv by (auto simp: shfs_cache_eblank_def)
next
  case True
  let ?fin = "\<lambda>c s. upd_cce c (\<lambda>k. k\<lparr>ce_refcount := 1, ce_t := None, ce_addr := 0, ce_invalid := True\<rparr>)
       (upd_cc (\<lambda>k. k\<lparr>cc_nb_ref_entries := cc_nb_ref_entries k + 1\<rparr>) s)"
  obtain oc s where pk: "shfs_cache_pick_cce hp st = (oc, s)" by (cases "shfs_cache_pick_cce hp st")
  note P = inv_pick [OF inv hp pk]
  show ?thesis
  proof (cases oc)
    case (Some c)
    then have i: "cache_inv B P ok p objs {} R {} (insert c D) s" and z: "ce_refcount (cce s c) = 0" "ce_t (cce s c) = None"
      and cD: "c \<notin> D" using P by simp_all
    have "r = Inr c" "st' = ?fin c s" using r True pk Some by (simp_all add: shfs_cache_eblank_def)
    then show ?thesis using inv_blank_new [OF i insertI1 z] cD by blast
  next
    case None
    then have i: "cache_inv B P ok p objs {} R {} D s" using P by simp
    then obtain al hs where a: "cache_shape ok al hs s" "cache_entries {} R (set al) hs {} D s"
      "cache_backed B P p objs (members hs \<union> {} \<union> D) s" "cache_counts (members hs \<union> {} \<union> D) s" by (rule cache_invE)
    from cache_idle [OF a(1)] show ?thesis
    proof (elim disjE bexE conjE)
      fix c
      assume c: "c \<in> set al" "ce_t (cce s c) = None" and f: "shfs_cache_idle s = Some (Some c)"
      have m: "c \<in> members hs" and z: "ce_refcount (cce s c) = 0" using cache_entriesD(2) [OF a(2)] c(1) by auto
      have cD: "c \<notin> D" using cache_entriesD(4) [OF a(2)] m by blast
      have d: "cache_inv B P ok p objs {} R {} (insert c D) (drop_lists c s)" by (rule inv_drop_lists [OF a m z c(2)])
      have "shfs_cache_unlink c s = Inr (drop_lists c s)" by (simp add: shfs_cache_unlink_def drop_lists_def z)
      then have st': "r = Inr c" "st' = ?fin c (drop_lists c s)"
        using r True pk None f by (simp_all add: shfs_cache_eblank_def)
      have "cce (drop_lists c s) = cce s" by (simp add: drop_lists_def)
      then show ?thesis using inv_blank_new [OF d insertI1] z c(2) cD st' by auto
    qed (use r True pk None i in \<open>auto simp: shfs_cache_eblank_def\<close>)
  qed
qed

text \<open>
  An entry whose read has failed goes with its last reference. It is in no available list, so that unlinking
  it there clears the head: \<open>ok\<close> is lost.
\<close>

lemma inv_drop_loose:
  assumes a: "cache_shape ok al hs st" "cache_entries N R (set al) hs X D st"
    "cache_backed B P p objs (members hs \<union> X \<union> D) st" "cache_counts (members hs \<union> X \<union> D) st"
    and c: "c \<in> members hs" "ce_refcount (cce st c) \<noteq> 0" "ce_t (cce st c) = None"
    and fresh: "\<And>b n. (c, b, n) \<in> R \<Longrightarrow> False"
  shows "cache_inv B P False p objs N R X (insert c D) (drop_lists c st)"
proof -
  let ?i = "shfs_cache_htindex (ce_addr (cce st c)) st"
  note E = cache_entriesD [OF a(2)]
  obtain i where i: "i < length hs" "c \<in> set (hs ! i)" using c(1) by (auto simp: members_nth)
  have i': "?i = i" by (rule E(12) [OF i])
  let ?hs = "hs[i := remove1 c (hs ! i)]"
  note s1 = cache_shape_clist_unlink [OF a(1) i(2,1)]
  have cX: "c \<notin> X" "c \<notin> D" using E(3,4) c(1) by blast+
  then have "c \<notin> set al" using E(2) c(2) by blast
  then have "cce_al st c = \<lparr>dl_next = None, dl_prev = None\<rparr>" using a(1) c(1) by (simp add: cache_shape_def)
  then have sh: "cache_shape False al ?hs (drop_lists c st)"
    using cache_shape_alist_loose(1) [OF s1(1), of c] by (simp add: drop_lists_def i')
  have cce: "cce (drop_lists c st) = cce st" by (simp add: drop_lists_def)
  have hx: "shfs_cache_htindex b (drop_lists c st) = shfs_cache_htindex b st" for b by (simp add: drop_lists_def)
  have sub: "j < length ?hs \<Longrightarrow> x \<in> set (?hs ! j) \<Longrightarrow> j < length hs \<and> x \<in> set (hs ! j)" for j x
    using set_remove1_subset [of c "hs ! i"] by (cases "j = i") auto
  have live: "members ?hs \<union> X \<union> insert c D = members hs \<union> X \<union> D" using s1(2) c(1) by auto
  have e: "cache_entries N R (set al) ?hs X (insert c D) (drop_lists c st)"
  proof (rule cache_entriesI, unfold cce hx s1(2))
    fix j x
    assume "j < length ?hs" "x \<in> set (?hs ! j)"
    from sub [OF this] show "ce_addr (cce st x) \<noteq> 0 \<and> shfs_cache_htindex (ce_addr (cce st x)) st = j"
      using E(11) E(12) by (auto simp: members_nth)
  next
    show "inj_on (\<lambda>c. ce_addr (cce st c)) (members hs - {c})" by (rule inj_on_subset [OF E(1)]) auto
    show "set al = {x \<in> members hs - {c}. ce_refcount (cce st x) = 0} \<union> X" using E(2) c(2) by auto
    show "x \<in> members hs - {c}" if "ce_t (cce st x) \<noteq> None" for x using E(10) [OF that] that c(3) by auto
    show "x \<in> (if b = 0 then insert c D else members hs - {c}) \<and> ce_addr (cce st x) = b \<and> ce_refcount (cce st x) = n \<and> n \<noteq> 0 \<and> (b = 0 \<longrightarrow> ce_invalid (cce st x))"
      if "(x, b, n) \<in> R" for x b n using E(14) [OF that] fresh that by (auto split: if_splits)
  qed (use E cX in auto)
  have b: "cache_backed B P p objs (members hs \<union> X \<union> D) (drop_lists c st)"
    by (rule cache_backed_cong [OF a(3)]) (simp_all add: drop_lists_def)
  show ?thesis
    by (rule cache_invI [OF sh e], unfold live)
       (use a(4) b in \<open>simp_all add: cache_counts_def drop_lists_def\<close>)
qed

definition unref_entry :: "addr \<Rightarrow> ('w, 'u, 'z) cachest_scheme \<Rightarrow> ('w, 'u, 'z) cachest_scheme" where
  "unref_entry c st =
     upd_cc (\<lambda>k. k\<lparr>cc_nb_ref_entries := cc_nb_ref_entries k - 1\<rparr>) (upd_cce c (\<lambda>k. k\<lparr>ce_refcount := ce_refcount k - 1\<rparr>) st)"

lemma drop_lists_unref: "drop_lists c (unref_entry c st) = unref_entry c (drop_lists c st)"
  by (simp add: drop_lists_def unref_entry_def on_alist_def on_clist_def upd_cce_def upd_cc_def shfs_cache_htindex_def cce_def
      split: prod.splits)

lemma inv_release_failed:
  assumes a: "cache_shape ok al hs st" "cache_entries N R (set al) hs X D st"
    "cache_backed B P p objs (members hs \<union> X \<union> D) st" "cache_counts (members hs \<union> X \<union> D) st"
    and c: "c \<in> members hs" "ce_refcount (cce st c) = 1" "ce_t (cce st c) = None"
    and fresh: "\<And>b n. (c, b, n) \<in> R \<Longrightarrow> False" and hp: "heap_ok hp B P"
    and r: "destroy_invalid hp c (unref_entry c st) = Inr st'"
  shows "cache_inv B P False p objs N R X D st'"
proof -
  note E = cache_entriesD [OF a(2)]
  have cD: "c \<notin> D" using E(4) c(1) by blast
  have "cache_inv B P False p objs N R X (insert c D) (drop_lists c st)"
    by (rule inv_drop_loose [OF a c(1) _ c(3) fresh]) (simp_all add: c(2))
  moreover have "ce_refcount (cce (drop_lists c st) c) = 1" by (simp add: drop_lists_def c(2))
  ultimately have u: "cache_inv B P False p objs N (R - {(c, 0, 1)}) X (insert c D) (unref_entry c (drop_lists c st))"
    "ce_refcount (cce (unref_entry c (drop_lists c st)) c) = 0"
    unfolding unref_entry_def using inv_unref [where c = c and D = "insert c D"] by blast+
  have "ce_addr (cce (unref_entry c st) c) \<noteq> 0" "ce_refcount (cce (unref_entry c st) c) = 0"
    using E(11) [OF c(1)] c(2) by (simp_all add: unref_entry_def)
  then have "st' = shfs_cache_put_cce hp c (drop_lists c (unref_entry c st))"
    using r by (simp add: destroy_invalid_def shfs_cache_unlink_def drop_lists_def)
  then have "st' = shfs_cache_put_cce hp c (unref_entry c (drop_lists c st))" by (simp only: drop_lists_unref)
  moreover have "R - {(c, 0, 1)} = R" using fresh by blast
  ultimately show ?thesis using inv_put [OF u(1) hp insertI1 u(2)] cD by simp
qed

lemma inv_release:
  assumes inv: "cache_inv B P ok p objs {} R {} D st" and hp: "heap_ok hp B P"
    and f: "shfs_cache_find a st = Some (Some c)" "a \<noteq> 0"
    and last: "ce_refcount (cce st c) = 1 \<Longrightarrow> ce_invalid (cce st c) \<Longrightarrow> ce_t (cce st c) = None"
    and apart: "only_blank R"
    and r: "shfs_cache_release hp c st = Inr st'"
  shows "cache_inv B P (ok \<and> \<not> (ce_refcount (cce st c) = 1 \<and> ce_invalid (cce st c))) p objs {} R {} D st'"
proof -
  obtain al hs where h: "cache_shape ok al hs st" "cache_entries {} R (set al) hs {} D st"
    "cache_backed B P p objs (members hs \<union> {} \<union> D) st" "cache_counts (members hs \<union> {} \<union> D) st"
    and cm: "c \<in> members hs" "ce_addr (cce st c) = a" using inv_found [OF inv f] by blast
  have fresh: "(c, b, n) \<in> R \<Longrightarrow> False" for b n
    using apart [unfolded only_blank_def, rule_format, of c b n] cache_entriesD(14) [OF h(2), of c b n] cm(2) f(2) by auto
  have nz: "ce_refcount (cce st c) \<noteq> 0" using r by (auto simp: shfs_cache_release_def)
  show ?thesis
  proof (cases "ce_refcount (cce st c) = 1 \<and> ce_invalid (cce st c)")
    case True
    then have "destroy_invalid hp c (unref_entry c st) = Inr st'"
      using r by (auto simp: shfs_cache_release_def unref_entry_def Let_def split: if_splits)
    from inv_release_failed [OF h cm(1) _ _ fresh hp this] show ?thesis using True last by simp
  next
    case False
    then have "drop_ref c st = Inr st'"
      using r nz by (auto simp: shfs_cache_release_def drop_ref_def Let_def right_minus_eq split: if_splits)
    from inv_drop_ref [OF h cm(1) nz _ fresh this] False show ?thesis by auto
  qed
qed

lemma abort_token_facts:
  fixes st :: "('w, 'u, 'z) cachest_scheme"
  shows "cache_inv B P ok p objs N R X D st \<Longrightarrow> cache_inv B P ok p objs N R X D (abort_token c t st)"
    "ce_addr (cce (abort_token c t st) d) = ce_addr (cce st d)"
    "ce_refcount (cce (abort_token c t st) d) = ce_refcount (cce st d)"
    "ce_invalid (cce (abort_token c t st) d) = ce_invalid (cce st d)"
    "ce_t (cce (abort_token c t st) d) = ce_t (cce st d)"
    "cce_cl (abort_token c t st) = cce_cl st" "cc (abort_token c t st) = cc st"
proof -
  have put: "cce (shfs_aio_put_token u s) = cce s" "cce_cl (shfs_aio_put_token u s) = cce_cl s"
    "cc (shfs_aio_put_token u s) = cc s" for u and s :: "('w, 'u, 'z) cachest_scheme"
    by (simp_all add: shfs_aio_put_token_def cce_def fun_eq_iff)
  have tk: "cce_cl (upd_tok u f s) = cce_cl s" "cc (upd_tok u f s) = cc s" for u f and s :: "('w, 'u, 'z) cachest_scheme"
    by (simp_all add: upd_tok_def)
  have q: "cache_inv B P ok p objs N R X D (upd_tok u f s)" if "cache_inv B P ok p objs N R X D s"
    for s :: "('w, 'u, 'z) cachest_scheme" and u f
    using that by (rule inv_quiet) (simp_all add: upd_tok_def)
  have qp: "cache_inv B P ok p objs N R X D (shfs_aio_put_token u s)" if "cache_inv B P ok p objs N R X D s"
    for s :: "('w, 'u, 'z) cachest_scheme" and u
    using that by (rule inv_quiet) (simp_all add: shfs_aio_put_token_def)
  have ch: "cache_inv B P ok p objs N R X D (chain_unlink c u st)" if "cache_inv B P ok p objs N R X D st" for u
    unfolding chain_unlink_def Let_def by (auto split: option.split intro!: q inv_upd_same that)
  show "cache_inv B P ok p objs N R X D st \<Longrightarrow> cache_inv B P ok p objs N R X D (abort_token c t st)"
    unfolding abort_token_def by (auto split: option.split intro!: qp ch)
  show "ce_addr (cce (abort_token c t st) d) = ce_addr (cce st d)"
    "ce_refcount (cce (abort_token c t st) d) = ce_refcount (cce st d)"
    "ce_invalid (cce (abort_token c t st) d) = ce_invalid (cce st d)"
    "ce_t (cce (abort_token c t st) d) = ce_t (cce st d)"
    "cce_cl (abort_token c t st) = cce_cl st" "cc (abort_token c t st) = cc st"
    by (auto simp: abort_token_def chain_unlink_def put tk Let_def split: option.split)
qed

lemma inv_release_ioabort:
  assumes inv: "cache_inv B P ok p objs {} R {} D st" and hp: "heap_ok hp B P"
    and f: "shfs_cache_find a st = Some (Some c)" "a \<noteq> 0"
    and last: "ce_refcount (cce st c) = 1 \<Longrightarrow> ce_invalid (cce st c) \<Longrightarrow>
      shfs_aio_is_done (ce_t (cce st c)) (abort_token c t st) \<Longrightarrow> ce_t (cce st c) = None"
    and apart: "only_blank R"
    and r: "shfs_cache_release_ioabort hp c t st = Inr st'"
  shows "cache_inv B P (ok \<and> \<not> (ce_refcount (cce st c) = 1 \<and> ce_invalid (cce st c) \<and> ce_t (cce st c) = None)) p objs {} R {} D st'"
proof -
  let ?s = "abort_token c t st"
  note F = abort_token_facts [where st = st and c = c and t = t]
  have i: "cache_inv B P ok p objs {} R {} D ?s" by (rule F(1) [OF inv])
  have f': "shfs_cache_find a ?s = Some (Some c)"
    using f(1) by (simp add: shfs_cache_find_def shfs_cache_htindex_def F)
  obtain al hs where h: "cache_shape ok al hs ?s" "cache_entries {} R (set al) hs {} D ?s"
    "cache_backed B P p objs (members hs \<union> {} \<union> D) ?s" "cache_counts (members hs \<union> {} \<union> D) ?s"
    and cm: "c \<in> members hs" "ce_addr (cce ?s c) = a" using inv_found [OF i f' f(2)] by blast
  have fresh: "(c, b, n) \<in> R \<Longrightarrow> False" for b n
    using apart [unfolded only_blank_def, rule_format, of c b n] cache_entriesD(14) [OF h(2), of c b n] cm(2) f(2) by auto
  have nz: "ce_refcount (cce ?s c) \<noteq> 0" using r by (auto simp: shfs_cache_release_ioabort_def F)
  have dn: "shfs_aio_is_done x (upd_cc g (upd_cce d u s)) = shfs_aio_is_done x s"
    for x g d u and s :: "('w, 'u, 'z) cachest_scheme"
    by (simp add: shfs_aio_is_done_def tok_def upd_cc_def upd_cce_def split: option.split)
  let ?lost = "ce_refcount (cce st c) = 1 \<and> ce_invalid (cce st c) \<and> ce_t (cce st c) = None"
  show ?thesis
  proof (cases ?lost)
    case True
    then have "shfs_aio_is_done (ce_t (cce st c)) s" for s :: "('w, 'u, 'z) cachest_scheme" by (simp add: shfs_aio_is_done_def)
    then have "destroy_invalid hp c (unref_entry c ?s) = Inr st'"
      using r True by (auto simp: shfs_cache_release_ioabort_def unref_entry_def Let_def F split: if_splits)
    from inv_release_failed [OF h cm(1) _ _ fresh hp this] show ?thesis using True F(3,5) by simp
  next
    case False
    then have "drop_ref c ?s = Inr st'"
      using r nz last by (auto simp: shfs_cache_release_ioabort_def drop_ref_def Let_def right_minus_eq F dn split: if_splits)
    from inv_drop_ref [OF h cm(1) nz _ fresh this] False show ?thesis using F(3-5) by auto
  qed
qed

lemma inv_release_blank:
  assumes inv: "cache_inv B P ok p objs {} R {} D st" and hp: "heap_ok hp B P" and c: "(c, 0, 1) \<in> R"
    and r: "shfs_cache_release hp c st = Inr st'"
  shows "cache_inv B P ok p objs {} (R - {(c, 0, 1)}) {} (D - {c}) st'"
proof -
  obtain al hs where a: "cache_shape ok al hs st" "cache_entries {} R (set al) hs {} D st" using inv by (rule cache_invE)
  have b: "c \<in> D" "ce_addr (cce st c) = 0" "ce_refcount (cce st c) = 1" "ce_invalid (cce st c)"
    using cache_entriesD(14) [OF a(2) c] by simp_all
  note O = inv_unref [OF inv b(1,3)]
  have "st' = shfs_cache_put_cce hp c (upd_cc (\<lambda>k. k\<lparr>cc_nb_ref_entries := cc_nb_ref_entries k - 1\<rparr>)
       (upd_cce c (\<lambda>k. k\<lparr>ce_refcount := ce_refcount k - 1\<rparr>) st))"
    using r b by (auto simp: shfs_cache_release_def destroy_invalid_def Let_def split: if_splits)
  then show ?thesis using inv_put [OF O(1) hp b(1) O(2)] by simp
qed

end
