(* ===== verification/CacheProps.thy ===== *)
theory CacheProps
  imports Prelude DList Mempool ShfsDefs Blkdev Aio Cache AvailList CacheInv
begin

text \<open>
  The properties of the chunk cache: the states its operations reach from an allocated cache,
  what a read hands out, and what the release of an entry whose read has failed does.
\<close>

section \<open>The allocated cache\<close>

definition cache_start ::
    "('w \<Rightarrow> addr set) \<Rightarrow> addr set \<Rightarrow> addr \<Rightarrow> addr list \<Rightarrow> ('w, 'u, 'z) cachest_scheme \<Rightarrow> bool" where
  "cache_start B P p objs st \<longleftrightarrow>
     cc_alist (cc st) = dlist_init_head \<and>
     (\<exists>k < 32. unat (cc_htlen (cc st)) = 2 ^ k) \<and> cc_htmask (cc st) = cc_htlen (cc st) - 1 \<and>
     cc_htable (cc st) = replicate (unat (cc_htlen (cc st))) dlist_init_head \<and>
     cc_nb_entries (cc st) = 0 \<and> cc_nb_ref_entries (cc st) = 0 \<and>
     cache_backed B P p objs {} st \<and> (\<forall>c. ce_t (cce st c) = None)"

lemma cache_start_inv: "cache_start B P p objs st \<Longrightarrow> cache_inv B P True p objs {} {} {} {} st"
proof -
  assume s: "cache_start B P p objs st"
  let ?n = "unat (cc_htlen (cc st))"
  let ?hs = "replicate ?n [] :: addr list list"
  have m: "members ?hs = {}" by (auto simp: members_def)
  obtain k where k: "k < 32" "?n = 2 ^ k" and mask: "cc_htmask (cc st) = cc_htlen (cc st) - 1"
    using s by (auto simp: cache_start_def)
  have "cc_htlen (cc st) \<noteq> 0" using k(2) by auto
  then have "unat (cc_htmask (cc st)) = 2 ^ k - 1" using k(2) mask by (simp add: unat_sub_one)
  then have "shfs_cache_htindex a st < ?n" for a
    unfolding shfs_cache_htindex_def k(2) by (subst unat_and_mask) (assumption, rule mod_less_divisor, simp)
  moreover have "clists (cce_cl st) (cc_htable (cc st)) ?hs"
    using s by (auto simp: cache_start_def clists_def)
  moreover have al: "dl_repr (cce_al st) (cc_alist (cc st)) []" using s by (simp add: cache_start_def)
  moreover have "\<exists>segs. concat segs = [] \<and> segs_ok (cce_al st) (cc_alist (cc st)) segs"
    by (rule exI [of _ "[]"]) (use segs_of_repr [OF al] in simp)
  ultimately have sh: "cache_shape True [] ?hs st" by (simp add: cache_shape_def m)
  have e: "cache_entries {} {} (set []) ?hs {} {} st"
    using s by (auto simp: cache_entries_def m cache_start_def)
  have n: "cache_counts (members ?hs \<union> {} \<union> {}) st" using s by (simp add: cache_counts_def m cache_start_def)
  show ?thesis by (rule cache_invI [OF sh e _ n]) (use s m in \<open>simp add: cache_start_def\<close>)
qed

lemma init_objs_frame:
  "mp_mem (mempool_init_objs ly priv sep None p n i obj st) = mp_mem st \<and>
   obj_pick_func (mp_pools (mempool_init_objs ly priv sep None p n i obj st) q) = obj_pick_func (mp_pools st q) \<and>
   obj_put_func (mp_pools (mempool_init_objs ly priv sep None p n i obj st) q) = obj_put_func (mp_pools st q)"
  by (induction n arbitrary: i obj st)
     (simp_all add: mempool_init_obj_def mempool_reset_obj_def call_obj_func_def free_objs_enqueue_def Let_def
        split: sum.split)

lemma log2_64: "log2 64 = 6"
  by (simp add: log2_def log2_loop.simps)

lemma cache_layout:
  "ly_h (mempool_layout nb sz align 0 0 sizeof_cce True) = 88" "ly_p (mempool_layout nb sz align 0 0 sizeof_cce True) = 152"
  "ly_m (mempool_layout nb sz align 0 0 sizeof_cce True) = 56"
  by (simp_all add: mempool_layout_def Let_def align_up_def)

text \<open>\<open>shfs_alloc_cache\<close> with memory for everything ends in such a state.\<close>

lemma alloc_cache_start:
  fixes st :: "('w, 'u, 'z) cachest_scheme"
  assumes null: "chunkcache st = None" and al: "POWER_OF_2 (ucast (vol_ioalign st) :: u64)"
    and order: "unat (shfs_htcollison_order hp st) < 32"
    and mem: "hp_xmalloc hp (sizeof_cache + ucast (push_bit (unat (shfs_htcollison_order hp st)) (1 :: u32)) * sizeof_cache_htel)
      MIN_ALIGN (bd_world st) = (Some q, w)"
    and sl: "length slots = 128" and fits: "unat p + 88 + 64 * 152 < 2 ^ 64"
    and tok: "\<And>c. ce_t (cce st c) = None"
  shows "\<exists>st' objs. shfs_alloc_cache hp (Some p) xd (Some slots) st = (Inr (), st') \<and> cache_start B ((\<lambda>x. x + 56) ` set objs) p objs st' \<and>
    chunkcache st' = Some q \<and> pool_free p (cce_pools st') = objs \<and> length objs = 64 \<and>
    shfs_mounted st' = shfs_mounted st"
proof -
  let ?al = "ucast (vol_ioalign st) :: u64" and ?sz = "ucast (vol_chunksize st) :: u64"
  let ?ly = "mempool_layout 64 ?sz ?al 0 0 sizeof_cce True"
  let ?objs = "pool_addrs (p + 88) 152 64" and ?st = "st\<lparr>bd_world := w\<rparr>"
  let ?len = "push_bit (unat (shfs_htcollison_order hp st)) (1 :: u32)"
  have u: "unat (p + 88) = unat p + 88" using fits by (subst unat_add_less) simp_all
  then have d: "distinct ?objs" by (intro distinct_pool_addrs) (use fits in simp_all)
  have l: "length slots = unat (push_bit (unat (log2 64 + 1)) (1 :: u32))" using sl by (simp add: log2_64)
  have d': "distinct (pool_addrs (p + ly_h ?ly) (if True then ly_p ?ly else ly_o ?ly) (unat (64 :: u32)))"
    using d by (simp add: cache_layout)
  have objs: "pool_addrs (p + ly_h ?ly) (if True then ly_p ?ly else ly_o ?ly) (unat (64 :: u32)) = ?objs"
    by (simp add: cache_layout)
  have nb: "(64 :: u32) < 2 ^ 31" by simp
  have "\<exists>ps (P :: (addr \<Rightarrow> shfs_cache_entry) mempool). alloc_enhanced_mempool (Some p) xd (Some slots) 64 ?sz ?al 0 0 sizeof_cce True
      None (Some cce_pobj_init) None (cce_pools st) = Inr (p, ps) \<and> pool_ok p ?objs ps \<and> pool_free p ps = ?objs \<and>
      (\<forall>j < unat (64 :: u32). mp_objs ps (?objs ! j) = pool_desc ?ly sizeof_cce True P p j (?objs ! j))"
    using alloc_pool_state [OF disjI2 [OF al] nb l d', where xd = xd and init = None and pick = "Some cce_pobj_init" and put = None
        and st = "cce_pools st"] unfolding objs by (elim exE conjE) blast
  then obtain ps and P :: "(addr \<Rightarrow> shfs_cache_entry) mempool" where ps: "alloc_enhanced_mempool (Some p) xd (Some slots) 64 ?sz ?al 0 0 sizeof_cce True
      None (Some cce_pobj_init) None (cce_pools st) = Inr (p, ps)"
    and ok: "pool_ok p ?objs ps" "pool_free p ps = ?objs"
    and desc: "\<forall>j < unat (64 :: u32). mp_objs ps (?objs ! j) = pool_desc ?ly sizeof_cce True P p j (?objs ! j)"
    by blast
  have fr: "mp_mem ps = mp_mem (cce_pools st)" "obj_pick_func (mp_pools ps p) = Some cce_pobj_init"
    "obj_put_func (mp_pools ps p) = None"
    using ps by (auto simp: alloc_enhanced_mempool_def Let_def init_objs_frame split: if_splits sum.splits)
  have pr: "obj_private (mp_objs ps x) = Some (x + 56)" if x: "x \<in> set ?objs" for x
  proof -
    obtain j where "j < length ?objs" "?objs ! j = x" using x unfolding in_set_conv_nth by blast
    then have "j < 64" "x = ?objs ! j" by (simp_all add: pool_addrs_def del: upt_Suc)
    then show ?thesis using desc by (simp add: pool_desc_def Let_def cache_layout)
  qed
  let ?cc = "\<lparr>cc_pool = Some p, cc_htlen = ?len, cc_htmask = ?len - 1, cc_nb_ref_entries = 0,
      cc_nb_entries = 0, cc_alist = dlist_init_head, cc_htable = replicate (unat ?len) dlist_init_head\<rparr>"
  let ?st' = "?st\<lparr>cce_pools := ps, chunkcache := Some q, cc := ?cc\<rparr>"
  have o: "shfs_htcollison_order hp ?st = shfs_htcollison_order hp st" by (simp add: shfs_htcollison_order_def)
  have "shfs_alloc_cache hp (Some p) xd (Some slots) st = (Inr (), ?st')"
    using null mem ps unfolding shfs_alloc_cache_def Let_def by simp
  moreover have "unat ?len = 2 ^ unat (shfs_htcollison_order hp st)"
  proof -
    have "(2 :: nat) ^ unat (shfs_htcollison_order hp st) < 2 ^ LENGTH(32)"
      using order by (intro power_strict_increasing) simp_all
    from unat_of_nat_less [OF this] show ?thesis by (simp add: push_bit_eq_mult)
  qed
  moreover have "cache_backed B ((\<lambda>x. x + 56) ` set ?objs) p ?objs {} ?st'"
    using ok fr pr by (auto simp: cache_backed_def inj_on_def grown_def own_blocks_def)
  ultimately have "cache_start B ((\<lambda>x. x + 56) ` set ?objs) p ?objs ?st'"
    using order tok fr by (auto simp: cache_start_def cce_def)
  with \<open>shfs_alloc_cache hp (Some p) xd (Some slots) st = (Inr (), ?st')\<close> ok show ?thesis
    by (intro exI [of _ ?st'] exI [of _ ?objs]) (simp add: pool_addrs_def)
qed

section \<open>Reachable states\<close>

text \<open>
  The states a run of reads, blank buffers, releases and aborts reaches from an allocated cache, with any
  completions in between. \<open>D\<close> are the blank entries that have been handed out. \<open>poll\<close> is the completion of
  I/O with all the callbacks, \<open>other\<close> everything else that happens to the devices, the tokens, the
  buffers and the heap, as long as no block of the cache is freed; waiting for a read and finalising its
  token, as \<open>shfs_cache_read\<close> does, are such steps. The flag \<open>ok\<close> is lost at the release or the abort of the
  last reference of an entry that holds no valid data because its read has failed. Such an entry has no
  token of its own any more when its I/O is done, since the poll that completes the I/O also runs
  \<open>_cce_aiocb\<close>; the two steps ask for this. A run that ends in a fault, as a failing assertion or a null
  pointer, is over. Flushing is not a step.
\<close>

inductive cache_reach ::
    "'w blkfront \<Rightarrow> 'w heap \<Rightarrow> ('u shfs_aiocb \<Rightarrow> addr \<Rightarrow> ('w, 'u, 'z) cachest_scheme \<Rightarrow> fault + ('w, 'u, 'z) cachest_scheme) \<Rightarrow>
     ('w \<Rightarrow> addr set) \<Rightarrow> addr set \<Rightarrow> addr \<Rightarrow> addr list \<Rightarrow> bool \<Rightarrow> addr set \<Rightarrow> ('w, 'u, 'z) cachest_scheme \<Rightarrow> bool"
  for io hp call B P p objs where
  start: "cache_start B P p objs st \<Longrightarrow> cache_reach io hp call B P p objs True {} st"
| aread: "cache_reach io hp call B P p objs ok D st \<Longrightarrow> (\<And>c. ce_refcount (cce st c) + 1 \<noteq> 0) \<Longrightarrow>
    unat a + SHFS_CACHE_READAHEAD < 2 ^ 64 \<Longrightarrow> shfs_cache_aread io hp call a cb st = Some (r, st') \<Longrightarrow>
    (\<And>f. r \<noteq> Inl (Fault f)) \<Longrightarrow> cache_reach io hp call B P p objs ok D st'"
| eblank: "cache_reach io hp call B P p objs ok D st \<Longrightarrow> shfs_cache_eblank hp st = Some (Inr c, st') \<Longrightarrow>
    cache_reach io hp call B P p objs ok (insert c D) st'"
| eblank_err: "cache_reach io hp call B P p objs ok D st \<Longrightarrow> shfs_cache_eblank hp st = Some (Inl (Errno e), st') \<Longrightarrow>
    cache_reach io hp call B P p objs ok D st'"
| release: "cache_reach io hp call B P p objs ok D st \<Longrightarrow> shfs_cache_find a st = Some (Some c) \<Longrightarrow> a \<noteq> 0 \<Longrightarrow>
    (ce_refcount (cce st c) = 1 \<Longrightarrow> ce_invalid (cce st c) \<Longrightarrow> ce_t (cce st c) = None) \<Longrightarrow>
    shfs_cache_release hp c st = Inr st' \<Longrightarrow>
    cache_reach io hp call B P p objs (ok \<and> \<not> (ce_refcount (cce st c) = 1 \<and> ce_invalid (cce st c))) D st'"
| release_blank: "cache_reach io hp call B P p objs ok D st \<Longrightarrow> c \<in> D \<Longrightarrow> shfs_cache_release hp c st = Inr st' \<Longrightarrow>
    cache_reach io hp call B P p objs ok (D - {c}) st'"
| ioabort: "cache_reach io hp call B P p objs ok D st \<Longrightarrow> shfs_cache_find a st = Some (Some c) \<Longrightarrow> a \<noteq> 0 \<Longrightarrow>
    (ce_refcount (cce st c) = 1 \<Longrightarrow> ce_invalid (cce st c) \<Longrightarrow>
       shfs_aio_is_done (ce_t (cce st c)) (abort_token c t st) \<Longrightarrow> ce_t (cce st c) = None) \<Longrightarrow>
    shfs_cache_release_ioabort hp c t st = Inr st' \<Longrightarrow>
    cache_reach io hp call B P p objs
      (ok \<and> \<not> (ce_refcount (cce st c) = 1 \<and> ce_invalid (cce st c) \<and> ce_t (cce st c) = None)) D st'"
| poll: "cache_reach io hp call B P p objs ok D st \<Longrightarrow> shfs_poll_blkdevs io (cache_cb hp call) st = Inr st' \<Longrightarrow>
    cache_reach io hp call B P p objs ok D st'"
| other: "cache_reach io hp call B P p objs ok D st \<Longrightarrow> aiost.more st' = aiost.more st \<Longrightarrow>
    B (bd_world st) \<subseteq> B (bd_world st') \<Longrightarrow> cache_reach io hp call B P p objs ok D st'"

definition blanks :: "addr set \<Rightarrow> (addr \<times> chk_t \<times> u32) set" where
  "blanks D = (\<lambda>c. (c, 0, 1)) ` D"

lemma blanks_simps:
  "blanks {} = {}" "blanks (insert c D) = insert (c, 0, 1) (blanks D)" "blanks (D - {c}) = blanks D - {(c, 0, 1)}"
  by (auto simp: blanks_def)

lemma blanks_only: "only_blank (blanks D)"
  by (auto simp: only_blank_def blanks_def)

lemma cache_reach_inv:
  assumes "cache_reach io hp call B P p objs ok D st" and hp: "heap_ok hp B P" and io: "io_keeps B io" and q: "cb_quiet B call"
  shows "cache_inv B P ok p objs {} (blanks D) {} D st"
  using assms(1)
proof (induction rule: cache_reach.induct)
  case (start st)
  then show ?case using cache_start_inv by (simp add: blanks_simps)
next
  case (aread ok D st a cb r st')
  from inv_aread [OF aread.IH hp io q aread(2) blanks_only aread(3,4)] aread(5) show ?case
  proof (elim disjE exE conjE)
    fix c t n
    assume "cache_inv B P ok p objs {} (insert (c, a, n) (blanks D)) {} D st'"
    then show ?thesis by (rule inv_weaken) auto
  qed auto
next
  case (eblank ok D st c st')
  then show ?case using inv_eblank [OF eblank.IH hp eblank(2)] by (auto simp: blanks_simps)
next
  case (eblank_err ok D st e st')
  then show ?case using inv_eblank [OF eblank_err.IH hp eblank_err(2)] by auto
next
  case (release ok D st a c st')
  show ?case by (rule inv_release [OF release.IH hp release(2,3,4) blanks_only release(5)])
next
  case (release_blank ok D st c st')
  have "(c, 0, 1) \<in> blanks D" using release_blank(2) by (simp add: blanks_def)
  from inv_release_blank [OF release_blank.IH hp this release_blank(3)] show ?case by (simp add: blanks_simps)
next
  case (ioabort ok D st a c t st')
  show ?case by (rule inv_release_ioabort [OF ioabort.IH hp ioabort(2,3,4) blanks_only ioabort(5)])
next
  case (poll ok D st st')
  show ?case by (rule poll_blkdevs_keeps [OF cache_inv_stable cache_cb_keeps [OF hp q] io poll.IH poll(2)])
next
  case (other ok D st st')
  show ?case by (rule io_stableD [OF cache_inv_stable other(2,3) other.IH])
qed

section \<open>Consistency\<close>

text \<open>
  C1: in every state that reads, blank buffers, releases and aborts reach, with any completions in between,
  the collision lists hold every cached chunk once, so that the search for a chunk ends and
  finds the one entry that holds it; the available entries are exactly the cached ones without a reference, and
  one with no I/O under way holds valid data; blank entries are in no list; and the two counters are
  the numbers of entries and of entries in use. Until an entry whose read has failed is released, the
  head of the available list holds one list of exactly the available entries; after that they are linked in
  chains, and the head begins with one of these and ends with one, or is empty. The search for an entry to
  evict always ends. Reads with their read-ahead, eviction, growing, failing I/O and aborts are all covered. The
  heap hands out blocks that are not in use, the front end frees no block, the other callbacks leave
  the cache alone, no count of references is at its maximum and no read is within eight chunks of 2^64; flushing
  is not covered.
\<close>

theorem cache_lists_consistent:
  assumes reach: "cache_reach io hp call B P p objs ok D st" and hp: "heap_ok hp B P" and io: "io_keeps B io"
    and q: "cb_quiet B call"
  shows "\<exists>al hs. (\<exists>segs. concat segs = al \<and> segs_ok (cce_al st) (cc_alist (cc st)) segs) \<and>
    (ok \<longrightarrow> dl_repr (cce_al st) (cc_alist (cc st)) al) \<and> clists (cce_cl st) (cc_htable (cc st)) hs \<and>
    set al = {c \<in> members hs. ce_refcount (cce st c) = 0} \<and> D \<inter> members hs = {} \<and>
    (\<forall>c \<in> members hs. shfs_cache_find (ce_addr (cce st c)) st = Some (Some c)) \<and>
    (\<forall>a. a \<noteq> 0 \<longrightarrow> shfs_cache_find a st \<noteq> None) \<and> shfs_cache_idle st \<noteq> None \<and>
    (\<forall>c \<in> set al. ce_t (cce st c) = None \<longrightarrow> \<not> ce_invalid (cce st c)) \<and>
    cc_nb_entries (cc st) = of_nat (card (members hs \<union> D)) \<and>
    cc_nb_ref_entries (cc st) = of_nat (card {c \<in> members hs \<union> D. ce_refcount (cce st c) \<noteq> 0})"
proof -
  obtain al hs where a: "cache_shape ok al hs st" "cache_entries {} (blanks D) (set al) hs {} D st"
    "cache_backed B P p objs (members hs \<union> {} \<union> D) st" "cache_counts (members hs \<union> {} \<union> D) st"
    using cache_reach_inv [OF reach hp io q] by (rule cache_invE)
  note E = cache_entriesD [OF a(2)]
  have "set al = {c \<in> members hs. ce_refcount (cce st c) = 0}" using E(2) by simp
  moreover have "\<forall>c \<in> members hs. shfs_cache_find (ce_addr (cce st c)) st = Some (Some c)"
    using find_member [OF a(1,2)] by blast
  moreover have "\<forall>a. a \<noteq> 0 \<longrightarrow> shfs_cache_find a st \<noteq> None" using cache_find [OF a(1,2)] by fastforce
  moreover have "shfs_cache_idle st \<noteq> None" using cache_idle [OF a(1)] by auto
  moreover have "\<forall>c \<in> set al. ce_t (cce st c) = None \<longrightarrow> \<not> ce_invalid (cce st c)" using E(2,9) by auto
  moreover have "(\<exists>segs. concat segs = al \<and> segs_ok (cce_al st) (cc_alist (cc st)) segs) \<and>
      (ok \<longrightarrow> dl_repr (cce_al st) (cc_alist (cc st)) al) \<and> clists (cce_cl st) (cc_htable (cc st)) hs"
    using a(1) by (simp add: cache_shape_def)
  ultimately show ?thesis
    using a(4) E(4) by (intro exI [of _ al] exI [of _ hs]) (simp add: cache_counts_def)
qed

text \<open>
  A volume with a heap of a hundred blocks, whose blocks in use are the world, and a pool of two objects one
  of which is free; a heap that has nothing left; and a front end that refuses everything.
\<close>

definition list_heap :: "addr list heap" where
  "list_heap = \<lparr>hp_xmalloc = (\<lambda>_ _ w. case find (\<lambda>a. a \<notin> set w) (map of_nat [1000..<1100]) of
       None \<Rightarrow> (None, w) | Some a \<Rightarrow> (Some a, a # w)),
     hp_xfree = (\<lambda>a w. removeAll a w), hp_free_mem = (\<lambda>_. 0x80000),
     hp_total_mem = 0x1000000, hp_grow_threshold = Some 0x40000\<rparr>"

definition sample_heap :: "'w heap" where
  "sample_heap = \<lparr>hp_xmalloc = (\<lambda>_ _ w. (None, w)), hp_xfree = (\<lambda>_ w. w), hp_free_mem = (\<lambda>_. 0),
     hp_total_mem = 0x1000000, hp_grow_threshold = Some 0x40000\<rparr>"

definition no_blkfront :: "'w blkfront" where
  "no_blkfront =
     \<lparr>init_blkfront = (\<lambda>_ w. (None, w)), shutdown_blkfront = (\<lambda>_ w. w),
      blkfront_aio_enqueue = (\<lambda>req a wr w. (Some EIO, w)),
      blkfront_aio_submit = (\<lambda>_ w. w), blkfront_wait_slot = (\<lambda>_ w. w),
      blkfront_aio_poll = (\<lambda>_ w. ([], w)),
      MAX_REQUESTS = 31, PAGE_SIZE = 4096, BLKIF_MAX_SEGMENTS = 11, sizeof_aiocb = 64\<rparr>"

lemma no_blkfront_keeps: "io_keeps B no_blkfront"
  by (simp add: io_keeps_def no_blkfront_def)

lemma list_heap_ok: "heap_ok list_heap set {156, 256}"
proof -
  have f: "a \<notin> set w \<and> a \<notin> {156, 256 :: u64}"
    if "find (\<lambda>a. a \<notin> set w) (map of_nat [1000..<1100]) = Some a" for a w
  proof -
    have "a \<in> set (map of_nat [1000..<1100])" "a \<notin> set w" using that unfolding find_Some_iff by (metis nth_mem)+
    then obtain i where i: "i \<in> set [1000..<1100]" "a = of_nat i" and w: "a \<notin> set w" unfolding set_map by blast
    then have "i < 1100" "1000 \<le> i" unfolding set_upt by simp_all
    moreover from this have "unat a = i" unfolding i(2) by (intro unat_of_nat_less) simp
    ultimately have u: "1000 \<le> unat a" by simp
    have "a \<noteq> 156" "a \<noteq> 256" using u by auto
    then show ?thesis using w by simp
  qed
  show ?thesis
    unfolding heap_ok_def
  proof (intro conjI allI)
    fix n al :: u64 and w :: "addr list"
    show "case hp_xmalloc list_heap n al w of (None, w') \<Rightarrow> set w \<subseteq> set w'
      | (Some a, w') \<Rightarrow> a \<notin> set w \<and> a \<notin> {156, 256} \<and> insert a (set w) \<subseteq> set w'"
      using f [where w = w] unfolding list_heap_def heap.select_convs
      by (cases "find (\<lambda>a. a \<notin> set w) (map of_nat [1000..<1100])") (simp_all only: option.case prod.case option.inject, auto)
    show "set w - {a} \<subseteq> set (hp_xfree list_heap a w)" for a by (auto simp: list_heap_def)
  qed
qed

lemma sample_heap_ok: "heap_ok sample_heap no_blocks P"
  by (simp add: heap_ok_def sample_heap_def)

definition sample_cache :: shfs_cache where
  "sample_cache = \<lparr>cc_pool = Some 0, cc_htlen = 4, cc_htmask = 3, cc_nb_ref_entries = 0, cc_nb_entries = 0,
     cc_alist = dlist_init_head, cc_htable = replicate 4 dlist_init_head\<rparr>"

definition sample_cce :: shfs_cache_entry where
  "sample_cce = \<lparr>ce_pobj = None, ce_addr = 0, ce_refcount = 0, ce_buffer = 0, ce_invalid = True,
     ce_t = None, ce_aio_first = None, ce_aio_last = None\<rparr>"

definition sample_cces :: "(addr \<Rightarrow> shfs_cache_entry) mpstate" where
  "sample_cces =
     \<lparr>mp_objs = (\<lambda>x. (mp_objs sample_pool x)\<lparr>obj_private := Some (x + 56), obj_base := 4096 * x\<rparr>),
      mp_pools = (\<lambda>p. \<lparr>free_objs = free_objs (mp_pools sample_pool p),
         obj_pick_func = Some cce_pobj_init, pool_obj_size = 4096, pool_headroom = 0,
         pool_tailroom = 0, obj_put_func = None, nb_objs = 2, pool_size = 0, obj_data_area = None\<rparr>),
      mp_mem = (\<lambda>_. sample_cce)\<rparr>"

definition sample_cachest :: "(addr list, nat) cachest" where
  "sample_cachest =
     aiost.extend sample_aiost
       \<lparr>chunkcache = Some 8, cc = sample_cache, cce_pools = sample_cces,
        cce_al = (\<lambda>_. \<lparr>dl_next = None, dl_prev = None\<rparr>), cce_cl = (\<lambda>_. \<lparr>dl_next = None, dl_prev = None\<rparr>)\<rparr>"

lemma sample_cachest_simps [simp]:
  "cc sample_cachest = sample_cache" "cce_pools sample_cachest = sample_cces" "shfs_mounted sample_cachest"
  "cce sample_cachest c = sample_cce" "bd_world sample_cachest = []" "vol_volsize sample_cachest = 100"
  "vol_nb_members sample_cachest = 1"
  by (simp_all add: sample_cachest_def aiost.defs sample_aiost_def bdst.defs sample_bdst_def cce_def sample_cces_def)

lemma sample_cache_start: "cache_start B {156, 256} 0 [100, 200] sample_cachest"
proof -
  have ok: "pool_ok 0 [100, 200] sample_cces"
  proof -
    have f: "free_objs (mp_pools sample_cces 0) = free_objs (mp_pools sample_pool 0)"
      "nb_objs (mp_pools sample_cces 0) = nb_objs (mp_pools sample_pool 0)"
      "p_ref (mp_objs sample_cces x) = p_ref (mp_objs sample_pool x)" for x
      by (simp_all add: sample_cces_def sample_pool_def sample_mpstate_def)
    show ?thesis using sample_pool_ok(1) unfolding pool_ok_def pool_free_def f .
  qed
  have "cache_backed B {156, 256} 0 [100, 200] {} sample_cachest"
    using ok by (simp add: cache_backed_def sample_cache_def grown_def own_blocks_def) (simp add: sample_cces_def)
  moreover have "\<exists>k < 32. unat (4 :: u32) = 2 ^ k" by (rule exI [of _ 2]) simp
  ultimately show ?thesis by (simp add: cache_start_def sample_cache_def sample_cce_def)
qed

definition idle_cb :: "'u shfs_aiocb \<Rightarrow> addr \<Rightarrow> ('w, 'u, 'z) cachest_scheme \<Rightarrow> fault + ('w, 'u, 'z) cachest_scheme" where
  "idle_cb cb t st = Inr st"

lemma idle_quiet: "cb_quiet B idle_cb"
  by (simp add: cb_quiet_def idle_cb_def)

text \<open>Two blank entries handed out, the second from the heap.\<close>

lemma sample_eblank:
  "\<exists>st'. shfs_cache_eblank list_heap sample_cachest = Some (Inr 156, st') \<and> pool_ok 0 [100, 200] (cce_pools st') \<and>
     pool_free 0 (cce_pools st') = [] \<and> shfs_mounted st' \<and> bd_world st' = [] \<and> cc_pool (cc st') = Some 0"
proof -
  have fr: "pool_free 0 sample_cces = [100]"
    using sample_pool_ok(2) by (simp add: pool_free_def sample_cces_def)
  have ok: "pool_ok 0 [100, 200] sample_cces"
    using sample_cache_start by (simp add: cache_start_def cache_backed_def)
  from mempool_pick_Some [OF ok fr] obtain Q where Q: "mempool_pick 0 sample_cces = (Some 100, Q)"
    "mp_objs Q = (mp_objs sample_cces)(100 := reset_desc (mp_pools sample_cces 0) (mp_objs sample_cces 100))"
    by auto
  have q: "pool_ok 0 [100, 200] Q" "pool_free 0 Q = []" using pool_pick_all [OF ok fr] Q(1) by auto
  have pr: "obj_private (mp_objs Q 100) = Some 156"
    by (simp add: Q(2) reset_desc_def sample_cces_def)
  let ?st = "upd_cce 156 (\<lambda>k. k\<lparr>ce_refcount := 1, ce_t := None, ce_addr := 0, ce_invalid := True\<rparr>)
    (upd_cc (\<lambda>k. k\<lparr>cc_nb_ref_entries := cc_nb_ref_entries k + 1\<rparr>)
      (upd_cc (\<lambda>k. k\<lparr>cc_nb_entries := cc_nb_entries k + 1\<rparr>) (sample_cachest\<lparr>cce_pools := Q\<rparr>)))"
  have "shfs_cache_eblank list_heap sample_cachest = Some (Inr 156, ?st)"
    using Q(1) pr by (simp add: shfs_cache_eblank_def shfs_cache_pick_cce_def sample_cache_def)
  moreover have "pool_ok 0 [100, 200] (cce_pools ?st)" "pool_free 0 (cce_pools ?st) = []"
    using q by (simp_all add: pool_ok_def pool_free_def)
  moreover have "shfs_mounted ?st" "bd_world ?st = []" "cc_pool (cc ?st) = Some 0"
    by (simp_all add: upd_cce_def upd_cc_def sample_cache_def)
  ultimately show ?thesis by blast
qed

lemma sample_eblank_grow:
  assumes ok: "pool_ok 0 objs (cce_pools st)" "pool_free 0 (cce_pools st) = []" and st: "shfs_mounted st" "bd_world st = []"
    "cc_pool (cc st) = Some 0"
  shows "\<exists>st'. shfs_cache_eblank list_heap st = Some (Inr 1001, st')"
proof -
  have w: "[1000..<1100] = 1000 # 1001 # [1002..<1100]" by (simp add: upt_rec)
  have m: "hp_xmalloc list_heap n al [] = (Some 1000, [1000])" "hp_xmalloc list_heap n al [1000] = (Some 1001, [1001, 1000])" for n al
    by (simp_all add: list_heap_def w)
  show ?thesis
    using mempool_pick_None [OF ok] st m
    by (simp add: shfs_cache_eblank_def shfs_cache_pick_cce_def Let_def list_heap_def)
qed

theorem cache_lists_consistent_witness:
  "\<exists>st1 st2 al. shfs_cache_eblank list_heap sample_cachest = Some (Inr 156, st1) \<and>
     shfs_cache_eblank list_heap st1 = Some (Inr 1001, st2) \<and>
     dl_repr (cce_al st2) (cc_alist (cc st2)) al"
proof -
  obtain st1 where 1: "shfs_cache_eblank list_heap sample_cachest = Some (Inr 156, st1)"
    and s: "pool_ok 0 [100, 200] (cce_pools st1)" "pool_free 0 (cce_pools st1) = []" "shfs_mounted st1" "bd_world st1 = []"
      "cc_pool (cc st1) = Some 0" using sample_eblank by blast
  obtain st2 where 2: "shfs_cache_eblank list_heap st1 = Some (Inr 1001, st2)" using sample_eblank_grow [OF s] by blast
  have "cache_reach no_blkfront list_heap idle_cb set {156, 256} 0 [100, 200] True {1001, 156} st2"
    by (rule cache_reach.eblank [OF cache_reach.eblank [OF cache_reach.start [OF sample_cache_start] 1] 2])
  from cache_lists_consistent [OF this list_heap_ok no_blkfront_keeps idle_quiet]
  obtain al where "True \<longrightarrow> dl_repr (cce_al st2) (cc_alist (cc st2)) al" by (elim exE conjE)
  with 1 2 show ?thesis by blast
qed

section \<open>What a read hands out\<close>

text \<open>
  C2: a read that succeeds hands out the entry that the cache finds for the chunk, with one
  reference more than before. With the return value 0 no I/O of the entry is pending, so its
  valid flag tells whether the data is there; with 1 the read is under way, and the token
  that comes back is the last of the entry's chain, is marked as busy and carries the
  caller's callback. Nothing the read does on the side, the read-ahead of eight chunks with its
  evictions, touches the entry.
\<close>

theorem shfs_cache_aread_hands_out:
  assumes reach: "cache_reach io hp call B P p objs ok D st" and hp: "heap_ok hp B P" and io: "io_keeps B io"
    and q: "cb_quiet B call" and refs: "\<And>c. ce_refcount (cce st c) + 1 \<noteq> 0" and room: "unat a + SHFS_CACHE_READAHEAD < 2 ^ 64"
    and r: "shfs_cache_aread io hp call a cb st = Some (Inr (c, t), st')"
  shows "shfs_cache_find a st' = Some (Some c) \<and> ce_addr (cce st' c) = a \<and>
    ce_refcount (cce st' c) =
      (case shfs_cache_find a st of Some (Some c') \<Rightarrow> ce_refcount (cce st c') + 1 | _ \<Rightarrow> 1) \<and>
    (case t of
       None \<Rightarrow> shfs_aio_is_done (ce_t (cce st' c)) st'
     | Some t \<Rightarrow> ce_t (cce st' c) \<noteq> None \<and> ce_aio_last (cce st' c) = Some t \<and>
         tk_infly (tok st' t) = 1 \<and> tk_cb (tok st' t) = cb)"
proof -
  from inv_aread [OF cache_reach_inv [OF reach hp io q] hp io q refs blanks_only room r] show ?thesis
  proof (elim disjE exE conjE)
    fix c' t' n
    assume eq: "(Inr (c, t) :: error + addr \<times> addr option) = Inr (c', t')" and a0: "a \<noteq> 0"
      and i: "cache_inv B P ok p objs {} (insert (c', a, n) (blanks D)) {} D st'"
      and n: "n = (case shfs_cache_find a st of Some (Some c') \<Rightarrow> ce_refcount (cce st c') + 1 | _ \<Rightarrow> 1)"
      and t: "case t' of None \<Rightarrow> shfs_aio_is_done (ce_t (cce st' c')) st'
        | Some t \<Rightarrow> ce_t (cce st' c') \<noteq> None \<and> ce_aio_last (cce st' c') = Some t \<and>
            tk_infly (tok st' t) = 1 \<and> tk_cb (tok st' t) = cb"
    have "c' = c" "t' = t" using eq by simp_all
    note H = inv_held [OF i insertI1 a0, unfolded this(1)] and T = t [unfolded this]
    show ?thesis by (intro conjI) (rule H T n [THEN trans [OF H(2)]])+
  qed simp_all
qed


text \<open>
  The volume of the witness of chunk I/O with two free tokens and an empty cache. Chunk 100
  is its last one, so that reading it reads nothing ahead.
\<close>

definition sample_toks2 :: "(addr \<Rightarrow> 'u aio_token) mpstate" where
  "sample_toks2 = sample_toks\<lparr>mp_objs := (\<lambda>x. (mp_objs sample_pool x)\<lparr>obj_base := x\<rparr>),
     mp_pools := (\<lambda>p. (mp_pools (sample_toks :: (addr \<Rightarrow> 'u aio_token) mpstate) p)
     \<lparr>free_objs := \<lparr>enq_idx = 2, deq_idx = 0, ring_size = 4, ring_mask = 3,
                    ring_slots = [Some 100, Some 200, None, None]\<rparr>\<rparr>)\<rparr>"

definition sample_cachelog :: "((addr \<times> blkfront_aiocb \<times> bool) list, nat) cachest" where
  "sample_cachelog =
     aiost.extend (sample_aiolog\<lparr>vol_toks := sample_toks2\<rparr>)
       \<lparr>chunkcache = Some 8, cc = sample_cache, cce_pools = sample_cces,
        cce_al = (\<lambda>_. \<lparr>dl_next = None, dl_prev = None\<rparr>), cce_cl = (\<lambda>_. \<lparr>dl_next = None, dl_prev = None\<rparr>)\<rparr>"

lemma sample_cachelog_simps:
  "aiost.more sample_cachelog = aiost.more (sample_cachest :: (addr list, nat) cachest)"
  "vol_toks sample_cachelog = sample_toks2" "shfs_mounted sample_cachelog"
  "vol_nb_members sample_cachelog = 1" "vol_volsize sample_cachelog = 100"
  "vol_stripemode sample_cachelog = SHFS_SM_COMBINED" "vol_stripesize sample_cachelog = 4096"
  "vol_member sample_cachelog = [\<lparr>vm_bd = 9, vm_uuid = replicate 16 1, vm_sfactor = 8\<rparr>]"
  "bd_tab sample_cachelog = (\<lambda>_. sample_blkdev)" "bd_pools sample_cachelog = sample_pool"
  "vol_aiotoken_pool sample_cachelog = 0"
  by (simp_all add: sample_cachelog_def sample_cachest_def sample_aiolog_def sample_aiost_def aiost.defs bdst.defs sample_bdst_def)

lemma sample_toks2_ok:
  "pool_ok 0 [100, 200] (sample_toks2 :: (addr \<Rightarrow> 'u aio_token) mpstate)" "pool_free 0 (sample_toks2 :: (addr \<Rightarrow> 'u aio_token) mpstate) = [100, 200]"
  "mp_data (sample_toks2 :: (addr \<Rightarrow> 'u aio_token) mpstate) x = x"
  "obj_pick_func (mp_pools (sample_toks2 :: (addr \<Rightarrow> 'u aio_token) mpstate) 0) = Some aiotoken_pool_objinit"
proof -
  let ?r = "\<lparr>enq_idx = 2, deq_idx = 0, ring_size = 4, ring_mask = 3,
             ring_slots = [Some 100, Some 200, None, None]\<rparr> :: addr ring"
  have c: "ring_count ?r = 2" by (simp add: ring_count_def)
  have l: "ring_list ?r = [Some 100, Some 200]" unfolding ring_list_def c by (simp add: upt_rec)
  have "ring_ok ?r" by (simp add: ring_ok_def) (intro exI [of _ 2], simp)
  with l show "pool_ok 0 [100, 200] (sample_toks2 :: (addr \<Rightarrow> 'u aio_token) mpstate)" "pool_free 0 (sample_toks2 :: (addr \<Rightarrow> 'u aio_token) mpstate) = [100, 200]"
    by (simp_all add: pool_ok_def pool_free_def sample_toks2_def sample_toks_def sample_pool_def sample_mpstate_def ring_wf_def
        ring_refs_def ring_cap_def)
  show "mp_data (sample_toks2 :: (addr \<Rightarrow> 'u aio_token) mpstate) x = x" "obj_pick_func (mp_pools (sample_toks2 :: (addr \<Rightarrow> 'u aio_token) mpstate) 0) = Some aiotoken_pool_objinit"
    by (simp_all add: sample_toks2_def sample_toks_def mp_data_def sample_pool_def sample_mpstate_def)
qed

lemma sample_cachelog_ok:
  "vol_io sample_cachelog (\<lambda>_. [100, 200])" "vol_tok_ok sample_cachelog [100, 200]"
  "free_toks sample_cachelog = [100, 200]" "pool_free (pool_of sample_cachelog 0) (bd_pools sample_cachelog) = [100]"
  "cache_start no_blocks {156, 256} 0 [100, 200] sample_cachelog"
proof -
  have a: "vol_io sample_cachelog = vol_io (sample_aiolog :: (_, nat) aiost)"
    by (rule ext) (simp add: vol_io_def pool_of_def sample_cachelog_simps sample_aiolog_def member_bd_def
        lessThan_Suc inj_on_def)
  show "vol_io sample_cachelog (\<lambda>_. [100, 200])" unfolding a by (rule sample_aiolog_ok)
  show "vol_tok_ok sample_cachelog [100, 200]" "free_toks sample_cachelog = [100, 200]"
    using sample_toks2_ok [where 'u = nat] by (simp_all add: vol_tok_ok_def free_toks_def sample_cachelog_simps inj_on_def)
  show "pool_free (pool_of sample_cachelog 0) (bd_pools sample_cachelog) = [100]"
    by (simp add: pool_of_def sample_cachelog_simps sample_blkdev_def sample_pool_ok)
  have m: "cc sample_cachelog = cc sample_cachest" "cce_pools sample_cachelog = cce_pools sample_cachest"
    "cce sample_cachelog = cce sample_cachest"
    by (rule ext | simp add: sample_cachelog_def sample_cachest_def aiost.defs cce_def sample_aiolog_def)+
  show "cache_start no_blocks {156, 256} 0 [100, 200] sample_cachelog"
    using sample_cache_start [of no_blocks] unfolding cache_start_def cache_backed_def grown_def own_blocks_def m by simp
qed

lemma sample_pick_cce:
  "\<exists>Q. shfs_cache_pick_cce sample_heap sample_cachelog =
      (Some 156, sample_cachelog\<lparr>cce_pools := Q, cc := sample_cache\<lparr>cc_nb_entries := 1\<rparr>\<rparr>) \<and>
     mp_mem Q 156 = sample_cce\<lparr>ce_pobj := Some 100, ce_buffer := 409600\<rparr>"
proof -
  have m: "cc sample_cachelog = sample_cache" "cce_pools sample_cachelog = sample_cces"
    by (simp_all add: sample_cachelog_def aiost.defs sample_aiolog_def)
  have fr: "pool_free 0 sample_cces = [100]"
    using sample_pool_ok(2) by (simp add: pool_free_def sample_cces_def)
  have ok: "pool_ok 0 [100, 200] sample_cces"
    using sample_cache_start by (simp add: cache_start_def cache_backed_def)
  have r: "reset_desc (mp_pools sample_cces 0) (mp_objs sample_cces 100) = \<lparr>p_ref = 0, obj_private = Some 156,
      obj_base = 409600, obj_data = 409600, obj_lhr = 0, obj_ltr = 0, obj_len = 4096\<rparr>"
    by (simp add: reset_desc_def sample_cces_def sample_pool_def sample_mpstate_def)
  have pf: "obj_pick_func (mp_pools sample_cces 0) = Some cce_pobj_init" by (simp add: sample_cces_def)
  from mempool_pick_Some [OF ok fr, unfolded r pf] obtain Q where Q: "mempool_pick 0 sample_cces = (Some 100, Q)"
    "obj_private (mp_objs Q 100) = Some 156"
    "mp_mem Q 156 = sample_cce\<lparr>ce_pobj := Some 100, ce_buffer := 409600\<rparr>"
    by (auto simp: cce_pobj_init_def sample_cces_def sample_cce_def)
  show ?thesis
    using Q m by (intro exI [of _ Q]) (simp add: shfs_cache_pick_cce_def sample_cache_def upd_cc_def)
qed

lemma vol_tok_ok_cong:
  assumes "vol_aiotoken_pool s' = vol_aiotoken_pool s" "mp_pools (vol_toks s') = mp_pools (vol_toks s)"
    "mp_objs (vol_toks s') = mp_objs (vol_toks s)"
  shows "vol_tok_ok s' tobjs = vol_tok_ok s tobjs" "free_toks s' = free_toks s"
proof -
  have "mp_data (vol_toks s') = mp_data (vol_toks s)" by (rule ext) (simp add: mp_data_def assms)
  then show "vol_tok_ok s' tobjs = vol_tok_ok s tobjs" "free_toks s' = free_toks s"
    by (simp_all add: vol_tok_ok_def free_toks_def pool_ok_def pool_free_def assms)
qed

lemma sample_add:
  "\<exists>st1. shfs_cache_add log_blkfront sample_heap idle_cb 100 sample_cachelog = Some (Inr 156, st1) \<and>
     ce_refcount (cce st1 156) = 0 \<and> ce_t (cce st1 156) = Some 100 \<and> tk_infly (tok st1 100) = 1 \<and>
     vol_tok_ok st1 [100, 200] \<and> free_toks st1 = [200] \<and> mp_data (vol_toks st1) 200 = 200 \<and> vol_volsize st1 = 100"
proof -
  from sample_pick_cce obtain Q where pick: "shfs_cache_pick_cce sample_heap sample_cachelog =
      (Some 156, sample_cachelog\<lparr>cce_pools := Q, cc := sample_cache\<lparr>cc_nb_entries := 1\<rparr>\<rparr>)"
    and Q: "mp_mem Q 156 = sample_cce\<lparr>ce_pobj := Some 100, ce_buffer := 409600\<rparr>" by blast
  let ?s0 = "sample_cachelog\<lparr>cce_pools := Q, cc := sample_cache\<lparr>cc_nb_entries := 1\<rparr>\<rparr>"
  have app: "alist_add 156 ?s0 = (Inr 156, on_alist (dlist_append 156) ?s0)"
    by (simp add: alist_add_def alist_append_def sample_cache_def dlist_init_head_def dlist_is_empty_def)
  define s2 where "s2 = upd_cce 156 (\<lambda>k. k\<lparr>ce_addr := 100\<rparr>) (on_alist (dlist_append 156) ?s0)"
  have s2: "\<exists>a b c. s2 = sample_cachelog\<lparr>cc := b, cce_al := c, cce_pools := a\<rparr>"
    by (cases "dlist_append 156 (cc_alist (cc ?s0), cce_al ?s0)") (auto simp: s2_def upd_cce_def on_alist_def)
  have e2: "cce s2 156 = sample_cce\<lparr>ce_pobj := Some 100, ce_buffer := 409600, ce_addr := 100\<rparr>"
    unfolding s2_def by (simp add: upd_cce_def cce_def on_alist_def Q split: prod.split)
  from s2 obtain a b c where s2': "s2 = sample_cachelog\<lparr>cc := b, cce_al := c, cce_pools := a\<rparr>" by blast
  have vio: "vol_io s2 (\<lambda>_. [100, 200])" and vtok: "vol_tok_ok s2 [100, 200]" and ft: "free_toks s2 = [100, 200]"
    and pf: "pool_free (pool_of s2 0) (bd_pools s2) = [100]"
    using sample_cachelog_ok unfolding s2' vol_io_def vol_tok_ok_def free_toks_def pool_of_def member_bd_def by simp_all
  have F: "shfs_mounted s2" "vol_nb_members s2 = 1" "vol_stripemode s2 = SHFS_SM_COMBINED"
    "vol_volsize s2 = 100" "vol_toks s2 = sample_toks2" "vol_stripesize s2 = 4096"
    by (simp_all add: s2' sample_cachelog_simps)
  have chk: "io_check log_blkfront (bd_tab s2 (strp_bd s2 (fst (aio_stripes s2 100 1) + of_nat k)))
      (strp_sf s2 (fst (aio_stripes s2 100 1) + of_nat k)) False (409600 + of_nat k * ucast (vol_stripesize s2)) = None"
    if "k < unat (1 :: u64) * unat (vol_nb_members s2)" for k
    using that by (simp add: F) (simp add: s2' sample_cachelog_simps strp_sf_def strp_member_def io_check_def log_blkfront_def
        sample_blkdev_def aio_stripes_def blkdev_ioalign_def blkdev_ssize_def)
  from aio_chunk_combined [OF F(1,3) vio vtok sample_aiolog_ok(3) _ chk, where ucb = "cache_cb sample_heap idle_cb" and cb = "Some (Cce_aiocb 156)"]
  obtain t1 s3 ps where io: "shfs_aio_chunk log_blkfront (cache_cb sample_heap idle_cb) 100 1 False 409600 (Some (Cce_aiocb 156)) s2 = Some (Inr 100, s3)"
    and p: "shfs_aio_pick_token s2 = (Some 100, t1)"
    and sent: "requests_sent (upd_tok 100 (\<lambda>k. k\<lparr>tk_cb := Some (Cce_aiocb 156)\<rparr>) t1) (\<lambda>_. [100, 200]) (\<lambda>w. w) False 100
      (fst (aio_stripes s2 100 1)) 409600 1 ps s3"
    using pf ft by (auto simp: F sample_toks2_ok)
  from pick_token_Some [OF vtok ft] p obtain ts where ts: "t1 = s2\<lparr>vol_toks := ts\<rparr>" "vol_tok_ok t1 [100, 200]"
    "free_toks t1 = [200]" "tk_infly (tok t1 100) = 0" "mp_data (vol_toks t1) 200 = 200" by (auto simp: F sample_toks2_ok tok_def)
  let ?t1 = "upd_tok 100 (\<lambda>k. k\<lparr>tk_cb := Some (Cce_aiocb 156)\<rparr>) t1"
  have fr: "aio_frame ?t1 s3" and tk: "vol_toks s3 = vol_toks (upd_tok 100 (\<lambda>k. k\<lparr>tk_infly := tk_infly k + of_nat 1\<rparr>) ?t1)"
    using sent by (simp_all add: requests_sent_def)
  note D = aio_frameD [OF fr]
  have "aiost.more s3 = aiost.more s2" using D(15) ts(1) by (simp add: upd_tok_def)
  note c3 = fun_cong [OF cache_more_eq(1) [OF this], of 156]
  let ?s4 = "on_clist (shfs_cache_htindex 100 s3) (dlist_append 156) (upd_cce 156 (\<lambda>k. k\<lparr>ce_t := Some 100\<rparr>) s3)"
  have "shfs_cache_add log_blkfront sample_heap idle_cb 100 sample_cachelog = Some (Inr 156, ?s4)"
    unfolding shfs_cache_add_def pick
    using io by (simp add: Let_def app s2_def [symmetric]) (simp add: cce_def Q)
  moreover have "ce_refcount (cce ?s4 156) = 0" "ce_t (cce ?s4 156) = Some 100"
    using c3 e2 by (simp_all add: on_clist_def upd_cce_def cce_def sample_cce_def split: prod.split)
  moreover have "tk_infly (tok ?s4 100) = 1"
    using tk ts(4) by (simp add: on_clist_def upd_cce_def tok_def upd_tok_def split: prod.split)
  moreover have "mp_pools (vol_toks ?s4) = mp_pools (vol_toks t1) \<and> mp_objs (vol_toks ?s4) = mp_objs (vol_toks t1) \<and>
      vol_aiotoken_pool ?s4 = vol_aiotoken_pool t1"
    using tk D(14) by (simp add: on_clist_def upd_cce_def upd_tok_def split: prod.split)
  then have "vol_tok_ok ?s4 [100, 200]" "free_toks ?s4 = [200]"
    using ts(2,3) vol_tok_ok_cong [of ?s4 t1] by simp_all
  moreover have "mp_data (vol_toks ?s4) 200 = 200"
    using tk ts(5) by (simp add: on_clist_def upd_cce_def mp_data_def upd_tok_def split: prod.split)
  moreover have "vol_volsize ?s4 = 100"
    using D(12) ts(1) F(4) by (simp add: on_clist_def upd_cce_def upd_tok_def split: prod.split)
  ultimately show ?thesis by (intro exI conjI)
qed

lemma sample_aread:
  "\<exists>st'. shfs_cache_aread log_blkfront sample_heap idle_cb 100 (Some (User_aiocb 7)) sample_cachelog =
     Some (Inr (156, Some 200), st')"
proof -
  from sample_add obtain s1 where add: "shfs_cache_add log_blkfront sample_heap idle_cb 100 sample_cachelog = Some (Inr 156, s1)"
    and e: "ce_refcount (cce s1 156) = 0" "ce_t (cce s1 156) = Some 100" "tk_infly (tok s1 100) = 1"
    and t: "vol_tok_ok s1 [100, 200]" "free_toks s1 = [200]" "mp_data (vol_toks s1) 200 = 200" and v: "vol_volsize s1 = 100" by blast
  have fnd: "shfs_cache_find 100 sample_cachelog = Some None"
    by (simp add: shfs_cache_find_def shfs_cache_htindex_def sample_cachelog_def aiost.defs sample_aiolog_def sample_cache_def
        dlist_init_head_def dlist_search.simps)
  define s2 where "s2 = upd_cce 156 (\<lambda>k. k\<lparr>ce_refcount := ce_refcount k + 1\<rparr>)
    (upd_cc (\<lambda>k. k\<lparr>cc_nb_ref_entries := cc_nb_ref_entries k + 1\<rparr>) (on_alist (dlist_unlink 156) s1))"
  have s2: "vol_volsize s2 = 100" "vol_toks s2 = vol_toks s1" "vol_aiotoken_pool s2 = vol_aiotoken_pool s1"
    "ce_t (cce s2 156) = Some 100"
    using v e(2) by (simp_all add: s2_def upd_cce_def upd_cc_def on_alist_def cce_def split: prod.split)
  have ra: "shfs_cache_readahead log_blkfront sample_heap idle_cb 100 s2 = Some (Inr (), s2)"
    unfolding shfs_cache_readahead_def by (simp add: upt_rec s2)
  define s3 where "s3 = shfs_aio_submit log_blkfront s2"
  have "vol_toks (fold (\<lambda>i st. blkdev_async_io_submit log_blkfront (member_bd st i) st) is s2) = vol_toks s2 \<and>
      vol_aiotoken_pool (fold (\<lambda>i st. blkdev_async_io_submit log_blkfront (member_bd st i) st) is s2) = vol_aiotoken_pool s2 \<and>
      cce_pools (fold (\<lambda>i st. blkdev_async_io_submit log_blkfront (member_bd st i) st) is s2) = cce_pools s2" for "is"
    by (induction "is" arbitrary: s2) (simp_all add: blkdev_async_io_submit_def)
  then have s3: "vol_toks s3 = vol_toks s1" "vol_aiotoken_pool s3 = vol_aiotoken_pool s1" "ce_t (cce s3 156) = Some 100"
    using s2 by (simp_all add: s3_def shfs_aio_submit_def cce_def)
  have t3: "vol_tok_ok s3 [100, 200]" "free_toks s3 = [200]" "tk_infly (tok s3 100) = 1"
    using t e(3) by (simp_all add: vol_tok_ok_def free_toks_def tok_def s3)
  have "mp_data (vol_toks s3) 200 = 200" using t(3) by (simp add: s3)
  with pick_token_Some [OF t3(1,2)] obtain ts where "shfs_aio_pick_token s3 = (Some 200, s3\<lparr>vol_toks := ts\<rparr>)" by auto
  then show ?thesis
    unfolding shfs_cache_aread_def fnd using add e s2_def ra s3_def s3 t3
    by (simp add: shfs_aio_is_done_def Let_def sample_cachelog_simps)
qed

theorem shfs_cache_aread_hands_out_witness:
  "\<exists>st'. shfs_cache_aread log_blkfront sample_heap idle_cb 100 (Some (User_aiocb 7)) sample_cachelog =
       Some (Inr (156, Some 200), st') \<and> shfs_cache_find 100 st' = Some (Some 156) \<and>
     ce_refcount (cce st' 156) = 1 \<and> tk_infly (tok st' 200) = 1"
proof -
  from sample_aread obtain st' where st': "shfs_cache_aread log_blkfront sample_heap idle_cb 100 (Some (User_aiocb 7))
      sample_cachelog = Some (Inr (156, Some 200), st')" by blast
  have r: "ce_refcount (cce sample_cachelog c) + 1 \<noteq> 0" for c
    by (simp add: cce_def sample_cachelog_def aiost.defs sample_aiolog_def sample_cces_def sample_cce_def)
  have fnd: "shfs_cache_find 100 sample_cachelog = Some None"
    by (simp add: shfs_cache_find_def shfs_cache_htindex_def sample_cachelog_def aiost.defs sample_aiolog_def sample_cache_def
        dlist_init_head_def dlist_search.simps)
  from shfs_cache_aread_hands_out [OF cache_reach.start [OF sample_cachelog_ok(5)] sample_heap_ok io_keeps_none idle_quiet r _ st'] fnd st'
  show ?thesis by simp
qed


section \<open>Releasing an entry whose read failed\<close>

text \<open>
  The release of the last reference of an entry that holds no valid data takes it out of its
  collision list, but also out of the available list, in which a referenced entry is not.
\<close>

lemma release_invalid:
  fixes st :: "('w, 'u, 'z) cachest_scheme"
  assumes inv: "cache_inv B P ok p objs {} R {} D st" and f: "shfs_cache_find a st = Some (Some c)" "a \<noteq> 0"
    and c: "ce_refcount (cce st c) = 1" "ce_invalid (cce st c)" "ce_t (cce st c) = None"
  shows "\<exists>st'. shfs_cache_release hp c st = Inr st' \<and> cc_alist (cc st') = dlist_init_head \<and>
    shfs_cache_find a st' = Some None \<and>
    (\<forall>b d. b \<noteq> 0 \<longrightarrow> d \<noteq> c \<longrightarrow> shfs_cache_find b st = Some (Some d) \<longrightarrow>
       shfs_cache_find b st' = Some (Some d) \<and> cce st' d = cce st d)"
proof -
  obtain al hs where h: "cache_shape ok al hs st" "cache_entries {} R (set al) hs {} D st"
    "cache_backed B P p objs (members hs \<union> {} \<union> D) st" "cache_counts (members hs \<union> {} \<union> D) st"
    and cm: "c \<in> members hs" "ce_addr (cce st c) = a" by (rule inv_found [OF inv f])
  note E = cache_entriesD [OF h(2)]
  have "c \<notin> set al" using E(2) c(1) by auto
  then have loose: "cce_al st c = \<lparr>dl_next = None, dl_prev = None\<rparr>" using h(1) cm(1) by (simp add: cache_shape_def)
  obtain i where i: "i < length hs" "c \<in> set (hs ! i)" using cm(1) by (auto simp: members_nth)
  have ia: "shfs_cache_htindex a st = i" using E(12) [OF i] cm(2) by simp
  let ?s0 = "upd_cc (\<lambda>k. k\<lparr>cc_nb_ref_entries := cc_nb_ref_entries k - 1\<rparr>) (upd_cce c (\<lambda>k. k\<lparr>ce_refcount := ce_refcount k - 1\<rparr>) st)"
  let ?s1 = "on_clist i (dlist_unlink c) ?s0" and ?hs = "hs[i := remove1 c (hs ! i)]"
  have c0: "cce ?s0 = (cce st)(c := (cce st c)\<lparr>ce_refcount := 0\<rparr>)"
    using c(1) by (rule_tac ext) (simp add: cce_def upd_cc_def upd_cce_def)
  have hx: "shfs_cache_htindex b ?s0 = shfs_cache_htindex b st" "shfs_cache_htindex b ?s1 = shfs_cache_htindex b st" for b
    by (simp_all add: shfs_cache_htindex_def upd_cc_def upd_cce_def on_clist_def split: prod.split)
  have "cache_shape ok al hs ?s0" using h(1) unfolding cache_shape_def hx by (simp add: upd_cc_def upd_cce_def)
  note sh = cache_shape_clist_unlink [OF this i(2,1)]
  have c1: "cce ?s1 = (cce st)(c := (cce st c)\<lparr>ce_refcount := 0\<rparr>)"
    unfolding c0 [symmetric] by (rule ext) (simp add: cce_def on_clist_def split: prod.split)
  have e1: "cache_entries {} {} (set al) ?hs {} {} ?s1"
  proof (rule cache_entriesI)
    fix j y
    assume j: "j < length ?hs" "y \<in> set (?hs ! j)"
    have "set (?hs ! j) \<subseteq> set (hs ! j)" by (cases "j = i") (simp_all add: i set_remove1_subset)
    with j have y: "j < length hs" "y \<in> set (hs ! j)" "y \<in> members ?hs"
      using members_nth [of y ?hs] by auto
    then have "y \<noteq> c" using sh(2) by blast
    then show "ce_addr (cce ?s1 y) \<noteq> 0 \<and> shfs_cache_htindex (ce_addr (cce ?s1 y)) ?s1 = j"
      using E(11) [of y] E(12) [OF y(1,2)] y sh(2) unfolding hx c1 by auto
  next
    show "inj_on (\<lambda>y. ce_addr (cce ?s1 y)) (members ?hs)" using E(1) unfolding c1 sh(2) by (auto simp: inj_on_def)
    show "set al = {y \<in> members ?hs. ce_refcount (cce ?s1 y) = 0} \<union> {}"
      using E(2) c(1) unfolding c1 sh(2) by auto
    show "\<not> ce_invalid (cce ?s1 y)" if "y \<in> members ?hs" "ce_refcount (cce ?s1 y) = 0" "ce_t (cce ?s1 y) = None" for y
      using that E(9) [of y] unfolding c1 sh(2) by auto
    show "y \<in> members ?hs" if "ce_t (cce ?s1 y) \<noteq> None" for y
      using that E(10) [of y] c(3) unfolding c1 sh(2) by (auto split: if_splits)
  qed auto
  let ?s2 = "on_alist (dlist_unlink c) ?s1"
  have al: "cc_alist (cc ?s2) = dlist_init_head"
    using loose by (simp add: on_alist_def on_clist_def dlist_unlink_def dlist_init_head_def upd_cc_def upd_cce_def Let_def split: prod.split option.split)
  let ?st' = "shfs_cache_put_cce hp c ?s2"
  have rel: "shfs_cache_release hp c st = Inr ?st'"
  proof -
    have "ce_addr (cce ?s0 c) = a" "ce_refcount (cce ?s0 c) = 0" using c0 cm(2) by simp_all
    then have "destroy_invalid hp c ?s0 = Inr ?st'"
      unfolding destroy_invalid_def shfs_cache_unlink_def using f(2) by (simp add: hx ia)
    then show ?thesis
      unfolding shfs_cache_release_def Let_def using c c0 by (simp add: shfs_aio_is_done_def upd_cce_def upd_cc_def cce_def)
  qed
  have b2: "cache_backed B P p objs (members hs \<union> {} \<union> D) ?s2"
    by (rule cache_backed_cong [OF h(3)]) (simp_all add: c1)
  have ce: "cce ?st' = cce ?s1" using put_cce_cce [OF b2, of c hp] cm(1) by simp
  have same: "cce_cl ?st' = cce_cl ?s1" "cc_htable (cc ?st') = cc_htable (cc ?s1)" "cc_htmask (cc ?st') = cc_htmask (cc ?s1)"
    "cc_alist (cc ?st') = cc_alist (cc ?s2)"
    by (simp_all add: put_cce_simps)
  have fnd: "shfs_cache_find b ?st' = shfs_cache_find b ?s1" for b
    unfolding shfs_cache_find_def shfs_cache_htindex_def ce same ..
  have "shfs_cache_find a ?s1 = Some None"
    using cache_find [OF sh(1) e1 f(2)] E(1) cm unfolding c1 sh(2) by (auto simp: inj_on_def)
  moreover have "shfs_cache_find b ?s1 = Some (Some d) \<and> cce ?s1 d = cce st d"
    if b: "b \<noteq> 0" "d \<noteq> c" "shfs_cache_find b st = Some (Some d)" for b d
  proof -
    have d: "d \<in> members hs" "ce_addr (cce st d) = b" using cache_find [OF h(1,2) b(1)] b(3) by auto
    with b(2) have "d \<in> members ?hs" "ce_addr (cce ?s1 d) = b" unfolding c1 sh(2) by auto
    with find_member [OF sh(1) e1] have "shfs_cache_find b ?s1 = Some (Some d)" by blast
    then show ?thesis using b(2) unfolding c1 by simp
  qed
  ultimately show ?thesis using rel al unfolding fnd [symmetric] ce [symmetric] same(4) [symmetric]
    by (intro exI [of _ ?st']) simp
qed

text \<open>
  C37: a defect. In a state that satisfies the invariant, as every reachable one does, let a
  client hold the only reference of an entry whose read has failed. Releasing it, as
  \<open>shfs_cache_read\<close> does on every I/O error, empties the available list: every other cached
  entry is still found, but the available ones are lost to eviction, and flushing the
  cache does nothing.
\<close>

theorem release_failed_read_loses_available:
  fixes st :: "('w, 'u, 'z) cachest_scheme"
  assumes "cache_inv B P ok p objs {} R {} D st" and "shfs_cache_find a st = Some (Some c)" "a \<noteq> 0"
    and "ce_refcount (cce st c) = 1" "ce_invalid (cce st c)" "ce_t (cce st c) = None"
  shows "\<exists>st'. shfs_cache_release hp c st = Inr st' \<and> shfs_cache_find a st' = Some None \<and>
    shfs_cache_idle st' = Some None \<and> shfs_cache_flush_alist io hp call st' = Some (Inr st') \<and>
    (\<forall>b d. b \<noteq> 0 \<longrightarrow> d \<noteq> c \<longrightarrow> shfs_cache_find b st = Some (Some d) \<longrightarrow>
       shfs_cache_find b st' = Some (Some d) \<and> cce st' d = cce st d)"
proof -
  from release_invalid [OF assms, of hp] obtain st' where r: "shfs_cache_release hp c st = Inr st'"
    "cc_alist (cc st') = dlist_init_head" "shfs_cache_find a st' = Some None"
    "\<forall>b d. b \<noteq> 0 \<longrightarrow> d \<noteq> c \<longrightarrow> shfs_cache_find b st = Some (Some d) \<longrightarrow>
       shfs_cache_find b st' = Some (Some d) \<and> cce st' d = cce st d" by (elim exE conjE)
  have "shfs_cache_idle st' = Some None"
    by (simp add: shfs_cache_idle_def r(2) dlist_init_head_def dlist_search.simps)
  moreover have "shfs_cache_flush_alist io hp call st' = Some (Inr st')"
    by (subst shfs_cache_flush_alist.simps) (simp add: r(2) dlist_init_head_def)
  ultimately show ?thesis using r by (intro exI [of _ st'] conjI)
qed

text \<open>Chunk 1, whose read failed, in entry 156, held by one client; chunk 2 in entry 256, available.\<close>

definition sample_failed :: "(addr list, nat) cachest" where
  "sample_failed = sample_cachest\<lparr>
     cc := sample_cache\<lparr>cc_nb_entries := 2, cc_nb_ref_entries := 1,
       cc_alist := \<lparr>dl_first = Some 256, dl_last = Some 256\<rparr>,
       cc_htable := [dlist_init_head, \<lparr>dl_first = Some 156, dl_last = Some 156\<rparr>,
         \<lparr>dl_first = Some 256, dl_last = Some 256\<rparr>, dlist_init_head]\<rparr>,
     cce_pools := sample_cces\<lparr>mp_pools := (\<lambda>p. (mp_pools sample_cces p)
         \<lparr>free_objs := \<lparr>enq_idx = 0, deq_idx = 0, ring_size = 4, ring_mask = 3, ring_slots = replicate 4 None\<rparr>\<rparr>),
       mp_mem := (\<lambda>x. sample_cce)(156 := sample_cce\<lparr>ce_pobj := Some 100, ce_addr := 1, ce_refcount := 1\<rparr>,
         256 := sample_cce\<lparr>ce_pobj := Some 200, ce_addr := 2, ce_invalid := False\<rparr>)\<rparr>\<rparr>"

lemma sample_failed_simps:
  "cce sample_failed = (\<lambda>x. sample_cce)(156 := sample_cce\<lparr>ce_pobj := Some 100, ce_addr := 1, ce_refcount := 1\<rparr>,
     256 := sample_cce\<lparr>ce_pobj := Some 200, ce_addr := 2, ce_invalid := False\<rparr>)"
  "cc_alist (cc sample_failed) = \<lparr>dl_first = Some 256, dl_last = Some 256\<rparr>"
  "cc_htable (cc sample_failed) = [dlist_init_head, \<lparr>dl_first = Some 156, dl_last = Some 156\<rparr>,
     \<lparr>dl_first = Some 256, dl_last = Some 256\<rparr>, dlist_init_head]"
  "cc_htmask (cc sample_failed) = 3" "cc_pool (cc sample_failed) = Some 0"
  "cc_nb_entries (cc sample_failed) = 2" "cc_nb_ref_entries (cc sample_failed) = 1"
  "cce_al sample_failed = (\<lambda>_. \<lparr>dl_next = None, dl_prev = None\<rparr>)" "cce_cl sample_failed = (\<lambda>_. \<lparr>dl_next = None, dl_prev = None\<rparr>)"
  by (simp_all add: sample_failed_def cce_def fun_eq_iff sample_cache_def)
     (simp_all add: sample_cachest_def aiost.defs sample_aiost_def bdst.defs sample_bdst_def)

lemma sample_failed_inv: "cache_inv no_blocks {156, 256} True 0 [100, 200] {} {} {} {} sample_failed"
proof -
  let ?hs = "[[], [156], [256], []] :: addr list list"
  have m: "members ?hs = {156, 256}" by (auto simp: members_def)
  have ix: "shfs_cache_htindex b sample_failed < Suc (Suc (Suc (Suc 0)))" for b
  proof -
    have "unat (ucast b AND 3 :: u32) = unat (ucast b :: u32) mod 2 ^ 2" by (rule unat_and_mask) simp
    then show ?thesis by (simp add: shfs_cache_htindex_def sample_failed_simps)
  qed
  have "clists (cce_cl sample_failed) (cc_htable (cc sample_failed)) ?hs"
    unfolding clists_def sample_failed_simps by (auto simp: less_Suc_eq dl_repr_def dlist_init_head_def)
  moreover have al: "dl_repr (cce_al sample_failed) (cc_alist (cc sample_failed)) [256]"
    by (simp add: sample_failed_simps dl_repr_def)
  moreover have "\<exists>segs. concat segs = [256] \<and> segs_ok (cce_al sample_failed) (cc_alist (cc sample_failed)) segs"
    by (rule exI [of _ "[[256]]"]) (use segs_of_repr [OF al] in simp)
  ultimately have sh: "cache_shape True [256] ?hs sample_failed"
    using ix by (simp add: cache_shape_def m sample_failed_simps(4,8) shfs_cache_htindex_def)
  have e: "cache_entries {} {} (set [256]) ?hs {} {} sample_failed"
    by (rule cache_entriesI) (auto simp: less_Suc_eq m sample_failed_simps sample_cce_def shfs_cache_htindex_def split: if_splits)
  have b: "cache_backed no_blocks {156, 256} 0 [100, 200] (members ?hs \<union> {} \<union> {}) sample_failed"
  proof -
    let ?r = "\<lparr>enq_idx = 0, deq_idx = 0, ring_size = 4, ring_mask = 3, ring_slots = replicate 4 None\<rparr> :: addr ring"
    have l: "ring_list ?r = []" by (simp add: ring_list_def ring_count_def)
    have "ring_ok ?r" by (simp add: ring_ok_def) (intro exI [of _ 2], simp)
    with l have "pool_ok 0 [100, 200] (cce_pools sample_failed)" "pool_free 0 (cce_pools sample_failed) = []"
      by (simp_all add: sample_failed_def pool_ok_def pool_free_def sample_cces_def sample_pool_def sample_mpstate_def ring_wf_def
          ring_refs_def ring_cap_def)
    moreover have "grown {156, 256} sample_failed = {}" by (auto simp: grown_def sample_failed_simps)
    ultimately show ?thesis
      by (simp add: cache_backed_def m own_blocks_def pooled_def sample_failed_simps) (simp add: sample_failed_def sample_cces_def)
  qed
  have "cache_counts (members ?hs \<union> {} \<union> {}) sample_failed"
  proof -
    have "{c. (c = 156 \<or> c = 256) \<and> ce_refcount (cce sample_failed c) \<noteq> 0} = {156}"
      by (auto simp: sample_failed_simps sample_cce_def)
    then show ?thesis by (simp add: cache_counts_def m sample_failed_simps)
  qed
  with sh e b show ?thesis by (rule cache_invI)
qed

theorem release_failed_read_loses_available_witness:
  "\<exists>st'. shfs_cache_release sample_heap 156 sample_failed = Inr st' \<and> shfs_cache_find 2 st' = Some (Some 256) \<and>
     ce_refcount (cce st' 256) = 0 \<and>
     shfs_cache_flush_alist sample_blkfront sample_heap idle_cb st' = Some (Inr st')"
proof -
  have f: "shfs_cache_find 1 sample_failed = Some (Some 156)" "shfs_cache_find 2 sample_failed = Some (Some 256)"
    by (simp_all add: shfs_cache_find_def shfs_cache_htindex_def sample_failed_simps dlist_search.simps)
  have "ce_refcount (cce sample_failed 156) = 1" "ce_invalid (cce sample_failed 156)" "ce_t (cce sample_failed 156) = None"
    by (simp_all add: sample_failed_simps sample_cce_def)
  note 1 = release_failed_read_loses_available [OF sample_failed_inv f(1) _ this, of sample_heap sample_blkfront idle_cb]
  obtain st' where st': "shfs_cache_release sample_heap 156 sample_failed = Inr st'"
    "shfs_cache_flush_alist sample_blkfront sample_heap idle_cb st' = Some (Inr st')"
    "\<forall>b d. b \<noteq> 0 \<longrightarrow> d \<noteq> 156 \<longrightarrow> shfs_cache_find b sample_failed = Some (Some d) \<longrightarrow>
       shfs_cache_find b st' = Some (Some d) \<and> cce st' d = cce sample_failed d"
    using 1 [OF one_neq_zero] by (elim exE conjE)
  from st'(3) [rule_format, of 2 256] f(2) have "shfs_cache_find 2 st' = Some (Some 256) \<and> cce st' 256 = cce sample_failed 256"
    by simp
  with st'(1,2) show ?thesis by (intro exI [of _ st']) (simp add: sample_failed_simps sample_cce_def)
qed

end
