(* ===== verification/Fio.thy ===== *)
theory Fio
  imports "HOL-Library.Multiset" Prelude DList HashVal Htable Btable ShfsDefs Blkdev Aio Cache
begin

text \<open>
  Files of a mounted volume (\<open>shfs/shfs_fio.h\<close>, \<open>shfs/shfs_fio.c\<close>), built with
  \<open>SHFS_OPENBYNAME\<close> and without \<open>SHFS_STATS\<close>: opening by hash, by name and as a clone,
  closing, the attributes of an open file, and the synchronous and asynchronous reads.

  A file descriptor is a pointer to a \<open>shfs_bentry\<close>, the private area of an element of the
  volume's bucket-entry table; here it is that element. The entry's \<open>hentry\<close> points into the
  memory that holds the volume's hash table.
\<close>

section \<open>State\<close>

text \<open>The fields of \<open>shfs_vol\<close> that the layers below do not use, and \<open>shfs_nb_open\<close>.\<close>

record ('w, 'u) fsst = "('w, 'u) cachest" +
  shfs_nb_open :: u32
  vol_uuid :: uuid_t
  vol_volname :: "u8 list"
  vol_ts_creation :: u64
  vol_bt :: btable
  vol_htable_chunk_cache :: "addr option list"
  vol_remount_chunk_buffer :: addr
  vol_htable_ref :: chk_t
  vol_htable_bak_ref :: chk_t
  vol_htable_len :: chk_t
  vol_htable_nb_buckets :: u32
  vol_htable_nb_entries :: u32
  vol_htable_nb_entries_per_bucket :: u32
  vol_htable_nb_entries_per_chunk :: u32
  vol_hlen :: u8
  vol_def_bentry :: "elref option"
  shfs_mount_lock :: int

type_synonym SHFS_FD = elref

definition bentry :: "('w, 'u, 'z) fsst_scheme \<Rightarrow> SHFS_FD \<Rightarrow> shfs_bentry" where
  "bentry st f = ht_private (vol_bt st) f"

definition upd_bentry :: "SHFS_FD \<Rightarrow> (shfs_bentry \<Rightarrow> shfs_bentry) \<Rightarrow> ('w, 'u, 'z) fsst_scheme \<Rightarrow> ('w, 'u, 'z) fsst_scheme" where
  "upd_bentry f g st = st\<lparr>vol_bt := (vol_bt st)\<lparr>ht_private := (ht_private (vol_bt st))(f := g (bentry st f))\<rparr>\<rparr>"

definition hentry_at :: "('w, 'u, 'z) fsst_scheme \<Rightarrow> addr \<Rightarrow> shfs_hentry" where
  "hentry_at st p = hentry_get (mem_read p 244 (bd_mem st))"

definition with_hentry :: "('w, 'u, 'z) fsst_scheme \<Rightarrow> SHFS_FD \<Rightarrow> (shfs_hentry \<Rightarrow> 'a) \<Rightarrow> fault + 'a" where
  "with_hentry st f g =
     (case be_hentry (bentry st f) of None \<Rightarrow> Inl Null_deref | Some p \<Rightarrow> Inr (g (hentry_at st p)))"

text \<open>The semaphore operations that do not wait.\<close>

definition sem_trydown :: "int \<Rightarrow> int" where
  "sem_trydown n = (if n > 0 then n - 1 else n)"

definition sem_up :: "int \<Rightarrow> int" where
  "sem_up n = n + 1"

section \<open>Lookup\<close>

text \<open>Both give no entry (\<open>Inr None\<close>) or the first that matches.\<close>

definition shfs_lookup_bentry_by_hash :: "u8 list \<Rightarrow> ('w, 'u, 'z) fsst_scheme \<Rightarrow> fault + elref option" where
  "shfs_lookup_bentry_by_hash h st =
     (case shfs_btable_lookup (vol_bt st) h of
        Inl (Fault f) \<Rightarrow> Inl f
      | Inl (Errno e) \<Rightarrow> Inr None
      | Inr el \<Rightarrow> Inr (Some el))"

text \<open>
  \<open>strncmp(a, b, n) == 0\<close> of the C library, and the chunk of the table that holds an entry.
\<close>

definition strncmp_0 :: "u8 list \<Rightarrow> u8 list \<Rightarrow> nat \<Rightarrow> bool" where
  "strncmp_0 a b n \<longleftrightarrow> takeWhile (\<lambda>x. x \<noteq> 0) (take n a) = takeWhile (\<lambda>x. x \<noteq> 0) (take n b)"

definition cached_chunk :: "('w, 'u, 'z) fsst_scheme \<Rightarrow> elref \<Rightarrow> fault + addr option" where
  "cached_chunk st el =
     (let c = unat (hentry_htchunk (bentry st el))
      in if c < length (vol_htable_chunk_cache st) then Inr (vol_htable_chunk_cache st ! c)
         else Inl Out_of_bounds)"

fun lookup_name_loop :: "u8 list \<Rightarrow> elref list \<Rightarrow> ('w, 'u, 'z) fsst_scheme \<Rightarrow> fault + elref option" where
  "lookup_name_loop name [] st = Inr None"
| "lookup_name_loop name (el # els) st =
     (case cached_chunk st el of
        Inl f \<Rightarrow> Inl f
      | Inr p \<Rightarrow>
          if length name > 64 then lookup_name_loop name els st
          else case p of
                 None \<Rightarrow> Inl Null_deref
               | Some p \<Rightarrow>
                   if strncmp_0 name (he_name (hentry_at st (p + hentry_htoffset (bentry st el)))) 64
                   then Inr (Some el)
                   else lookup_name_loop name els st)"

definition shfs_lookup_bentry_by_name :: "u8 list \<Rightarrow> ('w, 'u, 'z) fsst_scheme \<Rightarrow> (fault + elref option) option" where
  "shfs_lookup_bentry_by_name name st =
     map_option (\<lambda>els. lookup_name_loop name els st) (foreach_htable_el (vol_bt st))"

section \<open>Opening and closing\<close>

definition shfs_fio_clear_cookie :: "SHFS_FD \<Rightarrow> ('w, 'u, 'z) fsst_scheme \<Rightarrow> ('w, 'u, 'z) fsst_scheme" where
  "shfs_fio_clear_cookie f st = upd_bentry f (\<lambda>b. b\<lparr>be_cookie := None\<rparr>) st"

definition shfs_fio_open_bentry :: "elref \<Rightarrow> ('w, 'u, 'z) fsst_scheme \<Rightarrow> (error + SHFS_FD) \<times> ('w, 'u, 'z) fsst_scheme" where
  "shfs_fio_open_bentry el st =
     (if be_update (bentry st el) then (Inl (Errno EBUSY), st)
      else let st = st\<lparr>shfs_nb_open := shfs_nb_open st + 1\<rparr>;
               st = (if refcount (bentry st el) = 0
                     then shfs_fio_clear_cookie el
                            (upd_bentry el (\<lambda>b. b\<lparr>updatelock := sem_trydown (updatelock b)\<rparr>) st)
                     else st)
           in (Inr el, upd_bentry el (\<lambda>b. b\<lparr>refcount := refcount b + 1\<rparr>) st))"

text \<open>
  \<open>shfs_fio_open\<close>. \<open>Inr None\<close> is the null pointer with \<open>errno\<close> left as it was; \<open>h0\<close> is what the
  uninitialised local \<open>h\<close> holds.
\<close>

definition open_found :: "fault + elref option \<Rightarrow> ('w, 'u, 'z) fsst_scheme \<Rightarrow> (error + SHFS_FD option) \<times> ('w, 'u, 'z) fsst_scheme" where
  "open_found r st =
     (case r of
        Inl f \<Rightarrow> (Inl (Fault f), st)
      | Inr None \<Rightarrow> (Inl (Errno ENOENT), st)
      | Inr (Some el) \<Rightarrow> apfst (map_sum id Some) (shfs_fio_open_bentry el st))"

abbreviation SHFS_HASH_INDICATOR_PREFIX :: char where "SHFS_HASH_INDICATOR_PREFIX \<equiv> CHR ''?''"

definition shfs_fio_open ::
    "u8 list \<Rightarrow> string \<Rightarrow> ('w, 'u, 'z) fsst_scheme \<Rightarrow> ((error + SHFS_FD option) \<times> ('w, 'u, 'z) fsst_scheme) option" where
  "shfs_fio_open h0 path st =
     (if \<not> shfs_mounted st then Some (Inl (Errno ENODEV), st)
      else if char_at path 0 = SHFS_HASH_INDICATOR_PREFIX \<and> char_at path 1 \<noteq> CHR 0x00 then
        (case hash_parse (tl path) h0 (vol_hlen st) of
           None \<Rightarrow> Some (Inr None, st)
         | Some h \<Rightarrow> Some (open_found (shfs_lookup_bentry_by_hash h st) st))
      else if char_at path 0 = CHR 0x00 \<or>
              (char_at path 0 = SHFS_HASH_INDICATOR_PREFIX \<and> char_at path 1 = CHR 0x00)
      then Some (open_found (Inr (vol_def_bentry st)) st)
      else map_option (\<lambda>r. open_found r st) (shfs_lookup_bentry_by_name (map of_char path) st))"

definition shfs_fio_openh :: "u8 list \<Rightarrow> ('w, 'u, 'z) fsst_scheme \<Rightarrow> (error + SHFS_FD option) \<times> ('w, 'u, 'z) fsst_scheme" where
  "shfs_fio_openh h st = open_found (shfs_lookup_bentry_by_hash h st) st"

definition shfs_fio_openf :: "SHFS_FD option \<Rightarrow> ('w, 'u, 'z) fsst_scheme \<Rightarrow> (error + SHFS_FD) \<times> ('w, 'u, 'z) fsst_scheme" where
  "shfs_fio_openf f st =
     (case f of
        None \<Rightarrow> (Inl (Errno EINVAL), st)
      | Some f \<Rightarrow>
          if \<not> shfs_mounted st then (Inl (Errno ENODEV), st)
          else let st = upd_bentry f (\<lambda>b. b\<lparr>refcount := refcount b + 1\<rparr>) st
               in (Inr f, st\<lparr>shfs_nb_open := shfs_nb_open st + 1\<rparr>))"

definition shfs_fio_close :: "SHFS_FD \<Rightarrow> ('w, 'u, 'z) fsst_scheme \<Rightarrow> ('w, 'u, 'z) fsst_scheme" where
  "shfs_fio_close f st =
     (let st = upd_bentry f (\<lambda>b. b\<lparr>refcount := refcount b - 1\<rparr>) st;
          st = (if refcount (bentry st f) = 0
                then upd_bentry f (\<lambda>b. b\<lparr>updatelock := sem_up (updatelock b)\<rparr>) st else st)
      in st\<lparr>shfs_nb_open := shfs_nb_open st - 1\<rparr>)"

section \<open>Attributes\<close>

text \<open>
  The bytes that are written to \<open>out\<close>; with \<open>outlen = 0\<close> the length wraps around and the
  copy runs over all of the memory behind \<open>out\<close>.
\<close>

definition fio_copy_out :: "u8 list \<Rightarrow> nat \<Rightarrow> nat \<Rightarrow> fault + u8 list" where
  "fio_copy_out src n outlen =
     (if outlen = 0 then Inl Out_of_bounds
      else let outlen = min outlen (n + 1) in Inr (strncpy src (outlen - 1) @ [0]))"

definition shfs_fio_name :: "SHFS_FD \<Rightarrow> nat \<Rightarrow> ('w, 'u, 'z) fsst_scheme \<Rightarrow> fault + u8 list" where
  "shfs_fio_name f outlen st =
     (case with_hentry st f he_name of Inl e \<Rightarrow> Inl e | Inr s \<Rightarrow> fio_copy_out s 64 outlen)"

definition shfs_fio_mime :: "SHFS_FD \<Rightarrow> nat \<Rightarrow> ('w, 'u, 'z) fsst_scheme \<Rightarrow> fault + u8 list" where
  "shfs_fio_mime f outlen st =
     (case with_hentry st f (\<lambda>e. fa_mime (SHFS_HENTRY_FILEATTR e)) of
        Inl e \<Rightarrow> Inl e | Inr s \<Rightarrow> fio_copy_out s 32 outlen)"

definition shfs_fio_link_rpath :: "SHFS_FD \<Rightarrow> nat \<Rightarrow> ('w, 'u, 'z) fsst_scheme \<Rightarrow> fault + u8 list" where
  "shfs_fio_link_rpath f outlen st =
     (case with_hentry st f (\<lambda>e. la_rpath (SHFS_HENTRY_LINKATTR e)) of
        Inl e \<Rightarrow> Inl e | Inr s \<Rightarrow> fio_copy_out s 71 outlen)"

definition shfs_fio_size :: "SHFS_FD \<Rightarrow> ('w, 'u, 'z) fsst_scheme \<Rightarrow> fault + u64" where
  "shfs_fio_size f st =
     with_hentry st f (\<lambda>e. if SHFS_HENTRY_ISLINK e then 0 else fa_len (SHFS_HENTRY_FILEATTR e))"

text \<open>\<open>shfs_fio_hash\<close>: \<open>out\<close> are the 64 bytes before the call, the result those after it.\<close>

definition shfs_fio_hash :: "SHFS_FD \<Rightarrow> u8 list \<Rightarrow> ('w, 'u, 'z) fsst_scheme \<Rightarrow> fault + u8 list" where
  "shfs_fio_hash f out st =
     (case with_hentry st f he_hash of Inl e \<Rightarrow> Inl e | Inr h \<Rightarrow> hash_copy out h (vol_hlen st))"

definition shfs_fio_islink :: "SHFS_FD \<Rightarrow> ('w, 'u, 'z) fsst_scheme \<Rightarrow> fault + bool" where
  "shfs_fio_islink f st = with_hentry st f SHFS_HENTRY_ISLINK"

definition shfs_fio_link_type :: "SHFS_FD \<Rightarrow> ('w, 'u, 'z) fsst_scheme \<Rightarrow> fault + u8" where
  "shfs_fio_link_type f st = with_hentry st f (\<lambda>e. la_type (SHFS_HENTRY_LINKATTR e))"

definition shfs_fio_link_rport :: "SHFS_FD \<Rightarrow> ('w, 'u, 'z) fsst_scheme \<Rightarrow> fault + u16" where
  "shfs_fio_link_rport f st = with_hentry st f (\<lambda>e. la_rport (SHFS_HENTRY_LINKATTR e))"

definition shfs_fio_link_rhost :: "SHFS_FD \<Rightarrow> ('w, 'u, 'z) fsst_scheme \<Rightarrow> fault + shfs_host" where
  "shfs_fio_link_rhost f st = with_hentry st f (\<lambda>e. la_rhost (SHFS_HENTRY_LINKATTR e))"

definition shfs_fio_get_cookie :: "SHFS_FD \<Rightarrow> ('w, 'u, 'z) fsst_scheme \<Rightarrow> addr option" where
  "shfs_fio_get_cookie f st = be_cookie (bentry st f)"

definition shfs_fio_set_cookie ::
    "SHFS_FD \<Rightarrow> addr option \<Rightarrow> ('w, 'u, 'z) fsst_scheme \<Rightarrow> (error + unit) \<times> ('w, 'u, 'z) fsst_scheme" where
  "shfs_fio_set_cookie f cookie st =
     (if be_cookie (bentry st f) \<noteq> None then (Inl (Errno EBUSY), st)
      else (Inr (), upd_bentry f (\<lambda>b. b\<lparr>be_cookie := cookie\<rparr>) st))"

section \<open>Places in a file\<close>

text \<open>The chunk size is a \<open>uint32_t\<close>, the sums and products are 64 bits wide.\<close>

definition shfs_fio_size_chks :: "shfs_f_attr \<Rightarrow> u32 \<Rightarrow> chk_t" where
  "shfs_fio_size_chks a chunksize = DIV_ROUND_UP (fa_offset a + fa_len a) (ucast chunksize)"

definition shfs_volchk_fchk :: "shfs_f_attr \<Rightarrow> chk_t \<Rightarrow> chk_t" where
  "shfs_volchk_fchk a fchk = fa_chunk a + fchk"

definition shfs_volchk_foff :: "shfs_f_attr \<Rightarrow> u32 \<Rightarrow> u64 \<Rightarrow> chk_t" where
  "shfs_volchk_foff a chunksize foff = (fa_offset a + foff) div ucast chunksize + fa_chunk a"

definition shfs_volchkoff_foff :: "shfs_f_attr \<Rightarrow> u32 \<Rightarrow> u64 \<Rightarrow> u64" where
  "shfs_volchkoff_foff a chunksize foff = (fa_offset a + foff) mod ucast chunksize"

definition shfs_is_fchk_in_bound :: "shfs_f_attr \<Rightarrow> u32 \<Rightarrow> chk_t \<Rightarrow> bool" where
  "shfs_is_fchk_in_bound a chunksize fchk \<longleftrightarrow> shfs_fio_size_chks a chunksize > fchk"

definition shfs_is_foff_in_bound :: "shfs_f_attr \<Rightarrow> u64 \<Rightarrow> bool" where
  "shfs_is_foff_in_bound a foff \<longleftrightarrow> fa_len a > foff"

section \<open>Reading\<close>

text \<open>
  The checks all four synchronous reads begin with. They give the file's attributes.
\<close>

definition fio_read_check :: "SHFS_FD \<Rightarrow> u64 \<Rightarrow> u64 \<Rightarrow> ('w, 'u, 'z) fsst_scheme \<Rightarrow> error + shfs_f_attr" where
  "fio_read_check f offset len st =
     (case with_hentry st f id of
        Inl e \<Rightarrow> Inl (Fault e)
      | Inr e \<Rightarrow>
          if SHFS_HENTRY_ISLINK e then Inl (Errno EINVAL)
          else let a = SHFS_HENTRY_FILEATTR e
               in if offset > fa_len a \<or> offset + len > fa_len a then Inl (Errno EINVAL) else Inr a)"

text \<open>
  Their loop. \<open>rd\<close> brings in a chunk and gives the address of its bytes, \<open>fin\<close> is what follows
  the copy.
\<close>

partial_function (option) fio_read_loop ::
    "(chk_t \<Rightarrow> ('w, 'u, 'z) fsst_scheme \<Rightarrow> ((error + addr \<times> 'h) \<times> ('w, 'u, 'z) fsst_scheme) option) \<Rightarrow>
     ('h \<Rightarrow> ('w, 'u, 'z) fsst_scheme \<Rightarrow> fault + ('w, 'u, 'z) fsst_scheme) \<Rightarrow>
     chk_t \<Rightarrow> u64 \<Rightarrow> u64 \<Rightarrow> addr \<Rightarrow> ('w, 'u, 'z) fsst_scheme \<Rightarrow>
     ((error + unit) \<times> ('w, 'u, 'z) fsst_scheme) option" where
  "fio_read_loop rd fin chk_off byt_off left ptr st =
     (if left = 0 then Some (Inr (), st)
      else case rd chk_off st of
             None \<Rightarrow> None
           | Some (Inl e, st) \<Rightarrow> Some (Inl e, st)
           | Some (Inr (src, h), st) \<Rightarrow>
               (let rlen = min (ucast (vol_chunksize st) - byt_off) left;
                    st = st\<lparr>bd_mem := mem_write ptr (mem_read (src + byt_off) (unat rlen) (bd_mem st)) (bd_mem st)\<rparr>
                in case fin h st of
                     Inl f \<Rightarrow> Some (Inl (Fault f), st)
                   | Inr st \<Rightarrow> fio_read_loop rd fin (chk_off + 1) 0 (left - rlen) (ptr + rlen) st))"

text \<open>The direct reads: a chunk-sized buffer of the heap, then the loop over \<open>shfs_read_chunk\<close>.\<close>

definition read_chunk_into ::
    "(chk_t \<Rightarrow> chk_t \<Rightarrow> bool \<Rightarrow> addr \<Rightarrow> ('w, 'u, 'z) fsst_scheme \<Rightarrow> ((error + unit) \<times> ('w, 'u, 'z) fsst_scheme) option) \<Rightarrow>
     addr \<Rightarrow> chk_t \<Rightarrow> ('w, 'u, 'z) fsst_scheme \<Rightarrow> ((error + addr \<times> unit) \<times> ('w, 'u, 'z) fsst_scheme) option" where
  "read_chunk_into io_chunk chk_buf chk st =
     map_option (apfst (map_sum id (\<lambda>_. (chk_buf, ())))) (io_chunk chk 1 False chk_buf st)"

definition fio_direct_read ::
    "'w heap \<Rightarrow>
     (chk_t \<Rightarrow> chk_t \<Rightarrow> bool \<Rightarrow> addr \<Rightarrow> ('w, 'u, 'z) fsst_scheme \<Rightarrow> ((error + unit) \<times> ('w, 'u, 'z) fsst_scheme) option) \<Rightarrow>
     SHFS_FD \<Rightarrow> u64 \<Rightarrow> addr \<Rightarrow> u64 \<Rightarrow> ('w, 'u, 'z) fsst_scheme \<Rightarrow>
     ((error + unit) \<times> ('w, 'u, 'z) fsst_scheme) option" where
  "fio_direct_read hp io_chunk f offset buf len st =
     (case fio_read_check f offset len st of
        Inl e \<Rightarrow> Some (Inl e, st)
      | Inr a \<Rightarrow>
          let (chk_buf, w) = hp_xmalloc hp (ucast (vol_chunksize st)) (ucast (vol_ioalign st)) (bd_world st);
              st = st\<lparr>bd_world := w\<rparr>
          in case chk_buf of
               None \<Rightarrow> Some (Inl (Errno ENOMEM), st)
             | Some chk_buf \<Rightarrow>
                 if vol_chunksize st = 0 then Some (Inl (Fault Div_by_zero), st)
                 else map_option (\<lambda>(r, st). (r, st\<lparr>bd_world := hp_xfree hp chk_buf (bd_world st)\<rparr>))
                        (fio_read_loop (read_chunk_into io_chunk chk_buf) (\<lambda>_ st. Inr st)
                           (shfs_volchk_foff a (vol_chunksize st) offset)
                           (shfs_volchkoff_foff a (vol_chunksize st) offset) len buf st))"

definition shfs_fio_read where
  "shfs_fio_read io hp ucb = fio_direct_read hp (shfs_io_chunk io ucb)"

definition shfs_fio_read_nosched where
  "shfs_fio_read_nosched io hp ucb = fio_direct_read hp (shfs_io_chunk_nosched io ucb)"

text \<open>The reads through the cache.\<close>

definition read_cached_chunk ::
    "(chk_t \<Rightarrow> ('w, 'u, 'z) fsst_scheme \<Rightarrow> ((error + addr) \<times> ('w, 'u, 'z) fsst_scheme) option) \<Rightarrow>
     chk_t \<Rightarrow> ('w, 'u, 'z) fsst_scheme \<Rightarrow> ((error + addr \<times> addr) \<times> ('w, 'u, 'z) fsst_scheme) option" where
  "read_cached_chunk cache_read chk st =
     (case cache_read chk st of
        None \<Rightarrow> None
      | Some (Inl e, st) \<Rightarrow> Some (Inl e, st)
      | Some (Inr c, st) \<Rightarrow> Some (Inr (ce_buffer (cce st c), c), st))"

definition fio_cached_read ::
    "'w heap \<Rightarrow> (chk_t \<Rightarrow> ('w, 'u, 'z) fsst_scheme \<Rightarrow> ((error + addr) \<times> ('w, 'u, 'z) fsst_scheme) option) \<Rightarrow>
     SHFS_FD \<Rightarrow> u64 \<Rightarrow> addr \<Rightarrow> u64 \<Rightarrow> ('w, 'u, 'z) fsst_scheme \<Rightarrow>
     ((error + unit) \<times> ('w, 'u, 'z) fsst_scheme) option" where
  "fio_cached_read hp cache_read f offset buf len st =
     (case fio_read_check f offset len st of
        Inl e \<Rightarrow> Some (Inl e, st)
      | Inr a \<Rightarrow>
          if vol_chunksize st = 0 then Some (Inl (Fault Div_by_zero), st)
          else fio_read_loop (read_cached_chunk cache_read) (shfs_cache_release hp)
                 (shfs_volchk_foff a (vol_chunksize st) offset)
                 (shfs_volchkoff_foff a (vol_chunksize st) offset) len buf st)"

definition shfs_fio_cache_read where
  "shfs_fio_cache_read io hp call = fio_cached_read hp (shfs_cache_read io hp call)"

definition shfs_fio_cache_read_nosched where
  "shfs_fio_cache_read_nosched io hp call = fio_cached_read hp (shfs_cache_read_nosched io hp call)"

definition shfs_fio_cache_aread ::
    "'w blkfront \<Rightarrow> 'w heap \<Rightarrow> ('u shfs_aiocb \<Rightarrow> addr \<Rightarrow> ('w, 'u, 'z) fsst_scheme \<Rightarrow> fault + ('w, 'u, 'z) fsst_scheme) \<Rightarrow>
     SHFS_FD \<Rightarrow> chk_t \<Rightarrow> 'u shfs_aiocb option \<Rightarrow> ('w, 'u, 'z) fsst_scheme \<Rightarrow>
     ((error + addr \<times> addr option) \<times> ('w, 'u, 'z) fsst_scheme) option" where
  "shfs_fio_cache_aread io hp call f offset cb st =
     (case with_hentry st f SHFS_HENTRY_FILEATTR of
        Inl e \<Rightarrow> Some (Inl (Fault e), st)
      | Inr a \<Rightarrow>
          if vol_chunksize st = 0 then Some (Inl (Fault Div_by_zero), st)
          else if \<not> shfs_is_fchk_in_bound a (vol_chunksize st) offset then Some (Inl (Errno EINVAL), st)
          else shfs_cache_aread io hp call (shfs_volchk_fchk a offset) cb st)"

section \<open>Open files\<close>

lemma bentry_upd [simp]:
  "bentry (upd_bentry f g st) x = (if x = f then g (bentry st f) else bentry st x)"
  "shfs_nb_open (upd_bentry f g st) = shfs_nb_open st"
  by (simp_all add: bentry_def upd_bentry_def)

lemma bentry_nb [simp]: "bentry (st\<lparr>shfs_nb_open := n\<rparr>) x = bentry st x"
  by (simp add: bentry_def)

text \<open>
  The states that opening and closing files reach from a freshly mounted volume; \<open>H\<close> are the
  descriptors that are open. \<open>other\<close> is everything that leaves the bucket entries and the
  counter alone, such as all I/O. Fewer than \<open>2 ^ 32\<close> descriptors are open at a time.
\<close>

inductive fio_reach :: "('w, 'u, 'z) fsst_scheme \<Rightarrow> SHFS_FD multiset \<Rightarrow> bool" where
  start: "shfs_nb_open st = 0 \<Longrightarrow> (\<And>f. refcount (bentry st f) = 0) \<Longrightarrow>
    (\<And>f. in_table (vol_bt st) f \<Longrightarrow> updatelock (bentry st f) = 1) \<Longrightarrow> fio_reach st {#}"
| open_path: "fio_reach st H \<Longrightarrow> size H + 1 < 2 ^ 32 \<Longrightarrow> shfs_fio_open h0 path st = Some (Inr (Some f), st') \<Longrightarrow> fio_reach st' (add_mset f H)"
| open_hash: "fio_reach st H \<Longrightarrow> size H + 1 < 2 ^ 32 \<Longrightarrow> shfs_fio_openh h st = (Inr (Some f), st') \<Longrightarrow> fio_reach st' (add_mset f H)"
| open_clone: "fio_reach st H \<Longrightarrow> size H + 1 < 2 ^ 32 \<Longrightarrow> f \<in># H \<Longrightarrow> shfs_fio_openf (Some f) st = (Inr g, st') \<Longrightarrow>
    fio_reach st' (add_mset g H)"
| close: "fio_reach st H \<Longrightarrow> f \<in># H \<Longrightarrow> fio_reach (shfs_fio_close f st) (H - {#f#})"
| cookie: "fio_reach st H \<Longrightarrow> shfs_fio_set_cookie f c st = (r, st') \<Longrightarrow> fio_reach st' H"
| other: "fio_reach st H \<Longrightarrow> bentry st' = bentry st \<Longrightarrow> in_table (vol_bt st') = in_table (vol_bt st) \<Longrightarrow> shfs_nb_open st' = shfs_nb_open st \<Longrightarrow> fio_reach st' H"

definition fio_inv :: "('w, 'u, 'z) fsst_scheme \<Rightarrow> SHFS_FD multiset \<Rightarrow> bool" where
  "fio_inv st H \<longleftrightarrow>
     size H < 2 ^ 32 \<and> shfs_nb_open st = of_nat (size H) \<and>
     (\<forall>f. refcount (bentry st f) = of_nat (count H f)) \<and>
     (\<forall>f. in_table (vol_bt st) f \<longrightarrow> updatelock (bentry st f) = (if f \<in># H then 0 else 1))"

lemma count_small: "size H < 2 ^ 32 \<Longrightarrow> (of_nat (count H f) :: u32) = 0 \<longleftrightarrow> f \<notin># H"
proof -
  assume "size H < 2 ^ 32"
  then have "count H f < 2 ^ LENGTH(32)" using count_le_size [of H f] by simp
  from unat_of_nat_less [OF this] show ?thesis by (simp add: word_unat_eq_iff not_in_iff)
qed

lemma fio_invI:
  assumes "size H < 2 ^ 32" "shfs_nb_open st = of_nat (size H)"
    and "\<And>f. refcount (bentry st f) = of_nat (count H f)"
    and "\<And>f. in_table (vol_bt st) f \<Longrightarrow> updatelock (bentry st f) = (if f \<in># H then 0 else 1)"
  shows "fio_inv st H"
  unfolding fio_inv_def using assms by blast

lemma fio_invD:
  assumes "fio_inv st H"
  shows "size H < 2 ^ 32" "shfs_nb_open st = of_nat (size H)" "refcount (bentry st f) = of_nat (count H f)"
    "in_table (vol_bt st) f \<Longrightarrow> updatelock (bentry st f) = (if f \<in># H then 0 else 1)"
  using assms unfolding fio_inv_def by blast+

lemma in_table_upd [simp]:
  "in_table (vol_bt (upd_bentry f g st)) = in_table (vol_bt st)"
  by (simp add: upd_bentry_def in_table_def fun_eq_iff)

lemma open_bentry_effect:
  assumes "shfs_fio_open_bentry el st = (Inr f, st')"
  shows "f = el" "\<not> be_update (bentry st f)" "shfs_nb_open st' = shfs_nb_open st + 1"
    "in_table (vol_bt st') = in_table (vol_bt st)"
    "bentry st' x = (if x = f then (let b = bentry st f in
       (if refcount b = 0 then b\<lparr>updatelock := sem_trydown (updatelock b), be_cookie := None\<rparr> else b)
         \<lparr>refcount := refcount b + 1\<rparr>) else bentry st x)"
proof -
  have u: "\<not> be_update (bentry st el)" using assms by (simp add: shfs_fio_open_bentry_def split: if_splits)
  have e: "f = el" "st' = snd (shfs_fio_open_bentry el st)"
    using assms u by (auto simp: shfs_fio_open_bentry_def Let_def)
  show "f = el" "\<not> be_update (bentry st f)" using e u by simp_all
  show "shfs_nb_open st' = shfs_nb_open st + 1"
    using u by (simp add: e(2) shfs_fio_open_bentry_def Let_def shfs_fio_clear_cookie_def)
  show "in_table (vol_bt st') = in_table (vol_bt st)"
    using u by (simp add: e(2) shfs_fio_open_bentry_def Let_def shfs_fio_clear_cookie_def)
  show "bentry st' x = (if x = f then (let b = bentry st f in
       (if refcount b = 0 then b\<lparr>updatelock := sem_trydown (updatelock b), be_cookie := None\<rparr> else b)
         \<lparr>refcount := refcount b + 1\<rparr>) else bentry st x)"
    using u by (simp add: e shfs_fio_open_bentry_def Let_def shfs_fio_clear_cookie_def)
qed

lemma fio_inv_open:
  assumes inv: "fio_inv st H" and n: "size H + 1 < 2 ^ 32" and r: "shfs_fio_open_bentry el st = (Inr f, st')"
  shows "fio_inv st' (add_mset f H)"
proof (rule fio_invI)
  note I = fio_invD [OF inv] and E = open_bentry_effect [OF r]
  note z = count_small [OF I(1)]
  show "size (add_mset f H) < 2 ^ 32" "shfs_nb_open st' = of_nat (size (add_mset f H))"
    using n I(2) E(3) by simp_all
  show "refcount (bentry st' x) = of_nat (count (add_mset f H) x)" for x
    using I(3) [of x] by (cases "x = f") (simp_all add: E(5) Let_def)
  show "updatelock (bentry st' x) = (if x \<in># add_mset f H then 0 else 1)" if "in_table (vol_bt st') x" for x
    using I(3) [of x] I(4) [of x] that z [of f] by (cases "x = f") (simp_all add: E(4,5) Let_def sem_trydown_def)
qed

lemma open_found_Inr:
  assumes "open_found r st = (Inr (Some f), st')"
  shows "\<exists>el. r = Inr (Some el) \<and> shfs_fio_open_bentry el st = (Inr f, st')"
proof (cases r)
  case (Inr x)
  then show ?thesis using assms
    by (cases x; cases "fst (shfs_fio_open_bentry (the x) st)") (auto simp: open_found_def prod_eq_iff)
qed (use assms in \<open>simp add: open_found_def\<close>)

lemma fio_inv_openf:
  assumes inv: "fio_inv st H" and n: "size H + 1 < 2 ^ 32" and f: "f \<in># H" and r: "shfs_fio_openf (Some f) st = (Inr g, st')"
  shows "fio_inv st' (add_mset g H)"
proof (rule fio_invI)
  have g: "g = f" "st' = upd_bentry f (\<lambda>b. b\<lparr>refcount := refcount b + 1\<rparr>) st\<lparr>shfs_nb_open := shfs_nb_open st + 1\<rparr>"
    using r by (auto simp: shfs_fio_openf_def split: if_splits)
  note I = fio_invD [OF inv]
  show "size (add_mset g H) < 2 ^ 32" "shfs_nb_open st' = of_nat (size (add_mset g H))"
    using n I(2) g by simp_all
  show "refcount (bentry st' x) = of_nat (count (add_mset g H) x)" for x
    using I(3) [of x] by (cases "x = f") (simp_all add: g)
  show "updatelock (bentry st' x) = (if x \<in># add_mset g H then 0 else 1)" if "in_table (vol_bt st') x" for x
    using I(4) [of x] that f by (cases "x = f") (simp_all add: g)
qed

lemma close_effect:
  "refcount (bentry (shfs_fio_close f st) x) = (if x = f then refcount (bentry st f) - 1 else refcount (bentry st x))"
  "updatelock (bentry (shfs_fio_close f st) x) =
     (if x = f \<and> refcount (bentry st f) - 1 = 0 then updatelock (bentry st f) + 1 else updatelock (bentry st x))"
  "shfs_nb_open (shfs_fio_close f st) = shfs_nb_open st - 1"
  "in_table (vol_bt (shfs_fio_close f st)) = in_table (vol_bt st)"
  by (simp_all add: shfs_fio_close_def Let_def sem_up_def)

lemma fio_inv_close:
  assumes inv: "fio_inv st H" and f: "f \<in># H"
  shows "fio_inv (shfs_fio_close f st) (H - {#f#})"
proof (rule fio_invI)
  let ?H = "H - {#f#}"
  note I = fio_invD [OF inv]
  have H: "H = add_mset f ?H" using f by simp
  have s: "size H = size ?H + 1" by (subst H) simp
  then show n: "size ?H < 2 ^ 32" using I(1) by simp
  show "shfs_nb_open (shfs_fio_close f st) = of_nat (size ?H)"
    using I(2) s by (simp add: close_effect)
  have c: "(of_nat (count H f) :: u32) = of_nat (count ?H f) + 1" by (subst H) simp
  have r: "refcount (bentry st f) - 1 = of_nat (count ?H f)"
    unfolding I(3) c by (rule add_diff_cancel_right')
  have k: "count ?H x = count H x" if "x \<noteq> f" for x using that by simp
  show "refcount (bentry (shfs_fio_close f st) x) = of_nat (count ?H x)" for x
  proof (cases "x = f")
    case True
    then show ?thesis using r by (simp only: close_effect if_True refl)
  next
    case False
    then show ?thesis using k [OF False] I(3) [of x] by (simp only: close_effect if_False)
  qed
  show "updatelock (bentry (shfs_fio_close f st) x) = (if x \<in># ?H then 0 else 1)"
    if "in_table (vol_bt (shfs_fio_close f st)) x" for x
  proof (cases "x = f")
    case True
    have u: "updatelock (bentry st f) = 0" using I(4) [of f] f that True by (simp add: close_effect)
    show ?thesis unfolding True close_effect r u count_small [OF n]
      by (simp only: refl simp_thms if_True if_False add_0 split: if_split) blast
  next
    case False
    have "x \<in># ?H \<longleftrightarrow> x \<in># H" unfolding count_greater_zero_iff [symmetric] k [OF False] ..
    then show ?thesis using I(4) [of x] that False by (simp only: close_effect if_False simp_thms)
  qed
qed

lemma fio_reach_inv: "fio_reach st H \<Longrightarrow> fio_inv st H"
proof (induction rule: fio_reach.induct)
  case (start st)
  then show ?case by (simp add: fio_inv_def)
next
  case (open_path st H h0 path f st')
  then obtain el where "shfs_fio_open_bentry el st = (Inr f, st')"
    by (auto simp: shfs_fio_open_def split: if_splits option.splits dest!: open_found_Inr)
  with open_path show ?case using fio_inv_open by blast
next
  case (open_hash st H h f st')
  then obtain el where "shfs_fio_open_bentry el st = (Inr f, st')"
    by (auto simp: shfs_fio_openh_def dest!: open_found_Inr)
  with open_hash show ?case using fio_inv_open by blast
next
  case (open_clone st H f g st')
  then show ?case by (intro fio_inv_openf) assumption+
next
  case (close st H f)
  then show ?case by (intro fio_inv_close) assumption+
next
  case (cookie st H f c r st')
  note I = fio_invD [OF cookie.IH]
  have "st' = st \<or> st' = upd_bentry f (\<lambda>b. b\<lparr>be_cookie := c\<rparr>) st"
    using cookie(2) by (cases "be_cookie (bentry st f)") (simp_all add: shfs_fio_set_cookie_def)
  then have "refcount (bentry st' x) = refcount (bentry st x) \<and> updatelock (bentry st' x) = updatelock (bentry st x) \<and>
      shfs_nb_open st' = shfs_nb_open st \<and> in_table (vol_bt st') = in_table (vol_bt st)" for x
    by (elim disjE) simp_all
  with I show ?case by (intro fio_invI) simp_all
next
  case (other st H st')
  then show ?case by (simp add: fio_inv_def)
qed

end
