(* ===== verification/FioProps.thy ===== *)
theory FioProps
  imports Prelude DList HashVal Htable Btable ShfsDefs Blkdev Aio Cache CacheProps Fio
begin

text \<open>
  What opening, closing and the checks of a read guarantee: reference counts and update locks,
  the file a path leads to, and the bounds of a read.
\<close>

section \<open>A mounted volume with one file\<close>

text \<open>
  The entry in slot \<open>(1, 0)\<close> of the table is the file \<open>a.py\<close> of 6000 bytes from chunk 5 on,
  whose hash-table entry lies at address 8192.
\<close>

definition sample_bt :: btable where
  "sample_bt = \<lparr>nb_bkts = 2, el_per_bkt = 2, ht_hlen = 8,
     ht_list = ht_list sample_htable, ht_links = ht_links sample_htable, ht_bkts = ht_bkts sample_htable,
     ht_private = (\<lambda>_. \<lparr>hentry_htchunk = 0, hentry_htoffset = 0, be_hentry = Some 8192, refcount = 0,
       updatelock = 1, be_update = False, be_cookie = None\<rparr>)\<rparr>"

definition sample_attr :: shfs_f_attr where
  "sample_attr = \<lparr>fa_chunk = 5, fa_offset = 0, fa_len = 6000, fa_mime = replicate 32 0, fa_encoding = replicate 16 0\<rparr>"

definition sample_file :: shfs_hentry where
  "sample_file = \<lparr>he_hash = replicate 8 1 @ replicate 56 0, he_attr = f_attr_put sample_attr @ replicate 35 0,
     he_ts_creation = 0, he_flags = 0, he_name = [97, 46, 112, 121] @ replicate 60 0\<rparr>"

definition sample_fs :: "(addr list, nat) fsst" where
  "sample_fs =
     cachest.extend (sample_cachest\<lparr>bd_mem := mem_write 8192 (hentry_put sample_file) (\<lambda>_. 0)\<rparr>)
       \<lparr>shfs_nb_open = 0, vol_uuid = [], vol_volname = [], vol_ts_creation = 0, vol_bt = sample_bt,
        vol_htable_chunk_cache = [Some 8192], vol_remount_chunk_buffer = 0, vol_htable_ref = 2,
        vol_htable_bak_ref = 0, vol_htable_len = 1, vol_htable_nb_buckets = 2, vol_htable_nb_entries = 4,
        vol_htable_nb_entries_per_bucket = 2, vol_htable_nb_entries_per_chunk = 16, vol_hlen = 8,
        vol_def_bentry = None, shfs_mount_lock = 1\<rparr>"

lemma sample_fs_simps [simp]:
  "shfs_mounted sample_fs" "shfs_nb_open sample_fs = 0" "vol_bt sample_fs = sample_bt"
  "vol_htable_chunk_cache sample_fs = [Some 8192]" "vol_def_bentry sample_fs = None" "vol_hlen sample_fs = 8"
  "bd_mem sample_fs = mem_write 8192 (hentry_put sample_file) (\<lambda>_. 0)"
  "bentry sample_fs f = \<lparr>hentry_htchunk = 0, hentry_htoffset = 0, be_hentry = Some 8192, refcount = 0,
       updatelock = 1, be_update = False, be_cookie = None\<rparr>"
  by (simp_all add: sample_fs_def cachest.defs sample_cachest_def aiost.defs sample_aiost_def bdst.defs sample_bdst_def
      bentry_def sample_bt_def)

lemma sample_file_wf: "hentry_wf sample_file" "length (hentry_put sample_file) = 244"
  by (simp_all add: hentry_wf_def hentry_put_def sample_file_def f_attr_put_def sample_attr_def)

lemma sample_file_at: "hentry_at sample_fs 8192 = sample_file"
proof -
  have "hentry_get (hentry_put sample_file @ []) = sample_file" by (rule hentry_get_put [OF sample_file_wf(1)])
  then show ?thesis
    using mem_read_write_self [of "hentry_put sample_file" 8192 "\<lambda>_. 0"] sample_file_wf(2) by (simp add: hentry_at_def)
qed

lemma sample_file_attr: "SHFS_HENTRY_FILEATTR sample_file = sample_attr"
proof -
  have "SHFS_HENTRY_FILEATTR (sample_file\<lparr>he_attr := f_attr_put sample_attr @ replicate 35 0\<rparr>) = sample_attr"
    by (rule f_attr_get_put) (simp_all add: sample_attr_def)
  then show ?thesis by (simp add: sample_file_def)
qed

section \<open>Open descriptors\<close>

text \<open>
  C3: however files are opened by path, by hash and by cloning, and closed, with the failures
  in between: the reference count of an entry is the number of its open descriptors, the
  volume's counter is the number of all of them, and a table entry's update lock, which remounting
  and unmounting wait for, is taken exactly while the entry is open.
\<close>

theorem fio_open_close_counts:
  assumes "fio_reach st H"
  shows "unat (shfs_nb_open st) = size H \<and> unat (refcount (bentry st f)) = count H f \<and>
    (in_table (vol_bt st) f \<longrightarrow> updatelock (bentry st f) = (if f \<in># H then 0 else 1))"
proof -
  note I = fio_invD [OF fio_reach_inv [OF assms]]
  have "count H f < 2 ^ LENGTH(32)" "size H < 2 ^ LENGTH(32)" using I(1) count_le_size [of H f] by simp_all
  then show ?thesis using I(2-4) by (simp add: unat_of_nat_less)
qed

section \<open>Opening by name\<close>

text \<open>The name of an entry: its bytes up to the first zero, all 64 when there is none.\<close>

definition entry_name :: "('w, 'u, 'z) fsst_scheme \<Rightarrow> elref \<Rightarrow> u8 list" where
  "entry_name st el =
     (case be_hentry (bentry st el) of
        None \<Rightarrow> []
      | Some p \<Rightarrow> takeWhile (\<lambda>x. x \<noteq> 0) (take 64 (he_name (hentry_at st p))))"

text \<open>The table that mounting sets up: each entry points to its hash-table entry in the loaded chunks.\<close>

definition bentries_ok :: "('w, 'u, 'z) fsst_scheme \<Rightarrow> elref list \<Rightarrow> bool" where
  "bentries_ok st els \<longleftrightarrow> foreach_htable_el (vol_bt st) = Some els \<and>
     (\<forall>el \<in> set els. \<exists>p. cached_chunk st el = Inr (Some p) \<and>
        be_hentry (bentry st el) = Some (p + hentry_htoffset (bentry st el)))"

lemma strncmp_name:
  assumes "0 \<notin> set name" and "length name \<le> n"
  shows "strncmp_0 name b n \<longleftrightarrow> takeWhile (\<lambda>x. x \<noteq> 0) (take n b) = name"
proof -
  have "takeWhile (\<lambda>x. x \<noteq> 0) name = name" using assms(1) by (auto simp: takeWhile_eq_all_conv)
  with assms(2) have "takeWhile (\<lambda>x. x \<noteq> 0) (take n name) = name" by simp
  then show ?thesis unfolding strncmp_0_def by (simp only: eq_commute)
qed

lemma lookup_name_loop_find:
  assumes "\<forall>el \<in> set els. \<exists>p. cached_chunk st el = Inr (Some p) \<and>
        be_hentry (bentry st el) = Some (p + hentry_htoffset (bentry st el))" and "0 \<notin> set name"
  shows "lookup_name_loop name els st = Inr (find (\<lambda>el. entry_name st el = name) els)"
  using assms(1)
proof (induction els)
  case (Cons el els)
  then obtain p where p: "cached_chunk st el = Inr (Some p)"
    "be_hentry (bentry st el) = Some (p + hentry_htoffset (bentry st el))" by auto
  show ?case
  proof (cases "length name > 64")
    case True
    have "length (entry_name st el) \<le> 64"
      using length_takeWhile_le [of "\<lambda>x. x \<noteq> 0" "take 64 (he_name (hentry_at st (p + hentry_htoffset (bentry st el))))"]
      by (simp add: entry_name_def p(2))
    then show ?thesis using Cons True p by auto
  next
    case False
    then show ?thesis using Cons p strncmp_name [OF assms(2), of 64] by (auto simp: entry_name_def)
  qed
qed simp

lemma of_char_NUL: "(of_char c :: u8) = 0 \<longleftrightarrow> c = CHR 0x00"
proof -
  have "(of_char c :: nat) < 2 ^ LENGTH(8)" by simp
  from unat_of_nat_less [OF this] have "unat (of_char c :: u8) = of_char c" by (simp add: of_nat_of_char)
  then have "(of_char c :: u8) = 0 \<longleftrightarrow> (of_char c :: nat) = of_char (CHR 0x00)" by (simp add: word_unat_eq_iff)
  then show ?thesis by (simp only: of_char_eq_iff)
qed

text \<open>
  C19: opening a path that is a plain name (not empty, and not \<open>?\<close> with a hash) gives the first
  entry, in the order in which the entries were loaded, whose whole name is the path; a path
  longer than a name can be finds nothing. The result is a descriptor with its reference
  taken, \<open>EBUSY\<close> while that entry is being updated, and \<open>ENOENT\<close> when there is none.
\<close>

theorem shfs_fio_open_by_name:
  assumes mnt: "shfs_mounted st" and ok: "bentries_ok st els"
    and path: "path \<noteq> ''''" "hd path \<noteq> CHR ''?''" "CHR 0x00 \<notin> set path"
  shows "shfs_fio_open h0 path st = Some
    (case find (\<lambda>el. entry_name st el = map of_char path) els of
       None \<Rightarrow> (Inl (Errno ENOENT), st)
     | Some el \<Rightarrow>
         if be_update (bentry st el) then (Inl (Errno EBUSY), st)
         else (Inr (Some el), snd (shfs_fio_open_bentry el st)))"
proof -
  have z: "0 \<notin> set (map of_char path :: u8 list)" using path(3) of_char_NUL by fastforce
  have n: "shfs_lookup_bentry_by_name (map of_char path) st = Some (Inr (find (\<lambda>el. entry_name st el = map of_char path) els))"
    using ok lookup_name_loop_find [OF _ z, of els st] by (simp add: bentries_ok_def shfs_lookup_bentry_by_name_def)
  obtain c cs where cs: "path = c # cs" using path(1) by (cases path) auto
  have c: "char_at path 0 = hd path" "hd path \<noteq> CHR 0x00" using path(3) by (auto simp: cs char_at_def)
  have "shfs_fio_open h0 path st =
      Some (open_found (Inr (find (\<lambda>el. entry_name st el = map of_char path) els)) st)"
    using mnt path(2) c n by (simp add: shfs_fio_open_def)
  then show ?thesis
    by (auto simp: open_found_def shfs_fio_open_bentry_def Let_def split: option.split)
qed

lemma sample_bentries_ok: "bentries_ok sample_fs [(1, 0)]"
  by (simp add: bentries_ok_def cached_chunk_def foreach_htable_el_def dlist_foreach_def dlist_walk.simps
      dlist_next_el_def sample_bt_def sample_htable_def)

lemma sample_entry_name: "entry_name sample_fs (Suc 0, 0) = [97, 46, 112, 121]"
  using sample_file_at by (simp add: entry_name_def) (simp add: sample_file_def)

theorem shfs_fio_open_by_name_witness:
  "shfs_fio_open (replicate 64 0) ''a.py'' sample_fs =
     Some (Inr (Some (1, 0)), snd (shfs_fio_open_bentry (1, 0) sample_fs)) \<and>
   shfs_fio_open (replicate 64 0) ''a.pyc'' sample_fs = Some (Inl (Errno ENOENT), sample_fs)"
  using shfs_fio_open_by_name [OF _ sample_bentries_ok, of "''a.py''" "replicate 64 0"]
    shfs_fio_open_by_name [OF _ sample_bentries_ok, of "''a.pyc''" "replicate 64 0"]
  by (simp add: sample_entry_name)

theorem fio_open_close_counts_witness:
  "\<exists>st1 st2. shfs_fio_open (replicate 64 0) ''a.py'' sample_fs = Some (Inr (Some (1, 0)), st1) \<and>
     shfs_fio_openf (Some (1, 0)) st1 = (Inr (1, 0), st2) \<and>
     unat (shfs_nb_open st2) = 2 \<and> updatelock (bentry (shfs_fio_close (1, 0) st2) (1, 0)) = 0"
proof -
  let ?f = "(1, 0) :: SHFS_FD"
  let ?st1 = "snd (shfs_fio_open_bentry ?f sample_fs)"
  let ?st2 = "upd_bentry ?f (\<lambda>b. b\<lparr>refcount := refcount b + 1\<rparr>) ?st1\<lparr>shfs_nb_open := shfs_nb_open ?st1 + 1\<rparr>"
  have "fst (shfs_fio_open_bentry ?f sample_fs) = Inr ?f" by (simp add: shfs_fio_open_bentry_def Let_def)
  then have "open_found (Inr (Some ?f)) sample_fs = (Inr (Some ?f), ?st1)"
    by (simp add: open_found_def prod_eq_iff)
  moreover have "shfs_lookup_bentry_by_name [97, 46, 112, 121] sample_fs = Some (Inr (Some ?f))"
    using sample_bentries_ok lookup_name_loop_find [of "[?f]" sample_fs "[97, 46, 112, 121]"]
    by (simp add: bentries_ok_def shfs_lookup_bentry_by_name_def sample_entry_name)
  ultimately have 1: "shfs_fio_open (replicate 64 0) ''a.py'' sample_fs = Some (Inr (Some ?f), ?st1)"
    by (simp add: shfs_fio_open_def char_at_def)
  have "shfs_mounted ?st1"
    by (simp add: shfs_fio_open_bentry_def Let_def shfs_fio_clear_cookie_def upd_bentry_def)
  then have 2: "shfs_fio_openf (Some ?f) ?st1 = (Inr ?f, ?st2)" by (simp add: shfs_fio_openf_def)
  have "fio_reach sample_fs {#}" by (rule fio_reach.start) simp_all
  from fio_reach.open_path [OF this _ 1] have r1: "fio_reach ?st1 {#?f#}" by simp
  from fio_reach.open_clone [OF r1 _ _ 2] have r2: "fio_reach ?st2 {#?f, ?f#}" by simp
  have t: "in_table (vol_bt (shfs_fio_close ?f ?st2)) ?f"
    by (simp add: close_effect shfs_fio_open_bentry_def Let_def shfs_fio_clear_cookie_def)
       (simp add: in_table_def sample_bt_def)
  have "unat (shfs_nb_open ?st2) = 2" using fio_open_close_counts [OF r2] by simp
  moreover have "updatelock (bentry (shfs_fio_close ?f ?st2) ?f) = 0"
    using fio_open_close_counts [OF fio_reach.close [OF r2], of ?f ?f] t by simp
  ultimately show ?thesis using 1 2 by (intro exI [of _ ?st1] exI [of _ ?st2] conjI)
qed

section \<open>The bounds of a read\<close>

text \<open>
  C38: a read of a regular file is refused when it starts behind the file's end, and otherwise
  accepted when \<open>offset + len\<close>, a 64-bit sum, is not above the file's size. A range whose end
  is a number below \<open>2 ^ 64\<close> is thus accepted exactly when it lies in the file; but a length
  that makes the sum wrap around is accepted too, for every offset above zero: a defect.
\<close>

theorem fio_read_check_wraps:
  assumes e: "with_hentry st f id = Inr e" and reg: "\<not> SHFS_HENTRY_ISLINK e"
  defines "L \<equiv> fa_len (SHFS_HENTRY_FILEATTR e)"
  shows "fio_read_check f offset len st =
      (if offset \<le> L \<and> (unat offset + unat len) mod 2 ^ 64 \<le> unat L then Inr (SHFS_HENTRY_FILEATTR e)
       else Inl (Errno EINVAL)) \<and>
    (unat offset + unat len < 2 ^ 64 \<longrightarrow>
      (fio_read_check f offset len st = Inr (SHFS_HENTRY_FILEATTR e) \<longleftrightarrow> unat offset + unat len \<le> unat L)) \<and>
    (0 < offset \<and> offset \<le> L \<longrightarrow> fio_read_check f offset (- offset) st = Inr (SHFS_HENTRY_FILEATTR e) \<and>
       unat offset + unat (- offset) = 2 ^ 64)"
proof -
  have c: "fio_read_check f offset len st =
      (if offset \<le> L \<and> (unat offset + unat len) mod 2 ^ 64 \<le> unat L then Inr (SHFS_HENTRY_FILEATTR e)
       else Inl (Errno EINVAL))" for len
  proof -
    have "(fa_len (SHFS_HENTRY_FILEATTR e) < offset \<or> fa_len (SHFS_HENTRY_FILEATTR e) < offset + len) \<longleftrightarrow>
        \<not> (offset \<le> L \<and> (unat offset + unat len) mod 2 ^ 64 \<le> unat L)"
      by (auto simp: L_def not_less word_le_nat_alt unat_word_ariths(1) not_le [symmetric])
    then show ?thesis using e reg unfolding fio_read_check_def Let_def by simp
  qed
  have "unat offset + unat (- offset) = 2 ^ 64" if "0 < offset"
  proof -
    have "(unat offset + unat (- offset)) mod 2 ^ 64 = 0" using unat_word_ariths(1) [of offset "- offset"] by simp
    then obtain k where k: "unat offset + unat (- offset) = 2 ^ 64 * k" by auto
    have "0 < unat offset" using that by (simp add: unat_gt_0)
    moreover have "unat offset < 2 ^ 64" "unat (- offset) < 2 ^ 64"
      by (rule order_less_le_trans [OF unsigned_less], simp)+
    ultimately have "0 < k" "k < 2" using k by (cases k; simp)+
    then show ?thesis using k by simp
  qed
  with c c [of "- offset"] show ?thesis by (auto simp: word_le_nat_alt)
qed

theorem fio_read_check_wraps_witness:
  "fio_read_check (1, 0) 5 (- 5) sample_fs = Inr sample_attr"
proof -
  have e: "with_hentry sample_fs (1, 0) id = Inr sample_file" "\<not> SHFS_HENTRY_ISLINK sample_file"
    using sample_file_at by (simp_all add: with_hentry_def SHFS_HENTRY_ISLINK_def sample_file_def)
  from fio_read_check_wraps [OF e, of 5 0] show ?thesis by (simp add: sample_file_attr) (simp add: sample_attr_def)
qed

end
