(* ===== verification/Diskio.thy ===== *)
theory Diskio
  imports Prelude Mempool Blkdev Cache
begin

text \<open>
  The disk layer of the FAT driver (\<open>diskio.h\<close>, \<open>diskio.c\<close>) over the block devices. It holds
  one device, whatever drive number its calls name; FatFs itself is not in the repository.
\<close>

section \<open>State\<close>

datatype dresult = RES_OK | RES_ERROR | RES_WRPRT | RES_NOTRDY | RES_PARERR

abbreviation STA_OK :: u8 where "STA_OK \<equiv> 0"
abbreviation STA_NOINIT :: u8 where "STA_NOINIT \<equiv> 1"
abbreviation XEN_XVDA_DEVID :: u32 where "XEN_XVDA_DEVID \<equiv> 51712"
abbreviation CTRL_SYNC :: u8 where "CTRL_SYNC \<equiv> 0"
abbreviation GET_SECTOR_COUNT :: u8 where "GET_SECTOR_COUNT \<equiv> 1"
abbreviation GET_SECTOR_SIZE :: u8 where "GET_SECTOR_SIZE \<equiv> 2"
abbreviation GET_BLOCK_SIZE :: u8 where "GET_BLOCK_SIZE \<equiv> 3"

record ('w, 'c) diskst = "('w, 'c) bdst" +
  disk_bd :: "addr option"

section \<open>Operations\<close>

definition disk_status :: "u8 \<Rightarrow> ('w, 'c, 'z) diskst_scheme \<Rightarrow> u8" where
  "disk_status pdrv st = (if disk_bd st = None then STA_NOINIT else STA_OK)"

definition disk_initialize ::
    "'w blkfront \<Rightarrow> addr option \<Rightarrow> addr option \<Rightarrow> addr option list option \<Rightarrow> u8 \<Rightarrow>
     ('w, 'c, 'z) diskst_scheme \<Rightarrow> ((fault + u8) \<times> ('w, 'c, 'z) diskst_scheme) option" where
  "disk_initialize io xbd xp xr pdrv st =
     (case open_blkdev io xbd xp xr (ucast pdrv * 16 + XEN_XVDA_DEVID) O_RDWR st of
        None \<Rightarrow> None
      | Some (Inl (Fault f), st) \<Rightarrow> Some (Inl f, st)
      | Some (Inl (Errno e), st) \<Rightarrow> Some (Inr STA_NOINIT, st\<lparr>disk_bd := None\<rparr>)
      | Some (Inr bd, st) \<Rightarrow> Some (Inr STA_OK, st\<lparr>disk_bd := Some bd\<rparr>))"

text \<open>The product of \<open>count\<close> and the sector size is 32 bits wide.\<close>

definition disk_slen :: "blkdev \<Rightarrow> u32 \<Rightarrow> sector_t" where
  "disk_slen d cnt = ucast (cnt * blkdev_ssize d)"

definition xfree_opt :: "'w heap \<Rightarrow> addr option \<Rightarrow> ('w, 'c, 'z) bdst_scheme \<Rightarrow> ('w, 'c, 'z) bdst_scheme" where
  "xfree_opt hp p st = (case p of None \<Rightarrow> st | Some a \<Rightarrow> st\<lparr>bd_world := hp_xfree hp a (bd_world st)\<rparr>)"

text \<open>\<open>memcpy\<close> of \<open>n\<close> bytes; a null pointer on either side is an error when there is a byte to copy.\<close>

definition memcpy_opt :: "addr option \<Rightarrow> addr option \<Rightarrow> nat \<Rightarrow> ('w, 'c, 'z) bdst_scheme \<Rightarrow> fault + ('w, 'c, 'z) bdst_scheme" where
  "memcpy_opt dst src n st =
     (if n = 0 then Inr st
      else case (dst, src) of
             (Some d, Some s) \<Rightarrow> Inr (st\<lparr>bd_mem := mem_write d (mem_read s n (bd_mem st)) (bd_mem st)\<rparr>)
           | _ \<Rightarrow> Inl Null_deref)"

definition ptr_val :: "addr option \<Rightarrow> addr" where
  "ptr_val p = (case p of None \<Rightarrow> 0 | Some a \<Rightarrow> a)"

definition disk_read ::
    "'w blkfront \<Rightarrow> 'w heap \<Rightarrow> (io_err \<Rightarrow> 'c \<Rightarrow> ('w, 'c, 'z) diskst_scheme \<Rightarrow> fault + ('w, 'c, 'z) diskst_scheme) \<Rightarrow>
     addr \<Rightarrow> u8 \<Rightarrow> addr \<Rightarrow> u32 \<Rightarrow> u32 \<Rightarrow> ('w, 'c, 'z) diskst_scheme \<Rightarrow>
     ((fault + dresult) \<times> ('w, 'c, 'z) diskst_scheme) option" where
  "disk_read io hp call iosync pdrv buff sector cnt st =
     (case disk_bd st of
        None \<Rightarrow> Some (Inr RES_PARERR, st)
      | Some bd \<Rightarrow>
          let slen = disk_slen (bd_tab st bd) cnt;
              (iobuf, w) = hp_xmalloc hp slen (ucast (blkdev_ioalign (bd_tab st bd))) (bd_world st);
              st = st\<lparr>bd_world := w\<rparr>
          in case blkdev_sync_io io call iosync bd (ucast sector) (ucast cnt) False (ptr_val iobuf) st of
               None \<Rightarrow> None
             | Some (Inl f, st) \<Rightarrow> Some (Inl f, st)
             | Some (Inr (Some e), st) \<Rightarrow> Some (Inr RES_ERROR, xfree_opt hp iobuf st)
             | Some (Inr None, st) \<Rightarrow>
                 (case memcpy_opt (Some buff) iobuf (unat slen) st of
                    Inl f \<Rightarrow> Some (Inl f, st)
                  | Inr st \<Rightarrow> Some (Inr RES_OK, xfree_opt hp iobuf st)))"

definition disk_write ::
    "'w blkfront \<Rightarrow> 'w heap \<Rightarrow> (io_err \<Rightarrow> 'c \<Rightarrow> ('w, 'c, 'z) diskst_scheme \<Rightarrow> fault + ('w, 'c, 'z) diskst_scheme) \<Rightarrow>
     addr \<Rightarrow> u8 \<Rightarrow> addr \<Rightarrow> u32 \<Rightarrow> u32 \<Rightarrow> ('w, 'c, 'z) diskst_scheme \<Rightarrow>
     ((fault + dresult) \<times> ('w, 'c, 'z) diskst_scheme) option" where
  "disk_write io hp call iosync pdrv buff sector cnt st =
     (case disk_bd st of
        None \<Rightarrow> Some (Inr RES_PARERR, st)
      | Some bd \<Rightarrow>
          let slen = disk_slen (bd_tab st bd) cnt;
              (iobuf, w) = hp_xmalloc hp slen (ucast (blkdev_ioalign (bd_tab st bd))) (bd_world st);
              st = st\<lparr>bd_world := w\<rparr>
          in case memcpy_opt iobuf (Some buff) (unat slen) st of
               Inl f \<Rightarrow> Some (Inl f, st)
             | Inr st \<Rightarrow>
                 (case blkdev_sync_io io call iosync bd (ucast sector) (ucast cnt) True (ptr_val iobuf) st of
                    None \<Rightarrow> None
                  | Some (Inl f, st) \<Rightarrow> Some (Inl f, st)
                  | Some (Inr (Some e), st) \<Rightarrow> Some (Inr RES_ERROR, xfree_opt hp iobuf st)
                  | Some (Inr None, st) \<Rightarrow> Some (Inr RES_OK, xfree_opt hp iobuf st)))"

text \<open>\<open>disk_ioctl\<close>: the result and the 32-bit value stored through \<open>buff\<close>, if any.\<close>

definition disk_ioctl :: "u8 \<Rightarrow> u8 \<Rightarrow> ('w, 'c, 'z) diskst_scheme \<Rightarrow> dresult \<times> u32 option" where
  "disk_ioctl pdrv cmd st =
     (case disk_bd st of
        None \<Rightarrow> (RES_PARERR, None)
      | Some bd \<Rightarrow>
          if cmd = CTRL_SYNC then (RES_OK, None)
          else if cmd = GET_SECTOR_COUNT then (RES_OK, Some (ucast (blkdev_sectors (bd_tab st bd))))
          else if cmd = GET_SECTOR_SIZE then (RES_OK, Some (blkdev_ssize (bd_tab st bd)))
          else if cmd = GET_BLOCK_SIZE then (RES_OK, Some 1)
          else (RES_PARERR, None))"

section \<open>Reading sectors\<close>

text \<open>
  What the read relies on of the front end: \<open>reads_from io dev ret D w\<close> says that in the world \<open>w\<close> it takes any read
  request on the device, after reporting a full ring any number of times, and that polling then
  completes the request with the result \<open>ret\<close> and, if that is a success, with the bytes that \<open>D\<close> has
  at the request's offset.
\<close>

definition reads_from :: "'w blkfront \<Rightarrow> addr \<Rightarrow> io_err \<Rightarrow> (nat \<Rightarrow> u8) \<Rightarrow> 'w \<Rightarrow> bool" where
  "reads_from io dev ret D w \<longleftrightarrow>
     (\<forall>req acb. aio_dev acb = dev \<longrightarrow>
        (\<exists>k w' bs n. answers io req acb False k None w w' \<and>
           delivers io dev req ret bs n (blkfront_aio_submit io dev w') \<and> length bs = unat (aio_nbytes acb) \<and>
           (ret = None \<longrightarrow> bs = map D [unat (aio_offset acb)..<unat (aio_offset acb) + unat (aio_nbytes acb)])))"

lemma mult_32_64: "unat (ucast (a :: u32) * ucast (b :: u32) :: u64) = unat a * unat b"
proof -
  have "unat a * unat b < 2 ^ 32 * 2 ^ 32"
    by (intro mult_strict_mono) (use unsigned_less [of a] unsigned_less [of b] in simp_all)
  moreover have "unat (ucast c :: u64) = unat c" for c :: u32
    using order_less_trans [OF unsigned_less [of c], of "2 ^ 64 :: nat"] by (simp add: unsigned_ucast_eq take_bit_nat_eq_self)
  ultimately show ?thesis by (simp add: unat_word_ariths)
qed

lemma slen_exact:
  assumes "unat cnt * unat (blkdev_ssize d) < 2 ^ 32"
  shows "unat (disk_slen d cnt) = unat cnt * unat (blkdev_ssize d)"
  using assms by (simp add: disk_slen_def unat_word_ariths unsigned_ucast_eq take_bit_nat_eq_self)

text \<open>
  C39: \<open>disk_read\<close> on an initialised drive whose device holds the bytes \<open>D\<close>. When the bounce buffer can be
  allocated, a request is free and the device completes what it is asked for, the result is
  \<open>RES_OK\<close> exactly if the device reported success. The caller's buffer then holds the \<open>cnt\<close> sectors of \<open>D\<close>
  from \<open>sector\<close> on; otherwise only the bounce buffer has been written. The request and the bounce buffer
  have gone back. The length must not exceed 32 bits, in which the code computes it.
\<close>

theorem disk_read_returns:
  assumes bd: "disk_bd st = Some bd"
    and buf: "hp_xmalloc hp (disk_slen (bd_tab st bd) cnt) (ucast (blkdev_ioalign (bd_tab st bd))) (bd_world st) = (Some a, w0)"
    and chk: "io_check io (bd_tab st bd) (ucast cnt) False a = None"
    and ok: "pool_ok (bd_reqpool (bd_tab st bd)) objs (bd_pools st)"
    and free: "pool_free (bd_reqpool (bd_tab st bd)) (bd_pools st) = x # xs"
    and disk: "reads_from io (bd_dev (bd_tab st bd)) ret D w0"
    and len: "unat cnt * unat (blkdev_ssize (bd_tab st bd)) < 2 ^ 32"
  shows "\<exists>st' w' bs. disk_read io hp call iosync pdrv buff sector cnt st =
             Some (Inr (if ret = None then RES_OK else RES_ERROR), st') \<and>
           (if ret = None
            then let off = unat sector * unat (blkdev_ssize (bd_tab st bd)); n = unat cnt * unat (blkdev_ssize (bd_tab st bd))
                 in bs = map D [off..<off + n] \<and> mem_read buff n (bd_mem st') = bs \<and>
                    bd_mem st' = mem_write buff bs (mem_write a bs (bd_mem st))
            else bd_mem st' = mem_write a bs (bd_mem st)) \<and>
           length bs = unat cnt * unat (blkdev_ssize (bd_tab st bd)) \<and>
           pool_free (bd_reqpool (bd_tab st bd)) (bd_pools st') = xs @ [x] \<and>
           bd_tab st' = bd_tab st \<and> bd_world st' = hp_xfree hp a w'"
proof -
  let ?st = "st\<lparr>bd_world := w0\<rparr>" and ?ss = "blkdev_ssize (bd_tab st bd)"
  let ?acb = "\<lparr>aio_dev = bd_dev (bd_tab st bd), aio_buf = a, aio_offset = ucast sector * ucast ?ss,
    aio_nbytes = ucast cnt * ucast ?ss\<rparr>"
  let ?off = "unat sector * unat ?ss" and ?n = "unat cnt * unat ?ss"
  have "aio_dev ?acb = bd_dev (bd_tab st bd)" by simp
  with disk obtain k w bs n where enq: "answers io (req_at ?st bd x) ?acb False k None w0 w"
    and del: "delivers io (bd_dev (bd_tab st bd)) (req_at ?st bd x) ret bs n (blkfront_aio_submit io (bd_dev (bd_tab st bd)) w)"
    and bs: "length bs = unat (aio_nbytes ?acb)"
      "ret = None \<Longrightarrow> bs = map D [unat (aio_offset ?acb)..<unat (aio_offset ?acb) + unat (aio_nbytes ?acb)]"
    unfolding reads_from_def by blast
  have l: "length bs = ?n" using bs(1) by (simp only: blkfront_aiocb.select_convs mult_32_64)
  have D: "ret = None \<Longrightarrow> bs = map D [?off..<?off + ?n]" using bs(2) by (simp only: blkfront_aiocb.select_convs mult_32_64)
  from sync_io_delivers [of io ?st bd "ucast cnt" False a objs x xs "ucast sector" k w ret bs n call iosync]
    chk ok free enq del
  obtain st' where st': "blkdev_sync_io io call iosync bd (ucast sector) (ucast cnt) False a ?st = Some (Inr ret, st')"
    "bd_mem st' = mem_write a bs (bd_mem st)" "pool_free (bd_reqpool (bd_tab st bd)) (bd_pools st') = xs @ [x]"
    "bd_tab st' = bd_tab st" by auto
  have slen: "unat (disk_slen (bd_tab st bd) cnt) = length bs" unfolding l by (rule slen_exact [OF len])
  have l64: "length bs < 2 ^ 64" using len l by simp
  show ?thesis
  proof (cases ret)
    case None
    have m: "memcpy_opt (Some buff) (Some a) (length bs) st' = Inr (st'\<lparr>bd_mem := mem_write buff bs (bd_mem st')\<rparr>)"
      using mem_read_write_self [OF l64] by (cases bs) (simp_all add: memcpy_opt_def mem_write_def st'(2))
    have "mem_read buff (length bs) (mem_write buff bs (bd_mem st')) = bs" by (rule mem_read_write_self [OF l64])
    then show ?thesis
      by (intro exI [of _ "xfree_opt hp (Some a) (st'\<lparr>bd_mem := mem_write buff bs (bd_mem st')\<rparr>)"] exI [of _ "bd_world st'"]
            exI [of _ bs])
         (use st' m slen l D [OF None] None bd buf in \<open>simp add: disk_read_def ptr_val_def xfree_opt_def\<close>)
  next
    case (Some e)
    then show ?thesis
      by (intro exI [of _ "xfree_opt hp (Some a) st'"] exI [of _ "bd_world st'"] exI [of _ bs])
         (use st' l bd buf in \<open>simp add: disk_read_def ptr_val_def xfree_opt_def\<close>)
  qed
qed

text \<open>The small disk behind a drive, with the bounce buffer at 8192: two sectors from sector 3 on.\<close>

definition disk_diskst :: "(disk_world, addr) diskst" where
  "disk_diskst = bdst.extend disk_bdst \<lparr>disk_bd = Some 9\<rparr>"

definition bounce_heap :: "'w heap" where
  "bounce_heap = \<lparr>hp_xmalloc = (\<lambda>_ _ w. (Some 8192, w)), hp_xfree = (\<lambda>_ w. w), hp_free_mem = (\<lambda>_. 0), hp_total_mem = 0,
     hp_grow_threshold = None\<rparr>"

lemma disk_reads_from: "reads_from disk_blkfront dev None disk_bytes (0, [])"
  unfolding reads_from_def
proof (intro allI impI)
  fix req and acb :: blkfront_aiocb
  let ?bs = "disk_part (unat (aio_offset acb)) (unat (aio_nbytes acb))"
  have "answers disk_blkfront req acb False (Suc 0) None (0, []) (1, [(req, acb)])"
    "delivers disk_blkfront dev req None ?bs 0 (blkfront_aio_submit disk_blkfront dev (1, [(req, acb)]))"
    by (simp_all add: disk_blkfront_def)
  then show "\<exists>k w' bs n. answers disk_blkfront req acb False k None (0, []) w' \<and>
      delivers disk_blkfront dev req None bs n (blkfront_aio_submit disk_blkfront dev w') \<and> length bs = unat (aio_nbytes acb) \<and>
      (None = None \<longrightarrow> bs = map disk_bytes [unat (aio_offset acb)..<unat (aio_offset acb) + unat (aio_nbytes acb)])"
    by (intro exI [of _ "Suc 0"] exI [of _ "(1, [(req, acb)])"] exI [of _ ?bs] exI [of _ 0])
       (simp add: disk_part_def del: answers.simps delivers.simps upt_Suc)
qed

theorem disk_read_returns_witness:
  "\<exists>st'. disk_read disk_blkfront bounce_heap (\<lambda>_ _. Inr) 7 0 300 3 2 disk_diskst = Some (Inr RES_OK, st') \<and>
     bd_mem st' 300 = 3 \<and> bd_mem st' 811 = 3 \<and> bd_mem st' 812 = 4 \<and> pool_free 0 (bd_pools st') = [100]"
proof -
  have s: "disk_bd disk_diskst = Some 9" "bd_tab disk_diskst 9 = sample_blkdev"
    "bd_pools disk_diskst = sample_pool" "bd_world disk_diskst = (0, [])" "bd_mem disk_diskst = (\<lambda>_. 0)"
    by (simp_all add: disk_diskst_def bdst.defs disk_bdst_def)
  have chk: "io_check disk_blkfront (bd_tab disk_diskst 9) (ucast (2 :: u32)) False 8192 = None"
    by (simp add: io_check_def s sample_bdst_simps disk_blkfront_def)
  have "pool_ok (bd_reqpool (bd_tab disk_diskst 9)) [100, 200] (bd_pools disk_diskst)"
    "pool_free (bd_reqpool (bd_tab disk_diskst 9)) (bd_pools disk_diskst) = 100 # []"
    using sample_pool_ok by (simp_all add: s sample_bdst_simps)
  note R = disk_read_returns [OF s(1) _ chk this disk_reads_from, of bounce_heap "\<lambda>_ _. Inr" 7 0 300 3]
  obtain st' where "disk_read disk_blkfront bounce_heap (\<lambda>_ _. Inr) 7 0 300 3 2 disk_diskst = Some (Inr RES_OK, st')"
    "bd_mem st' = mem_write 300 (disk_part 1536 1024) (mem_write 8192 (disk_part 1536 1024) (\<lambda>_. 0))"
    "pool_free 0 (bd_pools st') = [100]"
    using R by (auto simp: s bounce_heap_def sample_bdst_simps disk_part_def Let_def simp del: upt_Suc)
  then show ?thesis by (intro exI [of _ st']) (simp add: mem_write_def disk_bytes_def)
qed

text \<open>
  Neither routine looks at the result of the allocation. A write then copies to the null
  pointer; a read has the device fill page 0 and fails in its own copy.
\<close>

lemma disk_write_allocation_unchecked:
  assumes "disk_bd st = Some bd" and "disk_slen (bd_tab st bd) cnt \<noteq> 0"
    and "hp_xmalloc hp (disk_slen (bd_tab st bd) cnt) (ucast (blkdev_ioalign (bd_tab st bd))) (bd_world st) = (None, w0)"
  shows "disk_write io hp call iosync pdrv buff sector cnt st = Some (Inl Null_deref, st\<lparr>bd_world := w0\<rparr>)"
  using assms by (simp add: disk_write_def memcpy_opt_def unat_eq_zero)

end
