(* ===== verification/Mount.thy ===== *)
theory Mount
  imports Prelude Mempool HashVal Htable Btable ShfsDefs Blkdev Aio Cache Fio
begin

text \<open>
  Mounting, remounting and unmounting a volume (the first half of \<open>shfs/shfs.c\<close>), built
  without \<open>SHFS_STATS\<close>, \<open>SHFS_DEBUG\<close> and \<open>TRACE_BOOTTIME\<close>.

  \<open>target_malloc\<close> and \<open>target_free\<close> are the heap's functions. The allocations inside
  \<open>open_blkdev\<close>, the pools and the bucket table are the record \<open>mount_allocs\<close>. The state adds
  to that of \<open>Fio\<close> the loader's \<open>aiot\<close> structs, which live on the stack, and the address of
  the array of chunk buffers.
\<close>

section \<open>State\<close>

record load_vol_htable_aiot =
  la_done :: int
  la_left :: chk_t
  la_ret :: io_err

record ('w, 'u) mntst = "('w, 'u) fsst" +
  vol_aiots :: "addr \<Rightarrow> load_vol_htable_aiot"
  vol_hcc :: addr

type_synonym bd_allocs = "addr option \<times> addr option \<times> addr option list option"

record mount_allocs =
  ma_open :: "nat \<Rightarrow> bd_allocs"
  ma_tokens :: "addr option \<times> addr option list option"
  ma_btable :: "bool \<times> (nat \<Rightarrow> bool)"
  ma_cache :: bd_allocs

abbreviation O_RDONLY :: u32 where "O_RDONLY \<equiv> 0"
abbreviation MAX_NB_TRY_BLKDEVS :: nat where "MAX_NB_TRY_BLKDEVS \<equiv> 64"
abbreviation sizeof_aio_token :: u64 where "sizeof_aio_token \<equiv> 64"

definition target_malloc ::
    "'w heap \<Rightarrow> u64 \<Rightarrow> u64 \<Rightarrow> ('w, 'c, 'z) bdst_scheme \<Rightarrow> addr option \<times> ('w, 'c, 'z) bdst_scheme" where
  "target_malloc hp align n st =
     (let (p, w) = hp_xmalloc hp n align (bd_world st) in (p, st\<lparr>bd_world := w\<rparr>))"

definition target_free :: "'w heap \<Rightarrow> addr \<Rightarrow> ('w, 'c, 'z) bdst_scheme \<Rightarrow> ('w, 'c, 'z) bdst_scheme" where
  "target_free hp p st = st\<lparr>bd_world := hp_xfree hp p (bd_world st)\<rparr>"

text \<open>
  \<open>down\<close> on a semaphore that is not positive waits for another thread, which here never comes:
  \<open>None\<close>.
\<close>

definition sem_down :: "int \<Rightarrow> int option" where
  "sem_down n = (if n > 0 then Some (n - 1) else None)"

text \<open>Sequencing, and the code a \<open>goto\<close> to an error label runs; a fault runs nothing.\<close>

definition rbind ::
    "((error + 'a) \<times> 's) option \<Rightarrow> ('a \<Rightarrow> 's \<Rightarrow> ((error + 'b) \<times> 's) option) \<Rightarrow> ((error + 'b) \<times> 's) option" where
  "rbind m k =
     (case m of
        None \<Rightarrow> None
      | Some (Inl e, st) \<Rightarrow> Some (Inl e, st)
      | Some (Inr x, st) \<Rightarrow> k x st)"

definition on_error ::
    "((error + 'a) \<times> 's) option \<Rightarrow> ('s \<Rightarrow> ((error + unit) \<times> 's) option) \<Rightarrow> ((error + 'a) \<times> 's) option" where
  "on_error m h =
     (case m of
        Some (Inl (Errno e), st) \<Rightarrow> rbind (h st) (\<lambda>_ st. Some (Inl (Errno e), st))
      | _ \<Rightarrow> m)"

fun close_blkdevs :: "'w blkfront \<Rightarrow> addr list \<Rightarrow> ('w, 'c, 'z) bdst_scheme \<Rightarrow> ((error + unit) \<times> ('w, 'c, 'z) bdst_scheme) option" where
  "close_blkdevs io [] st = Some (Inr (), st)"
| "close_blkdevs io (bd # bds) st = rbind (Some (close_blkdev io bd st)) (\<lambda>_. close_blkdevs io bds)"

section \<open>Finding the members\<close>

text \<open>\<open>Inr None\<close> is the null pointer; the device is closed again.\<close>

definition shfs_checkopen_blkdev ::
    "'w blkfront \<Rightarrow> (io_err \<Rightarrow> 'c \<Rightarrow> ('w, 'c, 'z) bdst_scheme \<Rightarrow> fault + ('w, 'c, 'z) bdst_scheme) \<Rightarrow> addr \<Rightarrow>
     bd_allocs \<Rightarrow> blkdev_id_t \<Rightarrow> addr \<Rightarrow> u32 \<Rightarrow> ('w, 'c, 'z) bdst_scheme \<Rightarrow>
     ((error + addr option) \<times> ('w, 'c, 'z) bdst_scheme) option" where
  "shfs_checkopen_blkdev io call iosync xs i chk0 mode st =
     (case open_blkdev io (fst xs) (fst (snd xs)) (snd (snd xs)) i mode st of
        None \<Rightarrow> None
      | Some (Inl (Fault f), st) \<Rightarrow> Some (Inl (Fault f), st)
      | Some (Inl (Errno e), st) \<Rightarrow> Some (Inr None, st)
      | Some (Inr bd, st) \<Rightarrow>
          let ssize = blkdev_ssize (bd_tab st bd);
              err_close = (\<lambda>st. rbind (Some (close_blkdev io bd st)) (\<lambda>_ st. Some (Inr None, st)))
          in if ssize > 4096 \<or> ssize < 512 \<or> \<not> POWER_OF_2 ssize then err_close st
             else (case blkdev_sync_io io call iosync bd 0 (ucast (4096 div ssize)) False chk0 st of
                     None \<Rightarrow> None
                   | Some (Inl f, st) \<Rightarrow> Some (Inl (Fault f), st)
                   | Some (Inr (Some e), st) \<Rightarrow> err_close st
                   | Some (Inr None, st) \<Rightarrow>
                       if shfs_detect_hdr0 (mem_read chk0 4096 (bd_mem st)) < 0 then err_close st
                       else Some (Inr (Some bd), st)))"

definition chk0_label :: "addr \<Rightarrow> ('w, 'c, 'z) bdst_scheme \<Rightarrow> shfs_hdr_common" where
  "chk0_label chk0 st = hdr_common_get (drop BOOT_AREA_LENGTH (mem_read chk0 4096 (bd_mem st)))"

fun detect_members ::
    "'w blkfront \<Rightarrow> (io_err \<Rightarrow> 'c \<Rightarrow> ('w, 'c, 'z) bdst_scheme \<Rightarrow> fault + ('w, 'c, 'z) bdst_scheme) \<Rightarrow> addr \<Rightarrow>
     (nat \<Rightarrow> bd_allocs) \<Rightarrow> addr \<Rightarrow> blkdev_id_t list \<Rightarrow> nat \<Rightarrow> (addr \<times> uuid_t) list \<Rightarrow> ('w, 'c, 'z) bdst_scheme \<Rightarrow>
     ((error + (addr \<times> uuid_t) list) \<times> ('w, 'c, 'z) bdst_scheme) option" where
  "detect_members io call iosync xo chk0 [] i det st = Some (Inr det, st)"
| "detect_members io call iosync xo chk0 (b # bs) i det st =
     rbind (shfs_checkopen_blkdev io call iosync (xo i) b chk0 O_RDONLY st)
       (\<lambda>r st. case r of
          None \<Rightarrow> detect_members io call iosync xo chk0 bs (Suc i) det st
        | Some bd \<Rightarrow>
            detect_members io call iosync xo chk0 bs (Suc i)
              (det @ [(bd, uuid_copy (hc_member_uuid (chk0_label chk0 st)))]) st)"

text \<open>
  The members in the order of the label, each the first detected device with its uuid; the
  label has room for 16. \<open>sfactor\<close> is set later.
\<close>

fun match_members :: "(addr \<times> uuid_t) list \<Rightarrow> uuid_t list \<Rightarrow> nat list \<Rightarrow> fault + vol_member list" where
  "match_members det uuids [] = Inr []"
| "match_members det uuids (i # is) =
     (if i \<ge> SHFS_MAX_NB_MEMBERS then Inl Out_of_bounds
      else case match_members det uuids is of
             Inl f \<Rightarrow> Inl f
           | Inr ms \<Rightarrow>
               (case find (\<lambda>(bd, u). uuid_compare (uuids ! i) u = 0) det of
                  None \<Rightarrow> Inr ms
                | Some (bd, u) \<Rightarrow> Inr (\<lparr>vm_bd = bd, vm_uuid = uuid_copy u, vm_sfactor = 0\<rparr> # ms)))"

text \<open>The I/O alignment, which starts at 0, and the stripe-to-sector factor of each member.\<close>

fun setup_members :: "nat list \<Rightarrow> ('w, 'u, 'z) aiost_scheme \<Rightarrow> (error + unit) \<times> ('w, 'u, 'z) aiost_scheme" where
  "setup_members [] st = (Inr (), st)"
| "setup_members (i # is) st =
     (let d = bd_tab st (member_bd st i); a = blkdev_ioalign d; cur = vol_ioalign st
      in if a > cur \<and> \<not> (cur = 0 \<or> a mod cur = 0) then (Inl (Fault Assert_failed), st)
         else if \<not> a > cur \<and> a = 0 then (Inl (Fault Div_by_zero), st)
         else if \<not> a > cur \<and> cur mod a \<noteq> 0 then (Inl (Fault Assert_failed), st)
         else let sf = vol_stripesize st div blkdev_ssize d;
                  st = st\<lparr>vol_ioalign := max a cur,
                          vol_member := (vol_member st)[i := (vol_member st ! i)\<lparr>vm_sfactor := ucast sf\<rparr>]\<rparr>
              in if sf = 0 then (Inl (Errno ENOENT), st) else setup_members is st)"

definition min_member_size :: "('w, 'u, 'z) aiost_scheme \<Rightarrow> fault + u64" where
  "min_member_size st =
     (if vol_stripemode st = SHFS_SM_COMBINED then Inr ((vol_volsize st + 1) * ucast (vol_stripesize st))
      else if vol_nb_members st = 0 then Inl Div_by_zero
      else Inr (((vol_volsize st + 1) div ucast (vol_nb_members st)) * ucast (vol_stripesize st)))"

text \<open>
  The part of \<open>load_vol_cconf\<close> that reads the label from the first detected device and sets
  the volume up; an error leads to \<open>err_close_bds\<close>.
\<close>

definition cconf_setup ::
    "'w blkfront \<Rightarrow> (io_err \<Rightarrow> addr \<Rightarrow> ('w, 'u, 'z) fsst_scheme \<Rightarrow> fault + ('w, 'u, 'z) fsst_scheme) \<Rightarrow> addr \<Rightarrow>
     addr \<Rightarrow> (addr \<times> uuid_t) list \<Rightarrow> ('w, 'u, 'z) fsst_scheme \<Rightarrow>
     ((error + unit) \<times> ('w, 'u, 'z) fsst_scheme) option" where
  "cconf_setup io call iosync chk0 det st =
     (let bd0 = fst (hd det)
      in case blkdev_sync_io io call iosync bd0 0 (ucast (4096 div blkdev_ssize (bd_tab st bd0))) False chk0 st of
           None \<Rightarrow> None
         | Some (Inl f, st) \<Rightarrow> Some (Inl (Fault f), st)
         | Some (Inr (Some e), st) \<Rightarrow> Some (Inl (Errno e), st)
         | Some (Inr None, st) \<Rightarrow>
             let h = chk0_label chk0 st;
                 st = st\<lparr>vol_uuid := hc_vol_uuid h, vol_volname := hc_vol_name h @ [0],
                         vol_ts_creation := hc_vol_ts_creation h, vol_stripesize := hc_member_stripesize h,
                         vol_stripemode := hc_member_stripemode h\<rparr>
             in if vol_stripemode st \<noteq> SHFS_SM_COMBINED \<and> vol_stripemode st \<noteq> SHFS_SM_INDEPENDENT
                then Some (Inl (Errno ENOTSUP), st)
                else let st = st\<lparr>vol_chunksize := SHFS_CHUNKSIZE h, vol_volsize := hc_vol_size h\<rparr>
                in case match_members det (hc_member h) [0..<unat (hc_member_count h)] of
                     Inl f \<Rightarrow> Some (Inl (Fault f), st)
                   | Inr ms \<Rightarrow>
                       let st = st\<lparr>vol_nb_members := of_nat (length ms), vol_member := ms\<rparr>
                       in if vol_nb_members st \<noteq> hc_member_count h then Some (Inl (Errno ENOENT), st)
                          else if vol_stripesize st > 32768 \<or> vol_stripesize st < 4096 \<or>
                                  \<not> POWER_OF_2 (vol_stripesize st) then Some (Inl (Errno ENOENT), st)
                          else rbind (Some (setup_members [0..<length ms] (st\<lparr>vol_ioalign := 0\<rparr>)))
                            (\<lambda>_ st. case min_member_size st of
                               Inl f \<Rightarrow> Some (Inl (Fault f), st)
                             | Inr n \<Rightarrow>
                                 if \<exists>m \<in> set (vol_member st). blkdev_size (bd_tab st (vm_bd m)) < n
                                 then Some (Inl (Errno ENOENT), st) else Some (Inr (), st)))"

definition load_vol_cconf ::
    "'w blkfront \<Rightarrow> 'w heap \<Rightarrow> (io_err \<Rightarrow> addr \<Rightarrow> ('w, 'u, 'z) fsst_scheme \<Rightarrow> fault + ('w, 'u, 'z) fsst_scheme) \<Rightarrow> addr \<Rightarrow>
     (nat \<Rightarrow> bd_allocs) \<Rightarrow> blkdev_id_t list \<Rightarrow> ('w, 'u, 'z) fsst_scheme \<Rightarrow>
     ((error + unit) \<times> ('w, 'u, 'z) fsst_scheme) option" where
  "load_vol_cconf io hp call iosync xo bd_ids st =
     (if length bd_ids > MAX_NB_TRY_BLKDEVS then Some (Inl (Errno EINVAL), st)
      else let (p, st) = target_malloc hp 4096 4096 st
      in case p of
           None \<Rightarrow> Some (Inl (Errno ENOMEM), st)
         | Some chk0 \<Rightarrow>
             let free_chk0 = (\<lambda>st. Some (Inr (), target_free hp chk0 st))
             in rbind (detect_members io call iosync xo chk0 bd_ids 0 [] st) (\<lambda>det st.
                  if det = [] then on_error (Some (Inl (Errno ENODEV), st)) free_chk0
                  else on_error
                    (rbind (cconf_setup io call iosync chk0 det st) (\<lambda>_ st.
                       rbind (close_blkdevs io (filter (\<lambda>bd. bd \<notin> vm_bd ` set (vol_member st)) (map fst det)) st)
                         (\<lambda>_. free_chk0)))
                    (\<lambda>st. rbind (close_blkdevs io (map fst det) st) (\<lambda>_. free_chk0))))"

section \<open>The configuration\<close>

definition load_vol_hconf ::
    "'w blkfront \<Rightarrow> 'w heap \<Rightarrow> ('u shfs_aiocb \<Rightarrow> addr \<Rightarrow> ('w, 'u, 'z) fsst_scheme \<Rightarrow> fault + ('w, 'u, 'z) fsst_scheme) \<Rightarrow>
     ('w, 'u, 'z) fsst_scheme \<Rightarrow> ((error + unit) \<times> ('w, 'u, 'z) fsst_scheme) option" where
  "load_vol_hconf io hp ucb st =
     (let (p, st) = target_malloc hp 4096 (ucast (vol_chunksize st)) st
      in case p of
           None \<Rightarrow> Some (Inl (Errno ENOMEM), st)
         | Some chk1 \<Rightarrow>
             let free_chk1 = (\<lambda>st. Some (Inr (), target_free hp chk1 st))
             in rbind (on_error (shfs_io_chunk_nosched io ucb 1 1 False chk1 st) free_chk1) (\<lambda>_ st.
                  let h = hdr_config_get (mem_read chk1 27 (bd_mem st));
                      st = st\<lparr>vol_htable_ref := cf_htable_ref h, vol_htable_bak_ref := cf_htable_bak_ref h,
                              vol_htable_nb_buckets := cf_htable_bucket_count h,
                              vol_htable_nb_entries_per_bucket := cf_htable_entries_per_bucket h,
                              vol_htable_nb_entries := SHFS_HTABLE_NB_ENTRIES h,
                              vol_htable_nb_entries_per_chunk := ucast (SHFS_HENTRIES_PER_CHUNK (vol_chunksize st))\<rparr>
                  in if SHFS_HENTRIES_PER_CHUNK (vol_chunksize st) = 0 then Some (Inl (Fault Div_by_zero), st)
                     else let st = st\<lparr>vol_htable_len := SHFS_HTABLE_SIZE_CHUNKS h (vol_chunksize st),
                                       vol_hlen := cf_hlen h\<rparr>
                     in if vol_htable_len st = 0
                        then on_error (Some (Inl (Errno ENOENT), st)) free_chk1
                        else free_chk1 st))"

section \<open>The hash table\<close>

definition upd_aiot ::
    "addr \<Rightarrow> (load_vol_htable_aiot \<Rightarrow> load_vol_htable_aiot) \<Rightarrow> ('w, 'u, 'z) mntst_scheme \<Rightarrow> ('w, 'u, 'z) mntst_scheme" where
  "upd_aiot a f st = st\<lparr>vol_aiots := (vol_aiots st)(a := f (vol_aiots st a))\<rparr>"

definition load_vol_htable_cb :: "addr \<Rightarrow> addr \<Rightarrow> ('w, 'u, 'z) mntst_scheme \<Rightarrow> fault + ('w, 'u, 'z) mntst_scheme" where
  "load_vol_htable_cb a t st =
     (if la_left (vol_aiots st a) = 0 then Inl Bug_on
      else case shfs_aio_finalize t st of
             Inl f \<Rightarrow> Inl f
           | Inr (ret, st) \<Rightarrow>
               let st = (if ret \<noteq> None then upd_aiot a (\<lambda>k. k\<lparr>la_ret := ret\<rparr>) st else st);
                   st = upd_aiot a (\<lambda>k. k\<lparr>la_left := la_left k - 1\<rparr>) st
               in Inr (if la_left (vol_aiots st a) = 0 then upd_aiot a (\<lambda>k. k\<lparr>la_done := 1\<rparr>) st else st))"

text \<open>The callbacks that exist on a mounted volume; \<open>call\<close> runs those of its users.\<close>

definition vol_cb ::
    "('u shfs_aiocb \<Rightarrow> addr \<Rightarrow> ('w, 'u, 'z) mntst_scheme \<Rightarrow> fault + ('w, 'u, 'z) mntst_scheme) \<Rightarrow>
     'u shfs_aiocb \<Rightarrow> addr \<Rightarrow> ('w, 'u, 'z) mntst_scheme \<Rightarrow> fault + ('w, 'u, 'z) mntst_scheme" where
  "vol_cb call cb t st = (case cb of Load_htable_cb a \<Rightarrow> load_vol_htable_cb a t st | _ \<Rightarrow> call cb t st)"

text \<open>\<open>repeat_aio\<close>: a busy device is polled until it takes the request.\<close>

partial_function (option) repeat_aio ::
    "'w blkfront \<Rightarrow> ('u shfs_aiocb \<Rightarrow> addr \<Rightarrow> ('w, 'u, 'z) mntst_scheme \<Rightarrow> fault + ('w, 'u, 'z) mntst_scheme) \<Rightarrow>
     chk_t \<Rightarrow> addr \<Rightarrow> addr \<Rightarrow> ('w, 'u, 'z) mntst_scheme \<Rightarrow> ((error + addr) \<times> ('w, 'u, 'z) mntst_scheme) option" where
  "repeat_aio io ucb chk buf a st =
     (case shfs_aio_chunk io ucb chk 1 False buf (Some (Load_htable_cb a)) st of
        None \<Rightarrow> None
      | Some (r, st) \<Rightarrow>
          if r = Inl (Errno EAGAIN) \<or> r = Inl (Errno EBUSY)
          then (case shfs_poll_blkdevs io ucb (shfs_aio_submit io st) of
                  Inl f \<Rightarrow> Some (Inl (Fault f), st)
                | Inr st \<Rightarrow> repeat_aio io ucb chk buf a st)
          else Some (r, st))"

text \<open>
  The two waits: for \<open>done\<close> to be set, and, when a read could not be set up, for the reads
  in flight; that one treats the \<open>int\<close> as a semaphore.
\<close>

partial_function (option) wait_done ::
    "'w blkfront \<Rightarrow> ('u shfs_aiocb \<Rightarrow> addr \<Rightarrow> ('w, 'u, 'z) mntst_scheme \<Rightarrow> fault + ('w, 'u, 'z) mntst_scheme) \<Rightarrow>
     addr \<Rightarrow> ('w, 'u, 'z) mntst_scheme \<Rightarrow> ((error + unit) \<times> ('w, 'u, 'z) mntst_scheme) option" where
  "wait_done io ucb a st =
     (if la_done (vol_aiots st a) \<noteq> 0 then Some (Inr (), st)
      else case shfs_poll_blkdevs io ucb st of
             Inl f \<Rightarrow> Some (Inl (Fault f), st)
           | Inr st \<Rightarrow> wait_done io ucb a st)"

partial_function (option) wait_cancel ::
    "'w blkfront \<Rightarrow> ('u shfs_aiocb \<Rightarrow> addr \<Rightarrow> ('w, 'u, 'z) mntst_scheme \<Rightarrow> fault + ('w, 'u, 'z) mntst_scheme) \<Rightarrow>
     addr \<Rightarrow> ('w, 'u, 'z) mntst_scheme \<Rightarrow> ((error + unit) \<times> ('w, 'u, 'z) mntst_scheme) option" where
  "wait_cancel io ucb a st =
     (if la_done (vol_aiots st a) > 0
      then Some (Inr (), upd_aiot a (\<lambda>k. k\<lparr>la_done := sem_trydown (la_done k)\<rparr>) st)
      else case shfs_poll_blkdevs io ucb st of
             Inl f \<Rightarrow> Some (Inl (Fault f), st)
           | Inr st \<Rightarrow> wait_cancel io ucb a st)"

fun read_htable ::
    "'w blkfront \<Rightarrow> 'w heap \<Rightarrow> ('u shfs_aiocb \<Rightarrow> addr \<Rightarrow> ('w, 'u, 'z) mntst_scheme \<Rightarrow> fault + ('w, 'u, 'z) mntst_scheme) \<Rightarrow>
     addr \<Rightarrow> nat list \<Rightarrow> ('w, 'u, 'z) mntst_scheme \<Rightarrow> ((error + unit) \<times> ('w, 'u, 'z) mntst_scheme) option" where
  "read_htable io hp ucb a [] st = Some (Inr (), st)"
| "read_htable io hp ucb a (c # cs) st =
     (let (p, st) = target_malloc hp (ucast (vol_ioalign st)) (ucast (vol_chunksize st)) st
      in case p of
           None \<Rightarrow> Some (Inl (Errno ENOMEM), st)
         | Some chk_buf \<Rightarrow>
             let st = st\<lparr>vol_htable_chunk_cache := (vol_htable_chunk_cache st)[c := Some chk_buf]\<rparr>
             in case repeat_aio io ucb (vol_htable_ref st + of_nat c) chk_buf a st of
                  None \<Rightarrow> None
                | Some (Inl (Fault f), st) \<Rightarrow> Some (Inl (Fault f), st)
                | Some (Inr t, st) \<Rightarrow> read_htable io hp ucb a cs st
                | Some (Inl (Errno e), st) \<Rightarrow>
                    let st = upd_aiot a (\<lambda>k. k\<lparr>la_left := la_left k - (vol_htable_len st - of_nat c)\<rparr>) st
                    in rbind (if la_left (vol_aiots st a) \<noteq> 0 then wait_cancel io ucb a st else Some (Inr (), st))
                         (\<lambda>_ st. Some (Inl (Errno EIO), st)))"

text \<open>One entry of the table, and the loop over all of them.\<close>

definition htable_entry_addr :: "nat \<Rightarrow> ('w, 'u, 'z) fsst_scheme \<Rightarrow> fault + addr" where
  "htable_entry_addr i st =
     (let epc = vol_htable_nb_entries_per_chunk st
      in if epc = 0 then Inl Div_by_zero
         else let c = unat (SHFS_HTABLE_CHUNK_NO (of_nat i) epc)
         in if c \<ge> length (vol_htable_chunk_cache st) then Inl Out_of_bounds
            else case vol_htable_chunk_cache st ! c of
                   None \<Rightarrow> Inl Null_deref
                 | Some b \<Rightarrow> Inr (b + SHFS_HTABLE_ENTRY_OFFSET (of_nat i) epc))"

definition feed_entry :: "nat \<Rightarrow> ('w, 'u, 'z) fsst_scheme \<Rightarrow> (error + unit) \<times> ('w, 'u, 'z) fsst_scheme" where
  "feed_entry i st =
     (case htable_entry_addr i st of
        Inl f \<Rightarrow> (Inl (Fault f), st)
      | Inr hentry \<Rightarrow>
          (case shfs_btable_feed (vol_bt st) (of_nat i) (he_hash (hentry_at st hentry)) of
             Inl e \<Rightarrow> (Inl e, st)
           | Inr (b, bt) \<Rightarrow>
               let epc = vol_htable_nb_entries_per_chunk st;
                   st = upd_bentry b (\<lambda>k. k\<lparr>be_hentry := Some hentry,
                          hentry_htchunk := ucast (SHFS_HTABLE_CHUNK_NO (of_nat i) epc),
                          hentry_htoffset := SHFS_HTABLE_ENTRY_OFFSET (of_nat i) epc,
                          refcount := 0, be_update := False, updatelock := 1\<rparr>) (st\<lparr>vol_bt := bt\<rparr>)
               in (Inr (), if SHFS_HENTRY_ISDEFAULT (hentry_at st hentry)
                           then st\<lparr>vol_def_bentry := Some b\<rparr> else st)))"

fun feed_entries :: "nat list \<Rightarrow> ('w, 'u, 'z) fsst_scheme \<Rightarrow> (error + unit) \<times> ('w, 'u, 'z) fsst_scheme" where
  "feed_entries [] st = (Inr (), st)"
| "feed_entries (i # is) st =
     (case feed_entry i st of (Inl e, st) \<Rightarrow> (Inl e, st) | (Inr _, st) \<Rightarrow> feed_entries is st)"

fun free_bufs :: "'w heap \<Rightarrow> addr option list \<Rightarrow> ('w, 'c, 'z) bdst_scheme \<Rightarrow> ('w, 'c, 'z) bdst_scheme" where
  "free_bufs hp [] st = st"
| "free_bufs hp (None # ps) st = free_bufs hp ps st"
| "free_bufs hp (Some p # ps) st = free_bufs hp ps (target_free hp p st)"

definition free_chunkcache :: "'w heap \<Rightarrow> ('w, 'u, 'z) mntst_scheme \<Rightarrow> ((error + unit) \<times> ('w, 'u, 'z) mntst_scheme) option" where
  "free_chunkcache hp st =
     Some (Inr (), target_free hp (vol_hcc st) (free_bufs hp (vol_htable_chunk_cache st) st))"

text \<open>\<open>a\<close> is the address of \<open>aiot\<close> on the stack.\<close>

definition load_vol_htable ::
    "'w blkfront \<Rightarrow> 'w heap \<Rightarrow> ('u shfs_aiocb \<Rightarrow> addr \<Rightarrow> ('w, 'u, 'z) mntst_scheme \<Rightarrow> fault + ('w, 'u, 'z) mntst_scheme) \<Rightarrow>
     addr \<Rightarrow> bool \<times> (nat \<Rightarrow> bool) \<Rightarrow> ('w, 'u, 'z) mntst_scheme \<Rightarrow>
     ((error + unit) \<times> ('w, 'u, 'z) mntst_scheme) option" where
  "load_vol_htable io hp ucb a xbt st =
     (let (p, st) = target_malloc hp 64 (8 * vol_htable_len st) st
      in case p of
           None \<Rightarrow> Some (Inl (Errno ENOMEM), st)
         | Some cache \<Rightarrow>
             let st = st\<lparr>vol_hcc := cache, vol_htable_chunk_cache := replicate (unat (vol_htable_len st)) None\<rparr>;
                 st = upd_aiot a (\<lambda>_. \<lparr>la_done = 0, la_left = vol_htable_len st, la_ret = None\<rparr>) st
             in on_error
                  (rbind (read_htable io hp ucb a [0..<unat (vol_htable_len st)] st) (\<lambda>_ st.
                     let st = shfs_aio_submit io st
                     in case shfs_alloc_btable (fst xbt) (snd xbt) (vol_htable_nb_buckets st)
                               (vol_htable_nb_entries_per_bucket st) (vol_hlen st) of
                          Inl e \<Rightarrow> Some (Inl (Errno ENOMEM), st)
                        | Inr bt \<Rightarrow>
                            rbind (wait_done io ucb a (st\<lparr>vol_bt := bt\<rparr>)) (\<lambda>_ st.
                              if la_ret (vol_aiots st a) \<noteq> None then Some (Inl (Errno EIO), st)
                              else Some (feed_entries [0..<unat (vol_htable_nb_entries st)] (st\<lparr>vol_def_bentry := None\<rparr>)))))
                  (free_chunkcache hp))"

section \<open>Mounting\<close>

definition init_shfs :: "('w, 'u, 'z) fsst_scheme \<Rightarrow> ('w, 'u, 'z) fsst_scheme" where
  "init_shfs st = st\<lparr>shfs_mount_lock := 1\<rparr>"

definition exit_shfs :: "('w, 'u, 'z) fsst_scheme \<Rightarrow> fault + unit" where
  "exit_shfs st = (if shfs_mounted st then Inl Bug_on else Inr ())"

text \<open>The code that runs between \<open>down\<close> and \<open>up\<close> on \<open>shfs_mount_lock\<close>.\<close>

definition with_mount_lock ::
    "(('w, 'u, 'z) fsst_scheme \<Rightarrow> ((error + 'a) \<times> ('w, 'u, 'z) fsst_scheme) option) \<Rightarrow>
     ('w, 'u, 'z) fsst_scheme \<Rightarrow> ((error + 'a) \<times> ('w, 'u, 'z) fsst_scheme) option" where
  "with_mount_lock body st =
     (case sem_down (shfs_mount_lock st) of
        None \<Rightarrow> None
      | Some n \<Rightarrow>
          (case body (st\<lparr>shfs_mount_lock := n\<rparr>) of
             None \<Rightarrow> None
           | Some (Inl (Fault f), st) \<Rightarrow> Some (Inl (Fault f), st)
           | Some (r, st) \<Rightarrow> Some (r, st\<lparr>shfs_mount_lock := sem_up (shfs_mount_lock st)\<rparr>)))"

definition member_bds :: "('w, 'u, 'z) aiost_scheme \<Rightarrow> addr list" where
  "member_bds st = map (member_bd st) [0..<unat (vol_nb_members st)]"

text \<open>The error labels of \<open>mount_shfs\<close>, each of which goes on into the next.\<close>

definition err_close_members :: "'w blkfront \<Rightarrow> ('w, 'u, 'z) aiost_scheme \<Rightarrow> ((error + unit) \<times> ('w, 'u, 'z) aiost_scheme) option" where
  "err_close_members io st =
     rbind (close_blkdevs io (member_bds st) st) (\<lambda>_ st. Some (Inr (), st\<lparr>shfs_mounted := False\<rparr>))"

definition err_free_aiotoken_pool :: "'w blkfront \<Rightarrow> ('w, 'u, 'z) aiost_scheme \<Rightarrow> ((error + unit) \<times> ('w, 'u, 'z) aiost_scheme) option" where
  "err_free_aiotoken_pool io st =
     (case free_mempool (Some (vol_aiotoken_pool st)) (vol_toks st) of
        Inl e \<Rightarrow> Some (Inl e, st)
      | Inr _ \<Rightarrow> err_close_members io st)"

definition err_free_htable :: "'w blkfront \<Rightarrow> 'w heap \<Rightarrow> ('w, 'u, 'z) mntst_scheme \<Rightarrow> ((error + unit) \<times> ('w, 'u, 'z) mntst_scheme) option" where
  "err_free_htable io hp st = rbind (free_chunkcache hp st) (\<lambda>_. err_free_aiotoken_pool io)"

text \<open>
  The body of \<open>mount_shfs\<close>. Two failed allocations jump to their labels with \<open>ret\<close> still 0,
  the result of the last call.
\<close>

definition mount_body ::
    "'w blkfront \<Rightarrow> 'w heap \<Rightarrow> ('u shfs_aiocb \<Rightarrow> addr \<Rightarrow> ('w, 'u, 'z) mntst_scheme \<Rightarrow> fault + ('w, 'u, 'z) mntst_scheme) \<Rightarrow>
     addr \<Rightarrow> addr \<Rightarrow> mount_allocs \<Rightarrow> blkdev_id_t list \<Rightarrow> ('w, 'u, 'z) mntst_scheme \<Rightarrow>
     ((error + unit) \<times> ('w, 'u, 'z) mntst_scheme) option" where
  "mount_body io hp call iosync a xs bd_ids st =
     (let ucb = cache_cb hp (vol_cb call)
      in if bd_ids = [] then Some (Inl (Errno EINVAL), st)
         else if shfs_mounted st then Some (Inl (Errno EALREADY), st)
         else rbind (load_vol_cconf io hp (shfs_aio_cb ucb) iosync (ma_open xs) bd_ids (st\<lparr>shfs_mounted := False\<rparr>)) (\<lambda>_ st.
           case alloc_enhanced_mempool (fst (ma_tokens xs)) None (snd (ma_tokens xs)) NB_AIOTOKEN sizeof_aio_token
                  0 0 0 0 False None (Some aiotoken_pool_objinit) None (vol_toks st) of
             Inl (Fault f) \<Rightarrow> Some (Inl (Fault f), st)
           | Inl (Errno e) \<Rightarrow> err_close_members io st
           | Inr (pool, ts) \<Rightarrow>
               let st = st\<lparr>vol_aiotoken_pool := pool, vol_toks := ts, shfs_mounted := True\<rparr>
               in rbind (on_error (load_vol_hconf io hp ucb st) (err_free_aiotoken_pool io)) (\<lambda>_ st.
                  rbind (on_error (load_vol_htable io hp ucb a (ma_btable xs) st) (err_close_members io)) (\<lambda>_ st.
                  let (p, st) = target_malloc hp (ucast (vol_ioalign st)) (ucast (vol_chunksize st)) st
                  in case p of
                       None \<Rightarrow> err_free_htable io hp st
                     | Some buf \<Rightarrow>
                         let st = st\<lparr>vol_remount_chunk_buffer := buf\<rparr>
                         in rbind (on_error (Some (shfs_alloc_cache hp (fst (ma_cache xs)) (fst (snd (ma_cache xs)))
                                      (snd (snd (ma_cache xs))) st))
                                    (\<lambda>st. err_free_htable io hp (target_free hp (vol_remount_chunk_buffer st) st)))
                              (\<lambda>_ st. Some (Inr (), st\<lparr>shfs_nb_open := 0\<rparr>))))))"

definition mount_shfs ::
    "'w blkfront \<Rightarrow> 'w heap \<Rightarrow> ('u shfs_aiocb \<Rightarrow> addr \<Rightarrow> ('w, 'u, 'z) mntst_scheme \<Rightarrow> fault + ('w, 'u, 'z) mntst_scheme) \<Rightarrow>
     addr \<Rightarrow> addr \<Rightarrow> mount_allocs \<Rightarrow> blkdev_id_t list \<Rightarrow> ('w, 'u, 'z) mntst_scheme \<Rightarrow>
     ((error + unit) \<times> ('w, 'u, 'z) mntst_scheme) option" where
  "mount_shfs io hp call iosync a xs bd_ids = with_mount_lock (mount_body io hp call iosync a xs bd_ids)"

section \<open>Unmounting\<close>

definition shfs_busy :: "'w blkfront \<Rightarrow> ('w, 'u, 'z) fsst_scheme \<Rightarrow> bool" where
  "shfs_busy io st \<longleftrightarrow>
     shfs_nb_open st \<noteq> 0 \<or>
     mempool_free_count (vol_aiotoken_pool st) (vol_toks st) < MAX_REQUESTS io \<or>
     shfs_cache_ref_count st \<noteq> 0"

text \<open>The entries are locked one after the other; \<open>down\<close> waits until a file is closed.\<close>

fun lock_entries :: "elref list \<Rightarrow> ('w, 'u, 'z) fsst_scheme \<Rightarrow> ((error + unit) \<times> ('w, 'u, 'z) fsst_scheme) option" where
  "lock_entries [] st = Some (Inr (), st)"
| "lock_entries (el # els) st =
     (case sem_down (updatelock (bentry st el)) of
        None \<Rightarrow> None
      | Some n \<Rightarrow> lock_entries els (upd_bentry el (\<lambda>b. b\<lparr>be_update := True, updatelock := n\<rparr>) st))"

definition umount_body ::
    "'w blkfront \<Rightarrow> 'w heap \<Rightarrow> ('u shfs_aiocb \<Rightarrow> addr \<Rightarrow> ('w, 'u, 'z) mntst_scheme \<Rightarrow> fault + ('w, 'u, 'z) mntst_scheme) \<Rightarrow>
     bool \<Rightarrow> ('w, 'u, 'z) mntst_scheme \<Rightarrow> ((error + unit) \<times> ('w, 'u, 'z) mntst_scheme) option" where
  "umount_body io hp call force st =
     (if \<not> shfs_mounted st then Some (Inr (), st)
      else if shfs_busy io st \<and> \<not> force then Some (Inl (Errno EBUSY), st)
      else rbind (if shfs_busy io st
                  then (case foreach_htable_el (vol_bt st) of None \<Rightarrow> None | Some els \<Rightarrow> lock_entries els st)
                  else Some (Inr (), st)) (\<lambda>_ st.
           rbind (shfs_free_cache io hp (vol_cb call) st) (\<lambda>_ st.
           let st = target_free hp (vol_remount_chunk_buffer st) (st\<lparr>shfs_mounted := False\<rparr>)
           in rbind (free_chunkcache hp st) (\<lambda>_ st.
              case free_mempool (Some (vol_aiotoken_pool st)) (vol_toks st) of
                Inl e \<Rightarrow> Some (Inl e, st)
              | Inr _ \<Rightarrow>
                  rbind (close_blkdevs io (member_bds st) st) (\<lambda>_ st. Some (Inr (), st\<lparr>vol_nb_members := 0\<rparr>))))))"

definition umount_shfs ::
    "'w blkfront \<Rightarrow> 'w heap \<Rightarrow> ('u shfs_aiocb \<Rightarrow> addr \<Rightarrow> ('w, 'u, 'z) mntst_scheme \<Rightarrow> fault + ('w, 'u, 'z) mntst_scheme) \<Rightarrow>
     bool \<Rightarrow> ('w, 'u, 'z) mntst_scheme \<Rightarrow> ((error + unit) \<times> ('w, 'u, 'z) mntst_scheme) option" where
  "umount_shfs io hp call force = with_mount_lock (umount_body io hp call force)"

section \<open>Remounting\<close>

text \<open>
  What both branches of the comparison do with an entry: feed the table with the new hash,
  lock the entry, take over the new bytes, flush the cache, unlock, and move the default
  entry. \<open>idx\<close> is the index \<open>c * htable_nb_entries_per_chunk + e\<close>.
\<close>

definition update_entry ::
    "'w blkfront \<Rightarrow> 'w heap \<Rightarrow> ('u shfs_aiocb \<Rightarrow> addr \<Rightarrow> ('w, 'u, 'z) mntst_scheme \<Rightarrow> fault + ('w, 'u, 'z) mntst_scheme) \<Rightarrow>
     u64 \<Rightarrow> addr \<Rightarrow> addr \<Rightarrow> ('w, 'u, 'z) mntst_scheme \<Rightarrow> ((error + unit) \<times> ('w, 'u, 'z) mntst_scheme) option" where
  "update_entry io hp call idx chentry nhentry st =
     (case shfs_btable_feed (vol_bt st) idx (he_hash (hentry_at st nhentry)) of
        Inl e \<Rightarrow> Some (Inl e, st)
      | Inr (b, bt) \<Rightarrow>
          rbind (lock_entries [b] (st\<lparr>vol_bt := bt\<rparr>)) (\<lambda>_ st.
            case shfs_flush_cache io hp (vol_cb call)
                   (st\<lparr>bd_mem := mem_write chentry (mem_read nhentry 244 (bd_mem st)) (bd_mem st)\<rparr>) of
              None \<Rightarrow> None
            | Some (Inl f) \<Rightarrow> Some (Inl (Fault f), st)
            | Some (Inr st) \<Rightarrow>
                let st = upd_bentry b (\<lambda>k. k\<lparr>updatelock := sem_up (updatelock k), be_update := False\<rparr>) st;
                    def = SHFS_HENTRY_ISDEFAULT (hentry_at st nhentry)
                in Some (Inr (), if vol_def_bentry st = Some b \<and> \<not> def then st\<lparr>vol_def_bentry := None\<rparr>
                                 else if def then st\<lparr>vol_def_bentry := Some b\<rparr> else st)))"

definition reload_entry ::
    "'w blkfront \<Rightarrow> 'w heap \<Rightarrow> ('u shfs_aiocb \<Rightarrow> addr \<Rightarrow> ('w, 'u, 'z) mntst_scheme \<Rightarrow> fault + ('w, 'u, 'z) mntst_scheme) \<Rightarrow>
     nat \<Rightarrow> addr \<Rightarrow> addr \<Rightarrow> nat \<Rightarrow> ('w, 'u, 'z) mntst_scheme \<Rightarrow> ((error + unit) \<times> ('w, 'u, 'z) mntst_scheme) option" where
  "reload_entry io hp call c cchk_buf nchk_buf e st =
     (let epc = vol_htable_nb_entries_per_chunk st;
          off = SHFS_HTABLE_ENTRY_OFFSET (of_nat e) epc;
          chentry = cchk_buf + off; nhentry = nchk_buf + off;
          chash = he_hash (hentry_at st chentry); nhash = he_hash (hentry_at st nhentry);
          update = update_entry io hp call (of_nat c * ucast epc + of_nat e) chentry nhentry
      in case hash_compare chash nhash (vol_hlen st) of
           Inl f \<Rightarrow> Some (Inl (Fault f), st)
         | Inr r \<Rightarrow>
             if r = 0 then update st
             else (case (hash_is_zero chash (vol_hlen st), hash_is_zero nhash (vol_hlen st)) of
                     (Inr z1, Inr z2) \<Rightarrow> if \<not> z1 \<or> \<not> z2 then update st else Some (Inr (), st)
                   | (Inl f, _) \<Rightarrow> Some (Inl (Fault f), st)
                   | (_, Inl f) \<Rightarrow> Some (Inl (Fault f), st)))"

fun reload_chunk ::
    "'w blkfront \<Rightarrow> 'w heap \<Rightarrow> ('u shfs_aiocb \<Rightarrow> addr \<Rightarrow> ('w, 'u, 'z) mntst_scheme \<Rightarrow> fault + ('w, 'u, 'z) mntst_scheme) \<Rightarrow>
     nat \<Rightarrow> addr \<Rightarrow> addr \<Rightarrow> nat list \<Rightarrow> ('w, 'u, 'z) mntst_scheme \<Rightarrow> ((error + unit) \<times> ('w, 'u, 'z) mntst_scheme) option" where
  "reload_chunk io hp call c cb nb [] st = Some (Inr (), st)"
| "reload_chunk io hp call c cb nb (e # es) st =
     rbind (reload_entry io hp call c cb nb e st) (\<lambda>_. reload_chunk io hp call c cb nb es)"

fun reload_chunks ::
    "'w blkfront \<Rightarrow> 'w heap \<Rightarrow> ('u shfs_aiocb \<Rightarrow> addr \<Rightarrow> ('w, 'u, 'z) mntst_scheme \<Rightarrow> fault + ('w, 'u, 'z) mntst_scheme) \<Rightarrow>
     addr \<Rightarrow> nat list \<Rightarrow> ('w, 'u, 'z) mntst_scheme \<Rightarrow> ((error + unit) \<times> ('w, 'u, 'z) mntst_scheme) option" where
  "reload_chunks io hp call nb [] st = Some (Inr (), st)"
| "reload_chunks io hp call nb (c # cs) st =
     (case shfs_io_chunk io (cache_cb hp (vol_cb call)) (vol_htable_ref st + of_nat c) 1 False nb st of
        None \<Rightarrow> None
      | Some (Inl (Fault f), st) \<Rightarrow> Some (Inl (Fault f), st)
      | Some (Inl (Errno e), st) \<Rightarrow> Some (Inl (Errno EIO), st)
      | Some (Inr _, st) \<Rightarrow>
          if c \<ge> length (vol_htable_chunk_cache st) then Some (Inl (Fault Out_of_bounds), st)
          else case vol_htable_chunk_cache st ! c of
                 None \<Rightarrow> Some (Inl (Fault Null_deref), st)
               | Some cb \<Rightarrow>
                   rbind (reload_chunk io hp call c cb nb [0..<unat (vol_htable_nb_entries_per_chunk st)] st)
                     (\<lambda>_. reload_chunks io hp call nb cs))"

definition reload_vol_htable ::
    "'w blkfront \<Rightarrow> 'w heap \<Rightarrow> ('u shfs_aiocb \<Rightarrow> addr \<Rightarrow> ('w, 'u, 'z) mntst_scheme \<Rightarrow> fault + ('w, 'u, 'z) mntst_scheme) \<Rightarrow>
     ('w, 'u, 'z) mntst_scheme \<Rightarrow> ((error + unit) \<times> ('w, 'u, 'z) mntst_scheme) option" where
  "reload_vol_htable io hp call st =
     reload_chunks io hp call (vol_remount_chunk_buffer st) [0..<unat (vol_htable_len st)] st"

definition remount_shfs ::
    "'w blkfront \<Rightarrow> 'w heap \<Rightarrow> ('u shfs_aiocb \<Rightarrow> addr \<Rightarrow> ('w, 'u, 'z) mntst_scheme \<Rightarrow> fault + ('w, 'u, 'z) mntst_scheme) \<Rightarrow>
     ('w, 'u, 'z) mntst_scheme \<Rightarrow> ((error + unit) \<times> ('w, 'u, 'z) mntst_scheme) option" where
  "remount_shfs io hp call = with_mount_lock (\<lambda>st.
     if \<not> shfs_mounted st then Some (Inl (Errno ENODEV), st) else reload_vol_htable io hp call st)"

end
