(* ===== verification/MountTable.thy ===== *)
theory MountTable
  imports "HOL-Library.Multiset" Prelude Mempool HashVal Htable Btable ShfsDefs Blkdev Aio Cache CacheInv CacheProps Fio FioProps Mount
begin

text \<open>
  Loading the bucket table of a volume (the last loop of \<open>load_vol_htable\<close>): what it leaves in
  the table, where the entries point, and that the theory of open files starts from there.
\<close>

section \<open>Loading the bucket table\<close>

text \<open>
  The slot of entry \<open>i\<close>, the hash it holds on disk, and the placement that the tools promise:
  a used entry is in the bucket of its hash.
\<close>

definition slot_no :: "'a htable \<Rightarrow> nat \<Rightarrow> elref" where
  "slot_no bt i = (i div unat (el_per_bkt bt), i mod unat (el_per_bkt bt))"

definition entry_addr :: "('w, 'u, 'z) fsst_scheme \<Rightarrow> nat \<Rightarrow> addr" where
  "entry_addr st i = (case htable_entry_addr i st of Inl _ \<Rightarrow> 0 | Inr p \<Rightarrow> p)"

definition entry_hash :: "('w, 'u, 'z) fsst_scheme \<Rightarrow> nat \<Rightarrow> u8 list" where
  "entry_hash st i = he_hash (hentry_at st (entry_addr st i))"

definition entry_used :: "('w, 'u, 'z) fsst_scheme \<Rightarrow> nat \<Rightarrow> bool" where
  "entry_used st i \<longleftrightarrow> \<not> zero_key (ht_key (vol_bt st) (entry_hash st i))"

definition well_placed :: "('w, 'u, 'z) fsst_scheme \<Rightarrow> nat \<Rightarrow> bool" where
  "well_placed st i \<longleftrightarrow>
     (\<exists>p. htable_entry_addr i st = Inr p) \<and>
     (entry_used st i \<longrightarrow>
        htable_bkt_no (entry_hash st i) (ht_hlen (vol_bt st)) (nb_bkts (vol_bt st)) =
          Inr (of_nat (i div unat (el_per_bkt (vol_bt st)))))"

definition loaded_bentry :: "('w, 'u, 'z) fsst_scheme \<Rightarrow> nat \<Rightarrow> shfs_bentry" where
  "loaded_bentry st i =
     (bentry st (slot_no (vol_bt st) i))\<lparr>be_hentry := Some (entry_addr st i),
        hentry_htchunk := ucast (SHFS_HTABLE_CHUNK_NO (of_nat i) (vol_htable_nb_entries_per_chunk st)),
        hentry_htoffset := SHFS_HTABLE_ENTRY_OFFSET (of_nat i) (vol_htable_nb_entries_per_chunk st),
        refcount := 0, be_update := False, updatelock := 1\<rparr>"

lemma feed_frame [simp]:
  "htable_entry_addr i (st\<lparr>vol_bt := b, vol_def_bentry := d\<rparr>) = htable_entry_addr i st"
  "hentry_at (st\<lparr>vol_bt := b, vol_def_bentry := d\<rparr>) p = hentry_at st p"
  "bentry (st\<lparr>vol_bt := b, vol_def_bentry := d\<rparr>) r = ht_private b r"
  "hentry_at (st\<lparr>vol_bt := b\<rparr>) p = hentry_at st p"
  by (simp_all add: htable_entry_addr_def hentry_at_def bentry_def Let_def cong: if_cong)

lemma htable_ok_private [simp]:
  "htable_ok (ht\<lparr>ht_private := p\<rparr>) els = htable_ok ht els"
  "ht_slot (ht\<lparr>ht_private := p\<rparr>) r = ht_slot ht r"
  by (simp_all add: htable_ok_def ht_slot_def ht_key_def)

lemma length_he_hash: "length (he_hash (hentry_at st p)) = 64"
  by (simp add: hentry_at_def hentry_get_def mem_read_def)

text \<open>One entry: the table with its slot fed, and the entry's private data.\<close>

lemma feed_entry_step:
  assumes ok: "htable_ok (vol_bt st) els" and i: "i < unat (nb_bkts (vol_bt st)) * unat (el_per_bkt (vol_bt st))"
    and pl: "well_placed st i"
  defines "r \<equiv> slot_no (vol_bt st) i"
  shows "\<exists>bt. feed_entry i st = (Inr (), st\<lparr>vol_bt := bt, vol_def_bentry :=
             (if SHFS_HENTRY_ISDEFAULT (hentry_at st (entry_addr st i)) then Some r else vol_def_bentry st)\<rparr>) \<and>
           htable_ok bt (feed_els els r (\<not> entry_used st i)) \<and>
           nb_bkts bt = nb_bkts (vol_bt st) \<and> el_per_bkt bt = el_per_bkt (vol_bt st) \<and> ht_hlen bt = ht_hlen (vol_bt st) \<and>
           ht_key bt (ht_slot bt r) = ht_key bt (entry_hash st i) \<and>
           (\<forall>q. q \<noteq> r \<longrightarrow> ht_slot bt q = ht_slot (vol_bt st) q) \<and>
           ht_private bt = (ht_private (vol_bt st))(r := loaded_bentry st i)"
proof -
  let ?bt = "vol_bt st" and ?epb = "unat (el_per_bkt (vol_bt st))" and ?h = "entry_hash st i"
  obtain p where p: "htable_entry_addr i st = Inr p" using pl by (auto simp: well_placed_def)
  have pa: "entry_addr st i = p" by (simp add: entry_addr_def p)
  have epb: "0 < ?epb" using i by (cases ?epb) auto
  have b: "i div ?epb < unat (nb_bkts ?bt)" using i by (simp add: less_mult_imp_div_less)
  have b32: "i div ?epb < 2 ^ 32" by (rule order_less_trans [OF b]) (rule order_less_le_trans [OF unsigned_less], simp)
  have i64: "unat (of_nat i :: u64) = i"
  proof (rule unat_of_nat_less)
    have "i < 2 ^ 32 * 2 ^ 32"
    proof (rule order_less_trans [OF i])
      have "unat (nb_bkts ?bt) < 2 ^ 32" "?epb < 2 ^ 32" by (rule order_less_le_trans [OF unsigned_less], simp)+
      then show "unat (nb_bkts ?bt) * ?epb < 2 ^ 32 * 2 ^ 32" using epb by (intro mult_strict_mono) auto
    qed
    then show "i < 2 ^ LENGTH(64)" by simp
  qed
  have w: "unat (of_nat i :: u64) = i div ?epb * ?epb + i mod ?epb" by (simp add: i64)
  have home: "htable_bkt_no ?h (ht_hlen ?bt) (nb_bkts ?bt) = Inr (of_nat (i div ?epb))"
    if "\<not> zero_key (ht_key ?bt ?h)" using pl that by (simp add: well_placed_def entry_used_def)
  have h64: "length ?h = 64" by (simp add: entry_hash_def length_he_hash)
  from btable_feed_step [OF ok h64 mod_less_divisor [OF epb] b32 w home] b obtain bt' where
    f: "shfs_btable_feed ?bt (of_nat i) ?h = Inr (r, bt')"
    "htable_ok bt' (feed_els els r (\<not> entry_used st i))"
    "ht_key bt' (ht_slot bt' r) = ht_key ?bt ?h" "ht_private bt' = ht_private ?bt"
    "nb_bkts bt' = nb_bkts ?bt" "el_per_bkt bt' = el_per_bkt ?bt" "ht_hlen bt' = ht_hlen ?bt"
    "\<forall>q. q \<noteq> r \<longrightarrow> ht_slot bt' q = ht_slot ?bt q"
    by (auto simp: r_def slot_no_def entry_used_def)
  let ?bt2 = "bt'\<lparr>ht_private := (ht_private ?bt)(r := loaded_bentry st i)\<rparr>"
  have lb: "upd_bentry r (\<lambda>k. k\<lparr>be_hentry := Some p,
        hentry_htchunk := ucast (SHFS_HTABLE_CHUNK_NO (of_nat i) (vol_htable_nb_entries_per_chunk st)),
        hentry_htoffset := SHFS_HTABLE_ENTRY_OFFSET (of_nat i) (vol_htable_nb_entries_per_chunk st),
        refcount := 0, be_update := False, updatelock := 1\<rparr>) (st\<lparr>vol_bt := bt'\<rparr>) = st\<lparr>vol_bt := ?bt2\<rparr>"
    by (simp add: upd_bentry_def bentry_def f(4) loaded_bentry_def r_def pa)
  have hh: "he_hash (hentry_at st p) = ?h" by (simp add: entry_hash_def pa)
  have "feed_entry i st = (Inr (), st\<lparr>vol_bt := ?bt2, vol_def_bentry :=
      (if SHFS_HENTRY_ISDEFAULT (hentry_at st (entry_addr st i)) then Some r else vol_def_bentry st)\<rparr>)"
    by (simp add: feed_entry_def p hh f(1) Let_def lb pa)
  then show ?thesis
    by (intro exI [of _ ?bt2]) (use f in \<open>simp add: ht_key_def\<close>)
qed

lemma feed_entries_append:
  "feed_entries (xs @ ys) st =
     (case feed_entries xs st of (Inl e, st) \<Rightarrow> (Inl e, st) | (Inr _, st) \<Rightarrow> feed_entries ys st)"
  by (induction xs st rule: feed_entries.induct) (auto split: prod.splits sum.splits)

definition used_slots :: "('w, 'u, 'z) fsst_scheme \<Rightarrow> nat \<Rightarrow> elref list" where
  "used_slots st n = map (slot_no (vol_bt st)) (filter (entry_used st) [0..<n])"

definition entry_is_default :: "('w, 'u, 'z) fsst_scheme \<Rightarrow> nat \<Rightarrow> bool" where
  "entry_is_default st i \<longleftrightarrow> SHFS_HENTRY_ISDEFAULT (hentry_at st (entry_addr st i))"

definition default_slot :: "('w, 'u, 'z) fsst_scheme \<Rightarrow> nat \<Rightarrow> elref option" where
  "default_slot st n = last_opt (map (slot_no (vol_bt st)) (filter (entry_is_default st) [0..<n]))"

lemma slot_no_inj: "slot_no bt i = slot_no bt j \<longleftrightarrow> i = j"
proof
  assume "slot_no bt i = slot_no bt j"
  then have "i div unat (el_per_bkt bt) * unat (el_per_bkt bt) + i mod unat (el_per_bkt bt) =
      j div unat (el_per_bkt bt) * unat (el_per_bkt bt) + j mod unat (el_per_bkt bt)"
    by (simp only: slot_no_def prod.inject)
  then show "i = j" by simp
qed simp

lemma entry_frame:
  assumes "ht_hlen b = ht_hlen (vol_bt st)" "nb_bkts b = nb_bkts (vol_bt st)" "el_per_bkt b = el_per_bkt (vol_bt st)"
  shows "entry_addr (st\<lparr>vol_bt := b, vol_def_bentry := d\<rparr>) i = entry_addr st i"
    "entry_hash (st\<lparr>vol_bt := b, vol_def_bentry := d\<rparr>) i = entry_hash st i"
    "entry_used (st\<lparr>vol_bt := b, vol_def_bentry := d\<rparr>) i = entry_used st i"
    "well_placed (st\<lparr>vol_bt := b, vol_def_bentry := d\<rparr>) i = well_placed st i"
    "slot_no b i = slot_no (vol_bt st) i"
proof -
  let ?s = "st\<lparr>vol_bt := b, vol_def_bentry := d\<rparr>"
  show a: "entry_addr ?s i = entry_addr st i" by (simp add: entry_addr_def)
  then show h: "entry_hash ?s i = entry_hash st i" by (simp add: entry_hash_def)
  then show u: "entry_used ?s i = entry_used st i" using assms(1) by (simp add: entry_used_def ht_key_def)
  show "well_placed ?s i = well_placed st i" using assms by (simp add: well_placed_def h u)
  show "slot_no b i = slot_no (vol_bt st) i" using assms(3) by (simp add: slot_no_def)
qed

definition fed_table :: "('w, 'u, 'z) fsst_scheme \<Rightarrow> nat \<Rightarrow> nat \<Rightarrow> btable \<Rightarrow> bool" where
  "fed_table st N n bt \<longleftrightarrow>
     htable_ok bt (used_slots st n) \<and> nb_bkts bt = nb_bkts (vol_bt st) \<and>
     el_per_bkt bt = el_per_bkt (vol_bt st) \<and> ht_hlen bt = ht_hlen (vol_bt st) \<and>
     (\<forall>j < n. ht_key bt (ht_slot bt (slot_no bt j)) = ht_key bt (entry_hash st j)) \<and>
     (\<forall>j < N. ht_private bt (slot_no bt j) =
        (if j < n then loaded_bentry st j else bentry st (slot_no bt j))) \<and>
     (\<forall>r. (\<forall>j < N. r \<noteq> slot_no bt j) \<longrightarrow> ht_private bt r = bentry st r)"

lemma fed_table_Suc:
  assumes fed: "fed_table st N n bt" and n: "n < N"
    and N: "N = unat (nb_bkts (vol_bt st)) * unat (el_per_bkt (vol_bt st))"
    and pl: "well_placed st n"
  shows "\<exists>bt'. feed_entry n (st\<lparr>vol_bt := bt, vol_def_bentry := default_slot st n\<rparr>) =
             (Inr (), st\<lparr>vol_bt := bt', vol_def_bentry := default_slot st (Suc n)\<rparr>) \<and>
           fed_table st N (Suc n) bt'"
proof -
  let ?s = "st\<lparr>vol_bt := bt, vol_def_bentry := default_slot st n\<rparr>"
  note F = fed [unfolded fed_table_def]
  have sh: "ht_hlen bt = ht_hlen (vol_bt st)" "nb_bkts bt = nb_bkts (vol_bt st)" "el_per_bkt bt = el_per_bkt (vol_bt st)"
    and ok: "htable_ok bt (used_slots st n)"
    and key: "\<And>j. j < n \<Longrightarrow> ht_key bt (ht_slot bt (slot_no bt j)) = ht_key bt (entry_hash st j)"
    and priv: "\<And>j. j < N \<Longrightarrow> ht_private bt (slot_no bt j) = (if j < n then loaded_bentry st j else bentry st (slot_no bt j))"
    and oth: "\<And>r. (\<And>j. j < N \<Longrightarrow> r \<noteq> slot_no bt j) \<Longrightarrow> ht_private bt r = bentry st r"
    using F by blast+
  note fr = entry_frame(1-4) [OF sh, where d = "default_slot st n"] entry_frame(5) [OF sh]
  note inj = slot_no_inj [of bt]
  let ?r = "slot_no bt n"
  have ok': "htable_ok (vol_bt ?s) (used_slots st n)" using ok by simp
  have n': "n < unat (nb_bkts (vol_bt ?s)) * unat (el_per_bkt (vol_bt ?s))" using n N by (simp add: sh)
  have pl': "well_placed ?s n" using pl by (simp add: fr)
  have vb: "vol_bt ?s = bt" by simp
  from feed_entry_step [OF ok' n' pl', unfolded vb] obtain bt' where
    f: "feed_entry n ?s = (Inr (), ?s\<lparr>vol_bt := bt', vol_def_bentry :=
          (if SHFS_HENTRY_ISDEFAULT (hentry_at ?s (entry_addr ?s n)) then Some ?r else vol_def_bentry ?s)\<rparr>)"
    and o: "htable_ok bt' (feed_els (used_slots st n) ?r (\<not> entry_used ?s n))"
    and sh': "nb_bkts bt' = nb_bkts bt" "el_per_bkt bt' = el_per_bkt bt" "ht_hlen bt' = ht_hlen bt"
    and k: "ht_key bt' (ht_slot bt' ?r) = ht_key bt' (entry_hash ?s n)"
    and sl: "\<And>q. q \<noteq> ?r \<Longrightarrow> ht_slot bt' q = ht_slot bt q"
    and pr: "ht_private bt' = (ht_private bt)(?r := loaded_bentry ?s n)"
    by blast
  note o = o [unfolded fr(3)] and k = k [unfolded fr(2)]
  have s': "slot_no bt' = slot_no bt" by (simp add: fun_eq_iff slot_no_def sh')
  have els: "feed_els (used_slots st n) ?r (\<not> entry_used st n) = used_slots st (Suc n)"
  proof -
    have "?r \<notin> set (used_slots st n)" by (auto simp: used_slots_def slot_no_inj fr(5))
    then show ?thesis by (simp add: feed_els_def used_slots_def remove1_idem fr(5))
  qed
  have d: "(if SHFS_HENTRY_ISDEFAULT (hentry_at ?s (entry_addr ?s n)) then Some ?r else vol_def_bentry ?s) =
      default_slot st (Suc n)"
    unfolding fr(1) by (simp add: default_slot_def entry_is_default_def fr(5))
  have "loaded_bentry ?s n = loaded_bentry st n"
    using priv [OF n] by (simp add: loaded_bentry_def fr bentry_def)
  then have priv': "ht_private bt' (slot_no bt' j) = (if j < Suc n then loaded_bentry st j else bentry st (slot_no bt' j))"
    if "j < N" for j
    using priv [OF that] by (auto simp: pr s' inj less_Suc_eq)
  have oth': "ht_private bt' r = bentry st r" if "\<And>j. j < N \<Longrightarrow> r \<noteq> slot_no bt' j" for r
    using that [unfolded s'] oth [of r] n by (auto simp: pr)
  have key': "ht_key bt' (ht_slot bt' (slot_no bt' j)) = ht_key bt' (entry_hash st j)" if "j < Suc n" for j
  proof (cases "j = n")
    case True
    then show ?thesis using k by (simp add: s')
  next
    case False
    then have "j < n" using that by simp
    then have "ht_key bt (ht_slot bt (slot_no bt j)) = ht_key bt (entry_hash st j)" by (rule key)
    then show ?thesis using False sl [of "slot_no bt j"] by (simp add: s' inj ht_key_def sh')
  qed
  have "fed_table st N (Suc n) bt'"
    unfolding fed_table_def using o key' priv' oth' sh sh' by (simp add: els)
  then show ?thesis using f unfolding d by auto
qed

lemma feed_loop:
  assumes ok: "htable_ok (vol_bt st) []" and d: "vol_def_bentry st = None"
    and N: "N = unat (nb_bkts (vol_bt st)) * unat (el_per_bkt (vol_bt st))"
    and pl: "\<And>i. i < N \<Longrightarrow> well_placed st i"
  shows "n \<le> N \<Longrightarrow> \<exists>bt. feed_entries [0..<n] st =
      (Inr (), st\<lparr>vol_bt := bt, vol_def_bentry := default_slot st n\<rparr>) \<and> fed_table st N n bt"
proof (induction n)
  case 0
  have "fed_table st N 0 (vol_bt st)" using ok by (simp add: fed_table_def used_slots_def bentry_def)
  then show ?case using d by (intro exI [of _ "vol_bt st"]) (simp add: default_slot_def)
next
  case (Suc n)
  then have n: "n < N" by simp
  from Suc obtain bt where bt: "feed_entries [0..<n] st =
      (Inr (), st\<lparr>vol_bt := bt, vol_def_bentry := default_slot st n\<rparr>)" "fed_table st N n bt" by auto
  from fed_table_Suc [OF bt(2) n N pl [OF n]] obtain bt' where
    "feed_entry n (st\<lparr>vol_bt := bt, vol_def_bentry := default_slot st n\<rparr>) =
       (Inr (), st\<lparr>vol_bt := bt', vol_def_bentry := default_slot st (Suc n)\<rparr>)" "fed_table st N (Suc n) bt'" by blast
  then show ?case using bt(1) by (intro exI [of _ bt']) (simp add: feed_entries_append)
qed

text \<open>Where a loaded entry points to.\<close>

lemma loaded_place:
  assumes "bentry st' r = loaded_bentry st i" and "vol_htable_chunk_cache st' = vol_htable_chunk_cache st"
    and "well_placed st i"
  shows "\<exists>p. cached_chunk st' r = Inr (Some p) \<and> be_hentry (bentry st' r) = Some (p + hentry_htoffset (bentry st' r))"
proof -
  let ?epc = "vol_htable_nb_entries_per_chunk st"
  let ?c = "SHFS_HTABLE_CHUNK_NO (of_nat i) ?epc"
  obtain p where p: "htable_entry_addr i st = Inr p" using assms(3) by (auto simp: well_placed_def)
  then obtain b where b: "unat ?c < length (vol_htable_chunk_cache st)" "vol_htable_chunk_cache st ! unat ?c = Some b"
    "p = b + SHFS_HTABLE_ENTRY_OFFSET (of_nat i) ?epc"
    by (auto simp: htable_entry_addr_def Let_def split: if_splits option.splits)
  then show ?thesis
    by (intro exI [of _ b]) (simp add: cached_chunk_def assms(1,2) loaded_bentry_def entry_addr_def p unat_ucast_widths)
qed

text \<open>Lookup in the table that the loop leaves is a search through the entries on disk.\<close>

lemma fed_table_lookup:
  assumes fed: "fed_table st N N bt"
    and dist: "inj_on (\<lambda>i. ht_key (vol_bt st) (entry_hash st i)) {i. i < N \<and> entry_used st i}"
    and h: "length h = 64" and nz: "\<not> zero_key (ht_key (vol_bt st) h)"
  defines "P \<equiv> \<lambda>i. entry_used st i \<and> ht_key (vol_bt st) (entry_hash st i) = ht_key (vol_bt st) h"
  shows "htable_lookup bt h =
    (case find P [0..<N] of None \<Rightarrow> Inl (Errno ENOENT) | Some i \<Rightarrow> Inr (slot_no (vol_bt st) i))"
proof -
  note F = fed [unfolded fed_table_def]
  have sh: "ht_hlen bt = ht_hlen (vol_bt st)" "nb_bkts bt = nb_bkts (vol_bt st)" "el_per_bkt bt = el_per_bkt (vol_bt st)"
    and ok: "htable_ok bt (used_slots st N)"
    and key: "\<And>j. j < N \<Longrightarrow> ht_key bt (ht_slot bt (slot_no bt j)) = ht_key bt (entry_hash st j)"
    using F by blast+
  have s': "slot_no bt i = slot_no (vol_bt st) i" for i by (rule entry_frame(5) [OF sh])
  have kb: "ht_key bt = ht_key (vol_bt st)" by (simp add: fun_eq_iff ht_key_def sh)
  let ?u = "filter (entry_used st) [0..<N]" and ?k = "\<lambda>i. ht_key (vol_bt st) (entry_hash st i)"
  have keys: "map (\<lambda>r. (ht_key bt (ht_slot bt r), r)) (used_slots st N) = map (\<lambda>i. (?k i, slot_no (vol_bt st) i)) ?u"
    using key by (auto simp: used_slots_def s' kb)
  have du: "distinct (map ?k ?u)"
  proof -
    have "inj_on ?k (set ?u)" using dist by (rule inj_on_subset) auto
    then show ?thesis by (simp add: distinct_map)
  qed
  have "ht_keys bt (used_slots st N) = map fst (map (\<lambda>r. (ht_key bt (ht_slot bt r), r)) (used_slots st N))"
    by (simp add: ht_keys_def)
  also have "\<dots> = map ?k ?u" unfolding keys by simp
  finally have wf: "ht_wf bt" "ht_dict bt = ht_abs bt (used_slots st N)"
    using ht_wfI [OF ok] du by simp_all
  have look: "htable_lookup bt h = (case ht_abs bt (used_slots st N) (ht_key (vol_bt st) h) of
      None \<Rightarrow> Inl (Errno ENOENT) | Some r \<Rightarrow> Inr r)"
    using hd.find_key [OF wf(1), of h "ht_key bt h"] h nz by (simp add: hash_valid_def ht_dict_key_def wf(2) kb)
  have m: "ht_abs bt (used_slots st N) = map_of (map (\<lambda>i. (?k i, slot_no (vol_bt st) i)) ?u)"
    by (simp add: ht_abs_def keys [symmetric])
  have df: "distinct (map fst (map (\<lambda>i. (?k i, slot_no (vol_bt st) i)) ?u))" using du by (simp add: comp_def)
  show ?thesis
  proof (cases "find P [0..<N]")
    case None
    then have "ht_key (vol_bt st) h \<notin> ?k ` set ?u" by (auto simp: find_None_iff P_def)
    then have "map_of (map (\<lambda>i. (?k i, slot_no (vol_bt st) i)) ?u) (ht_key (vol_bt st) h) = None"
      by (auto simp: map_of_eq_None_iff)
    then show ?thesis using None by (simp add: look m)
  next
    case (Some i)
    then have i: "i < N" "P i" by (auto simp: find_Some_iff)
    then have "(ht_key (vol_bt st) h, slot_no (vol_bt st) i) \<in> set (map (\<lambda>i. (?k i, slot_no (vol_bt st) i)) ?u)"
      by (auto simp: P_def image_iff intro!: bexI [of _ i])
    from map_of_is_SomeI [OF df this] show ?thesis using Some by (simp add: look m)
  qed
qed

text \<open>
  C4: the loop of \<open>load_vol_htable\<close> over a freshly allocated table. If the tools placed every
  used entry in the bucket of its hash, all entries of the volume are loaded without an error:
  the list of the table holds the slots of the used entries in the order on disk, each with
  the place of its bytes as opening by name expects it (\<open>bentries_ok\<close>), looking a hash up by \<open>shfs_lookup_bentry_by_hash\<close> is a search through the entries on disk, each entry's
  private data points to its place in the buffers with no reference and an open lock, and the
  default entry is the last one so marked.
\<close>

theorem feed_entries_loads_table:
  assumes ok: "htable_ok (vol_bt st) []" and d: "vol_def_bentry st = None"
    and N: "N = unat (nb_bkts (vol_bt st)) * unat (el_per_bkt (vol_bt st))"
    and pl: "\<And>i. i < N \<Longrightarrow> well_placed st i"
    and dist: "inj_on (\<lambda>i. ht_key (vol_bt st) (entry_hash st i)) {i. i < N \<and> entry_used st i}"
  shows "\<exists>st'. feed_entries [0..<N] st = (Inr (), st') \<and>
           bentries_ok st' (used_slots st N) \<and>
           (\<forall>h. length h = 64 \<and> \<not> zero_key (ht_key (vol_bt st) h) \<longrightarrow>
              shfs_lookup_bentry_by_hash h st' =
                Inr (map_option (slot_no (vol_bt st))
                  (find (\<lambda>i. entry_used st i \<and> ht_key (vol_bt st) (entry_hash st i) = ht_key (vol_bt st) h) [0..<N]))) \<and>
           (\<forall>i < N. bentry st' (slot_no (vol_bt st) i) = loaded_bentry st i) \<and>
           vol_def_bentry st' = default_slot st N"
proof -
  from feed_loop [OF ok d N pl, of N] obtain bt where
    bt: "feed_entries [0..<N] st = (Inr (), st\<lparr>vol_bt := bt, vol_def_bentry := default_slot st N\<rparr>)"
    and fed: "fed_table st N N bt" by auto
  let ?st = "st\<lparr>vol_bt := bt, vol_def_bentry := default_slot st N\<rparr>"
  have sh: "ht_hlen bt = ht_hlen (vol_bt st)" "nb_bkts bt = nb_bkts (vol_bt st)" "el_per_bkt bt = el_per_bkt (vol_bt st)"
    and ok': "htable_ok bt (used_slots st N)"
    and priv: "\<And>j. j < N \<Longrightarrow> ht_private bt (slot_no bt j) = loaded_bentry st j"
    using fed unfolding fed_table_def by auto
  have "foreach_htable_el bt = Some (used_slots st N)"
    using dl_repr_foreach(1) [OF htable_okD(6) [OF ok']] by (simp add: foreach_htable_el_def)
  moreover have "bentry ?st (slot_no (vol_bt st) i) = loaded_bentry st i" if "i < N" for i
    using priv [OF that] entry_frame(5) [OF sh, of i] by simp
  ultimately have "bentries_ok ?st (used_slots st N)"
    using pl loaded_place [of ?st _ st] by (auto simp: bentries_ok_def used_slots_def)
  moreover have "shfs_lookup_bentry_by_hash h ?st = Inr (map_option (slot_no (vol_bt st))
      (find (\<lambda>i. entry_used st i \<and> ht_key (vol_bt st) (entry_hash st i) = ht_key (vol_bt st) h) [0..<N]))"
    if "length h = 64" "\<not> zero_key (ht_key (vol_bt st) h)" for h
    using fed_table_lookup [OF fed dist that]
    by (simp add: shfs_lookup_bentry_by_hash_def shfs_btable_lookup_def split: option.split)
  moreover have "bentry ?st (slot_no (vol_bt st) i) = loaded_bentry st i" if "i < N" for i
    using priv [OF that] entry_frame(5) [OF sh, of i] by simp
  ultimately show ?thesis using bt by (intro exI [of _ ?st]) simp
qed

text \<open>
  The table of a mounted volume is where the theory of open files starts: no entry is open and
  every lock is free.
\<close>

lemma loaded_table_starts_files:
  assumes ok: "htable_ok (vol_bt st) []" and d: "vol_def_bentry st = None"
    and N: "N = unat (nb_bkts (vol_bt st)) * unat (el_per_bkt (vol_bt st))"
    and pl: "\<And>i. i < N \<Longrightarrow> well_placed st i" and z: "\<And>r. refcount (bentry st r) = 0"
  shows "\<exists>st'. feed_entries [0..<N] st = (Inr (), st') \<and> fio_reach (st'\<lparr>shfs_nb_open := 0\<rparr>) {#}"
proof -
  from feed_loop [OF ok d N pl, of N] obtain bt where
    bt: "feed_entries [0..<N] st = (Inr (), st\<lparr>vol_bt := bt, vol_def_bentry := default_slot st N\<rparr>)"
    and fed: "fed_table st N N bt" by auto
  let ?st = "(st\<lparr>vol_bt := bt, vol_def_bentry := default_slot st N\<rparr>)\<lparr>shfs_nb_open := 0\<rparr>"
  have sh: "nb_bkts bt = nb_bkts (vol_bt st)" "el_per_bkt bt = el_per_bkt (vol_bt st)"
    and priv: "\<And>j. j < N \<Longrightarrow> ht_private bt (slot_no bt j) = loaded_bentry st j"
    and oth: "\<And>r. (\<And>j. j < N \<Longrightarrow> r \<noteq> slot_no bt j) \<Longrightarrow> ht_private bt r = bentry st r"
    using fed unfolding fed_table_def by auto
  have b: "bentry ?st r = ht_private bt r" for r by (simp add: bentry_def)
  have "refcount (bentry ?st r) = 0" for r
  proof (cases "\<exists>j < N. r = slot_no bt j")
    case True
    then show ?thesis using priv by (auto simp: b loaded_bentry_def)
  next
    case False
    then show ?thesis using oth [of r] z by (simp add: b)
  qed
  moreover have "updatelock (bentry ?st r) = 1" if r: "in_table (vol_bt ?st) r" for r
  proof -
    let ?e = "unat (el_per_bkt bt)"
    have s: "snd r < ?e" "fst r < unat (nb_bkts bt)" using r by (simp_all add: in_table_def)
    then have "slot_no bt (fst r * ?e + snd r) = r" by (simp add: slot_no_def prod_eq_iff)
    moreover have "fst r * ?e + snd r < N"
    proof -
      have "fst r * ?e + snd r < (fst r + 1) * ?e" using s(1) by (simp add: algebra_simps)
      also have "\<dots> \<le> unat (nb_bkts bt) * ?e" using s(2) by (intro mult_le_mono1) simp
      finally show ?thesis by (simp add: N sh)
    qed
    ultimately show ?thesis using priv [of "fst r * ?e + snd r"] by (simp add: b loaded_bentry_def)
  qed
  ultimately have "fio_reach ?st {#}" by (intro fio_reach.start) simp_all
  then show ?thesis using bt by blast
qed

text \<open>A volume with room for two entries, the first of which is the sample file.\<close>

definition sample_empty_bt :: btable where
  "sample_empty_bt = (case shfs_alloc_btable True (\<lambda>_. True) 1 2 8 of Inr bt \<Rightarrow> bt | Inl _ \<Rightarrow> sample_bt)"

lemma sample_empty_bt:
  "htable_ok sample_empty_bt []" "ht_hlen sample_empty_bt = 8" "nb_bkts sample_empty_bt = 1" "el_per_bkt sample_empty_bt = 2"
proof -
  let ?pr = "\<lambda>_. \<lparr>hentry_htchunk = 0, hentry_htoffset = 0, be_hentry = None, refcount = 0,
             updatelock = 0, be_update = False, be_cookie = None\<rparr>"
  obtain ht where ht: "alloc_htable True (\<lambda>_. True) ?pr 1 2 8 = Inr ht" "htable_ok ht []"
    "ht_hlen ht = 8" "nb_bkts ht = 1" "el_per_bkt ht = 2"
    using alloc_htable_ok [of 1 "\<lambda>_. True" 8 ?pr 2] by auto
  then have "sample_empty_bt = ht" by (simp add: sample_empty_bt_def shfs_alloc_btable_def)
  then show "htable_ok sample_empty_bt []" "ht_hlen sample_empty_bt = 8" "nb_bkts sample_empty_bt = 1" "el_per_bkt sample_empty_bt = 2"
    using ht by simp_all
qed

definition sample_unfed :: "(addr list, nat) fsst" where
  "sample_unfed = sample_fs\<lparr>vol_bt := sample_empty_bt\<rparr>"

lemma sample_unfed_simps:
  "vol_bt sample_unfed = sample_empty_bt" "vol_def_bentry sample_unfed = None"
  "hentry_at sample_unfed p = hentry_at sample_fs p"
  "htable_entry_addr 0 sample_unfed = Inr 8192" "htable_entry_addr (Suc 0) sample_unfed = Inr 8448"
proof -
  have e: "vol_htable_nb_entries_per_chunk sample_fs = 16" by (simp add: sample_fs_def cachest.defs)
  show "vol_bt sample_unfed = sample_empty_bt" "vol_def_bentry sample_unfed = None"
    "hentry_at sample_unfed p = hentry_at sample_fs p" by (simp_all add: sample_unfed_def hentry_at_def)
  show "htable_entry_addr 0 sample_unfed = Inr 8192" "htable_entry_addr (Suc 0) sample_unfed = Inr 8448"
    by (simp_all add: htable_entry_addr_def sample_unfed_def e SHFS_HTABLE_CHUNK_NO_def SHFS_HTABLE_ENTRY_OFFSET_def SHFS_HENTRY_SIZE_def)
qed

lemma sample_unfed_zero: "he_hash (hentry_at sample_fs 8448) = replicate 64 0" "he_flags (hentry_at sample_fs 8448) = 0"
proof -
  have "unat (256 + of_nat i :: u64) = 256 + i" if "i < 244" for i
    using that by (subst unat_add_less) (simp_all add: unat_of_nat_less)
  then have "mem_read 8448 244 (bd_mem sample_fs) = replicate 244 0"
    by (auto simp: mem_read_def mem_write_def sample_file_wf(2) intro!: nth_equalityI)
  then show "he_hash (hentry_at sample_fs 8448) = replicate 64 0" "he_flags (hentry_at sample_fs 8448) = 0"
    by (simp_all add: hentry_at_def hentry_get_def field_def get8_def)
qed

theorem feed_entries_loads_table_witness:
  "\<exists>st'. feed_entries [0..<2] sample_unfed = (Inr (), st') \<and>
     shfs_lookup_bentry_by_hash (replicate 64 1) st' = Inr (Some (0, 0)) \<and> vol_def_bentry st' = None"
proof -
  let ?s = sample_unfed
  have a: "entry_addr ?s 0 = 8192" "entry_addr ?s (Suc 0) = 8448" by (simp_all add: entry_addr_def sample_unfed_simps)
  have h: "entry_hash ?s 0 = replicate 8 1 @ replicate 56 0" "entry_hash ?s (Suc 0) = replicate 64 0"
    by (simp_all add: entry_hash_def a sample_unfed_simps sample_file_at sample_unfed_zero) (simp add: sample_file_def)
  have k: "ht_key (vol_bt ?s) (entry_hash ?s 0) = replicate 8 1" "ht_key (vol_bt ?s) (entry_hash ?s (Suc 0)) = replicate 8 0"
    "ht_key (vol_bt ?s) (replicate 64 1) = replicate 8 1"
    by (simp_all add: h ht_key_def sample_unfed_simps sample_empty_bt)
  have u: "entry_used ?s 0" "\<not> entry_used ?s (Suc 0)" by (simp_all add: entry_used_def k zero_key_def list_all_iff)
  have pl: "well_placed ?s i" if "i < 2" for i
    using that u by (auto simp: less_2_cases_iff well_placed_def sample_unfed_simps sample_empty_bt htable_bkt_no_def)
  have inj: "inj_on (\<lambda>i. ht_key (vol_bt ?s) (entry_hash ?s i)) {i. i < 2 \<and> entry_used ?s i}"
    using u by (auto simp: inj_on_def less_2_cases_iff)
  have nz: "length (replicate 64 1 :: u8 list) = 64 \<and> \<not> zero_key (ht_key (vol_bt ?s) (replicate 64 1))"
    by (simp add: k zero_key_def list_all_iff)
  have d: "default_slot ?s 2 = None"
    by (simp add: default_slot_def entry_is_default_def numeral_2_eq_2 a sample_unfed_simps sample_file_at
        SHFS_HENTRY_ISDEFAULT_def sample_unfed_zero(2)) (simp add: sample_file_def)
  have n: "2 = unat (nb_bkts (vol_bt ?s)) * unat (el_per_bkt (vol_bt ?s))"
    by (simp add: sample_unfed_simps sample_empty_bt)
  have ok: "htable_ok (vol_bt ?s) []" "vol_def_bentry ?s = None" by (simp_all add: sample_unfed_simps sample_empty_bt)
  from feed_entries_loads_table [OF ok n pl inj] obtain st' where
    st': "feed_entries [0..<2] ?s = (Inr (), st')" "vol_def_bentry st' = default_slot ?s 2"
    and l: "shfs_lookup_bentry_by_hash (replicate 64 1) st' = Inr (map_option (slot_no (vol_bt ?s))
      (find (\<lambda>i. entry_used ?s i \<and> ht_key (vol_bt ?s) (entry_hash ?s i) = ht_key (vol_bt ?s) (replicate 64 1)) [0..<2]))"
    using nz by blast
  have "[0..<2] = [0, Suc 0]" by (simp add: numeral_2_eq_2)
  then have "shfs_lookup_bentry_by_hash (replicate 64 1) st' = Inr (Some (0, 0))"
    using l u(1) k by (simp add: slot_no_def)
  then show ?thesis using st' d by auto
qed

end
