(* ===== verification/MountLabel.thy ===== *)
theory MountLabel
  imports "HOL-Library.Multiset" Prelude Mempool ShfsDefs Blkdev Aio Cache CacheProps Fio FioProps Mount
begin

text \<open>
  Finding the members of a volume (\<open>load_vol_cconf\<close>): which device handles it holds when it
  returns, what a volume that it accepts satisfies, and what its size check is worth.
\<close>

section \<open>Devices during I/O\<close>

text \<open>
  I/O opens and closes no device, as long as the callbacks of the requests in flight do not.
\<close>

definition devs_same :: "('w, 'c, 'z) bdst_scheme \<Rightarrow> ('w, 'c, 'z) bdst_scheme \<Rightarrow> bool" where
  "devs_same st' st \<longleftrightarrow> bd_tab st' = bd_tab st \<and> bd_links st' = bd_links st \<and> open_bd_list st' = open_bd_list st"

definition keeps_devs :: "(io_err \<Rightarrow> 'c \<Rightarrow> ('w, 'c, 'z) bdst_scheme \<Rightarrow> fault + ('w, 'c, 'z) bdst_scheme) \<Rightarrow> bool" where
  "keeps_devs call \<longleftrightarrow> (\<forall>ret c st st'. call ret c st = Inr st' \<longrightarrow> devs_same st' st)"

lemma devs_same_refl [simp]: "devs_same st st"
  by (simp add: devs_same_def)

lemma devs_same_trans: "devs_same s2 s1 \<Longrightarrow> devs_same s1 s0 \<Longrightarrow> devs_same s2 s0"
  by (simp add: devs_same_def)

lemma devs_same_upd [simp]:
  "devs_same (s\<lparr>bd_world := w\<rparr>) st = devs_same s st" "devs_same (s\<lparr>bd_pools := p\<rparr>) st = devs_same s st"
  "devs_same (s\<lparr>bd_reqs := r\<rparr>) st = devs_same s st" "devs_same (s\<lparr>bd_syncs := y\<rparr>) st = devs_same s st"
  "devs_same (s\<lparr>bd_mem := m\<rparr>) st = devs_same s st"
  by (simp_all add: devs_same_def)

lemma devs_same_inv: "bd_inv st H \<Longrightarrow> devs_same st' st \<Longrightarrow> bd_inv st' H"
  by (rule bd_inv_frame) (simp_all add: devs_same_def)

lemma enqueue_retry_devs:
  fixes st :: "('w, 'c, 'z) bdst_scheme"
  shows "enqueue_retry io bd req wr st = Some r \<Longrightarrow> devs_same (snd r) st"
proof (induction rule: enqueue_retry.raw_induct [rotated, consumes 1, case_names 1])
  case (1 retry io bd req wr st r)
  obtain ret w where w: "blkfront_aio_enqueue io req (rq_aiocb (bd_reqs st req)) wr (bd_world st) = (ret, w)"
    by (cases "blkfront_aio_enqueue io req (rq_aiocb (bd_reqs st req)) wr (bd_world st)")
  show ?case
  proof (cases "ret = Some EBUSY")
    case True
    then have "retry io bd req wr (blkdev_async_io_wait_slot io bd (blkdev_async_io_submit io bd (st\<lparr>bd_world := w\<rparr>))) = Some r"
      using 1(2) w by (simp add: Let_def)
    from 1(1) [OF this] show ?thesis
      by (simp add: devs_same_def blkdev_async_io_wait_slot_def blkdev_async_io_submit_def)
  next
    case False
    then show ?thesis using 1(2) w by (auto simp: Let_def)
  qed
qed

lemma nocheck_devs:
  "blkdev_async_io_nocheck io bd start len wr buffer cb st = Some (r, st') \<Longrightarrow> devs_same st' st"
  by (auto simp: blkdev_async_io_nocheck_def Let_def devs_same_def
      split: option.splits prod.splits dest!: enqueue_retry_devs)

text \<open>
  A property of the state that looks at the devices and at what the clients of the block layer
  have added survives synchronous requests when the callbacks keep it.
\<close>

definition dev_stable :: "(('w, 'c, 'z) bdst_scheme \<Rightarrow> bool) \<Rightarrow> bool" where
  "dev_stable J \<longleftrightarrow> (\<forall>s s'. devs_same s' s \<and> bdst.more s' = bdst.more s \<longrightarrow> J s' = J s)"

definition call_keeps ::
    "(('w, 'c, 'z) bdst_scheme \<Rightarrow> bool) \<Rightarrow>
     (io_err \<Rightarrow> 'c \<Rightarrow> ('w, 'c, 'z) bdst_scheme \<Rightarrow> fault + ('w, 'c, 'z) bdst_scheme) \<Rightarrow> bool" where
  "call_keeps J call \<longleftrightarrow> (\<forall>ret c st st'. J st \<longrightarrow> call ret c st = Inr st' \<longrightarrow> J st')"

lemma dev_stable_upd:
  assumes "dev_stable J"
  shows "J (st\<lparr>bd_world := w\<rparr>) = J st" "J (st\<lparr>bd_pools := p\<rparr>) = J st" "J (st\<lparr>bd_reqs := r\<rparr>) = J st"
    "J (st\<lparr>bd_syncs := y\<rparr>) = J st" "J (st\<lparr>bd_mem := m\<rparr>) = J st"
    "J (blkdev_async_io_submit io bd st) = J st" "J (blkdev_async_io_wait_slot io bd st) = J st"
  using assms by (simp_all add: dev_stable_def blkdev_async_io_submit_def blkdev_async_io_wait_slot_def)

lemma nocheck_keeps:
  assumes "dev_stable J" and "blkdev_async_io_nocheck io bd start len wr buffer cb st = Some (r, st')"
  shows "J st' = J st"
proof -
  have "bdst.more st' = bdst.more st"
    using assms(2) by (auto simp: blkdev_async_io_nocheck_def Let_def split: option.splits prod.splits dest!: enqueue_retry_more)
  then show ?thesis using nocheck_devs [OF assms(2)] assms(1) unfolding dev_stable_def by blast
qed

lemma completions_keep:
  assumes J: "dev_stable J" and k: "call_keeps J call"
  shows "J st \<Longrightarrow> run_completions call cs st = Inr st' \<Longrightarrow> J st'"
proof (induction cs arbitrary: st)
  case (Cons p cs)
  obtain req ret bs where p: "p = (req, ret, bs)" by (cases p)
  let ?st = "st\<lparr>bd_mem := mem_write (aio_buf (rq_aiocb (bd_reqs st req))) bs (bd_mem st)\<rparr>"
  obtain s where s: "blkdev_async_io_cb call req ret ?st = Inr s" "run_completions call cs s = Inr st'"
    using Cons.prems(2) by (auto simp: p split: sum.splits)
  have j: "J ?st" using Cons.prems(1) by (simp add: dev_stable_upd [OF J])
  have "J s"
  proof (cases "rq_cb (bd_reqs ?st req)")
    case None
    then show ?thesis using s(1) j by (auto simp: blkdev_async_io_cb_def dev_stable_upd [OF J] Let_def)
  next
    case (Some cb)
    have "J s1" if "call ret c ?st = Inr s1" for c s1
      using k j that unfolding call_keeps_def by blast
    then show ?thesis
      using s(1) j Some by (cases cb) (auto simp: blkdev_async_io_cb_def blkdev_sync_io_cb_def dev_stable_upd [OF J]
          Let_def split: sum.splits)
  qed
  then show ?case using Cons.IH s(2) by blast
qed simp

lemma poll_keeps:
  assumes "dev_stable J" and "call_keeps J call" and "J st" and "blkdev_poll_req io call bd st = Inr st'"
  shows "J st'"
  using assms(3,4) completions_keep [OF assms(1,2), of "st\<lparr>bd_world := w\<rparr>" for w]
  by (auto simp: blkdev_poll_req_def dev_stable_upd [OF assms(1)] Let_def split: prod.splits)

lemma sync_setup_keeps:
  fixes st :: "('w, 'c, 'z) bdst_scheme"
  assumes J: "dev_stable J"
  shows "sync_setup io call bd start len wr target iosync st = Some r \<Longrightarrow> call_keeps J call \<Longrightarrow> J st \<Longrightarrow> J (snd r)"
proof (induction rule: sync_setup.raw_induct [rotated, consumes 1, case_names 1])
  case (1 rec io call bd start len wr target iosync st r)
  obtain ret s where n: "blkdev_async_io_nocheck io bd start len wr target (Some (Sync_io_cb iosync)) st = Some (ret, s)"
    using 1(2) by (auto split: option.splits)
  let ?s = "blkdev_async_io_submit io bd s"
  have d: "J ?s" using nocheck_keeps [OF J n] 1(4) by (simp add: dev_stable_upd [OF J])
  note eq = 1(2) [unfolded n option.case prod.case Let_def]
  consider "ret = Some EAGAIN" | "ret = Some EBUSY" | "ret \<noteq> Some EAGAIN" "ret \<noteq> Some EBUSY" by blast
  then show ?case
  proof cases
    case 1
    show ?thesis
    proof (cases "blkdev_poll_req io call bd ?s")
      case (Inl f)
      then show ?thesis using eq 1 d by (auto simp: Inl)
    next
      case (Inr s2)
      have "rec io call bd start len wr target iosync s2 = Some r" using eq 1 by (simp add: Inr)
      from "1.IH" [OF this "1.prems"(1)] poll_keeps [OF J "1.prems"(1) d Inr] show ?thesis by blast
    qed
  next
    case 2
    have "rec io call bd start len wr target iosync (blkdev_async_io_wait_slot io bd ?s) = Some r" using eq 2 by simp
    from "1.IH" [OF this "1.prems"(1)] d show ?thesis by (simp add: dev_stable_upd [OF J])
  next
    case 3
    then show ?thesis using eq d by auto
  qed
qed

lemma sync_wait_keeps:
  fixes st :: "('w, 'c, 'z) bdst_scheme"
  assumes J: "dev_stable J"
  shows "sync_wait io call bd iosync st = Some r \<Longrightarrow> call_keeps J call \<Longrightarrow> J st \<Longrightarrow> J (snd r)"
proof (induction rule: sync_wait.raw_induct [rotated, consumes 1, case_names 1])
  case (1 wait io call bd iosync st r)
  show ?case
  proof (cases "ios_sem (bd_syncs st iosync) = 0")
    case False
    then show ?thesis using 1(2,4) by (auto simp: dev_stable_upd [OF J])
  next
    case True
    show ?thesis
    proof (cases "blkdev_poll_req io call bd st")
      case (Inl f)
      then show ?thesis using 1(2,4) True by auto
    next
      case (Inr s)
      have "wait io call bd iosync s = Some r" using 1(2) True by (simp add: Inr)
      from "1.IH" [OF this "1.prems"(1)] poll_keeps [OF J "1.prems" Inr] show ?thesis by blast
    qed
  qed
qed

lemma sync_io_keeps:
  assumes J: "dev_stable J" and k: "call_keeps J call" and j: "J st"
    and op: "blkdev_sync_io io call iosync bd start len wr target st = Some (r, st')"
  shows "J st'"
proof (cases "io_check io (bd_tab st bd) len wr target")
  case (Some e)
  then show ?thesis using op j by (simp add: blkdev_sync_io_def)
next
  case None
  let ?st = "st\<lparr>bd_syncs := (bd_syncs st)(iosync := (bd_syncs st iosync)\<lparr>ios_sem := 0\<rparr>)\<rparr>"
  obtain r1 s1 where s1: "sync_setup io call bd start len wr target iosync ?st = Some (r1, s1)"
    using op None by (auto simp: blkdev_sync_io_def blkdev_sync_io_nocheck_def split: option.splits)
  have d1: "J s1" using sync_setup_keeps [OF J s1 k] j by (simp add: dev_stable_upd [OF J])
  have "r1 = Inr None \<and> sync_wait io call bd iosync s1 = Some (r, st') \<or> st' = s1"
    using op None s1
    by (auto simp: blkdev_sync_io_def blkdev_sync_io_nocheck_def split: sum.splits option.splits)
  then show ?thesis using sync_wait_keeps [OF J _ k d1, of io bd iosync "(r, st')"] d1 by auto
qed

lemma sync_io_devs:
  assumes "keeps_devs call" and "blkdev_sync_io io call iosync bd start len wr target st = Some (r, st')"
  shows "devs_same st' st"
proof (rule sync_io_keeps [OF _ _ _ assms(2)])
  show "dev_stable (\<lambda>s. devs_same s st)" by (auto simp: dev_stable_def devs_same_def)
  show "call_keeps (\<lambda>s. devs_same s st) call"
    using assms(1) unfolding keeps_devs_def call_keeps_def by (blast intro: devs_same_trans)
qed simp

section \<open>Handles of the devices\<close>

lemma free_mempool_cases: "free_mempool p st = Inr () \<or> (\<exists>f. free_mempool p st = Inl (Fault f))"
  by (auto simp: free_mempool_def split: option.split)

lemma close_blkdev_effect:
  assumes "close_blkdev io bd st = (r, st')"
  shows "r = Inr () \<or> (\<exists>f. r = Inl (Fault f))" "bd_mem st' = bd_mem st" "bdst.more st' = bdst.more st"
    "bd_info (bd_tab st' b) = bd_info (bd_tab st b)"
proof -
  let ?f = "free_mempool (Some (bd_reqpool (bd_tab st bd))) (bd_pools st)"
  let ?u = "bd_list_unlink bd (st\<lparr>bd_tab := (bd_tab st)(bd := (bd_tab st bd)\<lparr>bd_refcount := bd_refcount (bd_tab st bd) - 1\<rparr>)\<rparr>)"
  have u: "bd_mem ?u = bd_mem st" "bdst.more ?u = bdst.more st" "bd_info (bd_tab ?u b) = bd_info (bd_tab st b)" for b
    by (simp_all add: bd_list_unlink_def Let_def split: option.split)
  show "r = Inr () \<or> (\<exists>f. r = Inl (Fault f))" "bd_mem st' = bd_mem st" "bdst.more st' = bdst.more st"
    "bd_info (bd_tab st' b) = bd_info (bd_tab st b)"
    using free_mempool_cases [of "Some (bd_reqpool (bd_tab st bd))" "bd_pools st"] assms u
    by (cases ?f; auto simp: close_blkdev_def Let_def split: if_splits)+
qed

lemma close_blkdevs_effect:
  "\<exists>r st'. close_blkdevs io bds st = Some (r, st') \<and> (r = Inr () \<or> (\<exists>f. r = Inl (Fault f))) \<and>
     bd_mem st' = bd_mem st \<and> bdst.more st' = bdst.more st \<and> (\<forall>b. bd_info (bd_tab st' b) = bd_info (bd_tab st b))"
proof (induction bds arbitrary: st)
  case (Cons bd bds)
  obtain r s where s: "close_blkdev io bd st = (r, s)" by fastforce
  note E = close_blkdev_effect [OF s]
  show ?case
  proof (cases r)
    case (Inl e)
    then show ?thesis using s E by (simp add: rbind_def)
  next
    case (Inr u)
    obtain r' st' where "close_blkdevs io bds s = Some (r', st')" "r' = Inr () \<or> (\<exists>f. r' = Inl (Fault f))"
      "bd_mem st' = bd_mem s" "bdst.more st' = bdst.more s" "\<forall>b. bd_info (bd_tab st' b) = bd_info (bd_tab s b)"
      using Cons.IH [of s] by blast
    then show ?thesis using s E Inr by (simp add: rbind_def)
  qed
qed simp

lemma close_blkdevs_inv:
  "bd_inv st (H + mset bds) \<Longrightarrow> close_blkdevs io bds st = Some (Inr (), st') \<Longrightarrow> bd_inv st' H"
proof (induction bds arbitrary: st)
  case (Cons bd bds)
  obtain r s where s: "close_blkdev io bd st = (r, s)" by fastforce
  then have r: "r = Inr ()" "close_blkdevs io bds s = Some (Inr (), st')"
    using Cons.prems(2) close_blkdev_effect(1) [OF s] by (auto simp: rbind_def)
  have "bd_inv s (H + mset (bd # bds) - {#bd#})"
    using Cons.prems(1) s r(1) by (intro bd_inv_close [of st]) simp_all
  then have "bd_inv s (H + mset bds)" by simp
  then show ?case using Cons.IH r(2) by blast
qed simp

text \<open>The opened device is one that was open, or the struct just allocated.\<close>

lemma open_blkdev_which:
  assumes inv: "bd_inv st H" and op: "open_blkdev io xbd xp xr i mode st = Some (Inr bd, st')"
  shows "bd \<in># H \<or> xbd = Some bd"
proof -
  obtain bds where b: "bd_holds st bds" "set bds = set_mset H" using inv unfolding bd_inv_def by blast
  note w = bd_holds_walk [OF b(1)]
  show ?thesis
  proof (cases "find (\<lambda>bd. bd_id (bd_tab st bd) = i) bds")
    case None
    then have "open_new_blkdev io xbd xp xr i mode st = (Inr bd, st')" using op w by (simp add: open_blkdev_def)
    from open_new_cases [OF this] show ?thesis by auto
  next
    case (Some x)
    then have "x \<in> set bds" by (auto simp: find_Some_iff)
    moreover have "bd = x" using op w Some by (auto simp: open_blkdev_def Let_def split: if_splits)
    ultimately show ?thesis using b(2) by simp
  qed
qed

lemma checkopen_inv:
  assumes inv: "bd_inv st H" and fresh: "\<And>bd. fst xs = Some bd \<Longrightarrow> bd \<notin># H" and room: "size H < 2 ^ 32 - 1"
    and k: "keeps_devs call" and op: "shfs_checkopen_blkdev io call iosync xs i chk0 mode st = Some (r, st')"
  shows "case r of Inr None \<Rightarrow> bd_inv st' H
    | Inr (Some bd) \<Rightarrow> bd_inv st' (add_mset bd H) \<and> (bd \<in># H \<or> fst xs = Some bd)
    | Inl (Errno e) \<Rightarrow> False | Inl (Fault f) \<Rightarrow> True"
proof -
  obtain r0 s where s: "open_blkdev io (fst xs) (fst (snd xs)) (snd (snd xs)) i mode st = Some (r0, s)"
    using op by (auto simp: shfs_checkopen_blkdev_def split: option.splits)
  note I = bd_inv_open [OF inv fresh disjI1 [OF room] s]
  show ?thesis
  proof (cases r0)
    case (Inl e)
    then show ?thesis using op s I by (cases e) (auto simp: shfs_checkopen_blkdev_def)
  next
    case (Inr bd)
    have which: "bd \<in># H \<or> fst xs = Some bd" using open_blkdev_which [OF inv s [unfolded Inr]] .
    have closed: ?thesis
      if "rbind (Some (close_blkdev io bd s2)) (\<lambda>_ st. Some (Inr None, st)) = Some (r, st')" and d: "devs_same s2 s" for s2
    proof -
      obtain r2 s3 where c: "close_blkdev io bd s2 = (r2, s3)" by fastforce
      show ?thesis
      proof (cases "r2 = Inr ()")
        case True
        have "bd_inv s2 (add_mset bd H)" using I d by (simp add: Inr devs_same_inv)
        from bd_inv_close [OF this _ c [unfolded True]] show ?thesis using that(1) c True by (auto simp: rbind_def)
      next
        case False
        then show ?thesis using that(1) c close_blkdev_effect(1) [OF c] by (auto simp: rbind_def)
      qed
    qed
    let ?ss = "blkdev_ssize (bd_tab s bd)"
    show ?thesis
    proof (cases "?ss > 4096 \<or> ?ss < 512 \<or> \<not> POWER_OF_2 ?ss")
      case True
      then have "rbind (Some (close_blkdev io bd s)) (\<lambda>_ st. Some (Inr None, st)) = Some (r, st')"
        using op s Inr by (simp add: shfs_checkopen_blkdev_def Let_def)
      then show ?thesis by (rule closed) simp
    next
      case False
      then obtain r1 s2 where io: "blkdev_sync_io io call iosync bd 0 (ucast (4096 div ?ss)) False chk0 s = Some (r1, s2)"
        using op s Inr by (auto simp: shfs_checkopen_blkdev_def Let_def split: option.splits)
      have d: "devs_same s2 s" by (rule sync_io_devs [OF k io])
      consider f where "r1 = Inl f" | e where "r1 = Inr (Some e)" | "r1 = Inr None"
        by (cases r1) (blast, metis option.exhaust)
      then show ?thesis
      proof cases
        case 1
        then show ?thesis using op s Inr False io by (auto simp: shfs_checkopen_blkdev_def Let_def)
      next
        case 2
        then have "rbind (Some (close_blkdev io bd s2)) (\<lambda>_ st. Some (Inr None, st)) = Some (r, st')"
          using op s Inr False io by (simp add: shfs_checkopen_blkdev_def Let_def)
        then show ?thesis using d by (rule closed)
      next
        case 3
        show ?thesis
        proof (cases "shfs_detect_hdr0 (mem_read chk0 4096 (bd_mem s2)) < 0")
          case True
          then have "rbind (Some (close_blkdev io bd s2)) (\<lambda>_ st. Some (Inr None, st)) = Some (r, st')"
            using op s Inr False io 3 by (simp add: shfs_checkopen_blkdev_def Let_def)
          then show ?thesis using d by (rule closed)
        next
          case ok: False
          then have "r = Inr (Some bd)" "st' = s2"
            using op s Inr False io 3 by (auto simp: shfs_checkopen_blkdev_def Let_def)
          then show ?thesis using I which d by (simp add: Inr devs_same_inv)
        qed
      qed
    qed
  qed
qed

lemma detect_members_inv:
  assumes k: "keeps_devs call"
    and inj: "\<And>j l bd. fst (xo j) = Some bd \<Longrightarrow> fst (xo l) = Some bd \<Longrightarrow> j = l"
    and fresh: "\<And>j bd. fst (xo j) = Some bd \<Longrightarrow> bd \<notin># H"
  shows "bd_inv st (H + mset (map fst det)) \<Longrightarrow>
    \<forall>bd \<in> set (map fst det). bd \<in># H \<or> (\<exists>j < i. fst (xo j) = Some bd) \<Longrightarrow>
    size H + length det + length ids < 2 ^ 32 - 1 \<Longrightarrow>
    detect_members io call iosync xo chk0 ids i det st = Some (r, st') \<Longrightarrow>
    case r of Inl (Errno e) \<Rightarrow> False | Inl (Fault f) \<Rightarrow> True | Inr det' \<Rightarrow> bd_inv st' (H + mset (map fst det'))"
proof (induction ids arbitrary: i det st)
  case (Cons b bs)
  obtain r0 s where s: "shfs_checkopen_blkdev io call iosync (xo i) b chk0 O_RDONLY st = Some (r0, s)"
    using Cons.prems(4) by (auto simp: rbind_def split: option.splits)
  have f: "bd \<notin># H + mset (map fst det)" if "fst (xo i) = Some bd" for bd
    using Cons.prems(2) fresh [OF that] inj [OF that] by auto
  have room: "size (H + mset (map fst det)) < 2 ^ 32 - 1" using Cons.prems(3) by simp
  note C = checkopen_inv [OF Cons.prems(1) f room k s]
  show ?case
  proof (cases r0)
    case (Inl e)
    then show ?thesis using C Cons.prems(4) s by (cases e) (auto simp: rbind_def)
  next
    case (Inr o')
    show ?thesis
    proof (cases o')
      case None
      have "detect_members io call iosync xo chk0 bs (Suc i) det s = Some (r, st')"
        using Cons.prems(4) s by (simp add: rbind_def Inr None)
      moreover have "bd_inv s (H + mset (map fst det))" using C by (simp add: Inr None)
      ultimately show ?thesis
        using Cons.IH [of s det "Suc i"] Cons.prems(2,3) by (auto simp: less_Suc_eq)
    next
      case (Some bd)
      let ?det = "det @ [(bd, uuid_copy (hc_member_uuid (chk0_label chk0 s)))]"
      have d: "detect_members io call iosync xo chk0 bs (Suc i) ?det s = Some (r, st')"
        using Cons.prems(4) s by (simp add: rbind_def Inr Some)
      have i: "bd_inv s (H + mset (map fst ?det))" and w: "bd \<in># H + mset (map fst det) \<or> fst (xo i) = Some bd"
        using C by (simp_all add: Inr Some)
      have "\<forall>bd \<in> set (map fst ?det). bd \<in># H \<or> (\<exists>j < Suc i. fst (xo j) = Some bd)"
        using w Cons.prems(2) by (auto simp: less_Suc_eq)
      then show ?thesis using Cons.IH [OF i _ _ d] Cons.prems(3) by simp
    qed
  qed
qed auto

section \<open>The members of a label\<close>

lemma uuid_compare_copy: "uuid_compare u (uuid_copy v) = uuid_compare u v"
  by (simp add: uuid_compare_def uuid_copy_def)

lemma match_members_ok:
  "match_members det u is = Inr ms \<Longrightarrow> length ms \<le> length is \<and> vm_bd ` set ms \<subseteq> fst ` set det \<and>
     (length ms = length is \<longrightarrow> (\<forall>i < length is. uuid_compare (u ! (is ! i)) (vm_uuid (ms ! i)) = 0))"
proof (induction "is" arbitrary: ms)
  case (Cons j js)
  obtain ms' where ms': "match_members det u js = Inr ms'"
    using Cons.prems by (auto split: if_splits sum.splits)
  note IH = Cons.IH [OF ms']
  show ?case
  proof (cases "find (\<lambda>(bd, v). uuid_compare (u ! j) v = 0) det")
    case None
    then have "ms = ms'" using Cons.prems ms' by (auto split: if_splits)
    then show ?thesis using IH by auto
  next
    case (Some x)
    obtain bd v where x: "x = (bd, v)" by (cases x)
    have f: "uuid_compare (u ! j) v = 0" "(bd, v) \<in> set det"
      using Some x by (auto simp: find_Some_iff) (metis nth_mem)
    have m: "ms = \<lparr>vm_bd = bd, vm_uuid = uuid_copy v, vm_sfactor = 0\<rparr> # ms'"
      using Cons.prems ms' Some x by (auto split: if_splits)
    have "bd \<in> fst ` set det" using f(2) by force
    then show ?thesis using IH f(1) by (auto simp: m uuid_compare_copy nth_Cons split: nat.splits)
  qed
qed simp

text \<open>What \<open>setup_members\<close> changes.\<close>

definition setup_frame :: "('w, 'u, 'z) aiost_scheme \<Rightarrow> ('w, 'u, 'z) aiost_scheme \<Rightarrow> bool" where
  "setup_frame st' st \<longleftrightarrow> (\<exists>a ms. st' = st\<lparr>vol_ioalign := a, vol_member := ms\<rparr> \<and>
     map vm_bd ms = map vm_bd (vol_member st) \<and> map vm_uuid ms = map vm_uuid (vol_member st))"

lemma setup_frameI:
  "map vm_bd ms = map vm_bd (vol_member st) \<Longrightarrow> map vm_uuid ms = map vm_uuid (vol_member st) \<Longrightarrow>
   setup_frame (st\<lparr>vol_ioalign := a, vol_member := ms\<rparr>) st"
  unfolding setup_frame_def by blast

lemma setup_frame_trans:
  assumes "setup_frame s2 s1" and "setup_frame s1 s0"
  shows "setup_frame s2 s0"
proof -
  obtain a ms where 2: "s2 = s1\<lparr>vol_ioalign := a, vol_member := ms\<rparr>" "map vm_bd ms = map vm_bd (vol_member s1)"
    "map vm_uuid ms = map vm_uuid (vol_member s1)" using assms(1) unfolding setup_frame_def by blast
  obtain b ns where 1: "s1 = s0\<lparr>vol_ioalign := b, vol_member := ns\<rparr>" "map vm_bd ns = map vm_bd (vol_member s0)"
    "map vm_uuid ns = map vm_uuid (vol_member s0)" using assms(2) unfolding setup_frame_def by blast
  have "s2 = s0\<lparr>vol_ioalign := a, vol_member := ms\<rparr>" by (simp add: 2(1) 1(1))
  then show ?thesis using 2 1 by (simp add: setup_frameI)
qed

lemma map_update_same: "f x = f (xs ! i) \<Longrightarrow> map f (xs[i := x]) = map f xs"
  by (cases "i < length xs") (simp_all add: map_update list_update_same_conv list_update_beyond)

lemma word_mod_dvd: "a mod b = 0 \<Longrightarrow> unat (b :: 'a::len word) dvd unat a"
  by (metis dvd_eq_mod_eq_0 unat_0 unat_mod)

lemma setup_frame_refl [simp]: "setup_frame st st"
proof -
  have "setup_frame (st\<lparr>vol_ioalign := vol_ioalign st, vol_member := vol_member st\<rparr>) st"
    by (rule setup_frameI) simp_all
  then show ?thesis by simp
qed

definition setup_one :: "nat \<Rightarrow> ('w, 'u, 'z) aiost_scheme \<Rightarrow> ('w, 'u, 'z) aiost_scheme" where
  "setup_one i st =
     (let d = bd_tab st (member_bd st i)
      in st\<lparr>vol_ioalign := max (blkdev_ioalign d) (vol_ioalign st),
            vol_member := (vol_member st)[i := (vol_member st ! i)\<lparr>vm_sfactor := ucast (vol_stripesize st div blkdev_ssize d)\<rparr>]\<rparr>)"

lemma setup_one_frame: "setup_frame (setup_one i st) st"
  unfolding setup_one_def Let_def by (rule setup_frameI) (simp_all add: map_update_same)

lemma setup_members_Cons:
  "setup_members (i # is) st =
     (let a = blkdev_ioalign (bd_tab st (member_bd st i)); cur = vol_ioalign st
      in if a > cur \<and> \<not> (cur = 0 \<or> a mod cur = 0) then (Inl (Fault Assert_failed), st)
         else if \<not> a > cur \<and> a = 0 then (Inl (Fault Div_by_zero), st)
         else if \<not> a > cur \<and> cur mod a \<noteq> 0 then (Inl (Fault Assert_failed), st)
         else if vol_stripesize st div blkdev_ssize (bd_tab st (member_bd st i)) = 0 then (Inl (Errno ENOENT), setup_one i st)
         else setup_members is (setup_one i st))"
  by (simp only: setup_members.simps Let_def setup_one_def)

lemma setup_members_frame: "setup_members is st = (r, st') \<Longrightarrow> setup_frame st' st"
proof (induction "is" arbitrary: st)
  case (Cons i "is")
  have "st' = st \<or> st' = setup_one i st \<or> setup_members is (setup_one i st) = (r, st')"
    using Cons.prems unfolding setup_members_Cons Let_def by (simp only: prod.inject split: if_splits) blast+
  then show ?case using Cons.IH setup_one_frame setup_frame_trans by (metis setup_frame_refl)
qed simp

lemma setup_frameD:
  assumes "setup_frame st' st"
  shows "devs_same st' st" "bd_mem st' = bd_mem st" "vol_nb_members st' = vol_nb_members st"
    "vol_stripesize st' = vol_stripesize st" "vol_stripemode st' = vol_stripemode st"
    "vol_chunksize st' = vol_chunksize st" "vol_volsize st' = vol_volsize st"
    "length (vol_member st') = length (vol_member st)" "aiost.more st' = aiost.more st"
    "vm_bd ` set (vol_member st') = vm_bd ` set (vol_member st)"
    "i < length (vol_member st) \<Longrightarrow> vm_bd (vol_member st' ! i) = vm_bd (vol_member st ! i)"
    "i < length (vol_member st) \<Longrightarrow> vm_uuid (vol_member st' ! i) = vm_uuid (vol_member st ! i)"
proof -
  obtain a ms where s: "st' = st\<lparr>vol_ioalign := a, vol_member := ms\<rparr>"
    and b: "map vm_bd ms = map vm_bd (vol_member st)" and u: "map vm_uuid ms = map vm_uuid (vol_member st)"
    using assms unfolding setup_frame_def by blast
  have l: "length ms = length (vol_member st)" using b by (rule map_eq_imp_length_eq)
  show "devs_same st' st" "bd_mem st' = bd_mem st" "vol_nb_members st' = vol_nb_members st"
    "vol_stripesize st' = vol_stripesize st" "vol_stripemode st' = vol_stripemode st"
    "vol_chunksize st' = vol_chunksize st" "vol_volsize st' = vol_volsize st"
    "length (vol_member st') = length (vol_member st)" "aiost.more st' = aiost.more st"
    by (simp_all add: s l devs_same_def)
  show "vm_bd ` set (vol_member st') = vm_bd ` set (vol_member st)"
    using arg_cong [OF b, of set] by (simp add: s)
  show "i < length (vol_member st) \<Longrightarrow> vm_bd (vol_member st' ! i) = vm_bd (vol_member st ! i)"
    "i < length (vol_member st) \<Longrightarrow> vm_uuid (vol_member st' ! i) = vm_uuid (vol_member st ! i)"
    using arg_cong [OF b, of "\<lambda>l. l ! i"] arg_cong [OF u, of "\<lambda>l. l ! i"] l by (simp_all add: s)
qed

text \<open>A set-up without an error: the factors, and an alignment that all devices divide.\<close>

lemma setup_members_ok:
  "setup_members is st = (Inr (), st') \<Longrightarrow> distinct is \<Longrightarrow> set is \<subseteq> {..<length (vol_member st)} \<Longrightarrow>
   (vol_ioalign st = 0 \<or> unat (vol_ioalign st) dvd unat (vol_ioalign st')) \<and>
   (\<forall>i \<in> set is. let d = bd_tab st (member_bd st i); sf = vol_stripesize st div blkdev_ssize d
      in vm_sfactor (vol_member st' ! i) = ucast sf \<and> sf \<noteq> 0 \<and> unat (blkdev_ioalign d) dvd unat (vol_ioalign st')) \<and>
   (\<forall>i. i \<notin> set is \<longrightarrow> vol_member st' ! i = vol_member st ! i)"
proof (induction "is" arbitrary: st)
  case (Cons i "is")
  let ?s = "setup_one i st"
  let ?a = "blkdev_ioalign (bd_tab st (member_bd st i))" and ?c = "vol_ioalign st"
    and ?sf = "vol_stripesize st div blkdev_ssize (bd_tab st (member_bd st i))"
  have g: "setup_members is ?s = (Inr (), st')" "?sf \<noteq> 0" "?a > ?c \<Longrightarrow> ?c = 0 \<or> ?a mod ?c = 0"
    "\<not> ?a > ?c \<Longrightarrow> ?c mod ?a = 0" "?a > ?c \<or> ?a \<noteq> 0"
    using Cons.prems(1) unfolding setup_members_Cons Let_def by (simp_all split: if_splits)
  note F = setup_frameD [OF setup_one_frame [of i st]]
  have i: "i \<notin> set is" "i < length (vol_member st)" "distinct is" "set is \<subseteq> {..<length (vol_member ?s)}"
    using Cons.prems(2,3) by (auto simp: F(8))
  have ia: "vol_ioalign ?s = max ?a ?c" by (simp add: setup_one_def Let_def)
  have ad: "unat ?a dvd unat (vol_ioalign ?s)" "?c = 0 \<or> unat ?c dvd unat (vol_ioalign ?s)"
  proof -
    have "?a > ?c \<Longrightarrow> ?c = 0 \<or> unat ?c dvd unat ?a" "\<not> ?a > ?c \<Longrightarrow> unat ?a dvd unat ?c"
      by (drule g(3), erule disjE, erule disjI1, rule disjI2, erule word_mod_dvd)
         (drule g(4), erule word_mod_dvd)
    then show "unat ?a dvd unat (vol_ioalign ?s)" "?c = 0 \<or> unat ?c dvd unat (vol_ioalign ?s)"
      by (auto simp: ia max_def not_le not_less)
  qed
  have nz: "vol_ioalign ?s \<noteq> 0" using g(5) by (auto simp: ia max_def word_le_nat_alt word_less_nat_alt unat_eq_zero)
  have si: "vol_member ?s ! i = (vol_member st ! i)\<lparr>vm_sfactor := ucast ?sf\<rparr>"
    "\<And>j. j \<noteq> i \<Longrightarrow> vol_member ?s ! j = vol_member st ! j"
    using i(2) by (simp_all add: setup_one_def Let_def)
  have mb: "bd_tab ?s (member_bd ?s j) = bd_tab st (member_bd st j)" for j
    using F(1) si by (cases "j = i") (simp_all add: member_bd_def devs_same_def)
  note IH = Cons.IH [OF g(1) i(3,4), unfolded mb F(4)]
  have z: "unat ?a dvd unat (vol_ioalign st')" "?c = 0 \<or> unat ?c dvd unat (vol_ioalign st')"
    using IH ad nz by (auto intro: dvd_trans)
  show ?case using IH z g(2) si i(1) by (auto simp: Let_def)
qed simp

section \<open>Loading a label\<close>

text \<open>
  A volume that is set up as its label says: the fields, the stripes, and for each member the
  uuid, the size, the stripe-to-sector factor and the alignment.
\<close>

definition label_fields :: "shfs_hdr_common \<Rightarrow> ('w, 'u, 'z) fsst_scheme \<Rightarrow> bool" where
  "label_fields h st \<longleftrightarrow>
     vol_uuid st = hc_vol_uuid h \<and> vol_volname st = hc_vol_name h @ [0] \<and>
     vol_stripemode st = hc_member_stripemode h \<and> vol_stripesize st = hc_member_stripesize h \<and>
     vol_chunksize st = SHFS_CHUNKSIZE h \<and> vol_volsize st = hc_vol_size h"

definition stripes_valid :: "('w, 'u, 'z) aiost_scheme \<Rightarrow> bool" where
  "stripes_valid st \<longleftrightarrow>
     (vol_stripemode st = SHFS_SM_COMBINED \<or> vol_stripemode st = SHFS_SM_INDEPENDENT) \<and>
     POWER_OF_2 (vol_stripesize st) \<and> 4096 \<le> vol_stripesize st \<and> vol_stripesize st \<le> 32768"

definition member_valid :: "('w, 'u, 'z) aiost_scheme \<Rightarrow> uuid_t \<Rightarrow> vol_member \<Rightarrow> bool" where
  "member_valid st u m \<longleftrightarrow>
     (let d = bd_tab st (vm_bd m); sf = vol_stripesize st div blkdev_ssize d
      in uuid_compare u (vm_uuid m) = 0 \<and> vm_sfactor m = ucast sf \<and> sf \<noteq> 0 \<and>
         unat (blkdev_ioalign d) dvd unat (vol_ioalign st))"

definition members_valid :: "shfs_hdr_common \<Rightarrow> ('w, 'u, 'z) aiost_scheme \<Rightarrow> bool" where
  "members_valid h st \<longleftrightarrow>
     vol_nb_members st = hc_member_count h \<and> length (vol_member st) = unat (hc_member_count h) \<and>
     (\<forall>i < length (vol_member st). member_valid st (hc_member h ! i) (vol_member st ! i)) \<and>
     (\<exists>n. min_member_size st = Inr n \<and> (\<forall>m \<in> set (vol_member st). n \<le> blkdev_size (bd_tab st (vm_bd m))))"

lemma fsst_aio_more:
  fixes s' s :: "('w, 'u, 'z) fsst_scheme"
  assumes "aiost.more s' = aiost.more s"
  shows "vol_uuid s' = vol_uuid s" "vol_volname s' = vol_volname s"
  using assms by (cases s; cases s'; simp)+

lemma setup_members_valid:
  assumes ms: "match_members det (hc_member h) [0..<unat (hc_member_count h)] = Inr ms"
    and s3: "vol_member s3 = ms" "vol_nb_members s3 = of_nat (length ms)" "vol_nb_members s3 = hc_member_count h"
    and s4: "setup_members [0..<length ms] s3 = (Inr (), s4)"
    and n: "min_member_size s4 = Inr n" "\<not> (\<exists>m \<in> set (vol_member s4). blkdev_size (bd_tab s4 (vm_bd m)) < n)"
  shows "members_valid h s4" and "vm_bd ` set (vol_member s4) \<subseteq> fst ` set det"
proof -
  note F = setup_frameD [OF setup_members_frame [OF s4], unfolded s3(1)] and M = match_members_ok [OF ms]
  have lm: "length ms = unat (hc_member_count h)"
  proof -
    have "length ms \<le> unat (hc_member_count h)" using M by simp
    moreover have "unat (hc_member_count h) < 2 ^ LENGTH(8)" by (rule unsigned_less)
    ultimately have "unat (of_nat (length ms) :: u8) = length ms" by (intro unat_of_nat_less) linarith
    then show ?thesis using s3 by simp
  qed
  have S: "\<forall>i \<in> set [0..<length ms]. let d = bd_tab s3 (member_bd s3 i); sf = vol_stripesize s3 div blkdev_ssize d
      in vm_sfactor (vol_member s4 ! i) = ucast sf \<and> sf \<noteq> 0 \<and> unat (blkdev_ioalign d) dvd unat (vol_ioalign s4)"
    using setup_members_ok [OF s4] s3(1) by (simp add: atLeast0LessThan)
  have "member_valid s4 (hc_member h ! i) (vol_member s4 ! i)" if i: "i < length ms" for i
  proof -
    have b: "bd_tab s4 = bd_tab s3" using F(1) by (simp add: devs_same_def)
    have u: "uuid_compare (hc_member h ! i) (vm_uuid (ms ! i)) = 0" using M i lm by simp
    have mb: "member_bd s3 i = vm_bd (ms ! i)" by (simp add: member_bd_def s3(1))
    have "i \<in> set [0..<length ms]" using i by simp
    from bspec [OF S this, unfolded mb] show ?thesis
      using F(4) u by (simp add: member_valid_def Let_def F(11,12) [OF i] b)
  qed
  then show "members_valid h s4"
    unfolding members_valid_def using F(3,8) lm s3 n by (auto simp: not_less)
  show "vm_bd ` set (vol_member s4) \<subseteq> fst ` set det" using F(10) M by simp
qed

text \<open>\<open>cconf_setup\<close> from the inside out: it does I/O and then sets fields of the volume.\<close>

lemma cconf_setup_cases:
  assumes op: "cconf_setup io call iosync chk0 det st = Some (r, st')"
  shows "(\<exists>f. r = Inl (Fault f)) \<or>
    (\<exists>s0. (\<exists>x. blkdev_sync_io io call iosync (fst (hd det)) 0 (ucast (4096 div blkdev_ssize (bd_tab st (fst (hd det)))))
              False chk0 st = Some (Inr x, s0)) \<and> devs_same st' s0 \<and>
       (r = Inr () \<longrightarrow>
         (let h = chk0_label chk0 st' in
            bd_mem st' = bd_mem s0 \<and> label_fields h st' \<and> stripes_valid st' \<and> members_valid h st' \<and>
            vm_bd ` set (vol_member st') \<subseteq> fst ` set det)))"
proof -
  let ?io = "blkdev_sync_io io call iosync (fst (hd det)) 0 (ucast (4096 div blkdev_ssize (bd_tab st (fst (hd det))))) False chk0 st"
  obtain x s0 where x: "?io = Some (x, s0)" using op by (auto simp: cconf_setup_def Let_def split: option.splits)
  show ?thesis
  proof (cases x)
    case (Inl f)
    then show ?thesis using op x by (auto simp: cconf_setup_def Let_def)
  next
    case (Inr y)
    note xy = x [unfolded Inr]
    show ?thesis
    proof (cases y)
      case (Some e)
      then have "r = Inl (Errno e)" "st' = s0" using op xy by (simp_all add: cconf_setup_def Let_def)
      then show ?thesis using xy by (intro disjI2 exI [of _ s0]) auto
    next
      case None
      let ?h = "chk0_label chk0 s0"
      define s1 where "s1 = s0\<lparr>vol_uuid := hc_vol_uuid ?h, vol_volname := hc_vol_name ?h @ [0],
           vol_ts_creation := hc_vol_ts_creation ?h, vol_stripesize := hc_member_stripesize ?h,
           vol_stripemode := hc_member_stripemode ?h\<rparr>"
      define s2 where "s2 = s1\<lparr>vol_chunksize := SHFS_CHUNKSIZE ?h, vol_volsize := hc_vol_size ?h\<rparr>"
      have d1: "devs_same s1 s0" "devs_same s2 s0" by (simp_all add: s1_def s2_def devs_same_def)
      note eq = op [unfolded cconf_setup_def Let_def xy None option.case prod.case sum.case,
        folded s1_def, folded s2_def]
      have err: ?thesis if "r = Inl (Errno e)" "devs_same st' s0" for e
        using xy that by (intro disjI2 exI [of _ s0]) auto
      show ?thesis
      proof (cases "vol_stripemode s1 \<noteq> SHFS_SM_COMBINED \<and> vol_stripemode s1 \<noteq> SHFS_SM_INDEPENDENT")
        case True
        then have "r = Inl (Errno ENOTSUP)" "st' = s1" using eq by simp_all
        then show ?thesis using d1 by (intro err) simp_all
      next
        case mode: False
        show ?thesis
        proof (cases "match_members det (hc_member ?h) [0..<unat (hc_member_count ?h)]")
          case (Inl f)
          then have "r = Inl (Fault f)" using eq mode by simp
          then show ?thesis by blast
        next
          case ms: (Inr ms)
          define s3 where "s3 = s2\<lparr>vol_nb_members := of_nat (length ms), vol_member := ms\<rparr>"
          have d3: "devs_same s3 s0" "devs_same (s3\<lparr>vol_ioalign := 0\<rparr>) s0" using d1 by (simp_all add: s3_def devs_same_def)
          note eq3 = eq [unfolded ms sum.case if_not_P [OF mode], folded s3_def]
          show ?thesis
          proof (cases "vol_nb_members s3 \<noteq> hc_member_count ?h \<or> vol_stripesize s3 > 32768 \<or> vol_stripesize s3 < 4096 \<or> \<not> POWER_OF_2 (vol_stripesize s3)")
            case True
            then have "r = Inl (Errno ENOENT)" "st' = s3" using eq3 by (simp_all split: if_splits)
            then show ?thesis using d3 by (intro err) simp_all
          next
            case chk: False
            obtain r4 s4 where s4: "setup_members [0..<length ms] (s3\<lparr>vol_ioalign := 0\<rparr>) = (r4, s4)" by fastforce
            note F = setup_frameD [OF setup_members_frame [OF s4]]
            have d4: "devs_same s4 s0" using F(1) d3(2) by (rule devs_same_trans)
            have eq4: "rbind (Some (r4, s4)) (\<lambda>_ st. case min_member_size st of
                Inl f \<Rightarrow> Some (Inl (Fault f), st)
              | Inr n \<Rightarrow> if \<exists>m \<in> set (vol_member st). blkdev_size (bd_tab st (vm_bd m)) < n
                         then Some (Inl (Errno ENOENT), st) else Some (Inr (), st)) = Some (r, st')"
              using eq3 chk s4 by simp
            show ?thesis
            proof (cases r4)
              case (Inl e)
              then have "r = Inl e" "st' = s4" using eq4 by (simp_all add: rbind_def)
              then show ?thesis using d4 err by (cases e) auto
            next
              case (Inr u)
              show ?thesis
              proof (cases "min_member_size s4")
                case (Inl f)
                then have "r = Inl (Fault f)" using eq4 Inr by (simp add: rbind_def)
                then show ?thesis by blast
              next
                case n: (Inr n)
                show ?thesis
                proof (cases "\<exists>m \<in> set (vol_member s4). blkdev_size (bd_tab s4 (vm_bd m)) < n")
                  case True
                  then have "r = Inl (Errno ENOENT)" "st' = s4" using eq4 Inr n by (simp_all add: rbind_def)
                  then show ?thesis using d4 by (intro err) simp_all
                next
                  case fits: False
                  then have r: "r = Inr ()" "st' = s4" using eq4 Inr n by (simp_all add: rbind_def)
                  have m4: "bd_mem s4 = bd_mem s0" using F(2) by (simp add: s3_def s2_def s1_def)
                  then have h4: "chk0_label chk0 s4 = ?h" by (simp add: chk0_label_def)
                  have s3: "vol_member (s3\<lparr>vol_ioalign := 0\<rparr>) = ms" "vol_nb_members (s3\<lparr>vol_ioalign := 0\<rparr>) = of_nat (length ms)"
                    "vol_nb_members (s3\<lparr>vol_ioalign := 0\<rparr>) = hc_member_count ?h" using chk by (simp_all add: s3_def)
                  have s4': "setup_members [0..<length ms] (s3\<lparr>vol_ioalign := 0\<rparr>) = (Inr (), s4)" using s4 Inr by simp
                  note V = setup_members_valid [OF ms s3 s4' n fits]
                  have "label_fields ?h s4"
                    using F(4-7) fsst_aio_more [OF F(9)] by (simp add: label_fields_def s3_def s2_def s1_def)
                  moreover have "stripes_valid s4"
                    using F(4,5) mode chk by (simp add: stripes_valid_def s3_def s2_def not_less)
                  ultimately have "let h = chk0_label chk0 s4 in
                      bd_mem s4 = bd_mem s0 \<and> label_fields h s4 \<and> stripes_valid s4 \<and> members_valid h s4 \<and>
                      vm_bd ` set (vol_member s4) \<subseteq> fst ` set det"
                    unfolding h4 Let_def using V m4 by blast
                  then show ?thesis unfolding r using xy d4 by (intro disjI2 exI [of _ s0] conjI) auto
                qed
              qed
            qed
          qed
        qed
      qed
    qed
  qed
qed

lemma malloc_same: "target_malloc hp a n st = (p, s) \<Longrightarrow> devs_same s st"
  by (auto simp: target_malloc_def devs_same_def Let_def split: prod.splits)

lemma free_same [simp]: "devs_same (target_free hp p s) st = devs_same s st" "bd_mem (target_free hp p s) = bd_mem s"
  "bdst.more (target_free hp p s) = bdst.more s" "bd_tab (target_free hp p s) = bd_tab s"
  by (simp_all add: target_free_def)

lemma fsst_moreD:
  fixes s' s :: "('w, 'u, 'z) fsst_scheme"
  assumes "bdst.more s' = bdst.more s"
  shows "vol_member s' = vol_member s" "vol_nb_members s' = vol_nb_members s" "vol_stripesize s' = vol_stripesize s"
    "vol_stripemode s' = vol_stripemode s" "vol_volsize s' = vol_volsize s" "vol_ioalign s' = vol_ioalign s"
    "label_fields h s' = label_fields h s" "shfs_mounted s' = shfs_mounted s"
  using assms by (cases s; cases s'; simp add: label_fields_def)+

text \<open>The exits of \<open>load_vol_cconf\<close> after the detection.\<close>

lemma load_vol_cconf_split:
  assumes op: "load_vol_cconf io hp call iosync xo ids st = Some (r, st')"
  shows "(devs_same st' st \<and> (\<exists>e. r = Inl (Errno e))) \<or> (\<exists>f. r = Inl (Fault f)) \<or>
    (\<exists>s0 chk0 rd s1. target_malloc hp 4096 4096 st = (Some chk0, s0) \<and>
       detect_members io call iosync xo chk0 ids 0 [] s0 = Some (rd, s1) \<and>
       ((\<exists>e. rd = Inl e \<and> r = Inl e) \<or>
        (rd = Inr [] \<and> r = Inl (Errno ENODEV) \<and> st' = target_free hp chk0 s1) \<or>
        (\<exists>det rc s2. rd = Inr det \<and> det \<noteq> [] \<and> cconf_setup io call iosync chk0 det s1 = Some (rc, s2) \<and>
           ((\<exists>e s3. rc = Inl (Errno e) \<and> r = Inl (Errno e) \<and> close_blkdevs io (map fst det) s2 = Some (Inr (), s3) \<and>
               st' = target_free hp chk0 s3) \<or>
            (\<exists>s3. rc = Inr () \<and> r = Inr () \<and> st' = target_free hp chk0 s3 \<and>
               close_blkdevs io (filter (\<lambda>bd. bd \<notin> vm_bd ` set (vol_member s2)) (map fst det)) s2 = Some (Inr (), s3))))))"
proof (cases "length ids > MAX_NB_TRY_BLKDEVS")
  case True
  then show ?thesis using op by (auto simp: load_vol_cconf_def)
next
  case len: False
  obtain p s0 where p: "target_malloc hp 4096 4096 st = (p, s0)" by fastforce
  show ?thesis
  proof (cases p)
    case None
    then show ?thesis using op len p malloc_same [OF p] by (auto simp: load_vol_cconf_def)
  next
    case (Some chk0)
    note eq = op [unfolded load_vol_cconf_def if_not_P [OF len] p Some Let_def prod.case option.case]
    obtain rd s1 where d: "detect_members io call iosync xo chk0 ids 0 [] s0 = Some (rd, s1)"
      using eq by (auto simp: rbind_def split: option.splits)
    show ?thesis
    proof (cases rd)
      case (Inl e)
      then show ?thesis using eq d p Some by (cases e) (auto simp: rbind_def)
    next
      case (Inr det)
      show ?thesis
      proof (cases "det = []")
        case True
        then show ?thesis using eq d p Some Inr by (auto simp: rbind_def on_error_def)
      next
        case ne: False
        obtain rc s2 where c: "cconf_setup io call iosync chk0 det s1 = Some (rc, s2)"
          using eq d Inr ne by (auto simp: rbind_def on_error_def split: option.splits)
        let ?un = "filter (\<lambda>bd. bd \<notin> vm_bd ` set (vol_member s2)) (map fst det)"
        obtain r3 s3 where u: "close_blkdevs io ?un s2 = Some (r3, s3)" "r3 = Inr () \<or> (\<exists>f. r3 = Inl (Fault f))"
          using close_blkdevs_effect [of io ?un s2] by blast
        obtain r5 s5 where a: "close_blkdevs io (map fst det) s2 = Some (r5, s5)" "r5 = Inr () \<or> (\<exists>f. r5 = Inl (Fault f))"
          using close_blkdevs_effect [of io "map fst det" s2] by blast
        note eq2 = eq [unfolded d Inr]
        show ?thesis
        proof (cases rc)
          case (Inl e)
          show ?thesis
          proof (cases e)
            case (Errno n)
            have "(\<exists>f. r = Inl (Fault f)) \<or> (r = Inl (Errno n) \<and> r5 = Inr () \<and> st' = target_free hp chk0 s5)"
              using eq2 ne c Inl Errno a by (auto simp: rbind_def on_error_def)
            then show ?thesis using p Some d Inr ne c Inl Errno a(1) by blast
          next
            case (Fault f)
            then show ?thesis using eq2 ne c Inl by (auto simp: rbind_def on_error_def)
          qed
        next
          case u': (Inr x)
          have "(\<exists>f. r = Inl (Fault f)) \<or> (r = Inr () \<and> r3 = Inr () \<and> st' = target_free hp chk0 s3)"
            using eq2 ne c u' u by (auto simp: rbind_def on_error_def)
          then show ?thesis using p Some d Inr ne c u' u(1) by auto
        qed
      qed
    qed
  qed
qed

text \<open>
  C5: searching for a volume leaks no device handle. Whatever devices are given and whatever
  goes wrong (a device that cannot be opened or read, a foreign label, a missing or too small
  member), when \<open>load_vol_cconf\<close> returns an error every device it opened is closed again, the
  reference counts are those before the call, and when it succeeds the handles it still holds
  are those of the members of the volume.
\<close>

theorem load_vol_cconf_keeps_handles:
  assumes inv: "bd_inv st H" and k: "keeps_devs call"
    and inj: "\<And>j l bd. fst (xo j) = Some bd \<Longrightarrow> fst (xo l) = Some bd \<Longrightarrow> j = l"
    and fresh: "\<And>j bd. fst (xo j) = Some bd \<Longrightarrow> bd \<notin># H"
    and room: "size H + length ids < 2 ^ 32 - 1"
    and op: "load_vol_cconf io hp call iosync xo ids st = Some (r, st')"
  shows "case r of Inl (Errno e) \<Rightarrow> bd_inv st' H | Inl (Fault f) \<Rightarrow> True
    | Inr _ \<Rightarrow> \<exists>D. bd_inv st' (H + D) \<and> set_mset D = vm_bd ` set (vol_member st')"
  using load_vol_cconf_split [OF op]
proof (elim disjE exE conjE)
  fix e assume "devs_same st' st" "r = Inl (Errno e)"
  then show ?thesis using inv by (simp add: devs_same_inv)
next
  fix s0 chk0 rd s1
  assume p: "target_malloc hp 4096 4096 st = (Some chk0, s0)"
    and d: "detect_members io call iosync xo chk0 ids 0 [] s0 = Some (rd, s1)"
  have "bd_inv s0 (H + mset (map fst []))" using devs_same_inv [OF inv malloc_same [OF p]] by simp
  then have D: "case rd of Inl (Errno e) \<Rightarrow> False | Inl (Fault f) \<Rightarrow> True
      | Inr det' \<Rightarrow> bd_inv s1 (H + mset (map fst det'))"
    by (intro detect_members_inv [OF k _ _ _ _ _ d]) (use room in \<open>auto intro: inj dest: fresh\<close>)
  { fix e assume "rd = Inl e" "r = Inl e"
    then show ?thesis using D by (cases e) auto }
  { assume "rd = Inr []" "r = Inl (Errno ENODEV)" "st' = target_free hp chk0 s1"
    then show ?thesis using D devs_same_inv [of s1 H st'] by simp }
  fix det rc s2
  assume rd: "rd = Inr det" and c: "cconf_setup io call iosync chk0 det s1 = Some (rc, s2)"
  have i1: "bd_inv s1 (H + mset (map fst det))" using D rd by simp
  have i2: "bd_inv s2 (H + mset (map fst det))" if "\<not> (\<exists>f. rc = Inl (Fault f))"
  proof -
    from cconf_setup_cases [OF c] that obtain s0' x where
      x: "blkdev_sync_io io call iosync (fst (hd det)) 0 (ucast (4096 div blkdev_ssize (bd_tab s1 (fst (hd det))))) False chk0 s1
        = Some (Inr x, s0')" "devs_same s2 s0'" by blast
    show ?thesis by (rule devs_same_inv [OF i1 devs_same_trans [OF x(2) sync_io_devs [OF k x(1)]]])
  qed
  have sub: "vm_bd ` set (vol_member s2) \<subseteq> fst ` set det" if "rc = Inr ()"
    using cconf_setup_cases [OF c] that by (auto simp: Let_def)
  { fix e s3
    assume "rc = Inl (Errno e)" "r = Inl (Errno e)" "close_blkdevs io (map fst det) s2 = Some (Inr (), s3)" "st' = target_free hp chk0 s3"
    then show ?thesis using close_blkdevs_inv [OF i2] devs_same_inv [of s3 H st'] by simp }
  fix s3
  let ?mem = "vm_bd ` set (vol_member s2)" and ?bds = "map fst det"
  assume ok: "rc = Inr ()" "r = Inr ()" "st' = target_free hp chk0 s3"
    "close_blkdevs io (filter (\<lambda>bd. bd \<notin> ?mem) ?bds) s2 = Some (Inr (), s3)"
  let ?D = "mset (filter (\<lambda>bd. bd \<in> ?mem) ?bds)"
  have "mset ?bds = ?D + mset (filter (\<lambda>bd. bd \<notin> ?mem) ?bds)"
    by (simp only: mset_filter) (rule multiset_partition)
  then have "bd_inv s2 (H + ?D + mset (filter (\<lambda>bd. bd \<notin> ?mem) ?bds))" using i2 ok(1) by (simp add: add.assoc)
  from close_blkdevs_inv [OF this ok(4)] have "bd_inv st' (H + ?D)" using devs_same_inv [of s3 "H + ?D" st'] ok(3) by simp
  moreover have "vol_member st' = vol_member s2"
    using close_blkdevs_effect [of io "filter (\<lambda>bd. bd \<notin> ?mem) ?bds" s2] ok(3,4) fsst_moreD(1) [of st' s2] by auto
  moreover have "set_mset ?D = ?mem" using sub ok(1) by auto
  ultimately show ?thesis using ok(2) by auto
qed simp

text \<open>
  C20: a volume that is found is set up as its label says. After \<open>load_vol_cconf\<close> returned 0, the
  fields of the volume are those of the label that was read last, the stripe mode is one of
  the two, the stripe size a power of two from 4 KiB to 32 KiB, and there are as many members
  as the label lists; each has the uuid in its place of the label, is at least as large as the
  check asks for, has the factor of its sector size, and its alignment divides the volume's.
\<close>

theorem load_vol_cconf_validates:
  assumes op: "load_vol_cconf io hp call iosync xo ids st = Some (Inr (), st')"
    and buf: "hp_xmalloc hp 4096 4096 (bd_world st) = (Some chk0, w)"
  shows "label_fields (chk0_label chk0 st') st' \<and> stripes_valid st' \<and> members_valid (chk0_label chk0 st') st'"
  using load_vol_cconf_split [OF op]
proof (elim disjE exE conjE)
  fix s0 c0 rd s1 det rc s2 s3
  assume p: "target_malloc hp 4096 4096 st = (Some c0, s0)"
    and c: "cconf_setup io call iosync c0 det s1 = Some (rc, s2)" "rc = Inr ()"
    and cl: "close_blkdevs io (filter (\<lambda>bd. bd \<notin> vm_bd ` set (vol_member s2)) (map fst det)) s2 = Some (Inr (), s3)"
    and st': "st' = target_free hp c0 s3"
  have c0: "c0 = chk0" using p buf by (simp add: target_malloc_def)
  note E = close_blkdevs_effect [of io "filter (\<lambda>bd. bd \<notin> vm_bd ` set (vol_member s2)) (map fst det)" s2]
  have m: "bd_mem st' = bd_mem s2" "bdst.more st' = bdst.more s2" "bd_info (bd_tab st' b) = bd_info (bd_tab s2 b)" for b
    using E cl st' by auto
  note M = fsst_moreD [OF m(2)]
  have h: "chk0_label chk0 st' = chk0_label chk0 s2" by (simp add: chk0_label_def m(1))
  have i: "blkdev_ssize (bd_tab st' b) = blkdev_ssize (bd_tab s2 b)" "blkdev_ioalign (bd_tab st' b) = blkdev_ioalign (bd_tab s2 b)"
    "blkdev_size (bd_tab st' b) = blkdev_size (bd_tab s2 b)" for b
    by (simp_all add: blkdev_ssize_def blkdev_ioalign_def blkdev_size_def blkdev_sectors_def m(3))
  have s2: "label_fields (chk0_label chk0 s2) s2" "stripes_valid s2" "members_valid (chk0_label chk0 s2) s2"
    using cconf_setup_cases [OF c(1)] c(2) c0 by (auto simp: Let_def)
  have mm: "min_member_size st' = min_member_size s2" by (simp add: min_member_size_def M)
  have mv: "member_valid st' u m = member_valid s2 u m" for u m by (simp add: member_valid_def M i Let_def)
  have "stripes_valid st'" using s2(2) by (simp add: stripes_valid_def M)
  moreover have "members_valid (chk0_label chk0 s2) st'"
    using s2(3) unfolding members_valid_def mm mv M i .
  ultimately show ?thesis using s2(1) by (simp add: h M)
qed simp_all

section \<open>A device with a label\<close>

text \<open>A volume of one member and 100 chunks on the device that is already open once.\<close>

definition sample_label :: shfs_hdr_common where
  "sample_label = sample_hdr_common\<lparr>hc_vol_size := 100, hc_member_count := 1\<rparr>"

definition sample_chk0 :: "u8 list" where
  "sample_chk0 = replicate 1024 0 @ hdr_common_put sample_label @ replicate 2738 0"

definition label_blkfront :: "(addr list) blkfront" where
  "label_blkfront = sample_blkfront\<lparr>blkfront_aio_poll := (\<lambda>_ w. ([(last w, None, sample_chk0)], w))\<rparr>"

definition label_heap :: "'w heap" where
  "label_heap = \<lparr>hp_xmalloc = (\<lambda>_ _ w. (Some 65536, w)), hp_xfree = (\<lambda>_ w. w), hp_free_mem = (\<lambda>_. 0),
     hp_total_mem = 0, hp_grow_threshold = None\<rparr>"

definition label_fs :: "(addr list, nat) fsst" where
  "label_fs = sample_fs\<lparr>open_bd_list := Some 9\<rparr>"

lemma sample_label_wf: "hdr_common_wf sample_label"
  by (simp add: hdr_common_wf_def sample_label_def sample_hdr_common_def SHFS_MAGIC_def SHFS_VERSION_def list_all_iff)

lemma sample_chk0_label:
  "length sample_chk0 = 4096" "hdr_common_get (drop BOOT_AREA_LENGTH sample_chk0) = sample_label"
  "shfs_detect_hdr0 sample_chk0 = 1"
proof -
  note P = hdr_common_get_put [OF sample_label_wf]
  show "length sample_chk0 = 4096" "hdr_common_get (drop BOOT_AREA_LENGTH sample_chk0) = sample_label"
    by (simp_all add: sample_chk0_def P)
  then show "shfs_detect_hdr0 sample_chk0 = 1"
    by (simp add: shfs_detect_hdr0_def sample_label_def sample_hdr_common_def SHFS_MAGIC_def SHFS_VERSION_def)
qed

lemma label_read:
  assumes "bd_tab st 9 = sample_blkdev\<lparr>bd_refcount := n\<rparr>" and "pool_ok 0 [100, 200] (bd_pools st)"
    and "pool_free 0 (bd_pools st) = [100]"
  shows "\<exists>st'. blkdev_sync_io label_blkfront call 7 9 0 8 False 65536 st = Some (Inr None, st') \<and>
    mem_read 65536 4096 (bd_mem st') = sample_chk0 \<and> pool_ok 0 [100, 200] (bd_pools st') \<and>
    pool_free 0 (bd_pools st') = [100] \<and> bd_tab st' = bd_tab st"
proof -
  have d: "blkdev_ssize (bd_tab st 9) = 512" "bd_reqpool (bd_tab st 9) = 0" "bd_dev (bd_tab st 9) = 64"
    using assms(1) by (simp_all add: sample_blkdev_def blkdev_ssize_def)
  have chk: "io_check label_blkfront (bd_tab st 9) 8 False 65536 = None"
    by (simp add: io_check_def d label_blkfront_def sample_blkfront_def)
  have ok: "pool_ok (bd_reqpool (bd_tab st 9)) [100, 200] (bd_pools st)"
    "pool_free (bd_reqpool (bd_tab st 9)) (bd_pools st) = 100 # []" using assms(2,3) by (simp_all add: d)
  have enq: "answers label_blkfront req acb False 0 None (bd_world st) (bd_world st @ [req])" for req acb
    by (simp add: label_blkfront_def sample_blkfront_def)
  have del: "delivers label_blkfront (bd_dev (bd_tab st 9)) req None sample_chk0 0
      (blkfront_aio_submit label_blkfront (bd_dev (bd_tab st 9)) (bd_world st @ [req]))" for req
    by (simp add: label_blkfront_def sample_blkfront_def)
  from sync_io_delivers [OF chk ok enq del, of call 7 0] obtain st' where st':
    "blkdev_sync_io label_blkfront call 7 9 0 8 False 65536 st = Some (Inr None, st')"
    "bd_mem st' = mem_write 65536 sample_chk0 (bd_mem st)" "pool_ok 0 [100, 200] (bd_pools st')"
    "pool_free 0 (bd_pools st') = [100]" "bd_tab st' = bd_tab st" by (auto simp: d)
  have "mem_read 65536 4096 (bd_mem st') = sample_chk0"
    using mem_read_write_self [of sample_chk0 65536 "bd_mem st"] sample_chk0_label(1) by (simp add: st'(2))
  then show ?thesis using st' by blast
qed

lemma label_fs_simps:
  "bd_tab label_fs = (\<lambda>_. sample_blkdev)" "bd_links label_fs = (\<lambda>_. \<lparr>dl_next = None, dl_prev = None\<rparr>)"
  "open_bd_list label_fs = Some 9" "bd_pools label_fs = sample_pool"
  by (simp_all add: label_fs_def sample_fs_def cachest.defs sample_cachest_def aiost.defs sample_aiost_def bdst.defs sample_bdst_def)

lemma label_checkopen:
  fixes st :: "(addr list, 'u, 'z) fsst_scheme"
  assumes st: "bd_tab st = (\<lambda>_. sample_blkdev)" "bd_links st = (\<lambda>_. \<lparr>dl_next = None, dl_prev = None\<rparr>)"
    "open_bd_list st = Some 9" "bd_pools st = sample_pool"
  shows "\<exists>st'. shfs_checkopen_blkdev label_blkfront call 7 (None, None, None) 768 65536 O_RDONLY st =
      Some (Inr (Some 9), st') \<and> mem_read 65536 4096 (bd_mem st') = sample_chk0 \<and>
      bd_tab st' 9 = sample_blkdev\<lparr>bd_refcount := 2\<rparr> \<and> pool_ok 0 [100, 200] (bd_pools st') \<and>
      pool_free 0 (bd_pools st') = [100]"
proof -
  let ?s = "st\<lparr>bd_tab := (bd_tab st)(9 := sample_blkdev\<lparr>bd_refcount := 2\<rparr>)\<rparr>"
  have o1: "open_blkdev label_blkfront None None None 768 O_RDONLY st = Some (Inr 9, ?s)"
    by (simp add: open_blkdev_def dlist_walk.simps dlist_next_el_def st sample_blkdev_def mode_denied_def)
  obtain st' where st': "blkdev_sync_io label_blkfront call 7 9 0 8 False 65536 ?s = Some (Inr None, st')"
    "mem_read 65536 4096 (bd_mem st') = sample_chk0" "pool_ok 0 [100, 200] (bd_pools st')"
    "pool_free 0 (bd_pools st') = [100]" "bd_tab st' = bd_tab ?s"
    using label_read [of ?s 2] sample_pool_ok by (auto simp: st)
  have ss: "blkdev_ssize (sample_blkdev\<lparr>bd_refcount := 2\<rparr>) = 512" by (simp add: sample_blkdev_def blkdev_ssize_def)
  show ?thesis
    using st' by (simp add: shfs_checkopen_blkdev_def o1 ss POWER_OF_2_def sample_chk0_label Let_def)
qed

lemma uuid_compare_same: "uuid_compare u u = 0"
proof -
  have "filter (\<lambda>(a, b). a \<noteq> b) (zip v v) = []" for v :: "u8 list"
    by (auto simp: filter_empty_conv in_set_zip)
  then show ?thesis by (simp add: uuid_compare_def)
qed

lemma label_setup:
  fixes st :: "(addr list, 'u, 'z) fsst_scheme"
  assumes m: "bd_tab st 9 = sample_blkdev\<lparr>bd_refcount := 2\<rparr>" and p: "pool_ok 0 [100, 200] (bd_pools st)"
    "pool_free 0 (bd_pools st) = [100]"
  shows "\<exists>st'. cconf_setup label_blkfront call 7 65536 [(9, replicate 16 1)] st = Some (Inr (), st') \<and>
      vm_bd ` set (vol_member st') = {9} \<and> member_bds st' = [9] \<and>
      bd_tab st' 9 = sample_blkdev\<lparr>bd_refcount := 2\<rparr>"
proof -
  obtain s0 where s0: "blkdev_sync_io label_blkfront call 7 9 0 8 False 65536 st = Some (Inr None, s0)"
    "mem_read 65536 4096 (bd_mem s0) = sample_chk0" "bd_tab s0 = bd_tab st"
    using label_read [OF m p] by blast
  have h: "chk0_label 65536 s0 = sample_label" by (simp add: chk0_label_def s0(2) sample_chk0_label)
  let ?m = "\<lparr>vm_bd = 9, vm_uuid = replicate 16 1, vm_sfactor = 0\<rparr>"
  have mm: "match_members [(9, replicate 16 1)] (hc_member sample_label) [0..<unat (hc_member_count sample_label)] = Inr [?m]"
    by (simp add: sample_label_def sample_hdr_common_def uuid_compare_same uuid_copy_def)
  define s3 where "s3 = s0\<lparr>vol_uuid := hc_vol_uuid sample_label, vol_volname := hc_vol_name sample_label @ [0],
      vol_ts_creation := hc_vol_ts_creation sample_label, vol_stripesize := 4096, vol_stripemode := SHFS_SM_COMBINED,
      vol_chunksize := SHFS_CHUNKSIZE sample_label, vol_volsize := 100, vol_nb_members := 1, vol_member := [?m], vol_ioalign := 0\<rparr>"
  have d: "blkdev_ssize (bd_tab st 9) = 512" "blkdev_ioalign (bd_tab st 9) = 512" "unat (blkdev_size (bd_tab st 9)) = 1024000"
    by (simp_all add: m sample_blkdev_def blkdev_ssize_def blkdev_ioalign_def blkdev_size_def blkdev_sectors_def)
  let ?s4 = "s3\<lparr>vol_ioalign := 512, vol_member := [?m\<lparr>vm_sfactor := 8\<rparr>]\<rparr>"
  have b: "bd_tab s3 = bd_tab st" "member_bd s3 0 = 9" by (simp_all add: s3_def s0(3) member_bd_def)
  have s4: "setup_members [0..<1] s3 = (Inr (), ?s4)"
    by (simp add: b d Let_def) (simp add: s3_def)
  have n: "min_member_size ?s4 = Inr 413696" by (simp add: min_member_size_def s3_def)
  have sz: "\<not> blkdev_size (bd_tab ?s4 9) < 413696" by (simp add: b d word_less_nat_alt)
  have l: "hc_member_stripesize sample_label = 4096" "hc_member_stripemode sample_label = SHFS_SM_COMBINED"
    "hc_vol_size sample_label = 100" "hc_member_count sample_label = 1" by (simp_all add: sample_label_def sample_hdr_common_def)
  have "cconf_setup label_blkfront call 7 65536 [(9, replicate 16 1)] st = Some (Inr (), ?s4)"
    using s0(1) mm s4 n sz
    by (simp add: cconf_setup_def d h l Let_def POWER_OF_2_def rbind_def s3_def [symmetric] del: setup_members.simps)
  moreover have "member_bds ?s4 = [9]" by (simp add: member_bds_def member_bd_def s3_def)
  moreover have "bd_tab ?s4 9 = sample_blkdev\<lparr>bd_refcount := 2\<rparr>" using m by (simp add: b)
  ultimately show ?thesis by (intro exI [of _ ?s4]) simp
qed

lemma label_load:
  fixes st :: "(addr list, 'u, 'z) fsst_scheme"
  assumes st: "bd_tab st = (\<lambda>_. sample_blkdev)" "bd_links st = (\<lambda>_. \<lparr>dl_next = None, dl_prev = None\<rparr>)"
    "open_bd_list st = Some 9" "bd_pools st = sample_pool"
  shows "\<exists>st'. load_vol_cconf label_blkfront label_heap call 7 (\<lambda>_. (None, None, None)) [768] st =
      Some (Inr (), st') \<and> vm_bd ` set (vol_member st') = {9} \<and> member_bds st' = [9] \<and>
      bd_tab st' 9 = sample_blkdev\<lparr>bd_refcount := 2\<rparr>"
proof -
  have m: "target_malloc label_heap 4096 4096 st = (Some 65536, st)"
    by (simp add: target_malloc_def label_heap_def)
  obtain s1 where s1: "shfs_checkopen_blkdev label_blkfront call 7 (None, None, None) 768 65536 O_RDONLY st =
      Some (Inr (Some 9), s1)" "mem_read 65536 4096 (bd_mem s1) = sample_chk0"
    "bd_tab s1 9 = sample_blkdev\<lparr>bd_refcount := 2\<rparr>" "pool_ok 0 [100, 200] (bd_pools s1)"
    "pool_free 0 (bd_pools s1) = [100]" using label_checkopen [OF st] by blast
  have "uuid_copy (hc_member_uuid (chk0_label 65536 s1)) = replicate 16 1"
    by (simp add: chk0_label_def s1(2) sample_chk0_label uuid_copy_def) (simp add: sample_label_def sample_hdr_common_def)
  then have d: "detect_members label_blkfront call 7 (\<lambda>_. (None, None, None)) 65536 [768] 0 [] st =
      Some (Inr [(9, replicate 16 1)], s1)" by (simp add: s1(1) rbind_def)
  obtain s2 where s2: "cconf_setup label_blkfront call 7 65536 [(9, replicate 16 1)] s1 = Some (Inr (), s2)"
    "vm_bd ` set (vol_member s2) = {9}" "member_bds s2 = [9]"
    "bd_tab s2 9 = sample_blkdev\<lparr>bd_refcount := 2\<rparr>" using label_setup [OF s1(3-5)] by blast
  have "load_vol_cconf label_blkfront label_heap call 7 (\<lambda>_. (None, None, None)) [768] st =
      Some (Inr (), target_free label_heap 65536 s2)"
    using s2(1,2) by (simp add: load_vol_cconf_def m d rbind_def on_error_def del: detect_members.simps)
  moreover have "member_bds (target_free label_heap 65536 s2) = [9]"
    using s2(3) by (simp add: target_free_def member_bds_def member_bd_def cong: map_cong)
  ultimately show ?thesis using s2(2,4) by (simp add: target_free_def)
qed

theorem load_vol_cconf_keeps_handles_witness:
  "\<exists>st' D. load_vol_cconf label_blkfront label_heap (\<lambda>_ _. Inr) 7 (\<lambda>_. (None, None, None)) [768] label_fs =
      Some (Inr (), st') \<and> bd_inv st' ({#9#} + D) \<and> set_mset D = {9}"
proof -
  obtain st' where st': "load_vol_cconf label_blkfront label_heap (\<lambda>_ _. Inr) 7 (\<lambda>_. (None, None, None)) [768] label_fs =
      Some (Inr (), st')" "vm_bd ` set (vol_member st') = {9}" using label_load [OF label_fs_simps] by blast
  have "bd_holds label_fs [9]" by (simp add: bd_holds_def dl_repr_def label_fs_simps)
  then have inv: "bd_inv label_fs {#9#}"
    unfolding bd_inv_def by (intro exI [of _ "[9]"]) (simp add: label_fs_simps sample_blkdev_def)
  have k: "keeps_devs (\<lambda>_ _. Inr)" by (simp add: keeps_devs_def)
  from load_vol_cconf_keeps_handles [OF inv k _ _ _ st'(1)] show ?thesis using st' by simp
qed

theorem load_vol_cconf_validates_witness:
  "\<exists>st'. load_vol_cconf label_blkfront label_heap (\<lambda>_ _. Inr) 7 (\<lambda>_. (None, None, None)) [768] label_fs =
      Some (Inr (), st') \<and> stripes_valid st' \<and> length (vol_member st') = unat (vol_nb_members st')"
proof -
  obtain st' where st': "load_vol_cconf label_blkfront label_heap (\<lambda>_ _. Inr) 7 (\<lambda>_. (None, None, None)) [768] label_fs =
      Some (Inr (), st')" using label_load [OF label_fs_simps] by blast
  have "hp_xmalloc label_heap 4096 4096 (bd_world label_fs) = (Some 65536, bd_world label_fs)"
    by (simp add: label_heap_def)
  from load_vol_cconf_validates [OF st' this] st' show ?thesis by (auto simp: members_valid_def)
qed

section \<open>The size check\<close>

text \<open>
  C30: what the size check of \<open>load_vol_cconf\<close> guarantees. In the combined mode every stripe of
  every chunk up to \<open>vol_volsize\<close> ends within the size that is asked of each member. In the
  independent mode with at least two members it guarantees less: the stripe of the last chunk
  starts at or behind that size, so a member just large enough for the check cannot hold it.
\<close>

theorem member_size_check:
  fixes st :: "('w, 'u, 'z) aiost_scheme" and ss :: "nat \<Rightarrow> nat"
  defines "n \<equiv> unat (vol_nb_members st)" and "v \<equiv> unat (vol_volsize st)"
  assumes n: "0 < n" and b: "(v + 2) * n < 2 ^ 64" "(v + 2) * unat (vol_stripesize st) < 2 ^ 64"
    and sz: "min_member_size st = Inr sz"
    and sf: "\<And>j. j < n \<Longrightarrow> unat (vm_sfactor (vol_member st ! j)) * ss j = unat (vol_stripesize st) \<and> 0 < ss j"
    and c: "c \<le> vol_volsize st" and k: "k \<in> chunk_stripes st c"
  defines "off \<equiv> unat (strp_sector st (of_nat k))" and "m \<equiv> strp_member st (of_nat k)"
  shows "(vol_stripemode st = SHFS_SM_COMBINED \<longrightarrow>
            (off + unat (vm_sfactor (vol_member st ! m))) * ss m \<le> unat sz) \<and>
         (vol_stripemode st \<noteq> SHFS_SM_COMBINED \<and> 2 \<le> n \<and> c = vol_volsize st \<longrightarrow> unat sz \<le> off * ss m)"
proof -
  let ?S = "unat (vol_stripesize st)"
  have cv: "unat c \<le> v" using c by (simp add: v_def word_le_nat_alt)
  then have "(unat c + 2) * n \<le> (v + 2) * n" by simp
  then have cb: "(unat c + 2) * n < 2 ^ 64" using b(1) by (rule order_le_less_trans)
  note eq = chunk_stripes_eq [of st c, folded n_def, OF n cb]
  have row: "k div n \<le> unat c"
  proof (cases "vol_stripemode st = SHFS_SM_COMBINED")
    case True
    then have "k < (unat c + 1) * n" using k by (simp add: eq)
    then have "k div n < unat c + 1" by (rule less_mult_imp_div_less)
    then show ?thesis by simp
  next
    case False
    have "unat c \<le> unat c * n" by (rule le_mult_pos [OF n])
    moreover have "k = unat c + n - 1" using k False by (simp add: eq)
    ultimately have "k < unat c * n + n" using n by linarith
    then have "k < (unat c + 1) * n" by simp
    then have "k div n < unat c + 1" by (rule less_mult_imp_div_less)
    then show ?thesis by simp
  qed
  have m: "k mod n < n" using n by simp
  have k64: "k < 2 ^ 64"
  proof -
    have "k < (k div n + 1) * n" using dividend_less_div_times [OF n, of k] by (simp add: algebra_simps)
    also have "\<dots> \<le> (v + 2) * n" using row cv by (intro mult_le_mono1) simp
    finally show ?thesis using b(1) by (rule order_less_trans)
  qed
  let ?f = "unat (vm_sfactor (vol_member st ! (k mod n)))"
  have f: "?f * ss (k mod n) = ?S" "0 < ss (k mod n)" using sf [OF m] by blast+
  have "(k div n + 1) * ?f \<le> (v + 2) * ?S"
    using row cv f by (intro mult_le_mono) (auto intro: order_trans [OF le_mult_pos [OF f(2)]])
  then have b2: "(k div n + 1) * ?f < 2 ^ 64" using b(2) by (rule order_le_less_trans)
  note place = strp_place [of k st, folded n_def, OF k64 n b2]
  have off: "off = k div n * ?f" "m = k mod n" unfolding off_def m_def by (rule place(2), rule place(1))
  have v1: "unat (vol_volsize st + 1) = v + 1"
  proof -
    have "v + 2 \<le> (v + 2) * n" by (rule le_mult_pos [OF n])
    then show ?thesis using b(1) by (subst unat_add_less) (simp_all add: v_def)
  qed
  have prod: "x * ?S < 2 ^ 64" if "x \<le> v + 1" for x
  proof -
    have "x * ?S \<le> (v + 2) * ?S" using that by (intro mult_le_mono1) simp
    then show ?thesis using b(2) by (rule order_le_less_trans)
  qed
  show ?thesis
  proof (cases "vol_stripemode st = SHFS_SM_COMBINED")
    case True
    then have "sz = (vol_volsize st + 1) * ucast (vol_stripesize st)" using sz by (simp add: min_member_size_def)
    then have "unat sz = (v + 1) * ?S"
      using prod [of "v + 1"] by (simp add: unat_mult_less v1 unat_ucast_widths)
    moreover have "(k div n * ?f + ?f) * ss (k mod n) = (k div n + 1) * ?S"
      using f(1) by (simp add: algebra_simps)
    moreover have "(k div n + 1) * ?S \<le> (v + 1) * ?S" using row cv by (intro mult_le_mono1) simp
    ultimately show ?thesis using True by (simp add: off)
  next
    case False
    have nz: "vol_nb_members st \<noteq> 0" using n by (auto simp: n_def)
    have "sz = ((vol_volsize st + 1) div ucast (vol_nb_members st)) * ucast (vol_stripesize st)"
      using sz False nz by (simp add: min_member_size_def)
    moreover have q: "unat ((vol_volsize st + 1) div ucast (vol_nb_members st) :: u64) = (v + 1) div n"
      by (simp add: unat_div v1 n_def)
    ultimately have z: "unat sz = (v + 1) div n * ?S"
      using prod [of "(v + 1) div n"] div_le_dividend [of "v + 1" n] by (simp add: unat_mult_less unat_ucast_widths)
    have "(v + 1) div n \<le> k div n" if "2 \<le> n" "c = vol_volsize st"
    proof (rule div_le_mono)
      have "k = unat c + n - 1" using k False by (simp add: eq)
      then show "v + 1 \<le> k" using that by (simp add: v_def)
    qed
    then have "unat sz \<le> off * ss m" if "2 \<le> n" "c = vol_volsize st"
      using that f(1) by (simp add: off z mult.assoc mult_le_mono1)
    then show ?thesis using False by simp
  qed
qed

theorem member_size_check_witness:
  "let st = (sample_aiost :: (addr list, nat) aiost)\<lparr>vol_nb_members := 2, vol_stripemode := SHFS_SM_INDEPENDENT, vol_volsize := 10,
      vol_member := [\<lparr>vm_bd = 9, vm_uuid = [], vm_sfactor = 8\<rparr>, \<lparr>vm_bd = 10, vm_uuid = [], vm_sfactor = 8\<rparr>]\<rparr>
   in min_member_size st = Inr 20480 \<and> 20480 \<le> unat (strp_sector st 11) * 512"
proof -
  define st where "st = (sample_aiost :: (addr list, nat) aiost)\<lparr>vol_nb_members := 2, vol_stripemode := SHFS_SM_INDEPENDENT, vol_volsize := 10,
      vol_member := [\<lparr>vm_bd = 9, vm_uuid = [], vm_sfactor = 8\<rparr>, \<lparr>vm_bd = 10, vm_uuid = [], vm_sfactor = 8\<rparr>]\<rparr>"
  have s: "vol_nb_members st = 2" "vol_volsize st = 10" "vol_stripesize st = 4096" "vol_stripemode st = SHFS_SM_INDEPENDENT"
    by (simp_all add: st_def)
  have z: "min_member_size st = Inr 20480" by (simp add: min_member_size_def s)
  have k: "11 \<in> chunk_stripes st 10" by (simp add: chunk_stripes_def aio_stripes_def s)
  have f: "unat (vm_sfactor (vol_member st ! j)) * 512 = unat (vol_stripesize st) \<and> 0 < (512 :: nat)"
    if "j < unat (vol_nb_members st)" for j
    using that by (auto simp: s less_2_cases_iff) (simp_all add: st_def)
  have "unat (20480 :: u64) \<le> unat (strp_sector st (of_nat 11)) * 512"
    using member_size_check [OF _ _ _ z f _ k] by (simp add: s)
  then show ?thesis using z by (simp add: st_def)
qed

end
