(* ===== verification/MountProps.thy ===== *)
theory MountProps
  imports Prelude Mempool HashVal Htable Btable ShfsDefs Blkdev Aio Cache CacheInv CacheProps Fio FioProps Mount MountTable MountLabel
begin

text \<open>
  Properties of unmounting and remounting: the outcomes of \<open>umount_shfs\<close>, what flushing the
  cache and reading chunks leave alone, and why a remount of a table that does not fill its
  last chunk never succeeds.
\<close>

section \<open>What the cache and the chunk I/O leave alone\<close>

text \<open>
  A property that looks only at what a mounted volume adds to the state of the cache survives
  flushing the cache and synchronous chunk I/O when the callbacks keep it.
\<close>

definition cache_stable :: "(('w, 'u, 'z) cachest_scheme \<Rightarrow> bool) \<Rightarrow> bool" where
  "cache_stable J \<longleftrightarrow> (\<forall>s s'. cachest.more s = cachest.more s' \<longrightarrow> J s = J s')"

lemma cache_stableD: "cache_stable J \<Longrightarrow> cachest.more s' = cachest.more s \<Longrightarrow> J s' = J s"
  unfolding cache_stable_def by blast

lemma cache_stable_io: "cache_stable J \<Longrightarrow> io_stable no_blocks (J :: ('w, 'u, 'z) cachest_scheme \<Rightarrow> bool)"
proof -
  have "cachest.more s = cachest.more s'" if "aiost.more s = aiost.more s'" for s s' :: "('w, 'u, 'z) cachest_scheme"
    using that by (cases s; cases s'; simp)
  then show "cache_stable J \<Longrightarrow> io_stable no_blocks J" unfolding io_stable_def cache_stable_def by blast
qed

lemma cache_stable_upd:
  assumes "cache_stable J"
  shows "J (upd_cce c f st) = J st" "J (upd_cc g st) = J st" "J (on_alist h st) = J st" "J (on_clist i h st) = J st"
    "J (shfs_cache_put_cce hp c st) = J st"
  by (rule cache_stableD [OF assms],
      simp add: upd_cce_def upd_cc_def on_alist_def on_clist_def shfs_cache_put_cce_def split: prod.split option.split)+

lemma unlink_keeps: "cache_stable J \<Longrightarrow> shfs_cache_unlink c st = Inr st' \<Longrightarrow> J st' = J st"
  by (auto simp: shfs_cache_unlink_def cache_stable_upd split: if_splits)

lemma cache_cb_keeps_any:
  assumes J: "cache_stable J" and cb: "cb_keeps J call"
  shows "cb_keeps J (cache_cb hp call)"
  unfolding cb_keeps_def
proof (intro allI impI)
  fix c t st st' assume i: "J st" and r: "cache_cb hp call c t st = Inr st'"
  show "J st'"
  proof (cases c)
    case (Cce_aiocb e)
    then have r: "cce_aiocb hp call e t st = Inr st'" using r by (simp add: cache_cb_def)
    then obtain ret s1 where s1: "shfs_aio_finalize t st = Inr (ret, s1)"
      by (auto simp: cce_aiocb_def split: if_splits sum.splits)
    have "cachest.more s1 = cachest.more st"
      using s1 by (auto simp: shfs_aio_finalize_def shfs_aio_put_token_def split: if_splits)
    then have j1: "J s1" using i cache_stableD [OF J] by blast
    let ?s2 = "upd_cce e (\<lambda>k. k\<lparr>ce_t := None, ce_invalid := (ret \<noteq> None)\<rparr>) s1"
    show ?thesis
    proof (cases "ce_refcount (cce ?s2 e) = 0 \<and> ce_invalid (cce ?s2 e)")
      case True
      then obtain s3 where "shfs_cache_unlink e ?s2 = Inr s3" "st' = shfs_cache_put_cce hp e s3"
        using r s1 by (auto simp: cce_aiocb_def Let_def split: if_splits sum.splits)
      then show ?thesis using j1 unlink_keeps [OF J] by (simp add: cache_stable_upd [OF J])
    next
      case False
      let ?s3 = "upd_cce e (\<lambda>k. k\<lparr>ce_aio_first := None, ce_aio_last := None\<rparr>) ?s2"
      have n: "notify_chain call ret (ce_aio_first (cce ?s2 e)) ?s3 = Some (Inr st')"
        using r s1 False by (auto simp: cce_aiocb_def Let_def split: if_splits option.splits)
      have "J ?s3" using j1 by (simp add: cache_stable_upd [OF J])
      moreover have "J (upd_tok u f s) = J s" for u f s by (rule io_stable_upd(5) [OF cache_stable_io [OF J]])
      moreover have "J s \<Longrightarrow> call d u s = Inr s' \<Longrightarrow> J s'" for d u s s' using cb unfolding cb_keeps_def by blast
      ultimately have "case Inr st' :: fault + _ of Inl f \<Rightarrow> True | Inr s \<Rightarrow> J s"
        by (intro Cache.notify_chain_keeps [OF _ n]) simp_all
      then show ?thesis by simp
    qed
  qed (use i r cb in \<open>auto simp: cache_cb_def cb_keeps_def\<close>)
qed

lemma flush_wait_keeps:
  assumes J: "cache_stable J"
  shows "flush_wait io hp call c st = Some r \<Longrightarrow> cb_keeps J call \<Longrightarrow> J st \<Longrightarrow>
    (case r of Inl f \<Rightarrow> True | Inr st' \<Rightarrow> J st')"
proof (induction rule: flush_wait.raw_induct [rotated, consumes 1, case_names 1])
  case (1 wait io hp call c st r)
  show ?case
  proof (cases "ce_t (cce st c) = None")
    case True
    then show ?thesis using 1 by auto
  next
    case False
    show ?thesis
    proof (cases "shfs_poll_blkdevs io (cache_cb hp call) st")
      case (Inl f)
      then have "r = Inl f" using 1(2) False by simp
      then show ?thesis by simp
    next
      case (Inr s)
      have "J s" by (rule poll_blkdevs_keeps [OF cache_stable_io [OF J] cache_cb_keeps_any [OF J 1(3)] io_keeps_none 1(4) Inr])
      moreover have "wait io hp call c s = Some r" using 1(2) False Inr by simp
      ultimately show ?thesis using 1(1) 1(3) by blast
    qed
  qed
qed

lemma flush_entry_keeps:
  assumes J: "cache_stable J" and cb: "cb_keeps J call" and st: "J st" "flush_entry io hp call c st = Some (Inr st')"
  shows "J st'"
proof -
  obtain s1 where s1: "J s1" "(case shfs_cache_unlink c s1 of Inl f \<Rightarrow> Some (Inl f)
      | Inr st \<Rightarrow> Some (Inr (shfs_cache_put_cce hp c st))) = Some (Inr st')"
  proof (cases "ce_t (cce st c) = None")
    case True
    then show ?thesis using that [of st] st by (simp add: flush_entry_def)
  next
    case False
    let ?s = "upd_cce c (\<lambda>k. k\<lparr>ce_refcount := 1\<rparr>) st"
    obtain s where s: "flush_wait io hp call c ?s = Some (Inr s)"
      using False st(2) by (auto simp: flush_entry_def split: option.splits sum.splits)
    have "J s" using flush_wait_keeps [OF J s cb] st(1) by (simp add: cache_stable_upd [OF J])
    then show ?thesis using that [of "upd_cce c (\<lambda>k. k\<lparr>ce_refcount := 0\<rparr>) s"] st(2) False s
      by (simp add: flush_entry_def cache_stable_upd [OF J])
  qed
  then show ?thesis using unlink_keeps [OF J] by (auto simp: cache_stable_upd [OF J] split: sum.splits)
qed

lemma flush_keeps:
  assumes J: "cache_stable J"
  shows "shfs_cache_flush_alist io hp call st = Some r \<Longrightarrow> cb_keeps J call \<Longrightarrow> J st \<Longrightarrow>
    (case r of Inl f \<Rightarrow> True | Inr st' \<Rightarrow> J st')"
proof (induction rule: shfs_cache_flush_alist.raw_induct [rotated, consumes 1, case_names 1])
  case (1 flush io hp call st r)
  show ?case
  proof (cases "dl_first (cc_alist (cc st))")
    case None
    then show ?thesis using 1 by auto
  next
    case (Some c)
    then obtain x where x: "flush_entry io hp call c st = Some x" using 1(2) by (auto split: option.splits)
    show ?thesis
    proof (cases x)
      case (Inl f)
      then have "r = Inl f" using 1(2) Some x by simp
      then show ?thesis by simp
    next
      case (Inr s)
      have "J s" by (rule flush_entry_keeps [OF J 1(3,4) x [unfolded Inr]])
      moreover have "flush io hp call s = Some r" using 1(2) Some x Inr by simp
      ultimately show ?thesis using 1(1) 1(3) by blast
    qed
  qed
qed

lemma fold_keeps: "(\<And>i s. J (f i s) = J s) \<Longrightarrow> J (fold f is st) = J st"
  by (induction "is" arbitrary: st) simp_all

lemma world_keeps: "io_stable no_blocks J \<Longrightarrow> J (s\<lparr>bd_world := w\<rparr>) = J s"
  by (rule io_stable_eq [where B = no_blocks]) simp_all

lemma submit_keeps: "io_stable no_blocks J \<Longrightarrow> J (shfs_aio_submit io st) = J st" "io_stable no_blocks J \<Longrightarrow> J (shfs_aio_wait_slot io st) = J st"
  unfolding shfs_aio_submit_def shfs_aio_wait_slot_def
  by (rule fold_keeps, simp add: blkdev_async_io_submit_def blkdev_async_io_wait_slot_def world_keeps)+

lemma aio_chunk_keeps_J:
  assumes J: "io_stable no_blocks J" and cb: "cb_keeps J ucb" and "J st"
    and "shfs_aio_chunk io ucb start len wr buffer cb0 st = Some (r, st')"
  shows "(\<exists>f. r = Inl (Fault f)) \<or> J st'"
  using aio_chunk_keeps [OF J cb io_keeps_none assms(4)] io_stableD [OF J, of st' st] assms(3) by blast

lemma io_chunk_setup_keeps:
  assumes J: "io_stable no_blocks J"
  shows "io_chunk_setup io ucb sched start len wr buffer st = Some r \<Longrightarrow> cb_keeps J ucb \<Longrightarrow> J st \<Longrightarrow>
    (\<exists>f. fst r = Inl (Fault f)) \<or> J (snd r)"
proof (induction rule: io_chunk_setup.raw_induct [rotated, consumes 1, case_names 1])
  case (1 again io ucb sched start len wr buffer st r)
  obtain r1 s where s: "shfs_aio_chunk io ucb start len wr buffer None st = Some (r1, s)"
    using 1(2) by (auto split: option.splits)
  have k: "(\<exists>f. r1 = Inl (Fault f)) \<or> J s" by (rule aio_chunk_keeps_J [OF J 1(3,4) s])
  show ?case
  proof (cases "r1 = Inl (Errno EBUSY)")
    case True
    let ?s = "if sched then shfs_aio_wait_slot io (shfs_aio_submit io s) else shfs_aio_submit io s"
    have "J ?s" using k True by (simp add: submit_keeps [OF J])
    moreover have "again io ucb sched start len wr buffer ?s = Some r" using 1(2) s True by (simp add: Let_def)
    ultimately show ?thesis using 1(1) 1(3) by blast
  next
    case False
    then have "r = (r1, shfs_aio_submit io s)" using 1(2) s by (simp add: Let_def)
    then show ?thesis using k by (simp add: submit_keeps [OF J])
  qed
qed

lemma io_chunk_keeps:
  assumes J: "io_stable no_blocks J" and cb: "cb_keeps J ucb" and st: "J st"
    and r: "shfs_io_chunk io ucb start len wr buffer st = Some (Inr u, st')"
  shows "J st'"
proof -
  obtain t s where s: "io_chunk_setup io ucb True start len wr buffer st = Some (Inr t, s)"
    using r by (auto simp: shfs_io_chunk_def io_chunk_gen_def split: option.splits sum.splits)
  then obtain s1 where s1: "shfs_aio_wait io ucb t s = Some (Inr s1)"
    using r by (auto simp: shfs_io_chunk_def io_chunk_gen_def split: option.splits sum.splits)
  have "shfs_aio_finalize t s1 = Inr (None, st')"
    using r s s1 by (auto simp: shfs_io_chunk_def io_chunk_gen_def split: option.splits sum.splits)
  then have m: "aiost.more st' = aiost.more s1"
    by (auto simp: shfs_aio_finalize_def shfs_aio_put_token_def split: if_splits)
  have "J s" using io_chunk_setup_keeps [OF J s cb st] by simp
  then have "J s1" using aio_wait_keeps [OF J s1 cb io_keeps_none] by simp
  then show ?thesis using io_stable_eq [OF J m] by simp
qed

section \<open>Unmounting\<close>

lemma with_mount_lock_free:
  assumes "shfs_mount_lock st = 1"
  shows "with_mount_lock body st =
    (case body (st\<lparr>shfs_mount_lock := 0\<rparr>) of
       None \<Rightarrow> None
     | Some (Inl (Fault f), st) \<Rightarrow> Some (Inl (Fault f), st)
     | Some (r, st) \<Rightarrow> Some (r, st\<lparr>shfs_mount_lock := sem_up (shfs_mount_lock st)\<rparr>))"
  by (simp add: with_mount_lock_def sem_down_def assms)

lemma busy_lock [simp]: "shfs_busy io (st\<lparr>shfs_mount_lock := n\<rparr>) = shfs_busy io st"
  by (simp add: shfs_busy_def shfs_cache_ref_count_def)

lemma lock_same: "shfs_mount_lock st = 1 \<Longrightarrow> st\<lparr>shfs_mount_lock := 0, shfs_mount_lock := 1\<rparr> = st"
  by simp

lemma free_bufs_world: "\<exists>w. free_bufs hp ps st = st\<lparr>bd_world := w\<rparr>"
proof (induction hp ps st rule: free_bufs.induct)
  case (1 hp st)
  have "free_bufs hp [] st = st\<lparr>bd_world := bd_world st\<rparr>" by simp
  then show ?case by blast
next
  case (3 hp p ps st)
  then show ?case by (auto simp: target_free_def)
qed simp

lemma free_chunkcache_world: "\<exists>w. free_chunkcache hp st = Some (Inr (), st\<lparr>bd_world := w\<rparr>)"
  using free_bufs_world [of hp "vol_htable_chunk_cache st" st] by (auto simp: free_chunkcache_def target_free_def)

text \<open>Unmounting when nothing is open, after the cache has been flushed and freed.\<close>

lemma umount_flushed:
  assumes m: "shfs_mounted st" and idle: "\<not> shfs_busy io st"
    and f: "shfs_free_cache io hp (vol_cb call) st = Some (Inr (), s1)"
  shows "\<exists>s. umount_body io hp call force st =
      (case free_mempool (Some (vol_aiotoken_pool s1)) (vol_toks s1) of
         Inl e \<Rightarrow> Some (Inl e, s)
       | Inr _ \<Rightarrow> rbind (close_blkdevs io (member_bds s1) s) (\<lambda>_ st. Some (Inr (), st\<lparr>vol_nb_members := 0\<rparr>))) \<and>
    devs_same s s1 \<and> bd_pools s = bd_pools s1 \<and> \<not> shfs_mounted s \<and> chunkcache s = None \<and> shfs_mount_lock s = shfs_mount_lock s1"
proof -
  have c: "chunkcache s1 = None" using f by (auto simp: shfs_free_cache_def split: option.splits sum.splits)
  define s2 where "s2 = target_free hp (vol_remount_chunk_buffer s1) (s1\<lparr>shfs_mounted := False\<rparr>)"
  obtain w where w: "free_chunkcache hp s2 = Some (Inr (), s2\<lparr>bd_world := w\<rparr>)"
    using free_chunkcache_world [of hp s2] by blast
  define s where "s = s2\<lparr>bd_world := w\<rparr>"
  have v: "vol_aiotoken_pool s = vol_aiotoken_pool s1" "vol_toks s = vol_toks s1"
    "member_bds s = member_bds s1" "bd_tab s = bd_tab s1" "bd_links s = bd_links s1"
    "open_bd_list s = open_bd_list s1" "bd_pools s = bd_pools s1" "\<not> shfs_mounted s" "chunkcache s = chunkcache s1"
    "shfs_mount_lock s = shfs_mount_lock s1"
    by (simp_all add: s_def s2_def target_free_def member_bds_def member_bd_def cong: map_cong)
  have "umount_body io hp call force st =
      (case free_mempool (Some (vol_aiotoken_pool s)) (vol_toks s) of
         Inl e \<Rightarrow> Some (Inl e, s)
       | Inr _ \<Rightarrow> rbind (close_blkdevs io (member_bds s) s) (\<lambda>_ st. Some (Inr (), st\<lparr>vol_nb_members := 0\<rparr>)))"
    using m idle by (simp only: umount_body_def f rbind_def Let_def option.case sum.case prod.case s2_def [symmetric] w
        s_def [symmetric] if_True if_False simp_thms cong: if_cong)
  then show ?thesis using v c by (intro exI [of _ s]) (simp add: devs_same_def split: sum.split)
qed

lemma lock_stable: "cache_stable (\<lambda>st :: ('w, 'u, 'z) fsst_scheme. shfs_mount_lock st = k)"
proof -
  have "shfs_mount_lock s = shfs_mount_lock s'" if "cachest.more s = cachest.more s'" for s s' :: "('w, 'u, 'z) fsst_scheme"
    using that by (cases s; cases s'; simp)
  then show ?thesis unfolding cache_stable_def by metis
qed

lemma vol_cb_lock:
  assumes "cb_keeps (\<lambda>st. shfs_mount_lock st = k) call"
  shows "cb_keeps (\<lambda>st. shfs_mount_lock st = k) (vol_cb call)"
proof -
  have "shfs_mount_lock st' = shfs_mount_lock st" if "load_vol_htable_cb a t st = Inr st'" for a t and st st' :: "('w, 'u, 'z) mntst_scheme"
    using that by (auto simp: load_vol_htable_cb_def upd_aiot_def shfs_aio_finalize_def shfs_aio_put_token_def
        Let_def split: if_splits sum.splits)
  then show ?thesis using assms
    by (auto simp: cb_keeps_def vol_cb_def split: shfs_aiocb.splits)
qed

lemma free_cache_lock:
  assumes "shfs_free_cache io hp (vol_cb call) st = Some (Inr u, s)" and "cb_keeps (\<lambda>st. shfs_mount_lock st = k) call"
    and "shfs_mount_lock st = k"
  shows "shfs_mount_lock s = k"
proof -
  obtain s1 where f: "shfs_cache_flush_alist io hp (vol_cb call) st = Some (Inr s1)" and s: "cachest.more s = cachest.more s1"
    using assms(1) by (auto simp: shfs_free_cache_def split: option.splits sum.splits)
  have "shfs_mount_lock s1 = k" using flush_keeps [OF lock_stable f vol_cb_lock [OF assms(2)]] assms(3) by simp
  then show ?thesis using cache_stableD [OF lock_stable s] by simp
qed

text \<open>Closing devices none of whose requests is in use does not fail.\<close>

lemma close_blkdevs_returns:
  assumes "\<And>bd. bd \<in> set bds \<Longrightarrow> free_mempool (Some (bd_reqpool (bd_tab st bd))) (bd_pools st) = Inr ()"
  shows "\<exists>st'. close_blkdevs io bds st = Some (Inr (), st')"
  using assms
proof (induction bds arbitrary: st)
  case (Cons bd bds)
  obtain r s where s: "close_blkdev io bd st = (r, s)" by fastforce
  have p: "bd_pools s = bd_pools st" "bd_reqpool (bd_tab s b) = bd_reqpool (bd_tab st b)" for b
    using s by (auto simp: close_blkdev_def Let_def bd_list_unlink_def split: if_splits option.splits sum.splits)
  have "r = Inr ()"
    using s Cons.prems [of bd] by (auto simp: close_blkdev_def Let_def bd_list_unlink_def split: if_splits option.splits sum.splits)
  moreover obtain st' where "close_blkdevs io bds s = Some (Inr (), st')"
    using Cons.IH [of s] Cons.prems by (auto simp: p)
  ultimately show ?case using s by (simp add: rbind_def)
qed simp

text \<open>
  C24: the outcomes of \<open>umount_shfs\<close> without \<open>force\<close>, when no other call holds the lock and the callbacks
  leave it alone. An unmounted file system stays as it is, a busy one is refused with \<open>EBUSY\<close> and unchanged,
  whatever is in the cache or in flight. A mounted one that the busy check lets pass has its cache
  flushed and freed. If a wait of the flush never ends, neither does the call, and a fault in it, as the assertion
  of \<open>free_mempool\<close> that every cache entry is back, stops the program. After the flush, in \<open>s\<close>, with no request of
  a member's device in use, the file system is unmounted and one handle of each member is given
  back, or the program stops: the check compares the free tokens with \<open>MAX_REQUESTS\<close> instead of
  \<open>NB_AIOTOKEN\<close>, so that it lets a few tokens in flight pass, and \<open>free_mempool\<close> then has a \<open>BUG_ON\<close> for them.
\<close>

theorem umount_shfs_outcomes:
  assumes lock: "shfs_mount_lock st = 1" and cb: "cb_keeps (\<lambda>st. shfs_mount_lock st = 0) call"
  defines "tokens_back \<equiv> \<lambda>s. ring_count (free_objs (mp_pools (vol_toks s) (vol_aiotoken_pool s))) =
      nb_objs (mp_pools (vol_toks s) (vol_aiotoken_pool s))"
    and "requests_back \<equiv> \<lambda>s. \<forall>bd \<in> set (member_bds s). free_mempool (Some (bd_reqpool (bd_tab s bd))) (bd_pools s) = Inr ()"
  shows "if \<not> shfs_mounted st then umount_shfs io hp call False st = Some (Inr (), st)
    else if shfs_busy io st then umount_shfs io hp call False st = Some (Inl (Errno EBUSY), st)
    else (case shfs_free_cache io hp (vol_cb call) (st\<lparr>shfs_mount_lock := 0\<rparr>) of
            None \<Rightarrow> umount_shfs io hp call False st = None
          | Some (Inl e, s) \<Rightarrow> \<exists>f. e = Fault f \<and> umount_shfs io hp call False st = Some (Inl e, s)
          | Some (Inr _, s) \<Rightarrow> \<forall>H. bd_inv s (H + mset (member_bds s)) \<and> requests_back s \<longrightarrow>
              (\<exists>r st'. umount_shfs io hp call False st = Some (r, st') \<and>
                (if tokens_back s
                 then r = Inr () \<and> \<not> shfs_mounted st' \<and> chunkcache st' = None \<and> vol_nb_members st' = 0 \<and>
                        shfs_mount_lock st' = 1 \<and> bd_inv st' H
                 else r = Inl (Fault Bug_on))))"
proof (cases "shfs_mounted st \<and> \<not> shfs_busy io st")
  case False
  then show ?thesis
    using lock by (auto simp: umount_shfs_def with_mount_lock_free umount_body_def sem_up_def)
next
  case True
  let ?st = "st\<lparr>shfs_mount_lock := 0\<rparr>"
  have a: "shfs_mounted ?st" "\<not> shfs_busy io ?st" using True by simp_all
  note body = umount_body_def [of io hp call False ?st]
  show ?thesis
  proof (cases "shfs_free_cache io hp (vol_cb call) ?st")
    case None
    then show ?thesis using True lock a by (simp add: umount_shfs_def with_mount_lock_free body rbind_def)
  next
    case (Some rs)
    obtain r1 s1 where rs: "rs = (r1, s1)" by (cases rs)
    show ?thesis
    proof (cases r1)
      case (Inl e)
      then obtain f where e: "e = Fault f"
        using Some rs by (auto simp: shfs_free_cache_def free_mempool_def split: option.splits sum.splits if_splits)
      then have "umount_body io hp call False ?st = Some (Inl (Fault f), s1)"
        using a Some rs Inl by (simp add: body rbind_def)
      then show ?thesis using True lock Some rs Inl e by (simp add: umount_shfs_def with_mount_lock_free)
    next
      case (Inr u)
      then have fc: "shfs_free_cache io hp (vol_cb call) ?st = Some (Inr (), s1)" using Some rs by simp
      have l1: "shfs_mount_lock s1 = 0" by (rule free_cache_lock [OF fc cb]) simp
      obtain s where s: "umount_body io hp call False ?st =
          (case free_mempool (Some (vol_aiotoken_pool s1)) (vol_toks s1) of
             Inl e \<Rightarrow> Some (Inl e, s)
           | Inr _ \<Rightarrow> rbind (close_blkdevs io (member_bds s1) s) (\<lambda>_ st. Some (Inr (), st\<lparr>vol_nb_members := 0\<rparr>)))"
        "devs_same s s1" "bd_pools s = bd_pools s1" "\<not> shfs_mounted s" "chunkcache s = None" "shfs_mount_lock s = 0"
        using umount_flushed [OF a fc, of False] l1 by auto
      have "\<exists>r st'. umount_shfs io hp call False st = Some (r, st') \<and>
          (if tokens_back s1
           then r = Inr () \<and> \<not> shfs_mounted st' \<and> chunkcache st' = None \<and> vol_nb_members st' = 0 \<and>
                  shfs_mount_lock st' = 1 \<and> bd_inv st' H
           else r = Inl (Fault Bug_on))" if H: "bd_inv s1 (H + mset (member_bds s1))" "requests_back s1" for H
      proof (cases "tokens_back s1")
        case False
        then have "free_mempool (Some (vol_aiotoken_pool s1)) (vol_toks s1) = Inl (Fault Bug_on)"
          by (simp add: free_mempool_def tokens_back_def)
        then show ?thesis using False s(1) lock by (simp add: umount_shfs_def with_mount_lock_free)
      next
        case tb: True
        obtain s' where c: "close_blkdevs io (member_bds s1) s = Some (Inr (), s')"
          using close_blkdevs_returns [of "member_bds s1" s io] H(2) s(2,3) by (auto simp: devs_same_def requests_back_def)
        then have mr: "bdst.more s' = bdst.more s" using close_blkdevs_effect [of io "member_bds s1" s] by auto
        have b: "umount_body io hp call False ?st = Some (Inr (), s'\<lparr>vol_nb_members := 0\<rparr>)"
          using s(1) tb c by (simp add: free_mempool_def tokens_back_def rbind_def)
        from close_blkdevs_inv [OF devs_same_inv [OF H(1) s(2)] c] have "bd_inv s' H" .
        then have "bd_inv (s'\<lparr>vol_nb_members := 0, shfs_mount_lock := 1\<rparr>) H" by (rule bd_inv_frame) simp_all
        moreover have "\<not> shfs_mounted s'" "chunkcache s' = None" "shfs_mount_lock s' = 0"
          using s(4-6) mr by (cases s; cases s'; simp)+
        ultimately show ?thesis using tb b lock
          by (simp add: umount_shfs_def with_mount_lock_free sem_up_def)
      qed
      then show ?thesis using True fc by simp
    qed
  qed
qed

definition sample_mounted :: "(addr list, nat) mntst" where
  "sample_mounted =
     fsst.extend (sample_fs\<lparr>vol_toks := sample_toks2, cc := sample_cache\<lparr>cc_pool := None\<rparr>, open_bd_list := Some 9,
         bd_tab := (\<lambda>_. sample_blkdev\<lparr>bd_refcount := 2\<rparr>),
         bd_pools := sample_pool\<lparr>mp_pools := (\<lambda>p. (mp_pools sample_pool 0)\<lparr>nb_objs := 1\<rparr>)\<rparr>\<rparr>)
       \<lparr>vol_aiots = (\<lambda>_. \<lparr>la_done = 0, la_left = 0, la_ret = None\<rparr>), vol_hcc = 0\<rparr>"

lemma sample_mounted_simps:
  "shfs_mounted sample_mounted" "shfs_nb_open sample_mounted = 0" "chunkcache sample_mounted = Some 8"
  "cc sample_mounted = sample_cache\<lparr>cc_pool := None\<rparr>" "shfs_mount_lock sample_mounted = 1"
  "vol_toks sample_mounted = sample_toks2" "vol_aiotoken_pool sample_mounted = 0" "vol_nb_members sample_mounted = 1"
  "vol_member sample_mounted = [\<lparr>vm_bd = 9, vm_uuid = replicate 16 1, vm_sfactor = 8\<rparr>]"
  "bd_tab sample_mounted = (\<lambda>_. sample_blkdev\<lparr>bd_refcount := 2\<rparr>)" "open_bd_list sample_mounted = Some 9"
  "bd_links sample_mounted = (\<lambda>_. \<lparr>dl_next = None, dl_prev = None\<rparr>)"
  "bd_pools sample_mounted = sample_pool\<lparr>mp_pools := (\<lambda>p. (mp_pools sample_pool 0)\<lparr>nb_objs := 1\<rparr>)\<rparr>"
  by (simp_all add: sample_mounted_def fsst.defs sample_fs_def cachest.defs sample_cachest_def aiost.defs sample_aiost_def
      bdst.defs sample_bdst_def)

theorem umount_shfs_outcomes_witness:
  "\<exists>st'. umount_shfs sample_blkfront label_heap (\<lambda>_ _. Inr) False sample_mounted = Some (Inr (), st') \<and>
     \<not> shfs_mounted st' \<and> bd_inv st' {#9#}"
proof -
  let ?s = sample_mounted
  have m: "member_bds ?s = [9]" by (simp add: member_bds_def member_bd_def sample_mounted_simps)
  have inv: "bd_inv ?s ({#9#} + mset (member_bds ?s))"
    unfolding bd_inv_def m by (intro exI [of _ "[9]"]) (simp add: bd_holds_def dl_repr_def sample_mounted_simps sample_blkdev_def)
  have c: "ring_count (free_objs (mp_pools sample_toks2 0)) = 2" "nb_objs (mp_pools sample_toks2 0) = 2"
    "ring_count (free_objs (mp_pools sample_pool 0)) = 1"
    by (simp_all add: sample_toks2_def sample_toks_def sample_pool_def sample_mpstate_def ring_count_def)
  have busy: "\<not> shfs_busy sample_blkfront ?s"
    by (simp add: shfs_busy_def mempool_free_count_def c sample_mounted_simps shfs_cache_ref_count_def sample_cache_def
        sample_blkfront_def)
  let ?c = "?s\<lparr>shfs_mount_lock := 0\<rparr>"
  define s1 where "s1 = ?c\<lparr>bd_world := hp_xfree label_heap 8 (bd_world ?c), chunkcache := None\<rparr>"
  have f: "shfs_free_cache sample_blkfront label_heap (vol_cb (\<lambda>_ _. Inr)) ?c = Some (Inr (), s1)"
    by (simp add: shfs_free_cache_def sample_mounted_simps shfs_cache_flush_alist.simps [of _ _ _ ?c] sample_cache_def
        dlist_init_head_def free_mempool_def s1_def)
  have s1: "member_bds s1 = [9]" "bd_tab s1 = bd_tab ?s" "bd_pools s1 = bd_pools ?s" "vol_toks s1 = vol_toks ?s"
    "vol_aiotoken_pool s1 = vol_aiotoken_pool ?s"
    using m by (simp_all add: s1_def member_bds_def member_bd_def sample_mounted_simps)
  have "bd_inv s1 ({#9#} + mset (member_bds s1))"
    using inv unfolding s1(1) m by (rule bd_inv_frame) (simp_all add: s1_def)
  moreover have "\<forall>bd \<in> set (member_bds s1). free_mempool (Some (bd_reqpool (bd_tab s1 bd))) (bd_pools s1) = Inr ()"
    by (simp add: s1 sample_mounted_simps free_mempool_def c sample_blkdev_def)
  moreover have "cb_keeps (\<lambda>st. shfs_mount_lock st = 0) (\<lambda>_ _. Inr)" by (simp add: cb_keeps_def)
  note U = umount_shfs_outcomes [OF sample_mounted_simps(5) this, of sample_blkfront label_heap]
  ultimately show ?thesis
    using U busy by (simp add: f sample_mounted_simps s1 c) blast
qed

section \<open>Remounting\<close>

text \<open>The sizes of the table and of the chunks it was read from.\<close>

definition table_dims :: "('w, 'u, 'z) fsst_scheme \<Rightarrow> nat \<times> nat \<times> u8 \<times> u8 \<times> nat \<times> nat" where
  "table_dims st = (unat (nb_bkts (vol_bt st)), unat (el_per_bkt (vol_bt st)), ht_hlen (vol_bt st), vol_hlen st,
     unat (vol_htable_len st), unat (vol_htable_nb_entries_per_chunk st))"

lemma table_dims_stable: "cache_stable (\<lambda>st. table_dims st = d)"
proof -
  have "table_dims s = table_dims s'" if "cachest.more s = cachest.more s'" for s s' :: "('w, 'u, 'z) fsst_scheme"
    using that by (cases s; cases s'; simp add: table_dims_def)
  then show ?thesis unfolding cache_stable_def by metis
qed

lemma upd_bentry_dims [simp]: "table_dims (upd_bentry b f st) = table_dims st"
  by (simp add: table_dims_def upd_bentry_def)

lemma vol_cb_dims:
  assumes "cb_keeps (\<lambda>st. table_dims st = d) call"
  shows "cb_keeps (\<lambda>st. table_dims st = d) (vol_cb call)"
proof -
  have "table_dims st' = table_dims st" if "load_vol_htable_cb a t st = Inr st'" for a t and st st' :: "('w, 'u, 'z) mntst_scheme"
    using that by (auto simp: load_vol_htable_cb_def upd_aiot_def shfs_aio_finalize_def shfs_aio_put_token_def
        table_dims_def Let_def split: if_splits sum.splits)
  then show ?thesis using assms
    by (auto simp: cb_keeps_def vol_cb_def split: shfs_aiocb.splits)
qed

lemma feed_dims:
  "shfs_btable_feed bt i h = Inr (b, bt') \<Longrightarrow>
    nb_bkts bt' = nb_bkts bt \<and> el_per_bkt bt' = el_per_bkt bt \<and> ht_hlen bt' = ht_hlen bt"
  by (auto simp: shfs_btable_feed_def ht_set_slot_def Let_def split: if_splits sum.splits)

text \<open>Both branches of the comparison feed the table: a hash that differs is not zero twice.\<close>

lemma reload_entry_updates:
  fixes st :: "('w, 'u, 'z) mntst_scheme"
  assumes "unat (vol_hlen st) \<le> 64"
  shows "reload_entry io hp call c cb nb e st =
    update_entry io hp call (of_nat c * ucast (vol_htable_nb_entries_per_chunk st) + of_nat e)
      (cb + SHFS_HTABLE_ENTRY_OFFSET (of_nat e) (vol_htable_nb_entries_per_chunk st))
      (nb + SHFS_HTABLE_ENTRY_OFFSET (of_nat e) (vol_htable_nb_entries_per_chunk st)) st"
proof -
  let ?h = "\<lambda>b. he_hash (hentry_at st (b + SHFS_HTABLE_ENTRY_OFFSET (of_nat e) (vol_htable_nb_entries_per_chunk st)))"
  have z: "hash_is_zero (?h b) (vol_hlen st) = Inr (zero_key (take (unat (vol_hlen st)) (?h b)))" for b
    by (rule hash_ops_key(1) [OF assms length_he_hash])
  have "hash_compare (?h cb) (?h nb) (vol_hlen st) =
      Inr (if take (unat (vol_hlen st)) (?h cb) = take (unat (vol_hlen st)) (?h nb) then 0 else 1)"
    by (rule hash_ops_key(2) [OF assms length_he_hash length_he_hash])
  moreover have "take (unat (vol_hlen st)) (?h cb) = take (unat (vol_hlen st)) (?h nb)"
    if "zero_key (take (unat (vol_hlen st)) (?h cb))" "zero_key (take (unat (vol_hlen st)) (?h nb))"
    using that by (simp add: zero_key_def length_he_hash list_eq_iff_nth_eq list_all_length)
  ultimately show ?thesis by (auto simp: reload_entry_def Let_def z)
qed

lemma update_entry_dims:
  assumes cb: "cb_keeps (\<lambda>st. table_dims st = d) call" and st: "table_dims st = d"
    and r: "update_entry io hp call idx c n st = Some (Inr u, st')"
  shows "table_dims st' = d"
proof -
  let ?J = "\<lambda>st. table_dims st = d"
  obtain b bt where b: "shfs_btable_feed (vol_bt st) idx (he_hash (hentry_at st n)) = Inr (b, bt)"
    using r by (auto simp: update_entry_def split: sum.splits)
  obtain k where k: "sem_down (updatelock (bentry (st\<lparr>vol_bt := bt\<rparr>) b)) = Some k"
    using r b by (auto simp: update_entry_def rbind_def split: option.splits)
  let ?s = "upd_bentry b (\<lambda>b. b\<lparr>be_update := True, updatelock := k\<rparr>) (st\<lparr>vol_bt := bt\<rparr>)"
  let ?s1 = "?s\<lparr>bd_mem := mem_write c (mem_read n 244 (bd_mem ?s)) (bd_mem ?s)\<rparr>"
  obtain s where s: "shfs_flush_cache io hp (vol_cb call) ?s1 = Some (Inr s)"
    using r b k by (auto simp: update_entry_def rbind_def split: option.splits sum.splits)
  have "table_dims ?s1 = table_dims st"
    using feed_dims [OF b] by (simp add: table_dims_def upd_bentry_def)
  then have "?J s"
    using flush_keeps [OF table_dims_stable s [unfolded shfs_flush_cache_def] vol_cb_dims [OF cb]] st by simp
  then show ?thesis
    using r b k s by (auto simp: update_entry_def rbind_def Let_def table_dims_def upd_bentry_def split: if_splits)
qed

lemma u32_to_u64: "unat (ucast (x :: u32) :: u64) = unat x"
proof -
  have "unat x < 2 ^ 64" by (rule order_less_le_trans [OF unsigned_less]) simp
  then show ?thesis by (simp add: unsigned_ucast_eq take_bit_nat_eq_self)
qed

lemma update_entry_outside:
  assumes n: "table_dims st = (n, p, d)" and p: "p \<noteq> 0" and i: "n * p \<le> unat idx" "unat idx < 2 ^ 32"
  shows "update_entry io hp call idx c k st = Some (Inl (Fault Assert_failed), st)"
proof -
  let ?bt = "vol_bt st"
  have e: "el_per_bkt ?bt \<noteq> 0" "unat (nb_bkts ?bt) = n" "unat (el_per_bkt ?bt) = p" using n p by (auto simp: table_dims_def)
  have ce: "unat (ucast (el_per_bkt ?bt) :: u64) = p"
    using e(3) by (simp add: u32_to_u64)
  have "unat (idx div ucast (el_per_bkt ?bt)) = unat idx div p" by (simp add: unat_div ce)
  moreover have "unat idx div p < 2 ^ 32" by (rule le_less_trans [OF div_le_dividend i(2)])
  ultimately have u: "unat (ucast (idx div ucast (el_per_bkt ?bt)) :: u32) = unat idx div p"
    by (simp add: unsigned_ucast_eq take_bit_nat_eq_self)
  have "n \<le> unat idx div p" using i(1) p by (simp add: less_eq_div_iff_mult_less_eq)
  then have "\<not> (ucast (idx div ucast (el_per_bkt ?bt)) :: u32) < nb_bkts ?bt"
    using e(2) u by (simp add: word_less_nat_alt)
  then have "shfs_btable_feed ?bt idx h = Inl (Fault Assert_failed)" for h
    using e(1) by (simp add: shfs_btable_feed_def Let_def)
  then show ?thesis by (simp add: update_entry_def)
qed

lemma chunk_index:
  assumes "c * unat epc + e < 2 ^ 32"
  shows "unat (of_nat c * ucast (epc :: u32) + of_nat e :: u64) = c * unat epc + e"
proof -
  have "unat (ucast epc :: u64) = unat epc"
    by (rule u32_to_u64)
  then have eq: "of_nat c * ucast epc + of_nat e = (of_nat (c * unat epc + e) :: u64)"
    by (metis of_nat_add of_nat_mult of_nat_unat ucast_id)
  have "c * unat epc + e < 2 ^ 64" using assms by simp
  then show ?thesis unfolding eq by (simp only: unsigned_of_nat take_bit_nat_eq_self len_of_numeral_defs) (simp add: take_bit_nat_eq_self)
qed

lemma reload_chunk_outside:
  assumes cb: "cb_keeps (\<lambda>st. table_dims st = (n, p, d)) call" and p: "p \<noteq> 0"
    and d: "d = (hl, vh, len, m)" "unat vh \<le> 64" and c: "c < len" "len * m < 2 ^ 32"
  shows "table_dims st = (n, p, d) \<Longrightarrow> reload_chunk io hp call c cbuf nbuf es st = Some (Inr u, st') \<Longrightarrow> set es \<subseteq> {..<m} \<Longrightarrow>
    table_dims st' = (n, p, d) \<and> (\<forall>e \<in> set es. c * m + e < n * p)"
proof (induction es arbitrary: st)
  case (Cons e es)
  have h: "unat (vol_hlen st) \<le> 64" and m: "unat (vol_htable_nb_entries_per_chunk st) = m"
    using Cons.prems(1) d by (simp_all add: table_dims_def)
  have "c * m + e < len * m"
  proof -
    have "Suc c * m \<le> len * m" by (rule mult_le_mono1) (use c(1) in simp)
    then show ?thesis using Cons.prems(3) by simp
  qed
  then have lt: "c * m + e < 2 ^ 32" using c(2) by simp
  note ix = chunk_index [of c "vol_htable_nb_entries_per_chunk st" e, unfolded m, OF lt]
  obtain s where s: "reload_entry io hp call c cbuf nbuf e st = Some (Inr (), s)"
    "reload_chunk io hp call c cbuf nbuf es s = Some (Inr u, st')"
    using Cons.prems(2) by (auto simp: rbind_def split: option.splits sum.splits)
  note s' = s(1) [unfolded reload_entry_updates [OF h]]
  have "table_dims s = (n, p, d)" by (rule update_entry_dims [OF cb Cons.prems(1) s'])
  moreover have "c * m + e < n * p"
  proof (rule ccontr)
    assume "\<not> c * m + e < n * p"
    then have "update_entry io hp call (of_nat c * ucast (vol_htable_nb_entries_per_chunk st) + of_nat e) a b st =
      Some (Inl (Fault Assert_failed), st)" for a b
      by (intro update_entry_outside [OF Cons.prems(1) p]) (use ix lt in simp_all)
    then show False using s' by simp
  qed
  ultimately show ?case using Cons.IH [of s] s(2) Cons.prems(3) by simp
qed simp

lemma reload_chunks_outside:
  assumes cb: "cb_keeps (\<lambda>st. table_dims st = (n, p, d)) call" and p: "p \<noteq> 0"
    and d: "d = (hl, vh, len, m)" "unat vh \<le> 64" and c: "len * m < 2 ^ 32"
  shows "table_dims st = (n, p, d) \<Longrightarrow> reload_chunks io hp call nb cs st = Some (Inr u, st') \<Longrightarrow> set cs \<subseteq> {..<len} \<Longrightarrow>
    \<forall>c \<in> set cs. \<forall>e < m. c * m + e < n * p"
proof (induction cs arbitrary: st)
  case (Cons c cs)
  let ?J = "\<lambda>st. table_dims st = (n, p, d)"
  obtain s where s: "shfs_io_chunk io (cache_cb hp (vol_cb call)) (vol_htable_ref st + of_nat c) 1 False nb st = Some (Inr (), s)"
    using Cons.prems(2) by (auto split: option.splits sum.splits error.splits)
  have j: "?J s"
    by (rule io_chunk_keeps [OF cache_stable_io [OF table_dims_stable]
        cache_cb_keeps_any [OF table_dims_stable vol_cb_dims [OF cb]] Cons.prems(1) s])
  have m: "unat (vol_htable_nb_entries_per_chunk s) = m" using j d by (simp add: table_dims_def)
  obtain b s1 where s1: "reload_chunk io hp call c b nb [0..<m] s = Some (Inr (), s1)"
    "reload_chunks io hp call nb cs s1 = Some (Inr u, st')"
    using Cons.prems(2) s m by (auto simp: rbind_def split: if_splits option.splits sum.splits)
  have "?J s1 \<and> (\<forall>e \<in> set [0..<m]. c * m + e < n * p)"
    by (rule reload_chunk_outside [OF cb p d _ c j s1(1)]) (use Cons.prems(3) in auto)
  then show ?case using Cons.IH [of s1] s1(2) Cons.prems(3) by auto
qed simp

text \<open>
  C23: the table is mounted with \<open>htable_nb_entries\<close> entries, but a remount compares and
  feeds every entry that fits into its chunks. When the last chunk of the table is not filled
  exactly, \<open>remount_shfs\<close> never returns success, whatever the chunks on the device hold, as
  \<open>shfs_btable_feed\<close> asserts that the index is inside the table.
\<close>

theorem remount_never_succeeds:
  assumes dims: "table_dims st = (nb, epb, hl, hlen, len, epc)"
    and cb: "cb_keeps (\<lambda>s. table_dims s = table_dims st) call"
    and "epb \<noteq> 0" and "unat hlen \<le> 64" and "len * epc < 2 ^ 32"
    and partly: "nb * epb < len * epc"
  shows "\<nexists>st'. remount_shfs io hp call st = Some (Inr (), st')"
proof
  assume "\<exists>st'. remount_shfs io hp call st = Some (Inr (), st')"
  then obtain k st' where "reload_vol_htable io hp call (st\<lparr>shfs_mount_lock := k\<rparr>) = Some (Inr (), st')"
    by (auto simp: remount_shfs_def with_mount_lock_def split: option.splits prod.splits sum.splits if_splits error.splits)
  moreover have "table_dims (st\<lparr>shfs_mount_lock := k\<rparr>) = table_dims st" for k by (simp add: table_dims_def)
  moreover have "unat (vol_htable_len st) = len" using dims by (simp add: table_dims_def)
  ultimately have "\<forall>c \<in> set [0..<len]. \<forall>e < epc. c * epc + e < nb * epb"
    using dims assms(3-5) cb
    by (intro reload_chunks_outside [of nb epb "(hl, hlen, len, epc)" call hl hlen len epc "st\<lparr>shfs_mount_lock := k\<rparr>" io hp
          "vol_remount_chunk_buffer st" "[0..<len]" "()" st'])
       (auto simp: reload_vol_htable_def)
  moreover have "len \<noteq> 0" "epc \<noteq> 0" using partly by (auto intro: ccontr)
  ultimately have "(len - 1) * epc + (epc - 1) < nb * epb" by (metis atLeastLessThan_iff diff_less le0 less_one neq0_conv set_upt)
  moreover have "(len - 1) * epc + (epc - 1) = len * epc - 1"
    using \<open>len \<noteq> 0\<close> \<open>epc \<noteq> 0\<close> by (cases len; cases epc) auto
  ultimately show False using partly by linarith
qed

theorem remount_never_succeeds_witness:
  "\<nexists>st'. remount_shfs sample_blkfront label_heap (\<lambda>_ _. Inr) sample_mounted = Some (Inr (), st')"
proof -
  have d: "table_dims sample_mounted = (2, 2, 8, 8, 1, 16)"
    by (simp add: table_dims_def sample_mounted_def fsst.defs sample_fs_def cachest.defs sample_bt_def)
  show ?thesis
    by (rule remount_never_succeeds [OF d]) (simp_all add: cb_keeps_def)
qed

end
