(* ===== verification/MountResult.thy ===== *)
theory MountResult
  imports Prelude Mempool Blkdev Aio Cache Fio FioProps Mount MountTable MountLabel MountProps
begin

text \<open>
  What the result of \<open>mount_shfs\<close> says about the state: a frame for \<open>shfs_mounted\<close> through the
  reading of the label and the callbacks, the error labels, and the outcomes.
\<close>

section \<open>The flag while the label is read\<close>

lemma mounted_stable: "dev_stable (\<lambda>s :: ('w, 'u, 'z) fsst_scheme. shfs_mounted s = b)"
  by (auto simp: dev_stable_def dest: fsst_moreD)

lemma open_blkdev_more: "open_blkdev io xbd xp xr i mode st = Some (r, st') \<Longrightarrow> bdst.more st' = bdst.more st"
  by (auto simp: open_blkdev_def open_new_blkdev_def bd_list_push_def blkdev_async_io_wait_slot_def Let_def
      split: option.splits sum.splits error.splits prod.splits if_splits)

lemma checkopen_mounted:
  fixes st :: "('w, 'u, 'z) fsst_scheme"
  assumes k: "call_keeps (\<lambda>s. shfs_mounted s = b) call" and m: "shfs_mounted st = b"
    and op: "shfs_checkopen_blkdev io call iosync xs i chk0 mode st = Some (r, st')"
  shows "shfs_mounted st' = b"
proof -
  obtain ro s where o: "open_blkdev io (fst xs) (fst (snd xs)) (snd (snd xs)) i mode st = Some (ro, s)"
    using op by (auto simp: shfs_checkopen_blkdev_def split: option.splits)
  have s: "shfs_mounted s = b" using fsst_moreD(8) [OF open_blkdev_more [OF o]] m by simp
  show ?thesis
  proof (cases ro)
    case (Inl e)
    then show ?thesis using op o s by (cases e) (auto simp: shfs_checkopen_blkdev_def)
  next
    case (Inr bd)
    have c: "shfs_mounted st' = shfs_mounted s1"
      if "rbind (Some (close_blkdev io bd s1)) (\<lambda>_ st. Some (Inr None, st)) = Some (r, st')" for s1 :: "('w, 'u, 'z) fsst_scheme"
      using that close_blkdev_effect(3) [of io bd s1] fsst_moreD(8)
      by (cases "close_blkdev io bd s1") (auto simp: rbind_def split: sum.splits)
    let ?ss = "blkdev_ssize (bd_tab s bd)"
    show ?thesis
    proof (cases "?ss > 4096 \<or> ?ss < 512 \<or> \<not> POWER_OF_2 ?ss")
      case True
      then show ?thesis using op o Inr c s by (simp add: shfs_checkopen_blkdev_def Let_def)
    next
      case False
      then obtain rs s1 where io: "blkdev_sync_io io call iosync bd 0 (ucast (4096 div ?ss)) False chk0 s = Some (rs, s1)"
        using op o Inr by (auto simp: shfs_checkopen_blkdev_def Let_def split: option.splits)
      have s1: "shfs_mounted s1 = b" by (rule sync_io_keeps [OF mounted_stable k s io])
      show ?thesis
        using op o Inr False io s1 c
        by (auto simp: shfs_checkopen_blkdev_def Let_def split: sum.splits option.splits if_splits)
    qed
  qed
qed

lemma detect_members_mounted:
  fixes st :: "('w, 'u, 'z) fsst_scheme"
  assumes k: "call_keeps (\<lambda>s. shfs_mounted s = b) call"
  shows "shfs_mounted st = b \<Longrightarrow> detect_members io call iosync xo chk0 ids i det st = Some (r, st') \<Longrightarrow> shfs_mounted st' = b"
proof (induction ids arbitrary: i det st)
  case (Cons d ids)
  obtain rc s where c: "shfs_checkopen_blkdev io call iosync (xo i) d chk0 O_RDONLY st = Some (rc, s)"
    using Cons.prems(2) by (auto simp: rbind_def split: option.splits)
  have "shfs_mounted s = b" by (rule checkopen_mounted [OF k Cons.prems(1) c])
  then show ?case using Cons.IH Cons.prems(2) c
    by (auto simp: rbind_def split: sum.splits option.splits)
qed simp

lemma cconf_setup_mounted:
  fixes st :: "('w, 'u, 'z) fsst_scheme"
  assumes k: "call_keeps (\<lambda>s. shfs_mounted s = b) call" and m: "shfs_mounted st = b"
    and op: "cconf_setup io call iosync chk0 det st = Some (r, st')"
  shows "shfs_mounted st' = b"
proof -
  obtain x s0 where x: "blkdev_sync_io io call iosync (fst (hd det)) 0
      (ucast (4096 div blkdev_ssize (bd_tab st (fst (hd det))))) False chk0 st = Some (x, s0)"
    using op by (auto simp: cconf_setup_def Let_def split: option.splits)
  have "shfs_mounted s0 = b" by (rule sync_io_keeps [OF mounted_stable k m x])
  moreover have "shfs_mounted st' = shfs_mounted s0"
  proof -
    have f: "shfs_mounted s2 = shfs_mounted s1" if "setup_members is s1 = (r2, s2)" for "is" r2 and s1 s2 :: "('w, 'u, 'z) fsst_scheme"
      using setup_members_frame [OF that] by (auto simp: setup_frame_def)
    show ?thesis using op x
      by (auto simp: cconf_setup_def Let_def rbind_def split: sum.splits option.splits if_splits prod.splits dest!: f)
  qed
  ultimately show ?thesis by simp
qed

lemma load_vol_cconf_mounted:
  fixes st :: "('w, 'u, 'z) fsst_scheme"
  assumes k: "call_keeps (\<lambda>s. shfs_mounted s = b) call" and m: "shfs_mounted st = b"
    and op: "load_vol_cconf io hp call iosync xo ids st = Some (Inl (Errno e), st')"
  shows "shfs_mounted st' = b"
proof (cases "length ids > MAX_NB_TRY_BLKDEVS")
  case True
  then show ?thesis using op m by (simp add: load_vol_cconf_def)
next
  case False
  obtain p s0 where p: "target_malloc hp 4096 4096 st = (p, s0)" by fastforce
  have s0: "shfs_mounted s0 = b" using p m by (auto simp: target_malloc_def Let_def split: prod.splits)
  show ?thesis
  proof (cases p)
    case None
    then show ?thesis using op False p s0 by (simp add: load_vol_cconf_def)
  next
    case (Some chk0)
    obtain rd s1 where d: "detect_members io call iosync xo chk0 ids 0 [] s0 = Some (rd, s1)"
      using op False p Some by (auto simp: load_vol_cconf_def rbind_def Let_def split: option.splits)
    have s1: "shfs_mounted s1 = b" by (rule detect_members_mounted [OF k s0 d])
    have fr: "shfs_mounted (target_free hp q s) = shfs_mounted s" for q and s :: "('w, 'u, 'z) fsst_scheme"
      by (simp add: target_free_def)
    have cl: "shfs_mounted s' = shfs_mounted s" if "close_blkdevs io bds s = Some (rc, s')" for bds rc and s s' :: "('w, 'u, 'z) fsst_scheme"
      using that close_blkdevs_effect [of io bds s] fsst_moreD(8) [of s' s] by auto
    show ?thesis
    proof (cases "\<exists>det. rd = Inr det \<and> det \<noteq> []")
      case False
      then show ?thesis using op \<open>\<not> length ids > MAX_NB_TRY_BLKDEVS\<close> p Some d s1
        by (cases rd) (auto simp: load_vol_cconf_def Let_def rbind_def on_error_def fr)
    next
      case True
      then obtain det where det: "rd = Inr det" "det \<noteq> []" by blast
      obtain rc s2 where c: "cconf_setup io call iosync chk0 det s1 = Some (rc, s2)"
        using op \<open>\<not> length ids > MAX_NB_TRY_BLKDEVS\<close> p Some d det
        by (auto simp: load_vol_cconf_def Let_def rbind_def on_error_def split: option.splits)
      have s2: "shfs_mounted s2 = b" by (rule cconf_setup_mounted [OF k s1 c])
      let ?un = "filter (\<lambda>bd. bd \<notin> vm_bd ` set (vol_member s2)) (map fst det)"
      obtain r3 s3 r5 s5 where u: "close_blkdevs io ?un s2 = Some (r3, s3)" "close_blkdevs io (map fst det) s2 = Some (r5, s5)"
        "r3 = Inr () \<or> (\<exists>f. r3 = Inl (Fault f))" "r5 = Inr () \<or> (\<exists>f. r5 = Inl (Fault f))"
        using close_blkdevs_effect [of io ?un s2] close_blkdevs_effect [of io "map fst det" s2] by blast
      have "shfs_mounted s5 = b" using cl [OF u(2)] s2 by simp
      note eq = op [unfolded load_vol_cconf_def Let_def if_not_P [OF \<open>\<not> length ids > MAX_NB_TRY_BLKDEVS\<close>] p Some prod.case option.case d det(1)]
      consider f where "rc = Inl (Fault f)" | n where "rc = Inl (Errno n)" | "rc = Inr ()"
        by (metis error.exhaust old.unit.exhaust sum.exhaust)
      then show ?thesis
      proof cases
        case 1
        then show ?thesis using eq det(2) c by (simp add: rbind_def on_error_def)
      next
        case 2
        then show ?thesis using eq det(2) c u \<open>shfs_mounted s5 = b\<close> by (auto simp: rbind_def on_error_def fr)
      next
        case 3
        then show ?thesis using eq det(2) c u(1,3) by (auto simp: rbind_def on_error_def)
      qed
    qed
  qed
qed

text \<open>The callbacks of a mounted volume do not mount or unmount it, when those of its users do not.\<close>

lemma cache_ops_mounted [simp]:
  "shfs_mounted (upd_cce c f st) = shfs_mounted st" "shfs_mounted (shfs_cache_put_cce hp c st) = shfs_mounted st"
  "shfs_mounted (on_alist g st) = shfs_mounted st" "shfs_mounted (on_clist i g st) = shfs_mounted st"
  by (simp_all add: upd_cce_def shfs_cache_put_cce_def upd_cc_def on_alist_def on_clist_def split: option.split prod.split)

lemma vol_cb_mounted:
  assumes k: "cb_keeps (\<lambda>s. shfs_mounted s = b) call"
  shows "call_keeps (\<lambda>s. shfs_mounted s = b) (shfs_aio_cb (cache_cb hp (vol_cb call)))"
proof -
  let ?J = "\<lambda>s :: ('a, 'b, 'c) mntst_scheme. shfs_mounted s = b"
  have fin: "shfs_mounted s1 = shfs_mounted s" if "shfs_aio_finalize t s = Inr (ret, s1)" for t s ret and s1 :: "('a, 'b, 'c) mntst_scheme"
    using that by (auto simp: shfs_aio_finalize_def shfs_aio_put_token_def split: if_splits)
  have v: "cb_keeps ?J (vol_cb call)"
    using k by (auto simp: cb_keeps_def vol_cb_def load_vol_htable_cb_def upd_aiot_def Let_def
        split: shfs_aiocb.splits sum.splits if_splits dest!: fin)
  have "cb_keeps ?J (cache_cb hp (vol_cb call))"
    unfolding cb_keeps_def
  proof (intro allI impI)
    fix c t st st' assume j: "?J st" and r: "cache_cb hp (vol_cb call) c t st = Inr st'"
    show "?J st'"
    proof (cases c)
      case (Cce_aiocb e)
      then have r: "cce_aiocb hp (vol_cb call) e t st = Inr st'" using r by (simp add: cache_cb_def)
      then obtain ret s1 where s1: "shfs_aio_finalize t st = Inr (ret, s1)"
        by (auto simp: cce_aiocb_def split: if_splits sum.splits)
      then have j1: "?J s1" using j fin by simp
      let ?s2 = "upd_cce e (\<lambda>k. k\<lparr>ce_t := None, ce_invalid := (ret \<noteq> None)\<rparr>) s1"
      show ?thesis
      proof (cases "ce_refcount (cce ?s2 e) = 0 \<and> ce_invalid (cce ?s2 e)")
        case True
        then show ?thesis using r s1 j1
          by (auto simp: cce_aiocb_def shfs_cache_unlink_def Let_def split: if_splits sum.splits)
      next
        case False
        let ?s3 = "upd_cce e (\<lambda>k. k\<lparr>ce_aio_first := None, ce_aio_last := None\<rparr>) ?s2"
        have n: "notify_chain (vol_cb call) ret (ce_aio_first (cce ?s2 e)) ?s3 = Some (Inr st')"
          using r s1 False by (auto simp: cce_aiocb_def Let_def split: if_splits option.splits)
        have "?J ?s3" using j1 by simp
        moreover have "?J s \<Longrightarrow> vol_cb call d u s = Inr s' \<Longrightarrow> ?J s'" for d u s s' using v unfolding cb_keeps_def by blast
        ultimately have "case Inr st' :: fault + _ of Inl f \<Rightarrow> True | Inr s \<Rightarrow> ?J s"
          by (intro notify_chain_keeps [OF _ n]) (simp_all add: upd_tok_def)
        then show ?thesis by simp
      qed
    qed (use j r v in \<open>auto simp: cache_cb_def cb_keeps_def\<close>)
  qed
  then have K: "?J s'" if "?J s" "cache_cb hp (vol_cb call) x t s = Inr s'" for x t s s'
    using that unfolding cb_keeps_def by blast
  have "?J st'" if j: "?J st" and r: "shfs_aio_cb (cache_cb hp (vol_cb call)) ret t st = Inr st'" for ret t st st'
  proof -
    let ?s = "completed_tok (or_else ret (tk_ret (tok st t))) t (tk_infly (tok st t) - 1) st"
    have s: "?J ?s" using j by (simp add: completed_tok_def upd_tok_def)
    show ?thesis
    proof (cases "tk_infly (tok st t) - 1 = 0 \<and> tk_cb (tok st t) \<noteq> None")
      case True
      then obtain c where "cache_cb hp (vol_cb call) c t ?s = Inr st'"
        using r by (auto simp: shfs_aio_cb_eq Let_def)
      then show ?thesis using K s by blast
    next
      case False
      then have "st' = ?s" using r by (auto simp: shfs_aio_cb_eq Let_def split: if_splits)
      then show ?thesis using s by simp
    qed
  qed
  then show ?thesis unfolding call_keeps_def by blast
qed

section \<open>The error labels\<close>

lemma err_close_members_result:
  "err_close_members io s = Some (r, s') \<Longrightarrow> (r = Inr () \<and> \<not> shfs_mounted s') \<or> (\<exists>f. r = Inl (Fault f))"
  using close_blkdevs_effect [of io "member_bds s" s]
  by (auto simp: err_close_members_def rbind_def)

lemma err_free_aiotoken_pool_result:
  "err_free_aiotoken_pool io s = Some (r, s') \<Longrightarrow> (r = Inr () \<and> \<not> shfs_mounted s') \<or> (\<exists>f. r = Inl (Fault f))"
proof -
  assume op: "err_free_aiotoken_pool io s = Some (r, s')"
  consider "free_mempool (Some (vol_aiotoken_pool s)) (vol_toks s) = Inr ()"
    | f where "free_mempool (Some (vol_aiotoken_pool s)) (vol_toks s) = Inl (Fault f)"
    using free_mempool_cases by blast
  then show ?thesis
  proof cases
    case 1
    then show ?thesis using op err_close_members_result [of io s r s'] by (simp add: err_free_aiotoken_pool_def)
  next
    case 2
    then have "r = Inl (Fault f)" using op by (simp add: err_free_aiotoken_pool_def)
    then show ?thesis by blast
  qed
qed

lemmas err_labels = err_close_members_result err_free_aiotoken_pool_result

lemma err_free_htable_result:
  "err_free_htable io hp s = Some (r, s') \<Longrightarrow> (r = Inr () \<and> \<not> shfs_mounted s') \<or> (\<exists>f. r = Inl (Fault f))"
proof -
  obtain w where w: "free_chunkcache hp s = Some (Inr (), s\<lparr>bd_world := w\<rparr>)" using free_chunkcache_world [of hp s] by blast
  assume "err_free_htable io hp s = Some (r, s')"
  then have "err_free_aiotoken_pool io (s\<lparr>bd_world := w\<rparr>) = Some (r, s')" by (simp add: err_free_htable_def rbind_def w)
  then show ?thesis by (rule err_labels(2))
qed

lemma on_error_result:
  assumes op: "on_error m h = Some (r, s')"
    and h: "\<And>s x s1. h s = Some (x, s1) \<Longrightarrow> (x = Inr () \<and> \<not> shfs_mounted s1) \<or> (\<exists>f. x = Inl (Fault f))"
  shows "m = Some (r, s') \<and> (\<forall>e. r \<noteq> Inl (Errno e)) \<or> (\<exists>e. r = Inl (Errno e) \<and> \<not> shfs_mounted s') \<or> (\<exists>f. r = Inl (Fault f))"
proof (cases m)
  case None
  then show ?thesis using op by (simp add: on_error_def)
next
  case (Some p)
  obtain x s where p: "p = (x, s)" by fastforce
  show ?thesis
  proof (cases "\<exists>e. x = Inl (Errno e)")
    case False
    then show ?thesis using op Some p by (auto simp: on_error_def split: sum.splits error.splits)
  next
    case True
    then obtain e y s1 where e: "x = Inl (Errno e)" "h s = Some (y, s1)"
      using op Some p by (auto simp: on_error_def rbind_def split: option.splits)
    then show ?thesis using op Some p h [OF e(2)] by (auto simp: on_error_def rbind_def)
  qed
qed

lemma on_error_labels:
  "on_error m (err_free_aiotoken_pool io) = Some (Inl e, s') \<Longrightarrow> (\<exists>f. e = Fault f) \<or> \<not> shfs_mounted s'"
  "on_error m (err_close_members io) = Some (Inl e, s') \<Longrightarrow> (\<exists>f. e = Fault f) \<or> \<not> shfs_mounted s'"
  by (drule on_error_result, erule err_labels, cases e; auto)+

text \<open>The part of \<open>mount_shfs\<close> after the table is loaded, and the part after the token pool.\<close>

lemma mount_tail_result:
  fixes st :: "('w, 'u, 'z) mntst_scheme"
  assumes "(let (p, st) = target_malloc hp (ucast (vol_ioalign st)) (ucast (vol_chunksize st)) st
      in case p of
           None \<Rightarrow> err_free_htable io hp st
         | Some buf \<Rightarrow>
             let st = st\<lparr>vol_remount_chunk_buffer := buf\<rparr>
             in rbind (on_error (Some (shfs_alloc_cache hp c1 c2 c3 st))
                        (\<lambda>st. err_free_htable io hp (target_free hp (vol_remount_chunk_buffer st) st)))
                  (\<lambda>_ st. Some (Inr (), st\<lparr>shfs_nb_open := 0\<rparr>))) = Some (r, st')"
  shows "(r = Inr () \<and> chunkcache st' \<noteq> None \<and> shfs_nb_open st' = 0) \<or>
    (r = Inr () \<and> \<not> shfs_mounted st' \<and> (\<exists>n a w. fst (hp_xmalloc hp n a w) = None)) \<or>
    (\<exists>e. r = Inl (Errno e) \<and> \<not> shfs_mounted st') \<or> (\<exists>f. r = Inl (Fault f))"
proof -
  obtain p s where p: "target_malloc hp (ucast (vol_ioalign st)) (ucast (vol_chunksize st)) st = (p, s)" by fastforce
  show ?thesis
  proof (cases p)
    case None
    then have "fst (hp_xmalloc hp (ucast (vol_chunksize st)) (ucast (vol_ioalign st)) (bd_world st)) = None"
      using p by (auto simp: target_malloc_def Let_def split: prod.splits)
    then show ?thesis using assms p None err_free_htable_result [of io hp s r st'] by auto
  next
    case (Some buf)
    let ?s = "s\<lparr>vol_remount_chunk_buffer := buf\<rparr>"
    let ?m = "on_error (Some (shfs_alloc_cache hp c1 c2 c3 ?s))
        (\<lambda>st. err_free_htable io hp (target_free hp (vol_remount_chunk_buffer st) st))"
    obtain x s1 where x: "?m = Some (x, s1)" using assms p Some by (auto simp: rbind_def Let_def split: option.splits)
    have R: "rbind ?m (\<lambda>_ st. Some (Inr (), st\<lparr>shfs_nb_open := 0\<rparr>)) = Some (r, st')" using assms p Some by (simp add: Let_def)
    have H: "(y = Inr () \<and> \<not> shfs_mounted s3) \<or> (\<exists>f. y = Inl (Fault f))"
      if "err_free_htable io hp (target_free hp (vol_remount_chunk_buffer s2) s2) = Some (y, s3)"
      for y and s2 s3 :: "('w, 'u, 'z) mntst_scheme"
      using that by (rule err_free_htable_result)
    have "Some (shfs_alloc_cache hp c1 c2 c3 ?s) = Some (x, s1) \<and> (\<forall>e. x \<noteq> Inl (Errno e)) \<or>
        (\<exists>e. x = Inl (Errno e) \<and> \<not> shfs_mounted s1) \<or> (\<exists>f. x = Inl (Fault f))"
      by (rule on_error_result [OF x]) (erule H)
    then consider "shfs_alloc_cache hp c1 c2 c3 ?s = (x, s1)" "\<forall>e. x \<noteq> Inl (Errno e)"
      | e where "x = Inl (Errno e)" "\<not> shfs_mounted s1" | f where "x = Inl (Fault f)" by auto
    then show ?thesis
    proof cases
      case 1
      show ?thesis
      proof (cases x)
        case (Inl e)
        then show ?thesis using R x 1(2) by (cases e) (auto simp: rbind_def)
      next
        case (Inr u)
        then have "chunkcache s1 \<noteq> None" using 1(1)
          by (auto simp: shfs_alloc_cache_def Let_def split: if_splits prod.splits option.splits sum.splits error.splits)
        then show ?thesis using R x Inr by (auto simp: rbind_def)
      qed
    qed (use R x in \<open>auto simp: rbind_def\<close>)
  qed
qed

lemma rbind_cases:
  assumes "rbind m k = Some (r, s')"
  obtains e where "m = Some (Inl e, s')" "r = Inl e" | x s where "m = Some (Inr x, s)" "k x s = Some (r, s')"
  using assms by (auto simp: rbind_def split: option.splits sum.splits)

section \<open>Mounting\<close>

text \<open>
  C16: what the result of \<open>mount_shfs\<close> says. A call that is refused, with no device to try or
  with a volume already mounted, changes nothing. After any other error no volume is mounted.
  A call that reports success has allocated the chunk cache and starts with no open file; the
  exception is a call that ran out of memory for the token pool or the remount buffer, which
  reports success with no volume mounted.
\<close>

theorem mount_shfs_result:
  fixes st :: "('w, 'u, 'z) mntst_scheme"
  assumes op: "mount_shfs io hp call iosync a xs bd_ids st = Some (r, st')"
    and k: "cb_keeps (\<lambda>s. \<not> shfs_mounted s) call"
  defines "no_memory \<equiv> (\<exists>n a w. fst (hp_xmalloc hp n a w) = None) \<or>
      (\<exists>ts e. alloc_enhanced_mempool (fst (ma_tokens xs)) None (snd (ma_tokens xs)) NB_AIOTOKEN sizeof_aio_token
                0 0 0 0 False None (Some aiotoken_pool_objinit) None (ts :: (addr \<Rightarrow> 'u aio_token) mpstate) = Inl (Errno e))"
  shows "case r of
      Inl (Fault f) \<Rightarrow> True
    | Inl (Errno e) \<Rightarrow> (if bd_ids = [] then e = EINVAL \<and> st' = st
                      else if shfs_mounted st then e = EALREADY \<and> st' = st
                      else \<not> shfs_mounted st')
    | Inr _ \<Rightarrow> bd_ids \<noteq> [] \<and> \<not> shfs_mounted st \<and>
        ((chunkcache st' \<noteq> None \<and> shfs_nb_open st' = 0) \<or> (\<not> shfs_mounted st' \<and> no_memory))"
proof -
  obtain n where n: "sem_down (shfs_mount_lock st) = Some n"
    using op by (auto simp: mount_shfs_def with_mount_lock_def split: option.splits)
  then have up: "st\<lparr>shfs_mount_lock := sem_up n\<rparr> = st" by (auto simp: sem_down_def sem_up_def split: if_splits)
  obtain s where body: "mount_body io hp call iosync a xs bd_ids (st\<lparr>shfs_mount_lock := n\<rparr>) = Some (r, s)"
    and st': "(\<exists>f. r = Inl (Fault f)) \<or> st' = s\<lparr>shfs_mount_lock := sem_up (shfs_mount_lock s)\<rparr>"
  proof -
    obtain r1 s1 where b: "mount_body io hp call iosync a xs bd_ids (st\<lparr>shfs_mount_lock := n\<rparr>) = Some (r1, s1)"
      using op n by (auto simp: mount_shfs_def with_mount_lock_def split: option.splits)
    consider f where "r1 = Inl (Fault f)" | m where "r1 = Inl (Errno m)" | u where "r1 = Inr u"
      by (metis error.exhaust sum.exhaust)
    then have "r = r1 \<and> ((\<exists>f. r1 = Inl (Fault f)) \<or> st' = s1\<lparr>shfs_mount_lock := sem_up (shfs_mount_lock s1)\<rparr>)"
    proof cases
      case (1 f)
      then have "r = Inl (Fault f)" using op by (simp add: mount_shfs_def with_mount_lock_def n b)
      then show ?thesis using 1 by blast
    next
      case (2 m)
      then show ?thesis using op by (simp add: mount_shfs_def with_mount_lock_def n b)
    next
      case (3 u)
      then show ?thesis using op by (simp add: mount_shfs_def with_mount_lock_def n b)
    qed
    then show ?thesis using that b by blast
  qed
  let ?ucb = "cache_cb hp (vol_cb call)"
  have R: "(bd_ids = [] \<and> r = Inl (Errno EINVAL) \<and> s = st\<lparr>shfs_mount_lock := n\<rparr>) \<or>
    (bd_ids \<noteq> [] \<and> shfs_mounted st \<and> r = Inl (Errno EALREADY) \<and> s = st\<lparr>shfs_mount_lock := n\<rparr>) \<or>
    (bd_ids \<noteq> [] \<and> \<not> shfs_mounted st \<and>
      ((r = Inr () \<and> chunkcache s \<noteq> None \<and> shfs_nb_open s = 0) \<or> (r = Inr () \<and> \<not> shfs_mounted s \<and> no_memory) \<or>
       (\<exists>e. r = Inl (Errno e) \<and> \<not> shfs_mounted s) \<or> (\<exists>f. r = Inl (Fault f))))"
  proof (cases "bd_ids = [] \<or> shfs_mounted st")
    case True
    show ?thesis
    proof (cases "bd_ids = []")
      case True
      then have "mount_body io hp call iosync a xs bd_ids (st\<lparr>shfs_mount_lock := n\<rparr>) = Some (Inl (Errno EINVAL), st\<lparr>shfs_mount_lock := n\<rparr>)"
        by (simp add: mount_body_def)
      then show ?thesis using body True by auto
    next
      case False
      then have m: "shfs_mounted st" using True by simp
      then have "mount_body io hp call iosync a xs bd_ids (st\<lparr>shfs_mount_lock := n\<rparr>) = Some (Inl (Errno EALREADY), st\<lparr>shfs_mount_lock := n\<rparr>)"
        using False by (simp add: mount_body_def)
      then show ?thesis using body False m by auto
    qed
  next
    case False
    let ?st = "st\<lparr>shfs_mount_lock := n, shfs_mounted := False\<rparr>"
    let ?alloc = "alloc_enhanced_mempool (fst (ma_tokens xs)) None (snd (ma_tokens xs)) NB_AIOTOKEN sizeof_aio_token
                0 0 0 0 False None (Some aiotoken_pool_objinit) None"
    have G: ?thesis if "(r = Inr () \<and> chunkcache s \<noteq> None \<and> shfs_nb_open s = 0) \<or> (r = Inr () \<and> \<not> shfs_mounted s \<and> no_memory) \<or>
       (\<exists>e. r = Inl (Errno e) \<and> \<not> shfs_mounted s) \<or> (\<exists>f. r = Inl (Fault f))"
      using that False by blast
    have b: "rbind (load_vol_cconf io hp (shfs_aio_cb ?ucb) iosync (ma_open xs) bd_ids ?st) (\<lambda>_ st.
           case ?alloc (vol_toks st) of
             Inl (Fault f) \<Rightarrow> Some (Inl (Fault f), st)
           | Inl (Errno e) \<Rightarrow> err_close_members io st
           | Inr (pool, ts) \<Rightarrow>
               let st = st\<lparr>vol_aiotoken_pool := pool, vol_toks := ts, shfs_mounted := True\<rparr>
               in rbind (on_error (load_vol_hconf io hp ?ucb st) (err_free_aiotoken_pool io)) (\<lambda>_ st.
                  rbind (on_error (load_vol_htable io hp ?ucb a (ma_btable xs) st) (err_close_members io)) (\<lambda>_ st.
                  let (p, st) = target_malloc hp (ucast (vol_ioalign st)) (ucast (vol_chunksize st)) st
                  in case p of
                       None \<Rightarrow> err_free_htable io hp st
                     | Some buf \<Rightarrow>
                         let st = st\<lparr>vol_remount_chunk_buffer := buf\<rparr>
                         in rbind (on_error (Some (shfs_alloc_cache hp (fst (ma_cache xs)) (fst (snd (ma_cache xs)))
                                      (snd (snd (ma_cache xs))) st))
                                    (\<lambda>st. err_free_htable io hp (target_free hp (vol_remount_chunk_buffer st) st)))
                              (\<lambda>_ st. Some (Inr (), st\<lparr>shfs_nb_open := 0\<rparr>))))) = Some (r, s)"
      using body False by (simp add: mount_body_def Let_def)
    show ?thesis
    proof (cases rule: rbind_cases [OF b])
      case (1 e)
      have "\<not> shfs_mounted s" if "e = Errno m" for m
        using load_vol_cconf_mounted [of False "shfs_aio_cb ?ucb" ?st io hp iosync "ma_open xs" bd_ids m s] vol_cb_mounted [of False call hp] k 1(1) that by simp
      then show ?thesis using 1(2) by (intro G) (cases e; simp)
    next
      case (2 u s1)
      show ?thesis
      proof (cases "?alloc (vol_toks s1)")
        case (Inl e)
        then have no: "\<exists>m. e = Errno m \<Longrightarrow> no_memory" unfolding no_memory_def by blast
        show ?thesis
        proof (cases e)
          case (Errno m)
          then have "err_close_members io s1 = Some (r, s)" using 2(2) Inl by simp
          from err_labels(1) [OF this] show ?thesis using no Errno by (intro G) blast
        next
          case (Fault f)
          then have "r = Inl (Fault f)" using 2(2) Inl by simp
          then show ?thesis by (intro G) blast
        qed
      next
        case (Inr q)
        obtain pool ts where q: "q = (pool, ts)" by fastforce
        let ?s1 = "s1\<lparr>vol_aiotoken_pool := pool, vol_toks := ts, shfs_mounted := True\<rparr>"
        note c = 2(2) [unfolded Inr q sum.case prod.case Let_def]
        show ?thesis
        proof (cases rule: rbind_cases [OF c])
          case (1 e)
          from on_error_labels(1) [OF 1(1)] show ?thesis using 1(2) by (intro G) (cases e; auto)
        next
          case (2 v s2)
          show ?thesis
          proof (cases rule: rbind_cases [OF 2(2)])
            case (1 e)
            from on_error_labels(2) [OF 1(1)] show ?thesis using 1(2) by (intro G) (cases e; auto)
          next
            case (2 w s3)
            have no: "\<exists>n a w. fst (hp_xmalloc hp n a w) = None \<Longrightarrow> no_memory" unfolding no_memory_def by blast
            from mount_tail_result [of hp s3 io, unfolded Let_def, OF 2(2)] show ?thesis
              by (intro G) (use no in blast)
          qed
        qed
      qed
    qed
  qed
  show ?thesis
  proof (cases "\<exists>f. r = Inl (Fault f)")
    case True
    then show ?thesis by auto
  next
    case False
    then have "st' = s\<lparr>shfs_mount_lock := sem_up (shfs_mount_lock s)\<rparr>" using st' by blast
    then have e: "shfs_mounted st' = shfs_mounted s" "chunkcache st' = chunkcache s" "shfs_nb_open st' = shfs_nb_open s"
      "s = st\<lparr>shfs_mount_lock := n\<rparr> \<Longrightarrow> st' = st" using up by simp_all
    show ?thesis using R False e by (auto split: sum.split error.split)
  qed
qed

text \<open>A mount without memory for the token pool.\<close>

definition sample_unmounted :: "(addr list, nat) mntst" where
  "sample_unmounted =
     fsst.extend (label_fs\<lparr>shfs_mounted := False\<rparr>) \<lparr>vol_aiots = (\<lambda>_. \<lparr>la_done = 0, la_left = 0, la_ret = None\<rparr>), vol_hcc = 0\<rparr>"

definition no_memory_allocs :: mount_allocs where
  "no_memory_allocs = \<lparr>ma_open = (\<lambda>_. (None, None, None)), ma_tokens = (None, None), ma_btable = (True, \<lambda>_. True),
     ma_cache = (None, None, None)\<rparr>"

theorem mount_shfs_result_witness:
  "\<exists>st'. mount_shfs label_blkfront label_heap (\<lambda>_ _. Inr) 7 0 no_memory_allocs [768] sample_unmounted = Some (Inr (), st') \<and>
     \<not> shfs_mounted sample_unmounted \<and> (chunkcache st' \<noteq> None \<and> shfs_nb_open st' = 0 \<or> \<not> shfs_mounted st')"
proof -
  let ?st = "sample_unmounted\<lparr>shfs_mount_lock := 0, shfs_mounted := False\<rparr>"
  let ?cb = "shfs_aio_cb (cache_cb label_heap (vol_cb (\<lambda>_ _. Inr)))"
  have s: "bd_tab ?st = (\<lambda>_. sample_blkdev)" "bd_links ?st = (\<lambda>_. \<lparr>dl_next = None, dl_prev = None\<rparr>)"
    "open_bd_list ?st = Some 9" "bd_pools ?st = sample_pool"
    by (simp_all add: sample_unmounted_def fsst.defs label_fs_def sample_fs_def cachest.defs sample_cachest_def aiost.defs
        sample_aiost_def bdst.defs sample_bdst_def)
  obtain s1 where s1: "load_vol_cconf label_blkfront label_heap ?cb 7 (\<lambda>_. (None, None, None)) [768] ?st = Some (Inr (), s1)"
    "member_bds s1 = [9]" "bd_tab s1 9 = sample_blkdev\<lparr>bd_refcount := 2\<rparr>" using label_load [OF s] by blast
  have c: "close_blkdevs label_blkfront [9] s1 = Some (Inr (), s1\<lparr>bd_tab := (bd_tab s1)(9 := sample_blkdev\<lparr>bd_refcount := 1\<rparr>)\<rparr>)"
    by (simp add: rbind_def close_blkdev_def s1(3) Let_def)
  have al: "alloc_enhanced_mempool None None x3 n z 0 0 0 0 False i k j ts = Inl (Errno ENOMEM)" for x3 n z i k j and ts :: "(addr \<Rightarrow> nat aio_token) mpstate"
    by (simp add: alloc_enhanced_mempool_def Let_def)
  have lock: "shfs_mount_lock sample_unmounted = 1" "\<not> shfs_mounted sample_unmounted"
    by (simp_all add: sample_unmounted_def fsst.defs label_fs_def sample_fs_def cachest.defs)
  obtain st' where st': "mount_shfs label_blkfront label_heap (\<lambda>_ _. Inr) 7 0 no_memory_allocs [768] sample_unmounted = Some (Inr (), st')"
    using s1(1) c lock by (simp add: mount_shfs_def with_mount_lock_def sem_down_def mount_body_def no_memory_allocs_def rbind_def al
        err_close_members_def s1(2) Let_def)
  have "cb_keeps (\<lambda>s. \<not> shfs_mounted s) (\<lambda>_ _. Inr)" by (simp add: cb_keeps_def)
  from mount_shfs_result [OF st' this] st' lock(2) show ?thesis by (intro exI [of _ st']) auto
qed

end
