(* ===== verification/Tools.thy ===== *)
theory Tools
  imports Prelude ShfsDefs
begin

text \<open>
  What the volume tools share (\<open>shfs/shfs-tools/tools_common.c\<close>, \<open>tools_common.h\<close>): opening a
  disk, synchronous chunk I/O on the members of a volume, erasing chunks, and the sizes of the
  metadata.

  The tools are host programs. The system calls they use are modelled on the record \<open>os\<close>: the
  bytes and the position of each open file, a counter of the calls made so far, which call
  fails (\<open>os_fails\<close>; \<open>malloc\<close> counts as one), which \<open>read\<close> or \<open>write\<close> transfers less than it
  could (\<open>os_short\<close>) and at which call an abort signal has arrived (\<open>os_cancel\<close>). Console output is left out.
\<close>

section \<open>The host\<close>

datatype fkind = Regular_file | Block_device | Other_file

record ofile =
  of_kind :: fkind
  of_bytes :: "u8 list"
  of_pos :: nat
  of_blksize :: u32

record os =
  os_files :: "nat \<Rightarrow> ofile"
  os_paths :: "string \<Rightarrow> nat option"
  os_calls :: nat
  os_fails :: "nat \<Rightarrow> bool"
  os_short :: "nat \<Rightarrow> nat option"
  os_cancel :: "nat \<Rightarrow> bool"

definition os_call :: "os \<Rightarrow> bool \<times> os" where
  "os_call st = (os_fails st (os_calls st), st\<lparr>os_calls := Suc (os_calls st)\<rparr>)"

definition cancelled :: "os \<Rightarrow> bool" where
  "cancelled st = os_cancel st (os_calls st)"

definition os_upd :: "nat \<Rightarrow> (ofile \<Rightarrow> ofile) \<Rightarrow> os \<Rightarrow> os" where
  "os_upd fd f st = st\<lparr>os_files := (os_files st)(fd := f (os_files st fd))\<rparr>"

text \<open>\<open>lseek(fd, off, SEEK_SET)\<close> refuses a negative \<open>off_t\<close>.\<close>

definition os_lseek :: "nat \<Rightarrow> u64 \<Rightarrow> os \<Rightarrow> bool \<times> os" where
  "os_lseek fd off st =
     (let (f, st) = os_call st
      in if f \<or> sint off < 0 then (False, st) else (True, os_upd fd (\<lambda>k. k\<lparr>of_pos := unat off\<rparr>) st))"

text \<open>
  \<open>read\<close> and \<open>write\<close>: \<open>None\<close> is -1. Less than asked for is no error: at the end of a file or disk, or
  when the \<open>n\<close>-th call is a partial one, which transfers at most \<open>Suc m\<close> bytes if \<open>os_short\<close> has \<open>m\<close> for it.
\<close>

definition os_part :: "os \<Rightarrow> 'a list \<Rightarrow> 'a list" where
  "os_part st bs = (case os_short st (os_calls st) of None \<Rightarrow> bs | Some m \<Rightarrow> take (Suc m) bs)"

definition os_read :: "nat \<Rightarrow> nat \<Rightarrow> os \<Rightarrow> u8 list option \<times> os" where
  "os_read fd n st =
     (let k = os_files st fd; bs = os_part st (take n (drop (of_pos k) (of_bytes k)));
          (f, st) = os_call st
      in if f then (None, st) else (Some bs, os_upd fd (\<lambda>k. k\<lparr>of_pos := of_pos k + length bs\<rparr>) st))"

definition write_at :: "nat \<Rightarrow> 'a \<Rightarrow> 'a list \<Rightarrow> 'a list \<Rightarrow> 'a list" where
  "write_at pos z new old = take pos old @ replicate (pos - length old) z @ new @ drop (pos + length new) old"

definition os_write :: "nat \<Rightarrow> u8 list \<Rightarrow> os \<Rightarrow> nat option \<times> os" where
  "os_write fd bs st =
     (let k = os_files st fd;
          bs' = os_part st (if of_kind k = Block_device then take (length (of_bytes k) - of_pos k) bs else bs);
          (f, st) = os_call st
      in if f \<or> (bs' = [] \<and> bs \<noteq> []) then (None, st)
         else (Some (length bs'),
               os_upd fd (\<lambda>k. k\<lparr>of_bytes := write_at (of_pos k) 0 bs' (of_bytes k),
                              of_pos := of_pos k + length bs'\<rparr>) st))"

section \<open>Disks\<close>

record disk =
  d_fd :: nat
  d_size :: u64
  d_blksize :: u32
  d_discard :: bool

text \<open>
  \<open>None\<close> is the null pointer. When \<open>BLKGETSIZE64\<close> fails, the number of sectors that
  \<open>BLKGETSIZE\<close> gives becomes the size.
\<close>

definition open_disk :: "string \<Rightarrow> os \<Rightarrow> disk option \<times> os" where
  "open_disk path st =
     (let (f, st) = os_call st in if f then (None, st) else
      let (f, st) = os_call st in if f then (None, st) else
      let (f, st) = os_call st
      in case os_paths st path of
           None \<Rightarrow> (None, st)
         | Some fd \<Rightarrow>
             if f then (None, st) else
             let (f, st) = os_call st; k = os_files st fd
             in if f \<or> of_kind k = Other_file then (None, st)
                else if of_kind k = Block_device then
                  (let (f, st) = os_call st
                   in if \<not> f then
                        (Some \<lparr>d_fd = fd, d_size = of_nat (length (of_bytes k)), d_blksize = of_blksize k,
                               d_discard = False\<rparr>, st)
                      else let (f, st) = os_call st
                      in if f then (None, st)
                         else (Some \<lparr>d_fd = fd, d_size = of_nat (length (of_bytes k) div 512),
                                     d_blksize = of_blksize k, d_discard = False\<rparr>, st))
                else (Some \<lparr>d_fd = fd, d_size = of_nat (length (of_bytes k)), d_blksize = of_blksize k,
                            d_discard = False\<rparr>, st))"

definition close_disk :: "disk \<Rightarrow> os \<Rightarrow> os" where
  "close_disk d st = snd (os_call (snd (os_call st)))"

section \<open>Chunk I/O\<close>

record tool_member =
  tm_d :: disk
  tm_uuid :: uuid_t

record storage =
  sg_member :: "tool_member list"
  sg_nb_members :: u8
  sg_stripesize :: u32
  sg_stripemode :: u8

definition storage_stripes :: "storage \<Rightarrow> chk_t \<Rightarrow> chk_t \<Rightarrow> strp_t \<times> strp_t" where
  "storage_stripes s start len =
     (if sg_stripemode s = SHFS_SM_COMBINED then
        (start * ucast (sg_nb_members s), (start + len) * ucast (sg_nb_members s))
      else let start_s = start + (ucast (sg_nb_members s) - 1) in (start_s, start_s + len))"

definition stripes_between :: "strp_t \<times> strp_t \<Rightarrow> strp_t list" where
  "stripes_between se = map of_nat [unat (fst se)..<unat (snd se)]"

definition stripe_member :: "storage \<Rightarrow> strp_t \<Rightarrow> nat" where
  "stripe_member s strp = unat (strp mod ucast (sg_nb_members s))"

definition stripe_startb :: "storage \<Rightarrow> strp_t \<Rightarrow> u64" where
  "stripe_startb s strp = (strp div ucast (sg_nb_members s)) * ucast (sg_stripesize s)"

text \<open>
  The loop of \<open>sync_io_chunk\<close>; \<open>off\<close> is \<open>wptr - buffer\<close>. The result is the return value (\<open>True\<close>
  for 0, \<open>False\<close> for -1) or a fault; a short read leaves the rest of the buffer as it is.
\<close>

fun io_stripes ::
    "storage \<Rightarrow> bool \<Rightarrow> strp_t list \<Rightarrow> nat \<Rightarrow> u8 list \<Rightarrow> os \<Rightarrow> (fault + bool) \<times> u8 list \<times> os" where
  "io_stripes s owrite [] off buf st = (Inr True, buf, st)"
| "io_stripes s owrite (strp # strps) off buf st =
     (if sg_nb_members s = 0 then (Inl Div_by_zero, buf, st)
      else if stripe_member s strp \<ge> length (sg_member s) then (Inl Out_of_bounds, buf, st)
      else let n = unat (sg_stripesize s); fd = d_fd (tm_d (sg_member s ! stripe_member s strp))
      in if off + n > length buf then (Inl Out_of_bounds, buf, st)
      else (case os_lseek fd (stripe_startb s strp) st of
              (False, st) \<Rightarrow> (Inr False, buf, st)
            | (True, st) \<Rightarrow>
                if owrite then
                  (case os_write fd (take n (drop off buf)) st of
                     (None, st) \<Rightarrow> (Inr False, buf, st)
                   | (Some _, st) \<Rightarrow> io_stripes s owrite strps (off + n) buf st)
                else
                  (case os_read fd n st of
                     (None, st) \<Rightarrow> (Inr False, buf, st)
                   | (Some bs, st) \<Rightarrow> io_stripes s owrite strps (off + n) (write_at off 0 bs buf) st)))"

definition sync_io_chunk ::
    "storage \<Rightarrow> chk_t \<Rightarrow> chk_t \<Rightarrow> bool \<Rightarrow> u8 list \<Rightarrow> os \<Rightarrow> (fault + bool) \<times> u8 list \<times> os" where
  "sync_io_chunk s start len owrite buffer st =
     (if start = 0 then (Inl Assert_failed, buffer, st)
      else io_stripes s owrite (stripes_between (storage_stripes s start len)) 0 buffer st)"

abbreviation sync_read_chunk where "sync_read_chunk s start len \<equiv> sync_io_chunk s start len False"
abbreviation sync_write_chunk where "sync_write_chunk s start len \<equiv> sync_io_chunk s start len True"

text \<open>The loop of \<open>sync_erase_chunk\<close>; a disk that supports discard is an error.\<close>

fun erase_stripes :: "storage \<Rightarrow> strp_t list \<Rightarrow> os \<Rightarrow> (fault + bool) \<times> os" where
  "erase_stripes s [] st = (Inr True, st)"
| "erase_stripes s (strp # strps) st =
     (if sg_nb_members s = 0 then (Inl Div_by_zero, st)
      else if stripe_member s strp \<ge> length (sg_member s) then (Inl Out_of_bounds, st)
      else let d = tm_d (sg_member s ! stripe_member s strp)
      in if d_discard d then (Inr False, st)
      else (case os_lseek (d_fd d) (stripe_startb s strp) st of
              (False, st) \<Rightarrow> (Inr False, st)
            | (True, st) \<Rightarrow>
                (case os_write (d_fd d) (replicate (unat (sg_stripesize s)) 0) st of
                   (None, st) \<Rightarrow> (Inr False, st)
                 | (Some _, st) \<Rightarrow> erase_stripes s strps st)))"

definition sync_erase_chunk :: "storage \<Rightarrow> chk_t \<Rightarrow> chk_t \<Rightarrow> os \<Rightarrow> (fault + bool) \<times> os" where
  "sync_erase_chunk s start len st =
     (let (f, st) = os_call st
      in if f then (Inr False, st)
         else if start = 0 then (Inr False, st)
         else erase_stripes s (stripes_between (storage_stripes s start len)) st)"

section \<open>Sizes and hosts\<close>

definition metadata_size :: "shfs_hdr_common \<Rightarrow> shfs_hdr_config \<Rightarrow> fault + chk_t" where
  "metadata_size h c =
     (let chunksize = SHFS_CHUNKSIZE h
      in if SHFS_HENTRIES_PER_CHUNK chunksize = 0 then Inl Div_by_zero
         else let n = SHFS_HTABLE_SIZE_CHUNKS c chunksize
         in Inr (1 + 1 + n + (if cf_htable_bak_ref c \<noteq> 0 then n else 0)))"

definition avail_space :: "shfs_hdr_common \<Rightarrow> shfs_hdr_config \<Rightarrow> fault + chk_t" where
  "avail_space h c = map_sum id (\<lambda>m. hc_vol_size h - m) (metadata_size h c)"

section \<open>Programs that exit\<close>

text \<open>
  A tool ends with \<open>exit(n)\<close>, by \<open>die()\<close> and \<open>dief()\<close> with \<open>EXIT_FAILURE\<close>, or it crashes.
\<close>

datatype stop = Exit int | Crash fault

abbreviation EXIT_SUCCESS :: int where "EXIT_SUCCESS \<equiv> 0"
abbreviation EXIT_FAILURE :: int where "EXIT_FAILURE \<equiv> 1"

definition die :: "os \<Rightarrow> (stop + 'a) \<times> os" where
  "die st = (Inl (Exit EXIT_FAILURE), st)"

definition tbind :: "(stop + 'a) \<times> 'st \<Rightarrow> ('a \<Rightarrow> 'st \<Rightarrow> (stop + 'b) \<times> 'st) \<Rightarrow> (stop + 'b) \<times> 'st" where
  "tbind m k = (case m of (Inl e, st) \<Rightarrow> (Inl e, st) | (Inr x, st) \<Rightarrow> k x st)"

lemma tbind_simps [simp]: "tbind (Inl e, st) k = (Inl e, st)" "tbind (Inr x, st) k = k x st"
  by (simp_all add: tbind_def)

text \<open>\<open>if (ret < 0) die();\<close> after a call that returns 0 or -1.\<close>

definition or_die :: "(fault + bool) \<times> os \<Rightarrow> (stop + unit) \<times> os" where
  "or_die m = (case m of (Inl f, st) \<Rightarrow> (Inl (Crash f), st) | (Inr ok, st) \<Rightarrow> if ok then (Inr (), st) else die st)"

text \<open>
  The number \<open>sscanf(optarg, "%d", &n)\<close> stores, if any: white space, a sign and digits. A number
  out of range is read as the C library does it, as a \<open>long\<close> that stops at its bounds and is cut
  to an \<open>int\<close>.
\<close>

definition is_digit :: "char \<Rightarrow> bool" where
  "is_digit c \<longleftrightarrow> of_char c \<ge> (48 :: nat) \<and> of_char c \<le> (57 :: nat)"

definition digits_val :: "string \<Rightarrow> int" where
  "digits_val ds = foldl (\<lambda>n c. 10 * n + (of_char c - 48)) 0 ds"

definition scan_int :: "string \<Rightarrow> (int \<times> string) option" where
  "scan_int s =
     (let s = dropWhile (\<lambda>c. c \<in> {CHR 0x20, CHR 0x09, CHR 0x0A, CHR 0x0B, CHR 0x0C, CHR 0x0D}) s;
          neg = (s \<noteq> [] \<and> hd s = CHR ''-'');
          s = (if s \<noteq> [] \<and> hd s \<in> {CHR ''-'', CHR ''+''} then tl s else s);
          ds = takeWhile is_digit s;
          n = (if neg then - digits_val ds else digits_val ds)
      in if ds = [] then None
         else Some (sint (of_int (max (- (2 ^ 63)) (min (2 ^ 63 - 1) n)) :: 32 word), drop (length ds) s))"

definition scanf_int :: "string \<Rightarrow> int option" where
  "scanf_int s = map_option fst (scan_int s)"

text \<open>\<open>parse_args_setval_int\<close>; \<open>None\<close> is \<open>-EINVAL\<close>.\<close>

definition parse_args_setval_int :: "string \<Rightarrow> int option" where
  "parse_args_setval_int buf = scanf_int buf"

end
