(* ===== verification/ToolsProps.thy ===== *)
theory ToolsProps
  imports Prelude ShfsDefs Blkdev Aio Tools
begin

text \<open>
  Chunk I/O of the tools: an array of chunks is what the stripes on the member disks
  implement, and a chunk of the tools lies where the kernel looks for it.
\<close>

section \<open>Stripes of a disk\<close>

definition no_failures :: "os \<Rightarrow> bool" where
  "no_failures st \<longleftrightarrow> (\<forall>n. \<not> os_fails st n \<and> os_short st n = None)"

lemma os_part_whole: "os_short st (os_calls st) = None \<Longrightarrow> os_part st bs = bs"
  by (simp add: os_part_def)

lemma no_failuresD: "no_failures st \<Longrightarrow> \<not> os_fails st n" "no_failures st \<Longrightarrow> os_short st n = None"
  by (simp_all add: no_failures_def)

text \<open>The host's calls do not change what the later ones will do.\<close>

lemma os_short_frame:
  "os_lseek fd off st = (ok, st') \<Longrightarrow> os_short st' = os_short st" "os_read fd n st = (rd, st') \<Longrightarrow> os_short st' = os_short st"
  "os_write fd bs st = (wr, st') \<Longrightarrow> os_short st' = os_short st" "os_call st = (f, st') \<Longrightarrow> os_short st' = os_short st"
  by (auto simp: os_lseek_def os_read_def os_write_def os_call_def os_upd_def Let_def split: if_splits)

definition storage_ok :: "storage \<Rightarrow> bool" where
  "storage_ok s \<longleftrightarrow> sg_nb_members s \<noteq> 0 \<and> length (sg_member s) = unat (sg_nb_members s) \<and>
     sg_stripesize s \<noteq> 0 \<and> distinct (map (\<lambda>m. d_fd (tm_d m)) (sg_member s)) \<and>
     (\<forall>m \<in> set (sg_member s). \<not> d_discard (tm_d m))"

definition stripe_fd :: "storage \<Rightarrow> strp_t \<Rightarrow> nat" where
  "stripe_fd s p = d_fd (tm_d (sg_member s ! stripe_member s p))"

definition stripe_row :: "storage \<Rightarrow> strp_t \<Rightarrow> nat" where
  "stripe_row s p = unat (p div ucast (sg_nb_members s))"

definition stripe_view :: "storage \<Rightarrow> os \<Rightarrow> strp_t \<Rightarrow> u8 list" where
  "stripe_view s st p =
     take (unat (sg_stripesize s))
       (drop (stripe_row s p * unat (sg_stripesize s)) (of_bytes (os_files st (stripe_fd s p))))"

definition stripe_fits :: "storage \<Rightarrow> os \<Rightarrow> strp_t \<Rightarrow> bool" where
  "stripe_fits s st p \<longleftrightarrow>
     (stripe_row s p + 1) * unat (sg_stripesize s) \<le> length (of_bytes (os_files st (stripe_fd s p))) \<and>
     length (of_bytes (os_files st (stripe_fd s p))) < 2 ^ 63"

lemma nb_u64: "unat (ucast (sg_nb_members s) :: u64) = unat (sg_nb_members s)"
  by (rule unat_ucast_widths)

lemma stripe_memberE:
  assumes "storage_ok s"
  shows "stripe_member s p < length (sg_member s)"
    "unat p = stripe_row s p * unat (sg_nb_members s) + stripe_member s p"
proof -
  have "0 < unat (sg_nb_members s)" using assms by (simp add: storage_ok_def unat_gt_0)
  then show "stripe_member s p < length (sg_member s)"
    using assms by (simp add: stripe_member_def storage_ok_def unat_mod nb_u64)
  show "unat p = stripe_row s p * unat (sg_nb_members s) + stripe_member s p"
    by (simp add: stripe_row_def stripe_member_def unat_div unat_mod nb_u64)
qed

text \<open>Different stripes are on different disks or in different rows.\<close>

lemma stripe_disjoint:
  assumes ok: "storage_ok s" and "p \<noteq> q"
  shows "stripe_fd s p \<noteq> stripe_fd s q \<or> stripe_row s p \<noteq> stripe_row s q"
proof (rule ccontr)
  assume "\<not> ?thesis"
  then have fd: "stripe_fd s p = stripe_fd s q" and row: "stripe_row s p = stripe_row s q" by auto
  have "distinct (map (\<lambda>m. d_fd (tm_d m)) (sg_member s))" using ok by (simp add: storage_ok_def)
  then have "stripe_member s p = stripe_member s q"
    using fd stripe_memberE(1) [OF ok] by (simp add: stripe_fd_def distinct_conv_nth) (metis length_map nth_map)
  then have "unat p = unat q" using row stripe_memberE(2) [OF ok] by metis
  then show False using assms(2) by (simp add: word_unat_eq_iff)
qed

lemma startb_unat:
  assumes "stripe_fits s st p" and "sg_stripesize s \<noteq> 0"
  shows "unat (stripe_startb s p) = stripe_row s p * unat (sg_stripesize s)" "\<not> sint (stripe_startb s p) < 0"
proof -
  have n: "unat (ucast (sg_stripesize s) :: u64) = unat (sg_stripesize s)" by (rule unat_ucast_widths)
  have "stripe_row s p * unat (sg_stripesize s) < 2 ^ 63"
    using assms(1) by (simp add: stripe_fits_def)
  then show u: "unat (stripe_startb s p) = stripe_row s p * unat (sg_stripesize s)"
    by (simp add: stripe_startb_def stripe_row_def unat_mult_less n)
  then show "\<not> sint (stripe_startb s p) < 0"
    using \<open>stripe_row s p * unat (sg_stripesize s) < 2 ^ 63\<close> by (simp add: sint_neg_iff)
qed

text \<open>Bytes of one file in rows of \<open>n\<close>.\<close>

lemma rows_write:
  assumes "length d = n" and "(i + 1) * n \<le> length xs"
  shows "length (write_at (i * n) z d xs) = length xs"
    "take n (drop (i * n) (write_at (i * n) z d xs)) = d"
    "j \<noteq> i \<Longrightarrow> take n (drop (j * n) (write_at (i * n) z d xs)) = take n (drop (j * n) xs)"
proof -
  have le: "i * n + n \<le> length xs" using assms(2) by (simp add: algebra_simps)
  then show "length (write_at (i * n) z d xs) = length xs" using assms(1) by (simp add: write_at_def)
  show "take n (drop (i * n) (write_at (i * n) z d xs)) = d" using le assms(1) by (simp add: write_at_def)
  show "take n (drop (j * n) (write_at (i * n) z d xs)) = take n (drop (j * n) xs)" if "j \<noteq> i"
  proof (cases "j < i")
    case True
    then have "j * n + n \<le> i * n" by (metis Suc_leI add.commute mult_Suc mult_le_mono1)
    then have "take (j * n + n) (write_at (i * n) z d xs) = take (j * n + n) xs"
      using le assms(1) by (simp add: write_at_def)
    moreover have "take n (drop (j * n) ys) = drop (j * n) (take (j * n + n) ys)" for ys :: "'a list"
      by (simp add: drop_take)
    ultimately show ?thesis by simp
  next
    case False
    then have "i * n + n \<le> j * n" using that by (metis Suc_leI add.commute linorder_neqE_nat mult_Suc mult_le_mono1)
    then have "drop (j * n) (write_at (i * n) z d xs) = drop (j * n) xs"
      using le assms(1) False by (simp add: write_at_def)
    then show ?thesis by simp
  qed
qed


section \<open>The loops over the stripes\<close>

text \<open>What a step of a loop leaves alone.\<close>

definition same_lengths :: "os \<Rightarrow> os \<Rightarrow> bool" where
  "same_lengths st' st \<longleftrightarrow> (\<forall>fd. length (of_bytes (os_files st' fd)) = length (of_bytes (os_files st fd))) \<and>
     os_fails st' = os_fails st \<and> os_short st' = os_short st \<and> os_cancel st' = os_cancel st"

lemma same_lengthsD:
  assumes "same_lengths st' st"
  shows "stripe_fits s st' p = stripe_fits s st p" "no_failures st' = no_failures st"
  using assms by (simp_all add: same_lengths_def stripe_fits_def no_failures_def)

lemma same_lengths_trans: "same_lengths c b \<Longrightarrow> same_lengths b a \<Longrightarrow> same_lengths c a"
  by (simp add: same_lengths_def)

lemma stripe_write:
  assumes ok: "storage_ok s" and nf: "no_failures st" and fit: "stripe_fits s st p"
    and d: "length d = unat (sg_stripesize s)"
  obtains st1 st2 where "os_lseek (stripe_fd s p) (stripe_startb s p) st = (True, st1)"
    "os_write (stripe_fd s p) d st1 = (Some (length d), st2)" "same_lengths st2 st"
    "stripe_view s st2 p = d" "\<And>q. q \<noteq> p \<Longrightarrow> stripe_view s st2 q = stripe_view s st q"
proof -
  let ?n = "unat (sg_stripesize s)" and ?fd = "stripe_fd s p" and ?r = "stripe_row s p"
  have n: "sg_stripesize s \<noteq> 0" "0 < ?n" using ok by (simp_all add: storage_ok_def unat_gt_0)
  note sb = startb_unat [OF fit n(1)]
  let ?b = "of_bytes (os_files st ?fd)"
  have len: "(?r + 1) * ?n \<le> length ?b" using fit by (simp add: stripe_fits_def)
  let ?st1 = "os_upd ?fd (\<lambda>k. k\<lparr>of_pos := ?r * ?n\<rparr>) (st\<lparr>os_calls := Suc (os_calls st)\<rparr>)"
  have 1: "os_lseek ?fd (stripe_startb s p) st = (True, ?st1)"
    using nf sb by (simp add: os_lseek_def os_call_def no_failures_def)
  let ?st2 = "os_upd ?fd (\<lambda>k. k\<lparr>of_bytes := write_at (?r * ?n) 0 d ?b, of_pos := ?r * ?n + ?n\<rparr>) (?st1\<lparr>os_calls := Suc (os_calls ?st1)\<rparr>)"
  have t: "take (length ?b - ?r * ?n) d = d" using len d by simp
  have 2: "os_write ?fd d ?st1 = (Some (length d), ?st2)"
    using nf d n(2) t by (auto simp: os_write_def os_call_def no_failures_def os_part_whole os_upd_def Let_def)
  have f2: "os_files ?st2 fd = (if fd = ?fd then (os_files st fd)\<lparr>of_bytes := write_at (?r * ?n) 0 d ?b, of_pos := ?r * ?n + ?n\<rparr>
      else os_files st fd)" for fd by (simp add: os_upd_def)
  note W = rows_write [OF d len]
  have 3: "same_lengths ?st2 st" using W(1) [of 0] by (simp add: same_lengths_def f2) (simp add: os_upd_def)
  have 4: "stripe_view s ?st2 p = d" using W(2) [of 0] by (simp add: stripe_view_def f2)
  have 5: "stripe_view s ?st2 q = stripe_view s st q" if "q \<noteq> p" for q
    using stripe_disjoint [OF ok that] W(3) [of "stripe_row s q" 0] by (auto simp: stripe_view_def f2)
  show thesis by (rule that [OF 1 2 3 4 5])
qed

lemma io_stripes_write:
  assumes ok: "storage_ok s"
  shows "no_failures st \<Longrightarrow> \<forall>p \<in> set ps. stripe_fits s st p \<Longrightarrow> distinct ps \<Longrightarrow>
    off + length ps * unat (sg_stripesize s) \<le> length buf \<Longrightarrow>
    \<exists>st'. io_stripes s True ps off buf st = (Inr True, buf, st') \<and> same_lengths st' st \<and>
      concat (map (stripe_view s st') ps) = take (length ps * unat (sg_stripesize s)) (drop off buf) \<and>
      (\<forall>q. q \<notin> set ps \<longrightarrow> stripe_view s st' q = stripe_view s st q)"
proof (induction ps arbitrary: off st)
  case Nil
  then show ?case by (simp add: same_lengths_def)
next
  case (Cons p ps)
  let ?n = "unat (sg_stripesize s)"
  let ?d = "take ?n (drop off buf)"
  have d: "length ?d = ?n" using Cons.prems(4) by simp
  obtain st1 st2 where S: "os_lseek (stripe_fd s p) (stripe_startb s p) st = (True, st1)"
    "os_write (stripe_fd s p) ?d st1 = (Some (length ?d), st2)" "same_lengths st2 st"
    "stripe_view s st2 p = ?d" "\<And>q. q \<noteq> p \<Longrightarrow> stripe_view s st2 q = stripe_view s st q"
    using stripe_write [OF ok Cons.prems(1) _ d, of p] Cons.prems(2) by auto
  have eq: "io_stripes s True (p # ps) off buf st = io_stripes s True ps (off + ?n) buf st2"
    using ok stripe_memberE(1) [OF ok, of p] Cons.prems(4) S(1,2)
    by (simp add: storage_ok_def Let_def stripe_fd_def)
  obtain st' where st': "io_stripes s True ps (off + ?n) buf st2 = (Inr True, buf, st')" "same_lengths st' st2"
    "concat (map (stripe_view s st') ps) = take (length ps * ?n) (drop (off + ?n) buf)"
    "\<And>q. q \<notin> set ps \<Longrightarrow> stripe_view s st' q = stripe_view s st2 q"
    using Cons.IH [of st2 "off + ?n"] Cons.prems same_lengthsD [OF S(3)] by (auto simp: add.assoc)
  have "stripe_view s st' p = ?d" using st'(4) S(4) Cons.prems(3) by simp
  moreover have "take (length (p # ps) * ?n) (drop off buf) = ?d @ take (length ps * ?n) (drop (off + ?n) buf)"
    by (simp add: take_add add.commute)
  ultimately show ?case using eq st' same_lengths_trans [OF st'(2) S(3)] S(5) by simp
qed

lemma stripe_read:
  assumes ok: "storage_ok s" and nf: "no_failures st" and fit: "stripe_fits s st p"
  obtains st1 st2 where "os_lseek (stripe_fd s p) (stripe_startb s p) st = (True, st1)"
    "os_read (stripe_fd s p) (unat (sg_stripesize s)) st1 = (Some (stripe_view s st p), st2)" "same_lengths st2 st"
    "\<And>q. stripe_view s st2 q = stripe_view s st q" "length (stripe_view s st p) = unat (sg_stripesize s)"
proof -
  let ?n = "unat (sg_stripesize s)" and ?fd = "stripe_fd s p" and ?r = "stripe_row s p"
  have n: "sg_stripesize s \<noteq> 0" using ok by (simp add: storage_ok_def)
  note sb = startb_unat [OF fit n]
  let ?st1 = "os_upd ?fd (\<lambda>k. k\<lparr>of_pos := ?r * ?n\<rparr>) (st\<lparr>os_calls := Suc (os_calls st)\<rparr>)"
  have 1: "os_lseek ?fd (stripe_startb s p) st = (True, ?st1)"
    using nf sb by (simp add: os_lseek_def os_call_def no_failures_def)
  let ?v = "stripe_view s st p"
  let ?st2 = "os_upd ?fd (\<lambda>k. k\<lparr>of_pos := ?r * ?n + length ?v\<rparr>) (?st1\<lparr>os_calls := Suc (os_calls ?st1)\<rparr>)"
  have 2: "os_read ?fd ?n ?st1 = (Some ?v, ?st2)"
    using nf by (simp add: os_read_def os_call_def no_failures_def os_part_whole os_upd_def Let_def stripe_view_def)
  have f2: "of_bytes (os_files ?st2 fd) = of_bytes (os_files st fd)" for fd by (simp add: os_upd_def)
  have 3: "same_lengths ?st2 st" by (simp add: same_lengths_def f2) (simp add: os_upd_def)
  have 4: "stripe_view s ?st2 q = stripe_view s st q" for q unfolding stripe_view_def [of s _ q] f2 ..
  have "?n + ?r * ?n \<le> length (of_bytes (os_files st ?fd))" using fit by (simp add: stripe_fits_def)
  then have "?n \<le> length (of_bytes (os_files st ?fd)) - ?r * ?n" by linarith
  then have 5: "length ?v = ?n" by (simp add: stripe_view_def)
  show thesis by (rule that [OF 1 2 3 4 5])
qed

lemma io_stripes_read:
  assumes ok: "storage_ok s"
  shows "no_failures st \<Longrightarrow> \<forall>p \<in> set ps. stripe_fits s st p \<Longrightarrow>
    off + length ps * unat (sg_stripesize s) \<le> length buf \<Longrightarrow>
    \<exists>st'. io_stripes s False ps off buf st =
        (Inr True, take off buf @ concat (map (stripe_view s st) ps) @ drop (off + length ps * unat (sg_stripesize s)) buf, st') \<and>
      same_lengths st' st \<and> (\<forall>q. stripe_view s st' q = stripe_view s st q)"
proof (induction ps arbitrary: off buf st)
  case Nil
  then show ?case by (simp add: same_lengths_def)
next
  case (Cons p ps)
  let ?n = "unat (sg_stripesize s)" and ?v = "stripe_view s st p"
  obtain st1 st2 where S: "os_lseek (stripe_fd s p) (stripe_startb s p) st = (True, st1)"
    "os_read (stripe_fd s p) ?n st1 = (Some ?v, st2)" "same_lengths st2 st"
    "\<And>q. stripe_view s st2 q = stripe_view s st q" "length ?v = ?n"
    using stripe_read [OF ok Cons.prems(1), of p] Cons.prems(2) by auto
  let ?buf = "write_at off 0 ?v buf"
  have eq: "io_stripes s False (p # ps) off buf st = io_stripes s False ps (off + ?n) ?buf st2"
    using ok stripe_memberE(1) [OF ok, of p] Cons.prems(3) S(1,2)
    by (simp add: storage_ok_def Let_def stripe_fd_def)
  have b: "length ?buf = length buf" "take (off + ?n) ?buf = take off buf @ ?v"
    "drop (off + ?n + length ps * ?n) ?buf = drop (off + (?n + length ps * ?n)) buf"
    using Cons.prems(3) S(5) by (simp_all add: write_at_def ac_simps)
  obtain st' where "io_stripes s False ps (off + ?n) ?buf st2 =
      (Inr True, take (off + ?n) ?buf @ concat (map (stripe_view s st2) ps) @ drop (off + ?n + length ps * ?n) ?buf, st')"
    "same_lengths st' st2" "\<And>q. stripe_view s st' q = stripe_view s st2 q"
    using Cons.IH [of st2 "off + ?n" ?buf] Cons.prems same_lengthsD [OF S(3)] b(1) by (auto simp: add.assoc)
  then show ?case using eq b(2,3) S(4) same_lengths_trans [OF _ S(3)] by (simp cong: map_cong)
qed

text \<open>Erasing is writing zeros.\<close>

lemma erase_stripes_write:
  assumes "storage_ok s" and "off + length ps * unat (sg_stripesize s) \<le> k"
  shows "erase_stripes s ps st =
    (let (r, _, st') = io_stripes s True ps off (replicate k 0) st in (r, st'))"
  using assms(2)
proof (induction ps arbitrary: off st)
  case Nil
  then show ?case by simp
next
  case (Cons p ps)
  let ?n = "unat (sg_stripesize s)"
  have m: "sg_nb_members s \<noteq> 0" "stripe_member s p < length (sg_member s)"
    "\<not> d_discard (tm_d (sg_member s ! stripe_member s p))"
    using assms(1) stripe_memberE(1) [OF assms(1), of p] by (simp_all add: storage_ok_def)
  have t: "take ?n (drop off (replicate k (0 :: u8))) = replicate ?n 0" using Cons.prems by simp
  have IH: "erase_stripes s ps st' = (let (r, _, st'') = io_stripes s True ps (off + ?n) (replicate k 0) st' in (r, st''))" for st'
    using Cons.IH [of "off + ?n" st'] Cons.prems by (simp add: add.assoc)
  show ?case using m t Cons.prems by (simp add: Let_def IH split: prod.split bool.split option.split)
qed

section \<open>Chunks\<close>

definition chunk_strps :: "storage \<Rightarrow> nat \<Rightarrow> strp_t list" where
  "chunk_strps s c =
     map of_nat (let n = unat (sg_nb_members s)
                 in if sg_stripemode s = SHFS_SM_COMBINED then [c * n..<c * n + n] else [c + n - 1])"

definition chunk_view :: "storage \<Rightarrow> os \<Rightarrow> nat \<Rightarrow> u8 list" where
  "chunk_view s st c = concat (map (stripe_view s st) (chunk_strps s c))"

definition chunk_nb_strps :: "storage \<Rightarrow> nat" where
  "chunk_nb_strps s = (if sg_stripemode s = SHFS_SM_COMBINED then unat (sg_nb_members s) else 1)"

definition chunk_bytes :: "storage \<Rightarrow> nat" where
  "chunk_bytes s = chunk_nb_strps s * unat (sg_stripesize s)"

text \<open>\<open>V\<close> chunks fit on the members, and no stripe number overflows.\<close>

definition vol_fits :: "storage \<Rightarrow> os \<Rightarrow> nat \<Rightarrow> bool" where
  "vol_fits s st V \<longleftrightarrow> storage_ok s \<and> no_failures st \<and> (V + 1) * unat (sg_nb_members s) < 2 ^ 64 \<and>
     (\<forall>c. 0 < c \<and> c < V \<longrightarrow> (\<forall>p \<in> set (chunk_strps s c). stripe_fits s st p))"

lemma same_lengths_vol_fits: "same_lengths st' st \<Longrightarrow> vol_fits s st' V = vol_fits s st V"
  by (simp add: vol_fits_def same_lengthsD)

lemma length_chunk_strps: "length (chunk_strps s c) = chunk_nb_strps s"
  by (simp add: chunk_strps_def chunk_nb_strps_def Let_def)

lemma upt_rows: "[c * n..<(c + l) * n] = concat (map (\<lambda>i. [(c + i) * n..<(c + i) * n + n]) [0..<l])"
proof (induction l)
  case (Suc l)
  have "(c + Suc l) * n = (c + l) * n + n" by (simp add: algebra_simps)
  moreover have "[c * n..<(c + l) * n + n] = [c * n..<(c + l) * n] @ [(c + l) * n..<(c + l) * n + n]"
    by (rule upt_add_eq_append) simp
  ultimately show ?case using Suc by (simp only: upt_Suc_append [OF le0] map_append concat_append list.map concat.simps append_Nil2)
qed simp

lemma upt_single: "[a..<a + l] = concat (map (\<lambda>i. [a + i]) [0..<l])"
  by (induction l) simp_all

lemma stripes_of_chunks:
  assumes "(unat start + unat len + 1) * unat (sg_nb_members s) < 2 ^ 64" and "sg_nb_members s \<noteq> 0"
  shows "stripes_between (storage_stripes s start len) =
    concat (map (\<lambda>i. chunk_strps s (unat start + i)) [0..<unat len])"
proof -
  let ?n = "unat (sg_nb_members s)" and ?c = "unat start" and ?l = "unat len"
  have n0: "0 < ?n" using assms(2) by (simp add: unat_gt_0)
  have e: "(?c + ?l + 1) * ?n = (?c + ?l) * ?n + ?n" by (simp add: algebra_simps)
  have b: "(?c + ?l) * ?n < 2 ^ 64" "?c * ?n < 2 ^ 64" "?c + ?l + ?n < 2 ^ 64 + 1" "?c + ?l < 2 ^ 64"
  proof -
    show 1: "(?c + ?l) * ?n < 2 ^ 64" using assms(1) e by linarith
    have "?c * ?n \<le> (?c + ?l) * ?n" by simp
    then show "?c * ?n < 2 ^ 64" using 1 by (rule order_le_less_trans)
    have "?c + ?l \<le> (?c + ?l) * ?n" by (rule le_mult_pos [OF n0])
    then show "?c + ?l + ?n < 2 ^ 64 + 1" "?c + ?l < 2 ^ 64" using assms(1) e 1 by linarith+
  qed
  have a: "unat (start + len) = ?c + ?l" by (rule unat_add_less) (use b(4) in simp)
  show ?thesis
  proof (cases "sg_stripemode s = SHFS_SM_COMBINED")
    case True
    have se: "storage_stripes s start len = (start * ucast (sg_nb_members s), (start + len) * ucast (sg_nb_members s))"
      using True by (simp add: storage_stripes_def)
    have "unat (start * ucast (sg_nb_members s)) = ?c * ?n"
      using b(2) by (subst unat_mult_less) (simp_all add: nb_u64)
    moreover have "unat ((start + len) * ucast (sg_nb_members s)) = (?c + ?l) * ?n"
      using b(1) a by (subst unat_mult_less) (simp_all add: nb_u64)
    ultimately have "stripes_between (storage_stripes s start len) = map of_nat [?c * ?n..<(?c + ?l) * ?n]"
      by (simp only: se stripes_between_def fst_conv snd_conv)
    then show ?thesis using True by (simp add: upt_rows chunk_strps_def map_concat Let_def comp_def)
  next
    case False
    have "(ucast (sg_nb_members s) :: u64) \<noteq> 0" using n0 nb_u64 [of s] by (metis less_irrefl unat_0)
    then have n1: "unat ((ucast (sg_nb_members s) :: u64) - 1) = ?n - 1" using nb_u64 [of s] by (simp add: unat_sub_one)
    have s1: "unat (start + (ucast (sg_nb_members s) - 1)) = ?c + ?n - 1"
      using n1 n0 b(3) by (subst unat_add_less) simp_all
    have s2: "unat (start + (ucast (sg_nb_members s) - 1) + len) = ?c + ?n - 1 + ?l"
      using s1 n0 b(3) by (subst unat_add_less) simp_all
    have "stripes_between (storage_stripes s start len) = map of_nat [?c + ?n - 1..<?c + ?n - 1 + ?l]"
      using s1 s2 by (simp only: storage_stripes_def stripes_between_def if_not_P [OF False] Let_def fst_conv snd_conv)
    also have "[?c + ?n - 1..<?c + ?n - 1 + ?l] = concat (map (\<lambda>i. [?c + i + ?n - 1]) [0..<?l])"
      using n0 by (subst upt_single) (simp add: add.commute add.left_commute)
    finally show ?thesis using False by (simp add: chunk_strps_def map_concat Let_def comp_def del: of_nat_add)
  qed
qed

lemma chunk_strps_disjoint:
  assumes "c \<noteq> d" and "(c + 1) * unat (sg_nb_members s) < 2 ^ 64" and "(d + 1) * unat (sg_nb_members s) < 2 ^ 64"
    and "sg_nb_members s \<noteq> 0"
  shows "set (chunk_strps s c) \<inter> set (chunk_strps s d) = {}" and "distinct (chunk_strps s c)"
proof -
  let ?n = "unat (sg_nb_members s)"
  have n0: "0 < ?n" using assms(4) by (simp add: unat_gt_0)
  define ks where "ks = (\<lambda>c. if sg_stripemode s = SHFS_SM_COMBINED then [c * ?n..<c * ?n + ?n] else [c + ?n - 1])"
  have m: "chunk_strps s c = map of_nat (ks c)" for c by (simp add: chunk_strps_def ks_def Let_def)
  have lt: "k < 2 ^ 64" if "k \<in> set (ks c)" "(c + 1) * ?n < 2 ^ 64" for k c
  proof -
    have "c \<le> c * ?n" by (rule le_mult_pos [OF n0])
    moreover have "(c + 1) * ?n = c * ?n + ?n" by simp
    ultimately have "c * ?n + ?n < 2 ^ 64" "c + ?n - 1 < 2 ^ 64" using that(2) by linarith+
    then show ?thesis using that(1) unfolding ks_def
      by (cases "sg_stripemode s = SHFS_SM_COMBINED") (simp_all only: if_True if_False set_upt atLeastLessThan_iff list.set empty_iff insert_iff simp_thms, linarith)
  qed
  have row: "k div ?n = c" if "k \<in> set (ks c)" "sg_stripemode s = SHFS_SM_COMBINED" for k c
  proof -
    have "c * ?n \<le> k" "k < c * ?n + ?n" using that by (simp_all add: ks_def)
    then show ?thesis by (intro div_nat_eqI) (simp_all add: algebra_simps)
  qed
  have dj: "set (ks c) \<inter> set (ks d) = {}"
  proof (cases "sg_stripemode s = SHFS_SM_COMBINED")
    case True
    then show ?thesis using row assms(1) by blast
  next
    case False
    then show ?thesis using assms(1) n0 by (simp add: ks_def)
  qed
  have inj: "k = l" if "(of_nat k :: u64) = of_nat l" "k < 2 ^ 64" "l < 2 ^ 64" for k l
  proof -
    have u: "unat (of_nat i :: u64) = i" if "i < 2 ^ 64" for i using that by (intro unat_of_nat_less) simp
    show ?thesis using u [OF that(2)] u [OF that(3)] that(1) by metis
  qed
  show "set (chunk_strps s c) \<inter> set (chunk_strps s d) = {}"
    using dj inj lt [OF _ assms(2)] lt [OF _ assms(3)] by (auto simp: m) blast
  have "inj_on (of_nat :: nat \<Rightarrow> u64) (set (ks c))" using inj lt [OF _ assms(2)] by (meson inj_onI)
  moreover have "distinct (ks c)" by (simp add: ks_def)
  ultimately show "distinct (chunk_strps s c)" by (simp add: m distinct_map)
qed

section \<open>A volume is an array of chunks\<close>

text \<open>The stripes of a range of chunks of the volume.\<close>

lemma range_strps:
  assumes vf: "vol_fits s st V" and "start \<noteq> 0" and le: "unat start + unat len \<le> V"
  defines "ps \<equiv> stripes_between (storage_stripes s start len)"
  shows "ps = concat (map (chunk_strps s) [unat start..<unat start + unat len])"
    and "\<forall>p \<in> set ps. stripe_fits s st p" and "distinct ps"
    and "length ps * unat (sg_stripesize s) = unat len * chunk_bytes s"
    and "\<And>c. c < V \<Longrightarrow> \<not> (unat start \<le> c \<and> c < unat start + unat len) \<Longrightarrow> set (chunk_strps s c) \<inter> set ps = {}"
proof -
  let ?c = "unat start" and ?l = "unat len" and ?n = "unat (sg_nb_members s)"
  have ok: "storage_ok s" and nb: "sg_nb_members s \<noteq> 0" and V: "(V + 1) * ?n < 2 ^ 64"
    using vf by (simp_all add: vol_fits_def storage_ok_def)
  have b: "(c + 1) * ?n < 2 ^ 64" if "c \<le> V" for c
    using mult_le_mono1 [of "c + 1" "V + 1" ?n] that V by linarith
  have m: "map (\<lambda>i. chunk_strps s (?c + i)) [0..<?l] = map (chunk_strps s) [?c..<?c + ?l]"
    by (rule nth_equalityI) simp_all
  show eq: "ps = concat (map (chunk_strps s) [?c..<?c + ?l])"
    unfolding ps_def stripes_of_chunks [OF b [OF le] nb] m ..
  have c0: "0 < ?c" using assms(2) by (simp add: unat_gt_0)
  show "\<forall>p \<in> set ps. stripe_fits s st p"
  proof
    fix p assume "p \<in> set ps"
    then obtain c where "c \<in> {?c..<?c + ?l}" "p \<in> set (chunk_strps s c)" by (auto simp: eq)
    moreover from this(1) have "0 < c" "c < V" using c0 le by simp_all
    ultimately show "stripe_fits s st p" using vf by (simp add: vol_fits_def)
  qed
  have dj: "set (chunk_strps s c) \<inter> set (chunk_strps s d) = {}" if "c \<le> V" "d \<le> V" "c \<noteq> d" for c d
    by (rule chunk_strps_disjoint(1) [OF that(3) b [OF that(1)] b [OF that(2)] nb])
  have ds: "distinct (chunk_strps s c)" if "c \<le> V" for c
  proof -
    have "(if c = 0 then 1 else 0) \<le> V" using c0 le by simp
    from b [OF this] show ?thesis
      by (rule chunk_strps_disjoint(2) [OF _ b [OF that] _ nb, rotated]) simp
  qed
  have "distinct (concat (map (chunk_strps s) cs))" if "set cs \<subseteq> {..V}" "distinct cs" for cs
    using that
  proof (induction cs)
    case (Cons c cs)
    have "set (chunk_strps s c) \<inter> (\<Union>d \<in> set cs. set (chunk_strps s d)) = {}"
    proof -
      have "set (chunk_strps s c) \<inter> set (chunk_strps s d) = {}" if "d \<in> set cs" for d
        by (rule dj) (use Cons.prems that in auto)
      then show ?thesis by blast
    qed
    then show ?case using Cons by (simp add: ds)
  qed simp
  then show "distinct ps" unfolding eq using le by (simp add: subset_eq)
  show "length ps * unat (sg_stripesize s) = ?l * chunk_bytes s"
  proof -
    have "length (concat (map (chunk_strps s) cs)) = length cs * chunk_nb_strps s" for cs
      by (induction cs) (simp_all add: length_chunk_strps)
    then show ?thesis by (simp add: eq chunk_bytes_def)
  qed
  show "set (chunk_strps s c) \<inter> set ps = {}" if "c < V" "\<not> (?c \<le> c \<and> c < ?c + ?l)" for c
  proof -
    have "set (chunk_strps s c) \<inter> set (chunk_strps s d) = {}" if "d \<in> {?c..<?c + ?l}" for d
    proof (rule dj)
      show "c \<le> V" "d \<le> V" using \<open>c < V\<close> that le by simp_all
      show "c \<noteq> d" using \<open>\<not> (?c \<le> c \<and> c < ?c + ?l)\<close> that unfolding atLeastLessThan_iff by blast
    qed
    then show ?thesis unfolding eq set_concat set_map set_upt by blast
  qed
qed

lemma chunk_view_cong:
  "(\<And>p. p \<in> set (chunk_strps s c) \<Longrightarrow> stripe_view s st' p = stripe_view s st p) \<Longrightarrow>
   chunk_view s st' c = chunk_view s st c"
  unfolding chunk_view_def by (rule arg_cong [where f = concat]) simp

lemma chunk_views_concat:
  "concat (map (chunk_view s st) cs) = concat (map (stripe_view s st) (concat (map (chunk_strps s) cs)))"
  by (induction cs) (simp_all add: chunk_view_def)

lemma sync_write_views:
  assumes vf: "vol_fits s st V" and start: "start \<noteq> 0" and le: "unat start + unat len \<le> V"
    and buf: "length buf = unat len * chunk_bytes s"
  obtains st' where "sync_write_chunk s start len buf st = (Inr True, buf, st')" "same_lengths st' st"
    "concat (map (chunk_view s st') [unat start..<unat start + unat len]) = buf"
    "\<And>c. c < V \<Longrightarrow> \<not> (unat start \<le> c \<and> c < unat start + unat len) \<Longrightarrow> chunk_view s st' c = chunk_view s st c"
proof -
  let ?ps = "stripes_between (storage_stripes s start len)"
  note R = range_strps [OF vf start le]
  have ok: "storage_ok s" and nf: "no_failures st" using vf by (simp_all add: vol_fits_def)
  have "0 + length ?ps * unat (sg_stripesize s) \<le> length buf" using R(4) buf by simp
  from io_stripes_write [OF ok nf R(2,3) this] R(4) buf
  obtain st' where w: "io_stripes s True ?ps 0 buf st = (Inr True, buf, st')" "same_lengths st' st"
    "concat (map (stripe_view s st') ?ps) = buf" "\<And>q. q \<notin> set ?ps \<Longrightarrow> stripe_view s st' q = stripe_view s st q"
    by auto
  have v: "concat (map (chunk_view s st') [unat start..<unat start + unat len]) = buf"
    unfolding chunk_views_concat R(1) [symmetric] by (rule w(3))
  have o: "chunk_view s st' c = chunk_view s st c"
    if "c < V" "\<not> (unat start \<le> c \<and> c < unat start + unat len)" for c
    using R(5) [OF that] by (intro chunk_view_cong w(4)) blast
  have "sync_write_chunk s start len buf st = (Inr True, buf, st')"
    using start w(1) by (simp add: sync_io_chunk_def)
  then show thesis using w(2) v o by (rule that)
qed

lemma sync_read_views:
  assumes vf: "vol_fits s st V" and start: "start \<noteq> 0" and le: "unat start + unat len \<le> V"
    and buf: "length buf = unat len * chunk_bytes s"
  obtains st' where "sync_read_chunk s start len buf st =
      (Inr True, concat (map (chunk_view s st) [unat start..<unat start + unat len]), st')" "same_lengths st' st"
    "\<And>c. chunk_view s st' c = chunk_view s st c"
proof -
  let ?ps = "stripes_between (storage_stripes s start len)"
  note R = range_strps [OF vf start le]
  have ok: "storage_ok s" and nf: "no_failures st" using vf by (simp_all add: vol_fits_def)
  have "0 + length ?ps * unat (sg_stripesize s) \<le> length buf" using R(4) buf by simp
  from io_stripes_read [OF ok nf R(2) this]
  obtain st' where w: "io_stripes s False ?ps 0 buf st = (Inr True, take 0 buf @ concat (map (stripe_view s st) ?ps) @
      drop (0 + length ?ps * unat (sg_stripesize s)) buf, st')" "same_lengths st' st"
    "\<And>q. stripe_view s st' q = stripe_view s st q" by blast
  have "sync_read_chunk s start len buf st =
      (Inr True, concat (map (chunk_view s st) [unat start..<unat start + unat len]), st')"
    unfolding chunk_views_concat R(1) [symmetric]
    using start w(1) R(4) buf by (simp add: sync_io_chunk_def)
  then show thesis using w(2) by (rule that) (intro chunk_view_cong w(3))
qed

lemma sync_erase_views:
  assumes vf: "vol_fits s st V" and start: "start \<noteq> 0" and le: "unat start + unat len \<le> V"
  obtains st' where "sync_erase_chunk s start len st = (Inr True, st')" "same_lengths st' st"
    "concat (map (chunk_view s st') [unat start..<unat start + unat len]) = replicate (unat len * chunk_bytes s) 0"
    "\<And>c. c < V \<Longrightarrow> \<not> (unat start \<le> c \<and> c < unat start + unat len) \<Longrightarrow> chunk_view s st' c = chunk_view s st c"
proof -
  let ?ps = "stripes_between (storage_stripes s start len)"
  let ?st = "st\<lparr>os_calls := Suc (os_calls st)\<rparr>" and ?z = "replicate (unat len * chunk_bytes s) (0 :: u8)"
  have sl: "same_lengths ?st st" by (simp add: same_lengths_def)
  have vf': "vol_fits s ?st V" using vf same_lengths_vol_fits [OF sl] by simp
  have cv: "chunk_view s ?st c = chunk_view s st c" for c
    by (intro chunk_view_cong) (simp add: stripe_view_def)
  obtain st' where w: "sync_write_chunk s start len ?z ?st = (Inr True, ?z, st')" "same_lengths st' ?st"
    "concat (map (chunk_view s st') [unat start..<unat start + unat len]) = ?z"
    "\<And>c. c < V \<Longrightarrow> \<not> (unat start \<le> c \<and> c < unat start + unat len) \<Longrightarrow> chunk_view s st' c = chunk_view s ?st c"
    using sync_write_views [OF vf' start le, of ?z] by auto
  have ok: "storage_ok s" and nf: "\<not> os_fails st (os_calls st)" using vf by (simp_all add: vol_fits_def no_failures_def)
  have "0 + length ?ps * unat (sg_stripesize s) \<le> unat len * chunk_bytes s"
    using range_strps(4) [OF vf start le] by simp
  from erase_stripes_write [OF ok this, of ?st] have "erase_stripes s ?ps ?st = (Inr True, st')"
    using start w(1) by (simp add: sync_io_chunk_def)
  then have "sync_erase_chunk s start len st = (Inr True, st')"
    using start nf by (simp add: sync_erase_chunk_def os_call_def)
  then show thesis using same_lengths_trans [OF w(2) sl] w(3) w(4) [unfolded cv] by (rule that)
qed

text \<open>
  C9: the tools' chunk I/O implements an array of chunks. On a volume whose chunks fit on its
  members, and when no system call fails or transfers less than asked, \<open>sync_write_chunk\<close> stores the buffer in the chunks asked
  for, whatever the striping, and changes no other chunk; \<open>sync_read_chunk\<close> then returns exactly
  the bytes written and changes nothing; \<open>sync_erase_chunk\<close> makes the same chunks zero and leaves
  the others.
\<close>

theorem tools_chunk_array:
  assumes "vol_fits s st V" and "start \<noteq> 0" and "unat start + unat len \<le> V"
    and "length buf = unat len * chunk_bytes s" and "length old = length buf"
  defines "cs \<equiv> [unat start..<unat start + unat len]"
  shows "\<exists>w r e.
    sync_write_chunk s start len buf st = (Inr True, buf, w) \<and> vol_fits s w V \<and>
    concat (map (chunk_view s w) cs) = buf \<and>
    (\<forall>c < V. c \<notin> set cs \<longrightarrow> chunk_view s w c = chunk_view s st c) \<and>
    sync_read_chunk s start len old w = (Inr True, buf, r) \<and>
    (\<forall>c. chunk_view s r c = chunk_view s w c) \<and>
    sync_erase_chunk s start len st = (Inr True, e) \<and>
    concat (map (chunk_view s e) cs) = replicate (length buf) 0 \<and>
    (\<forall>c < V. c \<notin> set cs \<longrightarrow> chunk_view s e c = chunk_view s st c)"
proof -
  obtain w where w: "sync_write_chunk s start len buf st = (Inr True, buf, w)" "same_lengths w st"
    "concat (map (chunk_view s w) cs) = buf"
    "\<And>c. c < V \<Longrightarrow> \<not> (unat start \<le> c \<and> c < unat start + unat len) \<Longrightarrow> chunk_view s w c = chunk_view s st c"
    using sync_write_views [OF assms(1-4)] unfolding cs_def by metis
  have vw: "vol_fits s w V" using assms(1) same_lengths_vol_fits [OF w(2)] by simp
  have old: "length old = unat len * chunk_bytes s" using assms(4,5) by simp
  obtain r where r: "sync_read_chunk s start len old w = (Inr True, buf, r)" "\<And>c. chunk_view s r c = chunk_view s w c"
    using sync_read_views [OF vw assms(2,3) old] w(3) unfolding cs_def by metis
  obtain e where e: "sync_erase_chunk s start len st = (Inr True, e)"
    "concat (map (chunk_view s e) cs) = replicate (unat len * chunk_bytes s) 0"
    "\<And>c. c < V \<Longrightarrow> \<not> (unat start \<le> c \<and> c < unat start + unat len) \<Longrightarrow> chunk_view s e c = chunk_view s st c"
    using sync_erase_views [OF assms(1-3)] unfolding cs_def by metis
  have cs: "c \<notin> set cs \<Longrightarrow> \<not> (unat start \<le> c \<and> c < unat start + unat len)" for c by (simp add: cs_def)
  show ?thesis
    using w(1,3) w(4) [OF _ cs] vw r e(1,2) e(3) [OF _ cs] assms(4) by (intro exI [of _ w] exI [of _ r] exI [of _ e]) simp
qed

definition sample_disk :: "nat \<Rightarrow> disk" where
  "sample_disk fd = \<lparr>d_fd = fd, d_size = 8, d_blksize = 512, d_discard = False\<rparr>"

definition sample_storage :: storage where
  "sample_storage = \<lparr>sg_member = [\<lparr>tm_d = sample_disk 3, tm_uuid = []\<rparr>, \<lparr>tm_d = sample_disk 4, tm_uuid = []\<rparr>],
     sg_nb_members = 2, sg_stripesize = 2, sg_stripemode = SHFS_SM_COMBINED\<rparr>"

definition sample_os :: os where
  "sample_os = \<lparr>os_files = (\<lambda>_. \<lparr>of_kind = Regular_file, of_bytes = [10, 11, 12, 13, 14, 15, 16, 17], of_pos = 0, of_blksize = 512\<rparr>),
     os_paths = (\<lambda>_. None), os_calls = 0, os_fails = (\<lambda>_. False), os_short = (\<lambda>_. None), os_cancel = (\<lambda>_. False)\<rparr>"

lemma sample_vol_fits: "vol_fits sample_storage sample_os 4"
proof -
  have ok: "storage_ok sample_storage" by (simp add: storage_ok_def sample_storage_def sample_disk_def)
  have f: "stripe_fits sample_storage sample_os (of_nat k)" if "k \<in> set [0..<8]" for k
    using that
    by (simp add: upt_rec) (auto simp: stripe_fits_def stripe_row_def stripe_fd_def sample_storage_def sample_os_def sample_disk_def)
  have "\<forall>p \<in> set (chunk_strps sample_storage c). stripe_fits sample_storage sample_os p" if "c < 4" for c
  proof
    fix p assume "p \<in> set (chunk_strps sample_storage c)"
    then obtain k where "p = of_nat k" "k \<in> {c * 2..<c * 2 + 2}"
      unfolding chunk_strps_def by (auto simp: sample_storage_def Let_def simp del: of_nat_mult of_nat_Suc)
    then show "stripe_fits sample_storage sample_os p"
      using f [of k] that by simp
  qed
  moreover have "no_failures sample_os" by (simp add: no_failures_def sample_os_def)
  moreover have "sg_nb_members sample_storage = 2" by (simp add: sample_storage_def)
  ultimately show ?thesis using ok unfolding vol_fits_def by simp blast
qed

theorem tools_chunk_array_witness:
  "\<exists>st'. sync_write_chunk sample_storage 1 2 [1, 2, 3, 4, 5, 6, 7, 8] sample_os = (Inr True, [1, 2, 3, 4, 5, 6, 7, 8], st') \<and>
     chunk_view sample_storage st' 1 @ chunk_view sample_storage st' 2 = [1, 2, 3, 4, 5, 6, 7, 8] \<and>
     chunk_view sample_storage st' 3 = [16, 17, 16, 17]"
proof -
  have b: "chunk_bytes sample_storage = 4" by (simp add: chunk_bytes_def chunk_nb_strps_def sample_storage_def)
  have v: "chunk_view sample_storage sample_os 3 = [16, 17, 16, 17]"
    by (simp add: chunk_view_def chunk_strps_def stripe_view_def stripe_row_def stripe_fd_def sample_storage_def sample_os_def sample_disk_def upt_rec)
  show ?thesis
    using tools_chunk_array [OF sample_vol_fits, of 1 2 "[1, 2, 3, 4, 5, 6, 7, 8]" "replicate 8 0"] b v
    by (auto simp: upt_rec simp flip: numeral_2_eq_2)
qed

section \<open>The kernel finds the chunks of the tools\<close>

text \<open>
  C22: a chunk the tools write lies where the kernel reads it. For a mounted volume with the
  members, stripe mode and stripe size of the tools' storage, both run through the same stripes
  for the same chunks, on the same member, and the sector at which the kernel's request for a
  stripe begins is the byte at which the tools seek.
\<close>

theorem tools_place_like_kernel:
  fixes st :: "('w, 'u, 'z) aiost_scheme" and ssize :: u32
  assumes "sg_nb_members s = vol_nb_members st" and "sg_stripemode s = vol_stripemode st" and "vol_nb_members st \<noteq> 0"
    and "vm_sfactor (vol_member st ! strp_member st p) * ucast ssize = ucast (sg_stripesize s)"
  shows "storage_stripes s start len = aio_stripes st start len \<and>
    stripe_member s p = strp_member st p \<and> stripe_startb s p = strp_sector st p * ucast ssize"
proof -
  have "unat (ucast (vol_nb_members st - 1) :: u64) = unat (vol_nb_members st) - 1"
    using assms(3) by (simp add: unat_ucast_widths unat_sub_one)
  moreover have "(ucast (vol_nb_members st) :: u64) \<noteq> 0"
    using assms(3) unat_ucast_widths(2) [of "vol_nb_members st"] by (metis unat_0 unat_eq_zero)
  then have "unat ((ucast (vol_nb_members st) :: u64) - 1) = unat (vol_nb_members st) - 1"
    by (simp add: unat_sub_one unat_ucast_widths)
  ultimately have "(ucast (vol_nb_members st - 1) :: u64) = ucast (vol_nb_members st) - 1"
    by (simp add: word_unat_eq_iff)
  then show ?thesis
    using assms(1,2,4) unfolding storage_stripes_def aio_stripes_def stripe_member_def strp_member_def
      stripe_startb_def strp_sector_def by (simp add: mult.assoc)
qed

theorem tools_place_like_kernel_witness:
  "storage_stripes (sample_storage\<lparr>sg_nb_members := 1, sg_stripesize := 4096\<rparr>) 3 2 = aio_stripes (sample_aiost :: (addr list, nat) aiost) 3 2 \<and>
   stripe_startb (sample_storage\<lparr>sg_nb_members := 1, sg_stripesize := 4096\<rparr>) 3 = strp_sector (sample_aiost :: (addr list, nat) aiost) 3 * 512"
proof -
  have "strp_member (sample_aiost :: (addr list, nat) aiost) 3 = 0" by (simp add: strp_member_def)
  then show ?thesis
    using tools_place_like_kernel [of "sample_storage\<lparr>sg_nb_members := 1, sg_stripesize := 4096\<rparr>"
      "sample_aiost :: (addr list, nat) aiost" 3 512 3 2]
    by (simp add: sample_storage_def)
qed

end
