(* ===== verification/Mkfs.thy ===== *)
theory Mkfs
  imports Prelude HashVal ShfsDefs Alist Tools
begin

text \<open>
  The formatting tool (\<open>shfs/shfs-tools/shfs_mkfs.c\<close>): its arguments, the label and the
  configuration it makes, and the order in which it writes them.

  What \<open>getopt_long\<close> returns is a list of option characters with their arguments; the operands
  follow. The UUIDs that \<open>uuid_generate\<close> makes, the time and the line the user answers are
  parameters. The console output is left out.
\<close>

abbreviation SHFUNC_MANUAL :: u8 where "SHFUNC_MANUAL \<equiv> 1"
abbreviation SHFUNC_SHA :: u8 where "SHFUNC_SHA \<equiv> 2"
abbreviation SHFUNC_CRC :: u8 where "SHFUNC_CRC \<equiv> 3"
abbreviation SHFUNC_MD5 :: u8 where "SHFUNC_MD5 \<equiv> 4"
abbreviation SHFUNC_HAVAL :: u8 where "SHFUNC_HAVAL \<equiv> 5"
abbreviation SENC_UNSPECIFIED :: u8 where "SENC_UNSPECIFIED \<equiv> 0"
abbreviation D_MAX :: nat where "D_MAX \<equiv> 2"

section \<open>Arguments\<close>

text \<open>The structure \<open>args\<close>, with the globals \<open>verbosity\<close> and \<open>force\<close>.\<close>

record mk_args =
  ma_devpath :: "string list"
  ma_nb_devs :: u8
  ma_volname :: "u8 list"
  ma_stripesize :: u32
  ma_fullerase :: bool
  ma_combined_striping :: bool
  ma_allocator :: u8
  ma_hashfunc :: u8
  ma_hashlen :: u8
  ma_bucket_count :: u32
  ma_entries_per_bucket :: u32
  ma_verbosity :: nat
  ma_force :: bool

datatype parse_end = Parse_exit | Parse_einval

definition bytes_of :: "string \<Rightarrow> u8 list" where
  "bytes_of s = map of_char s"

definition mk_defaults :: mk_args where
  "mk_defaults =
     \<lparr>ma_devpath = [], ma_nb_devs = 0, ma_volname = bytes_of ''unnamed'' @ replicate 10 0, ma_stripesize = 16384,
      ma_fullerase = False, ma_combined_striping = False, ma_allocator = SALLOC_FIRSTFIT, ma_hashfunc = SHFUNC_SHA,
      ma_hashlen = 0, ma_bucket_count = 2048, ma_entries_per_bucket = 8, ma_verbosity = 0, ma_force = False\<rparr>"

text \<open>A numeric option: no number and a number out of its range are refused.\<close>

definition num_opt :: "string \<Rightarrow> (int \<Rightarrow> bool) \<Rightarrow> (int \<Rightarrow> mk_args) \<Rightarrow> parse_end + mk_args" where
  "num_opt optarg bad upd =
     (case parse_args_setval_int optarg of
        None \<Rightarrow> Inl Parse_einval
      | Some tmp \<Rightarrow> if bad tmp then Inl Parse_einval else Inr (upd tmp))"

definition mk_opt :: "char \<Rightarrow> string \<Rightarrow> mk_args \<Rightarrow> parse_end + mk_args" where
  "mk_opt opt optarg a =
     (if opt = CHR ''h'' \<or> opt = CHR ''?'' then Inl Parse_exit
      else if opt = CHR ''V'' then Inl Parse_exit
      else if opt = CHR ''v'' then
        Inr (if ma_verbosity a < D_MAX then a\<lparr>ma_verbosity := ma_verbosity a + 1\<rparr> else a)
      else if opt = CHR ''f'' then Inr (a\<lparr>ma_force := True\<rparr>)
      else if opt = CHR ''n'' then
        Inr (a\<lparr>ma_volname := strncpy (bytes_of optarg) 16 @ drop 16 (ma_volname a)\<rparr>)
      else if opt = CHR ''s'' then
        num_opt optarg (\<lambda>tmp. tmp < 4096 \<or> \<not> POWER_OF_2 (of_int tmp :: u32) \<or> tmp > 32768)
          (\<lambda>tmp. a\<lparr>ma_stripesize := of_int tmp\<rparr>)
      else if opt = CHR ''b'' then num_opt optarg (\<lambda>tmp. tmp < 1) (\<lambda>tmp. a\<lparr>ma_bucket_count := of_int tmp\<rparr>)
      else if opt = CHR ''e'' then num_opt optarg (\<lambda>tmp. tmp < 1) (\<lambda>tmp. a\<lparr>ma_entries_per_bucket := of_int tmp\<rparr>)
      else if opt = CHR ''x'' then Inr (a\<lparr>ma_fullerase := True\<rparr>)
      else if opt = CHR ''c'' then Inr (a\<lparr>ma_combined_striping := True\<rparr>)
      else if opt = CHR ''F'' then
        (if optarg = ''sha'' then Inr (a\<lparr>ma_hashfunc := SHFUNC_SHA\<rparr>)
         else if optarg = ''crc'' then Inr (a\<lparr>ma_hashfunc := SHFUNC_CRC\<rparr>)
         else if optarg = ''md5'' then Inr (a\<lparr>ma_hashfunc := SHFUNC_MD5\<rparr>)
         else if optarg = ''haval'' then Inr (a\<lparr>ma_hashfunc := SHFUNC_HAVAL\<rparr>)
         else if optarg = ''manual'' then Inr (a\<lparr>ma_hashfunc := SHFUNC_MANUAL\<rparr>)
         else Inl Parse_einval)
      else if opt = CHR ''l'' then num_opt optarg (\<lambda>tmp. tmp < 1 \<or> tmp > 64) (\<lambda>tmp. a\<lparr>ma_hashlen := of_int tmp\<rparr>)
      else Inl Parse_einval)"

fun mk_opts :: "(char \<times> string) list \<Rightarrow> mk_args \<Rightarrow> parse_end + mk_args" where
  "mk_opts [] a = Inr a"
| "mk_opts ((c, optarg) # opts) a =
     (case mk_opt c optarg a of Inl e \<Rightarrow> Inl e | Inr a \<Rightarrow> mk_opts opts a)"

definition default_hashlen :: "u8 \<Rightarrow> u8" where
  "default_hashlen f =
     (if f = SHFUNC_SHA then 32 else if f = SHFUNC_CRC then 4 else if f = SHFUNC_MD5 then 16
      else if f = SHFUNC_HAVAL then 32 else 16)"

definition hashlen_ok :: "u8 \<Rightarrow> u8 \<Rightarrow> bool" where
  "hashlen_ok f l =
     (if f = SHFUNC_SHA then l \<in> {20, 28, 32, 48, 64}
      else if f = SHFUNC_CRC then l = 4
      else if f = SHFUNC_MD5 then l = 16
      else if f = SHFUNC_HAVAL then l \<in> {16, 20, 24, 28, 32}
      else True)"

text \<open>
  \<open>parse_args\<close> on a cleared structure. The store to \<open>volname[17]\<close>, one past the array, falls
  into the padding behind it and has no effect.
\<close>

definition mk_parse_args :: "(char \<times> string) list \<Rightarrow> string list \<Rightarrow> parse_end + mk_args" where
  "mk_parse_args opts operands =
     (case mk_opts opts mk_defaults of
        Inl e \<Rightarrow> Inl e
      | Inr a \<Rightarrow>
          let a = (if ma_hashlen a = 0 then a\<lparr>ma_hashlen := default_hashlen (ma_hashfunc a)\<rparr> else a)
          in if \<not> hashlen_ok (ma_hashfunc a) (ma_hashlen a) then Inl Parse_einval
             else if (ucast (ma_bucket_count a) :: u64) * ucast (ma_entries_per_bucket a) > 0xFFFFFFFF
             then Inl Parse_einval
             else if operands = [] then Inl Parse_einval
             else Inr (a\<lparr>ma_devpath := operands, ma_nb_devs := of_nat (length operands)\<rparr>))"

section \<open>The label\<close>

text \<open>
  The headers that \<open>mkfs\<close> fills in. The volume is as large as its smallest member allows; the
  subtraction is unsigned.
\<close>

definition member_dsize :: "storage \<Rightarrow> u64" where
  "member_dsize s =
     fold (\<lambda>m d. if d_size (tm_d m) < d then d_size (tm_d m) else d) (tl (sg_member s)) (d_size (tm_d (hd (sg_member s))))"

definition mk_vol_size :: "storage \<Rightarrow> u64 \<Rightarrow> u64 \<Rightarrow> chk_t" where
  "mk_vol_size s chunksize dsize =
     (if sg_stripemode s = SHFS_SM_COMBINED
      then (dsize - chunksize + ucast (sg_stripesize s)) div ucast (sg_stripesize s)
      else ((dsize - chunksize) div chunksize) * ucast (sg_nb_members s))"

definition mk_hdr_common :: "storage \<Rightarrow> mk_args \<Rightarrow> (nat \<Rightarrow> uuid_t) \<Rightarrow> u64 \<Rightarrow> shfs_hdr_common" where
  "mk_hdr_common s a uuid now =
     (let h = \<lparr>hc_magic = SHFS_MAGIC, hc_version = SHFS_VERSION, hc_vol_uuid = uuid 0,
               hc_vol_name = strncpy (ma_volname a) 16, hc_vol_byteorder = SBO_LITTLEENDIAN,
               hc_vol_encoding = SENC_UNSPECIFIED, hc_vol_size = 0, hc_vol_ts_creation = now,
               hc_member_stripemode = sg_stripemode s, hc_member_stripesize = sg_stripesize s,
               hc_member_uuid = replicate 16 0, hc_member_count = sg_nb_members s,
               hc_member = map (\<lambda>m. if m < unat (sg_nb_members s) then uuid (Suc m) else replicate 16 0)
                             [0..<SHFS_MAX_NB_MEMBERS]\<rparr>
      in h\<lparr>hc_vol_size := mk_vol_size s (ucast (SHFS_CHUNKSIZE h)) (member_dsize s)\<rparr>)"

definition mk_hdr_config :: "mk_args \<Rightarrow> shfs_hdr_config" where
  "mk_hdr_config a =
     \<lparr>cf_htable_ref = 2, cf_htable_bak_ref = 0, cf_hfunc = ma_hashfunc a, cf_hlen = ma_hashlen a,
      cf_htable_bucket_count = ma_bucket_count a, cf_htable_entries_per_bucket = ma_entries_per_bucket a,
      cf_allocator = ma_allocator a\<rparr>"

definition mk_chk0 :: "shfs_hdr_common \<Rightarrow> u8 list" where
  "mk_chk0 h = (let b = replicate BOOT_AREA_LENGTH 0 @ hdr_common_put h in b @ replicate (4096 - length b) 0)"

definition mk_chk1 :: "nat \<Rightarrow> shfs_hdr_config \<Rightarrow> u8 list" where
  "mk_chk1 chunksize c = (let b = hdr_config_put c in b @ replicate (chunksize - length b) 0)"

section \<open>Formatting\<close>

text \<open>Seeking to the start of each member and writing 4096 bytes there.\<close>

fun write_heads :: "(nat \<Rightarrow> u8 list) \<Rightarrow> nat \<Rightarrow> tool_member list \<Rightarrow> os \<Rightarrow> (stop + unit) \<times> os" where
  "write_heads chk m [] st = (Inr (), st)"
| "write_heads chk m (mb # mbs) st =
     (case os_lseek (d_fd (tm_d mb)) 0 st of
        (False, st) \<Rightarrow> die st
      | (True, st) \<Rightarrow>
          (case os_write (d_fd (tm_d mb)) (chk m) st of
             (None, st) \<Rightarrow> die st
           | (Some _, st) \<Rightarrow> write_heads chk (Suc m) mbs st))"

definition exit_if_cancelled :: "os \<Rightarrow> (stop + unit) \<times> os" where
  "exit_if_cancelled st = (if cancelled st then (Inl (Exit (- 2)), st) else (Inr (), st))"

text \<open>The question to the user; \<open>answer\<close> is the line read, empty at the end of the input.\<close>

definition confirm :: "bool \<Rightarrow> u8 list \<Rightarrow> os \<Rightarrow> (stop + unit) \<times> os" where
  "confirm force answer st =
     (if force then (Inr (), st)
      else let (f, st) = os_call st
      in if f \<or> answer = [] then die st
         else if hd answer \<noteq> 121 \<and> hd answer \<noteq> 89 then (Inl (Exit EXIT_SUCCESS), st)
         else (Inr (), st))"

definition calloc_or_die :: "os \<Rightarrow> (stop + unit) \<times> os" where
  "calloc_or_die st = (let (f, st) = os_call st in if f then die st else (Inr (), st))"

text \<open>The first part of \<open>mkfs\<close> makes the headers and asks; it writes nothing.\<close>

definition mkfs_prepare ::
    "storage \<Rightarrow> mk_args \<Rightarrow> (nat \<Rightarrow> uuid_t) \<Rightarrow> u64 \<Rightarrow> u8 list \<Rightarrow> os \<Rightarrow> (stop + unit) \<times> os" where
  "mkfs_prepare s a uuid now answer st =
     tbind (calloc_or_die st) (\<lambda>_ st.
     tbind (calloc_or_die st) (\<lambda>_ st.
     if sg_member s = [] then (Inl (Crash Null_deref), st)
     else if sg_stripesize s = 0 then (Inl (Crash Div_by_zero), st)
     else tbind (calloc_or_die st) (\<lambda>_ st.
     let h = mk_hdr_common s a uuid now; c = mk_hdr_config a
     in case metadata_size h c of
          Inl f \<Rightarrow> (Inl (Crash f), st)
        | Inr mdata_size \<Rightarrow>
            if mdata_size > hc_vol_size h then die st
            else tbind (exit_if_cancelled st) (\<lambda>_ st.
                 tbind (confirm (ma_force a) answer st) (\<lambda>_ st. exit_if_cancelled st)))))"

definition mkfs_erase :: "storage \<Rightarrow> mk_args \<Rightarrow> shfs_hdr_common \<Rightarrow> shfs_hdr_config \<Rightarrow> os \<Rightarrow> (stop + unit) \<times> os" where
  "mkfs_erase s a h c st =
     (if ma_fullerase a then or_die (sync_erase_chunk s 2 (hc_vol_size h - 2) st)
      else let htable_size = SHFS_HTABLE_SIZE_CHUNKS c (SHFS_CHUNKSIZE h)
      in tbind (or_die (sync_erase_chunk s (cf_htable_ref c) htable_size st)) (\<lambda>_ st.
           if cf_htable_bak_ref c \<noteq> 0 then or_die (sync_erase_chunk s (cf_htable_bak_ref c) htable_size st)
           else (Inr (), st)))"

definition mkfs ::
    "storage \<Rightarrow> mk_args \<Rightarrow> (nat \<Rightarrow> uuid_t) \<Rightarrow> u64 \<Rightarrow> u8 list \<Rightarrow> os \<Rightarrow> (stop + unit) \<times> os" where
  "mkfs s a uuid now answer st =
     tbind (mkfs_prepare s a uuid now answer st) (\<lambda>_ st.
     let h = mk_hdr_common s a uuid now; c = mk_hdr_config a
     in tbind (write_heads (\<lambda>_. replicate 4096 0) 0 (sg_member s) st) (\<lambda>_ st.
        tbind (mkfs_erase s a h c st) (\<lambda>_ st.
        tbind (exit_if_cancelled st) (\<lambda>_ st.
        tbind (let (r, _, st) = sync_write_chunk s 1 1 (mk_chk1 (unat (SHFS_CHUNKSIZE h)) c) st in or_die (r, st)) (\<lambda>_ st.
        tbind (exit_if_cancelled st) (\<lambda>_ st.
        write_heads (\<lambda>m. mk_chk0 (h\<lparr>hc_member_uuid := uuid_copy (hc_member h ! m)\<rparr>)) 0 (sg_member s) st))))))"

section \<open>The program\<close>

fun open_members :: "string list \<Rightarrow> os \<Rightarrow> (stop + tool_member list) \<times> os" where
  "open_members [] st = (Inr [], st)"
| "open_members (p # ps) st =
     (case open_disk p st of
        (None, st) \<Rightarrow> die st
      | (Some d, st) \<Rightarrow> tbind (open_members ps st) (\<lambda>ms st. (Inr (\<lparr>tm_d = d, tm_uuid = []\<rparr> # ms), st)))"

definition mk_storage :: "mk_args \<Rightarrow> tool_member list \<Rightarrow> storage" where
  "mk_storage a ms =
     \<lparr>sg_member = ms, sg_nb_members = ma_nb_devs a, sg_stripesize = ma_stripesize a,
      sg_stripemode = (if ma_combined_striping a \<and> ma_nb_devs a > 1 then SHFS_SM_COMBINED else SHFS_SM_INDEPENDENT)\<rparr>"

definition mkfs_main ::
    "(nat \<Rightarrow> uuid_t) \<Rightarrow> u64 \<Rightarrow> u8 list \<Rightarrow> (char \<times> string) list \<Rightarrow> string list \<Rightarrow> os \<Rightarrow> stop \<times> os" where
  "mkfs_main uuid now answer opts operands st =
     (case mk_parse_args opts operands of
        Inl Parse_exit \<Rightarrow> (Exit EXIT_SUCCESS, st)
      | Inl Parse_einval \<Rightarrow> (Exit EXIT_FAILURE, st)
      | Inr a \<Rightarrow>
          if unat (ma_nb_devs a) > SHFS_MAX_NB_MEMBERS then (Exit EXIT_FAILURE, st)
          else case tbind (open_members (take (unat (ma_nb_devs a)) (ma_devpath a)) st) (\<lambda>ms st.
                    tbind (exit_if_cancelled st) (\<lambda>_ st.
                    tbind (mkfs (mk_storage a ms) a uuid now answer st) (\<lambda>_ st.
                    (Inr (), fold (close_disk \<circ> tm_d) ms st)))) of
                 (Inl e, st) \<Rightarrow> (e, st)
               | (Inr _, st) \<Rightarrow> (Exit EXIT_SUCCESS, st))"

end
