(* ===== verification/MkfsProps.thy ===== *)
theory MkfsProps
  imports Prelude HashVal ShfsDefs Blkdev Aio Cache Fio Mount Tools ToolsProps Mkfs
begin

text \<open>
  What the formatting tool guarantees: the arguments it accepts, the volume it lays out, and what
  is on the members when it ends.
\<close>

section \<open>The arguments\<close>

definition mk_args_ok :: "mk_args \<Rightarrow> bool" where
  "mk_args_ok a \<longleftrightarrow> 4096 \<le> ma_stripesize a \<and> ma_stripesize a \<le> 32768 \<and> POWER_OF_2 (ma_stripesize a) \<and>
     0 < ma_bucket_count a \<and> 0 < ma_entries_per_bucket a \<and> ma_hashlen a \<le> 64 \<and>
     ma_hashfunc a \<in> {SHFUNC_MANUAL, SHFUNC_SHA, SHFUNC_CRC, SHFUNC_MD5, SHFUNC_HAVAL} \<and>
     length (ma_volname a) = 17 \<and> ma_volname a ! 16 = 0 \<and> ma_allocator a = SALLOC_FIRSTFIT"

lemma scanf_int_bounds: "scanf_int s = Some n \<Longrightarrow> - (2 ^ 31) \<le> n \<and> n < 2 ^ 31"
proof -
  assume s: "scanf_int s = Some n"
  obtain P X Y where "scan_int s = (if P then None else Some (sint (X :: 32 word), Y))"
    unfolding scan_int_def Let_def by blast
  with s have "n = sint X"
    by (simp add: scanf_int_def split: if_splits)
  then show ?thesis
    using sint_ge [of X] sint_lt [of X] by simp
qed

lemma of_int_word_bounds:
  assumes "0 \<le> n" and "n < 2 ^ LENGTH('w)"
  shows "uint (of_int n :: 'w::len word) = n"
  using assms by (simp add: uint_word_of_int)

lemma length_strncpy [simp]: "length (strncpy s n) = n"
  by (simp add: strncpy_def Let_def)

lemma num_opt_Inr:
  "num_opt s bad f = Inr x \<Longrightarrow> \<exists>n. parse_args_setval_int s = Some n \<and> \<not> bad n \<and> x = f n \<and> n < 2 ^ 31"
  using scanf_int_bounds [of s] by (auto simp: num_opt_def parse_args_setval_int_def split: option.splits if_splits)

lemma of_int_u32:
  "4096 \<le> n \<Longrightarrow> n \<le> 32768 \<Longrightarrow> 4096 \<le> (of_int n :: u32)"
  "4096 \<le> n \<Longrightarrow> n \<le> 32768 \<Longrightarrow> (of_int n :: u32) \<le> 32768"
  "1 \<le> n \<Longrightarrow> n < 2147483648 \<Longrightarrow> 0 < (of_int n :: u32)"
  "1 \<le> n \<Longrightarrow> n \<le> 64 \<Longrightarrow> (of_int n :: u8) \<le> 64"
  by (simp_all add: word_le_def word_less_def of_int_word_bounds)

lemma if_resultE: "(if b then x else y) = z \<Longrightarrow> (x = z \<Longrightarrow> P) \<Longrightarrow> (y = z \<Longrightarrow> P) \<Longrightarrow> P"
  by (cases b) auto

lemma mk_opt_ok:
  assumes "mk_opt c optarg a = Inr a'" and ok: "mk_args_ok a"
  shows "mk_args_ok a'"
  using assms(1) unfolding mk_opt_def
  by (elim if_resultE)
    (use ok in \<open>auto simp: mk_args_ok_def nth_append not_less dest!: num_opt_Inr intro: of_int_u32 split: if_splits\<close>)

lemma mk_opts_ok: "mk_opts opts a = Inr a' \<Longrightarrow> mk_args_ok a \<Longrightarrow> mk_args_ok a'"
  by (induction opts a rule: mk_opts.induct) (auto split: sum.splits intro: mk_opt_ok)

lemma mk_defaults_ok: "mk_args_ok mk_defaults"
  by (simp add: mk_args_ok_def mk_defaults_def bytes_of_def POWER_OF_2_def)

lemma mk_parse_args_ok:
  assumes "mk_parse_args opts operands = Inr a"
  shows "mk_args_ok a" "0 < ma_hashlen a" "hashlen_ok (ma_hashfunc a) (ma_hashlen a)"
    "unat (ma_bucket_count a) * unat (ma_entries_per_bucket a) < 2 ^ 32"
    "ma_devpath a = operands" "operands \<noteq> []" "ma_nb_devs a = of_nat (length operands)"
proof -
  obtain a0 where a0: "mk_opts opts mk_defaults = Inr a0" using assms by (auto simp: mk_parse_args_def split: sum.splits)
  have ok0: "mk_args_ok a0" by (rule mk_opts_ok [OF a0 mk_defaults_ok])
  define a1 where "a1 = (if ma_hashlen a0 = 0 then a0\<lparr>ma_hashlen := default_hashlen (ma_hashfunc a0)\<rparr> else a0)"
  have ok1: "mk_args_ok a1" "0 < ma_hashlen a1"
    using ok0 by (auto simp: a1_def mk_args_ok_def default_hashlen_def word_neq_0_conv)
  have a: "hashlen_ok (ma_hashfunc a1) (ma_hashlen a1)"
    "\<not> (ucast (ma_bucket_count a1) :: u64) * ucast (ma_entries_per_bucket a1) > 0xFFFFFFFF" "operands \<noteq> []"
    "a = a1\<lparr>ma_devpath := operands, ma_nb_devs := of_nat (length operands)\<rparr>"
    using assms unfolding mk_parse_args_def a0 by (simp_all add: a1_def [symmetric] Let_def split: if_splits)
  show "mk_args_ok a" "0 < ma_hashlen a" "hashlen_ok (ma_hashfunc a) (ma_hashlen a)"
    "ma_devpath a = operands" "operands \<noteq> []" "ma_nb_devs a = of_nat (length operands)"
    using ok1 a by (simp_all add: mk_args_ok_def)
  have lt: "unat (x :: u32) < 2 ^ 32" for x using unsigned_less [of x] by simp
  have "unat (ma_bucket_count a1) * unat (ma_entries_per_bucket a1) < 2 ^ 32 * 2 ^ 32"
    by (rule mult_strict_mono' [OF lt lt]) simp_all
  then have "unat ((ucast (ma_bucket_count a1) :: u64) * ucast (ma_entries_per_bucket a1)) =
      unat (ma_bucket_count a1) * unat (ma_entries_per_bucket a1)"
    by (subst unat_mult_less) (simp_all add: unat_ucast_widths)
  then show "unat (ma_bucket_count a) * unat (ma_entries_per_bucket a) < 2 ^ 32"
    using a(2,4) by (simp add: not_less word_le_nat_alt)
qed

text \<open>
  C31: the arguments \<open>parse_args\<close> accepts make a well-formed volume. The stripe size is a power of
  two between 4096 and 32768, the digest length is one the hash function has (and between 1 and
  64), the name is terminated, and buckets times entries do not overflow: the number of entries
  in the configuration header is the product and is not zero.
\<close>

theorem mkfs_args_valid:
  assumes "mk_parse_args opts operands = Inr a"
  shows "4096 \<le> ma_stripesize a \<and> ma_stripesize a \<le> 32768 \<and> POWER_OF_2 (ma_stripesize a) \<and>
    hashlen_ok (ma_hashfunc a) (ma_hashlen a) \<and> 1 \<le> ma_hashlen a \<and> ma_hashlen a \<le> 64 \<and>
    length (ma_volname a) = 17 \<and> ma_volname a ! 16 = 0 \<and>
    unat (SHFS_HTABLE_NB_ENTRIES (mk_hdr_config a)) = unat (ma_bucket_count a) * unat (ma_entries_per_bucket a) \<and>
    0 < SHFS_HTABLE_NB_ENTRIES (mk_hdr_config a) \<and> operands \<noteq> []"
proof -
  note P = mk_parse_args_ok [OF assms]
  have e: "unat (SHFS_HTABLE_NB_ENTRIES (mk_hdr_config a)) = unat (ma_bucket_count a) * unat (ma_entries_per_bucket a)"
    using P(4) by (simp add: SHFS_HTABLE_NB_ENTRIES_def mk_hdr_config_def unat_mult_less mult.commute)
  have "0 < unat (ma_bucket_count a)" "0 < unat (ma_entries_per_bucket a)"
    using P(1) by (simp_all add: mk_args_ok_def word_less_nat_alt)
  then have "0 < SHFS_HTABLE_NB_ENTRIES (mk_hdr_config a)" using e by (simp add: word_less_nat_alt)
  moreover have "1 \<le> ma_hashlen a" using P(2) by (simp add: word_less_nat_alt word_le_nat_alt)
  ultimately show ?thesis using P e by (simp add: mk_args_ok_def)
qed

theorem mkfs_args_valid_witness:
  "\<exists>a. mk_parse_args [(CHR ''s'', ''8192''), (CHR ''F'', ''md5''), (CHR ''b'', ''100'')] [''disk''] = Inr a \<and>
     ma_hashlen a = 16 \<and> 0 < SHFS_HTABLE_NB_ENTRIES (mk_hdr_config a)"
proof -
  let ?a = "mk_defaults\<lparr>ma_stripesize := 8192, ma_hashfunc := SHFUNC_MD5, ma_bucket_count := 100, ma_hashlen := 16,
    ma_devpath := [''disk''], ma_nb_devs := 1\<rparr>"
  have n: "parse_args_setval_int ''8192'' = Some 8192" "parse_args_setval_int ''100'' = Some 100"
    by (simp_all add: parse_args_setval_int_def scanf_int_def scan_int_def digits_val_def is_digit_def)
  have o: "mk_opt (CHR ''s'') ''8192'' mk_defaults = Inr (mk_defaults\<lparr>ma_stripesize := 8192\<rparr>)"
    "mk_opt (CHR ''F'') ''md5'' x = Inr (x\<lparr>ma_hashfunc := SHFUNC_MD5\<rparr>)"
    "mk_opt (CHR ''b'') ''100'' x = Inr (x\<lparr>ma_bucket_count := 100\<rparr>)" for x
    by (simp_all add: mk_opt_def num_opt_def n POWER_OF_2_def)
  have "mk_parse_args [(CHR ''s'', ''8192''), (CHR ''F'', ''md5''), (CHR ''b'', ''100'')] [''disk''] = Inr ?a"
    by (simp add: mk_parse_args_def o) (simp add: mk_defaults_def default_hashlen_def hashlen_ok_def)
  from mkfs_args_valid [OF this] this show ?thesis by (intro exI [of _ ?a]) simp
qed

section \<open>The volume\<close>

text \<open>What \<open>main\<close> passes to \<open>mkfs\<close>: one disk for each member, and arguments that were accepted.\<close>

definition mk_storage_ok :: "mk_args \<Rightarrow> tool_member list \<Rightarrow> bool" where
  "mk_storage_ok a ms \<longleftrightarrow> mk_args_ok a \<and> length ms = unat (ma_nb_devs a) \<and> 1 \<le> length ms \<and>
     length ms \<le> SHFS_MAX_NB_MEMBERS"

definition mk_chunksize :: "storage \<Rightarrow> nat" where
  "mk_chunksize s = (if sg_stripemode s = SHFS_SM_COMBINED then unat (sg_nb_members s) else 1) * unat (sg_stripesize s)"

lemma mk_storage_simps [simp]:
  "sg_member (mk_storage a ms) = ms" "sg_nb_members (mk_storage a ms) = ma_nb_devs a"
  "sg_stripesize (mk_storage a ms) = ma_stripesize a"
  by (simp_all add: mk_storage_def)

lemma mk_hdr_simps [simp]:
  "hc_vol_size (mk_hdr_common s a uuid now) = mk_vol_size s (ucast (SHFS_CHUNKSIZE (mk_hdr_common s a uuid now))) (member_dsize s)"
  "hc_member_stripemode (mk_hdr_common s a uuid now) = sg_stripemode s"
  "hc_member_stripesize (mk_hdr_common s a uuid now) = sg_stripesize s"
  "hc_member_count (mk_hdr_common s a uuid now) = sg_nb_members s"
  by (simp_all add: mk_hdr_common_def Let_def SHFS_CHUNKSIZE_def)

lemma mk_storage_facts:
  assumes "mk_storage_ok a ms"
  shows "4096 \<le> unat (ma_stripesize a)" "unat (ma_stripesize a) \<le> 32768"
    "1 \<le> unat (ma_nb_devs a)" "unat (ma_nb_devs a) \<le> 16"
    "sg_stripemode (mk_storage a ms) = SHFS_SM_COMBINED \<Longrightarrow> 2 \<le> unat (ma_nb_devs a)"
proof -
  show "4096 \<le> unat (ma_stripesize a)" "unat (ma_stripesize a) \<le> 32768"
    using assms by (simp_all add: mk_storage_ok_def mk_args_ok_def word_le_nat_alt)
  show "1 \<le> unat (ma_nb_devs a)" "unat (ma_nb_devs a) \<le> 16"
    using assms by (simp_all add: mk_storage_ok_def)
  show "2 \<le> unat (ma_nb_devs a)" if "sg_stripemode (mk_storage a ms) = SHFS_SM_COMBINED"
  proof -
    have "ma_nb_devs a > 1" using that by (simp add: mk_storage_def split: if_splits)
    then show ?thesis by (simp add: word_less_nat_alt)
  qed
qed

lemma mk_chunksize_unat:
  assumes "mk_storage_ok a ms"
  defines "s \<equiv> mk_storage a ms"
  shows "unat (SHFS_CHUNKSIZE (mk_hdr_common s a uuid now)) = mk_chunksize s"
    and "mk_chunksize s \<le> 2 ^ 19" and "4096 \<le> mk_chunksize s"
proof -
  note F = mk_storage_facts [OF assms(1)]
  have m: "unat (ma_nb_devs a) * unat (ma_stripesize a) \<le> 16 * 32768" by (rule mult_le_mono [OF F(4,2)])
  then have "unat (ma_stripesize a * ucast (ma_nb_devs a)) = unat (ma_nb_devs a) * unat (ma_stripesize a)"
    by (subst unat_mult_less) (simp_all add: unat_ucast_widths mult.commute)
  then show "unat (SHFS_CHUNKSIZE (mk_hdr_common s a uuid now)) = mk_chunksize s"
    by (simp add: SHFS_CHUNKSIZE_def mk_chunksize_def s_def)
  show "mk_chunksize s \<le> 2 ^ 19" using m F(2) by (simp add: mk_chunksize_def s_def)
  have "1 * 4096 \<le> unat (ma_nb_devs a) * unat (ma_stripesize a)" by (rule mult_le_mono [OF F(3,1)])
  then show "4096 \<le> mk_chunksize s" using F(1) by (simp add: mk_chunksize_def s_def)
qed

lemma member_dsize_le:
  assumes "m \<in> set (sg_member s)"
  shows "member_dsize s \<le> d_size (tm_d m)" and "\<exists>m \<in> set (sg_member s). member_dsize s = d_size (tm_d m)"
proof -
  let ?f = "\<lambda>m d. if d_size (tm_d m) < d then d_size (tm_d m) else d"
  have f: "fold ?f xs d \<le> d \<and> (\<forall>x \<in> set xs. fold ?f xs d \<le> d_size (tm_d x)) \<and>
      (fold ?f xs d = d \<or> (\<exists>x \<in> set xs. fold ?f xs d = d_size (tm_d x)))" for xs d
  proof (induction xs arbitrary: d)
    case (Cons x xs)
    have le: "?f x d \<le> d" "?f x d \<le> d_size (tm_d x)" by auto
    show ?case using Cons [of "?f x d"] order_trans [OF _ le(1)] order_trans [OF _ le(2)] by auto
  qed simp
  obtain x xs where s: "sg_member s = x # xs" using assms by (cases "sg_member s") auto
  show "member_dsize s \<le> d_size (tm_d m)" using f [of xs "d_size (tm_d x)"] assms by (auto simp: member_dsize_def s)
  show "\<exists>m \<in> set (sg_member s). member_dsize s = d_size (tm_d m)"
    using f [of xs "d_size (tm_d x)"] by (auto simp: member_dsize_def s)
qed

text \<open>The size of the volume as a natural number, when the members hold at least one chunk.\<close>

lemma mk_vol_size_unat:
  assumes ok: "mk_storage_ok a ms" and d: "mk_chunksize s \<le> unat D" and s: "s = mk_storage a ms"
  shows "unat (mk_vol_size s (ucast (SHFS_CHUNKSIZE (mk_hdr_common s a uuid now))) D) =
    (if sg_stripemode s = SHFS_SM_COMBINED
     then (unat D - mk_chunksize s + unat (sg_stripesize s)) div unat (sg_stripesize s)
     else (unat D - unat (sg_stripesize s)) div unat (sg_stripesize s) * unat (sg_nb_members s))"
proof -
  note F = mk_storage_facts [OF ok] and C = mk_chunksize_unat [OF ok, folded s]
  let ?C = "ucast (SHFS_CHUNKSIZE (mk_hdr_common s a uuid now)) :: u64"
  have c: "unat ?C = mk_chunksize s" by (simp add: unat_ucast_widths C(1))
  have sub: "unat (D - ?C) = unat D - mk_chunksize s"
    using d c by (simp add: unat_sub word_le_nat_alt)
  have S: "unat (ucast (sg_stripesize s) :: u64) = unat (ma_stripesize a)" by (simp add: unat_ucast_widths s)
  show ?thesis
  proof (cases "sg_stripemode s = SHFS_SM_COMBINED")
    case True
    have "unat (ma_stripesize a) \<le> mk_chunksize s" using True F(3) by (simp add: mk_chunksize_def s)
    then have "unat D - mk_chunksize s + unat (ma_stripesize a) \<le> unat D" using d by linarith
    also have "\<dots> < 2 ^ 64" using unsigned_less [of D] by simp
    finally have "unat (D - ?C + ucast (sg_stripesize s)) = unat D - mk_chunksize s + unat (ma_stripesize a)"
      by (subst unat_add_less) (simp_all add: sub S)
    then show ?thesis using True by (simp add: mk_vol_size_def unat_div S) (simp add: s)
  next
    case False
    have cS: "mk_chunksize s = unat (ma_stripesize a)" using False by (simp add: mk_chunksize_def s)
    have "(unat D - unat (ma_stripesize a)) div unat (ma_stripesize a) \<le> unat D div 4096"
      using F(1) by (intro order_trans [OF div_le_mono div_le_mono2]) simp_all
    also have "unat D < 2 ^ 52 * 4096" using unsigned_less [of D] by simp
    then have "unat D div 4096 < 2 ^ 52" by (rule less_mult_imp_div_less)
    finally have lt: "(unat D - unat (ma_stripesize a)) div unat (ma_stripesize a) < 2 ^ 52" .
    have "(unat D - unat (ma_stripesize a)) div unat (ma_stripesize a) * unat (ma_nb_devs a) \<le> 2 ^ 52 * 16"
      using lt F(4) by (intro mult_le_mono) simp_all
    moreover have "unat (ucast (sg_nb_members s) :: u64) = unat (ma_nb_devs a)" by (simp add: unat_ucast_widths s)
    ultimately have "unat ((D - ?C) div ?C * ucast (sg_nb_members s)) =
        (unat D - unat (ma_stripesize a)) div unat (ma_stripesize a) * unat (ma_nb_devs a)"
      by (subst unat_mult_less) (simp_all add: unat_div sub c [unfolded cS] cS)
    then show ?thesis using False by (simp add: mk_vol_size_def) (simp add: s)
  qed
qed

text \<open>Every chunk of the volume lies within its members, and the kernel's size check succeeds.\<close>

lemma geometry_combined:
  fixes D S n :: nat
  assumes "2 \<le> n" and "0 < S" and "n * S \<le> D"
  defines "V \<equiv> (D - n * S + S) div S"
  shows "(V + 1) * S \<le> D" and "c < V \<Longrightarrow> (c + 1) * S \<le> D"
proof -
  have "V * S \<le> D - n * S + S" unfolding V_def by simp
  moreover have "2 * S \<le> n * S" using assms(1) by simp
  moreover have "(V + 1) * S = V * S + S" by simp
  ultimately show *: "(V + 1) * S \<le> D" using assms(3) by linarith
  show "c < V \<Longrightarrow> (c + 1) * S \<le> D"
    using * mult_le_mono1 [of "c + 1" "V + 1" S] by linarith
qed

lemma geometry_independent:
  fixes D S n :: nat
  assumes "1 \<le> n" and "0 < S" and "S \<le> D"
  defines "V \<equiv> (D - S) div S * n"
  shows "(V + 1) div n * S \<le> D" and "c < V \<Longrightarrow> ((c + n - 1) div n + 1) * S \<le> D"
proof -
  let ?R = "(D - S) div S"
  have "?R * S \<le> D - S" "(?R + 1) * S = ?R * S + S" by simp_all
  then have R: "(?R + 1) * S \<le> D" using assms(3) by linarith
  have "(V + 1) div n \<le> ?R + 1"
    using div_le_mono [of "V + 1" "(?R + 1) * n" n] assms(1) by (simp add: V_def)
  then show "(V + 1) div n * S \<le> D" using R by (meson mult_le_mono1 order_trans)
  assume "c < V"
  then have "(c + n - 1) div n \<le> (?R * n + (n - 1)) div n" unfolding V_def by (intro div_le_mono) simp
  also have "\<dots> = ?R" using assms(1) by (intro div_nat_eqI) (simp_all add: algebra_simps)
  finally have "((c + n - 1) div n + 1) * S \<le> (?R + 1) * S" by simp
  then show "((c + n - 1) div n + 1) * S \<le> D" using R by (rule order_trans)
qed

lemma mk_volume_rows:
  fixes uuid now
  assumes ok: "mk_storage_ok a ms" and d: "mk_chunksize s \<le> unat D" and s: "s = mk_storage a ms"
  defines "V \<equiv> unat (mk_vol_size s (ucast (SHFS_CHUNKSIZE (mk_hdr_common s a uuid now))) D)"
    and "n \<equiv> unat (sg_nb_members s)" and "S \<equiv> unat (sg_stripesize s)"
  shows "V + 2 < 2 ^ 57"
    and "(if sg_stripemode s = SHFS_SM_COMBINED then V + 1 else (V + 1) div n) * S \<le> unat D"
    and "c < V \<Longrightarrow> k \<in> (if sg_stripemode s = SHFS_SM_COMBINED then {c * n..<c * n + n} else {c + n - 1}) \<Longrightarrow>
      (k div n + 1) * S \<le> unat D"
proof -
  note F = mk_storage_facts [OF ok] and Veq = mk_vol_size_unat [OF ok d s, of uuid now, folded V_def S_def n_def]
  have n: "1 \<le> n" "n \<le> 16" and S: "4096 \<le> S" "0 < S" using F(1-4) by (simp_all add: n_def S_def s)
  have D: "unat D < 2 ^ 52 * 4096" using unsigned_less [of D] by simp
  have q: "x * S \<le> unat D \<Longrightarrow> x < 2 ^ 52" for x
  proof -
    assume "x * S \<le> unat D"
    moreover have "x * 4096 \<le> x * S" using S(1) by simp
    ultimately show "x < 2 ^ 52" using D by linarith
  qed
  have "V + 2 < 2 ^ 57 \<and> (if sg_stripemode s = SHFS_SM_COMBINED then V + 1 else (V + 1) div n) * S \<le> unat D \<and>
     (c < V \<longrightarrow> k \<in> (if sg_stripemode s = SHFS_SM_COMBINED then {c * n..<c * n + n} else {c + n - 1}) \<longrightarrow>
      (k div n + 1) * S \<le> unat D)"
  proof (cases "sg_stripemode s = SHFS_SM_COMBINED")
    case True
    have n2: "2 \<le> n" using F(5) True by (simp add: n_def s)
    have V: "V = (unat D - n * S + S) div S" and le: "n * S \<le> unat D"
      using Veq d True by (simp_all add: mk_chunksize_def n_def S_def)
    note G = geometry_combined [OF n2 S(2) le, folded V]
    have "k div n = c" if "k \<in> {c * n..<c * n + n}"
      using that by (intro div_nat_eqI) (simp_all add: algebra_simps)
    then show ?thesis using True G(1) G(2) [of c] q [of "V + 1"] by auto
  next
    case False
    have V: "V = (unat D - S) div S * n" and le: "S \<le> unat D"
      using Veq d False by (simp_all add: mk_chunksize_def n_def S_def)
    note G = geometry_independent [OF n(1) S(2) le, folded V]
    have "(unat D - S) div S < 2 ^ 52"
      by (rule q) (rule order_trans [OF div_times_less_eq_dividend], simp)
    then have "V \<le> 2 ^ 52 * 16" unfolding V using n(2) by (intro mult_le_mono) simp_all
    then have "V + 2 < 2 ^ 57" by simp
    then show ?thesis using False G(1) G(2) [of c] by auto
  qed
  then show "V + 2 < 2 ^ 57"
    "(if sg_stripemode s = SHFS_SM_COMBINED then V + 1 else (V + 1) div n) * S \<le> unat D"
    "c < V \<Longrightarrow> k \<in> (if sg_stripemode s = SHFS_SM_COMBINED then {c * n..<c * n + n} else {c + n - 1}) \<Longrightarrow>
      (k div n + 1) * S \<le> unat D"
    by blast+
qed

lemma mk_hdr_wf:
  fixes now
  assumes ok: "mk_storage_ok a ms" and u: "\<And>i. length (uuid i) = 16" and i: "i < length ms"
  defines "h \<equiv> (mk_hdr_common (mk_storage a ms) a uuid now)"
  shows "hdr_common_wf (h\<lparr>hc_member_uuid := uuid_copy (hc_member h ! i)\<rparr>)"
proof -
  have "length ms \<le> 16" using ok by (simp add: mk_storage_ok_def)
  then show ?thesis using i u
    by (auto simp: hdr_common_wf_def h_def mk_hdr_common_def Let_def SHFS_MAGIC_def SHFS_VERSION_def list_all_iff uuid_copy_def)
qed

lemma mk_chk0_label:
  assumes "hdr_common_wf h"
  shows "length (mk_chk0 h) = 4096" and "hdr_common_get (drop BOOT_AREA_LENGTH (mk_chk0 h)) = h"
  using hdr_common_get_put [OF assms] by (simp_all add: mk_chk0_def Let_def)

text \<open>
  C21: what \<open>mkfs\<close> writes the kernel mounts. For every member the first 4096 bytes pass
  \<open>shfs_detect_hdr0\<close> and read back as the header with the member's own UUID, which is the one
  the header lists for it; and when each disk holds at least one chunk, the volume size in the
  header passes the kernel's check that the members are large enough.
\<close>

theorem mkfs_label_mounts:
  fixes st :: "('w, 'u, 'z) aiost_scheme" and now
  assumes ok: "mk_storage_ok a ms" and u: "\<And>i. length (uuid i) = 16"
    and d: "\<And>m. m \<in> set ms \<Longrightarrow> mk_chunksize (mk_storage a ms) \<le> unat (d_size (tm_d m))" and i: "i < length ms"
  defines "h \<equiv> mk_hdr_common (mk_storage a ms) a uuid now"
  defines "hi \<equiv> h\<lparr>hc_member_uuid := uuid_copy (hc_member h ! i)\<rparr>"
  assumes "vol_nb_members st = hc_member_count h" and "vol_stripemode st = hc_member_stripemode h"
    and "vol_stripesize st = hc_member_stripesize h" and "vol_volsize st = hc_vol_size h"
  shows "shfs_detect_hdr0 (mk_chk0 hi) = 1 \<and> hdr_common_get (drop BOOT_AREA_LENGTH (mk_chk0 hi)) = hi \<and>
    hc_member_uuid hi = hc_member hi ! i \<and>
    (\<exists>sz. min_member_size st = Inr sz \<and> (\<forall>m \<in> set ms. sz \<le> d_size (tm_d m)))"
proof -
  define s where "s = mk_storage a ms"
  note F = mk_storage_facts [OF ok]
  have wf: "hdr_common_wf hi" unfolding hi_def h_def by (rule mk_hdr_wf [OF ok u i])
  note L = mk_chk0_label [OF wf]
  have len: "length ms = unat (ma_nb_devs a)" using ok by (simp add: mk_storage_ok_def)
  have "ma_nb_devs a \<noteq> 0" "\<not> 16 < ma_nb_devs a" using F(3,4) by (auto simp: word_less_nat_alt)
  moreover have "hc_magic hi = SHFS_MAGIC" "hc_version hi = SHFS_VERSION" "hc_vol_byteorder hi = SBO_LITTLEENDIAN"
    "hc_member_count hi = ma_nb_devs a"
    by (simp_all add: hi_def h_def mk_hdr_common_def Let_def)
  ultimately have det: "shfs_detect_hdr0 (mk_chk0 hi) = 1" unfolding shfs_detect_hdr0_def Let_def L(2) by simp
  have uu: "hc_member_uuid hi = hc_member hi ! i"
    using i u F(4) len by (simp add: hi_def h_def mk_hdr_common_def Let_def uuid_copy_def)
  define D where "D = member_dsize s"
  have "sg_member s = ms" by (simp add: s_def)
  moreover have "ms \<noteq> []" using i by auto
  ultimately have D: "mk_chunksize s \<le> unat D" "\<And>m. m \<in> set ms \<Longrightarrow> D \<le> d_size (tm_d m)"
    using member_dsize_le [of "hd ms" s] member_dsize_le(1) [of _ s] d unfolding D_def s_def [symmetric] by auto
  define V where "V = unat (hc_vol_size h)"
  note R = mk_volume_rows [where uuid = uuid and now = now, OF ok D(1) s_def]
  have Veq: "V = unat (mk_vol_size s (ucast (SHFS_CHUNKSIZE (mk_hdr_common s a uuid now))) D)"
    by (simp add: V_def h_def s_def [symmetric] D_def)
  have V1: "unat (hc_vol_size h + 1) = V + 1" using R(1) by (subst unat_add_less) (simp_all add: V_def [symmetric] Veq [symmetric])
  have S: "unat (ucast (sg_stripesize s) :: u64) = unat (sg_stripesize s)" by (rule unat_ucast_widths)
  let ?rows = "if sg_stripemode s = SHFS_SM_COMBINED then hc_vol_size h + 1 else (hc_vol_size h + 1) div ucast (sg_nb_members s)"
  have r: "unat ?rows = (if sg_stripemode s = SHFS_SM_COMBINED then V + 1 else (V + 1) div unat (sg_nb_members s))"
    by (simp add: V1 unat_div unat_ucast_widths)
  have le: "unat ?rows * unat (sg_stripesize s) \<le> unat D" using R(2) by (simp only: r Veq)
  then have "unat ?rows * unat (sg_stripesize s) < 2 ^ LENGTH(64)" by (rule order_le_less_trans [OF _ unsigned_less])
  then have sz: "unat (?rows * ucast (sg_stripesize s)) = unat ?rows * unat (sg_stripesize s)"
    by (subst unat_mult_less) (simp_all only: S)
  have "min_member_size st = Inr (?rows * ucast (sg_stripesize s))"
    using assms(7-10) \<open>ma_nb_devs a \<noteq> 0\<close> by (simp add: min_member_size_def h_def s_def)
  moreover have "?rows * ucast (sg_stripesize s) \<le> D" using le unfolding word_le_nat_alt sz .
  ultimately show ?thesis using det L(2) uu D(2) order_trans by blast
qed

theorem mkfs_label_mounts_witness:
  "\<exists>a ms h. mk_storage_ok a ms \<and> h = mk_hdr_common (mk_storage a ms) a (\<lambda>i. replicate 16 (of_nat i)) 7 \<and>
     shfs_detect_hdr0 (mk_chk0 (h\<lparr>hc_member_uuid := uuid_copy (hc_member h ! 1)\<rparr>)) = 1"
proof -
  let ?a = "mk_defaults\<lparr>ma_nb_devs := 2, ma_combined_striping := True\<rparr>"
  let ?d = "\<lparr>tm_d = \<lparr>d_fd = 3, d_size = 1000000, d_blksize = 512, d_discard = False\<rparr>, tm_uuid = []\<rparr>"
  let ?h = "mk_hdr_common (mk_storage ?a [?d, ?d]) ?a (\<lambda>i. replicate 16 (of_nat i)) 7"
  have ok: "mk_storage_ok ?a [?d, ?d]"
    using mk_defaults_ok by (simp add: mk_storage_ok_def mk_args_ok_def)
  have c: "mk_chunksize (mk_storage ?a [?d, ?d]) = 32768"
    by (simp add: mk_chunksize_def mk_storage_def mk_defaults_def)
  let ?st = "undefined\<lparr>vol_nb_members := hc_member_count ?h, vol_stripemode := hc_member_stripemode ?h,
    vol_stripesize := hc_member_stripesize ?h, vol_volsize := hc_vol_size ?h\<rparr> :: (nat, nat) aiost"
  have "shfs_detect_hdr0 (mk_chk0 (?h\<lparr>hc_member_uuid := uuid_copy (hc_member ?h ! 1)\<rparr>)) = 1"
    by (rule mkfs_label_mounts [OF ok, of _ 1 ?st, THEN conjunct1]) (auto simp: c)
  then show ?thesis using ok by blast
qed

end
