(* ===== verification/MkfsRun.thy ===== *)
theory MkfsRun
  imports Prelude ShfsDefs Tools ToolsProps Mkfs MkfsProps
begin

text \<open>
  What is on the members after a run of \<open>mkfs\<close>: the volume it formats when nothing fails, and
  what an abort or an error leaves behind.
\<close>

section \<open>The heads of the members\<close>

definition head_of :: "os \<Rightarrow> tool_member \<Rightarrow> u8 list" where
  "head_of st m = take 4096 (of_bytes (os_files st (d_fd (tm_d m))))"

definition heads_fit :: "os \<Rightarrow> tool_member list \<Rightarrow> bool" where
  "heads_fit st ms \<longleftrightarrow> distinct (map (\<lambda>m. d_fd (tm_d m)) ms) \<and> (\<forall>n. os_short st n = None) \<and>
     (\<forall>m \<in> set ms. 4096 \<le> length (of_bytes (os_files st (d_fd (tm_d m)))))"

lemma os_lseek_file:
  "os_lseek fd off st = (ok, st') \<Longrightarrow> of_bytes (os_files st' k) = of_bytes (os_files st k) \<and>
     of_kind (os_files st' k) = of_kind (os_files st k) \<and> (ok \<longrightarrow> of_pos (os_files st' fd) = unat off)"
  by (auto simp: os_lseek_def os_call_def os_upd_def split: if_splits)

text \<open>A write behind the head of a file, and one of the head itself, whatever it returns.\<close>

lemma os_write_behind:
  assumes "os_write fd bs st = (r, st')" and "k = fd \<Longrightarrow> 4096 \<le> of_pos (os_files st fd)"
    and "4096 \<le> length (of_bytes (os_files st k))"
  shows "take 4096 (of_bytes (os_files st' k)) = take 4096 (of_bytes (os_files st k)) \<and>
    4096 \<le> length (of_bytes (os_files st' k))"
proof -
  have w: "take 4096 (write_at p 0 x ys) = take 4096 ys \<and> 4096 \<le> length (write_at p 0 x ys)"
    if "4096 \<le> p" "4096 \<le> length ys" for p x and ys :: "u8 list"
    using that by (simp add: write_at_def)
  show ?thesis
    using assms w [of "of_pos (os_files st fd)" "of_bytes (os_files st fd)"]
    by (auto simp: os_write_def os_call_def os_upd_def Let_def split: if_splits)
qed

lemma os_write_head:
  assumes "os_write fd bs st = (r, st')" and "of_pos (os_files st fd) = 0" and "length bs = 4096"
    and "4096 \<le> length (of_bytes (os_files st fd))" and "os_short st (os_calls st) = None"
  shows "(case r of None \<Rightarrow> of_bytes (os_files st' fd) = of_bytes (os_files st fd) | Some _ \<Rightarrow>
      take 4096 (of_bytes (os_files st' fd)) = bs) \<and> length (of_bytes (os_files st' fd)) = length (of_bytes (os_files st fd)) \<and>
    drop 4096 (of_bytes (os_files st' fd)) = drop 4096 (of_bytes (os_files st fd)) \<and>
    (\<forall>k. k \<noteq> fd \<longrightarrow> os_files st' k = os_files st k)"
proof -
  have "bs \<noteq> []" using assms(3) by auto
  then show ?thesis using assms
    by (auto simp: os_write_def os_part_whole os_call_def os_upd_def Let_def write_at_def split: if_splits)
qed

text \<open>
  The loop over the members stops at the first failure: the members before it have their new
  head, the others are as they were.
\<close>

lemma write_heads_frame:
  assumes "write_heads chk m mbs st = (r, st')" and "heads_fit st mbs" and "\<And>i. i < m + length mbs \<Longrightarrow> length (chk i) = 4096"
  shows "(\<forall>fd. length (of_bytes (os_files st' fd)) = length (of_bytes (os_files st fd)) \<and>
       drop 4096 (of_bytes (os_files st' fd)) = drop 4096 (of_bytes (os_files st fd))) \<and>
    (\<exists>k \<le> length mbs. (\<forall>i < k. head_of st' (mbs ! i) = chk (m + i)) \<and>
       (\<forall>i. k \<le> i \<and> i < length mbs \<longrightarrow> head_of st' (mbs ! i) = head_of st (mbs ! i)) \<and>
       (r = Inr () \<longrightarrow> k = length mbs) \<and> (r \<noteq> Inr () \<longrightarrow> r = Inl (Exit EXIT_FAILURE) \<and> k < length mbs)) \<and>
    (\<forall>fd. fd \<notin> (\<lambda>m. d_fd (tm_d m)) ` set mbs \<longrightarrow> of_bytes (os_files st' fd) = of_bytes (os_files st fd))"
  using assms
proof (induction mbs arbitrary: m st)
  case Nil
  then show ?case by simp
next
  case (Cons mb mbs)
  let ?fd = "d_fd (tm_d mb)"
  obtain ok st1 where l: "os_lseek ?fd 0 st = (ok, st1)" by fastforce
  note L = os_lseek_file [OF l]
  show ?case
  proof (cases ok)
    case False
    then have "r = Inl (Exit EXIT_FAILURE)" "st' = st1" using Cons.prems(1) l by (auto simp: die_def)
    then show ?thesis using L by (intro conjI exI [of _ 0]) (auto simp: head_of_def)
  next
    case True
    obtain w st2 where w: "os_write ?fd (chk m) st1 = (w, st2)" by fastforce
    have "of_pos (os_files st1 ?fd) = 0" "4096 \<le> length (of_bytes (os_files st1 ?fd))"
      using L [of ?fd] True Cons.prems(2) by (simp_all add: heads_fit_def)
    note W = os_write_head [OF w this(1) Cons.prems(3) this(2), simplified]
    have sh: "os_short st1 n = None" "os_short st2 n = None" for n
      using Cons.prems(2) os_short_frame(1) [OF l] os_short_frame(3) [OF w] by (simp_all add: heads_fit_def)
    note W = W [OF sh(1)]
    have len: "length (of_bytes (os_files st2 fd)) = length (of_bytes (os_files st fd)) \<and>
        drop 4096 (of_bytes (os_files st2 fd)) = drop 4096 (of_bytes (os_files st fd))" for fd
      using W L [of fd] by (cases "fd = ?fd") auto
    have oth: "of_bytes (os_files st2 fd) = of_bytes (os_files st fd)" if "fd \<noteq> ?fd" for fd
      using W L [of fd] that by simp
    show ?thesis
    proof (cases w)
      case None
      then have "r = Inl (Exit EXIT_FAILURE)" "st' = st2" using Cons.prems(1) l w True by (auto simp: die_def)
      moreover have "of_bytes (os_files st2 fd) = of_bytes (os_files st fd)" for fd
        using W None L [of fd] oth [of fd] by (cases "fd = ?fd") auto
      ultimately show ?thesis by (intro conjI exI [of _ 0]) (auto simp: head_of_def)
    next
      case (Some x)
      have h: "head_of st2 mb = chk m" using W Some by (simp add: head_of_def)
      have rec: "write_heads chk (Suc m) mbs st2 = (r, st')" using Cons.prems(1) l w True Some by simp
      have nin: "?fd \<notin> (\<lambda>m. d_fd (tm_d m)) ` set mbs" and "heads_fit st2 mbs"
        using Cons.prems(2) len sh by (auto simp: heads_fit_def)
      have lc: "\<And>i. i < Suc m + length mbs \<Longrightarrow> length (chk i) = 4096" using Cons.prems(3) by simp
      from Cons.IH [OF rec \<open>heads_fit st2 mbs\<close> lc]
      have IH1: "\<And>fd. length (of_bytes (os_files st' fd)) = length (of_bytes (os_files st2 fd)) \<and>
          drop 4096 (of_bytes (os_files st' fd)) = drop 4096 (of_bytes (os_files st2 fd))"
        and IH3: "\<And>fd. fd \<notin> (\<lambda>m. d_fd (tm_d m)) ` set mbs \<Longrightarrow> of_bytes (os_files st' fd) = of_bytes (os_files st2 fd)"
        by blast+
      from Cons.IH [OF rec \<open>heads_fit st2 mbs\<close> lc] obtain k where k: "k \<le> length mbs"
        "\<And>i. i < k \<Longrightarrow> head_of st' (mbs ! i) = chk (Suc m + i)"
        "\<And>i. k \<le> i \<Longrightarrow> i < length mbs \<Longrightarrow> head_of st' (mbs ! i) = head_of st2 (mbs ! i)"
        "r = Inr () \<Longrightarrow> k = length mbs" "r \<noteq> Inr () \<Longrightarrow> r = Inl (Exit EXIT_FAILURE) \<and> k < length mbs"
        by blast
      have h': "head_of st' mb = chk m" using h IH3 [OF nin] by (simp add: head_of_def)
      have o2: "head_of st2 (mbs ! i) = head_of st (mbs ! i)" if "i < length mbs" for i
      proof -
        have "d_fd (tm_d (mbs ! i)) \<noteq> ?fd" using nin that by (metis image_eqI nth_mem)
        then show ?thesis by (simp add: head_of_def oth)
      qed
      have "\<forall>i < Suc k. head_of st' ((mb # mbs) ! i) = chk (m + i)"
        using h' k(2) by (auto simp: less_Suc_eq_0_disj)
      moreover have "\<forall>i. Suc k \<le> i \<and> i < length (mb # mbs) \<longrightarrow> head_of st' ((mb # mbs) ! i) = head_of st ((mb # mbs) ! i)"
        using k(3) o2 by (auto simp: Suc_le_eq nth_Cons' gr0_conv_Suc)
      moreover have "\<forall>fd. fd \<notin> (\<lambda>m. d_fd (tm_d m)) ` set (mb # mbs) \<longrightarrow> of_bytes (os_files st' fd) = of_bytes (os_files st fd)"
        using IH3 oth by auto
      ultimately show ?thesis using IH1 len k(1,4,5) by (intro conjI exI [of _ "Suc k"]) auto
    qed
  qed
qed

lemma write_heads_short: "write_heads chk m mbs st = (r, st') \<Longrightarrow> os_short st' = os_short st"
proof (induction mbs arbitrary: m st)
  case (Cons mb mbs)
  obtain ok st1 where l: "os_lseek (d_fd (tm_d mb)) 0 st = (ok, st1)" by fastforce
  obtain w st2 where w: "os_write (d_fd (tm_d mb)) (chk m) st1 = (w, st2)" by fastforce
  show ?case
    using Cons.prems Cons.IH os_short_frame(1) [OF l] os_short_frame(3) [OF w]
    by (auto simp: l w die_def split: bool.splits option.splits)
qed simp

section \<open>Chunk I/O stays behind the heads\<close>

definition behind_heads :: "storage \<Rightarrow> strp_t list \<Rightarrow> bool" where
  "behind_heads s ps \<longleftrightarrow> (\<forall>p \<in> set ps. 4096 \<le> unat (stripe_startb s p))"

lemma os_read_bytes: "os_read fd n st = (r, st') \<Longrightarrow> of_bytes (os_files st' k) = of_bytes (os_files st k)"
  by (auto simp: os_read_def os_call_def os_upd_def Let_def split: if_splits)

lemma io_stripes_behind:
  assumes "io_stripes s wr ps off buf st = (r, buf', st')" and "behind_heads s ps"
    and "4096 \<le> length (of_bytes (os_files st k))"
  shows "take 4096 (of_bytes (os_files st' k)) = take 4096 (of_bytes (os_files st k)) \<and>
    4096 \<le> length (of_bytes (os_files st' k))"
  using assms
proof (induction ps arbitrary: off buf st)
  case Nil
  then show ?case by simp
next
  case (Cons p ps)
  let ?fd = "d_fd (tm_d (sg_member s ! stripe_member s p))" and ?n = "unat (sg_stripesize s)"
  obtain ok st1 where l: "os_lseek ?fd (stripe_startb s p) st = (ok, st1)" by fastforce
  note L = os_lseek_file [OF l]
  obtain w st2 where w: "os_write ?fd (take ?n (drop off buf)) st1 = (w, st2)" by fastforce
  obtain q st3 where q: "os_read ?fd ?n st1 = (q, st3)" by fastforce
  have b: "4096 \<le> unat (stripe_startb s p)" "behind_heads s ps" using Cons.prems(2) by (simp_all add: behind_heads_def)
  have W: "take 4096 (of_bytes (os_files st2 k)) = take 4096 (of_bytes (os_files st k)) \<and>
      4096 \<le> length (of_bytes (os_files st2 k))" if ok
    using os_write_behind [OF w, of k] L that b(1) Cons.prems(3) by simp
  have R: "of_bytes (os_files st3 k) = of_bytes (os_files st k)" using os_read_bytes [OF q] L by simp
  show ?case
    using Cons.prems(1,3) Cons.IH [OF _ b(2)] L W R
    by (auto simp: l w q Let_def split: if_splits bool.splits option.splits)
qed

lemma sync_write_behind:
  assumes "sync_write_chunk s start len buf st = (r, buf', st')"
    and "behind_heads s (stripes_between (storage_stripes s start len))" and "4096 \<le> length (of_bytes (os_files st k))"
  shows "take 4096 (of_bytes (os_files st' k)) = take 4096 (of_bytes (os_files st k)) \<and>
    4096 \<le> length (of_bytes (os_files st' k))"
  using assms io_stripes_behind [of s True] by (auto simp: sync_io_chunk_def split: if_splits)

lemma sync_erase_behind:
  assumes "sync_erase_chunk s start len st = (r, st')" and "storage_ok s"
    and "behind_heads s (stripes_between (storage_stripes s start len))" and "4096 \<le> length (of_bytes (os_files st k))"
  shows "take 4096 (of_bytes (os_files st' k)) = take 4096 (of_bytes (os_files st k)) \<and>
    4096 \<le> length (of_bytes (os_files st' k))"
proof -
  let ?ps = "stripes_between (storage_stripes s start len)"
  let ?z = "replicate (length ?ps * unat (sg_stripesize s)) (0 :: u8)"
  let ?st = "st\<lparr>os_calls := Suc (os_calls st)\<rparr>"
  obtain q b st2 where q: "io_stripes s True ?ps 0 ?z ?st = (q, b, st2)" by (metis prod_cases3)
  have "erase_stripes s ?ps ?st = (q, st2)"
    using erase_stripes_write [OF assms(2), of 0 ?ps "length ?ps * unat (sg_stripesize s)" ?st] q by simp
  then show ?thesis
    using assms(1) io_stripes_behind [OF q assms(3), of k] assms(4)
    by (auto simp: sync_erase_chunk_def os_call_def split: if_splits)
qed

lemma io_stripes_short: "io_stripes s wr ps off buf st = (r, buf', st') \<Longrightarrow> os_short st' = os_short st"
proof (induction ps arbitrary: off buf st)
  case (Cons p ps)
  let ?fd = "d_fd (tm_d (sg_member s ! stripe_member s p))" and ?n = "unat (sg_stripesize s)"
  obtain ok st1 where l: "os_lseek ?fd (stripe_startb s p) st = (ok, st1)" by fastforce
  obtain w st2 where w: "os_write ?fd (take ?n (drop off buf)) st1 = (w, st2)" by fastforce
  obtain q st3 where q: "os_read ?fd ?n st1 = (q, st3)" by fastforce
  show ?case
    using Cons.prems Cons.IH os_short_frame(1) [OF l] os_short_frame(3) [OF w] os_short_frame(2) [OF q]
    by (auto simp: l w q Let_def split: if_splits bool.splits option.splits)
qed simp

lemma sync_write_short: "sync_write_chunk s start len buf st = (r, buf', st') \<Longrightarrow> os_short st' = os_short st"
  by (auto simp: sync_io_chunk_def io_stripes_short split: if_splits)

lemma erase_stripes_short: "erase_stripes s ps st = (r, st') \<Longrightarrow> os_short st' = os_short st"
proof (induction ps arbitrary: st)
  case (Cons p ps)
  let ?fd = "d_fd (tm_d (sg_member s ! stripe_member s p))"
  obtain ok st1 where l: "os_lseek ?fd (stripe_startb s p) st = (ok, st1)" by fastforce
  obtain w st2 where w: "os_write ?fd (replicate (unat (sg_stripesize s)) 0) st1 = (w, st2)" by fastforce
  show ?case
    using Cons.prems Cons.IH os_short_frame(1) [OF l] os_short_frame(3) [OF w]
    by (auto simp: l w Let_def split: if_splits bool.splits option.splits)
qed simp

lemma sync_erase_short: "sync_erase_chunk s start len st = (r, st') \<Longrightarrow> os_short st' = os_short st"
  by (auto simp: sync_erase_chunk_def os_call_def dest!: erase_stripes_short split: if_splits)

section \<open>The members of a run\<close>

text \<open>
  Accepted arguments, and members that are distinct open files without discard, each as long as
  its disk says and not shorter than a chunk.
\<close>

definition mkfs_pre :: "mk_args \<Rightarrow> tool_member list \<Rightarrow> os \<Rightarrow> bool" where
  "mkfs_pre a ms st \<longleftrightarrow> mk_storage_ok a ms \<and> (\<forall>n. os_short st n = None) \<and> distinct (map (\<lambda>m. d_fd (tm_d m)) ms) \<and>
     (\<forall>m \<in> set ms. \<not> d_discard (tm_d m) \<and> mk_chunksize (mk_storage a ms) \<le> unat (d_size (tm_d m)) \<and>
        length (of_bytes (os_files st (d_fd (tm_d m)))) = unat (d_size (tm_d m)))"

abbreviation mk_vol :: "mk_args \<Rightarrow> tool_member list \<Rightarrow> (nat \<Rightarrow> uuid_t) \<Rightarrow> u64 \<Rightarrow> nat" where
  "mk_vol a ms uuid now \<equiv> unat (hc_vol_size (mk_hdr_common (mk_storage a ms) a uuid now))"

lemma mkfs_pre_storage_ok:
  assumes "mkfs_pre a ms st"
  shows "storage_ok (mk_storage a ms)" and "heads_fit st ms"
proof -
  have ok: "mk_storage_ok a ms" using assms by (simp add: mkfs_pre_def)
  note F = mk_storage_facts [OF ok] and C = mk_chunksize_unat(3) [OF ok]
  have "ma_nb_devs a \<noteq> 0" "ma_stripesize a \<noteq> 0" using F(1,3) by auto
  then show "storage_ok (mk_storage a ms)"
    using assms by (simp add: storage_ok_def mkfs_pre_def mk_storage_ok_def)
  show "heads_fit st ms" using assms C by (fastforce simp: heads_fit_def mkfs_pre_def)
qed

lemma mkfs_pre_dsize:
  assumes "mkfs_pre a ms st"
  shows "mk_chunksize (mk_storage a ms) \<le> unat (member_dsize (mk_storage a ms))"
    and "m \<in> set ms \<Longrightarrow> unat (member_dsize (mk_storage a ms)) \<le> length (of_bytes (os_files st (d_fd (tm_d m))))"
proof -
  have "ms \<noteq> []" using assms by (auto simp: mkfs_pre_def mk_storage_ok_def)
  then have "hd ms \<in> set (sg_member (mk_storage a ms))" by simp
  from member_dsize_le(2) [OF this] show "mk_chunksize (mk_storage a ms) \<le> unat (member_dsize (mk_storage a ms))"
    using assms by (auto simp: mkfs_pre_def)
  show "m \<in> set ms \<Longrightarrow> unat (member_dsize (mk_storage a ms)) \<le> length (of_bytes (os_files st (d_fd (tm_d m))))"
    using member_dsize_le(1) [of m "mk_storage a ms"] assms by (simp add: mkfs_pre_def word_le_nat_alt)
qed

text \<open>A stripe of a chunk of the volume, the label's first chunk apart.\<close>

lemma mk_stripe_place:
  assumes pre: "mkfs_pre a ms st" and c: "0 < c" "c < mk_vol a ms uuid now"
    and p: "p \<in> set (chunk_strps (mk_storage a ms) c)"
  defines "s \<equiv> mk_storage a ms"
  shows "1 \<le> stripe_row s p" and "(stripe_row s p + 1) * unat (sg_stripesize s) \<le> unat (member_dsize s)"
    and "4096 \<le> unat (stripe_startb s p)"
proof -
  have ok: "mk_storage_ok a ms" using pre by (simp add: mkfs_pre_def)
  note F = mk_storage_facts [OF ok] and R = mk_volume_rows [where uuid = uuid and now = now, OF ok mkfs_pre_dsize(1) [OF pre] refl]
  let ?n = "unat (sg_nb_members s)" and ?S = "unat (sg_stripesize s)"
  have n: "1 \<le> ?n" "?n \<le> 16" "4096 \<le> ?S" using F by (simp_all add: s_def)
  define K where "K = (if sg_stripemode s = SHFS_SM_COMBINED then {c * ?n..<c * ?n + ?n} else {c + ?n - 1})"
  obtain k where k: "k \<in> K" "p = of_nat k"
    using p unfolding K_def chunk_strps_def s_def [symmetric] by (auto simp: Let_def split: if_splits)
  have "c < 2 ^ 57" using c(2) R(1) by simp
  then have "(c + 1) * ?n \<le> 2 ^ 57 * 16" using n(2) by (intro mult_le_mono) simp_all
  then have "k < 2 ^ 64"
    using k(1) n \<open>c < 2 ^ 57\<close> unfolding K_def by (auto simp: algebra_simps split: if_splits)
  then have "unat p = k" unfolding k(2) by (intro unat_of_nat_less) simp
  then have row: "stripe_row s p = k div ?n" by (simp add: stripe_row_def unat_div nb_u64)
  have "?n \<le> k"
  proof (cases "sg_stripemode s = SHFS_SM_COMBINED")
    case True
    have "?n \<le> c * ?n" using c(1) by simp
    also have "\<dots> \<le> k" using k(1) True by (simp add: K_def)
    finally show ?thesis .
  next
    case False
    then show ?thesis using k(1) c(1) n(1) by (simp add: K_def)
  qed
  then show 1: "1 \<le> stripe_row s p" unfolding row using n(1) by (metis div_greater_zero_iff less_le_trans less_one linorder_not_less not_gr_zero)
  have "(k div ?n + 1) * ?S \<le> unat (member_dsize s)"
    unfolding s_def by (rule R(3) [OF _ k(1) [unfolded K_def s_def]]) (use c(2) in simp)
  then show 2: "(stripe_row s p + 1) * ?S \<le> unat (member_dsize s)" unfolding row .
  have "stripe_row s p * ?S \<le> (stripe_row s p + 1) * ?S" by simp
  then have "stripe_row s p * ?S < 2 ^ LENGTH(64)"
    using 2 unsigned_less [of "member_dsize s"] by (meson order_le_less_trans order_trans)
  then have "unat (stripe_startb s p) = stripe_row s p * ?S"
    by (simp add: stripe_startb_def stripe_row_def unat_mult_less unat_ucast_widths)
  moreover have "1 * 4096 \<le> stripe_row s p * ?S" using 1 n(3) by (intro mult_le_mono)
  ultimately show "4096 \<le> unat (stripe_startb s p)" by simp
qed

lemma mk_range_bound:
  assumes "mkfs_pre a ms st" and "start + len \<le> mk_vol a ms uuid now"
  shows "(start + len + 1) * unat (ma_nb_devs a) < 2 ^ 64"
proof -
  have ok: "mk_storage_ok a ms" using assms(1) by (simp add: mkfs_pre_def)
  note R = mk_volume_rows(1) [where uuid = uuid and now = now, OF ok mkfs_pre_dsize(1) [OF assms(1)] refl]
  have "start + len + 1 \<le> 2 ^ 57" using R assms(2) by simp
  then have "(start + len + 1) * unat (ma_nb_devs a) \<le> 2 ^ 57 * 16"
    using mk_storage_facts(4) [OF ok] by (rule mult_le_mono)
  then show ?thesis by simp
qed

lemma mk_range_behind:
  assumes pre: "mkfs_pre a ms st" and r: "0 < unat start" "unat start + unat len \<le> mk_vol a ms uuid now"
  shows "behind_heads (mk_storage a ms) (stripes_between (storage_stripes (mk_storage a ms) start len))"
proof -
  have nb: "sg_nb_members (mk_storage a ms) \<noteq> 0" using mkfs_pre_storage_ok(1) [OF pre] by (simp add: storage_ok_def)
  note sc = stripes_of_chunks [OF _ nb, of start len]
  show ?thesis
    unfolding behind_heads_def
  proof
    fix p assume "p \<in> set (stripes_between (storage_stripes (mk_storage a ms) start len))"
    then obtain i where "i < unat len" "p \<in> set (chunk_strps (mk_storage a ms) (unat start + i))"
      using sc mk_range_bound [OF pre r(2)] by auto
    then show "4096 \<le> unat (stripe_startb (mk_storage a ms) p)"
      using mk_stripe_place(3) [OF pre, of "unat start + i" uuid now p] r by simp
  qed
qed

text \<open>The label check of \<open>mkfs\<close> leaves room for the hash table.\<close>

lemma mk_metadata_fits:
  assumes ok: "mk_storage_ok a ms" and md: "metadata_size (mk_hdr_common (mk_storage a ms) a uuid now) (mk_hdr_config a) = Inr md"
    and le: "\<not> md > hc_vol_size (mk_hdr_common (mk_storage a ms) a uuid now)"
  shows "2 + unat (SHFS_HTABLE_SIZE_CHUNKS (mk_hdr_config a) (SHFS_CHUNKSIZE (mk_hdr_common (mk_storage a ms) a uuid now)))
    \<le> mk_vol a ms uuid now"
proof -
  let ?cs = "SHFS_CHUNKSIZE (mk_hdr_common (mk_storage a ms) a uuid now)"
  let ?d = "SHFS_HENTRIES_PER_CHUNK ?cs" and ?e = "ucast (SHFS_HTABLE_NB_ENTRIES (mk_hdr_config a)) :: u64"
  have d: "unat ?d < 2 ^ 32" "0 < unat ?d"
    using mk_chunksize_unat [OF ok] by (simp_all add: unat_HENTRIES_PER_CHUNK div_greater_zero_iff div_le_dividend [THEN order_le_less_trans])
  have e: "unat ?e < 2 ^ 32"
    unfolding unat_ucast_widths by (rule order_less_le_trans [OF unsigned_less]) simp
  have "?d \<noteq> 0" using d(2) by auto
  have "unat (DIV_ROUND_UP ?e ?d) = (unat ?e + unat ?d - 1) div unat ?d"
    using d e by (intro unat_DIV_ROUND_UP) auto
  also have "\<dots> \<le> unat ?e + unat ?d - 1" by (rule div_le_dividend)
  finally have n: "unat (SHFS_HTABLE_SIZE_CHUNKS (mk_hdr_config a) ?cs) < 2 ^ 33"
    using d e by (simp add: SHFS_HTABLE_SIZE_CHUNKS_def)
  have "md = 2 + SHFS_HTABLE_SIZE_CHUNKS (mk_hdr_config a) ?cs"
    using md \<open>?d \<noteq> 0\<close> by (simp add: metadata_size_def Let_def mk_hdr_config_def)
  then have "unat md = 2 + unat (SHFS_HTABLE_SIZE_CHUNKS (mk_hdr_config a) ?cs)"
    using n by (simp add: unat_add_less)
  then show ?thesis using le by (simp add: not_less word_le_nat_alt)
qed

section \<open>Aborts and errors\<close>

abbreviation zero_head :: "u8 list" where "zero_head \<equiv> replicate 4096 0"

definition member_label :: "storage \<Rightarrow> mk_args \<Rightarrow> (nat \<Rightarrow> uuid_t) \<Rightarrow> u64 \<Rightarrow> nat \<Rightarrow> u8 list" where
  "member_label s a uuid now i =
     (let h = mk_hdr_common s a uuid now in mk_chk0 (h\<lparr>hc_member_uuid := uuid_copy (hc_member h ! i)\<rparr>))"

lemma zero_head_undetected: "shfs_detect_hdr0 zero_head = - 1"
  by (simp add: shfs_detect_hdr0_def hdr_common_get_def field_def SHFS_MAGIC_def Let_def)

lemma calloc_or_die_files: "calloc_or_die st = (r, st') \<Longrightarrow> os_files st' = os_files st \<and> os_short st' = os_short st"
  by (auto simp: calloc_or_die_def os_call_def die_def split: if_splits)

lemma exit_if_cancelled_files: "exit_if_cancelled st = (r, st') \<Longrightarrow> st' = st"
  by (auto simp: exit_if_cancelled_def split: if_splits)

lemma confirm_files: "confirm f answer st = (r, st') \<Longrightarrow> os_files st' = os_files st \<and> os_short st' = os_short st"
  by (auto simp: confirm_def os_call_def die_def split: if_splits)

lemma tbind_files:
  assumes "tbind m k = (r, st')" and "\<And>r st1. m = (r, st1) \<Longrightarrow> os_files st1 = os_files st \<and> os_short st1 = os_short st"
    and "\<And>x st1. m = (Inr x, st1) \<Longrightarrow> k x st1 = (r, st') \<Longrightarrow> os_files st1 = os_files st \<and> os_short st1 = os_short st \<Longrightarrow> os_files st' = os_files st \<and> os_short st' = os_short st"
  shows "os_files st' = os_files st \<and> os_short st' = os_short st"
  using assms by (cases m) (auto simp: tbind_def split: sum.splits)

lemma mkfs_prepare_frame:
  assumes "mkfs_prepare s a uuid now answer st = (r, st')"
  shows "os_files st' = os_files st \<and> os_short st' = os_short st"
  using assms unfolding mkfs_prepare_def
  by (elim tbind_files if_resultE; (elim tbind_files)?)
     (auto simp: Let_def die_def dest!: calloc_or_die_files exit_if_cancelled_files confirm_files split: sum.splits if_splits elim!: tbind_files)

lemma mkfs_prepare_facts:
  assumes "mkfs_prepare s a uuid now answer st = (r, st')"
  shows "os_files st' = os_files st"
    and "r = Inr () \<Longrightarrow> \<exists>md. metadata_size (mk_hdr_common s a uuid now) (mk_hdr_config a) = Inr md \<and>
      \<not> md > hc_vol_size (mk_hdr_common s a uuid now)"
proof -
  show "os_files st' = os_files st" using mkfs_prepare_frame [OF assms] by simp
  show "r = Inr () \<Longrightarrow> \<exists>md. metadata_size (mk_hdr_common s a uuid now) (mk_hdr_config a) = Inr md \<and>
      \<not> md > hc_vol_size (mk_hdr_common s a uuid now)"
    using assms by (auto simp: mkfs_prepare_def tbind_def Let_def die_def split: sum.splits if_splits prod.splits)
qed

lemma tbind_cases:
  assumes "tbind m k = (r, st')"
  obtains (stop) e where "m = (Inl e, st')" "r = Inl e"
  | (go) x st1 where "m = (Inr x, st1)" "k x st1 = (r, st')"
  using assms by (cases m) (auto simp: tbind_def split: sum.splits)

lemma length_member_label:
  assumes "mk_storage_ok a ms" and "\<And>i. length (uuid i) = 16" and "i < length ms"
  shows "length (member_label (mk_storage a ms) a uuid now i) = 4096"
  unfolding member_label_def Let_def by (rule mk_chk0_label(1) [OF mk_hdr_wf [OF assms]])

definition all_heads :: "u8 list \<Rightarrow> os \<Rightarrow> tool_member list \<Rightarrow> bool" where
  "all_heads h st ms \<longleftrightarrow> heads_fit st ms \<and> (\<forall>m \<in> set ms. head_of st m = h)"

lemma or_die_result:
  "or_die (q, st) = (r, st') \<Longrightarrow> st' = st"
  by (auto simp: or_die_def die_def split: sum.splits if_splits)

text \<open>Erasing and writing the configuration keep the heads.\<close>

lemma all_heads_behind:
  assumes "all_heads h st ms"
    and "\<And>k. 4096 \<le> length (of_bytes (os_files st k)) \<Longrightarrow>
      take 4096 (of_bytes (os_files st' k)) = take 4096 (of_bytes (os_files st k)) \<and> 4096 \<le> length (of_bytes (os_files st' k))"
    and "os_short st' = os_short st"
  shows "all_heads h st' ms"
  using assms by (auto simp: all_heads_def heads_fit_def head_of_def)

lemma mkfs_erase_heads:
  assumes pre: "mkfs_pre a ms st0" and h: "h = mk_hdr_common (mk_storage a ms) a uuid now"
    and fits: "2 + unat (SHFS_HTABLE_SIZE_CHUNKS (mk_hdr_config a) (SHFS_CHUNKSIZE h)) \<le> unat (hc_vol_size h)"
    and run: "mkfs_erase (mk_storage a ms) a h (mk_hdr_config a) st = (r, st')" and z: "all_heads z st ms"
  shows "all_heads z st' ms"
proof -
  note so = mkfs_pre_storage_ok(1) [OF pre]
  have e: "all_heads z st2 ms"
    if "sync_erase_chunk (mk_storage a ms) 2 len st = (q, st2)" "2 + unat len \<le> unat (hc_vol_size h)" for len q st2
    using that(2) by (intro all_heads_behind [OF z] sync_erase_behind [OF that(1) so] mk_range_behind [OF pre, of _ _ uuid now]
        sync_erase_short [OF that(1)]) (simp_all add: h)
  show ?thesis
  proof (cases "ma_fullerase a")
    case True
    obtain q st2 where q: "sync_erase_chunk (mk_storage a ms) 2 (hc_vol_size h - 2) st = (q, st2)" by fastforce
    have "2 \<le> hc_vol_size h" using fits by (simp add: word_le_nat_alt)
    then have "2 + unat (hc_vol_size h - 2) \<le> unat (hc_vol_size h)" by (simp add: unat_sub word_le_nat_alt)
    then show ?thesis using e [OF q] run True q or_die_result by (auto simp: mkfs_erase_def)
  next
    case False
    obtain q st2 where q: "sync_erase_chunk (mk_storage a ms) 2 (SHFS_HTABLE_SIZE_CHUNKS (mk_hdr_config a) (SHFS_CHUNKSIZE h)) st = (q, st2)"
      by fastforce
    have "st' = st2"
      using run False q by (auto simp: mkfs_erase_def mk_hdr_config_def Let_def or_die_def die_def split: sum.splits if_splits)
    then show ?thesis using e [OF q fits] by simp
  qed
qed

text \<open>The heads after a run with result \<open>r\<close>, with the labels that a complete run writes.\<close>

definition heads_after :: "tool_member list \<Rightarrow> (nat \<Rightarrow> u8 list) \<Rightarrow> os \<Rightarrow> os \<Rightarrow> stop + unit \<Rightarrow> bool" where
  "heads_after ms lab st st' r \<longleftrightarrow>
     (\<forall>i < length ms. head_of st' (ms ! i) \<in> {head_of st (ms ! i), zero_head, lab i}) \<and>
     (r = Inr () \<longrightarrow> (\<forall>i < length ms. head_of st' (ms ! i) = lab i)) \<and>
     (r \<noteq> Inr () \<longrightarrow> (\<exists>i < length ms. head_of st' (ms ! i) \<in> {head_of st (ms ! i), zero_head})) \<and>
     (r = Inl (Exit (- 2)) \<longrightarrow> os_files st' = os_files st \<or>
        (\<forall>m \<in> set ms. head_of st' m = zero_head \<and> shfs_detect_hdr0 (head_of st' m) \<noteq> 1))"

lemma heads_after_unchanged: "os_files st' = os_files st \<Longrightarrow> 0 < length ms \<Longrightarrow> heads_after ms lab st st' (Inl e)"
  by (auto simp: heads_after_def head_of_def)

lemma heads_after_zero: "all_heads zero_head st' ms \<Longrightarrow> 0 < length ms \<Longrightarrow> heads_after ms lab st st' (Inl e)"
  by (auto simp: heads_after_def all_heads_def zero_head_undetected)

text \<open>A loop over the heads that stopped: from the old heads to zero, and from zero to the labels.\<close>

lemma heads_after_erasing:
  assumes "write_heads (\<lambda>_. zero_head) 0 ms st1 = (Inl e, st')" and "heads_fit st1 ms" and "os_files st1 = os_files st"
  shows "heads_after ms lab st st' (Inl e)"
proof -
  obtain k where k: "k < length ms" "\<And>i. i < k \<Longrightarrow> head_of st' (ms ! i) = zero_head"
    "\<And>i. k \<le> i \<Longrightarrow> i < length ms \<Longrightarrow> head_of st' (ms ! i) = head_of st (ms ! i)" "e = Exit EXIT_FAILURE"
    using write_heads_frame [OF assms(1,2)] assms(3) by (auto simp: head_of_def)
  have "head_of st' (ms ! i) \<in> {head_of st (ms ! i), zero_head}" if "i < length ms" for i
    using k(2,3) that by (cases "i < k") auto
  then show ?thesis using k(1,4) by (auto simp: heads_after_def)
qed

lemma heads_after_labels:
  assumes "write_heads lab 0 ms st1 = (r, st')" and z: "all_heads zero_head st1 ms"
    and "\<And>i. i < length ms \<Longrightarrow> length (lab i) = 4096"
  shows "heads_after ms lab st st' r"
proof -
  have hf: "heads_fit st1 ms" using z by (simp add: all_heads_def)
  obtain k where k: "k \<le> length ms" "\<And>i. i < k \<Longrightarrow> head_of st' (ms ! i) = lab i"
    "\<And>i. k \<le> i \<Longrightarrow> i < length ms \<Longrightarrow> head_of st' (ms ! i) = head_of st1 (ms ! i)"
    "r = Inr () \<Longrightarrow> k = length ms" "r \<noteq> Inr () \<Longrightarrow> r = Inl (Exit EXIT_FAILURE) \<and> k < length ms"
    using write_heads_frame [OF assms(1) hf, THEN conjunct2, THEN conjunct1] assms(3) unfolding add_0 by blast
  have old: "head_of st' (ms ! i) = zero_head" if "k \<le> i" "i < length ms" for i
    using k(3) [OF that] z that by (simp add: all_heads_def)
  have 1: "head_of st' (ms ! i) \<in> {head_of st (ms ! i), zero_head, lab i}" if "i < length ms" for i
    using k(2) old that by (cases "i < k") auto
  show ?thesis
  proof (cases "r = Inr ()")
    case True
    then show ?thesis using 1 k(2) k(4) [OF True] by (simp add: heads_after_def)
  next
    case False
    then show ?thesis using 1 k(5) [OF False] old [of k] by (auto simp: heads_after_def)
  qed
qed

lemma mkfs_heads_after:
  assumes pre: "mkfs_pre a ms st" and u: "\<And>i. length (uuid i) = 16"
    and run: "mkfs (mk_storage a ms) a uuid now answer st = (r, st')"
  shows "heads_after ms (member_label (mk_storage a ms) a uuid now) st st' r"
proof -
  let ?s = "mk_storage a ms"
  define h where "h = mk_hdr_common ?s a uuid now"
  define c where "c = mk_hdr_config a"
  have ok: "mk_storage_ok a ms" and ne: "0 < length ms" using pre by (auto simp: mkfs_pre_def mk_storage_ok_def)
  note hf = mkfs_pre_storage_ok(2) [OF pre]
  let ?lab = "member_label ?s a uuid now"
  have keep: "heads_after ms ?lab st st1 (Inl e)" if "os_files st1 = os_files st" for st1 e
    by (rule heads_after_unchanged [OF that ne])
  have zero: "heads_after ms ?lab st st1 (Inl e)" if "all_heads zero_head st1 ms" for st1 e
    by (rule heads_after_zero [OF that ne])
  show ?thesis using run [unfolded mkfs_def Let_def, folded h_def c_def]
  proof (cases rule: tbind_cases)
    case (stop e)
    then show ?thesis using keep [OF mkfs_prepare_facts(1) [OF stop(1)]] by simp
  next
    case (go x st1)
    have f1: "os_files st1 = os_files st" by (rule mkfs_prepare_facts(1) [OF go(1)])
    have fits: "2 + unat (SHFS_HTABLE_SIZE_CHUNKS c (SHFS_CHUNKSIZE h)) \<le> unat (hc_vol_size h)"
    proof -
      obtain md where "metadata_size h c = Inr md" "\<not> md > hc_vol_size h"
        using mkfs_prepare_facts(2) [OF go(1)] unfolding h_def c_def by auto
      then show ?thesis unfolding h_def c_def by (rule mk_metadata_fits [OF ok])
    qed
    have hf1: "heads_fit st1 ms" using hf f1 mkfs_prepare_frame [OF go(1)] by (simp add: heads_fit_def)
    show ?thesis using go(2)
    proof (cases rule: tbind_cases)
      case (stop e)
      from heads_after_erasing [OF stop(1) [unfolded mk_storage_simps] hf1 f1] show ?thesis using stop(2) by simp
    next
      case (go x st2)
      have W: "\<And>fd. length (of_bytes (os_files st2 fd)) = length (of_bytes (os_files st1 fd))"
        "\<And>i. i < length ms \<Longrightarrow> head_of st2 (ms ! i) = zero_head"
        using write_heads_frame [OF go(1) [unfolded mk_storage_simps] hf1] by auto
      have z2: "all_heads zero_head st2 ms"
        using W hf1 write_heads_short [OF go(1)] by (auto simp: all_heads_def heads_fit_def in_set_conv_nth)
      show ?thesis using go(2)
      proof (cases rule: tbind_cases)
        case (stop e)
        from mkfs_erase_heads [OF pre h_def fits [unfolded c_def] stop(1) [unfolded c_def] z2] show ?thesis
          using zero stop(2) by simp
      next
        case (go x st3)
        note z3 = mkfs_erase_heads [OF pre h_def fits [unfolded c_def] go(1) [unfolded c_def] z2]
        show ?thesis using go(2)
        proof (cases rule: tbind_cases)
          case (stop e)
          then show ?thesis using zero [OF z3] exit_if_cancelled_files [OF stop(1)] by simp
        next
          case (go x st4)
          obtain q b st5 where q: "sync_write_chunk ?s 1 1 (mk_chk1 (unat (SHFS_CHUNKSIZE h)) c) st4 = (q, b, st5)"
            by (metis prod_cases3)
          have z4: "all_heads zero_head st4 ms" using z3 exit_if_cancelled_files [OF go(1)] by simp
          have bh: "behind_heads ?s (stripes_between (storage_stripes ?s 1 1))"
            using fits by (intro mk_range_behind [OF pre, of _ _ uuid now]) (simp_all add: h_def)
          have z5: "all_heads zero_head st5 ms" by (rule all_heads_behind [OF z4 sync_write_behind [OF q bh] sync_write_short [OF q]])
          show ?thesis using go(2) [unfolded q prod.case]
          proof (cases rule: tbind_cases)
            case (stop e)
            then show ?thesis using zero [OF z5] or_die_result [OF stop(1)] by simp
          next
            case (go x st6)
            have z6: "all_heads zero_head st6 ms" using z5 or_die_result [OF go(1)] by simp
            show ?thesis using go(2)
            proof (cases rule: tbind_cases)
              case (stop e)
              then show ?thesis using zero [OF z6] exit_if_cancelled_files [OF stop(1)] by simp
            next
              case (go x st7)
              have z7: "all_heads zero_head st7 ms" using z6 exit_if_cancelled_files [OF go(1)] by simp
              have "write_heads ?lab 0 ms st7 = (r, st')"
                using go(2) by (simp add: member_label_def [abs_def] h_def Let_def)
              then show ?thesis using z7 length_member_label [OF ok u] by (rule heads_after_labels)
            qed
          qed
        qed
      qed
    qed
  qed
qed

text \<open>
  C11: \<open>mkfs\<close> never leaves a half-made label, provided the host writes what it writes
  in one piece. Whatever fails and whenever the user aborts, the first
  4096 bytes of each member are the old ones, zero, or its new label; when \<open>mkfs\<close> does not
  complete, at least one member does not have its new label; and when it exits because of an abort
  (status -2), either no file was touched or no member has a label the kernel would detect.
\<close>

theorem mkfs_interrupted:
  assumes pre: "mkfs_pre a ms st" and u: "\<And>i. length (uuid i) = 16"
    and run: "mkfs (mk_storage a ms) a uuid now answer st = (r, st')"
  shows "(\<forall>i < length ms. head_of st' (ms ! i) \<in>
      {head_of st (ms ! i), zero_head, member_label (mk_storage a ms) a uuid now i}) \<and>
    (r = Inr () \<longrightarrow> (\<forall>i < length ms. head_of st' (ms ! i) = member_label (mk_storage a ms) a uuid now i)) \<and>
    (r \<noteq> Inr () \<longrightarrow> (\<exists>i < length ms. head_of st' (ms ! i) \<in> {head_of st (ms ! i), zero_head})) \<and>
    (r = Inl (Exit (- 2)) \<longrightarrow> os_files st' = os_files st \<or>
       (\<forall>m \<in> set ms. head_of st' m = zero_head \<and> shfs_detect_hdr0 (head_of st' m) \<noteq> 1))"
  using mkfs_heads_after [OF assms] unfolding heads_after_def .

definition sample_mk_args :: mk_args where
  "sample_mk_args = mk_defaults\<lparr>ma_nb_devs := 1, ma_stripesize := 4096, ma_bucket_count := 2,
     ma_entries_per_bucket := 2, ma_hashlen := 32, ma_force := True\<rparr>"

definition sample_mk_members :: "tool_member list" where
  "sample_mk_members = [\<lparr>tm_d = \<lparr>d_fd = 3, d_size = 20480, d_blksize = 512, d_discard = False\<rparr>, tm_uuid = []\<rparr>]"

definition sample_mk_os :: "bool \<Rightarrow> os" where
  "sample_mk_os aborted =
     \<lparr>os_files = (\<lambda>_. \<lparr>of_kind = Regular_file, of_bytes = replicate 20480 5, of_pos = 0, of_blksize = 512\<rparr>),
      os_paths = (\<lambda>_. None), os_calls = 0, os_fails = (\<lambda>_. False), os_short = (\<lambda>_. None), os_cancel = (\<lambda>_. aborted)\<rparr>"

definition sample_uuid :: "nat \<Rightarrow> uuid_t" where
  "sample_uuid i = replicate 16 (of_nat (i + 1))"

lemma sample_mkfs_pre: "mkfs_pre sample_mk_args sample_mk_members (sample_mk_os aborted)"
  using mk_defaults_ok
  by (simp add: mkfs_pre_def mk_storage_ok_def mk_args_ok_def sample_mk_args_def sample_mk_members_def sample_mk_os_def
      mk_chunksize_def mk_storage_def POWER_OF_2_def)

lemma sample_mk_chunksize:
  "SHFS_CHUNKSIZE (mk_hdr_common (mk_storage sample_mk_args sample_mk_members) sample_mk_args sample_uuid 7) = 4096"
  by (simp add: SHFS_CHUNKSIZE_def sample_mk_args_def mk_storage_def)

lemma sample_mk_metadata:
  "metadata_size (mk_hdr_common (mk_storage sample_mk_args sample_mk_members) sample_mk_args sample_uuid 7)
     (mk_hdr_config sample_mk_args) = Inr 3"
  "hc_vol_size (mk_hdr_common (mk_storage sample_mk_args sample_mk_members) sample_mk_args sample_uuid 7) = 4"
proof -
  show "metadata_size (mk_hdr_common (mk_storage sample_mk_args sample_mk_members) sample_mk_args sample_uuid 7)
     (mk_hdr_config sample_mk_args) = Inr 3"
    by (simp add: metadata_size_def sample_mk_chunksize SHFS_HENTRIES_PER_CHUNK_def SHFS_HTABLE_SIZE_CHUNKS_def
        SHFS_HTABLE_NB_ENTRIES_def mk_hdr_config_def DIV_ROUND_UP_def)
      (simp add: sample_mk_args_def)
  show "hc_vol_size (mk_hdr_common (mk_storage sample_mk_args sample_mk_members) sample_mk_args sample_uuid 7) = 4"
    by (simp add: sample_mk_chunksize mk_vol_size_def member_dsize_def)
      (simp add: sample_mk_args_def sample_mk_members_def mk_storage_def)
qed

theorem mkfs_interrupted_witness:
  "\<exists>st'. mkfs (mk_storage sample_mk_args sample_mk_members) sample_mk_args sample_uuid 7 [] (sample_mk_os True) = (Inl (Exit (- 2)), st') \<and>
     (os_files st' = os_files (sample_mk_os True) \<or> head_of st' (sample_mk_members ! 0) = zero_head)"
proof -
  let ?s = "mk_storage sample_mk_args sample_mk_members"
  have c: "calloc_or_die (sample_mk_os True\<lparr>os_calls := n\<rparr>) = (Inr (), sample_mk_os True\<lparr>os_calls := Suc n\<rparr>)" for n
    by (simp add: calloc_or_die_def os_call_def sample_mk_os_def)
  have "exit_if_cancelled (sample_mk_os True\<lparr>os_calls := n\<rparr>) = (Inl (Exit (- 2)), sample_mk_os True\<lparr>os_calls := n\<rparr>)" for n
    by (simp add: exit_if_cancelled_def cancelled_def sample_mk_os_def)
  moreover have "sg_member ?s \<noteq> []" "sg_stripesize ?s \<noteq> 0" by (simp_all add: sample_mk_members_def sample_mk_args_def)
  moreover have "sample_mk_os True = sample_mk_os True\<lparr>os_calls := 0\<rparr>" by (simp add: sample_mk_os_def)
  ultimately have "mkfs_prepare ?s sample_mk_args sample_uuid 7 [] (sample_mk_os True) =
      (Inl (Exit (- 2)), sample_mk_os True\<lparr>os_calls := 3\<rparr>)"
    using c [of 0] c [of 1] c [of "Suc (Suc 0)"] sample_mk_metadata
    by (simp add: mkfs_prepare_def Let_def numeral_3_eq_3)
  then have r: "mkfs ?s sample_mk_args sample_uuid 7 [] (sample_mk_os True) =
      (Inl (Exit (- 2)), sample_mk_os True\<lparr>os_calls := 3\<rparr>)" by (simp add: mkfs_def)
  from mkfs_interrupted [OF sample_mkfs_pre _ r] r show ?thesis
    by (auto simp: sample_uuid_def sample_mk_members_def)
qed

section \<open>A run without failures\<close>

lemma write_heads_ok:
  assumes "no_failures st" and "heads_fit st mbs" and "\<And>i. i < m + length mbs \<Longrightarrow> length (chk i) = 4096"
  shows "\<exists>st'. write_heads chk m mbs st = (Inr (), st') \<and> same_lengths st' st"
  using assms
proof (induction mbs arbitrary: m st)
  case Nil
  then show ?case by (simp add: same_lengths_def)
next
  case (Cons mb mbs)
  let ?fd = "d_fd (tm_d mb)"
  obtain ok st1 where l: "os_lseek ?fd 0 st = (ok, st1)" by fastforce
  obtain w st2 where w: "os_write ?fd (chk m) st1 = (w, st2)" by fastforce
  note L = os_lseek_file [OF l]
  have nf: "\<not> os_fails st n" for n using Cons.prems(1) by (simp add: no_failures_def)
  then have 1: ok "os_fails st1 = os_fails st" "os_cancel st1 = os_cancel st" "os_short st1 = os_short st"
    using l by (auto simp: os_lseek_def os_call_def os_upd_def)
  have c: "length (chk m) = 4096" using Cons.prems(3) by simp
  have b: "of_pos (os_files st1 ?fd) = 0" "4096 \<le> length (of_bytes (os_files st1 ?fd))"
    using L [of ?fd] 1 Cons.prems(2) by (simp_all add: heads_fit_def)
  have "chk m \<noteq> []" using c by auto
  have sh: "os_short st1 n = None" for n using Cons.prems(1) by (simp add: 1(4) no_failures_def)
  with \<open>chk m \<noteq> []\<close> have 2: "w \<noteq> None" "os_fails st2 = os_fails st" "os_cancel st2 = os_cancel st" "os_short st2 = os_short st"
    using w nf b c 1 by (auto simp: os_write_def os_part_whole os_call_def os_upd_def Let_def split: if_splits)
  have "length (of_bytes (os_files st2 fd)) = length (of_bytes (os_files st fd))" for fd
    using os_write_head [OF w b(1) c b(2) sh] L [of fd] by (cases "fd = ?fd") auto
  then have sl: "same_lengths st2 st" using 2 by (simp add: same_lengths_def)
  have "heads_fit st2 mbs" using Cons.prems(2) sl by (simp add: heads_fit_def same_lengths_def)
  then obtain st' where "write_heads chk (Suc m) mbs st2 = (Inr (), st')" "same_lengths st' st2"
    using Cons.IH [of st2 "Suc m"] Cons.prems(1,3) same_lengthsD(2) [OF sl] by auto
  then show ?case using l w 1(1) 2(1) same_lengths_trans [OF _ sl] by auto
qed

text \<open>Rewriting the heads changes no chunk but the first.\<close>

lemma drop_view: "4096 \<le> k \<Longrightarrow> drop 4096 xs = drop 4096 ys \<Longrightarrow> take n (drop k xs) = take n (drop k ys)"
proof -
  assume "4096 \<le> k" and e: "drop 4096 xs = drop 4096 ys"
  then have k: "k = k - 4096 + 4096" by simp
  show ?thesis by (subst k, subst (2) k) (simp only: drop_drop [symmetric] e)
qed

lemma heads_chunk_view:
  assumes pre: "mkfs_pre a ms st0" and c: "0 < c" "c < mk_vol a ms uuid now"
    and d: "\<And>fd. drop 4096 (of_bytes (os_files st' fd)) = drop 4096 (of_bytes (os_files st fd))"
  shows "chunk_view (mk_storage a ms) st' c = chunk_view (mk_storage a ms) st c"
proof (rule chunk_view_cong)
  fix p assume p: "p \<in> set (chunk_strps (mk_storage a ms) c)"
  have "1 * 4096 \<le> stripe_row (mk_storage a ms) p * unat (ma_stripesize a)"
    using mk_stripe_place(1) [OF pre c p] mk_storage_facts(1) [of a ms] pre by (intro mult_le_mono) (simp_all add: mkfs_pre_def)
  then show "stripe_view (mk_storage a ms) st' p = stripe_view (mk_storage a ms) st p"
    unfolding stripe_view_def by (intro drop_view d) simp
qed

lemma mkfs_vol_fits:
  assumes pre: "mkfs_pre a ms st" and "no_failures st"
    and lt: "\<And>m. m \<in> set ms \<Longrightarrow> length (of_bytes (os_files st (d_fd (tm_d m)))) < 2 ^ 63"
  shows "vol_fits (mk_storage a ms) st (mk_vol a ms uuid now)"
proof -
  have "stripe_fits (mk_storage a ms) st p"
    if "0 < c" "c < mk_vol a ms uuid now" "p \<in> set (chunk_strps (mk_storage a ms) c)" for c p
  proof -
    have "stripe_member (mk_storage a ms) p < length ms"
      using stripe_memberE(1) [OF mkfs_pre_storage_ok(1) [OF pre]] by simp
    then have m: "ms ! stripe_member (mk_storage a ms) p \<in> set ms" by simp
    show ?thesis
      using order_trans [OF mk_stripe_place(2) [OF pre that] mkfs_pre_dsize(2) [OF pre m]] lt [OF m]
      by (simp add: stripe_fits_def stripe_fd_def)
  qed
  moreover have "(0 + mk_vol a ms uuid now + 1) * unat (ma_nb_devs a) < 2 ^ 64"
    by (rule mk_range_bound [OF pre, where uuid = uuid and now = now]) (simp only: add_0 order_refl)
  ultimately show ?thesis
    using assms(2) mkfs_pre_storage_ok(1) [OF pre] unfolding vol_fits_def mk_storage_simps add_0 by blast
qed

text \<open>The steps before the first write succeed.\<close>

lemma mkfs_prepare_ok:
  assumes nf: "no_failures st" and nc: "\<And>n. \<not> os_cancel st n"
    and s: "sg_member s \<noteq> []" "sg_stripesize s \<noteq> 0" and ans: "ma_force a \<or> (answer \<noteq> [] \<and> hd answer \<in> {121, 89})"
    and md: "metadata_size (mk_hdr_common s a uuid now) (mk_hdr_config a) = Inr md"
      "\<not> md > hc_vol_size (mk_hdr_common s a uuid now)"
  obtains st1 where "mkfs_prepare s a uuid now answer st = (Inr (), st1)" "same_lengths st1 st" "os_files st1 = os_files st"
proof -
  define st1 where "st1 = snd (mkfs_prepare s a uuid now answer st)"
  have "fst (mkfs_prepare s a uuid now answer st) = Inr () \<and> same_lengths st1 st"
    using nf nc s ans md
    by (auto simp: st1_def mkfs_prepare_def calloc_or_die_def exit_if_cancelled_def confirm_def os_call_def cancelled_def
        no_failures_def same_lengths_def Let_def not_less [symmetric])
  then show thesis
    using that [of st1] mkfs_prepare_facts(1) [of s a uuid now answer st _ st1] by (auto simp: st1_def prod_eq_iff)
qed

lemma zero_chunks:
  assumes "concat (map f [a..<a + n]) = replicate (n * b) (0 :: u8)" and "\<And>c. a \<le> c \<Longrightarrow> c < a + n \<Longrightarrow> length (f c) = b"
    and "a \<le> c" and "c < a + n"
  shows "f c = replicate b 0"
proof -
  have len: "length (f c) = b" using assms(2-4) by simp
  have "f c = replicate (length (f c)) 0"
  proof (rule replicate_eqI)
    fix y assume "y \<in> set (f c)"
    then have "y \<in> set (concat (map f [a..<a + n]))" using assms(3,4) by auto
    then show "y = 0" unfolding assms(1) by simp
  qed simp
  then show ?thesis using len by simp
qed

lemma length_chunk_view:
  assumes "vol_fits s st V" and "0 < c" "c < V"
  shows "length (chunk_view s st c) = chunk_bytes s"
proof -
  have l: "length (stripe_view s st p) = unat (sg_stripesize s)" if "p \<in> set (chunk_strps s c)" for p
  proof -
    have "(stripe_row s p + 1) * unat (sg_stripesize s) \<le> length (of_bytes (os_files st (stripe_fd s p)))"
      using assms that by (simp add: vol_fits_def stripe_fits_def)
    then have "unat (sg_stripesize s) \<le> length (of_bytes (os_files st (stripe_fd s p))) - stripe_row s p * unat (sg_stripesize s)"
      by (simp add: algebra_simps)
    then show ?thesis by (simp add: stripe_view_def)
  qed
  have "length (concat (map (stripe_view s st) ps)) = length ps * unat (sg_stripesize s)" if "set ps \<subseteq> set (chunk_strps s c)" for ps
    using that by (induction ps) (simp_all add: l)
  then show ?thesis by (simp add: chunk_view_def chunk_bytes_def length_chunk_strps)
qed

text \<open>
  C8: a run of \<open>mkfs\<close> without failures and short transfers formats the volume. When the user agrees and the label fits,
  it returns; every member then starts with its label, chunk 1 reads back as the configuration
  asked for, every chunk of the hash table is zero (no entry), and so is the rest of the volume
  after a full format; a quick format leaves the rest as it was.
\<close>

theorem mkfs_formats:
  assumes pre: "mkfs_pre a ms st" and u: "\<And>i. length (uuid i) = 16"
    and nf: "no_failures st" and nc: "\<And>n. \<not> os_cancel st n"
    and lt: "\<And>m. m \<in> set ms \<Longrightarrow> length (of_bytes (os_files st (d_fd (tm_d m)))) < 2 ^ 63"
    and ans: "ma_force a \<or> (answer \<noteq> [] \<and> hd answer \<in> {121, 89})"
    and md: "metadata_size (mk_hdr_common (mk_storage a ms) a uuid now) (mk_hdr_config a) = Inr md"
      "\<not> md > hc_vol_size (mk_hdr_common (mk_storage a ms) a uuid now)"
  defines "s \<equiv> mk_storage a ms" and "V \<equiv> mk_vol a ms uuid now"
    and "T \<equiv> unat (SHFS_HTABLE_SIZE_CHUNKS (mk_hdr_config a) (SHFS_CHUNKSIZE (mk_hdr_common (mk_storage a ms) a uuid now)))"
  shows "\<exists>st'. mkfs s a uuid now answer st = (Inr (), st') \<and>
    (\<forall>i < length ms. head_of st' (ms ! i) = member_label s a uuid now i) \<and>
    hdr_config_get (chunk_view s st' 1) = mk_hdr_config a \<and>
    (\<forall>c. 2 \<le> c \<and> c < (if ma_fullerase a then V else 2 + T) \<longrightarrow> chunk_view s st' c = replicate (chunk_bytes s) 0) \<and>
    (\<not> ma_fullerase a \<longrightarrow> (\<forall>c. 2 + T \<le> c \<and> c < V \<longrightarrow> chunk_view s st' c = chunk_view s st c))"
proof -
  define h where "h = mk_hdr_common s a uuid now"
  have ok: "mk_storage_ok a ms" using pre by (simp add: mkfs_pre_def)
  note F = mk_storage_facts [OF ok]
  have CH: "unat (SHFS_CHUNKSIZE h) = mk_chunksize s" "4096 \<le> mk_chunksize s"
    unfolding h_def s_def by (rule mk_chunksize_unat [OF ok])+
  have fits: "2 + T \<le> V" using mk_metadata_fits [OF ok md] by (simp only: T_def V_def)
  have T: "T = unat (SHFS_HTABLE_SIZE_CHUNKS (mk_hdr_config a) (SHFS_CHUNKSIZE h))" by (simp add: T_def h_def s_def)
  have Vh: "V = unat (hc_vol_size h)" by (simp only: V_def h_def s_def)
  have cb: "chunk_bytes s = unat (SHFS_CHUNKSIZE h)"
    unfolding CH(1) by (simp add: chunk_bytes_def chunk_nb_strps_def mk_chunksize_def)
  have mem: "sg_member s = ms" "ms \<noteq> []" "sg_stripesize s \<noteq> 0"
    using ok F(1) by (auto simp: s_def mk_storage_ok_def)
  have vf0: "vol_fits s st V" unfolding s_def V_def by (rule mkfs_vol_fits [OF pre nf lt])
  note hf = mkfs_pre_storage_ok(2) [OF pre]
  \<comment> \<open>the headers are made\<close>
  obtain st1 where p1: "mkfs_prepare s a uuid now answer st = (Inr (), st1)" "same_lengths st1 st" "os_files st1 = os_files st"
    using mkfs_prepare_ok [OF nf nc _ mem(3) ans, where uuid = uuid and now = now] mem(1,2) md unfolding s_def by metis
  have hf1: "heads_fit st1 ms" using hf p1(2,3) by (simp add: heads_fit_def same_lengths_def)
  have nf1: "no_failures st1" using same_lengthsD(2) [OF p1(2)] nf by simp
  \<comment> \<open>the old heads are erased\<close>
  obtain st2 where p2: "write_heads (\<lambda>_. zero_head) 0 ms st1 = (Inr (), st2)" "same_lengths st2 st1"
    using write_heads_ok [OF nf1 hf1, of 0 "\<lambda>_. zero_head"] by auto
  have d2: "drop 4096 (of_bytes (os_files st2 fd)) = drop 4096 (of_bytes (os_files st fd))" for fd
    using write_heads_frame [OF p2(1) hf1] p1(3) by simp
  have v2: "chunk_view s st2 c = chunk_view s st c" if "0 < c" "c < V" for c
    unfolding s_def using that unfolding V_def by (rule heads_chunk_view [OF pre _ _ d2])
  have sl2: "same_lengths st2 st" by (rule same_lengths_trans [OF p2(2) p1(2)])
  have vf2: "vol_fits s st2 V" using vf0 same_lengths_vol_fits [OF sl2] by simp
  \<comment> \<open>the volume is erased\<close>
  define E where "E = (if ma_fullerase a then V else 2 + T)"
  define l where "l = (if ma_fullerase a then hc_vol_size h - 2 else SHFS_HTABLE_SIZE_CHUNKS (mk_hdr_config a) (SHFS_CHUNKSIZE h))"
  have "2 \<le> hc_vol_size h" using fits by (simp add: word_le_nat_alt Vh)
  then have "2 + unat (hc_vol_size h - 2) = unat (hc_vol_size h)" by (simp add: unat_sub word_le_nat_alt)
  then have l: "2 + unat l = E" by (simp only: l_def E_def T Vh split: if_split) simp
  have E: "E \<le> V" "2 \<le> E" using fits by (simp_all add: E_def)
  have le2: "unat (2 :: u64) + unat l \<le> V" using l E(1) by simp
  obtain st3 where p3: "sync_erase_chunk s 2 l st2 = (Inr True, st3)" "same_lengths st3 st2"
    "concat (map (chunk_view s st3) [2..<2 + unat l]) = replicate (unat l * chunk_bytes s) 0"
    "\<And>c. c < V \<Longrightarrow> \<not> (2 \<le> c \<and> c < 2 + unat l) \<Longrightarrow> chunk_view s st3 c = chunk_view s st2 c"
    using sync_erase_views [OF vf2 _ le2] by auto
  have vf3: "vol_fits s st3 V" using vf2 same_lengths_vol_fits [OF p3(2)] by simp
  have z3: "chunk_view s st3 c = replicate (chunk_bytes s) 0" if "2 \<le> c" "c < E" for c
    using that E(1) l by (intro zero_chunks [OF p3(3)] length_chunk_view [OF vf3]) simp_all
  have e3: "mkfs_erase s a h (mk_hdr_config a) st2 = (Inr (), st3)"
    using p3(1) by (simp add: mkfs_erase_def l_def mk_hdr_config_def or_die_def Let_def split: if_splits)
  \<comment> \<open>the configuration is written\<close>
  have lc: "length (hdr_config_put (mk_hdr_config a)) = 27" by (simp add: hdr_config_put_def)
  have "4096 \<le> unat (SHFS_CHUNKSIZE h)" using CH by simp
  then have k1: "length (mk_chk1 (unat (SHFS_CHUNKSIZE h)) (mk_hdr_config a)) = unat (1 :: u64) * chunk_bytes s"
    by (simp add: mk_chk1_def Let_def lc cb)
  have le1: "unat (1 :: u64) + unat (1 :: u64) \<le> V" using E by simp
  obtain st4 where p4: "sync_write_chunk s 1 1 (mk_chk1 (unat (SHFS_CHUNKSIZE h)) (mk_hdr_config a)) st3 =
      (Inr True, mk_chk1 (unat (SHFS_CHUNKSIZE h)) (mk_hdr_config a), st4)" "same_lengths st4 st3"
    "concat (map (chunk_view s st4) [unat (1 :: u64)..<unat (1 :: u64) + unat (1 :: u64)]) = mk_chk1 (unat (SHFS_CHUNKSIZE h)) (mk_hdr_config a)"
    "\<And>c. c < V \<Longrightarrow> \<not> (unat (1 :: u64) \<le> c \<and> c < unat (1 :: u64) + unat (1 :: u64)) \<Longrightarrow> chunk_view s st4 c = chunk_view s st3 c"
    using sync_write_views [OF vf3 one_neq_zero le1 k1] by metis
  have c4: "chunk_view s st4 1 = mk_chk1 (unat (SHFS_CHUNKSIZE h)) (mk_hdr_config a)"
    using p4(3) by (simp add: upt_rec)
  have o4: "chunk_view s st4 c = chunk_view s st3 c" if "c < V" "2 \<le> c" for c
    using p4(4) [OF that(1)] that(2) by simp
  \<comment> \<open>the labels are written\<close>
  have sl4: "same_lengths st4 st" using same_lengths_trans [OF p4(2) same_lengths_trans [OF p3(2) sl2]] .
  have nf4: "no_failures st4" and hf4: "heads_fit st4 ms"
    using same_lengthsD(2) [OF sl4] nf sl4 hf by (simp_all add: heads_fit_def same_lengths_def)
  have ll: "i < 0 + length ms \<Longrightarrow> length (member_label s a uuid now i) = 4096" for i
    unfolding s_def by (rule length_member_label [OF ok u]) simp
  obtain st5 where p5: "write_heads (member_label s a uuid now) 0 ms st4 = (Inr (), st5)" "same_lengths st5 st4"
    using write_heads_ok [where chk = "member_label s a uuid now" and m = 0, OF nf4 hf4 ll] by auto
  note W5 = write_heads_frame [where chk = "member_label s a uuid now" and m = 0, OF p5(1) hf4 ll]
  have d5: "drop 4096 (of_bytes (os_files st5 fd)) = drop 4096 (of_bytes (os_files st4 fd))" for fd using W5 by blast
  have v5: "chunk_view s st5 c = chunk_view s st4 c" if "0 < c" "c < V" for c
    unfolding s_def using that unfolding V_def by (rule heads_chunk_view [OF pre _ _ d5])
  have nc': "\<not> cancelled st3" "\<not> cancelled st4"
    using nc sl2 p3(2) p4(2) by (simp_all add: cancelled_def same_lengths_def)
  have lab: "member_label s a uuid now = (\<lambda>m. mk_chk0 (h\<lparr>hc_member_uuid := uuid_copy (hc_member h ! m)\<rparr>))"
    by (simp add: member_label_def [abs_def] h_def Let_def)
  have run: "mkfs s a uuid now answer st = (Inr (), st5)"
    using p1(1) p2(1) e3 p4(1) p5(1) nc'
    unfolding mkfs_def h_def [symmetric] Let_def lab mem(1) by (simp add: exit_if_cancelled_def or_die_def)
  have "\<forall>i < length ms. head_of st5 (ms ! i) = member_label s a uuid now i"
    using W5 by auto
  moreover have "hdr_config_get (chunk_view s st5 1) = mk_hdr_config a"
    using v5 [of 1] E c4 by (simp add: mk_chk1_def Let_def hdr_config_get_put)
  moreover have "chunk_view s st5 c = replicate (chunk_bytes s) 0" if "2 \<le> c" "c < E" for c
    using that E(1) z3 [OF that] by (simp add: v5 o4)
  moreover have "chunk_view s st5 c = chunk_view s st c" if "\<not> ma_fullerase a" "2 + T \<le> c" "c < V" for c
    using that l by (simp add: v5 o4 p3(4) v2 E_def)
  ultimately show ?thesis using run unfolding E_def by blast
qed

theorem mkfs_formats_witness:
  "\<exists>st'. mkfs (mk_storage sample_mk_args sample_mk_members) sample_mk_args sample_uuid 7 [] (sample_mk_os False) = (Inr (), st') \<and>
     hdr_config_get (chunk_view (mk_storage sample_mk_args sample_mk_members) st' 1) = mk_hdr_config sample_mk_args \<and>
     chunk_view (mk_storage sample_mk_args sample_mk_members) st' 2 = replicate 4096 0"
proof -
  let ?s = "mk_storage sample_mk_args sample_mk_members"
  let ?T = "SHFS_HTABLE_SIZE_CHUNKS (mk_hdr_config sample_mk_args) (SHFS_CHUNKSIZE (mk_hdr_common ?s sample_mk_args sample_uuid 7))"
  have nf: "no_failures (sample_mk_os False)" and nc: "\<not> os_cancel (sample_mk_os False) n" and u: "length (sample_uuid i) = 16"
    and lt: "length (of_bytes (os_files (sample_mk_os False) (d_fd (tm_d m)))) < 2 ^ 63" for n i m
    by (simp_all add: no_failures_def sample_mk_os_def sample_uuid_def)
  have f: "ma_force sample_mk_args" "\<not> ma_fullerase sample_mk_args" by (simp_all add: sample_mk_args_def mk_defaults_def)
  have cb: "chunk_bytes ?s = 4096"
    by (simp add: chunk_bytes_def chunk_nb_strps_def) (simp add: sample_mk_args_def mk_storage_def)
  have T: "0 < unat ?T"
    by (simp add: sample_mk_chunksize SHFS_HTABLE_SIZE_CHUNKS_def SHFS_HENTRIES_PER_CHUNK_def SHFS_HTABLE_NB_ENTRIES_def mk_hdr_config_def DIV_ROUND_UP_def)
      (simp add: sample_mk_args_def)
  have "\<not> (3 :: u64) > hc_vol_size (mk_hdr_common ?s sample_mk_args sample_uuid 7)"
    unfolding sample_mk_metadata(2) by simp
  from mkfs_formats [OF sample_mkfs_pre u nf nc lt disjI1 [OF f(1)] sample_mk_metadata(1) this, of "[]"] obtain st' where
    "mkfs ?s sample_mk_args sample_uuid 7 [] (sample_mk_os False) = (Inr (), st')"
    "hdr_config_get (chunk_view ?s st' 1) = mk_hdr_config sample_mk_args"
    "\<And>c. 2 \<le> c \<Longrightarrow> c < (if ma_fullerase sample_mk_args then mk_vol sample_mk_args sample_mk_members sample_uuid 7 else 2 + unat ?T) \<Longrightarrow>
      chunk_view ?s st' c = replicate (chunk_bytes ?s) 0"
    by blast
  moreover from this(3) [of 2] have "chunk_view ?s st' 2 = replicate 4096 0" using f(2) T cb by simp
  ultimately show ?thesis by blast
qed

end
