(* ===== verification/Admin.thy ===== *)
theory Admin
  imports Prelude HashVal Htable Btable Alist ShfsDefs Tools Mkfs
begin

text \<open>
  The administration tool (\<open>shfs/shfs-tools/shfs_admin.c\<close>): mounting a volume into memory, the
  actions on its objects, and the write-back of the hash table.

  The state is \<open>shfs_vol\<close> with the host of \<open>Tools\<close>. A chunk of the hash table that is cached is
  its bytes (\<open>None\<close>: no buffer), its \<open>CCS_MODIFIED\<close> flag a truth value; a pointer to a table entry
  is its slot. What \<open>malloc\<close> leaves in fresh memory is \<open>ad_junk\<close>. Parameters are what the
  libraries compute: the digest of \<open>mhash\<close> (with the 64 bytes of the buffer it is stored in), the
  fields \<open>http_parser\<close> finds in a URL, and the time. Console output is left out. A loop over a
  broken list, which does not end, is \<open>Crash No_return\<close>.
\<close>

section \<open>State\<close>

record adm =
  ad_os :: os
  ad_junk :: "nat \<Rightarrow> u8"
  ad_chunksize :: u32
  ad_volsize :: chk_t
  ad_s :: storage
  ad_bt :: btable
  ad_cache :: "u8 list option list"
  ad_modified :: "bool list"
  ad_htable_ref :: chk_t
  ad_htable_bak_ref :: chk_t
  ad_htable_len :: chk_t
  ad_nb_buckets :: u32
  ad_nb_entries_per_bucket :: u32
  ad_nb_entries :: u32
  ad_nb_entries_per_chunk :: u32
  ad_hfunc :: u8
  ad_hlen :: u8
  ad_def_bentry :: "elref option"
  ad_allocator :: u8
  ad_al :: shfs_alist

definition on_os :: "(os \<Rightarrow> 'a \<times> os) \<Rightarrow> adm \<Rightarrow> 'a \<times> adm" where
  "on_os f a = (let (r, st) = f (ad_os a) in (r, a\<lparr>ad_os := st\<rparr>))"

abbreviation MAX_NB_TRY_BLKDEVS :: nat where "MAX_NB_TRY_BLKDEVS \<equiv> 16"
abbreviation STDOUT_FILENO :: nat where "STDOUT_FILENO \<equiv> 1"

definition adm_die :: "adm \<Rightarrow> (stop + 'a) \<times> adm" where
  "adm_die a = (Inl (Exit EXIT_FAILURE), a)"

definition crash :: "fault \<Rightarrow> adm \<Rightarrow> (stop + 'a) \<times> adm" where
  "crash f a = (Inl (Crash f), a)"

text \<open>An action returns a number or goes on; cleaning up after a number.\<close>

type_synonym 'a act = "(stop + (int + 'a)) \<times> adm"

definition ret :: "int \<Rightarrow> adm \<Rightarrow> 'a act" where
  "ret n a = (Inr (Inl n), a)"

definition abind :: "'a act \<Rightarrow> ('a \<Rightarrow> adm \<Rightarrow> 'b act) \<Rightarrow> 'b act" where
  "abind m k = tbind m (\<lambda>r a. case r of Inl n \<Rightarrow> ret n a | Inr x \<Rightarrow> k x a)"

definition on_ret :: "'a act \<Rightarrow> (adm \<Rightarrow> (stop + unit) \<times> adm) \<Rightarrow> 'a act" where
  "on_ret m h = tbind m (\<lambda>r a. case r of Inl n \<Rightarrow> tbind (h a) (\<lambda>_ a. ret n a) | Inr x \<Rightarrow> (Inr (Inr x), a))"

text \<open>\<open>malloc\<close> of a buffer: its bytes, or \<open>None\<close>.\<close>

definition adm_malloc :: "nat \<Rightarrow> adm \<Rightarrow> u8 list option \<times> adm" where
  "adm_malloc n a =
     (let (f, a) = on_os os_call a in (if f then None else Some (map (ad_junk a) [0..<n]), a))"

section \<open>Mounting\<close>

text \<open>Seek to the start of a disk and read its first 4096 bytes into \<open>chk0\<close>.\<close>

definition read_head :: "disk \<Rightarrow> u8 list \<Rightarrow> adm \<Rightarrow> (stop + u8 list) \<times> adm" where
  "read_head d chk0 a =
     (case on_os (os_lseek (d_fd d) 0) a of
        (False, a) \<Rightarrow> adm_die a
      | (True, a) \<Rightarrow>
          (case on_os (os_read (d_fd d) 4096) a of
             (None, a) \<Rightarrow> adm_die a
           | (Some bs, a) \<Rightarrow> (Inr (write_at 0 0 bs chk0), a)))"

definition checkopen_disk :: "string \<Rightarrow> u8 list \<Rightarrow> adm \<Rightarrow> (stop + (disk \<times> u8 list)) \<times> adm" where
  "checkopen_disk path chk0 a =
     (case on_os (open_disk path) a of
        (None, a) \<Rightarrow> adm_die a
      | (Some d, a) \<Rightarrow>
          if d_blksize d < 512 \<or> \<not> POWER_OF_2 (d_blksize d) then adm_die a
          else tbind (read_head d chk0 a) (\<lambda>chk0 a.
               if shfs_detect_hdr0 chk0 < 0 then adm_die a else (Inr (d, chk0), a)))"

fun detect_disks :: "string list \<Rightarrow> u8 list \<Rightarrow> adm \<Rightarrow> (stop + (tool_member list \<times> u8 list)) \<times> adm" where
  "detect_disks [] chk0 a = (Inr ([], chk0), a)"
| "detect_disks (p # ps) chk0 a =
     tbind (checkopen_disk p chk0 a) (\<lambda>(d, chk0) a.
       let m = \<lparr>tm_d = d, tm_uuid = uuid_copy (hc_member_uuid (hdr_common_get (drop BOOT_AREA_LENGTH chk0)))\<rparr>
       in tbind (detect_disks ps chk0 a) (\<lambda>(ms, chk0) a. (Inr (m # ms, chk0), a)))"

text \<open>The members of the label among the detected disks; \<open>None\<close> is a member found twice.\<close>

fun match_uuid :: "uuid_t \<Rightarrow> tool_member list \<Rightarrow> tool_member list \<Rightarrow> tool_member list option" where
  "match_uuid u [] ms = Some ms"
| "match_uuid u (d # ds) ms =
     (if uuid_compare u (tm_uuid d) = 0 then
        if \<exists>m \<in> set ms. uuid_compare (tm_uuid m) u = 0 then None else match_uuid u ds (ms @ [d])
      else match_uuid u ds ms)"

fun match_disks :: "uuid_t list \<Rightarrow> tool_member list \<Rightarrow> tool_member list \<Rightarrow> tool_member list option" where
  "match_disks [] ds ms = Some ms"
| "match_disks (u # us) ds ms =
     (case match_uuid u ds ms of None \<Rightarrow> None | Some ms \<Rightarrow> match_disks us ds ms)"

definition adm_min_member_size :: "storage \<Rightarrow> chk_t \<Rightarrow> fault + u64" where
  "adm_min_member_size s volsize =
     (if sg_stripemode s = SHFS_SM_COMBINED then Inr ((volsize + 1) * ucast (sg_stripesize s))
      else if sg_nb_members s = 0 then Inl Div_by_zero
      else Inr (((volsize + 1) div ucast (sg_nb_members s)) * ucast (sg_stripesize s)))"

definition adm_load_vol_cconf :: "string list \<Rightarrow> adm \<Rightarrow> (stop + unit) \<times> adm" where
  "adm_load_vol_cconf path a =
     (if length path > MAX_NB_TRY_BLKDEVS then adm_die a
      else case adm_malloc 4096 a of
        (None, a) \<Rightarrow> adm_die a
      | (Some chk0, a) \<Rightarrow>
          tbind (detect_disks path chk0 a) (\<lambda>(detected, chk0) a.
          if detected = [] then adm_die a
          else tbind (read_head (tm_d (hd detected)) chk0 a) (\<lambda>chk0 a.
          let h = hdr_common_get (drop BOOT_AREA_LENGTH chk0);
              s = \<lparr>sg_member = [], sg_nb_members = 0, sg_stripesize = hc_member_stripesize h,
                   sg_stripemode = hc_member_stripemode h\<rparr>
          in if sg_stripemode s \<noteq> SHFS_SM_COMBINED \<and> sg_stripemode s \<noteq> SHFS_SM_INDEPENDENT then adm_die a
             else let a = a\<lparr>ad_chunksize := SHFS_CHUNKSIZE h, ad_volsize := hc_vol_size h\<rparr>
             in case match_disks (take (unat (hc_member_count h)) (hc_member h)) detected [] of
                  None \<Rightarrow> adm_die a
                | Some ms \<Rightarrow>
                    let s = s\<lparr>sg_member := ms, sg_nb_members := of_nat (length ms)\<rparr>; a = a\<lparr>ad_s := s\<rparr>
                    in if unat (sg_nb_members s) \<noteq> length path then adm_die a
                       else if sg_nb_members s \<noteq> hc_member_count h then adm_die a
                       else if sg_stripesize s < 4096 \<or> \<not> POWER_OF_2 (sg_stripesize s) then adm_die a
                       else case adm_min_member_size s (ad_volsize a) of
                              Inl f \<Rightarrow> crash f a
                            | Inr n \<Rightarrow> if \<exists>m \<in> set ms. d_size (tm_d m) < n then adm_die a else (Inr (), a))))"

text \<open>Chunk I/O of the volume: the buffer, or -1.\<close>

definition adm_read_chunk :: "chk_t \<Rightarrow> u8 list \<Rightarrow> adm \<Rightarrow> (stop + (bool \<times> u8 list)) \<times> adm" where
  "adm_read_chunk c buf a =
     (let (r, buf, st) = sync_read_chunk (ad_s a) c 1 buf (ad_os a); a = a\<lparr>ad_os := st\<rparr>
      in case r of Inl f \<Rightarrow> crash f a | Inr ok \<Rightarrow> (Inr (ok, buf), a))"

definition adm_write_chunk :: "chk_t \<Rightarrow> u8 list \<Rightarrow> adm \<Rightarrow> (stop + bool) \<times> adm" where
  "adm_write_chunk c buf a =
     (let (r, _, st) = sync_write_chunk (ad_s a) c 1 buf (ad_os a); a = a\<lparr>ad_os := st\<rparr>
      in case r of Inl f \<Rightarrow> crash f a | Inr ok \<Rightarrow> (Inr ok, a))"

definition adm_load_vol_hconf :: "adm \<Rightarrow> (stop + unit) \<times> adm" where
  "adm_load_vol_hconf a =
     (case adm_malloc (unat (ad_chunksize a)) a of
        (None, a) \<Rightarrow> adm_die a
      | (Some chk1, a) \<Rightarrow>
          tbind (adm_read_chunk 1 chk1 a) (\<lambda>(ok, chk1) a.
          if \<not> ok then adm_die a
          else let c = hdr_config_get chk1
          in if SHFS_HENTRIES_PER_CHUNK (ad_chunksize a) = 0 then crash Div_by_zero a
             else let a = a\<lparr>ad_htable_ref := cf_htable_ref c, ad_htable_bak_ref := cf_htable_bak_ref c,
                        ad_nb_entries := SHFS_HTABLE_NB_ENTRIES c,
                        ad_nb_entries_per_chunk := ucast (SHFS_HENTRIES_PER_CHUNK (ad_chunksize a)),
                        ad_htable_len := SHFS_HTABLE_SIZE_CHUNKS c (ad_chunksize a),
                        ad_nb_buckets := cf_htable_bucket_count c,
                        ad_nb_entries_per_bucket := cf_htable_entries_per_bucket c,
                        ad_hfunc := cf_hfunc c, ad_hlen := cf_hlen c, ad_allocator := cf_allocator c\<rparr>
             in if ad_htable_len a = 0 then adm_die a else (Inr (), a)))"

text \<open>An entry of the hash table in the cached chunks.\<close>

definition cached :: "u64 \<Rightarrow> adm \<Rightarrow> fault + u8 list" where
  "cached chk a =
     (if unat chk \<ge> length (ad_cache a) then Inl Out_of_bounds
      else case ad_cache a ! unat chk of None \<Rightarrow> Inl Null_deref | Some buf \<Rightarrow> Inr buf)"

definition hentry_at :: "u64 \<Rightarrow> u64 \<Rightarrow> adm \<Rightarrow> fault + shfs_hentry" where
  "hentry_at chk off a =
     (case cached chk a of
        Inl f \<Rightarrow> Inl f
      | Inr buf \<Rightarrow> if unat off + 244 > length buf then Inl Out_of_bounds
                   else Inr (hentry_get (field buf (unat off) 244)))"

definition put_hentry :: "u64 \<Rightarrow> u64 \<Rightarrow> shfs_hentry \<Rightarrow> adm \<Rightarrow> adm" where
  "put_hentry chk off e a =
     (case cached chk a of
        Inl f \<Rightarrow> a
      | Inr buf \<Rightarrow> a\<lparr>ad_cache := (ad_cache a)[unat chk := Some (write_at (unat off) 0 (hentry_put e) buf)]\<rparr>)"

definition hentry_of :: "elref \<Rightarrow> adm \<Rightarrow> fault + shfs_hentry" where
  "hentry_of el a =
     (let b = ht_private (ad_bt a) el in hentry_at (hentry_htchunk b) (hentry_htoffset b) a)"

text \<open>Storing an entry and marking its chunk.\<close>

definition set_hentry :: "elref \<Rightarrow> shfs_hentry \<Rightarrow> adm \<Rightarrow> adm" where
  "set_hentry el e a =
     (let b = ht_private (ad_bt a) el; a = put_hentry (hentry_htchunk b) (hentry_htoffset b) e a
      in a\<lparr>ad_modified := (ad_modified a)[unat (hentry_htchunk b) := True]\<rparr>)"

text \<open>The loop of \<open>load_vol_htable\<close> over the entry numbers; \<open>cur\<close> is \<open>cur_chk\<close> once a chunk is read.\<close>

definition feed_one :: "u32 \<Rightarrow> u64 \<Rightarrow> adm \<Rightarrow> (stop + unit) \<times> adm" where
  "feed_one i htchk a =
     (let off = SHFS_HTABLE_ENTRY_OFFSET i (ad_nb_entries_per_chunk a)
      in case hentry_at htchk off a of
           Inl f \<Rightarrow> crash f a
         | Inr e \<Rightarrow>
             (case shfs_btable_feed (ad_bt a) (ucast i) (he_hash e) of
                Inl (Fault f) \<Rightarrow> crash f a
              | Inl (Errno _) \<Rightarrow> crash Null_deref a
              | Inr (el, bt) \<Rightarrow>
                  let bt = bt\<lparr>ht_private := (ht_private bt)(el := (ht_private bt el)
                             \<lparr>hentry_htchunk := htchk, hentry_htoffset := off\<rparr>)\<rparr>;
                      a = a\<lparr>ad_bt := bt\<rparr>
                  in (Inr (), if SHFS_HENTRY_ISDEFAULT e then a\<lparr>ad_def_bentry := Some el\<rparr> else a)))"

definition read_htchunk :: "u64 \<Rightarrow> adm \<Rightarrow> (stop + unit) \<times> adm" where
  "read_htchunk htchk a =
     (case adm_malloc (unat (ad_chunksize a)) a of
        (None, a) \<Rightarrow> adm_die a
      | (Some buf, a) \<Rightarrow>
          tbind (adm_read_chunk (htchk + ad_htable_ref a) buf a) (\<lambda>(ok, buf) a.
          if \<not> ok then adm_die a
          else if unat htchk \<ge> length (ad_cache a) then crash Out_of_bounds a
          else (Inr (), a\<lparr>ad_cache := (ad_cache a)[unat htchk := Some buf],
                         ad_modified := (ad_modified a)[unat htchk := False]\<rparr>)))"

fun load_entries :: "nat list \<Rightarrow> u64 option \<Rightarrow> adm \<Rightarrow> (stop + unit) \<times> adm" where
  "load_entries [] cur a = (Inr (), a)"
| "load_entries (i # is) cur a =
     (if ad_nb_entries_per_chunk a = 0 then crash Div_by_zero a
      else let htchk = ucast (SHFS_HTABLE_CHUNK_NO (of_nat i) (ad_nb_entries_per_chunk a))
      in case (if cur = Some htchk then (Inr (), a) else read_htchunk htchk a) of
           (Inl e, a) \<Rightarrow> (Inl e, a)
         | (Inr _, a) \<Rightarrow>
             (case feed_one (of_nat i) htchk a of
                (Inl e, a) \<Rightarrow> (Inl e, a)
              | (Inr _, a) \<Rightarrow> load_entries is (Some htchk) a))"

definition adm_load_vol_htable :: "adm \<Rightarrow> (stop + unit) \<times> adm" where
  "adm_load_vol_htable a =
     (let (f, a) = on_os os_call a;
          n = os_calls (ad_os a); bmem = (\<lambda>i. \<not> os_fails (ad_os a) (n + i));
          a = a\<lparr>ad_os := (ad_os a)\<lparr>os_calls := n + unat (ad_nb_buckets a)\<rparr>\<rparr>
      in case shfs_alloc_btable (\<not> f) bmem (ad_nb_buckets a) (ad_nb_entries_per_bucket a) (ad_hlen a) of
           Inl _ \<Rightarrow> adm_die a
         | Inr bt \<Rightarrow>
             let a = a\<lparr>ad_bt := bt\<rparr>; (f1, a) = on_os os_call a; (f2, a) = on_os os_call a;
                 a = a\<lparr>ad_modified := map (\<lambda>i. ad_junk a i AND 2 \<noteq> 0) [0..<unat (ad_htable_len a)],
                       ad_cache := replicate (unat (ad_htable_len a)) None\<rparr>
             in if f1 \<or> f2 then adm_die a
                else load_entries [0..<unat (ad_nb_entries a)] None a)"

text \<open>
  The allocator. A list node is allocated at an address of its own, and what \<open>register\<close> returns
  matters only for the label and the hash table.
\<close>

definition adm_register :: "chk_t \<Rightarrow> chk_t \<Rightarrow> adm \<Rightarrow> (stop + bool) \<times> adm" where
  "adm_register start len a =
     (let (f, a) = on_os os_call a;
          mem = (if f then None else Some (of_nat (os_calls (ad_os a))))
      in case shfs_alist_register mem (ad_al a) start len of
           None \<Rightarrow> crash No_return a
         | Some (Inl _) \<Rightarrow> (Inr False, a)
         | Some (Inr al) \<Rightarrow> (Inr True, a\<lparr>ad_al := al\<rparr>))"

definition adm_unregister :: "chk_t \<Rightarrow> chk_t \<Rightarrow> adm \<Rightarrow> (stop + bool) \<times> adm" where
  "adm_unregister start len a =
     (case shfs_alist_unregister (ad_al a) start len of
        None \<Rightarrow> crash No_return a
      | Some (Inl _) \<Rightarrow> (Inr False, a)
      | Some (Inr al) \<Rightarrow> (Inr True, a\<lparr>ad_al := al\<rparr>))"

definition chunks_of :: "u64 \<Rightarrow> adm \<Rightarrow> chk_t" where
  "chunks_of n a = DIV_ROUND_UP n (ucast (ad_chunksize a))"

fun register_containers :: "elref list \<Rightarrow> adm \<Rightarrow> (stop + unit) \<times> adm" where
  "register_containers [] a = (Inr (), a)"
| "register_containers (el # els) a =
     (case hentry_of el a of
        Inl f \<Rightarrow> crash f a
      | Inr e \<Rightarrow>
          let fa = SHFS_HENTRY_FILEATTR e
          in if ad_chunksize a = 0 then crash Div_by_zero a
             else case adm_register (fa_chunk fa) (chunks_of (fa_offset fa + fa_len fa) a) a of
                    (Inl x, a) \<Rightarrow> (Inl x, a)
                  | (Inr _, a) \<Rightarrow> register_containers els a)"

definition adm_load_vol_alist :: "adm \<Rightarrow> (stop + unit) \<times> adm" where
  "adm_load_vol_alist a =
     (let (f, a) = on_os os_call a
      in case shfs_alloc_alist (\<not> f) (\<lambda>_. \<lparr>ae_start = 0, ae_end = 0\<rparr>) (\<lambda>_. \<lparr>dl_next = None, dl_prev = None\<rparr>)
                (ad_volsize a) (ad_allocator a) of
           Inl _ \<Rightarrow> adm_die a
         | Inr al \<Rightarrow>
             let need = (\<lambda>start len a. tbind (adm_register start len a) (\<lambda>ok a. if ok then (Inr (), a) else adm_die a))
             in tbind (need 0 2 (a\<lparr>ad_al := al\<rparr>)) (\<lambda>_ a.
                tbind (need (ad_htable_ref a) (ad_htable_len a) a) (\<lambda>_ a.
                tbind (if ad_htable_bak_ref a \<noteq> 0 then need (ad_htable_bak_ref a) (ad_htable_len a) a else (Inr (), a)) (\<lambda>_ a.
                case foreach_htable_el (ad_bt a) of
                  None \<Rightarrow> crash No_return a
                | Some els \<Rightarrow> register_containers els a))))"

definition adm_mount_shfs :: "string list \<Rightarrow> adm \<Rightarrow> (stop + unit) \<times> adm" where
  "adm_mount_shfs path a =
     (if path = [] then adm_die a
      else tbind (adm_load_vol_cconf path a) (\<lambda>_ a.
           tbind (adm_load_vol_hconf a) (\<lambda>_ a.
           tbind (adm_load_vol_htable a) (\<lambda>_ a. adm_load_vol_alist a))))"

text \<open>The write-back.\<close>

definition write_back :: "chk_t \<Rightarrow> u8 list option \<Rightarrow> adm \<Rightarrow> (stop + unit) \<times> adm" where
  "write_back c buf a =
     (case buf of
        None \<Rightarrow> crash Null_deref a
      | Some buf \<Rightarrow> tbind (adm_write_chunk c buf a) (\<lambda>ok a. if ok then (Inr (), a) else adm_die a))"

fun write_back_chunks :: "nat list \<Rightarrow> adm \<Rightarrow> (stop + unit) \<times> adm" where
  "write_back_chunks [] a = (Inr (), a)"
| "write_back_chunks (i # is) a =
     (if ad_modified a ! i then
        (case write_back (ad_htable_ref a + of_nat i) (ad_cache a ! i) a of
           (Inl e, a) \<Rightarrow> (Inl e, a)
         | (Inr _, a) \<Rightarrow>
             if ad_htable_bak_ref a \<noteq> 0 then
               (case write_back (ad_htable_bak_ref a + of_nat i) (ad_cache a ! i) a of
                  (Inl e, a) \<Rightarrow> (Inl e, a)
                | (Inr _, a) \<Rightarrow> write_back_chunks is a)
             else write_back_chunks is a)
      else write_back_chunks is a)"

definition adm_umount_shfs :: "adm \<Rightarrow> (stop + unit) \<times> adm" where
  "adm_umount_shfs a =
     tbind (write_back_chunks [0..<unat (ad_htable_len a)] a) (\<lambda>_ a.
       (Inr (), a\<lparr>ad_os := fold (close_disk \<circ> tm_d) (sg_member (ad_s a)) (ad_os a)\<rparr>))"

end
