(* ===== verification/AdminActs.thy ===== *)
theory AdminActs
  imports Prelude HashVal Htable Btable Alist ShfsDefs Tools Mkfs Admin
begin

text \<open>
  The actions of the administration tool on a mounted volume, its arguments and its main program
  (\<open>shfs/shfs-tools/shfs_admin.c\<close>).
\<close>

section \<open>Arguments\<close>

datatype action = ADDOBJ | ADDLNK | RMOBJ | CATOBJ | SETDEFOBJ | CLEARDEFOBJ | LSOBJS | SHOWINFO
datatype ltype = LREDIRECT | LRAW | LAUTO

record token =
  tn_action :: action
  tn_path :: string
  tn_optstr0 :: "string option"
  tn_optstr1 :: "string option"
  tn_optstr2 :: "string option"
  tn_ltype :: ltype

definition lower :: "char \<Rightarrow> char" where
  "lower c = (let n = of_char c :: nat in if 65 \<le> n \<and> n \<le> 90 then char_of (n + 32) else c)"

definition parse_args_set_ltype :: "string \<Rightarrow> ltype option" where
  "parse_args_set_ltype arg =
     (let s = map lower arg
      in if s = ''redirect'' then Some LREDIRECT else if s = ''raw'' then Some LRAW
         else if s = ''auto'' then Some LAUTO else None)"

definition new_token :: "action \<Rightarrow> string \<Rightarrow> token" where
  "new_token act path =
     \<lparr>tn_action = act, tn_path = path, tn_optstr0 = None, tn_optstr1 = None, tn_optstr2 = None, tn_ltype = LREDIRECT\<rparr>"

text \<open>
  An option adds a token at the end of the list or changes the last one. A failed allocation
  exits with the status of an invalid option.
\<close>

definition upd_last :: "(token \<Rightarrow> bool) \<Rightarrow> (token \<Rightarrow> token) \<Rightarrow> token list \<Rightarrow> parse_end + token list" where
  "upd_last ok f ts =
     (if ts = [] \<or> \<not> ok (last ts) then Inl Parse_einval else Inr (butlast ts @ [f (last ts)]))"

definition adm_opt :: "char \<Rightarrow> string \<Rightarrow> token list \<Rightarrow> parse_end + token list" where
  "adm_opt opt optarg ts =
     (if opt = CHR ''h'' \<or> opt = CHR ''?'' \<or> opt = CHR ''V'' then Inl Parse_exit
      else if opt = CHR ''v'' \<or> opt = CHR ''f'' then Inr ts
      else if opt = CHR ''a'' then Inr (ts @ [new_token ADDOBJ optarg])
      else if opt = CHR ''u'' then Inr (ts @ [new_token ADDLNK optarg])
      else if opt = CHR ''m'' then
        upd_last (\<lambda>t. tn_action t = ADDOBJ) (\<lambda>t. t\<lparr>tn_optstr0 := Some optarg\<rparr>) ts
      else if opt = CHR ''n'' then
        upd_last (\<lambda>t. tn_action t = ADDOBJ \<or> tn_action t = ADDLNK) (\<lambda>t. t\<lparr>tn_optstr1 := Some optarg\<rparr>) ts
      else if opt = CHR ''D'' then
        upd_last (\<lambda>t. tn_action t = ADDOBJ \<or> tn_action t = ADDLNK) (\<lambda>t. t\<lparr>tn_optstr2 := Some optarg\<rparr>) ts
      else if opt = CHR ''t'' then
        (if ts = [] \<or> tn_action (last ts) \<noteq> ADDLNK then Inl Parse_einval
         else case parse_args_set_ltype optarg of
                None \<Rightarrow> Inl Parse_einval
              | Some l \<Rightarrow> upd_last (\<lambda>_. True) (\<lambda>t. t\<lparr>tn_ltype := l\<rparr>) ts)
      else if opt = CHR ''r'' then Inr (ts @ [new_token RMOBJ optarg])
      else if opt = CHR ''c'' then Inr (ts @ [new_token CATOBJ optarg])
      else if opt = CHR ''d'' then Inr (ts @ [new_token SETDEFOBJ optarg])
      else if opt = CHR ''C'' then Inr (ts @ [new_token CLEARDEFOBJ []])
      else if opt = CHR ''l'' then Inr (ts @ [new_token LSOBJS []])
      else if opt = CHR ''i'' then Inr (ts @ [new_token SHOWINFO []])
      else Inl Parse_einval)"

fun adm_opts :: "(char \<times> string) list \<Rightarrow> token list \<Rightarrow> parse_end + token list" where
  "adm_opts [] ts = Inr ts"
| "adm_opts ((c, optarg) # opts) ts =
     (case adm_opt c optarg ts of Inl e \<Rightarrow> Inl e | Inr ts \<Rightarrow> adm_opts opts ts)"

definition adm_parse_args :: "(char \<times> string) list \<Rightarrow> string list \<Rightarrow> parse_end + token list" where
  "adm_parse_args opts operands =
     (case adm_opts opts [] of
        Inl e \<Rightarrow> Inl e
      | Inr ts \<Rightarrow> if operands = [] then Inl Parse_einval else Inr ts)"

section \<open>The digest of an object\<close>

datatype hashid =
  MHASH_SHA1 | MHASH_SHA224 | MHASH_SHA256 | MHASH_SHA384 | MHASH_SHA512 | MHASH_CRC32 | MHASH_MD5
  | MHASH_HAVAL128 | MHASH_HAVAL160 | MHASH_HAVAL192 | MHASH_HAVAL224 | MHASH_HAVAL256

definition shfs_mhash_type :: "u8 \<Rightarrow> u8 \<Rightarrow> hashid option" where
  "shfs_mhash_type hfunc hlen =
     (if hfunc = SHFUNC_SHA then
        (if hlen = 20 then Some MHASH_SHA1 else if hlen = 28 then Some MHASH_SHA224
         else if hlen = 32 then Some MHASH_SHA256 else if hlen = 48 then Some MHASH_SHA384
         else if hlen = 64 then Some MHASH_SHA512 else None)
      else if hfunc = SHFUNC_CRC then (if hlen = 4 then Some MHASH_CRC32 else None)
      else if hfunc = SHFUNC_MD5 then (if hlen = 16 then Some MHASH_MD5 else None)
      else if hfunc = SHFUNC_HAVAL then
        (if hlen = 16 then Some MHASH_HAVAL128 else if hlen = 20 then Some MHASH_HAVAL160
         else if hlen = 24 then Some MHASH_HAVAL192 else if hlen = 28 then Some MHASH_HAVAL224
         else if hlen = 32 then Some MHASH_HAVAL256 else None)
      else None)"

text \<open>\<open>mhash_init\<close> for the volume's hash function.\<close>

definition init_mhash :: "adm \<Rightarrow> hashid act" where
  "init_mhash a =
     (case shfs_mhash_type (ad_hfunc a) (ad_hlen a) of
        None \<Rightarrow> adm_die a
      | Some ty \<Rightarrow> let (f, a) = on_os os_call a in if f then ret (- 1) a else (Inr (Inr ty), a))"

text \<open>The digest given on the command line, stored into a buffer of 64 bytes.\<close>

definition manual_digest :: "token \<Rightarrow> adm \<Rightarrow> u8 list act" where
  "manual_digest j a =
     (case tn_optstr2 j of
        None \<Rightarrow> ret (- 1) a
      | Some s \<Rightarrow>
          (case hash_parse s (map (ad_junk a) [0..<64]) (ad_hlen a) of
             None \<Rightarrow> ret (- 1) a
           | Some h \<Rightarrow> (Inr (Inr h), a)))"

definition act_cancelled :: "adm \<Rightarrow> unit act" where
  "act_cancelled a = (if cancelled (ad_os a) then ret (- 2) a else (Inr (Inr ()), a))"

text \<open>A part of the file, read into the buffer.\<close>

definition read_part :: "nat \<Rightarrow> nat \<Rightarrow> u8 list \<Rightarrow> adm \<Rightarrow> u8 list act" where
  "read_part fd rlen tmp a =
     (case on_os (os_read fd rlen) a of
        (None, a) \<Rightarrow> ret (- 1) a
      | (Some bs, a) \<Rightarrow> (Inr (Inr (write_at 0 0 bs tmp)), a))"

text \<open>
  The hashing loop over the lengths of the parts; the result is what \<open>mhash\<close> was fed with and
  the buffer. The last part has the remainder of the division of the size as its length.
\<close>

fun hash_parts :: "nat \<Rightarrow> nat list \<Rightarrow> u8 list \<Rightarrow> u8 list \<Rightarrow> adm \<Rightarrow> (u8 list \<times> u8 list) act" where
  "hash_parts fd [] fed tmp a = (Inr (Inr (fed, tmp)), a)"
| "hash_parts fd (rlen # rlens) fed tmp a =
     (case abind (read_part fd rlen tmp a) (\<lambda>tmp a. abind (act_cancelled a) (\<lambda>_ a. (Inr (Inr tmp), a))) of
        (Inl e, a) \<Rightarrow> (Inl e, a)
      | (Inr (Inl n), a) \<Rightarrow> ret n a
      | (Inr (Inr tmp), a) \<Rightarrow> hash_parts fd rlens (fed @ take rlen tmp) tmp a)"

definition hash_lens :: "nat \<Rightarrow> nat \<Rightarrow> nat \<Rightarrow> nat list" where
  "hash_lens chunksize fsize csize =
     map (\<lambda>c. if c = csize - 1 then fsize mod chunksize else chunksize) [0..<csize]"

definition seek_file :: "nat \<Rightarrow> adm \<Rightarrow> unit act" where
  "seek_file fd a =
     (let (ok, a) = on_os (os_lseek fd 0) a in if ok then (Inr (Inr ()), a) else ret (- 1) a)"

definition hash_file ::
    "(hashid \<Rightarrow> u8 list \<Rightarrow> u8 list) \<Rightarrow> nat \<Rightarrow> nat \<Rightarrow> nat \<Rightarrow> u8 list \<Rightarrow> adm \<Rightarrow> (u8 list \<times> u8 list) act" where
  "hash_file mh fd fsize csize tmp a =
     abind (init_mhash a) (\<lambda>ty a.
     abind (seek_file fd a) (\<lambda>_ a.
     abind (hash_parts fd (hash_lens (unat (ad_chunksize a)) fsize csize) [] tmp a) (\<lambda>(fed, tmp) a.
     (Inr (Inr (mh ty fed, tmp)), a))))"

section \<open>Adding a file\<close>

text \<open>The path component after the last slash, as \<open>basename\<close> gives it.\<close>

definition basename :: "string \<Rightarrow> string" where
  "basename p =
     (if p = [] then ''.''
      else let q = rev (dropWhile (\<lambda>c. c = CHR ''/'') (rev p))
      in if q = [] then ''/'' else rev (takeWhile (\<lambda>c. c \<noteq> CHR ''/'') (rev q)))"

text \<open>A new entry for a digest that is not in the table yet.\<close>

definition new_entry :: "u8 list \<Rightarrow> adm \<Rightarrow> elref act" where
  "new_entry fhash a =
     (case shfs_btable_lookup (ad_bt a) fhash of
        Inl (Fault f) \<Rightarrow> crash f a
      | Inr _ \<Rightarrow> ret (- 1) a
      | Inl (Errno _) \<Rightarrow>
          (case shfs_btable_addentry (ad_bt a) fhash of
             Inl (Fault f) \<Rightarrow> crash f a
           | Inl (Errno _) \<Rightarrow> ret (- 1) a
           | Inr (el, bt) \<Rightarrow> (Inr (Inr el), a\<lparr>ad_bt := bt\<rparr>)))"

definition entry_name :: "token \<Rightarrow> u8 list" where
  "entry_name j =
     strncpy (bytes_of (case tn_optstr1 j of Some n \<Rightarrow> n | None \<Rightarrow> basename (tn_path j))) 64"

definition fill_file_entry :: "token \<Rightarrow> u64 \<Rightarrow> u8 list \<Rightarrow> chk_t \<Rightarrow> u64 \<Rightarrow> elref \<Rightarrow> adm \<Rightarrow> unit act" where
  "fill_file_entry j now fhash cchk fsize el a =
     (case hentry_of el a of
        Inl f \<Rightarrow> crash f a
      | Inr e \<Rightarrow>
          (case hash_copy (he_hash e) fhash (ad_hlen a) of
             Inl f \<Rightarrow> crash f a
           | Inr h \<Rightarrow>
               let fa = \<lparr>fa_chunk = cchk, fa_offset = 0, fa_len = fsize,
                         fa_mime = (case tn_optstr0 j of Some m \<Rightarrow> strncpy (bytes_of m) 32 | None \<Rightarrow> replicate 32 0),
                         fa_encoding = replicate 16 0\<rparr>
               in (Inr (Inr ()), set_hentry el (e\<lparr>he_hash := h, he_attr := f_attr_put fa @ drop 72 (he_attr e),
                                    he_ts_creation := now, he_flags := 0, he_name := entry_name j\<rparr>) a)))"

text \<open>The lengths of the parts that are copied, and the copying loop.\<close>

function copy_lens :: "nat \<Rightarrow> nat \<Rightarrow> nat list" where
  "copy_lens chunksize left =
     (if left = 0 \<or> chunksize = 0 then []
      else if left > chunksize then chunksize # copy_lens chunksize (left - chunksize)
      else [left])"
  by pat_completeness auto
termination by (relation "measure snd") auto
declare copy_lens.simps [simp del]

fun copy_parts :: "nat \<Rightarrow> nat list \<Rightarrow> chk_t \<Rightarrow> u8 list \<Rightarrow> adm \<Rightarrow> unit act" where
  "copy_parts fd [] chk tmp a = (Inr (Inr ()), a)"
| "copy_parts fd (rlen # rlens) chk tmp a =
     (let tmp = (if rlens = [] then replicate (length tmp) 0 else tmp)
      in case abind (read_part fd rlen tmp a) (\<lambda>tmp a.
              tbind (adm_write_chunk chk tmp a) (\<lambda>ok a.
              if \<not> ok then ret (- 1) a else abind (act_cancelled a) (\<lambda>_ a. (Inr (Inr tmp), a)))) of
           (Inl e, a) \<Rightarrow> (Inl e, a)
         | (Inr (Inl n), a) \<Rightarrow> ret n a
         | (Inr (Inr tmp), a) \<Rightarrow> copy_parts fd rlens (chk + 1) tmp a)"

text \<open>Opening the file: its descriptor and its size.\<close>

definition open_file :: "string \<Rightarrow> adm \<Rightarrow> (nat \<times> nat) act" where
  "open_file path a =
     (let (f, a) = on_os os_call a
      in case os_paths (ad_os a) path of
           None \<Rightarrow> ret (- 1) a
         | Some fd \<Rightarrow>
             if f then ret (- 1) a
             else let a = a\<lparr>ad_os := os_upd fd (\<lambda>k. k\<lparr>of_pos := 0\<rparr>) (ad_os a)\<rparr>;
                      (f, a) = on_os os_call a; k = os_files (ad_os a) fd
             in if f then ret (- 1) a
                else if of_kind k \<noteq> Regular_file then ret (- 1) a
                else (Inr (Inr (fd, length (of_bytes k))), a))"

text \<open>The part of \<open>actn_addfile\<close> behind the reservation of the container.\<close>

definition store_file ::
    "(hashid \<Rightarrow> u8 list \<Rightarrow> u8 list) \<Rightarrow> u64 \<Rightarrow> token \<Rightarrow> nat \<Rightarrow> nat \<Rightarrow> chk_t \<Rightarrow> chk_t \<Rightarrow> adm \<Rightarrow> unit act" where
  "store_file mh now j fd fsize csize cchk a =
     (case adm_malloc (unat (ad_chunksize a)) a of
        (None, a) \<Rightarrow> ret (- 1) a
      | (Some tmp, a) \<Rightarrow>
          abind (if ad_hfunc a \<noteq> SHFUNC_MANUAL then hash_file mh fd fsize (unat csize) tmp a
                 else abind (manual_digest j a) (\<lambda>h a. (Inr (Inr (h, tmp)), a))) (\<lambda>(fhash, tmp) a.
          abind (new_entry fhash a) (\<lambda>el a.
          abind (fill_file_entry j now fhash cchk (of_nat fsize) el a) (\<lambda>_ a.
          abind (seek_file fd a) (\<lambda>_ a.
          copy_parts fd (copy_lens (unat (ad_chunksize a)) fsize) cchk tmp a)))))"

definition actn_addfile ::
    "(hashid \<Rightarrow> u8 list \<Rightarrow> u8 list) \<Rightarrow> u64 \<Rightarrow> token \<Rightarrow> adm \<Rightarrow> unit act" where
  "actn_addfile mh now j a =
     abind (open_file (tn_path j) a) (\<lambda>(fd, fsize) a.
     if ad_chunksize a = 0 then crash Div_by_zero a
     else let csize = chunks_of (of_nat fsize) a
     in case shfs_alist_find_free (ad_al a) csize of
          None \<Rightarrow> crash No_return a
        | Some cchk \<Rightarrow>
            if cchk = 0 \<or> cchk \<ge> ad_volsize a then ret (- 1) a
            else tbind (adm_register cchk csize a) (\<lambda>_ a.
                 on_ret (store_file mh now j fd fsize csize cchk a)
                   (\<lambda>a. tbind (adm_unregister cchk csize a) (\<lambda>_ a. (Inr (), a)))))"

section \<open>Adding a link\<close>

text \<open>What \<open>http_parser_parse_url\<close> fills in: which fields are set, where they are, and the port.\<close>

datatype url_field = UF_SCHEMA | UF_HOST | UF_PORT | UF_PATH | UF_QUERY | UF_FRAGMENT | UF_USERINFO

record url =
  uf_set :: "url_field \<Rightarrow> bool"
  uf_off :: "url_field \<Rightarrow> nat"
  uf_len :: "url_field \<Rightarrow> nat"
  url_port :: u16

text \<open>Equality by \<open>strncmp\<close>, and \<open>"%d.%d.%d.%d"\<close>: the numbers that are converted.\<close>

definition strncmp_eq :: "string \<Rightarrow> string \<Rightarrow> nat \<Rightarrow> bool" where
  "strncmp_eq s t n \<longleftrightarrow> take n (s @ [CHR 0x00]) = take n (t @ [CHR 0x00])"

fun scanf_dotted :: "nat \<Rightarrow> string \<Rightarrow> int list" where
  "scanf_dotted 0 s = []"
| "scanf_dotted (Suc n) s =
     (case scan_int s of
        None \<Rightarrow> []
      | Some (i, rest) \<Rightarrow> i # (if rest \<noteq> [] \<and> hd rest = CHR ''.'' then scanf_dotted n (tl rest) else []))"

text \<open>
  \<open>hntoshfshost\<close>: the number it returns and the host; \<open>resolve\<close> is the address \<open>getaddrinfo\<close>
  finds, \<open>old\<close> what the host's 32 bytes were before.
\<close>

definition hntoshfshost ::
    "(string \<Rightarrow> u8 list option) \<Rightarrow> string \<Rightarrow> nat \<Rightarrow> u8 \<Rightarrow> u8 list \<Rightarrow> int \<times> shfs_host option" where
  "hntoshfshost resolve hn hn_len ty old =
     (let node = take hn_len hn; ip = scanf_dotted 4 node
      in if (ty = SHFS_HOST_TYPE_NAME \<or> ty = SHFS_HOST_TYPE_IPV4) \<and> length ip = 4 \<and> (\<forall>n \<in> set ip. 0 < n \<and> n < 256)
         then (0, Some \<lparr>host_type = SHFS_HOST_TYPE_IPV4, host_bytes = map of_int ip @ drop 4 old\<rparr>)
         else if ty = SHFS_HOST_TYPE_IPV4 then
           (case resolve node of
              None \<Rightarrow> (- 2, None)
            | Some adr \<Rightarrow> (0, Some \<lparr>host_type = SHFS_HOST_TYPE_IPV4, host_bytes = take 4 adr @ drop 4 old\<rparr>))
         else if ty = SHFS_HOST_TYPE_NAME then
           (if hn_len > 32 then (- 28, None)
            else let b = bytes_of node @ (if hn_len < 32 then [0] else [])
            in (0, Some \<lparr>host_type = SHFS_HOST_TYPE_NAME, host_bytes = b @ drop (length b) old\<rparr>))
         else (22, None))"

definition SHFS_LTYPE :: "ltype \<Rightarrow> u8" where
  "SHFS_LTYPE l = (case l of LRAW \<Rightarrow> 1 | LAUTO \<Rightarrow> 2 | LREDIRECT \<Rightarrow> 0)"

definition fill_link_entry :: "token \<Rightarrow> u64 \<Rightarrow> u8 list \<Rightarrow> url \<Rightarrow> shfs_host \<Rightarrow> elref \<Rightarrow> adm \<Rightarrow> unit act" where
  "fill_link_entry j now fhash u rhost el a =
     (case hentry_of el a of
        Inl f \<Rightarrow> crash f a
      | Inr e \<Rightarrow>
          (case hash_copy (he_hash e) fhash (ad_hlen a) of
             Inl f \<Rightarrow> crash f a
           | Inr h \<Rightarrow>
               let old = SHFS_HENTRY_LINKATTR e;
                   rpath = (if (uf_set u UF_PATH \<and> uf_len u UF_PATH > 1) \<or> (uf_set u UF_QUERY \<and> uf_len u UF_QUERY > 1)
                            then strncpy (bytes_of (drop (uf_off u UF_PATH + 1) (tn_path j))) 71
                            else 0 # tl (la_rpath old));
                   la = \<lparr>la_rhost = rhost, la_rport = url_port u, la_rpath = rpath, la_type = SHFS_LTYPE (tn_ltype j)\<rparr>
               in (Inr (Inr ()), set_hentry el (e\<lparr>he_hash := h, he_attr := l_attr_put la,
                                    he_ts_creation := now, he_flags := SHFS_EFLAG_LINK, he_name := entry_name j\<rparr>) a)))"

definition actn_addlink ::
    "(hashid \<Rightarrow> u8 list \<Rightarrow> u8 list) \<Rightarrow> (string \<Rightarrow> url option) \<Rightarrow> (string \<Rightarrow> u8 list option) \<Rightarrow> u64 \<Rightarrow> token \<Rightarrow>
     adm \<Rightarrow> unit act" where
  "actn_addlink mh parse_url resolve now j a =
     (case parse_url (tn_path j) of
        None \<Rightarrow> ret (- 22) a
      | Some u \<Rightarrow>
          if uf_set u UF_SCHEMA \<and> \<not> strncmp_eq ''http:'' (drop (uf_off u UF_SCHEMA) (tn_path j)) (uf_len u UF_SCHEMA)
          then ret (- 22) a
          else if \<not> uf_set u UF_HOST then ret (- 22) a
          else let u = (if \<not> uf_set u UF_PORT then u\<lparr>url_port := 80\<rparr> else u)
          in if uf_set u UF_FRAGMENT \<and> uf_len u UF_FRAGMENT > 0 then ret (- 22) a
          else if uf_set u UF_USERINFO \<and> uf_len u UF_USERINFO > 0 then ret (- 22) a
          else if uf_set u UF_PATH \<and> uf_len u UF_PATH > 71 then ret (- 22) a
          else case hntoshfshost resolve (drop (uf_off u UF_HOST) (tn_path j)) (uf_len u UF_HOST)
                      SHFS_HOST_TYPE_NAME (map (ad_junk a) [0..<32]) of
                 (n, None) \<Rightarrow> ret n a
               | (_, Some rhost) \<Rightarrow>
                   abind (if ad_hfunc a \<noteq> SHFUNC_MANUAL
                          then abind (init_mhash a) (\<lambda>ty a. (Inr (Inr (mh ty (bytes_of (tn_path j)))), a))
                          else manual_digest j a) (\<lambda>fhash a.
                   abind (new_entry fhash a) (\<lambda>el a. fill_link_entry j now fhash u rhost el a)))"

section \<open>Removing, exporting and the default object\<close>

text \<open>The entry of the object whose digest is the token's path.\<close>

definition find_object :: "token \<Rightarrow> adm \<Rightarrow> (u8 list \<times> elref) act" where
  "find_object t a =
     (case hash_parse (tn_path t) (map (ad_junk a) [0..<64]) (ad_hlen a) of
        None \<Rightarrow> ret (- 1) a
      | Some h \<Rightarrow>
          (case shfs_btable_lookup (ad_bt a) h of
             Inl (Fault f) \<Rightarrow> crash f a
           | Inl (Errno _) \<Rightarrow> ret (- 1) a
           | Inr el \<Rightarrow> (Inr (Inr (h, el)), a)))"

text \<open>An action's return value, 0 when it goes through.\<close>

definition actn_rmfile :: "token \<Rightarrow> adm \<Rightarrow> unit act" where
  "actn_rmfile t a =
     abind (find_object t a) (\<lambda>(h, el) a.
     case hentry_of el a of
       Inl f \<Rightarrow> crash f a
     | Inr e \<Rightarrow>
         abind (if SHFS_HENTRY_ISLINK e then (Inr (Inr ()), a)
                else if ad_chunksize a = 0 then crash Div_by_zero a
                else let fa = SHFS_HENTRY_FILEATTR e
                in tbind (adm_unregister (fa_chunk fa) (chunks_of (fa_len fa + fa_offset fa) a) a) (\<lambda>ok a.
                     if ok then (Inr (Inr ()), a) else ret (- 1) a)) (\<lambda>_ a.
         case shfs_btable_rmentry (ad_bt a) h of
           Inl (Fault f) \<Rightarrow> crash f a
         | Inl (Errno _) \<Rightarrow> crash Null_deref a
         | Inr bt \<Rightarrow>
             let a = a\<lparr>ad_bt := bt\<rparr>
             in case hash_clear (he_hash e) (ad_hlen a) of
                  Inl f \<Rightarrow> crash f a
                | Inr z \<Rightarrow> (Inr (Inr ()), set_hentry el (e\<lparr>he_hash := z\<rparr>) a)))"

text \<open>
  The loop of \<open>actn_catfile\<close>. With a chunk size of 0 it would not end, but then reading the
  chunk into the empty buffer has failed before.
\<close>

function cat_loop :: "u64 \<Rightarrow> chk_t \<Rightarrow> u64 \<Rightarrow> u64 \<Rightarrow> u8 list \<Rightarrow> adm \<Rightarrow> unit act" where
  "cat_loop cs c off left buf a =
     (if left = 0 then (Inr (Inr ()), a)
      else case adm_read_chunk c buf a of
             (Inl e, a) \<Rightarrow> (Inl e, a)
           | (Inr (ok, buf), a) \<Rightarrow>
               if \<not> ok then ret (- 1) a
               else if cs = 0 then crash No_return a
               else let rlen = min (cs - off) left
               in if unat off + unat rlen > length buf then crash Out_of_bounds a
                  else case on_os (os_write STDOUT_FILENO (take (unat rlen) (drop (unat off) buf))) a of
                         (None, a) \<Rightarrow> ret (- 1) a
                       | (Some _, a) \<Rightarrow> cat_loop cs (c + 1) 0 (left - rlen) buf a)"
  by pat_completeness auto
termination
proof (relation "measures [\<lambda>(cs, c, off, left, buf, a). unat left, \<lambda>(cs, c, off, left, buf, a). if off = 0 then 0 else 1]", goal_cases)
  case (2 cs c off left buf a x a' y ok buf' rlen w a'' n)
  have le: "rlen \<le> left" using 2 by (simp add: min_def)
  then have u: "unat (left - rlen) = unat left - unat rlen" "unat rlen \<le> unat left"
    by (simp_all add: unat_sub word_le_nat_alt)
  have l0: "0 < unat left" using 2 by (simp add: unat_gt_0)
  show ?case
  proof (cases "rlen = 0")
    case True
    then have "cs - off = 0" using 2 by (simp add: min_def split: if_splits)
    then have "off \<noteq> 0" using 2 by auto
    then show ?thesis using True by simp
  next
    case False
    then have "0 < unat rlen" by (simp add: unat_gt_0)
    then show ?thesis using u l0 by simp
  qed
qed simp
declare cat_loop.simps [simp del]

definition actn_catfile :: "token \<Rightarrow> adm \<Rightarrow> unit act" where
  "actn_catfile t a =
     (case adm_malloc (unat (ad_chunksize a)) a of
        (None, a) \<Rightarrow> ret (- 1) a
      | (Some buf, a) \<Rightarrow>
          abind (find_object t a) (\<lambda>(h, el) a.
          case hentry_of el a of
            Inl f \<Rightarrow> crash f a
          | Inr e \<Rightarrow>
              if SHFS_HENTRY_ISLINK e then (Inr (Inr ()), a)
              else let fa = SHFS_HENTRY_FILEATTR e
              in cat_loop (ucast (ad_chunksize a)) (fa_chunk fa) (fa_offset fa) (fa_len fa) buf a))"

definition bentry_flags :: "(u8 \<Rightarrow> u8) \<Rightarrow> elref \<Rightarrow> adm \<Rightarrow> unit act" where
  "bentry_flags f el a =
     (case hentry_of el a of
        Inl x \<Rightarrow> crash x a
      | Inr e \<Rightarrow> (Inr (Inr ()), set_hentry el (e\<lparr>he_flags := f (he_flags e)\<rparr>) a))"

definition bentry_setflags :: "elref \<Rightarrow> u8 \<Rightarrow> adm \<Rightarrow> unit act" where
  "bentry_setflags el flags a = bentry_flags (\<lambda>x. x OR flags) el a"

definition bentry_clearflags :: "elref \<Rightarrow> u8 \<Rightarrow> adm \<Rightarrow> unit act" where
  "bentry_clearflags el flags a = bentry_flags (\<lambda>x. x AND NOT flags) el a"

definition actn_cleardefault :: "adm \<Rightarrow> unit act" where
  "actn_cleardefault a =
     (case ad_def_bentry a of
        None \<Rightarrow> (Inr (Inr ()), a)
      | Some el \<Rightarrow> abind (bentry_clearflags el SHFS_EFLAG_DEFAULT a) (\<lambda>_ a. (Inr (Inr ()), a\<lparr>ad_def_bentry := None\<rparr>)))"

definition actn_setdefault :: "token \<Rightarrow> adm \<Rightarrow> unit act" where
  "actn_setdefault t a =
     abind (find_object t a) (\<lambda>(h, el) a.
     abind (actn_cleardefault a) (\<lambda>_ a.
     abind (bentry_setflags el SHFS_EFLAG_DEFAULT a) (\<lambda>_ a. (Inr (Inr ()), a\<lparr>ad_def_bentry := Some el\<rparr>))))"

text \<open>
  \<open>actn_ls\<close> prints the entries, reading each of them; \<open>actn_info\<close> reads the two headers and prints
  them.
\<close>

fun ls_entries :: "elref list \<Rightarrow> adm \<Rightarrow> unit act" where
  "ls_entries [] a = (Inr (Inr ()), a)"
| "ls_entries (el # els) a = (case hentry_of el a of Inl f \<Rightarrow> crash f a | Inr _ \<Rightarrow> ls_entries els a)"

definition actn_ls :: "adm \<Rightarrow> unit act" where
  "actn_ls a = (case foreach_htable_el (ad_bt a) of None \<Rightarrow> crash No_return a | Some els \<Rightarrow> ls_entries els a)"

definition actn_info :: "adm \<Rightarrow> unit act" where
  "actn_info a =
     (case adm_malloc 4096 a of
        (None, a) \<Rightarrow> ret (- 1) a
      | (Some chk0, a) \<Rightarrow>
          (case adm_malloc (unat (ad_chunksize a)) a of
             (None, a) \<Rightarrow> ret (- 1) a
           | (Some chk1, a) \<Rightarrow>
               if sg_member (ad_s a) = [] then crash Null_deref a
               else let fd = d_fd (tm_d (hd (sg_member (ad_s a))))
               in abind (seek_file fd a) (\<lambda>_ a.
                  abind (read_part fd 4096 chk0 a) (\<lambda>_ a.
                  tbind (adm_read_chunk 1 chk1 a) (\<lambda>(ok, _) a. if ok then (Inr (Inr ()), a) else ret (- 1) a)))))"

section \<open>The program\<close>

record libs =
  lib_mhash :: "hashid \<Rightarrow> u8 list \<Rightarrow> u8 list"
  lib_parse_url :: "string \<Rightarrow> url option"
  lib_resolve :: "string \<Rightarrow> u8 list option"
  lib_now :: u64

definition run_action :: "libs \<Rightarrow> token \<Rightarrow> adm \<Rightarrow> unit act" where
  "run_action lib t a =
     (case tn_action t of
        ADDOBJ \<Rightarrow> actn_addfile (lib_mhash lib) (lib_now lib) t a
      | ADDLNK \<Rightarrow> actn_addlink (lib_mhash lib) (lib_parse_url lib) (lib_resolve lib) (lib_now lib) t a
      | RMOBJ \<Rightarrow> actn_rmfile t a
      | CATOBJ \<Rightarrow> actn_catfile t a
      | SETDEFOBJ \<Rightarrow> actn_setdefault t a
      | CLEARDEFOBJ \<Rightarrow> actn_cleardefault a
      | LSOBJS \<Rightarrow> actn_ls a
      | SHOWINFO \<Rightarrow> actn_info a)"

text \<open>The loop over the tokens counts the actions that returned a negative number.\<close>

fun run_actions :: "libs \<Rightarrow> token list \<Rightarrow> nat \<Rightarrow> adm \<Rightarrow> (stop + nat) \<times> adm" where
  "run_actions lib [] failed a = (Inr failed, a)"
| "run_actions lib (t # ts) failed a =
     (if cancelled (ad_os a) then (Inr failed, a)
      else case run_action lib t a of
             (Inl e, a) \<Rightarrow> (Inl e, a)
           | (Inr r, a) \<Rightarrow>
               run_actions lib ts (case r of Inl n \<Rightarrow> if n < 0 then Suc failed else failed | Inr _ \<Rightarrow> failed) a)"

definition adm_main :: "libs \<Rightarrow> (char \<times> string) list \<Rightarrow> string list \<Rightarrow> adm \<Rightarrow> stop \<times> adm" where
  "adm_main lib opts operands a =
     (case adm_parse_args opts operands of
        Inl Parse_exit \<Rightarrow> (Exit EXIT_SUCCESS, a)
      | Inl Parse_einval \<Rightarrow> (Exit EXIT_FAILURE, a)
      | Inr ts \<Rightarrow>
          if cancelled (ad_os a) then (Exit (- 2), a)
          else case tbind (adm_mount_shfs operands a) (\<lambda>_ a.
                    tbind (run_actions lib ts 0 a) (\<lambda>failed a.
                    tbind (adm_umount_shfs a) (\<lambda>_ a. (Inr failed, a)))) of
                 (Inl e, a) \<Rightarrow> (e, a)
               | (Inr failed, a) \<Rightarrow>
                   if cancelled (ad_os a) then (Exit (- 2), a)
                   else if failed > 0 then (Exit EXIT_FAILURE, a) else (Exit EXIT_SUCCESS, a))"

end
