(* ===== verification/AdminIO.thy ===== *)
theory AdminIO
  imports Prelude ShfsDefs Tools ToolsProps MkfsProps MkfsRun Admin AdminActs
begin

text \<open>
  What the input and output of the administration tool does to the volume: calls on a file beside
  the members, chunk I/O seen from the other files, the hashing and copying loops of adding a file
  and the loop that exports one.
\<close>

section \<open>Actions in sequence\<close>

lemma abind_simps [simp]:
  "abind (Inl e, a) k = (Inl e, a)" "abind (Inr (Inl n), a) k = ret n a" "abind (Inr (Inr x), a) k = k x a"
  by (simp_all add: abind_def)

lemma on_ret_simps [simp]:
  "on_ret (Inl e, a) h = (Inl e, a)" "on_ret (Inr (Inl n), a) h = tbind (h a) (\<lambda>_ a. ret n a)"
  "on_ret (Inr (Inr x), a) h = (Inr (Inr x), a)"
  by (simp_all add: on_ret_def)

lemma on_os_eq: "f (ad_os a) = (r, st) \<Longrightarrow> on_os f a = (r, a\<lparr>ad_os := st\<rparr>)"
  by (simp add: on_os_def)

section \<open>Files beside the members\<close>

definition member_fds :: "storage \<Rightarrow> nat set" where
  "member_fds s = (\<lambda>m. d_fd (tm_d m)) ` set (sg_member s)"

text \<open>The host is the same but for the files' contents and positions; a call that reads changes positions only.\<close>

definition same_host :: "os \<Rightarrow> os \<Rightarrow> bool" where
  "same_host st' st \<longleftrightarrow> os_fails st' = os_fails st \<and> os_short st' = os_short st \<and> os_cancel st' = os_cancel st \<and> os_paths st' = os_paths st \<and>
     (\<forall>fd. of_kind (os_files st' fd) = of_kind (os_files st fd))"

definition same_data :: "os \<Rightarrow> os \<Rightarrow> bool" where
  "same_data st' st \<longleftrightarrow> same_host st' st \<and> (\<forall>fd. of_bytes (os_files st' fd) = of_bytes (os_files st fd))"

lemma same_host_refl [simp]: "same_host st st" by (simp add: same_host_def)
lemma same_host_trans: "same_host c b \<Longrightarrow> same_host b a \<Longrightarrow> same_host c a" by (simp add: same_host_def)
lemma same_data_refl [simp]: "same_data st st" by (simp add: same_data_def)
lemma same_data_trans: "same_data c b \<Longrightarrow> same_data b a \<Longrightarrow> same_data c a"
  by (simp add: same_data_def same_host_def)

lemma same_data_host: "same_data b a \<Longrightarrow> same_host b a" by (simp add: same_data_def)

lemma same_data_views: "same_data st' st \<Longrightarrow> chunk_view s st' c = chunk_view s st c"
  by (intro chunk_view_cong) (simp add: same_data_def stripe_view_def)

lemma same_data_fits: "same_data st' st \<Longrightarrow> vol_fits s st' V = vol_fits s st V"
  by (intro same_lengths_vol_fits) (simp add: same_data_def same_host_def same_lengths_def)

text \<open>Only the members' files matter to the volume.\<close>

lemma members_views:
  assumes "storage_ok s" and "\<And>fd. fd \<in> member_fds s \<Longrightarrow> os_files st' fd = os_files st fd"
  shows "chunk_view s st' c = chunk_view s st c"
proof (intro chunk_view_cong)
  fix p
  have "stripe_fd s p \<in> member_fds s"
    using stripe_memberE(1) [OF assms(1), of p] by (simp add: stripe_fd_def member_fds_def)
  then show "stripe_view s st' p = stripe_view s st p" by (simp add: stripe_view_def assms(2))
qed

lemma members_fits:
  assumes "\<And>fd. fd \<in> member_fds s \<Longrightarrow> os_files st' fd = os_files st fd" and "os_fails st' = os_fails st" "os_short st' = os_short st"
  shows "vol_fits s st' V \<longleftrightarrow> vol_fits s st V"
proof (cases "storage_ok s")
  case True
  have "stripe_fits s st' p = stripe_fits s st p" for p
  proof -
    have "stripe_fd s p \<in> member_fds s"
      using stripe_memberE(1) [OF True, of p] by (simp add: stripe_fd_def member_fds_def)
    then show ?thesis by (simp add: stripe_fits_def assms(1))
  qed
  then show ?thesis by (simp add: vol_fits_def no_failures_def assms(2,3))
qed (simp add: vol_fits_def)

text \<open>A chunk is read or written through the members only, and reading keeps their bytes.\<close>

definition vol_only :: "storage \<Rightarrow> os \<Rightarrow> os \<Rightarrow> bool" where
  "vol_only s st' st \<longleftrightarrow> same_host st' st \<and> (\<forall>fd. fd \<notin> member_fds s \<longrightarrow> os_files st' fd = os_files st fd)"

lemma vol_only_refl [simp]: "vol_only s st st" by (simp add: vol_only_def)
lemma vol_only_trans: "vol_only s c b \<Longrightarrow> vol_only s b a \<Longrightarrow> vol_only s c a"
  by (simp add: vol_only_def same_host_def)

lemma os_lseek_frame:
  assumes "os_lseek fd off st = (ok, st')" and "fd \<in> member_fds s"
  shows "same_data st' st" "vol_only s st' st"
  using assms by (auto simp: os_lseek_def os_call_def os_upd_def vol_only_def same_data_def same_host_def split: if_splits)

lemma os_read_frame:
  assumes "os_read fd n st = (r, st')" and "fd \<in> member_fds s"
  shows "same_data st' st" "vol_only s st' st"
  using assms by (auto simp: os_read_def os_call_def os_upd_def vol_only_def same_data_def same_host_def Let_def split: if_splits)

lemma os_write_frame:
  assumes "os_write fd bs st = (r, st')" and "fd \<in> member_fds s"
  shows "vol_only s st' st"
  using assms by (auto simp: os_write_def os_call_def os_upd_def vol_only_def same_host_def Let_def split: if_splits)

lemma io_stripes_frame:
  assumes "io_stripes s w ps off buf st = (r, buf', st')"
  shows "vol_only s st' st \<and> (\<not> w \<longrightarrow> same_data st' st)"
  using assms
proof (induction s w ps off buf st rule: io_stripes.induct)
  case (1 s w off buf st)
  then show ?case by simp
next
  case (2 s w strp strps off buf st)
  let ?n = "unat (sg_stripesize s)" and ?fd = "d_fd (tm_d (sg_member s ! stripe_member s strp))"
  show ?case
  proof (cases "sg_nb_members s = 0 \<or> stripe_member s strp \<ge> length (sg_member s) \<or> off + ?n > length buf")
    case True
    then show ?thesis using "2.prems" by (auto simp: Let_def split: if_splits)
  next
    case False
    then have G: "sg_nb_members s \<noteq> 0" "\<not> stripe_member s strp \<ge> length (sg_member s)" "\<not> off + ?n > length buf" by auto
    have m: "?fd \<in> member_fds s" using G(2) by (simp add: member_fds_def)
    obtain ok st1 where l: "os_lseek ?fd (stripe_startb s strp) st = (ok, st1)" by fastforce
    note L = os_lseek_frame [OF l m]
    obtain r1 st2 where wr: "os_write ?fd (take ?n (drop off buf)) st1 = (r1, st2)" by fastforce
    note W = vol_only_trans [OF os_write_frame [OF wr m] L(2)]
    obtain r2 st3 where rd: "os_read ?fd ?n st1 = (r2, st3)" by fastforce
    note R = same_data_trans [OF os_read_frame(1) [OF rd m] L(1)] vol_only_trans [OF os_read_frame(2) [OF rd m] L(2)]
    consider "\<not> ok" | "ok" "w" "r1 = None" | k where "ok" "w" "r1 = Some k"
      | "ok" "\<not> w" "r2 = None" | bs where "ok" "\<not> w" "r2 = Some bs" by (cases r1; cases r2; blast)
    then show ?thesis
    proof cases
      case (3 k)
      have "io_stripes s w strps (off + ?n) buf st2 = (r, buf', st')"
        using "2.prems" G l wr 3 by (simp add: Let_def)
      from "2.IH"(1) [OF G(1,2) refl refl G(3) _ _ 3(2) _ _ this] l wr 3
      show ?thesis using vol_only_trans [OF _ W] by simp
    next
      case (5 bs)
      have "io_stripes s w strps (off + ?n) (write_at off 0 bs buf) st3 = (r, buf', st')"
        using "2.prems" G l rd 5 by (simp add: Let_def)
      from "2.IH"(2) [OF G(1,2) refl refl G(3) _ _ 5(2) _ _ this] l rd 5
      show ?thesis using vol_only_trans [OF _ R(2)] same_data_trans [OF _ R(1)] by simp
    qed (use "2.prems" G l wr rd L W R in \<open>simp_all add: Let_def\<close>)
  qed
qed

section \<open>Chunks of a mounted volume\<close>

text \<open>The volume is on its members, no call fails or transfers less than asked, and the user does not abort.\<close>

definition vol_ready :: "adm \<Rightarrow> nat \<Rightarrow> bool" where
  "vol_ready a V \<longleftrightarrow> vol_fits (ad_s a) (ad_os a) V \<and> chunk_bytes (ad_s a) = unat (ad_chunksize a) \<and>
     ad_chunksize a \<noteq> 0 \<and> (\<forall>n. \<not> os_cancel (ad_os a) n)"

lemma vol_ready_os:
  assumes "vol_ready a V" and "vol_fits (ad_s a) st' V" and "same_host st' (ad_os a)"
  shows "vol_ready (a\<lparr>ad_os := st'\<rparr>) V"
  using assms by (simp add: vol_ready_def same_host_def)

lemma vol_ready_data: "vol_ready a V \<Longrightarrow> same_data st' (ad_os a) \<Longrightarrow> vol_ready (a\<lparr>ad_os := st'\<rparr>) V"
  by (intro vol_ready_os) (simp_all add: same_data_fits same_data_host, simp add: vol_ready_def)

lemma vol_ready_no_fail: "vol_ready a V \<Longrightarrow> \<not> os_fails (ad_os a) n"
  by (simp add: vol_ready_def vol_fits_def no_failures_def)

lemma vol_ready_whole: "vol_ready a V \<Longrightarrow> os_part (ad_os a) (bs :: u8 list) = bs"
  by (simp add: vol_ready_def vol_fits_def no_failures_def os_part_whole)

lemma storage_ok_ready: "vol_ready a V \<Longrightarrow> storage_ok (ad_s a)"
  by (simp add: vol_ready_def vol_fits_def)

lemma next_chunk:
  assumes "vol_ready a V" and "unat c < V"
  shows "unat (c + 1 :: chk_t) = unat c + 1"
proof -
  have n0: "0 < unat (sg_nb_members (ad_s a))"
    using storage_ok_ready [OF assms(1)] by (simp add: storage_ok_def unat_gt_0)
  have "V + 1 \<le> (V + 1) * unat (sg_nb_members (ad_s a))" by (rule le_mult_pos [OF n0])
  moreover have "(V + 1) * unat (sg_nb_members (ad_s a)) < 2 ^ 64"
    using assms(1) by (simp add: vol_ready_def vol_fits_def)
  ultimately have "unat c + 1 < 2 ^ 64" using assms(2) by linarith
  then show ?thesis by (subst unat_add_less) simp_all
qed

lemma adm_read_chunk_ok:
  assumes "vol_ready a V" and "c \<noteq> 0" and "unat c < V" and "length buf = unat (ad_chunksize a)"
  obtains st' where "adm_read_chunk c buf a = (Inr (True, chunk_view (ad_s a) (ad_os a) (unat c)), a\<lparr>ad_os := st'\<rparr>)"
    "same_data st' (ad_os a)" "vol_only (ad_s a) st' (ad_os a)"
proof -
  have vf: "vol_fits (ad_s a) (ad_os a) V" "length buf = unat (1 :: u64) * chunk_bytes (ad_s a)"
    using assms(1,4) by (simp_all add: vol_ready_def)
  obtain st' where r: "sync_read_chunk (ad_s a) c 1 buf (ad_os a) =
      (Inr True, concat (map (chunk_view (ad_s a) (ad_os a)) [unat c..<unat c + unat (1 :: u64)]), st')"
    using sync_read_views [OF vf(1) assms(2) _ vf(2)] assms(3) by (metis Suc_eq_plus1 Suc_leI unat_1)
  then have "io_stripes (ad_s a) False (stripes_between (storage_stripes (ad_s a) c 1)) 0 buf (ad_os a) =
      (Inr True, chunk_view (ad_s a) (ad_os a) (unat c), st')"
    using assms(2) by (simp add: sync_io_chunk_def)
  then have "same_data st' (ad_os a)" "vol_only (ad_s a) st' (ad_os a)" using io_stripes_frame by blast+
  moreover have "adm_read_chunk c buf a = (Inr (True, chunk_view (ad_s a) (ad_os a) (unat c)), a\<lparr>ad_os := st'\<rparr>)"
    using r by (simp add: adm_read_chunk_def)
  ultimately show thesis using that by blast
qed

lemma adm_write_chunk_ok:
  assumes "vol_ready a V" and "c \<noteq> 0" and "unat c < V" and "length buf = unat (ad_chunksize a)"
  obtains st' where "adm_write_chunk c buf a = (Inr True, a\<lparr>ad_os := st'\<rparr>)" "vol_only (ad_s a) st' (ad_os a)"
    "vol_ready (a\<lparr>ad_os := st'\<rparr>) V" "chunk_view (ad_s a) st' (unat c) = buf"
    "\<And>d. d < V \<Longrightarrow> d \<noteq> unat c \<Longrightarrow> chunk_view (ad_s a) st' d = chunk_view (ad_s a) (ad_os a) d"
proof -
  have vf: "vol_fits (ad_s a) (ad_os a) V" "length buf = unat (1 :: u64) * chunk_bytes (ad_s a)"
    using assms(1,4) by (simp_all add: vol_ready_def)
  obtain st' where w: "sync_write_chunk (ad_s a) c 1 buf (ad_os a) = (Inr True, buf, st')" "same_lengths st' (ad_os a)"
    "concat (map (chunk_view (ad_s a) st') [unat c..<unat c + unat (1 :: u64)]) = buf"
    "\<And>d. d < V \<Longrightarrow> \<not> (unat c \<le> d \<and> d < unat c + unat (1 :: u64)) \<Longrightarrow> chunk_view (ad_s a) st' d = chunk_view (ad_s a) (ad_os a) d"
    using sync_write_views [OF vf(1) assms(2) _ vf(2)] assms(3) by (metis Suc_eq_plus1 Suc_leI unat_1)
  then have "io_stripes (ad_s a) True (stripes_between (storage_stripes (ad_s a) c 1)) 0 buf (ad_os a) = (Inr True, buf, st')"
    using assms(2) by (simp add: sync_io_chunk_def)
  from io_stripes_frame [OF this] have v: "vol_only (ad_s a) st' (ad_os a)" by simp
  show thesis
  proof (rule that [OF _ v])
    show "adm_write_chunk c buf a = (Inr True, a\<lparr>ad_os := st'\<rparr>)" using w(1) by (simp add: adm_write_chunk_def)
    show "vol_ready (a\<lparr>ad_os := st'\<rparr>) V"
      using assms(1) v vf(1) same_lengths_vol_fits [OF w(2)] by (intro vol_ready_os) (simp_all add: vol_only_def)
    show "chunk_view (ad_s a) st' (unat c) = buf" using w(3) by simp
    show "chunk_view (ad_s a) st' d = chunk_view (ad_s a) (ad_os a) d" if "d < V" "d \<noteq> unat c" for d
      using w(4) [OF that(1)] that(2) by simp
  qed
qed

section \<open>The file that is added\<close>

text \<open>A file beside the members is open at a position.\<close>

definition open_at :: "adm \<Rightarrow> nat \<Rightarrow> u8 list \<Rightarrow> nat \<Rightarrow> bool" where
  "open_at a fd file p \<longleftrightarrow> fd \<notin> member_fds (ad_s a) \<and> of_bytes (os_files (ad_os a) fd) = file \<and>
     of_pos (os_files (ad_os a) fd) = p"

text \<open>What reading it and copying it to the volume leave alone.\<close>

definition moved :: "storage \<Rightarrow> nat \<Rightarrow> os \<Rightarrow> os \<Rightarrow> bool" where
  "moved s fd st' st \<longleftrightarrow> same_host st' st \<and>
     (\<forall>x. x \<notin> member_fds s \<longrightarrow> x \<noteq> fd \<longrightarrow> os_files st' x = os_files st x)"

lemma moved_refl [simp]: "moved s fd st st" by (simp add: moved_def)
lemma moved_trans: "moved s fd c b \<Longrightarrow> moved s fd b a \<Longrightarrow> moved s fd c a"
  by (simp add: moved_def same_host_def)
lemma vol_only_moved: "vol_only s b a \<Longrightarrow> moved s fd b a" by (simp add: moved_def vol_only_def)

lemma read_part_ok:
  assumes "vol_ready a V" and "open_at a fd file p"
  obtains st' where "read_part fd n tmp a = (Inr (Inr (write_at 0 0 (take n (drop p file)) tmp)), a\<lparr>ad_os := st'\<rparr>)"
    "same_data st' (ad_os a)" "moved (ad_s a) fd st' (ad_os a)" "vol_ready (a\<lparr>ad_os := st'\<rparr>) V"
    "open_at (a\<lparr>ad_os := st'\<rparr>) fd file (p + min n (length file - p))"
proof -
  let ?bs = "take n (drop p file)"
  let ?st = "os_upd fd (\<lambda>k. k\<lparr>of_pos := of_pos k + length ?bs\<rparr>) ((ad_os a)\<lparr>os_calls := Suc (os_calls (ad_os a))\<rparr>)"
  have o: "of_bytes (os_files (ad_os a) fd) = file" "of_pos (os_files (ad_os a) fd) = p" "fd \<notin> member_fds (ad_s a)"
    using assms(2) by (simp_all add: open_at_def)
  have e: "os_read fd n (ad_os a) = (Some ?bs, ?st)"
    using vol_ready_no_fail [OF assms(1)] vol_ready_whole [OF assms(1)] o by (simp add: os_read_def os_call_def os_upd_def Let_def)
  have d: "same_data ?st (ad_os a)" by (simp add: same_data_def same_host_def os_upd_def)
  show thesis
  proof (rule that)
    show "read_part fd n tmp a = (Inr (Inr (write_at 0 0 ?bs tmp)), a\<lparr>ad_os := ?st\<rparr>)"
      by (simp add: read_part_def on_os_eq [where f = "os_read fd n", OF e])
    show "same_data ?st (ad_os a)" by (rule d)
    show "moved (ad_s a) fd ?st (ad_os a)" by (simp add: moved_def same_host_def os_upd_def)
    show "vol_ready (a\<lparr>ad_os := ?st\<rparr>) V" by (rule vol_ready_data [OF assms(1) d])
    show "open_at (a\<lparr>ad_os := ?st\<rparr>) fd file (p + min n (length file - p))"
      using o by (simp add: open_at_def os_upd_def min.commute)
  qed
qed

lemma seek_file_ok:
  assumes "vol_ready a V" and "open_at a fd file p"
  obtains st' where "seek_file fd a = (Inr (Inr ()), a\<lparr>ad_os := st'\<rparr>)"
    "same_data st' (ad_os a)" "moved (ad_s a) fd st' (ad_os a)" "vol_ready (a\<lparr>ad_os := st'\<rparr>) V"
    "open_at (a\<lparr>ad_os := st'\<rparr>) fd file 0"
proof -
  let ?st = "os_upd fd (\<lambda>k. k\<lparr>of_pos := 0\<rparr>) ((ad_os a)\<lparr>os_calls := Suc (os_calls (ad_os a))\<rparr>)"
  have e: "os_lseek fd 0 (ad_os a) = (True, ?st)"
    using vol_ready_no_fail [OF assms(1)] by (simp add: os_lseek_def os_call_def)
  have d: "same_data ?st (ad_os a)" by (simp add: same_data_def same_host_def os_upd_def)
  show thesis
  proof (rule that)
    show "seek_file fd a = (Inr (Inr ()), a\<lparr>ad_os := ?st\<rparr>)"
      by (simp add: seek_file_def on_os_eq [where f = "os_lseek fd 0", OF e])
    show "moved (ad_s a) fd ?st (ad_os a)" by (simp add: moved_def same_host_def os_upd_def)
    show "vol_ready (a\<lparr>ad_os := ?st\<rparr>) V" by (rule vol_ready_data [OF assms(1) d])
    show "open_at (a\<lparr>ad_os := ?st\<rparr>) fd file 0" using assms(2) by (simp add: open_at_def os_upd_def)
  qed (rule d)
qed

lemma act_cancelled_ok: "vol_ready a V \<Longrightarrow> act_cancelled a = (Inr (Inr ()), a)"
  by (simp add: act_cancelled_def vol_ready_def cancelled_def)

section \<open>Hashing\<close>

lemma hash_parts_ok:
  assumes "vol_ready a V" and "open_at a fd file p" and "p + sum_list rlens \<le> length file"
    and "\<forall>n \<in> set rlens. n \<le> length tmp"
  shows "\<exists>st' tmp'. hash_parts fd rlens fed tmp a =
      (Inr (Inr (fed @ take (sum_list rlens) (drop p file), tmp')), a\<lparr>ad_os := st'\<rparr>) \<and>
    length tmp' = length tmp \<and> same_data st' (ad_os a) \<and> moved (ad_s a) fd st' (ad_os a) \<and>
    open_at (a\<lparr>ad_os := st'\<rparr>) fd file (p + sum_list rlens)"
  using assms
proof (induction rlens arbitrary: p fed tmp a)
  case Nil
  then show ?case by (intro exI [of _ "ad_os a"] exI [of _ tmp]) simp
next
  case (Cons n rlens)
  let ?tmp = "write_at 0 0 (take n (drop p file)) tmp"
  obtain st1 where S: "read_part fd n tmp a = (Inr (Inr ?tmp), a\<lparr>ad_os := st1\<rparr>)"
    "same_data st1 (ad_os a)" "moved (ad_s a) fd st1 (ad_os a)" "vol_ready (a\<lparr>ad_os := st1\<rparr>) V"
    "open_at (a\<lparr>ad_os := st1\<rparr>) fd file (p + min n (length file - p))"
    using read_part_ok [OF Cons.prems(1,2)] by metis
  have n: "min n (length file - p) = n" "length (take n (drop p file)) = n" using Cons.prems(3) by simp_all
  have t: "take n ?tmp = take n (drop p file)" "length ?tmp = length tmp"
    using n Cons.prems(4) by (simp_all add: write_at_def)
  have "\<exists>st' tmp'. hash_parts fd rlens (fed @ take n ?tmp) ?tmp (a\<lparr>ad_os := st1\<rparr>) =
      (Inr (Inr ((fed @ take n ?tmp) @ take (sum_list rlens) (drop (p + n) file), tmp')), a\<lparr>ad_os := st1\<rparr>\<lparr>ad_os := st'\<rparr>) \<and>
    length tmp' = length ?tmp \<and> same_data st' (ad_os (a\<lparr>ad_os := st1\<rparr>)) \<and>
    moved (ad_s (a\<lparr>ad_os := st1\<rparr>)) fd st' (ad_os (a\<lparr>ad_os := st1\<rparr>)) \<and>
    open_at (a\<lparr>ad_os := st1\<rparr>\<lparr>ad_os := st'\<rparr>) fd file (p + n + sum_list rlens)"
    by (rule Cons.IH) (use S(4,5) n Cons.prems(3,4) t in auto)
  then obtain st' tmp' where I: "hash_parts fd rlens (fed @ take n ?tmp) ?tmp (a\<lparr>ad_os := st1\<rparr>) =
      (Inr (Inr ((fed @ take n ?tmp) @ take (sum_list rlens) (drop (p + n) file), tmp')), a\<lparr>ad_os := st'\<rparr>)"
    "length tmp' = length ?tmp" "same_data st' st1" "moved (ad_s a) fd st' st1"
    "open_at (a\<lparr>ad_os := st'\<rparr>) fd file (p + n + sum_list rlens)" by auto
  have "hash_parts fd (n # rlens) fed tmp a = hash_parts fd rlens (fed @ take n ?tmp) ?tmp (a\<lparr>ad_os := st1\<rparr>)"
    by (simp add: S(1) act_cancelled_ok [OF S(4)])
  moreover have "take (n + m) (drop p file) = take n (drop p file) @ take m (drop (p + n) file)" for m
    by (subst take_add) (simp add: add.commute)
  ultimately show ?case
    using I(1,2,5) t same_data_trans [OF I(3) S(2)] moved_trans [OF I(4) S(3)]
    by (intro exI [of _ st'] exI [of _ tmp']) (simp add: add.assoc)
qed

text \<open>The bytes that go into the digest: all but a last chunk that is full.\<close>

definition hashed_len :: "nat \<Rightarrow> nat \<Rightarrow> nat" where
  "hashed_len cs fsize = (if fsize mod cs = 0 then fsize - cs else fsize)"

lemma sum_hash_lens:
  assumes "0 < cs"
  shows "sum_list (hash_lens cs fsize ((fsize + cs - 1) div cs)) = hashed_len cs fsize"
    "n \<in> set (hash_lens cs fsize k) \<Longrightarrow> n \<le> cs"
proof -
  let ?n = "(fsize + cs - 1) div cs"
  show "sum_list (hash_lens cs fsize ?n) = hashed_len cs fsize"
  proof (cases "fsize = 0")
    case True
    then show ?thesis using assms by (simp add: hash_lens_def hashed_len_def)
  next
    case False
    then obtain k where k: "?n = Suc k" using assms by (cases ?n) (auto simp: div_eq_0_iff)
    have "hash_lens cs fsize (Suc k) = map (\<lambda>c. cs) [0..<k] @ [fsize mod cs]" by (simp add: hash_lens_def)
    then have s: "sum_list (hash_lens cs fsize ?n) = k * cs + fsize mod cs"
      unfolding k by (simp add: map_replicate_const sum_list_replicate)
    define q r where "q = fsize div cs" and "r = fsize mod cs"
    have f: "fsize = q * cs + r" "r < cs" using assms by (simp_all add: q_def r_def)
    show ?thesis
    proof (cases "r = 0")
      case True
      have "?n = q" using f True assms by (intro div_nat_eqI) (simp_all add: algebra_simps)
      then have "q = Suc k" using k by simp
      then show ?thesis using f True s by (simp add: hashed_len_def)
    next
      case F: False
      have "?n = Suc q" using f F assms by (intro div_nat_eqI) (simp_all add: algebra_simps)
      then show ?thesis using f F s k by (simp add: hashed_len_def)
    qed
  qed
  show "n \<le> cs" if "n \<in> set (hash_lens cs fsize k)" for n k
    using that assms by (auto simp: hash_lens_def intro: less_imp_le)
qed

section \<open>Copying\<close>

lemma copy_lens_Nil: "0 < cs \<Longrightarrow> copy_lens cs left = [] \<longleftrightarrow> left = 0"
  by (subst copy_lens.simps) simp

lemma length_copy_lens: "0 < cs \<Longrightarrow> length (copy_lens cs left) = (left + cs - 1) div cs"
proof (induction left rule: less_induct)
  case (less left)
  show ?case
  proof (cases "left > cs")
    case True
    have "left + cs - 1 = (left - cs + cs - 1) + cs" using True less.prems by simp
    then have "(left + cs - 1) div cs = (left - cs + cs - 1) div cs + 1"
      using less.prems by (metis div_add_self2 not_gr_zero)
    then show ?thesis using True less by (subst copy_lens.simps) simp
  next
    case False
    have "(left + cs - 1) div cs = 1" if "left \<noteq> 0" using that False less.prems by (intro div_nat_eqI) simp_all
    then show ?thesis using False less.prems by (subst copy_lens.simps) simp
  qed
qed

text \<open>One turn of the copying loop; \<open>d\<close> is the chunk it writes.\<close>

lemma copy_part_step:
  assumes "vol_ready a V" and "open_at a fd file p" and "p \<le> length file" and "length tmp = unat (ad_chunksize a)"
    and "c \<noteq> 0" and "unat c < V" and "rlens = [] \<or> n = length tmp" and "n \<le> length file - p" and "n \<le> length tmp"
  defines "d \<equiv> take n (drop p file) @ replicate (length tmp - n) 0"
  obtains st' where "copy_parts fd (n # rlens) c tmp a = copy_parts fd rlens (c + 1) d (a\<lparr>ad_os := st'\<rparr>)"
    "length d = length tmp" "moved (ad_s a) fd st' (ad_os a)" "vol_ready (a\<lparr>ad_os := st'\<rparr>) V"
    "open_at (a\<lparr>ad_os := st'\<rparr>) fd file (p + n)" "chunk_view (ad_s a) st' (unat c) = d"
    "\<And>e. e < V \<Longrightarrow> e \<noteq> unat c \<Longrightarrow> chunk_view (ad_s a) st' e = chunk_view (ad_s a) (ad_os a) e"
proof -
  let ?tmp = "if rlens = [] then replicate (length tmp) 0 else tmp"
  have w: "write_at 0 0 (take n (drop p file)) ?tmp = d"
    using assms(7-9) by (auto simp: write_at_def d_def)
  have ld: "length d = length tmp" using assms(8,9) by (simp add: d_def)
  obtain st1 where S: "read_part fd n ?tmp a = (Inr (Inr d), a\<lparr>ad_os := st1\<rparr>)"
    "same_data st1 (ad_os a)" "moved (ad_s a) fd st1 (ad_os a)" "vol_ready (a\<lparr>ad_os := st1\<rparr>) V"
    "open_at (a\<lparr>ad_os := st1\<rparr>) fd file (p + min n (length file - p))"
    using read_part_ok [OF assms(1,2)] w by metis
  have ld1: "length d = unat (ad_chunksize (a\<lparr>ad_os := st1\<rparr>))" using ld assms(4) by simp
  obtain st2 where W: "adm_write_chunk c d (a\<lparr>ad_os := st1\<rparr>) = (Inr True, a\<lparr>ad_os := st1\<rparr>\<lparr>ad_os := st2\<rparr>)"
    "vol_only (ad_s (a\<lparr>ad_os := st1\<rparr>)) st2 (ad_os (a\<lparr>ad_os := st1\<rparr>))" "vol_ready (a\<lparr>ad_os := st1\<rparr>\<lparr>ad_os := st2\<rparr>) V"
    "chunk_view (ad_s (a\<lparr>ad_os := st1\<rparr>)) st2 (unat c) = d"
    "\<And>e. e < V \<Longrightarrow> e \<noteq> unat c \<Longrightarrow> chunk_view (ad_s (a\<lparr>ad_os := st1\<rparr>)) st2 e = chunk_view (ad_s (a\<lparr>ad_os := st1\<rparr>)) (ad_os (a\<lparr>ad_os := st1\<rparr>)) e"
    using adm_write_chunk_ok [OF S(4) assms(5,6) ld1] by metis
  have m: "min n (length file - p) = n" using assms(8) by simp
  show thesis
  proof (rule that [OF _ ld])
    show "copy_parts fd (n # rlens) c tmp a = copy_parts fd rlens (c + 1) d (a\<lparr>ad_os := st2\<rparr>)"
      using S(1) W(1) act_cancelled_ok [OF W(3)] by simp
    show "moved (ad_s a) fd st2 (ad_os a)"
      using moved_trans [OF vol_only_moved S(3)] W(2) by simp
    show "vol_ready (a\<lparr>ad_os := st2\<rparr>) V" using W(3) by simp
    show "open_at (a\<lparr>ad_os := st2\<rparr>) fd file (p + n)" using S(5) W(2) m by (simp add: open_at_def vol_only_def)
    show "chunk_view (ad_s a) st2 (unat c) = d" using W(4) by simp
    show "chunk_view (ad_s a) st2 e = chunk_view (ad_s a) (ad_os a) e" if "e < V" "e \<noteq> unat c" for e
      using W(5) [OF that] same_data_views [OF S(2)] by simp
  qed
qed

text \<open>The whole loop: the rest of the file, filled up with zeros, is in the chunks from \<open>c\<close> on.\<close>

lemma copy_parts_ok:
  assumes "vol_ready a V" and "open_at a fd file p" and "p \<le> length file" and "length tmp = unat (ad_chunksize a)"
    and "c \<noteq> 0" and "unat c + length (copy_lens (unat (ad_chunksize a)) (length file - p)) \<le> V"
  shows "\<exists>st'. copy_parts fd (copy_lens (unat (ad_chunksize a)) (length file - p)) c tmp a = (Inr (Inr ()), a\<lparr>ad_os := st'\<rparr>) \<and>
    moved (ad_s a) fd st' (ad_os a) \<and> vol_ready (a\<lparr>ad_os := st'\<rparr>) V \<and> open_at (a\<lparr>ad_os := st'\<rparr>) fd file (length file) \<and>
    take (length file - p) (concat (map (chunk_view (ad_s a) st')
      [unat c..<unat c + length (copy_lens (unat (ad_chunksize a)) (length file - p))])) = drop p file \<and>
    (\<forall>e < V. e \<notin> {unat c..<unat c + length (copy_lens (unat (ad_chunksize a)) (length file - p))} \<longrightarrow>
       chunk_view (ad_s a) st' e = chunk_view (ad_s a) (ad_os a) e)"
  using assms
proof (induction "length file - p" arbitrary: p c tmp a rule: less_induct)
  case less
  let ?cs = "unat (ad_chunksize a)" and ?l = "length file - p"
  have cs: "0 < ?cs" using less.prems(1) by (simp add: vol_ready_def unat_gt_0)
  show ?case
  proof (cases "?l = 0")
    case True
    then have "copy_lens ?cs ?l = []" using copy_lens_Nil [OF cs] by simp
    then show ?thesis using True less.prems by (intro exI [of _ "ad_os a"]) simp
  next
    case False
    define n where "n = min ?cs ?l"
    let ?rl = "copy_lens ?cs (length file - (p + n))"
    have cl: "copy_lens ?cs ?l = n # ?rl"
    proof (cases "?l > ?cs")
      case True
      then show ?thesis using cs by (subst copy_lens.simps) (simp add: n_def diff_diff_eq)
    next
      case F: False
      then have "length file - (p + n) = 0" by (simp add: n_def)
      then have "?rl = []" using copy_lens_Nil [OF cs] by simp
      then show ?thesis using F False cs by (subst copy_lens.simps) (simp add: n_def)
    qed
    have rl: "?rl = [] \<or> n = length tmp" using less.prems(4) cs by (auto simp: n_def copy_lens_Nil)
    let ?d = "take n (drop p file) @ replicate (length tmp - n) 0"
    have cV: "unat c < V" using less.prems(6) by (simp add: cl)
    have nl: "n \<le> ?l" "n \<le> length tmp" using less.prems(4) by (simp_all add: n_def)
    obtain st1 where S: "copy_parts fd (n # ?rl) c tmp a = copy_parts fd ?rl (c + 1) ?d (a\<lparr>ad_os := st1\<rparr>)"
      "length ?d = length tmp" "moved (ad_s a) fd st1 (ad_os a)" "vol_ready (a\<lparr>ad_os := st1\<rparr>) V"
      "open_at (a\<lparr>ad_os := st1\<rparr>) fd file (p + n)" "chunk_view (ad_s a) st1 (unat c) = ?d"
      "\<And>e. e < V \<Longrightarrow> e \<noteq> unat c \<Longrightarrow> chunk_view (ad_s a) st1 e = chunk_view (ad_s a) (ad_os a) e"
      using copy_part_step [OF less.prems(1-5) cV rl nl] by metis
    have c1: "unat (c + 1) = unat c + 1" by (rule next_chunk [OF less.prems(1) cV])
    then have c10: "c + 1 \<noteq> 0" by auto
    have le: "unat (c + 1) + length ?rl \<le> V" using less.prems(6) by (simp add: cl c1)
    have lt: "length file - (p + n) < ?l" using False cs by (simp add: n_def)
    have pn: "p + n \<le> length file" using nl(1) False by linarith
    have "length ?d = unat (ad_chunksize (a\<lparr>ad_os := st1\<rparr>))" using S(2) less.prems(4) by simp
    from less.hyps [OF lt S(4,5) pn this c10] le
    obtain st' where I: "copy_parts fd ?rl (c + 1) ?d (a\<lparr>ad_os := st1\<rparr>) = (Inr (Inr ()), a\<lparr>ad_os := st'\<rparr>)"
      "moved (ad_s a) fd st' st1" "vol_ready (a\<lparr>ad_os := st'\<rparr>) V" "open_at (a\<lparr>ad_os := st'\<rparr>) fd file (length file)"
      "take (length file - (p + n)) (concat (map (chunk_view (ad_s a) st') [unat (c + 1)..<unat (c + 1) + length ?rl])) = drop (p + n) file"
      "\<And>e. e < V \<Longrightarrow> e \<notin> {unat (c + 1)..<unat (c + 1) + length ?rl} \<Longrightarrow> chunk_view (ad_s a) st' e = chunk_view (ad_s a) st1 e"
      by auto
    have vc: "chunk_view (ad_s a) st' (unat c) = ?d" using I(6) [OF cV] S(6) c1 by simp
    have up: "[unat c..<unat c + length (n # ?rl)] = unat c # [unat (c + 1)..<unat (c + 1) + length ?rl]"
      by (simp add: c1 upt_conv_Cons del: upt_Suc)
    have v: "take ?l (concat (map (chunk_view (ad_s a) st') [unat c..<unat c + length (n # ?rl)])) = drop p file"
    proof (cases "?rl = []")
      case True
      then have "n = ?l" using cs nl(1) by (simp add: copy_lens_Nil)
      then show ?thesis using True unfolding up by (simp add: vc c1)
    next
      case F: False
      then have "length tmp = n" using rl by simp
      moreover have "take n (drop p file) @ drop (p + n) file = drop p file"
        by (metis add.commute append_take_drop_id drop_drop)
      ultimately show ?thesis using I(5) nl unfolding up by (simp add: vc)
    qed
    have w: "chunk_view (ad_s a) st' e = chunk_view (ad_s a) (ad_os a) e"
      if "e < V" "e \<notin> {unat c..<unat c + length (n # ?rl)}" for e
    proof -
      have "e \<noteq> unat c" "e \<notin> {unat (c + 1)..<unat (c + 1) + length ?rl}" using that(2) c1 by auto
      then show ?thesis using I(6) S(7) that(1) by simp
    qed
    show ?thesis
      unfolding cl
      by (intro exI [of _ st'] conjI trans [OF S(1) I(1)] moved_trans [OF I(2) S(3)] I(3,4) v allI impI w)
  qed
qed

section \<open>Exporting\<close>

lemma ready_length_view:
  "vol_ready a V \<Longrightarrow> 0 < c \<Longrightarrow> c < V \<Longrightarrow> length (chunk_view (ad_s a) (ad_os a) c) = unat (ad_chunksize a)"
  using length_chunk_view [of "ad_s a" "ad_os a" V c] by (simp add: vol_ready_def)

text \<open>Standard output is no member and no block device, and is written at its end.\<close>

definition stdout_ok :: "adm \<Rightarrow> bool" where
  "stdout_ok a \<longleftrightarrow> STDOUT_FILENO \<notin> member_fds (ad_s a) \<and> of_kind (os_files (ad_os a) STDOUT_FILENO) \<noteq> Block_device \<and>
     of_pos (os_files (ad_os a) STDOUT_FILENO) = length (of_bytes (os_files (ad_os a) STDOUT_FILENO))"

abbreviation printed :: "adm \<Rightarrow> u8 list" where
  "printed a \<equiv> of_bytes (os_files (ad_os a) STDOUT_FILENO)"

lemma print_ok:
  assumes "vol_ready a V" and "stdout_ok a"
  obtains st' where "on_os (os_write STDOUT_FILENO bs) a = (Some (length bs), a\<lparr>ad_os := st'\<rparr>)"
    "vol_ready (a\<lparr>ad_os := st'\<rparr>) V" "stdout_ok (a\<lparr>ad_os := st'\<rparr>)" "printed (a\<lparr>ad_os := st'\<rparr>) = printed a @ bs"
    "\<And>c. chunk_view (ad_s a) st' c = chunk_view (ad_s a) (ad_os a) c"
proof -
  let ?k = "os_files (ad_os a) STDOUT_FILENO"
  let ?st = "os_upd STDOUT_FILENO (\<lambda>k. k\<lparr>of_bytes := printed a @ bs, of_pos := of_pos k + length bs\<rparr>)
    ((ad_os a)\<lparr>os_calls := Suc (os_calls (ad_os a))\<rparr>)"
  have o: "STDOUT_FILENO \<notin> member_fds (ad_s a)" "of_kind ?k \<noteq> Block_device" "of_pos ?k = length (of_bytes ?k)"
    using assms(2) by (simp_all add: stdout_ok_def)
  have "os_write STDOUT_FILENO bs (ad_os a) = (Some (length bs), ?st)"
    using o vol_ready_no_fail [OF assms(1)] vol_ready_whole [OF assms(1)] by (auto simp: os_write_def os_call_def os_upd_def write_at_def Let_def)
  then have 1: "on_os (os_write STDOUT_FILENO bs) a = (Some (length bs), a\<lparr>ad_os := ?st\<rparr>)" by (rule on_os_eq)
  have m: "os_files ?st fd = os_files (ad_os a) fd" if "fd \<in> member_fds (ad_s a)" for fd
    using that o(1) by (auto simp: os_upd_def)
  have "vol_fits (ad_s a) ?st V" using members_fits [OF m] assms(1) by (simp add: os_upd_def vol_ready_def)
  then have 2: "vol_ready (a\<lparr>ad_os := ?st\<rparr>) V"
    by (intro vol_ready_os [OF assms(1)]) (simp_all add: same_host_def os_upd_def)
  show thesis
    by (rule that [OF 1 2]) (use o members_views [OF storage_ok_ready [OF assms(1)] m] in \<open>simp_all add: stdout_ok_def os_upd_def\<close>)
qed

lemma stdout_ok_vol_only:
  assumes "vol_only (ad_s a) st' (ad_os a)" and "stdout_ok a"
  shows "stdout_ok (a\<lparr>ad_os := st'\<rparr>)" "printed (a\<lparr>ad_os := st'\<rparr>) = printed a"
  using assms by (simp_all add: stdout_ok_def vol_only_def)

lemma cat_loop_ok:
  assumes "vol_ready a V" and "stdout_ok a" and "length buf = unat (ad_chunksize a)" and "c \<noteq> 0" and "unat c + k \<le> V"
    and "unat left \<le> k * unat (ad_chunksize a)"
  shows "\<exists>st'. cat_loop (ucast (ad_chunksize a)) c 0 left buf a = (Inr (Inr ()), a\<lparr>ad_os := st'\<rparr>) \<and>
    vol_ready (a\<lparr>ad_os := st'\<rparr>) V \<and>
    of_bytes (os_files st' STDOUT_FILENO) = printed a @ take (unat left) (concat (map (chunk_view (ad_s a) (ad_os a)) [unat c..<unat c + k])) \<and>
    (\<forall>d. chunk_view (ad_s a) st' d = chunk_view (ad_s a) (ad_os a) d)"
  using assms
proof (induction k arbitrary: c left buf a)
  case 0
  then have "left = 0" by (simp add: unat_eq_zero)
  then show ?case using 0 by (subst cat_loop.simps) (intro exI [of _ "ad_os a"], simp)
next
  case (Suc k)
  let ?cs = "unat (ad_chunksize a)"
  show ?case
  proof (cases "left = 0")
    case True
    then show ?thesis using Suc.prems by (subst cat_loop.simps) (intro exI [of _ "ad_os a"], simp)
  next
    case False
    have cV: "unat c < V" "0 < unat c" using Suc.prems(4,5) by (simp_all add: unat_gt_0)
    let ?v = "chunk_view (ad_s a) (ad_os a) (unat c)" and ?rlen = "min (ucast (ad_chunksize a)) left :: u64"
    have v: "length ?v = ?cs" by (rule ready_length_view [OF Suc.prems(1) cV(2,1)])
    have rl: "unat ?rlen = min ?cs (unat left)" by (simp add: min_def word_le_nat_alt unat_ucast_widths)
    obtain st1 where R: "adm_read_chunk c buf a = (Inr (True, ?v), a\<lparr>ad_os := st1\<rparr>)"
      "same_data st1 (ad_os a)" "vol_only (ad_s a) st1 (ad_os a)"
      using adm_read_chunk_ok [OF Suc.prems(1,4) cV(1) Suc.prems(3)] by metis
    note r1 = vol_ready_data [OF Suc.prems(1) R(2)] and s1 = stdout_ok_vol_only [OF R(3) Suc.prems(2)]
    obtain st2 where P: "on_os (os_write STDOUT_FILENO (take (unat ?rlen) ?v)) (a\<lparr>ad_os := st1\<rparr>) =
        (Some (length (take (unat ?rlen) ?v)), a\<lparr>ad_os := st1\<rparr>\<lparr>ad_os := st2\<rparr>)"
      "vol_ready (a\<lparr>ad_os := st1\<rparr>\<lparr>ad_os := st2\<rparr>) V" "stdout_ok (a\<lparr>ad_os := st1\<rparr>\<lparr>ad_os := st2\<rparr>)"
      "printed (a\<lparr>ad_os := st1\<rparr>\<lparr>ad_os := st2\<rparr>) = printed (a\<lparr>ad_os := st1\<rparr>) @ take (unat ?rlen) ?v"
      "\<And>d. chunk_view (ad_s (a\<lparr>ad_os := st1\<rparr>)) st2 d = chunk_view (ad_s (a\<lparr>ad_os := st1\<rparr>)) (ad_os (a\<lparr>ad_os := st1\<rparr>)) d"
      using print_ok [OF r1 s1(1)] by metis
    let ?a = "a\<lparr>ad_os := st2\<rparr>"
    have cs0: "(ucast (ad_chunksize a) :: u64) \<noteq> 0"
    proof -
      have "unat (ucast (ad_chunksize a) :: u64) \<noteq> 0"
        using Suc.prems(1) by (simp add: unat_ucast_widths vol_ready_def unat_eq_zero)
      then show ?thesis by auto
    qed
    have step: "cat_loop (ucast (ad_chunksize a)) c 0 left buf a =
        cat_loop (ucast (ad_chunksize ?a)) (c + 1) 0 (left - ?rlen) ?v ?a"
      using False R(1) P(1) cs0 v rl by (subst cat_loop.simps) (simp add: Let_def)
    have vw: "chunk_view (ad_s a) st2 d = chunk_view (ad_s a) (ad_os a) d" for d
      using P(5) same_data_views [OF R(2)] by simp
    show ?thesis
    proof (cases "left = ?rlen")
      case True
      then have "unat left \<le> ?cs" using rl by (metis min.cobounded1)
      then have "take (unat left) (concat (map (chunk_view (ad_s a) (ad_os a)) [unat c..<unat c + Suc k])) = take (unat ?rlen) ?v"
        using v True [symmetric] by (simp add: upt_conv_Cons del: upt_Suc)
      moreover have "cat_loop (ucast (ad_chunksize ?a)) (c + 1) 0 (left - ?rlen) ?v ?a = (Inr (Inr ()), ?a)"
        using True [symmetric] by (subst cat_loop.simps) simp
      ultimately show ?thesis using step P(2,4) s1(2) vw by (intro exI [of _ st2]) simp
    next
      case F: False
      then have "\<not> left \<le> ucast (ad_chunksize a)" by (metis min.absorb2)
      then have big: "?cs < unat left" "unat ?rlen = ?cs" using rl by (simp_all add: word_le_nat_alt unat_ucast_widths)
      then have l: "unat (left - ?rlen) = unat left - ?cs" by (simp add: unat_sub word_le_nat_alt)
      then have le: "unat (left - ?rlen) \<le> k * ?cs" using Suc.prems(6) by simp
      have k0: "0 < k" using Suc.prems(6) big(1) by (cases k) simp_all
      have c1: "unat (c + 1) = unat c + 1" by (rule next_chunk [OF Suc.prems(1) cV(1)])
      have "c + 1 \<noteq> 0" using c1 by auto
      from Suc.IH [of ?a ?v "c + 1" "left - ?rlen", OF _ _ _ this] P(2,3) v c1 Suc.prems(5) le
      obtain st' where I: "cat_loop (ucast (ad_chunksize ?a)) (c + 1) 0 (left - ?rlen) ?v ?a = (Inr (Inr ()), a\<lparr>ad_os := st'\<rparr>)"
        "vol_ready (a\<lparr>ad_os := st'\<rparr>) V"
        "of_bytes (os_files st' STDOUT_FILENO) = printed ?a @ take (unat left - ?cs) (concat (map (chunk_view (ad_s a) st2) [unat (c + 1)..<unat (c + 1) + k]))"
        "\<And>d. chunk_view (ad_s a) st' d = chunk_view (ad_s a) st2 d"
        by (auto simp: l)
      have "take (unat left) (concat (map (chunk_view (ad_s a) (ad_os a)) [unat c..<unat c + Suc k])) =
          ?v @ take (unat left - ?cs) (concat (map (chunk_view (ad_s a) (ad_os a)) [unat (c + 1)..<unat (c + 1) + k]))"
        using v big(1) c1 by (simp add: upt_conv_Cons del: upt_Suc)
      then show ?thesis using step I P(4) s1(2) vw big(2) v by (intro exI [of _ st']) (simp cong: map_cong)
    qed
  qed
qed

end
