(* ===== verification/AdminProps.thy ===== *)
theory AdminProps
  imports Prelude HashVal Htable Btable Alist ShfsDefs Tools ToolsProps Mkfs MkfsProps Admin AdminActs AdminIO
begin

text \<open>
  Properties of the administration tool: what adding, exporting and removing an object do to the
  table, the allocator and the volume, and what unmounting writes back.
\<close>

section \<open>Entries of the mounted table\<close>

definition place_chk :: "adm \<Rightarrow> elref \<Rightarrow> nat" where
  "place_chk a r = unat (hentry_htchunk (ht_private (ad_bt a) r))"

definition place_off :: "adm \<Rightarrow> elref \<Rightarrow> nat" where
  "place_off a r = unat (hentry_htoffset (ht_private (ad_bt a) r))"

text \<open>The table is well formed; every slot has its own place in a cached chunk.\<close>

definition table_ok :: "adm \<Rightarrow> elref list \<Rightarrow> bool" where
  "table_ok a els \<longleftrightarrow> htable_ok (ad_bt a) els \<and> distinct (ht_keys (ad_bt a) els) \<and> ht_hlen (ad_bt a) = ad_hlen a \<and>
     length (ad_modified a) = length (ad_cache a) \<and>
     (\<forall>r. in_table (ad_bt a) r \<longrightarrow> place_chk a r < length (ad_cache a) \<and>
        (\<exists>buf. ad_cache a ! place_chk a r = Some buf \<and> place_off a r + 244 \<le> length buf)) \<and>
     (\<forall>r q. in_table (ad_bt a) r \<and> in_table (ad_bt a) q \<and> r \<noteq> q \<and> place_chk a r = place_chk a q \<longrightarrow>
        place_off a r + 244 \<le> place_off a q \<or> place_off a q + 244 \<le> place_off a r)"

lemma table_ok_place:
  assumes "table_ok a els" and "in_table (ad_bt a) r"
  obtains buf where "place_chk a r < length (ad_cache a)" "ad_cache a ! place_chk a r = Some buf"
    "place_off a r + 244 \<le> length buf"
  using assms unfolding table_ok_def by blast

lemma els_in_table: "table_ok a els \<Longrightarrow> r \<in> set els \<Longrightarrow> in_table (ad_bt a) r"
  using htable_okD(7) [of "ad_bt a" els r] by (simp add: table_ok_def in_table_def)

lemma hentry_of_eq:
  assumes "ad_cache a ! place_chk a r = Some buf" and "place_chk a r < length (ad_cache a)" and "place_off a r + 244 \<le> length buf"
  shows "hentry_of r a = Inr (hentry_get (field buf (place_off a r) 244))"
  using assms by (simp add: hentry_of_def hentry_at_def cached_def place_chk_def place_off_def Let_def)

lemma hentry_wf_get: "length b = 244 \<Longrightarrow> hentry_wf (hentry_get b)"
  by (simp add: hentry_wf_def hentry_get_def)

lemma hentry_of_ok:
  assumes "table_ok a els" and "in_table (ad_bt a) r"
  obtains e where "hentry_of r a = Inr e" "hentry_wf e"
proof -
  obtain buf where b: "place_chk a r < length (ad_cache a)" "ad_cache a ! place_chk a r = Some buf"
    "place_off a r + 244 \<le> length buf" using table_ok_place [OF assms] .
  show thesis using that hentry_of_eq [OF b(2,1,3)] b(3) by (simp add: hentry_wf_get)
qed

text \<open>Bytes of a buffer that another entry overwrites.\<close>

lemma field_write_at:
  assumes "off + length d \<le> length buf"
  shows "field (write_at off z d buf) off (length d) = d"
    "k + n \<le> off \<or> off + length d \<le> k \<Longrightarrow> k + n \<le> length buf \<Longrightarrow> field (write_at off z d buf) k n = field buf k n"
proof -
  have w: "write_at off z d buf = take off buf @ d @ drop (off + length d) buf"
    using assms by (simp add: write_at_def)
  show "field (write_at off z d buf) off (length d) = d" using assms by (simp add: field_def w)
  show "field (write_at off z d buf) k n = field buf k n" if "k + n \<le> off \<or> off + length d \<le> k" "k + n \<le> length buf"
  proof (rule nth_equalityI)
    have "length (write_at off z d buf) = length buf" using assms by (simp add: w)
    then have l: "length (field (write_at off z d buf) k n) = n" "length (field buf k n) = n" using that(2) by simp_all
    then show "length (field (write_at off z d buf) k n) = length (field buf k n)" by simp
    fix i assume "i < length (field (write_at off z d buf) k n)"
    then have i: "i < n" "k + i < length buf" using l that(2) by simp_all
    show "field (write_at off z d buf) k n ! i = field buf k n ! i"
      using i that(1) assms by (auto simp: field_def w nth_append)
  qed
qed

text \<open>Storing an entry: it reads back, the others stay, and its chunk is marked.\<close>

lemma set_hentry_ok:
  assumes t: "table_ok a els" and r: "in_table (ad_bt a) r" and e: "hentry_wf e"
  shows "hentry_of r (set_hentry r e a) = Inr e"
    "\<And>q. in_table (ad_bt a) q \<Longrightarrow> q \<noteq> r \<Longrightarrow> hentry_of q (set_hentry r e a) = hentry_of q a"
    "table_ok (set_hentry r e a) els"
    "\<exists>cache modified. set_hentry r e a = a\<lparr>ad_cache := cache, ad_modified := modified\<rparr>"
    "ad_modified (set_hentry r e a) ! place_chk a r"
proof -
  obtain buf where b: "place_chk a r < length (ad_cache a)" "ad_cache a ! place_chk a r = Some buf"
    "place_off a r + 244 \<le> length buf" using table_ok_place [OF t r] .
  let ?buf = "write_at (place_off a r) 0 (hentry_put e) buf"
  let ?a = "a\<lparr>ad_cache := (ad_cache a)[place_chk a r := Some ?buf], ad_modified := (ad_modified a)[place_chk a r := True]\<rparr>"
  have lm: "length (ad_modified a) = length (ad_cache a)" using t by (simp add: table_ok_def)
  have s: "set_hentry r e a = ?a"
    using b by (simp add: set_hentry_def put_hentry_def cached_def place_chk_def place_off_def Let_def)
  have p: "place_chk ?a q = place_chk a q" "place_off ?a q = place_off a q" for q by (simp_all add: place_chk_def place_off_def)
  have l: "length (hentry_put e) = 244" using hentry_get_put(2) [OF e] .
  have lb: "length ?buf = length buf" using b(3) l by (simp add: write_at_def)
  have "field ?buf (place_off a r) 244 = hentry_put e"
    using field_write_at(1) [of "place_off a r" "hentry_put e" buf 0] b(3) l by simp
  then show "hentry_of r (set_hentry r e a) = Inr e"
    using hentry_of_eq [of ?a r ?buf] b lb hentry_get_put(1) [OF e, of "[]"] by (simp add: s p)
  show "hentry_of q (set_hentry r e a) = hentry_of q a" if q: "in_table (ad_bt a) q" "q \<noteq> r" for q
  proof -
    obtain bq where bq: "place_chk a q < length (ad_cache a)" "ad_cache a ! place_chk a q = Some bq"
      "place_off a q + 244 \<le> length bq" using table_ok_place [OF t q(1)] .
    show ?thesis
    proof (cases "place_chk a q = place_chk a r")
      case True
      then have "bq = buf" using b bq by simp
      moreover have "place_off a q + 244 \<le> place_off a r \<or> place_off a r + 244 \<le> place_off a q"
        using t q r True unfolding table_ok_def by blast
      ultimately have "field ?buf (place_off a q) 244 = field bq (place_off a q) 244"
        using field_write_at(2) [of "place_off a r" "hentry_put e" buf "place_off a q" 244 0] b(3) bq(3) l by simp
      then show ?thesis
        using hentry_of_eq [OF bq(2,1,3)] hentry_of_eq [of ?a q ?buf] b(1) True lb bq(3) \<open>bq = buf\<close> by (simp add: s p)
    next
      case False
      then show ?thesis
        using hentry_of_eq [OF bq(2,1,3)] hentry_of_eq [of ?a q bq] bq by (simp add: s p)
    qed
  qed
  show "table_ok (set_hentry r e a) els"
  proof -
    have "\<exists>buf'. ad_cache ?a ! place_chk a q = Some buf' \<and> place_off a q + 244 \<le> length buf'" if q: "in_table (ad_bt a) q" for q
    proof -
      obtain bq where bq: "place_chk a q < length (ad_cache a)" "ad_cache a ! place_chk a q = Some bq"
        "place_off a q + 244 \<le> length bq" using table_ok_place [OF t q] .
      show ?thesis
        using b bq lb by (cases "place_chk a q = place_chk a r") auto
    qed
    then show ?thesis using t unfolding s table_ok_def p by simp
  qed
  show "\<exists>cache modified. set_hentry r e a = a\<lparr>ad_cache := cache, ad_modified := modified\<rparr>" unfolding s by blast
  show "ad_modified (set_hentry r e a) ! place_chk a r" using b(1) lm by (simp add: s)
qed

text \<open>A new entry.\<close>

lemma new_entry_ok:
  assumes t: "table_ok a els" and h: "length h = 64" and new: "shfs_btable_lookup (ad_bt a) h = Inl (Errno ENOENT)"
    and room: "shfs_btable_addentry (ad_bt a) h \<noteq> Inl (Errno ENOBUFS)"
  obtains r bt where "new_entry h a = (Inr (Inr r), a\<lparr>ad_bt := bt\<rparr>)" "table_ok (a\<lparr>ad_bt := bt\<rparr>) (els @ [r])" "r \<notin> set els"
    "ht_hlen bt = ht_hlen (ad_bt a)" "ht_abs bt (els @ [r]) = (ht_abs (ad_bt a) els)(ht_key (ad_bt a) h \<mapsto> r)"
    "nb_bkts bt = nb_bkts (ad_bt a)" "el_per_bkt bt = el_per_bkt (ad_bt a)" "ht_private bt = ht_private (ad_bt a)"
proof -
  have ok: "htable_ok (ad_bt a) els" and dk: "distinct (ht_keys (ad_bt a) els)" using t by (simp_all add: table_ok_def)
  have nz: "\<not> zero_key (ht_key (ad_bt a) h)" and abs: "ht_abs (ad_bt a) els (ht_key (ad_bt a) h) = None"
    using new htable_lookup_eq [OF ok dk h] by (auto simp: shfs_btable_lookup_def split: if_splits option.splits)
  obtain r bt where R: "htable_add (ad_bt a) h = Inr (r, bt)" "htable_ok bt (els @ [r])" "distinct (ht_keys bt (els @ [r]))"
    "ht_hlen bt = ht_hlen (ad_bt a)" "ht_private bt = ht_private (ad_bt a)"
    "ht_abs bt (els @ [r]) = (ht_abs (ad_bt a) els)(ht_key (ad_bt a) h \<mapsto> r)" "r \<notin> set els"
    using htable_add_eq [OF ok dk h nz abs] room by (auto simp: shfs_btable_addentry_def)
  have sz: "nb_bkts bt = nb_bkts (ad_bt a)" "el_per_bkt bt = el_per_bkt (ad_bt a)"
    using R(1) by (auto simp: htable_add_def htable_store_def split: sum.splits option.splits prod.splits)
  have ne: "new_entry h a = (Inr (Inr r), a\<lparr>ad_bt := bt\<rparr>)"
    using new R(1) by (simp add: new_entry_def shfs_btable_addentry_def)
  have "table_ok (a\<lparr>ad_bt := bt\<rparr>) (els @ [r])"
    using t R(2-5) sz unfolding table_ok_def place_chk_def place_off_def in_table_def by simp
  then show thesis using that ne R(4-7) sz by blast
qed

section \<open>Adding a file\<close>

text \<open>
  The digest of a file: of the bytes that are hashed, by the volume's hash function, or the one
  given on the command line.
\<close>

definition file_digest :: "(hashid \<Rightarrow> u8 list \<Rightarrow> u8 list) \<Rightarrow> adm \<Rightarrow> token \<Rightarrow> u8 list \<Rightarrow> u8 list option" where
  "file_digest mh a j file =
     (if ad_hfunc a \<noteq> SHFUNC_MANUAL
      then map_option (\<lambda>ty. mh ty (take (hashed_len (unat (ad_chunksize a)) (length file)) file))
             (shfs_mhash_type (ad_hfunc a) (ad_hlen a))
      else Option.bind (tn_optstr2 j) (\<lambda>s. hash_parse s (map (ad_junk a) [0..<64]) (ad_hlen a)))"

definition file_chunks :: "adm \<Rightarrow> nat \<Rightarrow> nat" where
  "file_chunks a n = (n + unat (ad_chunksize a) - 1) div unat (ad_chunksize a)"

lemma os_call_ok:
  assumes "vol_ready a V"
  obtains st' where "on_os os_call a = (False, a\<lparr>ad_os := st'\<rparr>)" "same_data st' (ad_os a)" "\<And>fd. os_files st' fd = os_files (ad_os a) fd"
    "os_calls st' = Suc (os_calls (ad_os a))"
proof -
  let ?st = "(ad_os a)\<lparr>os_calls := Suc (os_calls (ad_os a))\<rparr>"
  have "on_os os_call a = (False, a\<lparr>ad_os := ?st\<rparr>)"
    using vol_ready_no_fail [OF assms] by (simp add: on_os_def os_call_def)
  then show thesis by (rule that) (simp_all add: same_data_def same_host_def)
qed

lemma hash_file_ok:
  assumes R: "vol_ready a V" and o: "open_at a fd file p" and ty: "shfs_mhash_type (ad_hfunc a) (ad_hlen a) = Some ty"
    and tmp: "length tmp = unat (ad_chunksize a)"
  obtains st' tmp' p' where "hash_file mh fd (length file) (file_chunks a (length file)) tmp a =
      (Inr (Inr (mh ty (take (hashed_len (unat (ad_chunksize a)) (length file)) file), tmp')), a\<lparr>ad_os := st'\<rparr>)"
    "length tmp' = length tmp" "same_data st' (ad_os a)" "moved (ad_s a) fd st' (ad_os a)" "open_at (a\<lparr>ad_os := st'\<rparr>) fd file p'"
proof -
  let ?cs = "unat (ad_chunksize a)" and ?lens = "hash_lens (unat (ad_chunksize a)) (length file) (file_chunks a (length file))"
  have cs: "0 < ?cs" using R by (simp add: vol_ready_def unat_gt_0)
  have sl: "sum_list ?lens = hashed_len ?cs (length file)" "\<forall>n \<in> set ?lens. n \<le> ?cs"
    using sum_hash_lens [OF cs] by (simp_all add: file_chunks_def)
  obtain st1 where C: "on_os os_call a = (False, a\<lparr>ad_os := st1\<rparr>)" "same_data st1 (ad_os a)"
    "\<And>x. os_files st1 x = os_files (ad_os a) x" using os_call_ok [OF R] by metis
  note R1 = vol_ready_data [OF R C(2)]
  have o1: "open_at (a\<lparr>ad_os := st1\<rparr>) fd file p" using o C(3) by (simp add: open_at_def)
  have m1: "moved (ad_s a) fd st1 (ad_os a)" using C(2,3) by (simp add: moved_def same_data_host)
  obtain st2 where S: "seek_file fd (a\<lparr>ad_os := st1\<rparr>) = (Inr (Inr ()), a\<lparr>ad_os := st1\<rparr>\<lparr>ad_os := st2\<rparr>)"
    "same_data st2 (ad_os (a\<lparr>ad_os := st1\<rparr>))" "moved (ad_s (a\<lparr>ad_os := st1\<rparr>)) fd st2 (ad_os (a\<lparr>ad_os := st1\<rparr>))"
    "vol_ready (a\<lparr>ad_os := st1\<rparr>\<lparr>ad_os := st2\<rparr>) V" "open_at (a\<lparr>ad_os := st1\<rparr>\<lparr>ad_os := st2\<rparr>) fd file 0"
    using seek_file_ok [OF R1 o1] by metis
  have "0 + sum_list ?lens \<le> length file" unfolding sl(1) by (simp add: hashed_len_def)
  from hash_parts_ok [OF S(4,5) this, of tmp "[]"] tmp sl(2)
  obtain st3 tmp' where H: "hash_parts fd ?lens [] tmp (a\<lparr>ad_os := st2\<rparr>) =
      (Inr (Inr (take (sum_list ?lens) file, tmp')), a\<lparr>ad_os := st3\<rparr>)" "length tmp' = length tmp"
    "same_data st3 st2" "moved (ad_s a) fd st3 st2" "open_at (a\<lparr>ad_os := st3\<rparr>) fd file (sum_list ?lens)" by auto
  have "hash_file mh fd (length file) (file_chunks a (length file)) tmp a =
      (Inr (Inr (mh ty (take (hashed_len ?cs (length file)) file), tmp')), a\<lparr>ad_os := st3\<rparr>)"
    using S(1) H(1) by (simp add: hash_file_def init_mhash_def ty C(1) sl(1))
  moreover have "same_data st3 (ad_os a)" using same_data_trans [OF H(3)] same_data_trans [OF _ C(2)] S(2) by simp
  moreover have "moved (ad_s a) fd st3 (ad_os a)" using moved_trans [OF H(4)] moved_trans [OF _ m1] S(3) by simp
  ultimately show thesis using that H(2,5) by blast
qed

lemma digest_ok:
  assumes R: "vol_ready a V" and o: "open_at a fd file p" and d: "file_digest mh a j file = Some h"
    and tmp: "length tmp = unat (ad_chunksize a)"
  obtains st' tmp' p' where "(if ad_hfunc a \<noteq> SHFUNC_MANUAL then hash_file mh fd (length file) (file_chunks a (length file)) tmp a
      else abind (manual_digest j a) (\<lambda>h a. (Inr (Inr (h, tmp)), a))) = (Inr (Inr (h, tmp')), a\<lparr>ad_os := st'\<rparr>)"
    "length tmp' = length tmp" "same_data st' (ad_os a)" "moved (ad_s a) fd st' (ad_os a)" "open_at (a\<lparr>ad_os := st'\<rparr>) fd file p'"
proof (cases "ad_hfunc a = SHFUNC_MANUAL")
  case True
  then have "abind (manual_digest j a) (\<lambda>h a. (Inr (Inr (h, tmp)), a)) = (Inr (Inr (h, tmp)), a\<lparr>ad_os := ad_os a\<rparr>)"
    using d by (auto simp: file_digest_def manual_digest_def split: option.splits bind_splits)
  then show ?thesis using True o by (intro that [of tmp "ad_os a" p]) simp_all
next
  case False
  then obtain ty where ty: "shfs_mhash_type (ad_hfunc a) (ad_hlen a) = Some ty"
    "h = mh ty (take (hashed_len (unat (ad_chunksize a)) (length file)) file)"
    using d by (auto simp: file_digest_def)
  show ?thesis using hash_file_ok [OF R o ty(1) tmp] that False ty(2) by metis
qed

text \<open>The entry of the file.\<close>

lemma fill_file_entry_ok:
  assumes t: "table_ok a els" and r: "in_table (ad_bt a) r" and h: "length h = 64"
  obtains e a' where "fill_file_entry j now h cchk n r a = (Inr (Inr ()), a')" "hentry_of r a' = Inr e"
    "\<not> SHFS_HENTRY_ISLINK e" "fa_chunk (SHFS_HENTRY_FILEATTR e) = cchk" "fa_offset (SHFS_HENTRY_FILEATTR e) = 0"
    "fa_len (SHFS_HENTRY_FILEATTR e) = n" "table_ok a' els"
    "\<And>q. in_table (ad_bt a) q \<Longrightarrow> q \<noteq> r \<Longrightarrow> hentry_of q a' = hentry_of q a"
    "\<exists>cache modified. a' = a\<lparr>ad_cache := cache, ad_modified := modified\<rparr>" "ad_modified a' ! place_chk a r"
    "take (unat (ad_hlen a)) (he_hash e) = take (unat (ad_hlen a)) h"
proof -
  obtain e where e: "hentry_of r a = Inr e" "hentry_wf e" using hentry_of_ok [OF t r] .
  have hl: "unat (ad_hlen a) \<le> 64" using t htable_okD(2) by (fastforce simp: table_ok_def)
  obtain h' where h': "hash_copy (he_hash e) h (ad_hlen a) = Inr h'" "length h' = 64"
    "take (unat (ad_hlen a)) h' = take (unat (ad_hlen a)) h"
    using hash_copy_key [OF _ h hl, of "he_hash e"] e(2) by (auto simp: hentry_wf_def)
  let ?fa = "\<lparr>fa_chunk = cchk, fa_offset = 0, fa_len = n,
    fa_mime = (case tn_optstr0 j of Some m \<Rightarrow> strncpy (bytes_of m) 32 | None \<Rightarrow> replicate 32 0), fa_encoding = replicate 16 0\<rparr>"
  let ?e0 = "e\<lparr>he_hash := h', he_ts_creation := now, he_flags := 0, he_name := entry_name j\<rparr>"
  let ?e = "e\<lparr>he_hash := h', he_attr := f_attr_put ?fa @ drop 72 (he_attr e), he_ts_creation := now, he_flags := 0, he_name := entry_name j\<rparr>"
  have fm: "length (fa_mime ?fa) = 32" "length (fa_encoding ?fa) = 16" by (simp_all split: option.split)
  have e': "?e = ?e0\<lparr>he_attr := f_attr_put ?fa @ drop 72 (he_attr e)\<rparr>" by simp
  have fa: "SHFS_HENTRY_FILEATTR ?e = ?fa" 
    by (rule trans [OF arg_cong [OF e', of SHFS_HENTRY_FILEATTR] f_attr_get_put [OF fm]])
  have wf: "hentry_wf ?e"
    using e(2) h'(2) fm by (simp add: hentry_wf_def entry_name_def f_attr_put_def)
  note S = set_hentry_ok [OF t r wf]
  have f: "fill_file_entry j now h cchk n r a = (Inr (Inr ()), set_hentry r ?e a)"
    using e(1) h'(1) by (simp add: fill_file_entry_def Let_def)
  show thesis
    by (rule that [OF f S(1) _ _ _ _ S(3) S(2) S(4,5)]) (simp_all add: fa SHFS_HENTRY_ISLINK_def h'(3))
qed

text \<open>What depends on which part of the state.\<close>

lemma adm_frame [simp]:
  "vol_ready (a\<lparr>ad_bt := bt\<rparr>) V = vol_ready a V" "vol_ready (a\<lparr>ad_al := al\<rparr>) V = vol_ready a V"
  "vol_ready (a\<lparr>ad_cache := c\<rparr>) V = vol_ready a V" "vol_ready (a\<lparr>ad_modified := m\<rparr>) V = vol_ready a V"
  "open_at (a\<lparr>ad_bt := bt\<rparr>) fd file p = open_at a fd file p" "open_at (a\<lparr>ad_al := al\<rparr>) fd file p = open_at a fd file p"
  "open_at (a\<lparr>ad_cache := c\<rparr>) fd file p = open_at a fd file p" "open_at (a\<lparr>ad_modified := m\<rparr>) fd file p = open_at a fd file p"
  "table_ok (a\<lparr>ad_os := st\<rparr>) els = table_ok a els" "table_ok (a\<lparr>ad_al := al\<rparr>) els = table_ok a els"
  "hentry_of r (a\<lparr>ad_os := st\<rparr>) = hentry_of r a" "hentry_of r (a\<lparr>ad_al := al\<rparr>) = hentry_of r a"
  "place_chk (a\<lparr>ad_os := st\<rparr>) r = place_chk a r"
  "file_digest mh (a\<lparr>ad_os := st\<rparr>) j file = file_digest mh a j file"
  "chunks_of k (a\<lparr>ad_os := st\<rparr>) = chunks_of k a"
  "file_chunks (a\<lparr>ad_os := st\<rparr>) n = file_chunks a n" "file_chunks (a\<lparr>ad_al := al\<rparr>) n = file_chunks a n"
  "file_digest mh (a\<lparr>ad_al := al\<rparr>) j file = file_digest mh a j file"
  by (simp_all add: vol_ready_def open_at_def table_ok_def place_chk_def place_off_def hentry_of_def hentry_at_def
      cached_def file_digest_def file_chunks_def chunks_of_def Let_def)

text \<open>The table has room for a digest that it does not hold yet.\<close>

definition new_digest :: "adm \<Rightarrow> u8 list \<Rightarrow> bool" where
  "new_digest a h \<longleftrightarrow> length h = 64 \<and> shfs_btable_lookup (ad_bt a) h = Inl (Errno ENOENT) \<and>
     shfs_btable_addentry (ad_bt a) h \<noteq> Inl (Errno ENOBUFS)"

text \<open>An object of the volume: its entry in the table and its bytes in the container.\<close>

definition stored :: "adm \<Rightarrow> os \<Rightarrow> elref \<Rightarrow> chk_t \<Rightarrow> u8 list \<Rightarrow> bool" where
  "stored a st r c file \<longleftrightarrow>
     (\<exists>e. hentry_of r a = Inr e \<and> \<not> SHFS_HENTRY_ISLINK e \<and> fa_chunk (SHFS_HENTRY_FILEATTR e) = c \<and>
        fa_offset (SHFS_HENTRY_FILEATTR e) = 0 \<and> fa_len (SHFS_HENTRY_FILEATTR e) = of_nat (length file)) \<and>
     take (length file) (concat (map (chunk_view (ad_s a) st) [unat c..<unat c + file_chunks a (length file)])) = file"

lemma store_file_ok:
  assumes R: "vol_ready a V" and o: "open_at a fd file p" and t: "table_ok a els"
    and d: "file_digest mh a j file = Some h" and n: "new_digest a h"
    and c: "c \<noteq> 0" "unat c + file_chunks a (length file) \<le> V" and cz: "unat csize = file_chunks a (length file)"
  obtains r bt cache modified st' where
    "store_file mh now j fd (length file) csize c a =
       (Inr (Inr ()), a\<lparr>ad_os := st', ad_bt := bt, ad_cache := cache, ad_modified := modified\<rparr>)"
    "moved (ad_s a) fd st' (ad_os a)" "vol_ready (a\<lparr>ad_os := st'\<rparr>) V"
    "table_ok (a\<lparr>ad_bt := bt, ad_cache := cache, ad_modified := modified\<rparr>) (els @ [r])"
    "ht_hlen bt = ht_hlen (ad_bt a)" "ht_abs bt (els @ [r]) = (ht_abs (ad_bt a) els)(ht_key (ad_bt a) h \<mapsto> r)" "r \<notin> set els"
    "stored (a\<lparr>ad_bt := bt, ad_cache := cache, ad_modified := modified\<rparr>) st' r c file"
    "\<And>q. q \<in> set els \<Longrightarrow> hentry_of q (a\<lparr>ad_bt := bt, ad_cache := cache, ad_modified := modified\<rparr>) = hentry_of q a"
    "\<And>x. x < V \<Longrightarrow> x \<notin> {unat c..<unat c + file_chunks a (length file)} \<Longrightarrow>
       chunk_view (ad_s a) st' x = chunk_view (ad_s a) (ad_os a) x"
proof -
  let ?cs = "unat (ad_chunksize a)"
  have cs: "0 < ?cs" using R by (simp add: vol_ready_def unat_gt_0)
  obtain st1 where C: "on_os os_call a = (False, a\<lparr>ad_os := st1\<rparr>)" "same_data st1 (ad_os a)"
    "\<And>x. os_files st1 x = os_files (ad_os a) x" using os_call_ok [OF R] by metis
  have R1: "vol_ready (a\<lparr>ad_os := st1\<rparr>) V" by (rule vol_ready_data [OF R C(2)])
  have o1: "open_at (a\<lparr>ad_os := st1\<rparr>) fd file p" using o C(3) by (simp add: open_at_def)
  have m1: "moved (ad_s a) fd st1 (ad_os a)" using C(2,3) by (simp add: moved_def same_data_host)
  let ?tmp = "map (ad_junk a) [0..<?cs]"
  have d1: "file_digest mh (a\<lparr>ad_os := st1\<rparr>) j file = Some h" using d by simp
  have l1: "length ?tmp = unat (ad_chunksize (a\<lparr>ad_os := st1\<rparr>))" by simp
  obtain st2 tmp p2 where D: "(if ad_hfunc a \<noteq> SHFUNC_MANUAL
        then hash_file mh fd (length file) (file_chunks a (length file)) ?tmp (a\<lparr>ad_os := st1\<rparr>)
        else abind (manual_digest j (a\<lparr>ad_os := st1\<rparr>)) (\<lambda>h a. (Inr (Inr (h, ?tmp)), a))) = (Inr (Inr (h, tmp)), a\<lparr>ad_os := st2\<rparr>)"
    "length tmp = ?cs" "same_data st2 st1" "moved (ad_s a) fd st2 st1" "open_at (a\<lparr>ad_os := st2\<rparr>) fd file p2"
    by (rule digest_ok [OF R1 o1 d1 l1]) (rule that, simp_all split: if_split_asm)
  have s2: "same_data st2 (ad_os a)" by (rule same_data_trans [OF D(3) C(2)])
  have m2: "moved (ad_s a) fd st2 (ad_os a)" by (rule moved_trans [OF D(4) m1])
  have R2: "vol_ready (a\<lparr>ad_os := st2\<rparr>) V" by (rule vol_ready_data [OF R s2])
  have t2: "table_ok (a\<lparr>ad_os := st2\<rparr>) els" using t by simp
  have n2: "length h = 64" "shfs_btable_lookup (ad_bt (a\<lparr>ad_os := st2\<rparr>)) h = Inl (Errno ENOENT)"
    "shfs_btable_addentry (ad_bt (a\<lparr>ad_os := st2\<rparr>)) h \<noteq> Inl (Errno ENOBUFS)" using n by (simp_all add: new_digest_def)
  obtain r bt where N: "new_entry h (a\<lparr>ad_os := st2\<rparr>) = (Inr (Inr r), a\<lparr>ad_os := st2, ad_bt := bt\<rparr>)"
    "table_ok (a\<lparr>ad_os := st2, ad_bt := bt\<rparr>) (els @ [r])" "r \<notin> set els" "ht_hlen bt = ht_hlen (ad_bt a)"
    "ht_abs bt (els @ [r]) = (ht_abs (ad_bt a) els)(ht_key (ad_bt a) h \<mapsto> r)"
    "nb_bkts bt = nb_bkts (ad_bt a)" "el_per_bkt bt = el_per_bkt (ad_bt a)" "ht_private bt = ht_private (ad_bt a)"
    using new_entry_ok [OF t2 n2] by auto
  let ?a3 = "a\<lparr>ad_os := st2, ad_bt := bt\<rparr>"
  have r3: "in_table (ad_bt ?a3) r" using els_in_table [OF N(2)] by simp
  obtain e a4 where E: "fill_file_entry j now h c (of_nat (length file)) r ?a3 = (Inr (Inr ()), a4)" "hentry_of r a4 = Inr e"
    "\<not> SHFS_HENTRY_ISLINK e" "fa_chunk (SHFS_HENTRY_FILEATTR e) = c" "fa_offset (SHFS_HENTRY_FILEATTR e) = 0"
    "fa_len (SHFS_HENTRY_FILEATTR e) = of_nat (length file)" "table_ok a4 (els @ [r])"
    "\<And>q. in_table (ad_bt ?a3) q \<Longrightarrow> q \<noteq> r \<Longrightarrow> hentry_of q a4 = hentry_of q ?a3"
    "\<exists>cache modified. a4 = ?a3\<lparr>ad_cache := cache, ad_modified := modified\<rparr>"
    using fill_file_entry_ok [OF N(2) r3 n2(1)] by metis
  obtain cache modified where a4: "a4 = ?a3\<lparr>ad_cache := cache, ad_modified := modified\<rparr>" using E(9) by blast
  let ?b = "a\<lparr>ad_bt := bt, ad_cache := cache, ad_modified := modified\<rparr>"
  have R4: "vol_ready a4 V" and o4: "open_at a4 fd file p2" using R2 D(5) by (simp_all add: a4)
  obtain st5 where S: "seek_file fd a4 = (Inr (Inr ()), a4\<lparr>ad_os := st5\<rparr>)" "same_data st5 (ad_os a4)"
    "moved (ad_s a4) fd st5 (ad_os a4)" "vol_ready (a4\<lparr>ad_os := st5\<rparr>) V" "open_at (a4\<lparr>ad_os := st5\<rparr>) fd file 0"
    using seek_file_ok [OF R4 o4] by metis
  have s5: "same_data st5 (ad_os a)" using same_data_trans [OF S(2)] s2 by (simp add: a4)
  have m5: "moved (ad_s a) fd st5 (ad_os a)" using moved_trans [OF _ m2] S(3) by (simp add: a4)
  have lc: "length (copy_lens ?cs (length file)) = file_chunks a (length file)"
    by (simp add: length_copy_lens [OF cs] file_chunks_def)
  have "\<exists>st'. copy_parts fd (copy_lens ?cs (length file)) c tmp (a4\<lparr>ad_os := st5\<rparr>) = (Inr (Inr ()), a4\<lparr>ad_os := st'\<rparr>) \<and>
    moved (ad_s a) fd st' st5 \<and> vol_ready (a4\<lparr>ad_os := st'\<rparr>) V \<and>
    take (length file) (concat (map (chunk_view (ad_s a) st') [unat c..<unat c + file_chunks a (length file)])) = file \<and>
    (\<forall>x < V. x \<notin> {unat c..<unat c + file_chunks a (length file)} \<longrightarrow> chunk_view (ad_s a) st' x = chunk_view (ad_s a) st5 x)"
    using copy_parts_ok [OF S(4,5), of tmp c] D(2) c lc by (simp add: a4) blast
  then obtain st' where K: "copy_parts fd (copy_lens ?cs (length file)) c tmp (a4\<lparr>ad_os := st5\<rparr>) = (Inr (Inr ()), a4\<lparr>ad_os := st'\<rparr>)"
    "moved (ad_s a) fd st' st5" "vol_ready (a4\<lparr>ad_os := st'\<rparr>) V"
    "take (length file) (concat (map (chunk_view (ad_s a) st') [unat c..<unat c + file_chunks a (length file)])) = file"
    "\<And>x. x < V \<Longrightarrow> x \<notin> {unat c..<unat c + file_chunks a (length file)} \<Longrightarrow> chunk_view (ad_s a) st' x = chunk_view (ad_s a) st5 x"
    by blast
  show thesis
  proof (rule that [where st' = st' and bt = bt and cache = cache and modified = modified and r = r])
    show "store_file mh now j fd (length file) csize c a =
       (Inr (Inr ()), a\<lparr>ad_os := st', ad_bt := bt, ad_cache := cache, ad_modified := modified\<rparr>)"
      using D(1) N(1) E(1) S(1) K(1) by (simp add: store_file_def adm_malloc_def C(1) cz a4 split: if_splits)
    show "moved (ad_s a) fd st' (ad_os a)" by (rule moved_trans [OF K(2) m5])
    show "vol_ready (a\<lparr>ad_os := st'\<rparr>) V" using K(3) by (simp add: a4 vol_ready_def)
    have b: "a4 = ?b\<lparr>ad_os := st2\<rparr>" by (simp add: a4)
    show "table_ok ?b (els @ [r])" using E(7) unfolding b adm_frame .
    show "stored ?b st' r c file" using E(2-6) K(4) unfolding stored_def b adm_frame by (simp add: file_chunks_def)
    show "hentry_of q ?b = hentry_of q a" if "q \<in> set els" for q
    proof -
      have "in_table (ad_bt ?a3) q" using els_in_table [OF t that] N(6,7) by (simp add: in_table_def)
      moreover have "q \<noteq> r" using that N(3) by auto
      ultimately have "hentry_of q a4 = hentry_of q ?a3" by (rule E(8))
      moreover have "hentry_of q ?a3 = hentry_of q a" by (simp add: hentry_of_def hentry_at_def cached_def N(8) Let_def)
      ultimately show ?thesis unfolding b adm_frame by simp
    qed
    show "chunk_view (ad_s a) st' x = chunk_view (ad_s a) (ad_os a) x"
      if "x < V" "x \<notin> {unat c..<unat c + file_chunks a (length file)}" for x
      using K(5) [OF that] same_data_views [OF s5] by simp
  qed (use N in auto)
qed

text \<open>The allocator's areas and what the first-fit search then promises about a container.\<close>

definition alloc_ready :: "adm \<Rightarrow> addr list \<Rightarrow> bool" where
  "alloc_ready a es \<longleftrightarrow> al_ok (ad_al a) es \<and> al_allocator (ad_al a) = SALLOC_FIRSTFIT \<and> es \<noteq> [] \<and>
     ae_start (al_area (ad_al a) (hd es)) = 0 \<and> al_end (ad_al a) = ad_volsize a \<and>
     staircase (al_end (ad_al a)) (map (al_area (ad_al a)) es)"

definition areas_of :: "adm \<Rightarrow> addr list \<Rightarrow> shfs_aentry list" where
  "areas_of a es = map (al_area (ad_al a)) es"

lemma container_free:
  assumes al: "alloc_ready a es" and n: "0 < n" and c: "shfs_alist_find_free (ad_al a) n = Some c" "c \<noteq> 0"
  shows "gap (ad_volsize a) (areas_of a es) (unat c) (unat n)"
proof -
  obtain e es' where es: "es = e # es'" using al by (cases es) (auto simp: alloc_ready_def)
  have st: "staircase (ad_volsize a) (al_area (ad_al a) e # map (al_area (ad_al a)) es')"
    using al unfolding alloc_ready_def es by (metis list.map(2))
  then have "0 < ae_end (al_area (ad_al a) e)" using al by (simp add: staircase_Cons alloc_ready_def es)
  from find_ff_correct [OF st n this] c al al_ok_foreach show ?thesis
    by (auto simp: alloc_ready_def es areas_of_def shfs_alist_find_free_def)
qed

lemma register_returns:
  assumes "al_ok al es"
  shows "\<exists>al'. shfs_alist_register (Some new) al s n = Some (Inr al')"
  unfolding shfs_alist_register_def Let_def by (simp add: al_ok_foreach [OF assms] split: prod.split)

lemma adm_register_ok:
  assumes "vol_ready a V" and "al_ok (ad_al a) es"
  obtains st' al where "adm_register s n a = (Inr True, a\<lparr>ad_os := st', ad_al := al\<rparr>)" "same_data st' (ad_os a)"
    "\<And>fd. os_files st' fd = os_files (ad_os a) fd"
    "shfs_alist_register (Some (of_nat (Suc (os_calls (ad_os a))))) (ad_al a) s n = Some (Inr al)"
proof -
  obtain st1 where C: "on_os os_call a = (False, a\<lparr>ad_os := st1\<rparr>)" "same_data st1 (ad_os a)"
    "\<And>x. os_files st1 x = os_files (ad_os a) x" "os_calls st1 = Suc (os_calls (ad_os a))" using os_call_ok [OF assms(1)] by metis
  obtain al where r: "shfs_alist_register (Some (of_nat (Suc (os_calls (ad_os a))))) (ad_al a) s n = Some (Inr al)"
    using register_returns [OF assms(2)] by blast
  have "adm_register s n a = (Inr True, a\<lparr>ad_os := st1, ad_al := al\<rparr>)"
    using r by (simp add: adm_register_def C(1,4) del: of_nat_Suc)
  then show thesis using that C(2,3) r by blast
qed

text \<open>The file that is added: regular, closed, and beside the members.\<close>

definition plain_file :: "adm \<Rightarrow> string \<Rightarrow> nat \<Rightarrow> u8 list \<Rightarrow> bool" where
  "plain_file a path fd file \<longleftrightarrow> os_paths (ad_os a) path = Some fd \<and> of_kind (os_files (ad_os a) fd) = Regular_file \<and>
     of_bytes (os_files (ad_os a) fd) = file \<and> fd \<notin> member_fds (ad_s a) \<and> file \<noteq> [] \<and> length file < 2 ^ 63"

lemma open_file_ok:
  assumes "vol_ready a V" and "plain_file a path fd file"
  obtains st' where "open_file path a = (Inr (Inr (fd, length file)), a\<lparr>ad_os := st'\<rparr>)" "same_data st' (ad_os a)"
    "moved (ad_s a) fd st' (ad_os a)" "open_at (a\<lparr>ad_os := st'\<rparr>) fd file 0" "os_calls st' = os_calls (ad_os a) + 2"
proof -
  let ?st = "(os_upd fd (\<lambda>k. k\<lparr>of_pos := 0\<rparr>) ((ad_os a)\<lparr>os_calls := Suc (os_calls (ad_os a))\<rparr>))\<lparr>os_calls := Suc (Suc (os_calls (ad_os a)))\<rparr>"
  have "open_file path a = (Inr (Inr (fd, length file)), a\<lparr>ad_os := ?st\<rparr>)"
    using assms(2) vol_ready_no_fail [OF assms(1)]
    by (simp add: open_file_def on_os_def os_call_def plain_file_def os_upd_def)
  then show thesis
    by (rule that) (use assms(2) in \<open>auto simp: same_data_def same_host_def moved_def open_at_def os_upd_def plain_file_def\<close>)
qed

lemma chunks_of_unat:
  assumes "vol_ready a V" and "length file < 2 ^ 63"
  shows "unat (chunks_of (of_nat (length file)) a) = file_chunks a (length file)"
proof -
  have c: "(ucast (ad_chunksize a) :: u64) \<noteq> 0" "unat (ucast (ad_chunksize a) :: u64) = unat (ad_chunksize a)"
    using assms(1) unat_ucast_widths(1) [of "ad_chunksize a"] by (auto simp: vol_ready_def unat_eq_zero)
  have "unat (ad_chunksize a) < 2 ^ 32" by (rule order_less_le_trans [OF unsigned_less]) simp
  moreover have u: "unat (of_nat (length file) :: u64) = length file" using assms(2) by (intro unat_of_nat_less) simp
  ultimately have "unat (of_nat (length file) :: u64) + unat (ucast (ad_chunksize a) :: u64) \<le> 2 ^ LENGTH(64)"
    using assms(2) by (simp add: c(2))
  from unat_DIV_ROUND_UP [OF c(1) this] show ?thesis by (simp add: chunks_of_def file_chunks_def u c(2))
qed

text \<open>Adding a file, when there is a container.\<close>

lemma addfile_ok:
  assumes R: "vol_ready a (unat (ad_volsize a))" and f: "plain_file a (tn_path j) fd file" and t: "table_ok a els"
    and al: "alloc_ready a es" and d: "file_digest mh a j file = Some h" and n: "new_digest a h"
    and c: "shfs_alist_find_free (ad_al a) (chunks_of (of_nat (length file)) a) = Some c" "c \<noteq> 0"
  obtains r bt cache modified al' st' where
    "actn_addfile mh now j a =
       (Inr (Inr ()), a\<lparr>ad_os := st', ad_al := al', ad_bt := bt, ad_cache := cache, ad_modified := modified\<rparr>)"
    "moved (ad_s a) fd st' (ad_os a)" "vol_ready (a\<lparr>ad_os := st'\<rparr>) (unat (ad_volsize a))"
    "table_ok (a\<lparr>ad_bt := bt, ad_cache := cache, ad_modified := modified\<rparr>) (els @ [r])"
    "ht_hlen bt = ht_hlen (ad_bt a)" "ht_abs bt (els @ [r]) = (ht_abs (ad_bt a) els)(ht_key (ad_bt a) h \<mapsto> r)"
    "stored (a\<lparr>ad_bt := bt, ad_cache := cache, ad_modified := modified\<rparr>) st' r c file"
    "\<And>q. q \<in> set els \<Longrightarrow> hentry_of q (a\<lparr>ad_bt := bt, ad_cache := cache, ad_modified := modified\<rparr>) = hentry_of q a"
    "gap (ad_volsize a) (areas_of a es) (unat c) (file_chunks a (length file))"
    "\<And>x. x < unat (ad_volsize a) \<Longrightarrow> x \<notin> {unat c..<unat c + file_chunks a (length file)} \<Longrightarrow>
       chunk_view (ad_s a) st' x = chunk_view (ad_s a) (ad_os a) x"
proof -
  let ?n = "chunks_of (of_nat (length file)) a"
  have lf: "length file < 2 ^ 63" "file \<noteq> []" using f by (simp_all add: plain_file_def)
  note cu = chunks_of_unat [OF R lf(1)]
  have cs: "0 < unat (ad_chunksize a)" using R by (simp add: vol_ready_def unat_gt_0)
  have "file_chunks a (length file) \<noteq> 0" using lf(2) cs by (auto simp: file_chunks_def div_eq_0_iff neq_Nil_conv)
  then have n0: "0 < ?n" using cu by (metis unat_0 word_gt_0)
  have g: "gap (ad_volsize a) (areas_of a es) (unat c) (file_chunks a (length file))"
    using container_free [OF al n0 c] cu by simp
  then have cV: "unat c + file_chunks a (length file) \<le> unat (ad_volsize a)" by (simp add: gap_def)
  then have cv: "\<not> c \<ge> ad_volsize a" using \<open>file_chunks a (length file) \<noteq> 0\<close> by (simp add: word_le_nat_alt)
  obtain st1 where O: "open_file (tn_path j) a = (Inr (Inr (fd, length file)), a\<lparr>ad_os := st1\<rparr>)" "same_data st1 (ad_os a)"
    "moved (ad_s a) fd st1 (ad_os a)" "open_at (a\<lparr>ad_os := st1\<rparr>) fd file 0" using open_file_ok [OF R f] by metis
  note R1 = vol_ready_data [OF R O(2)]
  have al1: "al_ok (ad_al (a\<lparr>ad_os := st1\<rparr>)) es" using al by (simp add: alloc_ready_def)
  obtain st2 al' where G0: "adm_register c ?n (a\<lparr>ad_os := st1\<rparr>) = (Inr True, a\<lparr>ad_os := st1\<rparr>\<lparr>ad_os := st2, ad_al := al'\<rparr>)"
    "same_data st2 (ad_os (a\<lparr>ad_os := st1\<rparr>))" "\<And>x. os_files st2 x = os_files (ad_os (a\<lparr>ad_os := st1\<rparr>)) x"
    using adm_register_ok [OF R1 al1, of c ?n] by metis
  then have G: "adm_register c ?n (a\<lparr>ad_os := st1\<rparr>) = (Inr True, a\<lparr>ad_os := st2, ad_al := al'\<rparr>)"
    "same_data st2 st1" "\<And>x. os_files st2 x = os_files st1 x" by simp_all
  have s2: "same_data st2 (ad_os a)" by (rule same_data_trans [OF G(2) O(2)])
  let ?b = "a\<lparr>ad_os := st2, ad_al := al'\<rparr>"
  have R2: "vol_ready ?b (unat (ad_volsize a))" using vol_ready_data [OF R s2] by simp
  have o2: "open_at ?b fd file 0" using O(4) G(3) by (simp add: open_at_def)
  have m2: "moved (ad_s a) fd st2 (ad_os a)" using O(3) G(2,3) by (simp add: moved_def same_data_def same_host_def)
  have t2: "table_ok ?b els" and d2: "file_digest mh ?b j file = Some h" and n2: "new_digest ?b h"
    using t d n by (simp_all add: new_digest_def)
  have cV2: "unat c + file_chunks ?b (length file) \<le> unat (ad_volsize a)" using cV by simp
  have cu2: "unat ?n = file_chunks ?b (length file)" using cu by simp
  show thesis
  proof (rule store_file_ok [OF R2 o2 t2 d2 n2 c(2) cV2 cu2, of now])
    fix r bt cache modified st'
    assume S: "store_file mh now j fd (length file) ?n c ?b =
        (Inr (Inr ()), ?b\<lparr>ad_os := st', ad_bt := bt, ad_cache := cache, ad_modified := modified\<rparr>)"
      "moved (ad_s ?b) fd st' (ad_os ?b)" "vol_ready (?b\<lparr>ad_os := st'\<rparr>) (unat (ad_volsize a))"
      "table_ok (?b\<lparr>ad_bt := bt, ad_cache := cache, ad_modified := modified\<rparr>) (els @ [r])"
      "ht_hlen bt = ht_hlen (ad_bt ?b)" "ht_abs bt (els @ [r]) = (ht_abs (ad_bt ?b) els)(ht_key (ad_bt ?b) h \<mapsto> r)" "r \<notin> set els"
      "stored (?b\<lparr>ad_bt := bt, ad_cache := cache, ad_modified := modified\<rparr>) st' r c file"
      "\<And>q. q \<in> set els \<Longrightarrow> hentry_of q (?b\<lparr>ad_bt := bt, ad_cache := cache, ad_modified := modified\<rparr>) = hentry_of q ?b"
      "\<And>x. x < unat (ad_volsize a) \<Longrightarrow> x \<notin> {unat c..<unat c + file_chunks ?b (length file)} \<Longrightarrow>
         chunk_view (ad_s ?b) st' x = chunk_view (ad_s ?b) (ad_os ?b) x"
    let ?u = "a\<lparr>ad_bt := bt, ad_cache := cache, ad_modified := modified\<rparr>"
    have u: "?b\<lparr>ad_bt := bt, ad_cache := cache, ad_modified := modified\<rparr> = ?u\<lparr>ad_al := al'\<rparr>\<lparr>ad_os := st2\<rparr>" by simp
    show thesis
    proof (rule that [where st' = st' and al' = al' and bt = bt and cache = cache and modified = modified and r = r])
      show "actn_addfile mh now j a =
         (Inr (Inr ()), a\<lparr>ad_os := st', ad_al := al', ad_bt := bt, ad_cache := cache, ad_modified := modified\<rparr>)"
        using R c cv S(1) by (simp add: actn_addfile_def O(1) G(1) Let_def vol_ready_def)
      show "moved (ad_s a) fd st' (ad_os a)" using moved_trans [OF _ m2] S(2) by simp
      show "vol_ready (a\<lparr>ad_os := st'\<rparr>) (unat (ad_volsize a))" using S(3) by (simp add: vol_ready_def)
      show "table_ok ?u (els @ [r])" using S(4) unfolding u adm_frame .
      show "stored ?u st' r c file" using S(8) unfolding u stored_def adm_frame by (simp add: file_chunks_def)
      show "hentry_of q ?u = hentry_of q a" if "q \<in> set els" for q using S(9) [OF that] unfolding u adm_frame .
      show "chunk_view (ad_s a) st' x = chunk_view (ad_s a) (ad_os a) x"
        if "x < unat (ad_volsize a)" "x \<notin> {unat c..<unat c + file_chunks a (length file)}" for x
        using S(10) [OF that(1)] that(2) same_data_views [OF s2] by simp
    qed (use S g in simp_all)
  qed
qed

section \<open>Exporting a file\<close>

text \<open>The object of a table is found by its printed digest.\<close>

lemma find_object_ok:
  assumes t: "table_ok a els" and h: "length h = 64" and r: "ht_abs (ad_bt a) els (ht_key (ad_bt a) h) = Some r"
    and p: "tn_path t = hash_unparse h (ad_hlen a)"
  obtains g where "find_object t a = (Inr (Inr (g, r)), a)" "ht_key (ad_bt a) g = ht_key (ad_bt a) h" "length g = 64"
proof -
  have ok: "htable_ok (ad_bt a) els" and dk: "distinct (ht_keys (ad_bt a) els)" and hl: "ht_hlen (ad_bt a) = ad_hlen a"
    using t by (simp_all add: table_ok_def)
  have u: "unat (ad_hlen a) \<le> 64" using htable_okD(2) [OF ok] hl by simp
  let ?g = "take (unat (ad_hlen a)) h @ drop (unat (ad_hlen a)) (map (ad_junk a) [0..<64])"
  have g: "hash_parse (tn_path t) (map (ad_junk a) [0..<64]) (ad_hlen a) = Some ?g"
    using hash_parse_unparse [of h "map (ad_junk a) [0..<64]" "ad_hlen a" "[]"] h u by (simp add: p word_le_nat_alt)
  have l: "length ?g = 64" using h u by simp
  have k: "ht_key (ad_bt a) ?g = ht_key (ad_bt a) h" using h u hl by (simp add: ht_key_def)
  have nz: "\<not> zero_key (ht_key (ad_bt a) h)"
  proof -
    have "r \<in> set els" "ht_key (ad_bt a) (ht_slot (ad_bt a) r) = ht_key (ad_bt a) h"
      using r by (simp_all add: ht_abs_Some [OF dk])
    then show ?thesis using htable_okD(7) [OF ok, of r] by simp
  qed
  have "shfs_btable_lookup (ad_bt a) ?g = Inr r"
    using htable_lookup_eq [OF ok dk l] nz r by (simp add: k shfs_btable_lookup_def)
  then have "find_object t a = (Inr (Inr (?g, r)), a)" unfolding find_object_def g by simp
  then show thesis using that k l by blast
qed

lemma catfile_ok:
  assumes R: "vol_ready a V" and t: "table_ok a els" and so: "stdout_ok a" and h: "length h = 64"
    and r: "ht_abs (ad_bt a) els (ht_key (ad_bt a) h) = Some r" and p: "tn_path t = hash_unparse h (ad_hlen a)"
    and st: "stored a (ad_os a) r c file" and c: "c \<noteq> 0" "unat c + file_chunks a (length file) \<le> V" and lf: "length file < 2 ^ 63"
  obtains st' where "actn_catfile t a = (Inr (Inr ()), a\<lparr>ad_os := st'\<rparr>)"
    "of_bytes (os_files st' STDOUT_FILENO) = printed a @ file"
    "\<And>x. chunk_view (ad_s a) st' x = chunk_view (ad_s a) (ad_os a) x"
proof -
  let ?cs = "unat (ad_chunksize a)" and ?k = "file_chunks a (length file)"
  have cs: "0 < ?cs" using R by (simp add: vol_ready_def unat_gt_0)
  obtain st1 where C: "on_os os_call a = (False, a\<lparr>ad_os := st1\<rparr>)" "same_data st1 (ad_os a)"
    "\<And>x. os_files st1 x = os_files (ad_os a) x" using os_call_ok [OF R] by metis
  let ?a = "a\<lparr>ad_os := st1\<rparr>"
  have t1: "table_ok ?a els" and r1: "ht_abs (ad_bt ?a) els (ht_key (ad_bt ?a) h) = Some r"
    and p1: "tn_path t = hash_unparse h (ad_hlen ?a)" using t r p by simp_all
  obtain g where g: "find_object t ?a = (Inr (Inr (g, r)), ?a)" using find_object_ok [OF t1 h r1 p1] by metis
  obtain e where e: "hentry_of r a = Inr e" "\<not> SHFS_HENTRY_ISLINK e" "fa_chunk (SHFS_HENTRY_FILEATTR e) = c"
    "fa_offset (SHFS_HENTRY_FILEATTR e) = 0" "fa_len (SHFS_HENTRY_FILEATTR e) = of_nat (length file)"
    and v: "take (length file) (concat (map (chunk_view (ad_s a) (ad_os a)) [unat c..<unat c + ?k])) = file"
    using st by (auto simp: stored_def)
  have u: "unat (of_nat (length file) :: u64) = length file" using lf by (intro unat_of_nat_less) simp
  have le: "length file \<le> ?k * ?cs"
  proof -
    have "(length file + ?cs - 1) mod ?cs < ?cs" using cs by simp
    moreover have "length file + ?cs - 1 = ?k * ?cs + (length file + ?cs - 1) mod ?cs" by (simp add: file_chunks_def)
    ultimately show ?thesis using cs by linarith
  qed
  have vw: "chunk_view (ad_s a) st1 x = chunk_view (ad_s a) (ad_os a) x" for x by (rule same_data_views [OF C(2)])
  have so1: "stdout_ok ?a" using so C(3) by (simp add: stdout_ok_def)
  have "\<exists>st'. cat_loop (ucast (ad_chunksize ?a)) c 0 (of_nat (length file)) (map (ad_junk a) [0..<?cs]) ?a =
        (Inr (Inr ()), ?a\<lparr>ad_os := st'\<rparr>) \<and> vol_ready (?a\<lparr>ad_os := st'\<rparr>) V \<and>
      of_bytes (os_files st' STDOUT_FILENO) = printed ?a @ take (unat (of_nat (length file) :: u64))
        (concat (map (chunk_view (ad_s ?a) (ad_os ?a)) [unat c..<unat c + ?k])) \<and>
      (\<forall>d. chunk_view (ad_s ?a) st' d = chunk_view (ad_s ?a) (ad_os ?a) d)"
    by (rule cat_loop_ok [OF vol_ready_data [OF R C(2)] so1]) (use c le u in simp_all)
  then obtain st' where L: "cat_loop (ucast (ad_chunksize a)) c 0 (of_nat (length file)) (map (ad_junk a) [0..<?cs]) ?a =
      (Inr (Inr ()), a\<lparr>ad_os := st'\<rparr>)" "of_bytes (os_files st' STDOUT_FILENO) = printed a @ file"
    "\<And>x. chunk_view (ad_s a) st' x = chunk_view (ad_s a) (ad_os a) x"
    using v by (auto simp: vw u C(3) cong: map_cong)
  have "actn_catfile t a = (Inr (Inr ()), a\<lparr>ad_os := st'\<rparr>)"
    using L(1) e by (simp add: actn_catfile_def adm_malloc_def C(1) g Let_def)
  then show thesis using that L(2,3) by blast
qed

text \<open>
  C6: a file that is added can be exported again. On a mounted volume whose first-fit allocator has
  a place for the file and whose table has room for its digest, when no call fails or transfers less than
  it is asked to and the user does not abort, \<open>actn_addfile\<close> succeeds and \<open>actn_catfile\<close> with the printed digest then writes exactly
  the bytes of the file to standard output; the entries of all other objects and all chunks that
  the allocator had given away before are unchanged.
\<close>

theorem addfile_catfile:
  assumes R: "vol_ready a (unat (ad_volsize a))" and f: "plain_file a (tn_path j) fd file" and so: "stdout_ok a"
    and fd: "fd \<noteq> STDOUT_FILENO" and t: "table_ok a els" and al: "alloc_ready a es"
    and d: "file_digest mh a j file = Some h" and n: "new_digest a h"
    and c: "shfs_alist_find_free (ad_al a) (chunks_of (of_nat (length file)) a) = Some c" "c \<noteq> 0"
    and p: "tn_path tk = hash_unparse h (ad_hlen a)"
  shows "\<exists>a1 a2. actn_addfile mh now j a = (Inr (Inr ()), a1) \<and> actn_catfile tk a1 = (Inr (Inr ()), a2) \<and>
    printed a2 = printed a @ file \<and> (\<forall>q \<in> set els. hentry_of q a2 = hentry_of q a) \<and>
    (\<forall>x < unat (ad_volsize a). (\<exists>e \<in> set (areas_of a es). x \<in> area_set e) \<longrightarrow>
       chunk_view (ad_s a) (ad_os a2) x = chunk_view (ad_s a) (ad_os a) x)"
proof -
  obtain r bt cache modified al' st' where A: "actn_addfile mh now j a =
       (Inr (Inr ()), a\<lparr>ad_os := st', ad_al := al', ad_bt := bt, ad_cache := cache, ad_modified := modified\<rparr>)"
    "moved (ad_s a) fd st' (ad_os a)" "vol_ready (a\<lparr>ad_os := st'\<rparr>) (unat (ad_volsize a))"
    "table_ok (a\<lparr>ad_bt := bt, ad_cache := cache, ad_modified := modified\<rparr>) (els @ [r])"
    "ht_hlen bt = ht_hlen (ad_bt a)" "ht_abs bt (els @ [r]) = (ht_abs (ad_bt a) els)(ht_key (ad_bt a) h \<mapsto> r)"
    "stored (a\<lparr>ad_bt := bt, ad_cache := cache, ad_modified := modified\<rparr>) st' r c file"
    "\<And>q. q \<in> set els \<Longrightarrow> hentry_of q (a\<lparr>ad_bt := bt, ad_cache := cache, ad_modified := modified\<rparr>) = hentry_of q a"
    "gap (ad_volsize a) (areas_of a es) (unat c) (file_chunks a (length file))"
    "\<And>x. x < unat (ad_volsize a) \<Longrightarrow> x \<notin> {unat c..<unat c + file_chunks a (length file)} \<Longrightarrow>
       chunk_view (ad_s a) st' x = chunk_view (ad_s a) (ad_os a) x"
    using addfile_ok [OF R f t al d n c] by metis
  let ?u = "a\<lparr>ad_bt := bt, ad_cache := cache, ad_modified := modified\<rparr>"
  let ?a1 = "a\<lparr>ad_os := st', ad_al := al', ad_bt := bt, ad_cache := cache, ad_modified := modified\<rparr>"
  have u: "?a1 = ?u\<lparr>ad_al := al'\<rparr>\<lparr>ad_os := st'\<rparr>" by simp
  have sf: "os_files st' STDOUT_FILENO = os_files (ad_os a) STDOUT_FILENO"
    using A(2) so fd by (simp add: moved_def stdout_ok_def)
  have R1: "vol_ready ?a1 (unat (ad_volsize a))" using A(3) by (simp add: vol_ready_def)
  have t1: "table_ok ?a1 (els @ [r])" using A(4) unfolding u adm_frame .
  have so1: "stdout_ok ?a1" using so sf by (simp add: stdout_ok_def)
  have h: "length h = 64" using n by (simp add: new_digest_def)
  have k1: "ht_abs (ad_bt ?a1) (els @ [r]) (ht_key (ad_bt ?a1) h) = Some r" using A(5,6) by (simp add: ht_key_def)
  have p1: "tn_path tk = hash_unparse h (ad_hlen ?a1)" using p by simp
  have s1: "stored ?a1 (ad_os ?a1) r c file"
    using A(7) unfolding u stored_def adm_frame by (simp add: file_chunks_def)
  have cV: "unat c + file_chunks ?a1 (length file) \<le> unat (ad_volsize a)" using A(9) by (simp add: gap_def file_chunks_def)
  have lf: "length file < 2 ^ 63" using f by (simp add: plain_file_def)
  obtain st2 where L: "actn_catfile tk ?a1 = (Inr (Inr ()), ?a1\<lparr>ad_os := st2\<rparr>)"
    "of_bytes (os_files st2 STDOUT_FILENO) = printed ?a1 @ file"
    "\<And>x. chunk_view (ad_s ?a1) st2 x = chunk_view (ad_s ?a1) (ad_os ?a1) x"
    using catfile_ok [OF R1 t1 so1 h k1 p1 s1 c(2) cV lf] by metis
  have he: "hentry_of q (?a1\<lparr>ad_os := st2\<rparr>) = hentry_of q a" if "q \<in> set els" for q
    using A(8) [OF that] unfolding u adm_frame .
  have vw: "chunk_view (ad_s a) st2 x = chunk_view (ad_s a) (ad_os a) x"
    if "x < unat (ad_volsize a)" "\<exists>e \<in> set (areas_of a es). x \<in> area_set e" for x
  proof -
    have "x \<notin> {unat c..<unat c + file_chunks a (length file)}" using that(2) A(9) by (auto simp: gap_def)
    then show ?thesis using L(3) A(10) [OF that(1)] by simp
  qed
  have pr: "printed (?a1\<lparr>ad_os := st2\<rparr>) = printed a @ file" using L(2) sf by simp
  show ?thesis
    by (intro exI conjI allI impI ballI, rule A(1), rule L(1), rule pr, erule he) (simp add: vw)
qed

text \<open>A volume of eight chunks with an empty table in chunk 2, and a file of 600 bytes.\<close>

definition small_storage :: storage where
  "small_storage = \<lparr>sg_member = [\<lparr>tm_d = \<lparr>d_fd = 3, d_size = 4096, d_blksize = 512, d_discard = False\<rparr>, tm_uuid = []\<rparr>],
     sg_nb_members = 1, sg_stripesize = 512, sg_stripemode = SHFS_SM_COMBINED\<rparr>"

definition small_file :: "nat \<Rightarrow> u8 \<Rightarrow> ofile" where
  "small_file n b = \<lparr>of_kind = Regular_file, of_bytes = replicate n b, of_pos = 0, of_blksize = 512\<rparr>"

definition small_os :: os where
  "small_os = \<lparr>os_files = (\<lambda>fd. if fd = 3 then small_file 4096 0 else if fd = 5 then small_file 600 7 else small_file 0 0),
     os_paths = (\<lambda>_. Some 5), os_calls = 0, os_fails = (\<lambda>_. False), os_short = (\<lambda>_. None), os_cancel = (\<lambda>_. False)\<rparr>"

definition small_bt :: btable where
  "small_bt = \<lparr>nb_bkts = 1, el_per_bkt = 2, ht_hlen = 4, ht_list = \<lparr>dl_first = None, dl_last = None\<rparr>,
     ht_links = (\<lambda>_. \<lparr>dl_next = None, dl_prev = None\<rparr>), ht_bkts = [[replicate 64 0, replicate 64 0]],
     ht_private = (\<lambda>r. \<lparr>hentry_htchunk = 0, hentry_htoffset = of_nat (snd r) * 256, be_hentry = None, refcount = 0,
        updatelock = 0, be_update = False, be_cookie = None\<rparr>)\<rparr>"

definition small_adm :: adm where
  "small_adm = \<lparr>ad_os = small_os, ad_junk = (\<lambda>_. 0), ad_chunksize = 512, ad_volsize = 8, ad_s = small_storage,
     ad_bt = small_bt, ad_cache = [Some (replicate 512 0)], ad_modified = [False], ad_htable_ref = 2, ad_htable_bak_ref = 0,
     ad_htable_len = 1, ad_nb_buckets = 1, ad_nb_entries_per_bucket = 2, ad_nb_entries = 2, ad_nb_entries_per_chunk = 2,
     ad_hfunc = SHFUNC_CRC, ad_hlen = 4, ad_def_bentry = None, ad_allocator = SALLOC_FIRSTFIT,
     ad_al = \<lparr>al_end = 8, al_count = 1, al_allocator = SALLOC_FIRSTFIT, al_head = \<lparr>dl_first = Some 1, dl_last = Some 1\<rparr>,
       al_links = (\<lambda>_. \<lparr>dl_next = None, dl_prev = None\<rparr>), al_area = (\<lambda>_. \<lparr>ae_start = 0, ae_end = 3\<rparr>)\<rparr>\<rparr>"

lemma small_ready: "vol_ready small_adm (unat (ad_volsize small_adm))"
proof -
  have "chunk_strps small_storage c = [of_nat c]" for c
    by (simp add: chunk_strps_def small_storage_def upt_rec)
  moreover have "stripe_fits small_storage small_os (of_nat c)" if "c < 8" for c
  proof -
    have "unat (of_nat c :: u64) = c" using that by (intro unat_of_nat_less) simp
    then have "stripe_row small_storage (of_nat c) = c" by (simp add: stripe_row_def small_storage_def)
    moreover have "stripe_fd small_storage (of_nat c) = 3" by (simp add: stripe_fd_def stripe_member_def small_storage_def)
    moreover have "(c + 1) * 512 \<le> 4096" using that by simp
    ultimately show ?thesis by (simp add: stripe_fits_def small_os_def small_file_def) (simp add: small_storage_def)
  qed
  moreover have "storage_ok small_storage" by (simp add: storage_ok_def small_storage_def)
  moreover have "no_failures small_os" by (simp add: no_failures_def small_os_def)
  moreover have "chunk_bytes small_storage = 512" by (simp add: chunk_bytes_def chunk_nb_strps_def small_storage_def)
  moreover have "sg_nb_members small_storage = 1" by (simp add: small_storage_def)
  ultimately show ?thesis
    by (simp add: vol_ready_def vol_fits_def small_adm_def) (simp add: small_os_def)
qed

lemma small_table: "table_ok small_adm []"
proof -
  have z: "zero_key (ht_key small_bt (ht_slot small_bt r))" if "in_table small_bt r" for r
  proof -
    have "r \<in> {(0, 0), (0, 1)}" using that by (cases r) (auto simp: in_table_def small_bt_def)
    then show ?thesis by (auto simp: zero_key_def ht_key_def ht_slot_def small_bt_def list_all_iff)
  qed
  have l: "length (ht_bkts small_bt ! b) = 2 \<and> (\<forall>i < 2. length (ht_bkts small_bt ! b ! i) = 64)" if "b < 1" for b
    using that by (simp add: small_bt_def less_2_cases_iff all_conj_distrib)
  have sz: "unat (nb_bkts small_bt) = 1" "unat (el_per_bkt small_bt) = 2" by (simp_all add: small_bt_def)
  have z': "0 < b" if "i < 2" "\<not> zero_key (ht_key small_bt (ht_slot small_bt (b, i)))" for b i
    using z [of "(0, i)"] that by (cases b) (simp_all add: in_table_def sz)
  have sh: "nb_bkts small_bt \<noteq> 0 \<and> ht_hlen small_bt \<le> 64 \<and> length (ht_bkts small_bt) = 1 \<and>
      dl_repr (ht_links small_bt) (ht_list small_bt) []" by (simp add: small_bt_def dl_repr_def)
  have o: "htable_ok small_bt []"
    unfolding htable_ok_def using z' l sh by (auto simp: sz)
  have m: "r = (0, 0) \<or> r = (0, 1)" if "in_table small_bt r" for r
    using that by (cases r) (auto simp: in_table_def small_bt_def)
  show ?thesis
    unfolding table_ok_def place_chk_def place_off_def using o m
    by (auto simp: small_adm_def ht_keys_def dest!: m) (auto simp: small_bt_def)
qed

lemma small_alloc: "alloc_ready small_adm [1]"
  by (simp add: alloc_ready_def small_adm_def al_ok_def dl_repr_def al_starts_def staircase_def)

lemma small_stdout: "stdout_ok small_adm"
  by (simp add: stdout_ok_def small_adm_def small_os_def small_file_def member_fds_def small_storage_def)

lemma small_digest: "file_digest (\<lambda>_ _. replicate 64 1) small_adm j file = Some (replicate 64 1)"
  by (simp add: file_digest_def small_adm_def shfs_mhash_type_def)

lemma small_new: "new_digest small_adm (replicate 64 1)"
proof -
  have ok: "htable_ok small_bt []" "distinct (ht_keys small_bt [])" using small_table by (simp_all add: table_ok_def small_adm_def)
  have nz: "\<not> zero_key (ht_key small_bt (replicate 64 1))"
    by (simp add: zero_key_def ht_key_def small_bt_def list_all_iff)
  have "htable_lookup small_bt (replicate 64 1) = Inl (Errno ENOENT)"
    using htable_lookup_eq [OF ok, of "replicate 64 1"] nz by (simp add: ht_abs_def)
  moreover have "htable_add small_bt (replicate 64 1) \<noteq> Inl (Errno ENOBUFS)"
  proof -
    obtain b where b: "htable_home small_bt (replicate 64 1) = Inr (b, ht_bkts small_bt ! b)" "b < unat (nb_bkts small_bt)"
      using htable_home_eq [OF ok(1), of "replicate 64 1"] nz by auto
    then have "ht_bkts small_bt ! b = [replicate 64 0, replicate 64 0]" by (simp add: small_bt_def)
    moreover have "zero_key (ht_key small_bt (replicate 64 0))" by (simp add: zero_key_def ht_key_def list_all_iff)
    ultimately have "bkt_search (\<lambda>x. hash_is_zero x (ht_hlen small_bt)) (ht_bkts small_bt ! b) 0 = Inr (Some 0)"
      using bkt_search_match(2) [OF ok(1) _ b(2), of "replicate 64 1"] by simp
    then show ?thesis by (simp add: htable_add_def b(1) htable_store_def split: sum.split)
  qed
  ultimately show ?thesis
    by (simp add: new_digest_def small_adm_def shfs_btable_lookup_def shfs_btable_addentry_def)
qed

theorem addfile_catfile_witness:
  "\<exists>a1 a2. actn_addfile (\<lambda>_ _. replicate 64 1) 0 (new_token ADDOBJ ''f'') small_adm = (Inr (Inr ()), a1) \<and>
     actn_catfile (new_token CATOBJ (hash_unparse (replicate 64 1) 4)) a1 = (Inr (Inr ()), a2) \<and>
     printed a2 = replicate 600 7"
proof -
  have f: "plain_file small_adm (tn_path (new_token ADDOBJ ''f'')) 5 (replicate 600 7)"
    by (simp add: plain_file_def small_adm_def small_os_def small_file_def member_fds_def small_storage_def)
  have c: "shfs_alist_find_free (ad_al small_adm) (chunks_of (of_nat (length (replicate 600 (7 :: u8)))) small_adm) = Some 3"
    using al_ok_foreach [of "ad_al small_adm" "[1]"] small_alloc
    by (simp add: shfs_alist_find_free_def alloc_ready_def) (simp add: small_adm_def chunks_of_def DIV_ROUND_UP_def)
  have p: "tn_path (new_token CATOBJ (hash_unparse (replicate 64 1) 4)) = hash_unparse (replicate 64 1) (ad_hlen small_adm)"
    by (simp add: new_token_def small_adm_def)
  have "printed small_adm = []" by (simp add: small_adm_def small_os_def small_file_def)
  then show ?thesis
    using addfile_catfile [OF small_ready f small_stdout _ small_table small_alloc small_digest small_new c _ p, of 0]
    by simp blast
qed

end
