(* ===== verification/AdminVolume.thy ===== *)
theory AdminVolume
  imports Prelude HashVal Htable Btable Alist ShfsDefs Tools ToolsProps Mkfs MkfsProps Admin AdminActs AdminIO AdminProps
begin

text \<open>
  More properties of the administration tool: the digest of a file, the write-back of the hash table
  when the volume is unmounted, the default object, and what a failed action leaves behind.
\<close>

section \<open>The digest of a file\<close>

text \<open>
  C32: the digest of a file whose size is a multiple of the chunk size leaves out its last chunk: the
  last part that is hashed has the remainder as its length, which is 0. Two files that differ only
  in that chunk get the same digest, so the second one cannot be added.
\<close>

theorem digest_ignores_full_last_chunk:
  assumes R: "vol_ready a V" and o: "open_at a fd file p" "open_at a fd' file' p'"
    and ty: "shfs_mhash_type (ad_hfunc a) (ad_hlen a) = Some ty" and tmp: "length tmp = unat (ad_chunksize a)"
    and l: "length file' = length file" "unat (ad_chunksize a) dvd length file"
    and same: "take (length file - unat (ad_chunksize a)) file' = take (length file - unat (ad_chunksize a)) file"
  shows "\<exists>h t1 a1 t2 a2. h = mh ty (take (length file - unat (ad_chunksize a)) file) \<and>
    hash_file mh fd (length file) (file_chunks a (length file)) tmp a = (Inr (Inr (h, t1)), a1) \<and>
    hash_file mh fd' (length file') (file_chunks a (length file')) tmp a = (Inr (Inr (h, t2)), a2)"
proof -
  define h where "h = mh ty (take (length file - unat (ad_chunksize a)) file)"
  have n: "hashed_len (unat (ad_chunksize a)) (length file) = length file - unat (ad_chunksize a)"
    using l(2) by (simp add: hashed_len_def dvd_eq_mod_eq_0)
  obtain s1 t1 where 1: "hash_file mh fd (length file) (file_chunks a (length file)) tmp a = (Inr (Inr (h, t1)), a\<lparr>ad_os := s1\<rparr>)"
    using hash_file_ok [OF R o(1) ty tmp, of mh] n by (metis h_def)
  obtain s2 t2 where 2: "hash_file mh fd' (length file') (file_chunks a (length file')) tmp a = (Inr (Inr (h, t2)), a\<lparr>ad_os := s2\<rparr>)"
    using hash_file_ok [OF R o(2) ty tmp, of mh] n same l(1) by (metis h_def)
  show ?thesis by (intro exI conjI, rule h_def, rule 1, rule 2)
qed

definition twin_adm :: adm where
  "twin_adm = small_adm\<lparr>ad_os := small_os\<lparr>os_files := (os_files small_os)
     (5 := small_file 512 7, 6 := small_file 512 8)\<rparr>\<rparr>"

theorem digest_ignores_full_last_chunk_witness:
  "\<exists>t1 a1 t2 a2. hash_file (\<lambda>ty bs. bs) 5 512 1 (replicate 512 0) twin_adm = (Inr (Inr ([], t1)), a1) \<and>
    hash_file (\<lambda>ty bs. bs) 6 512 1 (replicate 512 0) twin_adm = (Inr (Inr ([], t2)), a2)"
proof -
  let ?a = twin_adm
  let ?st = "small_os\<lparr>os_files := (os_files small_os)(5 := small_file 512 7, 6 := small_file 512 8)\<rparr>"
  have s: "ad_s small_adm = small_storage" "ad_os small_adm = small_os" "member_fds small_storage = {3}"
    by (simp_all add: small_adm_def member_fds_def small_storage_def)
  have "vol_fits small_storage ?st 8"
    using members_fits [of small_storage ?st small_os 8] small_ready s by (simp add: vol_ready_def) (simp add: small_adm_def)
  then have R: "vol_ready ?a 8"
    using small_ready s by (simp add: twin_adm_def vol_ready_def small_os_def)
  have o: "open_at ?a 5 (replicate 512 7) 0" "open_at ?a 6 (replicate 512 8) 0"
    by (simp_all add: twin_adm_def open_at_def s small_file_def)
  have ty: "shfs_mhash_type (ad_hfunc ?a) (ad_hlen ?a) = Some MHASH_CRC32" and c: "ad_chunksize ?a = 512"
    by (simp_all add: twin_adm_def small_adm_def shfs_mhash_type_def)
  show ?thesis
    using digest_ignores_full_last_chunk [OF R o ty, of "replicate 512 0" "\<lambda>ty bs. bs"] by (simp add: c file_chunks_def)
qed

section \<open>The write-back\<close>

text \<open>The chunks of the volume that chunk \<open>i\<close> of the table is written to.\<close>

definition table_chunk :: "adm \<Rightarrow> nat \<Rightarrow> nat \<Rightarrow> bool" where
  "table_chunk a i x \<longleftrightarrow> x = unat (ad_htable_ref a) + i \<or> (ad_htable_bak_ref a \<noteq> 0 \<and> x = unat (ad_htable_bak_ref a) + i)"

lemma table_chunk_os [simp]: "table_chunk (a\<lparr>ad_os := st\<rparr>) i x = table_chunk a i x"
  by (simp add: table_chunk_def)

lemma volume_bound:
  assumes "vol_ready a V"
  shows "V < 2 ^ 64"
proof -
  have n0: "0 < unat (sg_nb_members (ad_s a))"
    using storage_ok_ready [OF assms] by (simp add: storage_ok_def unat_gt_0)
  have "V + 1 \<le> (V + 1) * unat (sg_nb_members (ad_s a))" by (rule le_mult_pos [OF n0])
  then show ?thesis using assms by (simp add: vol_ready_def vol_fits_def)
qed

lemma write_back_ok:
  assumes R: "vol_ready a V" and b: "buf = Some bs" "length bs = unat (ad_chunksize a)" and r: "ref \<noteq> 0" "unat ref + i < V"
  obtains st' where "write_back (ref + of_nat i) buf a = (Inr (), a\<lparr>ad_os := st'\<rparr>)" "vol_only (ad_s a) st' (ad_os a)"
    "vol_ready (a\<lparr>ad_os := st'\<rparr>) V" "chunk_view (ad_s a) st' (unat ref + i) = bs"
    "\<And>x. x < V \<Longrightarrow> x \<noteq> unat ref + i \<Longrightarrow> chunk_view (ad_s a) st' x = chunk_view (ad_s a) (ad_os a) x"
proof -
  have "i < 2 ^ 64" using r(2) volume_bound [OF R] by linarith
  then have "unat (of_nat i :: u64) = i" by (intro unat_of_nat_less) simp
  then have u: "unat (ref + of_nat i) = unat ref + i"
    using r(2) volume_bound [OF R] by (subst unat_add_less) simp_all
  have "ref + of_nat i \<noteq> 0"
  proof
    assume "ref + of_nat i = 0"
    then have "unat ref + i = 0" using u by simp
    then show False using r(1) by (simp add: unat_eq_zero)
  qed
  then obtain st' where W: "adm_write_chunk (ref + of_nat i) bs a = (Inr True, a\<lparr>ad_os := st'\<rparr>)" "vol_only (ad_s a) st' (ad_os a)"
    "vol_ready (a\<lparr>ad_os := st'\<rparr>) V" "chunk_view (ad_s a) st' (unat (ref + of_nat i)) = bs"
    "\<And>x. x < V \<Longrightarrow> x \<noteq> unat (ref + of_nat i) \<Longrightarrow> chunk_view (ad_s a) st' x = chunk_view (ad_s a) (ad_os a) x"
    using adm_write_chunk_ok [OF R _ _ b(2), of "ref + of_nat i"] r(2) u by metis
  have "write_back (ref + of_nat i) buf a = (Inr (), a\<lparr>ad_os := st'\<rparr>)" using W(1) b(1) by (simp add: write_back_def)
  then show thesis using that W(2,3) W(4,5) [unfolded u] by blast
qed

lemma write_back_step:
  assumes R: "vol_ready a V" and m: "ad_modified a ! i" and b: "ad_cache a ! i = Some bs" "length bs = unat (ad_chunksize a)"
    and r: "ad_htable_ref a \<noteq> 0" "\<And>x. table_chunk a i x \<Longrightarrow> x < V"
  obtains st' where "write_back_chunks (i # is) a = write_back_chunks is (a\<lparr>ad_os := st'\<rparr>)" "vol_only (ad_s a) st' (ad_os a)"
    "vol_ready (a\<lparr>ad_os := st'\<rparr>) V" "\<And>x. table_chunk a i x \<Longrightarrow> chunk_view (ad_s a) st' x = bs"
    "\<And>x. x < V \<Longrightarrow> \<not> table_chunk a i x \<Longrightarrow> chunk_view (ad_s a) st' x = chunk_view (ad_s a) (ad_os a) x"
proof -
  have v: "unat (ad_htable_ref a) + i < V" using r(2) by (simp add: table_chunk_def)
  obtain st1 where S: "write_back (ad_htable_ref a + of_nat i) (ad_cache a ! i) a = (Inr (), a\<lparr>ad_os := st1\<rparr>)"
    "vol_only (ad_s a) st1 (ad_os a)" "vol_ready (a\<lparr>ad_os := st1\<rparr>) V" "chunk_view (ad_s a) st1 (unat (ad_htable_ref a) + i) = bs"
    "\<And>x. x < V \<Longrightarrow> x \<noteq> unat (ad_htable_ref a) + i \<Longrightarrow> chunk_view (ad_s a) st1 x = chunk_view (ad_s a) (ad_os a) x"
    using write_back_ok [OF R b r(1) v] by metis
  show thesis
  proof (cases "ad_htable_bak_ref a = 0")
    case True
    then show ?thesis using that [OF _ S(2,3)] S(1,4,5) m by (auto simp: table_chunk_def)
  next
    case False
    let ?a = "a\<lparr>ad_os := st1\<rparr>"
    have bv: "unat (ad_htable_bak_ref a) + i < V" using r(2) False by (simp add: table_chunk_def)
    have b1: "length bs = unat (ad_chunksize ?a)" using b(2) by simp
    obtain st2 where T: "write_back (ad_htable_bak_ref a + of_nat i) (ad_cache a ! i) ?a = (Inr (), ?a\<lparr>ad_os := st2\<rparr>)"
      "vol_only (ad_s ?a) st2 (ad_os ?a)" "vol_ready (?a\<lparr>ad_os := st2\<rparr>) V" "chunk_view (ad_s ?a) st2 (unat (ad_htable_bak_ref a) + i) = bs"
      "\<And>x. x < V \<Longrightarrow> x \<noteq> unat (ad_htable_bak_ref a) + i \<Longrightarrow> chunk_view (ad_s ?a) st2 x = chunk_view (ad_s ?a) (ad_os ?a) x"
      using write_back_ok [OF S(3) b(1) b1 False bv] by metis
    show ?thesis
    proof (rule that [of st2])
      show "write_back_chunks (i # is) a = write_back_chunks is (a\<lparr>ad_os := st2\<rparr>)" using S(1) T(1) m False by simp
      show "vol_only (ad_s a) st2 (ad_os a)" using vol_only_trans [OF _ S(2)] T(2) by simp
      show "vol_ready (a\<lparr>ad_os := st2\<rparr>) V" using T(3) by simp
      show "chunk_view (ad_s a) st2 x = bs" if "table_chunk a i x" for x
        using that T(4) T(5) [of x] S(4) v by (cases "x = unat (ad_htable_bak_ref a) + i") (auto simp: table_chunk_def)
      show "chunk_view (ad_s a) st2 x = chunk_view (ad_s a) (ad_os a) x" if "x < V" "\<not> table_chunk a i x" for x
        using that T(5) [of x] S(5) [of x] False by (simp add: table_chunk_def)
    qed
  qed
qed

text \<open>The modified chunks are cached, and no two chunks of the table share a place on the volume.\<close>

definition table_placed :: "adm \<Rightarrow> nat \<Rightarrow> nat set \<Rightarrow> bool" where
  "table_placed a V I \<longleftrightarrow> ad_htable_ref a \<noteq> 0 \<and>
     (\<forall>i \<in> I. ad_modified a ! i \<longrightarrow> (\<exists>bs. ad_cache a ! i = Some bs \<and> length bs = unat (ad_chunksize a))) \<and>
     (\<forall>i \<in> I. \<forall>x. table_chunk a i x \<longrightarrow> x < V) \<and>
     (\<forall>i \<in> I. \<forall>k \<in> I. \<forall>x. i \<noteq> k \<longrightarrow> table_chunk a i x \<longrightarrow> \<not> table_chunk a k x)"

lemma table_placed_os [simp]: "table_placed (a\<lparr>ad_os := st\<rparr>) V I = table_placed a V I"
  by (simp add: table_placed_def)

lemma table_placed_mono: "table_placed a V (insert i I) \<Longrightarrow> table_placed a V I"
  unfolding table_placed_def by blast

lemma write_back_chunks_ok:
  assumes "vol_ready a V" and "table_placed a V (set is)" and "distinct is"
  shows "\<exists>st'. write_back_chunks is a = (Inr (), a\<lparr>ad_os := st'\<rparr>) \<and> vol_only (ad_s a) st' (ad_os a) \<and>
    (\<forall>i \<in> set is. ad_modified a ! i \<longrightarrow> (\<forall>x. table_chunk a i x \<longrightarrow> Some (chunk_view (ad_s a) st' x) = ad_cache a ! i)) \<and>
    (\<forall>x < V. (\<forall>i \<in> set is. ad_modified a ! i \<longrightarrow> \<not> table_chunk a i x) \<longrightarrow>
       chunk_view (ad_s a) st' x = chunk_view (ad_s a) (ad_os a) x)"
  using assms
proof (induction "is" arbitrary: a)
  case Nil
  then show ?case by (intro exI [of _ "ad_os a"]) simp
next
  case (Cons i "is")
  have P: "table_placed a V (insert i (set is))" using Cons.prems(2) by simp
  show ?case
  proof (cases "ad_modified a ! i")
    case False
    then have eq: "write_back_chunks (i # is) a = write_back_chunks is a" by simp
    show ?thesis
      unfolding eq using Cons.IH [OF Cons.prems(1) table_placed_mono [OF P]] Cons.prems(3) False by simp
  next
    case True
    obtain bs where b: "ad_cache a ! i = Some bs" "length bs = unat (ad_chunksize a)"
      using P True by (auto simp: table_placed_def)
    have r: "ad_htable_ref a \<noteq> 0" and xV: "\<And>x. table_chunk a i x \<Longrightarrow> x < V" using P by (auto simp: table_placed_def)
    obtain st1 where S: "write_back_chunks (i # is) a = write_back_chunks is (a\<lparr>ad_os := st1\<rparr>)" "vol_only (ad_s a) st1 (ad_os a)"
      "vol_ready (a\<lparr>ad_os := st1\<rparr>) V" "\<And>x. table_chunk a i x \<Longrightarrow> chunk_view (ad_s a) st1 x = bs"
      "\<And>x. x < V \<Longrightarrow> \<not> table_chunk a i x \<Longrightarrow> chunk_view (ad_s a) st1 x = chunk_view (ad_s a) (ad_os a) x"
      using write_back_step [OF Cons.prems(1) True b r xV, of "is"] by metis
    have "\<exists>st'. write_back_chunks is (a\<lparr>ad_os := st1\<rparr>) = (Inr (), a\<lparr>ad_os := st'\<rparr>) \<and> vol_only (ad_s a) st' st1 \<and>
        (\<forall>k \<in> set is. ad_modified a ! k \<longrightarrow> (\<forall>x. table_chunk a k x \<longrightarrow> Some (chunk_view (ad_s a) st' x) = ad_cache a ! k)) \<and>
        (\<forall>x < V. (\<forall>k \<in> set is. ad_modified a ! k \<longrightarrow> \<not> table_chunk a k x) \<longrightarrow>
           chunk_view (ad_s a) st' x = chunk_view (ad_s a) st1 x)"
      using Cons.IH [OF S(3)] table_placed_mono [OF P] Cons.prems(3) by simp
    then obtain st' where "write_back_chunks is (a\<lparr>ad_os := st1\<rparr>) = (Inr (), a\<lparr>ad_os := st'\<rparr>) \<and> vol_only (ad_s a) st' st1 \<and>
        (\<forall>k \<in> set is. ad_modified a ! k \<longrightarrow> (\<forall>x. table_chunk a k x \<longrightarrow> Some (chunk_view (ad_s a) st' x) = ad_cache a ! k)) \<and>
        (\<forall>x < V. (\<forall>k \<in> set is. ad_modified a ! k \<longrightarrow> \<not> table_chunk a k x) \<longrightarrow>
           chunk_view (ad_s a) st' x = chunk_view (ad_s a) st1 x)" ..
    note I = this [THEN conjunct1] this [THEN conjunct2, THEN conjunct1] this [THEN conjunct2, THEN conjunct2, THEN conjunct1]
      this [THEN conjunct2, THEN conjunct2, THEN conjunct2]
    have dj: "\<forall>k \<in> set is. \<forall>x. i \<noteq> k \<longrightarrow> table_chunk a i x \<longrightarrow> \<not> table_chunk a k x"
      using P [unfolded table_placed_def, THEN conjunct2, THEN conjunct2, THEN conjunct2] by blast
    have one: "Some (chunk_view (ad_s a) st' x) = ad_cache a ! i" if "table_chunk a i x" for x
    proof -
      have "\<not> table_chunk a k x" if "k \<in> set is" for k
        using dj Cons.prems(3) \<open>table_chunk a i x\<close> that by auto
      then have "chunk_view (ad_s a) st' x = chunk_view (ad_s a) st1 x"
        using I(4) xV [OF that] by simp
      then show ?thesis using S(4) [OF that] b(1) by simp
    qed
    have rest: "chunk_view (ad_s a) st' x = chunk_view (ad_s a) (ad_os a) x"
      if "x < V" "\<forall>k \<in> set (i # is). ad_modified a ! k \<longrightarrow> \<not> table_chunk a k x" for x
      using I(4) S(5) [OF that(1)] that True by simp
    show ?thesis
      using S(1) I(1,3) vol_only_trans [OF I(2) S(2)] one rest by (intro exI [of _ st']) simp
  qed
qed

lemma close_disks_data: "same_data (fold (close_disk \<circ> tm_d) ms st) st"
proof (induction ms arbitrary: st)
  case (Cons m ms)
  have "same_data (close_disk (tm_d m) st) st" by (simp add: close_disk_def os_call_def same_data_def same_host_def)
  then show ?case using same_data_trans [OF Cons.IH] by simp
qed simp

lemma hentry_of_cached:
  assumes "hentry_of r a = Inr e"
  obtains buf where "ad_cache a ! place_chk a r = Some buf" "e = hentry_get (field buf (place_off a r) 244)"
  using assms
  by (auto simp: hentry_of_def hentry_at_def cached_def place_chk_def place_off_def Let_def split: if_splits option.splits)

text \<open>
  C10: unmounting makes the changes durable. When the places of the table's chunks on the volume are
  inside it and disjoint and no call fails or transfers less than asked, every modified chunk of the table is on the volume
  afterwards, in the table and, when there is one, in its backup; every entry in it reads back from
  there as it was in memory; and no other chunk of the volume changes.
\<close>

theorem umount_writes_back:
  assumes R: "vol_ready a V" and P: "table_placed a V {..<unat (ad_htable_len a)}"
  shows "\<exists>st'. adm_umount_shfs a = (Inr (), a\<lparr>ad_os := st'\<rparr>) \<and>
    (\<forall>i < unat (ad_htable_len a). ad_modified a ! i \<longrightarrow>
       (\<forall>x. table_chunk a i x \<longrightarrow> Some (chunk_view (ad_s a) st' x) = ad_cache a ! i)) \<and>
    (\<forall>r e x. hentry_of r a = Inr e \<longrightarrow> place_chk a r < unat (ad_htable_len a) \<longrightarrow> ad_modified a ! place_chk a r \<longrightarrow>
       table_chunk a (place_chk a r) x \<longrightarrow> hentry_get (field (chunk_view (ad_s a) st' x) (place_off a r) 244) = e) \<and>
    (\<forall>x < V. (\<forall>i < unat (ad_htable_len a). ad_modified a ! i \<longrightarrow> \<not> table_chunk a i x) \<longrightarrow>
       chunk_view (ad_s a) st' x = chunk_view (ad_s a) (ad_os a) x)"
proof -
  let ?n = "unat (ad_htable_len a)"
  have "table_placed a V (set [0..<?n])" using P by (simp add: atLeast0LessThan)
  from write_back_chunks_ok [OF R this] obtain st1 where
    "write_back_chunks [0..<?n] a = (Inr (), a\<lparr>ad_os := st1\<rparr>) \<and> vol_only (ad_s a) st1 (ad_os a) \<and>
     (\<forall>i \<in> set [0..<?n]. ad_modified a ! i \<longrightarrow> (\<forall>x. table_chunk a i x \<longrightarrow> Some (chunk_view (ad_s a) st1 x) = ad_cache a ! i)) \<and>
     (\<forall>x < V. (\<forall>i \<in> set [0..<?n]. ad_modified a ! i \<longrightarrow> \<not> table_chunk a i x) \<longrightarrow>
        chunk_view (ad_s a) st1 x = chunk_view (ad_s a) (ad_os a) x)" by (metis distinct_upt)
  note W = this [THEN conjunct1] this [THEN conjunct2, THEN conjunct2, THEN conjunct1]
    this [THEN conjunct2, THEN conjunct2, THEN conjunct2]
  let ?st = "fold (close_disk \<circ> tm_d) (sg_member (ad_s a)) st1"
  have v: "chunk_view (ad_s a) ?st x = chunk_view (ad_s a) st1 x" for x by (rule same_data_views [OF close_disks_data])
  have 1: "adm_umount_shfs a = (Inr (), a\<lparr>ad_os := ?st\<rparr>)" by (simp add: adm_umount_shfs_def W(1))
  have 2: "\<forall>i < ?n. ad_modified a ! i \<longrightarrow> (\<forall>x. table_chunk a i x \<longrightarrow> Some (chunk_view (ad_s a) ?st x) = ad_cache a ! i)"
    using W(2) unfolding v by simp
  have 3: "hentry_get (field (chunk_view (ad_s a) ?st x) (place_off a r) 244) = e"
    if h: "hentry_of r a = Inr e" and i: "place_chk a r < ?n" "ad_modified a ! place_chk a r" "table_chunk a (place_chk a r) x" for r e x
  proof -
    obtain buf where "ad_cache a ! place_chk a r = Some buf" "e = hentry_get (field buf (place_off a r) 244)"
      using hentry_of_cached [OF h] .
    moreover have "Some (chunk_view (ad_s a) ?st x) = ad_cache a ! place_chk a r" using 2 i by blast
    ultimately show ?thesis by simp
  qed
  have 4: "\<forall>x < V. (\<forall>i < ?n. ad_modified a ! i \<longrightarrow> \<not> table_chunk a i x) \<longrightarrow>
      chunk_view (ad_s a) ?st x = chunk_view (ad_s a) (ad_os a) x"
    using W(3) unfolding v by simp
  show ?thesis by (intro exI [of _ ?st] conjI 1 2 4 allI impI 3)
qed

theorem umount_writes_back_witness:
  "\<exists>st'. adm_umount_shfs (small_adm\<lparr>ad_modified := [True], ad_cache := [Some (replicate 512 1)], ad_htable_bak_ref := 4\<rparr>) =
      (Inr (), small_adm\<lparr>ad_modified := [True], ad_cache := [Some (replicate 512 1)], ad_htable_bak_ref := 4, ad_os := st'\<rparr>) \<and>
    chunk_view small_storage st' 2 = replicate 512 1 \<and> chunk_view small_storage st' 4 = replicate 512 1 \<and>
    chunk_view small_storage st' 3 = chunk_view small_storage small_os 3"
proof -
  let ?a = "small_adm\<lparr>ad_modified := [True], ad_cache := [Some (replicate 512 1)], ad_htable_bak_ref := 4\<rparr>"
  have R: "vol_ready ?a 8" using small_ready by (simp add: vol_ready_def small_adm_def)
  have P: "table_placed ?a 8 {..<unat (ad_htable_len ?a)}"
    by (simp add: table_placed_def table_chunk_def small_adm_def)
  have c: "table_chunk ?a 0 2" "table_chunk ?a 0 4" "\<not> table_chunk ?a 0 3" by (simp_all add: table_chunk_def small_adm_def)
  have n: "unat (ad_htable_len ?a) = 1" "ad_modified ?a ! 0" "ad_cache ?a ! 0 = Some (replicate 512 1)"
    "ad_s ?a = small_storage" "ad_os ?a = small_os" by (simp_all add: small_adm_def)
  obtain st' where U: "adm_umount_shfs ?a = (Inr (), ?a\<lparr>ad_os := st'\<rparr>)"
    "\<forall>x. table_chunk ?a 0 x \<longrightarrow> Some (chunk_view small_storage st' x) = Some (replicate 512 1)"
    "\<forall>x < 8. \<not> table_chunk ?a 0 x \<longrightarrow> chunk_view small_storage st' x = chunk_view small_storage small_os x"
    using umount_writes_back [OF R P] n by (metis less_one)
  show ?thesis using U(1) U(2) [rule_format, OF c(1)] U(2) [rule_format, OF c(2)] U(3) [rule_format, OF _ c(3)]
    by (intro exI [of _ st']) simp
qed

section \<open>The default object\<close>

text \<open>The tool remembers the default object, and it is the only one that has the flag.\<close>

definition default_ok :: "adm \<Rightarrow> elref list \<Rightarrow> bool" where
  "default_ok a els \<longleftrightarrow> (\<forall>r. ad_def_bentry a = Some r \<longrightarrow> r \<in> set els) \<and>
     (\<forall>r \<in> set els. \<forall>e. hentry_of r a = Inr e \<longrightarrow> (SHFS_HENTRY_ISDEFAULT e \<longleftrightarrow> ad_def_bentry a = Some r))"

lemma default_frame [simp]:
  "table_ok (a\<lparr>ad_def_bentry := d\<rparr>) els = table_ok a els" "hentry_of r (a\<lparr>ad_def_bentry := d\<rparr>) = hentry_of r a"
  by (simp_all add: table_ok_def place_chk_def place_off_def hentry_of_def hentry_at_def cached_def Let_def)

lemma flag_bits:
  fixes x d :: u8
  shows "(x AND NOT d) AND d = 0" "d \<noteq> 0 \<Longrightarrow> (x OR d) AND d \<noteq> 0" "(x OR d) AND NOT d = x AND NOT d"
    "(x AND NOT d) AND NOT d = x AND NOT d"
proof -
  show "(x AND NOT d) AND d = 0" "(x OR d) AND NOT d = x AND NOT d" "(x AND NOT d) AND NOT d = x AND NOT d"
    by (rule bit_word_eqI; auto simp: bit_simps)+
  have "(x OR d) AND d = d" by (rule bit_word_eqI) (auto simp: bit_simps)
  then show "d \<noteq> 0 \<Longrightarrow> (x OR d) AND d \<noteq> 0" by simp
qed

lemma bentry_flags_ok:
  assumes t: "table_ok a els" and r: "r \<in> set els"
  obtains e a' where "hentry_of r a = Inr e" "bentry_flags f r a = (Inr (Inr ()), a')" "table_ok a' els"
    "hentry_of r a' = Inr (e\<lparr>he_flags := f (he_flags e)\<rparr>)" "\<And>q. q \<in> set els \<Longrightarrow> q \<noteq> r \<Longrightarrow> hentry_of q a' = hentry_of q a"
    "ad_def_bentry a' = ad_def_bentry a" "ad_modified a' ! place_chk a r"
proof -
  note r' = els_in_table [OF t r]
  obtain e where e: "hentry_of r a = Inr e" "hentry_wf e" using hentry_of_ok [OF t r'] .
  have wf: "hentry_wf (e\<lparr>he_flags := f (he_flags e)\<rparr>)" using e(2) by (simp add: hentry_wf_def)
  note S = set_hentry_ok [OF t r' wf]
  have b: "bentry_flags f r a = (Inr (Inr ()), set_hentry r (e\<lparr>he_flags := f (he_flags e)\<rparr>) a)"
    using e(1) by (simp add: bentry_flags_def)
  have d: "ad_def_bentry (set_hentry r (e\<lparr>he_flags := f (he_flags e)\<rparr>) a) = ad_def_bentry a"
    by (simp add: set_hentry_def put_hentry_def Let_def split: sum.split)
  show thesis
    by (rule that [OF e(1) b S(3,1) S(2) [OF els_in_table [OF t]] d S(5)])
qed

text \<open>What changes of an entry is at most the DEFAULT flag.\<close>

definition but_default :: "shfs_hentry \<Rightarrow> shfs_hentry" where
  "but_default e = e\<lparr>he_flags := he_flags e AND NOT SHFS_EFLAG_DEFAULT\<rparr>"

definition same_objects :: "adm \<Rightarrow> adm \<Rightarrow> elref list \<Rightarrow> bool" where
  "same_objects a' a els \<longleftrightarrow>
     (\<forall>q \<in> set els. map_sum id but_default (hentry_of q a') = map_sum id but_default (hentry_of q a))"

lemma same_objects_refl [simp]: "same_objects a a els" by (simp add: same_objects_def)
lemma same_objects_trans: "same_objects c b els \<Longrightarrow> same_objects b a els \<Longrightarrow> same_objects c a els"
  by (simp add: same_objects_def)
lemma same_objects_def_bentry [simp]:
  "same_objects (a'\<lparr>ad_def_bentry := d\<rparr>) a els = same_objects a' a els" by (simp add: same_objects_def)

lemma bentry_flags_same:
  assumes t: "table_ok a els" and r: "r \<in> set els" and f: "\<And>x. f x AND NOT SHFS_EFLAG_DEFAULT = x AND NOT SHFS_EFLAG_DEFAULT"
    and e: "hentry_of r a = Inr e" "hentry_of r a' = Inr (e\<lparr>he_flags := f (he_flags e)\<rparr>)"
    and o: "\<And>q. q \<in> set els \<Longrightarrow> q \<noteq> r \<Longrightarrow> hentry_of q a' = hentry_of q a"
  shows "same_objects a' a els"
proof -
  have b: "but_default (e\<lparr>he_flags := f (he_flags e)\<rparr>) = but_default e" using f [of "he_flags e"] by (simp add: but_default_def)
  have "map_sum id but_default (hentry_of q a') = map_sum id but_default (hentry_of q a)" if "q \<in> set els" for q
    using o [OF that] by (cases "q = r") (simp_all add: e b)
  then show ?thesis by (simp add: same_objects_def)
qed

lemma cleardefault_ok:
  assumes t: "table_ok a els" and d: "default_ok a els"
  obtains a' where "actn_cleardefault a = (Inr (Inr ()), a')" "table_ok a' els" "default_ok a' els" "ad_def_bentry a' = None"
    "same_objects a' a els"
proof (cases "ad_def_bentry a")
  case None
  then show ?thesis using t d by (intro that [of a]) (simp_all add: actn_cleardefault_def)
next
  case (Some r)
  have r: "r \<in> set els" using d Some by (simp add: default_ok_def)
  obtain e a1 where F: "hentry_of r a = Inr e" "bentry_flags (\<lambda>x. x AND NOT SHFS_EFLAG_DEFAULT) r a = (Inr (Inr ()), a1)"
    "table_ok a1 els" "hentry_of r a1 = Inr (e\<lparr>he_flags := he_flags e AND NOT SHFS_EFLAG_DEFAULT\<rparr>)"
    "\<And>q. q \<in> set els \<Longrightarrow> q \<noteq> r \<Longrightarrow> hentry_of q a1 = hentry_of q a"
    using bentry_flags_ok [OF t r] by metis
  have off: "\<not> SHFS_HENTRY_ISDEFAULT (e\<lparr>he_flags := he_flags e AND NOT SHFS_EFLAG_DEFAULT\<rparr>)"
    unfolding SHFS_HENTRY_ISDEFAULT_def using flag_bits(1) [of "he_flags e" SHFS_EFLAG_DEFAULT] by simp
  have "\<not> SHFS_HENTRY_ISDEFAULT k" if "q \<in> set els" "hentry_of q a1 = Inr k" for q k
  proof (cases "q = r")
    case True
    then show ?thesis using that(2) F(4) off by simp
  next
    case False
    then show ?thesis using that F(5) d Some unfolding default_ok_def by (metis option.inject)
  qed
  then have "default_ok (a1\<lparr>ad_def_bentry := None\<rparr>) els" by (simp add: default_ok_def)
  moreover have "same_objects a1 a els"
    by (rule bentry_flags_same [where f = "\<lambda>x. x AND NOT SHFS_EFLAG_DEFAULT", OF t r _ F(1) F(4) F(5)]) (rule flag_bits(4))
  moreover have "actn_cleardefault a = (Inr (Inr ()), a1\<lparr>ad_def_bentry := None\<rparr>)"
    using F(2) Some by (simp add: actn_cleardefault_def bentry_clearflags_def)
  ultimately show ?thesis using F(3) by (intro that [of "a1\<lparr>ad_def_bentry := None\<rparr>"]) simp_all
qed

text \<open>
  C13: there is one default object. \<open>actn_setdefault\<close> with the printed digest of an object makes it the
  default object, of which the tool keeps the entry and which alone has the DEFAULT flag; and
  \<open>actn_cleardefault\<close> leaves no entry with the flag. Both change nothing else of any object.
\<close>

theorem setdefault_single:
  assumes t: "table_ok a els" and d: "default_ok a els" and h: "length h = 64"
    and r: "ht_abs (ad_bt a) els (ht_key (ad_bt a) h) = Some r" and p: "tn_path tk = hash_unparse h (ad_hlen a)"
  shows "\<exists>a1 a2. actn_setdefault tk a = (Inr (Inr ()), a1) \<and> ad_def_bentry a1 = Some r \<and> default_ok a1 els \<and>
    same_objects a1 a els \<and>
    actn_cleardefault a1 = (Inr (Inr ()), a2) \<and> ad_def_bentry a2 = None \<and> default_ok a2 els \<and> same_objects a2 a els"
proof -
  obtain g where g: "find_object tk a = (Inr (Inr (g, r)), a)" using find_object_ok [OF t h r p] by metis
  have dk: "distinct (ht_keys (ad_bt a) els)" using t by (simp add: table_ok_def)
  have re: "r \<in> set els" using r by (simp add: ht_abs_Some [OF dk])
  obtain b where C: "actn_cleardefault a = (Inr (Inr ()), b)" "table_ok b els" "default_ok b els" "ad_def_bentry b = None"
    "same_objects b a els" using cleardefault_ok [OF t d] .
  obtain e c where F: "hentry_of r b = Inr e" "bentry_flags (\<lambda>x. x OR SHFS_EFLAG_DEFAULT) r b = (Inr (Inr ()), c)"
    "table_ok c els" "hentry_of r c = Inr (e\<lparr>he_flags := he_flags e OR SHFS_EFLAG_DEFAULT\<rparr>)"
    "\<And>q. q \<in> set els \<Longrightarrow> q \<noteq> r \<Longrightarrow> hentry_of q c = hentry_of q b"
    using bentry_flags_ok [OF C(2) re] by metis
  let ?a1 = "c\<lparr>ad_def_bentry := Some r\<rparr>"
  have on: "SHFS_HENTRY_ISDEFAULT (e\<lparr>he_flags := he_flags e OR SHFS_EFLAG_DEFAULT\<rparr>)"
    unfolding SHFS_HENTRY_ISDEFAULT_def using flag_bits(2) [of SHFS_EFLAG_DEFAULT "he_flags e"] by simp
  have "SHFS_HENTRY_ISDEFAULT k \<longleftrightarrow> q = r" if "q \<in> set els" "hentry_of q c = Inr k" for q k
  proof (cases "q = r")
    case True
    then show ?thesis using that(2) F(4) on by simp
  next
    case False
    then show ?thesis using that F(5) C(3,4) unfolding default_ok_def by (metis option.distinct(1))
  qed
  then have D: "default_ok ?a1 els" using re by (auto simp: default_ok_def)
  have "same_objects c b els"
    by (rule bentry_flags_same [where f = "\<lambda>x. x OR SHFS_EFLAG_DEFAULT", OF C(2) re _ F(1) F(4) F(5)]) (rule flag_bits(3))
  then have so: "same_objects ?a1 a els" using same_objects_trans C(5) by simp
  have s: "actn_setdefault tk a = (Inr (Inr ()), ?a1)"
    using F(2) by (simp add: actn_setdefault_def g C(1) bentry_setflags_def)
  have t1: "table_ok ?a1 els" using F(3) by simp
  obtain a2 where A: "actn_cleardefault ?a1 = (Inr (Inr ()), a2)" "default_ok a2 els" "ad_def_bentry a2 = None"
    "same_objects a2 ?a1 els" using cleardefault_ok [OF t1 D] .
  show ?thesis
    by (intro exI [of _ ?a1] exI [of _ a2] conjI s D so A(1-3) same_objects_trans [OF A(4) so]) simp
qed

text \<open>The small volume with one object in slot 0 of its table.\<close>

definition one_bt :: btable where
  "one_bt = small_bt\<lparr>ht_list := \<lparr>dl_first = Some (0, 0), dl_last = Some (0, 0)\<rparr>,
     ht_bkts := [[replicate 64 1, replicate 64 0]]\<rparr>"

lemma one_ok: "htable_ok one_bt [(0, 0)]" "distinct (ht_keys one_bt [(0, 0)])"
  "ht_abs one_bt [(0, 0)] (ht_key one_bt (replicate 64 1)) = Some (0, 0)"
proof -
  have sz: "unat (nb_bkts one_bt) = 1" "unat (el_per_bkt one_bt) = 2" by (simp_all add: one_bt_def small_bt_def)
  have m: "r = (0, 0) \<or> r = (0, 1)" if "fst r < 1" "snd r < 2" for r :: elref
    using that by (cases r) auto
  have e: "r \<in> set [(0, 0)] \<longleftrightarrow> fst r < unat (nb_bkts one_bt) \<and> snd r < unat (el_per_bkt one_bt) \<and>
      \<not> zero_key (ht_key one_bt (ht_slot one_bt r))" for r
  proof (cases "fst r < 1 \<and> snd r < 2")
    case True
    then show ?thesis using m [of r]
      by (auto simp: sz) (simp_all add: zero_key_def ht_key_def ht_slot_def one_bt_def small_bt_def list_all_iff)
  next
    case False
    then show ?thesis by (auto simp: sz)
  qed
  have l: "length (ht_bkts one_bt ! b) = 2 \<and> (\<forall>i < 2. length (ht_bkts one_bt ! b ! i) = 64)" if "b < 1" for b
    using that by (simp add: one_bt_def less_2_cases_iff all_conj_distrib)
  have sh: "nb_bkts one_bt \<noteq> 0 \<and> ht_hlen one_bt \<le> 64 \<and> length (ht_bkts one_bt) = 1 \<and>
      dl_repr (ht_links one_bt) (ht_list one_bt) [(0, 0)]" by (simp add: one_bt_def small_bt_def dl_repr_def)
  obtain b where "htable_bkt_no (ht_slot one_bt (0, 0)) (ht_hlen one_bt) (nb_bkts one_bt) = Inr b" "unat b < 1"
    using htable_bkt_no_range [of "nb_bkts one_bt" "ht_slot one_bt (0, 0)" "ht_hlen one_bt"]
    by (auto simp: one_bt_def small_bt_def ht_slot_def)
  then have bn: "htable_bkt_no (ht_slot one_bt (0, 0)) (ht_hlen one_bt) (nb_bkts one_bt) = Inr 0" by (simp add: unat_eq_zero)
  show "htable_ok one_bt [(0, 0)]"
    unfolding htable_ok_def using e sh l bn by (simp add: sz)
  show "distinct (ht_keys one_bt [(0, 0)])" by (simp add: ht_keys_def)
  show "ht_abs one_bt [(0, 0)] (ht_key one_bt (replicate 64 1)) = Some (0, 0)"
    by (simp add: ht_abs_def ht_slot_def one_bt_def small_bt_def)
qed

lemma one_table: "table_ok (small_adm\<lparr>ad_bt := one_bt\<rparr>) [(0, 0)]"
proof -
  let ?a = "small_adm\<lparr>ad_bt := one_bt\<rparr>"
  have sb: "ad_bt small_adm = small_bt" by (simp add: small_adm_def)
  have p: "place_chk ?a = place_chk small_adm" "place_off ?a = place_off small_adm" "in_table (ad_bt ?a) = in_table (ad_bt small_adm)"
    by (simp_all add: fun_eq_iff place_chk_def place_off_def in_table_def sb) (simp_all add: one_bt_def)
  have "ht_hlen one_bt = ad_hlen small_adm" by (simp add: one_bt_def small_bt_def small_adm_def)
  then show ?thesis using small_table one_ok unfolding table_ok_def p by simp
qed

theorem setdefault_single_witness:
  "\<exists>a1 a2. actn_setdefault (new_token SETDEFOBJ (hash_unparse (replicate 64 1) 4)) (small_adm\<lparr>ad_bt := one_bt\<rparr>) = (Inr (Inr ()), a1) \<and>
     ad_def_bentry a1 = Some (0, 0) \<and> actn_cleardefault a1 = (Inr (Inr ()), a2) \<and> ad_def_bentry a2 = None"
proof -
  let ?a = "small_adm\<lparr>ad_bt := one_bt\<rparr>"
  have "hentry_of (0, 0) ?a = Inr (hentry_get (replicate 244 0))"
    by (simp add: hentry_of_def hentry_at_def cached_def small_adm_def one_bt_def small_bt_def field_def)
  moreover have "ad_def_bentry ?a = None" by (simp add: small_adm_def)
  ultimately have d: "default_ok ?a [(0, 0)]"
    by (simp add: default_ok_def SHFS_HENTRY_ISDEFAULT_def hentry_get_def get8_def field_def)
  have p: "tn_path (new_token SETDEFOBJ (hash_unparse (replicate 64 1) 4)) = hash_unparse (replicate 64 1) (ad_hlen ?a)"
    by (simp add: new_token_def small_adm_def)
  have r: "ht_abs (ad_bt ?a) [(0, 0)] (ht_key (ad_bt ?a) (replicate 64 1)) = Some (0, 0)" using one_ok(3) by simp
  show ?thesis using setdefault_single [OF one_table d _ r p] by auto
qed

section \<open>Failing to add a file\<close>

text \<open>An action that leaves the allocator alone and, when it gives up, returns -1 or -2.\<close>

named_theorems gives_up

definition keeps_al :: "shfs_alist \<Rightarrow> 'a act \<Rightarrow> bool" where
  "keeps_al al m \<longleftrightarrow> ad_al (snd m) = al \<and> (\<forall>n. fst m = Inr (Inl n) \<longrightarrow> n = - 1 \<or> n = - 2)"

lemma keeps_al_simps [simp]:
  "keeps_al al (Inl e, a) = (ad_al a = al)" "keeps_al al (Inr (Inr x), a) = (ad_al a = al)"
  "keeps_al al (ret n a) = (ad_al a = al \<and> (n = - 1 \<or> n = - 2))" "keeps_al al (crash f a) = (ad_al a = al)"
  "keeps_al al (adm_die a) = (ad_al a = al)"
  by (auto simp: keeps_al_def ret_def crash_def adm_die_def)

lemma keeps_al_continue:
  assumes "keeps_al al m" and "\<And>x a. ad_al a = al \<Longrightarrow> keeps_al al (k x a)"
  shows "keeps_al al (case m of (Inl e, a) \<Rightarrow> (Inl e, a) | (Inr (Inl n), a) \<Rightarrow> ret n a | (Inr (Inr x), a) \<Rightarrow> k x a)"
proof (cases m)
  case (Pair r a)
  have a: "ad_al a = al" "\<And>n. r = Inr (Inl n) \<Longrightarrow> n = - 1 \<or> n = - 2" using assms(1) by (auto simp: Pair keeps_al_def)
  consider e where "r = Inl e" | n where "r = Inr (Inl n)" | x where "r = Inr (Inr x)" by (metis obj_sumE)
  then show ?thesis using a assms(2) by cases (simp_all add: Pair)
qed

lemma keeps_al_abind:
  assumes "keeps_al al m" and "\<And>x a. ad_al a = al \<Longrightarrow> keeps_al al (k x a)"
  shows "keeps_al al (abind m k)"
proof -
  have "abind m k = (case m of (Inl e, a) \<Rightarrow> (Inl e, a) | (Inr (Inl n), a) \<Rightarrow> ret n a | (Inr (Inr x), a) \<Rightarrow> k x a)"
    by (auto simp: abind_def tbind_def split: prod.split sum.split)
  then show ?thesis using keeps_al_continue [OF assms] by simp
qed

lemma on_os_al: "on_os f a = (r, a') \<Longrightarrow> ad_al a' = ad_al a"
  by (auto simp: on_os_def split: prod.splits)

lemma adm_malloc_al: "adm_malloc n a = (r, a') \<Longrightarrow> ad_al a' = ad_al a"
  by (auto simp: adm_malloc_def dest: on_os_al split: prod.splits)

lemma keeps_al_read [gives_up]: "ad_al a = al \<Longrightarrow> keeps_al al (read_part fd n tmp a)"
  by (auto simp: read_part_def dest: on_os_al split: prod.split option.split)

lemma keeps_al_seek [gives_up]: "ad_al a = al \<Longrightarrow> keeps_al al (seek_file fd a)"
  by (auto simp: seek_file_def dest: on_os_al split: prod.split)

lemma keeps_al_cancelled [gives_up]: "ad_al a = al \<Longrightarrow> keeps_al al (act_cancelled a)"
  by (simp add: act_cancelled_def)

lemma keeps_al_init [gives_up]: "ad_al a = al \<Longrightarrow> keeps_al al (init_mhash a)"
  by (auto simp: init_mhash_def dest: on_os_al split: prod.split option.split)

lemma keeps_al_manual [gives_up]: "ad_al a = al \<Longrightarrow> keeps_al al (manual_digest j a)"
  by (simp add: manual_digest_def split: option.split)

lemma keeps_al_new_entry [gives_up]: "ad_al a = al \<Longrightarrow> keeps_al al (new_entry h a)"
  by (simp add: new_entry_def split: sum.split error.split prod.split)

lemma set_hentry_al: "ad_al (set_hentry r e a) = ad_al a"
  by (simp add: set_hentry_def put_hentry_def Let_def split: sum.split)

lemma keeps_al_fill [gives_up]: "ad_al a = al \<Longrightarrow> keeps_al al (fill_file_entry j now h c n r a)"
  by (simp add: fill_file_entry_def set_hentry_al Let_def split: sum.split)

lemma keeps_al_hash_parts [gives_up]: "ad_al a = al \<Longrightarrow> keeps_al al (hash_parts fd lens fed tmp a)"
proof (induction lens arbitrary: fed tmp a)
  case (Cons n lens)
  have "keeps_al al (abind (read_part fd n tmp a) (\<lambda>tmp a. abind (act_cancelled a) (\<lambda>_ a. (Inr (Inr tmp), a))))"
    by (intro keeps_al_abind gives_up Cons.prems) simp_all
  from keeps_al_continue [OF this Cons.IH] show ?case by simp
qed simp

lemma keeps_al_write [gives_up]:
  assumes "ad_al a = al" and "\<And>b a. ad_al a = al \<Longrightarrow> keeps_al al (k b a)"
  shows "keeps_al al (tbind (adm_write_chunk c buf a) k)"
  using assms by (auto simp: adm_write_chunk_def crash_def Let_def split: prod.split sum.split)

lemma keeps_al_copy_parts [gives_up]: "ad_al a = al \<Longrightarrow> keeps_al al (copy_parts fd lens c tmp a)"
proof (induction lens arbitrary: c tmp a)
  case (Cons n lens)
  let ?tmp = "if lens = [] then replicate (length tmp) 0 else tmp"
  have "keeps_al al (abind (read_part fd n ?tmp a) (\<lambda>tmp a. tbind (adm_write_chunk c tmp a) (\<lambda>ok a.
      if \<not> ok then ret (- 1) a else abind (act_cancelled a) (\<lambda>_ a. (Inr (Inr tmp), a)))))"
    by (intro keeps_al_abind gives_up Cons.prems) (simp_all add: keeps_al_abind gives_up)
  from keeps_al_continue [OF this Cons.IH] show ?case by (simp add: Let_def)
qed simp

lemma keeps_al_hash_file [gives_up]: "ad_al a = al \<Longrightarrow> keeps_al al (hash_file mh fd fsize csize tmp a)"
  unfolding hash_file_def by (intro keeps_al_abind gives_up) (auto split: prod.split)

lemma keeps_al_store_file:
  assumes "ad_al a = al"
  shows "keeps_al al (store_file mh now j fd fsize csize c a)"
proof (cases "adm_malloc (unat (ad_chunksize a)) a")
  case (Pair m a1)
  have a1: "ad_al a1 = al" using adm_malloc_al [OF Pair] assms by simp
  show ?thesis
  proof (cases m)
    case None
    then show ?thesis using a1 by (simp add: store_file_def Pair)
  next
    case (Some tmp)
    have "keeps_al al (if ad_hfunc a1 \<noteq> SHFUNC_MANUAL then hash_file mh fd fsize (unat csize) tmp a1
        else abind (manual_digest j a1) (\<lambda>h a. (Inr (Inr (h, tmp)), a)))"
      using a1 by (auto intro: keeps_al_abind gives_up)
    then show ?thesis
      unfolding store_file_def Pair Some prod.case option.case
      by (rule keeps_al_abind) (auto intro!: keeps_al_abind gives_up split: prod.split)
  qed
qed

lemma alloc_ready_os [simp]: "alloc_ready (a\<lparr>ad_os := st\<rparr>) es = alloc_ready a es"
  by (simp add: alloc_ready_def)

lemma open_file_al:
  assumes "open_file path a = (r, a1)"
  shows "ad_al a1 = ad_al a \<and> ad_volsize a1 = ad_volsize a \<and>
    (case r of Inl e \<Rightarrow> False | Inr (Inl n) \<Rightarrow> n = - 1 | Inr (Inr x) \<Rightarrow> os_calls (ad_os a1) = os_calls (ad_os a) + 2)"
  using assms
  by (auto simp: open_file_def on_os_def os_call_def os_upd_def ret_def Let_def split: option.splits if_splits)

text \<open>The areas after registering a container, a step that keeps the allocator, and unregistering it.\<close>

lemma register_release:
  assumes ok: "al_ok (ad_al a) es" and new: "of_nat (Suc (os_calls (ad_os a))) \<notin> set es"
    and free: "\<lparr>ae_start = c, ae_end = c + n\<rparr> \<notin># al_areas (ad_al a) es"
    and b: "ad_al b = ad_al (snd (adm_register c n a))"
  obtains ok1 a1 ok2 b' es' where "adm_register c n a = (Inr ok1, a1)" "adm_unregister c n b = (Inr ok2, b')"
    "al_ok (ad_al b') es'" "al_areas (ad_al b') es' = al_areas (ad_al a) es"
proof -
  let ?new = "of_nat (Suc (os_calls (ad_os a))) :: addr"
  let ?a = "a\<lparr>ad_os := (ad_os a)\<lparr>os_calls := Suc (os_calls (ad_os a))\<rparr>\<rparr>"
  have C: "on_os os_call a = (os_fails (ad_os a) (os_calls (ad_os a)), ?a)" by (simp add: on_os_def os_call_def)
  note RU = shfs_alist_register_unregister [OF ok new, of c n]
  show thesis
  proof (cases "os_fails (ad_os a) (os_calls (ad_os a))")
    case True
    then have r: "adm_register c n a = (Inr False, ?a)" by (simp add: adm_register_def C shfs_alist_register_def)
    have "shfs_alist_unregister (ad_al a) c n = Some (Inl ENOENT)" using RU free by blast
    then have u: "adm_unregister c n b = (Inr False, b)" using b r by (simp add: adm_unregister_def)
    show thesis by (rule that [OF r u]) (use ok b r in simp_all)
  next
    case False
    obtain al1 al2 es2 where R: "shfs_alist_register (Some ?new) (ad_al a) c n = Some (Inr al1)"
      "shfs_alist_unregister al1 c n = Some (Inr al2)" "al_ok al2 es2" "al_areas al2 es2 = al_areas (ad_al a) es"
      using RU by blast
    have r: "adm_register c n a = (Inr True, ?a\<lparr>ad_al := al1\<rparr>)"
      using False R(1) by (simp add: adm_register_def C del: of_nat_Suc)
    have u: "adm_unregister c n b = (Inr True, b\<lparr>ad_al := al2\<rparr>)" using b r R(2) by (simp add: adm_unregister_def)
    show thesis by (rule that [OF r u]) (use R(3,4) in simp_all)
  qed
qed

lemma container_not_taken:
  assumes al: "alloc_ready a es" and c: "shfs_alist_find_free (ad_al a) n = Some c" "c \<noteq> 0"
  shows "\<lparr>ae_start = c, ae_end = c + n\<rparr> \<notin># al_areas (ad_al a) es"
proof
  let ?x = "\<lparr>ae_start = c, ae_end = c + n\<rparr>"
  assume "?x \<in># al_areas (ad_al a) es"
  then have x: "?x \<in> set (areas_of a es)" by (simp add: al_areas_def areas_of_def)
  have "\<forall>e \<in> set (areas_of a es). ae_start e < ae_end e"
    using al unfolding alloc_ready_def areas_of_def staircase_def by blast
  then have lt: "c < c + n" using x by auto
  then have "0 < n" by (cases "n = 0") (auto simp: word_gt_0)
  from container_free [OF al this c] have "unat c \<notin> area_set ?x" if "0 < unat n"
    using x that by (simp add: gap_def)
  moreover have "0 < unat n" using \<open>0 < n\<close> by (simp add: word_less_nat_alt)
  ultimately show False using lt by (simp add: area_set_def word_less_nat_alt)
qed

text \<open>
  C12: when \<open>actn_addfile\<close> gives up, it returns -1 or -2 and has released the container again: whatever
  call fails and whenever the user aborts, the allocator is well formed and holds exactly the areas
  that it held before.
\<close>

theorem addfile_releases_container:
  assumes al: "alloc_ready a es" and new: "of_nat (os_calls (ad_os a) + 3) \<notin> set es"
    and run: "actn_addfile mh now j a = (Inr (Inl n), a')"
  shows "(n = - 1 \<or> n = - 2) \<and> (\<exists>es'. al_ok (ad_al a') es' \<and> al_areas (ad_al a') es' = al_areas (ad_al a) es)"
proof -
  have ok: "al_ok (ad_al a) es" using al by (simp add: alloc_ready_def)
  then have same: ?thesis if "n = - 1 \<or> n = - 2" "ad_al a' = ad_al a" using that by auto
  obtain r a1 where O: "open_file (tn_path j) a = (r, a1)" by fastforce
  note oa = open_file_al [OF O]
  show ?thesis
  proof (cases "\<exists>fd fsize. r = Inr (Inr (fd, fsize))")
    case False
    then obtain m where "r = Inr (Inl m)" "m = - 1" using oa by (cases r) (auto split: sum.splits)
    then show ?thesis using run oa O by (intro same) (simp_all add: actn_addfile_def ret_def)
  next
    case True
    then obtain fd fsize where r: "r = Inr (Inr (fd, fsize))" by blast
    let ?n = "chunks_of (of_nat fsize) a1"
    have a1: "ad_al a1 = ad_al a" "ad_volsize a1 = ad_volsize a" "os_calls (ad_os a1) = os_calls (ad_os a) + 2" using oa r by simp_all
    have cs: "ad_chunksize a1 \<noteq> 0" using run by (auto simp: actn_addfile_def O r crash_def)
    obtain c where c: "shfs_alist_find_free (ad_al a1) ?n = Some c"
      using run cs by (auto simp: actn_addfile_def O r crash_def Let_def split: option.splits)
    show ?thesis
    proof (cases "c = 0 \<or> c \<ge> ad_volsize a1")
      case True
      then have "(ret (- 1) a1 :: unit act) = (Inr (Inl n), a')"
        using run cs c by (auto simp: actn_addfile_def O r Let_def)
      then show ?thesis using a1 by (intro same) (auto simp: ret_def)
    next
      case F: False
      have nc: "\<lparr>ae_start = c, ae_end = c + ?n\<rparr> \<notin># al_areas (ad_al a1) es"
        using container_not_taken [OF al] c F by (simp add: a1)
      have n1: "of_nat (Suc (os_calls (ad_os a1))) \<notin> set es" using new by (simp add: a1 add.commute)
      have ok1: "al_ok (ad_al a1) es" using ok a1 by simp
      obtain g a2 where G: "adm_register c ?n a1 = (g, a2)" by fastforce
      define m where "m = store_file mh now j fd fsize ?n c a2"
      have K: "keeps_al (ad_al a2) m" unfolding m_def by (rule keeps_al_store_file) simp
      have b: "ad_al (snd m) = ad_al (snd (adm_register c ?n a1))" using K by (simp add: keeps_al_def G)
      obtain k1 k2 b' es' x1 where U: "adm_register c ?n a1 = (Inr k1, x1)" "adm_unregister c ?n (snd m) = (Inr k2, b')"
        "al_ok (ad_al b') es'" "al_areas (ad_al b') es' = al_areas (ad_al a1) es"
        using register_release [OF ok1 n1 nc b] by metis
      have g: "g = Inr k1" using U(1) G by simp
      have "on_ret m (\<lambda>a. tbind (adm_unregister c ?n a) (\<lambda>_ a. (Inr (), a))) = (Inr (Inl n), a')"
        using run cs c F G g by (simp add: actn_addfile_def O r Let_def m_def)
      then have m: "fst m = Inr (Inl n)" "a' = b'"
        using U(2) by (cases m; auto simp: on_ret_def tbind_def ret_def split: sum.splits prod.splits)+
      then show ?thesis using K U(3,4) a1 by (auto simp: keeps_al_def)
    qed
  qed
qed

text \<open>The allocation of the buffer fails.\<close>

theorem addfile_releases_container_witness:
  "\<exists>n a' es'. actn_addfile (\<lambda>_ _. replicate 64 1) 0 (new_token ADDOBJ ''f'') (small_adm\<lparr>ad_os := small_os\<lparr>os_fails := (\<lambda>k. k = 3)\<rparr>\<rparr>) =
      (Inr (Inl n), a') \<and> n = - 1 \<and> al_areas (ad_al a') es' = al_areas (ad_al small_adm) [1]"
proof -
  let ?a = "small_adm\<lparr>ad_os := small_os\<lparr>os_fails := (\<lambda>k. k = 3)\<rparr>\<rparr>" and ?j = "new_token ADDOBJ ''f''" and ?mh = "\<lambda>_ _. replicate 64 1"
  have al: "alloc_ready ?a [1]" using small_alloc by simp
  have new: "of_nat (os_calls (ad_os ?a) + 3) \<notin> set [1 :: addr]" by (simp add: small_os_def)
  obtain a1 where O: "open_file (tn_path ?j) ?a = (Inr (Inr (5, 600)), a1)" "ad_al a1 = ad_al small_adm" "ad_volsize a1 = 8"
    "ad_chunksize a1 = 512" "os_calls (ad_os a1) = 2" "os_fails (ad_os a1) = (\<lambda>k. k = 3)"
    by (simp add: open_file_def on_os_def os_call_def os_upd_def small_adm_def small_os_def small_file_def Let_def)
  have n: "chunks_of 600 a1 = 2" by (simp add: chunks_of_def DIV_ROUND_UP_def O)
  have c: "shfs_alist_find_free (ad_al a1) 2 = Some 3"
    using al_ok_foreach [of "ad_al small_adm" "[1]"] small_alloc
    by (simp add: O shfs_alist_find_free_def alloc_ready_def) (simp add: small_adm_def)
  have ok: "al_ok (ad_al a1) [1]" using small_alloc by (simp add: alloc_ready_def O)
  have new1: "of_nat (Suc (os_calls (ad_os a1))) \<notin> set [1 :: addr]" by (simp add: O)
  have free: "\<lparr>ae_start = 3, ae_end = 3 + 2\<rparr> \<notin># al_areas (ad_al a1) [1]" by (simp add: al_areas_def O small_adm_def)
  obtain k1 a2 where G: "adm_register 3 2 a1 = (Inr k1, a2)" "os_calls (ad_os a2) = 3" "os_fails (ad_os a2) = (\<lambda>k. k = 3)"
    using register_returns [OF ok, of 3 3 2] by (auto simp: adm_register_def on_os_def os_call_def O)
  have s: "store_file ?mh 0 ?j 5 600 2 3 a2 = ret (- 1) (a2\<lparr>ad_os := (ad_os a2)\<lparr>os_calls := 4\<rparr>\<rparr>)" (is "_ = ret _ ?b")
    by (simp add: store_file_def adm_malloc_def on_os_def os_call_def G)
  have b: "ad_al ?b = ad_al (snd (adm_register 3 2 a1))" by (simp add: G)
  obtain k2 b' where U: "adm_unregister 3 2 ?b = (Inr k2, b')" using register_release [OF ok new1 free b] by metis
  have run: "actn_addfile ?mh 0 ?j ?a = (Inr (Inl (- 1)), b')"
    by (simp add: actn_addfile_def O n c [unfolded O(2)] G s U ret_def)
  from addfile_releases_container [OF al new run] show ?thesis using run by auto
qed

end
