(* ===== verification/Spec2Isabelle.thy ===== *)
theory Spec2Isabelle
  imports Prelude Ring DList Mempool HashVal Htable Btable Alist ShfsDefs Blkdev Aio Cache AvailList CacheInv CacheProps Fio FioProps Diskio Mount MountTable MountLabel MountProps MountResult
    Tools ToolsProps Mkfs MkfsProps MkfsRun Admin AdminActs AdminIO AdminProps AdminVolume
begin

text \<open>
  A verification library of minipython: a unikernel for Xen that runs MicroPython on Mini-OS
  and mounts its files from an SHFS volume. The program's own logic is the storage stack in
  \<open>src/minios\<close>, and that is what the library models.

  \<^bold>\<open>The parts and how they interact.\<close> A file read goes down through six layers. \<open>shfs_fio.c\<close>
  finds the file's entry in the volume's bucket-entry table (\<open>shfs_btable.h\<close>, an instance of
  the hash table \<open>htable.c\<close> whose keys are the hash digests of \<open>hash.h\<close>) and turns file
  offsets into chunks; \<open>shfs_cache.c\<close> keeps chunks in buffers, shares the reads in flight and
  lends buffers out; \<open>shfs.c\<close> stripes a chunk over the members of the volume and counts the
  requests of a token; \<open>blkdev.c\<close> hands each request to the Xen block front end and runs its
  callback when it completes. The objects of all these layers come from \<open>mempool.c\<close>, which
  keeps its free ones in the ring of \<open>ring.c\<close>, and the lists are the macros of \<open>dlist.h\<close>.
  \<open>shfs_defs.h\<close> and \<open>shfs_check.c\<close> define the bytes on disk. Mounting (the first half of
  \<open>shfs.c\<close>) detects the members by their labels, sets up all these parts and loads the hash
  table; \<open>diskio.c\<close> lets FatFs use a block device.

  A volume is written on the host by the programs of \<open>shfs-tools\<close>: \<open>shfs_mkfs.c\<close> formats the
  members, \<open>shfs_admin.c\<close> mounts a volume into memory, adds, removes and exports its objects and
  writes the table back. Both use the synchronous chunk I/O of \<open>tools_common.c\<close>, the second also
  the hash table, the bucket-entry table and the chunk allocator of \<open>shfs_alloc.c\<close>. What the
  tools write is what the kernel mounts: the same records of \<open>ShfsDefs\<close> and the same places of
  the stripes.

  \<^bold>\<open>The theories.\<close>
  \<^item> \<open>Prelude\<close>: machine integers, \<open>errno\<close>, faults, \<open>POWER_OF_2\<close>, lemmas on lists and words.
  \<^item> \<open>Ring\<close> (\<open>ring.h\<close>, \<open>ring.c\<close>): the record \<open>ring\<close>, single and multiple enqueue and
    dequeue. The locale \<open>bounded_fifo\<close> is what a bounded queue promises; the ring is an
    interpretation of it.
  \<^item> \<open>DList\<close> (\<open>dlist.h\<close>): the list macros on a link map. The predicate \<open>dl_repr\<close> says that a head
    and a map hold a given list; the locale \<open>linked_list\<close> is the contract of the operations.
  \<^item> \<open>Mempool\<close> (\<open>mempool.h\<close>, \<open>mempool.c\<close>): allocation and layout of a pool, pick, put, resize.
    The locale \<open>object_pool\<close> says that an object is handed out once until it is put back.
  \<^item> \<open>HashVal\<close> (\<open>shfs/hash.h\<close>): compare, copy, parse and print of digests, in the 64-bit variant
    the kernel is built with and in the portable one.
  \<^item> \<open>Htable\<close> (\<open>htable.h\<close>, \<open>htable.c\<close>): the table of buckets with the list of used elements. The
    locale \<open>dictionary\<close> is a finite map with a bound per bucket.
  \<^item> \<open>Btable\<close> (\<open>shfs/shfs_btable.h\<close>): the bucket-entry table and \<open>shfs_btable_feed\<close>.
  \<^item> \<open>Alist\<close> (\<open>shfs_alloc.h\<close>, \<open>shfs_alloc.c\<close>): the list of used extents, first fit, best fit.
  \<^item> \<open>ShfsDefs\<close> (\<open>shfs_defs.h\<close>, \<open>shfs_check.c\<close>): the packed structs as records with
    their byte images (the code casts the buffer), the layout of the hash table, the label check, hosts and uuids.
  \<^item> \<open>Blkdev\<close> (\<open>blkdev.h\<close>, \<open>blkdev.c\<close>): the record \<open>bdst\<close>, opening and closing devices,
    requests, polling, synchronous I/O.
  \<^item> \<open>Aio\<close> (\<open>shfs.h\<close>, the second half of \<open>shfs.c\<close>): the record \<open>aiost\<close> extends \<open>bdst\<close>; tokens,
    striping, waiting.
  \<^item> \<open>Cache\<close>, \<open>AvailList\<close>, \<open>CacheInv\<close>, \<open>CacheProps\<close> (\<open>shfs_cache.h\<close>, \<open>shfs_cache.c\<close>): the
    record \<open>cachest\<close> extends \<open>aiost\<close>. \<open>Cache\<close> has the operations, \<open>AvailList\<close> what is left of
    a list whose head was cleared, \<open>CacheInv\<close> the invariant of the lists, the entries and the
    counters with its preservation, \<open>CacheProps\<close> the theorems.
  \<^item> \<open>Fio\<close>, \<open>FioProps\<close> (\<open>shfs_fio.h\<close>, \<open>shfs_fio.c\<close>): the record \<open>fsst\<close> extends \<open>cachest\<close>;
    opening, closing, attributes, reads.
  \<^item> \<open>Diskio\<close> (\<open>diskio.h\<close>, \<open>diskio.c\<close>): the disk layer of FatFs on a block device.
  \<^item> \<open>Mount\<close>, \<open>MountTable\<close>, \<open>MountLabel\<close>, \<open>MountProps\<close>, \<open>MountResult\<close> (the first half of \<open>shfs.c\<close>):
    \<open>Mount\<close> has mounting, remounting and unmounting, every error exit included; \<open>MountTable\<close> shows
    what loading the hash table gives, \<open>MountLabel\<close> what the label check and the assignment of the
    members promise, \<open>MountProps\<close> remounting and unmounting, \<open>MountResult\<close> the results of mounting.
  \<^item> \<open>Tools\<close>, \<open>ToolsProps\<close> (\<open>shfs-tools/tools_common.h\<close>, \<open>tools_common.c\<close>): the record \<open>os\<close> is the
    host the tools run on, with its files, which calls fail or transfer less than asked and when the user aborts; on it
    \<open>open_disk\<close>, the chunk I/O and erasing. A volume is an array of chunks (\<open>chunk_view\<close>).
  \<^item> \<open>Mkfs\<close>, \<open>MkfsProps\<close>, \<open>MkfsRun\<close> (\<open>shfs-tools/shfs_mkfs.c\<close>): arguments, headers and the whole
    run; \<open>MkfsProps\<close> is about the arguments and the label, \<open>MkfsRun\<close> about complete and
    interrupted runs.
  \<^item> \<open>Admin\<close>, \<open>AdminActs\<close> (\<open>shfs-tools/shfs_admin.c\<close>): the record \<open>adm\<close> is \<open>shfs_vol\<close> on a host.
    \<open>Admin\<close> mounts and unmounts, \<open>AdminActs\<close> has the arguments, the actions and \<open>main\<close>.
    \<open>AdminIO\<close> shows what the loops of the actions do to files and chunks, \<open>AdminProps\<close> adding and
    exporting a file, \<open>AdminVolume\<close> the write-back, the default object, the digest of a file and
    what a failed action leaves behind.

  \<^bold>\<open>How code becomes definitions.\<close> Each C struct is a record and each function a definition
  of the same name on an explicit state. Memory that the code addresses is a function from
  addresses to structs or bytes, pointers that may be null are options. Integers keep their
  width, so sums and products wrap as they do in C. A call that fails returns \<open>Inl\<close> of an
  \<open>errno\<close>; a failed \<open>ASSERT\<close>, a true \<open>BUG_ON\<close>, a null dereference, a division by zero and an
  access outside an array are \<open>Inl\<close> of a fault. A loop that waits for a device is a
  \<open>partial_function\<close> whose value \<open>None\<close> is a wait without end. That a device answers is a matter of the
  front end: \<open>blkdev_sync_io_returns\<close> and \<open>disk_read_returns\<close> show that the call returns when it does,
  \<open>blkdev_async_io_outcomes\<close> and \<open>umount_shfs_outcomes\<close> say also when it does not, and
  \<open>shfs_cache_aread_hands_out\<close>, \<open>load_vol_cconf_keeps_handles\<close>, \<open>load_vol_cconf_validates\<close> and
  \<open>mount_shfs_result\<close> are about calls that return. A callback in C is a function pointer with arguments:
  here it is a value, and a parameter \<open>call\<close> or \<open>ucb\<close> of the operation runs it.

  \<^bold>\<open>Parameters.\<close> The Xen block front end and its constants (record \<open>blkfront\<close>), the heap
  (record \<open>heap\<close>, and the optional addresses that single allocations return) and the results
  of Xenbus are not in the repository. They are arguments of the definitions, on a state of
  their own that the model carries as \<open>bd_world\<close>. The theorems that need more than their
  types state it as a hypothesis, and every such theorem has a witness with a concrete device or heap:
  \<open>answers\<close> (what the front end says, after how many full-ring answers, to one request with its
  offset, length and buffer), \<open>delivers\<close> (a request in flight completes after some polls with
  some bytes), \<open>reads_from\<close> (every read delivers the device's bytes at its offset), \<open>heap_ok\<close> (a
  new block is not in use) and \<open>io_keeps\<close> (the front end frees no block). \<open>schedule()\<close> only gives the processor to other threads, which here do
  nothing to the state: the variants with and without it differ only where the code does.
  For the tools the parameters are what \<open>getopt_long\<close> returns, the digests of \<open>mhash\<close>, the fields
  \<open>http_parser\<close> finds in a URL, name resolution, UUIDs, the time, the user's answer and the contents
  of fresh memory. A tool ends with a status or crashes (the type \<open>stop\<close>), and an action of
  \<open>shfs_admin\<close> ends with the number it returns or goes on.

  \<^bold>\<open>Bounds.\<close> No loop has fuel. The loops over lists recurse on the list that \<open>dlist_walk\<close> reads, and
  those over stripes and bits on a measure; a walk that follows links in memory without an end in
  sight, as that over the tokens that wait for a cache entry, is a \<open>partial_function\<close> and its
  endless run the value \<open>None\<close> or the fault \<open>No_return\<close>.

  \<^bold>\<open>What the lemmas show.\<close> The lower theories give each data structure an abstract value (a
  list, a set of free objects, a finite map) and show that every operation implements the
  abstract one and keeps the structure well formed. The theories on the tools do the same for a
  volume as an array of chunks, and follow whole runs: formatting, also when it is interrupted,
  and adding, exporting and writing back. \<open>Blkdev\<close>, \<open>CacheProps\<close> and \<open>FioProps\<close> define the
  states that sequences of operations reach and prove an invariant for all of them: the
  reference counts of devices, the lists, entries and counters of the cache, the open files. For the cache
  the operations are reads, blank buffers, releases and aborts, those of failed reads included, with
  completions at any time; the cache may grow, and the callbacks of its clients leave the cache alone, as
  the only other callback of the repository, \<open>load_vol_htable_cb\<close>, does. Flushing is modelled
  but is no step of these sequences. Beside these stand the functional behaviour on every branch,
  termination of the waits, round trips of the formats and the bounds of the arithmetic; some
  theorems show what the code does where it does not do what it means to.

  \<^bold>\<open>Not modelled.\<close> \<open>lwip\<close>, MicroPython and FatFs are submodules whose directories are empty: the
  bindings in \<open>mods\<close> (sockets, time, os), \<open>main.c\<close>, \<open>minipython.c\<close>, \<open>builtin_open.c\<close> and the port
  layer (terminal, configuration, scanning registers) are calls into them and into the C library.
  \<open>shfs_stats\<close> is not compiled in. What the tools and the shell commands of \<open>shfs_tools.c\<close> print is
  left out, and so are debugging helpers and compiler shims, which have no state.
\<close>

end
